(* ===== verification/Prelude.thy ===== *)
theory Prelude
  imports Main "HOL-Library.Word" "HOL-Library.Multiset"
begin

text \<open>
  What the component theories share: the machine types of the C++ sources, the memory image
  of an integer as a little-endian list of digits (what \<^verbatim>\<open>memcpy\<close> from and to an
  \<^verbatim>\<open>uint160\<close>, \<^verbatim>\<open>uint64_t\<close> or \<^verbatim>\<open>uint32_t[]\<close> sees on the
  little-endian hosts the program targets), and generic lemmas on lists and arithmetic.

  The interface between the memory images and the machine words is the locale
  \<open>machine_digit\<close>: a digit type that reads as a number below a base. It is interpreted at
  the end of the theory for bytes and for 32-bit limbs.
\<close>

unbundle bit_operations_syntax

section \<open>Machine types\<close>

type_synonym u8 = "8 word"
type_synonym u16 = "16 word"
type_synonym u32 = "32 word"
type_synonym u64 = "64 word"
type_synonym uint160 = "160 word"
type_synonym uint256 = "256 word"
type_synonym vch_t = "u8 list"

named_theorems mem_simps \<open>reading back what was written to memory\<close>

lemma unat_less_exp: "unat (w :: 'a::len word) < 2 ^ LENGTH('a)"
  by (rule unsigned_less)

lemma unat_u8_less [simp]: "unat (w :: u8) < 256"
  using unat_less_exp [of w] by simp

lemma unat_u32_less [simp]: "unat (w :: u32) < 4294967296"
  using unat_less_exp [of w] by simp

lemma unat_u64_less [simp]: "unat (w :: u64) < 18446744073709551616"
  using unat_less_exp [of w] by simp

lemma unat_u8_le [simp]: "unat (w :: u8) \<le> 255"
  using unat_u8_less [of w] by linarith

lemma unat_u32_le [simp]: "unat (w :: u32) \<le> 4294967295"
  using unat_u32_less [of w] by linarith

lemma unat_u64_le [simp]: "unat (w :: u64) \<le> 18446744073709551615"
  using unat_u64_less [of w] by linarith

section \<open>Little-endian digit lists\<close>

primrec le_val :: "nat \<Rightarrow> nat list \<Rightarrow> nat" where
  "le_val b [] = 0"
| "le_val b (d # ds) = d + b * le_val b ds"

primrec le_digits :: "nat \<Rightarrow> nat \<Rightarrow> nat \<Rightarrow> nat list" where
  "le_digits b 0 x = []"
| "le_digits b (Suc n) x = x mod b # le_digits b n (x div b)"

lemma length_le_digits [simp]: "length (le_digits b n x) = n"
  by (induction n arbitrary: x) auto

lemma le_val_append: "le_val b (xs @ ys) = le_val b xs + b ^ length xs * le_val b ys"
  by (induction xs) (auto simp: algebra_simps)

lemma le_val_replicate_0 [simp]: "le_val b (replicate n 0) = 0"
  by (induction n) auto

lemma le_val_bound:
  assumes "\<And>d. d \<in> set ds \<Longrightarrow> d < b"
  shows "le_val b ds < b ^ length ds"
  using assms
proof (induction ds)
  case (Cons d ds)
  then have "Suc (le_val b ds) \<le> b ^ length ds" and "d < b" by auto
  then have "d + b * le_val b ds < b * Suc (le_val b ds)" by simp
  also have "\<dots> \<le> b * b ^ length ds" using \<open>Suc (le_val b ds) \<le> b ^ length ds\<close> by (rule mult_le_mono2)
  finally show ?case by simp
qed simp

lemma le_val_le_digits: "le_val b (le_digits b n x) = x mod b ^ n"
proof (induction n arbitrary: x)
  case (Suc n)
  then show ?case by (simp add: mod_mult2_eq mult.commute)
qed simp

lemma le_digits_le_val:
  assumes "\<And>d. d \<in> set ds \<Longrightarrow> d < b"
  shows "le_digits b (length ds) (le_val b ds) = ds"
  using assms by (induction ds) (auto simp: div_add1_eq)

lemma take_le_digits: "m \<le> n \<Longrightarrow> take m (le_digits b n x) = le_digits b m x"
proof (induction n arbitrary: m x)
  case (Suc n)
  then show ?case by (cases m) auto
qed simp

lemma le_digits_less: "0 < b \<Longrightarrow> d \<in> set (le_digits b n x) \<Longrightarrow> d < b"
  by (induction n arbitrary: x) auto

lemma le_val_inject:
  assumes "length xs = length ys" and "le_val b xs = le_val b ys"
    and "\<And>d. d \<in> set xs \<Longrightarrow> d < b" and "\<And>d. d \<in> set ys \<Longrightarrow> d < b"
  shows "xs = ys"
  using le_digits_le_val [of xs b] le_digits_le_val [of ys b] assms by metis

text \<open>Carrying out of one digit: the low digit, and the rest taken with the carry.\<close>

lemma mod_carry:
  assumes "0 < (b :: nat)"
  shows "n mod b + b * ((n div b + x) mod m) = (n + b * x) mod (b * m)"
  using assms unfolding mod_mult2_eq by (simp add: add.commute)

section \<open>Digit types: the interface of a machine word used as a digit\<close>

text \<open>
  \<open>dig\<close> reads a digit, \<open>undig\<close> stores a number into one (keeping it modulo the base,
  as an assignment to a narrower unsigned type does).
\<close>

locale machine_digit =
  fixes dig :: "'d \<Rightarrow> nat" and undig :: "nat \<Rightarrow> 'd" and b :: nat
  assumes base: "1 < b"
    and dig_less: "dig d < b"
    and dig_undig: "dig (undig n) = n mod b"
    and undig_dig: "undig (dig d) = d"
begin

lemma map_undig_dig: "map undig (map dig ds) = ds"
  by (simp add: undig_dig comp_def)

lemma dig_inject: "dig x = dig y \<longleftrightarrow> x = y"
  by (metis undig_dig)

lemma image_bound: "le_val b (map dig ds) < b ^ length ds"
  using le_val_bound [of "map dig ds" b] dig_less by auto

lemma image_roundtrip: "map undig (le_digits b (length ds) (le_val b (map dig ds))) = ds"
proof -
  have "le_digits b (length (map dig ds)) (le_val b (map dig ds)) = map dig ds"
    by (rule le_digits_le_val) (auto simp: dig_less)
  then show ?thesis by (simp add: undig_dig comp_def)
qed

lemma val_roundtrip: "le_val b (map dig (map undig (le_digits b n x))) = x mod b ^ n"
proof -
  have "\<And>d. d \<in> set (le_digits b n x) \<Longrightarrow> dig (undig d) = d"
    using base le_digits_less [of b _ n x] by (simp add: dig_undig)
  then have "map dig (map undig (le_digits b n x)) = le_digits b n x"
    by (simp add: map_idI)
  then show ?thesis by (simp add: le_val_le_digits)
qed

lemma image_inject:
  assumes "length xs = length ys" and "le_val b (map dig xs) = le_val b (map dig ys)"
  shows "xs = ys"
  using image_roundtrip [of xs] image_roundtrip [of ys] assms by metis

end

section \<open>The memory image of an integer\<close>

text \<open>
  \<open>le_bytes n x\<close> is what copying the low \<open>n\<close> bytes of an unsigned integer of value
  \<open>x\<close> out of memory gives; \<open>bytes_val\<close> reads such an image back.
\<close>

definition bytes_val :: "vch_t \<Rightarrow> nat" where
  "bytes_val bs = le_val 256 (map unat bs)"

definition le_bytes :: "nat \<Rightarrow> nat \<Rightarrow> vch_t" where
  "le_bytes n x = map of_nat (le_digits 256 n x)"

interpretation byte: machine_digit "unat :: u8 \<Rightarrow> nat" "of_nat :: nat \<Rightarrow> u8" 256
  by unfold_locales (simp_all add: unat_of_nat)

interpretation limb: machine_digit "unat :: u32 \<Rightarrow> nat" "of_nat :: nat \<Rightarrow> u32" "2 ^ 32"
  by unfold_locales (simp_all add: unat_of_nat)

lemma length_le_bytes [simp]: "length (le_bytes n x) = n"
  by (simp add: le_bytes_def)

lemma bytes_val_le_bytes [mem_simps]: "bytes_val (le_bytes n x) = x mod 256 ^ n"
  unfolding bytes_val_def le_bytes_def by (rule byte.val_roundtrip)

lemma le_bytes_bytes_val [mem_simps]: "length bs = n \<Longrightarrow> le_bytes n (bytes_val bs) = bs"
  unfolding bytes_val_def le_bytes_def using byte.image_roundtrip [of bs] by simp

lemma bytes_val_bound: "bytes_val bs < 256 ^ length bs"
  unfolding bytes_val_def by (rule byte.image_bound)

lemma bytes_val_append: "bytes_val (xs @ ys) = bytes_val xs + 256 ^ length xs * bytes_val ys"
  by (simp add: bytes_val_def le_val_append)

lemma take_le_bytes: "m \<le> n \<Longrightarrow> take m (le_bytes n x) = le_bytes m x"
  by (simp add: le_bytes_def take_map take_le_digits)

lemma le_bytes_mod: "le_bytes n (x mod 256 ^ n) = le_bytes n x"
  using bytes_val_le_bytes [of n x] le_bytes_bytes_val [of "le_bytes n x" n] by simp

lemma le_bytes_inject:
  assumes "le_bytes n x = le_bytes n y" and "x < 256 ^ n" and "y < 256 ^ n"
  shows "x = y"
  using assms by (metis bytes_val_le_bytes mod_less)

section \<open>Integers in memory\<close>

definition uint160_bytes :: "uint160 \<Rightarrow> vch_t" where
  "uint160_bytes h = le_bytes 20 (unat h)"

definition uint160_of_bytes :: "vch_t \<Rightarrow> uint160" where
  "uint160_of_bytes bs = of_nat (bytes_val (take 20 bs))"

definition u64_bytes :: "u64 \<Rightarrow> vch_t" where
  "u64_bytes n = le_bytes 8 (unat n)"

definition u64_of_bytes :: "vch_t \<Rightarrow> u64" where
  "u64_of_bytes bs = of_nat (bytes_val (take 8 bs))"

lemma length_uint160_bytes [simp]: "length (uint160_bytes h) = 20"
  by (simp add: uint160_bytes_def)

lemma length_u64_bytes [simp]: "length (u64_bytes n) = 8"
  by (simp add: u64_bytes_def)

lemma uint160_of_bytes_append [mem_simps]: "uint160_of_bytes (uint160_bytes h @ bs) = h"
proof -
  have "unat h < 256 ^ 20" using unat_less_exp [of h] by simp
  then show ?thesis by (simp add: uint160_of_bytes_def uint160_bytes_def bytes_val_le_bytes)
qed

lemma uint160_of_uint160_bytes [mem_simps]: "uint160_of_bytes (uint160_bytes h) = h"
  using uint160_of_bytes_append [of h "[]"] by simp

lemma uint160_bytes_of_bytes [mem_simps]:
  assumes "length bs = 20"
  shows "uint160_bytes (uint160_of_bytes bs) = bs"
proof -
  have "bytes_val bs < 2 ^ 160" using bytes_val_bound [of bs] assms by simp
  then show ?thesis
    using assms by (simp add: uint160_bytes_def uint160_of_bytes_def unat_of_nat le_bytes_bytes_val)
qed

lemma u64_of_bytes_append [mem_simps]: "u64_of_bytes (u64_bytes n @ bs) = n"
proof -
  have "unat n < 256 ^ 8" by simp
  then show ?thesis by (simp add: u64_of_bytes_def u64_bytes_def bytes_val_le_bytes)
qed

lemma u64_of_u64_bytes [mem_simps]: "u64_of_bytes (u64_bytes n) = n"
  using u64_of_bytes_append [of n "[]"] by simp

lemma u64_bytes_inject: "u64_bytes x = u64_bytes y \<longleftrightarrow> x = y"
  by (metis u64_of_u64_bytes)

lemma uint160_bytes_inject: "uint160_bytes x = uint160_bytes y \<longleftrightarrow> x = y"
  by (metis uint160_of_uint160_bytes)

section \<open>Copying into a buffer\<close>

text \<open>
  \<^verbatim>\<open>memcpy(&buf[at], src, n)\<close> on a vector of bytes; \<open>None\<close> when it would write
  past the end of the buffer.
\<close>

definition memcpy_at :: "'a list \<Rightarrow> nat \<Rightarrow> 'a list \<Rightarrow> 'a list option" where
  "memcpy_at buf at src =
     (if at + length src \<le> length buf
      then Some (take at buf @ src @ drop (at + length src) buf) else None)"

lemma memcpy_at_Some:
  "at + length src \<le> length buf \<Longrightarrow>
     memcpy_at buf at src = Some (take at buf @ src @ drop (at + length src) buf)"
  by (simp add: memcpy_at_def)

section \<open>Lists\<close>

text \<open>A checked element access: \<open>None\<close> where the C++ subscript is out of range.\<close>

definition nth_opt :: "'a list \<Rightarrow> nat \<Rightarrow> 'a option" where
  "nth_opt xs i = (if i < length xs then Some (xs ! i) else None)"

lemma nth_opt_Some_iff: "nth_opt xs i = Some x \<longleftrightarrow> i < length xs \<and> xs ! i = x"
  by (simp add: nth_opt_def)

lemma nth_opt_in_range [simp]: "i < length xs \<Longrightarrow> nth_opt xs i = Some (xs ! i)"
  by (simp add: nth_opt_def)

lemma take_Suc_nth_map: "i < length xs \<Longrightarrow> take (Suc i) xs = take i xs @ [xs ! i]"
  by (rule take_Suc_conv_app_nth)

lemma length_takeWhile_neq: "h \<in> set xs \<Longrightarrow> length (takeWhile (\<lambda>x. x \<noteq> h) xs) < length xs"
  by (induction xs) auto

text \<open>Two computations that may fail, one after the other.\<close>

definition both :: "('a \<Rightarrow> 'b \<Rightarrow> 'c) \<Rightarrow> 'a option \<Rightarrow> 'b option \<Rightarrow> 'c option" where
  "both f x y = (case x of None \<Rightarrow> None | Some a \<Rightarrow> (case y of None \<Rightarrow> None | Some b \<Rightarrow> Some (f a b)))"

lemma both_simps [simp]:
  "both f None y = None" "both f x None = None" "both f (Some a) (Some b) = Some (f a b)"
  by (auto simp: both_def split: option.splits)

lemma both_Some_iff: "both f x y = Some z \<longleftrightarrow> (\<exists>a b. x = Some a \<and> y = Some b \<and> z = f a b)"
  by (auto simp: both_def split: option.splits)

section \<open>Bits of a digit list\<close>

text \<open>A number kept as 32-bit digits, read bit by bit.\<close>

lemma bit_nat_less: "d < 2 ^ w \<Longrightarrow> bit (d :: nat) n \<Longrightarrow> n < w"
  by (metis bit_take_bit_iff take_bit_nat_eq_self_iff)

lemma nat_add_eq_or:
  assumes "d < 2 ^ w"
  shows "(d :: nat) + 2 ^ w * x = d OR push_bit w x"
proof -
  have "d + push_bit w x = d OR push_bit w x"
    by (rule disjunctive_add) (auto simp: bit_push_bit_iff dest: bit_nat_less [OF assms])
  then show ?thesis by (simp add: push_bit_eq_mult mult.commute)
qed

lemma bit_le_val:
  assumes "\<And>d. d \<in> set ds \<Longrightarrow> d < 2 ^ w" and "0 < w"
  shows "bit (le_val (2 ^ w) ds) n \<longleftrightarrow> n div w < length ds \<and> bit (ds ! (n div w)) (n mod w)"
  using assms(1)
proof (induction ds arbitrary: n)
  case Nil
  then show ?case by simp
next
  case (Cons d ds)
  have d: "d < 2 ^ w" using Cons.prems by simp
  then have eq: "le_val (2 ^ w) (d # ds) = d OR push_bit w (le_val (2 ^ w) ds)"
    by (simp add: nat_add_eq_or)
  show ?case
  proof (cases "n < w")
    case True
    then show ?thesis unfolding eq by (auto simp: bit_or_iff bit_push_bit_iff)
  next
    case False
    then have "n div w = Suc ((n - w) div w)" and "n mod w = (n - w) mod w"
      using assms(2) by (simp_all add: le_div_geq le_mod_geq)
    moreover have "bit (le_val (2 ^ w) ds) (n - w)
        \<longleftrightarrow> (n - w) div w < length ds \<and> bit (ds ! ((n - w) div w)) ((n - w) mod w)"
      by (rule Cons.IH) (use Cons.prems in auto)
    moreover have "\<not> bit d n" using bit_nat_less [OF d] False by blast
    ultimately show ?thesis
      using False unfolding eq by (auto simp: bit_or_iff bit_push_bit_iff)
  qed
qed

end
