(* ===== verification/Uint.thy ===== *)
theory Uint
  imports Prelude
begin

text \<open>
  The fixed-width unsigned integers of \<^verbatim>\<open>src/src/crypto/uint256.h\<close>: the class
  template \<^verbatim>\<open>base_uint<BITS>\<close> with its array \<^verbatim>\<open>pn\<close> of \<^verbatim>\<open>WIDTH\<close> 32-bit limbs,
  least significant first, and the classes \<^verbatim>\<open>uint160\<close> and \<^verbatim>\<open>uint256\<close>. A value is the
  list of its limbs, and \<^verbatim>\<open>WIDTH\<close> is the length of that list, so each operation is
  written once for every width, as the template is. Loops over the limbs are recursions on the
  lists or folds of array updates; the division loop, which may run forever, is a
  \<^verbatim>\<open>partial_function\<close>. The lemmas give each operation its meaning on \<open>uval\<close>, the number
  the limbs stand for.
\<close>

section \<open>The limbs\<close>

type_synonym limbs = "u32 list"

definition uval :: "limbs \<Rightarrow> nat" where
  "uval pn = le_val (2 ^ 32) (map unat pn)"

datatype uint_error = DivisionByZero

subsection \<open>Operators that work limb by limb\<close>

fun u_is_zero :: "limbs \<Rightarrow> bool" where
  "u_is_zero [] = True"
| "u_is_zero (x # pn) = (if x \<noteq> 0 then False else u_is_zero pn)"

definition u_compl :: "limbs \<Rightarrow> limbs" where
  "u_compl pn = map (\<lambda>x. NOT x) pn"

fun u_inc :: "limbs \<Rightarrow> limbs" where
  "u_inc [] = []"
| "u_inc (x # pn) = (if x + 1 = 0 then (x + 1) # u_inc pn else (x + 1) # pn)"

fun u_dec :: "limbs \<Rightarrow> limbs" where
  "u_dec [] = []"
| "u_dec (x # pn) = (if x - 1 = - 1 then (x - 1) # u_dec pn else (x - 1) # pn)"

definition u_neg :: "limbs \<Rightarrow> limbs" where
  "u_neg pn = u_inc (u_compl pn)"

definition u_of_u64 :: "nat \<Rightarrow> u64 \<Rightarrow> limbs" where
  "u_of_u64 W b = ucast b # ucast (drop_bit 32 b) # replicate (W - 2) 0"

definition u_xor :: "limbs \<Rightarrow> limbs \<Rightarrow> limbs" where
  "u_xor pn b = map2 (\<lambda>x y. x XOR y) pn b"

definition u_and :: "limbs \<Rightarrow> limbs \<Rightarrow> limbs" where
  "u_and pn b = map2 (\<lambda>x y. x AND y) pn b"

definition u_or :: "limbs \<Rightarrow> limbs \<Rightarrow> limbs" where
  "u_or pn b = map2 (\<lambda>x y. x OR y) pn b"

definition u_xor64 :: "limbs \<Rightarrow> u64 \<Rightarrow> limbs" where
  "u_xor64 pn b =
     (let pn = pn[0 := pn ! 0 XOR ucast b]
      in pn[1 := pn ! 1 XOR ucast (drop_bit 32 b)])"

definition u_or64 :: "limbs \<Rightarrow> u64 \<Rightarrow> limbs" where
  "u_or64 pn b =
     (let pn = pn[0 := pn ! 0 OR ucast b]
      in pn[1 := pn ! 1 OR ucast (drop_bit 32 b)])"

subsection \<open>Shifts\<close>

text \<open>One turn of the loop of each shift operator, on the array \<open>pn\<close> being rebuilt.\<close>

definition shl_step :: "limbs \<Rightarrow> nat \<Rightarrow> nat \<Rightarrow> nat \<Rightarrow> limbs \<Rightarrow> limbs" where
  "shl_step a k r i pn =
     (let pn = (if i + k + 1 < length a \<and> r \<noteq> 0
                then pn[i + k + 1 := pn ! (i + k + 1) OR drop_bit (32 - r) (a ! i)] else pn)
      in if i + k < length a then pn[i + k := pn ! (i + k) OR push_bit r (a ! i)] else pn)"

definition u_shl :: "limbs \<Rightarrow> nat \<Rightarrow> limbs" where
  "u_shl a shift =
     fold (shl_step a (shift div 32) (shift mod 32)) [0..<length a] (replicate (length a) 0)"

definition shr_step :: "limbs \<Rightarrow> nat \<Rightarrow> nat \<Rightarrow> nat \<Rightarrow> limbs \<Rightarrow> limbs" where
  "shr_step a k r i pn =
     (let pn = (if k + 1 \<le> i \<and> r \<noteq> 0
                then pn[i - k - 1 := pn ! (i - k - 1) OR push_bit (32 - r) (a ! i)] else pn)
      in if k \<le> i then pn[i - k := pn ! (i - k) OR drop_bit r (a ! i)] else pn)"

definition u_shr :: "limbs \<Rightarrow> nat \<Rightarrow> limbs" where
  "u_shr a shift =
     fold (shr_step a (shift div 32) (shift mod 32)) [0..<length a] (replicate (length a) 0)"

subsection \<open>Addition and subtraction\<close>

fun u_add_loop :: "u64 \<Rightarrow> limbs \<Rightarrow> limbs \<Rightarrow> limbs" where
  "u_add_loop carry (x # pn) (y # b) =
     (let n = carry + ucast x + ucast y
      in ucast (n AND 0xffffffff) # u_add_loop (drop_bit 32 n) pn b)"
| "u_add_loop carry pn b = []"

definition u_add :: "limbs \<Rightarrow> limbs \<Rightarrow> limbs" where
  "u_add pn b = u_add_loop 0 pn b"

definition u_sub :: "limbs \<Rightarrow> limbs \<Rightarrow> limbs" where
  "u_sub pn b = u_add pn (u_neg b)"

definition u_add64 :: "limbs \<Rightarrow> u64 \<Rightarrow> limbs" where
  "u_add64 pn b64 = u_add pn (u_of_u64 (length pn) b64)"

definition u_sub64 :: "limbs \<Rightarrow> u64 \<Rightarrow> limbs" where
  "u_sub64 pn b64 = u_add pn (u_neg (u_of_u64 (length pn) b64))"

subsection \<open>Comparisons\<close>

text \<open>The comparison loops run from the most significant limb down.\<close>

fun u_less_loop :: "limbs \<Rightarrow> limbs \<Rightarrow> bool" where
  "u_less_loop (x # a) (y # b) = (if x < y then True else if y < x then False else u_less_loop a b)"
| "u_less_loop a b = False"

definition u_less :: "limbs \<Rightarrow> limbs \<Rightarrow> bool" where
  "u_less a b = u_less_loop (rev a) (rev b)"

fun u_less_eq_loop :: "limbs \<Rightarrow> limbs \<Rightarrow> bool" where
  "u_less_eq_loop (x # a) (y # b) =
     (if x < y then True else if y < x then False else u_less_eq_loop a b)"
| "u_less_eq_loop a b = True"

definition u_less_eq :: "limbs \<Rightarrow> limbs \<Rightarrow> bool" where
  "u_less_eq a b = u_less_eq_loop (rev a) (rev b)"

fun u_greater_loop :: "limbs \<Rightarrow> limbs \<Rightarrow> bool" where
  "u_greater_loop (x # a) (y # b) =
     (if y < x then True else if x < y then False else u_greater_loop a b)"
| "u_greater_loop a b = False"

definition u_greater :: "limbs \<Rightarrow> limbs \<Rightarrow> bool" where
  "u_greater a b = u_greater_loop (rev a) (rev b)"

fun u_greater_eq_loop :: "limbs \<Rightarrow> limbs \<Rightarrow> bool" where
  "u_greater_eq_loop (x # a) (y # b) =
     (if y < x then True else if x < y then False else u_greater_eq_loop a b)"
| "u_greater_eq_loop a b = True"

definition u_greater_eq :: "limbs \<Rightarrow> limbs \<Rightarrow> bool" where
  "u_greater_eq a b = u_greater_eq_loop (rev a) (rev b)"

fun u_equal_loop :: "bool \<Rightarrow> limbs \<Rightarrow> limbs \<Rightarrow> bool" where
  "u_equal_loop result (x # a) (y # b) = u_equal_loop (if x \<noteq> y then False else result) a b"
| "u_equal_loop result a b = result"

definition u_equal :: "limbs \<Rightarrow> limbs \<Rightarrow> bool" where
  "u_equal a b = u_equal_loop True a b"

definition u_equal64 :: "limbs \<Rightarrow> u64 \<Rightarrow> bool" where
  "u_equal64 a b =
     (let result = True;
          result = (if a ! 0 \<noteq> ucast b then False else result);
          result = (if a ! 1 \<noteq> ucast (drop_bit 32 b) then False else result)
      in fold (\<lambda>x result. if x \<noteq> 0 then False else result) (drop 2 a) result)"

definition u_not_equal :: "limbs \<Rightarrow> limbs \<Rightarrow> bool" where
  "u_not_equal a b = (\<not> u_equal a b)"

definition u_not_equal64 :: "limbs \<Rightarrow> u64 \<Rightarrow> bool" where
  "u_not_equal64 a b = (\<not> u_equal64 a b)"

section \<open>What the operators compute\<close>

named_theorems uint_simps \<open>the operators on the numbers the limbs stand for\<close>

lemma uval_Nil [simp]: "uval [] = 0"
  by (simp add: uval_def)

lemma uval_Cons: "uval (x # pn) = unat x + 2 ^ 32 * uval pn"
  by (simp add: uval_def)

lemma uval_append: "uval (xs @ ys) = uval xs + 2 ^ (32 * length xs) * uval ys"
  by (simp add: uval_def le_val_append power_mult)

lemma uval_bound: "uval pn < 2 ^ (32 * length pn)"
  using limb.image_bound [of pn] by (simp add: uval_def power_mult)

lemma uval_inject: "length a = length b \<Longrightarrow> uval a = uval b \<longleftrightarrow> a = b"
  using limb.image_inject [of a b] by (auto simp: uval_def)

lemma uval_replicate_0 [simp]: "uval (replicate n 0) = 0"
  by (simp add: uval_def)

lemma uval_eq_0_iff: "uval pn = 0 \<longleftrightarrow> (\<forall>x \<in> set pn. x = 0)"
  by (induction pn) (auto simp: uval_Cons unat_eq_zero)

lemma bit_uval: "bit (uval pn) n \<longleftrightarrow> n div 32 < length pn \<and> bit (pn ! (n div 32)) (n mod 32)"
proof -
  have "bit (uval pn) n \<longleftrightarrow>
      n div 32 < length (map unat pn) \<and> bit (map unat pn ! (n div 32)) (n mod 32)"
    unfolding uval_def by (rule bit_le_val) auto
  then show ?thesis by (auto simp: bit_unsigned_iff)
qed

lemma u_is_zero_iff [uint_simps]: "u_is_zero pn \<longleftrightarrow> uval pn = 0"
  by (induction pn) (auto simp: uval_Cons unat_eq_zero)

lemma length_u_compl [simp]: "length (u_compl pn) = length pn"
  by (simp add: u_compl_def)

lemma length_u_inc [simp]: "length (u_inc pn) = length pn"
  by (induction pn) auto

lemma length_u_dec [simp]: "length (u_dec pn) = length pn"
  by (induction pn) auto

lemma length_u_neg [simp]: "length (u_neg pn) = length pn"
  by (simp add: u_neg_def)

lemma length_u_of_u64 [simp]: "2 \<le> W \<Longrightarrow> length (u_of_u64 W b) = W"
  by (simp add: u_of_u64_def)

lemma length_u_add_loop: "length (u_add_loop c a b) = min (length a) (length b)"
  by (induction c a b rule: u_add_loop.induct) (auto simp: Let_def)

lemma length_u_add [simp]: "length a = length b \<Longrightarrow> length (u_add a b) = length b"
  by (simp add: u_add_def length_u_add_loop)

lemma length_u_sub [simp]: "length a = length b \<Longrightarrow> length (u_sub a b) = length b"
  by (simp add: u_sub_def)

subsection \<open>Complement, increment, negation\<close>

lemma unat_not: "unat (NOT x :: 'a::len word) = 2 ^ LENGTH('a) - 1 - unat x"
proof -
  have "NOT x = - 1 - x" by (simp add: not_eq_complement)
  then show ?thesis by (simp add: unat_sub unsigned_minus_1_eq_mask mask_eq_exp_minus_1)
qed

lemma uval_u_compl: "uval (u_compl pn) + uval pn + 1 = 2 ^ (32 * length pn)"
proof (induction pn)
  case (Cons x pn)
  have "unat (NOT x) + unat x + 1 = 2 ^ 32"
    by (simp add: unat_not)
  then have "uval (u_compl (x # pn)) + uval (x # pn) + 1
      = 2 ^ 32 + 2 ^ 32 * (uval (u_compl pn) + uval pn)"
    by (simp add: u_compl_def uval_Cons algebra_simps)
  also have "\<dots> = 2 ^ 32 * (uval (u_compl pn) + uval pn + 1)"
    by (simp add: distrib_left)
  finally show ?case using Cons.IH by (simp add: power_add)
qed (simp add: u_compl_def)

lemma unat_plus_one: "unat (x + 1 :: 'a::len word) = (if x + 1 = 0 then 0 else unat x + 1)"
  using unatSuc [of x] by (auto simp: add.commute)

lemma uval_u_inc [uint_simps]: "uval (u_inc pn) = (uval pn + 1) mod 2 ^ (32 * length pn)"
proof (induction pn)
  case (Cons x pn)
  show ?case
  proof (cases "x + 1 = 0")
    case True
    then have x: "unat x = 2 ^ 32 - 1"
      using unsigned_minus_1_eq_mask [where 'a = nat and 'b = 32]
      by (simp add: eq_neg_iff_add_eq_0 [symmetric] mask_eq_exp_minus_1)
    have "uval (u_inc (x # pn)) = 2 ^ 32 * ((uval pn + 1) mod 2 ^ (32 * length pn))"
      using True Cons.IH by (simp add: uval_Cons)
    also have "\<dots> = (2 ^ 32 * (uval pn + 1)) mod (2 ^ 32 * 2 ^ (32 * length pn))"
      by (rule mult_mod_right)
    also have "2 ^ 32 * (uval pn + 1) = uval (x # pn) + 1"
      using x by (simp add: uval_Cons)
    finally show ?thesis by (simp add: power_add)
  next
    case False
    then have "uval (u_inc (x # pn)) = uval (x # pn) + 1"
      by (simp add: uval_Cons unat_plus_one)
    moreover have "uval (u_inc (x # pn)) < 2 ^ (32 * length (x # pn))"
      using uval_bound [of "u_inc (x # pn)"] by (simp del: u_inc.simps)
    ultimately show ?thesis by (simp del: u_inc.simps)
  qed
qed simp

lemma unat_max_u32 [simp]: "unat (- 1 :: u32) = 4294967295"
  using unsigned_minus_1_eq_mask [where 'a = nat and 'b = 32] by (simp add: mask_eq_exp_minus_1)

lemma uval_u_dec [uint_simps]:
  "uval (u_dec pn) = (if uval pn = 0 then 2 ^ (32 * length pn) - 1 else uval pn - 1)"
proof (induction pn)
  case (Cons x pn)
  have "x - 1 = - 1 \<longleftrightarrow> x = 0" by (simp add: diff_eq_eq)
  then show ?case
  proof (cases "x = 0")
    case True
    show ?thesis
    proof (cases "uval pn = 0")
      case True
      have "(2 :: nat) ^ 32 - 1 + 2 ^ 32 * (2 ^ (32 * length pn) - 1) = 2 ^ 32 * 2 ^ (32 * length pn) - 1"
        by (simp add: diff_mult_distrib2)
      then show ?thesis using \<open>x = 0\<close> True Cons.IH
        by (simp add: uval_Cons power_add)
    next
      case False
      then show ?thesis using \<open>x = 0\<close> Cons.IH
        by (simp add: uval_Cons diff_mult_distrib2)
    qed
  next
    case False
    then have "0 < unat x" by (simp add: unat_eq_zero neq0_conv [symmetric])
    then show ?thesis using False \<open>x - 1 = - 1 \<longleftrightarrow> x = 0\<close>
      by (simp add: uval_Cons unat_minus_one)
  qed
qed simp

lemma uval_u_neg [uint_simps]: "uval (u_neg pn) = (2 ^ (32 * length pn) - uval pn) mod 2 ^ (32 * length pn)"
proof -
  have "uval (u_compl pn) + 1 = 2 ^ (32 * length pn) - uval pn"
    using uval_u_compl [of pn] by linarith
  then show ?thesis by (simp add: u_neg_def uval_u_inc)
qed

subsection \<open>Addition and subtraction\<close>

lemma unat_low_limb: "unat (ucast (n AND 0xffffffff :: u64) :: u32) = unat n mod 2 ^ 32"
proof -
  have "(0xffffffff :: u64) = mask 32" by (simp add: mask_eq_exp_minus_1)
  then have "n AND 0xffffffff = take_bit 32 n" by (simp add: take_bit_eq_mask)
  then show ?thesis by (simp add: unsigned_ucast_eq unsigned_take_bit_eq) (simp add: take_bit_eq_mod)
qed

lemma unat_add3:
  assumes "unat c \<le> 1"
  shows "unat (c + ucast x + ucast y :: u64) = unat c + unat (x :: u32) + unat (y :: u32)"
proof -
  have [simp]: "unat (ucast x :: u64) = unat x" "unat (ucast y :: u64) = unat y"
    by (simp_all add: unsigned_ucast_eq take_bit_nat_eq_self_iff less_trans [OF unat_u32_less])
  have "unat c + unat x + unat y < 18446744073709551616"
    using assms unat_u32_less [of x] unat_u32_less [of y] by linarith
  then show ?thesis by (simp add: unat_word_ariths)
qed

lemma uval_u_add_loop:
  assumes "length a = length b" and "unat c \<le> 1"
  shows "uval (u_add_loop c a b) = (unat c + uval a + uval b) mod 2 ^ (32 * length a)"
  using assms
proof (induction c a b rule: u_add_loop.induct)
  case (1 c x a y b)
  define n where "n = c + ucast x + ucast y"
  have n: "unat n = unat c + unat x + unat y" using unat_add3 "1.prems" by (simp add: n_def)
  have c': "unat (drop_bit 32 n) = unat n div 2 ^ 32"
    by (simp add: unat_drop_bit_eq drop_bit_eq_div [of 32 "unat n"])
  have "unat n < 2 * 4294967296"
    using n "1.prems" unat_u32_less [of x] unat_u32_less [of y] by linarith
  then have "unat n div 2 ^ 32 \<le> 1" by simp
  then have IH: "uval (u_add_loop (drop_bit 32 n) a b)
      = (unat n div 2 ^ 32 + uval a + uval b) mod 2 ^ (32 * length a)"
    using "1.IH" [OF n_def] "1.prems" c' by simp
  have "uval (u_add_loop c (x # a) (y # b))
      = unat n mod 2 ^ 32 + 2 ^ 32 * ((unat n div 2 ^ 32 + uval a + uval b) mod 2 ^ (32 * length a))"
    using IH by (simp add: n_def [symmetric] uval_Cons unat_low_limb)
  also have "\<dots> = (unat n + 2 ^ 32 * (uval a + uval b)) mod (2 ^ 32 * 2 ^ (32 * length a))"
    by (subst mod_carry [symmetric]) (simp_all add: add.assoc)
  also have "unat n + 2 ^ 32 * (uval a + uval b) = unat c + uval (x # a) + uval (y # b)"
    by (simp add: n uval_Cons)
  finally show ?case by (simp add: power_add)
qed auto

lemma uval_u_add [uint_simps]:
  "length a = length b \<Longrightarrow> uval (u_add a b) = (uval a + uval b) mod 2 ^ (32 * length b)"
  by (simp add: u_add_def uval_u_add_loop)

lemma uval_u_sub [uint_simps]:
  "length a = length b \<Longrightarrow>
    uval (u_sub a b) = (uval a + (2 ^ (32 * length b) - uval b)) mod 2 ^ (32 * length b)"
  by (simp add: u_sub_def uval_u_add uval_u_neg mod_simps)

lemma uval_u_sub_le:
  assumes "length a = length b" and "uval b \<le> uval a"
  shows "uval (u_sub a b) = uval a - uval b"
proof -
  have "uval a + (2 ^ (32 * length b) - uval b) = (uval a - uval b) + 2 ^ (32 * length b)"
    using assms(2) uval_bound [of b] by simp
  moreover have "uval a - uval b < 2 ^ (32 * length b)"
    using assms(1) uval_bound [of a] by simp
  ultimately show ?thesis using assms(1) by (simp add: uval_u_sub)
qed

subsection \<open>Comparisons\<close>

lemma uval_less_snoc:
  assumes "length a = length b"
  shows "uval (a @ [x]) < uval (b @ [y]) \<longleftrightarrow> x < y \<or> x = y \<and> uval a < uval b"
proof -
  have le: "uval (xs @ [u]) < uval (ys @ [v])" if "u < v" "length xs = length ys" for xs ys u v
  proof -
    have "Suc (unat u) \<le> unat v" using that(1) by (simp add: word_less_nat_alt)
    then have "2 ^ (32 * length xs) * Suc (unat u) \<le> 2 ^ (32 * length xs) * unat v"
      by (rule mult_le_mono2)
    then show ?thesis
      using uval_bound [of xs] that(2) by (simp add: uval_append uval_Cons)
  qed
  consider "x < y" | "y < x" | "x = y" by (metis linorder_less_linear)
  then show ?thesis
    using assms le [of x y a b] le [of y x b a] by cases (auto simp: uval_append uval_Cons)
qed

lemma u_less_eq_uval [uint_simps]: "length a = length b \<Longrightarrow> u_less a b \<longleftrightarrow> uval a < uval b"
proof (induction a b rule: rev_induct2)
  case (4 x xs y ys)
  then show ?case by (auto simp: u_less_def uval_less_snoc)
qed (auto simp: u_less_def)

lemma u_less_eq_loop_iff: "length a = length b \<Longrightarrow> u_less_eq_loop a b \<longleftrightarrow> \<not> u_less_loop b a"
  by (induction a b rule: u_less_loop.induct) auto

lemma u_greater_loop_iff: "length a = length b \<Longrightarrow> u_greater_loop a b \<longleftrightarrow> u_less_loop b a"
  by (induction a b rule: u_less_loop.induct) auto

lemma u_greater_eq_loop_iff: "length a = length b \<Longrightarrow> u_greater_eq_loop a b \<longleftrightarrow> \<not> u_less_loop a b"
  by (induction a b rule: u_less_loop.induct) auto

lemma u_less_eq_iff [uint_simps]: "length a = length b \<Longrightarrow> u_less_eq a b \<longleftrightarrow> uval a \<le> uval b"
  using u_less_eq_uval [of b a] u_less_eq_loop_iff [of "rev a" "rev b"]
  by (auto simp: u_less_eq_def u_less_def)

lemma u_greater_iff [uint_simps]: "length a = length b \<Longrightarrow> u_greater a b \<longleftrightarrow> uval b < uval a"
  using u_less_eq_uval [of b a] u_greater_loop_iff [of "rev a" "rev b"]
  by (auto simp: u_greater_def u_less_def)

lemma u_greater_eq_iff [uint_simps]: "length a = length b \<Longrightarrow> u_greater_eq a b \<longleftrightarrow> uval b \<le> uval a"
  using u_less_eq_uval [of a b] u_greater_eq_loop_iff [of "rev a" "rev b"]
  by (auto simp: u_greater_eq_def u_less_def)

lemma u_equal_loop_iff: "length a = length b \<Longrightarrow> u_equal_loop r a b \<longleftrightarrow> r \<and> a = b"
  by (induction r a b rule: u_equal_loop.induct) auto

lemma u_equal_iff [uint_simps]: "length a = length b \<Longrightarrow> u_equal a b \<longleftrightarrow> uval a = uval b"
  by (simp add: u_equal_def u_equal_loop_iff uval_inject)

lemma uval_u_of_u64 [uint_simps]: "uval (u_of_u64 W b) = unat b"
proof -
  have "unat (ucast b :: u32) = unat b mod 2 ^ 32"
    by (simp add: unsigned_ucast_eq) (simp add: take_bit_eq_mod)
  moreover have "unat (ucast (drop_bit 32 b) :: u32) = unat b div 2 ^ 32"
    by (simp add: unsigned_ucast_eq unat_drop_bit_eq take_bit_nat_eq_self_iff
        drop_bit_eq_div [of 32 "unat b"] less_mult_imp_div_less)
  ultimately show ?thesis by (simp add: u_of_u64_def uval_Cons)
qed

lemma u_equal64_iff [uint_simps]:
  assumes "2 \<le> length a"
  shows "u_equal64 a b \<longleftrightarrow> uval a = unat b"
proof -
  have loop: "fold (\<lambda>x r. if x \<noteq> 0 then False else r) zs r \<longleftrightarrow> r \<and> zs = replicate (length zs) 0"
    for r and zs :: limbs
    by (induction zs arbitrary: r) auto
  obtain x y zs where a: "a = x # y # zs"
    using assms by (metis Suc_le_length_iff numeral_2_eq_2)
  have "u_equal64 a b \<longleftrightarrow> a = u_of_u64 (length a) b"
    using loop [of zs] by (auto simp: a u_equal64_def u_of_u64_def Let_def)
  then show ?thesis
    using assms uval_inject [of a "u_of_u64 (length a) b"] by (simp add: uval_u_of_u64)
qed

subsection \<open>Bitwise operators\<close>

lemma uval_eqI:
  assumes "\<And>n. bit (uval a) n = bit x n"
  shows "uval a = x"
  by (rule bit_eqI) (use assms in blast)

lemma uval_u_and [uint_simps]: "length a = length b \<Longrightarrow> uval (u_and a b) = (uval a AND uval b)"
  by (rule uval_eqI) (auto simp: bit_uval bit_and_iff u_and_def)

lemma uval_u_or [uint_simps]: "length a = length b \<Longrightarrow> uval (u_or a b) = (uval a OR uval b)"
  by (rule uval_eqI) (auto simp: bit_uval bit_or_iff u_or_def)

lemma uval_u_xor [uint_simps]: "length a = length b \<Longrightarrow> uval (u_xor a b) = (uval a XOR uval b)"
  by (rule uval_eqI) (auto simp: bit_uval bit_xor_iff u_xor_def)

lemma length_u_and [simp]: "length a = length b \<Longrightarrow> length (u_and a b) = length b"
  by (simp add: u_and_def)


subsection \<open>Shifts\<close>

lemma length_shl_step [simp]: "length (shl_step a k r i pn) = length pn"
  by (simp add: shl_step_def Let_def)

lemma length_shr_step [simp]: "length (shr_step a k r i pn) = length pn"
  by (simp add: shr_step_def Let_def)

lemma nth_shl_step:
  assumes "length pn = length a" and "j < length a"
  shows "shl_step a k r i pn ! j = pn ! j OR
     (if j = i + k then push_bit r (a ! i)
      else if j = i + (k + 1) \<and> r \<noteq> 0 then drop_bit (32 - r) (a ! i) else 0)"
  using assms by (auto simp: shl_step_def Let_def nth_list_update)

lemma nth_shr_step:
  assumes "length pn = length a" and "j < length a" and "i < length a"
  shows "shr_step a k r i pn ! j = pn ! j OR
     (if i = j + k then drop_bit r (a ! i)
      else if i = j + (k + 1) \<and> r \<noteq> 0 then push_bit (32 - r) (a ! i) else 0)"
  using assms by (auto simp: shr_step_def Let_def nth_list_update)

lemma length_shl_loop [simp]: "length (fold (shl_step a k r) is pn) = length pn"
  by (induction "is" arbitrary: pn) auto

lemma length_shr_loop [simp]: "length (fold (shr_step a k r) is pn) = length pn"
  by (induction "is" arbitrary: pn) auto

lemma length_u_shl [simp]: "length (u_shl a s) = length a"
  by (simp add: u_shl_def)

lemma length_u_shr [simp]: "length (u_shr a s) = length a"
  by (simp add: u_shr_def)

text \<open>The array after the first \<open>n\<close> turns of the left-shift loop.\<close>

lemma shl_loop:
  assumes "n \<le> length a" and "j < length a"
  shows "fold (shl_step a k r) [0..<n] (replicate (length a) 0) ! j =
     (if k \<le> j \<and> j < n + k then push_bit r (a ! (j - k)) else 0) OR
     (if r \<noteq> 0 \<and> k + 1 \<le> j \<and> j < n + (k + 1) then drop_bit (32 - r) (a ! (j - (k + 1))) else 0)"
  using assms
proof (induction n)
  case (Suc n)
  consider "j = n + k" | "j = n + (k + 1)" | "j \<noteq> n + k" "j \<noteq> n + (k + 1)" by blast
  then show ?case
    using Suc by cases (simp_all add: nth_shl_step or.commute)
qed auto

text \<open>The same for the right shift.\<close>

lemma shr_loop:
  assumes "n \<le> length a" and "j < length a"
  shows "fold (shr_step a k r) [0..<n] (replicate (length a) 0) ! j =
     (if j + k < n then drop_bit r (a ! (j + k)) else 0) OR
     (if r \<noteq> 0 \<and> j + (k + 1) < n then push_bit (32 - r) (a ! (j + (k + 1))) else 0)"
  using assms
proof (induction n)
  case (Suc n)
  consider "n = j + k" | "n = j + (k + 1)" | "n \<noteq> j + k" "n \<noteq> j + (k + 1)" by blast
  then show ?case
    using Suc by cases (simp_all add: nth_shr_step or.commute)
qed simp

lemma bit_u32_ge: "32 \<le> i \<Longrightarrow> \<not> bit (w :: u32) i"
  using bit_imp_le_length [of w i] by auto

lemma bit_uval_limb:
  "n = 32 * q + t \<Longrightarrow> t < 32 \<Longrightarrow> bit (uval a) n \<longleftrightarrow> q < length a \<and> bit (a ! q) t"
  by (simp add: bit_uval)

lemma bit_uval_ge: "32 * length a \<le> n \<Longrightarrow> \<not> bit (uval a) n"
  using bit_nat_less [OF uval_bound, of a n] by auto

lemma bit_u_shl: "bit (uval (u_shl a s)) n \<longleftrightarrow> n < 32 * length a \<and> s \<le> n \<and> bit (uval a) (n - s)"
proof (cases "n < 32 * length a")
  case True
  define j m k r where "j = n div 32" and "m = n mod 32" and "k = s div 32" and "r = s mod 32"
  have nj: "n = 32 * j + m" and sk: "s = 32 * k + r" and m: "m < 32" and r: "r < 32"
    by (simp_all add: j_def m_def k_def r_def)
  have j: "j < length a" using True by (simp add: j_def less_mult_imp_div_less mult.commute)
  have "bit (uval (u_shl a s)) n \<longleftrightarrow> bit (u_shl a s ! j) m"
    using j m bit_uval_limb [OF nj] by simp
  also have "\<dots> \<longleftrightarrow> (k \<le> j \<and> r \<le> m \<and> bit (a ! (j - k)) (m - r)) \<or>
      (r \<noteq> 0 \<and> k + 1 \<le> j \<and> bit (a ! (j - (k + 1))) (m + (32 - r)))"
    using j m unfolding u_shl_def k_def [symmetric] r_def [symmetric]
    by (auto simp: shl_loop bit_or_iff bit_push_bit_iff bit_drop_bit_eq add.commute)
  also have "\<dots> \<longleftrightarrow> s \<le> n \<and> bit (uval a) (n - s)"
  proof (cases "r \<le> m")
    case True
    then have "s \<le> n \<longleftrightarrow> k \<le> j" and eq: "k \<le> j \<Longrightarrow> n - s = 32 * (j - k) + (m - r)"
      using m r by (auto simp: nj sk)
    then show ?thesis using True j m r bit_uval_limb [OF eq, of a] by (auto simp: bit_u32_ge)
  next
    case False
    then have "s \<le> n \<longleftrightarrow> k + 1 \<le> j"
      and eq: "k + 1 \<le> j \<Longrightarrow> n - s = 32 * (j - (k + 1)) + (m + (32 - r))"
      using m r by (auto simp: nj sk)
    then show ?thesis using False j m r bit_uval_limb [OF eq, of a] by auto
  qed
  finally show ?thesis using True by simp
qed (simp add: bit_uval_ge)

lemma bit_u_shr: "bit (uval (u_shr a s)) n \<longleftrightarrow> bit (uval a) (n + s)"
proof (cases "n < 32 * length a")
  case True
  define j m k r where "j = n div 32" and "m = n mod 32" and "k = s div 32" and "r = s mod 32"
  have nj: "n = 32 * j + m" and sk: "s = 32 * k + r" and m: "m < 32" and r: "r < 32"
    by (simp_all add: j_def m_def k_def r_def)
  have j: "j < length a" using True by (simp add: j_def less_mult_imp_div_less mult.commute)
  have "bit (uval (u_shr a s)) n \<longleftrightarrow> bit (u_shr a s ! j) m"
    using j m bit_uval_limb [OF nj] by simp
  also have "\<dots> \<longleftrightarrow> (j + k < length a \<and> bit (a ! (j + k)) (m + r)) \<or>
      (r \<noteq> 0 \<and> j + (k + 1) < length a \<and> 32 - r \<le> m \<and> bit (a ! (j + (k + 1))) (m - (32 - r)))"
    using j m unfolding u_shr_def k_def [symmetric] r_def [symmetric]
    by (auto simp: shr_loop bit_or_iff bit_push_bit_iff bit_drop_bit_eq add.commute)
  also have "\<dots> \<longleftrightarrow> bit (uval a) (n + s)"
  proof (cases "m + r < 32")
    case True
    have eq: "n + s = 32 * (j + k) + (m + r)" by (simp add: nj sk)
    show ?thesis unfolding bit_uval_limb [OF eq True] using True by auto
  next
    case False
    then have eq: "n + s = 32 * (j + (k + 1)) + (m - (32 - r))" and lt: "m - (32 - r) < 32"
      using m r by (auto simp: nj sk)
    show ?thesis unfolding bit_uval_limb [OF eq lt] using False m by (auto simp: bit_u32_ge)
  qed
  finally show ?thesis .
qed (simp add: bit_uval_ge)

lemma uval_u_shl [uint_simps]: "uval (u_shl a s) = (uval a * 2 ^ s) mod 2 ^ (32 * length a)"
proof -
  have "uval (u_shl a s) = take_bit (32 * length a) (push_bit s (uval a))"
    by (rule uval_eqI) (auto simp: bit_u_shl bit_take_bit_iff bit_push_bit_iff)
  then show ?thesis by (simp add: take_bit_eq_mod push_bit_eq_mult)
qed

lemma uval_u_shr [uint_simps]: "uval (u_shr a s) = uval a div 2 ^ s"
proof -
  have "uval (u_shr a s) = drop_bit s (uval a)"
    by (rule uval_eqI) (simp add: bit_u_shr bit_drop_bit_eq add.commute)
  then show ?thesis by (simp add: drop_bit_eq_div)
qed

section \<open>Multiplication\<close>

text \<open>
  The shift-and-add loop. It ends because \<^verbatim>\<open>c\<close> is halved at every turn.
\<close>

lemma u_greater_loop_nonzero:
  "u_greater_loop xs ys \<Longrightarrow> \<exists>x \<in> set xs. x \<noteq> 0"
  by (induction xs ys rule: u_greater_loop.induct) (auto split: if_splits)

lemma u_greater_nonzero: "u_greater c b \<Longrightarrow> 0 < uval c"
  using u_greater_loop_nonzero [of "rev c" "rev b"] uval_eq_0_iff [of c]
  by (auto simp: u_greater_def)

function u_mul_loop :: "limbs \<Rightarrow> limbs \<Rightarrow> limbs \<Rightarrow> limbs" where
  "u_mul_loop c this_times_power_of_two sum1 =
     (if u_greater c (u_of_u64 (length c) 0)
      then (let d = u_and c (u_of_u64 (length c) 1);
                sum1 = (if u_greater d (u_of_u64 (length c) 0)
                       then u_add sum1 this_times_power_of_two else sum1)
            in u_mul_loop (u_shr c 1) (u_shl this_times_power_of_two 1) sum1)
      else sum1)"
  by pat_completeness auto
termination
  by (relation "measure (\<lambda>(c, t, s). uval c)") (auto simp: uval_u_shr dest: u_greater_nonzero)

declare u_mul_loop.simps [simp del]

definition u_mul :: "limbs \<Rightarrow> limbs \<Rightarrow> limbs" where
  "u_mul pn b = u_mul_loop b pn (u_of_u64 (length pn) 0)"

lemma u_mul_loop_spec:
  assumes "length c = W" and "length t = W" and "length s = W" and "2 \<le> W"
  shows "length (u_mul_loop c t s) = W \<and>
    uval (u_mul_loop c t s) = (uval s + uval c * uval t) mod 2 ^ (32 * W)"
  using assms
proof (induction c t s rule: u_mul_loop.induct)
  case (1 c t s)
  let ?M = "2 ^ (32 * W) :: nat"
  show ?case
  proof (cases "uval c = 0")
    case True
    then have "u_mul_loop c t s = s"
      using "1.prems" by (subst u_mul_loop.simps) (simp add: uint_simps)
    then show ?thesis using True "1.prems" uval_bound [of s] by simp
  next
    case False
    define s' where "s' = (if odd (uval c) then u_add s t else s)"
    have guard: "u_greater c (u_of_u64 (length c) 0)" using False "1.prems" by (simp add: uint_simps)
    have low: "u_greater (u_and c (u_of_u64 (length c) 1)) (u_of_u64 (length c) 0) \<longleftrightarrow> odd (uval c)"
      using "1.prems" by (simp add: uint_simps and_one_eq odd_iff_mod_2_eq_one)
    have s': "length s' = W" "uval s' mod ?M = (uval s + (uval c mod 2) * uval t) mod ?M"
      using "1.prems" by (auto simp: s'_def uint_simps odd_iff_mod_2_eq_one even_iff_mod_2_eq_zero)
    have eq: "u_mul_loop c t s = u_mul_loop (u_shr c 1) (u_shl t 1) s'"
      using guard low by (subst u_mul_loop.simps) (simp add: s'_def Let_def)
    have IH: "length (u_mul_loop c t s) = W \<and>
        uval (u_mul_loop c t s) = (uval s' + uval (u_shr c 1) * uval (u_shl t 1)) mod ?M"
      using "1.IH" [OF guard refl refl] low s' "1.prems" unfolding eq by (simp add: s'_def)
    have "uval (u_shr c 1) * uval (u_shl t 1) mod ?M = uval c div 2 * (uval t * 2) mod ?M"
      using "1.prems" by (simp add: uint_simps mod_mult_right_eq)
    then have "(uval s' + uval (u_shr c 1) * uval (u_shl t 1)) mod ?M
        = (uval s + uval c mod 2 * uval t + uval c div 2 * (uval t * 2)) mod ?M"
      by (rule mod_add_cong [OF s'(2)])
    also have "uval s + uval c mod 2 * uval t + uval c div 2 * (uval t * 2)
        = uval s + (uval c div 2 * 2 + uval c mod 2) * uval t"
      by (simp only: algebra_simps)
    finally show ?thesis using IH by (simp only: div_mult_mod_eq)
  qed
qed

lemma length_u_mul [simp]:
  "length a = length b \<Longrightarrow> 2 \<le> length b \<Longrightarrow> length (u_mul a b) = length b"
  using u_mul_loop_spec [of b "length b" a "u_of_u64 (length b) 0"] by (simp add: u_mul_def)

lemma uval_u_mul [uint_simps]:
  "length a = length b \<Longrightarrow> 2 \<le> length b \<Longrightarrow>
    uval (u_mul a b) = (uval a * uval b) mod 2 ^ (32 * length b)"
  using u_mul_loop_spec [of b "length b" a "u_of_u64 (length b) 0"]
  by (simp add: u_mul_def uval_u_of_u64 mult.commute)


section \<open>Division\<close>

text \<open>
  \<^verbatim>\<open>operator/=\<close>. The inner \<^verbatim>\<open>for\<close> looks for the first \<open>i < BITS\<close> with
  \<open>(a >> i) < b\<close>; when it finds none, the outer \<^verbatim>\<open>while\<close> starts again with nothing
  changed.
\<close>

fun u_div_find :: "limbs \<Rightarrow> limbs \<Rightarrow> nat list \<Rightarrow> nat option" where
  "u_div_find a b [] = None"
| "u_div_find a b (i # is) = (if u_less (u_shr a i) b then Some i else u_div_find a b is)"

partial_function (option) u_div_loop :: "limbs \<Rightarrow> limbs \<Rightarrow> limbs \<Rightarrow> limbs option" where
  "u_div_loop a b ratio =
     (if u_greater_eq a b
      then (case u_div_find a b [0..<32 * length a] of
              None \<Rightarrow> u_div_loop a b ratio
            | Some i \<Rightarrow>
                (let s = (i + (2 ^ 32 - 1)) mod 2 ^ 32;
                     power_of_two = u_shl (u_of_u64 (length a) 1) s;
                     term1 = u_shl b s
                 in u_div_loop (u_sub a term1) b (u_add ratio power_of_two)))
      else Some ratio)"

definition u_div :: "limbs \<Rightarrow> limbs \<Rightarrow> (uint_error + limbs) option" where
  "u_div pn b =
     (if u_equal64 b 0 then Some (Inl DivisionByZero)
      else map_option Inr (u_div_loop pn b (u_of_u64 (length pn) 0)))"

definition u_div64 :: "limbs \<Rightarrow> u64 \<Rightarrow> (uint_error + limbs) option" where
  "u_div64 a b = u_div a (u_of_u64 (length a) b)"

definition u_mul64 :: "limbs \<Rightarrow> u64 \<Rightarrow> limbs" where
  "u_mul64 a b = u_mul (u_of_u64 (length a) b) a"

definition u64_mul :: "u64 \<Rightarrow> limbs \<Rightarrow> limbs" where
  "u64_mul a b = u_mul (u_of_u64 (length b) a) b"

lemma u_div_find_eq: "u_div_find a b is = find (\<lambda>i. u_less (u_shr a i) b) is"
  by (induction "is") auto

lemma u_div_find_None: "u_div_find a b is = None \<longleftrightarrow> (\<forall>i \<in> set is. \<not> u_less (u_shr a i) b)"
  by (auto simp: u_div_find_eq find_None_iff)

lemma u_div_find_Some:
  assumes "u_div_find a b [0..<n] = Some i"
  shows "i < n" and "u_less (u_shr a i) b" and "\<And>j. j < i \<Longrightarrow> \<not> u_less (u_shr a j) b"
  using assms by (auto simp: u_div_find_eq find_Some_iff)

text \<open>The numerators and divisors on which the loop makes no progress.\<close>

definition u_div_stuck :: "limbs \<Rightarrow> limbs \<Rightarrow> bool" where
  "u_div_stuck a b \<longleftrightarrow> uval b = 1 \<and> 2 ^ (32 * length a - 1) \<le> uval a"


lemma u_div_find_stuck:
  assumes "length a = length b" and "2 \<le> length b" and "0 < uval b"
  shows "u_div_find a b [0..<32 * length a] = None \<longleftrightarrow> u_div_stuck a b"
proof -
  define N where "N = 32 * length b - 1"
  have N: "32 * length b = Suc N" using assms(2) by (simp add: N_def)
  have "uval a < 2 ^ Suc N" using uval_bound [of a] assms(1) N by simp
  then have top: "uval a div 2 ^ N = (if 2 ^ N \<le> uval a then 1 else 0)"
    by (auto simp: div_less not_le intro: div_nat_eqI)
  have "u_div_find a b [0..<32 * length a] = None \<longleftrightarrow> (\<forall>i < Suc N. uval b \<le> uval a div 2 ^ i)"
    using assms(1) N by (auto simp: u_div_find_None uint_simps not_less less_Suc_eq)
  also have "\<dots> \<longleftrightarrow> uval b \<le> uval a div 2 ^ N"
  proof
    assume "uval b \<le> uval a div 2 ^ N"
    moreover have "uval a div 2 ^ N \<le> uval a div 2 ^ i" if "i < Suc N" for i
      using that by (intro div_le_mono2) (auto intro: power_increasing)
    ultimately show "\<forall>i < Suc N. uval b \<le> uval a div 2 ^ i" by (meson le_trans)
  qed simp
  finally show ?thesis using assms top N by (auto simp: u_div_stuck_def)
qed

text \<open>One successful turn: the largest shifted divisor that fits is taken off.\<close>

lemma u_div_turn:
  assumes "length a = length b" and "2 \<le> length b" and "length b < 2 ^ 26"
    and "uval b \<le> uval a" and "u_div_find a b [0..<32 * length a] = Some i"
  defines "s \<equiv> (i + (2 ^ 32 - 1)) mod 2 ^ 32"
  shows "uval b * 2 ^ s \<le> uval a" and "s = i - 1" and "s < 32 * length b"
proof -
  note f = u_div_find_Some [OF assms(5)]
  have "i \<noteq> 0"
  proof
    assume "i = 0"
    then show False using f(2) assms(1,4) by (simp add: uint_simps)
  qed
  then have "i + (2 ^ 32 - 1) = (i - 1) + 2 ^ 32" by simp
  then have "s = (i - 1) mod 2 ^ 32" unfolding s_def by (simp only: mod_add_self2)
  moreover have "i - 1 < 2 ^ 32" using f(1) assms(1,3) by simp
  ultimately show s: "s = i - 1" by simp
  show "s < 32 * length b" using s f(1) assms(1) by simp
  have "\<not> u_less (u_shr a s) b" using f(3) s \<open>i \<noteq> 0\<close> by simp
  then have "uval b \<le> uval a div 2 ^ s" using assms(1) by (simp add: uint_simps not_less)
  then show "uval b * 2 ^ s \<le> uval a" by (simp add: less_eq_div_iff_mult_less_eq)
qed


lemma u_div_loop_correct:
  assumes "length a = length b" and "length r = length b" and "2 \<le> length b" and "length b < 2 ^ 26"
    and "0 < uval b" and "\<not> u_div_stuck a b"
    and "uval r * uval b + uval a < 2 ^ (32 * length b)"
  shows "\<exists>q. u_div_loop a b r = Some q \<and> length q = length b
      \<and> uval q = (uval r * uval b + uval a) div uval b"
  using assms
proof (induction "uval a" arbitrary: a r rule: less_induct)
  case less
  note len = less.prems(1,2,3)
  let ?M = "2 ^ (32 * length b) :: nat"
  show ?case
  proof (cases "uval a < uval b")
    case True
    then have "u_div_loop a b r = Some r"
      using len by (subst u_div_loop.simps) (simp add: uint_simps)
    moreover have "(uval r * uval b + uval a) div uval b = uval r"
      using True by simp
    ultimately show ?thesis using len by simp
  next
    case False
    then have ge: "uval b \<le> uval a" by simp
    obtain i where i: "u_div_find a b [0..<32 * length a] = Some i"
      using u_div_find_stuck [of a b] less.prems by auto
    define s where "s = (i + (2 ^ 32 - 1)) mod 2 ^ 32"
    note turn = u_div_turn [OF less.prems(1,3,4) ge i, folded s_def]
    define a' where "a' = u_sub a (u_shl b s)"
    define r' where "r' = u_add r (u_shl (u_of_u64 (length a) 1) s)"
    have "uval b * 2 ^ s < ?M" using turn(1) uval_bound [of a] len by simp
    then have a': "uval a' = uval a - uval b * 2 ^ s" "length a' = length b"
      using len turn(1) by (simp_all add: a'_def uval_u_sub_le uint_simps)
    have p2: "(2 :: nat) ^ s < ?M" using turn(3) by simp
    have d: "(uval r + 2 ^ s) * uval b = uval r * uval b + uval b * 2 ^ s"
      by (simp add: algebra_simps)
    have "(uval r + 2 ^ s) * 1 \<le> (uval r + 2 ^ s) * uval b"
      by (rule mult_le_mono2) (use less.prems(5) in simp)
    then have "uval r + 2 ^ s \<le> uval r * uval b + uval b * 2 ^ s" unfolding d by simp
    then have "uval r + 2 ^ s < ?M" using less.prems(7) turn(1) by linarith
    then have r': "uval r' = uval r + 2 ^ s" "length r' = length b"
      using len p2 by (simp_all add: r'_def uint_simps)
    have inv: "uval r' * uval b + uval a' = uval r * uval b + uval a"
      using a'(1) r'(1) turn(1) d by simp
    have "u_div_loop a b r = u_div_loop a' b r'"
      using len ge i by (subst u_div_loop.simps)
        (simp add: uint_simps a'_def r'_def s_def Let_def)
    moreover have "uval a' < uval a" using a' less.prems(5) ge by simp
    moreover have "\<not> u_div_stuck a' b"
      using less.prems(6) \<open>uval a' < uval a\<close> a'(2) len by (auto simp: u_div_stuck_def)
    ultimately show ?thesis
      using less.hyps [of a' r'] a'(2) r'(2) less.prems inv by simp
  qed
qed

lemma u_div_loop_stuck:
  assumes "u_div_loop a b r = Some q"
    and "length a = length b" and "2 \<le> length b" and "0 < uval b"
  shows "\<not> u_div_stuck a b"
proof -
  have "length a = length b \<longrightarrow> 2 \<le> length b \<longrightarrow> 0 < uval b \<longrightarrow> \<not> u_div_stuck a b"
  proof (rule u_div_loop.raw_induct [OF _ assms(1)], intro impI, goal_cases)
    case (1 loop a b r q)
    show ?case
    proof (cases "u_div_find a b [0..<32 * length a] = None \<and> u_greater_eq a b")
      case True
      then have "loop a b r = Some q" using 1(2) by simp
      then show ?thesis using 1 by blast
    next
      case False
      then show ?thesis using 1(3-) u_div_find_stuck [of a b]
        by (auto simp: uint_simps u_div_stuck_def not_less_eq_eq)
    qed
  qed
  then show ?thesis using assms by blast
qed

lemma u_div_correct:
  assumes "length a = length b" and "2 \<le> length b" and "length b < 2 ^ 26"
  shows "u_div a b = None \<longleftrightarrow> u_div_stuck a b"
    and "uval b = 0 \<Longrightarrow> u_div a b = Some (Inl DivisionByZero)"
    and "0 < uval b \<Longrightarrow> \<not> u_div_stuck a b \<Longrightarrow>
      \<exists>q. u_div a b = Some (Inr q) \<and> length q = length b \<and> uval q = uval a div uval b"
proof -
  have zero: "u_equal64 b 0 \<longleftrightarrow> uval b = 0" using assms by (simp add: uint_simps)
  show e: "uval b = 0 \<Longrightarrow> u_div a b = Some (Inl DivisionByZero)" using zero by (simp add: u_div_def)
  show q: "\<exists>q. u_div a b = Some (Inr q) \<and> length q = length b \<and> uval q = uval a div uval b"
    if "0 < uval b" "\<not> u_div_stuck a b"
    using u_div_loop_correct [of a b "u_of_u64 (length a) 0"] that assms zero uval_bound [of a]
    by (auto simp: u_div_def uint_simps)
  show "u_div a b = None \<longleftrightarrow> u_div_stuck a b"
  proof
    assume "u_div a b = None"
    then show "u_div_stuck a b" using e q by (metis gr0I option.distinct(1))
  next
    assume *: "u_div_stuck a b"
    then have "u_div_loop a b r \<noteq> Some y" for r y
      using u_div_loop_stuck [of a b r y] assms by (auto simp: u_div_stuck_def)
    then have "u_div_loop a b r = None" for r by (metis not_Some_eq)
    then show "u_div a b = None" using * zero by (simp add: u_div_def u_div_stuck_def)
  qed
qed

section \<open>Bytes and hexadecimal\<close>

text \<open>
  The bytes from \<^verbatim>\<open>begin()\<close> to \<^verbatim>\<open>end()\<close>, which are also what \<^verbatim>\<open>Serialize\<close>
  writes, and the limbs that \<^verbatim>\<open>Unserialize\<close> or a \<^verbatim>\<open>memcpy\<close> into \<^verbatim>\<open>pn\<close> sets.
\<close>

definition u_bytes :: "limbs \<Rightarrow> vch_t" where
  "u_bytes pn = concat (map (\<lambda>x. le_bytes 4 (unat x)) pn)"

fun u_of_bytes :: "vch_t \<Rightarrow> limbs" where
  "u_of_bytes (a # b # c # d # bs) = of_nat (bytes_val [a, b, c, d]) # u_of_bytes bs"
| "u_of_bytes bs = []"

definition u_of_vch :: "nat \<Rightarrow> vch_t \<Rightarrow> limbs" where
  "u_of_vch W vch = (if length vch = 4 * W then u_of_bytes vch else u_of_u64 W 0)"

definition u_GetLow64 :: "limbs \<Rightarrow> u64" where
  "u_GetLow64 pn = ucast (pn ! 0) OR push_bit 32 (ucast (pn ! 1))"

definition hexdigit :: "int list" where
  "hexdigit =
     replicate 48 (- 1) @ [0, 1, 2, 3, 4, 5, 6, 7, 8, 9] @ replicate 6 (- 1) @
     [- 1, 0xa, 0xb, 0xc, 0xd, 0xe, 0xf] @ replicate 9 (- 1) @ replicate 16 (- 1) @
     [- 1, 0xa, 0xb, 0xc, 0xd, 0xe, 0xf] @ replicate 9 (- 1) @ replicate 144 (- 1)"

definition HexDigit :: "char \<Rightarrow> int" where
  "HexDigit c = hexdigit ! of_char c"

definition hex_chars :: "u8 \<Rightarrow> string" where
  "hex_chars b = [''0123456789abcdef'' ! (unat b div 16), ''0123456789abcdef'' ! (unat b mod 16)]"

definition u_GetHex :: "limbs \<Rightarrow> string" where
  "u_GetHex pn =
     (let n = length (u_bytes pn)
      in concat (map (\<lambda>i. hex_chars (u_bytes pn ! (n - i - 1))) [0..<n]))"

definition is_space :: "char \<Rightarrow> bool" where
  "is_space c = (let n = (of_char c :: nat) in n = 32 \<or> 9 \<le> n \<and> n \<le> 13)"

fun skip_0x :: "string \<Rightarrow> string" where
  "skip_0x (a # b # s) = (if a = CHR ''0'' \<and> (b = CHR ''x'' \<or> b = CHR ''X'') then s else a # b # s)"
| "skip_0x s = s"

text \<open>The filling loop of \<^verbatim>\<open>SetHex\<close>: the digits come from the last one down.\<close>

fun set_hex_fill :: "nat \<Rightarrow> string \<Rightarrow> vch_t" where
  "set_hex_fill 0 cs = []"
| "set_hex_fill (Suc n) [] = replicate (Suc n) 0"
| "set_hex_fill (Suc n) [c] = of_int (HexDigit c) # replicate n 0"
| "set_hex_fill (Suc n) (c # d # cs) =
     (of_int (HexDigit c) OR push_bit 4 (of_int (HexDigit d))) # set_hex_fill n cs"

definition u_SetHex :: "nat \<Rightarrow> string \<Rightarrow> limbs" where
  "u_SetHex W psz =
     (let psz = skip_0x (dropWhile is_space psz);
          digits = takeWhile (\<lambda>c. HexDigit c \<noteq> - 1) psz
      in u_of_bytes (set_hex_fill (4 * W) (rev digits)))"


lemma length_u_bytes [simp]: "length (u_bytes pn) = 4 * length pn"
  by (induction pn) (auto simp: u_bytes_def)

lemma le_bytes_4: "\<exists>a b c d. le_bytes 4 x = [a, b, c, d]"
proof -
  have "length (le_bytes 4 x) = Suc (Suc (Suc (Suc 0)))" by simp
  then show ?thesis by (simp only: length_Suc_conv length_0_conv) blast
qed

lemma u_of_bytes_Cons: "u_of_bytes (le_bytes 4 x @ bs) = of_nat x # u_of_bytes bs"
proof -
  obtain a b c d where eq: "le_bytes 4 x = [a, b, c, d]" using le_bytes_4 [of x] by blast
  have "bytes_val [a, b, c, d] = x mod 2 ^ 32"
    using bytes_val_le_bytes [of 4 x] by (simp add: eq)
  moreover have "of_nat (x mod 2 ^ 32) = (of_nat x :: u32)"
    by (simp add: word_of_nat_eq_iff take_bit_eq_mod)
  ultimately show ?thesis unfolding eq by simp
qed

lemma u_of_bytes_u_bytes [mem_simps]: "u_of_bytes (u_bytes pn) = pn"
  by (induction pn) (auto simp: u_bytes_def u_of_bytes_Cons)

lemma bytes_val_u_bytes: "bytes_val (u_bytes pn) = uval pn"
proof (induction pn)
  case (Cons x pn)
  have "unat x < 256 ^ 4" by simp
  then show ?case
    using Cons by (simp add: u_bytes_def bytes_val_append mem_simps uval_Cons)
qed (simp add: u_bytes_def bytes_val_def)

lemma u_bytes_u_of_bytes [mem_simps]: "4 dvd length bs \<Longrightarrow> u_bytes (u_of_bytes bs) = bs"
proof (induction bs rule: u_of_bytes.induct)
  case (1 a b c d bs)
  have "4 dvd length bs" using "1.prems" by (simp add: dvd_add_right_iff) presburger
  moreover have "bytes_val [a, b, c, d] < 2 ^ 32" using bytes_val_bound [of "[a, b, c, d]"] by simp
  ultimately show ?case
    using "1.IH" le_bytes_bytes_val [of "[a, b, c, d]" 4] by (simp add: u_bytes_def unat_of_nat)
qed (auto simp: u_bytes_def dest: dvd_imp_le)

lemma u_of_vch_u_bytes [mem_simps]: "u_of_vch (length pn) (u_bytes pn) = pn"
  by (simp add: u_of_vch_def u_of_bytes_u_bytes)

lemma unat_u_GetLow64:
  assumes "2 \<le> length pn"
  shows "unat (u_GetLow64 pn) = uval pn mod 2 ^ 64"
proof -
  obtain x y zs where pn: "pn = x # y # zs"
    using assms by (metis Suc_le_length_iff numeral_2_eq_2)
  have "take_bit 64 (unat y) = unat y"
    by (simp add: take_bit_nat_eq_self_iff less_trans [OF unat_u32_less])
  then have "unat (u_GetLow64 pn) = take_bit 64 (unat x OR push_bit 32 (unat y))"
    by (simp add: pn u_GetLow64_def unsigned_or_eq unsigned_push_bit_eq unsigned_ucast_eq)
  also have "unat x OR push_bit 32 (unat y) = unat x + 2 ^ 32 * unat y"
    by (rule nat_add_eq_or [symmetric]) simp
  finally show ?thesis by (simp add: pn uval_Cons take_bit_eq_mod flip: add.assoc)
qed

subsection \<open>The hexadecimal round trip\<close>

lemma u_GetHex_eq: "u_GetHex pn = concat (map hex_chars (rev (u_bytes pn)))"
proof -
  have "map (\<lambda>i. u_bytes pn ! (length (u_bytes pn) - i - 1)) [0..<length (u_bytes pn)] = rev (u_bytes pn)"
    by (rule nth_equalityI) (auto simp: rev_nth)
  then have "map (\<lambda>i. hex_chars (u_bytes pn ! (length (u_bytes pn) - i - 1))) [0..<length (u_bytes pn)]
      = map hex_chars (rev (u_bytes pn))"
    by (metis (no_types, lifting) map_map comp_apply map_eq_conv)
  then show ?thesis by (simp add: u_GetHex_def)
qed

lemma hex_digits:
  assumes "n < 16"
  shows "HexDigit (''0123456789abcdef'' ! n) = int n"
    and "\<not> is_space (''0123456789abcdef'' ! n)"
    and "''0123456789abcdef'' ! n \<noteq> CHR ''x''"
    and "''0123456789abcdef'' ! n \<noteq> CHR ''X''"
proof -
  have "list_all (\<lambda>n. HexDigit (''0123456789abcdef'' ! n) = int n
      \<and> \<not> is_space (''0123456789abcdef'' ! n) \<and> ''0123456789abcdef'' ! n \<noteq> CHR ''x''
      \<and> ''0123456789abcdef'' ! n \<noteq> CHR ''X'') [0..<16]"
    by code_simp
  then show "HexDigit (''0123456789abcdef'' ! n) = int n"
    and "\<not> is_space (''0123456789abcdef'' ! n)"
    and "''0123456789abcdef'' ! n \<noteq> CHR ''x''"
    and "''0123456789abcdef'' ! n \<noteq> CHR ''X''"
    using assms by (auto simp only: list_all_iff set_upt atLeastLessThan_iff)
qed

lemma byte_nibbles: "of_nat (unat b mod 16) OR push_bit 4 (of_nat (unat b div 16)) = (b :: u8)"
proof -
  have "unat b = unat b mod 2 ^ 4 + 2 ^ 4 * (unat b div 2 ^ 4)" by simp
  also have "\<dots> = unat b mod 16 OR push_bit 4 (unat b div 16)"
    by (subst nat_add_eq_or) simp_all
  finally have "of_nat (unat b) = (of_nat (unat b mod 16 OR push_bit 4 (unat b div 16)) :: u8)"
    by simp
  then show ?thesis by (simp add: of_nat_or_eq push_bit_of_nat)
qed

lemma set_hex_fill_hex:
  "set_hex_fill (length bs) (concat (map (\<lambda>b. rev (hex_chars b)) bs)) = bs"
proof (induction bs)
  case (Cons b bs)
  have "unat b div 16 < 16" by (simp add: less_mult_imp_div_less)
  then show ?case
    using Cons byte_nibbles [of b] by (simp add: hex_chars_def hex_digits)
qed simp

section \<open>The contract of a wide unsigned integer\<close>

text \<open>
  What the rest of the program relies on: values that are numbers below \<open>2 ^ bits\<close>, with
  wrapping arithmetic. The laws of a commutative ring follow once, for every width.
\<close>

locale wide_uint =
  fixes ok :: "'u \<Rightarrow> bool" and val :: "'u \<Rightarrow> nat" and bits :: nat
    and add :: "'u \<Rightarrow> 'u \<Rightarrow> 'u" and sub :: "'u \<Rightarrow> 'u \<Rightarrow> 'u" and mul :: "'u \<Rightarrow> 'u \<Rightarrow> 'u"
    and less :: "'u \<Rightarrow> 'u \<Rightarrow> bool"
  assumes val_bound: "ok a \<Longrightarrow> val a < 2 ^ bits"
    and val_inject: "ok a \<Longrightarrow> ok b \<Longrightarrow> val a = val b \<Longrightarrow> a = b"
    and ok_add: "ok a \<Longrightarrow> ok b \<Longrightarrow> ok (add a b)"
    and ok_sub: "ok a \<Longrightarrow> ok b \<Longrightarrow> ok (sub a b)"
    and ok_mul: "ok a \<Longrightarrow> ok b \<Longrightarrow> ok (mul a b)"
    and val_add: "ok a \<Longrightarrow> ok b \<Longrightarrow> val (add a b) = (val a + val b) mod 2 ^ bits"
    and val_sub: "ok a \<Longrightarrow> ok b \<Longrightarrow> val (sub a b) = (val a + (2 ^ bits - val b)) mod 2 ^ bits"
    and val_mul: "ok a \<Longrightarrow> ok b \<Longrightarrow> val (mul a b) = (val a * val b) mod 2 ^ bits"
    and less_iff: "ok a \<Longrightarrow> ok b \<Longrightarrow> less a b \<longleftrightarrow> val a < val b"
begin

lemma add_commute: "ok a \<Longrightarrow> ok b \<Longrightarrow> add a b = add b a"
  by (rule val_inject) (simp_all add: ok_add val_add add.commute)

lemma add_assoc: "ok a \<Longrightarrow> ok b \<Longrightarrow> ok c \<Longrightarrow> add (add a b) c = add a (add b c)"
  by (rule val_inject) (simp_all add: ok_add val_add mod_simps add.assoc)

lemma mul_commute: "ok a \<Longrightarrow> ok b \<Longrightarrow> mul a b = mul b a"
  by (rule val_inject) (simp_all add: ok_mul val_mul mult.commute)

lemma mul_assoc: "ok a \<Longrightarrow> ok b \<Longrightarrow> ok c \<Longrightarrow> mul (mul a b) c = mul a (mul b c)"
  by (rule val_inject) (simp_all add: ok_mul val_mul mod_simps mult.assoc)

lemma mul_add_distrib:
  "ok a \<Longrightarrow> ok b \<Longrightarrow> ok c \<Longrightarrow> mul a (add b c) = add (mul a b) (mul a c)"
  by (rule val_inject) (simp_all add: ok_mul ok_add val_mul val_add mod_simps distrib_left)

lemma sub_add_cancel:
  assumes "ok a" and "ok b"
  shows "sub (add a b) b = a"
proof (rule val_inject)
  have "val (sub (add a b) b) = ((val a + val b) mod 2 ^ bits + (2 ^ bits - val b)) mod 2 ^ bits"
    using assms by (simp add: ok_add val_sub val_add)
  also have "\<dots> = (val a + val b + (2 ^ bits - val b)) mod 2 ^ bits"
    by (simp add: mod_simps)
  also have "val a + val b + (2 ^ bits - val b) = val a + 2 ^ bits"
    using val_bound [OF assms(2)] by simp
  finally show "val (sub (add a b) b) = val a" using val_bound [OF assms(1)] by simp
qed (use assms in \<open>simp_all add: ok_add ok_sub\<close>)

lemma less_linear: "ok a \<Longrightarrow> ok b \<Longrightarrow> less a b \<or> a = b \<or> less b a"
  using val_inject by (auto simp: less_iff)

end

definition uint160_ok :: "limbs \<Rightarrow> bool" where
  "uint160_ok pn \<longleftrightarrow> length pn = 160 div 32"

definition uint256_ok :: "limbs \<Rightarrow> bool" where
  "uint256_ok pn \<longleftrightarrow> length pn = 256 div 32"

lemma uval_less_bits: "length a = W \<Longrightarrow> uval a < 2 ^ (32 * W)"
  using uval_bound by blast

interpretation u160: wide_uint uint160_ok uval 160 u_add u_sub u_mul u_less
  by unfold_locales
    (use uval_less_bits [of _ 5] in \<open>auto simp: uint160_ok_def uint_simps uval_inject\<close>)

interpretation u256: wide_uint uint256_ok uval 256 u_add u_sub u_mul u_less
  by unfold_locales
    (use uval_less_bits [of _ 8] in \<open>auto simp: uint256_ok_def uint_simps uval_inject\<close>)

text \<open>The limbs of a \<^verbatim>\<open>uint160\<close> read as a machine word of 160 bits.\<close>

definition uint160_word :: "limbs \<Rightarrow> uint160" where
  "uint160_word pn = of_nat (uval pn)"

lemma unat_uint160_word: "uint160_ok a \<Longrightarrow> unat (uint160_word a) = uval a"
  using u160.val_bound [of a] by (simp add: uint160_word_def unat_of_nat)


section \<open>Properties\<close>

lemma of_nat_mod_160 [simp]: "(of_nat (n mod 2 ^ 160) :: uint160) = of_nat n"
  by (simp add: word_of_nat_eq_iff take_bit_eq_mod)

lemma of_nat_uval_neg:
  assumes "uint160_ok b"
  shows "(of_nat (2 ^ 160 - uval b) :: uint160) = - of_nat (uval b)"
proof -
  have "uval b \<le> 2 ^ 160" using u160.val_bound [OF assms] by simp
  moreover have "(2 ^ 160 :: uint160) = 0" by simp
  ultimately show ?thesis by (simp only: of_nat_diff of_nat_power of_nat_numeral diff_0)
qed

lemma uint160_word_arith:
  assumes "uint160_ok a" and "uint160_ok b"
  shows "uint160_word (u_add a b) = uint160_word a + uint160_word b"
    and "uint160_word (u_sub a b) = uint160_word a - uint160_word b"
    and "uint160_word (u_mul a b) = uint160_word a * uint160_word b"
    and "uint160_word (u_neg b) = - uint160_word b"
proof -
  have len: "length a = 5" "length b = 5" using assms by (simp_all add: uint160_ok_def)
  show "uint160_word (u_add a b) = uint160_word a + uint160_word b"
    unfolding uint160_word_def u160.val_add [OF assms] of_nat_mod_160 by simp
  show "uint160_word (u_sub a b) = uint160_word a - uint160_word b"
    unfolding uint160_word_def u160.val_sub [OF assms] of_nat_mod_160
    by (simp only: of_nat_add of_nat_uval_neg [OF assms(2)]) simp
  show "uint160_word (u_mul a b) = uint160_word a * uint160_word b"
    unfolding uint160_word_def u160.val_mul [OF assms] of_nat_mod_160 by simp
  have "uval (u_neg b) = (2 ^ 160 - uval b) mod 2 ^ 160" using uval_u_neg [of b] len by simp
  then show "uint160_word (u_neg b) = - uint160_word b"
    by (simp only: uint160_word_def of_nat_mod_160 of_nat_uval_neg [OF assms(2)])
qed

lemma uint160_word_shift:
  assumes "uint160_ok a"
  shows "uint160_word (u_shl a s) = push_bit s (uint160_word a)"
    and "uint160_word (u_shr a s) = drop_bit s (uint160_word a)"
proof -
  have "uval (u_shl a s) = (uval a * 2 ^ s) mod 2 ^ 160"
    using uval_u_shl [of a s] assms by (simp add: uint160_ok_def)
  then show "uint160_word (u_shl a s) = push_bit s (uint160_word a)"
    by (simp only: uint160_word_def of_nat_mod_160) (simp add: push_bit_eq_mult)
  have "uint160_ok (u_shr a s)" using assms by (simp add: uint160_ok_def)
  then show "uint160_word (u_shr a s) = drop_bit s (uint160_word a)"
    using assms by (simp add: word_unat_eq_iff unat_uint160_word unat_drop_bit_eq uval_u_shr
        drop_bit_eq_div [of s "uval a"])
qed

text \<open>
  C10. The limb arrays of \<^verbatim>\<open>uint160\<close> implement the arithmetic of 160-bit machine words: sum,
  difference, product, negation, both shifts and the three bitwise operators commute with
  reading the limbs as a word, and the comparison loops decide the order of the words.
\<close>

theorem uint160_refines_word:
  assumes "uint160_ok a" and "uint160_ok b"
  shows "uint160_word (u_add a b) = uint160_word a + uint160_word b
    \<and> uint160_word (u_sub a b) = uint160_word a - uint160_word b
    \<and> uint160_word (u_mul a b) = uint160_word a * uint160_word b
    \<and> uint160_word (u_neg a) = - uint160_word a
    \<and> uint160_word (u_shl a s) = push_bit s (uint160_word a)
    \<and> uint160_word (u_shr a s) = drop_bit s (uint160_word a)
    \<and> uint160_word (u_and a b) = (uint160_word a AND uint160_word b)
    \<and> uint160_word (u_or a b) = (uint160_word a OR uint160_word b)
    \<and> uint160_word (u_xor a b) = (uint160_word a XOR uint160_word b)
    \<and> (u_less a b \<longleftrightarrow> uint160_word a < uint160_word b)
    \<and> (u_less_eq a b \<longleftrightarrow> uint160_word a \<le> uint160_word b)
    \<and> (u_equal a b \<longleftrightarrow> uint160_word a = uint160_word b)"
proof -
  have len: "length a = length b" using assms by (simp add: uint160_ok_def)
  have "uint160_word (u_and a b) = (uint160_word a AND uint160_word b)"
    "uint160_word (u_or a b) = (uint160_word a OR uint160_word b)"
    "uint160_word (u_xor a b) = (uint160_word a XOR uint160_word b)"
    using len by (simp_all add: uint160_word_def uint_simps of_nat_and_eq of_nat_or_eq of_nat_xor_eq)
  moreover have "u_less a b \<longleftrightarrow> uint160_word a < uint160_word b"
    "u_less_eq a b \<longleftrightarrow> uint160_word a \<le> uint160_word b"
    "u_equal a b \<longleftrightarrow> uint160_word a = uint160_word b"
    using len assms by (simp_all add: word_less_nat_alt word_le_nat_alt word_unat_eq_iff
        unat_uint160_word uint_simps)
  ultimately show ?thesis
    using uint160_word_arith [OF assms] uint160_word_arith(4) [OF assms(2) assms(1)]
      uint160_word_shift [OF assms(1), of s] by simp
qed

theorem uint160_refines_word_witness:
  "uint160_word (u_mul [0, 1, 0, 0, 0] [0, 0, 0, 0, 1])
     = uint160_word [0, 1, 0, 0, 0] * uint160_word [0, 0, 0, 0, 1]
   \<and> uint160_word (u_sub [0, 1, 0, 0, 0] [1, 0, 0, 0, 0]) = 4294967295"
  using uint160_refines_word [of "[0, 1, 0, 0, 0]" "[0, 0, 0, 0, 1]"]
    uint160_refines_word [of "[0, 1, 0, 0, 0]" "[1, 0, 0, 0, 0]"]
  by (simp add: uint160_ok_def) (simp add: uint160_word_def uval_Cons)

text \<open>
  C11. Division. Two integers of the same width (between 64 bits and \<open>2 ^ 31\<close> bits): a zero
  divisor is reported; a divisor of one with the top bit of the numerator set makes
  \<^verbatim>\<open>operator/=\<close> run forever, because no shift below \<^verbatim>\<open>BITS\<close> brings the numerator under
  it; in every other case the operator returns the quotient.
\<close>

theorem uint_division:
  assumes "length a = length b" and "2 \<le> length b" and "length b < 2 ^ 26"
  shows "\<exists>q. length q = length b \<and> uval q = uval a div uval b \<and>
    u_div a b =
      (if uval b = 0 then Some (Inl DivisionByZero)
       else if uval b = 1 \<and> 2 ^ (32 * length a - 1) \<le> uval a then None
       else Some (Inr q))"
proof -
  consider "uval b = 0" | "0 < uval b" "u_div_stuck a b" | "0 < uval b" "\<not> u_div_stuck a b"
    by blast
  then show ?thesis
  proof cases
    case 1
    then show ?thesis using u_div_correct(2) [OF assms]
      by (intro exI [of _ "replicate (length b) 0"]) simp
  next
    case 2
    then show ?thesis using u_div_correct(1) [OF assms] assms(1)
      by (intro exI [of _ a]) (auto simp: u_div_stuck_def)
  next
    case 3
    then show ?thesis using u_div_correct(3) [OF assms] by (auto simp: u_div_stuck_def)
  qed
qed

theorem uint_division_witness:
  "(\<exists>q. u_div [7, 0, 0, 0, 0] [2, 0, 0, 0, 0] = Some (Inr q) \<and> uval q = 3)
   \<and> u_div [0, 0, 0, 0, 0x80000000] [1, 0, 0, 0, 0] = None"
  using uint_division [of "[7, 0, 0, 0, 0]" "[2, 0, 0, 0, 0]"]
    uint_division [of "[0, 0, 0, 0, 0x80000000]" "[1, 0, 0, 0, 0]"]
  by (auto simp: uval_Cons)

text \<open>
  Printing an integer in hexadecimal and reading it back gives the same limbs, for every
  width.
\<close>

theorem uint_hex_roundtrip: "u_SetHex (length pn) (u_GetHex pn) = pn"
proof -
  have "unat b div 16 < 16" for b :: u8 by (simp add: less_mult_imp_div_less)
  then have chars: "HexDigit c \<noteq> - 1 \<and> \<not> is_space c \<and> c \<noteq> CHR ''x'' \<and> c \<noteq> CHR ''X''"
    if "c \<in> set (u_GetHex pn)" for c
    using that hex_digits by (auto simp: u_GetHex_eq hex_chars_def)
  then have "dropWhile is_space (u_GetHex pn) = u_GetHex pn"
    by (cases "u_GetHex pn") auto
  moreover have "skip_0x (u_GetHex pn) = u_GetHex pn"
    using chars by (cases "u_GetHex pn" rule: skip_0x.cases) auto
  moreover have "takeWhile (\<lambda>c. HexDigit c \<noteq> - 1) (u_GetHex pn) = u_GetHex pn"
    using chars by (simp add: takeWhile_eq_all_conv)
  moreover have "rev (u_GetHex pn) = concat (map (\<lambda>b. rev (hex_chars b)) (u_bytes pn))"
    by (simp add: u_GetHex_eq rev_concat rev_map comp_def)
  ultimately show ?thesis
    using set_hex_fill_hex [of "u_bytes pn"]
    by (simp only: u_SetHex_def Let_def length_u_bytes u_of_bytes_u_bytes)
qed


end
