(* ===== verification/HashTrees.thy ===== *)
theory HashTrees
  imports Prelude
begin

text \<open>
  The hash trees of \<^verbatim>\<open>src/src/crypto/hashtrees.h\<close>: the combining functions, the caching
  nodes \<^verbatim>\<open>HashNode\<close>, \<^verbatim>\<open>HashTree\<close>, and \<^verbatim>\<open>DiurnalBlock\<close>, the tree over a list of
  hashes that the calendar is made of.

  The hash function \<^verbatim>\<open>Hash160\<close> comes from OpenSSL and is a parameter \<open>H\<close> of every
  definition that uses it. A node reaches its elements through the array \<^verbatim>\<open>T **elements\<close>;
  here it is given \<open>elh\<close>, the hash of the element at an index, which is \<open>None\<close> where the
  C++ would dereference an element outside the array. Every result is an \<open>option\<close> for that
  reason. The unsigned positions and lengths are natural numbers; the one product the code forms
  in 32 bits, \<^verbatim>\<open>middle * element_size\<close>, is written with its wrap-around.
\<close>

section \<open>Combining two hashes\<close>

definition TreeHash :: "(vch_t \<Rightarrow> uint160) \<Rightarrow> vch_t \<Rightarrow> uint160" where
  "TreeHash H input = H input"

definition AsymmetricCombine :: "(vch_t \<Rightarrow> uint160) \<Rightarrow> uint160 \<Rightarrow> uint160 \<Rightarrow> uint160" where
  "AsymmetricCombine H hash1 hash2 = TreeHash H (uint160_bytes hash1 @ uint160_bytes hash2)"

definition Combine :: "(vch_t \<Rightarrow> uint160) \<Rightarrow> uint160 \<Rightarrow> uint160 \<Rightarrow> uint160" where
  "Combine H hash1 hash2 = AsymmetricCombine H hash1 hash2"

definition SymmetricCombine :: "(vch_t \<Rightarrow> uint160) \<Rightarrow> uint160 \<Rightarrow> uint160 \<Rightarrow> uint160" where
  "SymmetricCombine H hash1 hash2 =
     (let hhash1 = TreeHash H (uint160_bytes hash1);
          hhash2 = TreeHash H (uint160_bytes hash2)
      in TreeHash H (uint160_bytes (hash1 XOR hash2) @ uint160_bytes (hhash1 OR hhash2)))"

definition CombineHash :: "(vch_t \<Rightarrow> uint160) \<Rightarrow> bool \<Rightarrow> uint160 \<Rightarrow> uint160 \<Rightarrow> uint160" where
  "CombineHash H symmetric hash1 hash2 =
     (if symmetric then SymmetricCombine H hash1 hash2 else AsymmetricCombine H hash1 hash2)"

section \<open>Nodes\<close>

text \<open>
  A node with \<^verbatim>\<open>middle == 0\<close> has no children and is a \<open>Leaf\<close>; the others are
  \<open>Inner\<close>. The fields are \<^verbatim>\<open>start\<close>, \<^verbatim>\<open>middle\<close>, \<^verbatim>\<open>end\<close>, \<^verbatim>\<open>total_length\<close>,
  \<^verbatim>\<open>hash\<close> and \<^verbatim>\<open>up_to_date\<close>.
\<close>

datatype hash_node =
  Leaf nat nat nat uint160 bool
| Inner nat nat nat nat uint160 bool hash_node hash_node

datatype tree_error = HashTreeException nat

fun total_length :: "hash_node \<Rightarrow> nat" where
  "total_length (Leaf s e tlen h up) = tlen"
| "total_length (Inner s m e tlen h up c1 c2) = tlen"

definition mul32 :: "nat \<Rightarrow> nat \<Rightarrow> nat" where
  "mul32 a b = (a * b) mod 2 ^ 32"

function HashNode_new :: "nat \<Rightarrow> nat \<Rightarrow> hash_node" where
  "HashNode_new s e =
     (if s + 2 < e
      then (let m = (e + s) div 2 in Inner s m e 0 0 False (HashNode_new s m) (HashNode_new m e))
      else Leaf s e 0 0 False)"
  by pat_completeness auto
termination
  by (relation "measure (\<lambda>(s, e). e - s)") auto

declare HashNode_new.simps [simp del]

fun node_AddElement :: "hash_node \<Rightarrow> hash_node \<times> bool" where
  "node_AddElement (Inner s m e tlen h up c1 c2) =
     (let (c2, added) = node_AddElement c2
      in (if added then Inner s m (e + 1) tlen h up c1 c2 else Inner s m e tlen h up c1 c2, added))"
| "node_AddElement (Leaf s e tlen h up) =
     (if e = s + 1 then (Leaf s (e + 1) tlen h False, True)
      else (Leaf s e (tlen + 1) h up, False))"

text \<open>
  \<^verbatim>\<open>Set\<close> and \<^verbatim>\<open>Clear\<close> do the same to the nodes: they drop the cached hashes on the way
  down and end at one element, whose own \<^verbatim>\<open>Set\<close> or \<^verbatim>\<open>Clear\<close> is called. The result is
  the new node with the index of that element, or the exception.
\<close>

fun node_Set :: "nat \<Rightarrow> nat \<Rightarrow> hash_node \<Rightarrow> hash_node \<times> (tree_error + nat)" where
  "node_Set es position (Inner s m e tlen h up c1 c2) =
     (if position < mul32 m es
      then (let (c1, r) = node_Set es position c1 in (Inner s m e tlen h False c1 c2, r))
      else (let (c2, r) = node_Set es position c2 in (Inner s m e tlen h False c1 c2, r)))"
| "node_Set es position (Leaf s e tlen h up) =
     (Leaf s e tlen h False,
      if s \<le> position div es \<and> position div es \<le> e then Inr (position div es)
      else Inl (HashTreeException position))"

fun node_Clear :: "nat \<Rightarrow> nat \<Rightarrow> hash_node \<Rightarrow> hash_node \<times> (tree_error + nat)" where
  "node_Clear es position (Inner s m e tlen h up c1 c2) =
     (if position < mul32 m es
      then (let (c1, r) = node_Clear es position c1 in (Inner s m e tlen h False c1 c2, r))
      else (let (c2, r) = node_Clear es position c2 in (Inner s m e tlen h False c1 c2, r)))"
| "node_Clear es position (Leaf s e tlen h up) =
     (Leaf s e tlen h False,
      if s \<le> position div es \<and> position div es \<le> e then Inr (position div es)
      else Inl (HashTreeException position))"

type_synonym combine = "uint160 \<Rightarrow> uint160 \<Rightarrow> uint160"

fun node_Hash :: "combine \<Rightarrow> (nat \<Rightarrow> uint160 option) \<Rightarrow> nat \<Rightarrow> nat \<Rightarrow> hash_node \<Rightarrow> (uint160 \<times> hash_node) option" where
  "node_Hash comb elh es len (Inner s m e tlen h up c1 c2) =
     (if len = 0 then Some (0, Inner s m e tlen h up c1 c2)
      else if up \<and> len = tlen then Some (h, Inner s m e tlen h up c1 c2)
      else if mul32 m es \<le> len
      then (case node_Hash comb elh es len c1 of None \<Rightarrow> None
            | Some (child_hash_1, c1) \<Rightarrow>
              (case node_Hash comb elh es len c2 of None \<Rightarrow> None
               | Some (child_hash_2, c2) \<Rightarrow>
                   (let h = comb child_hash_1 child_hash_2
                    in Some (h, Inner s m e len h True c1 c2))))
      else (case node_Hash comb elh es len c1 of None \<Rightarrow> None
            | Some (h, c1) \<Rightarrow> Some (h, Inner s m e len h True c1 c2)))"
| "node_Hash comb elh es len (Leaf s e tlen h up) =
     (if len = 0 then Some (0, Leaf s e tlen h up)
      else if up \<and> len = tlen then Some (h, Leaf s e tlen h up)
      else if e = s + 1 \<or> len < mul32 (s + 1) es
      then (case elh s of None \<Rightarrow> None | Some h \<Rightarrow> Some (h, Leaf s e len h True))
      else (case elh s of None \<Rightarrow> None
            | Some start_hash \<Rightarrow>
              (case elh (e - 1) of None \<Rightarrow> None
               | Some end_hash \<Rightarrow>
                   (let h = comb start_hash end_hash in Some (h, Leaf s e len h True)))))"

fun node_Branch :: "combine \<Rightarrow> (nat \<Rightarrow> uint160 option) \<Rightarrow> nat \<Rightarrow> nat \<Rightarrow> hash_node \<Rightarrow> (uint160 list \<times> hash_node) option" where
  "node_Branch comb elh es position (Inner s m e tlen h up c1 c2) =
     (if mul32 m es \<le> position
      then (case node_Branch comb elh es position c2 of None \<Rightarrow> None
            | Some (branch, c2) \<Rightarrow>
              (case node_Hash comb elh es tlen c1 of None \<Rightarrow> None
               | Some (h1, c1) \<Rightarrow> Some (branch @ [h1], Inner s m e tlen h up c1 c2)))
      else (case node_Branch comb elh es position c1 of None \<Rightarrow> None
            | Some (branch, c1) \<Rightarrow>
              (case node_Hash comb elh es tlen c2 of None \<Rightarrow> None
               | Some (h2, c2) \<Rightarrow> Some (branch @ [h2], Inner s m e tlen h up c1 c2))))"
| "node_Branch comb elh es position (Leaf s e tlen h up) =
     (if e = s + 1 then Some ([], Leaf s e tlen h up)
      else if position div es \<noteq> s
      then (case elh s of None \<Rightarrow> None | Some h1 \<Rightarrow> Some ([h1], Leaf s e tlen h up))
      else (case elh (e - 1) of None \<Rightarrow> None | Some h2 \<Rightarrow> Some ([h2], Leaf s e tlen h up)))"

section \<open>Trees\<close>

record hash_tree =
  root_node :: hash_node
  element_size :: nat
  symmetric :: bool

definition HashTree_new :: "nat \<Rightarrow> nat \<Rightarrow> bool \<Rightarrow> hash_tree" where
  "HashTree_new n es sy = \<lparr>root_node = HashNode_new 0 n, element_size = es, symmetric = sy\<rparr>"

definition HashTree_AddElement :: "hash_tree \<Rightarrow> hash_tree \<times> bool" where
  "HashTree_AddElement t =
     (let (r, added) = node_AddElement (root_node t) in (t\<lparr>root_node := r\<rparr>, added))"

definition HashTree_Set :: "nat \<Rightarrow> hash_tree \<Rightarrow> hash_tree \<times> (tree_error + nat)" where
  "HashTree_Set position t =
     (let (r, i) = node_Set (element_size t) position (root_node t) in (t\<lparr>root_node := r\<rparr>, i))"

definition HashTree_Clear :: "nat \<Rightarrow> hash_tree \<Rightarrow> hash_tree \<times> (tree_error + nat)" where
  "HashTree_Clear position t =
     (let (r, i) = node_Clear (element_size t) position (root_node t) in (t\<lparr>root_node := r\<rparr>, i))"

definition HashTree_Hash :: "(vch_t \<Rightarrow> uint160) \<Rightarrow> (nat \<Rightarrow> uint160 option) \<Rightarrow> nat \<Rightarrow> hash_tree
    \<Rightarrow> (uint160 \<times> hash_tree) option" where
  "HashTree_Hash H elh len t =
     (case node_Hash (CombineHash H (symmetric t)) elh (element_size t) len (root_node t) of
        None \<Rightarrow> None
      | Some (h, r) \<Rightarrow> Some (h, t\<lparr>root_node := r\<rparr>))"

definition HashTree_Branch :: "(vch_t \<Rightarrow> uint160) \<Rightarrow> (nat \<Rightarrow> uint160 option) \<Rightarrow> nat \<Rightarrow> nat \<Rightarrow> hash_tree
    \<Rightarrow> (uint160 list \<times> hash_tree) option" where
  "HashTree_Branch H elh n position t =
     (case (if total_length (root_node t) = 0 then map_option snd (HashTree_Hash H elh n t) else Some t) of
        None \<Rightarrow> None
      | Some t \<Rightarrow>
          (case node_Branch (CombineHash H (symmetric t)) elh (element_size t) position (root_node t) of
             None \<Rightarrow> None
           | Some (branch, r) \<Rightarrow> Some (branch, t\<lparr>root_node := r\<rparr>)))"

section \<open>DiurnalBlock\<close>

record diurnal_block =
  hashes :: "uint160 list"
  tree :: "hash_tree option"

definition uint160Datum_getvch :: "uint160 \<Rightarrow> vch_t" where
  "uint160Datum_getvch hash = uint160_bytes hash"

definition uint160Datum_setvch :: "vch_t \<Rightarrow> uint160 option" where
  "uint160Datum_setvch data = (if 20 \<le> length data then Some (uint160_of_bytes data) else None)"

definition DiurnalBlock_new :: diurnal_block where
  "DiurnalBlock_new = \<lparr>hashes = [], tree = None\<rparr>"

definition Diurnal_Hashes :: "diurnal_block \<Rightarrow> uint160 list" where
  "Diurnal_Hashes d = fold (\<lambda>hash hs. hs @ [hash]) (hashes d) []"

definition Diurnal_getvch :: "diurnal_block \<Rightarrow> vch_t" where
  "Diurnal_getvch d = fold (\<lambda>hash bytes. bytes @ uint160_bytes hash) (hashes d) []"

definition Diurnal_Add :: "uint160 \<Rightarrow> diurnal_block \<Rightarrow> diurnal_block" where
  "Diurnal_Add hash d =
     (let hs = hashes d @ [hash] in d\<lparr>hashes := hs, tree := Some (HashTree_new (length hs) 1 True)\<rparr>)"

definition Diurnal_Size :: "diurnal_block \<Rightarrow> nat" where
  "Diurnal_Size d = length (hashes d)"

definition Diurnal_RemoveLast :: "diurnal_block \<Rightarrow> diurnal_block option" where
  "Diurnal_RemoveLast d =
     (if hashes d = [] then None
      else (let hs = take (length (hashes d) - 1) (hashes d)
            in Some (d\<lparr>hashes := hs, tree := Some (HashTree_new (length hs) 1 True)\<rparr>)))"

function Diurnal_RemoveAll :: "diurnal_block \<Rightarrow> diurnal_block" where
  "Diurnal_RemoveAll d =
     (case Diurnal_RemoveLast d of None \<Rightarrow> d | Some d' \<Rightarrow> Diurnal_RemoveAll d')"
  by pat_completeness auto
termination
  by (relation "measure (\<lambda>d. length (hashes d))")
    (auto simp: Diurnal_RemoveLast_def Let_def split: if_splits)

declare Diurnal_RemoveAll.simps [simp del]

function Diurnal_read :: "vch_t \<Rightarrow> diurnal_block \<Rightarrow> diurnal_block option" where
  "Diurnal_read bytes d =
     (if bytes = [] then Some d
      else if length bytes < 20 then None
      else Diurnal_read (drop 20 bytes) (Diurnal_Add (uint160_of_bytes bytes) d))"
  by pat_completeness auto
termination
  by (relation "measure (\<lambda>(bytes, d). length bytes)") auto

declare Diurnal_read.simps [simp del]

definition Diurnal_setvch :: "vch_t \<Rightarrow> diurnal_block \<Rightarrow> diurnal_block option" where
  "Diurnal_setvch bytes d = Diurnal_read bytes (Diurnal_RemoveAll d)"

definition DiurnalBlock_copy :: "diurnal_block \<Rightarrow> diurnal_block option" where
  "DiurnalBlock_copy other_block = Diurnal_setvch (Diurnal_getvch other_block) DiurnalBlock_new"

fun position_from :: "nat \<Rightarrow> uint160 list \<Rightarrow> uint160 \<Rightarrow> int" where
  "position_from i [] hash = - 1"
| "position_from i (x # xs) hash = (if x = hash then int i else position_from (i + 1) xs hash)"

definition Diurnal_Position :: "uint160 \<Rightarrow> diurnal_block \<Rightarrow> int" where
  "Diurnal_Position hash d = position_from 0 (hashes d) hash"

definition Diurnal_Contains :: "uint160 \<Rightarrow> diurnal_block \<Rightarrow> bool" where
  "Diurnal_Contains hash d = (Diurnal_Position hash d \<noteq> - 1)"

definition Diurnal_Last :: "diurnal_block \<Rightarrow> uint160 option" where
  "Diurnal_Last d = (if hashes d = [] then None else Some (hashes d ! (length (hashes d) - 1)))"

definition Diurnal_First :: "diurnal_block \<Rightarrow> uint160 option" where
  "Diurnal_First d = nth_opt (hashes d) 0"

definition Diurnal_Root :: "(vch_t \<Rightarrow> uint160) \<Rightarrow> diurnal_block \<Rightarrow> (uint160 \<times> diurnal_block) option" where
  "Diurnal_Root H d =
     (case tree d of None \<Rightarrow> Some (0, d)
      | Some t \<Rightarrow>
          (case HashTree_Hash H (nth_opt (hashes d)) (length (hashes d)) t of None \<Rightarrow> None
           | Some (h, t) \<Rightarrow> Some (h, d\<lparr>tree := Some t\<rparr>)))"

text \<open>The position is converted from \<^verbatim>\<open>int32_t\<close> to \<^verbatim>\<open>uint64_t\<close>, so -1 becomes the maximum.\<close>

definition Diurnal_Branch :: "(vch_t \<Rightarrow> uint160) \<Rightarrow> uint160 \<Rightarrow> diurnal_block
    \<Rightarrow> (uint160 list \<times> diurnal_block) option" where
  "Diurnal_Branch H hash d =
     (case tree d of None \<Rightarrow> None
      | Some t \<Rightarrow>
          (case HashTree_Branch H (nth_opt (hashes d)) (length (hashes d))
                  (nat (Diurnal_Position hash d mod 2 ^ 64)) t of None \<Rightarrow> None
           | Some (branch, t) \<Rightarrow> Some (branch, d\<lparr>tree := Some t\<rparr>)))"

section \<open>Evaluating a branch\<close>

text \<open>A branch as it is sent ends with the root, which the evaluation leaves out.\<close>

definition EvaluateBranchWithHash :: "(vch_t \<Rightarrow> uint160) \<Rightarrow> uint160 list \<Rightarrow> uint160 \<Rightarrow> nat \<Rightarrow> uint160" where
  "EvaluateBranchWithHash H branch hash start_position =
     fold (\<lambda>k hash. SymmetricCombine H hash (branch ! k)) [start_position..<length branch - 1] hash"


section \<open>What the nodes compute\<close>

text \<open>
  The value of a node without its caches, and the shape of a node with the caches emptied.
\<close>

fun node_val :: "combine \<Rightarrow> (nat \<Rightarrow> uint160 option) \<Rightarrow> nat \<Rightarrow> nat \<Rightarrow> hash_node \<Rightarrow> uint160 option" where
  "node_val comb elh es len (Inner s m e tlen h up c1 c2) =
     (if len = 0 then Some 0
      else if mul32 m es \<le> len
      then both comb (node_val comb elh es len c1) (node_val comb elh es len c2)
      else node_val comb elh es len c1)"
| "node_val comb elh es len (Leaf s e tlen h up) =
     (if len = 0 then Some 0
      else if e = s + 1 \<or> len < mul32 (s + 1) es then elh s
      else both comb (elh s) (elh (e - 1)))"

fun node_shape :: "hash_node \<Rightarrow> hash_node" where
  "node_shape (Inner s m e tlen h up c1 c2) = Inner s m e 0 0 False (node_shape c1) (node_shape c2)"
| "node_shape (Leaf s e tlen h up) = Leaf s e 0 0 False"

lemma node_val_shape [simp]: "node_val comb elh es len (node_shape n) = node_val comb elh es len n"
  by (induction n) auto

lemma node_val_cong_shape:
  "node_shape n = node_shape n' \<Longrightarrow> node_val comb elh es len n = node_val comb elh es len n'"
  by (metis node_val_shape)

text \<open>The caches are valid: a node marked up to date holds its value for the length it was last asked for.\<close>

fun node_ok :: "combine \<Rightarrow> (nat \<Rightarrow> uint160 option) \<Rightarrow> nat \<Rightarrow> hash_node \<Rightarrow> bool" where
  "node_ok comb elh es (Inner s m e tlen h up c1 c2) =
     ((up \<longrightarrow> node_val comb elh es tlen (Inner s m e tlen h up c1 c2) = Some h)
      \<and> node_ok comb elh es c1 \<and> node_ok comb elh es c2)"
| "node_ok comb elh es (Leaf s e tlen h up) =
     (up \<longrightarrow> node_val comb elh es tlen (Leaf s e tlen h up) = Some h)"

lemma node_ok_shape: "node_ok comb elh es (node_shape n)"
  by (induction n) auto

text \<open>One call of \<^verbatim>\<open>Hash\<close> on a node whose caches are valid.\<close>

definition hash_result :: "combine \<Rightarrow> (nat \<Rightarrow> uint160 option) \<Rightarrow> nat \<Rightarrow> nat \<Rightarrow> hash_node
    \<Rightarrow> (uint160 \<times> hash_node) option \<Rightarrow> bool" where
  "hash_result comb elh es len n r \<longleftrightarrow>
     (case r of
        None \<Rightarrow> node_val comb elh es len n = None
      | Some (h, n') \<Rightarrow> node_val comb elh es len n = Some h \<and> node_ok comb elh es n'
          \<and> node_shape n' = node_shape n)"

lemma hash_result_cases:
  assumes "hash_result comb elh es len n r"
  obtains (fails) "r = None" "node_val comb elh es len n = None"
  | (yields) h n' where "r = Some (h, n')" "node_val comb elh es len n = Some h"
      "node_val comb elh es len n' = Some h" "node_ok comb elh es n'" "node_shape n' = node_shape n"
  using assms unfolding hash_result_def
  by (cases r) (auto, metis node_val_shape)

lemma node_Hash_correct:
  assumes "node_ok comb elh es n"
  shows "hash_result comb elh es len n (node_Hash comb elh es len n)"
  using assms
proof (induction n)
  case (Inner s m e tlen h up c1 c2)
  have ok: "node_ok comb elh es c1" "node_ok comb elh es c2" using Inner.prems by auto
  consider "len = 0" | "len \<noteq> 0" "up" "len = tlen" | "len \<noteq> 0" "\<not> (up \<and> len = tlen)" by blast
  then show ?case
  proof cases
    case 1
    then show ?thesis using Inner.prems by (simp add: hash_result_def)
  next
    case 2
    then show ?thesis using Inner.prems by (simp add: hash_result_def)
  next
    case 3
    from Inner.IH(1) [OF ok(1)] show ?thesis
    proof (cases rule: hash_result_cases)
      case fails
      then show ?thesis using 3 by (auto simp: hash_result_def)
    next
      case c1: (yields h1 c1')
      from Inner.IH(2) [OF ok(2)] show ?thesis
        by (cases rule: hash_result_cases) (use 3 c1 ok in \<open>auto simp: hash_result_def Let_def\<close>)
    qed
  qed
next
  case (Leaf s e tlen h up)
  then show ?case
    by (auto simp: hash_result_def Let_def split: option.splits if_splits)
qed

subsection \<open>Ranges and invalidation\<close>

fun node_wf :: "nat \<Rightarrow> nat \<Rightarrow> hash_node \<Rightarrow> bool" where
  "node_wf s e (Inner s' m e' tlen h up c1 c2) =
     (s' = s \<and> e' = e \<and> s < m \<and> m < e \<and> node_wf s m c1 \<and> node_wf m e c2)"
| "node_wf s e (Leaf s' e' tlen h up) = (s' = s \<and> e' = e \<and> s < e \<and> e \<le> s + 2)"

lemma node_wf_new: "s < e \<Longrightarrow> node_wf s e (HashNode_new s e)"
proof (induction s e rule: HashNode_new.induct)
  case (1 s e)
  then show ?case by (subst HashNode_new.simps) (auto simp: Let_def)
qed

lemma node_shape_new [simp]: "node_shape (HashNode_new s e) = HashNode_new s e"
proof (induction s e rule: HashNode_new.induct)
  case (1 s e)
  then show ?case by (subst (1 2) HashNode_new.simps) (auto simp: Let_def)
qed

lemma node_wf_shape [simp]: "node_wf s e (node_shape n) = node_wf s e n"
  by (induction n arbitrary: s e) auto

lemma node_val_agree:
  assumes "node_wf s e n" and "\<And>j. s \<le> j \<Longrightarrow> j < e \<Longrightarrow> elh' j = elh j"
  shows "node_val comb elh' es len n = node_val comb elh es len n"
  using assms by (induction n arbitrary: s e) auto

lemma node_ok_agree:
  assumes "node_wf s e n" and "\<And>j. s \<le> j \<Longrightarrow> j < e \<Longrightarrow> elh' j = elh j"
  shows "node_ok comb elh' es n = node_ok comb elh es n"
  using assms
proof (induction n arbitrary: s e)
  case (Inner s' m e' tlen h up c1 c2)
  have "node_ok comb elh' es c1 = node_ok comb elh es c1" "node_ok comb elh' es c2 = node_ok comb elh es c2"
    using Inner.prems Inner.IH by auto
  then show ?case using node_val_agree [OF Inner.prems] by simp
next
  case (Leaf s' e' tlen h up)
  then show ?case by auto
qed

lemma mul32_less: "m * es < 2 ^ 32 \<Longrightarrow> mul32 m es = m * es"
  by (simp add: mul32_def)

lemma node_Set_spec:
  assumes "node_wf s e n" and "0 < es" and "e * es < 2 ^ 32"
    and "s \<le> position div es" and "position div es < e"
    and "node_ok comb elh es n" and "\<And>j. j \<noteq> position div es \<Longrightarrow> elh' j = elh j"
  shows "snd (node_Set es position n) = Inr (position div es)
    \<and> node_ok comb elh' es (fst (node_Set es position n))
    \<and> node_shape (fst (node_Set es position n)) = node_shape n"
  using assms
proof (induction n arbitrary: s e)
  case (Inner s' m e' tlen h up c1 c2)
  have "m * es \<le> e * es" using Inner.prems(1) by simp
  then have m32: "m * es < 2 ^ 32" using Inner.prems(3) by linarith
  have route: "position < mul32 m es \<longleftrightarrow> position div es < m"
    using Inner.prems(2) m32 by (simp add: mul32_less div_less_iff_less_mult)
  show ?case
  proof (cases "position div es < m")
    case True
    have "node_ok comb elh' es c2"
      using Inner.prems True node_ok_agree [of m e c2 elh' elh comb es] by simp
    then show ?thesis
      using Inner.IH(1) [of s m] Inner.prems True route m32 by (auto split: prod.splits)
  next
    case False
    have "node_ok comb elh' es c1"
      using Inner.prems False node_ok_agree [of s m c1 elh' elh comb es] by simp
    then show ?thesis
      using Inner.IH(2) [of m e] Inner.prems False route m32 by (auto split: prod.splits)
  qed
qed auto

lemma node_Clear_eq: "node_Clear es position n = node_Set es position n"
  by (induction n) auto


section \<open>The reference tree over a list of hashes\<close>

text \<open>
  The root of the hashes from \<open>s\<close> up to \<open>e\<close>, split as the constructor of
  \<^verbatim>\<open>HashNode\<close> splits its range, and the sibling hashes on the way up from a position.
\<close>

function merkle_root :: "combine \<Rightarrow> uint160 list \<Rightarrow> nat \<Rightarrow> nat \<Rightarrow> uint160" where
  "merkle_root comb hs s e =
     (if s + 2 < e
      then (let m = (e + s) div 2 in comb (merkle_root comb hs s m) (merkle_root comb hs m e))
      else if e = s + 1 then hs ! s else comb (hs ! s) (hs ! (e - 1)))"
  by pat_completeness auto
termination
  by (relation "measure (\<lambda>(comb, hs, s, e). e - s)") auto

declare merkle_root.simps [simp del]

function merkle_branch :: "combine \<Rightarrow> uint160 list \<Rightarrow> nat \<Rightarrow> nat \<Rightarrow> nat \<Rightarrow> uint160 list" where
  "merkle_branch comb hs s e position =
     (if s + 2 < e
      then (let m = (e + s) div 2
            in if m \<le> position
               then merkle_branch comb hs m e position @ [merkle_root comb hs s m]
               else merkle_branch comb hs s m position @ [merkle_root comb hs m e])
      else if e = s + 1 then []
      else if position \<noteq> s then [hs ! s] else [hs ! (e - 1)])"
  by pat_completeness auto
termination
  by (relation "measure (\<lambda>(comb, hs, s, e, p). e - s)") auto

declare merkle_branch.simps [simp del]

lemma node_val_new:
  assumes "s < e" and "e \<le> length hs" and "e \<le> len" and "e < 2 ^ 32"
  shows "node_val comb (nth_opt hs) (Suc 0) len (HashNode_new s e) = Some (merkle_root comb hs s e)"
  using assms
proof (induction s e rule: HashNode_new.induct)
  case (1 s e)
  show ?case
  proof (cases "s + 2 < e")
    case True
    define m where "m = (e + s) div 2"
    have m: "s < m" "m < e" using True by (auto simp: m_def)
    then show ?thesis
      using True "1.IH" [OF True m_def] "1.prems"
      by (subst HashNode_new.simps, subst merkle_root.simps) (simp add: Let_def mul32_less flip: m_def)
  next
    case False
    then show ?thesis
      using "1.prems" by (subst HashNode_new.simps, subst merkle_root.simps) (auto simp: mul32_less)
  qed
qed

text \<open>
  The tree after it has been hashed once: every node holds its hash for the length \<open>len\<close>.
\<close>

fun node_full :: "combine \<Rightarrow> (nat \<Rightarrow> uint160 option) \<Rightarrow> nat \<Rightarrow> nat \<Rightarrow> hash_node \<Rightarrow> bool" where
  "node_full comb elh es len (Inner s m e tlen h up c1 c2) =
     (tlen = len \<and> up \<and> node_val comb elh es len (Inner s m e tlen h up c1 c2) = Some h
      \<and> node_full comb elh es len c1 \<and> node_full comb elh es len c2)"
| "node_full comb elh es len (Leaf s e tlen h up) =
     (tlen = len \<and> up \<and> node_val comb elh es len (Leaf s e tlen h up) = Some h)"

lemma node_full_Hash:
  "node_full comb elh es len n \<Longrightarrow> 0 < len \<Longrightarrow>
    \<exists>h. node_Hash comb elh es len n = Some (h, n) \<and> node_val comb elh es len n = Some h"
  by (cases n) auto

lemma node_full_total_length: "node_full comb elh es len n \<Longrightarrow> total_length n = len"
  by (cases n) auto

lemma node_full_ok: "node_full comb elh es len n \<Longrightarrow> node_ok comb elh es n"
  by (induction n) auto

lemma node_Hash_fresh:
  assumes "s < e" and "e \<le> length hs" and "e \<le> len" and "e < 2 ^ 32"
  shows "\<exists>n. node_Hash comb (nth_opt hs) (Suc 0) len (HashNode_new s e) = Some (merkle_root comb hs s e, n)
    \<and> node_full comb (nth_opt hs) (Suc 0) len n \<and> node_shape n = HashNode_new s e"
  using assms
proof (induction s e rule: HashNode_new.induct)
  case (1 s e)
  show ?case
  proof (cases "s + 2 < e")
    case True
    define m where "m = (e + s) div 2"
    have m: "s < m" "m < e" using True by (auto simp: m_def)
    obtain n1 n2 where
      n1: "node_Hash comb (nth_opt hs) (Suc 0) len (HashNode_new s m) = Some (merkle_root comb hs s m, n1)"
        "node_full comb (nth_opt hs) (Suc 0) len n1" "node_shape n1 = HashNode_new s m"
      and n2: "node_Hash comb (nth_opt hs) (Suc 0) len (HashNode_new m e) = Some (merkle_root comb hs m e, n2)"
        "node_full comb (nth_opt hs) (Suc 0) len n2" "node_shape n2 = HashNode_new m e"
      using "1.IH" [OF True m_def] "1.prems" m by auto
    have new: "HashNode_new s e = Inner s m e 0 0 False (HashNode_new s m) (HashNode_new m e)"
      using True by (subst HashNode_new.simps) (simp add: m_def Let_def)
    have mr: "merkle_root comb hs s e = comb (merkle_root comb hs s m) (merkle_root comb hs m e)"
      using True by (subst merkle_root.simps) (simp add: m_def Let_def)
    show ?thesis
      using n1 n2 m "1.prems" node_val_cong_shape [of n1 "HashNode_new s m"]
        node_val_cong_shape [of n2 "HashNode_new m e"]
      by (simp add: new mr mul32_less node_val_new Let_def)
  next
    case False
    then show ?thesis
      using "1.prems" by (subst (1 2) HashNode_new.simps, subst merkle_root.simps) (auto simp: mul32_less Let_def)
  qed
qed

lemma node_Branch_full:
  assumes "s < e" and "e \<le> length hs" and "e \<le> len" and "e < 2 ^ 32"
    and "node_full comb (nth_opt hs) (Suc 0) len n" and "node_shape n = HashNode_new s e"
  shows "node_Branch comb (nth_opt hs) (Suc 0) position n = Some (merkle_branch comb hs s e position, n)"
  using assms
proof (induction s e arbitrary: n rule: HashNode_new.induct)
  case (1 s e)
  show ?case
  proof (cases "s + 2 < e")
    case True
    define m where "m = (e + s) div 2"
    have m: "s < m" "m < e" using True by (auto simp: m_def)
    obtain tlen h up c1 c2 where n: "n = Inner s m e tlen h up c1 c2"
      and c: "node_shape c1 = HashNode_new s m" "node_shape c2 = HashNode_new m e"
      using "1.prems"(6) True by (cases n) (auto simp: HashNode_new.simps [of s e] m_def Let_def)
    have full: "tlen = len" "node_full comb (nth_opt hs) (Suc 0) len c1" "node_full comb (nth_opt hs) (Suc 0) len c2"
      using "1.prems"(5) n by auto
    have v: "node_val comb (nth_opt hs) (Suc 0) len c1 = Some (merkle_root comb hs s m)"
      "node_val comb (nth_opt hs) (Suc 0) len c2 = Some (merkle_root comb hs m e)"
      using c m "1.prems" node_val_cong_shape [of c1 "HashNode_new s m"]
        node_val_cong_shape [of c2 "HashNode_new m e"] by (simp_all add: node_val_new)
    have b: "node_Branch comb (nth_opt hs) (Suc 0) position c1 = Some (merkle_branch comb hs s m position, c1)"
      "node_Branch comb (nth_opt hs) (Suc 0) position c2 = Some (merkle_branch comb hs m e position, c2)"
      using "1.IH" [OF True m_def] "1.prems" m full c by auto
    show ?thesis
      using node_full_Hash [OF full(2)] node_full_Hash [OF full(3)] v b m "1.prems" True
      by (subst merkle_branch.simps) (auto simp: n full(1) mul32_less Let_def m_def)
  next
    case False
    then obtain tlen h up where n: "n = Leaf s e tlen h up"
      using "1.prems"(6) by (cases n) (auto simp: HashNode_new.simps [of s e])
    show ?thesis
      using False "1.prems" by (subst merkle_branch.simps) (auto simp: n)
  qed
qed


section \<open>Branches lead to the root\<close>

text \<open>
  The contract between a tree and whoever checks a branch: the checker combines without
  knowing on which side a sibling stands, so combining must not depend on the order.
\<close>

locale unordered_combine =
  fixes comb :: combine
  assumes comb_commute: "comb x y = comb y x"
begin

lemma branch_root:
  assumes "s < e" and "s \<le> position" and "position < e"
  shows "foldl comb (hs ! position) (merkle_branch comb hs s e position) = merkle_root comb hs s e"
  using assms
proof (induction s e rule: HashNode_new.induct)
  case (1 s e)
  show ?case
  proof (cases "s + 2 < e")
    case True
    define m where "m = (e + s) div 2"
    have m: "s < m" "m < e" using True by (auto simp: m_def)
    have "merkle_root comb hs s e = comb (merkle_root comb hs s m) (merkle_root comb hs m e)"
      using True by (subst merkle_root.simps) (simp add: m_def Let_def)
    moreover have "merkle_branch comb hs s e position =
        (if m \<le> position then merkle_branch comb hs m e position @ [merkle_root comb hs s m]
         else merkle_branch comb hs s m position @ [merkle_root comb hs m e])"
      using True by (subst merkle_branch.simps) (simp add: m_def Let_def)
    ultimately show ?thesis
      using "1.IH" [OF True m_def] "1.prems" m comb_commute [of "merkle_root comb hs m e"]
      by (cases "m \<le> position") simp_all
  next
    case False
    then have e: "e = s + 1 \<or> e = s + 2" using "1.prems" by auto
    then show ?thesis
      using "1.prems" comb_commute [of "hs ! Suc s"]
      by (subst merkle_root.simps, subst merkle_branch.simps) (auto simp: le_Suc_eq less_Suc_eq)
  qed
qed

end

lemma length_merkle_branch:
  "s < e \<Longrightarrow> e - s \<le> 2 ^ d \<Longrightarrow> length (merkle_branch comb hs s e position) \<le> d"
proof (induction s e arbitrary: d rule: HashNode_new.induct)
  case (1 s e)
  show ?case
  proof (cases "s + 2 < e")
    case True
    define m where "m = (e + s) div 2"
    obtain d' where d: "d = Suc d'" using True "1.prems"(2) by (cases d) auto
    have "s < m" "m < e" "m - s \<le> 2 ^ d'" "e - m \<le> 2 ^ d'"
      using True "1.prems"(2) by (auto simp: m_def d)
    then show ?thesis
      using "1.IH" [OF True m_def] True
      by (subst merkle_branch.simps) (auto simp: Let_def d simp flip: m_def)
  next
    case False
    then have "e = s + 1 \<or> 0 < d" using "1.prems" by (cases d) auto
    then show ?thesis using False by (subst merkle_branch.simps) auto
  qed
qed

lemma SymmetricCombine_commute: "SymmetricCombine H x y = SymmetricCombine H y x"
  by (simp add: SymmetricCombine_def Let_def xor.commute or.commute)

interpretation symmetric: unordered_combine "SymmetricCombine H" for H
  by unfold_locales (rule SymmetricCombine_commute)

lemma CombineHash_symmetric [simp]: "CombineHash H True = SymmetricCombine H"
  by (intro ext) (simp add: CombineHash_def)

lemma fold_upt_nth: "fold (\<lambda>k acc. f acc (xs ! k)) [0..<length xs] a = foldl f a xs"
proof (induction xs rule: rev_induct)
  case (snoc x xs)
  have "fold (\<lambda>k acc. f acc ((xs @ [x]) ! k)) [0..<length xs] a
      = fold (\<lambda>k acc. f acc (xs ! k)) [0..<length xs] a"
    by (rule fold_cong) (auto simp: nth_append)
  then show ?case using snoc by simp
qed simp

lemma EvaluateBranch_snoc:
  "EvaluateBranchWithHash H (branch @ [r]) hash 0 = foldl (SymmetricCombine H) hash branch"
proof -
  have "fold (\<lambda>k h. SymmetricCombine H h ((branch @ [r]) ! k)) [0..<length branch] hash
      = fold (\<lambda>k h. SymmetricCombine H h (branch ! k)) [0..<length branch] hash"
    by (rule fold_cong) (auto simp: nth_append)
  then show ?thesis
    by (simp add: EvaluateBranchWithHash_def fold_upt_nth [of "SymmetricCombine H"])
qed

section \<open>The invariant of a block of hashes\<close>

definition tree_inv :: "(vch_t \<Rightarrow> uint160) \<Rightarrow> uint160 list \<Rightarrow> hash_tree \<Rightarrow> bool" where
  "tree_inv H hs t \<longleftrightarrow>
     element_size t = Suc 0 \<and> symmetric t \<and> length hs < 2 ^ 32 \<and>
     (root_node t = HashNode_new 0 (length hs) \<or>
      hs \<noteq> [] \<and> node_full (SymmetricCombine H) (nth_opt hs) (Suc 0) (length hs) (root_node t)
        \<and> node_shape (root_node t) = HashNode_new 0 (length hs))"

definition hashes_root :: "(vch_t \<Rightarrow> uint160) \<Rightarrow> uint160 list \<Rightarrow> uint160" where
  "hashes_root H hs = (if hs = [] then 0 else merkle_root (SymmetricCombine H) hs 0 (length hs))"

lemma HashNode_new_0: "HashNode_new 0 0 = Leaf 0 0 0 0 False"
  by (subst HashNode_new.simps) simp

lemma tree_inv_new: "length hs < 2 ^ 32 \<Longrightarrow> tree_inv H hs (HashTree_new (length hs) (Suc 0) True)"
  by (simp add: tree_inv_def HashTree_new_def)

lemma tree_inv_Hash:
  assumes "tree_inv H hs t"
  shows "\<exists>t'. HashTree_Hash H (nth_opt hs) (length hs) t = Some (hashes_root H hs, t')
    \<and> tree_inv H hs t' \<and> (hs \<noteq> [] \<longrightarrow> total_length (root_node t') = length hs)"
proof (cases "hs = []")
  case True
  then show ?thesis
    using assms by (auto simp: HashTree_Hash_def tree_inv_def hashes_root_def HashNode_new_0)
next
  case False
  then have v: "node_val (SymmetricCombine H) (nth_opt hs) (Suc 0) (length hs) (HashNode_new 0 (length hs))
      = Some (hashes_root H hs)"
    using assms by (simp add: node_val_new tree_inv_def hashes_root_def)
  from assms consider "root_node t = HashNode_new 0 (length hs)"
    | "node_full (SymmetricCombine H) (nth_opt hs) (Suc 0) (length hs) (root_node t)"
      "node_shape (root_node t) = HashNode_new 0 (length hs)"
    by (auto simp: tree_inv_def)
  then show ?thesis
  proof cases
    case 1
    then show ?thesis
      using False assms node_Hash_fresh [of 0 "length hs" hs "length hs" "SymmetricCombine H"]
      by (auto simp: HashTree_Hash_def tree_inv_def hashes_root_def node_full_total_length)
  next
    case 2
    then show ?thesis
      using False assms v node_full_Hash [OF 2(1)] node_val_cong_shape [of "root_node t" "HashNode_new 0 (length hs)"]
      by (auto simp: HashTree_Hash_def tree_inv_def node_full_total_length)
  qed
qed


lemma total_length_new [simp]: "total_length (HashNode_new s e) = 0"
  by (subst HashNode_new.simps) (simp add: Let_def)

lemma tree_inv_Branch:
  assumes "tree_inv H hs t" and "hs \<noteq> []"
  shows "\<exists>t'. HashTree_Branch H (nth_opt hs) (length hs) position t
      = Some (merkle_branch (SymmetricCombine H) hs 0 (length hs) position, t') \<and> tree_inv H hs t'"
proof -
  have branch: "\<exists>t'. HashTree_Branch H (nth_opt hs) (length hs) position u
      = Some (merkle_branch (SymmetricCombine H) hs 0 (length hs) position, t') \<and> tree_inv H hs t'"
    if u: "tree_inv H hs u" "total_length (root_node u) = length hs" for u
  proof -
    have "root_node u \<noteq> HashNode_new 0 (length hs)"
      using u(2) assms(2) by (metis total_length_new length_0_conv)
    then have full: "node_full (SymmetricCombine H) (nth_opt hs) (Suc 0) (length hs) (root_node u)"
      "node_shape (root_node u) = HashNode_new 0 (length hs)"
      using u(1) by (auto simp: tree_inv_def)
    have "node_Branch (SymmetricCombine H) (nth_opt hs) (Suc 0) position (root_node u)
        = Some (merkle_branch (SymmetricCombine H) hs 0 (length hs) position, root_node u)"
      by (rule node_Branch_full [OF _ _ _ _ full]) (use u assms(2) in \<open>auto simp: tree_inv_def\<close>)
    then show ?thesis using u assms(2) by (auto simp: HashTree_Branch_def tree_inv_def)
  qed
  show ?thesis
  proof (cases "total_length (root_node t) = 0")
    case True
    obtain t1 where t1: "HashTree_Hash H (nth_opt hs) (length hs) t = Some (hashes_root H hs, t1)"
      "tree_inv H hs t1" "total_length (root_node t1) = length hs"
      using tree_inv_Hash [OF assms(1)] assms(2) by auto
    then have "HashTree_Branch H (nth_opt hs) (length hs) position t
        = HashTree_Branch H (nth_opt hs) (length hs) position t1"
      using True assms(2) by (simp add: HashTree_Branch_def)
    then show ?thesis using branch [OF t1(2,3)] by simp
  next
    case False
    then have "root_node t \<noteq> HashNode_new 0 (length hs)" by (metis total_length_new)
    then have "total_length (root_node t) = length hs"
      using assms(1) by (auto simp: tree_inv_def node_full_total_length)
    then show ?thesis using branch [OF assms(1)] by simp
  qed
qed

definition diurnal_inv :: "(vch_t \<Rightarrow> uint160) \<Rightarrow> diurnal_block \<Rightarrow> bool" where
  "diurnal_inv H d \<longleftrightarrow> length (hashes d) < 2 ^ 31 \<and>
     (case tree d of None \<Rightarrow> hashes d = [] | Some t \<Rightarrow> tree_inv H (hashes d) t)"

named_theorems diurnal_simps \<open>what the operations of a block of hashes do to the hashes\<close>

lemma diurnal_inv_new: "diurnal_inv H DiurnalBlock_new"
  by (simp add: diurnal_inv_def DiurnalBlock_new_def)

lemma hashes_Add [diurnal_simps]: "hashes (Diurnal_Add h d) = hashes d @ [h]"
  by (simp add: Diurnal_Add_def Let_def)

lemma diurnal_inv_Add:
  "length (hashes d) + 1 < 2 ^ 31 \<Longrightarrow> diurnal_inv H (Diurnal_Add h d)"
  using tree_inv_new [of "hashes d @ [h]" H] by (simp add: diurnal_inv_def Diurnal_Add_def Let_def)

lemma hashes_RemoveLast [diurnal_simps]:
  "Diurnal_RemoveLast d = Some d' \<Longrightarrow> hashes d' = butlast (hashes d)"
  by (auto simp: Diurnal_RemoveLast_def Let_def butlast_conv_take split: if_splits)

lemma diurnal_inv_RemoveLast:
  assumes "diurnal_inv H d" and "Diurnal_RemoveLast d = Some d'"
  shows "diurnal_inv H d'"
  using assms tree_inv_new [of "hashes d'" H]
  by (auto simp: Diurnal_RemoveLast_def diurnal_inv_def Let_def split: if_splits)

lemma RemoveAll_empties:
  assumes "diurnal_inv H d"
  shows "hashes (Diurnal_RemoveAll d) = [] \<and> diurnal_inv H (Diurnal_RemoveAll d)"
  using assms
proof (induction d rule: Diurnal_RemoveAll.induct)
  case (1 d)
  show ?case
  proof (cases "Diurnal_RemoveLast d")
    case None
    then have "hashes d = []" by (simp add: Diurnal_RemoveLast_def Let_def split: if_splits)
    then show ?thesis using None 1 by (subst (1 2) Diurnal_RemoveAll.simps) simp
  next
    case (Some d')
    then show ?thesis
      using 1 diurnal_inv_RemoveLast by (subst (1 2) Diurnal_RemoveAll.simps) auto
  qed
qed

lemma Diurnal_getvch_eq: "Diurnal_getvch d = concat (map uint160_bytes (hashes d))"
proof -
  have "fold (\<lambda>h bytes. bytes @ uint160_bytes h) hs acc = acc @ concat (map uint160_bytes hs)" for hs acc
    by (induction hs arbitrary: acc) auto
  then show ?thesis by (simp add: Diurnal_getvch_def)
qed

lemma Diurnal_read_hashes:
  assumes "length (hashes d) + length hs < 2 ^ 31" and "diurnal_inv H d"
  shows "\<exists>d'. Diurnal_read (concat (map uint160_bytes hs)) d = Some d'
    \<and> hashes d' = hashes d @ hs \<and> diurnal_inv H d'"
  using assms
proof (induction hs arbitrary: d)
  case Nil
  then show ?case by (subst Diurnal_read.simps) simp
next
  case (Cons h hs)
  have "diurnal_inv H (Diurnal_Add h d)" using Cons.prems by (intro diurnal_inv_Add) simp
  moreover have "Diurnal_read (concat (map uint160_bytes (h # hs))) d
      = Diurnal_read (concat (map uint160_bytes hs)) (Diurnal_Add h d)"
    by (subst Diurnal_read.simps) (auto simp: mem_simps simp flip: length_0_conv)
  ultimately show ?case using Cons.IH [of "Diurnal_Add h d"] Cons.prems by (simp add: diurnal_simps)
qed

lemma Diurnal_Root_inv:
  assumes "diurnal_inv H d"
  shows "\<exists>d'. Diurnal_Root H d = Some (hashes_root H (hashes d), d')
    \<and> hashes d' = hashes d \<and> diurnal_inv H d'"
proof (cases "tree d")
  case None
  then show ?thesis using assms by (auto simp: Diurnal_Root_def diurnal_inv_def hashes_root_def)
next
  case (Some t)
  then show ?thesis
    using assms tree_inv_Hash [of H "hashes d" t] by (auto simp: Diurnal_Root_def diurnal_inv_def)
qed

lemma position_from_spec:
  "position_from i xs h = (if h \<in> set xs then int i + int (length (takeWhile (\<lambda>x. x \<noteq> h) xs)) else - 1)"
  by (induction xs arbitrary: i) auto

lemma Diurnal_Position_nth:
  assumes "h \<in> set (hashes d)"
  shows "\<exists>p. Diurnal_Position h d = int p \<and> p < length (hashes d) \<and> hashes d ! p = h"
proof -
  let ?p = "length (takeWhile (\<lambda>x. x \<noteq> h) (hashes d))"
  have "?p < length (hashes d)"
    using assms by (rule length_takeWhile_neq)
  moreover have "hashes d ! ?p = h" using nth_length_takeWhile [OF calculation] by simp
  ultimately show ?thesis using assms by (simp add: Diurnal_Position_def position_from_spec)
qed

lemma Diurnal_Branch_inv:
  assumes "diurnal_inv H d" and "hashes d \<noteq> []"
  shows "\<exists>d'. Diurnal_Branch H h d = Some (merkle_branch (SymmetricCombine H) (hashes d) 0
        (length (hashes d)) (nat (Diurnal_Position h d mod 2 ^ 64)), d')
    \<and> hashes d' = hashes d \<and> diurnal_inv H d'"
proof (cases "tree d")
  case None
  then show ?thesis using assms by (simp add: diurnal_inv_def)
next
  case (Some t)
  then show ?thesis
    using assms tree_inv_Branch [of H "hashes d" t "nat (Diurnal_Position h d mod 2 ^ 64)"]
    by (auto simp: Diurnal_Branch_def diurnal_inv_def)
qed


section \<open>Properties\<close>

text \<open>
  C32. The caches of a \<^verbatim>\<open>HashNode\<close> are transparent. If every node marked up to date holds the
  hash of its elements for the length it was last asked for, then \<^verbatim>\<open>Hash\<close> returns what
  recomputing the whole subtree would return (failing on exactly the same out-of-range
  elements), and leaves the caches valid again.
\<close>

theorem hash_caches_transparent:
  assumes "node_ok comb elh es n"
  shows "map_option fst (node_Hash comb elh es len n) = node_val comb elh es len n
    \<and> (\<forall>h n'. node_Hash comb elh es len n = Some (h, n') \<longrightarrow> node_ok comb elh es n')"
  using node_Hash_correct [OF assms, of len] by (rule hash_result_cases) auto

theorem hash_caches_transparent_witness:
  "map_option fst (node_Hash (\<lambda>x y. x + 2 * y) (nth_opt [1, 2, 3]) 1 3 (HashNode_new 0 3))
     = Some (1 + 2 * (2 + 2 * 3))"
proof -
  have "node_ok (\<lambda>x y. x + 2 * y) (nth_opt [1, 2, 3]) 1 (HashNode_new 0 3)"
    by (simp add: HashNode_new.simps)
  then show ?thesis
    using hash_caches_transparent [of "\<lambda>x y. x + 2 * y" "nth_opt [1, 2, 3]" 1 "HashNode_new 0 3" 3]
    by (simp add: HashNode_new.simps mul32_def nth_opt_def)
qed

text \<open>
  Changing one element through \<^verbatim>\<open>HashNode::Set\<close> invalidates exactly what it must: for a
  position that belongs to the node, the call reaches the element of that position, and the
  caches that remain marked up to date are valid for the changed element.
\<close>

theorem set_invalidates_caches:
  assumes "node_wf s e n" and "0 < es" and "e * es < 2 ^ 32"
    and "s \<le> position div es" and "position div es < e"
    and "node_ok comb elh es n" and "\<forall>j. j \<noteq> position div es \<longrightarrow> elh' j = elh j"
  shows "\<exists>n'. node_Set es position n = (n', Inr (position div es)) \<and> node_ok comb elh' es n'
    \<and> map_option fst (node_Hash comb elh' es len n') = node_val comb elh' es len n"
proof -
  obtain n' r where n': "node_Set es position n = (n', r)" by fastforce
  have spec: "r = Inr (position div es)" "node_ok comb elh' es n'" "node_shape n' = node_shape n"
    using node_Set_spec [OF assms(1-6)] assms(7) n' by auto
  have "map_option fst (node_Hash comb elh' es len n') = node_val comb elh' es len n'"
    using node_Hash_correct [OF spec(2), of len] by (rule hash_result_cases) auto
  then show ?thesis using n' spec node_val_cong_shape [OF spec(3)] by auto
qed

theorem set_invalidates_caches_witness:
  "\<exists>n'. node_Set 1 2 (HashNode_new 0 3) = (n', Inr 2)
    \<and> map_option fst (node_Hash (\<lambda>x y. x + 2 * y) (nth_opt [1, 2, 7]) 1 3 n') = Some (1 + 2 * (2 + 2 * 7))"
proof -
  have "node_wf 0 3 (HashNode_new 0 3)" by (rule node_wf_new) simp
  moreover have "node_ok (\<lambda>x y. x + 2 * y) (nth_opt [1, 2, 3]) 1 (HashNode_new 0 3)"
    by (simp add: HashNode_new.simps)
  moreover have "\<forall>j. j \<noteq> 2 \<longrightarrow> nth_opt [1, 2, 7] j = nth_opt [1, 2, 3 :: uint160] j"
    by (auto simp: nth_opt_def nth_Cons split: nat.splits)
  ultimately show ?thesis
    using set_invalidates_caches [of 0 3 "HashNode_new 0 3" 1 2 "\<lambda>x y. x + 2 * y"
        "nth_opt [1, 2, 3]" "nth_opt [1, 2, 7]" 3]
    by (auto simp: HashNode_new.simps mul32_def nth_opt_def)
qed

text \<open>
  C24. In a block of hashes, the branch of a hash it contains leads to the root: combining the
  hash with the siblings returned by \<^verbatim>\<open>DiurnalBlock::Branch\<close>, one after the other, gives
  \<^verbatim>\<open>DiurnalBlock::Root\<close>, whatever was computed before on the block, and both calls keep the
  invariant. The branch has at most \<open>k\<close> entries when the block has at most \<open>2 ^ k\<close> hashes.
\<close>

theorem diurnal_branch_leads_to_root:
  assumes "diurnal_inv H d" and "h \<in> set (hashes d)" and "length (hashes d) \<le> 2 ^ k"
  shows "\<exists>branch d1 r d2. Diurnal_Branch H h d = Some (branch, d1) \<and> Diurnal_Root H d1 = Some (r, d2)
    \<and> EvaluateBranchWithHash H (branch @ [r]) h 0 = r \<and> length branch \<le> k
    \<and> diurnal_inv H d2 \<and> hashes d2 = hashes d"
proof -
  let ?hs = "hashes d"
  obtain p where p: "Diurnal_Position h d = int p" "p < length ?hs" "?hs ! p = h"
    using Diurnal_Position_nth [OF assms(2)] by blast
  have ne: "?hs \<noteq> []" using assms(2) by auto
  have "int p < 2 ^ 64" using p(2) assms(1) by (simp add: diurnal_inv_def)
  then have pos: "nat (Diurnal_Position h d mod 2 ^ 64) = p" using p(1) by simp
  let ?b = "merkle_branch (SymmetricCombine H) ?hs 0 (length ?hs) p"
  obtain d1 where d1: "Diurnal_Branch H h d = Some (?b, d1)" "hashes d1 = ?hs" "diurnal_inv H d1"
    using Diurnal_Branch_inv [OF assms(1) ne, of h] pos by auto
  obtain d2 where d2: "Diurnal_Root H d1 = Some (hashes_root H ?hs, d2)" "hashes d2 = ?hs" "diurnal_inv H d2"
    using Diurnal_Root_inv [OF d1(3)] d1(2) by auto
  have "foldl (SymmetricCombine H) h ?b = hashes_root H ?hs"
    using symmetric.branch_root [of 0 "length ?hs" p H ?hs] p ne by (simp add: hashes_root_def)
  moreover have "length ?b \<le> k" using assms(3) ne by (intro length_merkle_branch) auto
  ultimately show ?thesis using d1 d2 by (simp add: EvaluateBranch_snoc)
qed

theorem diurnal_branch_leads_to_root_witness:
  "\<exists>branch d1 r d2. Diurnal_Branch (\<lambda>bs. of_nat (length bs)) 6 (Diurnal_Add 6 (Diurnal_Add 5 DiurnalBlock_new))
      = Some (branch, d1)
    \<and> Diurnal_Root (\<lambda>bs. of_nat (length bs)) d1 = Some (r, d2)
    \<and> EvaluateBranchWithHash (\<lambda>bs. of_nat (length bs)) (branch @ [r]) 6 0 = r \<and> length branch \<le> 1"
proof -
  let ?H = "\<lambda>bs :: vch_t. of_nat (length bs) :: uint160"
  let ?d = "Diurnal_Add 6 (Diurnal_Add 5 DiurnalBlock_new)"
  have hs: "hashes ?d = [5, 6]" by (simp add: diurnal_simps DiurnalBlock_new_def)
  have "diurnal_inv ?H ?d" by (rule diurnal_inv_Add) (simp add: diurnal_simps DiurnalBlock_new_def)
  then show ?thesis
    using diurnal_branch_leads_to_root [of ?H ?d 6 1] hs by auto
qed

text \<open>
  Serialising a block of hashes and reading it back, over any previous content, restores
  exactly its hashes and its root; reading never runs past the serialised bytes.
\<close>

theorem diurnal_serialisation_roundtrip:
  assumes "diurnal_inv H d" and "diurnal_inv H old"
  shows "\<exists>d'. Diurnal_setvch (Diurnal_getvch d) old = Some d' \<and> hashes d' = hashes d
    \<and> diurnal_inv H d' \<and> map_option fst (Diurnal_Root H d') = map_option fst (Diurnal_Root H d)"
proof -
  have old: "hashes (Diurnal_RemoveAll old) = []" "diurnal_inv H (Diurnal_RemoveAll old)"
    using RemoveAll_empties [OF assms(2)] by auto
  obtain d' where d': "Diurnal_setvch (Diurnal_getvch d) old = Some d'" "hashes d' = hashes d" "diurnal_inv H d'"
    using Diurnal_read_hashes [OF _ old(2), of "hashes d"] assms(1) old(1)
    by (auto simp: Diurnal_setvch_def Diurnal_getvch_eq diurnal_inv_def)
  then show ?thesis using Diurnal_Root_inv [OF assms(1)] Diurnal_Root_inv [OF d'(3)] by auto
qed

theorem diurnal_serialisation_roundtrip_witness:
  "\<exists>d'. Diurnal_setvch (Diurnal_getvch (Diurnal_Add 5 DiurnalBlock_new)) (Diurnal_Add 9 DiurnalBlock_new) = Some d'
    \<and> hashes d' = [5]"
proof -
  have "diurnal_inv (\<lambda>bs. 0) (Diurnal_Add x DiurnalBlock_new)" for x
    by (rule diurnal_inv_Add) (simp add: DiurnalBlock_new_def)
  then show ?thesis
    using diurnal_serialisation_roundtrip [of "\<lambda>bs. 0" "Diurnal_Add 5 DiurnalBlock_new" "Diurnal_Add 9 DiurnalBlock_new"]
    by (auto simp: diurnal_simps DiurnalBlock_new_def)
qed


end
