(* ===== verification/BitChain.thy ===== *)
theory BitChain
  imports HashTrees
begin

text \<open>
  \<^verbatim>\<open>BitChain\<close> of \<^verbatim>\<open>src/src/crypto/hashtrees.h\<close>: a growing vector of bits packed in
  bytes, one bit per credit, set when the credit is spent. The abstract value is the list of its
  bits; the invariant is that the bytes are as many as the bits need and that the unused bits of
  the last byte are zero, so that equal bit lists have equal hashes.

  \<^verbatim>\<open>length\<close> is a 64-bit number and wraps.  Byte counts are computed as \<^verbatim>\<open>(int)ceil(length / 8.)\<close>: the \<^verbatim>\<open>double\<close> is exact for lengths
  below \<open>2 ^ 53\<close>, and the conversion is undefined when the count is not an \<^verbatim>\<open>int\<close>, which is the value \<^const>\<open>None\<close>.
\<close>

section \<open>Operations\<close>

record bit_chain =
  chain_length :: nat
  chain_data :: vch_t

definition BitChain_new :: bit_chain where
  "BitChain_new = \<lparr>chain_length = 0, chain_data = []\<rparr>"

definition BitChain_Add :: "bit_chain \<Rightarrow> bit_chain" where
  "BitChain_Add c =
     (let c = c\<lparr>chain_length := (chain_length c + 1) mod 2 ^ 64\<rparr>
      in if 8 * length (chain_data c) < chain_length c
         then c\<lparr>chain_data := chain_data c @ [0]\<rparr> else c)"

definition BitChain_Set :: "nat \<Rightarrow> bit_chain \<Rightarrow> bit_chain" where
  "BitChain_Set position c =
     (if chain_length c \<le> position then c
      else c\<lparr>chain_data := (chain_data c)[position div 8 :=
              chain_data c ! (position div 8) OR push_bit (position mod 8) 1]\<rparr>)"

definition BitChain_Clear :: "nat \<Rightarrow> bit_chain \<Rightarrow> bit_chain" where
  "BitChain_Clear position c =
     (if chain_length c \<le> position then c
      else c\<lparr>chain_data := (chain_data c)[position div 8 :=
              chain_data c ! (position div 8) AND NOT (push_bit (position mod 8) 1)]\<rparr>)"

definition BitChain_Get :: "nat \<Rightarrow> bit_chain \<Rightarrow> bool" where
  "BitChain_Get position c =
     (if chain_length c \<le> position then False
      else chain_data c ! (position div 8) AND push_bit (position mod 8) 1 \<noteq> 0)"

definition BitChain_equal :: "bit_chain \<Rightarrow> bit_chain \<Rightarrow> bool" where
  "BitChain_equal c other \<longleftrightarrow> chain_length c = chain_length other \<and> chain_data c = chain_data other"

text \<open>\<^verbatim>\<open>(int)ceil(n / 8.)\<close>\<close>
definition byte_count :: "nat \<Rightarrow> nat option" where
  "byte_count n = (let k = (n + 7) div 8 in if k < 2 ^ 31 then Some k else None)"

text \<open>\<^const>\<open>None\<close> also when the bytes are read beyond the end of the data\<close>
definition BitChain_GetHash160 :: "(vch_t \<Rightarrow> uint160) \<Rightarrow> bit_chain \<Rightarrow> uint160 option" where
  "BitChain_GetHash160 H c =
     (if chain_length c = 0 then Some 0
      else case byte_count (chain_length c) of
             None \<Rightarrow> None
           | Some n \<Rightarrow> if length (chain_data c) < n then None else Some (TreeHash H (take n (chain_data c))))"

definition resize :: "nat \<Rightarrow> 'a \<Rightarrow> 'a list \<Rightarrow> 'a list" where
  "resize n x xs = take n xs @ replicate (n - length xs) x"

definition BitChain_SetLength :: "nat \<Rightarrow> bit_chain \<Rightarrow> bit_chain option" where
  "BitChain_SetLength new_length c =
     (case byte_count new_length of
        None \<Rightarrow> None
      | Some new_size \<Rightarrow>
          (let data = resize new_size 0 (chain_data c);
               data = (if new_length mod 8 \<noteq> 0
                       then data[length data - 1 := data ! (length data - 1) AND (push_bit (new_length mod 8) 1 - 1)]
                       else data)
           in Some \<lparr>chain_length = new_length, chain_data = data\<rparr>))"

definition BitChain_HashDifferent :: "(vch_t \<Rightarrow> uint160) \<Rightarrow> nat list \<Rightarrow> nat list \<Rightarrow> nat \<Rightarrow> bit_chain \<Rightarrow> uint160 option" where
  "BitChain_HashDifferent H to_set to_clear new_length c =
     (case BitChain_SetLength new_length c of
        None \<Rightarrow> None
      | Some other \<Rightarrow>
          (let other = fold BitChain_Set to_set other;
               other = fold BitChain_Clear to_clear other
           in BitChain_GetHash160 H other))"

text \<open>The counter is a 32-bit number, so the loop does not end for longer chains\<close>
definition BitChain_ToString :: "bit_chain \<Rightarrow> string option" where
  "BitChain_ToString c =
     (if chain_length c < 2 ^ 32
      then Some (fold (\<lambda>i result. result @ (if BitChain_Get i c then ''1'' else ''0'')) [0..<chain_length c] [])
      else None)"

section \<open>The contract of a bit vector\<close>

locale bit_vector =
  fixes inv :: "'c \<Rightarrow> bool" and bits :: "'c \<Rightarrow> bool list"
    and add :: "'c \<Rightarrow> 'c" and set1 :: "nat \<Rightarrow> 'c \<Rightarrow> 'c" and clear1 :: "nat \<Rightarrow> 'c \<Rightarrow> 'c"
    and set_length :: "nat \<Rightarrow> 'c \<Rightarrow> 'c option" and most :: nat and longest :: nat
  assumes inv_add: "inv c \<Longrightarrow> length (bits c) < most \<Longrightarrow> inv (add c)"
    and inv_set1: "inv c \<Longrightarrow> inv (set1 i c)"
    and inv_clear1: "inv c \<Longrightarrow> inv (clear1 i c)"
    and bits_add: "inv c \<Longrightarrow> length (bits c) < most \<Longrightarrow> bits (add c) = bits c @ [False]"
    and bits_set1: "inv c \<Longrightarrow> bits (set1 i c) = (bits c)[i := True]"
    and bits_clear1: "inv c \<Longrightarrow> bits (clear1 i c) = (bits c)[i := False]"
    and set_length: "inv c \<Longrightarrow> n \<le> longest \<Longrightarrow> \<exists>d. set_length n c = Some d \<and> inv d \<and> bits d = resize n False (bits c)"
    and set_length_undefined: "longest < n \<Longrightarrow> set_length n c = None"
    and bits_inject: "inv c \<Longrightarrow> inv d \<Longrightarrow> bits c = bits d \<Longrightarrow> c = d"
begin

lemma fold_set1:
  assumes "inv c"
  shows "inv (fold set1 is c) \<and> bits (fold set1 is c) = map (\<lambda>i. i \<in> set is \<or> bits c ! i) [0..<length (bits c)]"
  using assms
proof (induction "is" arbitrary: c)
  case Nil
  then show ?case by (simp add: map_nth)
next
  case (Cons i "is")
  have "(bits c)[i := True] ! j \<longleftrightarrow> j = i \<or> bits c ! j" if "j < length (bits c)" for j
    using that by (cases "i < length (bits c)") (auto simp: nth_list_update list_update_beyond)
  then show ?case
    using Cons.IH [OF inv_set1 [OF Cons.prems]] by (auto simp: Cons.prems bits_set1)
qed

lemma fold_clear1:
  assumes "inv c"
  shows "inv (fold clear1 is c) \<and> bits (fold clear1 is c) = map (\<lambda>i. i \<notin> set is \<and> bits c ! i) [0..<length (bits c)]"
  using assms
proof (induction "is" arbitrary: c)
  case Nil
  then show ?case by (simp add: map_nth)
next
  case (Cons i "is")
  have "(bits c)[i := False] ! j \<longleftrightarrow> j \<noteq> i \<and> bits c ! j" if "j < length (bits c)" for j
    using that by (cases "i < length (bits c)") (auto simp: nth_list_update list_update_beyond)
  then show ?case
    using Cons.IH [OF inv_clear1 [OF Cons.prems]] by (auto simp: Cons.prems bits_clear1)
qed

lemma set_clear_same: "inv c \<Longrightarrow> i < length (bits c) \<Longrightarrow> \<not> bits c ! i \<Longrightarrow> clear1 i (set1 i c) = c"
  by (rule bits_inject) (simp_all add: inv_clear1 inv_set1 bits_clear1 bits_set1 list_update_same_conv)

lemma update_commute: "inv c \<Longrightarrow> i \<noteq> j \<Longrightarrow> set1 i (clear1 j c) = clear1 j (set1 i c)"
  by (rule bits_inject) (simp_all add: inv_clear1 inv_set1 bits_clear1 bits_set1 list_update_swap)

end

section \<open>BitChain is a bit vector\<close>

definition chain_bit :: "vch_t \<Rightarrow> nat \<Rightarrow> bool" where
  "chain_bit data i = bit (data ! (i div 8)) (i mod 8)"

definition chain_bits :: "bit_chain \<Rightarrow> bool list" where
  "chain_bits c = map (chain_bit (chain_data c)) [0..<chain_length c]"

definition chain_inv :: "bit_chain \<Rightarrow> bool" where
  "chain_inv c \<longleftrightarrow> length (chain_data c) = (chain_length c + 7) div 8
     \<and> (\<forall>i < 8 * length (chain_data c). chain_length c \<le> i \<longrightarrow> \<not> chain_bit (chain_data c) i)"

lemma length_chain_bits [simp]: "length (chain_bits c) = chain_length c"
  by (simp add: chain_bits_def)

lemma bit_exp_u8: "n < 8 \<Longrightarrow> bit (2 ^ n :: u8) m \<longleftrightarrow> m = n"
  by (auto simp: bit_exp_iff)

lemma chain_bit_update_or:
  assumes "p < 8 * length data" and "i < 8 * length data"
  shows "chain_bit (data[p div 8 := data ! (p div 8) OR 2 ^ (p mod 8)]) i \<longleftrightarrow> i = p \<or> chain_bit data i"
proof -
  have "i div 8 = p div 8 \<and> i mod 8 = p mod 8 \<longleftrightarrow> i = p" by (metis div_mod_decomp)
  then show ?thesis using assms
    by (auto simp: chain_bit_def nth_list_update bit_or_iff bit_exp_u8)
qed

lemma chain_bit_update_and:
  assumes "p < 8 * length data" and "i < 8 * length data"
  shows "chain_bit (data[p div 8 := data ! (p div 8) AND NOT (2 ^ (p mod 8))]) i \<longleftrightarrow> i \<noteq> p \<and> chain_bit data i"
proof -
  have "i div 8 = p div 8 \<and> i mod 8 = p mod 8 \<longleftrightarrow> i = p" by (metis div_mod_decomp)
  moreover have "i mod 8 < 8" by simp
  ultimately show ?thesis using assms
    by (auto simp: chain_bit_def nth_list_update bit_and_iff bit_not_iff bit_exp_u8)
qed

lemma BitChain_Get_bit: "p < chain_length c \<Longrightarrow> BitChain_Get p c = chain_bits c ! p"
proof -
  have "x AND 2 ^ n \<noteq> 0 \<longleftrightarrow> bit x n" if "n < 8" for x :: u8 and n
    using that by (auto simp: bit_eq_iff [of "x AND 2 ^ n"] bit_and_iff bit_exp_u8)
  then show "p < chain_length c \<Longrightarrow> BitChain_Get p c = chain_bits c ! p"
    by (simp add: BitChain_Get_def chain_bits_def chain_bit_def)
qed

lemma chain_data_bound: "chain_inv c \<Longrightarrow> i < chain_length c \<Longrightarrow> i < 8 * length (chain_data c)"
  by (simp add: chain_inv_def)

lemma chain_inv_new: "chain_inv BitChain_new"
  by (simp add: chain_inv_def BitChain_new_def)

lemma chain_Set:
  assumes "chain_inv c"
  shows "chain_inv (BitChain_Set p c) \<and> chain_bits (BitChain_Set p c) = (chain_bits c)[p := True]"
proof (cases "p < chain_length c")
  case True
  note b = chain_data_bound [OF assms]
  have "chain_inv (BitChain_Set p c)"
    using assms True b [OF True] by (auto simp: chain_inv_def BitChain_Set_def chain_bit_update_or)
  moreover have "chain_bits (BitChain_Set p c) = (chain_bits c)[p := True]"
    using True b by (intro nth_equalityI)
      (auto simp: BitChain_Set_def chain_bits_def chain_bit_update_or nth_list_update)
  ultimately show ?thesis by simp
next
  case False
  then show ?thesis using assms by (simp add: BitChain_Set_def list_update_beyond)
qed

lemma chain_Clear:
  assumes "chain_inv c"
  shows "chain_inv (BitChain_Clear p c) \<and> chain_bits (BitChain_Clear p c) = (chain_bits c)[p := False]"
proof (cases "p < chain_length c")
  case True
  note b = chain_data_bound [OF assms]
  have "chain_inv (BitChain_Clear p c)"
    using assms True b [OF True] by (auto simp: chain_inv_def BitChain_Clear_def chain_bit_update_and)
  moreover have "chain_bits (BitChain_Clear p c) = (chain_bits c)[p := False]"
    using True b by (intro nth_equalityI)
      (auto simp: BitChain_Clear_def chain_bits_def chain_bit_update_and nth_list_update)
  ultimately show ?thesis by simp
next
  case False
  then show ?thesis using assms by (simp add: BitChain_Clear_def list_update_beyond)
qed

lemma chain_bit_snoc:
  "i < 8 * length data \<Longrightarrow> chain_bit (data @ [x]) i = chain_bit data i"
  by (simp add: chain_bit_def nth_append div_less_iff_less_mult mult.commute)

lemma chain_Add:
  assumes "chain_inv c" and "chain_length c < 2 ^ 64 - 1"
  shows "chain_inv (BitChain_Add c) \<and> chain_bits (BitChain_Add c) = chain_bits c @ [False]"
proof (cases "8 * length (chain_data c) < chain_length c + 1")
  case True
  then have len: "8 * length (chain_data c) = chain_length c" using assms(1) by (auto simp: chain_inv_def)
  have new: "\<not> chain_bit (chain_data c @ [0]) i" if "chain_length c \<le> i" "i < 8 * length (chain_data c) + 8" for i
    using that len by (simp add: chain_bit_def nth_append div_less_iff_less_mult mult.commute)
  show ?thesis
    using True len new assms
    by (simp add: chain_inv_def BitChain_Add_def chain_bits_def chain_bit_snoc Let_def)
next
  case False
  then have "\<not> chain_bit (chain_data c) (chain_length c)" using assms(1) by (auto simp: chain_inv_def)
  moreover have "length (chain_data c) = (chain_length c + 8) div 8"
    using False assms(1) by (auto simp: chain_inv_def)
  ultimately show ?thesis
    using False assms by (simp add: chain_inv_def BitChain_Add_def chain_bits_def)
qed

lemma length_resize [simp]: "length (resize n x xs) = n"
  by (simp add: resize_def)

lemma nth_resize: "i < n \<Longrightarrow> resize n x xs ! i = (if i < length xs then xs ! i else x)"
  by (auto simp: resize_def nth_append)


lemma chain_bit_resize:
  assumes "i < 8 * n"
  shows "chain_bit (resize n 0 data) i \<longleftrightarrow> i < 8 * length data \<and> chain_bit data i"
  using assms by (simp add: chain_bit_def nth_resize div_less_iff_less_mult mult.commute)

text \<open>The number of bytes for a number of bits.\<close>

lemma bytes_needed: "((n :: nat) + 7) div 8 = n div 8 + (if n mod 8 = 0 then 0 else 1)"
proof -
  have "n + 7 = (n mod 8 + 7) + n div 8 * 8" using mult_div_mod_eq [of 8 n] by simp
  then have "(n + 7) div 8 = n div 8 + (n mod 8 + 7) div 8" by (simp only: div_mult_self1)
  moreover have "n mod 8 \<noteq> 0 \<Longrightarrow> (n mod 8 + 7) div 8 = 1"
    using mod_less_divisor [of 8 n] by (intro div_nat_eqI) simp_all
  ultimately show ?thesis by simp
qed

lemma chain_bit_mask:
  assumes "n mod 8 \<noteq> 0" and "length data = (n + 7) div 8" and "i < 8 * length data"
  shows "chain_bit (data[length data - 1 := data ! (length data - 1) AND (2 ^ (n mod 8) - 1)]) i
    \<longleftrightarrow> i < n \<and> chain_bit data i"
proof -
  have last: "length data - 1 = n div 8" using assms(1,2) by (simp add: bytes_needed)
  have "(2 ^ (n mod 8) - 1 :: u8) = mask (n mod 8)" by (simp add: mask_eq_exp_minus_1)
  then have m: "bit (x AND (2 ^ (n mod 8) - 1)) k \<longleftrightarrow> k < n mod 8 \<and> bit x k" for x :: u8 and k
    by (auto simp: bit_and_iff bit_mask_iff dest: bit_imp_le_length)
  have "i div 8 < length data" using assms(3) by (simp add: div_less_iff_less_mult mult.commute)
  then have "i div 8 \<le> n div 8" using last by linarith
  moreover have "i div 8 = n div 8 \<Longrightarrow> i mod 8 < n mod 8 \<longleftrightarrow> i < n"
    by (metis div_mult_mod_eq nat_add_left_cancel_less)
  moreover have "i div 8 < n div 8 \<Longrightarrow> i < n" by (meson div_le_mono leD leI)
  ultimately show ?thesis
    unfolding last using \<open>i div 8 < length data\<close> m
    by (auto simp: chain_bit_def nth_list_update le_less)
qed

lemma byte_count_some: "n \<le> 8 * (2 ^ 31 - 1) \<Longrightarrow> byte_count n = Some ((n + 7) div 8)"
  by (simp add: byte_count_def Let_def div_less_iff_less_mult)

lemma byte_count_none: "8 * (2 ^ 31 - 1) < n \<Longrightarrow> byte_count n = None"
  by (simp add: byte_count_def Let_def div_less_iff_less_mult)

lemma chain_SetLength:
  assumes "chain_inv c" and "n \<le> 8 * (2 ^ 31 - 1)"
  shows "\<exists>d. BitChain_SetLength n c = Some d \<and> chain_inv d \<and> chain_bits d = resize n False (chain_bits c)"
proof -
  let ?L = "(n + 7) div 8"
  define d where "d = (let data = resize ?L 0 (chain_data c)
    in if n mod 8 \<noteq> 0 then data[length data - 1 := data ! (length data - 1) AND (push_bit (n mod 8) 1 - 1)] else data)"
  have set: "BitChain_SetLength n c = Some \<lparr>chain_length = n, chain_data = d\<rparr>"
    using byte_count_some [OF assms(2)] by (simp add: BitChain_SetLength_def d_def Let_def)
  have old: "i < 8 * length (chain_data c) \<and> chain_bit (chain_data c) i
      \<longleftrightarrow> i < chain_length c \<and> chain_bits c ! i" for i
    using assms(1) chain_data_bound [OF assms(1)] by (auto simp: chain_inv_def chain_bits_def not_le [symmetric])
  have len: "length d = ?L" by (simp add: d_def Let_def)
  have bits: "chain_bit d i \<longleftrightarrow> i < n \<and> i < chain_length c \<and> chain_bits c ! i" if "i < 8 * ?L" for i
  proof (cases "n mod 8 = 0")
    case True
    then have "8 * ?L = n" by (auto simp: bytes_needed)
    then show ?thesis using that True old [of i] by (simp add: d_def Let_def chain_bit_resize)
  next
    case False
    then show ?thesis using that old [of i] chain_bit_mask [of n "resize ?L 0 (chain_data c)" i]
      by (simp add: d_def Let_def chain_bit_resize)
  qed
  have "n \<le> 8 * ?L" using mult_div_mod_eq [of 8 n] mod_less_divisor [of 8 n] unfolding bytes_needed by (cases "n mod 8 = 0") simp_all
  then have "chain_bits \<lparr>chain_length = n, chain_data = d\<rparr> = resize n False (chain_bits c)"
    using bits by (intro nth_equalityI) (auto simp: chain_bits_def nth_resize)
  moreover have "chain_inv \<lparr>chain_length = n, chain_data = d\<rparr>" using bits len by (auto simp: chain_inv_def)
  ultimately show ?thesis using set by blast
qed

lemma chain_SetLength_undefined: "8 * (2 ^ 31 - 1) < n \<Longrightarrow> BitChain_SetLength n c = None"
  by (simp only: BitChain_SetLength_def byte_count_none option.case)

lemma chain_bits_inject:
  assumes "chain_inv c" and "chain_inv d" and "chain_bits c = chain_bits d"
  shows "c = d"
proof -
  have len: "chain_length c = chain_length d" using assms(3) by (metis length_chain_bits)
  have "chain_data c ! k = chain_data d ! k" if "k < length (chain_data c)" for k
  proof (rule bit_eqI)
    fix m assume "possible_bit TYPE(u8) m"
    then have m: "m < 8" by simp
    have "chain_bit (chain_data c) (8 * k + m) = chain_bit (chain_data d) (8 * k + m)"
    proof (cases "8 * k + m < chain_length c")
      case True
      then show ?thesis using assms(3) len unfolding chain_bits_def
        by (metis add.left_neutral length_map length_upt minus_nat.diff_0 nth_map nth_upt)
    next
      case False
      then show ?thesis using that m assms(1,2) len by (simp add: chain_inv_def)
    qed
    then show "bit (chain_data c ! k) m = bit (chain_data d ! k) m" using m by (simp add: chain_bit_def)
  qed
  moreover have "length (chain_data c) = length (chain_data d)"
    using assms(1,2) len by (simp add: chain_inv_def)
  ultimately have "chain_data c = chain_data d" by (intro nth_equalityI) auto
  then show ?thesis using len by simp
qed

interpretation chain: bit_vector chain_inv chain_bits BitChain_Add BitChain_Set BitChain_Clear BitChain_SetLength "2 ^ 64 - 1" "8 * (2 ^ 31 - 1)"
  by unfold_locales (simp_all only: chain_Add chain_Set chain_Clear chain_SetLength chain_SetLength_undefined chain_bits_inject length_chain_bits)

section \<open>Properties\<close>

text \<open>
  C40. \<^verbatim>\<open>BitChain\<close> implements a list of bits: adding appends a zero (below \<open>2 ^ 64 - 1\<close> bits, where the length would wrap), setting and
  clearing change one position (and nothing out of range), changing the length to at most \<open>8 * (2 ^ 31 - 1)\<close> cuts or pads with zeros,
  reading returns the bit, and every operation keeps the invariant on the packed bytes.  Changing the length to more is undefined.
\<close>

theorem bit_chain_refines_bits:
  assumes "chain_inv c"
  shows "(chain_length c < 2 ^ 64 - 1 \<longrightarrow> chain_inv (BitChain_Add c) \<and> chain_bits (BitChain_Add c) = chain_bits c @ [False])
    \<and> chain_inv (BitChain_Set p c) \<and> chain_bits (BitChain_Set p c) = (chain_bits c)[p := True]
    \<and> chain_inv (BitChain_Clear p c) \<and> chain_bits (BitChain_Clear p c) = (chain_bits c)[p := False]
    \<and> (if n \<le> 8 * (2 ^ 31 - 1)
       then \<exists>d. BitChain_SetLength n c = Some d \<and> chain_inv d \<and> chain_bits d = resize n False (chain_bits c)
       else BitChain_SetLength n c = None)
    \<and> BitChain_Get p c = (p < length (chain_bits c) \<and> chain_bits c ! p)"
proof (intro conjI impI)
  show "if n \<le> 8 * (2 ^ 31 - 1)
       then \<exists>d. BitChain_SetLength n c = Some d \<and> chain_inv d \<and> chain_bits d = resize n False (chain_bits c)
       else BitChain_SetLength n c = None"
    by (rule if_split [THEN iffD2]) (use chain_SetLength [OF assms, of n] chain_SetLength_undefined [of n c] in \<open>unfold not_le, blast\<close>)
  show "BitChain_Get p c = (p < length (chain_bits c) \<and> chain_bits c ! p)"
    using BitChain_Get_bit [of p c] by (auto simp: BitChain_Get_def)
qed (use assms in \<open>simp_all only: chain_Add chain_Set chain_Clear\<close>)

theorem bit_chain_refines_bits_witness:
  "chain_bits (BitChain_Set 1 (BitChain_Add (BitChain_Add BitChain_new))) = [False, True]
   \<and> (\<exists>d. BitChain_SetLength 3 BitChain_new = Some d \<and> chain_bits d = [False, False, False])"
proof -
  have a: "chain_inv (BitChain_Add BitChain_new) \<and> chain_bits (BitChain_Add BitChain_new) = [False]"
    using bit_chain_refines_bits [of BitChain_new] chain_inv_new by (simp add: BitChain_new_def chain_bits_def)
  then have "chain_length (BitChain_Add BitChain_new) = 1" using length_chain_bits [of "BitChain_Add BitChain_new"] by simp
  then have "chain_inv (BitChain_Add (BitChain_Add BitChain_new)) \<and> chain_bits (BitChain_Add (BitChain_Add BitChain_new)) = [False, False]"
    using bit_chain_refines_bits [of "BitChain_Add BitChain_new"] a by simp
  moreover have "\<exists>d. BitChain_SetLength 3 BitChain_new = Some d \<and> chain_bits d = [False, False, False]"
    using bit_chain_refines_bits [of BitChain_new 0 3] chain_inv_new by (auto simp: BitChain_new_def chain_bits_def resize_def numeral_3_eq_3)
  ultimately show ?thesis using bit_chain_refines_bits [of "BitChain_Add (BitChain_Add BitChain_new)" 1] by simp
qed

text \<open>
  The hash of a chain changed by a batch, \<^verbatim>\<open>HashDifferent\<close>, is the hash of the chain
  that has the new length, the bits to set set and then the bits to clear cleared: it depends on
  the old bits and on the two sets of positions only, not on their order or on how the chain was
  built.
\<close>

theorem hash_different_of_bits:
  assumes "chain_inv c" and "chain_inv c'" and "n \<le> 8 * (2 ^ 31 - 1)"
    and "chain_bits c' = map (\<lambda>i. i \<notin> set to_clear \<and> (i \<in> set to_set \<or> BitChain_Get i c)) [0..<n]"
  shows "BitChain_HashDifferent H to_set to_clear n c = BitChain_GetHash160 H c'"
proof -
  obtain a where a: "BitChain_SetLength n c = Some a" "chain_inv a" "chain_bits a = resize n False (chain_bits c)"
    using chain_SetLength [OF assms(1,3)] by blast
  note b = chain.fold_set1 [OF a(2), of to_set]
  let ?r = "fold BitChain_Clear to_clear (fold BitChain_Set to_set a)"
  have r: "chain_inv ?r \<and> chain_bits ?r = map (\<lambda>i. i \<notin> set to_clear \<and> chain_bits (fold BitChain_Set to_set a) ! i) [0..<n]"
    using chain.fold_clear1 [of "fold BitChain_Set to_set a" to_clear] b a(3) by simp
  have get: "BitChain_Get i c \<longleftrightarrow> i < chain_length c \<and> chain_bits c ! i" for i
    using BitChain_Get_bit [of i c] by (auto simp: BitChain_Get_def)
  have "chain_bits ?r = chain_bits c'"
    unfolding assms(4) conjunct2 [OF r] using b a(3) by (simp add: nth_resize get)
  then have "?r = c'" using chain.bits_inject [of ?r c'] r assms(2) by blast
  then show ?thesis by (simp add: BitChain_HashDifferent_def Let_def a(1))
qed

theorem hash_different_of_bits_witness:
  "BitChain_HashDifferent (\<lambda>bs. of_nat (bytes_val bs)) [1] [0] 2 (BitChain_Set 0 (BitChain_Add BitChain_new))
     = BitChain_GetHash160 (\<lambda>bs. of_nat (bytes_val bs)) (BitChain_Set 1 (BitChain_Add (BitChain_Add BitChain_new)))"
proof (rule hash_different_of_bits)
  let ?a = "BitChain_Add BitChain_new"
  have a: "chain_inv ?a" "chain_bits ?a = [False]" "chain_length ?a = 1"
    using chain_Add [OF chain_inv_new] length_chain_bits [of ?a] by (simp_all add: BitChain_new_def chain_bits_def)
  have b: "chain_inv (BitChain_Add ?a)" "chain_bits (BitChain_Add ?a) = [False, False]" using chain_Add [OF a(1)] a(2,3) by simp_all
  show "chain_inv (BitChain_Set 0 ?a)" "chain_inv (BitChain_Set 1 (BitChain_Add ?a))" using chain_Set [OF a(1)] chain_Set [OF b(1)] by simp_all
  have "[0..<2] = [0, 1 :: nat]" by (simp add: upt_rec)
  then show "chain_bits (BitChain_Set 1 (BitChain_Add ?a)) = map (\<lambda>i. i \<notin> set [0] \<and> (i \<in> set [1] \<or> BitChain_Get i (BitChain_Set 0 ?a))) [0..<2]"
    using chain_Set [OF b(1), of 1] b(2) by simp
qed simp


end
