(* ===== verification/OrderedTree.thy ===== *)
theory OrderedTree
  imports HashTrees
begin

text \<open>
  \<^verbatim>\<open>OrderedDataElement\<close>, \<^verbatim>\<open>OrderedHashTree\<close> and
  \<^verbatim>\<open>VerifyBranchFromOrderedHashTree\<close> of \<^verbatim>\<open>src/src/crypto/hashtrees.h\<close>: the tree in which
  a batch of credits commits to its members, sorted by the hash of their data.

  The elements are heap objects that the tree and its \<^verbatim>\<open>HashTree\<close> share through pointers, and
  \<^verbatim>\<open>AssignPositions\<close> changes them in place. \<open>store\<close> holds the allocated objects, a pointer is
  an index into it, and \<open>None\<close> is the null pointer that \<^verbatim>\<open>sorted_elements.resize(n)\<close> leaves in
  a slot nothing is assigned to. Dereferencing it makes the operation \<open>None\<close>.
\<close>

section \<open>Elements\<close>

record ordered_element =
  elem_position :: u64
  elem_data :: vch_t

definition OrderedDataElement_new :: "u64 \<Rightarrow> vch_t \<Rightarrow> ordered_element" where
  "OrderedDataElement_new positionIn input = \<lparr>elem_position = positionIn, elem_data = input\<rparr>"

definition DataHash :: "(vch_t \<Rightarrow> uint160) \<Rightarrow> ordered_element \<Rightarrow> uint160" where
  "DataHash H e = TreeHash H (elem_data e)"

text \<open>\<^verbatim>\<open>memcpy(&buf[0], src, n)\<close> for \<open>n\<close> not larger than the buffer.\<close>

definition memcpy_front :: "vch_t \<Rightarrow> vch_t \<Rightarrow> vch_t" where
  "memcpy_front buf src = src @ drop (length src) buf"

definition OrderedDataElement_Hash :: "(vch_t \<Rightarrow> uint160) \<Rightarrow> ordered_element \<Rightarrow> uint160" where
  "OrderedDataElement_Hash H e =
     (let position_plus_data = replicate (4 + length (elem_data e)) 0;
          position_plus_data = memcpy_front position_plus_data (take 4 (u64_bytes (elem_position e)));
          position_plus_data = memcpy_front position_plus_data (elem_data e)
      in TreeHash H position_plus_data)"

section \<open>The tree\<close>

record ordered_tree =
  ot_store :: "ordered_element list"
  ot_elements :: "nat option list"
  ot_tree :: "(nat option list \<times> hash_tree) option"
  positions_assigned :: bool
  ot_offset :: u64

definition OrderedHashTree_new :: "u64 \<Rightarrow> ordered_tree" where
  "OrderedHashTree_new offsetIn =
     \<lparr>ot_store = [], ot_elements = [], ot_tree = None, positions_assigned = False, ot_offset = offsetIn\<rparr>"

definition AddOrderedDataElement :: "ordered_element \<Rightarrow> ordered_tree \<Rightarrow> ordered_tree" where
  "AddOrderedDataElement e t =
     t\<lparr>ot_store := ot_store t @ [e], ot_elements := ot_elements t @ [Some (length (ot_store t))],
       positions_assigned := False\<rparr>"

definition Ordered_AddElement :: "vch_t \<Rightarrow> ordered_tree \<Rightarrow> ordered_tree" where
  "Ordered_AddElement input t = AddOrderedDataElement (OrderedDataElement_new 0 input) t"

definition deref :: "ordered_tree \<Rightarrow> nat option \<Rightarrow> ordered_element option" where
  "deref t p = (case p of None \<Rightarrow> None | Some p \<Rightarrow> nth_opt (ot_store t) p)"

definition Ordered_GetData :: "u64 \<Rightarrow> ordered_tree \<Rightarrow> vch_t option" where
  "Ordered_GetData pos t =
     (case nth_opt (ot_elements t) (unat (pos - ot_offset t)) of None \<Rightarrow> None
      | Some p \<Rightarrow> map_option elem_data (deref t p))"

definition set_position :: "nat \<Rightarrow> u64 \<Rightarrow> ordered_element list \<Rightarrow> ordered_element list" where
  "set_position p pos st = st[p := (st ! p)\<lparr>elem_position := pos\<rparr>]"

definition find_index :: "'a \<Rightarrow> 'a list \<Rightarrow> nat" where
  "find_index x xs = length (takeWhile (\<lambda>y. y \<noteq> x) xs)"

definition AssignPositions :: "(vch_t \<Rightarrow> uint160) \<Rightarrow> ordered_tree \<Rightarrow> ordered_tree option" where
  "AssignPositions H t =
     (case those (ot_elements t) of None \<Rightarrow> None
      | Some ps \<Rightarrow>
          (let n = length ps;
               st = fold (\<lambda>p. set_position p 0) ps (ot_store t);
               these_hashes = map (\<lambda>p. DataHash H (st ! p)) ps;
               sorted_hashes = sort these_hashes;
               st = fold (\<lambda>i. set_position (ps ! i)
                       (ot_offset t + of_nat (find_index (these_hashes ! i) sorted_hashes))) [0..<n] st;
               sorted_elements =
                 fold (\<lambda>i es. es[unat (elem_position (st ! (ps ! i)) - ot_offset t) := Some (ps ! i)])
                   [0..<n] (replicate n None)
           in Some (t\<lparr>ot_store := st, ot_elements := sorted_elements, positions_assigned := True\<rparr>)))"

definition BuildTree :: "(vch_t \<Rightarrow> uint160) \<Rightarrow> ordered_tree \<Rightarrow> ordered_tree option" where
  "BuildTree H t =
     (case AssignPositions H t of None \<Rightarrow> None
      | Some t \<Rightarrow>
          Some (t\<lparr>ot_tree := Some (ot_elements t, HashTree_new (length (ot_elements t)) 1 True)\<rparr>))"

fun ordered_position_loop :: "vch_t \<Rightarrow> ordered_element option list \<Rightarrow> int option" where
  "ordered_position_loop d [] = Some (- 1)"
| "ordered_position_loop d (None # es) = None"
| "ordered_position_loop d (Some e # es) =
     (if d = elem_data e then Some (sint (ucast (elem_position e) :: u32)) else ordered_position_loop d es)"

definition Ordered_Position :: "(vch_t \<Rightarrow> uint160) \<Rightarrow> vch_t \<Rightarrow> ordered_tree \<Rightarrow> (int \<times> ordered_tree) option" where
  "Ordered_Position H d t =
     (case (if \<not> positions_assigned t then AssignPositions H t else Some t) of None \<Rightarrow> None
      | Some t \<Rightarrow>
          (case ordered_position_loop d (map (deref t) (ot_elements t)) of None \<Rightarrow> None
           | Some i \<Rightarrow> Some (i, t)))"

text \<open>The hash of the element at an index of the array that the \<^verbatim>\<open>HashTree\<close> holds.\<close>

definition ordered_elh :: "(vch_t \<Rightarrow> uint160) \<Rightarrow> ordered_tree \<Rightarrow> nat option list \<Rightarrow> nat \<Rightarrow> uint160 option" where
  "ordered_elh H t ptrs i =
     (case nth_opt ptrs i of None \<Rightarrow> None
      | Some p \<Rightarrow> map_option (OrderedDataElement_Hash H) (deref t p))"

definition with_tree :: "(vch_t \<Rightarrow> uint160) \<Rightarrow> ordered_tree \<Rightarrow> ordered_tree option" where
  "with_tree H t = (if ot_tree t = None \<or> \<not> positions_assigned t then BuildTree H t else Some t)"

definition Ordered_Branch :: "(vch_t \<Rightarrow> uint160) \<Rightarrow> u32 \<Rightarrow> ordered_tree \<Rightarrow> (uint160 list \<times> ordered_tree) option" where
  "Ordered_Branch H pos t =
     (case with_tree H t of None \<Rightarrow> None
      | Some t \<Rightarrow>
          (case ot_tree t of None \<Rightarrow> None
           | Some (ptrs, ht) \<Rightarrow>
               (case HashTree_Branch H (ordered_elh H t ptrs) (length ptrs)
                       (unat (ucast pos - ot_offset t)) ht of None \<Rightarrow> None
                | Some (branch, ht) \<Rightarrow> Some (branch, t\<lparr>ot_tree := Some (ptrs, ht)\<rparr>))))"

definition Ordered_Root :: "(vch_t \<Rightarrow> uint160) \<Rightarrow> ordered_tree \<Rightarrow> (uint160 \<times> ordered_tree) option" where
  "Ordered_Root H t =
     (case with_tree H t of None \<Rightarrow> None
      | Some t \<Rightarrow>
          (case ot_tree t of None \<Rightarrow> None
           | Some (ptrs, ht) \<Rightarrow>
               (case HashTree_Hash H (ordered_elh H t ptrs) (length (ot_elements t)) ht of None \<Rightarrow> None
                | Some (h, ht) \<Rightarrow> Some (h, t\<lparr>ot_tree := Some (ptrs, ht)\<rparr>))))"

section \<open>Checking a branch\<close>

definition VerifyBranchFromOrderedHashTree ::
    "(vch_t \<Rightarrow> uint160) \<Rightarrow> u32 \<Rightarrow> vch_t \<Rightarrow> uint160 list \<Rightarrow> uint160 \<Rightarrow> bool" where
  "VerifyBranchFromOrderedHashTree H pos element branch r =
     (if length branch = 0 \<or> r \<noteq> last branch then False
      else (let hash = OrderedDataElement_Hash H (OrderedDataElement_new (ucast pos) element)
            in EvaluateBranchWithHash H branch hash 0 = r))"

section \<open>What AssignPositions does\<close>

lemma find_index_less: "x \<in> set xs \<Longrightarrow> find_index x xs < length xs"
  by (simp add: find_index_def length_takeWhile_neq)

lemma nth_find_index: "x \<in> set xs \<Longrightarrow> xs ! find_index x xs = x"
  unfolding find_index_def using nth_length_takeWhile [of "\<lambda>y. y \<noteq> x" xs] length_takeWhile_neq [of x xs] by blast

lemma find_index_nth: "distinct xs \<Longrightarrow> i < length xs \<Longrightarrow> find_index (xs ! i) xs = i"
  by (metis find_index_less nth_find_index nth_eq_iff_index_eq nth_mem)

lemma length_set_position [simp]: "length (set_position p v st) = length st"
  by (simp add: set_position_def)

lemma nth_set_position:
  "k < length st \<Longrightarrow> set_position p v st ! k = (if k = p then (st ! k)\<lparr>elem_position := v\<rparr> else st ! k)"
  by (cases "p < length st") (auto simp: set_position_def nth_list_update list_update_beyond)

lemma fold_set_position:
  shows "length (fold (\<lambda>i. set_position (q i) (v i)) is st) = length st"
    and "k < length st \<Longrightarrow> elem_data (fold (\<lambda>i. set_position (q i) (v i)) is st ! k) = elem_data (st ! k)"
    and "k < length st \<Longrightarrow> k \<notin> q ` set is \<Longrightarrow> fold (\<lambda>i. set_position (q i) (v i)) is st ! k = st ! k"
proof (induction "is" arbitrary: st)
  case (Cons i "is")
  {
    case 1
    show ?case using Cons.IH(1) by simp
  next
    case 2
    then show ?case using Cons.IH(2) [of "set_position (q i) (v i) st"] by (simp add: nth_set_position)
  next
    case 3
    then show ?case using Cons.IH(3) [of "set_position (q i) (v i) st"] by (auto simp: nth_set_position)
  }
qed auto

lemma fold_set_position_at:
  assumes "distinct (map q is)" and "j \<in> set is" and "q j < length st"
  shows "elem_position (fold (\<lambda>i. set_position (q i) (v i)) is st ! q j) = v j"
  using assms
proof (induction "is" arbitrary: st)
  case (Cons i "is")
  show ?case
  proof (cases "j = i")
    case True
    then show ?thesis
      using Cons.prems fold_set_position(3) [of "q i" "set_position (q i) (v i) st" q "is" v]
      by (auto simp: nth_set_position)
  next
    case False
    then show ?thesis using Cons by auto
  qed
qed simp

lemma fold_place_notin:
  "k \<notin> r ` set is \<Longrightarrow> fold (\<lambda>i es. es[r i := x i]) is es ! k = es ! k"
  by (induction "is" arbitrary: es) auto

lemma length_fold_place [simp]: "length (fold (\<lambda>i es. es[r i := x i]) is es) = length es"
  by (induction "is" arbitrary: es) auto

lemma fold_place:
  assumes "distinct (map r is)" and "j \<in> set is" and "r j < length es"
  shows "fold (\<lambda>i es. es[r i := x i]) is es ! r j = x j"
  using assms
proof (induction "is" arbitrary: es)
  case (Cons i "is")
  then show ?case
    using fold_place_notin [of "r i" r "is" x "es[r i := x i]"] by (cases "j = i") auto
qed simp

text \<open>Pointers rearranged so that their hashes come in increasing order.\<close>

definition sort_ptrs :: "uint160 list \<Rightarrow> nat list \<Rightarrow> nat list" where
  "sort_ptrs hs ps = map (\<lambda>h. ps ! find_index h hs) (sort hs)"

lemma place_sorted:
  assumes "distinct hs" and "length ps = length hs"
  shows "fold (\<lambda>i es. es[find_index (hs ! i) (sort hs) := Some (ps ! i)]) [0..<length hs]
      (replicate (length hs) None) = map Some (sort_ptrs hs ps)"
proof (rule nth_equalityI)
  fix k assume "k < length (fold (\<lambda>i es. es[find_index (hs ! i) (sort hs) := Some (ps ! i)])
      [0..<length hs] (replicate (length hs) None))"
  then have k: "k < length hs" by simp
  define i where "i = find_index (sort hs ! k) hs"
  have mem: "sort hs ! k \<in> set hs" using k by (metis nth_mem length_sort set_sort)
  then have i: "i < length hs" "hs ! i = sort hs ! k"
    by (simp_all add: i_def find_index_less nth_find_index)
  have rk: "find_index (hs ! i) (sort hs) = k" using i(2) k assms(1) by (simp add: find_index_nth)
  have "inj_on (\<lambda>i. find_index (hs ! i) (sort hs)) {0..<length hs}"
    by (rule inj_onI) (metis assms(1) atLeastLessThan_iff nth_eq_iff_index_eq nth_find_index nth_mem set_sort)
  then have d: "distinct (map (\<lambda>i. find_index (hs ! i) (sort hs)) [0..<length hs])"
    by (simp add: distinct_map)
  have "fold (\<lambda>i es. es[find_index (hs ! i) (sort hs) := Some (ps ! i)]) [0..<length hs]
      (replicate (length hs) None) ! find_index (hs ! i) (sort hs) = Some (ps ! i)"
    by (rule fold_place [OF d]) (use i k rk in auto)
  then show "fold (\<lambda>i es. es[find_index (hs ! i) (sort hs) := Some (ps ! i)]) [0..<length hs]
      (replicate (length hs) None) ! k = map Some (sort_ptrs hs ps) ! k"
    using k unfolding rk by (simp add: sort_ptrs_def i_def)
qed (simp add: sort_ptrs_def)


text \<open>The elements of a tree are \<open>ps\<close>: no null pointer, no object twice.\<close>

definition ot_ptrs :: "ordered_tree \<Rightarrow> nat list \<Rightarrow> bool" where
  "ot_ptrs t ps \<longleftrightarrow> ot_elements t = map Some ps \<and> distinct ps \<and> (\<forall>p \<in> set ps. p < length (ot_store t))"

definition data_hashes :: "(vch_t \<Rightarrow> uint160) \<Rightarrow> ordered_tree \<Rightarrow> nat list \<Rightarrow> uint160 list" where
  "data_hashes H t ps = map (\<lambda>p. DataHash H (ot_store t ! p)) ps"

lemma those_map_Some [simp]: "those (map Some xs) = Some xs"
  by (induction xs) auto

lemma sort_ptrs_perm:
  assumes "distinct hs" and "length ps = length hs"
  shows "mset (sort_ptrs hs ps) = mset ps" and "length (sort_ptrs hs ps) = length hs"
proof -
  have "mset (sort_ptrs hs ps) = image_mset (\<lambda>h. ps ! find_index h hs) (mset hs)"
    by (simp add: sort_ptrs_def)
  also have "\<dots> = mset (map (\<lambda>h. ps ! find_index h hs) hs)" by simp
  also have "map (\<lambda>h. ps ! find_index h hs) hs = ps"
    using assms by (intro nth_equalityI) (auto simp: find_index_nth)
  finally show "mset (sort_ptrs hs ps) = mset ps" .
  show "length (sort_ptrs hs ps) = length hs" by (simp add: sort_ptrs_def)
qed

text \<open>The store after \<^verbatim>\<open>AssignPositions\<close> on elements \<open>ps\<close> with data hashes \<open>hs\<close>.\<close>

definition assigned_store :: "uint160 list \<Rightarrow> nat list \<Rightarrow> ordered_tree \<Rightarrow> ordered_element list" where
  "assigned_store hs ps t =
     fold (\<lambda>i. set_position (ps ! i) (ot_offset t + of_nat (find_index (hs ! i) (sort hs))))
       [0..<length ps] (fold (\<lambda>p. set_position p 0) ps (ot_store t))"

lemma length_assigned_store [simp]: "length (assigned_store hs ps t) = length (ot_store t)"
  by (simp add: assigned_store_def fold_set_position(1))

lemma data_assigned_store:
  "p < length (ot_store t) \<Longrightarrow> elem_data (assigned_store hs ps t ! p) = elem_data (ot_store t ! p)"
  by (simp add: assigned_store_def fold_set_position(1,2))

lemma position_assigned_store:
  assumes "ot_ptrs t ps" and "i < length ps"
  shows "elem_position (assigned_store hs ps t ! (ps ! i)) = ot_offset t + of_nat (find_index (hs ! i) (sort hs))"
proof -
  have "distinct (map (\<lambda>i. ps ! i) [0..<length ps])" using assms(1) by (simp add: map_nth ot_ptrs_def)
  moreover have "ps ! i < length (ot_store t)" using assms by (simp add: ot_ptrs_def)
  ultimately show ?thesis
    using assms(2) unfolding assigned_store_def
    by (subst fold_set_position_at) (auto simp: fold_set_position(1))
qed

lemma unat_offset_cancel: "n < 2 ^ 64 \<Longrightarrow> unat (x + of_nat n - x :: u64) = n"
  by (simp add: unat_of_nat)

lemma AssignPositions_spec:
  assumes "ot_ptrs t ps" and "distinct (data_hashes H t ps)" and "length ps < 2 ^ 64"
  defines "hs \<equiv> data_hashes H t ps"
  shows "AssignPositions H t = Some (t\<lparr>ot_store := assigned_store hs ps t,
      ot_elements := map Some (sort_ptrs hs ps), positions_assigned := True\<rparr>)"
proof -
  let ?st = "fold (\<lambda>p. set_position p 0) ps (ot_store t)"
  have these: "map (\<lambda>p. DataHash H (?st ! p)) ps = hs"
    using assms(1) fold_set_position(2) [of _ "ot_store t" "\<lambda>p. p" "\<lambda>p. 0" ps]
    by (auto simp: hs_def data_hashes_def DataHash_def ot_ptrs_def)
  have len: "length hs = length ps" by (simp add: hs_def data_hashes_def)
  have rank: "unat (elem_position (assigned_store hs ps t ! (ps ! i)) - ot_offset t)
      = find_index (hs ! i) (sort hs)" if "i < length ps" for i
  proof -
    have "find_index (hs ! i) (sort hs) < length ps"
      using that len find_index_less [of "hs ! i" "sort hs"] by simp
    then show ?thesis
      using position_assigned_store [OF assms(1) that] assms(3) by (simp add: unat_of_nat)
  qed
  have "fold (\<lambda>i es. es[unat (elem_position (assigned_store hs ps t ! (ps ! i)) - ot_offset t) := Some (ps ! i)])
        [0..<length ps] (replicate (length ps) None)
      = fold (\<lambda>i es. es[find_index (hs ! i) (sort hs) := Some (ps ! i)]) [0..<length ps] (replicate (length ps) None)"
    by (rule fold_cong) (auto simp: rank)
  also have "\<dots> = map Some (sort_ptrs hs ps)"
    using place_sorted [of hs ps] assms(2) len by (simp add: hs_def)
  finally show ?thesis
    using assms(1) unfolding AssignPositions_def ot_ptrs_def
    by (simp add: Let_def these assigned_store_def [symmetric])
qed

lemma data_hashes_sorted:
  assumes "ot_ptrs t ps" and hs_def: "hs = data_hashes H t ps"
  shows "data_hashes H (t\<lparr>ot_store := assigned_store hs ps t\<rparr>) (sort_ptrs hs ps) = sort hs"
proof -
  have "DataHash H (assigned_store hs ps t ! (ps ! find_index h hs)) = h" if "h \<in> set hs" for h
  proof -
    have i: "find_index h hs < length ps" "hs ! find_index h hs = h"
      using that find_index_less [of h hs] nth_find_index [of h hs] by (simp_all add: hs_def data_hashes_def)
    then have "ps ! find_index h hs < length (ot_store t)" using assms(1) by (simp add: ot_ptrs_def)
    then have "DataHash H (assigned_store hs ps t ! (ps ! find_index h hs)) = hs ! find_index h hs"
      using i(1) by (simp add: DataHash_def data_assigned_store) (simp add: hs_def data_hashes_def DataHash_def)
    then show ?thesis using i(2) by simp
  qed
  then show ?thesis
    by (auto simp: data_hashes_def [of H "t\<lparr>ot_store := assigned_store hs ps t\<rparr>"] sort_ptrs_def
        intro!: map_idI)
qed


section \<open>The tree once its positions are assigned\<close>

definition leaf_hashes :: "(vch_t \<Rightarrow> uint160) \<Rightarrow> ordered_tree \<Rightarrow> nat list \<Rightarrow> uint160 list" where
  "leaf_hashes H t qs = map (\<lambda>p. OrderedDataElement_Hash H (ot_store t ! p)) qs"

definition ordered_inv :: "(vch_t \<Rightarrow> uint160) \<Rightarrow> ordered_tree \<Rightarrow> nat list \<Rightarrow> bool" where
  "ordered_inv H t qs \<longleftrightarrow> ot_ptrs t qs \<and> positions_assigned t
     \<and> sorted (data_hashes H t qs) \<and> distinct (data_hashes H t qs)
     \<and> (\<forall>i < length qs. elem_position (ot_store t ! (qs ! i)) = ot_offset t + of_nat i)
     \<and> (\<exists>ht. ot_tree t = Some (map Some qs, ht) \<and> tree_inv H (leaf_hashes H t qs) ht)"

lemma length_leaf_hashes [simp]: "length (leaf_hashes H t qs) = length qs"
  by (simp add: leaf_hashes_def)

lemma ordered_elh_eq:
  "\<forall>p \<in> set qs. p < length (ot_store t) \<Longrightarrow> ordered_elh H t (map Some qs) = nth_opt (leaf_hashes H t qs)"
  by (rule ext) (auto simp: ordered_elh_def nth_opt_def leaf_hashes_def deref_def)

lemma AssignPositions_ptrs:
  assumes "ot_ptrs t ps" and "distinct (data_hashes H t ps)" and "length ps < 2 ^ 32"
  obtains t' qs where "AssignPositions H t = Some t'" and "ot_ptrs t' qs" and "mset qs = mset ps"
    and "positions_assigned t'" and "ot_offset t' = ot_offset t" and "ot_tree t' = ot_tree t"
    and "length (ot_store t') = length (ot_store t)"
    and "\<And>p. p < length (ot_store t) \<Longrightarrow> elem_data (ot_store t' ! p) = elem_data (ot_store t ! p)"
    and "data_hashes H t' qs = sort (data_hashes H t ps)"
    and "\<And>i. i < length qs \<Longrightarrow> elem_position (ot_store t' ! (qs ! i)) = ot_offset t + of_nat i"
proof -
  define hs where "hs = data_hashes H t ps"
  define qs where "qs = sort_ptrs hs ps"
  define t' where "t' = t\<lparr>ot_store := assigned_store hs ps t, ot_elements := map Some qs, positions_assigned := True\<rparr>"
  have len: "length hs = length ps" and d: "distinct hs" using assms(2) by (simp_all add: hs_def data_hashes_def)
  have perm: "mset qs = mset ps" "length qs = length hs" using sort_ptrs_perm [of hs ps] len d by (simp_all add: qs_def)
  have set: "set qs = set ps" by (metis perm(1) set_mset_mset)
  have ptrs: "ot_ptrs t' qs"
    using assms(1) perm set by (auto simp: ot_ptrs_def t'_def) (metis mset_eq_imp_distinct_iff)
  have pos: "elem_position (ot_store t' ! (qs ! i)) = ot_offset t + of_nat i" if "i < length qs" for i
  proof -
    define j where "j = find_index (sort hs ! i) hs"
    have mem: "sort hs ! i \<in> set hs" using that perm(2) by (metis nth_mem length_sort set_sort)
    have j: "j < length ps" "hs ! j = sort hs ! i"
      using find_index_less [OF mem] nth_find_index [OF mem] len by (simp_all add: j_def)
    have "find_index (hs ! j) (sort hs) = i" using j(2) that perm(2) d by (simp add: find_index_nth)
    moreover have "qs ! i = ps ! j" using that perm(2) by (simp add: qs_def sort_ptrs_def j_def)
    ultimately show ?thesis using position_assigned_store [OF assms(1) j(1)] by (simp add: t'_def)
  qed
  have sorted: "data_hashes H t' qs = sort hs"
    using data_hashes_sorted [OF assms(1) hs_def] by (simp add: t'_def qs_def data_hashes_def)
  show thesis
    by (rule that [of t' qs])
      (use AssignPositions_spec [OF assms(1,2)] assms(3) ptrs perm pos sorted in
        \<open>auto simp: t'_def hs_def qs_def data_assigned_store\<close>)
qed

lemma BuildTree_inv:
  assumes "ot_ptrs t ps" and "distinct (data_hashes H t ps)" and "length ps < 2 ^ 32"
  obtains t' qs where "BuildTree H t = Some t'" and "ordered_inv H t' qs" and "mset qs = mset ps"
    and "ot_offset t' = ot_offset t"
    and "\<And>p. p < length (ot_store t) \<Longrightarrow> elem_data (ot_store t' ! p) = elem_data (ot_store t ! p)"
proof -
  obtain t1 qs where t1: "AssignPositions H t = Some t1" "ot_ptrs t1 qs" "mset qs = mset ps"
    "positions_assigned t1" "ot_offset t1 = ot_offset t"
    "\<And>p. p < length (ot_store t) \<Longrightarrow> elem_data (ot_store t1 ! p) = elem_data (ot_store t ! p)"
    "data_hashes H t1 qs = sort (data_hashes H t ps)"
    "\<And>i. i < length qs \<Longrightarrow> elem_position (ot_store t1 ! (qs ! i)) = ot_offset t + of_nat i"
    using AssignPositions_ptrs [OF assms] by metis
  define t' where "t' = t1\<lparr>ot_tree := Some (ot_elements t1, HashTree_new (length (ot_elements t1)) (Suc 0) True)\<rparr>"
  have "length qs < 2 ^ 32" using t1(3) assms(3) by (metis size_mset)
  then have tinv: "tree_inv H (leaf_hashes H t' qs) (HashTree_new (length qs) (Suc 0) True)"
    using tree_inv_new [of "leaf_hashes H t' qs" H] by simp
  show thesis
    by (rule that [of t' qs])
      (use t1 tinv assms(2) in \<open>auto simp: t'_def BuildTree_def ordered_inv_def ot_ptrs_def data_hashes_def\<close>)
qed


lemma ordered_inv_tree:
  assumes "ordered_inv H t qs"
  obtains ht where "ot_tree t = Some (map Some qs, ht)" and "tree_inv H (leaf_hashes H t qs) ht"
    and "with_tree H t = Some t" and "length (ot_elements t) = length qs"
    and "ordered_elh H t (map Some qs) = nth_opt (leaf_hashes H t qs)"
    and "\<And>ht'. tree_inv H (leaf_hashes H t qs) ht' \<Longrightarrow> ordered_inv H (t\<lparr>ot_tree := Some (map Some qs, ht')\<rparr>) qs"
proof -
  obtain ht where ht: "ot_tree t = Some (map Some qs, ht)" "tree_inv H (leaf_hashes H t qs) ht"
    using assms by (auto simp: ordered_inv_def)
  show thesis
    by (rule that [of ht])
      (use assms ht in \<open>auto simp: ordered_inv_def ot_ptrs_def with_tree_def ordered_elh_eq
          data_hashes_def leaf_hashes_def\<close>)
qed

lemma Ordered_Root_inv:
  assumes "ordered_inv H t qs"
  shows "\<exists>ht. Ordered_Root H t = Some (hashes_root H (leaf_hashes H t qs), t\<lparr>ot_tree := Some (map Some qs, ht)\<rparr>)
    \<and> ordered_inv H (t\<lparr>ot_tree := Some (map Some qs, ht)\<rparr>) qs"
  using assms
proof (rule ordered_inv_tree)
  fix ht
  assume ht: "ot_tree t = Some (map Some qs, ht)" "tree_inv H (leaf_hashes H t qs) ht"
    "with_tree H t = Some t" "length (ot_elements t) = length qs"
    "ordered_elh H t (map Some qs) = nth_opt (leaf_hashes H t qs)"
    "\<And>ht'. tree_inv H (leaf_hashes H t qs) ht' \<Longrightarrow> ordered_inv H (t\<lparr>ot_tree := Some (map Some qs, ht')\<rparr>) qs"
  show ?thesis
    using tree_inv_Hash [OF ht(2)] ht by (auto simp: Ordered_Root_def)
qed

lemma Ordered_Branch_inv:
  assumes "ordered_inv H t qs" and "qs \<noteq> []"
  shows "\<exists>ht. Ordered_Branch H pos t = Some (merkle_branch (SymmetricCombine H) (leaf_hashes H t qs) 0 (length qs)
        (unat (ucast pos - ot_offset t)), t\<lparr>ot_tree := Some (map Some qs, ht)\<rparr>)
    \<and> ordered_inv H (t\<lparr>ot_tree := Some (map Some qs, ht)\<rparr>) qs"
  using assms(1)
proof (rule ordered_inv_tree)
  fix ht
  assume ht: "ot_tree t = Some (map Some qs, ht)" "tree_inv H (leaf_hashes H t qs) ht"
    "with_tree H t = Some t" "length (ot_elements t) = length qs"
    "ordered_elh H t (map Some qs) = nth_opt (leaf_hashes H t qs)"
    "\<And>ht'. tree_inv H (leaf_hashes H t qs) ht' \<Longrightarrow> ordered_inv H (t\<lparr>ot_tree := Some (map Some qs, ht')\<rparr>) qs"
  have "leaf_hashes H t qs \<noteq> []" using assms(2) by (simp add: leaf_hashes_def)
  then show ?thesis
    using tree_inv_Branch [OF ht(2), of "unat (ucast pos - ot_offset t)"] ht by (auto simp: Ordered_Branch_def)
qed

lemma leaf_hashes_tree [simp]: "leaf_hashes H (t\<lparr>ot_tree := x\<rparr>) qs = leaf_hashes H t qs"
  by (simp add: leaf_hashes_def)

lemma Hash_low_position:
  "OrderedDataElement_Hash H (OrderedDataElement_new (ucast (ucast p :: u32)) d)
     = OrderedDataElement_Hash H (OrderedDataElement_new p d)"
proof -
  have "unat (ucast (ucast p :: u32) :: u64) = unat p mod 256 ^ 4"
    by (simp add: unsigned_ucast_eq unsigned_take_bit_eq) (simp add: take_bit_eq_mod)
  then have "take 4 (u64_bytes (ucast (ucast p :: u32))) = take 4 (u64_bytes p)"
    by (simp add: u64_bytes_def take_le_bytes le_bytes_mod [of 4, simplified])
  then show ?thesis
    by (simp only: OrderedDataElement_Hash_def OrderedDataElement_new_def Let_def ordered_element.simps)
qed

lemma ordered_verifies_at:
  assumes "ordered_inv H t qs" and "i < length qs" and "unat (ot_offset t) + length qs < 2 ^ 32"
  shows "\<exists>branch t1 r t2. Ordered_Branch H (ucast (ot_offset t + of_nat i)) t = Some (branch, t1)
    \<and> ordered_inv H t1 qs \<and> ot_store t1 = ot_store t \<and> ot_offset t1 = ot_offset t
    \<and> Ordered_Root H t1 = Some (r, t2) \<and> map_option fst (Ordered_Root H t2) = Some r
    \<and> foldl (SymmetricCombine H) (OrderedDataElement_Hash H (OrderedDataElement_new
          (ucast (ucast (ot_offset t + of_nat i) :: u32)) (elem_data (ot_store t ! (qs ! i))))) branch = r"
proof -
  let ?p = "ot_offset t + of_nat i" and ?hs = "leaf_hashes H t qs"
  have "unat ?p = unat (ot_offset t) + i" using assms(2,3) by (simp add: unat_word_ariths unat_of_nat)
  then have "ucast (ucast ?p :: u32) = ?p"
    using assms(2,3) by (simp add: word_unat_eq_iff unsigned_ucast_eq unsigned_take_bit_eq take_bit_nat_eq_self_iff)
  then have pos: "unat (ucast (ucast ?p :: u32) - ot_offset t) = i"
    using assms(2,3) by (simp add: unat_of_nat)
  have ne: "qs \<noteq> []" using assms(2) by auto
  let ?b = "merkle_branch (SymmetricCombine H) ?hs 0 (length qs) i"
  obtain ht where b: "Ordered_Branch H (ucast ?p) t = Some (?b, t\<lparr>ot_tree := Some (map Some qs, ht)\<rparr>)"
    "ordered_inv H (t\<lparr>ot_tree := Some (map Some qs, ht)\<rparr>) qs"
    using Ordered_Branch_inv [OF assms(1) ne, of "ucast ?p"] unfolding pos by blast
  obtain ht' where r: "Ordered_Root H (t\<lparr>ot_tree := Some (map Some qs, ht)\<rparr>)
      = Some (hashes_root H ?hs, t\<lparr>ot_tree := Some (map Some qs, ht')\<rparr>)"
    "ordered_inv H (t\<lparr>ot_tree := Some (map Some qs, ht')\<rparr>) qs"
    using Ordered_Root_inv [OF b(2)] by auto
  have "elem_position (ot_store t ! (qs ! i)) = ?p" using assms(1,2) by (simp add: ordered_inv_def)
  then have "OrderedDataElement_new ?p (elem_data (ot_store t ! (qs ! i))) = ot_store t ! (qs ! i)"
    by (simp add: OrderedDataElement_new_def)
  then have "OrderedDataElement_Hash H (OrderedDataElement_new (ucast (ucast ?p :: u32)) (elem_data (ot_store t ! (qs ! i))))
      = ?hs ! i"
    using assms(2) Hash_low_position [of H ?p] by (simp add: leaf_hashes_def)
  moreover have "foldl (SymmetricCombine H) (?hs ! i) ?b = hashes_root H ?hs"
    using symmetric.branch_root [of 0 "length qs" i H ?hs] assms(2) ne
    by (auto simp: hashes_root_def leaf_hashes_def)
  ultimately show ?thesis
    using b r Ordered_Root_inv [OF r(2)] by auto
qed


text \<open>A tree filled by \<^verbatim>\<open>AddElement\<close>.\<close>

definition added_tree :: "u64 \<Rightarrow> vch_t list \<Rightarrow> ordered_tree" where
  "added_tree off ds = fold Ordered_AddElement ds (OrderedHashTree_new off)"

lemma Ordered_AddElement_simps [simp]:
  "ot_store (Ordered_AddElement d t) = ot_store t @ [OrderedDataElement_new 0 d]"
  "ot_elements (Ordered_AddElement d t) = ot_elements t @ [Some (length (ot_store t))]"
  "ot_tree (Ordered_AddElement d t) = ot_tree t"
  "ot_offset (Ordered_AddElement d t) = ot_offset t"
  "positions_assigned (Ordered_AddElement d t) = False"
  by (simp_all add: Ordered_AddElement_def AddOrderedDataElement_def)

lemma added_tree_simps:
  "ot_store (added_tree off ds) = map (OrderedDataElement_new 0) ds"
  "ot_elements (added_tree off ds) = map Some [0..<length ds]"
  "ot_tree (added_tree off ds) = None"
  "ot_offset (added_tree off ds) = off"
  "positions_assigned (added_tree off ds) = False"
  by (induction ds rule: rev_induct) (auto simp: added_tree_def OrderedHashTree_new_def)

lemma added_tree_ptrs: "ot_ptrs (added_tree off ds) [0..<length ds]"
  by (simp add: ot_ptrs_def added_tree_simps)

lemma added_tree_hashes: "data_hashes H (added_tree off ds) [0..<length ds] = map H ds"
  by (rule nth_equalityI)
    (auto simp: data_hashes_def added_tree_simps DataHash_def TreeHash_def OrderedDataElement_new_def)

lemma position_loop_at:
  assumes "i < length es" and "\<And>j. j < length es \<Longrightarrow> elem_data (es ! j) = d \<longleftrightarrow> j = i"
  shows "ordered_position_loop d (map Some es) = Some (sint (ucast (elem_position (es ! i)) :: u32))"
  using assms
proof (induction es arbitrary: i)
  case (Cons e es)
  show ?case
  proof (cases i)
    case 0
    then show ?thesis using Cons.prems(2) [of 0] by auto
  next
    case (Suc k)
    have "d \<noteq> elem_data e" using Cons.prems(2) [of 0] Suc by auto
    moreover have "elem_data (es ! j) = d \<longleftrightarrow> j = k" if "j < length es" for j
      using Cons.prems(2) [of "Suc j"] that Suc by auto
    ultimately show ?thesis using Cons.IH [of k] Cons.prems(1) Suc by simp
  qed
qed simp

lemma same_sorted_ptrs:
  assumes "ot_ptrs t qs" and "sorted (map f qs)" and "distinct (map f qs)"
    and "mset qs' = mset qs" and "sorted (map f qs')"
  shows "qs' = (qs :: nat list)"
proof -
  have "mset (map f qs') = mset (map f qs)" using assms(4) by simp
  then have "map f qs' = map f qs" using assms(2,5) by (metis properties_for_sort)
  moreover have "set qs' = set qs" by (metis assms(4) set_mset_mset)
  ultimately show ?thesis using assms(3) by (metis distinct_map map_inj_on sup.idem)
qed

lemma BuildTree_again:
  assumes "ot_ptrs t qs" and "sorted (data_hashes H t qs)" and "distinct (data_hashes H t qs)"
    and "length qs < 2 ^ 32"
  obtains t' where "BuildTree H t = Some t'" and "ordered_inv H t' qs" and "ot_offset t' = ot_offset t"
    and "\<And>p. p < length (ot_store t) \<Longrightarrow> elem_data (ot_store t' ! p) = elem_data (ot_store t ! p)"
proof -
  obtain t' qs' where t': "BuildTree H t = Some t'" "ordered_inv H t' qs'" "mset qs' = mset qs"
    "ot_offset t' = ot_offset t"
    "\<And>p. p < length (ot_store t) \<Longrightarrow> elem_data (ot_store t' ! p) = elem_data (ot_store t ! p)"
    using BuildTree_inv [OF assms(1,3,4)] by metis
  have "set qs' = set qs" by (metis t'(3) set_mset_mset)
  then have "data_hashes H t' qs' = map (\<lambda>p. DataHash H (ot_store t ! p)) qs'"
    using assms(1) t'(5) by (auto simp: data_hashes_def DataHash_def ot_ptrs_def)
  then have "sorted (map (\<lambda>p. DataHash H (ot_store t ! p)) qs')"
    using t'(2) by (simp add: ordered_inv_def)
  then have "qs' = qs"
    using same_sorted_ptrs [of t qs "\<lambda>p. DataHash H (ot_store t ! p)" qs'] assms t'(3)
    by (simp add: data_hashes_def)
  then show thesis using that t' by blast
qed


lemma Hash_long_data:
  assumes "4 \<le> length (elem_data e)"
  shows "OrderedDataElement_Hash H e = H (elem_data e @ [0, 0, 0, 0])"
proof -
  have "drop (length (elem_data e))
      (memcpy_front (replicate (4 + length (elem_data e)) 0) (take 4 (u64_bytes (elem_position e))))
      = replicate 4 0"
    using assms by (simp add: memcpy_front_def)
  then show ?thesis
    by (simp add: OrderedDataElement_Hash_def memcpy_front_def [of _ "elem_data e"] Let_def TreeHash_def
        numeral_eq_Suc)
qed

section \<open>Properties\<close>

lemma sint_ucast_small:
  assumes "unat (w :: u64) < 2 ^ 31"
  shows "sint (ucast w :: u32) = int (unat w)"
proof -
  have "unat (ucast w :: u32) = unat w"
    using assms by (simp add: unsigned_ucast_eq take_bit_nat_eq_self_iff)
  moreover have "sint (ucast w :: u32) = signed_take_bit 31 (int (unat (ucast w :: u32)))"
    by (simp add: sint_uint)
  ultimately have "sint (ucast w :: u32) = signed_take_bit 31 (int (unat w))" by simp
  moreover have "int (unat w) < 2 ^ 31" using assms by (metis of_nat_less_iff of_nat_numeral of_nat_power)
  moreover have "- (2 ^ 31) \<le> int (unat w)" by (rule order_trans [of _ 0]) simp_all
  ultimately show ?thesis using signed_take_bit_int_eq_self by metis
qed

lemma Ordered_Position_assigned:
  assumes "ot_ptrs t qs" and "positions_assigned t" and "i < length qs"
    and "elem_position (ot_store t ! (qs ! i)) = ot_offset t + of_nat i"
    and "\<And>j. j < length qs \<Longrightarrow> elem_data (ot_store t ! (qs ! j)) = d \<longleftrightarrow> j = i"
    and "unat (ot_offset t) + length qs < 2 ^ 31"
  shows "Ordered_Position H d t = Some (int (unat (ot_offset t + of_nat i)), t)"
proof -
  have "map (deref t) (ot_elements t) = map Some (map (\<lambda>q. ot_store t ! q) qs)"
    using assms(1) by (auto simp: ot_ptrs_def deref_def)
  moreover have "unat (ot_offset t + of_nat i) < 2 ^ 31"
    using assms(3,6) by (simp add: unat_word_ariths unat_of_nat)
  ultimately show ?thesis
    using position_loop_at [of i "map (\<lambda>q. ot_store t ! q) qs" d] assms(2-5)
      sint_ucast_small [of "ot_offset t + of_nat i"]
    by (simp add: Ordered_Position_def del: map_map)
qed

text \<open>
  The calls a batch makes for one of its members, in order: the position, the branch, the
  position again and the root.
\<close>

lemma ordered_membership:
  assumes "distinct (map H ds)" and "d \<in> set ds" and "unat off + length ds < 2 ^ 31"
  obtains pos t1 branch t2 r t3 where
    "Ordered_Position H d (added_tree off ds) = Some (pos, t1)"
    and "Ordered_Position H d t1 = Some (pos, t1)"
    and "Ordered_Branch H (of_int pos) t1 = Some (branch, t2)"
    and "Ordered_Position H d t2 = Some (pos, t2)"
    and "Ordered_Root H t2 = Some (r, t3)" and "map_option fst (Ordered_Root H t3) = Some r"
    and "0 \<le> pos" and "pos < 2 ^ 31"
    and "foldl (SymmetricCombine H)
          (OrderedDataElement_Hash H (OrderedDataElement_new (ucast (of_int pos :: u32)) d)) branch = r"
proof -
  let ?t = "added_tree off ds" and ?ps = "[0..<length ds]"
  have dist: "distinct (data_hashes H ?t ?ps)" using assms(1) by (simp add: added_tree_hashes)
  have n32: "length ?ps < 2 ^ 32" using assms(3) by simp
  obtain t1 qs where raw: "AssignPositions H ?t = Some t1" "ot_ptrs t1 qs" "mset qs = mset ?ps"
    "positions_assigned t1" "ot_offset t1 = ot_offset ?t" "ot_tree t1 = ot_tree ?t"
    "length (ot_store t1) = length (ot_store ?t)"
    "\<And>p. p < length (ot_store ?t) \<Longrightarrow> elem_data (ot_store t1 ! p) = elem_data (ot_store ?t ! p)"
    "data_hashes H t1 qs = sort (data_hashes H ?t ?ps)"
    "\<And>i. i < length qs \<Longrightarrow> elem_position (ot_store t1 ! (qs ! i)) = ot_offset ?t + of_nat i"
    using AssignPositions_ptrs [OF added_tree_ptrs dist n32] by metis
  note t1 = raw [simplified added_tree_simps added_tree_hashes length_map]
  have sq: "set qs = {0..<length ds}" "length qs = length ds"
    using t1(3) by (metis set_mset_mset set_upt) (metis t1(3) size_mset length_upt minus_nat.diff_0)
  obtain p where p: "p < length ds" "ds ! p = d" using assms(2) by (metis in_set_conv_nth)
  then obtain i where i: "i < length qs" "qs ! i = p" using sq(1) by (metis atLeastLessThan_iff in_set_conv_nth le0)
  have data: "elem_data (ot_store t1 ! p) = ds ! p" if "p < length ds" for p
    using t1(8) [OF that] that by (simp add: OrderedDataElement_new_def)
  have qj: "qs ! j < length ds" if "j < length qs" for j using that sq(1) by (metis atLeastLessThan_iff nth_mem)
  have uniq: "ds ! (qs ! j) = d \<longleftrightarrow> j = i" if "j < length qs" for j
    using qj [OF that] p assms(1) i that t1(2) by (metis distinct_map nth_eq_iff_index_eq ot_ptrs_def)
  let ?pos = "int (unat (off + of_nat i))"
  have pos1: "Ordered_Position H d t1 = Some (?pos, t1)"
    using Ordered_Position_assigned [OF t1(2,4) i(1), of d H] t1(5) t1(10) [OF i(1)] data qj uniq assms(3) sq(2)
    by simp
  have pos0: "Ordered_Position H d ?t = Some (?pos, t1)"
    using pos1 t1(1,4) by (simp add: Ordered_Position_def added_tree_simps)
  obtain t2 where t2: "BuildTree H t1 = Some t2" "ordered_inv H t2 qs" "ot_offset t2 = off"
    "\<And>p. p < length ds \<Longrightarrow> elem_data (ot_store t2 ! p) = elem_data (ot_store t1 ! p)"
    using BuildTree_again [OF t1(2), of H] t1(5,7,9) assms(1) n32 sq(2) by auto
  have "with_tree H t1 = with_tree H t2"
    using t1(6) t2(1,2) by (auto simp: with_tree_def ordered_inv_def)
  then have br: "Ordered_Branch H q t1 = Ordered_Branch H q t2" for q by (simp add: Ordered_Branch_def)
  have u32: "of_int ?pos = (ucast (off + of_nat i) :: u32)"
    by (simp add: word_unat_eq_iff unsigned_ucast_eq unat_of_nat take_bit_eq_mod)
  obtain branch t3 r t4 where v: "Ordered_Branch H (of_int ?pos) t1 = Some (branch, t3)" "ordered_inv H t3 qs"
    "ot_store t3 = ot_store t2" "ot_offset t3 = off" "Ordered_Root H t3 = Some (r, t4)"
    "map_option fst (Ordered_Root H t4) = Some r"
    "foldl (SymmetricCombine H) (OrderedDataElement_Hash H (OrderedDataElement_new (ucast (of_int ?pos :: u32)) d)) branch = r"
    using ordered_verifies_at [OF t2(2) i(1)] t2(3,4) assms(3) sq(2) i p data by (auto simp: u32 br)
  have "elem_position (ot_store t3 ! (qs ! i)) = off + of_nat i" "ot_ptrs t3 qs" "positions_assigned t3"
    using v(2,4) i(1) by (auto simp: ordered_inv_def)
  then have "Ordered_Position H d t3 = Some (?pos, t3)"
    using Ordered_Position_assigned [of t3 qs i d H] v(3,4) i(1) t2(4) data qj uniq assms(3) sq(2) by simp
  moreover have "unat (off + of_nat i) < 2 ^ 31"
    using assms(3) i(1) sq(2) by (simp add: unat_word_ariths unat_of_nat)
  then have "?pos < 2 ^ 31" by (metis of_nat_less_iff of_nat_numeral of_nat_power)
  ultimately show thesis using that pos0 pos1 v by auto
qed

text \<open>
  C13. Membership proofs are complete. A tree filled with data whose hashes are pairwise
  different: looking up the position of a member, taking its branch, appending the root and
  checking it with \<^verbatim>\<open>VerifyBranchFromOrderedHashTree\<close> succeeds, and no step dereferences a
  null pointer.
\<close>

theorem ordered_membership_verifies:
  assumes "distinct (map H ds)" and "d \<in> set ds" and "unat off + length ds < 2 ^ 31"
  shows "\<exists>pos t1 branch t2 r t3. Ordered_Position H d (added_tree off ds) = Some (pos, t1)
    \<and> Ordered_Branch H (of_int pos) t1 = Some (branch, t2) \<and> Ordered_Root H t2 = Some (r, t3)
    \<and> VerifyBranchFromOrderedHashTree H (of_int pos) d (branch @ [r]) r"
  using ordered_membership [OF assms]
  by (metis (no_types, lifting) VerifyBranchFromOrderedHashTree_def EvaluateBranch_snoc last_snoc
      append_is_Nil_conv length_0_conv not_Cons_self2)

theorem ordered_membership_verifies_witness:
  "\<exists>pos t1 branch t2 r t3.
     Ordered_Position (\<lambda>bs. of_nat (bytes_val bs)) [2] (added_tree 7 [[3], [2], [5]]) = Some (pos, t1)
   \<and> Ordered_Branch (\<lambda>bs. of_nat (bytes_val bs)) (of_int pos) t1 = Some (branch, t2)
   \<and> Ordered_Root (\<lambda>bs. of_nat (bytes_val bs)) t2 = Some (r, t3)
   \<and> VerifyBranchFromOrderedHashTree (\<lambda>bs. of_nat (bytes_val bs)) (of_int pos) [2] (branch @ [r]) r"
  by (rule ordered_membership_verifies) (simp_all add: bytes_val_def)

text \<open>
  The position is not committed to. Because \<^verbatim>\<open>OrderedDataElement::Hash\<close> copies the data
  over the position it has just written, the check gives the same answer for every claimed
  position as soon as the data has four bytes.
\<close>

theorem verification_ignores_position:
  assumes "4 \<le> length element"
  shows "VerifyBranchFromOrderedHashTree H pos element branch r
    = VerifyBranchFromOrderedHashTree H pos' element branch r"
proof -
  have "OrderedDataElement_Hash H (OrderedDataElement_new q element) = H (element @ [0, 0, 0, 0])" for q
    using assms Hash_long_data [of "OrderedDataElement_new q element"]
    by (simp add: OrderedDataElement_new_def)
  then show ?thesis by (simp add: VerifyBranchFromOrderedHashTree_def)
qed

theorem verification_ignores_position_witness:
  "VerifyBranchFromOrderedHashTree (\<lambda>bs. of_nat (bytes_val bs)) 0 [1, 2, 3, 4] [5] 5
    = VerifyBranchFromOrderedHashTree (\<lambda>bs. of_nat (bytes_val bs)) 9 [1, 2, 3, 4] [5] 5"
  by (rule verification_ignores_position) simp


text \<open>The hash tree of a block asked for a length beyond its own.\<close>

lemma tree_inv_Hash_longer:
  assumes "tree_inv H hs t" and "hs \<noteq> []" and "length hs \<le> len"
  shows "map_option fst (HashTree_Hash H (nth_opt hs) len t) = Some (hashes_root H hs)"
proof -
  have shape: "node_shape (root_node t) = HashNode_new 0 (length hs)"
    and ok: "node_ok (SymmetricCombine H) (nth_opt hs) (Suc 0) (root_node t)"
    using assms(1) node_ok_shape [of _ _ _ "HashNode_new 0 (length hs)"]
    by (auto simp: tree_inv_def intro: node_full_ok)
  have "node_val (SymmetricCombine H) (nth_opt hs) (Suc 0) len (root_node t) = Some (hashes_root H hs)"
    using node_val_cong_shape [of "root_node t" "HashNode_new 0 (length hs)"] shape assms
      node_val_new [of 0 "length hs" hs len "SymmetricCombine H"]
    by (simp add: hashes_root_def tree_inv_def)
  then have "map_option fst (node_Hash (SymmetricCombine H) (nth_opt hs) (Suc 0) len (root_node t))
      = Some (hashes_root H hs)"
    using node_Hash_correct [OF ok, of len] by (auto elim: hash_result_cases)
  then show ?thesis
    using assms(1) by (auto simp: HashTree_Hash_def tree_inv_def split: option.splits prod.splits)
qed

text \<open>
  A stale root. \<^verbatim>\<open>OrderedHashTree::Position\<close> assigns positions without rebuilding the
  tree, after which \<^verbatim>\<open>Root\<close> no longer sees that an element was added: when an element is
  added to a tree that has already been built and its position is asked for first, \<^verbatim>\<open>Root\<close>
  still returns the old root.
\<close>

theorem root_stale_after_position:
  assumes "ordered_inv H t qs" and "qs \<noteq> []" and "length qs + 1 < 2 ^ 32"
    and "H d \<notin> set (data_hashes H t qs)"
    and "\<forall>p \<in> set qs. 4 \<le> length (elem_data (ot_store t ! p))"
    and "Ordered_Position H d (Ordered_AddElement d t) = Some (i, t1)"
  shows "map_option fst (Ordered_Root H t1) = map_option fst (Ordered_Root H t)"
proof -
  let ?t = "Ordered_AddElement d t" and ?ps = "qs @ [length (ot_store t)]" and ?hs = "leaf_hashes H t qs"
  obtain ht where ht: "ot_tree t = Some (map Some qs, ht)" "tree_inv H ?hs ht" and ptrs: "ot_ptrs t qs"
    and dist: "distinct (data_hashes H t qs)"
    using assms(1) by (auto simp: ordered_inv_def)
  have ptrs': "ot_ptrs ?t ?ps" using ptrs by (auto simp: ot_ptrs_def)
  have "data_hashes H ?t ?ps = data_hashes H t qs @ [H d]"
    using ptrs by (auto simp: data_hashes_def ot_ptrs_def nth_append DataHash_def TreeHash_def OrderedDataElement_new_def)
  then have d': "distinct (data_hashes H ?t ?ps)" using dist assms(4) by simp
  have n': "length ?ps < 2 ^ 32" using assms(3) by simp
  obtain t' qs' where t': "AssignPositions H ?t = Some t'" "ot_ptrs t' qs'" "mset qs' = mset ?ps"
    "positions_assigned t'" "ot_tree t' = ot_tree ?t" "length (ot_store t') = length (ot_store ?t)"
    "\<And>p. p < length (ot_store ?t) \<Longrightarrow> elem_data (ot_store t' ! p) = elem_data (ot_store ?t ! p)"
    using AssignPositions_ptrs [OF ptrs' d' n'] by metis
  have "t1 = t'" using assms(6) t'(1) by (auto simp: Ordered_Position_def split: option.splits)
  have same: "elem_data (ot_store t' ! p) = elem_data (ot_store t ! p)" if "p \<in> set qs" for p
    using t'(7) [of p] that ptrs by (auto simp: ot_ptrs_def nth_append)
  have "ordered_elh H t' (map Some qs) = nth_opt (leaf_hashes H t' qs)"
    using ptrs t'(6) by (intro ordered_elh_eq) (auto simp: ot_ptrs_def less_Suc_eq)
  also have "leaf_hashes H t' qs = ?hs"
    using same assms(5) by (auto simp: leaf_hashes_def Hash_long_data)
  finally have elh: "ordered_elh H t' (map Some qs) = nth_opt ?hs" .
  have "length (ot_elements t') = length qs + 1"
    using t'(2,3) by (metis length_append_singleton length_map ot_ptrs_def size_mset Suc_eq_plus1)
  then have "map_option fst (Ordered_Root H t') = Some (hashes_root H ?hs)"
    using tree_inv_Hash_longer [OF ht(2), of "length qs + 1"] assms(2) t'(4,5) ht(1) elh
    by (auto simp: Ordered_Root_def with_tree_def leaf_hashes_def split: option.splits)
  then show ?thesis using Ordered_Root_inv [OF assms(1)] \<open>t1 = t'\<close> by auto
qed


definition demo_hash :: "vch_t \<Rightarrow> uint160" where
  "demo_hash bs = (case bs of [] \<Rightarrow> 0 | b # bs \<Rightarrow> ucast b)"

theorem root_stale_after_position_witness:
  "\<exists>t i t1. BuildTree demo_hash (added_tree 0 [[1, 1, 1, 1]]) = Some t
    \<and> Ordered_Position demo_hash [2, 2, 2, 2] (Ordered_AddElement [2, 2, 2, 2] t) = Some (i, t1)
    \<and> map_option fst (Ordered_Root demo_hash t1) = map_option fst (Ordered_Root demo_hash t)"
proof -
  define t0 where "t0 = added_tree 0 [[1, 1, 1, 1]]"
  have p: "ot_ptrs t0 [0]" using added_tree_ptrs [of 0 "[[1, 1, 1, 1]]"] by (simp add: t0_def)
  have d: "distinct (data_hashes demo_hash t0 [0])" by (simp add: data_hashes_def)
  have n: "length [0 :: nat] < 2 ^ 32" by simp
  obtain t qs where t: "BuildTree demo_hash t0 = Some t" "ordered_inv demo_hash t qs" "mset qs = mset [0]"
    "\<And>p. p < length (ot_store t0) \<Longrightarrow> elem_data (ot_store t ! p) = elem_data (ot_store t0 ! p)"
    using BuildTree_inv [OF p d n] by metis
  have qs: "qs = [0]" using t(3) by simp
  have data: "elem_data (ot_store t ! 0) = [1, 1, 1, 1]"
    using t(4) [of 0] by (simp add: t0_def added_tree_simps OrderedDataElement_new_def)
  have "case BuildTree demo_hash (added_tree 0 [[1, 1, 1, 1]]) of None \<Rightarrow> False
      | Some t \<Rightarrow> Ordered_Position demo_hash [2, 2, 2, 2] (Ordered_AddElement [2, 2, 2, 2] t) \<noteq> None"
    by code_simp
  then obtain i t1 where pos: "Ordered_Position demo_hash [2, 2, 2, 2] (Ordered_AddElement [2, 2, 2, 2] t) = Some (i, t1)"
    using t(1) by (auto simp: t0_def)
  have "demo_hash [2, 2, 2, 2] \<noteq> demo_hash [1, 1, 1, 1]" by (simp add: demo_hash_def)
  then have "map_option fst (Ordered_Root demo_hash t1) = map_option fst (Ordered_Root demo_hash t)"
    by (intro root_stale_after_position [OF t(2) _ _ _ _ pos])
      (simp_all add: qs data data_hashes_def DataHash_def TreeHash_def)
  then show ?thesis using t(1) pos unfolding t0_def by blast
qed


end
