(* ===== verification/Credits.thy ===== *)
theory Credits
  imports OrderedTree
begin

text \<open>
  Credits and credit batches: \<^verbatim>\<open>src/src/credits/{Credit,CreditInBatch,CreditBatch}.cpp\<close>,
  their headers, and \<^verbatim>\<open>src/src/vector_tools.h\<close>. A batch keeps its credits in an
  \<^verbatim>\<open>OrderedHashTree\<close> over their serialised bytes and hands out, for a credit, its position and
  the branch that proves it is in the batch.

  \<^verbatim>\<open>Point\<close> (a curve point of OpenSSL) is the type parameter \<open>'p\<close>; its serialisation
  \<^verbatim>\<open>getvch\<close> and \<^verbatim>\<open>setvch\<close> are the parameters \<open>kget\<close> and \<open>kset\<close>, and \<^verbatim>\<open>Hash160\<close> is
  the parameter \<open>H\<close>.
\<close>

section \<open>Vectors\<close>

definition PositionOfEntryInVector :: "'a \<Rightarrow> 'a list \<Rightarrow> nat" where
  "PositionOfEntryInVector entry v = find_index entry v"

definition VectorContainsEntry :: "'a list \<Rightarrow> 'a \<Rightarrow> bool" where
  "VectorContainsEntry v entry \<longleftrightarrow> find_index entry v \<noteq> length v"

definition EraseEntryFromVector :: "'a \<Rightarrow> 'a list \<Rightarrow> 'a list" where
  "EraseEntryFromVector entry v =
     (let position = PositionOfEntryInVector entry v
      in if position < length v then take position v @ drop (position + 1) v else v)"

definition ConcatenateVectors :: "'a list \<Rightarrow> 'a list \<Rightarrow> 'a list" where
  "ConcatenateVectors vector1 vector2 = vector1 @ vector2"

lemma find_index_eq_length: "find_index x xs = length xs \<longleftrightarrow> x \<notin> set xs"
  using find_index_less [of x xs] by (induction xs) (auto simp: find_index_def)

lemma VectorContainsEntry_iff [simp]: "VectorContainsEntry v x \<longleftrightarrow> x \<in> set v"
  by (simp add: VectorContainsEntry_def find_index_eq_length)

lemma EraseEntryFromVector_eq: "EraseEntryFromVector x v = remove1 x v"
  by (induction v) (auto simp: EraseEntryFromVector_def PositionOfEntryInVector_def find_index_def Let_def)

section \<open>Credit\<close>

record 'p credit =
  amount :: u64
  public_key :: 'p

definition ByteString :: "vch_t \<Rightarrow> string" where
  "ByteString bytes =
     fold (\<lambda>b result. result @ [''0123456789abcdef'' ! (unat b div 16), ''0123456789abcdef'' ! (unat b mod 16)])
       bytes ''''"

definition Credit_of_vch :: "(vch_t \<Rightarrow> 'p) \<Rightarrow> vch_t \<Rightarrow> 'p credit option" where
  "Credit_of_vch kset data =
     (if 8 \<le> length data
      then Some \<lparr>amount = u64_of_bytes data, public_key = kset (drop 8 data)\<rparr> else None)"

definition Credit_getvch :: "('p \<Rightarrow> vch_t) \<Rightarrow> ('p, 'x) credit_scheme \<Rightarrow> vch_t" where
  "Credit_getvch kget c = u64_bytes (amount c) @ kget (public_key c)"

definition KeyHash :: "(vch_t \<Rightarrow> uint160) \<Rightarrow> ('p \<Rightarrow> vch_t) \<Rightarrow> 'p \<Rightarrow> uint160" where
  "KeyHash H kget key = H (drop 1 (kget key))"

definition Credit_KeyHash :: "(vch_t \<Rightarrow> uint160) \<Rightarrow> ('p \<Rightarrow> vch_t) \<Rightarrow> ('p, 'x) credit_scheme \<Rightarrow> uint160" where
  "Credit_KeyHash H kget c = KeyHash H kget (public_key c)"

definition Credit_equal :: "('p, 'x) credit_scheme \<Rightarrow> ('p, 'y) credit_scheme \<Rightarrow> bool" where
  "Credit_equal c other \<longleftrightarrow> amount c = amount other \<and> public_key c = public_key other"

text \<open>The lexicographic order of \<^verbatim>\<open>std::vector<unsigned char>\<close>.\<close>

fun vch_less :: "vch_t \<Rightarrow> vch_t \<Rightarrow> bool" where
  "vch_less a [] = False"
| "vch_less [] (y # b) = True"
| "vch_less (x # a) (y # b) = (if x < y then True else if y < x then False else vch_less a b)"

definition Credit_less :: "('p \<Rightarrow> vch_t) \<Rightarrow> 'p credit \<Rightarrow> 'p credit \<Rightarrow> bool" where
  "Credit_less kget c other \<longleftrightarrow> amount c < amount other
     \<or> (amount c = amount other \<and> vch_less (kget (public_key c)) (kget (public_key other)))"

section \<open>CreditInBatch\<close>

record 'p credit_in_batch = "'p credit" +
  cb_position :: u64
  cb_branch :: "uint160 list"
  cb_diurn_branch :: "uint160 list"

definition CreditInBatch_new :: "'p credit \<Rightarrow> u64 \<Rightarrow> uint160 list \<Rightarrow> 'p credit_in_batch" where
  "CreditInBatch_new c pos br =
     \<lparr>amount = amount c, public_key = public_key c, cb_position = pos, cb_branch = br, cb_diurn_branch = []\<rparr>"

definition CreditInBatch_equal :: "'p credit_in_batch \<Rightarrow> 'p credit_in_batch \<Rightarrow> bool" where
  "CreditInBatch_equal c other \<longleftrightarrow> cb_branch c = cb_branch other \<and> cb_position c = cb_position other"

definition CreditInBatch_less :: "'p credit_in_batch \<Rightarrow> 'p credit_in_batch \<Rightarrow> bool" where
  "CreditInBatch_less c other \<longleftrightarrow> amount c < amount other"

section \<open>CreditBatch\<close>

record 'p credit_batch =
  previous_credit_hash :: uint160
  credits :: "'p credit list"
  batch_tree :: ordered_tree
  serialized_credits :: "vch_t list"

definition CreditBatch_new :: "uint160 \<Rightarrow> u64 \<Rightarrow> 'p credit_batch" where
  "CreditBatch_new prev off =
     \<lparr>previous_credit_hash = prev, credits = [], batch_tree = OrderedHashTree_new off, serialized_credits = []\<rparr>"

definition CreditBatch_Add :: "('p \<Rightarrow> vch_t) \<Rightarrow> 'p credit \<Rightarrow> 'p credit_batch \<Rightarrow> 'p credit_batch \<times> bool" where
  "CreditBatch_Add kget c b =
     (let b = b\<lparr>credits := credits b @ [c]\<rparr>;
          serialized_credit = Credit_getvch kget c
      in if VectorContainsEntry (serialized_credits b) serialized_credit then (b, False)
         else (b\<lparr>serialized_credits := serialized_credits b @ [serialized_credit],
                 batch_tree := Ordered_AddElement serialized_credit (batch_tree b)\<rparr>, True))"

definition CreditBatch_AddCredits :: "('p \<Rightarrow> vch_t) \<Rightarrow> 'p credit list \<Rightarrow> 'p credit_batch \<Rightarrow> 'p credit_batch \<times> bool" where
  "CreditBatch_AddCredits kget cs b =
     (if \<exists>c \<in> set cs. VectorContainsEntry (serialized_credits b) (Credit_getvch kget c) then (b, False)
      else (fold (\<lambda>c b. fst (CreditBatch_Add kget c b)) cs b, True))"

definition CreditBatch_copy :: "('p \<Rightarrow> vch_t) \<Rightarrow> 'p credit_batch \<Rightarrow> 'p credit_batch" where
  "CreditBatch_copy kget other =
     fold (\<lambda>c b. fst (CreditBatch_Add kget c b)) (credits other)
       (CreditBatch_new (previous_credit_hash other) (ot_offset (batch_tree other)))"

definition CreditBatch_assign :: "('p \<Rightarrow> vch_t) \<Rightarrow> 'p credit_batch \<Rightarrow> 'p credit_batch \<Rightarrow> 'p credit_batch" where
  "CreditBatch_assign kget b other =
     fold (\<lambda>c b. fst (CreditBatch_Add kget c b)) (credits other)
       (b\<lparr>previous_credit_hash := previous_credit_hash other,
          batch_tree := (batch_tree b)\<lparr>ot_offset := ot_offset (batch_tree other)\<rparr>\<rparr>)"

definition CreditBatch_size :: "'p credit_batch \<Rightarrow> nat" where
  "CreditBatch_size b = length (credits b)"

definition CreditBatch_Root :: "(vch_t \<Rightarrow> uint160) \<Rightarrow> 'p credit_batch \<Rightarrow> (uint160 \<times> 'p credit_batch) option" where
  "CreditBatch_Root H b =
     (case Ordered_Root H (batch_tree b) of None \<Rightarrow> None
      | Some (treeroot, t) \<Rightarrow>
          Some (SymmetricCombine H (previous_credit_hash b) treeroot, b\<lparr>batch_tree := t\<rparr>))"

definition CreditBatch_Position :: "(vch_t \<Rightarrow> uint160) \<Rightarrow> ('p \<Rightarrow> vch_t) \<Rightarrow> 'p credit \<Rightarrow> 'p credit_batch
    \<Rightarrow> (int \<times> 'p credit_batch) option" where
  "CreditBatch_Position H kget c b =
     (case Ordered_Position H (Credit_getvch kget c) (batch_tree b) of None \<Rightarrow> None
      | Some (i, t) \<Rightarrow> Some (i, b\<lparr>batch_tree := t\<rparr>))"

definition CreditBatch_GetCredit :: "(vch_t \<Rightarrow> 'p) \<Rightarrow> u32 \<Rightarrow> 'p credit_batch \<Rightarrow> 'p credit option" where
  "CreditBatch_GetCredit kset pos b =
     (case Ordered_GetData (ucast pos) (batch_tree b) of None \<Rightarrow> None
      | Some d \<Rightarrow> Credit_of_vch kset d)"

definition CreditBatch_Branch :: "(vch_t \<Rightarrow> uint160) \<Rightarrow> ('p \<Rightarrow> vch_t) \<Rightarrow> 'p credit \<Rightarrow> 'p credit_batch
    \<Rightarrow> (uint160 list \<times> 'p credit_batch) option" where
  "CreditBatch_Branch H kget c b =
     (case CreditBatch_Position H kget c b of None \<Rightarrow> None
      | Some (pos, b) \<Rightarrow>
          (case Ordered_Branch H (of_int pos) (batch_tree b) of None \<Rightarrow> None
           | Some (branch, t) \<Rightarrow>
               (case CreditBatch_Position H kget c (b\<lparr>batch_tree := t\<rparr>) of None \<Rightarrow> None
                | Some (pos, b) \<Rightarrow>
                    (case CreditBatch_Root H b of None \<Rightarrow> None
                     | Some (r, b) \<Rightarrow> Some (branch @ [previous_credit_hash b] @ [r], b)))))"

definition CreditBatch_GetCreditInBatch :: "(vch_t \<Rightarrow> uint160) \<Rightarrow> ('p \<Rightarrow> vch_t) \<Rightarrow> 'p credit \<Rightarrow> 'p credit_batch
    \<Rightarrow> ('p credit_in_batch \<times> 'p credit_batch) option" where
  "CreditBatch_GetCreditInBatch H kget c b =
     (case CreditBatch_Position H kget c b of None \<Rightarrow> None
      | Some (pos, b) \<Rightarrow>
          (case CreditBatch_Branch H kget c b of None \<Rightarrow> None
           | Some (branch, b) \<Rightarrow> Some (CreditInBatch_new c (of_int pos) branch, b)))"

section \<open>Serialisation and order\<close>

lemma Credit_of_vch_getvch:
  "kset (kget (public_key c)) = public_key c \<Longrightarrow> Credit_of_vch kset (Credit_getvch kget c) = Some c"
  by (simp add: Credit_of_vch_def Credit_getvch_def mem_simps)

lemma Credit_getvch_inject:
  assumes "\<And>x y. kget x = kget y \<Longrightarrow> x = y"
  shows "Credit_getvch kget c = Credit_getvch kget c' \<longleftrightarrow> amount c = amount c' \<and> public_key c = public_key c'"
  using assms by (auto simp: Credit_getvch_def append_eq_append_conv u64_bytes_inject)

lemma vch_less_irrefl: "\<not> vch_less a a"
  by (induction a) auto

lemma vch_less_trans: "vch_less a b \<Longrightarrow> vch_less b c \<Longrightarrow> vch_less a c"
proof (induction a b arbitrary: c rule: vch_less.induct)
  case (3 x a y b)
  then show ?case by (cases c) (auto split: if_splits)
next
  case (2 y b)
  then show ?case by (cases c) auto
qed simp

lemma vch_less_linear: "vch_less a b \<or> a = b \<or> vch_less b a"
  by (induction a b rule: vch_less.induct) (auto simp: neq_Nil_conv, metis list.exhaust vch_less.simps(2))

section \<open>Batches built by adding credits\<close>

definition batch_of :: "('p \<Rightarrow> vch_t) \<Rightarrow> uint160 \<Rightarrow> u64 \<Rightarrow> 'p credit list \<Rightarrow> 'p credit_batch" where
  "batch_of kget prev off cs = fold (\<lambda>c b. fst (CreditBatch_Add kget c b)) cs (CreditBatch_new prev off)"

text \<open>The serialised credits a batch keeps: each the first time it is added.\<close>

fun first_occurrences :: "'a list \<Rightarrow> 'a list \<Rightarrow> 'a list" where
  "first_occurrences seen [] = []"
| "first_occurrences seen (x # xs) =
     (if x \<in> set seen then first_occurrences seen xs else x # first_occurrences (seen @ [x]) xs)"

lemma set_first_occurrences: "set (first_occurrences seen xs) = set xs - set seen"
  by (induction seen xs rule: first_occurrences.induct) auto

lemma distinct_first_occurrences: "distinct (first_occurrences seen xs)"
  by (induction seen xs rule: first_occurrences.induct) (auto simp: set_first_occurrences)

lemma fold_CreditBatch_Add:
  "fold (\<lambda>c b. fst (CreditBatch_Add kget c b)) cs b =
     (let new = first_occurrences (serialized_credits b) (map (Credit_getvch kget) cs)
      in b\<lparr>credits := credits b @ cs, serialized_credits := serialized_credits b @ new,
           batch_tree := fold Ordered_AddElement new (batch_tree b)\<rparr>)"
proof (induction cs arbitrary: b)
  case (Cons c cs)
  let ?d = "Credit_getvch kget c"
  have "fst (CreditBatch_Add kget c b) =
      (if ?d \<in> set (serialized_credits b) then b\<lparr>credits := credits b @ [c]\<rparr>
       else b\<lparr>credits := credits b @ [c], serialized_credits := serialized_credits b @ [?d],
         batch_tree := Ordered_AddElement ?d (batch_tree b)\<rparr>)"
    by (simp add: CreditBatch_Add_def Let_def)
  then show ?case using Cons.IH [of "fst (CreditBatch_Add kget c b)"] by (simp add: Let_def)
qed (simp add: Let_def)

lemma batch_of_simps:
  fixes kget prev off cs
  defines "b \<equiv> batch_of kget prev off cs"
  shows "credits b = cs" and "previous_credit_hash b = prev"
    and "batch_tree b = added_tree off (first_occurrences [] (map (Credit_getvch kget) cs))"
    and "serialized_credits b = first_occurrences [] (map (Credit_getvch kget) cs)"
  by (simp_all add: b_def batch_of_def fold_CreditBatch_Add CreditBatch_new_def Let_def added_tree_def)

section \<open>Properties\<close>

text \<open>
  A credit reads back from its bytes: for a key whose bytes read back, \<^verbatim>\<open>Credit(getvch())\<close>
  is the credit, amount included.
\<close>

theorem credit_roundtrip:
  assumes "\<forall>k. kset (kget k) = k"
  shows "Credit_of_vch kset (Credit_getvch kget c) = Some c"
  using assms by (simp add: Credit_of_vch_getvch)

theorem credit_roundtrip_witness:
  "Credit_of_vch (\<lambda>bs. bytes_val bs) (Credit_getvch (le_bytes 4) \<lparr>amount = 77, public_key = 9\<rparr>)
    = Some \<lparr>amount = 77, public_key = 9\<rparr>
   \<and> Credit_of_vch (\<lambda>bs. bs) (Credit_getvch (\<lambda>bs. bs) \<lparr>amount = 77, public_key = [2, 3]\<rparr>)
    = Some \<lparr>amount = 77, public_key = [2, 3]\<rparr>"
  using credit_roundtrip [of "\<lambda>bs. bs" "\<lambda>bs. bs" "\<lparr>amount = 77, public_key = [2, 3]\<rparr>"]
  by (simp add: Credit_of_vch_getvch mem_simps)

text \<open>
  \<^verbatim>\<open>Credit::operator<\<close> is a strict total order that agrees with equality, for keys that are
  determined by their bytes, so that sets and maps of credits are well behaved.
\<close>

theorem credit_order_total:
  assumes "\<forall>x y. kget x = kget y \<longrightarrow> x = y"
  shows "\<not> Credit_less kget a a
    \<and> (Credit_less kget a b \<longrightarrow> Credit_less kget b c \<longrightarrow> Credit_less kget a c)
    \<and> (Credit_less kget a b \<or> Credit_equal a b \<or> Credit_less kget b a)"
proof -
  have "Credit_less kget a b \<or> Credit_equal a b \<or> Credit_less kget b a"
    using assms vch_less_linear [of "kget (public_key a)" "kget (public_key b)"]
    by (auto simp: Credit_less_def Credit_equal_def)
  then show ?thesis
    by (auto simp: Credit_less_def vch_less_irrefl dest: vch_less_trans)
qed

theorem credit_order_total_witness:
  "Credit_less (\<lambda>bs. bs) \<lparr>amount = 5, public_key = [2]\<rparr> \<lparr>amount = 5, public_key = [2, 1]\<rparr>
   \<and> \<not> Credit_less (\<lambda>bs. bs) \<lparr>amount = 5, public_key = [2]\<rparr> \<lparr>amount = 5, public_key = [2]\<rparr>"
  using credit_order_total [of "\<lambda>bs. bs" "\<lparr>amount = 5, public_key = [2]\<rparr>"] by (simp add: Credit_less_def)

text \<open>
  C12. Proofs of membership in a batch are complete. For a batch built by adding credits whose
  serialisations have different hashes, \<^verbatim>\<open>GetCreditInBatch\<close> of any of them succeeds, and the
  position and branch it returns pass \<^verbatim>\<open>VerifyBranchFromOrderedHashTree\<close> against the batch's
  own root, which ends the branch; the entry before it is the previous credit hash.
\<close>

theorem credit_in_batch_verifies:
  fixes c :: "'p credit"
  assumes "inj_on H (Credit_getvch kget ` set cs)" and "c \<in> set cs" and "unat off + length cs < 2 ^ 31"
  shows "\<exists>cib b r. CreditBatch_GetCreditInBatch H kget c (batch_of kget prev off cs) = Some (cib, b)
    \<and> map_option fst (CreditBatch_Root H b) = Some r
    \<and> VerifyBranchFromOrderedHashTree H (ucast (cb_position cib)) (Credit_getvch kget cib) (cb_branch cib) r
    \<and> credit.truncate cib = c"
proof -
  define ds where "ds = first_occurrences [] (map (Credit_getvch kget) cs)"
  let ?d = "Credit_getvch kget c" and ?b = "batch_of kget prev off cs"
  have set: "set ds = Credit_getvch kget ` set cs" by (auto simp: ds_def set_first_occurrences)
  have len: "length ds \<le> length cs"
    using distinct_first_occurrences [of "[]" "map (Credit_getvch kget) cs"] card_length [of "map (Credit_getvch kget) cs"]
    by (simp add: ds_def flip: distinct_card) (simp add: set_first_occurrences)
  have "distinct (map H ds)" using assms(1) distinct_first_occurrences set by (simp add: ds_def distinct_map)
  moreover have "?d \<in> set ds" using assms(2) set by simp
  moreover have "unat off + length ds < 2 ^ 31" using assms(3) len by simp
  ultimately obtain pos t1 branch t2 r t3 where m:
    "Ordered_Position H ?d (added_tree off ds) = Some (pos, t1)"
    "Ordered_Position H ?d t1 = Some (pos, t1)"
    "Ordered_Branch H (of_int pos) t1 = Some (branch, t2)"
    "Ordered_Position H ?d t2 = Some (pos, t2)"
    "Ordered_Root H t2 = Some (r, t3)" "map_option fst (Ordered_Root H t3) = Some r"
    "0 \<le> pos" "pos < 2 ^ 31"
    "foldl (SymmetricCombine H)
        (OrderedDataElement_Hash H (OrderedDataElement_new (ucast (of_int pos :: u32)) ?d)) branch = r"
    by (rule ordered_membership)
  have b: "batch_tree ?b = added_tree off ds" "previous_credit_hash ?b = prev" by (simp_all add: batch_of_simps ds_def)
  let ?r = "SymmetricCombine H prev r" and ?br = "branch @ [prev, SymmetricCombine H prev r]"
  have got: "CreditBatch_GetCreditInBatch H kget c ?b
      = Some (CreditInBatch_new c (of_int pos) ?br, ?b\<lparr>batch_tree := t3\<rparr>)"
    by (simp add: CreditBatch_GetCreditInBatch_def CreditBatch_Branch_def CreditBatch_Position_def
        CreditBatch_Root_def b m)
  have "ucast (of_int pos :: u64) = (of_int pos :: u32)"
    by (rule bit_word_eqI) (simp add: bit_simps)
  moreover have "EvaluateBranchWithHash H ?br h 0 = SymmetricCombine H (foldl (SymmetricCombine H) h branch) prev" for h
    using EvaluateBranch_snoc [of H "branch @ [prev]" ?r h] by simp
  ultimately have "VerifyBranchFromOrderedHashTree H (ucast (of_int pos :: u64)) ?d ?br ?r"
    using m(9) by (simp add: VerifyBranchFromOrderedHashTree_def SymmetricCombine_commute)
  moreover have "map_option fst (CreditBatch_Root H (?b\<lparr>batch_tree := t3\<rparr>)) = Some ?r"
    using m(6) b by (auto simp: CreditBatch_Root_def)
  ultimately show ?thesis
    using got by (auto simp: CreditInBatch_new_def Credit_getvch_def credit.defs)
qed

theorem credit_in_batch_verifies_witness:
  "\<exists>cib b r. CreditBatch_GetCreditInBatch (\<lambda>bs. of_nat (length bs)) (\<lambda>k. k) \<lparr>amount = 9, public_key = [2, 3]\<rparr>
       (batch_of (\<lambda>k. k) 4 7 [\<lparr>amount = 9, public_key = [2]\<rparr>, \<lparr>amount = 9, public_key = [2, 3]\<rparr>]) = Some (cib, b)
    \<and> map_option fst (CreditBatch_Root (\<lambda>bs. of_nat (length bs)) b) = Some r
    \<and> VerifyBranchFromOrderedHashTree (\<lambda>bs. of_nat (length bs)) (ucast (cb_position cib))
        (Credit_getvch (\<lambda>k. k) cib) (cb_branch cib) r
    \<and> credit.truncate cib = \<lparr>amount = 9, public_key = [2, 3]\<rparr>"
  by (rule credit_in_batch_verifies) (simp_all add: Credit_getvch_def)

text \<open>
  Assigning a batch does not replace the old contents. The copy constructor rebuilds a batch
  with the same credits in the same order, while \<^verbatim>\<open>operator=\<close> adds the credits of the right-hand
  side to those already there.
\<close>

theorem batch_assignment_accumulates:
  "credits (CreditBatch_copy kget other) = credits other
   \<and> credits (CreditBatch_assign kget b other) = credits b @ credits other
   \<and> set (serialized_credits (CreditBatch_assign kget b other))
       = set (serialized_credits b) \<union> Credit_getvch kget ` set (credits other)"
  by (auto simp: CreditBatch_copy_def CreditBatch_assign_def fold_CreditBatch_Add CreditBatch_new_def Let_def
      set_first_occurrences)


end
