(* ===== verification/Polynomial.thy ===== *)
theory Polynomial
  imports Prelude
begin

text \<open>
  The polynomials over a curve's scalars of \<^verbatim>\<open>src/crypto/polynomial.cpp\<close>, with the big-integer operations of
  \<^verbatim>\<open>src/crypto/bignum.h\<close> they use.  A \<^verbatim>\<open>CBigNum\<close> is an \<open>int\<close>.  \<^verbatim>\<open>Point::Modulus\<close> (the order of a curve),
  \<^verbatim>\<open>BN_mod_inverse\<close>, the random numbers and the curve's point operations are parameters.
\<close>

section \<open>Big integers\<close>

text \<open>\<^verbatim>\<open>operator%\<close> is \<^verbatim>\<open>BN_mod\<close>: the remainder has the sign of the dividend.\<close>

definition bn_mod :: "int \<Rightarrow> int \<Rightarrow> int" where
  "bn_mod a b = (if a < 0 then - ((- a) mod \<bar>b\<bar>) else a mod \<bar>b\<bar>)"

text \<open>\<^verbatim>\<open>operator^\<close> flips in the magnitude of the first number the bits set in the second.\<close>

definition bn_flip :: "nat \<Rightarrow> int \<Rightarrow> int" where
  "bn_flip n a = (if a < 0 then - flip_bit n (- a) else flip_bit n a)"

function bn_xor_loop :: "int \<Rightarrow> nat \<Rightarrow> int \<Rightarrow> int" where
  "bn_xor_loop b shift result =
     (if 2 ^ shift \<le> 2 * b
      then bn_xor_loop b (Suc shift) (if bit b shift then bn_flip shift result else result)
      else result)"
  by pat_completeness auto
termination
proof (relation "measure (\<lambda>(b, shift, result). nat (2 * b + 1 - 2 ^ shift))", goal_cases)
  case (2 b shift result)
  have "(2 :: int) ^ shift < 2 ^ Suc shift" by simp
  then show ?case using 2 by simp
qed simp

definition bn_xor :: "int \<Rightarrow> int \<Rightarrow> int" where
  "bn_xor a b = bn_xor_loop b 0 a"

section \<open>Polynomials\<close>

fun positive_loop :: "nat \<Rightarrow> int list \<Rightarrow> int list" where
  "positive_loop 0 result = result"
| "positive_loop (Suc n) result = positive_loop n (result @ [last result + 1])"

definition PositiveIntegers :: "nat \<Rightarrow> int list" where
  "PositiveIntegers N = (if N = 0 then [] else positive_loop (N - 1) [1])"

record bn_poly =
  curve :: u8
  coefficients :: "int list"

definition BigNumPolynomial_zeros :: "u8 \<Rightarrow> nat \<Rightarrow> bn_poly" where
  "BigNumPolynomial_zeros c k = \<lparr>curve = c, coefficients = replicate k 0\<rparr>"

definition poly_zero :: "bn_poly \<Rightarrow> bn_poly" where
  "poly_zero p = p\<lparr>coefficients := map (\<lambda>_. 0) (coefficients p)\<rparr>"

text \<open>\<open>draw i\<close> is the \<open>i\<close>-th number that the random generator returns below the modulus.\<close>

definition poly_randomize :: "(nat \<Rightarrow> int) \<Rightarrow> bn_poly \<Rightarrow> bn_poly" where
  "poly_randomize draw p = p\<lparr>coefficients := map draw [0..<length (coefficients p)]\<rparr>"

fun evaluate_loop :: "int \<Rightarrow> int \<Rightarrow> int list \<Rightarrow> int \<Rightarrow> int \<Rightarrow> int" where
  "evaluate_loop modulus x [] result power_of_x = result"
| "evaluate_loop modulus x (c # cs) result power_of_x =
     evaluate_loop modulus x cs (bn_mod (result + bn_mod (power_of_x * c) modulus) modulus)
       (bn_mod (power_of_x * x) modulus)"

definition poly_evaluate :: "(u8 \<Rightarrow> int) \<Rightarrow> bn_poly \<Rightarrow> int \<Rightarrow> int" where
  "poly_evaluate Modulus p x = evaluate_loop (Modulus (curve p)) x (coefficients p) 0 1"

fun multiply_power :: "nat \<Rightarrow> bn_poly \<Rightarrow> bn_poly" where
  "multiply_power 0 p = p"
| "multiply_power (Suc n) p = multiply_power n (p\<lparr>coefficients := 0 # coefficients p\<rparr>)"

definition multiplyBigNum :: "(u8 \<Rightarrow> int) \<Rightarrow> int \<Rightarrow> bn_poly \<Rightarrow> bn_poly" where
  "multiplyBigNum Modulus y p =
     p\<lparr>coefficients := map (\<lambda>c. bn_mod (y * c) (Modulus (curve p))) (coefficients p)\<rparr>"

text \<open>The loop stops at the end of the shorter polynomial; its branch that would extend is never taken.\<close>

fun add_loop :: "int \<Rightarrow> int list \<Rightarrow> int list \<Rightarrow> int list" where
  "add_loop modulus (a # as) (b # bs) = bn_mod (a + b) modulus # add_loop modulus as bs"
| "add_loop modulus as _ = as"

definition addBigNumPolynomial :: "(u8 \<Rightarrow> int) \<Rightarrow> bn_poly \<Rightarrow> bn_poly \<Rightarrow> bn_poly" where
  "addBigNumPolynomial Modulus p q =
     p\<lparr>coefficients := add_loop (Modulus (curve p)) (coefficients p) (coefficients q)\<rparr>"

fun multiply_loop :: "(u8 \<Rightarrow> int) \<Rightarrow> bn_poly \<Rightarrow> nat \<Rightarrow> int list \<Rightarrow> bn_poly \<Rightarrow> bn_poly" where
  "multiply_loop Modulus poly1 i [] result = result"
| "multiply_loop Modulus poly1 i (c # cs) result =
     multiply_loop Modulus poly1 (Suc i) cs
       (addBigNumPolynomial Modulus result (multiply_power i (multiplyBigNum Modulus c poly1)))"

definition BNPoly_multiply :: "(u8 \<Rightarrow> int) \<Rightarrow> bn_poly \<Rightarrow> bn_poly \<Rightarrow> bn_poly \<Rightarrow> bn_poly" where
  "BNPoly_multiply Modulus result poly1 poly2 =
     multiply_loop Modulus poly1 0 (coefficients poly2) (poly_zero result)"

definition Poly_swap :: "bn_poly \<Rightarrow> bn_poly \<Rightarrow> bn_poly \<times> bn_poly" where
  "Poly_swap poly1 poly2 =
     (poly1\<lparr>coefficients := coefficients poly2\<rparr>, poly2\<lparr>coefficients := coefficients poly1\<rparr>)"

fun lagrange_loop :: "(u8 \<Rightarrow> int) \<Rightarrow> (int \<Rightarrow> int \<Rightarrow> int) \<Rightarrow> u8 \<Rightarrow> nat \<Rightarrow> int \<Rightarrow> nat \<Rightarrow> int list \<Rightarrow> bn_poly \<Rightarrow> bn_poly \<Rightarrow> bn_poly" where
  "lagrange_loop Modulus InverseMod c j vj k [] result product = result"
| "lagrange_loop Modulus InverseMod c j vj k (vk # vs) result product =
     (if j = k then lagrange_loop Modulus InverseMod c j vj (Suc k) vs result product
      else let modulus = Modulus c;
               difference = bn_mod (vj - vk) modulus;
               inverse = InverseMod difference modulus;
               factor = multiplyBigNum Modulus inverse
                 \<lparr>curve = c, coefficients = [bn_mod ((modulus - 1) * vk) modulus, 1]\<rparr>;
               (result', product') = Poly_swap result (BNPoly_multiply Modulus product result factor)
           in lagrange_loop Modulus InverseMod c j vj (Suc k) vs result' product')"

text \<open>Reading \<^verbatim>\<open>values[j]\<close> beyond the end is undefined behaviour.\<close>

definition LagrangePoly :: "(u8 \<Rightarrow> int) \<Rightarrow> (int \<Rightarrow> int \<Rightarrow> int) \<Rightarrow> u8 \<Rightarrow> nat \<Rightarrow> int list \<Rightarrow> bn_poly option" where
  "LagrangePoly Modulus InverseMod c j values =
     (if values = [] \<or> j < length values
      then Some (lagrange_loop Modulus InverseMod c j (values ! j) 0 values
                   \<lparr>curve = c, coefficients = [1]\<rparr> (BigNumPolynomial_zeros c 2))
      else None)"

fun point_evaluate_loop :: "('p \<Rightarrow> 'p \<Rightarrow> 'p) \<Rightarrow> (int \<Rightarrow> 'p \<Rightarrow> 'p) \<Rightarrow> int \<Rightarrow> int \<Rightarrow> 'p list \<Rightarrow> 'p \<Rightarrow> int \<Rightarrow> 'p" where
  "point_evaluate_loop padd smul modulus x [] result power_of_x = result"
| "point_evaluate_loop padd smul modulus x (c # cs) result power_of_x =
     point_evaluate_loop padd smul modulus x cs (padd result (smul power_of_x c)) (bn_mod (power_of_x * x) modulus)"

definition PointPolynomial_evaluate :: "('p \<Rightarrow> 'p \<Rightarrow> 'p) \<Rightarrow> (int \<Rightarrow> 'p \<Rightarrow> 'p) \<Rightarrow> (int \<Rightarrow> 'p) \<Rightarrow> int \<Rightarrow> 'p list \<Rightarrow> int \<Rightarrow> 'p" where
  "PointPolynomial_evaluate padd smul PointOf modulus point_coefficients x =
     point_evaluate_loop padd smul modulus x point_coefficients (PointOf 0) 1"


section \<open>Laws of the big-integer operations\<close>

declare bn_xor_loop.simps [simp del]

lemma bn_mod_nonneg [simp]: "0 \<le> a \<Longrightarrow> 0 < m \<Longrightarrow> bn_mod a m = a mod m"
  by (simp add: bn_mod_def)

lemma bn_mod_mod: "0 < m \<Longrightarrow> bn_mod a m mod m = a mod m"
  by (simp add: bn_mod_def mod_minus_eq)

lemma bn_mod_add_right: "0 < m \<Longrightarrow> (a + bn_mod b m) mod m = (a + b) mod m"
  by (rule mod_add_cong) (simp_all add: bn_mod_mod)

lemma bn_mod_dvd: "0 < m \<Longrightarrow> m dvd bn_mod a m \<longleftrightarrow> m dvd a"
  using bn_mod_mod [of m a] by (simp add: dvd_eq_mod_eq_0)

lemma bn_xor_loop_bits:
  assumes "0 \<le> b" and "0 \<le> r"
  shows "bn_xor_loop b s r = xor r (push_bit s (drop_bit s b))"
  using assms
proof (induction b s r rule: bn_xor_loop.induct)
  case (1 b s r)
  show ?case
  proof (cases "2 ^ s \<le> 2 * b")
    case True
    have "bn_xor_loop b s r = xor (if bit b s then flip_bit s r else r) (push_bit (Suc s) (drop_bit (Suc s) b))"
      using "1.IH" [OF True] "1.prems" True
      by (subst bn_xor_loop.simps) (auto simp: bn_flip_def flip_bit_nonnegative_int_iff)
    also have "\<dots> = xor r (push_bit s (drop_bit s b))"
    proof (rule bit_eqI)
      fix n
      show "bit (xor (if bit b s then flip_bit s r else r) (push_bit (Suc s) (drop_bit (Suc s) b))) n \<longleftrightarrow>
          bit (xor r (push_bit s (drop_bit s b))) n"
        by (cases n s rule: linorder_cases)
          (auto simp: bit_simps flip_bit_eq_xor Suc_le_eq simp del: push_bit_Suc drop_bit_Suc)
    qed
    finally show ?thesis .
  next
    case False
    then have "b div 2 ^ s = 0" using "1.prems" by simp
    then show ?thesis using False by (subst bn_xor_loop.simps) (simp add: drop_bit_eq_div)
  qed
qed

lemma bn_xor_eq: "0 \<le> a \<Longrightarrow> 0 \<le> b \<Longrightarrow> bn_xor a b = xor a b"
  by (simp add: bn_xor_def bn_xor_loop_bits)

section \<open>Evaluation\<close>

text \<open>The value of a coefficient list.\<close>

fun peval :: "int list \<Rightarrow> int \<Rightarrow> int" where
  "peval [] x = 0"
| "peval (c # cs) x = c + x * peval cs x"

lemma evaluate_loop_mod:
  "0 < m \<Longrightarrow> evaluate_loop m x cs r pw mod m = (r + pw * peval cs x) mod m"
proof (induction cs arbitrary: r pw)
  case (Cons c cs)
  have "(bn_mod (r + bn_mod (pw * c) m) m + bn_mod (pw * x) m * peval cs x) mod m =
      (r + pw * c + pw * x * peval cs x) mod m"
    using Cons.prems by (intro mod_add_cong mod_mult_cong) (simp_all add: bn_mod_mod mod_add_right_eq bn_mod_add_right)
  then show ?case using Cons by (simp add: algebra_simps)
qed simp

lemma evaluate_loop_range:
  assumes "0 < m" and "\<forall>c \<in> set cs. 0 \<le> c" and "0 \<le> x" and "0 \<le> pw" and "0 \<le> r" and "r < m"
  shows "0 \<le> evaluate_loop m x cs r pw \<and> evaluate_loop m x cs r pw < m"
  using assms by (induction cs arbitrary: r pw) auto

lemma poly_evaluate_eq:
  assumes "0 < Modulus (curve p)" and "\<forall>c \<in> set (coefficients p). 0 \<le> c" and "0 \<le> x"
  shows "poly_evaluate Modulus p x = peval (coefficients p) x mod Modulus (curve p)"
  using evaluate_loop_range [OF assms, of 1 0] evaluate_loop_mod [OF assms(1), of x "coefficients p" 0 1] assms(1)
  by (simp add: poly_evaluate_def)

lemma PositiveIntegers_eq: "PositiveIntegers N = map (\<lambda>i. int i + 1) [0..<N]"
proof -
  have loop: "positive_loop n (map (\<lambda>i. int i + 1) [0..<Suc k]) = map (\<lambda>i. int i + 1) [0..<Suc (k + n)]" for n k
  proof (induction n arbitrary: k)
    case (Suc n)
    then show ?case using Suc [of "Suc k"] by simp
  qed simp
  show ?thesis using loop [of "N - 1" 0] by (cases N) (simp_all add: PositiveIntegers_def)
qed


section \<open>The constant coefficient of a Lagrange polynomial\<close>

lemma evaluate_loop_0: "0 \<le> r \<Longrightarrow> r < m \<Longrightarrow> evaluate_loop m 0 cs r 0 = r"
  by (induction cs) auto

lemma poly_evaluate_0:
  assumes "coefficients p = c # cs" and "0 \<le> c" and "0 < Modulus (curve p)"
  shows "poly_evaluate Modulus p 0 = c mod Modulus (curve p)"
  using assms by (simp add: poly_evaluate_def evaluate_loop_0)

lemma coefficients_multiply_power:
  "coefficients (multiply_power n p) = replicate n 0 @ coefficients p" "curve (multiply_power n p) = curve p"
  by (induction n p rule: multiply_power.induct) (simp_all add: replicate_append_same flip: replicate_Suc)

text \<open>Adding multiples by positive powers does not touch the constant coefficient.\<close>

lemma multiply_loop_head:
  assumes "coefficients r = h # t" and "0 \<le> h" and "h < Modulus (curve r)" and "0 < i"
  shows "\<exists>t'. coefficients (multiply_loop Modulus p i cs r) = h # t' \<and> curve (multiply_loop Modulus p i cs r) = curve r"
  using assms
proof (induction cs arbitrary: i r t)
  case (Cons c cs)
  obtain u where u: "coefficients (multiply_power i (multiplyBigNum Modulus c p)) = 0 # u"
    using Cons.prems(4) by (cases i) (simp_all add: coefficients_multiply_power del: multiply_power.simps)
  show ?case
    using Cons.IH [of "addBigNumPolynomial Modulus r (multiply_power i (multiplyBigNum Modulus c p))" _ "Suc i"] Cons.prems u
    by (simp add: addBigNumPolynomial_def)
qed simp

lemma BNPoly_multiply_curve: "curve (BNPoly_multiply Modulus r p q) = curve r"
proof -
  have "curve (multiply_loop Modulus p i cs r) = curve r" for i cs r
    by (induction cs arbitrary: i r) (simp_all add: addBigNumPolynomial_def)
  then show ?thesis by (simp add: BNPoly_multiply_def poly_zero_def)
qed

lemma BNPoly_multiply_head:
  assumes "coefficients r \<noteq> []" and "coefficients p = a # as" and "coefficients q = b # bs"
    and "0 \<le> a" and "0 \<le> b" and "0 < Modulus (curve r)" and "curve p = curve r"
  shows "\<exists>t. coefficients (BNPoly_multiply Modulus r p q) = (a * b mod Modulus (curve r)) # t
     \<and> curve (BNPoly_multiply Modulus r p q) = curve r"
proof -
  obtain h t where "coefficients r = h # t" using assms(1) by (cases "coefficients r") auto
  then have "coefficients (addBigNumPolynomial Modulus (poly_zero r) (multiply_power 0 (multiplyBigNum Modulus b p))) =
      (a * b mod Modulus (curve r)) # add_loop (Modulus (curve r)) (map (\<lambda>_. 0) t) (map (\<lambda>c. bn_mod (b * c) (Modulus (curve r))) as)"
    using assms by (simp add: addBigNumPolynomial_def poly_zero_def multiplyBigNum_def mult.commute)
  then show ?thesis
    using multiply_loop_head [of "addBigNumPolynomial Modulus (poly_zero r) (multiply_power 0 (multiplyBigNum Modulus b p))"
        "a * b mod Modulus (curve r)" _ Modulus "Suc 0" p bs] assms
    by (simp add: BNPoly_multiply_def addBigNumPolynomial_def poly_zero_def)
qed

text \<open>The factor that one \<open>k\<close> contributes, and the product of them.\<close>

definition lagrange_factor :: "(int \<Rightarrow> int \<Rightarrow> int) \<Rightarrow> int \<Rightarrow> int \<Rightarrow> int \<Rightarrow> int" where
  "lagrange_factor minv m vj vk = - vk * minv (bn_mod (vj - vk) m) m"

lemma lagrange_step_mod:
  assumes "0 < m"
  shows "i * ((m - 1) * v mod m) mod m = - v * i mod (m :: int)"
proof -
  have "i * ((m - 1) * v) - - v * i = m * (i * v)" by (simp add: algebra_simps)
  then have "i * ((m - 1) * v) mod m = - v * i mod m" by (metis dvd_triv_left mod_eq_dvd_iff)
  then show ?thesis by (simp add: mod_mult_right_eq)
qed

text \<open>One turn of the loop for \<open>k \<noteq> j\<close>: the constant coefficient is multiplied by the factor.\<close>

lemma lagrange_turn:
  assumes "0 < Modulus c" and "0 \<le> v" and "0 \<le> i" and "coefficients r = h # t" and "0 \<le> h" and "curve r = c"
    and "coefficients q \<noteq> []" and "curve q = c"
    and "f = multiplyBigNum Modulus i \<lparr>curve = c, coefficients = [bn_mod ((Modulus c - 1) * v) (Modulus c), 1]\<rparr>"
  shows "\<exists>h' t'. coefficients (BNPoly_multiply Modulus q r f) = h' # t' \<and> 0 \<le> h'
     \<and> h' mod Modulus c = h * (- v * i) mod Modulus c"
proof -
  let ?m = "Modulus c"
  have f: "\<exists>bs. coefficients f = (i * ((?m - 1) * v mod ?m) mod ?m) # bs"
    using assms by (simp add: multiplyBigNum_def)
  then obtain bs where "coefficients f = (- v * i mod ?m) # bs" using lagrange_step_mod [OF assms(1)] by metis
  then obtain u where "coefficients (BNPoly_multiply Modulus q r f) = (h * (- v * i mod ?m) mod ?m) # u"
    using BNPoly_multiply_head [of q r h t f "- v * i mod ?m" bs Modulus] assms by auto
  then show ?thesis using assms(1) by (simp add: mod_mult_right_eq)
qed

lemma lagrange_loop_head:
  assumes "0 < Modulus c" and "\<forall>v \<in> set vs. 0 \<le> v" and "\<forall>d. 0 \<le> minv d (Modulus c)"
    and "coefficients r = h # t" and "0 \<le> h" and "curve r = c" and "coefficients q \<noteq> []" and "curve q = c"
  shows "\<exists>h' t'. coefficients (lagrange_loop Modulus minv c j vj k vs r q) = h' # t' \<and> 0 \<le> h'
     \<and> curve (lagrange_loop Modulus minv c j vj k vs r q) = c
     \<and> h' mod Modulus c = h * (\<Prod>i<length vs. if k + i = j then 1 else lagrange_factor minv (Modulus c) vj (vs ! i)) mod Modulus c"
  using assms
proof (induction vs arbitrary: k r h t q)
  case (Cons v vs)
  let ?m = "Modulus c"
  define rest where "rest = (\<Prod>i<length vs. if Suc k + i = j then 1 else lagrange_factor minv ?m vj (vs ! i))"
  have split: "(\<Prod>i<length (v # vs). if k + i = j then 1 else lagrange_factor minv ?m vj ((v # vs) ! i)) =
      (if k = j then 1 else lagrange_factor minv ?m vj v) * rest"
    by (simp add: rest_def prod.lessThan_Suc_shift del: prod.lessThan_Suc cong: if_cong)
  show ?case
  proof (cases "j = k")
    case True
    then show ?thesis using Cons.IH [of r h t q "Suc k"] Cons.prems split rest_def by simp
  next
    case False
    define i where "i = minv (bn_mod (vj - v) ?m) ?m"
    define f where "f = multiplyBigNum Modulus i \<lparr>curve = c, coefficients = [bn_mod ((?m - 1) * v) ?m, 1]\<rparr>"
    define b where "b = BNPoly_multiply Modulus q r f"
    obtain h' t' where h': "coefficients b = h' # t'" "0 \<le> h'" "h' mod ?m = h * (- v * i) mod ?m"
      using lagrange_turn [of Modulus c v i r h t q f] Cons.prems unfolding b_def f_def i_def by auto
    have "h' * rest mod ?m = h * (lagrange_factor minv ?m vj v * rest) mod ?m"
      using h'(3) by (metis (no_types, lifting) i_def lagrange_factor_def mod_mult_left_eq mult.assoc)
    moreover have "lagrange_loop Modulus minv c j vj k (v # vs) r q =
        lagrange_loop Modulus minv c j vj (Suc k) vs (r\<lparr>coefficients := coefficients b\<rparr>) (b\<lparr>coefficients := coefficients r\<rparr>)"
      using False by (simp add: Let_def Poly_swap_def b_def f_def i_def)
    moreover have "curve b = c"
      using BNPoly_multiply_curve [of Modulus q r f] Cons.prems by (simp add: b_def)
    ultimately show ?thesis
      using Cons.IH [of "r\<lparr>coefficients := coefficients b\<rparr>" h' t' "b\<lparr>coefficients := coefficients r\<rparr>" "Suc k"]
        Cons.prems h' False split rest_def by simp
  qed
qed simp


section \<open>Interpolation modulo a prime\<close>

text \<open>
  What \<^verbatim>\<open>BN_mod_inverse\<close> documents, for a prime modulus: a number that the modulus does not divide has an
  inverse, which is returned reduced.
\<close>

definition inverse_law :: "(int \<Rightarrow> int \<Rightarrow> int) \<Rightarrow> int \<Rightarrow> bool" where
  "inverse_law minv m \<longleftrightarrow> 1 < m \<and> (\<forall>d. 0 \<le> minv d m) \<and> (\<forall>d. \<not> m dvd d \<longrightarrow> (d * minv d m) mod m = 1)"

lemma inverse_law_no_zero_divisors:
  assumes "inverse_law minv m" and "m dvd a * b" and "\<not> m dvd a"
  shows "m dvd b"
proof -
  have "(a * minv a m * b) mod m = b mod m"
    using assms by (metis inverse_law_def mod_mult_left_eq mult_1)
  moreover have "m dvd a * minv a m * b" using dvd_mult2 [OF assms(2), of "minv a m"] by (simp add: ac_simps)
  ultimately show ?thesis by (simp add: dvd_eq_mod_eq_0)
qed

lemma peval_factor:
  "\<exists>qs. length qs = length cs - 1 \<and> (\<forall>x. peval cs x = peval cs a + (x - a) * peval qs x)"
proof (induction cs)
  case (Cons c cs)
  then obtain qs where qs: "length qs = length cs - 1" "\<forall>x. peval cs x = peval cs a + (x - a) * peval qs x" by blast
  show ?case
  proof (cases "cs = []")
    case False
    have *: "peval (c # cs) x = peval (c # cs) a + (x - a) * peval (peval cs a # qs) x" for x
    proof -
      have "peval (c # cs) x = c + x * (peval cs a + (x - a) * peval qs x)"
        by (simp only: peval.simps qs(2) [rule_format, of x])
      then show ?thesis by (simp only: peval.simps) (simp add: algebra_simps)
    qed
    have "length (peval cs a # qs) = length (c # cs) - 1" using qs(1) False by (simp add: Suc_leI)
    then show ?thesis using * by blast
  qed simp
qed simp

text \<open>A polynomial with as many roots as coefficients vanishes everywhere.\<close>

lemma peval_roots:
  assumes "inverse_law minv m" and "length cs \<le> length xs" and "distinct (map (\<lambda>x. x mod m) xs)"
    and "\<forall>x \<in> set xs. m dvd peval cs x"
  shows "m dvd peval cs y"
  using assms(2-)
proof (induction xs arbitrary: cs)
  case (Cons a xs)
  obtain qs where len: "length qs = length cs - 1" and qs: "\<And>x. peval cs x = peval cs a + (x - a) * peval qs x"
    using peval_factor [of cs a] by blast
  have "m dvd peval qs x" if "x \<in> set xs" for x
  proof -
    have "m dvd (x - a) * peval qs x" using qs [of x] Cons.prems(3) that by (metis dvd_add_right_iff list.set_intros)
    moreover have "\<not> m dvd x - a" using Cons.prems(2) that by (auto simp: image_iff simp flip: mod_eq_dvd_iff)
    ultimately show ?thesis using inverse_law_no_zero_divisors [OF assms(1)] by blast
  qed
  then have "m dvd peval qs y" using Cons.IH [of qs] Cons.prems len by simp
  then show ?case using qs [of y] Cons.prems(3) by simp
qed simp

definition poly_like :: "nat \<Rightarrow> (int \<Rightarrow> int) \<Rightarrow> bool" where
  "poly_like n f \<longleftrightarrow> (\<exists>cs. length cs \<le> n \<and> (\<forall>x. f x = peval cs x))"

fun coeff_add :: "int list \<Rightarrow> int list \<Rightarrow> int list" where
  "coeff_add [] bs = bs"
| "coeff_add as [] = as"
| "coeff_add (a # as) (b # bs) = (a + b) # coeff_add as bs"

lemma peval_coeff_add: "peval (coeff_add as bs) x = peval as x + peval bs x" "length (coeff_add as bs) = max (length as) (length bs)"
  by (induction as bs rule: coeff_add.induct) (simp_all add: algebra_simps)

lemma peval_scale: "peval (map ((*) k) cs) x = k * peval cs x"
  by (induction cs) (simp_all add: algebra_simps)

lemma poly_like_add: "poly_like n f \<Longrightarrow> poly_like n g \<Longrightarrow> poly_like n (\<lambda>x. f x + g x)"
  unfolding poly_like_def by (metis (no_types, lifting) peval_coeff_add max.boundedI)

lemma poly_like_scale: "poly_like n f \<Longrightarrow> poly_like n (\<lambda>x. k * f x)"
  unfolding poly_like_def by (metis (no_types, lifting) peval_scale length_map)

lemma poly_like_linear: "poly_like n f \<Longrightarrow> poly_like (Suc n) (\<lambda>x. f x * (x - a))"
proof -
  assume "poly_like n f"
  then obtain cs where cs: "length cs \<le> n" "\<forall>x. f x = peval cs x" by (auto simp: poly_like_def)
  have "f x * (x - a) = peval (coeff_add (0 # cs) (map ((*) (- a)) cs)) x" for x
    by (simp add: peval_coeff_add peval_scale cs(2) algebra_simps)
  then show ?thesis using cs(1) unfolding poly_like_def
    by (intro exI [of _ "coeff_add (0 # cs) (map ((*) (- a)) cs)"]) (simp add: peval_coeff_add)
qed

lemma poly_like_const: "poly_like 1 (\<lambda>x. c)"
  unfolding poly_like_def by (intro exI [of _ "[c]"]) simp

lemma poly_like_peval: "length cs \<le> n \<Longrightarrow> poly_like n (peval cs)"
  unfolding poly_like_def by blast

lemma poly_like_mono: "poly_like n f \<Longrightarrow> n \<le> k \<Longrightarrow> poly_like k f"
  unfolding poly_like_def by (meson le_trans)

lemma poly_like_sum: "(\<forall>j < (K :: nat). poly_like n (g j)) \<Longrightarrow> poly_like n (\<lambda>x. \<Sum>j<K. g j x)"
proof (induction K)
  case 0
  show ?case unfolding poly_like_def by (intro exI [of _ "[]"]) simp
qed (simp add: poly_like_add)


definition basis_factor :: "(int \<Rightarrow> int \<Rightarrow> int) \<Rightarrow> int \<Rightarrow> int list \<Rightarrow> nat \<Rightarrow> int \<Rightarrow> nat \<Rightarrow> int" where
  "basis_factor minv m xs j x i =
     (if i = j then 1 else (x - xs ! i) * minv (bn_mod (xs ! j - xs ! i) m) m)"

lemma poly_like_basis:
  "poly_like (Suc k - (if j < k then 1 else 0)) (\<lambda>x. \<Prod>i<k. basis_factor minv m xs j x i)"
proof (induction k)
  case 0
  show ?case using poly_like_const [of 1] by simp
next
  case (Suc k)
  let ?P = "\<lambda>x. \<Prod>i<k. basis_factor minv m xs j x i"
  show ?case
  proof (cases "k = j")
    case True
    then show ?thesis using Suc by (simp add: basis_factor_def [of _ _ _ j _ j])
  next
    case False
    let ?c = "minv (bn_mod (xs ! j - xs ! k) m) m"
    have "(\<lambda>x. \<Prod>i<Suc k. basis_factor minv m xs j x i) = (\<lambda>x. ?c * (?P x * (x - xs ! k)))"
      using False by (simp add: basis_factor_def [of _ _ _ j _ k] fun_eq_iff)
    then show ?thesis
      using False poly_like_scale [OF poly_like_linear [OF Suc]] by (auto simp: Suc_diff_le split: if_splits)
  qed
qed

lemma basis_at_other: "i < n \<Longrightarrow> i \<noteq> j \<Longrightarrow> (\<Prod>k<n. basis_factor minv m xs j (xs ! i) k) = 0"
  by (auto simp: basis_factor_def intro: prod_zero)

lemma basis_at_own:
  assumes "inverse_law minv m" and "distinct (map (\<lambda>x. x mod m) xs)" and "j < length xs"
  shows "(\<Prod>k<length xs. basis_factor minv m xs j (xs ! j) k) mod m = 1"
proof -
  have m: "0 < m" "1 < m" using assms(1) by (simp_all add: inverse_law_def)
  have one: "basis_factor minv m xs j (xs ! j) k mod m = 1" if "k < length xs" for k
  proof (cases "k = j")
    case False
    let ?d = "xs ! j - xs ! k"
    have "\<not> m dvd ?d"
      using assms(2,3) False that by (auto simp: distinct_conv_nth simp flip: mod_eq_dvd_iff)
    then have "(bn_mod ?d m * minv (bn_mod ?d m) m) mod m = 1"
      using assms(1) m by (simp add: inverse_law_def bn_mod_dvd)
    moreover have "(?d * minv (bn_mod ?d m) m) mod m = (bn_mod ?d m * minv (bn_mod ?d m) m) mod m"
      by (rule mod_mult_cong) (simp_all add: bn_mod_mod m)
    ultimately show ?thesis using False by (simp add: basis_factor_def)
  qed (use m in \<open>simp add: basis_factor_def\<close>)
  have "(\<Prod>k<length xs. basis_factor minv m xs j (xs ! j) k) mod m =
      (\<Prod>k<length xs. basis_factor minv m xs j (xs ! j) k mod m) mod m" by (simp add: mod_prod_eq)
  also have "\<dots> = (\<Prod>k<length xs. 1) mod m" using one by (metis (no_types, lifting) lessThan_iff prod.cong)
  finally show ?thesis using m by simp
qed

text \<open>The value at zero of the \<open>j\<close>-th Lagrange polynomial, and the interpolation at zero modulo a prime.\<close>

definition lagrange_coefficient :: "(int \<Rightarrow> int \<Rightarrow> int) \<Rightarrow> int \<Rightarrow> int list \<Rightarrow> nat \<Rightarrow> int" where
  "lagrange_coefficient minv m xs j = (\<Prod>i<length xs. if i = j then 1 else lagrange_factor minv m (xs ! j) (xs ! i))"

lemma lagrange_at_zero:
  assumes law: "inverse_law minv m" and dist: "distinct (map (\<lambda>x. x mod m) xs)" and len: "length cs \<le> length xs"
  shows "(\<Sum>j<length xs. peval cs (xs ! j) * lagrange_coefficient minv m xs j) mod m = peval cs 0 mod m"
proof -
  let ?n = "length xs"
  define g where "g x = (\<Sum>j<?n. peval cs (xs ! j) * (\<Prod>i<?n. basis_factor minv m xs j x i))" for x
  have basis: "poly_like ?n (\<lambda>x. \<Prod>i<?n. basis_factor minv m xs j x i)" if "j < ?n" for j
    using poly_like_basis [of ?n j minv m xs] that by simp
  have "poly_like ?n g" unfolding g_def by (intro poly_like_sum allI impI poly_like_scale basis)
  then have "poly_like ?n (\<lambda>x. peval cs x + - 1 * g x)"
    using poly_like_add [OF poly_like_peval [OF len] poly_like_scale [of _ g "- 1"]] by blast
  then obtain ds where ds: "length ds \<le> ?n" "\<And>x. peval cs x - g x = peval ds x" by (auto simp: poly_like_def)
  have "m dvd peval ds x" if x: "x \<in> set xs" for x
  proof -
    obtain i where i: "i < ?n" "x = xs ! i" using x by (auto simp: in_set_conv_nth)
    have "g x = (\<Sum>j<?n. if j = i then peval cs x * (\<Prod>k<?n. basis_factor minv m xs i x k) else 0)"
      unfolding g_def using i basis_at_other [OF i(1)] by (intro sum.cong) auto
    then have "g x mod m = peval cs x mod m"
      using i basis_at_own [OF law dist i(1)] by (simp add: sum.delta) (metis mod_mult_right_eq mult.right_neutral)
    then show ?thesis using ds(2) [of x] by (metis mod_eq_dvd_iff)
  qed
  then have "m dvd peval cs 0 - g 0" using peval_roots [OF law ds(1) dist] ds(2) by simp
  then have "peval cs 0 mod m = g 0 mod m" by (simp add: mod_eq_dvd_iff)
  then show ?thesis by (simp add: g_def lagrange_coefficient_def basis_factor_def lagrange_factor_def cong: if_cong)
qed

text \<open>What the code computes as the Lagrange coefficient at zero.\<close>

lemma LagrangePoly_at_zero:
  assumes "inverse_law minv (Modulus c)" and "\<forall>v \<in> set xs. 0 \<le> v" and "j < length xs"
  shows "\<exists>L. LagrangePoly Modulus minv c j xs = Some L \<and> poly_evaluate Modulus L 0 =
     lagrange_coefficient minv (Modulus c) xs j mod Modulus c"
proof -
  let ?L = "lagrange_loop Modulus minv c j (xs ! j) 0 xs \<lparr>curve = c, coefficients = [1]\<rparr> (BigNumPolynomial_zeros c 2)"
  have m: "0 < Modulus c" "\<forall>d. 0 \<le> minv d (Modulus c)" using assms(1) by (simp_all add: inverse_law_def)
  define P where "P = lagrange_coefficient minv (Modulus c) xs j"
  have "\<exists>h t. coefficients ?L = h # t \<and> 0 \<le> h \<and> curve ?L = c \<and> h mod Modulus c = 1 * P mod Modulus c"
    using lagrange_loop_head [of Modulus c xs minv "\<lparr>curve = c, coefficients = [1]\<rparr>" 1 "[]"
        "BigNumPolynomial_zeros c 2" j "xs ! j" 0, unfolded add_0, folded lagrange_coefficient_def, folded P_def] m assms(2)
    by (simp add: BigNumPolynomial_zeros_def)
  then obtain h t where "coefficients ?L = h # t" "0 \<le> h" "curve ?L = c" "h mod Modulus c = P mod Modulus c" by auto
  then show ?thesis using assms(3) m poly_evaluate_0 [of ?L h t Modulus] by (simp add: LagrangePoly_def P_def)
qed

end
