(* ===== verification/Transactions.thy ===== *)
theory Transactions
  imports Credits Polynomial
begin

text \<open>
  Transactions: \<^verbatim>\<open>src/src/credits/{UnsignedTransaction,SignedTransaction}.cpp\<close>, their headers,
  the signing functions of \<^verbatim>\<open>src/src/credits/creditsign.h\<close>, and the signatures of
  \<^verbatim>\<open>src/src/crypto/signature.h\<close>.

  Parameters stand for what these files call and do not define: \<open>ser\<close> is the stream
  serialisation of the inputs, outputs and keys; \<open>H256\<close> is the double SHA-256 \<^verbatim>\<open>Hash\<close>; the
  curve is given by \<open>pgen\<close> (\<^verbatim>\<open>Point(SECP256K1, k)\<close>), \<open>padd\<close>, \<open>pmul\<close> and its \<open>modulus\<close>;
  \<open>coord\<close> gives the first coordinate of a point. Amounts are
  64-bit words and wrap as \<^verbatim>\<open>uint64_t\<close> does; big numbers are integers.
\<close>

section \<open>UnsignedTransaction\<close>

record 'p unsigned_transaction =
  inputs :: "'p credit_in_batch list"
  outputs :: "'p credit list"
  pubkeys :: "'p list"
  tx_up_to_date :: bool
  tx_hash :: uint256

type_synonym 'p tx_serialiser = "'p credit_in_batch list \<Rightarrow> 'p credit list \<Rightarrow> 'p list \<Rightarrow> vch_t"

definition UnsignedTransaction_new :: "'p unsigned_transaction" where
  "UnsignedTransaction_new =
     \<lparr>inputs = [], outputs = [], pubkeys = [], tx_up_to_date = False, tx_hash = 0\<rparr>"

definition AddInput :: "'p credit_in_batch \<Rightarrow> 'p unsigned_transaction \<Rightarrow> 'p unsigned_transaction" where
  "AddInput batch_credit tx = tx\<lparr>inputs := inputs tx @ [batch_credit], tx_up_to_date := False\<rparr>"

definition AddOutput :: "'p credit \<Rightarrow> 'p unsigned_transaction \<Rightarrow> 'p unsigned_transaction \<times> bool" where
  "AddOutput c tx =
     (if VectorContainsEntry (outputs tx) c then (tx, False)
      else (tx\<lparr>outputs := outputs tx @ [c], tx_up_to_date := False\<rparr>, True))"

definition UnsignedTransaction_GetHash :: "(vch_t \<Rightarrow> uint256) \<Rightarrow> 'p tx_serialiser \<Rightarrow> 'p unsigned_transaction
    \<Rightarrow> uint256 \<times> 'p unsigned_transaction" where
  "UnsignedTransaction_GetHash H256 ser tx =
     (if tx_up_to_date tx then (tx_hash tx, tx)
      else (let h = H256 (ser (inputs tx) (outputs tx) (pubkeys tx))
            in (h, tx\<lparr>tx_hash := h, tx_up_to_date := True\<rparr>)))"

definition UnsignedTransaction_is_empty :: "'p unsigned_transaction \<Rightarrow> bool" where
  "UnsignedTransaction_is_empty tx \<longleftrightarrow> length (outputs tx) = 0"

section \<open>Keys and signatures of a transaction\<close>

definition uint256_bytes :: "uint256 \<Rightarrow> vch_t" where
  "uint256_bytes h = le_bytes 32 (unat h)"

record hash_signature =
  sig_signature :: uint256
  sig_exhibit :: uint256

definition HashUint256 :: "(vch_t \<Rightarrow> uint256) \<Rightarrow> uint256 \<Rightarrow> uint256" where
  "HashUint256 H256 n = H256 (uint256_bytes n)"

text \<open>The magnitude of a big number, as far as it fits\<close>
definition getuint256 :: "int \<Rightarrow> uint256" where
  "getuint256 n = of_int \<bar>n\<bar>"

text \<open>
  The curve is a parameter: \<open>pgen n\<close> is \<^verbatim>\<open>Point(SECP256K1, n)\<close>, \<open>padd\<close> and \<open>pmul\<close> are the operators of points, \<open>modulus\<close> is the order of
  the group and \<open>coord r\<close> the first coordinate that \<^verbatim>\<open>GetCoordinates\<close> gives.
\<close>
definition GetExhibit :: "(vch_t \<Rightarrow> uint256) \<Rightarrow> ('p \<Rightarrow> int) \<Rightarrow> 'p \<Rightarrow> uint256 \<Rightarrow> uint256" where
  "GetExhibit H256 coord r h =
     (let result = HashUint256 H256 (getuint256 (coord r) + HashUint256 H256 h) in result AND (push_bit 252 1 - 1))"

definition SignHashWithKey :: "(vch_t \<Rightarrow> uint256) \<Rightarrow> (int \<Rightarrow> 'p) \<Rightarrow> int \<Rightarrow> ('p \<Rightarrow> int) \<Rightarrow> uint256 \<Rightarrow> int \<Rightarrow> hash_signature" where
  "SignHashWithKey H256 pgen modulus coord h privkey =
     (let k = uint (GetExhibit H256 coord (pgen (uint h)) (getuint256 privkey));
          r = pgen k;
          exhibit = uint (GetExhibit H256 coord r h);
          signature = bn_mod (k - privkey * exhibit) modulus;
          signature = (if signature < 0 then signature + modulus else signature)
      in \<lparr>sig_signature = getuint256 signature, sig_exhibit = getuint256 exhibit\<rparr>)"

definition VerifySignatureOfHash :: "(vch_t \<Rightarrow> uint256) \<Rightarrow> (int \<Rightarrow> 'p) \<Rightarrow> ('p \<Rightarrow> 'p \<Rightarrow> 'p) \<Rightarrow> ('p \<Rightarrow> int \<Rightarrow> 'p) \<Rightarrow> ('p \<Rightarrow> int)
    \<Rightarrow> hash_signature \<Rightarrow> uint256 \<Rightarrow> 'p \<Rightarrow> bool" where
  "VerifySignatureOfHash H256 pgen padd pmul coord sig h pubkey =
     (let r = padd (pgen (uint (sig_signature sig))) (pmul pubkey (uint (sig_exhibit sig)))
      in sig_exhibit sig = GetExhibit H256 coord r h)"

fun verification_key_loop :: "(vch_t \<Rightarrow> uint256) \<Rightarrow> ('p \<Rightarrow> 'p \<Rightarrow> 'p) \<Rightarrow> ('p \<Rightarrow> int \<Rightarrow> 'p) \<Rightarrow> int
    \<Rightarrow> 'p credit_in_batch list \<Rightarrow> uint256 \<Rightarrow> 'p \<Rightarrow> 'p" where
  "verification_key_loop H256 padd pmul modulus [] h key = key"
| "verification_key_loop H256 padd pmul modulus (c # cs) h key =
     (let h = H256 (uint256_bytes h)
      in verification_key_loop H256 padd pmul modulus cs h
           (padd key (pmul (public_key c) (bn_mod (uint h) modulus))))"

definition GetTransactionVerificationKey :: "(vch_t \<Rightarrow> uint256) \<Rightarrow> 'p tx_serialiser \<Rightarrow> (int \<Rightarrow> 'p)
    \<Rightarrow> ('p \<Rightarrow> 'p \<Rightarrow> 'p) \<Rightarrow> ('p \<Rightarrow> int \<Rightarrow> 'p) \<Rightarrow> int \<Rightarrow> 'p unsigned_transaction \<Rightarrow> 'p" where
  "GetTransactionVerificationKey H256 ser pgen padd pmul modulus tx =
     verification_key_loop H256 padd pmul modulus (inputs tx)
       (fst (UnsignedTransaction_GetHash H256 ser tx)) (pgen 0)"

fun signing_key_loop :: "(vch_t \<Rightarrow> uint256) \<Rightarrow> int \<Rightarrow> ('p \<Rightarrow> int) \<Rightarrow> 'p credit_in_batch list \<Rightarrow> uint256 \<Rightarrow> int \<Rightarrow> int" where
  "signing_key_loop H256 modulus keydata [] h key = key"
| "signing_key_loop H256 modulus keydata (c # cs) h key =
     (let privkey = keydata (public_key c);
          h = H256 (uint256_bytes h)
      in signing_key_loop H256 modulus keydata cs h (bn_mod (key + bn_mod (uint h) modulus * privkey) modulus))"

definition SignCreditTx :: "(vch_t \<Rightarrow> uint256) \<Rightarrow> (int \<Rightarrow> 'p) \<Rightarrow> int \<Rightarrow> ('p \<Rightarrow> int) \<Rightarrow> int \<Rightarrow> int \<Rightarrow> hash_signature" where
  "SignCreditTx H256 pgen modulus coord privkey h = SignHashWithKey H256 pgen modulus coord (getuint256 h) privkey"

text \<open>The key store keeps the private key of a public key; the transaction key is stored too.\<close>

definition SignTx :: "(vch_t \<Rightarrow> uint256) \<Rightarrow> 'p tx_serialiser \<Rightarrow> (int \<Rightarrow> 'p) \<Rightarrow> int \<Rightarrow> ('p \<Rightarrow> int)
    \<Rightarrow> 'p unsigned_transaction \<Rightarrow> ('p \<Rightarrow> int) \<Rightarrow> hash_signature \<times> ('p \<Rightarrow> int)" where
  "SignTx H256 ser pgen modulus coord tx keydata =
     (let h = fst (UnsignedTransaction_GetHash H256 ser tx);
          signing_key = signing_key_loop H256 modulus keydata (inputs tx) h 0;
          pubkey = pgen signing_key
      in (SignCreditTx H256 pgen modulus coord signing_key (uint h), keydata(pubkey := signing_key)))"

section \<open>SignedTransaction\<close>

record ('p, 's) signed_transaction =
  rawtx :: "'p unsigned_transaction"
  signature :: 's

definition SignTransaction :: "(vch_t \<Rightarrow> uint256) \<Rightarrow> 'p tx_serialiser \<Rightarrow> (int \<Rightarrow> 'p) \<Rightarrow> int \<Rightarrow> ('p \<Rightarrow> int)
    \<Rightarrow> 'p unsigned_transaction \<Rightarrow> ('p \<Rightarrow> int) \<Rightarrow> ('p, hash_signature) signed_transaction \<times> ('p \<Rightarrow> int)" where
  "SignTransaction H256 ser pgen modulus coord tx keydata =
     (let (sig, keydata) = SignTx H256 ser pgen modulus coord tx keydata
      in (\<lparr>rawtx = tx, signature = sig\<rparr>, keydata))"

definition VerifyCreditTransferSignature :: "(vch_t \<Rightarrow> uint256) \<Rightarrow> 'p tx_serialiser \<Rightarrow> (int \<Rightarrow> 'p) \<Rightarrow> ('p \<Rightarrow> 'p \<Rightarrow> 'p)
    \<Rightarrow> ('p \<Rightarrow> int \<Rightarrow> 'p) \<Rightarrow> int \<Rightarrow> ('p \<Rightarrow> int) \<Rightarrow> 'p unsigned_transaction \<Rightarrow> hash_signature \<Rightarrow> bool" where
  "VerifyCreditTransferSignature H256 ser pgen padd pmul modulus coord tx sig =
     (let verification_key = GetTransactionVerificationKey H256 ser pgen padd pmul modulus tx;
          h = fst (UnsignedTransaction_GetHash H256 ser tx)
      in VerifySignatureOfHash H256 pgen padd pmul coord sig h verification_key)"

definition VerifyTransactionSignature :: "(vch_t \<Rightarrow> uint256) \<Rightarrow> 'p tx_serialiser \<Rightarrow> (int \<Rightarrow> 'p) \<Rightarrow> ('p \<Rightarrow> 'p \<Rightarrow> 'p)
    \<Rightarrow> ('p \<Rightarrow> int \<Rightarrow> 'p) \<Rightarrow> int \<Rightarrow> ('p \<Rightarrow> int) \<Rightarrow> ('p, hash_signature) signed_transaction \<Rightarrow> bool" where
  "VerifyTransactionSignature H256 ser pgen padd pmul modulus coord tx =
     VerifyCreditTransferSignature H256 ser pgen padd pmul modulus coord (rawtx tx) (signature tx)"

definition TotalInputAmount :: "('p, 's) signed_transaction \<Rightarrow> u64" where
  "TotalInputAmount tx = fold (\<lambda>c total. total + amount c) (inputs (rawtx tx)) 0"

definition TotalOutputAmount :: "('p, 's) signed_transaction \<Rightarrow> u64" where
  "TotalOutputAmount tx = fold (\<lambda>c total. total + amount c) (outputs (rawtx tx)) 0"

text \<open>The difference is taken in \<^verbatim>\<open>int64_t\<close>; \<open>None\<close> is its overflow, which is undefined\<close>

definition IncludedFees :: "('p, 's) signed_transaction \<Rightarrow> u64 option" where
  "IncludedFees tx =
     (let excess_input = sint (TotalInputAmount tx) - sint (TotalOutputAmount tx)
      in if excess_input < - (2 ^ 63) \<or> 2 ^ 63 \<le> excess_input then None
         else Some (if 0 < excess_input then of_int excess_input else 0))"

definition MIN_TRANSACTION_SIZE :: u64 where
  "MIN_TRANSACTION_SIZE = 100"

definition MAX_OUTPUTS_PER_TRANSACTION :: nat where
  "MAX_OUTPUTS_PER_TRANSACTION = 50"

text \<open>The loop over the inputs: \<open>None\<close> when a position comes twice, else the total.\<close>

fun validate_inputs :: "'p credit_in_batch list \<Rightarrow> u64 list \<Rightarrow> u64 \<Rightarrow> u64 option" where
  "validate_inputs [] input_positions total_in = Some total_in"
| "validate_inputs (c # cs) input_positions total_in =
     (if cb_position c \<in> set input_positions then None
      else validate_inputs cs (cb_position c # input_positions) (total_in + amount c))"

definition Validate :: "(('p, 's) signed_transaction \<Rightarrow> bool) \<Rightarrow> ('p, 's) signed_transaction \<Rightarrow> bool" where
  "Validate verify_signature tx =
     (if MAX_OUTPUTS_PER_TRANSACTION < length (outputs (rawtx tx)) then False
      else if \<not> verify_signature tx then False
      else (case validate_inputs (inputs (rawtx tx)) [] 0 of None \<Rightarrow> False
            | Some total_in \<Rightarrow>
                (let total_out = fold (\<lambda>c total. total + amount c) (outputs (rawtx tx)) 0
                 in MIN_TRANSACTION_SIZE < total_out \<and> total_out \<le> total_in)))"

definition InputPositions :: "('p, 's) signed_transaction \<Rightarrow> u64 set" where
  "InputPositions tx = fold (\<lambda>c positions. insert (cb_position c) positions) (inputs (rawtx tx)) {}"

text \<open>
  \<open>known h\<close> says that the credit data has the property "mined_credit" or "branch" for \<open>h\<close>.
  An input whose branch or diurn branch is empty is read out of range: \<open>None\<close>.
\<close>

fun missing_credits_loop :: "(vch_t \<Rightarrow> uint160) \<Rightarrow> (uint160 \<Rightarrow> bool) \<Rightarrow> 'p credit_in_batch list \<Rightarrow> uint160 list \<Rightarrow> uint160 list option" where
  "missing_credits_loop H known [] missing = Some missing"
| "missing_credits_loop H known (c # cs) missing =
     (if cb_branch c = [] \<or> cb_diurn_branch c = [] then None
      else (let batch_root = last (cb_branch c);
                credit_hash = SymmetricCombine H batch_root (cb_diurn_branch c ! 0)
            in missing_credits_loop H known cs
                 (if length (cb_diurn_branch c) = 1 \<and> \<not> known credit_hash
                  then missing @ [credit_hash] else missing)))"

definition GetMissingCredits :: "(vch_t \<Rightarrow> uint160) \<Rightarrow> (uint160 \<Rightarrow> bool) \<Rightarrow> ('p, 's) signed_transaction \<Rightarrow> uint160 list option" where
  "GetMissingCredits H known tx = missing_credits_loop H known (inputs (rawtx tx)) []"

section \<open>Sums of amounts\<close>

lemma sint_small_u64:
  assumes "unat (x :: u64) < 2 ^ 63"
  shows "sint x = int (unat x)"
proof -
  have "int (unat x) < 2 ^ 63" using assms by (metis of_nat_less_iff of_nat_numeral of_nat_power)
  moreover have "- (2 ^ 63) \<le> int (unat x)" by (rule order_trans [of _ 0]) simp_all
  moreover have "sint x = signed_take_bit 63 (int (unat x))" by (simp add: sint_uint)
  ultimately show ?thesis using signed_take_bit_int_eq_self by metis
qed

lemma sint_u64: "sint (x :: u64) = (if unat x < 2 ^ 63 then int (unat x) else int (unat x) - 2 ^ 64)"
proof (cases "unat x < 2 ^ 63")
  case False
  define m where "m = unat x"
  define n where "n = int m"
  have "m < 2 ^ 64" unfolding m_def by (rule order.strict_trans2 [OF unsigned_less]) simp
  then have "2 ^ 63 \<le> n" "n < 2 ^ 64" using False unfolding n_def m_def [symmetric] by simp_all
  then have "signed_take_bit 63 n = n - 2 ^ 64"
    by (simp add: signed_take_bit_eq_take_bit_shift take_bit_eq_mod mod_pos_geq)
  moreover have "sint x = signed_take_bit 63 n" by (simp add: n_def m_def sint_uint)
  ultimately have "sint x = int (unat x) - 2 ^ 64" by (simp only: n_def m_def)
  then show ?thesis using False by simp
qed (simp add: sint_small_u64)

definition amounts :: "('p, 'x) credit_scheme list \<Rightarrow> nat" where
  "amounts cs = sum_list (map (\<lambda>c. unat (amount c)) cs)"

lemma amounts_simps [simp]: "amounts [] = 0" "amounts (c # cs) = unat (amount c) + amounts cs"
  by (simp_all add: amounts_def)

lemma fold_amounts: "fold (\<lambda>c total. total + amount c) cs t = t + of_nat (amounts cs)"
  by (induction cs arbitrary: t) (auto simp: add.assoc)

lemma unat_fold_amounts:
  "unat (fold (\<lambda>c total. total + amount c) cs (0 :: u64)) = amounts cs mod 2 ^ 64"
  by (simp add: fold_amounts unat_of_nat)

lemma validate_inputs_eq:
  "validate_inputs cs seen t =
     (if distinct (map cb_position cs) \<and> set (map cb_position cs) \<inter> set seen = {}
      then Some (t + of_nat (amounts cs)) else None)"
  by (induction cs arbitrary: seen t) (auto simp: add.assoc)

lemma Validate_words:
  "Validate verify_signature tx \<longleftrightarrow>
     verify_signature tx \<and> length (outputs (rawtx tx)) \<le> 50
     \<and> distinct (map cb_position (inputs (rawtx tx)))
     \<and> MIN_TRANSACTION_SIZE < of_nat (amounts (outputs (rawtx tx)))
     \<and> (of_nat (amounts (outputs (rawtx tx))) :: u64) \<le> of_nat (amounts (inputs (rawtx tx)))"
  unfolding Validate_def validate_inputs_eq fold_amounts MAX_OUTPUTS_PER_TRANSACTION_def add_0 Let_def
  by (cases "length (outputs (rawtx tx)) \<le> 50"; cases "distinct (map cb_position (inputs (rawtx tx)))") simp_all

section \<open>Keys add up\<close>

text \<open>
  What the code relies on of the curve: multiples of the generator add and multiply as their
  factors do modulo the group order.
\<close>

definition generator_laws :: "(int \<Rightarrow> 'p) \<Rightarrow> ('p \<Rightarrow> 'p \<Rightarrow> 'p) \<Rightarrow> ('p \<Rightarrow> int \<Rightarrow> 'p) \<Rightarrow> int \<Rightarrow> bool" where
  "generator_laws pgen padd pmul modulus \<longleftrightarrow>
     (\<forall>a b. padd (pgen a) (pgen b) = pgen (a + b)) \<and> (\<forall>a k. pmul (pgen a) k = pgen (a * k))
     \<and> (\<forall>a. pgen (a mod modulus) = pgen a)"

lemma generator_bn_mod: "generator_laws pgen padd pmul modulus \<Longrightarrow> 0 < modulus \<Longrightarrow> pgen (bn_mod a modulus) = pgen a"
  using bn_mod_mod [of modulus a] unfolding generator_laws_def by metis

lemma verification_key_is_signing_key:
  assumes "generator_laws pgen padd pmul modulus" and "0 < modulus"
    and "\<And>c. c \<in> set cs \<Longrightarrow> pgen (keydata (public_key c)) = public_key c"
  shows "verification_key_loop H256 padd pmul modulus cs h (pgen k)
    = pgen (signing_key_loop H256 modulus keydata cs h k)"
  using assms(3)
proof (induction cs arbitrary: h k)
  case (Cons c cs)
  let ?h = "H256 (uint256_bytes h)" and ?x = "keydata (public_key c)"
  have "padd (pgen k) (pmul (pgen ?x) (bn_mod (uint ?h) modulus)) = pgen (k + bn_mod (uint ?h) modulus * ?x)"
    using assms(1) by (simp add: generator_laws_def mult.commute)
  also have "\<dots> = pgen (bn_mod (k + bn_mod (uint ?h) modulus * ?x) modulus)" by (simp only: generator_bn_mod [OF assms(1,2)])
  finally show ?case using Cons by (simp add: Let_def)
qed simp

lemma getuint256_uint: "getuint256 (uint h) = h"
  by (simp add: getuint256_def)

lemma uint_getuint256: "0 \<le> n \<Longrightarrow> n < 2 ^ 256 \<Longrightarrow> uint (getuint256 n) = n"
  by (simp add: getuint256_def uint_word_of_int)

text \<open>The verifier computes the point \<open>k\<close> from which the exhibit was made\<close>
lemma signed_hash_verifies:
  assumes laws: "generator_laws pgen padd pmul modulus" and m: "0 < modulus" "modulus \<le> 2 ^ 256"
  shows "VerifySignatureOfHash H256 pgen padd pmul coord (SignHashWithKey H256 pgen modulus coord h privkey) h (pgen privkey)"
proof -
  define k where "k = uint (GetExhibit H256 coord (pgen (uint h)) (getuint256 privkey))"
  define e where "e = GetExhibit H256 coord (pgen k) h"
  define s where "s = bn_mod (k - privkey * uint e) modulus"
  define s' where "s' = (if s < 0 then s + modulus else s)"
  have "- modulus < s \<and> s < modulus"
    using m(1) pos_mod_bound [OF m(1)] pos_mod_sign [OF m(1)] by (auto simp: s_def bn_mod_def intro: less_le_trans [of _ 0] le_less_trans [of _ 0])
  then have s': "0 \<le> s'" "s' < 2 ^ 256" using m by (auto simp: s'_def)
  have "s' mod modulus = (k - privkey * uint e) mod modulus" using m(1) by (simp add: s'_def s_def bn_mod_mod)
  then have "pgen s' = pgen (k - privkey * uint e)" using laws unfolding generator_laws_def by metis
  then have "padd (pgen s') (pmul (pgen privkey) (uint e)) = pgen k" using laws by (simp add: generator_laws_def)
  moreover have "SignHashWithKey H256 pgen modulus coord h privkey = \<lparr>sig_signature = getuint256 s', sig_exhibit = e\<rparr>"
    by (simp add: SignHashWithKey_def Let_def getuint256_uint s'_def flip: k_def e_def s_def)
  ultimately show ?thesis by (simp add: VerifySignatureOfHash_def uint_getuint256 [OF s'] e_def)
qed

section \<open>Sequences of operations on an unsigned transaction\<close>

datatype 'p tx_op = OpAddInput "'p credit_in_batch" | OpAddOutput "'p credit" | OpGetHash

fun tx_step :: "(vch_t \<Rightarrow> uint256) \<Rightarrow> 'p tx_serialiser \<Rightarrow> 'p tx_op \<Rightarrow> 'p unsigned_transaction \<Rightarrow> 'p unsigned_transaction" where
  "tx_step H256 ser (OpAddInput c) tx = AddInput c tx"
| "tx_step H256 ser (OpAddOutput c) tx = fst (AddOutput c tx)"
| "tx_step H256 ser OpGetHash tx = snd (UnsignedTransaction_GetHash H256 ser tx)"

definition tx_cache_ok :: "(vch_t \<Rightarrow> uint256) \<Rightarrow> 'p tx_serialiser \<Rightarrow> 'p unsigned_transaction \<Rightarrow> bool" where
  "tx_cache_ok H256 ser tx \<longleftrightarrow>
     (tx_up_to_date tx \<longrightarrow> tx_hash tx = H256 (ser (inputs tx) (outputs tx) (pubkeys tx))) \<and> distinct (outputs tx)"

lemma tx_cache_ok_step: "tx_cache_ok H256 ser tx \<Longrightarrow> tx_cache_ok H256 ser (tx_step H256 ser op tx)"
  by (cases op)
    (auto simp: tx_cache_ok_def AddInput_def AddOutput_def UnsignedTransaction_GetHash_def Let_def)

lemma tx_cache_ok_run: "tx_cache_ok H256 ser tx \<Longrightarrow> tx_cache_ok H256 ser (fold (tx_step H256 ser) ops tx)"
  by (induction ops arbitrary: tx) (auto intro: tx_cache_ok_step)

section \<open>Properties\<close>

text \<open>
  C23. What a valid transaction is. \<^verbatim>\<open>Validate\<close> accepts exactly the transactions with a verified
  signature, at most 50 outputs, no input position used twice, and totals, taken modulo
  \<open>2 ^ 64\<close>, with more than 100 going out and no more going out than coming in.
\<close>

theorem validate_exactly:
  "Validate verify_signature tx \<longleftrightarrow>
     verify_signature tx \<and> length (outputs (rawtx tx)) \<le> 50
     \<and> distinct (map cb_position (inputs (rawtx tx)))
     \<and> 100 < amounts (outputs (rawtx tx)) mod 2 ^ 64
     \<and> amounts (outputs (rawtx tx)) mod 2 ^ 64 \<le> amounts (inputs (rawtx tx)) mod 2 ^ 64"
proof -
  have min: "MIN_TRANSACTION_SIZE < (of_nat n :: u64) \<longleftrightarrow> 100 < n mod 2 ^ 64" for n
    by (simp add: word_less_nat_alt unat_of_nat MIN_TRANSACTION_SIZE_def)
  have le: "(of_nat m :: u64) \<le> of_nat n \<longleftrightarrow> m mod 2 ^ 64 \<le> n mod 2 ^ 64" for m n
    by (simp add: word_le_nat_alt unat_of_nat)
  show ?thesis unfolding Validate_words min le ..
qed

text \<open>
  C1. No value is created.  If the totals of a transaction's inputs and of its outputs are below \<open>2 ^ 64\<close>, then a transaction that passes
  \<^verbatim>\<open>Validate\<close> spends at least what it creates.  \<^verbatim>\<open>IncludedFees\<close>, which subtracts in \<^verbatim>\<open>int64_t\<close>, is the difference when the inputs are
  below \<open>2 ^ 63\<close> or the outputs are not; for inputs above and outputs below it is zero where the difference is at least \<open>2 ^ 63\<close>, and
  otherwise the subtraction overflows.
\<close>

theorem validate_conserves_value:
  fixes tx :: "('p, 's) signed_transaction"
  assumes "Validate verify_signature tx"
    and "amounts (inputs (rawtx tx)) < 2 ^ 64" and "amounts (outputs (rawtx tx)) < 2 ^ 64"
  defines "i \<equiv> amounts (inputs (rawtx tx))" and "e \<equiv> amounts (outputs (rawtx tx))"
  shows "e \<le> i \<and> IncludedFees tx = (if i < 2 ^ 63 \<or> 2 ^ 63 \<le> e then Some (of_nat (i - e)) else if 2 ^ 63 \<le> i - e then Some 0 else None)"
proof
  have b: "i < 2 ^ 64" "e < 2 ^ 64" using assms(2,3) by (simp_all add: i_def e_def)
  have "(of_nat e :: u64) \<le> of_nat i" using assms(1) unfolding Validate_words i_def e_def by blast
  then show le: "e \<le> i" using b by (simp add: word_le_nat_alt unat_of_nat)
  have tot: "TotalInputAmount tx = of_nat i" "TotalOutputAmount tx = of_nat e"
    by (simp_all add: TotalInputAmount_def TotalOutputAmount_def fold_amounts i_def e_def)
  have u: "unat (of_nat i :: u64) = i" "unat (of_nat e :: u64) = e" using b by (simp_all add: unat_of_nat)
  have "(of_int (int i - int e) :: u64) = of_nat (i - e)" using le by (simp add: of_nat_diff)
  then show "IncludedFees tx = (if i < 2 ^ 63 \<or> 2 ^ 63 \<le> e then Some (of_nat (i - e)) else if 2 ^ 63 \<le> i - e then Some 0 else None)"
    using le b unfolding IncludedFees_def tot sint_u64 u Let_def by auto
qed

definition demo_tx :: "u64 list \<Rightarrow> u64 list \<Rightarrow> (nat, nat) signed_transaction" where
  "demo_tx ins outs = \<lparr>rawtx =
     \<lparr>inputs = map (\<lambda>a. \<lparr>amount = a, public_key = 0, cb_position = a, cb_branch = [], cb_diurn_branch = []\<rparr>) ins,
      outputs = map (\<lambda>a. \<lparr>amount = a, public_key = 1\<rparr>) outs, pubkeys = [], tx_up_to_date = False, tx_hash = 0\<rparr>,
     signature = 0\<rparr>"

theorem validate_conserves_value_witness: "IncludedFees (demo_tx [500, 70] [300, 200]) = Some 70"
proof -
  have "Validate (\<lambda>_. True) (demo_tx [500, 70] [300, 200])"
    by (simp add: Validate_words demo_tx_def MIN_TRANSACTION_SIZE_def)
  then show ?thesis
    using validate_conserves_value [of "\<lambda>_. True" "demo_tx [500, 70] [300, 200]"] by (simp add: demo_tx_def)
qed

text \<open>
  The totals wrap. There is a transaction whose outputs are worth more than its inputs and
  which \<^verbatim>\<open>Validate\<close> accepts as soon as its signature verifies: two outputs of \<open>2 ^ 63\<close> add
  nothing to the 64-bit total.
\<close>

theorem validate_accepts_overflow:
  "\<exists>tx :: (nat, nat) signed_transaction. (\<forall>verify_signature. Validate verify_signature tx = verify_signature tx)
     \<and> amounts (inputs (rawtx tx)) < amounts (outputs (rawtx tx))"
  by (rule exI [of _ "demo_tx [200] [2 ^ 63, 2 ^ 63, 150]"])
    (simp add: Validate_words demo_tx_def MIN_TRANSACTION_SIZE_def)

text \<open>
  C22. What is signed verifies. The key that \<^verbatim>\<open>SignTx\<close> signs with, a sum of the private keys of the inputs weighted by iterated
  hashes, is the private key of the point that \<^verbatim>\<open>GetTransactionVerificationKey\<close> computes from their public keys; from the signature
  that \<^verbatim>\<open>SignHashWithKey\<close> makes with it, \<^verbatim>\<open>VerifySignatureOfHash\<close> computes the point of its exhibit again.  So a transaction signed with
  \<^verbatim>\<open>SignTransaction\<close> passes \<^verbatim>\<open>VerifyTransactionSignature\<close>.  The hypotheses are the laws of the multiples of the generator, the size
  of the order of the group, and that the key store has the private keys of the inputs.
\<close>

theorem signed_transaction_verifies:
  assumes "generator_laws pgen padd pmul modulus" and "0 < modulus" and "modulus \<le> 2 ^ 256"
    and "\<forall>c \<in> set (inputs tx). pgen (keydata (public_key c)) = public_key c"
  shows "VerifyTransactionSignature H256 ser pgen padd pmul modulus coord
    (fst (SignTransaction H256 ser pgen modulus coord tx keydata))"
  using assms(4) verification_key_is_signing_key [OF assms(1,2), of "inputs tx" keydata] signed_hash_verifies [OF assms(1-3)]
  by (simp add: VerifyTransactionSignature_def VerifyCreditTransferSignature_def SignTransaction_def SignTx_def SignCreditTx_def
      GetTransactionVerificationKey_def getuint256_uint Let_def)

theorem signed_transaction_verifies_witness:
  "VerifyTransactionSignature (\<lambda>bs. of_nat (bytes_val bs + 1)) (\<lambda>is os ks. []) (\<lambda>k. k mod 7)
     (\<lambda>a b. (a + b) mod 7) (\<lambda>a k. (a * k) mod 7) 7 (\<lambda>r. r)
     (fst (SignTransaction (\<lambda>bs. of_nat (bytes_val bs + 1)) (\<lambda>is os ks. []) (\<lambda>k. k mod 7) 7 (\<lambda>r. r)
       \<lparr>inputs = [\<lparr>amount = 5, public_key = 3, cb_position = 0, cb_branch = [], cb_diurn_branch = []\<rparr>,
                  \<lparr>amount = 6, public_key = 4, cb_position = 1, cb_branch = [], cb_diurn_branch = []\<rparr>],
        outputs = [], pubkeys = [], tx_up_to_date = False, tx_hash = 0\<rparr> (\<lambda>k. k)))"
  by (rule signed_transaction_verifies) (simp_all add: generator_laws_def mod_simps)

text \<open>
  The cached hash is never stale. After any sequence of additions of inputs and outputs and
  of hash computations on a new transaction, \<^verbatim>\<open>GetHash\<close> returns the hash of what the
  transaction contains, and no output is there twice.
\<close>

theorem transaction_hash_current:
  "let tx = fold (tx_step H256 ser) ops UnsignedTransaction_new
   in fst (UnsignedTransaction_GetHash H256 ser tx) = H256 (ser (inputs tx) (outputs tx) (pubkeys tx))
      \<and> distinct (outputs tx)"
proof -
  have "tx_cache_ok H256 ser (fold (tx_step H256 ser) ops UnsignedTransaction_new)"
    by (rule tx_cache_ok_run) (simp add: tx_cache_ok_def UnsignedTransaction_new_def)
  then show ?thesis by (auto simp: tx_cache_ok_def UnsignedTransaction_GetHash_def Let_def)
qed

end
