(* ===== verification/ShortHash.thy ===== *)
theory ShortHash
  imports Uint
begin

text \<open>
  The short-hash lists of \<^verbatim>\<open>src/crypto/shorthash.h\<close>, with \<^verbatim>\<open>HASH = uint160\<close> as the blocks use them: the four-byte
  prefixes and the disambiguator of a list of hashes, the search for the full hashes behind them, and
  the bound on the size of that search.  The hash store the code asks for candidates
  (\<^verbatim>\<open>MemoryDataStore\<close>) is a parameter: \<^verbatim>\<open>matches\<close> gives the candidates stored under a short hash and
  \<^verbatim>\<open>known_solution\<close> the solution stored under the hash of the list, if there is one.
\<close>

section \<open>The list and its operations\<close>

definition MAX_HASH_ENTRIES :: nat where
  "MAX_HASH_ENTRIES = 30000"

definition MAX_HASH_COMBINATIONS :: u64 where
  "MAX_HASH_COMBINATIONS = 10000000"

record short_hash_list =
  full_hashes :: "uint160 list"
  short_hashes :: "u32 list"
  disambiguator :: uint160

definition ModifyHashToIncludePositionInformation :: "uint160 \<Rightarrow> u32 \<Rightarrow> uint160" where
  "ModifyHashToIncludePositionInformation hash position =
     hash + (hash * 12345678910111213) * ucast (ucast position :: u64)"

text \<open>The \<^verbatim>\<open>memcpy\<close> of the first four bytes of the little-endian hash.\<close>

definition short_hash_of :: "uint160 \<Rightarrow> u32" where
  "short_hash_of h = of_nat (bytes_val (take 4 (uint160_bytes h)))"

fun generate_loop :: "u32 \<Rightarrow> uint160 list \<Rightarrow> u32 list \<Rightarrow> uint160 \<Rightarrow> u32 list \<times> uint160" where
  "generate_loop i [] shorts accumulator = (shorts, accumulator)"
| "generate_loop i (h # hs) shorts accumulator =
     generate_loop (i + 1) hs (shorts @ [short_hash_of h])
       (xor accumulator (ModifyHashToIncludePositionInformation h i))"

definition GenerateShortHashes :: "short_hash_list \<Rightarrow> short_hash_list" where
  "GenerateShortHashes s =
     (let (shorts, accumulator) = generate_loop 0 (full_hashes s) [] 0
      in s\<lparr>short_hashes := shorts, disambiguator := accumulator\<rparr>)"

definition PossibleMatches :: "(u32 \<Rightarrow> uint160 list) \<Rightarrow> short_hash_list \<Rightarrow> uint160 list list" where
  "PossibleMatches matches s = map matches (short_hashes s)"

text \<open>Indexing a candidate list out of range is undefined behaviour of the program: the value \<^const>\<open>None\<close>.\<close>

fun multi_xor_loop :: "u32 \<Rightarrow> uint160 list list \<Rightarrow> nat list \<Rightarrow> uint160 \<Rightarrow> uint160 option" where
  "multi_xor_loop i [] choices result = Some result"
| "multi_xor_loop i (hs # hashes) [] result = None"
| "multi_xor_loop i (hs # hashes) (c # choices) result =
     (case nth_opt hs c of
        None \<Rightarrow> None
      | Some h \<Rightarrow> multi_xor_loop (i + 1) hashes choices (xor result (ModifyHashToIncludePositionInformation h i)))"

definition MultiXor :: "uint160 list list \<Rightarrow> nat list \<Rightarrow> uint160 option" where
  "MultiXor hashes choices = multi_xor_loop 0 hashes choices 0"

text \<open>
  The two overloads of \<^verbatim>\<open>ThereIsACorrectMatch\<close>.  The recursive one is the pair of the function body and
  its loop over the choices for one position; \<^const>\<open>None\<close> is the result false.
\<close>

function correct_match :: "uint160 list list \<Rightarrow> uint160 \<Rightarrow> nat list \<Rightarrow> nat list option"
  and choice_loop :: "uint160 list list \<Rightarrow> uint160 \<Rightarrow> nat list \<Rightarrow> nat \<Rightarrow> nat list option" where
  "correct_match possible_matches d working_hypothesis =
     (if length working_hypothesis = length possible_matches
      then (if MultiXor possible_matches working_hypothesis = Some d then Some working_hypothesis else None)
      else choice_loop possible_matches d working_hypothesis 0)"
| "choice_loop possible_matches d working_hypothesis individual_choice =
     (case nth_opt possible_matches (length working_hypothesis) of
        None \<Rightarrow> None
      | Some candidates \<Rightarrow>
          if individual_choice < length candidates
          then (case correct_match possible_matches d (working_hypothesis @ [individual_choice]) of
                  Some resulting_match \<Rightarrow> Some resulting_match
                | None \<Rightarrow> choice_loop possible_matches d working_hypothesis (individual_choice + 1))
          else None)"
  by pat_completeness auto
termination
  by (relation "measures
       [\<lambda>x. case x of Inl (pm, d, w) \<Rightarrow> Suc (length pm) - length w | Inr (pm, d, w, c) \<Rightarrow> Suc (length pm) - length w,
        \<lambda>x. case x of Inl _ \<Rightarrow> 1 | Inr _ \<Rightarrow> 0,
        \<lambda>x. case x of Inl _ \<Rightarrow> 0 | Inr (pm, d, w, c) \<Rightarrow> length (pm ! length w) - c]")
    (auto simp: nth_opt_Some_iff)

definition ThereIsACorrectMatch :: "uint160 list list \<Rightarrow> uint160 \<Rightarrow> nat list option" where
  "ThereIsACorrectMatch possible_matches d = correct_match possible_matches d []"

definition UseMatch :: "uint160 list list \<Rightarrow> nat list \<Rightarrow> short_hash_list \<Rightarrow> short_hash_list" where
  "UseMatch possible_matches specific_matches s =
     s\<lparr>full_hashes := map (\<lambda>i. possible_matches ! i ! (specific_matches ! i)) [0..<length (short_hashes s)]\<rparr>"

text \<open>The loop of \<^verbatim>\<open>NumberOfCombinations\<close> with its early return; the counter wraps at 64 bits.\<close>

fun combinations_loop :: "uint160 list list \<Rightarrow> u64 \<Rightarrow> bool \<Rightarrow> u64" where
  "combinations_loop [] number_of_combinations overflow = (if overflow then - 1 else number_of_combinations)"
| "combinations_loop (candidates # rest) number_of_combinations overflow =
     (let number_of_matches = of_nat (length candidates)
      in if number_of_matches = 0 then 0
         else let product = number_of_combinations * number_of_matches
              in combinations_loop rest product
                   (overflow \<or> product = 0 \<or> product div number_of_combinations \<noteq> number_of_matches))"

definition NumberOfCombinations :: "uint160 list list \<Rightarrow> u64" where
  "NumberOfCombinations possible_matches = combinations_loop possible_matches 1 False"

definition TryKnownSolution :: "(uint160 \<Rightarrow> uint160 list option) \<Rightarrow> (short_hash_list \<Rightarrow> uint160) \<Rightarrow> short_hash_list
    \<Rightarrow> bool \<times> short_hash_list" where
  "TryKnownSolution known_solution GetHash160 s =
     (case known_solution (GetHash160 s) of
        None \<Rightarrow> (False, s)
      | Some solution \<Rightarrow> (True, s\<lparr>full_hashes := solution\<rparr>))"

definition RecoverFullHashes :: "(u32 \<Rightarrow> uint160 list) \<Rightarrow> (uint160 \<Rightarrow> uint160 list option) \<Rightarrow> (short_hash_list \<Rightarrow> uint160)
    \<Rightarrow> short_hash_list \<Rightarrow> bool \<times> short_hash_list" where
  "RecoverFullHashes matches known_solution GetHash160 s =
     (if MAX_HASH_ENTRIES < length (short_hashes s) then (False, s)
      else let possible_matches = PossibleMatches matches s
           in if \<exists>candidates \<in> set possible_matches. length candidates = 0 then (False, s)
              else if MAX_HASH_COMBINATIONS < NumberOfCombinations possible_matches
                   then TryKnownSolution known_solution GetHash160 s
                   else (case ThereIsACorrectMatch possible_matches (disambiguator s) of
                           Some resulting_match \<Rightarrow> (True, UseMatch possible_matches resulting_match s)
                         | None \<Rightarrow> (False, s)))"

text \<open>Each short hash is printed as eight hexadecimal digits, the latest in front.\<close>

fun hex_bytes_loop :: "nat \<Rightarrow> u32 \<Rightarrow> string \<Rightarrow> string" where
  "hex_bytes_loop 0 short_hash result = result"
| "hex_bytes_loop (Suc n) short_hash result =
     hex_bytes_loop n (short_hash div 256) (hex_chars (ucast (short_hash mod 256)) @ result)"

definition HexShortHashes :: "short_hash_list \<Rightarrow> string" where
  "HexShortHashes s = fold (\<lambda>short_hash result. hex_bytes_loop 4 short_hash ('','' @ result)) (short_hashes s) []"

definition ShortHashList_equal :: "short_hash_list \<Rightarrow> short_hash_list \<Rightarrow> bool" where
  "ShortHashList_equal a b \<longleftrightarrow> short_hashes a = short_hashes b \<and> disambiguator a = disambiguator b"

declare correct_match.simps [simp del] choice_loop.simps [simp del]

section \<open>Generating a list\<close>

lemma fst_generate_loop: "fst (generate_loop i hs shorts a) = shorts @ map short_hash_of hs"
  by (induction hs arbitrary: i shorts a) auto

lemma short_hash_of_ucast: "short_hash_of h = ucast h"
proof -
  have "take 4 (uint160_bytes h) = le_bytes 4 (unat h)" by (simp add: uint160_bytes_def take_le_bytes)
  then have "unat (short_hash_of h) = unat (ucast h :: u32)"
    by (simp add: short_hash_of_def bytes_val_le_bytes unat_of_nat unsigned_ucast_eq take_bit_eq_mod)
  then show ?thesis by (simp only: word_unat_eq_iff)
qed

lemma snd_generate_loop_shorts: "snd (generate_loop i hs shorts a) = snd (generate_loop i hs shorts' a)"
  by (induction hs arbitrary: i shorts shorts' a) auto

text \<open>The disambiguator of a list of full hashes.\<close>

definition disambiguator_of :: "uint160 list \<Rightarrow> uint160" where
  "disambiguator_of hs = snd (generate_loop 0 hs [] 0)"

lemma GenerateShortHashes_eq:
  "GenerateShortHashes s =
     s\<lparr>short_hashes := map short_hash_of (full_hashes s), disambiguator := disambiguator_of (full_hashes s)\<rparr>"
  using fst_generate_loop [of 0 "full_hashes s" "[]" 0]
  by (auto simp: GenerateShortHashes_def disambiguator_of_def split: prod.splits)

section \<open>The search\<close>

text \<open>The choices in the order the search tries them: lexicographically, the first position varying last.\<close>

definition choices_of :: "uint160 list list \<Rightarrow> nat list list" where
  "choices_of pm = product_lists (map (\<lambda>candidates. [0..<length candidates]) pm)"

lemma find_append: "find P (xs @ ys) = (case find P xs of None \<Rightarrow> find P ys | Some x \<Rightarrow> Some x)"
  by (induction xs) auto

lemma choices_of_drop:
  "n < length pm \<Longrightarrow> choices_of (drop n pm) =
     concat (map (\<lambda>i. map (Cons i) (choices_of (drop (Suc n) pm))) [0..<length (pm ! n)])"
  by (simp add: choices_of_def flip: Cons_nth_drop_Suc)

lemma search_is_find:
  "length w \<le> length pm \<Longrightarrow> correct_match pm d w =
     find (\<lambda>c. MultiXor pm c = Some d) (map ((@) w) (choices_of (drop (length w) pm)))"
  "length w < length pm \<Longrightarrow> choice_loop pm d w c =
     find (\<lambda>c. MultiXor pm c = Some d) (map ((@) w)
       (concat (map (\<lambda>i. map (Cons i) (choices_of (drop (Suc (length w)) pm))) [c..<length (pm ! length w)])))"
proof (induction pm d w and pm d w c rule: correct_match_choice_loop.induct)
  case (1 pm d w)
  show ?case
  proof (cases "length w = length pm")
    case True
    then show ?thesis by (simp add: correct_match.simps choices_of_def)
  next
    case False
    then have "length w < length pm" using "1.prems" by simp
    then show ?thesis using "1.IH" False by (simp add: correct_match.simps choices_of_drop)
  qed
next
  case (2 pm d w c)
  let ?cs = "pm ! length w"
  show ?case
  proof (cases "c < length ?cs")
    case True
    have cm: "correct_match pm d (w @ [c]) = find (\<lambda>c. MultiXor pm c = Some d)
        (map ((@) w) (map (Cons c) (choices_of (drop (Suc (length w)) pm))))"
      using "2.IH"(1) [of ?cs] "2.prems" True by (simp add: comp_def)
    show ?thesis
      using "2.prems" True "2.IH"(2) [of ?cs] cm
      by (subst choice_loop.simps) (simp add: upt_conv_Cons find_append split: option.split)
  next
    case False
    then show ?thesis using "2.prems" by (simp add: choice_loop.simps)
  qed
qed

lemma ThereIsACorrectMatch_find:
  "ThereIsACorrectMatch pm d = find (\<lambda>c. MultiXor pm c = Some d) (choices_of pm)"
  by (simp add: ThereIsACorrectMatch_def search_is_find map_idI)

lemma set_choices_of: "set (choices_of pm) = {c. list_all2 (\<lambda>i candidates. i < length candidates) c pm}"
  by (simp add: choices_of_def product_lists_set list_all2_map2)

lemma multi_xor_loop_choice:
  assumes "list_all2 (\<lambda>i candidates. i < length candidates) c pm"
  shows "multi_xor_loop i pm c r = Some (snd (generate_loop i (map2 (!) pm c) [] r))"
  using assms
proof (induction c pm arbitrary: i r rule: list_all2_induct)
  case (Cons x xs y ys)
  then show ?case
    by (simp add: snd_generate_loop_shorts [of _ _ "[short_hash_of _]" _ "[]"])
qed simp

lemma MultiXor_choice:
  "list_all2 (\<lambda>i candidates. i < length candidates) c pm \<Longrightarrow> MultiXor pm c = Some (disambiguator_of (map2 (!) pm c))"
  by (simp add: MultiXor_def multi_xor_loop_choice disambiguator_of_def)

lemma map2_nth_index:
  assumes "length c = length pm"
  shows "map (\<lambda>i. pm ! i ! (c ! i)) [0..<length pm] = map2 (!) pm c"
  using assms by (intro nth_equalityI) auto

text \<open>A list of candidates is a choice of indices, and the other way round.\<close>

lemma choice_of_candidates:
  assumes "list_all2 (\<lambda>h candidates. h \<in> set candidates) hs pm"
  obtains c where "list_all2 (\<lambda>i candidates. i < length candidates) c pm" and "map2 (!) pm c = hs"
  using assms
proof (induction hs pm arbitrary: thesis rule: list_all2_induct)
  case (Cons x xs y ys)
  obtain c where c: "list_all2 (\<lambda>i candidates. i < length candidates) c ys" "map2 (!) ys c = xs" by (rule Cons.IH)
  obtain i where "i < length y" "y ! i = x" using Cons.hyps(1) by (auto simp: in_set_conv_nth)
  then show ?case using c Cons.prems [of "i # c"] by simp
qed simp

lemma candidates_of_choice:
  "list_all2 (\<lambda>i candidates. i < length candidates) c pm \<Longrightarrow>
   list_all2 (\<lambda>h candidates. h \<in> set candidates) (map2 (!) pm c) pm"
  by (induction c pm rule: list_all2_induct) auto


section \<open>The number of combinations\<close>

lemma unat_mult_u64: "unat (a * b :: u64) = unat a * unat b mod 18446744073709551616"
  by (simp add: unat_word_ariths)

lemma unat_max_u64: "unat (- 1 :: u64) = 18446744073709551615"
  using unsigned_minus_1_eq_mask [where 'a = nat and 'b = 64] by (simp add: mask_eq_exp_minus_1)

lemma overflow_check:
  assumes "a \<noteq> 0" and "b \<noteq> 0"
  shows "a * b = 0 \<or> a * b div a \<noteq> b \<longleftrightarrow> 18446744073709551616 \<le> unat a * unat (b :: u64)"
proof (cases "unat a * unat b < 18446744073709551616")
  case True
  have a0: "0 < unat a" and b0: "0 < unat b" using assms by (simp_all add: unat_gt_0)
  have "unat (a * b) = unat a * unat b" using True by (simp add: unat_mult_u64)
  then have "a * b \<noteq> 0" and "a * b div a = b"
    using a0 b0 by (auto simp: word_arith_nat_div simp flip: unat_eq_zero)
  then show ?thesis using True by simp
next
  case False
  have a0: "0 < unat a" using assms by (simp add: unat_gt_0)
  have "unat (a * b) div unat a \<noteq> unat b"
  proof
    assume eq: "unat (a * b) div unat a = unat b"
    have "unat a * unat b \<le> unat (a * b)" using eq by (metis mult.commute div_times_less_eq_dividend)
    then show False using False unat_u64_less [of "a * b"] by linarith
  qed
  then have "a * b div a \<noteq> b" by (metis unat_div)
  then show ?thesis using False by simp
qed

lemma combinations_loop_overflow:
  "combinations_loop pm n True = (if \<exists>c \<in> set pm. (of_nat (length c) :: u64) = 0 then 0 else - 1)"
  by (induction pm arbitrary: n) (auto simp: Let_def)

lemma unat_of_nat_u64: "n < 18446744073709551616 \<Longrightarrow> unat (of_nat n :: u64) = n"
  by (simp add: unat_of_nat)

lemma of_nat_length_0:
  "length c < 18446744073709551616 \<Longrightarrow> (of_nat (length c) :: u64) = 0 \<longleftrightarrow> c = []"
  by (simp add: unat_of_nat_u64 flip: unat_eq_zero)

lemma combinations_loop_exact:
  assumes "\<forall>c \<in> set pm. length c < 18446744073709551616" and "n \<noteq> 0"
  shows "combinations_loop pm n False =
     (if [] \<in> set pm then 0
      else if unat n * prod_list (map length pm) < 18446744073709551616
           then of_nat (unat n * prod_list (map length pm)) else - 1)"
  using assms
proof (induction pm arbitrary: n)
  case (Cons c pm)
  let ?m = "of_nat (length c) :: u64"
  have m: "unat ?m = length c" using Cons.prems by (simp add: unat_of_nat_u64)
  have nonempty: "(\<exists>c \<in> set pm. (of_nat (length c) :: u64) = 0) \<longleftrightarrow> [] \<in> set pm"
    using Cons.prems(1) by (metis list.set_intros(2) of_nat_length_0)
  show ?case
  proof (cases "c = []")
    case False
    then have m0: "?m \<noteq> 0" using Cons.prems(1) by (simp add: of_nat_length_0)
    note check = overflow_check [OF Cons.prems(2) m0, unfolded m]
    show ?thesis
    proof (cases "unat n * length c < 18446744073709551616")
      case True
      then have no: "\<not> (n * ?m = 0 \<or> n * ?m div n \<noteq> ?m)" and "n * ?m \<noteq> 0" using check by simp_all
      moreover have "unat (n * ?m) = unat n * length c" using True by (simp add: unat_mult_u64 m)
      ultimately show ?thesis using False m0 Cons.IH [of "n * ?m"] Cons.prems(1) by (simp add: Let_def mult.assoc)
    next
      case over: False
      have "unat n * length c \<le> unat n * (length c * prod_list (map length pm))" if "[] \<notin> set pm"
        using that by (induction pm) (auto simp: Suc_le_eq)
      then have "\<not> unat n * (length c * prod_list (map length pm)) < 18446744073709551616" if "[] \<notin> set pm"
        using over that by linarith
      then show ?thesis using False m0 over check nonempty by (simp add: Let_def combinations_loop_overflow)
    qed
  qed simp
qed simp


section \<open>Recovering the full hashes\<close>

text \<open>A search that stays within the bounds of the code.\<close>

definition searchable :: "(u32 \<Rightarrow> uint160 list) \<Rightarrow> short_hash_list \<Rightarrow> bool" where
  "searchable matches s \<longleftrightarrow> length (short_hashes s) \<le> MAX_HASH_ENTRIES \<and>
     NumberOfCombinations (PossibleMatches matches s) \<le> MAX_HASH_COMBINATIONS"

text \<open>A list of full hashes that explains a short-hash list.\<close>

definition explains :: "(u32 \<Rightarrow> uint160 list) \<Rightarrow> short_hash_list \<Rightarrow> uint160 list \<Rightarrow> bool" where
  "explains matches s hs \<longleftrightarrow>
     list_all2 (\<lambda>h short. h \<in> set (matches short)) hs (short_hashes s) \<and> disambiguator_of hs = disambiguator s"

lemma explains_choice:
  assumes "explains matches s hs"
  obtains c where "c \<in> set (choices_of (PossibleMatches matches s))"
    and "MultiXor (PossibleMatches matches s) c = Some (disambiguator s)" and "map2 (!) (PossibleMatches matches s) c = hs"
proof -
  have "list_all2 (\<lambda>h candidates. h \<in> set candidates) hs (PossibleMatches matches s)"
    using assms by (simp add: explains_def PossibleMatches_def list_all2_map2)
  then obtain c where "list_all2 (\<lambda>i candidates. i < length candidates) c (PossibleMatches matches s)"
    "map2 (!) (PossibleMatches matches s) c = hs" by (rule choice_of_candidates)
  then show thesis using assms that by (simp add: set_choices_of MultiXor_choice explains_def)
qed

lemma choice_explains:
  assumes "c \<in> set (choices_of (PossibleMatches matches s))"
    and "MultiXor (PossibleMatches matches s) c = Some (disambiguator s)"
  shows "explains matches s (map2 (!) (PossibleMatches matches s) c)"
    and "UseMatch (PossibleMatches matches s) c s = s\<lparr>full_hashes := map2 (!) (PossibleMatches matches s) c\<rparr>"
proof -
  have c: "list_all2 (\<lambda>i candidates. i < length candidates) c (PossibleMatches matches s)"
    using assms(1) by (simp add: set_choices_of)
  show "explains matches s (map2 (!) (PossibleMatches matches s) c)"
    using candidates_of_choice [OF c] assms(2)
    by (simp add: explains_def MultiXor_choice [OF c]) (simp add: PossibleMatches_def list_all2_map2)
  have "length (PossibleMatches matches s) = length (short_hashes s)" by (simp add: PossibleMatches_def)
  then show "UseMatch (PossibleMatches matches s) c s = s\<lparr>full_hashes := map2 (!) (PossibleMatches matches s) c\<rparr>"
    using map2_nth_index [of c "PossibleMatches matches s"] list_all2_lengthD [OF c] by (simp add: UseMatch_def)
qed

lemma explains_nonempty:
  assumes "explains matches s hs"
  shows "[] \<notin> set (PossibleMatches matches s)"
proof
  assume "[] \<in> set (PossibleMatches matches s)"
  then obtain i where "i < length (short_hashes s)" and "matches (short_hashes s ! i) = []"
    by (auto simp: PossibleMatches_def in_set_conv_nth)
  then show False using assms by (auto simp: explains_def list_all2_conv_all_nth)
qed

lemma RecoverFullHashes_searchable:
  assumes "searchable matches s"
  shows "RecoverFullHashes matches known_solution GetHash160 s =
     (if [] \<in> set (PossibleMatches matches s) then (False, s)
      else case ThereIsACorrectMatch (PossibleMatches matches s) (disambiguator s) of
             Some c \<Rightarrow> (True, UseMatch (PossibleMatches matches s) c s) | None \<Rightarrow> (False, s))"
  using assms by (auto simp: RecoverFullHashes_def searchable_def Let_def)

lemma recover_cases:
  assumes "searchable matches s"
  shows "(\<exists>hs. RecoverFullHashes matches known_solution GetHash160 s = (True, s\<lparr>full_hashes := hs\<rparr>) \<and> explains matches s hs)
     \<or> RecoverFullHashes matches known_solution GetHash160 s = (False, s) \<and> (\<nexists>hs. explains matches s hs)"
proof (cases "ThereIsACorrectMatch (PossibleMatches matches s) (disambiguator s)")
  case None
  then have "\<not> explains matches s hs" for hs
    by (auto simp: ThereIsACorrectMatch_find find_None_iff elim!: explains_choice)
  then show ?thesis using None by (simp add: RecoverFullHashes_searchable [OF assms])
next
  case (Some c)
  then have "c \<in> set (choices_of (PossibleMatches matches s))"
    and "MultiXor (PossibleMatches matches s) c = Some (disambiguator s)"
    by (auto simp: ThereIsACorrectMatch_find find_Some_iff)
  note c = choice_explains [OF this]
  then show ?thesis using Some explains_nonempty [OF c(1)]
    by (auto simp: RecoverFullHashes_searchable [OF assms])
qed


section \<open>Properties\<close>

text \<open>
  \<^verbatim>\<open>NumberOfCombinations\<close> is exact as far as 64 bits allow: it is 0 when some short hash has no
  candidate, the product of the numbers of candidates when that product fits, and the largest
  64-bit number when it does not, whatever the wrapped counter did in between.
\<close>

theorem number_of_combinations_exact:
  assumes "\<forall>candidates \<in> set possible_matches. length candidates < 2 ^ 64"
  shows "unat (NumberOfCombinations possible_matches) =
     (if [] \<in> set possible_matches then 0 else min (prod_list (map length possible_matches)) (2 ^ 64 - 1))"
  using assms combinations_loop_exact [of possible_matches 1]
  by (simp add: NumberOfCombinations_def unat_of_nat_u64 unat_max_u64 min_def)

theorem number_of_combinations_exact_witness:
  "unat (NumberOfCombinations [replicate 3 7, [1, 2]]) = 6 \<and> unat (NumberOfCombinations [[], [1, 2]]) = 0"
  using number_of_combinations_exact [of "[replicate 3 7, [1, 2]]"] number_of_combinations_exact [of "[[], [1, 2]]"]
  by simp

text \<open>
  C8. With at most \<^verbatim>\<open>MAX_HASH_ENTRIES\<close> short hashes and at most \<^verbatim>\<open>MAX_HASH_COMBINATIONS\<close> combinations of candidates
  \<^verbatim>\<open>RecoverFullHashes\<close> decides its question: it returns true exactly
  when some choice of stored candidates, one for each short hash, has the list's disambiguator, and it then
  leaves the hash list with such full hashes and otherwise unchanged.  Beyond these limits it searches nothing: it returns true only with
  at most \<^verbatim>\<open>MAX_HASH_ENTRIES\<close> short hashes, a candidate for each and a solution that the database has for the hash of the list, which it
  takes without checking it.  When it returns false nothing changes.
\<close>

theorem recover_sound_and_complete:
  assumes "RecoverFullHashes matches known_solution GetHash160 s = (found, s')"
  shows "(if length (short_hashes s) \<le> MAX_HASH_ENTRIES \<and> NumberOfCombinations (PossibleMatches matches s) \<le> MAX_HASH_COMBINATIONS
      then (found \<longleftrightarrow> (\<exists>hs. explains matches s hs)) \<and> (found \<longrightarrow> explains matches s (full_hashes s'))
      else (found \<longleftrightarrow> length (short_hashes s) \<le> MAX_HASH_ENTRIES \<and> [] \<notin> set (PossibleMatches matches s) \<and> known_solution (GetHash160 s) \<noteq> None)
        \<and> (found \<longrightarrow> known_solution (GetHash160 s) = Some (full_hashes s')))
     \<and> (if found then s' = s\<lparr>full_hashes := full_hashes s'\<rparr> else s' = s)"
proof (cases "searchable matches s")
  case True
  then show ?thesis using recover_cases [of matches s known_solution GetHash160] assms by (auto simp: searchable_def)
next
  case False
  then show ?thesis using assms by (auto simp: searchable_def RecoverFullHashes_def TryKnownSolution_def Let_def split: if_splits option.splits)
qed

definition demo_matches :: "u32 \<Rightarrow> uint160 list" where
  "demo_matches short = (if short = 5 then [4294967301, 5] else if short = 7 then [7] else [])"

definition demo_list :: "uint160 list \<Rightarrow> short_hash_list" where
  "demo_list hs = \<lparr>full_hashes = hs, short_hashes = [5, 7], disambiguator = disambiguator_of [5, 7]\<rparr>"

lemma demo_searchable: "searchable demo_matches (demo_list hs)"
  by (simp add: searchable_def MAX_HASH_ENTRIES_def MAX_HASH_COMBINATIONS_def demo_list_def demo_matches_def
      PossibleMatches_def NumberOfCombinations_def)

lemma demo_recover: "RecoverFullHashes demo_matches (\<lambda>_. None) (\<lambda>_. 0) (demo_list []) = (True, demo_list [5, 7])"
  by (subst RecoverFullHashes_searchable [OF demo_searchable]) code_simp

theorem recover_sound_and_complete_witness: "explains demo_matches (demo_list []) [5, 7]"
  using recover_sound_and_complete [OF demo_recover] demo_searchable [of "[]"]
  by (simp add: searchable_def demo_list_def)

text \<open>
  The round trip between a sender and a receiver.  The sender generates the short hashes of a list of hashes.
  A receiver whose store holds every one of them, and files every candidate under its own four bytes, recovers
  within the limits a list with the same short hashes and the same disambiguator, and the very list of the sender
  if no other combination of candidates has that disambiguator.
\<close>

theorem short_hash_roundtrip:
  assumes "sent = GenerateShortHashes s"
    and "\<forall>h \<in> set (full_hashes s). h \<in> set (matches (short_hash_of h))"
    and "\<forall>short. \<forall>h \<in> set (matches short). short_hash_of h = short"
    and "short_hashes received = short_hashes sent" and "disambiguator received = disambiguator sent"
    and "length (short_hashes sent) \<le> MAX_HASH_ENTRIES"
    and "NumberOfCombinations (PossibleMatches matches received) \<le> MAX_HASH_COMBINATIONS"
  shows "\<exists>r. RecoverFullHashes matches known_solution GetHash160 received = (True, r)
     \<and> ShortHashList_equal (GenerateShortHashes r) sent
     \<and> ((\<forall>hs. explains matches received hs \<longrightarrow> hs = full_hashes s) \<longrightarrow> full_hashes r = full_hashes s)"
proof -
  have sent: "short_hashes received = map short_hash_of (full_hashes s)" "disambiguator received = disambiguator_of (full_hashes s)"
    using assms(1,4,5) by (simp_all add: GenerateShortHashes_eq)
  then have "explains matches received (full_hashes s)"
    using assms(2) by (auto simp: explains_def list_all2_map2 intro: list_all2_refl list.rel_refl_strong)
  moreover have "searchable matches received" using assms(4,6,7) by (simp add: searchable_def)
  ultimately obtain hs where hs: "explains matches received hs"
    and run: "RecoverFullHashes matches known_solution GetHash160 received = (True, received\<lparr>full_hashes := hs\<rparr>)"
    using recover_cases [of matches received known_solution GetHash160] by auto
  have "map short_hash_of hs = short_hashes received"
    using hs assms(3) by (auto simp: explains_def list_all2_conv_all_nth intro!: nth_equalityI)
  then show ?thesis
    using run hs assms(4,5) by (simp add: ShortHashList_equal_def GenerateShortHashes_eq explains_def)
qed


lemma demo_unique: "explains demo_matches (demo_list []) hs \<Longrightarrow> hs = [5, 7]"
proof -
  assume e: "explains demo_matches (demo_list []) hs"
  then have "hs = [5, 7] \<or> hs = [4294967301, 7]"
    by (auto simp: explains_def demo_list_def demo_matches_def list_all2_Cons2)
  moreover have "disambiguator_of [4294967301, 7] \<noteq> disambiguator_of [5, 7]"
    by (simp add: disambiguator_of_def ModifyHashToIncludePositionInformation_def)
  ultimately show ?thesis using e by (auto simp: explains_def demo_list_def)
qed

theorem short_hash_roundtrip_witness:
  "\<exists>r. RecoverFullHashes demo_matches (\<lambda>_. None) (\<lambda>_. 0) (demo_list []) = (True, r) \<and> full_hashes r = [5, 7]"
proof -
  have "GenerateShortHashes (demo_list [5, 7]) = demo_list [5, 7]"
    by (simp add: GenerateShortHashes_eq demo_list_def short_hash_of_ucast)
  moreover have "\<forall>short. \<forall>h \<in> set (demo_matches short). short_hash_of h = short"
    by (auto simp: demo_matches_def short_hash_of_ucast)
  ultimately show ?thesis
    using short_hash_roundtrip [of "demo_list [5, 7]" "demo_list [5, 7]" demo_matches "demo_list []" "\<lambda>_. None" "\<lambda>_. 0"]
      demo_unique demo_searchable [of "[]"]
    by (auto simp: searchable_def demo_list_def demo_matches_def short_hash_of_ucast)
qed

end
