(* ===== verification/Work.thy ===== *)
theory Work
  imports Uint
begin

text \<open>
  The proof of work of \<^verbatim>\<open>src/mining/work.cpp\<close>: targets and difficulties, the search for a nonce and its check.
  The numbers are limb lists (five limbs for a \<^verbatim>\<open>uint160\<close>, eight for a \<^verbatim>\<open>uint256\<close>), so that
  the division is the one of \<^verbatim>\<open>uint256.h\<close>, with its errors and the divisions that never end.  \<^verbatim>\<open>Hash160\<close>
  is a parameter.  The flag \<^verbatim>\<open>*working\<close>, which another thread clears, is the sequence of the values
  the loop reads.
\<close>

section \<open>The proof and its operations\<close>

record simple_work_proof =
  seed :: limbs
  nonce :: limbs
  work_target :: limbs

definition SimpleWorkProof_default :: simple_work_proof where
  "SimpleWorkProof_default =
     \<lparr>seed = u_of_u64 8 0, nonce = u_of_u64 5 0, work_target = u_of_u64 5 0\<rparr>"

definition max_uint160 :: limbs where
  "max_uint160 =
     (let two_power_159 = u_shl (u_of_u64 5 1) 159
      in u_add (u_sub two_power_159 (u_of_u64 5 1)) two_power_159)"

definition DivideIntoMaxUint160 :: "limbs \<Rightarrow> (uint_error + limbs) option" where
  "DivideIntoMaxUint160 number = u_div max_uint160 number"

definition TargetFromDifficulty :: "limbs \<Rightarrow> (uint_error + limbs) option" where
  "TargetFromDifficulty difficulty = DivideIntoMaxUint160 difficulty"

definition DifficultyFromTarget :: "limbs \<Rightarrow> (uint_error + limbs) option" where
  "DifficultyFromTarget target = DivideIntoMaxUint160 target"

definition SimpleWorkProof_new :: "limbs \<Rightarrow> limbs \<Rightarrow> (uint_error + simple_work_proof) option" where
  "SimpleWorkProof_new seed_256 difficulty =
     map_option (map_sum id (\<lambda>t. \<lparr>seed = seed_256, nonce = u_of_u64 5 0, work_target = t\<rparr>))
       (TargetFromDifficulty difficulty)"

definition GetHash160Value :: "(vch_t \<Rightarrow> limbs) \<Rightarrow> limbs \<Rightarrow> limbs \<Rightarrow> limbs" where
  "GetHash160Value Hash160 sd nc = Hash160 (u_bytes sd @ u_bytes nc)"

definition IsValidProofOfWork :: "(vch_t \<Rightarrow> limbs) \<Rightarrow> simple_work_proof \<Rightarrow> bool" where
  "IsValidProofOfWork Hash160 wp = u_less_eq (GetHash160Value Hash160 (seed wp) (nonce wp)) (work_target wp)"

definition WorkDone :: "(vch_t \<Rightarrow> limbs) \<Rightarrow> simple_work_proof \<Rightarrow> (uint_error + limbs) option" where
  "WorkDone Hash160 wp =
     (if IsValidProofOfWork Hash160 wp then DifficultyFromTarget (work_target wp)
      else Some (Inr (u_of_u64 5 0)))"

text \<open>
  The loop of \<^verbatim>\<open>DoWork\<close>; the turn \<open>n\<close> reads the flag \<open>working n\<close>.  The result is the nonce found, or that
  the flag was cleared first.
\<close>

partial_function (option) do_work_loop
  :: "(vch_t \<Rightarrow> limbs) \<Rightarrow> (nat \<Rightarrow> bool) \<Rightarrow> simple_work_proof \<Rightarrow> nat \<Rightarrow> limbs \<Rightarrow> limbs option option" where
  "do_work_loop Hash160 working wp n trial_nonce =
     (if working n
      then (let trial_nonce' = u_add trial_nonce (u_of_u64 5 1)
            in if u_less_eq (GetHash160Value Hash160 (seed wp) trial_nonce') (work_target wp)
               then Some (Some trial_nonce')
               else do_work_loop Hash160 working wp (Suc n) trial_nonce')
      else Some None)"

definition DoWork :: "(vch_t \<Rightarrow> limbs) \<Rightarrow> (nat \<Rightarrow> bool) \<Rightarrow> simple_work_proof \<Rightarrow> (bool \<times> simple_work_proof) option" where
  "DoWork Hash160 working wp =
     map_option (\<lambda>found. case found of None \<Rightarrow> (False, wp) | Some nc \<Rightarrow> (True, wp\<lparr>nonce := nc\<rparr>))
       (do_work_loop Hash160 working wp 0 (u_of_u64 5 0))"

section \<open>Targets and difficulties\<close>

lemma length_max_uint160 [simp]: "length max_uint160 = 5"
  by (simp add: max_uint160_def Let_def)

lemma uval_max_uint160: "uval max_uint160 = 2 ^ 160 - 1"
  by (simp add: max_uint160_def uint_simps Let_def)

text \<open>What \<^verbatim>\<open>DivideIntoMaxUint160\<close> computes, for every divisor.\<close>

lemma DivideIntoMaxUint160_cases:
  assumes "uint160_ok n"
  shows "DivideIntoMaxUint160 n = None \<longleftrightarrow> uval n = 1"
    and "uval n = 0 \<Longrightarrow> DivideIntoMaxUint160 n = Some (Inl DivisionByZero)"
    and "2 \<le> uval n \<Longrightarrow> \<exists>q. DivideIntoMaxUint160 n = Some (Inr q) \<and> uint160_ok q \<and> uval q = (2 ^ 160 - 1) div uval n"
proof -
  have len: "length max_uint160 = length n" "2 \<le> length n" "length n < 2 ^ 26"
    using assms by (simp_all add: uint160_ok_def)
  note d = u_div_correct [OF len]
  have stuck: "u_div_stuck max_uint160 n \<longleftrightarrow> uval n = 1"
    using assms by (auto simp: u_div_stuck_def uval_max_uint160 uint160_ok_def)
  show "DivideIntoMaxUint160 n = None \<longleftrightarrow> uval n = 1"
    using d(1) stuck by (simp add: DivideIntoMaxUint160_def)
  show "uval n = 0 \<Longrightarrow> DivideIntoMaxUint160 n = Some (Inl DivisionByZero)"
    using d(2) by (simp add: DivideIntoMaxUint160_def)
  show "2 \<le> uval n \<Longrightarrow> \<exists>q. DivideIntoMaxUint160 n = Some (Inr q) \<and> uint160_ok q \<and> uval q = (2 ^ 160 - 1) div uval n"
    using d(3) stuck assms by (auto simp: DivideIntoMaxUint160_def uval_max_uint160 uint160_ok_def)
qed


section \<open>The search for a nonce\<close>

text \<open>The nonce that turn \<open>n - 1\<close> of the search tries.\<close>

fun trial :: "nat \<Rightarrow> limbs" where
  "trial 0 = u_of_u64 5 0"
| "trial (Suc n) = u_add (trial n) (u_of_u64 5 1)"

definition good_nonce :: "(vch_t \<Rightarrow> limbs) \<Rightarrow> simple_work_proof \<Rightarrow> limbs \<Rightarrow> bool" where
  "good_nonce Hash160 wp nc = IsValidProofOfWork Hash160 (wp\<lparr>nonce := nc\<rparr>)"

lemma uint160_ok_trial: "uint160_ok (trial n)"
  by (induction n) (simp_all add: uint160_ok_def)

lemma uval_trial: "uval (trial n) = n mod 2 ^ 160"
proof (induction n)
  case (Suc n)
  then show ?case using uint160_ok_trial [of n] by (simp add: uint_simps uint160_ok_def mod_Suc_eq)
qed (simp add: uint_simps)

lemma do_work_loop_step:
  "do_work_loop H working wp n (trial n) =
     (if \<not> working n then Some None
      else if good_nonce H wp (trial (Suc n)) then Some (Some (trial (Suc n)))
      else do_work_loop H working wp (Suc n) (trial (Suc n)))"
  by (subst do_work_loop.simps) (simp add: Let_def good_nonce_def IsValidProofOfWork_def)

lemma do_work_loop_turns:
  assumes "\<forall>k < m. working (n + k) \<and> \<not> good_nonce H wp (trial (Suc (n + k)))"
  shows "do_work_loop H working wp n (trial n) = do_work_loop H working wp (n + m) (trial (n + m))"
  using assms
proof (induction m)
  case (Suc m)
  then have "do_work_loop H working wp n (trial n) = do_work_loop H working wp (n + m) (trial (n + m))" by simp
  also have "\<dots> = do_work_loop H working wp (n + Suc m) (trial (n + Suc m))"
    using Suc.prems by (subst do_work_loop_step) simp
  finally show ?case .
qed simp

lemma do_work_loop_returns:
  assumes "do_work_loop H working wp n (trial n) = Some r"
  shows "\<exists>m. \<not> working m \<or> good_nonce H wp (trial (Suc m))"
proof -
  have "\<forall>m. trial n = trial m \<longrightarrow> n = m \<longrightarrow> (\<exists>m. \<not> working m \<or> good_nonce H wp (trial (Suc m)))"
  proof (rule do_work_loop.raw_induct [OF _ assms], intro allI impI, goal_cases)
    case (1 loop H working wp n t r m)
    show ?case
    proof (cases "\<not> working n \<or> good_nonce H wp (trial (Suc n))")
      case False
      then have "loop H working wp (Suc n) (trial (Suc n)) = Some r"
        using 1(2-) by (simp add: Let_def good_nonce_def IsValidProofOfWork_def)
      then show ?thesis using 1(1) by blast
    qed auto
  qed
  then show ?thesis by blast
qed

section \<open>Properties\<close>

text \<open>
  C39. Targets and difficulties.  Dividing the largest \<^verbatim>\<open>uint160\<close> by a number of at least two gives the exact
  quotient; zero is reported as an error; and the division by one, that is the target of difficulty one, never returns.
\<close>

theorem target_from_difficulty_exact:
  assumes "uint160_ok n"
  shows "(if uval n = 0 then TargetFromDifficulty n = Some (Inl DivisionByZero)
     else if uval n = 1 then TargetFromDifficulty n = None
     else \<exists>q. TargetFromDifficulty n = Some (Inr q) \<and> uint160_ok q \<and> uval q = (2 ^ 160 - 1) div uval n)"
  using DivideIntoMaxUint160_cases [OF assms] by (simp add: TargetFromDifficulty_def)

theorem target_from_difficulty_exact_witness:
  "TargetFromDifficulty [1, 0, 0, 0, 0] = None
   \<and> (\<exists>q. TargetFromDifficulty [2, 0, 0, 0, 0] = Some (Inr q) \<and> uval q = 2 ^ 159 - 1)"
  using target_from_difficulty_exact [of "[1, 0, 0, 0, 0]"] target_from_difficulty_exact [of "[2, 0, 0, 0, 0]"]
  by (auto simp: uint160_ok_def uval_Cons)

text \<open>
  The work credited for a valid proof made at difficulty \<open>d\<close> is at least \<open>d\<close>, and it is finite and exact:
  the rounding of the two divisions never favours the target.
\<close>

theorem work_done_covers_difficulty:
  assumes "uint160_ok d" and "2 \<le> uval d" and "uval d < 2 ^ 159"
    and "SimpleWorkProof_new sd d = Some (Inr wp)"
    and "IsValidProofOfWork Hash160 (wp\<lparr>nonce := nc\<rparr>)"
  shows "\<exists>w. WorkDone Hash160 (wp\<lparr>nonce := nc\<rparr>) = Some (Inr w)
     \<and> uval w = (2 ^ 160 - 1) div ((2 ^ 160 - 1) div uval d) \<and> uval d \<le> uval w"
proof -
  obtain t where t: "DivideIntoMaxUint160 d = Some (Inr t)" "uint160_ok t" "uval t = (2 ^ 160 - 1) div uval d"
    using DivideIntoMaxUint160_cases(3) [OF assms(1,2)] by blast
  then have pt: "work_target wp = t" using assms(4) by (auto simp: SimpleWorkProof_new_def TargetFromDifficulty_def)
  have td: "uval d * uval t \<le> 2 ^ 160 - 1" unfolding t(3) by (rule times_div_less_eq_dividend)
  have "uval d * 2 \<le> 2 ^ 160 - 1" using assms(3) by simp
  then have two: "2 \<le> uval t" using assms(2) by (simp add: t(3) less_eq_div_iff_mult_less_eq mult.commute)
  then obtain w where w: "DivideIntoMaxUint160 t = Some (Inr w)" "uval w = (2 ^ 160 - 1) div uval t"
    using DivideIntoMaxUint160_cases(3) [OF t(2)] by blast
  moreover have "uval d \<le> uval w" using td two by (simp add: w(2) less_eq_div_iff_mult_less_eq)
  ultimately show ?thesis using assms(5) pt t(3) by (simp add: WorkDone_def DifficultyFromTarget_def)
qed

theorem work_done_covers_difficulty_witness:
  "\<exists>t w. SimpleWorkProof_new [0] [2, 0, 0, 0, 0] = Some (Inr \<lparr>seed = [0], nonce = u_of_u64 5 0, work_target = t\<rparr>)
     \<and> WorkDone (\<lambda>_. replicate 5 0) \<lparr>seed = [0], nonce = [7, 0, 0, 0, 0], work_target = t\<rparr> = Some (Inr w) \<and> 2 \<le> uval w"
proof -
  have d: "uint160_ok [2, 0, 0, 0, 0]" "uval [2, 0, 0, 0, 0] = 2" by (simp_all add: uint160_ok_def uval_Cons)
  then obtain t where t: "DivideIntoMaxUint160 [2, 0, 0, 0, 0] = Some (Inr t)" "uint160_ok t"
    using DivideIntoMaxUint160_cases(3) [OF d(1)] by auto
  let ?wp = "\<lparr>seed = [0], nonce = u_of_u64 5 0, work_target = t\<rparr>"
  have new: "SimpleWorkProof_new [0] [2, 0, 0, 0, 0] = Some (Inr ?wp)"
    by (simp add: SimpleWorkProof_new_def TargetFromDifficulty_def t(1))
  have "IsValidProofOfWork (\<lambda>_. replicate 5 0) (?wp\<lparr>nonce := [7, 0, 0, 0, 0]\<rparr>)"
    using t(2) by (simp add: IsValidProofOfWork_def GetHash160Value_def uint_simps uint160_ok_def)
  then show ?thesis
    using work_done_covers_difficulty [OF d(1) _ _ new, of "\<lambda>_. replicate 5 0" "[7, 0, 0, 0, 0]"] d new by auto
qed

text \<open>
  C38. What \<^verbatim>\<open>DoWork\<close> does, in the three ways it can go.  It returns true with the first nonce, counting from one,
  whose hash is within the target, if the flag stayed set until then, and the proof is then valid; it returns
  false with the proof unchanged if the flag is cleared first; and it fails to return only if the
  flag is never cleared and no nonce is good.
\<close>

theorem do_work_outcome:
  "case DoWork Hash160 working wp of
     None \<Rightarrow> \<forall>n. working n \<and> \<not> good_nonce Hash160 wp (trial (Suc n))
   | Some (succeeded, wp') \<Rightarrow>
       \<exists>n. (\<forall>k < n. working k \<and> \<not> good_nonce Hash160 wp (trial (Suc k)))
         \<and> (if succeeded
            then working n \<and> wp' = wp\<lparr>nonce := trial (Suc n)\<rparr> \<and> uval (nonce wp') = Suc n mod 2 ^ 160
                 \<and> IsValidProofOfWork Hash160 wp'
            else \<not> working n \<and> wp' = wp)"
proof (cases "\<exists>n. \<not> working n \<or> good_nonce Hash160 wp (trial (Suc n))")
  case True
  then obtain n where n: "\<not> working n \<or> good_nonce Hash160 wp (trial (Suc n))"
    and least: "\<forall>k < n. working k \<and> \<not> good_nonce Hash160 wp (trial (Suc k))"
    using exists_least_iff [of "\<lambda>n. \<not> working n \<or> good_nonce Hash160 wp (trial (Suc n))"] by blast
  have "do_work_loop Hash160 working wp 0 (trial 0) = do_work_loop Hash160 working wp n (trial n)"
    using do_work_loop_turns [of n working 0 Hash160 wp] least by simp
  also have "\<dots> = Some (if working n then Some (trial (Suc n)) else None)"
    using n by (subst do_work_loop_step) auto
  finally have "DoWork Hash160 working wp =
      Some (if working n then (True, wp\<lparr>nonce := trial (Suc n)\<rparr>) else (False, wp))"
    by (simp add: DoWork_def)
  then show ?thesis
    using n least uval_trial [of "Suc n"] by (auto simp: good_nonce_def simp del: trial.simps)
next
  case False
  then have "do_work_loop Hash160 working wp 0 (trial 0) \<noteq> Some r" for r
    using do_work_loop_returns [of Hash160 working wp 0 r] by blast
  then have "do_work_loop Hash160 working wp 0 (trial 0) = None" by (metis not_Some_eq)
  then have "DoWork Hash160 working wp = None" by (simp add: DoWork_def)
  then show ?thesis using False by simp
qed


theorem do_work_outcome_witness:
  "\<exists>wp. DoWork (\<lambda>bytes. [0, 0, 0, 0, 0]) (\<lambda>turn. True) SimpleWorkProof_default = Some (True, wp) \<and> uval (nonce wp) = 1"
proof -
  have good: "good_nonce (\<lambda>bytes. [0, 0, 0, 0, 0]) SimpleWorkProof_default nc" for nc
    by (simp add: good_nonce_def IsValidProofOfWork_def GetHash160Value_def SimpleWorkProof_default_def) code_simp
  show ?thesis
    using do_work_outcome [where ?Hash160.0 = "\<lambda>bytes. [0, 0, 0, 0, 0]" and working = "\<lambda>turn. True" and wp = SimpleWorkProof_default] good
    by (auto split: option.splits prod.splits if_splits) (auto dest: spec [of _ 0])
qed

end
