(* ===== verification/SecretSharing.thy ===== *)
theory SecretSharing
  imports Polynomial
begin

text \<open>
  The secret sharing of \<^verbatim>\<open>src/crypto/teleportcrypto.cpp\<close> and the encrypted pieces of secrets of
  \<^verbatim>\<open>teleportcrypto.h\<close>.  A point is a value of a type parameter; \<open>PointOf c n\<close> is \<^verbatim>\<open>Point(curve, n)\<close>, the
  multiple \<open>n\<close> of the generator of the curve \<open>c\<close>, and \<open>padd\<close>, \<open>smul\<close> and \<open>infinity\<close> are the operators of
  \<^verbatim>\<open>Point\<close>.  Undefined behaviour (an index out of range, a null pointer) is \<^const>\<open>None\<close>.
\<close>

section \<open>Sharing a key\<close>

text \<open>The constants of \<^verbatim>\<open>tradesecret.h\<close> depend on the build.\<close>

definition RelaysRequired :: "bool \<Rightarrow> nat \<Rightarrow> nat" where
  "RelaysRequired production relays_in_total =
     (if relays_in_total = 6 then 5
      else if relays_in_total = (if production then 34 else 5) then (if production then 31 else 4)
      else if relays_in_total = 4 then 3
      else 0)"

definition publics_from_privates :: "(u8 \<Rightarrow> int \<Rightarrow> 'p) \<Rightarrow> u8 \<Rightarrow> int list \<Rightarrow> 'p list" where
  "publics_from_privates PointOf c secrets = map (PointOf c) secrets"

record 'p shared_key =
  sk_pubkey :: 'p
  sk_secrets :: "int list"
  sk_coeffs :: "int list"
  sk_privkey :: int

text \<open>
  \<open>privkey\<close> is \<^const>\<open>None\<close> for the null pointer, which is the default argument and which the function writes
  through; \<^verbatim>\<open>coeffs[0]\<close> does not exist for a number of relays without a threshold.
\<close>

definition generate_key_with_secret_parts :: "bool \<Rightarrow> (u8 \<Rightarrow> int) \<Rightarrow> (u8 \<Rightarrow> int \<Rightarrow> 'p) \<Rightarrow> (nat \<Rightarrow> int) \<Rightarrow> u8 \<Rightarrow> int list \<Rightarrow> nat
    \<Rightarrow> int option \<Rightarrow> 'p shared_key option" where
  "generate_key_with_secret_parts production Modulus PointOf draw c secrets N privkey =
     (let poly = poly_randomize draw (BigNumPolynomial_zeros c (RelaysRequired production N))
      in if coefficients poly = [] then None
         else case privkey of
           None \<Rightarrow> None
         | Some given \<Rightarrow>
             let poly' = (if given \<noteq> 0 then poly\<lparr>coefficients := (coefficients poly)[0 := given]\<rparr> else poly);
                 coeffs = coefficients poly'
             in Some \<lparr>sk_pubkey = PointOf c (coeffs ! 0),
                      sk_secrets = secrets @ map (poly_evaluate Modulus poly') (PositiveIntegers N),
                      sk_coeffs = coeffs, sk_privkey = coeffs ! 0\<rparr>)"

section \<open>Recovering the private key\<close>

fun k_secret_parts_loop :: "(u8 \<Rightarrow> int) \<Rightarrow> (int \<Rightarrow> int \<Rightarrow> int) \<Rightarrow> u8 \<Rightarrow> int list \<Rightarrow> int list \<Rightarrow> nat list \<Rightarrow> int \<Rightarrow> int option" where
  "k_secret_parts_loop Modulus InverseMod c secrets x_values [] result = Some result"
| "k_secret_parts_loop Modulus InverseMod c secrets x_values (i # is) result =
     (case LagrangePoly Modulus InverseMod c i x_values of
        None \<Rightarrow> None
      | Some LPoly \<Rightarrow>
          let lagrangeCoeff = poly_evaluate Modulus LPoly 0;
              term1 = bn_mod (lagrangeCoeff * secrets ! i) (Modulus c)
          in k_secret_parts_loop Modulus InverseMod c secrets x_values is (bn_mod (term1 + result) (Modulus c)))"

definition SECP256K1 :: u8 where
  "SECP256K1 = 1"

text \<open>The result is the point returned and the private key that the call leaves in its argument.\<close>

definition generate_private_key_from_K_secret_parts :: "(u8 \<Rightarrow> int) \<Rightarrow> (int \<Rightarrow> int \<Rightarrow> int) \<Rightarrow> (u8 \<Rightarrow> int \<Rightarrow> 'p) \<Rightarrow> u8 \<Rightarrow> int
    \<Rightarrow> int list \<Rightarrow> int list \<Rightarrow> nat \<Rightarrow> ('p \<times> int) option" where
  "generate_private_key_from_K_secret_parts Modulus InverseMod PointOf c privkey secrets x_values K =
     (if length secrets < K then Some (PointOf SECP256K1 (- 1), privkey)
      else map_option (\<lambda>result. (PointOf c result, result))
             (k_secret_parts_loop Modulus InverseMod c secrets x_values [0..<K] 0))"

fun verify_loop :: "(u8 \<Rightarrow> int \<Rightarrow> 'p) \<Rightarrow> u8 \<Rightarrow> int list \<Rightarrow> 'p list \<Rightarrow> int list \<Rightarrow> nat list
    \<Rightarrow> int list \<Rightarrow> int list \<Rightarrow> nat list \<Rightarrow> (int list \<times> int list \<times> nat list) option" where
  "verify_loop PointOf c secrets commitments x_values [] verified x_inputs cheaters = Some (verified, x_inputs, cheaters)"
| "verify_loop PointOf c secrets commitments x_values (i # is) verified x_inputs cheaters =
     (case nth_opt secrets i of
        None \<Rightarrow> None
      | Some s \<Rightarrow>
          if s = 0 then verify_loop PointOf c secrets commitments x_values is verified x_inputs cheaters
          else case nth_opt commitments i of
                 None \<Rightarrow> None
               | Some commitment \<Rightarrow>
                   if PointOf c s \<noteq> commitment
                   then verify_loop PointOf c secrets commitments x_values is verified x_inputs (cheaters @ [i])
                   else verify_loop PointOf c secrets commitments x_values is (verified @ [s]) (x_inputs @ [x_values ! i]) cheaters)"

record n_parts_result =
  np_return :: int
  np_privkey :: int
  np_cheated :: bool
  np_cheaters :: "nat list"

definition generate_private_key_from_N_secret_parts :: "bool \<Rightarrow> (u8 \<Rightarrow> int) \<Rightarrow> (int \<Rightarrow> int \<Rightarrow> int) \<Rightarrow> (u8 \<Rightarrow> int \<Rightarrow> 'p) \<Rightarrow> u8 \<Rightarrow> int
    \<Rightarrow> int list \<Rightarrow> 'p list \<Rightarrow> nat \<Rightarrow> nat list \<Rightarrow> n_parts_result option" where
  "generate_private_key_from_N_secret_parts production Modulus InverseMod PointOf c privkey secrets commitments N cheaters =
     (case verify_loop PointOf c secrets commitments (PositiveIntegers N) [0..<N] [] [] cheaters of
        None \<Rightarrow> None
      | Some (verified_secrets, x_inputs, cheaters') \<Rightarrow>
          let K = RelaysRequired production N; cheated = (0 < length cheaters')
          in if length verified_secrets < K
             then Some \<lparr>np_return = - 1, np_privkey = privkey, np_cheated = cheated, np_cheaters = cheaters'\<rparr>
             else map_option (\<lambda>(pubkey, privkey'). \<lparr>np_return = 1, np_privkey = privkey', np_cheated = cheated, np_cheaters = cheaters'\<rparr>)
                    (generate_private_key_from_K_secret_parts Modulus InverseMod PointOf c privkey
                       (take K verified_secrets) (take K x_inputs) K))"

section \<open>Recovering the public key\<close>

fun k_point_values_loop :: "(u8 \<Rightarrow> int) \<Rightarrow> (int \<Rightarrow> int \<Rightarrow> int) \<Rightarrow> ('p \<Rightarrow> 'p \<Rightarrow> 'p) \<Rightarrow> (int \<Rightarrow> 'p \<Rightarrow> 'p) \<Rightarrow> u8 \<Rightarrow> 'p list \<Rightarrow> int list
    \<Rightarrow> nat list \<Rightarrow> 'p \<Rightarrow> 'p option" where
  "k_point_values_loop Modulus InverseMod padd smul c point_values x_values [] pubkey = Some pubkey"
| "k_point_values_loop Modulus InverseMod padd smul c point_values x_values (i # is) pubkey =
     (case LagrangePoly Modulus InverseMod c i x_values of
        None \<Rightarrow> None
      | Some LPoly \<Rightarrow>
          (case nth_opt point_values i of
             None \<Rightarrow> None
           | Some v \<Rightarrow> k_point_values_loop Modulus InverseMod padd smul c point_values x_values is
                        (padd (smul (poly_evaluate Modulus LPoly 0) v) pubkey)))"

definition generate_public_key_from_K_polynomial_point_values :: "(u8 \<Rightarrow> int) \<Rightarrow> (int \<Rightarrow> int \<Rightarrow> int) \<Rightarrow> ('p \<Rightarrow> 'p \<Rightarrow> 'p)
    \<Rightarrow> (int \<Rightarrow> 'p \<Rightarrow> 'p) \<Rightarrow> 'p \<Rightarrow> u8 \<Rightarrow> 'p list \<Rightarrow> int list \<Rightarrow> nat \<Rightarrow> 'p option" where
  "generate_public_key_from_K_polynomial_point_values Modulus InverseMod padd smul infinity c point_values x_values K =
     k_point_values_loop Modulus InverseMod padd smul c point_values x_values [0..<K] infinity"

text \<open>The two \<^verbatim>\<open>resize(K)\<close> shorten, because \<^const>\<open>RelaysRequired\<close> never exceeds its argument.\<close>

definition confirm_public_key_with_N_polynomial_point_values :: "bool \<Rightarrow> (u8 \<Rightarrow> int) \<Rightarrow> (int \<Rightarrow> int \<Rightarrow> int) \<Rightarrow> ('p \<Rightarrow> 'p \<Rightarrow> 'p)
    \<Rightarrow> (int \<Rightarrow> 'p \<Rightarrow> 'p) \<Rightarrow> 'p \<Rightarrow> ('p \<Rightarrow> u8) \<Rightarrow> 'p \<Rightarrow> 'p list \<Rightarrow> nat \<Rightarrow> bool option" where
  "confirm_public_key_with_N_polynomial_point_values production Modulus InverseMod padd smul infinity curve_of pubkey point_values N =
     (case point_values of
        [] \<Rightarrow> None
      | v # _ \<Rightarrow>
          if length point_values \<noteq> N then Some False
          else let K = RelaysRequired production N
               in map_option (\<lambda>pubkey'. pubkey' = pubkey)
                    (generate_public_key_from_K_polynomial_point_values Modulus InverseMod padd smul infinity (curve_of v)
                       (take K point_values) (take K (PositiveIntegers N)) K))"

section \<open>Pieces of secrets\<close>

text \<open>\<^verbatim>\<open>Hash(Point)\<close> and \<^verbatim>\<open>Hash(CBigNum)\<close> of \<^verbatim>\<open>bignum_hashes.h\<close> are the parameters \<open>HashP\<close> and \<open>HashN\<close>.\<close>

record 'p piece_of_secret =
  credit_pubkey :: 'p
  currency_pubkey :: 'p
  credit_secret_xor_shared_secret :: int
  currency_secret_xor_hash_of_credit_secret :: int

definition PieceOfSecret_new :: "(u8 \<Rightarrow> int \<Rightarrow> 'p) \<Rightarrow> (int \<Rightarrow> 'p \<Rightarrow> 'p) \<Rightarrow> ('p \<Rightarrow> int) \<Rightarrow> (int \<Rightarrow> int) \<Rightarrow> int \<Rightarrow> int \<Rightarrow> 'p \<Rightarrow> u8 \<Rightarrow> 'p piece_of_secret" where
  "PieceOfSecret_new PointOf smul HashP HashN credit_secret currency_secret recipient currency_curve =
     \<lparr>credit_pubkey = PointOf SECP256K1 credit_secret,
      currency_pubkey = PointOf currency_curve currency_secret,
      credit_secret_xor_shared_secret = bn_xor credit_secret (HashP (smul credit_secret recipient)),
      currency_secret_xor_hash_of_credit_secret = bn_xor currency_secret (HashN credit_secret)\<rparr>"

definition PieceOfSecret_RecoverSecrets :: "(u8 \<Rightarrow> int \<Rightarrow> 'p) \<Rightarrow> (int \<Rightarrow> 'p \<Rightarrow> 'p) \<Rightarrow> ('p \<Rightarrow> int) \<Rightarrow> (int \<Rightarrow> int) \<Rightarrow> ('p \<Rightarrow> u8)
    \<Rightarrow> int \<Rightarrow> 'p piece_of_secret \<Rightarrow> bool \<times> int \<times> int" where
  "PieceOfSecret_RecoverSecrets PointOf smul HashP HashN curve_of recipient_privkey piece =
     (let shared_secret = HashP (smul recipient_privkey (credit_pubkey piece));
          credit_secret = bn_xor (credit_secret_xor_shared_secret piece) shared_secret;
          currency_secret = bn_xor (currency_secret_xor_hash_of_credit_secret piece) (HashN credit_secret)
      in (credit_pubkey piece = PointOf (curve_of (credit_pubkey piece)) credit_secret \<and>
          currency_pubkey piece = PointOf (curve_of (currency_pubkey piece)) currency_secret,
          credit_secret, currency_secret))"

definition RevelationOfPieceOfSecret_new :: "(int \<Rightarrow> 'p \<Rightarrow> 'p) \<Rightarrow> ('p \<Rightarrow> int) \<Rightarrow> 'p \<Rightarrow> int \<Rightarrow> int" where
  "RevelationOfPieceOfSecret_new smul HashP recipient credit_secret =
     bn_xor credit_secret (HashP (smul credit_secret recipient))"

definition Revelation_RecoverSecrets :: "(u8 \<Rightarrow> int \<Rightarrow> 'p) \<Rightarrow> (int \<Rightarrow> 'p \<Rightarrow> 'p) \<Rightarrow> ('p \<Rightarrow> int) \<Rightarrow> (int \<Rightarrow> int) \<Rightarrow> ('p \<Rightarrow> u8)
    \<Rightarrow> int \<Rightarrow> 'p piece_of_secret \<Rightarrow> int \<Rightarrow> bool \<times> int \<times> int" where
  "Revelation_RecoverSecrets PointOf smul HashP HashN curve_of recipient_privkey piece credit_secret_xor_second_shared_secret =
     (let second_shared_secret = HashP (smul recipient_privkey (credit_pubkey piece));
          credit_secret = bn_xor credit_secret_xor_second_shared_secret second_shared_secret;
          currency_secret = bn_xor (currency_secret_xor_hash_of_credit_secret piece) (HashN credit_secret)
      in (credit_pubkey piece = PointOf (curve_of (credit_pubkey piece)) credit_secret \<and>
          currency_pubkey piece = PointOf (curve_of (currency_pubkey piece)) currency_secret,
          credit_secret, currency_secret))"


section \<open>The loops compute the Lagrange sum\<close>

lemma k_secret_parts_loop_sum:
  assumes "inverse_law minv (Modulus c)" and "\<forall>v \<in> set xs. 0 \<le> v" and "\<forall>s \<in> set secrets. 0 \<le> s"
    and "\<forall>i \<in> set is. i < length xs \<and> i < length secrets" and "0 \<le> r" and "r < Modulus c"
  shows "k_secret_parts_loop Modulus minv c secrets xs is r =
     Some ((r + (\<Sum>j\<leftarrow>is. lagrange_coefficient minv (Modulus c) xs j * secrets ! j)) mod Modulus c)"
  using assms(4-)
proof (induction "is" arbitrary: r)
  case (Cons i "is")
  let ?m = "Modulus c"
  have m: "0 < ?m" using assms(1) by (simp add: inverse_law_def)
  obtain L where L: "LagrangePoly Modulus minv c i xs = Some L"
    "poly_evaluate Modulus L 0 = lagrange_coefficient minv ?m xs i mod ?m"
    using LagrangePoly_at_zero [of minv Modulus c xs i] assms(1,2) Cons.prems by auto
  have s: "0 \<le> secrets ! i" using assms(3) Cons.prems by simp
  let ?t = "poly_evaluate Modulus L 0 * secrets ! i mod ?m"
  have "k_secret_parts_loop Modulus minv c secrets xs (i # is) r =
      k_secret_parts_loop Modulus minv c secrets xs is ((?t + r) mod ?m)"
    using L s m Cons.prems by simp
  also have "\<dots> = Some (((?t + r) mod ?m + (\<Sum>j\<leftarrow>is. lagrange_coefficient minv ?m xs j * secrets ! j)) mod ?m)"
    using Cons.IH [of "(?t + r) mod ?m"] Cons.prems m by simp
  finally show ?case
    unfolding L(2) by (simp add: mod_simps ac_simps)
qed simp

lemma share_sum:
  assumes "inverse_law minv m" and "distinct (map (\<lambda>x. x mod m) xs)" and "length cs \<le> length xs" and "length xs = K"
    and "\<forall>j < length xs. secrets ! j mod m = peval cs (xs ! j) mod m"
  shows "(\<Sum>j\<leftarrow>[0..<K]. lagrange_coefficient minv m xs j * secrets ! j) mod m = peval cs 0 mod m"
proof -
  have eq: "secrets ! j * lagrange_coefficient minv m xs j mod m = peval cs (xs ! j) * lagrange_coefficient minv m xs j mod m"
    if "j < K" for j
    using assms(4,5) that by (intro mod_mult_cong) auto
  have "(\<Sum>j\<leftarrow>[0..<K]. lagrange_coefficient minv m xs j * secrets ! j) mod m =
      (\<Sum>j<K. secrets ! j * lagrange_coefficient minv m xs j) mod m"
    by (simp add: interv_sum_list_conv_sum_set_nat atLeast0LessThan mult.commute)
  also have "\<dots> = (\<Sum>j<K. (secrets ! j * lagrange_coefficient minv m xs j) mod m) mod m" by (simp add: mod_sum_eq)
  also have "\<dots> = (\<Sum>j<K. (peval cs (xs ! j) * lagrange_coefficient minv m xs j) mod m) mod m"
    using eq by (metis (no_types, lifting) sum.cong lessThan_iff)
  also have "\<dots> = peval cs 0 mod m"
    using lagrange_at_zero [OF assms(1,2,3)] assms(4) by (simp add: mod_sum_eq)
  finally show ?thesis .
qed

lemma private_key_from_shares:
  assumes "inverse_law minv (Modulus c)" and "\<forall>v \<in> set xs. 0 \<le> v" and "distinct (map (\<lambda>x. x mod Modulus c) xs)"
    and "length cs \<le> length xs" and "length secrets = length xs" and "length xs = K" and "\<forall>s \<in> set secrets. 0 \<le> s"
    and "\<forall>j < length xs. secrets ! j mod Modulus c = peval cs (xs ! j) mod Modulus c"
  shows "generate_private_key_from_K_secret_parts Modulus minv PointOf c privkey secrets xs K =
     Some (PointOf c (peval cs 0 mod Modulus c), peval cs 0 mod Modulus c)"
proof -
  have "0 < Modulus c" using assms(1) by (simp add: inverse_law_def)
  then show ?thesis
    using k_secret_parts_loop_sum [of minv Modulus c xs secrets "[0..<K]" 0] assms
      share_sum [of minv "Modulus c" xs cs K secrets]
    by (simp add: generate_private_key_from_K_secret_parts_def)
qed

section \<open>The shares that are handed out\<close>

lemma RelaysRequired_le: "RelaysRequired production N \<le> N"
  by (simp add: RelaysRequired_def)

lemma generated_key:
  assumes "generate_key_with_secret_parts production Modulus PointOf draw c [] N (Some given) = Some key"
    and "0 < Modulus c" and "\<forall>i. 0 \<le> draw i" and "0 \<le> given"
  shows "length (sk_coeffs key) = RelaysRequired production N" and "sk_privkey key = peval (sk_coeffs key) 0"
    and "length (sk_secrets key) = N" and "sk_pubkey key = PointOf c (sk_privkey key)"
    and "i < N \<Longrightarrow> sk_secrets key ! i = peval (sk_coeffs key) (int i + 1) mod Modulus c"
    and "0 < RelaysRequired production N"
proof -
  define K where "K = RelaysRequired production N"
  define cs where "cs = (if given \<noteq> 0 then (map draw [0..<K])[0 := given] else map draw [0..<K])"
  have K: "0 < K" and key: "key = \<lparr>sk_pubkey = PointOf c (cs ! 0),
      sk_secrets = map (poly_evaluate Modulus \<lparr>curve = c, coefficients = cs\<rparr>) (PositiveIntegers N),
      sk_coeffs = cs, sk_privkey = cs ! 0\<rparr>"
    using assms(1) by (auto simp: generate_key_with_secret_parts_def Let_def poly_randomize_def BigNumPolynomial_zeros_def
        cs_def K_def split: if_splits)
  have len: "length cs = K" by (simp add: cs_def)
  have "\<forall>x \<in> set cs. 0 \<le> x"
    using assms(3,4) by (auto simp: cs_def dest!: set_update_subset_insert [THEN subsetD] split: if_splits)
  then have "poly_evaluate Modulus \<lparr>curve = c, coefficients = cs\<rparr> x = peval cs x mod Modulus c" if "0 \<le> x" for x
    using poly_evaluate_eq [of Modulus "\<lparr>curve = c, coefficients = cs\<rparr>" x] assms(2) that by simp
  then show "i < N \<Longrightarrow> sk_secrets key ! i = peval (sk_coeffs key) (int i + 1) mod Modulus c"
    by (simp add: key PositiveIntegers_eq)
  show "0 < RelaysRequired production N" using K by (simp add: K_def)
  show "length (sk_coeffs key) = RelaysRequired production N" "length (sk_secrets key) = N"
    "sk_pubkey key = PointOf c (sk_privkey key)" using len by (simp_all add: key K_def PositiveIntegers_eq)
  show "sk_privkey key = peval (sk_coeffs key) 0" using K len by (cases cs) (simp_all add: key)
qed

lemma positions_distinct:
  assumes "distinct positions" and "set positions \<subseteq> {..<N}" and "int N < m"
  shows "distinct (map (\<lambda>x. x mod m) (map (\<lambda>i. int i + 1) positions))"
proof -
  have "(int i + 1) mod m = int i + 1" if "i \<in> set positions" for i
    using assms(2,3) subsetD [OF assms(2) that] by simp
  then have "inj_on (\<lambda>i. (int i + 1) mod m) (set positions)" by (simp add: inj_on_def)
  then show ?thesis using assms(1) by (simp add: distinct_map comp_def)
qed


text \<open>The private key from any shares that are correct modulo the curve's order.\<close>

lemma private_key_from_positions:
  assumes "generate_key_with_secret_parts production Modulus PointOf draw c [] N (Some given) = Some key"
    and "inverse_law minv (Modulus c)" and "\<forall>i. 0 \<le> draw i" and "0 \<le> given" and "int N < Modulus c"
    and "distinct positions" and "set positions \<subseteq> {..<N}" and "length positions = RelaysRequired production N"
    and "\<forall>i \<in> set positions. 0 \<le> revealed ! i \<and> revealed ! i mod Modulus c = sk_secrets key ! i"
  shows "generate_private_key_from_K_secret_parts Modulus minv PointOf c privkey
      (map ((!) revealed) positions) (map (\<lambda>i. int i + 1) positions) (RelaysRequired production N) =
     Some (PointOf c (sk_privkey key mod Modulus c), sk_privkey key mod Modulus c)"
proof -
  have "0 < Modulus c" using assms(2) by (simp add: inverse_law_def)
  note key = generated_key [OF assms(1) this assms(3,4)]
  have share: "revealed ! (positions ! j) mod Modulus c = peval (sk_coeffs key) (int (positions ! j) + 1) mod Modulus c"
    if "j < length positions" for j
  proof -
    have "positions ! j \<in> set positions" using that by simp
    moreover have "positions ! j < N" using calculation assms(7) by auto
    ultimately show ?thesis using key(5) [of "positions ! j"] assms(9) by simp
  qed
  show ?thesis
    using private_key_from_shares [of minv Modulus c "map (\<lambda>i. int i + 1) positions" "sk_coeffs key"
        "map ((!) revealed) positions" "RelaysRequired production N" PointOf privkey]
      positions_distinct [OF assms(6,7,5)] assms(2,8,9) key(1,2) share by simp
qed

lemma verify_loop_eq:
  assumes "\<forall>i \<in> set is. i < length secrets \<and> i < length commitments"
  shows "verify_loop PointOf c secrets commitments xs is v x ch =
     (let good = filter (\<lambda>i. secrets ! i \<noteq> 0 \<and> PointOf c (secrets ! i) = commitments ! i) is;
          bad = filter (\<lambda>i. secrets ! i \<noteq> 0 \<and> PointOf c (secrets ! i) \<noteq> commitments ! i) is
      in Some (v @ map ((!) secrets) good, x @ map ((!) xs) good, ch @ bad))"
  using assms by (induction "is" arbitrary: v x ch) (auto simp: Let_def)

section \<open>The public key\<close>

text \<open>What the operators of \<^verbatim>\<open>Point\<close> satisfy on a curve of prime order \<open>m\<close>.\<close>

definition point_laws :: "(u8 \<Rightarrow> int \<Rightarrow> 'p) \<Rightarrow> ('p \<Rightarrow> 'p \<Rightarrow> 'p) \<Rightarrow> (int \<Rightarrow> 'p \<Rightarrow> 'p) \<Rightarrow> 'p \<Rightarrow> ('p \<Rightarrow> u8) \<Rightarrow> u8 \<Rightarrow> int \<Rightarrow> bool" where
  "point_laws PointOf padd smul infinity curve_of c m \<longleftrightarrow>
     (\<forall>a b. padd (PointOf c a) (PointOf c b) = PointOf c (a + b)) \<and>
     (\<forall>k a. smul k (PointOf c a) = PointOf c (k * a)) \<and> infinity = PointOf c 0 \<and>
     (\<forall>a. curve_of (PointOf c a) = c) \<and> (\<forall>a b. PointOf c a = PointOf c b \<longleftrightarrow> a mod m = b mod m)"

lemma k_point_values_loop_sum:
  assumes "point_laws PointOf padd smul infinity curve_of c (Modulus c)" and "inverse_law minv (Modulus c)"
    and "\<forall>v \<in> set xs. 0 \<le> v" and "\<forall>i \<in> set is. i < length xs \<and> i < length secrets"
  shows "k_point_values_loop Modulus minv padd smul c (map (PointOf c) secrets) xs is (PointOf c r) =
     Some (PointOf c (r + (\<Sum>j\<leftarrow>is. lagrange_coefficient minv (Modulus c) xs j * secrets ! j)))"
  using assms(4)
proof (induction "is" arbitrary: r)
  case (Cons i "is")
  let ?l = "lagrange_coefficient minv (Modulus c) xs"
  obtain L where L: "LagrangePoly Modulus minv c i xs = Some L" "poly_evaluate Modulus L 0 = ?l i mod Modulus c"
    using LagrangePoly_at_zero [of minv Modulus c xs i] assms(2,3) Cons.prems by auto
  have "(?l i mod Modulus c * secrets ! i + r) mod Modulus c = (r + ?l i * secrets ! i) mod Modulus c"
    by (subst add.commute) (intro mod_add_cong mod_mult_cong, simp_all)
  then have "padd (smul (poly_evaluate Modulus L 0) (PointOf c (secrets ! i))) (PointOf c r) =
      PointOf c (r + ?l i * secrets ! i)"
    using assms(1) by (simp add: point_laws_def L(2))
  then show ?case using Cons.IH [of "r + ?l i * secrets ! i"] Cons.prems L(1) by (simp add: add.assoc)
qed simp


section \<open>Properties\<close>

text \<open>
  C9. The threshold scheme recovers the key.  Whatever the random coefficients, any selection of the required number
  of distinct positions of the shares that \<^verbatim>\<open>generate_key_with_secret_parts\<close> hands out gives back the private key,
  reduced modulo the order of the curve, although the Lagrange polynomials that the code builds are truncated.
\<close>

theorem secret_recovery:
  assumes "generate_key_with_secret_parts production Modulus PointOf draw c [] N (Some given) = Some key"
    and "inverse_law InverseMod (Modulus c)" and "\<forall>i. 0 \<le> draw i" and "0 \<le> given" and "int N < Modulus c"
    and "distinct positions" and "set positions \<subseteq> {..<N}" and "length positions = RelaysRequired production N"
  shows "generate_private_key_from_K_secret_parts Modulus InverseMod PointOf c privkey
      (map ((!) (sk_secrets key)) positions) (map (\<lambda>i. int i + 1) positions) (RelaysRequired production N) =
     Some (PointOf c (sk_privkey key mod Modulus c), sk_privkey key mod Modulus c)"
proof -
  have m: "0 < Modulus c" using assms(2) by (simp add: inverse_law_def)
  note key = generated_key [OF assms(1) m assms(3,4)]
  have "0 \<le> sk_secrets key ! i \<and> sk_secrets key ! i mod Modulus c = sk_secrets key ! i" if "i \<in> set positions" for i
    using key(5) [of i] that assms(7) m by auto
  then show ?thesis using private_key_from_positions [OF assms] by blast
qed

text \<open>
  C21. Recovery from all the parts, some missing and some forged.  A part of zero counts as missing; a part that
  does not match its commitment is listed as a cheater, and only such parts are; when enough parts match,
  the call returns 1 with the private key, and otherwise -1 with the key argument untouched.
\<close>

theorem recovery_with_cheaters:
  assumes "generate_key_with_secret_parts production Modulus PointOf draw c [] N (Some given) = Some key"
    and "inverse_law InverseMod (Modulus c)" and "\<forall>i. 0 \<le> draw i" and "0 \<le> given" and "int N < Modulus c"
    and "\<forall>a b. PointOf c a = PointOf c b \<longleftrightarrow> a mod Modulus c = b mod Modulus c"
    and "length revealed = N" and "\<forall>s \<in> set revealed. 0 \<le> s"
    and "honest = filter (\<lambda>i. revealed ! i \<noteq> 0 \<and> revealed ! i mod Modulus c = sk_secrets key ! i) [0..<N]"
    and "forged = filter (\<lambda>i. revealed ! i \<noteq> 0 \<and> revealed ! i mod Modulus c \<noteq> sk_secrets key ! i) [0..<N]"
  shows "generate_private_key_from_N_secret_parts production Modulus InverseMod PointOf c privkey revealed
      (publics_from_privates PointOf c (sk_secrets key)) N [] =
     Some (if length honest < RelaysRequired production N
           then \<lparr>np_return = - 1, np_privkey = privkey, np_cheated = (forged \<noteq> []), np_cheaters = forged\<rparr>
           else \<lparr>np_return = 1, np_privkey = sk_privkey key mod Modulus c, np_cheated = (forged \<noteq> []), np_cheaters = forged\<rparr>)"
proof -
  let ?K = "RelaysRequired production N"
  have m: "0 < Modulus c" using assms(2) by (simp add: inverse_law_def)
  note key = generated_key [OF assms(1) m assms(3,4)]
  have eq: "PointOf c (revealed ! i) = publics_from_privates PointOf c (sk_secrets key) ! i \<longleftrightarrow>
      revealed ! i mod Modulus c = sk_secrets key ! i" if "i < N" for i
    using key(3) key(5) [OF that] assms(6) that by (simp add: publics_from_privates_def)
  have "filter (\<lambda>i. revealed ! i \<noteq> 0 \<and> PointOf c (revealed ! i) = publics_from_privates PointOf c (sk_secrets key) ! i) [0..<N] = honest"
    "filter (\<lambda>i. revealed ! i \<noteq> 0 \<and> PointOf c (revealed ! i) \<noteq> publics_from_privates PointOf c (sk_secrets key) ! i) [0..<N] = forged"
    using eq unfolding assms(9,10) by (auto intro!: filter_cong)
  then have verify: "verify_loop PointOf c revealed (publics_from_privates PointOf c (sk_secrets key)) (PositiveIntegers N) [0..<N] [] [] [] =
      Some (map ((!) revealed) honest, map (\<lambda>i. int i + 1) honest, forged)"
    using verify_loop_eq [of "[0..<N]" revealed "publics_from_privates PointOf c (sk_secrets key)" PointOf c "PositiveIntegers N" "[]" "[]" "[]"]
      key(3) assms(7) by (auto simp: Let_def publics_from_privates_def PositiveIntegers_eq assms(9))
  show ?thesis
  proof (cases "length honest < ?K")
    case False
    have "distinct (take ?K honest)" "set (take ?K honest) \<subseteq> {..<N}"
      "\<forall>i \<in> set (take ?K honest). 0 \<le> revealed ! i \<and> revealed ! i mod Modulus c = sk_secrets key ! i"
      using assms(7,8) by (auto simp: assms(9) dest!: in_set_takeD)
    then show ?thesis
      using private_key_from_positions [OF assms(1-5), of "take ?K honest" revealed privkey] False verify
      by (auto simp: generate_private_key_from_N_secret_parts_def Let_def take_map)
  qed (use verify in \<open>simp add: generate_private_key_from_N_secret_parts_def Let_def\<close>)
qed

text \<open>
  The public check of a shared key.  Given the points of all the shares, \<^verbatim>\<open>confirm_public_key_with_N_polynomial_point_values\<close>
  accepts a public key exactly when it is the point of the private key that was shared.
\<close>

theorem confirm_public_key_exact:
  assumes "generate_key_with_secret_parts production Modulus PointOf draw c [] N (Some given) = Some key"
    and "inverse_law InverseMod (Modulus c)" and "\<forall>i. 0 \<le> draw i" and "0 \<le> given" and "int N < Modulus c"
    and "point_laws PointOf padd smul infinity curve_of c (Modulus c)"
  shows "confirm_public_key_with_N_polynomial_point_values production Modulus InverseMod padd smul infinity curve_of claimed
      (publics_from_privates PointOf c (sk_secrets key)) N = Some (claimed = sk_pubkey key)"
proof -
  let ?K = "RelaysRequired production N" and ?l = "lagrange_coefficient InverseMod (Modulus c) (take (RelaysRequired production N) (PositiveIntegers N))"
  have m: "0 < Modulus c" using assms(2) by (simp add: inverse_law_def)
  note key = generated_key [OF assms(1) m assms(3,4)]
  have le: "?K \<le> N" by (rule RelaysRequired_le)
  have xs: "take ?K (PositiveIntegers N) = map (\<lambda>i. int i + 1) [0..<?K]"
    using le by (simp add: PositiveIntegers_eq take_map)
  have "distinct (map (\<lambda>x. x mod Modulus c) (take ?K (PositiveIntegers N)))"
    unfolding xs using le assms(5) by (intro positions_distinct [of _ N]) auto
  then have "(\<Sum>j\<leftarrow>[0..<?K]. ?l j * sk_secrets key ! j) mod Modulus c = sk_privkey key mod Modulus c"
    using share_sum [of InverseMod "Modulus c" "take ?K (PositiveIntegers N)" "sk_coeffs key" ?K "sk_secrets key"]
      assms(2) key(1,2,5) le by (simp add: xs)
  moreover have "(\<Sum>j\<leftarrow>[0..<?K]. ?l j * take ?K (sk_secrets key) ! j) = (\<Sum>j\<leftarrow>[0..<?K]. ?l j * sk_secrets key ! j)"
    by (intro arg_cong [of _ _ sum_list] map_cong) auto
  ultimately have "k_point_values_loop Modulus InverseMod padd smul c (take ?K (map (PointOf c) (sk_secrets key)))
      (take ?K (PositiveIntegers N)) [0..<?K] infinity = Some (PointOf c (sk_privkey key))"
    using k_point_values_loop_sum [of PointOf padd smul infinity curve_of c Modulus InverseMod "take ?K (PositiveIntegers N)" "[0..<?K]"
        "take ?K (sk_secrets key)" 0] assms(2,6) key(3) le
    by (simp add: xs take_map point_laws_def)
  moreover obtain s ss where "sk_secrets key = s # ss"
    using key(3,6) le by (cases "sk_secrets key") auto
  ultimately show ?thesis
    using key(3,4) assms(6)
    by (auto simp: confirm_public_key_with_N_polynomial_point_values_def generate_public_key_from_K_polynomial_point_values_def
        publics_from_privates_def Let_def point_laws_def)
qed


subsection \<open>A small instance\<close>

definition demo_inverse :: "int \<Rightarrow> int \<Rightarrow> int" where
  "demo_inverse d m = d ^ 5 mod m"

definition demo_point :: "u8 \<Rightarrow> int \<Rightarrow> int" where
  "demo_point c n = n mod 7"

definition demo_key :: "int shared_key" where
  "demo_key = \<lparr>sk_pubkey = 5, sk_secrets = [5, 6, 1, 4], sk_coeffs = [5, 3, 4], sk_privkey = 5\<rparr>"

lemma demo_inverse_law: "inverse_law demo_inverse 7"
proof -
  have "(d * (d ^ 5 mod 7)) mod 7 = 1" if "\<not> 7 dvd d" for d :: int
  proof -
    have "d mod 7 = 1 \<or> d mod 7 = 2 \<or> d mod 7 = 3 \<or> d mod 7 = 4 \<or> d mod 7 = 5 \<or> d mod 7 = 6"
      using that by presburger
    moreover have "(d * (d ^ 5 mod 7)) mod 7 = (d mod 7) ^ 6 mod 7"
      by (simp add: mod_mult_right_eq power_mod flip: power_Suc)
    ultimately show ?thesis by auto
  qed
  then show ?thesis by (simp add: inverse_law_def demo_inverse_def)
qed

lemma demo_generate:
  "generate_key_with_secret_parts False (\<lambda>_. 7) demo_point (\<lambda>i. int i + 2) 1 [] 4 (Some 5) = Some demo_key"
  by code_simp

theorem secret_recovery_witness:
  "generate_private_key_from_K_secret_parts (\<lambda>_. 7) demo_inverse demo_point 1 0 [4, 5, 1] [4, 1, 3] 3 = Some (5, 5)"
  using secret_recovery [OF demo_generate, of demo_inverse "[3, 0, 2]" 0] demo_inverse_law
  by (simp add: demo_key_def demo_point_def RelaysRequired_def)

theorem recovery_with_cheaters_witness:
  "generate_private_key_from_N_secret_parts False (\<lambda>_. 7) demo_inverse demo_point 1 0 [5, 2, 1, 4] [5, 6, 1, 4] 4 [] =
     Some \<lparr>np_return = 1, np_privkey = 5, np_cheated = True, np_cheaters = [1]\<rparr>"
  using recovery_with_cheaters [OF demo_generate, of demo_inverse "[5, 2, 1, 4]" "[0, 2, 3]" "[1]" 0] demo_inverse_law
  by (simp add: demo_key_def demo_point_def RelaysRequired_def publics_from_privates_def upt_rec numeral_eq_Suc)

theorem confirm_public_key_exact_witness:
  "confirm_public_key_with_N_polynomial_point_values False (\<lambda>_. 7) demo_inverse (\<lambda>a b. (a + b) mod 7) (\<lambda>k a. k * a mod 7) 0 (\<lambda>_. 1) 5
     [5, 6, 1, 4] 4 = Some True"
proof -
  have "point_laws demo_point (\<lambda>a b. (a + b) mod 7) (\<lambda>k a. k * a mod 7) 0 (\<lambda>_. 1) 1 7"
    by (simp add: point_laws_def demo_point_def mod_simps)
  then show ?thesis
    using confirm_public_key_exact [OF demo_generate, of demo_inverse] demo_inverse_law
    by (simp add: demo_key_def demo_point_def publics_from_privates_def)
qed

text \<open>
  The Lagrange polynomials themselves are wrong beyond their constant coefficient.  Because the two polynomials
  that \<^verbatim>\<open>LagrangePoly\<close> swaps keep their sizes, one and two, and \<^verbatim>\<open>addBigNumPolynomial\<close> drops what does not fit, the
  polynomial for three points is a constant: it does not vanish at the other points.
\<close>

theorem lagrange_polynomial_truncated:
  "\<exists>L. LagrangePoly (\<lambda>_. 7) demo_inverse 1 0 [1, 2, 3] = Some L \<and> length (coefficients L) = 1
     \<and> poly_evaluate (\<lambda>_. 7) L 2 = 3 \<and> poly_evaluate (\<lambda>_. 7) L 0 = 3"
  by (intro exI [of _ "the (LagrangePoly (\<lambda>_. 7) demo_inverse 1 0 [1, 2, 3])"]) code_simp

text \<open>
  The encrypted pieces round trip.  The recipient whose public key a piece was made for recovers both secrets, and
  the check against the public keys in the piece succeeds; the same holds of a later revelation of the piece to a
  second recipient.
\<close>

theorem piece_of_secret_roundtrip:
  assumes "0 \<le> credit_secret" and "0 \<le> currency_secret" and "\<forall>p. 0 \<le> HashP p" and "\<forall>n. 0 \<le> HashN n"
    and "\<forall>c a b. smul a (PointOf c b) = PointOf c (a * b)" and "\<forall>c n. curve_of (PointOf c n) = c"
    and "piece = PieceOfSecret_new PointOf smul HashP HashN credit_secret currency_secret (PointOf SECP256K1 privkey) currency_curve"
    and "revelation = RevelationOfPieceOfSecret_new smul HashP (PointOf SECP256K1 privkey2) credit_secret"
  shows "PieceOfSecret_RecoverSecrets PointOf smul HashP HashN curve_of privkey piece = (True, credit_secret, currency_secret)
    \<and> Revelation_RecoverSecrets PointOf smul HashP HashN curve_of privkey2 piece revelation = (True, credit_secret, currency_secret)"
proof -
  have x: "bn_xor (bn_xor a b) b = a" if "0 \<le> a" "0 \<le> b" for a b
    using that by (simp add: bn_xor_eq ac_simps)
  show ?thesis
    using assms by (simp add: PieceOfSecret_RecoverSecrets_def Revelation_RecoverSecrets_def PieceOfSecret_new_def
        RevelationOfPieceOfSecret_new_def Let_def x mult.commute)
qed

theorem piece_of_secret_roundtrip_witness:
  "PieceOfSecret_RecoverSecrets Pair (\<lambda>k (c, n). (c, k * n)) (\<lambda>p. 9) (\<lambda>n. 6) fst 3
     (PieceOfSecret_new Pair (\<lambda>k (c, n). (c, k * n)) (\<lambda>p. 9) (\<lambda>n. 6) 20 30 (SECP256K1, 3) 2) = (True, 20, 30)"
  using piece_of_secret_roundtrip [of 20 30 "\<lambda>p. 9" "\<lambda>n. 6" "\<lambda>k (c, n). (c, k * n)" Pair fst _ 3 2 _ 0] by simp

end
