(* ===== verification/Base58.thy ===== *)
theory Base58
  imports Uint
begin

text \<open>
  The base-58 encoding of \<^verbatim>\<open>src/base/base58.cpp\<close>: the two conversions, their checksummed forms and the class
  \<^verbatim>\<open>CBase58Data\<close>.  The work vectors are kept from their last element to their first, the order in which the
  inner loops walk them.  A failing \<^verbatim>\<open>assert\<close> is the outcome \<open>Aborts\<close>; the hash of the checksum is a parameter.
\<close>

section \<open>The conversions\<close>

datatype 'a outcome = Aborts | Rejects | Yields 'a

definition pszBase58 :: string where
  "pszBase58 = ''123456789ABCDEFGHJKLMNPQRSTUVWXYZabcdefghijkmnopqrstuvwxyz''"

text \<open>What \<^verbatim>\<open>c_str()\<close> shows to a function that reads up to the terminating zero.\<close>

definition c_str :: "string \<Rightarrow> string" where
  "c_str s = takeWhile (\<lambda>c. c \<noteq> CHR 0x00) s"

text \<open>The inner loop of both conversions: \<open>b = b * mul + carry\<close>, digit by digit.\<close>

fun mul_add_loop :: "nat \<Rightarrow> nat \<Rightarrow> nat \<Rightarrow> nat list \<Rightarrow> nat list \<times> nat" where
  "mul_add_loop mul b carry [] = ([], carry)"
| "mul_add_loop mul b carry (d # ds) =
     (let carry' = carry + mul * d; (ds', out) = mul_add_loop mul b (carry' div b) ds
      in (carry' mod b # ds', out))"

definition strchr :: "string \<Rightarrow> char \<Rightarrow> nat option" where
  "strchr s c = (if c \<in> set s then Some (length (takeWhile (\<lambda>d. d \<noteq> c) s)) else None)"

fun decode_loop :: "string \<Rightarrow> nat list \<Rightarrow> (string \<times> nat list) outcome" where
  "decode_loop [] b256 = Yields ([], b256)"
| "decode_loop (c # psz) b256 =
     (if is_space c then Yields (c # psz, b256)
      else case strchr pszBase58 c of
             None \<Rightarrow> Rejects
           | Some ch \<Rightarrow> (case mul_add_loop 58 256 ch b256 of
                          (b256', carry) \<Rightarrow> if carry = 0 then decode_loop psz b256' else Aborts))"

definition DecodeBase58 :: "string \<Rightarrow> vch_t \<Rightarrow> (bool \<times> vch_t) outcome" where
  "DecodeBase58 str vch =
     (let psz = dropWhile is_space (c_str str);
          zeroes = length (takeWhile (\<lambda>c. c = CHR ''1'') psz);
          psz = dropWhile (\<lambda>c. c = CHR ''1'') psz
      in case decode_loop psz (replicate (length psz * 733 div 1000 + 1) 0) of
           Aborts \<Rightarrow> Aborts
         | Rejects \<Rightarrow> Yields (False, vch)
         | Yields (psz, b256) \<Rightarrow>
             if dropWhile is_space psz \<noteq> [] then Yields (False, vch)
             else Yields (True, replicate zeroes 0 @ map of_nat (dropWhile (\<lambda>d. d = 0) (rev b256))))"

fun encode_loop :: "vch_t \<Rightarrow> nat list \<Rightarrow> nat list outcome" where
  "encode_loop [] b58 = Yields b58"
| "encode_loop (x # xs) b58 =
     (case mul_add_loop 256 58 (unat x) b58 of
        (b58', carry) \<Rightarrow> if carry = 0 then encode_loop xs b58' else Aborts)"

definition EncodeBase58 :: "vch_t \<Rightarrow> string outcome" where
  "EncodeBase58 vch =
     (let zeroes = length (takeWhile (\<lambda>x. x = 0) vch);
          rest = dropWhile (\<lambda>x. x = 0) vch
      in case encode_loop rest (replicate (length rest * 138 div 100 + 1) 0) of
           Aborts \<Rightarrow> Aborts
         | Rejects \<Rightarrow> Rejects
         | Yields b58 \<Rightarrow> Yields (replicate zeroes (CHR ''1'') @ map ((!) pszBase58) (dropWhile (\<lambda>d. d = 0) (rev b58))))"

section \<open>With a checksum\<close>

definition EncodeBase58Check :: "(vch_t \<Rightarrow> uint256) \<Rightarrow> vch_t \<Rightarrow> string outcome" where
  "EncodeBase58Check Hash vchIn = EncodeBase58 (vchIn @ take 4 (le_bytes 32 (unat (Hash vchIn))))"

definition DecodeBase58Check :: "(vch_t \<Rightarrow> uint256) \<Rightarrow> string \<Rightarrow> vch_t \<Rightarrow> (bool \<times> vch_t) outcome" where
  "DecodeBase58Check Hash str vchRet =
     (case DecodeBase58 str vchRet of
        Aborts \<Rightarrow> Aborts
      | Rejects \<Rightarrow> Rejects
      | Yields (ok, vch) \<Rightarrow>
          if \<not> ok then Yields (False, vch)
          else if length vch < 4 then Yields (False, [])
          else if take 4 (le_bytes 32 (unat (Hash (take (length vch - 4) vch)))) \<noteq> drop (length vch - 4) vch then Yields (False, [])
          else Yields (True, take (length vch - 4) vch))"

record base58_data =
  vchVersion :: vch_t
  vchData :: vch_t

definition CBase58Data_SetData :: "vch_t \<Rightarrow> vch_t \<Rightarrow> base58_data" where
  "CBase58Data_SetData vchVersionIn pdata = \<lparr>vchVersion = vchVersionIn, vchData = pdata\<rparr>"

definition CBase58Data_SetString :: "(vch_t \<Rightarrow> uint256) \<Rightarrow> string \<Rightarrow> nat \<Rightarrow> (bool \<times> base58_data) outcome" where
  "CBase58Data_SetString Hash psz nVersionBytes =
     (case DecodeBase58Check Hash psz [] of
        Aborts \<Rightarrow> Aborts
      | Rejects \<Rightarrow> Rejects
      | Yields (_, vchTemp) \<Rightarrow>
          if length vchTemp < nVersionBytes then Yields (False, \<lparr>vchVersion = [], vchData = []\<rparr>)
          else Yields (True, \<lparr>vchVersion = take nVersionBytes vchTemp, vchData = drop nVersionBytes vchTemp\<rparr>))"

definition CBase58Data_ToString :: "(vch_t \<Rightarrow> uint256) \<Rightarrow> base58_data \<Rightarrow> string outcome" where
  "CBase58Data_ToString Hash d = EncodeBase58Check Hash (vchVersion d @ vchData d)"

fun vch_compare :: "vch_t \<Rightarrow> vch_t \<Rightarrow> int" where
  "vch_compare [] [] = 0"
| "vch_compare [] (y # ys) = - 1"
| "vch_compare (x # xs) [] = 1"
| "vch_compare (x # xs) (y # ys) = (if x < y then - 1 else if y < x then 1 else vch_compare xs ys)"

definition CompareTo :: "base58_data \<Rightarrow> base58_data \<Rightarrow> int" where
  "CompareTo a b =
     (if vch_compare (vchVersion a) (vchVersion b) < 0 then - 1
      else if vch_compare (vchVersion a) (vchVersion b) > 0 then 1
      else if vch_compare (vchData a) (vchData b) < 0 then - 1
      else if vch_compare (vchData a) (vchData b) > 0 then 1
      else 0)"


section \<open>The value of a digit string\<close>

definition be_val :: "nat \<Rightarrow> nat list \<Rightarrow> nat" where
  "be_val b ds = le_val b (rev ds)"

lemma be_val_simps [simp]:
  "be_val b [] = 0" "be_val b (d # ds) = d * b ^ length ds + be_val b ds"
  by (simp_all add: be_val_def le_val_append)

lemma be_val_bound: "\<forall>d \<in> set ds. d < b \<Longrightarrow> be_val b ds < b ^ length ds"
  using le_val_bound [of "rev ds" b] by (simp add: be_val_def)

lemma mul_add_loop_val:
  assumes "0 < b" and "mul_add_loop mul b c ds = (ds', out)"
  shows "length ds' = length ds" and "\<forall>d \<in> set ds'. d < b" and "le_val b ds' + b ^ length ds * out = mul * le_val b ds + c"
proof -
  have "length ds' = length ds \<and> (\<forall>d \<in> set ds'. d < b) \<and> le_val b ds' + b ^ length ds * out = mul * le_val b ds + c"
    using assms(2)
  proof (induction ds arbitrary: c ds' out)
    case (Cons d ds)
    obtain es o' where es: "mul_add_loop mul b ((c + mul * d) div b) ds = (es, o')" by fastforce
    then have ds': "ds' = (c + mul * d) mod b # es" "out = o'" using Cons.prems by (simp_all add: Let_def)
    have ih: "length es = length ds" "\<forall>d \<in> set es. d < b"
      "le_val b es + b ^ length ds * o' = mul * le_val b ds + (c + mul * d) div b"
      using Cons.IH [OF es] by simp_all
    have "le_val b ds' + b ^ length (d # ds) * out = (c + mul * d) mod b + b * (le_val b es + b ^ length ds * o')"
      by (simp add: ds' algebra_simps)
    also have "\<dots> = mul * le_val b (d # ds) + c" unfolding ih(3) by (simp add: algebra_simps)
    finally show ?case using ih(1,2) assms(1) by (simp add: ds')
  qed simp
  then show "length ds' = length ds" "\<forall>d \<in> set ds'. d < b" "le_val b ds' + b ^ length ds * out = mul * le_val b ds + c"
    by simp_all
qed

lemma mul_add_loop_fits:
  assumes "0 < b" and "mul * le_val b ds + c < b ^ length ds"
  shows "\<exists>ds'. mul_add_loop mul b c ds = (ds', 0) \<and> length ds' = length ds \<and> (\<forall>d \<in> set ds'. d < b)
     \<and> le_val b ds' = mul * le_val b ds + c"
proof -
  obtain ds' out where r: "mul_add_loop mul b c ds = (ds', out)" by fastforce
  note v = mul_add_loop_val [OF assms(1) r]
  have "out = 0"
  proof (rule ccontr)
    assume "out \<noteq> 0"
    then have "b ^ length ds \<le> b ^ length ds * out" by simp
    then show False using v(3) assms(2) by linarith
  qed
  then show ?thesis using r v by simp
qed

text \<open>The outer loop of both conversions on a list of digits.\<close>

fun radix_loop :: "nat \<Rightarrow> nat \<Rightarrow> nat list \<Rightarrow> nat list \<Rightarrow> nat list option" where
  "radix_loop mul b [] ds = Some ds"
| "radix_loop mul b (x # xs) ds =
     (case mul_add_loop mul b x ds of (ds', carry) \<Rightarrow> if carry = 0 then radix_loop mul b xs ds' else None)"

lemma radix_loop_val:
  assumes "0 < b" and "le_val b ds * mul ^ length xs + be_val mul xs < b ^ length ds" and "\<forall>d \<in> set ds. d < b" and "0 < mul"
  shows "\<exists>ds'. radix_loop mul b xs ds = Some ds' \<and> length ds' = length ds \<and> (\<forall>d \<in> set ds'. d < b)
     \<and> le_val b ds' = le_val b ds * mul ^ length xs + be_val mul xs"
  using assms(2,3)
proof (induction xs arbitrary: ds)
  case (Cons x xs)
  have eq: "le_val b ds * mul ^ length (x # xs) + be_val mul (x # xs) = (mul * le_val b ds + x) * mul ^ length xs + be_val mul xs"
    by (simp add: algebra_simps)
  have "mul * le_val b ds + x \<le> (mul * le_val b ds + x) * mul ^ length xs" using assms(4) by simp
  then have "mul * le_val b ds + x < b ^ length ds" using Cons.prems(1) unfolding eq by linarith
  then obtain ds' where ds': "mul_add_loop mul b x ds = (ds', 0)" "length ds' = length ds" "\<forall>d \<in> set ds'. d < b"
    "le_val b ds' = mul * le_val b ds + x" using mul_add_loop_fits [OF assms(1)] by blast
  then show ?case using Cons.IH [of ds'] Cons.prems(1) unfolding eq by simp
qed simp

text \<open>The digits without leading zeros depend only on the value.\<close>

lemma canonical_digits:
  assumes "1 < b" and "\<forall>d \<in> set es. d < b" and "es = [] \<or> hd es \<noteq> 0"
    and "\<forall>d \<in> set ds. d < b" and "le_val b ds = be_val b es"
  shows "dropWhile (\<lambda>d. d = 0) (rev ds) = es"
proof -
  have len: "length es \<le> length ds"
  proof (cases es)
    case (Cons e es')
    have "1 * b ^ length es' \<le> e * b ^ length es'" using assms(3) Cons by (intro mult_le_mono) auto
    moreover have "le_val b ds = e * b ^ length es' + be_val b es'" using assms(5) Cons by simp
    ultimately have "b ^ length es' \<le> le_val b ds" by linarith
    also have "\<dots> < b ^ length ds" using assms(4) by (intro le_val_bound) auto
    finally show ?thesis using assms(1) Cons by (simp add: power_strict_increasing_iff Suc_leI)
  qed simp
  have "ds = rev es @ replicate (length ds - length es) 0"
    using assms len by (intro le_val_inject [of _ _ b]) (auto simp: be_val_def le_val_append)
  then have "rev ds = replicate (length ds - length es) 0 @ es" by (metis rev_append rev_replicate rev_rev_ident)
  moreover have "dropWhile (\<lambda>d. d = 0) (replicate n (0 :: nat) @ es) = es" for n
    using assms(3) by (induction n) (auto simp: dropWhile_eq_self_iff)
  ultimately show ?thesis by simp
qed


section \<open>The work vectors are large enough\<close>

lemma radix_capacity:
  assumes "B ^ q \<le> (b :: nat) ^ p" and "0 < q" and "1 \<le> b" and "0 < Q" and "p * Q \<le> P * q"
  shows "B ^ n \<le> b ^ (n * P div Q + 1)"
proof -
  have "n * P \<le> Q * (n * P div Q + 1)" using dividend_less_times_div [OF assms(4), of "n * P"] by simp
  then have "q * (n * P) \<le> q * (Q * (n * P div Q + 1))" by (rule mult_le_mono2)
  moreover have "n * (p * Q) \<le> n * (P * q)" using assms(5) by (rule mult_le_mono2)
  ultimately have "Q * (n * p) \<le> Q * (q * (n * P div Q + 1))" by (simp only: ac_simps)
  then have "p * n \<le> (n * P div Q + 1) * q" using assms(4) by (simp only: mult_le_cancel1 ac_simps)
  then have "(b ^ p) ^ n \<le> (b ^ (n * P div Q + 1)) ^ q"
    using assms(3) unfolding power_mult [symmetric] by (rule power_increasing)
  moreover have "(B ^ q) ^ n \<le> (b ^ p) ^ n" using assms(1) by (rule power_mono) simp
  ultimately have "(B ^ n) ^ q \<le> (b ^ (n * P div Q + 1)) ^ q" by (metis le_trans mult.commute power_mult)
  then show ?thesis using assms(2) by (simp add: power_mono_iff)
qed

lemma encode_capacity: "256 ^ n \<le> (58 :: nat) ^ (n * 138 div 100 + 1)"
  by (rule radix_capacity [of _ 30 _ 41]) simp_all

lemma decode_capacity: "58 ^ n \<le> (256 :: nat) ^ (n * 733 div 1000 + 1)"
  by (rule radix_capacity [of _ 71 _ 52]) simp_all

section \<open>The alphabet\<close>

lemma length_pszBase58: "length pszBase58 = 58"
  by (simp add: pszBase58_def)

lemma distinct_pszBase58: "distinct pszBase58"
  by (simp add: pszBase58_def)

lemma strchr_nth: "d < 58 \<Longrightarrow> strchr pszBase58 (pszBase58 ! d) = Some d"
proof -
  assume d: "d < 58"
  have "takeWhile (\<lambda>x. x \<noteq> pszBase58 ! d) pszBase58 = take d pszBase58"
    using d distinct_pszBase58 by (intro takeWhile_eq_take_P_nth) (auto simp: length_pszBase58 nth_eq_iff_index_eq)
  then show ?thesis using d by (simp add: strchr_def length_pszBase58)
qed

lemma strchr_Some: "strchr pszBase58 c = Some d \<Longrightarrow> d < 58 \<and> c = pszBase58 ! d"
proof -
  assume "strchr pszBase58 c = Some d"
  then have c: "c \<in> set pszBase58" "d = length (takeWhile (\<lambda>x. x \<noteq> c) pszBase58)"
    by (auto simp: strchr_def split: if_splits)
  then have "d < length pszBase58" using length_takeWhile_neq by fast
  then show ?thesis using c nth_length_takeWhile [of "\<lambda>x. x \<noteq> c" pszBase58] by (simp add: length_pszBase58)
qed

lemma alphabet_chars: "c \<in> set pszBase58 \<Longrightarrow> \<not> is_space c \<and> c \<noteq> CHR 0x00"
  by (auto simp: pszBase58_def is_space_def)

lemma alphabet_one: "d < 58 \<Longrightarrow> pszBase58 ! d = CHR ''1'' \<longleftrightarrow> d = 0"
proof -
  assume "d < 58"
  moreover have "pszBase58 ! 0 = CHR ''1''" by (simp add: pszBase58_def)
  ultimately show ?thesis using distinct_pszBase58 by (metis length_pszBase58 nth_eq_iff_index_eq zero_less_numeral)
qed

lemma encode_loop_radix:
  "encode_loop xs b = (case radix_loop 256 58 (map unat xs) b of None \<Rightarrow> Aborts | Some ds \<Rightarrow> Yields ds)"
  by (induction xs arbitrary: b) (auto split: prod.split)

lemma decode_loop_radix:
  assumes "\<forall>d \<in> set ds. d < 58" and "rest = [] \<or> is_space (hd rest)"
  shows "decode_loop (map ((!) pszBase58) ds @ rest) b =
     (case radix_loop 58 256 ds b of None \<Rightarrow> Aborts | Some bs \<Rightarrow> Yields (rest, bs))"
  using assms(1)
proof (induction ds arbitrary: b)
  case Nil
  then show ?case using assms(2) by (cases rest) auto
next
  case (Cons d ds)
  then have "pszBase58 ! d \<in> set pszBase58" by (simp add: length_pszBase58)
  then show ?case using Cons by (auto simp: strchr_nth alphabet_chars split: prod.split)
qed

lemma decode_loop_Yields:
  assumes "decode_loop psz b = Yields (rest, bs)"
  shows "\<exists>ds. psz = map ((!) pszBase58) ds @ rest \<and> (\<forall>d \<in> set ds. d < 58) \<and> radix_loop 58 256 ds b = Some bs
     \<and> (rest = [] \<or> is_space (hd rest))"
  using assms
proof (induction psz arbitrary: b)
  case Nil
  then show ?case by (intro exI [of _ "[]"]) simp
next
  case (Cons c psz)
  show ?case
  proof (cases "is_space c")
    case True
    then show ?thesis using Cons.prems by (intro exI [of _ "[]"]) auto
  next
    case False
    then obtain d b' where d: "strchr pszBase58 c = Some d" "mul_add_loop 58 256 d b = (b', 0)" "decode_loop psz b' = Yields (rest, bs)"
      using Cons.prems by (auto split: option.splits prod.splits if_splits)
    then obtain ds where "psz = map ((!) pszBase58) ds @ rest" "\<forall>d \<in> set ds. d < 58" "radix_loop 58 256 ds b' = Some bs"
      "rest = [] \<or> is_space (hd rest)" using Cons.IH [of b'] by blast
    then show ?thesis using d strchr_Some [OF d(1)] by (intro exI [of _ "d # ds"]) auto
  qed
qed


section \<open>The conversions invert each other\<close>

text \<open>Digits without a leading zero.\<close>

definition canonical :: "nat \<Rightarrow> nat list \<Rightarrow> bool" where
  "canonical b ds \<longleftrightarrow> (\<forall>d \<in> set ds. d < b) \<and> (ds = [] \<or> hd ds \<noteq> 0)"

lemma canonical_dropWhile:
  assumes "\<forall>d \<in> set ds. d < b"
  shows "canonical b (dropWhile (\<lambda>d. d = 0) ds)" and "be_val b (dropWhile (\<lambda>d. d = 0) ds) = be_val b ds"
proof -
  show "canonical b (dropWhile (\<lambda>d. d = 0) ds)"
    using assms by (induction ds) (auto simp: canonical_def)
  show "be_val b (dropWhile (\<lambda>d. d = 0) ds) = be_val b ds" by (induction ds) auto
qed

lemma radix_loop_canonical:
  assumes "1 < b" and "1 < mul" and "canonical mul xs" and "mul ^ length xs \<le> b ^ n"
  shows "\<exists>ds. radix_loop mul b xs (replicate n 0) = Some ds \<and> canonical b (dropWhile (\<lambda>d. d = 0) (rev ds))
     \<and> be_val b (dropWhile (\<lambda>d. d = 0) (rev ds)) = be_val mul xs"
proof -
  have "be_val mul xs < b ^ n" using be_val_bound [of xs mul] assms(3,4) by (auto simp: canonical_def)
  then obtain ds where ds: "radix_loop mul b xs (replicate n 0) = Some ds" "\<forall>d \<in> set ds. d < b" "le_val b ds = be_val mul xs"
    using radix_loop_val [of b "replicate n 0" mul xs] assms(1,2) by auto
  then show ?thesis using canonical_dropWhile [of "rev ds" b] by (auto simp: be_val_def)
qed

lemma canonical_unique:
  assumes "1 < b" and "canonical b xs" and "canonical b ys" and "be_val b xs = be_val b ys"
  shows "xs = ys"
proof -
  have "dropWhile (\<lambda>d. d = 0) (rev (rev xs)) = ys"
    using assms by (intro canonical_digits) (auto simp: canonical_def be_val_def)
  moreover have "dropWhile (\<lambda>d. d = 0) xs = xs" using assms(2) by (auto simp: canonical_def dropWhile_eq_self_iff)
  ultimately show ?thesis by simp
qed

lemma takeWhile_dropWhile_replicate:
  assumes "xs = [] \<or> \<not> P (hd xs)" and "P x"
  shows "takeWhile P (replicate n x @ xs) = replicate n x" and "dropWhile P (replicate n x @ xs) = xs"
  using assms by (induction n; cases xs; simp)+

lemma EncodeBase58_canonical:
  assumes "canonical 256 (map unat rest)"
  shows "\<exists>es. EncodeBase58 (replicate z 0 @ rest) = Yields (replicate z (CHR ''1'') @ map ((!) pszBase58) es)
     \<and> canonical 58 es \<and> be_val 58 es = be_val 256 (map unat rest)"
proof -
  obtain ds where ds: "radix_loop 256 58 (map unat rest) (replicate (length rest * 138 div 100 + 1) 0) = Some ds"
    "canonical 58 (dropWhile (\<lambda>d. d = 0) (rev ds))" "be_val 58 (dropWhile (\<lambda>d. d = 0) (rev ds)) = be_val 256 (map unat rest)"
    using radix_loop_canonical [of 58 256 "map unat rest" "length rest * 138 div 100 + 1"] assms encode_capacity [of "length rest"] by auto
  have "rest = [] \<or> \<not> hd rest = 0" using assms by (cases rest) (auto simp: canonical_def)
  note takeWhile_dropWhile_replicate [of rest "\<lambda>x. x = 0", OF this, of 0 z]
  then show ?thesis using ds by (intro exI [of _ "dropWhile (\<lambda>d. d = 0) (rev ds)"])
      (simp add: EncodeBase58_def Let_def encode_loop_radix)
qed


lemma DecodeBase58_split:
  assumes "dropWhile is_space (c_str str) = replicate z (CHR ''1'') @ map ((!) pszBase58) es @ sp"
    and "canonical 58 es" and "sp = [] \<or> is_space (hd sp)"
  shows "\<exists>rest. canonical 256 (map unat rest) \<and> be_val 256 (map unat rest) = be_val 58 es
     \<and> DecodeBase58 str vch = (if dropWhile is_space sp \<noteq> [] then Yields (False, vch) else Yields (True, replicate z 0 @ rest))"
proof -
  let ?psz = "map ((!) pszBase58) es @ sp"
  let ?n = "length ?psz * 733 div 1000 + 1"
  have "(58 :: nat) ^ length es \<le> 58 ^ length ?psz" by (rule power_increasing) simp_all
  then have "58 ^ length es \<le> (256 :: nat) ^ ?n" using decode_capacity [of "length ?psz"] by linarith
  then obtain ds where ds: "radix_loop 58 256 es (replicate ?n 0) = Some ds"
    "canonical 256 (dropWhile (\<lambda>d. d = 0) (rev ds))" "be_val 256 (dropWhile (\<lambda>d. d = 0) (rev ds)) = be_val 58 es"
    using radix_loop_canonical [of 256 58 es ?n] assms(2) by auto
  have loop: "decode_loop ?psz (replicate ?n 0) = Yields (sp, ds)"
    using decode_loop_radix [of es sp "replicate ?n 0"] assms(2,3) ds(1) by (simp add: canonical_def)
  have "?psz = [] \<or> hd ?psz \<noteq> CHR ''1''"
    using assms(2,3) by (cases es; cases sp) (auto simp: canonical_def alphabet_one is_space_def)
  then have split: "takeWhile (\<lambda>c. c = CHR ''1'') (replicate z (CHR ''1'') @ ?psz) = replicate z (CHR ''1'')"
    "dropWhile (\<lambda>c. c = CHR ''1'') (replicate z (CHR ''1'') @ ?psz) = ?psz"
    using takeWhile_dropWhile_replicate [of ?psz "\<lambda>c. c = CHR ''1''" "CHR ''1''" z] by auto
  define bs where "bs = dropWhile (\<lambda>d. d = 0) (rev ds)"
  have "map unat (map (of_nat :: nat \<Rightarrow> u8) bs) = bs"
    using ds(2) unfolding bs_def [symmetric] by (auto simp: canonical_def unat_of_nat intro!: map_idI)
  then show ?thesis
    using ds loop split unfolding bs_def [symmetric]
    by (intro exI [of _ "map of_nat bs"]) (simp add: DecodeBase58_def assms(1) Let_def bs_def)
qed

lemma decode_loop_no_abort:
  assumes "(le_val 256 b + 1) * 58 ^ length psz \<le> 256 ^ length b"
  shows "decode_loop psz b \<noteq> Aborts"
  using assms
proof (induction psz arbitrary: b)
  case (Cons c psz)
  show ?case
  proof (cases "strchr pszBase58 c")
    case (Some d)
    have d: "d < 58" using strchr_Some [OF Some] by simp
    then have "58 * le_val 256 b + d + 1 \<le> (le_val 256 b + 1) * 58" by simp
    then have "(58 * le_val 256 b + d + 1) * 58 ^ length psz \<le> (le_val 256 b + 1) * 58 * 58 ^ length psz" by (rule mult_le_mono1)
    also have "\<dots> = (le_val 256 b + 1) * 58 ^ length (c # psz)" by (simp add: algebra_simps)
    also note Cons.prems
    finally have step: "(58 * le_val 256 b + d + 1) * 58 ^ length psz \<le> 256 ^ length b" .
    have "(58 * le_val 256 b + d + 1) * 1 \<le> (58 * le_val 256 b + d + 1) * 58 ^ length psz" by (rule mult_le_mono2) simp
    then have "58 * le_val 256 b + d + 1 \<le> 256 ^ length b" using le_trans [OF _ step] by (simp only: mult_1_right)
    then have "58 * le_val 256 b + d < 256 ^ length b" by simp
    then obtain b' where "mul_add_loop 58 256 d b = (b', 0)" "length b' = length b" "le_val 256 b' = 58 * le_val 256 b + d"
      using mul_add_loop_fits [of 256 58 b d] by auto
    then show ?thesis using Cons.IH [of b'] step Some by simp
  qed auto
qed simp

lemma DecodeBase58_no_abort: "DecodeBase58 str vch \<noteq> Aborts"
proof -
  define psz where "psz = dropWhile (\<lambda>c. c = CHR ''1'') (dropWhile is_space (c_str str))"
  have "decode_loop psz (replicate (length psz * 733 div 1000 + 1) 0) \<noteq> Aborts"
    using decode_capacity [of "length psz"] by (intro decode_loop_no_abort) (simp del: replicate_Suc)
  then show ?thesis by (auto simp: DecodeBase58_def Let_def psz_def split: outcome.splits if_splits)
qed

lemma DecodeBase58_True:
  assumes "DecodeBase58 str vch = Yields (True, v)"
  obtains z es sp where "dropWhile is_space (c_str str) = replicate z (CHR ''1'') @ map ((!) pszBase58) es @ sp"
    and "canonical 58 es" and "sp = [] \<or> is_space (hd sp)" and "dropWhile is_space sp = []"
proof -
  define t where "t = dropWhile is_space (c_str str)"
  define z where "z = length (takeWhile (\<lambda>c. c = CHR ''1'') t)"
  define psz where "psz = dropWhile (\<lambda>c. c = CHR ''1'') t"
  have ones: "takeWhile (\<lambda>c. c = CHR ''1'') t = replicate z (CHR ''1'')"
    unfolding z_def by (rule replicate_length_same [symmetric]) (auto dest: set_takeWhileD)
  have t: "t = replicate z (CHR ''1'') @ psz" using ones unfolding psz_def by (metis takeWhile_dropWhile_id)
  obtain sp bs where run: "decode_loop psz (replicate (length psz * 733 div 1000 + 1) 0) = Yields (sp, bs)" "dropWhile is_space sp = []"
    using assms by (auto simp: DecodeBase58_def Let_def psz_def t_def split: outcome.splits if_splits)
  then obtain es where es: "psz = map ((!) pszBase58) es @ sp" "\<forall>d \<in> set es. d < 58" "sp = [] \<or> is_space (hd sp)"
    using decode_loop_Yields [OF run(1)] by blast
  have "es = [] \<or> hd es \<noteq> 0"
  proof (cases es)
    case (Cons d ds)
    then have "psz \<noteq> []" "hd psz = pszBase58 ! d" using es(1) by simp_all
    then have "pszBase58 ! d \<noteq> CHR ''1''" using hd_dropWhile [of "\<lambda>c. c = CHR ''1''" t] by (simp add: psz_def)
    then show ?thesis using Cons es(2) by (simp add: alphabet_one)
  qed simp
  then show thesis using that [of z es sp] t es run(2) by (simp add: t_def canonical_def)
qed


section \<open>Properties\<close>

lemma map_unat_eq: "map (unat :: u8 \<Rightarrow> nat) xs = map unat ys \<longleftrightarrow> xs = ys"
  by (rule inj_map_eq_map) (simp add: inj_def word_unat_eq_iff)

lemma canonical_bytes_unique:
  "canonical 256 (map unat xs) \<Longrightarrow> canonical 256 (map unat ys) \<Longrightarrow>
   be_val 256 (map unat xs) = be_val 256 (map unat ys) \<Longrightarrow> xs = (ys :: vch_t)"
  using canonical_unique [of 256 "map unat xs" "map unat ys"] by (simp add: map_unat_eq)

lemma encoded_chars:
  assumes "canonical 58 es"
  shows "set (replicate z (CHR ''1'') @ map ((!) pszBase58) es) \<subseteq> set pszBase58"
proof -
  have "CHR ''1'' \<in> set pszBase58" by (simp add: pszBase58_def)
  moreover have "set (map ((!) pszBase58) es) \<subseteq> set pszBase58"
    using assms nth_mem [of _ pszBase58] by (auto simp: canonical_def length_pszBase58)
  ultimately show ?thesis by auto
qed

lemma encode_decode:
  "\<exists>s. EncodeBase58 v = Yields s \<and> (\<forall>vch. DecodeBase58 s vch = Yields (True, v))"
proof -
  define z where "z = length (takeWhile (\<lambda>x. x = 0) v)"
  define rest where "rest = dropWhile (\<lambda>x. x = 0) v"
  have "takeWhile (\<lambda>x. x = 0) v = replicate z 0"
    unfolding z_def by (rule replicate_length_same [symmetric]) (auto dest: set_takeWhileD)
  then have v: "v = replicate z 0 @ rest" unfolding rest_def by (metis takeWhile_dropWhile_id)
  have can: "canonical 256 (map unat rest)"
    unfolding rest_def by (induction v) (auto simp: canonical_def unat_gt_0)
  then obtain es where es: "EncodeBase58 v = Yields (replicate z (CHR ''1'') @ map ((!) pszBase58) es)"
    "canonical 58 es" "be_val 58 es = be_val 256 (map unat rest)" using EncodeBase58_canonical [of rest z] v by auto
  define s where "s = replicate z (CHR ''1'') @ map ((!) pszBase58) es"
  have "set s \<subseteq> set pszBase58" unfolding s_def by (rule encoded_chars [OF es(2)])
  then have "c_str s = s" "dropWhile is_space s = s"
    using alphabet_chars by (auto simp: c_str_def takeWhile_eq_all_conv subset_iff dropWhile_eq_self_iff)
  then have "DecodeBase58 s vch = Yields (True, v)" for vch
    using DecodeBase58_split [of s z es "[]" vch] es(2,3) can v canonical_bytes_unique [of _ rest]
    by (auto simp: s_def)
  then show ?thesis using es(1) by (auto simp: s_def)
qed

lemma decode_encode:
  assumes "DecodeBase58 str vch = Yields (True, v)"
  shows "EncodeBase58 v = Yields (takeWhile (\<lambda>c. \<not> is_space c) (dropWhile is_space (c_str str)))"
proof -
  obtain z es sp where t: "dropWhile is_space (c_str str) = replicate z (CHR ''1'') @ map ((!) pszBase58) es @ sp"
    and es: "canonical 58 es" and sp: "sp = [] \<or> is_space (hd sp)" "dropWhile is_space sp = []"
    using DecodeBase58_True [OF assms] by blast
  then obtain rest where rest: "canonical 256 (map unat rest)" "be_val 256 (map unat rest) = be_val 58 es" "v = replicate z 0 @ rest"
    using DecodeBase58_split [OF t es sp(1), of vch] assms by auto
  then obtain es' where "EncodeBase58 v = Yields (replicate z (CHR ''1'') @ map ((!) pszBase58) es')" "canonical 58 es'"
    "be_val 58 es' = be_val 58 es" using EncodeBase58_canonical [of rest z] by auto
  moreover have "takeWhile (\<lambda>c. \<not> is_space c) (dropWhile is_space (c_str str)) = replicate z (CHR ''1'') @ map ((!) pszBase58) es"
  proof -
    have "\<forall>c \<in> set (replicate z (CHR ''1'') @ map ((!) pszBase58) es). \<not> is_space c"
      using encoded_chars [OF es, of z] alphabet_chars by blast
    then show ?thesis unfolding t using sp(1) by (subst append_assoc [symmetric], subst takeWhile_append2) (auto intro: takeWhile_eq_Nil_iff [THEN iffD2])
  qed
  ultimately show ?thesis using es canonical_unique [of 58 es' es] by simp
qed


text \<open>
  C37. Base 58 round trip.  Encoding a byte vector never aborts: the work vector, sized by a rational approximation of
  the ratio of the logarithms, always suffices; and decoding the text gives the vector back, leading zeros included.
\<close>

theorem base58_roundtrip:
  "\<exists>s. EncodeBase58 vch = Yields s \<and> (\<forall>old. DecodeBase58 s old = Yields (True, vch))"
  by (rule encode_decode)

text \<open>
  Decoding is canonical.  \<^verbatim>\<open>DecodeBase58\<close> never aborts, whatever the text; a text it refuses leaves the
  output vector as it was; and a text it accepts is, apart from surrounding white space, the very text that
  encoding the result produces.
\<close>

theorem base58_decode_canonical:
  "\<exists>ok v. DecodeBase58 str old = Yields (ok, v) \<and>
     (if ok then EncodeBase58 v = Yields (takeWhile (\<lambda>c. \<not> is_space c) (dropWhile is_space (c_str str))) else v = old)"
proof (cases "DecodeBase58 str old")
  case Aborts
  then show ?thesis using DecodeBase58_no_abort by blast
next
  case Rejects
  then show ?thesis by (auto simp: DecodeBase58_def Let_def split: outcome.splits if_splits)
next
  case (Yields r)
  then show ?thesis
    using decode_encode [of str old] by (cases r) (auto simp: DecodeBase58_def Let_def split: outcome.splits if_splits)
qed

text \<open>
  Addresses.  Printing a \<^verbatim>\<open>CBase58Data\<close> and setting one from the text, with the same number of version bytes, gives
  the same version and data.
\<close>

theorem base58_data_roundtrip:
  "\<exists>s. CBase58Data_ToString Hash d = Yields s
     \<and> CBase58Data_SetString Hash s (length (vchVersion d)) = Yields (True, d)"
proof -
  define vch where "vch = vchVersion d @ vchData d"
  let ?check = "take 4 (le_bytes 32 (unat (Hash vch)))"
  obtain s where "EncodeBase58 (vch @ ?check) = Yields s" "DecodeBase58 s [] = Yields (True, vch @ ?check)"
    using encode_decode [of "vch @ ?check"] by blast
  moreover have "take (length vch) (vch @ ?check) = vch" "drop (length vch) (vch @ ?check) = ?check" by simp_all
  ultimately show ?thesis
    by (simp add: CBase58Data_ToString_def EncodeBase58Check_def CBase58Data_SetString_def DecodeBase58Check_def)
      (simp add: vch_def)
qed

text \<open>
  The checksum.  \<^verbatim>\<open>DecodeBase58Check\<close> accepts a text only if it is, apart from surrounding white space, the
  checksummed encoding of the bytes it returns.
\<close>

theorem base58_check_sound:
  assumes "DecodeBase58Check Hash str old = Yields (True, v)"
  shows "EncodeBase58Check Hash v = Yields (takeWhile (\<lambda>c. \<not> is_space c) (dropWhile is_space (c_str str)))"
proof -
  obtain w where w: "DecodeBase58 str old = Yields (True, w)" "v = take (length w - 4) w"
    "take 4 (le_bytes 32 (unat (Hash v))) = drop (length w - 4) w"
    using assms by (auto simp: DecodeBase58Check_def split: outcome.splits if_splits)
  then have "w = v @ take 4 (le_bytes 32 (unat (Hash v)))" by (metis append_take_drop_id)
  then show ?thesis using decode_encode [OF w(1)] by (simp add: EncodeBase58Check_def)
qed

lemma le_digits_4: "le_digits b 4 x = [x mod b, x div b mod b, x div b div b mod b, x div b div b div b mod b]"
  by (simp add: numeral_eq_Suc)

lemma demo_decode_check: "DecodeBase58Check (\<lambda>_. 0x05000000) '' 1116 '' [] = Yields (True, [])"
  by (simp add: DecodeBase58Check_def DecodeBase58_def c_str_def is_space_def strchr_def pszBase58_def take_map
      take_le_digits le_bytes_def le_digits_4)

theorem base58_check_sound_witness: "EncodeBase58Check (\<lambda>_. 0x05000000) [] = Yields ''1116''"
  using base58_check_sound [OF demo_decode_check] by (simp add: c_str_def is_space_def)

end
