(* ===== verification/TextCodecs.thy ===== *)
theory TextCodecs
  imports Uint
begin

text \<open>
  The textual encodings of \<^verbatim>\<open>src/base/util_hex.h\<close>, \<^verbatim>\<open>util_hex.cpp\<close> and \<^verbatim>\<open>base64.h\<close>: hexadecimal strings, base 32 and
  base 64.  The bit accumulators of the two state machines never exceed eight bits, so they are bytes here.  A C string is a
  list of its characters before the terminating zero; reading the position after the last one gives that zero.
\<close>

section \<open>Hexadecimal\<close>

definition IsHex :: "string \<Rightarrow> bool" where
  "IsHex str \<longleftrightarrow> (\<forall>c \<in> set str. \<not> HexDigit c < 0) \<and> 0 < length str \<and> length str mod 2 = 0"

function ParseHex :: "string \<Rightarrow> vch_t" where
  "ParseHex psz =
     (case dropWhile is_space psz of
        c # d # rest \<Rightarrow>
          if HexDigit c = - 1 then []
          else if HexDigit d = - 1 then []
          else (push_bit 4 (of_int (HexDigit c)) OR of_int (HexDigit d)) # ParseHex rest
      | _ \<Rightarrow> [])"
  by pat_completeness auto
termination
proof (relation "measure length", goal_cases)
  case (2 psz c rest' d rest)
  then show ?case using length_dropWhile_le [of is_space psz] by simp
qed simp

definition hexmap :: string where
  "hexmap = ''0123456789abcdef''"

fun hex_str_loop :: "bool \<Rightarrow> bool \<Rightarrow> vch_t \<Rightarrow> string" where
  "hex_str_loop fSpaces first [] = []"
| "hex_str_loop fSpaces first (val # rest) =
     (if fSpaces \<and> \<not> first then '' '' else []) @
     [hexmap ! unat (drop_bit 4 val), hexmap ! unat (val AND 15)] @ hex_str_loop fSpaces False rest"

definition HexStr :: "vch_t \<Rightarrow> bool \<Rightarrow> string" where
  "HexStr vch fSpaces = hex_str_loop fSpaces True vch"

section \<open>Base 32\<close>

definition char_at :: "string \<Rightarrow> nat \<Rightarrow> char" where
  "char_at p i = (if i < length p then p ! i else CHR 0x00)"

definition pbase32 :: string where
  "pbase32 = ''abcdefghijklmnopqrstuvwxyz234567''"

definition nPadding :: "nat list" where
  "nPadding = [0, 6, 4, 3, 1]"

text \<open>The output from a state of the encoder, the final part included.\<close>

fun encode32_loop :: "vch_t \<Rightarrow> nat \<Rightarrow> u8 \<Rightarrow> string" where
  "encode32_loop [] mode left =
     (if mode \<noteq> 0 then pbase32 ! unat left # replicate (nPadding ! mode) (CHR ''='') else [])"
| "encode32_loop (enc # rest) mode left =
     (if mode = 0 then
        pbase32 ! unat (drop_bit 3 enc) # encode32_loop rest 1 (push_bit 2 (enc AND 7))
      else if mode = 1 then
        pbase32 ! unat (left OR drop_bit 6 enc) # pbase32 ! unat (drop_bit 1 enc AND 31)
        # encode32_loop rest 2 (push_bit 4 (enc AND 1))
      else if mode = 2 then
        pbase32 ! unat (left OR drop_bit 4 enc) # encode32_loop rest 3 (push_bit 1 (enc AND 15))
      else if mode = 3 then
        pbase32 ! unat (left OR drop_bit 7 enc) # pbase32 ! unat (drop_bit 2 enc AND 31)
        # encode32_loop rest 4 (push_bit 3 (enc AND 3))
      else
        pbase32 ! unat (left OR drop_bit 5 enc) # pbase32 ! unat (enc AND 31) # encode32_loop rest 0 left)"

definition EncodeBase32 :: "vch_t \<Rightarrow> string" where
  "EncodeBase32 pch = encode32_loop pch 0 0"

definition decode32_table :: "int list" where
  "decode32_table =
   [- 1, - 1, - 1, - 1, - 1, - 1, - 1, - 1, - 1, - 1, - 1, - 1, - 1, - 1, - 1, - 1,
    - 1, - 1, - 1, - 1, - 1, - 1, - 1, - 1, - 1, - 1, - 1, - 1, - 1, - 1, - 1, - 1,
    - 1, - 1, - 1, - 1, - 1, - 1, - 1, - 1, - 1, - 1, - 1, - 1, - 1, - 1, - 1, - 1,
    - 1, - 1, 26, 27, 28, 29, 30, 31, - 1, - 1, - 1, - 1, - 1, - 1, - 1, - 1,
    - 1, 0, 1, 2, 3, 4, 5, 6, 7, 8, 9, 10, 11, 12, 13, 14,
    15, 16, 17, 18, 19, 20, 21, 22, 23, 24, 25, - 1, - 1, - 1, - 1, - 1,
    - 1, 0, 1, 2, 3, 4, 5, 6, 7, 8, 9, 10, 11, 12, 13, 14,
    15, 16, 17, 18, 19, 20, 21, 22, 23, 24, 25, - 1, - 1, - 1, - 1, - 1,
    - 1, - 1, - 1, - 1, - 1, - 1, - 1, - 1, - 1, - 1, - 1, - 1, - 1, - 1, - 1, - 1,
    - 1, - 1, - 1, - 1, - 1, - 1, - 1, - 1, - 1, - 1, - 1, - 1, - 1, - 1, - 1, - 1,
    - 1, - 1, - 1, - 1, - 1, - 1, - 1, - 1, - 1, - 1, - 1, - 1, - 1, - 1, - 1, - 1,
    - 1, - 1, - 1, - 1, - 1, - 1, - 1, - 1, - 1, - 1, - 1, - 1, - 1, - 1, - 1, - 1,
    - 1, - 1, - 1, - 1, - 1, - 1, - 1, - 1, - 1, - 1, - 1, - 1, - 1, - 1, - 1, - 1,
    - 1, - 1, - 1, - 1, - 1, - 1, - 1, - 1, - 1, - 1, - 1, - 1, - 1, - 1, - 1, - 1,
    - 1, - 1, - 1, - 1, - 1, - 1, - 1, - 1, - 1, - 1, - 1, - 1, - 1, - 1, - 1, - 1,
    - 1, - 1, - 1, - 1, - 1, - 1, - 1, - 1, - 1, - 1, - 1, - 1, - 1, - 1, - 1, - 1]"

definition decode32 :: "char \<Rightarrow> int" where
  "decode32 c = decode32_table ! of_char c"

text \<open>The loop stops at the first character that is no digit, the terminating zero at the latest.\<close>

fun decode32_loop :: "string \<Rightarrow> nat \<Rightarrow> u8 \<Rightarrow> vch_t \<Rightarrow> vch_t \<times> nat \<times> u8 \<times> string" where
  "decode32_loop [] mode left vchRet = (vchRet, mode, left, [])"
| "decode32_loop (c # p) mode left vchRet =
     (if decode32 c = - 1 then (vchRet, mode, left, c # p)
      else let dec = of_int (decode32 c)
      in if mode = 0 then decode32_loop p 1 dec vchRet
         else if mode = 1 then decode32_loop p 2 (dec AND 3) (vchRet @ [push_bit 3 left OR drop_bit 2 dec])
         else if mode = 2 then decode32_loop p 3 (push_bit 5 left OR dec) vchRet
         else if mode = 3 then decode32_loop p 4 (dec AND 15) (vchRet @ [push_bit 1 left OR drop_bit 4 dec])
         else if mode = 4 then decode32_loop p 5 (dec AND 1) (vchRet @ [push_bit 4 left OR drop_bit 1 dec])
         else if mode = 5 then decode32_loop p 6 (push_bit 5 left OR dec) vchRet
         else if mode = 6 then decode32_loop p 7 (dec AND 7) (vchRet @ [push_bit 2 left OR drop_bit 3 dec])
         else decode32_loop p 0 left (vchRet @ [push_bit 5 left OR dec]))"

definition padding_bad :: "(char \<Rightarrow> int) \<Rightarrow> string \<Rightarrow> nat \<Rightarrow> bool" where
  "padding_bad decode p n \<longleftrightarrow> (\<exists>i \<in> set [0..<n]. char_at p i \<noteq> CHR ''='') \<or> decode (char_at p n) \<noteq> - 1"

text \<open>The result is the vector and the value of \<^verbatim>\<open>*pfInvalid\<close>.\<close>

definition DecodeBase32 :: "string \<Rightarrow> vch_t \<times> bool" where
  "DecodeBase32 str =
     (case decode32_loop str 0 0 [] of
        (vchRet, mode, left, p) \<Rightarrow>
          (vchRet,
           if mode = 0 then False
           else if mode = 1 \<or> mode = 3 \<or> mode = 6 then True
           else if mode = 2 then left \<noteq> 0 \<or> padding_bad decode32 p 6
           else if mode = 4 then left \<noteq> 0 \<or> padding_bad decode32 p 4
           else if mode = 5 then left \<noteq> 0 \<or> padding_bad decode32 p 3
           else left \<noteq> 0 \<or> padding_bad decode32 p 1))"

section \<open>Base 64\<close>

definition pbase64 :: string where
  "pbase64 = ''ABCDEFGHIJKLMNOPQRSTUVWXYZabcdefghijklmnopqrstuvwxyz0123456789+/''"

fun encode64_loop :: "vch_t \<Rightarrow> nat \<Rightarrow> u8 \<Rightarrow> string" where
  "encode64_loop [] mode left =
     (if mode \<noteq> 0 then [pbase64 ! unat left, CHR ''=''] @ (if mode = 1 then ''='' else []) else [])"
| "encode64_loop (enc # rest) mode left =
     (if mode = 0 then
        pbase64 ! unat (drop_bit 2 enc) # encode64_loop rest 1 (push_bit 4 (enc AND 3))
      else if mode = 1 then
        pbase64 ! unat (left OR drop_bit 4 enc) # encode64_loop rest 2 (push_bit 2 (enc AND 15))
      else
        pbase64 ! unat (left OR drop_bit 6 enc) # pbase64 ! unat (enc AND 63) # encode64_loop rest 0 left)"

definition EncodeBase64 :: "vch_t \<Rightarrow> string" where
  "EncodeBase64 pch = encode64_loop pch 0 0"

definition decode64_table :: "int list" where
  "decode64_table =
   [- 1, - 1, - 1, - 1, - 1, - 1, - 1, - 1, - 1, - 1, - 1, - 1, - 1, - 1, - 1, - 1,
    - 1, - 1, - 1, - 1, - 1, - 1, - 1, - 1, - 1, - 1, - 1, - 1, - 1, - 1, - 1, - 1,
    - 1, - 1, - 1, - 1, - 1, - 1, - 1, - 1, - 1, - 1, - 1, 62, - 1, - 1, - 1, 63,
    52, 53, 54, 55, 56, 57, 58, 59, 60, 61, - 1, - 1, - 1, - 1, - 1, - 1,
    - 1, 0, 1, 2, 3, 4, 5, 6, 7, 8, 9, 10, 11, 12, 13, 14,
    15, 16, 17, 18, 19, 20, 21, 22, 23, 24, 25, - 1, - 1, - 1, - 1, - 1,
    - 1, 26, 27, 28, 29, 30, 31, 32, 33, 34, 35, 36, 37, 38, 39, 40,
    41, 42, 43, 44, 45, 46, 47, 48, 49, 50, 51, - 1, - 1, - 1, - 1, - 1,
    - 1, - 1, - 1, - 1, - 1, - 1, - 1, - 1, - 1, - 1, - 1, - 1, - 1, - 1, - 1, - 1,
    - 1, - 1, - 1, - 1, - 1, - 1, - 1, - 1, - 1, - 1, - 1, - 1, - 1, - 1, - 1, - 1,
    - 1, - 1, - 1, - 1, - 1, - 1, - 1, - 1, - 1, - 1, - 1, - 1, - 1, - 1, - 1, - 1,
    - 1, - 1, - 1, - 1, - 1, - 1, - 1, - 1, - 1, - 1, - 1, - 1, - 1, - 1, - 1, - 1,
    - 1, - 1, - 1, - 1, - 1, - 1, - 1, - 1, - 1, - 1, - 1, - 1, - 1, - 1, - 1, - 1,
    - 1, - 1, - 1, - 1, - 1, - 1, - 1, - 1, - 1, - 1, - 1, - 1, - 1, - 1, - 1, - 1,
    - 1, - 1, - 1, - 1, - 1, - 1, - 1, - 1, - 1, - 1, - 1, - 1, - 1, - 1, - 1, - 1,
    - 1, - 1, - 1, - 1, - 1, - 1, - 1, - 1, - 1, - 1, - 1, - 1, - 1, - 1, - 1, - 1]"

definition decode64 :: "char \<Rightarrow> int" where
  "decode64 c = decode64_table ! of_char c"

fun decode64_loop :: "string \<Rightarrow> nat \<Rightarrow> u8 \<Rightarrow> vch_t \<Rightarrow> vch_t \<times> nat \<times> u8 \<times> string" where
  "decode64_loop [] mode left vchRet = (vchRet, mode, left, [])"
| "decode64_loop (c # p) mode left vchRet =
     (if decode64 c = - 1 then (vchRet, mode, left, c # p)
      else let dec = of_int (decode64 c)
      in if mode = 0 then decode64_loop p 1 dec vchRet
         else if mode = 1 then decode64_loop p 2 (dec AND 15) (vchRet @ [push_bit 2 left OR drop_bit 4 dec])
         else if mode = 2 then decode64_loop p 3 (dec AND 3) (vchRet @ [push_bit 4 left OR drop_bit 2 dec])
         else decode64_loop p 0 left (vchRet @ [push_bit 6 left OR dec]))"

definition DecodeBase64 :: "string \<Rightarrow> vch_t \<times> bool" where
  "DecodeBase64 str =
     (case decode64_loop str 0 0 [] of
        (vchRet, mode, left, p) \<Rightarrow>
          (vchRet,
           if mode = 0 then False
           else if mode = 1 then True
           else if mode = 2 then left \<noteq> 0 \<or> padding_bad decode64 p 2
           else left \<noteq> 0 \<or> padding_bad decode64 p 1))"


section \<open>Digits and their alphabets\<close>

text \<open>What the decoders need of an alphabet and its table.\<close>

locale digit_alphabet =
  fixes alphabet :: string and decode :: "char \<Rightarrow> int" and digits :: nat
  assumes decode_nth: "i < digits \<Longrightarrow> decode (alphabet ! i) = int i"
    and decode_pad: "decode (CHR ''='') = - 1"
    and decode_end: "decode (CHR 0x00) = - 1"
begin

lemma decode_digit:
  "unat (w :: u8) < digits \<Longrightarrow> decode (alphabet ! unat w) \<noteq> - 1 \<and> of_int (decode (alphabet ! unat w)) = w"
  by (simp add: decode_nth) (metis of_int_0_le_iff not_one_le_zero uint_ge_0 zero_le_one neg_0_le_iff_le)

lemma padding_good: "padding_bad decode (replicate n (CHR ''='')) n = False"
  by (auto simp: padding_bad_def char_at_def decode_end)

end

interpretation b32: digit_alphabet pbase32 decode32 32
proof
  fix i :: nat assume "i < 32"
  moreover have "list_all (\<lambda>i. decode32 (pbase32 ! i) = int i) [0..<32]"
    by (simp add: upt_conv_Cons pbase32_def decode32_def decode32_table_def)
  ultimately show "decode32 (pbase32 ! i) = int i" by (simp add: list_all_iff)
qed (simp_all add: decode32_def decode32_table_def)

interpretation b64: digit_alphabet pbase64 decode64 64
proof
  fix i :: nat assume "i < 64"
  moreover have "list_all (\<lambda>i. decode64 (pbase64 ! i) = int i) [0..<64]"
    by (simp add: upt_conv_Cons pbase64_def decode64_def decode64_table_def)
  ultimately show "decode64 (pbase64 ! i) = int i" by (simp add: list_all_iff)
qed (simp_all add: decode64_def decode64_table_def)

lemma less_8_cases: "n < (8 :: nat) \<Longrightarrow> n \<in> {0, 1, 2, 3, 4, 5, 6, 7}"
  by auto

lemma u8_eqI: "(\<And>n. n \<in> {0, 1, 2, 3, 4, 5, 6, 7} \<Longrightarrow> bit a n \<longleftrightarrow> bit b n) \<Longrightarrow> a = (b :: u8)"
  by (rule bit_word_eqI) (simp only: less_8_cases len_num1 len_bit0 mult_2_right numeral_plus_numeral len_num0 numeral_times_numeral)

lemma u8_no_bit: "8 \<le> n \<Longrightarrow> bit (w :: u8) n = False"
  using bit_imp_le_length [of w n] by auto

lemma u8_small: "drop_bit 5 w = 0 \<Longrightarrow> unat (w :: u8) < 32" "drop_bit 6 w = 0 \<Longrightarrow> unat w < 64"
  by (simp_all add: drop_bit_eq_div word_unat_eq_iff unat_div)

section \<open>Base 64 round trip\<close>

lemma bits64:
  fixes x y :: u8
  shows "unat (drop_bit 2 x) < 64" "unat (push_bit 4 (x AND 3) OR drop_bit 4 y) < 64" "unat (push_bit 2 (x AND 15) OR drop_bit 6 y) < 64"
    "unat (x AND 63) < 64" "unat (push_bit 4 (x AND 3)) < 64" "unat (push_bit 2 (x AND 15)) < 64"
    "push_bit 2 (drop_bit 2 x) OR drop_bit 4 (push_bit 4 (x AND 3) OR drop_bit 4 y) = x"
    "(push_bit 4 (x AND 3) OR drop_bit 4 y) AND 15 = drop_bit 4 y"
    "push_bit 4 (drop_bit 4 x) OR drop_bit 2 (push_bit 2 (x AND 15) OR drop_bit 6 y) = x"
    "(push_bit 2 (x AND 15) OR drop_bit 6 y) AND 3 = drop_bit 6 y"
    "push_bit 6 (drop_bit 6 x) OR (x AND 63) = x"
    "push_bit 2 (drop_bit 2 x) OR drop_bit 4 (push_bit 4 (x AND 3)) = x" "push_bit 4 (x AND 3) AND 15 = 0"
    "push_bit 4 (drop_bit 4 x) OR drop_bit 2 (push_bit 2 (x AND 15)) = x" "push_bit 2 (x AND 15) AND 3 = 0"
  by ((rule u8_small(2))?, rule u8_eqI, auto simp: bit_simps u8_no_bit simp flip: numeral_2_eq_2)+

lemma decode64_loop_digit:
  assumes "unat dec < 64"
  shows "decode64_loop (pbase64 ! unat dec # p) mode left vchRet =
    (if mode = 0 then decode64_loop p 1 dec vchRet
     else if mode = 1 then decode64_loop p 2 (dec AND 15) (vchRet @ [push_bit 2 left OR drop_bit 4 dec])
     else if mode = 2 then decode64_loop p 3 (dec AND 3) (vchRet @ [push_bit 4 left OR drop_bit 2 dec])
     else decode64_loop p 0 left (vchRet @ [push_bit 6 left OR dec]))"
  using b64.decode_digit [OF assms] by simp

lemma decode64_loop_pad: "decode64_loop (CHR ''='' # p) mode left vchRet = (vchRet, mode, left, CHR ''='' # p)"
  by (simp add: b64.decode_pad)

text \<open>A final state of the decoder that is accepted.\<close>

definition accepted64 :: "vch_t \<times> nat \<times> u8 \<times> string \<Rightarrow> vch_t \<Rightarrow> bool" where
  "accepted64 r v = (case r of (vch, mode, left, p) \<Rightarrow>
     vch = v \<and> (mode = 0 \<or> left = 0 \<and> (mode = 2 \<and> p = ''=='' \<or> mode = 3 \<and> p = ''='')))"

lemmas run64 = decode64_loop_digit decode64_loop_pad bits64 accepted64_def

lemma sim64:
  "accepted64 (decode64_loop (encode64_loop xs 0 l) 0 dl acc) (acc @ xs)"
  "accepted64 (decode64_loop (encode64_loop xs 1 (push_bit 4 (l AND 3))) 1 (drop_bit 2 l) acc) (acc @ l # xs)"
  "accepted64 (decode64_loop (encode64_loop xs 2 (push_bit 2 (l AND 15))) 2 (drop_bit 4 l) acc) (acc @ l # xs)"
proof (induction xs arbitrary: l acc dl)
  case Nil
  {
    case 1
    show ?case by (simp add: accepted64_def)
  next
    case 2
    show ?case by (simp add: run64 del: decode64_loop.simps(2) push_bit_and)
  next
    case 3
    show ?case by (simp add: run64 del: decode64_loop.simps(2) push_bit_and)
  }
next
  case (Cons y xs)
  {
    case 1
    show ?case using Cons.IH(2) [of y acc] by (simp add: decode64_loop_digit bits64 del: decode64_loop.simps(2) push_bit_and)
  next
    case 2
    show ?case using Cons.IH(3) [of y "acc @ [l]"]
      by (simp add: decode64_loop_digit bits64 del: decode64_loop.simps(2) push_bit_and)
  next
    case 3
    show ?case using Cons.IH(1) [of "push_bit 2 (l AND 15)" "drop_bit 6 y" "acc @ [l, y]"]
      by (simp add: decode64_loop_digit bits64 del: decode64_loop.simps(2) push_bit_and)
  }
qed

text \<open>
  Base 64 round trip: decoding the encoding of any bytes gives them back and reports a valid text.
\<close>

theorem base64_roundtrip: "DecodeBase64 (EncodeBase64 vch) = (vch, False)"
proof -
  obtain r where r: "decode64_loop (encode64_loop vch 0 0) 0 0 [] = r" "accepted64 r vch"
    using sim64(1) [of vch 0 0 "[]"] by simp
  then show ?thesis
    using b64.padding_good [of 1] b64.padding_good [of 2]
    by (auto simp: DecodeBase64_def EncodeBase64_def accepted64_def numeral_2_eq_2 split: prod.splits)
qed


section \<open>Base 32 round trip\<close>

lemma bits32:
  fixes x y :: u8
  shows "unat (drop_bit 3 x) < 32" "unat (push_bit 2 (x AND 7) OR drop_bit 6 y) < 32" "unat (drop_bit 1 x AND 31) < 32"
    "unat (push_bit 4 (x AND 1) OR drop_bit 4 y) < 32" "unat (push_bit 1 (x AND 15) OR drop_bit 7 y) < 32"
    "unat (drop_bit 2 x AND 31) < 32" "unat (push_bit 3 (x AND 3) OR drop_bit 5 y) < 32" "unat (x AND 31) < 32"
    "unat (push_bit 2 (x AND 7)) < 32" "unat (push_bit 4 (x AND 1)) < 32" "unat (push_bit 1 (x AND 15)) < 32"
    "unat (push_bit 3 (x AND 3)) < 32"
    "push_bit 3 (drop_bit 3 x) OR drop_bit 2 (push_bit 2 (x AND 7) OR drop_bit 6 y) = x"
    "(push_bit 2 (x AND 7) OR drop_bit 6 y) AND 3 = drop_bit 6 y"
    "push_bit 5 (drop_bit 6 x) OR (drop_bit 1 x AND 31) = drop_bit 1 x"
    "push_bit 1 (drop_bit 1 x) OR drop_bit 4 (push_bit 4 (x AND 1) OR drop_bit 4 y) = x"
    "(push_bit 4 (x AND 1) OR drop_bit 4 y) AND 15 = drop_bit 4 y"
    "push_bit 4 (drop_bit 4 x) OR drop_bit 1 (push_bit 1 (x AND 15) OR drop_bit 7 y) = x"
    "(push_bit 1 (x AND 15) OR drop_bit 7 y) AND 1 = drop_bit 7 y"
    "push_bit 5 (drop_bit 7 x) OR (drop_bit 2 x AND 31) = drop_bit 2 x"
    "push_bit 2 (drop_bit 2 x) OR drop_bit 3 (push_bit 3 (x AND 3) OR drop_bit 5 y) = x"
    "(push_bit 3 (x AND 3) OR drop_bit 5 y) AND 7 = drop_bit 5 y" "push_bit 5 (drop_bit 5 x) OR (x AND 31) = x"
    "push_bit 3 (drop_bit 3 x) OR drop_bit 2 (push_bit 2 (x AND 7)) = x" "push_bit 2 (x AND 7) AND 3 = 0"
    "push_bit 1 (drop_bit 1 x) OR drop_bit 4 (push_bit 4 (x AND 1)) = x" "push_bit 4 (x AND 1) AND 15 = 0"
    "push_bit 4 (drop_bit 4 x) OR drop_bit 1 (push_bit 1 (x AND 15)) = x" "push_bit 1 (x AND 15) AND 1 = 0"
    "push_bit 2 (drop_bit 2 x) OR drop_bit 3 (push_bit 3 (x AND 3)) = x" "push_bit 3 (x AND 3) AND 7 = 0"
  by ((rule u8_small(1))?, rule u8_eqI, auto simp: bit_simps u8_no_bit simp flip: numeral_2_eq_2 simp del: push_bit_Suc)+

lemma decode32_loop_digit:
  assumes "unat dec < 32"
  shows "decode32_loop (pbase32 ! unat dec # p) mode left vchRet =
    (if mode = 0 then decode32_loop p 1 dec vchRet
     else if mode = 1 then decode32_loop p 2 (dec AND 3) (vchRet @ [push_bit 3 left OR drop_bit 2 dec])
     else if mode = 2 then decode32_loop p 3 (push_bit 5 left OR dec) vchRet
     else if mode = 3 then decode32_loop p 4 (dec AND 15) (vchRet @ [push_bit 1 left OR drop_bit 4 dec])
     else if mode = 4 then decode32_loop p 5 (dec AND 1) (vchRet @ [push_bit 4 left OR drop_bit 1 dec])
     else if mode = 5 then decode32_loop p 6 (push_bit 5 left OR dec) vchRet
     else if mode = 6 then decode32_loop p 7 (dec AND 7) (vchRet @ [push_bit 2 left OR drop_bit 3 dec])
     else decode32_loop p 0 left (vchRet @ [push_bit 5 left OR dec]))"
  using b32.decode_digit [OF assms] by (simp only: decode32_loop.simps Let_def) simp

lemma decode32_loop_pad: "decode32_loop (CHR ''='' # p) mode left vchRet = (vchRet, mode, left, CHR ''='' # p)"
  by (simp add: b32.decode_pad)

definition accepted32 :: "vch_t \<times> nat \<times> u8 \<times> string \<Rightarrow> vch_t \<Rightarrow> bool" where
  "accepted32 r v = (case r of (vch, mode, left, p) \<Rightarrow>
     vch = v \<and> (mode = 0 \<or> left = 0 \<and> (mode = 2 \<and> p = ''======'' \<or> mode = 4 \<and> p = ''===='' \<or> mode = 5 \<and> p = ''==='' \<or> mode = 7 \<and> p = ''='')))"

lemma padding32: "replicate (nPadding ! 1) (CHR ''='') = ''======''" "replicate (nPadding ! 2) (CHR ''='') = ''====''"
  "replicate (nPadding ! 3) (CHR ''='') = ''===''" "replicate (nPadding ! 4) (CHR ''='') = ''=''"
  by (simp_all add: nPadding_def numeral_eq_Suc)

lemma replicate_eqs: "replicate 6 c = [c, c, c, c, c, c]" "replicate 4 c = [c, c, c, c]" "replicate 3 c = [c, c, c]"
  by (simp_all add: numeral_eq_Suc)

lemmas run32 = decode32_loop_digit decode32_loop_pad bits32 accepted32_def padding32

lemma sim32:
  "accepted32 (decode32_loop (encode32_loop xs 0 l) 0 dl acc) (acc @ xs)"
  "accepted32 (decode32_loop (encode32_loop xs 1 (push_bit 2 (l AND 7))) 1 (drop_bit 3 l) acc) (acc @ l # xs)"
  "accepted32 (decode32_loop (encode32_loop xs 2 (push_bit 4 (l AND 1))) 3 (drop_bit 1 l) acc) (acc @ l # xs)"
  "accepted32 (decode32_loop (encode32_loop xs 3 (push_bit 1 (l AND 15))) 4 (drop_bit 4 l) acc) (acc @ l # xs)"
  "accepted32 (decode32_loop (encode32_loop xs 4 (push_bit 3 (l AND 3))) 6 (drop_bit 2 l) acc) (acc @ l # xs)"
proof (induction xs arbitrary: l acc dl)
  case Nil
  {
    case 1
    show ?case by (simp add: accepted32_def)
  next
    case 2
    show ?case by (simp add: run32 del: decode32_loop.simps(2) push_bit_and One_nat_def)
  next
    case 3
    show ?case by (simp add: run32 del: decode32_loop.simps(2) push_bit_and One_nat_def)
  next
    case 4
    show ?case by (simp add: run32 del: decode32_loop.simps(2) push_bit_and One_nat_def)
  next
    case 5
    show ?case by (simp add: run32 del: decode32_loop.simps(2) push_bit_and One_nat_def)
  }
next
  case (Cons y xs)
  {
    case 1
    show ?case using Cons.IH(2) [of y acc]
      by (simp add: decode32_loop_digit bits32 del: decode32_loop.simps(2) push_bit_and One_nat_def)
  next
    case 2
    show ?case using Cons.IH(3) [of y "acc @ [l]"]
      by (simp add: decode32_loop_digit bits32 del: decode32_loop.simps(2) push_bit_and One_nat_def)
  next
    case 3
    show ?case using Cons.IH(4) [of y "acc @ [l]"]
      by (simp add: decode32_loop_digit bits32 del: decode32_loop.simps(2) push_bit_and One_nat_def)
  next
    case 4
    show ?case using Cons.IH(5) [of y "acc @ [l]"]
      by (simp add: decode32_loop_digit bits32 del: decode32_loop.simps(2) push_bit_and One_nat_def)
  next
    case 5
    show ?case using Cons.IH(1) [of "push_bit 3 (l AND 3)" "drop_bit 5 y" "acc @ [l, y]"]
      by (simp add: decode32_loop_digit bits32 del: decode32_loop.simps(2) push_bit_and One_nat_def)
  }
qed

text \<open>The characters of the encoding.\<close>

lemma pbase32_in: "i < 32 \<Longrightarrow> pbase32 ! i \<in> insert (CHR ''='') (set pbase32)"
proof -
  assume "i < 32"
  moreover have "length pbase32 = 32" by (simp add: pbase32_def)
  ultimately show ?thesis using nth_mem [of i pbase32] by simp
qed

lemma encode32_alphabet:
  "set (encode32_loop vch 0 l) \<subseteq> insert (CHR ''='') (set pbase32)"
  "set (encode32_loop vch 1 (push_bit 2 (x AND 7))) \<subseteq> insert (CHR ''='') (set pbase32)"
  "set (encode32_loop vch 2 (push_bit 4 (x AND 1))) \<subseteq> insert (CHR ''='') (set pbase32)"
  "set (encode32_loop vch 3 (push_bit 1 (x AND 15))) \<subseteq> insert (CHR ''='') (set pbase32)"
  "set (encode32_loop vch 4 (push_bit 3 (x AND 3))) \<subseteq> insert (CHR ''='') (set pbase32)"
  using pbase32_in by (induction vch arbitrary: l x) (simp_all add: bits32 set_replicate_conv_if insertI1 del: push_bit_and push_bit_Suc One_nat_def insert_iff)

lemma decode_encode32: "DecodeBase32 (EncodeBase32 vch) = (vch, False)"
proof -
  obtain r where r: "decode32_loop (encode32_loop vch 0 0) 0 0 [] = r" "accepted32 r vch"
    using sim32(1) [of vch 0 0 "[]"] by simp
  then show ?thesis
    using b32.padding_good [of 1] b32.padding_good [of 3] b32.padding_good [of 4] b32.padding_good [of 6]
    by (auto simp: DecodeBase32_def EncodeBase32_def accepted32_def replicate_eqs split: prod.splits)
qed

text \<open>
  Base 32 round trip: decoding the encoding of any bytes gives them back and reports a valid text.
\<close>

theorem base32_roundtrip: "DecodeBase32 (EncodeBase32 vch) = (vch, False)"
  by (rule decode_encode32)


section \<open>Hexadecimal round trip\<close>

declare ParseHex.simps [simp del]

lemma hexmap_nth:
  assumes "unat (w :: u8) < 16"
  shows "HexDigit (hexmap ! unat w) = int (unat w)" "\<not> is_space (hexmap ! unat w)"
proof -
  have "list_all (\<lambda>i. HexDigit (hexmap ! i) = int i \<and> \<not> is_space (hexmap ! i)) [0..<16]"
    by (simp add: upt_conv_Cons hexmap_def HexDigit_def hexdigit_def is_space_def nth_append)
  then show "HexDigit (hexmap ! unat w) = int (unat w)" "\<not> is_space (hexmap ! unat w)"
    using assms by (simp_all add: list_all_iff)
qed

lemma nibbles:
  fixes x :: u8
  shows "unat (drop_bit 4 x) < 16" "unat (x AND 15) < 16" "push_bit 4 (drop_bit 4 x) OR (x AND 15) = x"
proof -
  show "push_bit 4 (drop_bit 4 x) OR (x AND 15) = x"
    by (rule u8_eqI, auto simp: bit_simps u8_no_bit simp flip: numeral_2_eq_2)
  have "drop_bit 4 (drop_bit 4 x) = 0" "drop_bit 4 (x AND 15) = 0"
    by (rule u8_eqI, auto simp: bit_simps u8_no_bit simp flip: numeral_2_eq_2)+
  then show "unat (drop_bit 4 x) < 16" "unat (x AND 15) < 16"
    by (simp_all add: drop_bit_eq_div word_unat_eq_iff unat_div)
qed

lemma uint_not_minus_1: "uint w \<noteq> - 1"
  using uint_ge_0 [of w] by linarith

lemma ParseHex_byte:
  "ParseHex (hexmap ! unat (drop_bit 4 x) # hexmap ! unat (x AND 15) # rest) = x # ParseHex rest"
  using nibbles [of x] by (subst ParseHex.simps) (simp add: hexmap_nth uint_not_minus_1)

lemma ParseHex_space: "is_space c \<Longrightarrow> ParseHex (c # rest) = ParseHex rest"
  by (subst ParseHex.simps, subst (2) ParseHex.simps) simp

lemma ParseHex_hex_str_loop: "ParseHex (hex_str_loop fSpaces first vch) = vch"
proof (induction vch arbitrary: first)
  case Nil
  show ?case by (subst ParseHex.simps) simp
next
  case (Cons x vch)
  have "is_space (CHR '' '')" by (simp add: is_space_def)
  then show ?case using Cons by (cases fSpaces) (simp_all add: ParseHex_byte ParseHex_space)
qed

lemma hex_str_digits: "c \<in> set (hex_str_loop False first vch) \<Longrightarrow> 0 \<le> HexDigit c"
  by (induction vch arbitrary: first) (auto simp: hexmap_nth nibbles)

lemma length_hex_str: "length (hex_str_loop False first vch) = 2 * length vch"
  by (induction vch arbitrary: first) auto

text \<open>
  Hexadecimal round trip: \<^verbatim>\<open>ParseHex\<close> reads back what \<^verbatim>\<open>HexStr\<close> writes, with or without spaces between the
  bytes, and \<^verbatim>\<open>IsHex\<close> accepts the text without spaces unless it is empty.
\<close>

theorem hex_str_roundtrip: "ParseHex (HexStr vch fSpaces) = vch \<and> (IsHex (HexStr vch False) \<longleftrightarrow> vch \<noteq> [])"
  using hex_str_digits [of _ True vch]
  by (auto simp: HexStr_def ParseHex_hex_str_loop IsHex_def length_hex_str not_less)

end
