(* ===== verification/Containers.thy ===== *)
theory Containers
  imports Prelude "HOL-Library.Multiset"
begin

text \<open>
  The bounded containers of \<^verbatim>\<open>src/base/mruset.h\<close> and \<^verbatim>\<open>src/base/limitedmap.h\<close>.  A \<^verbatim>\<open>std::map\<close> is the list of its
  entries, a \<^verbatim>\<open>std::multimap\<close> the list of its entries in the order of iteration (by key, equal keys in the order of
  insertion), an iterator into the map is the key it points to.  \<^const>\<open>None\<close> stands for a failed assertion and for
  the undefined behaviour of reading the first element of an empty container.
\<close>

section \<open>mruset\<close>

record 'a mruset =
  mru_set :: "'a set"
  mru_queue :: "'a list"
  mru_max :: nat

definition mruset_new :: "nat \<Rightarrow> 'a mruset" where
  "mruset_new nMaxSizeIn = \<lparr>mru_set = {}, mru_queue = [], mru_max = nMaxSizeIn\<rparr>"

definition mruset_clear :: "'a mruset \<Rightarrow> 'a mruset" where
  "mruset_clear m = m\<lparr>mru_set := {}, mru_queue := []\<rparr>"

definition mruset_pop :: "'a mruset \<Rightarrow> 'a mruset option" where
  "mruset_pop m = (case mru_queue m of
     [] \<Rightarrow> None
   | x # q \<Rightarrow> Some (m\<lparr>mru_set := mru_set m - {x}, mru_queue := q\<rparr>))"

definition mruset_insert :: "'a \<Rightarrow> 'a mruset \<Rightarrow> ('a mruset \<times> bool) option" where
  "mruset_insert x m =
     (if x \<in> mru_set m then Some (m, False)
      else let m = m\<lparr>mru_set := insert x (mru_set m)\<rparr>
           in map_option (\<lambda>m. (m\<lparr>mru_queue := mru_queue m @ [x]\<rparr>, True))
                (if mru_max m \<noteq> 0 \<and> length (mru_queue m) = mru_max m then mruset_pop m else Some m))"

fun mruset_shrink :: "nat \<Rightarrow> 'a list \<Rightarrow> 'a set \<Rightarrow> 'a list \<times> 'a set" where
  "mruset_shrink s [] st = ([], st)"
| "mruset_shrink s (x # q) st = (if s < length (x # q) then mruset_shrink s q (st - {x}) else (x # q, st))"

definition mruset_max_size :: "nat \<Rightarrow> 'a mruset \<Rightarrow> 'a mruset" where
  "mruset_max_size s m =
     (let (q, st) = (if s \<noteq> 0 then mruset_shrink s (mru_queue m) (mru_set m) else (mru_queue m, mru_set m))
      in m\<lparr>mru_set := st, mru_queue := q, mru_max := s\<rparr>)"

section \<open>limitedmap\<close>

record ('k, 'v) limitedmap =
  lm_map :: "('k \<times> 'v) list"
  lm_rmap :: "('v \<times> 'k) list"
  lm_max :: nat

definition limitedmap_new :: "nat \<Rightarrow> ('k, 'v) limitedmap" where
  "limitedmap_new nMaxSizeIn = \<lparr>lm_map = [], lm_rmap = [], lm_max = nMaxSizeIn\<rparr>"

definition lm_count :: "'k \<Rightarrow> ('k, 'v) limitedmap \<Rightarrow> nat" where
  "lm_count k m = (if k \<in> fst ` set (lm_map m) then 1 else 0)"

definition map_erase :: "'k \<Rightarrow> ('k \<times> 'v) list \<Rightarrow> ('k \<times> 'v) list" where
  "map_erase k entries = filter (\<lambda>e. fst e \<noteq> k) entries"

text \<open>\<^verbatim>\<open>std::multimap::insert\<close> puts the entry after those with the same key.\<close>

fun multimap_insert :: "'v::linorder \<Rightarrow> 'k \<Rightarrow> ('v \<times> 'k) list \<Rightarrow> ('v \<times> 'k) list" where
  "multimap_insert v k [] = [(v, k)]"
| "multimap_insert v k ((w, l) # r) = (if w \<le> v then (w, l) # multimap_insert v k r else (v, k) # (w, l) # r)"

definition lm_drop_first :: "('k, 'v) limitedmap \<Rightarrow> ('k, 'v) limitedmap option" where
  "lm_drop_first m = (case lm_rmap m of
     [] \<Rightarrow> None
   | (v, k) # r \<Rightarrow> Some (m\<lparr>lm_map := map_erase k (lm_map m), lm_rmap := r\<rparr>))"

definition lm_insert :: "'k \<times> 'v::linorder \<Rightarrow> ('k, 'v) limitedmap \<Rightarrow> ('k, 'v) limitedmap option" where
  "lm_insert x m =
     (if fst x \<in> fst ` set (lm_map m) then Some m
      else let m = m\<lparr>lm_map := x # lm_map m\<rparr>
           in map_option (\<lambda>m. m\<lparr>lm_rmap := multimap_insert (snd x) (fst x) (lm_rmap m)\<rparr>)
                (if lm_max m \<noteq> 0 \<and> length (lm_map m) = lm_max m then lm_drop_first m else Some m))"

text \<open>The loop over the \<^verbatim>\<open>equal_range\<close> looks for the entry of the target; \<^const>\<open>None\<close> is the \<^verbatim>\<open>assert(0)\<close>.\<close>

definition lm_remove_entry :: "'v \<Rightarrow> 'k \<Rightarrow> ('v \<times> 'k) list \<Rightarrow> ('v \<times> 'k) list option" where
  "lm_remove_entry v k r = (if (v, k) \<in> set r then Some (remove1 (v, k) r) else None)"

definition lm_erase :: "'k \<Rightarrow> ('k, 'v) limitedmap \<Rightarrow> ('k, 'v) limitedmap option" where
  "lm_erase k m =
     (case map_of (lm_map m) k of
        None \<Rightarrow> Some m
      | Some v \<Rightarrow> map_option (\<lambda>r. m\<lparr>lm_map := map_erase k (lm_map m), lm_rmap := r\<rparr>) (lm_remove_entry v k (lm_rmap m)))"

definition map_assign :: "'k \<Rightarrow> 'v \<Rightarrow> ('k \<times> 'v) list \<Rightarrow> ('k \<times> 'v) list" where
  "map_assign k v entries = map (\<lambda>e. if fst e = k then (k, v) else e) entries"

definition lm_update :: "'k \<Rightarrow> 'v::linorder \<Rightarrow> ('k, 'v) limitedmap \<Rightarrow> ('k, 'v) limitedmap option" where
  "lm_update k v m =
     (case map_of (lm_map m) k of
        None \<Rightarrow> Some m
      | Some w \<Rightarrow>
          map_option (\<lambda>r. m\<lparr>lm_map := map_assign k v (lm_map m), lm_rmap := multimap_insert v k r\<rparr>)
            (lm_remove_entry w k (lm_rmap m)))"

function lm_shrink :: "nat \<Rightarrow> ('k, 'v) limitedmap \<Rightarrow> ('k, 'v) limitedmap option" where
  "lm_shrink s m =
     (if s < length (lm_map m)
      then (case lm_drop_first m of None \<Rightarrow> None | Some m' \<Rightarrow> lm_shrink s m')
      else Some m)"
  by pat_completeness auto
termination
  by (relation "measure (\<lambda>(s, m). length (lm_rmap m))") (auto simp: lm_drop_first_def split: list.splits)

definition lm_max_size :: "nat \<Rightarrow> ('k, 'v) limitedmap \<Rightarrow> ('k, 'v) limitedmap option" where
  "lm_max_size s m = map_option (\<lambda>m. m\<lparr>lm_max := s\<rparr>) (if s \<noteq> 0 then lm_shrink s m else Some m)"


section \<open>The invariant of mruset\<close>

definition mruset_ok :: "'a mruset \<Rightarrow> bool" where
  "mruset_ok m \<longleftrightarrow> mru_set m = set (mru_queue m) \<and> distinct (mru_queue m) \<and> (mru_max m \<noteq> 0 \<longrightarrow> length (mru_queue m) \<le> mru_max m)"

lemma mruset_insert_ok:
  assumes "mruset_ok m"
  shows "\<exists>m'. mruset_insert x m = Some (m', x \<notin> mru_set m) \<and> mruset_ok m' \<and> x \<in> mru_set m' \<and> mru_max m' = mru_max m
     \<and> mru_queue m' = (if x \<in> mru_set m then mru_queue m
          else (if mru_max m \<noteq> 0 \<and> length (mru_queue m) = mru_max m then tl (mru_queue m) else mru_queue m) @ [x])"
proof (cases "x \<in> mru_set m")
  case False
  show ?thesis
  proof (cases "mru_max m \<noteq> 0 \<and> length (mru_queue m) = mru_max m")
    case True
    then obtain y q where "mru_queue m = y # q" by (cases "mru_queue m") auto
    then have "mruset_insert x m = Some (m\<lparr>mru_set := insert x (mru_set m) - {y}, mru_queue := q @ [x]\<rparr>, True)"
      using False True by (simp add: mruset_insert_def mruset_pop_def Let_def)
    moreover have "insert x (mru_set m) - {y} = insert x (set q)"
      using assms False \<open>mru_queue m = y # q\<close> by (auto simp: mruset_ok_def)
    ultimately show ?thesis using assms False True \<open>mru_queue m = y # q\<close> by (simp add: mruset_ok_def)
  next
    case room: False
    then have "mruset_insert x m = Some (m\<lparr>mru_set := insert x (mru_set m), mru_queue := mru_queue m @ [x]\<rparr>, True)"
      using False by (auto simp: mruset_insert_def Let_def)
    moreover have "mru_max m \<noteq> 0 \<longrightarrow> length (mru_queue m) < mru_max m" using assms room by (auto simp: mruset_ok_def)
    moreover have "(mru_max m \<noteq> 0 \<and> length (mru_queue m) = mru_max m) = False" using room by simp
    ultimately show ?thesis using assms False by (simp add: mruset_ok_def Suc_le_eq) (metis gr0I less_irrefl)
  qed
qed (use assms in \<open>auto simp: mruset_insert_def\<close>)

lemma mruset_shrink_ok:
  "distinct q \<Longrightarrow> mruset_shrink s q (set q) = (drop (length q - s) q, set (drop (length q - s) q))"
proof (induction q)
  case (Cons x q)
  show ?case
  proof (cases "s < length (x # q)")
    case True
    then have "length (x # q) - s = Suc (length q - s)" by simp
    moreover have "set (x # q) - {x} = set q" using Cons.prems by auto
    ultimately show ?thesis using True Cons by simp
  qed simp
qed simp

lemma mruset_max_size_ok: "mruset_ok m \<Longrightarrow> mruset_ok (mruset_max_size s m)"
  by (auto simp: mruset_ok_def mruset_max_size_def mruset_shrink_ok)

datatype 'a mru_op = MInsert 'a | MClear | MMax nat

fun mruset_step :: "'a mru_op \<Rightarrow> 'a mruset \<Rightarrow> 'a mruset option" where
  "mruset_step (MInsert x) m = map_option fst (mruset_insert x m)"
| "mruset_step MClear m = Some (mruset_clear m)"
| "mruset_step (MMax s) m = Some (mruset_max_size s m)"

fun mruset_run :: "'a mru_op list \<Rightarrow> 'a mruset \<Rightarrow> 'a mruset option" where
  "mruset_run [] m = Some m"
| "mruset_run (op # ops) m = (case mruset_step op m of None \<Rightarrow> None | Some m' \<Rightarrow> mruset_run ops m')"

lemma mruset_run_ok: "mruset_ok m \<Longrightarrow> \<exists>m'. mruset_run ops m = Some m' \<and> mruset_ok m'"
proof (induction ops arbitrary: m)
  case (Cons op ops)
  have "\<exists>m'. mruset_step op m = Some m' \<and> mruset_ok m'"
  proof (cases op)
    case (MInsert x)
    then show ?thesis using mruset_insert_ok [OF Cons.prems, of x] by auto
  qed (use Cons.prems mruset_max_size_ok in \<open>auto simp: mruset_clear_def mruset_ok_def\<close>)
  then show ?case using Cons.IH by auto
qed simp

lemma mruset_run_inserts:
  assumes "mruset_ok m" and "distinct (mru_queue m @ xs)" and "mru_max m = n" and "0 < n"
  shows "\<exists>m'. mruset_run (map MInsert xs) m = Some m' \<and> mruset_ok m'
     \<and> mru_queue m' = drop (length (mru_queue m @ xs) - n) (mru_queue m @ xs)"
  using assms
proof (induction xs arbitrary: m)
  case Nil
  then show ?case by (simp add: mruset_ok_def)
next
  case (Cons x xs)
  have x: "x \<notin> mru_set m" using Cons.prems(1,2) by (auto simp: mruset_ok_def)
  have le: "length (mru_queue m) \<le> n" using Cons.prems by (simp add: mruset_ok_def)
  obtain m' where m': "mruset_insert x m = Some (m', True)" "mruset_ok m'" "mru_max m' = n"
    "mru_queue m' = (if length (mru_queue m) = n then tl (mru_queue m) else mru_queue m) @ [x]"
    using mruset_insert_ok [OF Cons.prems(1), of x] x Cons.prems(3,4) by auto
  have dist: "distinct (mru_queue m' @ xs)"
    using Cons.prems(2) m'(4) by (cases "mru_queue m") auto
  have "drop (length (mru_queue m' @ xs) - n) (mru_queue m' @ xs) = drop (length (mru_queue m @ x # xs) - n) (mru_queue m @ x # xs)"
  proof (cases "length (mru_queue m) = n")
    case True
    then obtain y q where "mru_queue m = y # q" using Cons.prems(4) by (cases "mru_queue m") auto
    then show ?thesis using m'(4) by (simp flip: True)
  qed (use m'(4) in simp)
  then show ?case using Cons.IH [OF m'(2) dist m'(3) Cons.prems(4)] m'(1) by simp
qed


section \<open>The invariant of limitedmap\<close>

definition swap_entry :: "'k \<times> 'v \<Rightarrow> 'v \<times> 'k" where
  "swap_entry e = (snd e, fst e)"

definition lm_ok :: "('k, 'v::linorder) limitedmap \<Rightarrow> bool" where
  "lm_ok m \<longleftrightarrow> distinct (map fst (lm_map m)) \<and> sorted (map fst (lm_rmap m))
     \<and> mset (lm_rmap m) = mset (map swap_entry (lm_map m))"

lemma mset_multimap_insert: "mset (multimap_insert v k r) = add_mset (v, k) (mset r)"
  by (induction v k r rule: multimap_insert.induct) auto

lemma sorted_multimap_insert: "sorted (map fst r) \<Longrightarrow> sorted (map fst (multimap_insert v k r))"
proof (induction v k r rule: multimap_insert.induct)
  case (2 v k w l r)
  have "set (multimap_insert v k r) = insert (v, k) (set r)"
    using arg_cong [OF mset_multimap_insert [of v k r], of set_mset] by simp
  then show ?case using 2 by (auto simp: not_le)
qed simp

lemma length_lm_ok: "lm_ok m \<Longrightarrow> length (lm_rmap m) = length (lm_map m)"
  unfolding lm_ok_def by (drule conjunct2, drule conjunct2, drule mset_eq_length) simp

lemma mset_map_erase:
  assumes "distinct (map fst es)" and "(k, v) \<in> set es"
  shows "mset (map swap_entry es) = add_mset (v, k) (mset (map swap_entry (map_erase k es)))"
  using assms
proof (induction es)
  case (Cons e es)
  show ?case
  proof (cases "fst e = k")
    case True
    then have "k \<notin> fst ` set es" and "e = (k, v)" using Cons.prems by (auto simp: image_iff)
    then have "map_erase k (e # es) = es" unfolding map_erase_def by (auto simp: filter_id_conv image_iff)
    then show ?thesis using \<open>e = (k, v)\<close> by (simp add: swap_entry_def)
  next
    case False
    then show ?thesis using Cons by (auto simp: map_erase_def)
  qed
qed simp

lemma distinct_map_erase: "distinct (map fst es) \<Longrightarrow> distinct (map fst (map_erase k es))"
  unfolding map_erase_def by (induction es) auto

lemma entry_in_map: "lm_ok m \<Longrightarrow> (v, k) \<in> set (lm_rmap m) \<longleftrightarrow> (k, v) \<in> set (lm_map m)"
proof -
  assume "lm_ok m"
  then have "set (lm_rmap m) = set (map swap_entry (lm_map m))" by (metis lm_ok_def set_mset_mset)
  then show ?thesis by (force simp: swap_entry_def)
qed

lemma lm_drop_first_ok:
  assumes "lm_ok m" and "lm_rmap m = (v, k) # r"
  shows "lm_drop_first m = Some (m\<lparr>lm_map := map_erase k (lm_map m), lm_rmap := r\<rparr>)"
    and "lm_ok (m\<lparr>lm_map := map_erase k (lm_map m), lm_rmap := r\<rparr>)"
    and "length (lm_map m) = Suc (length (map_erase k (lm_map m)))"
proof -
  show "lm_drop_first m = Some (m\<lparr>lm_map := map_erase k (lm_map m), lm_rmap := r\<rparr>)" using assms(2) by (simp add: lm_drop_first_def)
  have "(k, v) \<in> set (lm_map m)" using entry_in_map [OF assms(1), of v k] assms(2) by simp
  then have e: "mset (map swap_entry (lm_map m)) = add_mset (v, k) (mset (map swap_entry (map_erase k (lm_map m))))"
    using mset_map_erase assms(1) by (auto simp: lm_ok_def)
  then show "length (lm_map m) = Suc (length (map_erase k (lm_map m)))"
    by (metis length_map mset_map size_add_mset size_mset)
  show "lm_ok (m\<lparr>lm_map := map_erase k (lm_map m), lm_rmap := r\<rparr>)"
    using assms e by (simp add: lm_ok_def distinct_map_erase)
qed


lemma lm_insert_ok:
  assumes "lm_ok m" and "lm_max m \<noteq> 1 \<or> lm_map m \<noteq> []"
  shows "\<exists>m'. lm_insert x m = Some m' \<and> lm_ok m' \<and> lm_max m' = lm_max m \<and> map_of (lm_map m') (fst x) \<noteq> None
     \<and> length (lm_map m') = (if fst x \<in> fst ` set (lm_map m) \<or> Suc (length (lm_map m)) = lm_max m then length (lm_map m) else Suc (length (lm_map m)))"
proof (cases "fst x \<in> fst ` set (lm_map m)")
  case True
  then show ?thesis using assms(1) by (auto simp: lm_insert_def map_of_eq_None_iff)
next
  case fresh: False
  show ?thesis
  proof (cases "Suc (length (lm_map m)) = lm_max m")
    case True
    then obtain v k r where r: "lm_rmap m = (v, k) # r"
      using assms length_lm_ok [OF assms(1)] by (cases "lm_rmap m") auto
    have "(k, v) \<in> set (lm_map m)" using entry_in_map [OF assms(1), of v k] r by simp
    then have "k \<in> fst ` set (lm_map m)" by (rule image_eqI [rotated]) simp
    then have ne: "fst x \<noteq> k" using fresh by blast
    note d = lm_drop_first_ok [OF assms(1) r]
    have ins: "lm_insert x m = Some (m\<lparr>lm_map := x # map_erase k (lm_map m), lm_rmap := multimap_insert (snd x) (fst x) r\<rparr>)"
      using fresh True r ne by (simp add: lm_insert_def lm_drop_first_def Let_def map_erase_def)
    moreover have "fst x \<notin> fst ` set (map_erase k (lm_map m))" using fresh by (auto simp: map_erase_def)
    ultimately show ?thesis
      using d(2,3) True fresh by (cases x) (simp add: lm_ok_def sorted_multimap_insert mset_multimap_insert swap_entry_def)
  next
    case False
    then have "lm_insert x m = Some (m\<lparr>lm_map := x # lm_map m, lm_rmap := multimap_insert (snd x) (fst x) (lm_rmap m)\<rparr>)"
      using fresh by (simp add: lm_insert_def Let_def)
    then show ?thesis
      using assms(1) False fresh by (cases x) (simp add: lm_ok_def sorted_multimap_insert mset_multimap_insert swap_entry_def)
  qed
qed

lemma lm_remove_entry_ok:
  assumes "lm_ok m" and "map_of (lm_map m) k = Some v"
  shows "\<exists>r. lm_remove_entry v k (lm_rmap m) = Some r \<and> sorted (map fst r) \<and> mset r = mset (map swap_entry (map_erase k (lm_map m)))"
proof -
  have in_map: "(k, v) \<in> set (lm_map m)" using assms(2) by (rule map_of_SomeD)
  then have "(v, k) \<in> set (lm_rmap m)" using entry_in_map [OF assms(1)] by blast
  moreover have "mset (lm_rmap m) = add_mset (v, k) (mset (map swap_entry (map_erase k (lm_map m))))"
    using mset_map_erase [OF _ in_map] assms(1) by (simp add: lm_ok_def)
  moreover have "sorted (map fst (remove1 (v, k) (lm_rmap m)))"
    using assms(1) by (auto simp: lm_ok_def intro: sorted_map_remove1)
  ultimately show ?thesis by (simp add: lm_remove_entry_def)
qed

lemma lm_erase_ok:
  assumes "lm_ok m"
  shows "\<exists>m'. lm_erase k m = Some m' \<and> lm_ok m' \<and> lm_max m' = lm_max m \<and> map_of (lm_map m') k = None
     \<and> length (lm_map m') \<le> length (lm_map m)"
proof (cases "map_of (lm_map m) k")
  case (Some v)
  then obtain r where "lm_remove_entry v k (lm_rmap m) = Some r" "sorted (map fst r)" "mset r = mset (map swap_entry (map_erase k (lm_map m)))"
    using lm_remove_entry_ok [OF assms Some] by blast
  then show ?thesis using assms Some
    by (simp add: lm_erase_def lm_ok_def distinct_map_erase) (auto simp: map_of_eq_None_iff map_erase_def)
qed (use assms in \<open>simp add: lm_erase_def\<close>)

lemma keys_map_assign: "map fst (map_assign k v es) = map fst es"
  unfolding map_assign_def by (induction es) auto

lemma map_erase_assign: "map_erase k (map_assign k v es) = map_erase k es"
  unfolding map_assign_def map_erase_def by (induction es) auto

lemma length_map_assign: "length (map_assign k v es) = length es"
  by (simp add: map_assign_def)

lemma lm_update_ok:
  assumes "lm_ok m"
  shows "\<exists>m'. lm_update k v m = Some m' \<and> lm_ok m' \<and> lm_max m' = lm_max m \<and> length (lm_map m') = length (lm_map m)
     \<and> map_of (lm_map m') k = (if map_of (lm_map m) k = None then None else Some v)"
proof (cases "map_of (lm_map m) k")
  case (Some w)
  obtain r where r: "lm_remove_entry w k (lm_rmap m) = Some r" "sorted (map fst r)" "mset r = mset (map swap_entry (map_erase k (lm_map m)))"
    using lm_remove_entry_ok [OF assms Some] by blast
  have dist: "distinct (map fst (map_assign k v (lm_map m)))" using assms by (simp only: lm_ok_def keys_map_assign)
  have in_es: "(k, v) \<in> set (map_assign k v (lm_map m))" using map_of_SomeD [OF Some] by (force simp: map_assign_def)
  then have "map_of (map_assign k v (lm_map m)) k = Some v" using dist by simp
  moreover have "mset (map swap_entry (map_assign k v (lm_map m))) = add_mset (v, k) (mset r)"
    unfolding mset_map_erase [OF dist in_es] map_erase_assign r(3) ..
  ultimately show ?thesis using dist Some r
    by (simp add: lm_update_def lm_ok_def sorted_multimap_insert mset_multimap_insert length_map_assign)
qed (use assms in \<open>simp add: lm_update_def\<close>)


declare lm_shrink.simps [simp del]

lemma lm_shrink_ok:
  assumes "lm_ok m"
  shows "\<exists>m'. lm_shrink s m = Some m' \<and> lm_ok m' \<and> lm_max m' = lm_max m \<and> length (lm_map m') = min s (length (lm_map m))"
  using assms
proof (induction s m rule: lm_shrink.induct)
  case (1 s m)
  show ?case
  proof (cases "s < length (lm_map m)")
    case True
    then obtain v k r where r: "lm_rmap m = (v, k) # r"
      using length_lm_ok [OF "1.prems"] by (cases "lm_rmap m") auto
    note d = lm_drop_first_ok [OF "1.prems" r]
    show ?thesis using "1.IH" [OF True d(1) d(2)] True d by (subst lm_shrink.simps) (auto simp: min_def)
  qed (use "1.prems" in \<open>simp add: lm_shrink.simps\<close>)
qed

datatype ('k, 'v) lm_op = LInsert 'k 'v | LErase 'k | LUpdate 'k 'v | LMax nat

fun lm_step :: "('k, 'v::linorder) lm_op \<Rightarrow> ('k, 'v) limitedmap \<Rightarrow> ('k, 'v) limitedmap option" where
  "lm_step (LInsert k v) m = lm_insert (k, v) m"
| "lm_step (LErase k) m = lm_erase k m"
| "lm_step (LUpdate k v) m = lm_update k v m"
| "lm_step (LMax s) m = lm_max_size s m"

fun lm_run :: "('k, 'v::linorder) lm_op list \<Rightarrow> ('k, 'v) limitedmap \<Rightarrow> ('k, 'v) limitedmap option" where
  "lm_run [] m = Some m"
| "lm_run (op # ops) m = (case lm_step op m of None \<Rightarrow> None | Some m' \<Rightarrow> lm_run ops m')"

lemma lm_step_ok:
  assumes "lm_ok m" and "lm_max m \<noteq> 1" and "op \<noteq> LMax 1"
  shows "\<exists>m'. lm_step op m = Some m' \<and> lm_ok m' \<and> lm_max m' \<noteq> 1"
proof (cases op)
  case (LInsert k v)
  then show ?thesis using lm_insert_ok [OF assms(1), of "(k, v)"] assms(2) by auto
next
  case (LErase k)
  then show ?thesis using lm_erase_ok [OF assms(1), of k] assms(2) by auto
next
  case (LUpdate k v)
  then show ?thesis using lm_update_ok [OF assms(1), of k v] assms(2) by auto
next
  case (LMax s)
  then show ?thesis using lm_shrink_ok [OF assms(1), of s] assms by (auto simp: lm_max_size_def lm_ok_def)
qed

lemma lm_run_ok:
  "lm_ok m \<Longrightarrow> lm_max m \<noteq> 1 \<Longrightarrow> LMax 1 \<notin> set ops \<Longrightarrow> \<exists>m'. lm_run ops m = Some m' \<and> lm_ok m' \<and> lm_max m' \<noteq> 1"
proof (induction ops arbitrary: m)
  case (Cons op ops)
  then obtain m' where "lm_step op m = Some m'" "lm_ok m'" "lm_max m' \<noteq> 1" using lm_step_ok [of m op] by auto
  then show ?case using Cons by simp
qed simp

lemma lm_run_bound:
  assumes "lm_ok m" and "2 \<le> lm_max m" and "length (lm_map m) < lm_max m" and "\<forall>s. LMax s \<notin> set ops"
  shows "\<exists>m'. lm_run ops m = Some m' \<and> lm_ok m' \<and> lm_max m' = lm_max m \<and> length (lm_map m') < lm_max m"
  using assms
proof (induction ops arbitrary: m)
  case (Cons op ops)
  have "\<exists>m'. lm_step op m = Some m' \<and> lm_ok m' \<and> lm_max m' = lm_max m \<and> length (lm_map m') < lm_max m"
  proof (cases op)
    case (LInsert k v)
    then show ?thesis using lm_insert_ok [OF Cons.prems(1), of "(k, v)"] Cons.prems(2,3) by (auto split: if_splits)
  next
    case (LErase k)
    then show ?thesis using lm_erase_ok [OF Cons.prems(1), of k] Cons.prems(3) by auto
  next
    case (LUpdate k v)
    then show ?thesis using lm_update_ok [OF Cons.prems(1), of k v] Cons.prems(3) by auto
  next
    case (LMax s)
    then show ?thesis using Cons.prems(4) by auto
  qed
  then obtain m' where "lm_step op m = Some m'" "lm_ok m'" "lm_max m' = lm_max m" "length (lm_map m') < lm_max m" by blast
  then show ?case using Cons.IH [of m'] Cons.prems(2,4) by simp
qed simp

lemma lm_run_unbounded:
  assumes "lm_ok m" and "lm_max m \<le> length (lm_map m)" and "0 < lm_max m" and "distinct (map fst xs)" and "fst ` set xs \<inter> fst ` set (lm_map m) = {}"
  shows "\<exists>m'. lm_run (map (\<lambda>(k, v). LInsert k v) xs) m = Some m' \<and> length (lm_map m') = length (lm_map m) + length xs"
  using assms
proof (induction xs arbitrary: m)
  case (Cons x xs)
  obtain k v where x: "x = (k, v)" by fastforce
  have fresh: "k \<notin> fst ` set (lm_map m)" using Cons.prems(5) x by auto
  then have ins: "lm_insert (k, v) m = Some (m\<lparr>lm_map := (k, v) # lm_map m, lm_rmap := multimap_insert v k (lm_rmap m)\<rparr>)"
    using Cons.prems(2) by (simp add: lm_insert_def Let_def)
  obtain m' where m': "lm_insert (k, v) m = Some m'" "lm_ok m'" using lm_insert_ok [OF Cons.prems(1), of "(k, v)"] Cons.prems(2,3) by (cases "lm_map m") auto
  then have m'_eq: "lm_map m' = (k, v) # lm_map m" "lm_max m' = lm_max m" using ins by auto
  have "fst ` set xs \<inter> fst ` set (lm_map m') = {}" using Cons.prems(4,5) x by (auto simp: m'_eq)
  then show ?case using Cons.IH [OF m'(2)] Cons.prems(2,3,4) m'(1) x by (simp add: m'_eq)
qed simp


lemma lm_shrink_subset: "lm_shrink s m = Some m' \<Longrightarrow> set (lm_map m') \<subseteq> set (lm_map m)"
proof (induction s m rule: lm_shrink.induct)
  case (1 s m)
  show ?case
  proof (cases "s < length (lm_map m)")
    case True
    then obtain m1 where "lm_drop_first m = Some m1" "lm_shrink s m1 = Some m'"
      using "1.prems" by (auto simp: lm_shrink.simps split: option.splits)
    then show ?thesis using "1.IH" [OF True] by (auto simp: lm_drop_first_def map_erase_def split: list.splits)
  qed (use "1.prems" in \<open>simp add: lm_shrink.simps\<close>)
qed

section \<open>Properties\<close>

text \<open>
  A \<^verbatim>\<open>mruset\<close> with a limit \<open>n > 0\<close> holds, after any insertions of distinct elements, exactly the \<open>n\<close> most recent ones,
  in the order of insertion; and after every sequence of operations its set and its queue hold the same elements, without
  duplicates and within the limit, and no operation touches an empty queue.
\<close>

theorem mruset_keeps_recent:
  fixes xs :: "'a list" and ops :: "'a mru_op list"
  assumes "0 < n" and "distinct xs"
  shows "(\<exists>m. mruset_run (map MInsert xs) (mruset_new n) = Some m \<and> mru_queue m = drop (length xs - n) xs \<and> mru_set m = set (drop (length xs - n) xs))
     \<and> (\<exists>m. mruset_run ops (mruset_new n) = Some m \<and> mruset_ok m)"
proof -
  have ok: "mruset_ok (mruset_new n :: 'a mruset)" by (simp add: mruset_ok_def mruset_new_def)
  then show ?thesis
    using mruset_run_inserts [OF ok, of xs n] mruset_run_ok [OF ok, of ops] assms
    by (auto simp: mruset_new_def mruset_ok_def)
qed

theorem mruset_keeps_recent_witness:
  "\<exists>m. mruset_run (map MInsert [4, 7, 9 :: nat]) (mruset_new 2) = Some m \<and> mru_queue m = [7, 9] \<and> mru_set m = {7, 9}"
  using mruset_keeps_recent [of 2 "[4, 7, 9 :: nat]" "[]"] by simp

text \<open>
  C36. A \<^verbatim>\<open>limitedmap\<close> that is made with a limit other than one stays well formed under every sequence of operations that never
  set the limit to one (with a limit of one the first insertion erases the beginning of an empty index, which is undefined): no operation fails
  its assertion or reads an empty index, the keys are distinct, and the index by value lists exactly the entries of the
  map in ascending order.
\<close>

theorem limitedmap_well_formed:
  assumes "n \<noteq> 1" and "LMax 1 \<notin> set ops"
  shows "\<exists>m. lm_run ops (limitedmap_new n) = Some m \<and> distinct (map fst (lm_map m)) \<and> sorted (map fst (lm_rmap m))
     \<and> mset (lm_rmap m) = mset (map swap_entry (lm_map m))"
  using lm_run_ok [of "limitedmap_new n" ops] assms by (auto simp: lm_ok_def limitedmap_new_def)

theorem limitedmap_well_formed_witness:
  "\<exists>m. lm_run [LInsert (1 :: nat) (5 :: int), LInsert 2 3, LUpdate 1 2, LErase 2, LMax 2] (limitedmap_new 3) = Some m
     \<and> mset (lm_rmap m) = mset (map swap_entry (lm_map m))"
  using limitedmap_well_formed [of 3 "[LInsert (1 :: nat) (5 :: int), LInsert 2 3, LUpdate 1 2, LErase 2, LMax 2]"] by auto

text \<open>
  The limit.  As long as the limit is not changed, a \<^verbatim>\<open>limitedmap\<close> made with a limit \<open>n\<close> of at least two never holds \<open>n\<close>
  entries: it keeps at most \<open>n - 1\<close>, one fewer than documented.
\<close>

theorem limitedmap_keeps_fewer:
  assumes "2 \<le> n" and "\<forall>s. LMax s \<notin> set ops"
  shows "\<exists>m. lm_run ops (limitedmap_new n) = Some m \<and> length (lm_map m) \<le> n - 1"
  using lm_run_bound [of "limitedmap_new n" ops] assms by (fastforce simp: lm_ok_def limitedmap_new_def)

theorem limitedmap_keeps_fewer_witness:
  "\<exists>m. lm_run [LInsert (1 :: nat) (5 :: int), LInsert 2 3] (limitedmap_new 2) = Some m \<and> length (lm_map m) \<le> 1"
  using limitedmap_keeps_fewer [of 2 "[LInsert (1 :: nat) (5 :: int), LInsert 2 3]"] by auto

text \<open>
  Lowering the limit disables it.  After \<^verbatim>\<open>max_size(s)\<close> on a map with at least \<open>s\<close> entries, exactly \<open>s\<close> remain, and from
  then on insertions are never limited: every new key makes the map larger.
\<close>

theorem limitedmap_unbounded_after_max_size:
  assumes "lm_ok m" and "0 < s" and "s \<le> length (lm_map m)"
    and "distinct (map fst xs)" and "fst ` set xs \<inter> fst ` set (lm_map m) = {}"
  shows "\<exists>m' m''. lm_max_size s m = Some m' \<and> length (lm_map m') = s
     \<and> lm_run (map (\<lambda>(k, v). LInsert k v) xs) m' = Some m'' \<and> length (lm_map m'') = s + length xs"
proof -
  obtain m1 where m1: "lm_shrink s m = Some m1" "lm_ok m1" "length (lm_map m1) = s" "set (lm_map m1) \<subseteq> set (lm_map m)"
    using lm_shrink_ok [OF assms(1), of s] lm_shrink_subset assms(3) by fastforce
  let ?m = "m1\<lparr>lm_max := s\<rparr>"
  have "lm_ok ?m" "fst ` set xs \<inter> fst ` set (lm_map ?m) = {}" using m1 assms(5) by (auto simp: lm_ok_def)
  then obtain m2 where "lm_run (map (\<lambda>(k, v). LInsert k v) xs) ?m = Some m2" "length (lm_map m2) = s + length xs"
    using lm_run_unbounded [of ?m xs] assms(2,4) m1(3) by auto
  then show ?thesis using m1 assms(2) by (simp add: lm_max_size_def)
qed

theorem limitedmap_unbounded_after_max_size_witness:
  "\<exists>m' m''. lm_max_size 1 \<lparr>lm_map = [(1 :: nat, 5 :: int), (2, 6)], lm_rmap = [(5, 1), (6, 2)], lm_max = 4\<rparr> = Some m'
     \<and> lm_run [LInsert 3 0, LInsert 4 0] m' = Some m'' \<and> length (lm_map m'') = 3"
  using limitedmap_unbounded_after_max_size [of "\<lparr>lm_map = [(1 :: nat, 5 :: int), (2, 6)], lm_rmap = [(5, 1), (6, 2)], lm_max = 4\<rparr>"
      1 "[(3, 0), (4, 0)]"] by (auto simp: lm_ok_def swap_entry_def)

text \<open>
  What is evicted is the smallest entry among the old ones, not among all: a new entry with a smaller value than
  every other one stays, and a larger one goes.
\<close>

theorem limitedmap_evicts_old:
  "map_option lm_map (lm_run [LInsert (1 :: nat) (5 :: int), LInsert 2 7, LInsert 3 1] (limitedmap_new 3)) = Some [(3, 1), (2, 7)]"
  by (simp add: limitedmap_new_def lm_insert_def lm_drop_first_def map_erase_def Let_def)

end
