(* ===== verification/StdMap.thy ===== *)
theory StdMap
  imports Prelude
begin

text \<open>
  \<^verbatim>\<open>std::map\<close> as the list of its entries in the order of iteration, which is ascending in the keys.
\<close>

type_synonym ('k, 'v) std_map = "('k \<times> 'v) list"

definition std_count :: "'k \<Rightarrow> ('k, 'v) std_map \<Rightarrow> bool" where
  "std_count k m \<longleftrightarrow> k \<in> fst ` set m"

fun std_put :: "'k::linorder \<Rightarrow> 'v \<Rightarrow> ('k, 'v) std_map \<Rightarrow> ('k, 'v) std_map" where
  "std_put k v [] = [(k, v)]"
| "std_put k v ((l, w) # m) =
     (if k < l then (k, v) # (l, w) # m else if k = l then (k, v) # m else (l, w) # std_put k v m)"

definition std_erase :: "'k \<Rightarrow> ('k, 'v) std_map \<Rightarrow> ('k, 'v) std_map" where
  "std_erase k m = filter (\<lambda>e. fst e \<noteq> k) m"

text \<open>\<^verbatim>\<open>operator[]\<close> inserts a default value for an absent key.\<close>

definition std_get :: "'v \<Rightarrow> 'k::linorder \<Rightarrow> ('k, 'v) std_map \<Rightarrow> 'v \<times> ('k, 'v) std_map" where
  "std_get d k m = (case map_of m k of Some v \<Rightarrow> (v, m) | None \<Rightarrow> (d, std_put k d m))"

text \<open>A well-formed map: strictly ascending keys.\<close>

definition std_ok :: "('k::linorder, 'v) std_map \<Rightarrow> bool" where
  "std_ok m \<longleftrightarrow> sorted_wrt (<) (map fst m)"

lemma std_ok_simps [simp]:
  "std_ok []" "std_ok ((k, v) # m) \<longleftrightarrow> (\<forall>l \<in> fst ` set m. k < l) \<and> std_ok m"
  by (auto simp: std_ok_def)

lemma std_ok_distinct: "std_ok m \<Longrightarrow> distinct (map fst m)"
  by (simp add: std_ok_def strict_sorted_iff)

lemma std_count_map_of: "std_count k m \<longleftrightarrow> map_of m k \<noteq> None"
  by (simp add: std_count_def map_of_eq_None_iff)

lemma keys_std_put [simp]: "fst ` set (std_put k v m) = insert k (fst ` set m)"
  by (induction k v m rule: std_put.induct) auto

lemma std_put_ok [simp]: "std_ok m \<Longrightarrow> std_ok (std_put k v m)"
  by (induction k v m rule: std_put.induct) auto

lemma map_of_std_put: "std_ok m \<Longrightarrow> map_of (std_put k v m) = (map_of m)(k \<mapsto> v)"
proof (induction k v m rule: std_put.induct)
  case (2 k v l w m)
  then show ?case by (auto simp: fun_eq_iff map_of_eq_None_iff)
qed auto

lemma std_erase_ok [simp]: "std_ok m \<Longrightarrow> std_ok (std_erase k m)"
  unfolding std_erase_def by (induction m) auto

lemma keys_std_erase [simp]: "fst ` set (std_erase k m) = fst ` set m - {k}"
  by (auto simp: std_erase_def)

lemma map_of_std_erase: "map_of (std_erase k m) = (map_of m)(k := None)"
  unfolding std_erase_def by (induction m) (auto simp: fun_eq_iff)

lemma std_count_simps [simp]:
  "std_count k [] = False" "std_count k (std_put l v m) \<longleftrightarrow> k = l \<or> std_count k m"
  "std_count k (std_erase l m) \<longleftrightarrow> k \<noteq> l \<and> std_count k m"
  by (auto simp: std_count_def)

lemma length_std_put:
  "std_ok m \<Longrightarrow> length (std_put k v m) = (if std_count k m then length m else Suc (length m))"
proof (induction k v m rule: std_put.induct)
  case (2 k v l w m)
  then show ?case by (auto simp: std_count_def)
qed simp

lemma length_std_erase:
  assumes "std_ok m"
  shows "length (std_erase k m) = (if std_count k m then length m - 1 else length m)"
  using assms
proof (induction m)
  case (Cons e m)
  obtain l w where e: "e = (l, w)" by fastforce
  have "k \<notin> fst ` set m \<Longrightarrow> std_erase k m = m" unfolding std_erase_def by (auto simp: filter_id_conv)
  moreover have "std_count k m \<Longrightarrow> 0 < length m" by (auto simp: std_count_def)
  ultimately show ?case using Cons e by (auto simp: std_count_def std_erase_def)
qed (simp add: std_erase_def)

lemma set_std_put: "\<not> std_count k m \<Longrightarrow> set (std_put k v m) = insert (k, v) (set m)"
  by (induction k v m rule: std_put.induct) (auto simp: std_count_def)

lemma values_std_put:
  "\<not> std_count k m \<Longrightarrow> distinct (map snd m) \<Longrightarrow> v \<notin> snd ` set m \<Longrightarrow> distinct (map snd (std_put k v m))"
proof (induction k v m rule: std_put.induct)
  case (2 k v l w m)
  have "\<not> std_count k m" using "2.prems"(1) by (auto simp: std_count_def)
  then have "snd ` set (std_put k v m) = insert v (snd ` set m)" by (simp add: set_std_put)
  then show ?case using 2 \<open>\<not> std_count k m\<close> by (auto simp: std_count_def)
qed simp

lemma values_std_erase: "distinct (map snd m) \<Longrightarrow> distinct (map snd (std_erase k m))"
  unfolding std_erase_def by (induction m) auto

lemma set_std_erase: "set (std_erase k m) = {e \<in> set m. fst e \<noteq> k}"
  by (simp add: std_erase_def)

lemma std_ok_filter [simp]: "std_ok m \<Longrightarrow> std_ok (filter P m)"
  by (induction m) auto

lemma std_ok_unique: "std_ok m \<Longrightarrow> (k, v) \<in> set m \<Longrightarrow> (k, w) \<in> set m \<Longrightarrow> v = w"
  using std_ok_distinct [of m] by (metis map_of_is_SomeI option.inject)

text \<open>Two well-formed maps with the same entries are the same list.\<close>

lemma std_map_eqI:
  assumes "std_ok m" and "std_ok m'" and "map_of m = map_of m'"
  shows "m = m'"
proof -
  have "set m = set m'"
    using assms by (metis std_ok_distinct map_of_eq_Some_iff subrelI subset_antisym prod.exhaust subsetI)
  moreover have "sorted (map fst m)" "sorted (map fst m')" "distinct (map fst m)" "distinct (map fst m')"
    using assms(1,2) std_ok_distinct by (auto simp: std_ok_def strict_sorted_iff)
  moreover have "inj_on fst (set m)" using calculation(4) by (simp add: distinct_map)
  ultimately show ?thesis by (intro map_sorted_distinct_set_unique [of fst]) auto
qed

lemma std_put_put: "std_ok m \<Longrightarrow> std_put k v (std_put k w m) = std_put k v m"
  by (rule std_map_eqI) (simp_all add: map_of_std_put)

lemma std_erase_put: "std_ok m \<Longrightarrow> \<not> std_count k m \<Longrightarrow> std_erase k (std_put k v m) = m"
  by (rule std_map_eqI) (auto simp: map_of_std_put map_of_std_erase std_count_map_of fun_eq_iff)

lemma std_erase_id: "\<not> std_count k m \<Longrightarrow> std_erase k m = m"
  unfolding std_erase_def std_count_def by (auto simp: filter_id_conv)

end
