(* ===== verification/RelayState.thy ===== *)
theory RelayState
  imports StdMap Credits
begin

text \<open>
  The registry of relays of \<^verbatim>\<open>src/relays/relaystate.cpp\<close>: who has joined under which number, who succeeds whom, who is
  disqualified, and how relays are chosen.  Points are a linearly ordered type (\<^verbatim>\<open>Point::operator<\<close> orders the maps), and
  \<open>PointOf n\<close> is \<^verbatim>\<open>Point(n)\<close>, so that \<open>PointOf 0\<close> is the point at infinity and the default value, and
  \<open>PointOf 1\<close> is what \<^verbatim>\<open>Point(SECP256K1)\<close> constructs, because the constructor takes the curve's code for a
  number.  \<^verbatim>\<open>HashUint160\<close>, \<^verbatim>\<open>Hash160\<close> and the serialiser are parameters; logging is left out.
\<close>

section \<open>Parameters and state\<close>

record relay_params =
  MAX_RELAYS_REMEMBERED :: nat
  MAX_POOL_SIZE :: nat
  FUTURE_SUCCESSOR_FREQUENCY :: u32
  executor_offsets :: "u32 list"

definition test_params :: relay_params where
  "test_params = \<lparr>MAX_RELAYS_REMEMBERED = 40, MAX_POOL_SIZE = 20, FUTURE_SUCCESSOR_FREQUENCY = 10,
     executor_offsets = [2, 3, 4, 5, 6, 7]\<rparr>"

definition production_params :: relay_params where
  "production_params = \<lparr>MAX_RELAYS_REMEMBERED = 1200, MAX_POOL_SIZE = 600, FUTURE_SUCCESSOR_FREQUENCY = 30,
     executor_offsets = [9, 17, 19, 24, 31, 36]\<rparr>"

datatype relay_error = RelayStateError | MissingDataException | RecoverHashesFailedException | NoKnownRelayStateException | OutOfRange

record 'p relay_state =
  relays :: "('p, u32) std_map"
  line_of_succession :: "('p, 'p) std_map"
  actual_successions :: "('p, 'p) std_map"
  subthreshold_succession_msgs :: "('p, uint160 set) std_map"
  disqualifications :: "('p, uint160 set) std_map"
  join_hash_to_relay :: "(uint160, 'p) std_map"
  latest_credit_hash :: uint160
  latest_relay_number :: u32

definition RelayState_new :: "'p relay_state" where
  "RelayState_new = \<lparr>relays = [], line_of_succession = [], actual_successions = [], subthreshold_succession_msgs = [],
     disqualifications = [], join_hash_to_relay = [], latest_credit_hash = 0, latest_relay_number = 0\<rparr>"

definition RelayState_GetHash160 :: "(vch_t \<Rightarrow> uint160) \<Rightarrow> ('p relay_state \<Rightarrow> vch_t) \<Rightarrow> 'p relay_state \<Rightarrow> uint160" where
  "RelayState_GetHash160 Hash160 serialise s =
     (if relays s = [] \<and> line_of_succession s = [] \<and> subthreshold_succession_msgs s = [] \<and> disqualifications s = []
         \<and> latest_credit_hash s = 0
      then 0 else Hash160 (serialise s))"

section \<open>Lookups\<close>

text \<open>The three loops that return the first entry with a given value.\<close>

fun find_key :: "'v \<Rightarrow> 'k \<Rightarrow> ('k \<times> 'v) list \<Rightarrow> 'k" where
  "find_key v d [] = d"
| "find_key v d ((k, w) # m) = (if w = v then k else find_key v d m)"

definition Relay :: "(int \<Rightarrow> 'p) \<Rightarrow> u32 \<Rightarrow> 'p relay_state \<Rightarrow> 'p" where
  "Relay PointOf relay_number s = find_key relay_number (PointOf 1) (relays s)"

definition GetJoinHash :: "'p \<Rightarrow> 'p relay_state \<Rightarrow> uint160" where
  "GetJoinHash relay s = find_key relay 0 (join_hash_to_relay s)"

definition DeadPredecessor :: "(int \<Rightarrow> 'p) \<Rightarrow> 'p \<Rightarrow> 'p relay_state \<Rightarrow> 'p" where
  "DeadPredecessor PointOf relay s = find_key relay (PointOf 0) (actual_successions s)"

definition OldestRelay :: "(int \<Rightarrow> 'p) \<Rightarrow> 'p relay_state \<Rightarrow> 'p" where
  "OldestRelay PointOf s =
     Relay PointOf (fold (\<lambda>item minimum. if snd item < minimum then snd item else minimum) (relays s) 1000000000) s"

definition RelaysByNumber :: "'p relay_state \<Rightarrow> (u32, 'p) std_map" where
  "RelaysByNumber s = fold (\<lambda>item m. std_put (snd item) (fst item) m) (relays s) []"

definition relay_with_number :: "(int \<Rightarrow> 'p) \<Rightarrow> u32 \<Rightarrow> 'p relay_state \<Rightarrow> 'p" where
  "relay_with_number PointOf n s = (case map_of (RelaysByNumber s) n of Some p \<Rightarrow> p | None \<Rightarrow> PointOf 0)"

section \<open>Adding and removing relays\<close>

definition RemoveRelayFromSuccessors :: "'p \<Rightarrow> 'p relay_state \<Rightarrow> 'p relay_state" where
  "RemoveRelayFromSuccessors relay s =
     (let to_delete = map fst (filter (\<lambda>item. snd item = relay) (line_of_succession s))
      in fold (\<lambda>predecessor s. s\<lparr>line_of_succession := std_erase predecessor (line_of_succession s),
                                 actual_successions := std_erase predecessor (actual_successions s)\<rparr>) to_delete s)"

definition RemoveRelay :: "'p \<Rightarrow> bool \<Rightarrow> 'p relay_state \<Rightarrow> relay_error + 'p relay_state" where
  "RemoveRelay relay decrement s =
     (if \<not> std_count relay (relays s) then Inl RelayStateError
      else let s = s\<lparr>relays := std_erase relay (relays s)\<rparr>;
               s = s\<lparr>join_hash_to_relay := std_erase (GetJoinHash relay s) (join_hash_to_relay s),
                     line_of_succession := std_erase relay (line_of_succession s),
                     actual_successions := std_erase relay (actual_successions s),
                     subthreshold_succession_msgs := std_erase relay (subthreshold_succession_msgs s),
                     disqualifications := std_erase relay (disqualifications s)\<rparr>;
               s = RemoveRelayFromSuccessors relay s
           in Inr (if decrement then s\<lparr>latest_relay_number := latest_relay_number s - 1\<rparr> else s))"

lemma relays_RemoveRelayFromSuccessors [simp]: "relays (RemoveRelayFromSuccessors relay s) = relays s"
proof -
  have "relays (fold (\<lambda>predecessor s. s\<lparr>line_of_succession := std_erase predecessor (line_of_succession s),
      actual_successions := std_erase predecessor (actual_successions s)\<rparr>) ps s) = relays s" for ps
    by (induction ps arbitrary: s) auto
  then show ?thesis by (simp add: RemoveRelayFromSuccessors_def)
qed

lemma length_std_erase_less: "std_count k m \<Longrightarrow> length (std_erase k m) < length m"
proof -
  assume "std_count k m"
  then obtain e where "e \<in> set m" "fst e = k" by (auto simp: std_count_def)
  then show ?thesis unfolding std_erase_def by (intro length_filter_less [of e]) auto
qed

lemma length_relays_RemoveRelay: "RemoveRelay relay d s = Inr s' \<Longrightarrow> length (relays s') < length (relays s)"
  by (auto simp: RemoveRelay_def Let_def length_std_erase_less split: if_splits)

function TrimRelays :: "relay_params \<Rightarrow> (int \<Rightarrow> 'p) \<Rightarrow> 'p relay_state \<Rightarrow> relay_error + 'p relay_state" where
  "TrimRelays params PointOf s =
     (if MAX_RELAYS_REMEMBERED params < length (relays s)
      then (case RemoveRelay (OldestRelay PointOf s) False s of
              Inl e \<Rightarrow> Inl e
            | Inr s' \<Rightarrow> TrimRelays params PointOf s')
      else Inr s)"
  by pat_completeness auto
termination
  by (relation "measure (\<lambda>(params, PointOf, s). length (relays s))") (auto simp: length_relays_RemoveRelay)

definition AddRelay :: "relay_params \<Rightarrow> (int \<Rightarrow> 'p::linorder) \<Rightarrow> 'p \<Rightarrow> uint160 \<Rightarrow> 'p relay_state \<Rightarrow> relay_error + (u32 \<times> 'p relay_state)" where
  "AddRelay params PointOf relay join_hash s =
     (case map_of (relays s) relay of
        Some n \<Rightarrow> Inr (n, s)
      | None \<Rightarrow>
          let number = latest_relay_number s + 1;
              s = s\<lparr>latest_relay_number := number, relays := std_put relay number (relays s),
                    join_hash_to_relay := std_put join_hash relay (join_hash_to_relay s)\<rparr>
          in map_sum id (\<lambda>s. (latest_relay_number s, s)) (TrimRelays params PointOf s))"

definition AddDisqualification :: "'p::linorder \<Rightarrow> uint160 \<Rightarrow> 'p relay_state \<Rightarrow> 'p relay_state" where
  "AddDisqualification relay message_hash s =
     (let present = (case map_of (disqualifications s) relay of Some m \<Rightarrow> m | None \<Rightarrow> {})
      in s\<lparr>disqualifications := std_put relay (insert message_hash present) (disqualifications s)\<rparr>)"

definition RemoveDisqualification :: "'p::linorder \<Rightarrow> uint160 \<Rightarrow> 'p relay_state \<Rightarrow> 'p relay_state" where
  "RemoveDisqualification relay message_hash s =
     (case map_of (disqualifications s) relay of
        None \<Rightarrow> s
      | Some present \<Rightarrow>
          if present - {message_hash} = {} then s\<lparr>disqualifications := std_erase relay (disqualifications s)\<rparr>
          else s\<lparr>disqualifications := std_put relay (present - {message_hash}) (disqualifications s)\<rparr>)"

definition SetLatestCreditHash :: "uint160 \<Rightarrow> 'p relay_state \<Rightarrow> 'p relay_state" where
  "SetLatestCreditHash credit_hash s = s\<lparr>latest_credit_hash := credit_hash\<rparr>"


section \<open>Executors and successors\<close>

definition Executors :: "relay_params \<Rightarrow> (int \<Rightarrow> 'p) \<Rightarrow> u32 \<Rightarrow> 'p relay_state \<Rightarrow> 'p list" where
  "Executors params PointOf relay_number s =
     map (\<lambda>offset. relay_with_number PointOf (relay_number - offset) s)
       (filter (\<lambda>offset. \<not> relay_number \<le> offset) (executor_offsets params))"

text \<open>Looking up \<^verbatim>\<open>relays[relay]\<close> enters an unknown relay into the map, with the number zero.\<close>

definition Executors_of :: "relay_params \<Rightarrow> (int \<Rightarrow> 'p::linorder) \<Rightarrow> 'p \<Rightarrow> 'p relay_state \<Rightarrow> 'p list \<times> 'p relay_state" where
  "Executors_of params PointOf relay s =
     (let (n, m) = std_get 0 relay (relays s); s = s\<lparr>relays := m\<rparr>
      in (Executors params PointOf n s, s))"

definition Successor :: "relay_params \<Rightarrow> (int \<Rightarrow> 'p) \<Rightarrow> u32 \<Rightarrow> 'p relay_state \<Rightarrow> 'p" where
  "Successor params PointOf relay_number s =
     (let successor_number =
        (if relay_number mod FUTURE_SUCCESSOR_FREQUENCY params \<noteq> 1 then relay_number - 1
         else relay_number + 2 * FUTURE_SUCCESSOR_FREQUENCY params - 1)
      in if latest_relay_number s < successor_number then PointOf 0
         else relay_with_number PointOf successor_number s)"

definition Successor_of :: "relay_params \<Rightarrow> (int \<Rightarrow> 'p::linorder) \<Rightarrow> 'p \<Rightarrow> 'p relay_state \<Rightarrow> 'p \<times> 'p relay_state" where
  "Successor_of params PointOf relay s =
     (let (n, m) = std_get 0 relay (relays s); s = s\<lparr>relays := m\<rparr>
      in (Successor params PointOf n s, s))"

partial_function (option) surviving_loop :: "relay_params \<Rightarrow> (int \<Rightarrow> 'p::linorder) \<Rightarrow> 'p \<Rightarrow> 'p relay_state \<Rightarrow> ('p \<times> 'p relay_state) option" where
  "surviving_loop params PointOf successor s =
     (if std_count successor (actual_successions s)
      then (case Successor_of params PointOf successor s of (successor', s') \<Rightarrow> surviving_loop params PointOf successor' s')
      else Some (successor, s))"

definition SurvivingSuccessor :: "relay_params \<Rightarrow> (int \<Rightarrow> 'p::linorder) \<Rightarrow> 'p \<Rightarrow> 'p relay_state \<Rightarrow> ('p \<times> 'p relay_state) option" where
  "SurvivingSuccessor params PointOf relay s =
     (case Successor_of params PointOf relay s of (successor, s') \<Rightarrow> surviving_loop params PointOf successor s')"

section \<open>Choosing relays\<close>

definition eligible :: "'p relay_state \<Rightarrow> 'p \<Rightarrow> bool" where
  "eligible s relay \<longleftrightarrow> \<not> std_count relay (actual_successions s) \<and> \<not> std_count relay (disqualifications s)"

definition GetEligibleRelays :: "'p relay_state \<Rightarrow> 'p list" where
  "GetEligibleRelays s = map fst (filter (\<lambda>item. eligible s (fst item)) (relays s))"

definition NumberOfValidRelays :: "'p relay_state \<Rightarrow> u32" where
  "NumberOfValidRelays s = fold (\<lambda>item num. if eligible s (fst item) then num + 1 else num) (relays s) 0"

partial_function (option) select_loop :: "relay_params \<Rightarrow> (int \<Rightarrow> 'p::linorder) \<Rightarrow> 'p \<Rightarrow> 'p \<Rightarrow> 'p relay_state \<Rightarrow> ('p \<times> 'p relay_state) option" where
  "select_loop params PointOf newest relay s =
     (if std_count relay (actual_successions s) \<or> std_count relay (disqualifications s)
      then (case Successor_of params PointOf relay s of
              (relay', s') \<Rightarrow> select_loop params PointOf newest (if relay' = PointOf 0 then newest else relay') s')
      else Some (relay, s))"

text \<open>\<^const>\<open>None\<close> is also the division by zero for a state that has relays but the latest number zero.\<close>

definition SelectRelay :: "relay_params \<Rightarrow> (int \<Rightarrow> 'p::linorder) \<Rightarrow> u64 \<Rightarrow> 'p relay_state \<Rightarrow> ('p \<times> 'p relay_state) option" where
  "SelectRelay params PointOf chooser_number s =
     (if NumberOfValidRelays s = 0 then Some (PointOf 1, s)
      else if latest_relay_number s = 0 then None
      else let pool = of_nat (MAX_POOL_SIZE params);
               chosen = (if pool < (ucast (latest_relay_number s) :: u64)
                         then ucast (latest_relay_number s) - pool + chooser_number mod pool
                         else 1 + chooser_number mod ucast (latest_relay_number s))
           in select_loop params PointOf (relay_with_number PointOf (latest_relay_number s) s)
                (relay_with_number PointOf (ucast chosen) s) s)"

text \<open>
  \<^verbatim>\<open>CBigNum::getuint\<close> is \<^verbatim>\<open>BN_get_word\<close> cut to 32 bits; \<^verbatim>\<open>BN_get_word\<close> returns all ones for a number of more than 64 bits.
\<close>

definition getuint :: "uint160 \<Rightarrow> u32" where
  "getuint n = (if n < 18446744073709551616 then ucast n else - 1)"

text \<open>
  \<^verbatim>\<open>ChooseRelays\<close>.  A candidate at infinity is neither taken nor removed, so the loop need not end.
\<close>

partial_function (option) choose_loop :: "(int \<Rightarrow> 'p) \<Rightarrow> (uint160 \<Rightarrow> uint160) \<Rightarrow> nat \<Rightarrow> nat \<Rightarrow> uint160 \<Rightarrow> 'p list \<Rightarrow> 'p list \<Rightarrow> 'p list option" where
  "choose_loop PointOf HashUint160 required valid chooser eligible_relays chosen_relays =
     (if length chosen_relays < required \<and> length chosen_relays < valid \<and> 0 < length eligible_relays
      then let chooser = HashUint160 chooser;
               relay_pubkey = eligible_relays ! (unat (getuint chooser) mod length eligible_relays)
           in if relay_pubkey \<noteq> PointOf 0 \<and> \<not> VectorContainsEntry chosen_relays relay_pubkey
              then choose_loop PointOf HashUint160 required valid chooser
                     (EraseEntryFromVector relay_pubkey eligible_relays) (chosen_relays @ [relay_pubkey])
              else choose_loop PointOf HashUint160 required valid chooser eligible_relays chosen_relays
      else Some chosen_relays)"

function shrink_pool :: "nat \<Rightarrow> 'p list \<Rightarrow> 'p list" where
  "shrink_pool n [] = []"
| "shrink_pool n (x # xs) = (if n < length (x # xs) then shrink_pool n (EraseEntryFromVector x (x # xs)) else x # xs)"
  by pat_completeness auto
termination
  by (relation "measure (\<lambda>(n, xs). length xs)") (auto simp: EraseEntryFromVector_eq)

definition ChooseRelays :: "relay_params \<Rightarrow> (int \<Rightarrow> 'p) \<Rightarrow> (uint160 \<Rightarrow> uint160) \<Rightarrow> uint160 \<Rightarrow> nat \<Rightarrow> 'p relay_state \<Rightarrow> 'p list option" where
  "ChooseRelays params PointOf HashUint160 chooser num_relays_required s =
     (let eligible_relays = GetEligibleRelays s; num_valid_relays = length eligible_relays
      in if num_valid_relays < num_relays_required then Some []
         else choose_loop PointOf HashUint160 num_relays_required num_valid_relays chooser
                (shrink_pool (MAX_POOL_SIZE params) eligible_relays) [])"


section \<open>The oldest relay\<close>

declare TrimRelays.simps [simp del]

lemma find_key_unique: "(k, v) \<in> set m \<Longrightarrow> distinct (map snd m) \<Longrightarrow> find_key v d m = k"
  by (induction v d m rule: find_key.induct) (auto simp: image_iff)

lemma fold_minimum:
  fixes a :: "'v::linorder"
  assumes "r = fold (\<lambda>item minimum. if snd item < minimum then snd item else minimum) xs a"
  shows "r \<le> a \<and> (\<forall>x \<in> set xs. r \<le> snd x) \<and> (r = a \<or> r \<in> snd ` set xs)"
  using assms
proof (induction xs arbitrary: a)
  case (Cons x xs)
  let ?b = "if snd x < a then snd x else a"
  have "r \<le> ?b \<and> (\<forall>x \<in> set xs. r \<le> snd x) \<and> (r = ?b \<or> r \<in> snd ` set xs)" using Cons by simp
  then show ?case by (auto split: if_splits)
qed simp

text \<open>The relays remembered are the latest ones, numbered without a gap.\<close>

definition consecutive :: "'p relay_state \<Rightarrow> bool" where
  "consecutive s \<longleftrightarrow> distinct (map snd (relays s)) \<and> length (relays s) \<le> unat (latest_relay_number s)
     \<and> unat ` snd ` set (relays s) = {unat (latest_relay_number s) - length (relays s)<..unat (latest_relay_number s)}"

definition relay_ok :: "relay_params \<Rightarrow> 'p::linorder relay_state \<Rightarrow> bool" where
  "relay_ok params s \<longleftrightarrow> std_ok (relays s) \<and> std_ok (join_hash_to_relay s) \<and> std_ok (line_of_succession s)
     \<and> std_ok (actual_successions s) \<and> std_ok (subthreshold_succession_msgs s) \<and> std_ok (disqualifications s)
     \<and> consecutive s \<and> length (relays s) \<le> MAX_RELAYS_REMEMBERED params
     \<and> distinct (map snd (join_hash_to_relay s)) \<and> snd ` set (join_hash_to_relay s) = fst ` set (relays s)"

lemma oldest_number:
  assumes "consecutive s" and "relays s \<noteq> []" and "latest_relay_number s < 1000000000"
  shows "\<exists>k v. (k, v) \<in> set (relays s) \<and> OldestRelay PointOf s = k \<and> unat v = Suc (unat (latest_relay_number s) - length (relays s))"
proof -
  let ?l = "unat (latest_relay_number s)"
  define r where "r = fold (\<lambda>item minimum. if snd item < minimum then snd item else minimum) (relays s) 1000000000"
  note r = fold_minimum [OF r_def]
  have numbers: "unat ` snd ` set (relays s) = {?l - length (relays s)<..?l}" and len: "length (relays s) \<le> ?l"
    using assms(1) by (simp_all add: consecutive_def)
  have "Suc (?l - length (relays s)) \<in> unat ` snd ` set (relays s)"
    using assms(2) len unfolding numbers by (cases "relays s") auto
  then obtain v where v: "v \<in> snd ` set (relays s)" "unat v = Suc (?l - length (relays s))" by force
  have "v \<le> latest_relay_number s" using v(2) len assms(2) unfolding word_le_nat_alt by (cases "relays s") auto
  then have "r \<noteq> 1000000000" using r v(1) assms(3) by force
  then have in_r: "r \<in> snd ` set (relays s)" using r by blast
  then have "unat r \<in> {?l - length (relays s)<..?l}" using numbers by blast
  moreover have "unat r \<le> unat v" using r v(1) by (auto simp: word_le_nat_alt)
  ultimately have "unat r = unat v" using v(2) by auto
  then have "r = v" by (simp add: word_unat_eq_iff)
  then obtain k where k: "(k, v) \<in> set (relays s)" using v(1) by auto
  have "OldestRelay PointOf s = k"
    using find_key_unique [OF k, of "PointOf 1"] assms(1) \<open>r = v\<close>
    by (simp add: OldestRelay_def Relay_def r_def consecutive_def)
  then show ?thesis using k v(2) by blast
qed

lemma successors_unchanged [simp]:
  "join_hash_to_relay (RemoveRelayFromSuccessors relay s) = join_hash_to_relay s"
  "latest_relay_number (RemoveRelayFromSuccessors relay s) = latest_relay_number s"
  "disqualifications (RemoveRelayFromSuccessors relay s) = disqualifications s"
  "subthreshold_succession_msgs (RemoveRelayFromSuccessors relay s) = subthreshold_succession_msgs s"
  "latest_credit_hash (RemoveRelayFromSuccessors relay s) = latest_credit_hash s"
proof -
  define f :: "'a \<Rightarrow> 'a relay_state \<Rightarrow> 'a relay_state" where
    "f p s = s\<lparr>line_of_succession := std_erase p (line_of_succession s), actual_successions := std_erase p (actual_successions s)\<rparr>" for p s
  have "join_hash_to_relay (fold f ps s) = join_hash_to_relay s \<and> latest_relay_number (fold f ps s) = latest_relay_number s
      \<and> disqualifications (fold f ps s) = disqualifications s \<and> subthreshold_succession_msgs (fold f ps s) = subthreshold_succession_msgs s
      \<and> latest_credit_hash (fold f ps s) = latest_credit_hash s" for ps
    by (induction ps arbitrary: s) (auto simp: f_def)
  then show "join_hash_to_relay (RemoveRelayFromSuccessors relay s) = join_hash_to_relay s"
    "latest_relay_number (RemoveRelayFromSuccessors relay s) = latest_relay_number s"
    "disqualifications (RemoveRelayFromSuccessors relay s) = disqualifications s"
    "subthreshold_succession_msgs (RemoveRelayFromSuccessors relay s) = subthreshold_succession_msgs s"
    "latest_credit_hash (RemoveRelayFromSuccessors relay s) = latest_credit_hash s"
    by (simp_all add: RemoveRelayFromSuccessors_def Let_def f_def [abs_def])
qed

lemma successors_erased:
  "line_of_succession (RemoveRelayFromSuccessors relay s) = filter (\<lambda>e. (fst e, relay) \<notin> set (line_of_succession s)) (line_of_succession s)"
  "actual_successions (RemoveRelayFromSuccessors relay s) = filter (\<lambda>e. (fst e, relay) \<notin> set (line_of_succession s)) (actual_successions s)"
proof -
  define f :: "'a \<Rightarrow> 'a relay_state \<Rightarrow> 'a relay_state" where
    "f p s = s\<lparr>line_of_succession := std_erase p (line_of_succession s), actual_successions := std_erase p (actual_successions s)\<rparr>" for p s
  have "line_of_succession (fold f ps s) = filter (\<lambda>e. fst e \<notin> set ps) (line_of_succession s)
      \<and> actual_successions (fold f ps s) = filter (\<lambda>e. fst e \<notin> set ps) (actual_successions s)" for ps
    by (induction ps arbitrary: s) (auto simp: f_def std_erase_def intro!: filter_cong)
  moreover have "fst e \<notin> set (map fst (filter (\<lambda>item. snd item = relay) (line_of_succession s))) \<longleftrightarrow> (fst e, relay) \<notin> set (line_of_succession s)" for e
    by force
  ultimately show "line_of_succession (RemoveRelayFromSuccessors relay s) = filter (\<lambda>e. (fst e, relay) \<notin> set (line_of_succession s)) (line_of_succession s)"
    "actual_successions (RemoveRelayFromSuccessors relay s) = filter (\<lambda>e. (fst e, relay) \<notin> set (line_of_succession s)) (actual_successions s)"
    by (auto simp: RemoveRelayFromSuccessors_def Let_def f_def [abs_def] intro!: filter_cong)
qed


section \<open>Joining keeps the latest relays\<close>

lemma GetJoinHash_unique:
  "(h, relay) \<in> set (join_hash_to_relay s) \<Longrightarrow> distinct (map snd (join_hash_to_relay s)) \<Longrightarrow> GetJoinHash relay s = h"
  by (simp add: GetJoinHash_def find_key_unique)

text \<open>What removing a registered relay leaves.\<close>

lemma RemoveRelay_fields:
  assumes "std_count relay (relays s)" and "RemoveRelay relay d s = Inr s'"
  shows "relays s' = std_erase relay (relays s)"
    and "join_hash_to_relay s' = std_erase (GetJoinHash relay s) (join_hash_to_relay s)"
    and "latest_relay_number s' = (if d then latest_relay_number s - 1 else latest_relay_number s)"
    and "disqualifications s' = std_erase relay (disqualifications s)"
    and "subthreshold_succession_msgs s' = std_erase relay (subthreshold_succession_msgs s)"
    and "line_of_succession s' = filter (\<lambda>e. fst e \<noteq> relay \<and> (fst e, relay) \<notin> set (line_of_succession s)) (line_of_succession s)"
    and "actual_successions s' = filter (\<lambda>e. fst e \<noteq> relay \<and> (fst e, relay) \<notin> set (std_erase relay (line_of_succession s))) (actual_successions s)"
    and "latest_credit_hash s' = latest_credit_hash s"
  using assms by (auto simp: RemoveRelay_def Let_def successors_erased GetJoinHash_def std_erase_def filter_filter
      intro!: filter_cong split: if_splits)

lemma RemoveRelay_ok:
  assumes "std_count relay (relays s)"
  obtains s' where "RemoveRelay relay d s = Inr s'"
  using assms by (auto simp: RemoveRelay_def Let_def)

lemma consecutive_add:
  assumes "consecutive s" and "std_ok (relays s)" and "\<not> std_count relay (relays s)" and "latest_relay_number s < 1000000000"
    and "relays s' = std_put relay (latest_relay_number s + 1) (relays s)" and "latest_relay_number s' = latest_relay_number s + 1"
  shows "consecutive s'"
proof -
  let ?l = "unat (latest_relay_number s)"
  have l: "unat (latest_relay_number s + 1) = Suc ?l"
    using assms(4) by (simp add: unat_word_ariths word_less_nat_alt)
  have fresh: "latest_relay_number s + 1 \<notin> snd ` set (relays s)"
  proof
    assume "latest_relay_number s + 1 \<in> snd ` set (relays s)"
    then have "Suc ?l \<in> unat ` snd ` set (relays s)" using l by (metis imageI)
    then show False using assms(1) by (auto simp: consecutive_def)
  qed
  have "distinct (map snd (relays s'))" using assms(1,3,5) fresh by (simp add: values_std_put consecutive_def)
  moreover have "length (relays s') = Suc (length (relays s))" using assms(2,3,5) by (simp add: length_std_put)
  moreover have "snd ` set (relays s') = insert (latest_relay_number s + 1) (snd ` set (relays s))"
    using assms(3,5) by (simp add: set_std_put)
  ultimately show ?thesis using assms(1,6) l by (auto simp: consecutive_def)
qed

lemma consecutive_remove_oldest:
  assumes "consecutive s" and "std_ok (relays s)" and "(k, v) \<in> set (relays s)"
    and "unat v = Suc (unat (latest_relay_number s) - length (relays s))"
    and "relays s' = std_erase k (relays s)" and "latest_relay_number s' = latest_relay_number s"
  shows "consecutive s'"
proof -
  have cnt: "std_count k (relays s)" using assms(3) by (force simp: std_count_def)
  have len: "length (relays s') = length (relays s) - 1" "0 < length (relays s)"
    using assms(2,3,5) cnt by (auto simp: length_std_erase)
  have "snd ` set (relays s') = snd ` set (relays s) - {v}"
    using std_ok_unique [OF assms(2)] assms(1,3) unfolding assms(5) set_std_erase consecutive_def
    by (auto simp: distinct_map image_iff inj_on_def) force+
  then have "unat ` snd ` set (relays s') = unat ` snd ` set (relays s) - {unat v}"
    by (simp add: image_set_diff inj_def word_unat_eq_iff)
  then show ?thesis
    using assms(1,4,5,6) len values_std_erase [of "relays s" k] by (auto simp: consecutive_def)
qed


lemma RemoveRelay_std_ok:
  assumes "std_count relay (relays s)" and "RemoveRelay relay d s = Inr s'" and "std_ok (relays s)" and "std_ok (join_hash_to_relay s)"
    and "std_ok (line_of_succession s)" and "std_ok (actual_successions s)" and "std_ok (subthreshold_succession_msgs s)"
    and "std_ok (disqualifications s)"
  shows "std_ok (relays s') \<and> std_ok (join_hash_to_relay s') \<and> std_ok (line_of_succession s')
    \<and> std_ok (actual_successions s') \<and> std_ok (subthreshold_succession_msgs s') \<and> std_ok (disqualifications s')"
  using assms(3-) by (simp add: RemoveRelay_fields [OF assms(1,2)])

lemma RemoveRelay_join_hashes:
  assumes "std_count relay (relays s)" and "RemoveRelay relay d s = Inr s'" and "std_ok (join_hash_to_relay s)"
    and "distinct (map snd (join_hash_to_relay s))" and "snd ` set (join_hash_to_relay s) = fst ` set (relays s)"
  shows "distinct (map snd (join_hash_to_relay s')) \<and> snd ` set (join_hash_to_relay s') = fst ` set (relays s')"
proof -
  have "relay \<in> snd ` set (join_hash_to_relay s)" using assms(1,5) by (auto simp: std_count_def)
  then obtain h where h: "(h, relay) \<in> set (join_hash_to_relay s)" by auto
  have "snd ` set (std_erase h (join_hash_to_relay s)) = snd ` set (join_hash_to_relay s) - {relay}"
  proof
    show "snd ` set (std_erase h (join_hash_to_relay s)) \<subseteq> snd ` set (join_hash_to_relay s) - {relay}"
    proof
      fix p assume "p \<in> snd ` set (std_erase h (join_hash_to_relay s))"
      then obtain k where k: "(k, p) \<in> set (join_hash_to_relay s)" "k \<noteq> h" by (auto simp: set_std_erase)
      then have "p \<noteq> relay" using GetJoinHash_unique [OF h assms(4)] GetJoinHash_unique [OF _ assms(4), of k relay] by blast
      then show "p \<in> snd ` set (join_hash_to_relay s) - {relay}" using k(1) by force
    qed
    show "snd ` set (join_hash_to_relay s) - {relay} \<subseteq> snd ` set (std_erase h (join_hash_to_relay s))"
      using std_ok_unique [OF assms(3) h] by (force simp: set_std_erase)
  qed
  moreover have "fst ` set (std_erase relay (relays s)) = fst ` set (relays s) - {relay}" by (auto simp: set_std_erase)
  ultimately show ?thesis
    using assms(4,5) GetJoinHash_unique [OF h assms(4)] by (simp add: RemoveRelay_fields [OF assms(1,2)] values_std_erase)
qed

text \<open>A state with one relay too many loses its oldest.\<close>

lemma TrimRelays_one:
  assumes ok: "relay_ok (params\<lparr>MAX_RELAYS_REMEMBERED := Suc (MAX_RELAYS_REMEMBERED params)\<rparr>) s"
    and small: "latest_relay_number s < 1000000000"
  obtains s' where "TrimRelays params PointOf s = Inr s'" and "relay_ok params s'" and "latest_relay_number s' = latest_relay_number s"
    and "set (relays s') \<subseteq> set (relays s)" and "set (join_hash_to_relay s') \<subseteq> set (join_hash_to_relay s)"
    and "length (relays s') = min (MAX_RELAYS_REMEMBERED params) (length (relays s))"
proof (cases "MAX_RELAYS_REMEMBERED params < length (relays s)")
  case False
  then show ?thesis using that [of s] ok by (simp add: TrimRelays.simps relay_ok_def)
next
  case True
  have len: "length (relays s) = Suc (MAX_RELAYS_REMEMBERED params)" using ok True by (simp add: relay_ok_def)
  have c: "consecutive s" using ok by (simp add: relay_ok_def)
  obtain k v where k: "(k, v) \<in> set (relays s)" "OldestRelay PointOf s = k"
      "unat v = Suc (unat (latest_relay_number s) - length (relays s))"
    using oldest_number [OF c _ small, of PointOf] len by fastforce
  have cnt: "std_count k (relays s)" using k(1) by (force simp: std_count_def)
  obtain s' where s': "RemoveRelay k False s = Inr s'" using RemoveRelay_ok [OF cnt] .
  note f = RemoveRelay_fields [OF cnt s']
  have l': "length (relays s') = MAX_RELAYS_REMEMBERED params" using len ok cnt f(1) by (simp add: length_std_erase relay_ok_def)
  have "consecutive s'" using consecutive_remove_oldest [OF c _ k(1,3) f(1)] f(3) ok by (simp add: relay_ok_def)
  then have "relay_ok params s'"
    using RemoveRelay_std_ok [OF cnt s'] RemoveRelay_join_hashes [OF cnt s'] ok l' by (simp add: relay_ok_def)
  moreover have "TrimRelays params PointOf s = Inr s'"
    using True k(2) s' l' by (simp add: TrimRelays.simps [of _ _ s] TrimRelays.simps [of _ _ s'])
  moreover have "set (relays s') \<subseteq> set (relays s)" "set (join_hash_to_relay s') \<subseteq> set (join_hash_to_relay s)"
    using f(1,2) by (auto simp: set_std_erase)
  ultimately show ?thesis using that l' len f(3) by simp
qed

lemma relay_ok_new [simp]: "relay_ok params RelayState_new"
  by (simp add: relay_ok_def consecutive_def RelayState_new_def)

lemma AddRelay_keeps:
  assumes ok: "relay_ok params s" and small: "latest_relay_number s < 999999999"
    and fresh: "\<not> std_count relay (relays s)" "\<not> std_count join_hash (join_hash_to_relay s)"
  obtains s' where "AddRelay params PointOf relay join_hash s = Inr (latest_relay_number s + 1, s')" and "relay_ok params s'"
    and "latest_relay_number s' = latest_relay_number s + 1"
    and "length (relays s') = min (MAX_RELAYS_REMEMBERED params) (Suc (length (relays s)))"
    and "set (relays s') \<subseteq> insert (relay, latest_relay_number s + 1) (set (relays s))"
    and "set (join_hash_to_relay s') \<subseteq> insert (join_hash, relay) (set (join_hash_to_relay s))"
proof -
  define s1 where "s1 = s\<lparr>latest_relay_number := latest_relay_number s + 1,
    relays := std_put relay (latest_relay_number s + 1) (relays s), join_hash_to_relay := std_put join_hash relay (join_hash_to_relay s)\<rparr>"
  have "consecutive s1"
    using consecutive_add [of s relay s1] ok small fresh(1) by (simp add: s1_def relay_ok_def word_less_nat_alt)
  moreover have "relay \<notin> snd ` set (join_hash_to_relay s)" using ok fresh(1) by (auto simp: relay_ok_def std_count_def)
  then have "distinct (map snd (join_hash_to_relay s1))" "snd ` set (join_hash_to_relay s1) = fst ` set (relays s1)"
    using ok fresh by (simp_all add: s1_def relay_ok_def values_std_put set_std_put)
  ultimately have "relay_ok (params\<lparr>MAX_RELAYS_REMEMBERED := Suc (MAX_RELAYS_REMEMBERED params)\<rparr>) s1"
    using ok fresh by (simp add: relay_ok_def s1_def length_std_put)
  moreover have "latest_relay_number s1 < 1000000000"
    using small by (simp add: s1_def word_less_nat_alt unat_word_ariths)
  ultimately obtain s' where s': "TrimRelays params PointOf s1 = Inr s'" "relay_ok params s'"
      "latest_relay_number s' = latest_relay_number s1" "set (relays s') \<subseteq> set (relays s1)"
      "set (join_hash_to_relay s') \<subseteq> set (join_hash_to_relay s1)"
      "length (relays s') = min (MAX_RELAYS_REMEMBERED params) (length (relays s1))"
    using TrimRelays_one [of params s1 PointOf] by blast
  moreover have "map_of (relays s) relay = None" using fresh(1) by (simp add: std_count_map_of)
  ultimately show ?thesis
    using that [of s'] fresh ok by (simp add: AddRelay_def s1_def length_std_put set_std_put relay_ok_def)
qed


text \<open>A sequence of joins.\<close>

fun AddRelays :: "relay_params \<Rightarrow> (int \<Rightarrow> 'p::linorder) \<Rightarrow> ('p \<times> uint160) list \<Rightarrow> 'p relay_state \<Rightarrow> relay_error + 'p relay_state" where
  "AddRelays params PointOf [] s = Inr s"
| "AddRelays params PointOf ((relay, join_hash) # joins) s =
     (case AddRelay params PointOf relay join_hash s of
        Inl e \<Rightarrow> Inl e
      | Inr (n, s') \<Rightarrow> AddRelays params PointOf joins s')"

lemma AddRelays_append: "AddRelays params PointOf (xs @ ys) s = (case AddRelays params PointOf xs s of Inl e \<Rightarrow> Inl e | Inr s' \<Rightarrow> AddRelays params PointOf ys s')"
  by (induction params PointOf xs s rule: AddRelays.induct) (auto split: sum.splits)

definition joined :: "('p \<times> uint160) list \<Rightarrow> ('p \<times> u32) set" where
  "joined joins = {(fst (joins ! i), of_nat (Suc i)) | i. i < length joins}"

lemma joined_snoc: "joined (js @ [j]) = insert (fst j, of_nat (Suc (length js))) (joined js)"
  unfolding joined_def by (force simp: less_Suc_eq nth_append)

lemma fst_joined: "fst ` joined js = fst ` set js"
proof -
  have "fst ` joined js = fst ` (!) js ` {..<length js}" unfolding joined_def by (auto simp: image_iff)
  also have "(!) js ` {..<length js} = set js" by (force simp: set_conv_nth)
  finally show ?thesis .
qed

lemma AddRelays_keeps:
  assumes "distinct (map fst joins)" and "distinct (map snd joins)" and "length joins < 999999999"
  shows "\<exists>s. AddRelays params PointOf joins RelayState_new = Inr s \<and> relay_ok params s \<and> unat (latest_relay_number s) = length joins
    \<and> length (relays s) = min (MAX_RELAYS_REMEMBERED params) (length joins)
    \<and> set (relays s) \<subseteq> joined joins \<and> set (join_hash_to_relay s) \<subseteq> prod.swap ` set joins"
  using assms
proof (induction joins rule: rev_induct)
  case Nil
  have "relay_ok params (RelayState_new :: 'a relay_state)" by simp
  then show ?case by (simp add: RelayState_new_def)
next
  case (snoc j js)
  then obtain s where s: "AddRelays params PointOf js RelayState_new = Inr s" "relay_ok params s" "unat (latest_relay_number s) = length js"
      "length (relays s) = min (MAX_RELAYS_REMEMBERED params) (length js)" "set (relays s) \<subseteq> joined js"
      "set (join_hash_to_relay s) \<subseteq> prod.swap ` set js" by auto
  have "fst ` set (relays s) \<subseteq> fst ` set js" using image_mono [OF s(5), of fst] by (simp add: fst_joined)
  then have "\<not> std_count (fst j) (relays s)" using snoc.prems(1) by (auto simp: std_count_def)
  moreover have "\<not> std_count (snd j) (join_hash_to_relay s)" 
  proof -
    have "fst ` set (join_hash_to_relay s) \<subseteq> snd ` set js" using image_mono [OF s(6), of fst] by (simp add: image_image)
    then show ?thesis using snoc.prems(2) by (auto simp: std_count_def)
  qed
  moreover have "latest_relay_number s < 999999999" using snoc.prems(3) s(3) by (simp add: word_less_nat_alt)
  ultimately obtain s' where s': "AddRelay params PointOf (fst j) (snd j) s = Inr (latest_relay_number s + 1, s')"
      "relay_ok params s'" "latest_relay_number s' = latest_relay_number s + 1"
      "length (relays s') = min (MAX_RELAYS_REMEMBERED params) (Suc (length (relays s)))"
      "set (relays s') \<subseteq> insert (fst j, latest_relay_number s + 1) (set (relays s))"
      "set (join_hash_to_relay s') \<subseteq> insert (snd j, fst j) (set (join_hash_to_relay s))"
    using AddRelay_keeps [OF s(2)] by metis
  have n: "unat (latest_relay_number s') = Suc (length js)"
    using s'(3) s(3) snoc.prems(3) by (simp add: unat_word_ariths)
  moreover have "latest_relay_number s + 1 = of_nat (Suc (length js))" using n s'(3) by (metis of_nat_unat ucast_id)
  then have "set (relays s') \<subseteq> joined (js @ [j])" using s'(5) s(5) unfolding joined_snoc by auto
  moreover have "set (join_hash_to_relay s') \<subseteq> prod.swap ` set (js @ [j])" using s'(6) s(6) by (cases j) auto
  moreover have "AddRelays params PointOf (js @ [j]) RelayState_new = Inr s'" using s(1) s'(1) by (cases j) (simp add: AddRelays_append)
  ultimately show ?case using s'(2,4) s(4) by simp
qed


lemma remembered_numbers:
  assumes "consecutive s" and "unat (latest_relay_number s) = length joins" and "length joins < 999999999"
    and "length (relays s) = min m (length joins)" and "set (relays s) \<subseteq> joined joins"
  shows "set (relays s) = {(fst (joins ! i), of_nat (Suc i)) | i. length joins - m \<le> i \<and> i < length joins}"
proof -
  have numbers: "unat ` snd ` set (relays s) = {length joins - min m (length joins)<..length joins}"
    using assms(1,2,4) by (simp add: consecutive_def)
  have u: "unat (of_nat (Suc i) :: u32) = Suc i" if "i < length joins" for i
    using that assms(3) unfolding unat_of_nat by (simp add: take_bit_nat_eq_self)
  have "\<exists>i. length joins - m \<le> i \<and> i < length joins \<and> e = (fst (joins ! i), of_nat (Suc i))" if e: "e \<in> set (relays s)" for e
  proof -
    obtain i where i: "i < length joins" "e = (fst (joins ! i), of_nat (Suc i))" using e assms(5) unfolding joined_def by blast
    have "unat (snd e) \<in> {length joins - min m (length joins)<..length joins}" using e numbers by blast
    then show ?thesis using i u [OF i(1)] by (intro exI [of _ i]) auto
  qed
  moreover have "(fst (joins ! i), of_nat (Suc i)) \<in> set (relays s)" if i: "length joins - m \<le> i" "i < length joins" for i
  proof -
    have "Suc i \<in> unat ` snd ` set (relays s)" using i unfolding numbers by auto
    then obtain e where e: "e \<in> set (relays s)" "unat (snd e) = Suc i" by (auto simp del: of_nat_Suc elim!: imageE)
    then obtain j where j: "j < length joins" "e = (fst (joins ! j), of_nat (Suc j))" using assms(5) unfolding joined_def by blast
    have "j = i" using e(2) j(2) u [OF j(1)] by (simp del: of_nat_Suc)
    then show ?thesis using e(1) j(2) by simp
  qed
  ultimately show ?thesis by blast
qed

lemma remembered_joins:
  assumes "distinct (map fst joins)" and "snd ` set m = fst ` {(fst (joins ! i), f i) | i. P i \<and> i < length joins}"
    and "set m \<subseteq> prod.swap ` set joins"
  shows "set m = {(snd (joins ! i), fst (joins ! i)) | i. P i \<and> i < length joins}"
proof -
  have same: "j = i" if "i < length joins" "j < length joins" "fst (joins ! i) = fst (joins ! j)" for i j
    using that assms(1) by (metis length_map nth_eq_iff_index_eq nth_map)
  have idx: "\<exists>j < length joins. e = (snd (joins ! j), fst (joins ! j))" if "e \<in> set m" for e
  proof -
    have "e \<in> prod.swap ` set joins" using that assms(3) by (rule rev_subsetD)
    then obtain x where "x \<in> set joins" "e = prod.swap x" by (elim imageE)
    then show ?thesis by (auto simp: in_set_conv_nth prod.swap_def)
  qed
  have "\<exists>i. P i \<and> i < length joins \<and> e = (snd (joins ! i), fst (joins ! i))" if e: "e \<in> set m" for e
  proof -
    obtain j where j: "j < length joins" "e = (snd (joins ! j), fst (joins ! j))" using idx [OF e] by blast
    have "snd e \<in> fst ` {(fst (joins ! i), f i) | i. P i \<and> i < length joins}" using e assms(2) by blast
    then obtain i where i: "P i" "i < length joins" "snd e = fst (joins ! i)" by auto
    then show ?thesis using same [of i j] j by auto
  qed
  moreover have "(snd (joins ! i), fst (joins ! i)) \<in> set m" if i: "P i" "i < length joins" for i
  proof -
    have "fst (joins ! i) \<in> snd ` set m" unfolding assms(2) using i by force
    then obtain e where e: "e \<in> set m" "snd e = fst (joins ! i)" by auto
    obtain j where j: "j < length joins" "e = (snd (joins ! j), fst (joins ! j))" using idx [OF e(1)] by blast
    show ?thesis using same [of i j] i j e by auto
  qed
  ultimately show ?thesis by blast
qed

text \<open>
  Joining keeps the registry of relays well formed and forgets exactly the oldest relays: after any sequence of joins
  of distinct relays with distinct join hashes, fewer than 10^9 of them, the registry holds the last \<open>MAX_RELAYS_REMEMBERED\<close>
  of them and no others, each under its position in the sequence, and the join hashes of exactly those relays.
\<close>

theorem joins_remember_latest:
  assumes "distinct (map fst joins)" and "distinct (map snd joins)" and "length joins < 999999999"
  shows "\<exists>s. AddRelays params PointOf joins RelayState_new = Inr s \<and> relay_ok params s
    \<and> unat (latest_relay_number s) = length joins
    \<and> set (relays s) = {(fst (joins ! i), of_nat (Suc i)) | i. length joins - MAX_RELAYS_REMEMBERED params \<le> i \<and> i < length joins}
    \<and> set (join_hash_to_relay s) = {(snd (joins ! i), fst (joins ! i)) | i. length joins - MAX_RELAYS_REMEMBERED params \<le> i \<and> i < length joins}"
proof -
  obtain s where s: "AddRelays params PointOf joins RelayState_new = Inr s" "relay_ok params s"
      "unat (latest_relay_number s) = length joins" "length (relays s) = min (MAX_RELAYS_REMEMBERED params) (length joins)"
      "set (relays s) \<subseteq> joined joins" "set (join_hash_to_relay s) \<subseteq> prod.swap ` set joins"
    using AddRelays_keeps [OF assms] by blast
  have "consecutive s" "snd ` set (join_hash_to_relay s) = fst ` set (relays s)" using s(2) by (simp_all add: relay_ok_def)
  note r = remembered_numbers [OF this(1) s(3) assms(3) s(4,5)]
  note j = remembered_joins [OF assms(1) _ s(6), of "\<lambda>i. of_nat (Suc i)" "\<lambda>i. length joins - MAX_RELAYS_REMEMBERED params \<le> i"]
  show ?thesis using s(1,2,3) r j \<open>snd ` set (join_hash_to_relay s) = fst ` set (relays s)\<close> by auto
qed

theorem joins_remember_latest_witness:
  "\<exists>s. AddRelays (test_params\<lparr>MAX_RELAYS_REMEMBERED := 2\<rparr>) id [(7, 70), (5, 50), (9, 90)] RelayState_new = Inr s
    \<and> (5::int, 2) \<in> set (relays s) \<and> (9, 3) \<in> set (relays s) \<and> length (relays s) = 2"
proof -
  define js where "js = [(7::int, 70::uint160), (5, 50), (9, 90)]"
  define params where "params = test_params\<lparr>MAX_RELAYS_REMEMBERED := 2\<rparr>"
  have "distinct (map fst js)" "distinct (map snd js)" "length js < 999999999" by (simp_all add: js_def)
  then obtain s where s: "AddRelays params id js RelayState_new = Inr s" "relay_ok params s"
      "set (relays s) = {(fst (js ! i), of_nat (Suc i)) | i. length js - MAX_RELAYS_REMEMBERED params \<le> i \<and> i < length js}"
    using joins_remember_latest [of js params id] by blast
  have "{i. length js - MAX_RELAYS_REMEMBERED params \<le> i \<and> i < length js} = {1, 2}" by (auto simp: js_def params_def)
  then have "set (relays s) = (\<lambda>i. (fst (js ! i), of_nat (Suc i))) ` {1, 2}" unfolding s(3) by blast
  then have "set (relays s) = {(5, 2), (9, 3)}" by (simp add: js_def)
  moreover have "distinct (relays s)" using s(2) std_ok_distinct [of "relays s"] by (auto simp: relay_ok_def distinct_map)
  then have "length (relays s) = card (set (relays s))" by (simp add: distinct_card)
  ultimately show ?thesis using s(1) unfolding js_def params_def by (intro exI [of _ s]) simp
qed


section \<open>The chosen relays\<close>

lemma shrink_pool_eq: "distinct xs \<Longrightarrow> shrink_pool n xs = drop (length xs - n) xs"
proof (induction n xs rule: shrink_pool.induct)
  case (2 n x xs)
  have "EraseEntryFromVector x (x # xs) = xs" using 2 by (auto simp: EraseEntryFromVector_eq)
  then show ?case using 2 by (auto simp: Suc_diff_le)
qed simp

text \<open>Every turn of the loop takes a relay, so the loop ends; it reads one hash per relay taken.\<close>

definition choosable :: "(int \<Rightarrow> 'p) \<Rightarrow> 'p list \<Rightarrow> 'p list \<Rightarrow> bool" where
  "choosable PointOf pool chosen \<longleftrightarrow> distinct pool \<and> PointOf 0 \<notin> set pool \<and> set pool \<inter> set chosen = {}"

lemma choose_loop_stop:
  assumes "min (required - length chosen) (length pool) = 0"
  shows "choose_loop PointOf HashUint160 required valid c pool chosen = Some chosen"
proof -
  have "\<not> (length chosen < required \<and> length chosen < valid \<and> 0 < length pool)" using assms unfolding min_def by (auto split: if_splits)
  then show ?thesis by (subst choose_loop.simps) (simp only: if_False)
qed

lemma choose_loop_step:
  assumes "choosable PointOf pool chosen" and "required \<le> valid" and "min (required - length chosen) (length pool) = Suc k"
    and x: "x = pool ! (unat (getuint (HashUint160 c)) mod length pool)"
  shows "choose_loop PointOf HashUint160 required valid c pool chosen
      = choose_loop PointOf HashUint160 required valid (HashUint160 c) (remove1 x pool) (chosen @ [x])"
    and "choosable PointOf (remove1 x pool) (chosen @ [x])" and "x \<in> set pool"
    and "min (required - length (chosen @ [x])) (length (remove1 x pool)) = k"
proof -
  have go: "length chosen < required \<and> length chosen < valid \<and> 0 < length pool" using assms(2,3) by linarith
  then show "x \<in> set pool" unfolding x by simp
  then have "x \<noteq> PointOf 0 \<and> \<not> VectorContainsEntry chosen x" using assms(1) by (auto simp: choosable_def)
  then show "choose_loop PointOf HashUint160 required valid c pool chosen
      = choose_loop PointOf HashUint160 required valid (HashUint160 c) (remove1 x pool) (chosen @ [x])"
    using go by (subst choose_loop.simps) (simp only: Let_def x [symmetric] if_True EraseEntryFromVector_eq simp_thms)
  show "choosable PointOf (remove1 x pool) (chosen @ [x])" using assms(1) by (auto simp: choosable_def)
  show "min (required - length (chosen @ [x])) (length (remove1 x pool)) = k"
    using assms(3) \<open>x \<in> set pool\<close> by (simp add: length_remove1)
qed

lemma choose_loop_total:
  assumes "choosable PointOf pool chosen" and "required \<le> valid" and "min (required - length chosen) (length pool) = k"
  shows "\<exists>picked. choose_loop PointOf HashUint160 required valid c pool chosen = Some (chosen @ picked)
    \<and> distinct picked \<and> set picked \<subseteq> set pool \<and> length picked = k"
  using assms
proof (induction k arbitrary: c pool chosen)
  case 0
  then show ?case by (simp add: choose_loop_stop)
next
  case (Suc k)
  define x where "x = pool ! (unat (getuint (HashUint160 c)) mod length pool)"
  note step = choose_loop_step [where c = c and ?HashUint160.0 = HashUint160, OF Suc.prems x_def]
  obtain picked where p: "choose_loop PointOf HashUint160 required valid (HashUint160 c) (remove1 x pool) (chosen @ [x]) = Some ((chosen @ [x]) @ picked)"
      "distinct picked" "set picked \<subseteq> set (remove1 x pool)" "length picked = k"
    using Suc.IH [OF step(2) Suc.prems(2) step(4), of "HashUint160 c"] by blast
  have "set (remove1 x pool) = set pool - {x}" using Suc.prems(1) by (simp add: choosable_def)
  then show ?case using p step(1,3) by (intro exI [of _ "x # picked"]) auto
qed

lemma choose_loop_saturated:
  assumes "choosable PointOf pool chosen" and "required \<le> valid" and "min (required - length chosen) (length pool) = k"
    and "\<forall>i < k. 18446744073709551616 \<le> (HashUint160 ^^ Suc i) c \<and> 18446744073709551616 \<le> (HashUint160 ^^ Suc i) d"
  shows "choose_loop PointOf HashUint160 required valid c pool chosen = choose_loop PointOf HashUint160 required valid d pool chosen"
  using assms
proof (induction k arbitrary: c d pool chosen)
  case 0
  then show ?case by (simp add: choose_loop_stop)
next
  case (Suc k)
  define x where "x = pool ! (unat (- 1 :: u32) mod length pool)"
  have "getuint (HashUint160 c) = - 1" "getuint (HashUint160 d) = - 1"
    using Suc.prems(4) [rule_format, of 0] by (auto simp: getuint_def)
  then have x: "x = pool ! (unat (getuint (HashUint160 c)) mod length pool)" "x = pool ! (unat (getuint (HashUint160 d)) mod length pool)"
    by (simp_all add: x_def)
  note c = choose_loop_step [where c = c and ?HashUint160.0 = HashUint160, OF Suc.prems(1-3) x(1)]
    and d = choose_loop_step [where c = d and ?HashUint160.0 = HashUint160, OF Suc.prems(1-3) x(2)]
  have "18446744073709551616 \<le> (HashUint160 ^^ Suc i) (HashUint160 c) \<and> 18446744073709551616 \<le> (HashUint160 ^^ Suc i) (HashUint160 d)"
    if "i < k" for i using Suc.prems(4) [rule_format, of "Suc i"] that by (simp add: funpow_swap1)
  then show ?case unfolding c(1) d(1) using Suc.IH [OF c(2) Suc.prems(2) c(4)] by blast
qed

lemma eligible_pool:
  assumes "std_ok (relays s)" and "PointOf 0 \<notin> fst ` set (relays s)"
  shows "choosable PointOf (shrink_pool n (GetEligibleRelays s)) []"
    and "length (shrink_pool n (GetEligibleRelays s)) = min n (length (GetEligibleRelays s))"
    and "set (shrink_pool n (GetEligibleRelays s)) \<subseteq> {r. std_count r (relays s) \<and> eligible s r}"
proof -
  have d: "distinct (GetEligibleRelays s)" "set (GetEligibleRelays s) = {r. std_count r (relays s) \<and> eligible s r}"
    using std_ok_distinct [OF assms(1)] by (auto simp: GetEligibleRelays_def distinct_map_filter std_count_def)
  show "set (shrink_pool n (GetEligibleRelays s)) \<subseteq> {r. std_count r (relays s) \<and> eligible s r}"
    using d by (auto simp: shrink_pool_eq dest: in_set_dropD)
  then show "choosable PointOf (shrink_pool n (GetEligibleRelays s)) []"
    using d assms(2) by (auto simp: choosable_def shrink_pool_eq std_count_def)
  show "length (shrink_pool n (GetEligibleRelays s)) = min n (length (GetEligibleRelays s))"
    using d by (simp add: shrink_pool_eq)
qed


text \<open>
  C15. \<^verbatim>\<open>ChooseRelays\<close> returns, for every chooser and every hash function, and never loops, if the point of zero is not a relay.
  When at least as many relays are eligible as are required it returns as many as required or, if that is less, \<^verbatim>\<open>MAX_POOL_SIZE\<close>
  of them, all different, all registered and eligible; when fewer are eligible it returns none.
\<close>

theorem choose_relays_correct:
  assumes "std_ok (relays s)" and "PointOf 0 \<notin> fst ` set (relays s)"
  shows "\<exists>chosen. ChooseRelays params PointOf HashUint160 chooser required s = Some chosen \<and> distinct chosen
    \<and> length chosen = (if required \<le> length (GetEligibleRelays s) then min required (MAX_POOL_SIZE params) else 0)
    \<and> (\<forall>r \<in> set chosen. std_count r (relays s) \<and> eligible s r)"
proof (cases "required \<le> length (GetEligibleRelays s)")
  case enough: True
  note pool = eligible_pool [where PointOf = PointOf, OF assms(1,2), of "MAX_POOL_SIZE params"]
  have "min (required - length []) (length (shrink_pool (MAX_POOL_SIZE params) (GetEligibleRelays s))) = min required (MAX_POOL_SIZE params)"
    using enough by (simp add: pool(2))
  from choose_loop_total [OF pool(1) enough this, of HashUint160 chooser] obtain picked where
    "choose_loop PointOf HashUint160 required (length (GetEligibleRelays s)) chooser (shrink_pool (MAX_POOL_SIZE params) (GetEligibleRelays s)) []
       = Some picked" "distinct picked" "length picked = min required (MAX_POOL_SIZE params)"
    "set picked \<subseteq> set (shrink_pool (MAX_POOL_SIZE params) (GetEligibleRelays s))" by auto
  then show ?thesis using enough pool(3) by (auto simp: ChooseRelays_def Let_def)
qed (simp add: ChooseRelays_def)

definition three_relays :: "int relay_state" where
  "three_relays = RelayState_new\<lparr>relays := [(5, 2), (7, 1), (9, 3)], disqualifications := [(7, {1})], latest_relay_number := 3\<rparr>"

theorem choose_relays_correct_witness:
  "\<exists>chosen. ChooseRelays test_params id (\<lambda>h. h + 1) 41 2 three_relays = Some chosen \<and> distinct chosen
    \<and> length chosen = 2 \<and> (\<forall>r \<in> set chosen. r \<noteq> 7)"
proof -
  have "std_ok (relays three_relays)" "id 0 \<notin> fst ` set (relays three_relays)" "2 \<le> length (GetEligibleRelays three_relays)"
    by (simp_all add: three_relays_def RelayState_new_def GetEligibleRelays_def eligible_def std_count_def)
  with choose_relays_correct [where PointOf = id, OF this(1,2), of test_params "\<lambda>h. h + 1" 41 2]
  show ?thesis by (auto simp: test_params_def three_relays_def RelayState_new_def eligible_def std_count_def)
qed

text \<open>
  The choice does not depend on the chooser: \<^verbatim>\<open>getuint\<close> of a number above 64 bits is always the same all-ones word, so two
  choosers whose hash chains stay at or above 2^64, as almost all do, choose the same relays in the same order.
\<close>

theorem choose_relays_ignores_chooser:
  assumes "std_ok (relays s)" and "PointOf 0 \<notin> fst ` set (relays s)"
    and "\<forall>i < required. 18446744073709551616 \<le> (HashUint160 ^^ Suc i) c \<and> 18446744073709551616 \<le> (HashUint160 ^^ Suc i) d"
  shows "ChooseRelays params PointOf HashUint160 c required s = ChooseRelays params PointOf HashUint160 d required s"
proof (cases "required \<le> length (GetEligibleRelays s)")
  case True
  show ?thesis
    using choose_loop_saturated [OF eligible_pool(1) [where PointOf = PointOf, OF assms(1,2), of "MAX_POOL_SIZE params"] True refl, of HashUint160 c d] assms(3)
    by (simp add: ChooseRelays_def Let_def)
qed (simp add: ChooseRelays_def)

theorem choose_relays_ignores_chooser_witness:
  "ChooseRelays test_params id (\<lambda>h. h + 1) 18446744073709551616 2 three_relays
     = ChooseRelays test_params id (\<lambda>h. h + 1) 36893488147419103232 2 three_relays"
proof (rule choose_relays_ignores_chooser)
  show "std_ok (relays three_relays)" "id 0 \<notin> fst ` set (relays three_relays)"
    by (simp_all add: three_relays_def RelayState_new_def)
  show "\<forall>i < 2. (18446744073709551616 :: uint160) \<le> ((\<lambda>h. h + 1) ^^ Suc i) 18446744073709551616
      \<and> (18446744073709551616 :: uint160) \<le> ((\<lambda>h. h + 1) ^^ Suc i) 36893488147419103232"
    by (auto simp: less_2_cases_iff)
qed

end
