(* ===== verification/RelayChain.thy ===== *)
theory RelayChain
  imports RelayState SecretSharing "HOL-Library.Sublist"
begin

text \<open>
  The chain of relay states of \<^verbatim>\<open>src/relays/relaystate.cpp\<close> (\<^verbatim>\<open>SharedChain\<close>, \<^verbatim>\<open>RelayStateChain\<close>): the validation of
  every relay message against the registry, the handler that applies it and the handler that takes it back, and the batches.

  The message database is not part of the sources.  It is the environment \<open>relay_env\<close>: \<open>get_join env h p\<close> is the object that
  \<^verbatim>\<open>msgdata[h][p]\<close> yields when it is read as a join message, and so on for the other message types; \<open>has_property env h p\<close> is
  \<^verbatim>\<open>msgdata[h].HasProperty(p)\<close>.  The messages hold the fields that the chain reads.  What comes from \<^verbatim>\<open>RelayJoinMessage.h\<close>
  (its order and its hash), from the signature macros and from the lists of relays of the trade secrets are further fields
  of the environment.  The \<^verbatim>\<open>succession_msgs\<close> that the handlers store in \<^verbatim>\<open>relaydata\<close> are part of the state, because
  they are read back.  An exception leaves no state; \<open>OutOfRange\<close> is an access beyond the end of a vector.
\<close>

section \<open>Messages and their database\<close>

record 'p relay_join =
  relay_number :: u32
  relay_pubkey :: 'p
  preceding_relay_join_hash :: uint160
  join_VerificationKey :: 'p

record 'p relay_leave =
  relay_leaving :: 'p
  successor :: 'p

record future_successor =
  credit_hash :: uint160
  successor_join_hash :: uint160

record 'p succession =
  dead_relay_join_hash :: uint160
  succession_successor_join_hash :: uint160
  executor :: 'p

record future_successor_complaint =
  future_successor_msg_hash :: uint160

record refutation =
  complaint_hash :: uint160

record trader_complaint =
  trader_message_hash :: uint160

record trade_secret =
  accept_commit_hash :: uint160
  secret_position :: u32

record relay_complaint =
  relay_message_hash :: uint160
  position :: u32

record 'p relay_env =
  env_params :: relay_params
  env_production :: bool
  env_PointOf :: "int \<Rightarrow> 'p"
  has_property :: "uint160 \<Rightarrow> string \<Rightarrow> bool"
  msg_type :: "uint160 \<Rightarrow> string"
  get_join :: "uint160 \<Rightarrow> string \<Rightarrow> 'p relay_join"
  get_leave :: "uint160 \<Rightarrow> string \<Rightarrow> 'p relay_leave"
  get_successor :: "uint160 \<Rightarrow> string \<Rightarrow> future_successor"
  get_succession :: "uint160 \<Rightarrow> string \<Rightarrow> 'p succession"
  get_future_complaint :: "uint160 \<Rightarrow> string \<Rightarrow> future_successor_complaint"
  get_refutation :: "uint160 \<Rightarrow> string \<Rightarrow> refutation"
  get_trader_complaint :: "uint160 \<Rightarrow> string \<Rightarrow> trader_complaint"
  get_relay_complaint :: "uint160 \<Rightarrow> string \<Rightarrow> relay_complaint"
  get_secret :: "uint160 \<Rightarrow> string \<Rightarrow> trade_secret"
  order_commit_hash :: "uint160 \<Rightarrow> string \<Rightarrow> uint160"
  secret_relays :: "uint160 \<Rightarrow> string \<Rightarrow> 'p list"
  no_secret_relays :: "'p list"
  credit_key :: "uint160 \<Rightarrow> 'p"
  accepted_join :: "uint160 \<Rightarrow> uint160"
  VerifySignature_trader_complaint :: "trader_complaint \<Rightarrow> bool"
  Validate_trader_refutation :: "refutation \<Rightarrow> bool"
  sort_joins :: "'p relay_join list \<Rightarrow> 'p relay_join list"
  join_GetHash160 :: "'p relay_join \<Rightarrow> uint160"
  full_hashes :: "uint160 \<Rightarrow> uint160 list option"

text \<open>The keys that the messages name through other messages.\<close>

definition Succession_Successor :: "'p relay_env \<Rightarrow> 'p succession \<Rightarrow> 'p" where
  "Succession_Successor env msg = relay_pubkey (get_join env (succession_successor_join_hash msg) ''join'')"

definition Deceased :: "'p relay_env \<Rightarrow> 'p succession \<Rightarrow> 'p" where
  "Deceased env msg = relay_pubkey (get_join env (dead_relay_join_hash msg) ''join'')"

definition FutureSuccessor_JoinHash :: "'p relay_env \<Rightarrow> future_successor \<Rightarrow> uint160" where
  "FutureSuccessor_JoinHash env msg = accepted_join env (credit_hash msg)"

definition FutureSuccessor_VerificationKey :: "'p relay_env \<Rightarrow> future_successor \<Rightarrow> 'p" where
  "FutureSuccessor_VerificationKey env msg = credit_key env (credit_hash msg)"

definition Complaint_JoinHash :: "'p relay_env \<Rightarrow> future_successor_complaint \<Rightarrow> uint160" where
  "Complaint_JoinHash env complaint =
     FutureSuccessor_JoinHash env (get_successor env (future_successor_msg_hash complaint) ''successor'')"

definition Complaint_VerificationKey :: "'p relay_env \<Rightarrow> future_successor_complaint \<Rightarrow> 'p" where
  "Complaint_VerificationKey env complaint = relay_pubkey (get_join env (Complaint_JoinHash env complaint) ''join'')"

definition at_position :: "'p list \<Rightarrow> u32 \<Rightarrow> relay_error + 'p" where
  "at_position points n = (if unat n < length points then Inr (points ! unat n) else Inl OutOfRange)"

definition TradeSecret_VerificationKey :: "'p relay_env \<Rightarrow> trade_secret \<Rightarrow> relay_error + 'p" where
  "TradeSecret_VerificationKey env msg =
     at_position (secret_relays env (order_commit_hash env (accept_commit_hash msg) ''accept_commit'') ''commit'') (secret_position msg)"

definition GetDistributedTradeSecret_Relays :: "'p relay_env \<Rightarrow> relay_complaint \<Rightarrow> 'p list" where
  "GetDistributedTradeSecret_Relays env complaint =
     (let type = msg_type env (relay_message_hash complaint)
      in if type = ''commit'' then secret_relays env (relay_message_hash complaint) ''commit''
         else if type = ''accept_commit'' then secret_relays env (relay_message_hash complaint) ''accept_commit''
         else no_secret_relays env)"

definition RelayComplaint_VerificationKey :: "'p relay_env \<Rightarrow> relay_complaint \<Rightarrow> relay_error + 'p" where
  "RelayComplaint_VerificationKey env complaint =
     (if msg_type env (relay_message_hash complaint) = ''disclosure''
      then at_position (secret_relays env (relay_message_hash complaint) ''disclosure'') (position complaint)
      else at_position (GetDistributedTradeSecret_Relays env complaint) (position complaint))"


section \<open>The chain\<close>

record 'p relay_chain =
  state :: "'p relay_state"
  message_types :: "string list"
  handled_messages :: "uint160 set"
  succession_msgs :: "'p \<Rightarrow> uint160 set"

definition SetMessages :: "string list" where
  "SetMessages = [''join'', ''leave'', ''successor'', ''succession'', ''trader_complaint'', ''complaint_refutation'']"

definition RelayStateChain_new :: "'p relay_state \<Rightarrow> ('p \<Rightarrow> uint160 set) \<Rightarrow> 'p relay_chain" where
  "RelayStateChain_new s db = \<lparr>state = s, message_types = SetMessages, handled_messages = {}, succession_msgs = db\<rparr>"

abbreviation on_state :: "('p relay_state \<Rightarrow> 'p relay_state) \<Rightarrow> 'p relay_chain \<Rightarrow> 'p relay_chain" where
  "on_state f c \<equiv> c\<lparr>state := f (state c)\<rparr>"

definition NUM_EXECUTORS :: nat where
  "NUM_EXECUTORS = 6"

section \<open>Validation\<close>

definition ValidateJoin :: "'p relay_env \<Rightarrow> uint160 \<Rightarrow> 'p relay_chain \<Rightarrow> bool" where
  "ValidateJoin env message_hash c =
     (if \<not> has_property env message_hash ''join'' then False
      else let msg = get_join env message_hash ''join''
           in if relay_number msg \<le> latest_relay_number (state c) then False
              else if relay_number msg \<noteq> 1 + latest_relay_number (state c) then False
              else if std_count message_hash (join_hash_to_relay (state c)) \<or> std_count (relay_pubkey msg) (relays (state c)) then False
              else True)"

definition ValidateLeave :: "'p relay_env \<Rightarrow> uint160 \<Rightarrow> 'p relay_chain \<Rightarrow> bool" where
  "ValidateLeave env message_hash c =
     (if \<not> has_property env message_hash ''leave'' then False
      else let relay = relay_leaving (get_leave env message_hash ''leave'')
           in if std_count relay (actual_successions (state c)) \<or> \<not> std_count relay (relays (state c)) then False else True)"

definition ValidateSuccessor :: "'p relay_env \<Rightarrow> uint160 \<Rightarrow> 'p relay_chain \<Rightarrow> relay_error + bool" where
  "ValidateSuccessor env message_hash c =
     (if \<not> has_property env message_hash ''successor'' then Inl MissingDataException
      else let msg = get_successor env message_hash ''successor''
           in if \<not> std_count (FutureSuccessor_VerificationKey env msg) (relays (state c)) then Inr False
              else if \<not> std_count (relay_pubkey (get_join env (successor_join_hash msg) ''join'')) (relays (state c)) then Inr False
              else Inr True)"

text \<open>\<^verbatim>\<open>Executors(dead_relay)\<close> looks the relay up with \<^verbatim>\<open>operator[]\<close>, so that the registry is threaded through.\<close>

definition ValidateSuccession :: "'p::linorder relay_env \<Rightarrow> uint160 \<Rightarrow> 'p relay_chain \<Rightarrow> relay_error + (bool \<times> 'p relay_chain)" where
  "ValidateSuccession env message_hash c =
     (if \<not> has_property env message_hash ''succession'' then Inl MissingDataException
      else let msg = get_succession env message_hash ''succession'';
               dead_relay = Deceased env msg; successor = Succession_Successor env msg
           in if \<not> std_count dead_relay (relays (state c)) then Inr (False, c)
              else if map_of (line_of_succession (state c)) dead_relay \<noteq> Some successor then Inr (False, c)
              else let (executors, s) = Executors_of (env_params env) (env_PointOf env) dead_relay (state c)
                   in Inr (VectorContainsEntry executors (executor msg), c\<lparr>state := s\<rparr>))"

definition ValidateTraderComplaint :: "'p relay_env \<Rightarrow> uint160 \<Rightarrow> bool" where
  "ValidateTraderComplaint env message_hash =
     VerifySignature_trader_complaint env (get_trader_complaint env message_hash ''trader_complaint'')"

definition ValidateRefutationOfTraderComplaint :: "'p relay_env \<Rightarrow> uint160 \<Rightarrow> bool" where
  "ValidateRefutationOfTraderComplaint env message_hash =
     Validate_trader_refutation env (get_refutation env message_hash ''trader_complaint_refutation'')"

definition ValidateRefutationOfRelayComplaint :: "'p relay_env \<Rightarrow> uint160 \<Rightarrow> bool" where
  "ValidateRefutationOfRelayComplaint env message_hash =
     Validate_trader_refutation env (get_refutation env message_hash ''trader_complaint_refutation'')"

definition ValidateMessage :: "'p::linorder relay_env \<Rightarrow> uint160 \<Rightarrow> 'p relay_chain \<Rightarrow> relay_error + (bool \<times> 'p relay_chain)" where
  "ValidateMessage env message_hash c =
     (let type = msg_type env message_hash
      in if type = ''join'' then Inr (ValidateJoin env message_hash c, c)
         else if type = ''leave'' then Inr (ValidateLeave env message_hash c, c)
         else if type = ''successor'' then map_sum id (\<lambda>b. (b, c)) (ValidateSuccessor env message_hash c)
         else if type = ''succession'' then ValidateSuccession env message_hash c
         else if type = ''trader_complaint'' then Inr (ValidateTraderComplaint env message_hash, c)
         else if type = ''trader_complaint_refutation'' then Inr (ValidateRefutationOfTraderComplaint env message_hash, c)
         else if type = ''relay_complaint_refutation'' then Inr (ValidateRefutationOfRelayComplaint env message_hash, c)
         else Inr (True, c))"

section \<open>Joining and leaving\<close>

text \<open>\<^verbatim>\<open>relays.count(msg.relay_number)\<close> converts the number into a point.\<close>

definition HandleJoin :: "'p::linorder relay_env \<Rightarrow> uint160 \<Rightarrow> 'p relay_chain \<Rightarrow> relay_error + 'p relay_chain" where
  "HandleJoin env message_hash c =
     (if \<not> has_property env message_hash ''join'' then Inl MissingDataException
      else let msg = get_join env message_hash ''join''
           in if std_count (env_PointOf env (uint (relay_number msg))) (relays (state c)) then Inr c
              else if relay_number msg \<noteq> 1 + latest_relay_number (state c) then Inl RelayStateError
              else case AddRelay (env_params env) (env_PointOf env) (relay_pubkey msg) message_hash (state c) of
                     Inl e \<Rightarrow> Inl e
                   | Inr (n, s) \<Rightarrow>
                       Inr (c\<lparr>state :=
                         (if 0 < preceding_relay_join_hash msg
                          then s\<lparr>line_of_succession := std_put (relay_pubkey msg)
                                   (relay_pubkey (get_join env (preceding_relay_join_hash msg) ''join'')) (line_of_succession s)\<rparr>
                          else s)\<rparr>))"

definition UnHandleJoin :: "'p relay_env \<Rightarrow> uint160 \<Rightarrow> 'p relay_chain \<Rightarrow> relay_error + 'p relay_chain" where
  "UnHandleJoin env message_hash c =
     map_sum id (\<lambda>s. c\<lparr>state := s\<rparr>) (RemoveRelay (relay_pubkey (get_join env message_hash ''join'')) True (state c))"

definition HandleLeave :: "'p::linorder relay_env \<Rightarrow> uint160 \<Rightarrow> 'p relay_chain \<Rightarrow> 'p relay_chain" where
  "HandleLeave env message_hash c =
     (let msg = get_leave env message_hash ''leave''
      in on_state (\<lambda>s. s\<lparr>actual_successions := std_put (relay_leaving msg) (successor msg) (actual_successions s)\<rparr>) c)"

definition UnHandleLeave :: "'p relay_env \<Rightarrow> uint160 \<Rightarrow> 'p relay_chain \<Rightarrow> 'p relay_chain" where
  "UnHandleLeave env message_hash c =
     (let msg = get_leave env message_hash ''leave''
      in on_state (\<lambda>s. s\<lparr>actual_successions := std_erase (relay_leaving msg) (actual_successions s)\<rparr>) c)"


section \<open>Complaints\<close>

definition HandleComplaintFromFutureSuccessor :: "'p::linorder relay_env \<Rightarrow> uint160 \<Rightarrow> 'p relay_chain \<Rightarrow> 'p relay_chain" where
  "HandleComplaintFromFutureSuccessor env message_hash c =
     (let complaint = get_future_complaint env message_hash ''complaint_future_successor'';
          join = get_join env (Complaint_JoinHash env complaint) ''join''
      in on_state (AddDisqualification (relay_pubkey join) message_hash) c)"

definition UnHandleComplaintFromFutureSuccessor :: "'p::linorder relay_env \<Rightarrow> uint160 \<Rightarrow> 'p relay_chain \<Rightarrow> 'p relay_chain" where
  "UnHandleComplaintFromFutureSuccessor env message_hash c =
     (let complaint = get_future_complaint env message_hash ''complaint_future_successor'';
          join = get_join env (Complaint_JoinHash env complaint) ''join''
      in on_state (RemoveDisqualification (join_VerificationKey join) message_hash) c)"

definition HandleRefutationOfComplaintFromFutureSuccessor :: "'p::linorder relay_env \<Rightarrow> uint160 \<Rightarrow> 'p relay_chain \<Rightarrow> 'p relay_chain" where
  "HandleRefutationOfComplaintFromFutureSuccessor env message_hash c =
     (let r = get_refutation env message_hash ''future_successor_refutation'';
          complaint = get_future_complaint env (complaint_hash r) ''complaint_future_successor'';
          join = get_join env (Complaint_JoinHash env complaint) ''join'';
          c = on_state (RemoveDisqualification (relay_pubkey join) (complaint_hash r)) c
      in on_state (AddDisqualification (Complaint_VerificationKey env complaint) message_hash) c)"

definition UnHandleRefutationOfComplaintFromFutureSuccessor :: "'p::linorder relay_env \<Rightarrow> uint160 \<Rightarrow> 'p relay_chain \<Rightarrow> 'p relay_chain" where
  "UnHandleRefutationOfComplaintFromFutureSuccessor env message_hash c =
     (let r = get_refutation env message_hash ''future_successor_refutation'';
          complaint = get_future_complaint env (complaint_hash r) ''complaint_future_successor'';
          join = get_join env (Complaint_JoinHash env complaint) ''join'';
          c = on_state (AddDisqualification (relay_pubkey join) (complaint_hash r)) c
      in on_state (RemoveDisqualification (Complaint_VerificationKey env complaint) message_hash) c)"

definition HandleTraderComplaint :: "'p::linorder relay_env \<Rightarrow> uint160 \<Rightarrow> 'p relay_chain \<Rightarrow> relay_error + 'p relay_chain" where
  "HandleTraderComplaint env message_hash c =
     (let complaint = get_trader_complaint env message_hash ''trader_complaint'';
          msg = get_secret env (trader_message_hash complaint) ''secret''
      in map_sum id (\<lambda>relay. on_state (AddDisqualification relay message_hash) c) (TradeSecret_VerificationKey env msg))"

text \<open>The complaint is read back under another name than the one it was stored under.\<close>

definition UnHandleTraderComplaint :: "'p::linorder relay_env \<Rightarrow> uint160 \<Rightarrow> 'p relay_chain \<Rightarrow> relay_error + 'p relay_chain" where
  "UnHandleTraderComplaint env message_hash c =
     (let complaint = get_trader_complaint env message_hash ''complaint'';
          msg = get_secret env (trader_message_hash complaint) ''secret''
      in map_sum id (\<lambda>relay. on_state (RemoveDisqualification relay message_hash) c) (TradeSecret_VerificationKey env msg))"

definition HandleRefutationOfTraderComplaint :: "'p::linorder relay_env \<Rightarrow> uint160 \<Rightarrow> 'p relay_chain \<Rightarrow> relay_error + 'p relay_chain" where
  "HandleRefutationOfTraderComplaint env message_hash c =
     (let r = get_refutation env message_hash ''trader_complaint_refutation'';
          complaint = get_trader_complaint env (complaint_hash r) ''trader_complaint'';
          msg = get_secret env (trader_message_hash complaint) ''secret''
      in map_sum id (\<lambda>relay. on_state (RemoveDisqualification relay (complaint_hash r)) c) (TradeSecret_VerificationKey env msg))"

definition UnHandleRefutationOfTraderComplaint :: "'p::linorder relay_env \<Rightarrow> uint160 \<Rightarrow> 'p relay_chain \<Rightarrow> relay_error + 'p relay_chain" where
  "UnHandleRefutationOfTraderComplaint env message_hash c =
     (let r = get_refutation env message_hash ''trader_complaint_refutation'';
          complaint = get_trader_complaint env (complaint_hash r) ''complaint'';
          msg = get_secret env (trader_message_hash complaint) ''secret''
      in map_sum id (\<lambda>relay. on_state (AddDisqualification relay (complaint_hash r)) c) (TradeSecret_VerificationKey env msg))"

definition HandleRefutationOfRelayComplaint :: "'p::linorder relay_env \<Rightarrow> uint160 \<Rightarrow> 'p relay_chain \<Rightarrow> relay_error + 'p relay_chain" where
  "HandleRefutationOfRelayComplaint env message_hash c =
     (let r = get_refutation env message_hash ''relay_complaint_refutation'';
          complaint = get_relay_complaint env (complaint_hash r) ''relay_complaint''
      in map_sum id (\<lambda>relay. on_state (AddDisqualification relay message_hash) c) (RelayComplaint_VerificationKey env complaint))"

definition UnHandleRefutationOfRelayComplaint :: "'p::linorder relay_env \<Rightarrow> uint160 \<Rightarrow> 'p relay_chain \<Rightarrow> relay_error + 'p relay_chain" where
  "UnHandleRefutationOfRelayComplaint env message_hash c =
     (let r = get_refutation env message_hash ''relay_complaint_refutation'';
          complaint = get_relay_complaint env (complaint_hash r) ''relay_complaint''
      in map_sum id (\<lambda>relay. on_state (RemoveDisqualification relay message_hash) c) (RelayComplaint_VerificationKey env complaint))"

section \<open>Successors and successions\<close>

definition HandleSuccessor :: "'p::linorder relay_env \<Rightarrow> uint160 \<Rightarrow> 'p relay_chain \<Rightarrow> 'p relay_chain" where
  "HandleSuccessor env message_hash c =
     (let msg = get_successor env message_hash ''successor'';
          predecessor = FutureSuccessor_VerificationKey env msg;
          successor = relay_pubkey (get_join env (successor_join_hash msg) ''join'')
      in on_state (\<lambda>s. s\<lparr>line_of_succession := std_put predecessor successor (line_of_succession s)\<rparr>) c)"

definition UnHandleSuccessor :: "'p relay_env \<Rightarrow> uint160 \<Rightarrow> 'p relay_chain \<Rightarrow> 'p relay_chain" where
  "UnHandleSuccessor env message_hash c =
     (let msg = get_successor env message_hash ''successor'';
          predecessor = FutureSuccessor_VerificationKey env msg
      in on_state (\<lambda>s. s\<lparr>line_of_succession := std_erase predecessor (line_of_succession s)\<rparr>) c)"

definition HandleSuccession :: "'p::linorder relay_env \<Rightarrow> uint160 \<Rightarrow> 'p relay_chain \<Rightarrow> 'p relay_chain" where
  "HandleSuccession env message_hash c =
     (let msg = get_succession env message_hash ''succession'';
          predecessor = Deceased env msg;
          s = state c;
          (present, m) = std_get {} predecessor (subthreshold_succession_msgs s);
          msgs = insert message_hash present;
          s = s\<lparr>subthreshold_succession_msgs := std_put predecessor msgs m\<rparr>;
          s = (if RelaysRequired (env_production env) NUM_EXECUTORS \<le> card msgs
               then s\<lparr>actual_successions := std_put predecessor (Succession_Successor env msg) (actual_successions s)\<rparr>
               else s)
      in c\<lparr>state := s, succession_msgs := (succession_msgs c)(predecessor := msgs)\<rparr>)"

text \<open>The stored set is read once as a vector, in ascending order, and once as a set; it is not stored back.\<close>

definition UnHandleSuccession :: "'p::linorder relay_env \<Rightarrow> uint160 \<Rightarrow> 'p relay_chain \<Rightarrow> 'p relay_chain" where
  "UnHandleSuccession env message_hash c =
     (let msg = get_succession env message_hash ''succession'';
          predecessor = Deceased env msg;
          s = state c;
          msgs = EraseEntryFromVector message_hash (sorted_list_of_set (succession_msgs c predecessor));
          s = (if length msgs < RelaysRequired (env_production env) NUM_EXECUTORS
               then s\<lparr>actual_successions := std_erase predecessor (actual_successions s),
                      subthreshold_succession_msgs :=
                        std_put predecessor (succession_msgs c predecessor) (subthreshold_succession_msgs s)\<rparr>
               else s);
          (present, m) = std_get {} predecessor (subthreshold_succession_msgs s)
      in c\<lparr>state := s\<lparr>subthreshold_succession_msgs := std_put predecessor (present - {message_hash}) m\<rparr>\<rparr>)"

section \<open>Messages and batches\<close>

definition HandleMessage :: "'p::linorder relay_env \<Rightarrow> uint160 \<Rightarrow> 'p relay_chain \<Rightarrow> relay_error + 'p relay_chain" where
  "HandleMessage env message_hash c =
     (let type = msg_type env message_hash
      in map_sum id (\<lambda>c. c\<lparr>handled_messages := insert message_hash (handled_messages c)\<rparr>)
          (if type = ''join'' then HandleJoin env message_hash c
           else if type = ''leave'' then Inr (HandleLeave env message_hash c)
           else if type = ''successor'' then Inr (HandleSuccessor env message_hash c)
           else if type = ''succession'' then Inr (HandleSuccession env message_hash c)
           else if type = ''trader_complaint'' then HandleTraderComplaint env message_hash c
           else if type = ''trader_complaint_refutation'' then HandleRefutationOfTraderComplaint env message_hash c
           else if type = ''relay_complaint_refutation'' then HandleRefutationOfRelayComplaint env message_hash c
           else Inr c))"

definition UnHandleMessage :: "'p::linorder relay_env \<Rightarrow> uint160 \<Rightarrow> 'p relay_chain \<Rightarrow> relay_error + 'p relay_chain" where
  "UnHandleMessage env message_hash c =
     (let type = msg_type env message_hash
      in map_sum id (\<lambda>c. c\<lparr>handled_messages := handled_messages c - {message_hash}\<rparr>)
          (if type = ''join'' then UnHandleJoin env message_hash c
           else if type = ''leave'' then Inr (UnHandleLeave env message_hash c)
           else if type = ''successor'' then Inr (UnHandleSuccessor env message_hash c)
           else if type = ''succession'' then Inr (UnHandleSuccession env message_hash c)
           else if type = ''trader_complaint'' then UnHandleTraderComplaint env message_hash c
           else if type = ''trader_complaint_refutation'' then UnHandleRefutationOfTraderComplaint env message_hash c
           else if type = ''relay_complaint_refutation'' then UnHandleRefutationOfRelayComplaint env message_hash c
           else Inr c))"

fun handle_loop :: "'p::linorder relay_env \<Rightarrow> uint160 list \<Rightarrow> uint160 list \<Rightarrow> 'p relay_chain \<Rightarrow> relay_error + (uint160 list \<times> 'p relay_chain)" where
  "handle_loop env [] rejected c = Inr (rejected, c)"
| "handle_loop env (message_hash # rest) rejected c =
     (case ValidateMessage env message_hash c of
        Inl e \<Rightarrow> Inl e
      | Inr (False, c) \<Rightarrow> handle_loop env rest (rejected @ [message_hash]) c
      | Inr (True, c) \<Rightarrow>
          (case HandleMessage env message_hash c of
             Inl e \<Rightarrow> Inl e
           | Inr c \<Rightarrow> handle_loop env rest rejected c))"

definition messages_in_order :: "'p relay_env \<Rightarrow> string list \<Rightarrow> uint160 list \<Rightarrow> uint160 list" where
  "messages_in_order env types messages =
     (let known = filter (\<lambda>h. VectorContainsEntry types (msg_type env h)) messages;
          joins = map (\<lambda>h. get_join env h ''join'') (filter (\<lambda>h. msg_type env h = ''join'') known)
      in map (join_GetHash160 env) (sort_joins env joins) @ filter (\<lambda>h. msg_type env h \<noteq> ''join'') known)"

text \<open>The result is whether nothing was rejected, with the rejected messages appended to the list given.\<close>

definition HandleMessages :: "'p::linorder relay_env \<Rightarrow> uint160 list \<Rightarrow> uint160 list \<Rightarrow> 'p relay_chain \<Rightarrow> relay_error + (bool \<times> uint160 list \<times> 'p relay_chain)" where
  "HandleMessages env messages rejected c =
     map_sum id (\<lambda>(rejected', c'). (length rejected' = length rejected, rejected', c'))
       (handle_loop env (messages_in_order env (message_types c) messages) rejected c)"

fun handle_batch_loop :: "'p::linorder relay_env \<Rightarrow> uint160 list \<Rightarrow> 'p relay_chain \<Rightarrow> relay_error + 'p relay_chain" where
  "handle_batch_loop env [] c = Inr c"
| "handle_batch_loop env (message_hash # rest) c =
     (if VectorContainsEntry (message_types c) (msg_type env message_hash)
      then (case HandleMessage env message_hash c of Inl e \<Rightarrow> Inl e | Inr c \<Rightarrow> handle_batch_loop env rest c)
      else handle_batch_loop env rest c)"

definition HandleBatch :: "'p::linorder relay_env \<Rightarrow> uint160 \<Rightarrow> 'p relay_chain \<Rightarrow> relay_error + 'p relay_chain" where
  "HandleBatch env batch_hash c =
     (case full_hashes env batch_hash of
        None \<Rightarrow> Inl RecoverHashesFailedException
      | Some messages \<Rightarrow> map_sum id (on_state (SetLatestCreditHash batch_hash)) (handle_batch_loop env messages c))"


section \<open>The registry under messages\<close>

named_theorems relay_ok_intros

lemma relay_ok_fields:
  assumes "relays t = relays s" and "join_hash_to_relay t = join_hash_to_relay s" and "latest_relay_number t = latest_relay_number s"
    and "relay_ok p s" and "std_ok (line_of_succession t)" and "std_ok (actual_successions t)"
    and "std_ok (subthreshold_succession_msgs t)" and "std_ok (disqualifications t)"
  shows "relay_ok p t"
  using assms by (simp add: relay_ok_def consecutive_def)

lemma relay_ok_line [relay_ok_intros]:
  "relay_ok p s \<Longrightarrow> std_ok m \<Longrightarrow> relay_ok p (s\<lparr>line_of_succession := m\<rparr>)"
  by (rule relay_ok_fields [of _ s]) (simp_all add: relay_ok_def)

lemma relay_ok_actual [relay_ok_intros]:
  "relay_ok p s \<Longrightarrow> std_ok m \<Longrightarrow> relay_ok p (s\<lparr>actual_successions := m\<rparr>)"
  by (rule relay_ok_fields [of _ s]) (simp_all add: relay_ok_def)

lemma relay_ok_subthreshold [relay_ok_intros]:
  "relay_ok p s \<Longrightarrow> std_ok m \<Longrightarrow> relay_ok p (s\<lparr>subthreshold_succession_msgs := m\<rparr>)"
  by (rule relay_ok_fields [of _ s]) (simp_all add: relay_ok_def)

lemma relay_ok_disqualifications [relay_ok_intros]:
  "relay_ok p s \<Longrightarrow> std_ok m \<Longrightarrow> relay_ok p (s\<lparr>disqualifications := m\<rparr>)"
  by (rule relay_ok_fields [of _ s]) (simp_all add: relay_ok_def)

lemma relay_ok_maps:
  assumes "relay_ok p s"
  shows "std_ok (line_of_succession s)" "std_ok (actual_successions s)" "std_ok (subthreshold_succession_msgs s)"
    "std_ok (disqualifications s)"
  using assms by (simp_all add: relay_ok_def)

lemma relay_ok_AddDisqualification [relay_ok_intros]: "relay_ok p s \<Longrightarrow> relay_ok p (AddDisqualification r h s)"
  unfolding AddDisqualification_def Let_def by (intro relay_ok_intros std_put_ok relay_ok_maps)

lemma relay_ok_RemoveDisqualification [relay_ok_intros]: "relay_ok p s \<Longrightarrow> relay_ok p (RemoveDisqualification r h s)"
  by (auto simp: RemoveDisqualification_def relay_ok_maps split: option.split intro!: relay_ok_intros)

lemma latest_disqualification [simp]:
  "latest_relay_number (AddDisqualification r h s) = latest_relay_number s"
  "latest_relay_number (RemoveDisqualification r h s) = latest_relay_number s"
  by (simp_all add: AddDisqualification_def RemoveDisqualification_def Let_def split: option.split)

lemma std_get_ok: "std_ok m \<Longrightarrow> std_ok (snd (std_get d k m))"
  by (simp add: std_get_def split: option.split)

lemma relay_ok_HandleSuccession:
  assumes "relay_ok p (state c)"
  shows "relay_ok p (state (HandleSuccession env h c))"
    and "latest_relay_number (state (HandleSuccession env h c)) = latest_relay_number (state c)"
  by (simp_all add: HandleSuccession_def Let_def case_prod_beta relay_ok_intros relay_ok_maps [OF assms] std_get_ok assms)

lemma Executors_of_known:
  assumes "std_count r (relays s)"
  shows "snd (Executors_of p PointOf r s) = s"
  using assms by (auto simp: Executors_of_def std_get_def std_count_map_of)

lemma ValidateSuccession_state: "ValidateSuccession env h c = Inr (b, c') \<Longrightarrow> c' = c"
  by (auto simp: ValidateSuccession_def Let_def case_prod_beta Executors_of_known simp del: not_None_eq split: if_splits)

lemma ValidateMessage_state: "ValidateMessage env h c = Inr (b, c') \<Longrightarrow> c' = c"
  unfolding ValidateMessage_def Let_def
  by (cases "ValidateSuccessor env h c") (auto dest: ValidateSuccession_state split: if_split_asm)

text \<open>A join that was validated cannot fail.\<close>

lemma HandleJoin_validated:
  assumes "ValidateJoin env h c" and "relay_ok (env_params env) (state c)" and "latest_relay_number (state c) < 999999999"
  shows "\<exists>c'. HandleJoin env h c = Inr c' \<and> relay_ok (env_params env) (state c')
    \<and> (latest_relay_number (state c') = latest_relay_number (state c) \<or> latest_relay_number (state c') = latest_relay_number (state c) + 1)"
proof -
  let ?msg = "get_join env h ''join''"
  have v: "has_property env h ''join''" "relay_number ?msg = 1 + latest_relay_number (state c)"
    "\<not> std_count (relay_pubkey ?msg) (relays (state c))" "\<not> std_count h (join_hash_to_relay (state c))"
    using assms(1) by (auto simp: ValidateJoin_def Let_def split: if_splits)
  obtain s' where "AddRelay (env_params env) (env_PointOf env) (relay_pubkey ?msg) h (state c) = Inr (latest_relay_number (state c) + 1, s')"
      "relay_ok (env_params env) s'" "latest_relay_number s' = latest_relay_number (state c) + 1"
    using AddRelay_keeps [OF assms(2,3) v(3,4)] by metis
  then show ?thesis using v(1,2) assms(2) relay_ok_maps [of _ s']
    by (auto simp: HandleJoin_def Let_def intro!: relay_ok_intros)
qed


lemma relay_ok_trader [relay_ok_intros]:
  assumes "relay_ok p (state c)" and "map_sum id (\<lambda>r. on_state (f r) c) x = Inr c'" and "\<And>r. relay_ok p (f r (state c))"
  shows "relay_ok p (state c')"
  using assms by (cases x) auto

lemma disqualification_handlers:
  assumes "relay_ok p (state c)"
    and "HandleTraderComplaint env h c = Inr c' \<or> HandleRefutationOfTraderComplaint env h c = Inr c' \<or> HandleRefutationOfRelayComplaint env h c = Inr c'"
  shows "relay_ok p (state c') \<and> latest_relay_number (state c') = latest_relay_number (state c)"
proof -
  have "\<exists>r g. c' = on_state (AddDisqualification r g) c \<or> c' = on_state (RemoveDisqualification r g) c"
    using assms(2) unfolding HandleTraderComplaint_def HandleRefutationOfTraderComplaint_def HandleRefutationOfRelayComplaint_def Let_def
    by (auto simp: map_sum_def split: sum.splits)
  then show ?thesis using assms(1) by (auto intro: relay_ok_intros)
qed

lemma simple_handlers:
  assumes "relay_ok p (state c)"
  shows "relay_ok p (state (HandleLeave env h c)) \<and> latest_relay_number (state (HandleLeave env h c)) = latest_relay_number (state c)"
    and "relay_ok p (state (HandleSuccessor env h c)) \<and> latest_relay_number (state (HandleSuccessor env h c)) = latest_relay_number (state c)"
  using assms by (simp_all add: HandleLeave_def HandleSuccessor_def Let_def relay_ok_intros relay_ok_maps [OF assms])

text \<open>Handling a validated message keeps the registry well formed and never fails with \<^const>\<open>RelayStateError\<close>.\<close>

lemma HandleMessage_validated:
  assumes "ValidateMessage env h c = Inr (True, c)" and "relay_ok (env_params env) (state c)"
    and "unat (latest_relay_number (state c)) < 999999999"
  shows "case HandleMessage env h c of
      Inl e \<Rightarrow> e = OutOfRange
    | Inr c' \<Rightarrow> relay_ok (env_params env) (state c') \<and> unat (latest_relay_number (state c')) \<le> Suc (unat (latest_relay_number (state c)))"
proof (cases "msg_type env h = ''join''")
  case True
  then have "ValidateJoin env h c" using assms(1) by (simp add: ValidateMessage_def)
  then obtain c' where c': "HandleJoin env h c = Inr c'" "relay_ok (env_params env) (state c')"
      "latest_relay_number (state c') = latest_relay_number (state c) \<or> latest_relay_number (state c') = latest_relay_number (state c) + 1"
    using HandleJoin_validated [OF _ assms(2)] assms(3) by (auto simp: word_less_nat_alt)
  moreover have "unat (latest_relay_number (state c) + 1) \<le> Suc (unat (latest_relay_number (state c)))"
    using unat_plus_if_size [of "latest_relay_number (state c)" 1] by simp
  ultimately show ?thesis using True by (auto simp: HandleMessage_def)
next
  case False
  define r where "r = (if msg_type env h = ''leave'' then Inr (HandleLeave env h c)
     else if msg_type env h = ''successor'' then Inr (HandleSuccessor env h c)
     else if msg_type env h = ''succession'' then Inr (HandleSuccession env h c)
     else if msg_type env h = ''trader_complaint'' then HandleTraderComplaint env h c
     else if msg_type env h = ''trader_complaint_refutation'' then HandleRefutationOfTraderComplaint env h c
     else if msg_type env h = ''relay_complaint_refutation'' then HandleRefutationOfRelayComplaint env h c
     else Inr c)"
  have msg: "HandleMessage env h c = map_sum id (\<lambda>c. c\<lparr>handled_messages := insert h (handled_messages c)\<rparr>) r"
    using False by (simp add: HandleMessage_def r_def)
  have "r = Inl e \<Longrightarrow> e = OutOfRange" for e
    by (auto simp: r_def HandleTraderComplaint_def HandleRefutationOfTraderComplaint_def HandleRefutationOfRelayComplaint_def Let_def
        TradeSecret_VerificationKey_def RelayComplaint_VerificationKey_def at_position_def split: if_splits)
  moreover have "r = Inr c' \<Longrightarrow> relay_ok (env_params env) (state c') \<and> latest_relay_number (state c') = latest_relay_number (state c)" for c'
    using simple_handlers [OF assms(2)] relay_ok_HandleSuccession [OF assms(2)] disqualification_handlers [OF assms(2), of env h c'] assms(2)
    unfolding r_def by (simp split: if_split_asm) blast+
  ultimately show ?thesis unfolding msg by (cases r) auto
qed

lemma handle_loop_keeps:
  assumes "relay_ok (env_params env) (state c)" and "unat (latest_relay_number (state c)) + length hs < 999999999"
  shows "case handle_loop env hs rejected c of
      Inl e \<Rightarrow> e = OutOfRange \<or> e = MissingDataException
    | Inr (rejected', c') \<Rightarrow> relay_ok (env_params env) (state c') \<and> (\<exists>new. rejected' = rejected @ new \<and> set new \<subseteq> set hs)"
  using assms
proof (induction hs arbitrary: rejected c)
  case (Cons h hs)
  show ?case
  proof (cases "ValidateMessage env h c")
    case (Inl e)
    then have "e = MissingDataException"
      by (auto simp: ValidateMessage_def ValidateSuccessor_def ValidateSuccession_def Let_def case_prod_beta split: if_splits)
    then show ?thesis using Inl by simp
  next
    case (Inr v)
    then obtain b where v: "v = (b, c)" using ValidateMessage_state [of env h c] by (cases v) blast
    show ?thesis
    proof (cases b)
      case True
      show ?thesis using HandleMessage_validated [of env h c] Cons.prems Inr v True Cons.IH
        by (fastforce split: sum.splits prod.splits)
    next
      case False
      then show ?thesis using Inr v Cons.prems Cons.IH [of c "rejected @ [h]"] by (auto split: sum.splits)
    qed
  qed
qed simp


lemma length_messages_in_order:
  assumes "\<And>js. length (sort_joins env js) = length js"
  shows "length (messages_in_order env types messages) \<le> length messages"
proof -
  let ?known = "filter (\<lambda>h. VectorContainsEntry types (msg_type env h)) messages"
  have "length (messages_in_order env types messages) = length ?known"
    using sum_length_filter_compl [of "\<lambda>h. msg_type env h = ''join''" ?known] by (simp add: messages_in_order_def Let_def assms)
  then show ?thesis by simp
qed

text \<open>
  C4. Handling a list of messages keeps the registry of relays well formed (its maps ordered, the relays numbered without a
  gap up to the latest number, their join hashes in step, no more relays than are remembered), whatever the messages are.
  The call reports success exactly when no message was added to the rejected ones, and it never fails because of
  relays added in the wrong order or a missing relay: the only exceptions are data missing from the database and a trade secret
  position beyond the list of relays.
\<close>

theorem handle_messages_keep_registry:
  assumes "relay_ok (env_params env) (state c)" and "unat (latest_relay_number (state c)) + length messages < 999999999"
    and sort: "\<And>js. length (sort_joins env js) = length js"
  shows "case HandleMessages env messages rejected c of
      Inl e \<Rightarrow> e = OutOfRange \<or> e = MissingDataException
    | Inr (ok, rejected', c') \<Rightarrow> relay_ok (env_params env) (state c') \<and> prefix rejected rejected' \<and> (ok \<longleftrightarrow> rejected' = rejected)"
proof -
  let ?hs = "messages_in_order env (message_types c) messages"
  have "unat (latest_relay_number (state c)) + length ?hs < 999999999"
    using length_messages_in_order [of env "message_types c" messages, OF sort] assms(2) by simp
  from handle_loop_keeps [OF assms(1) this, of rejected] show ?thesis
    by (auto simp: HandleMessages_def split: sum.splits)
qed

definition example_env :: "int relay_env" where
  "example_env = \<lparr>env_params = test_params, env_production = False, env_PointOf = (\<lambda>n. - n),
     has_property = (\<lambda>h p. True), msg_type = (\<lambda>h. if h < 10 then ''join'' else ''succession''),
     get_join = (\<lambda>h p. \<lparr>relay_number = ucast h, relay_pubkey = 100 + uint h, preceding_relay_join_hash = 0, join_VerificationKey = 0\<rparr>),
     get_leave = (\<lambda>h p. \<lparr>relay_leaving = 101, successor = 102\<rparr>),
     get_successor = (\<lambda>h p. \<lparr>credit_hash = 0, successor_join_hash = 2\<rparr>),
     get_succession = (\<lambda>h p. \<lparr>dead_relay_join_hash = 1, succession_successor_join_hash = 2, executor = 103\<rparr>),
     get_future_complaint = (\<lambda>h p. \<lparr>future_successor_msg_hash = 0\<rparr>), get_refutation = (\<lambda>h p. \<lparr>complaint_hash = 0\<rparr>),
     get_trader_complaint = (\<lambda>h p. \<lparr>trader_message_hash = (if p = ''trader_complaint'' then 1 else 0)\<rparr>),
     get_relay_complaint = (\<lambda>h p. \<lparr>relay_message_hash = 0, position = 0\<rparr>),
     get_secret = (\<lambda>h p. \<lparr>accept_commit_hash = h, secret_position = 0\<rparr>), order_commit_hash = (\<lambda>h p. h),
     secret_relays = (\<lambda>h p. [100 + uint h]), no_secret_relays = [], credit_key = (\<lambda>h. 101), accepted_join = (\<lambda>h. 1),
     VerifySignature_trader_complaint = (\<lambda>c. True), Validate_trader_refutation = (\<lambda>r. True),
     sort_joins = id, join_GetHash160 = (\<lambda>j. ucast (relay_number j)), full_hashes = (\<lambda>h. None)\<rparr>"

theorem handle_messages_keep_registry_witness:
  "case HandleMessages example_env [1, 2] [] (RelayStateChain_new RelayState_new (\<lambda>p. {})) of
      Inl e \<Rightarrow> e = OutOfRange \<or> e = MissingDataException
    | Inr (ok, rejected', c') \<Rightarrow> relay_ok test_params (state c') \<and> (ok \<longleftrightarrow> rejected' = [])"
proof -
  define c where "c = RelayStateChain_new (RelayState_new :: int relay_state) (\<lambda>p. {})"
  have env: "env_params example_env = test_params" "length (sort_joins example_env js) = length js" for js
    by (simp_all add: example_env_def)
  have c: "relay_ok test_params (state c)" "unat (latest_relay_number (state c)) = 0"
    by (simp_all add: c_def RelayStateChain_new_def) (simp add: RelayState_new_def)
  from handle_messages_keep_registry [of example_env c "[1, 2]" "[]"] env c show ?thesis
    unfolding c_def [symmetric] by (auto split: sum.splits)
qed


section \<open>Successions\<close>

lemma RelaysRequired_executors [simp]: "RelaysRequired production NUM_EXECUTORS = 5"
  by (simp add: RelaysRequired_def NUM_EXECUTORS_def)

abbreviation succession_of :: "'p relay_env \<Rightarrow> uint160 \<Rightarrow> 'p succession" where
  "succession_of env h \<equiv> get_succession env h ''succession''"

text \<open>What the chain knows about the succession of one relay: the messages counted, those stored, and whether it is dead.\<close>

definition recorded :: "'p relay_chain \<Rightarrow> 'p \<Rightarrow> uint160 set" where
  "recorded c p = (case map_of (subthreshold_succession_msgs (state c)) p of None \<Rightarrow> {} | Some m \<Rightarrow> m)"

lemma recorded_std_get: "fst (std_get {} p (subthreshold_succession_msgs (state c))) = recorded c p"
  by (simp add: recorded_def std_get_def split: option.split)

lemma map_of_std_get: "std_ok m \<Longrightarrow> std_ok (snd (std_get d k m)) \<and> map_of (std_put k v (snd (std_get d k m))) k = Some v"
  by (simp add: std_get_ok map_of_std_put)

lemma HandleSuccession_recorded:
  assumes "relay_ok params (state c)" and "Deceased env (succession_of env h) = p"
  shows "recorded (HandleSuccession env h c) p = insert h (recorded c p)"
    and "succession_msgs (HandleSuccession env h c) p = insert h (recorded c p)"
    and "std_count p (actual_successions (state (HandleSuccession env h c)))
      \<longleftrightarrow> std_count p (actual_successions (state c)) \<or> 5 \<le> card (insert h (recorded c p))"
proof -
  define m where "m = snd (std_get {} p (subthreshold_succession_msgs (state c)))"
  have m: "map_of (std_put p v m) p = Some v" for v
    using map_of_std_get [OF relay_ok_maps(3) [OF assms(1)], of "{}" p v] by (simp add: m_def)
  note defs = HandleSuccession_def Let_def case_prod_beta recorded_std_get m_def [symmetric] assms(2)
  show "recorded (HandleSuccession env h c) p = insert h (recorded c p)"
    unfolding recorded_def [of "HandleSuccession env h c"] by (simp add: defs m)
  show "succession_msgs (HandleSuccession env h c) p = insert h (recorded c p)" by (simp add: defs)
  show "std_count p (actual_successions (state (HandleSuccession env h c)))
      \<longleftrightarrow> std_count p (actual_successions (state c)) \<or> 5 \<le> card (insert h (recorded c p))"
    by (simp add: defs std_count_def)
qed

lemma HandleSuccession_fold:
  assumes "relay_ok params (state c)" and "\<forall>h \<in> set hs. Deceased env (succession_of env h) = p" and "finite (recorded c p)"
  defines "c' \<equiv> fold (HandleSuccession env) hs c"
  shows "relay_ok params (state c') \<and> recorded c' p = recorded c p \<union> set hs
    \<and> (hs \<noteq> [] \<longrightarrow> succession_msgs c' p = recorded c p \<union> set hs)
    \<and> (std_count p (actual_successions (state c')) \<longleftrightarrow>
        std_count p (actual_successions (state c)) \<or> hs \<noteq> [] \<and> 5 \<le> card (recorded c p \<union> set hs))"
  unfolding c'_def using assms(1-3)
proof (induction hs rule: rev_induct)
  case (snoc h hs)
  let ?d = "fold (HandleSuccession env) hs c"
  have IH: "relay_ok params (state ?d)" "recorded ?d p = recorded c p \<union> set hs"
    "std_count p (actual_successions (state ?d)) \<longleftrightarrow> std_count p (actual_successions (state c)) \<or> hs \<noteq> [] \<and> 5 \<le> card (recorded c p \<union> set hs)"
    using snoc by simp_all
  note step = HandleSuccession_recorded [OF IH(1), of env h p] relay_ok_HandleSuccession(1) [OF IH(1), of env h]
  have "card (recorded c p \<union> set hs) \<le> card (recorded c p \<union> set (hs @ [h]))"
    using snoc.prems(3) by (intro card_mono) auto
  then show ?case using step IH snoc.prems(2) by (auto simp: insert_commute)
qed simp

text \<open>
  C16. A relay is declared dead exactly when five executors have said so: from a state without any record of a relay's
  succession, handling any distinct succession messages about it counts exactly those messages, stores them, and the relay's
  succession takes place if and only if there are at least five of them, whatever the build.
\<close>

theorem succession_needs_five:
  assumes "relay_ok params (state c)" and "\<forall>h \<in> set hs. Deceased env (succession_of env h) = p"
    and "recorded c p = {}" and "\<not> std_count p (actual_successions (state c))" and "distinct hs"
  shows "recorded (fold (HandleSuccession env) hs c) p = set hs
    \<and> (std_count p (actual_successions (state (fold (HandleSuccession env) hs c))) \<longleftrightarrow> 5 \<le> length hs)"
  using HandleSuccession_fold [OF assms(1,2)] assms(3-5) by (auto simp: distinct_card)


definition fresh_chain :: "int relay_chain" where
  "fresh_chain = RelayStateChain_new RelayState_new (\<lambda>p. {})"

lemma fresh_chain_ok [simp]:
  "relay_ok params (state fresh_chain)" "recorded fresh_chain p = {}" "\<not> std_count p (actual_successions (state fresh_chain))"
  by (simp_all add: fresh_chain_def RelayStateChain_new_def recorded_def) (simp_all add: RelayState_new_def std_count_def)

lemma Deceased_example [simp]: "Deceased example_env (get_succession example_env h q) = 101"
  by (simp add: Deceased_def example_env_def)

theorem succession_needs_five_witness:
  "std_count 101 (actual_successions (state (fold (HandleSuccession example_env) [11, 12, 13, 14, 15] fresh_chain)))
    \<and> \<not> std_count 101 (actual_successions (state (fold (HandleSuccession example_env) [11, 12, 13, 14] fresh_chain)))"
  using succession_needs_five [of test_params fresh_chain "[11, 12, 13, 14, 15]" example_env 101]
    succession_needs_five [of test_params fresh_chain "[11, 12, 13, 14]" example_env 101]
  by simp

lemma UnHandleSuccession_recorded:
  assumes "relay_ok params (state c)" and "Deceased env (succession_of env h) = p" and "finite (succession_msgs c p)"
  defines "few \<equiv> card (succession_msgs c p - {h}) < 5"
  shows "recorded (UnHandleSuccession env h c) p = (if few then succession_msgs c p - {h} else recorded c p - {h})"
    and "succession_msgs (UnHandleSuccession env h c) = succession_msgs c"
    and "std_count p (actual_successions (state (UnHandleSuccession env h c))) \<longleftrightarrow> \<not> few \<and> std_count p (actual_successions (state c))"
    and "relay_ok params (state (UnHandleSuccession env h c))"
proof -
  have few: "length (EraseEntryFromVector h (sorted_list_of_set (succession_msgs c p))) < 5 \<longleftrightarrow> few"
    using assms(3) by (simp add: few_def EraseEntryFromVector_eq length_remove1 card_Diff_singleton_if)
  note maps = relay_ok_maps [OF assms(1)]
  define t where "t = (if few then (state c)\<lparr>actual_successions := std_erase p (actual_successions (state c)),
    subthreshold_succession_msgs := std_put p (succession_msgs c p) (subthreshold_succession_msgs (state c))\<rparr> else state c)"
  define m where "m = snd (std_get {} p (subthreshold_succession_msgs t))"
  have t_ok: "relay_ok params t" using assms(1) maps by (simp add: t_def relay_ok_intros)
  have m_ok: "std_ok m" using std_get_ok [OF relay_ok_maps(3) [OF t_ok], of "{}" p] by (simp add: m_def)
  have present: "fst (std_get {} p (subthreshold_succession_msgs t)) = (if few then succession_msgs c p else recorded c p)"
    using maps by (simp add: t_def recorded_def std_get_def map_of_std_put split: option.split)
  have eq: "UnHandleSuccession env h c = c\<lparr>state := t\<lparr>subthreshold_succession_msgs :=
      std_put p ((if few then succession_msgs c p else recorded c p) - {h}) m\<rparr>\<rparr>"
    using few present by (cases few) (simp_all add: UnHandleSuccession_def Let_def case_prod_beta assms(2) t_def m_def)
  show "recorded (UnHandleSuccession env h c) p = (if few then succession_msgs c p - {h} else recorded c p - {h})"
    by (cases few) (simp_all add: eq recorded_def [of "c\<lparr>state := _\<rparr>"] map_of_std_put m_ok)
  show "succession_msgs (UnHandleSuccession env h c) = succession_msgs c" by (simp add: eq)
  show "std_count p (actual_successions (state (UnHandleSuccession env h c))) \<longleftrightarrow> \<not> few \<and> std_count p (actual_successions (state c))"
    by (auto simp: eq t_def std_count_def)
  show "relay_ok params (state (UnHandleSuccession env h c))" using t_ok m_ok by (simp add: eq relay_ok_intros)
qed

text \<open>
  Taking back one succession message is exact: after distinct succession messages about a relay, taking back any one of
  them leaves exactly the others counted, and the relay dead if and only if at least five others remain.
\<close>

theorem succession_undo_one:
  assumes "relay_ok params (state c)" and "\<forall>h \<in> set hs. Deceased env (succession_of env h) = p"
    and "recorded c p = {}" and "\<not> std_count p (actual_successions (state c))" and "distinct hs" and "h \<in> set hs"
  shows "recorded (UnHandleSuccession env h (fold (HandleSuccession env) hs c)) p = set hs - {h}
    \<and> (std_count p (actual_successions (state (UnHandleSuccession env h (fold (HandleSuccession env) hs c)))) \<longleftrightarrow> 5 \<le> length hs - 1)"
proof -
  let ?c = "fold (HandleSuccession env) hs c"
  have fold: "relay_ok params (state ?c)" "recorded ?c p = set hs" "succession_msgs ?c p = set hs"
      "std_count p (actual_successions (state ?c)) \<longleftrightarrow> 5 \<le> length hs"
    using HandleSuccession_fold [OF assms(1,2)] assms(3-6) by (auto simp: distinct_card)
  have "card (set hs - {h}) = length hs - 1" using assms(5,6) by (simp add: distinct_card card_Diff_singleton)
  moreover have "Deceased env (succession_of env h) = p" using assms(2,6) by blast
  ultimately show ?thesis using UnHandleSuccession_recorded [OF fold(1), of env h p] fold(2-4) by auto
qed

theorem succession_undo_one_witness:
  "\<not> std_count 101 (actual_successions (state (UnHandleSuccession example_env 12 (fold (HandleSuccession example_env) [11, 12, 13, 14, 15] fresh_chain))))"
  using succession_undo_one [of test_params fresh_chain "[11, 12, 13, 14, 15]" example_env 101 12] by simp

text \<open>
  Taking back a second message goes wrong.  The stored set is not updated by \<^verbatim>\<open>UnHandleSuccession\<close>, so after six messages and two
  of them taken back, four remain counted and the relay is still dead.
\<close>

lemma succession_undo_two_stale:
  assumes "relay_ok params (state c)" and "\<forall>h \<in> set hs. Deceased env (succession_of env h) = p"
    and "recorded c p = {}" and "distinct hs" and "length hs = 6" and "g \<in> set hs" and "h \<in> set hs" and "g \<noteq> h"
  defines "d \<equiv> UnHandleSuccession env h (UnHandleSuccession env g (fold (HandleSuccession env) hs c))"
  shows "card (recorded d p) = 4 \<and> std_count p (actual_successions (state d))"
proof -
  let ?c = "fold (HandleSuccession env) hs c"
  have fold: "relay_ok params (state ?c)" "recorded ?c p = set hs" "succession_msgs ?c p = set hs" "std_count p (actual_successions (state ?c))"
    using HandleSuccession_fold [OF assms(1,2)] assms(3-6) by (auto simp: distinct_card)
  have card: "card (set hs - {x}) = 5" if "x \<in> set hs" for x using that assms(4,5) by (simp add: distinct_card card_Diff_singleton)
  have dead: "Deceased env (succession_of env g) = p" "Deceased env (succession_of env h) = p" using assms(2,6,7) by auto
  note one = UnHandleSuccession_recorded [OF fold(1) dead(1)]
  note two = UnHandleSuccession_recorded [OF one(4) dead(2)]
  have "card (set hs - {g} - {h}) = 4" using card [OF assms(6)] assms(7,8) by (simp add: card_Diff_singleton)
  then show ?thesis using one two fold card assms(6,7) by (simp add: d_def)
qed


section \<open>Joining and its inverse\<close>

text \<open>A point that no entry of the state mentions.\<close>

definition unmentioned :: "'p relay_state \<Rightarrow> 'p \<Rightarrow> bool" where
  "unmentioned s r \<longleftrightarrow> \<not> std_count r (relays s) \<and> \<not> std_count r (line_of_succession s) \<and> r \<notin> snd ` set (line_of_succession s)
     \<and> \<not> std_count r (actual_successions s) \<and> \<not> std_count r (subthreshold_succession_msgs s) \<and> \<not> std_count r (disqualifications s)"

lemma RemoveRelay_added:
  assumes ok: "relay_ok p s" and r: "unmentioned s r" and h: "\<not> std_count h (join_hash_to_relay s)"
    and t: "t = s\<lparr>latest_relay_number := latest_relay_number s + 1, relays := std_put r n (relays s),
      join_hash_to_relay := std_put h r (join_hash_to_relay s), line_of_succession := l\<rparr>"
    and l: "l = line_of_succession s \<or> l = std_put r q (line_of_succession s)"
  shows "RemoveRelay r True t = Inr s"
proof -
  have cnt: "std_count r (relays t)" by (simp add: t std_count_def)
  obtain u where u: "RemoveRelay r True t = Inr u" using RemoveRelay_ok [OF cnt] .
  note f = RemoveRelay_fields [OF cnt u]
  have "r \<notin> snd ` set (join_hash_to_relay s)" using ok r by (auto simp: relay_ok_def unmentioned_def std_count_def)
  then have jh: "GetJoinHash r t = h" using ok h
    by (intro GetJoinHash_unique) (simp_all add: t relay_ok_def set_std_put values_std_put)
  have line: "std_erase r l = line_of_succession s" using l r ok by (auto simp: unmentioned_def relay_ok_def std_erase_put std_erase_id)
  have none: "(a, r) \<notin> set (line_of_succession s)" for a using r by (force simp: unmentioned_def)
  have "filter (\<lambda>e. fst e \<noteq> r \<and> (fst e, r) \<notin> set l) l = std_erase r l"
  proof -
    have "(fst e, r) \<notin> set l" if "fst e \<noteq> r" for e 
    proof
      assume "(fst e, r) \<in> set l"
      then have "(fst e, r) \<in> set (std_erase r l)" using that by (simp add: set_std_erase)
      then show False using none line by simp
    qed
    then show ?thesis unfolding std_erase_def by (intro filter_cong) auto
  qed
  then have lu: "line_of_succession u = line_of_succession s" using f(6) line by (simp add: t)
  have "actual_successions u = std_erase r (actual_successions s)"
    using f(7) none line unfolding std_erase_def by (simp add: t)
  then have au: "actual_successions u = actual_successions s" using r by (simp add: unmentioned_def std_erase_id)
  have "u = s"
    using f lu au jh r ok h by (intro relay_state.equality)
      (simp_all add: t unmentioned_def relay_ok_def std_erase_put std_erase_id)
  then show ?thesis using u by simp
qed

text \<open>
  C33. Taking back a join restores the chain.  For a join message that was validated and not handled before, of a relay that the maps of the
  state do not mention, while fewer than \<^verbatim>\<open>MAX_RELAYS_REMEMBERED\<close> relays are registered, so that the join makes the state forget no
  relay, and while the point of its relay number is not one of them, \<^verbatim>\<open>UnHandleMessage\<close> after \<^verbatim>\<open>HandleMessage\<close> gives back the chain as it was, every map included.
\<close>

theorem join_undo:
  assumes "relay_ok (env_params env) (state c)" and "msg_type env h = ''join''" and "ValidateMessage env h c = Inr (True, c)"
    and "unmentioned (state c) (relay_pubkey (get_join env h ''join''))" and "h \<notin> handled_messages c"
    and "length (relays (state c)) < MAX_RELAYS_REMEMBERED (env_params env)"
    and "\<not> std_count (env_PointOf env (uint (relay_number (get_join env h ''join'')))) (relays (state c))"
  shows "\<exists>c'. HandleMessage env h c = Inr c' \<and> h \<in> handled_messages c' \<and> std_count (relay_pubkey (get_join env h ''join'')) (relays (state c'))
    \<and> UnHandleMessage env h c' = Inr c"
proof -
  let ?s = "state c" and ?msg = "get_join env h ''join''"
  let ?r = "relay_pubkey ?msg" and ?n = "latest_relay_number (state c) + 1"
  let ?l = "if 0 < preceding_relay_join_hash ?msg
    then std_put ?r (relay_pubkey (get_join env (preceding_relay_join_hash ?msg) ''join'')) (line_of_succession ?s) else line_of_succession ?s"
  define t where "t = ?s\<lparr>latest_relay_number := ?n, relays := std_put ?r ?n (relays ?s),
      join_hash_to_relay := std_put h ?r (join_hash_to_relay ?s), line_of_succession := ?l\<rparr>"
  have v: "has_property env h ''join''" "relay_number ?msg = 1 + latest_relay_number ?s" "\<not> std_count ?r (relays ?s)"
    "\<not> std_count h (join_hash_to_relay ?s)"
    using assms(2,3) by (auto simp: ValidateMessage_def ValidateJoin_def Let_def split: if_splits)
  have "length (std_put ?r ?n (relays ?s)) \<le> MAX_RELAYS_REMEMBERED (env_params env)"
    using assms(1,6) v(3) by (simp add: length_std_put relay_ok_def)
  then have join: "HandleJoin env h c = Inr (c\<lparr>state := t\<rparr>)"
    using v assms(7) by (auto simp: HandleJoin_def AddRelay_def TrimRelays.simps std_count_map_of Let_def t_def)
  moreover have "RemoveRelay ?r True t = Inr ?s"
    using RemoveRelay_added [OF assms(1,4) v(4) t_def] by (cases "0 < preceding_relay_join_hash ?msg") auto
  ultimately show ?thesis using assms(2,5)
    by (simp add: HandleMessage_def UnHandleMessage_def UnHandleJoin_def) (simp add: t_def std_count_def)
qed


theorem join_undo_witness:
  "\<exists>c'. HandleMessage example_env 1 fresh_chain = Inr c' \<and> 1 \<in> handled_messages c' \<and> std_count 101 (relays (state c'))
    \<and> UnHandleMessage example_env 1 c' = Inr fresh_chain"
proof -
  have env: "env_params example_env = test_params" "msg_type example_env 1 = ''join''" "has_property example_env 1 ''join''"
    "relay_number (get_join example_env 1 ''join'') = 1" "relay_pubkey (get_join example_env 1 ''join'') = 101"
    by (simp_all add: example_env_def)
  have empty: "relays (state fresh_chain) = []" "join_hash_to_relay (state fresh_chain) = []" "latest_relay_number (state fresh_chain) = 0"
    "unmentioned (state fresh_chain) r" "handled_messages fresh_chain = {}" for r
    by (simp_all add: fresh_chain_def RelayStateChain_new_def RelayState_new_def unmentioned_def std_count_def)
  have "ValidateMessage example_env 1 fresh_chain = Inr (True, fresh_chain)"
    by (simp add: ValidateMessage_def ValidateJoin_def env empty std_count_def)
  from join_undo [OF _ env(2) this] show ?thesis by (simp add: env empty std_count_def test_params_def)
qed

section \<open>Complaints that are never undone\<close>

text \<open>
  The list of types that \<^verbatim>\<open>SetMessages\<close> builds has \<^verbatim>\<open>complaint_refutation\<close>, a type that no handler knows, and not the two types of
  refutations that \<^verbatim>\<open>HandleMessage\<close> handles: a list of refutations is accepted and has no effect.
\<close>

lemma refutations_ignored:
  assumes "\<forall>h \<in> set messages. msg_type env h = ''trader_complaint_refutation'' \<or> msg_type env h = ''relay_complaint_refutation''"
    and "message_types c = SetMessages" and "sort_joins env [] = []"
  shows "HandleMessages env messages rejected c = Inr (True, rejected, c)"
proof -
  have "filter (\<lambda>h. VectorContainsEntry SetMessages (msg_type env h)) messages = []"
    using assms(1) by (auto simp: filter_empty_conv SetMessages_def)
  then have "messages_in_order env (message_types c) messages = []" using assms(2,3) by (simp add: messages_in_order_def)
  then show ?thesis by (simp add: HandleMessages_def)
qed

text \<open>
  \<^verbatim>\<open>UnHandleTraderComplaint\<close> looks the complaint up under the name \<^verbatim>\<open>complaint\<close>, under which it is not stored: unless the object
  found there happens to lead to the same relay, the relay stays disqualified.
\<close>

lemma trader_complaint_not_undone:
  assumes "std_ok (disqualifications (state c))"
    and "TradeSecret_VerificationKey env (get_secret env (trader_message_hash (get_trader_complaint env h ''trader_complaint'')) ''secret'') = Inr r"
    and "TradeSecret_VerificationKey env (get_secret env (trader_message_hash (get_trader_complaint env h ''complaint'')) ''secret'') = Inr q"
    and "q \<noteq> r"
  shows "\<exists>c' c''. HandleTraderComplaint env h c = Inr c' \<and> UnHandleTraderComplaint env h c' = Inr c''
    \<and> \<not> eligible (state c'') r"
proof -
  let ?c = "on_state (AddDisqualification r h) c"
  have "std_count r (disqualifications (AddDisqualification r h (state c)))" by (simp add: AddDisqualification_def Let_def std_count_def)
  then have "std_count r (disqualifications (RemoveDisqualification q h (AddDisqualification r h (state c))))"
    using assms(4) by (auto simp: RemoveDisqualification_def std_count_def split: option.split)
  then show ?thesis using assms(2,3) by (simp add: HandleTraderComplaint_def UnHandleTraderComplaint_def eligible_def)
qed


section \<open>States of past batches\<close>

text \<open>
  What \<^verbatim>\<open>creditdata\<close>, \<^verbatim>\<open>calendardata\<close> and \<^verbatim>\<open>relaydata\<close> say about a batch: the fields of its mined credit, whether it is a calend,
  and the relay state recorded for it.
\<close>

record 'p credit_db =
  previous_mined_credit_hash :: "uint160 \<Rightarrow> uint160"
  relay_state_hash :: "uint160 \<Rightarrow> uint160"
  is_calend :: "uint160 \<Rightarrow> bool"
  recorded_state :: "uint160 \<Rightarrow> 'p relay_state option"

partial_function (option) diurn_loop :: "'p credit_db \<Rightarrow> uint160 \<Rightarrow> uint160 \<Rightarrow> bool option" where
  "diurn_loop db batch latest =
     (if \<not> is_calend db latest \<and> latest \<noteq> 0
      then let latest = previous_mined_credit_hash db latest
           in if batch = latest then Some True else diurn_loop db batch latest
      else Some False)"

definition BatchIsInDiurn :: "'p credit_db \<Rightarrow> uint160 \<Rightarrow> uint160 \<Rightarrow> bool option" where
  "BatchIsInDiurn db batch latest =
     (if batch = latest then Some True
      else if previous_mined_credit_hash db batch = latest then Some True
      else diurn_loop db batch latest)"

definition RecordRelayState :: "'p relay_state \<Rightarrow> uint160 \<Rightarrow> 'p credit_db \<Rightarrow> 'p credit_db" where
  "RecordRelayState s batch db = db\<lparr>recorded_state := (recorded_state db)(batch \<mapsto> s)\<rparr>"

text \<open>Back to a batch with a recorded state, or to one without relays; the batches passed, in their order.\<close>

partial_function (option) batches_back :: "'p credit_db \<Rightarrow> uint160 \<Rightarrow> uint160 list \<Rightarrow> (uint160 \<times> uint160 list) option" where
  "batches_back db batch passed =
     (if recorded_state db batch = None \<and> relay_state_hash db batch \<noteq> 0
      then batches_back db (previous_mined_credit_hash db batch) (batch # passed)
      else Some (batch, passed))"

text \<open>The two loops that follow a wrong hash back to the first batch compute nothing, but they have to end.\<close>

partial_function (option) walk_back :: "'p credit_db \<Rightarrow> uint160 \<Rightarrow> unit option" where
  "walk_back db batch = (if batch \<noteq> 0 then walk_back db (previous_mined_credit_hash db batch) else Some ())"

fun handle_batches :: "'p::linorder relay_env \<Rightarrow> uint160 list \<Rightarrow> 'p relay_chain \<Rightarrow> relay_error + 'p relay_chain" where
  "handle_batches env [] c = Inr c"
| "handle_batches env (batch # batches) c = (case HandleBatch env batch c of Inl e \<Rightarrow> Inl e | Inr c \<Rightarrow> handle_batches env batches c)"

definition start_state :: "'p credit_db \<Rightarrow> uint160 \<Rightarrow> relay_error + 'p relay_state" where
  "start_state db batch =
     (case recorded_state db batch of
        Some s \<Rightarrow> Inr (SetLatestCreditHash batch s)
      | None \<Rightarrow> if relay_state_hash db batch \<noteq> 0 then Inl NoKnownRelayStateException else Inr RelayState_new)"

definition replay :: "'p::linorder relay_env \<Rightarrow> 'p credit_db \<Rightarrow> ('p \<Rightarrow> uint160 set) \<Rightarrow> uint160 \<Rightarrow> (relay_error + 'p relay_chain) option" where
  "replay env db msgs batch =
     map_option (\<lambda>(first, batches).
         case start_state db first of
           Inl e \<Rightarrow> Inl e
         | Inr s \<Rightarrow> handle_batches env batches (RelayStateChain_new s msgs))
       (batches_back db batch [])"

definition GetRelayState ::
  "'p::linorder relay_env \<Rightarrow> 'p credit_db \<Rightarrow> (vch_t \<Rightarrow> uint160) \<Rightarrow> ('p relay_state \<Rightarrow> vch_t) \<Rightarrow> ('p \<Rightarrow> uint160 set) \<Rightarrow> uint160
     \<Rightarrow> (relay_error + ('p relay_state \<times> ('p \<Rightarrow> uint160 set))) option" where
  "GetRelayState env db Hash160 serialise msgs batch =
     (case replay env db msgs batch of
        None \<Rightarrow> None
      | Some (Inl e) \<Rightarrow> Some (Inl e)
      | Some (Inr c) \<Rightarrow>
          if RelayState_GetHash160 Hash160 serialise (state c) \<noteq> relay_state_hash db batch
          then (case walk_back db batch of None \<Rightarrow> None | Some u \<Rightarrow> Some (Inr (state c, succession_msgs c)))
          else Some (Inr (state c, succession_msgs c)))"

text \<open>
  \<^verbatim>\<open>ValidateBatch\<close> works on the chain itself and puts the old chain back; what the handlers stored in \<^verbatim>\<open>relaydata\<close> stays.
\<close>

definition ValidateBatch ::
  "'p::linorder relay_env \<Rightarrow> 'p credit_db \<Rightarrow> (vch_t \<Rightarrow> uint160) \<Rightarrow> ('p relay_state \<Rightarrow> vch_t) \<Rightarrow> uint160 \<Rightarrow> 'p relay_chain
     \<Rightarrow> (relay_error + (bool \<times> 'p relay_chain)) option" where
  "ValidateBatch env db Hash160 serialise batch c =
     (case full_hashes env batch of
        None \<Rightarrow> Some (Inl MissingDataException)
      | Some messages \<Rightarrow>
          (case GetRelayState env db Hash160 serialise (succession_msgs c) (previous_mined_credit_hash db batch) of
             None \<Rightarrow> None
           | Some (Inl e) \<Rightarrow> Some (Inl e)
           | Some (Inr (s, msgs)) \<Rightarrow>
               (case HandleMessages env messages [] (RelayStateChain_new s msgs) of
                  Inl e \<Rightarrow> Some (Inl e)
                | Inr (result, rejected, d) \<Rightarrow> Some (Inr (result, c\<lparr>succession_msgs := succession_msgs d\<rparr>)))))"

lemma handle_batches_append:
  "handle_batches env (bs @ [b]) c = (case handle_batches env bs c of Inl e \<Rightarrow> Inl e | Inr d \<Rightarrow> HandleBatch env b d)"
  by (induction env bs c rule: handle_batches.induct) (auto split: sum.split)

text \<open>The walk to a recorded state adds to what was passed before.\<close>

lemma batches_back_passed:
  assumes "batches_back db batch passed = Some r"
  shows "\<exists>more. snd r = more @ passed \<and> (\<forall>p. batches_back db batch p = Some (fst r, more @ p))"
proof (rule batches_back.raw_induct [OF _ assms], goal_cases)
  case (1 loop db batch passed r)
  show ?case
  proof (cases "recorded_state db batch = None \<and> relay_state_hash db batch \<noteq> 0")
    case True
    then obtain more where more: "snd r = more @ batch # passed"
        "\<forall>p. batches_back db (previous_mined_credit_hash db batch) p = Some (fst r, more @ p)" using 1 by fastforce
    have "batches_back db batch p = Some (fst r, (more @ [batch]) @ p)" for p
      using more(2) True by (subst batches_back.simps) simp
    then show ?thesis using more(1) by (intro exI [of _ "more @ [batch]"]) simp
  next
    case False
    then have "batches_back db batch p = Some (batch, p)" for p by (subst batches_back.simps) auto
    then show ?thesis using 1(2) False by auto
  qed
qed

lemma batches_back_step:
  assumes "recorded_state db batch = None" and "relay_state_hash db batch \<noteq> 0"
  shows "batches_back db batch [] = map_option (\<lambda>(f, bs). (f, bs @ [batch])) (batches_back db (previous_mined_credit_hash db batch) [])"
proof -
  let ?prev = "previous_mined_credit_hash db batch"
  have "batches_back db batch [] = batches_back db ?prev [batch]" using assms by (subst batches_back.simps) simp
  also have "\<dots> = map_option (\<lambda>(f, bs). (f, bs @ [batch])) (batches_back db ?prev [])"
  proof (cases "batches_back db ?prev []")
    case None
    then have "batches_back db ?prev [batch] \<noteq> Some r" for r using batches_back_passed [of db ?prev "[batch]" r] by auto
    then show ?thesis using None by (cases "batches_back db ?prev [batch]") auto
  next
    case (Some r)
    then show ?thesis using batches_back_passed [of db ?prev "[]" r] by (cases r) auto
  qed
  finally show ?thesis .
qed

text \<open>
  The state of a batch is the state of the batch before it with the batch handled: computing a state from the last recorded
  one, as \<^verbatim>\<open>GetRelayState\<close> does, equals one step on from what the same call computes for the previous batch, with the same
  exceptions, and it goes on forever in exactly the same cases.
\<close>

theorem replay_incremental:
  assumes "recorded_state db batch = None" and "relay_state_hash db batch \<noteq> 0"
  shows "replay env db msgs batch =
    map_option (\<lambda>r. case r of Inl e \<Rightarrow> Inl e | Inr c \<Rightarrow> HandleBatch env batch c) (replay env db msgs (previous_mined_credit_hash db batch))"
  unfolding replay_def batches_back_step [OF assms]
  by (cases "batches_back db (previous_mined_credit_hash db batch) []") (auto simp: handle_batches_append split: sum.split)

definition example_credits :: "int credit_db" where
  "example_credits = \<lparr>previous_mined_credit_hash = (\<lambda>h. h - 1), relay_state_hash = (\<lambda>h. h), is_calend = (\<lambda>h. False),
     recorded_state = (\<lambda>h. if h = 1 then Some RelayState_new else None)\<rparr>"

theorem replay_incremental_witness:
  "replay (example_env\<lparr>full_hashes := \<lambda>h. Some []\<rparr>) example_credits (\<lambda>p. {}) 2 =
     map_option (\<lambda>r. case r of Inl e \<Rightarrow> Inl e | Inr c \<Rightarrow> HandleBatch (example_env\<lparr>full_hashes := \<lambda>h. Some []\<rparr>) 2 c)
       (replay (example_env\<lparr>full_hashes := \<lambda>h. Some []\<rparr>) example_credits (\<lambda>p. {}) 1)"
  using replay_incremental [of example_credits 2] by (simp add: example_credits_def)

end
