(* ===== verification/NetAddr.thy ===== *)
theory NetAddr
  imports TextCodecs
begin

text \<open>
  Network addresses: \<^verbatim>\<open>CNetAddr\<close> and \<^verbatim>\<open>CService\<close> of \<^verbatim>\<open>src/net/netbase.cpp\<close>.  An address is its sixteen bytes in
  network order, IPv4 in the mapped range.  The classification into ranges, the network and the group of an address, the
  metric of reachability, the onion names and the splitting of a host and a port are modelled.  Resolving names and sockets
  is not; \<^verbatim>\<open>getnameinfo\<close> is an argument of the text form.
\<close>

type_synonym net_addr = "u8 list"

definition addr_ok :: "net_addr \<Rightarrow> bool" where
  "addr_ok ip \<longleftrightarrow> length ip = 16"

definition pchIPv4 :: vch_t where
  "pchIPv4 = [0, 0, 0, 0, 0, 0, 0, 0, 0, 0, 255, 255]"

definition pchOnionCat :: vch_t where
  "pchOnionCat = [0xFD, 0x87, 0xD8, 0x7E, 0xEB, 0x43]"

definition CNetAddr_new :: net_addr where
  "CNetAddr_new = replicate 16 0"

definition CNetAddr_of_in_addr :: "vch_t \<Rightarrow> net_addr" where
  "CNetAddr_of_in_addr ipv4Addr = pchIPv4 @ ipv4Addr"

section \<open>Ranges\<close>

definition GetByte :: "nat \<Rightarrow> net_addr \<Rightarrow> u8" where
  "GetByte n ip = ip ! (15 - n)"

text \<open>\<^verbatim>\<open>memcmp(ip, bytes, sizeof(bytes)) == 0\<close>\<close>

definition starts_with :: "vch_t \<Rightarrow> net_addr \<Rightarrow> bool" where
  "starts_with bytes ip \<longleftrightarrow> take (length bytes) ip = bytes"

definition IsIPv4 :: "net_addr \<Rightarrow> bool" where
  "IsIPv4 ip = starts_with pchIPv4 ip"

definition IsTor :: "net_addr \<Rightarrow> bool" where
  "IsTor ip = starts_with pchOnionCat ip"

definition IsIPv6 :: "net_addr \<Rightarrow> bool" where
  "IsIPv6 ip \<longleftrightarrow> \<not> IsIPv4 ip \<and> \<not> IsTor ip"

definition IsRFC1918 :: "net_addr \<Rightarrow> bool" where
  "IsRFC1918 ip \<longleftrightarrow> IsIPv4 ip \<and> (GetByte 3 ip = 10 \<or> (GetByte 3 ip = 192 \<and> GetByte 2 ip = 168)
     \<or> (GetByte 3 ip = 172 \<and> (16 \<le> GetByte 2 ip \<and> GetByte 2 ip \<le> 31)))"

definition IsRFC3927 :: "net_addr \<Rightarrow> bool" where
  "IsRFC3927 ip \<longleftrightarrow> IsIPv4 ip \<and> (GetByte 3 ip = 169 \<and> GetByte 2 ip = 254)"

definition IsRFC3849 :: "net_addr \<Rightarrow> bool" where
  "IsRFC3849 ip \<longleftrightarrow> GetByte 15 ip = 0x20 \<and> GetByte 14 ip = 0x01 \<and> GetByte 13 ip = 0x0D \<and> GetByte 12 ip = 0xB8"

definition IsRFC3964 :: "net_addr \<Rightarrow> bool" where
  "IsRFC3964 ip \<longleftrightarrow> GetByte 15 ip = 0x20 \<and> GetByte 14 ip = 0x02"

definition IsRFC6052 :: "net_addr \<Rightarrow> bool" where
  "IsRFC6052 ip = starts_with [0, 0x64, 0xFF, 0x9B, 0, 0, 0, 0, 0, 0, 0, 0] ip"

definition IsRFC4380 :: "net_addr \<Rightarrow> bool" where
  "IsRFC4380 ip \<longleftrightarrow> GetByte 15 ip = 0x20 \<and> GetByte 14 ip = 0x01 \<and> GetByte 13 ip = 0 \<and> GetByte 12 ip = 0"

definition IsRFC4862 :: "net_addr \<Rightarrow> bool" where
  "IsRFC4862 ip = starts_with [0xFE, 0x80, 0, 0, 0, 0, 0, 0] ip"

definition IsRFC4193 :: "net_addr \<Rightarrow> bool" where
  "IsRFC4193 ip \<longleftrightarrow> GetByte 15 ip AND 0xFE = 0xFC"

definition IsRFC6145 :: "net_addr \<Rightarrow> bool" where
  "IsRFC6145 ip = starts_with [0, 0, 0, 0, 0, 0, 0, 0, 0xFF, 0xFF, 0, 0] ip"

definition IsRFC4843 :: "net_addr \<Rightarrow> bool" where
  "IsRFC4843 ip \<longleftrightarrow> GetByte 15 ip = 0x20 \<and> GetByte 14 ip = 0x01 \<and> GetByte 13 ip = 0x00 \<and> GetByte 12 ip AND 0xF0 = 0x10"

definition IsLocal :: "net_addr \<Rightarrow> bool" where
  "IsLocal ip =
     (if IsIPv4 ip \<and> (GetByte 3 ip = 127 \<or> GetByte 3 ip = 0) then True
      else if starts_with [0, 0, 0, 0, 0, 0, 0, 0, 0, 0, 0, 0, 0, 0, 0, 1] ip then True
      else False)"

definition IsMulticast :: "net_addr \<Rightarrow> bool" where
  "IsMulticast ip \<longleftrightarrow> (IsIPv4 ip \<and> GetByte 3 ip AND 0xF0 = 0xE0) \<or> GetByte 15 ip = 0xFF"

definition IsValid :: "net_addr \<Rightarrow> bool" where
  "IsValid ip =
     (if starts_with (drop 3 pchIPv4) ip then False
      else if starts_with (replicate 16 0) ip then False
      else if IsRFC3849 ip then False
      else if IsIPv4 ip \<and> take 4 (drop 12 ip) = [0xFF, 0xFF, 0xFF, 0xFF] then False
      else if IsIPv4 ip \<and> take 4 (drop 12 ip) = [0, 0, 0, 0] then False
      else True)"

definition IsRoutable :: "net_addr \<Rightarrow> bool" where
  "IsRoutable ip \<longleftrightarrow> IsValid ip \<and> \<not> (IsRFC1918 ip \<or> IsRFC3927 ip \<or> IsRFC4862 ip \<or> (IsRFC4193 ip \<and> \<not> IsTor ip) \<or> IsRFC4843 ip \<or> IsLocal ip)"

datatype network_type = NET_UNROUTABLE | NET_IPV4 | NET_IPV6 | NET_TOR

text \<open>The number of the enumeration constant.\<close>

primrec net_code :: "network_type \<Rightarrow> u8" where
  "net_code NET_UNROUTABLE = 0"
| "net_code NET_IPV4 = 1"
| "net_code NET_IPV6 = 2"
| "net_code NET_TOR = 3"

definition GetNetwork :: "net_addr \<Rightarrow> network_type" where
  "GetNetwork ip =
     (if \<not> IsRoutable ip then NET_UNROUTABLE
      else if IsIPv4 ip then NET_IPV4
      else if IsTor ip then NET_TOR
      else NET_IPV6)"

section \<open>Groups\<close>

fun group_bytes :: "net_addr \<Rightarrow> nat \<Rightarrow> nat \<Rightarrow> vch_t" where
  "group_bytes ip nStartByte nBits =
     (if 8 \<le> nBits then GetByte (15 - nStartByte) ip # group_bytes ip (nStartByte + 1) (nBits - 8)
      else if 0 < nBits then [GetByte (15 - nStartByte) ip OR (push_bit nBits 1 - 1)]
      else [])"

text \<open>The class 255 that \<^verbatim>\<open>GetGroup\<close> first sets for local addresses is overwritten, because they are not routable.\<close>

definition GetGroup :: "net_addr \<Rightarrow> vch_t" where
  "GetGroup ip =
     (if \<not> IsRoutable ip then net_code NET_UNROUTABLE # group_bytes ip 0 0
      else if IsIPv4 ip \<or> IsRFC6145 ip \<or> IsRFC6052 ip then net_code NET_IPV4 # group_bytes ip 12 16
      else if IsRFC3964 ip then net_code NET_IPV4 # group_bytes ip 2 16
      else if IsRFC4380 ip then [net_code NET_IPV4, GetByte 3 ip XOR 0xFF, GetByte 2 ip XOR 0xFF]
      else if IsTor ip then net_code NET_TOR # group_bytes ip 6 4
      else if GetByte 15 ip = 0x20 \<and> GetByte 14 ip = 0x01 \<and> GetByte 13 ip = 0x04 \<and> GetByte 12 ip = 0x70
           then net_code NET_IPV6 # group_bytes ip 0 36
      else net_code NET_IPV6 # group_bytes ip 0 32)"


section \<open>Reachability\<close>

datatype ext_network = Net network_type | NET_UNKNOWN | NET_TEREDO

datatype reachability = REACH_UNREACHABLE | REACH_DEFAULT | REACH_TEREDO | REACH_IPV6_WEAK | REACH_IPV4 | REACH_IPV6_STRONG | REACH_PRIVATE

definition GetExtNetwork :: "net_addr option \<Rightarrow> ext_network" where
  "GetExtNetwork addr =
     (case addr of
        None \<Rightarrow> NET_UNKNOWN
      | Some ip \<Rightarrow> if IsRFC4380 ip then NET_TEREDO else Net (GetNetwork ip))"

definition GetReachabilityFrom :: "net_addr option \<Rightarrow> net_addr \<Rightarrow> reachability" where
  "GetReachabilityFrom partner ip =
     (if \<not> IsRoutable ip then REACH_UNREACHABLE
      else let ourNet = GetExtNetwork (Some ip); theirNet = GetExtNetwork partner;
               fTunnel = (IsRFC3964 ip \<or> IsRFC6052 ip \<or> IsRFC6145 ip)
           in case theirNet of
                Net NET_IPV4 \<Rightarrow> (case ourNet of Net NET_IPV4 \<Rightarrow> REACH_IPV4 | _ \<Rightarrow> REACH_DEFAULT)
              | Net NET_IPV6 \<Rightarrow>
                  (case ourNet of NET_TEREDO \<Rightarrow> REACH_TEREDO | Net NET_IPV4 \<Rightarrow> REACH_IPV4
                   | Net NET_IPV6 \<Rightarrow> (if fTunnel then REACH_IPV6_WEAK else REACH_IPV6_STRONG) | _ \<Rightarrow> REACH_DEFAULT)
              | Net NET_TOR \<Rightarrow> (case ourNet of Net NET_IPV4 \<Rightarrow> REACH_IPV4 | Net NET_TOR \<Rightarrow> REACH_PRIVATE | _ \<Rightarrow> REACH_DEFAULT)
              | NET_TEREDO \<Rightarrow>
                  (case ourNet of NET_TEREDO \<Rightarrow> REACH_TEREDO | Net NET_IPV6 \<Rightarrow> REACH_IPV6_WEAK | Net NET_IPV4 \<Rightarrow> REACH_IPV4
                   | _ \<Rightarrow> REACH_DEFAULT)
              | _ \<Rightarrow>
                  (case ourNet of NET_TEREDO \<Rightarrow> REACH_TEREDO | Net NET_IPV6 \<Rightarrow> REACH_IPV6_WEAK | Net NET_IPV4 \<Rightarrow> REACH_IPV4
                   | Net NET_TOR \<Rightarrow> REACH_PRIVATE | _ \<Rightarrow> REACH_DEFAULT))"

section \<open>Text\<close>

text \<open>\<^verbatim>\<open>"%u"\<close> and \<^verbatim>\<open>"%x"\<close> of \<^verbatim>\<open>strprintf\<close>.\<close>

definition digit_char :: "nat \<Rightarrow> char" where
  "digit_char d = (if d < 10 then char_of (48 + d) else char_of (87 + d))"

function print_base :: "nat \<Rightarrow> nat \<Rightarrow> string" where
  "print_base b n = (if b < 2 \<or> n < b then [digit_char n] else print_base b (n div b) @ [digit_char (n mod b)])"
  by pat_completeness auto
termination
  by (relation "measure snd") (auto simp: div_less_dividend)

declare print_base.simps [simp del]

definition hex_group :: "nat \<Rightarrow> net_addr \<Rightarrow> string" where
  "hex_group n ip = print_base 16 (256 * unat (GetByte n ip) + unat (GetByte (n - 1) ip))"

definition ToStringIP :: "(net_addr \<Rightarrow> string option) \<Rightarrow> net_addr \<Rightarrow> string" where
  "ToStringIP getnameinfo ip =
     (if IsTor ip then EncodeBase32 (take 10 (drop 6 ip)) @ ''.onion''
      else case getnameinfo ip of
             Some name \<Rightarrow> name
           | None \<Rightarrow>
               if IsIPv4 ip
               then print_base 10 (unat (GetByte 3 ip)) @ ''.'' @ print_base 10 (unat (GetByte 2 ip)) @ ''.''
                    @ print_base 10 (unat (GetByte 1 ip)) @ ''.'' @ print_base 10 (unat (GetByte 0 ip))
               else hex_group 15 ip @ '':'' @ hex_group 13 ip @ '':'' @ hex_group 11 ip @ '':'' @ hex_group 9 ip @ '':''
                    @ hex_group 7 ip @ '':'' @ hex_group 5 ip @ '':'' @ hex_group 3 ip @ '':'' @ hex_group 1 ip)"

text \<open>\<^verbatim>\<open>SetSpecial\<close>: the address of an onion name, or that the name is not one and the address keeps its value.\<close>

definition SetSpecial :: "string \<Rightarrow> net_addr option" where
  "SetSpecial strName =
     (if 6 < length strName \<and> drop (length strName - 6) strName = ''.onion''
      then let vchAddr = fst (DecodeBase32 (take (length strName - 6) strName))
           in if length vchAddr \<noteq> 16 - length pchOnionCat then None
              else Some (pchOnionCat @ vchAddr)
      else None)"

section \<open>Services\<close>


record net_service =
  ip :: net_addr
  port :: u16

text \<open>\<^verbatim>\<open>memcmp(a.ip, b.ip, 16) < 0\<close>\<close>

fun CNetAddr_less :: "net_addr \<Rightarrow> net_addr \<Rightarrow> bool" where
  "CNetAddr_less (x # a) (y # b) = (x < y \<or> (x = y \<and> CNetAddr_less a b))"
| "CNetAddr_less a b = False"

definition CService_equal :: "net_service \<Rightarrow> net_service \<Rightarrow> bool" where
  "CService_equal a b \<longleftrightarrow> ip a = ip b \<and> port a = port b"

definition CService_less :: "net_service \<Rightarrow> net_service \<Rightarrow> bool" where
  "CService_less a b \<longleftrightarrow> CNetAddr_less (ip a) (ip b) \<or> (ip a = ip b \<and> port a < port b)"

definition GetKey :: "net_service \<Rightarrow> vch_t" where
  "GetKey s = ip s @ [ucast (port s div 0x100), ucast (port s AND 0xFF)]"

definition ToStringIPPort :: "(net_addr \<Rightarrow> string option) \<Rightarrow> net_service \<Rightarrow> string" where
  "ToStringIPPort getnameinfo s =
     (if IsIPv4 (ip s) \<or> IsTor (ip s)
      then ToStringIP getnameinfo (ip s) @ '':'' @ print_base 10 (unat (port s))
      else ''['' @ ToStringIP getnameinfo (ip s) @ '']:'' @ print_base 10 (unat (port s)))"

section \<open>Host and port\<close>

text \<open>
  \<^verbatim>\<open>strtol\<close> with base 10: the number, saturated to 64 bits, and where it ends; without digits it ends where it started.
  The caller stores it into an \<^verbatim>\<open>int\<close>.
\<close>

definition is_digit :: "char \<Rightarrow> bool" where
  "is_digit c \<longleftrightarrow> 48 \<le> (of_char c :: nat) \<and> (of_char c :: nat) \<le> 57"

definition digits_value :: "string \<Rightarrow> int" where
  "digits_value ds = foldl (\<lambda>n c. 10 * n + (int (of_char c) - 48)) 0 ds"

definition strtol :: "string \<Rightarrow> int \<times> string" where
  "strtol s =
     (let t = dropWhile is_space s;
          negative = (t \<noteq> [] \<and> hd t = CHR ''-'');
          u = (if t \<noteq> [] \<and> (hd t = CHR ''-'' \<or> hd t = CHR ''+'') then tl t else t);
          ds = takeWhile is_digit u;
          n = (if negative then - digits_value ds else digits_value ds)
      in if ds = [] then (0, s) else (max (- (2 ^ 63)) (min (2 ^ 63 - 1) n), dropWhile is_digit u))"

definition to_int32 :: "int \<Rightarrow> int" where
  "to_int32 n = (n + 2 ^ 31) mod 2 ^ 32 - 2 ^ 31"

definition find_last_of :: "char \<Rightarrow> string \<Rightarrow> nat option" where
  "find_last_of c s = (let is = filter (\<lambda>i. s ! i = c) [0..<length s] in if is = [] then None else Some (last is))"

definition split_port :: "string \<Rightarrow> int \<Rightarrow> int \<times> string" where
  "split_port s portOut =
     (case find_last_of (CHR '':'') s of
        None \<Rightarrow> (portOut, s)
      | Some colon \<Rightarrow>
          let fBracketed = (s ! 0 = CHR ''['' \<and> s ! (colon - 1) = CHR '']'');
              fMultiColon = (colon = 0 \<or> CHR '':'' \<in> set (take colon s))
          in if colon = 0 \<or> fBracketed \<or> \<not> fMultiColon
             then let (l, endp) = strtol (drop (colon + 1) s); n = to_int32 l
                  in if (endp = [] \<or> hd endp = CHR 0x00) \<and> 0 \<le> n
                     then (if 0 < n \<and> n < 0x10000 then n else portOut, take colon s)
                     else (portOut, s)
             else (portOut, s))"

definition SplitHostPort :: "string \<Rightarrow> int \<Rightarrow> int \<times> string" where
  "SplitHostPort s portOut =
     (let (portOut, s) = split_port s portOut
      in (portOut, if 0 < length s \<and> s ! 0 = CHR ''['' \<and> s ! (length s - 1) = CHR '']'' then take (length s - 2) (drop 1 s) else s))"


section \<open>Onion names\<close>

lemma EncodeBase32_nonempty: "vch \<noteq> [] \<Longrightarrow> EncodeBase32 vch \<noteq> []"
  using decode_encode32 [of vch] by (auto simp: DecodeBase32_def)

text \<open>
  Onion addresses have names: the text of an address in the onion range is an onion name, and \<^verbatim>\<open>SetSpecial\<close> of it is the
  address; conversely every name that \<^verbatim>\<open>SetSpecial\<close> accepts gives a sixteen-byte address in the onion range.
\<close>

theorem onion_roundtrip:
  assumes "addr_ok a" and "IsTor a"
  shows "SetSpecial (ToStringIP getnameinfo a) = Some a \<and> (SetSpecial name = Some b \<longrightarrow> addr_ok b \<and> IsTor b)"
proof -
  have six: "length pchOnionCat = 6" by (simp add: pchOnionCat_def)
  then have a: "a = pchOnionCat @ drop 6 a" "length (drop 6 a) = 10"
    using assms append_take_drop_id [of 6 a] by (simp_all only: IsTor_def starts_with_def addr_ok_def) simp_all
  then have "SetSpecial (ToStringIP getnameinfo a) = Some (pchOnionCat @ drop 6 a)"
    using assms(2) EncodeBase32_nonempty [of "drop 6 a"] by (auto simp: SetSpecial_def ToStringIP_def decode_encode32 pchOnionCat_def)
  moreover have "SetSpecial name = Some b \<longrightarrow> addr_ok b \<and> IsTor b"
    by (auto simp: SetSpecial_def Let_def addr_ok_def IsTor_def starts_with_def pchOnionCat_def split: if_splits)
  ultimately show ?thesis using a(1) by simp
qed

theorem onion_roundtrip_witness:
  "SetSpecial (ToStringIP (\<lambda>a. None) (pchOnionCat @ replicate 10 7)) = Some (pchOnionCat @ replicate 10 7)"
  using onion_roundtrip [of "pchOnionCat @ replicate 10 7" "\<lambda>a. None" "[]" "[]"]
  by (simp add: addr_ok_def IsTor_def starts_with_def pchOnionCat_def)

section \<open>Ports\<close>

lemma digit_char_less: "d < 10 \<Longrightarrow> is_digit (digit_char d) \<and> int (of_char (digit_char d)) = 48 + int d"
  by (simp add: digit_char_def is_digit_def)

lemma print_base_10:
  "print_base 10 n \<noteq> [] \<and> list_all is_digit (print_base 10 n) \<and> digits_value (print_base 10 n) = int n"
proof (induction "10 :: nat" n rule: print_base.induct)
  case (1 n)
  show ?case
  proof (cases "n < 10")
    case True
    then show ?thesis using digit_char_less [of n] by (subst (1 2 3) print_base.simps) (simp add: digits_value_def)
  next
    case False
    then have "digits_value (print_base 10 n) = 10 * int (n div 10) + int (n mod 10)"
      using 1 digit_char_less [of "n mod 10"] by (subst print_base.simps) (simp add: digits_value_def)
    also have "\<dots> = int n" by (metis mult_div_mod_eq of_nat_add of_nat_mult of_nat_numeral)
    finally show ?thesis
      using 1 False digit_char_less [of "n mod 10"] by (subst (1 2) print_base.simps) simp
  qed
qed

lemma digit_no_sign: "is_digit c \<Longrightarrow> \<not> is_space c \<and> c \<noteq> CHR ''-'' \<and> c \<noteq> CHR ''+'' \<and> c \<noteq> CHR '':''"
  by (auto simp: is_digit_def is_space_def)

lemma strtol_print:
  assumes "n < 2 ^ 63"
  shows "strtol (print_base 10 n) = (int n, [])"
proof -
  let ?p = "print_base 10 n"
  obtain c cs where p: "?p = c # cs" using print_base_10 [of n] by (cases ?p) auto
  have "list_all is_digit ?p" using print_base_10 [of n] by simp
  then have d: "takeWhile is_digit ?p = ?p" "dropWhile is_digit ?p = []" "is_digit c" "takeWhile is_digit cs = cs"
    using p by (auto simp: list_all_iff takeWhile_eq_all_conv)
  have "int n \<le> 2 ^ 63 - 1" "digits_value ?p = int n" using assms print_base_10 [of n] by simp_all
  then show ?thesis using d(1,2) p digit_no_sign [OF d(3)]
    by (simp add: strtol_def Let_def del: takeWhile.simps dropWhile.simps) (simp add: p digit_no_sign d)
qed


lemma find_last_of_append:
  assumes "c \<notin> set p"
  shows "find_last_of c (h @ c # p) = Some (length h)"
proof -
  let ?s = "h @ c # p" and ?P = "\<lambda>i. (h @ c # p) ! i = c"
  have split: "[0..<length ?s] = [0..<length h] @ length h # [Suc (length h)..<length ?s]"
    using upt_add_eq_append [of 0 "length h" "Suc (length p)"] by (simp add: upt_conv_Cons del: upt_Suc)
  have "filter ?P [Suc (length h)..<length ?s] = []"
  proof -
    have "\<not> ?P i" if "Suc (length h) \<le> i" "i < length ?s" for i
    proof -
      have "?s ! i = p ! (i - Suc (length h))" using that by (simp add: nth_append)
      moreover have "p ! (i - Suc (length h)) \<in> set p" using that by (intro nth_mem) auto
      ultimately show ?thesis using assms by metis
    qed
    then show ?thesis by (intro filter_False ballI) (simp only: set_upt atLeastLessThan_iff not_False_eq_True)
  qed
  then have "filter ?P [0..<length ?s] = filter ?P [0..<length h] @ [length h]" unfolding split by simp
  then show ?thesis by (simp only: find_last_of_def Let_def) simp
qed

lemma split_port_print:
  assumes "0 < n" and "n < 65536" and "CHR '':'' \<notin> set h \<or> (\<exists>g. h = CHR ''['' # g @ [CHR '']''])"
  shows "split_port (h @ CHR '':'' # print_base 10 n) d = (int n, h)"
proof -
  let ?p = "print_base 10 n"
  have "CHR '':'' \<notin> set ?p" using print_base_10 [of n] digit_no_sign by (auto simp: list_all_iff)
  then have last: "find_last_of (CHR '':'') (h @ CHR '':'' # ?p) = Some (length h)" by (rule find_last_of_append)
  have sep: "length h = 0 \<or> ((h @ CHR '':'' # ?p) ! 0 = CHR ''['' \<and> (h @ CHR '':'' # ?p) ! (length h - 1) = CHR '']'')
      \<or> \<not> (length h = 0 \<or> CHR '':'' \<in> set h)"
    using assms(3) by (auto simp: nth_append)
  have num: "strtol ?p = (int n, [])" "to_int32 (int n) = int n"
    using assms(2) strtol_print [of n] by (simp_all add: to_int32_def)
  have eq: "drop (length h + 1) (h @ CHR '':'' # ?p) = ?p" "take (length h) (h @ CHR '':'' # ?p) = h" by simp_all
  show ?thesis unfolding split_port_def last option.case Let_def eq num(1) prod.case num(2)
    by (subst if_P [OF sep]) (use assms(1,2) in simp)
qed

text \<open>The text of an IPv4 or onion address.\<close>

definition plain_text :: "string \<Rightarrow> bool" where
  "plain_text t \<longleftrightarrow> t \<noteq> [] \<and> CHR '':'' \<notin> set t \<and> hd t \<noteq> CHR ''[''"

lemma plain_append: "plain_text t \<Longrightarrow> CHR '':'' \<notin> set u \<Longrightarrow> plain_text (t @ u)"
  by (simp add: plain_text_def)

lemma print_base_10_chars: "c \<in> set (print_base 10 n) \<Longrightarrow> is_digit c"
  using print_base_10 [of n] by (simp add: list_all_iff)

lemma plain_decimal: "plain_text (print_base 10 n)" "CHR '':'' \<notin> set (print_base 10 n)"
proof -
  have "print_base 10 n \<noteq> []" using print_base_10 [of n] by simp
  then have "is_digit (hd (print_base 10 n))" using print_base_10_chars [OF hd_in_set] by blast
  then have "hd (print_base 10 n) \<noteq> CHR ''[''" by (auto simp: is_digit_def)
  moreover show "CHR '':'' \<notin> set (print_base 10 n)" using print_base_10_chars digit_no_sign by blast
  ultimately show "plain_text (print_base 10 n)" using \<open>print_base 10 n \<noteq> []\<close> by (simp add: plain_text_def)
qed

lemma plain_base32: "vch \<noteq> [] \<Longrightarrow> plain_text (EncodeBase32 vch)"
proof -
  assume "vch \<noteq> []"
  then have "EncodeBase32 vch \<noteq> []" by (rule EncodeBase32_nonempty)
  moreover have "set (EncodeBase32 vch) \<subseteq> insert (CHR ''='') (set pbase32)" unfolding EncodeBase32_def by (rule encode32_alphabet)
  moreover have "CHR '':'' \<notin> insert (CHR ''='') (set pbase32) \<and> CHR ''['' \<notin> insert (CHR ''='') (set pbase32)"
    by (simp add: pbase32_def)
  ultimately show ?thesis unfolding plain_text_def using hd_in_set [of "EncodeBase32 vch"] by (metis subsetD)
qed

lemma plain_ToStringIP:
  assumes "addr_ok a" and "IsIPv4 a \<or> IsTor a" and "\<And>name. IsIPv4 a \<Longrightarrow> getnameinfo a = Some name \<Longrightarrow> plain_text name"
  shows "plain_text (ToStringIP getnameinfo a)"
proof (cases "IsTor a")
  case True
  have "take 10 (drop 6 a) \<noteq> []" using assms(1) by (simp add: addr_ok_def)
  then show ?thesis using True plain_append [OF plain_base32] by (simp add: ToStringIP_def)
next
  case False
  then show ?thesis
    using assms(2,3) plain_decimal(2) by (auto simp: ToStringIP_def intro!: plain_append plain_decimal split: option.split)
qed

text \<open>
  A service reads back from its text: splitting what \<^verbatim>\<open>ToStringIPPort\<close> prints gives the port, unless it is zero, and the
  text of the address, with the brackets around an IPv6 address gone.  Of the text that \<^verbatim>\<open>getnameinfo\<close> gives for an IPv4
  address it is assumed that it is not empty, has no colon and does not start with a bracket.
\<close>

theorem host_port_roundtrip:
  assumes "port s \<noteq> 0" and "addr_ok (ip s)" and "\<And>name. IsIPv4 (ip s) \<Longrightarrow> getnameinfo (ip s) = Some name \<Longrightarrow> plain_text name"
  shows "SplitHostPort (ToStringIPPort getnameinfo s) d = (int (unat (port s)), ToStringIP getnameinfo (ip s))"
proof -
  let ?t = "ToStringIP getnameinfo (ip s)" and ?n = "unat (port s)"
  have n: "0 < ?n" "?n < 65536" using assms(1) unat_less_exp [of "port s"] by (simp_all add: unat_gt_0)
  show ?thesis
  proof (cases "IsIPv4 (ip s) \<or> IsTor (ip s)")
    case True
    then have plain: "plain_text ?t" using plain_ToStringIP assms(2,3) by blast
    then have "split_port (?t @ CHR '':'' # print_base 10 ?n) d = (int ?n, ?t)"
      using n by (intro split_port_print) (auto simp: plain_text_def)
    then show ?thesis using True plain by (auto simp: ToStringIPPort_def SplitHostPort_def plain_text_def hd_conv_nth)
  next
    case False
    have "split_port ((CHR ''['' # ?t @ [CHR '']'']) @ CHR '':'' # print_base 10 ?n) d = (int ?n, CHR ''['' # ?t @ [CHR '']''])"
      using n by (intro split_port_print) auto
    then show ?thesis using False by (simp add: ToStringIPPort_def SplitHostPort_def nth_append)
  qed
qed

definition example_service :: net_service where
  "example_service = \<lparr>ip = pchIPv4 @ [1, 2, 3, 4], port = 8732\<rparr>"

theorem host_port_roundtrip_witness:
  "SplitHostPort (ToStringIPPort (\<lambda>a. Some ''1.2.3.4'') example_service) 0 = (8732, ''1.2.3.4'')"
proof -
  have "IsIPv4 (ip example_service)" "\<not> IsTor (ip example_service)"
    by (simp_all add: example_service_def IsIPv4_def IsTor_def starts_with_def pchIPv4_def pchOnionCat_def)
  moreover have "port example_service \<noteq> 0" "addr_ok (ip example_service)" "plain_text ''1.2.3.4''" "unat (port example_service) = 8732"
    by (simp_all add: example_service_def addr_ok_def pchIPv4_def plain_text_def)
  ultimately show ?thesis
    using host_port_roundtrip [of example_service "\<lambda>a. Some ''1.2.3.4''" 0] by (simp add: ToStringIP_def)
qed

section \<open>Groups and networks\<close>

declare group_bytes.simps [simp del]

lemma group_bytes_eqs:
  "group_bytes a n 0 = []" "group_bytes a n 4 = [GetByte (15 - n) a OR 15]"
  "group_bytes a n 16 = [GetByte (15 - n) a, GetByte (15 - Suc n) a]"
  by (subst group_bytes.simps, simp)+


lemma starts_with_nth: "starts_with bytes a \<Longrightarrow> i < length bytes \<Longrightarrow> a ! i = bytes ! i"
  unfolding starts_with_def by (metis nth_take)

lemma first_byte:
  assumes "GetByte 15 a = 32"
  shows "\<not> IsIPv4 a" "\<not> IsRFC6145 a" "\<not> IsRFC6052 a"
  using assms starts_with_nth [of pchIPv4 a 0] starts_with_nth [of "[0, 0, 0, 0, 0, 0, 0, 0, 0xFF, 0xFF, 0, 0]" a 0]
    starts_with_nth [of "[0, 0x64, 0xFF, 0x9B, 0, 0, 0, 0, 0, 0, 0, 0]" a 0]
  by (auto simp: GetByte_def IsIPv4_def IsRFC6145_def IsRFC6052_def pchIPv4_def)

lemma group_IPv4: "IsRoutable a \<Longrightarrow> IsIPv4 a \<Longrightarrow> GetGroup a = [1, a ! 12, a ! 13]"
  by (simp add: GetGroup_def group_bytes_eqs GetByte_def)

lemma take_14_IPv4:
  assumes "addr_ok a" and "IsIPv4 a"
  shows "take 14 a = pchIPv4 @ [a ! 12, a ! 13]"
proof -
  have "take (Suc (Suc 12)) a = take 12 a @ [a ! 12, a ! 13]"
    using assms(1) take_Suc_conv_app_nth [of 12 a] take_Suc_conv_app_nth [of "Suc 12" a] by (simp add: addr_ok_def)
  moreover have "length pchIPv4 = 12" by (simp add: pchIPv4_def)
  then have "take 12 a = pchIPv4" using assms(2) by (simp only: IsIPv4_def starts_with_def)
  ultimately show ?thesis by simp
qed

lemma carried_address: "length v = 4 \<Longrightarrow> IsIPv4 (CNetAddr_of_in_addr v) \<and> CNetAddr_of_in_addr v ! 12 = v ! 0 \<and> CNetAddr_of_in_addr v ! 13 = v ! 1"
  by (simp add: CNetAddr_of_in_addr_def IsIPv4_def starts_with_def pchIPv4_def)

text \<open>
  Groups of addresses.  All addresses that are not routable form one group.  Two routable IPv4 addresses are in the same
  group exactly when their first two bytes, after the mapped prefix, agree.  A routable address of the 6to4 range is in the group
  of the IPv4 address it carries, and a Teredo address in the group of the IPv4 address whose bytes it carries inverted,
  provided that these are routable.
\<close>

theorem address_groups:
  assumes "addr_ok a" and "addr_ok b"
  defines "v \<equiv> CNetAddr_of_in_addr (take 4 (drop 2 a))" and "w \<equiv> CNetAddr_of_in_addr (map (\<lambda>x. x XOR 0xFF) (drop 12 a))"
  shows "(\<not> IsRoutable a \<longrightarrow> GetGroup a = [0])
    \<and> (IsRoutable a \<and> IsIPv4 a \<and> IsRoutable b \<and> IsIPv4 b \<longrightarrow> (GetGroup a = GetGroup b \<longleftrightarrow> take 14 a = take 14 b))
    \<and> (IsRoutable a \<and> IsRFC3964 a \<and> IsRoutable v \<longrightarrow> GetGroup a = GetGroup v)
    \<and> (IsRoutable a \<and> IsRFC4380 a \<and> IsRoutable w \<longrightarrow> GetGroup a = GetGroup w)"
proof (intro conjI impI)
  show "GetGroup a = [0]" if "\<not> IsRoutable a" using that by (simp add: GetGroup_def group_bytes_eqs)
  show "GetGroup a = GetGroup b \<longleftrightarrow> take 14 a = take 14 b" if "IsRoutable a \<and> IsIPv4 a \<and> IsRoutable b \<and> IsIPv4 b"
    using that take_14_IPv4 assms(1,2) by (simp add: group_IPv4)
  show "GetGroup a = GetGroup v" if "IsRoutable a \<and> IsRFC3964 a \<and> IsRoutable v"
  proof -
    have "v ! 12 = a ! 2" "v ! 13 = a ! 3" "IsIPv4 v"
      using carried_address [of "take 4 (drop 2 a)"] assms(1) by (simp_all add: v_def addr_ok_def)
    then show ?thesis using that first_byte [of a] group_IPv4 [of v]
      by (simp add: GetGroup_def group_bytes_eqs IsRFC3964_def GetByte_def)
  qed
  show "GetGroup a = GetGroup w" if "IsRoutable a \<and> IsRFC4380 a \<and> IsRoutable w"
  proof -
    have "w ! 12 = a ! 12 XOR 0xFF" "w ! 13 = a ! 13 XOR 0xFF" "IsIPv4 w"
      using carried_address [of "map (\<lambda>x. x XOR 0xFF) (drop 12 a)"] assms(1) by (simp_all add: w_def addr_ok_def)
    moreover have "\<not> IsRFC3964 a" using that by (auto simp: IsRFC3964_def IsRFC4380_def)
    ultimately show ?thesis using that first_byte [of a] group_IPv4 [of w]
      by (simp add: GetGroup_def IsRFC4380_def GetByte_def)
  qed
qed

theorem address_groups_witness:
  "GetGroup (pchIPv4 @ [8, 9, 1, 1]) = GetGroup (pchIPv4 @ [8, 9, 2, 2]) \<and> GetGroup (pchIPv4 @ [8, 9, 1, 1]) \<noteq> GetGroup (pchIPv4 @ [8, 10, 1, 1])"
proof -
  define addr :: "u8 \<Rightarrow> u8 \<Rightarrow> u8 \<Rightarrow> net_addr" where "addr x y z = pchIPv4 @ [8, x, y, z]" for x y z
  have ok: "addr_ok (addr x y z)" "IsIPv4 (addr x y z)" "take 14 (addr x y z) = pchIPv4 @ [8, x]" for x y z
    by (simp_all add: addr_def addr_ok_def IsIPv4_def starts_with_def pchIPv4_def)
  have zero: "replicate 16 (0 :: u8) = [0, 0, 0, 0, 0, 0, 0, 0, 0, 0, 0, 0, 0, 0, 0, 0]" by (simp add: numeral_eq_Suc)
  have "IsRoutable (addr x y z)" for x y z
    by (simp add: addr_def IsRoutable_def IsValid_def starts_with_def pchIPv4_def IsRFC3849_def IsRFC1918_def IsRFC3927_def IsRFC4862_def
        IsRFC4193_def IsRFC4843_def IsLocal_def IsIPv4_def IsTor_def pchOnionCat_def GetByte_def zero)
  then have "GetGroup (addr 9 1 1) = GetGroup (addr 9 2 2) \<and> GetGroup (addr 9 1 1) \<noteq> GetGroup (addr 10 1 1)"
    using address_groups [OF ok(1) [of 9 1 1] ok(1) [of 9 2 2]] address_groups [OF ok(1) [of 9 1 1] ok(1) [of 10 1 1]] ok by simp
  then show ?thesis unfolding addr_def .
qed

end
