(* ===== verification/Serialize.thy ===== *)
theory Serialize
  imports StdMap
begin

text \<open>
  The serialisation of \<^verbatim>\<open>src/base/serialize.h\<close>: the buffer \<^verbatim>\<open>CDataStream\<close> with its read position, the compact sizes
  and variable-length integers, and the templates for integers, strings, vectors, pairs, tuples, maps and sets.

  A \<^verbatim>\<open>Serialize\<close> function is the list of the bytes it writes; an \<^verbatim>\<open>Unserialize\<close> function is a \<open>reader\<close>, which takes the
  stream and gives a value or the error it raises, and the stream it leaves.  What a template needs of the type it is
  applied to is the locale \<open>serialisable\<close>; the templates for pairs, vectors, maps and sets are its sublocales.  The
  arguments \<^verbatim>\<open>nType\<close> and \<^verbatim>\<open>nVersion\<close>, which these templates only hand on, are left out.
\<close>

definition MAX_SIZE :: nat where
  "MAX_SIZE = 0x02000000"

section \<open>The stream\<close>

text \<open>The values of the state bits are those of the C++ library.\<close>

definition badbit :: u16 where
  "badbit = 1"

definition failbit :: u16 where
  "failbit = 4"

record data_stream =
  ds_vch :: vch_t
  nReadPos :: u32
  ds_state :: u16
  exceptmask :: u16
  ds_type :: int
  ds_version :: int

text \<open>
  \<open>Undefined\<close> is an access outside the buffer and \<open>Diverges\<close> a loop that does not end.
\<close>

datatype ser_error = Failure string | Assertion | Undefined | Diverges

type_synonym 'a reader = "data_stream \<Rightarrow> (ser_error + 'a) \<times> data_stream"

definition returning :: "'a \<Rightarrow> 'a reader" where
  "returning x s = (Inr x, s)"

definition throwing :: "ser_error \<Rightarrow> 'a reader" where
  "throwing e s = (Inl e, s)"

definition and_then :: "'a reader \<Rightarrow> ('a \<Rightarrow> 'b reader) \<Rightarrow> 'b reader" where
  "and_then r f s = (case r s of (Inl e, s') \<Rightarrow> (Inl e, s') | (Inr x, s') \<Rightarrow> f x s')"

definition stream_Init :: "int \<Rightarrow> int \<Rightarrow> vch_t \<Rightarrow> data_stream" where
  "stream_Init nTypeIn nVersionIn bytes =
     \<lparr>ds_vch = bytes, nReadPos = 0, ds_state = 0, exceptmask = badbit OR failbit, ds_type = nTypeIn, ds_version = nVersionIn\<rparr>"

text \<open>What is left to read: \<^verbatim>\<open>begin()\<close> to \<^verbatim>\<open>end()\<close>, which is also what \<^verbatim>\<open>str()\<close> gives.\<close>

definition contents :: "data_stream \<Rightarrow> vch_t" where
  "contents s = drop (unat (nReadPos s)) (ds_vch s)"

definition stream_append :: "data_stream \<Rightarrow> data_stream \<Rightarrow> data_stream" where
  "stream_append s b = s\<lparr>ds_vch := ds_vch s @ contents b\<rparr>"

definition stream_size :: "data_stream \<Rightarrow> nat" where
  "stream_size s = length (ds_vch s) - unat (nReadPos s)"

definition stream_empty :: "data_stream \<Rightarrow> bool" where
  "stream_empty s \<longleftrightarrow> length (ds_vch s) = unat (nReadPos s)"

definition stream_resize :: "nat \<Rightarrow> u8 \<Rightarrow> data_stream \<Rightarrow> data_stream" where
  "stream_resize n c s =
     (let len = n + unat (nReadPos s)
      in s\<lparr>ds_vch := take len (ds_vch s) @ replicate (len - length (ds_vch s)) c\<rparr>)"

definition stream_clear :: "data_stream \<Rightarrow> data_stream" where
  "stream_clear s = s\<lparr>ds_vch := [], nReadPos := 0\<rparr>"

text \<open>
  The operations on iterators take them as indexes into the buffer; \<open>None\<close> is an iterator outside it.
\<close>

definition stream_insert :: "nat \<Rightarrow> vch_t \<Rightarrow> data_stream \<Rightarrow> data_stream option" where
  "stream_insert at bytes s =
     (if at = unat (nReadPos s) \<and> of_nat (length bytes) \<le> nReadPos s
      then let s = s\<lparr>nReadPos := nReadPos s - of_nat (length bytes)\<rparr>
           in map_option (\<lambda>v. s\<lparr>ds_vch := v\<rparr>) (memcpy_at (ds_vch s) (unat (nReadPos s)) bytes)
      else if at \<le> length (ds_vch s) then Some (s\<lparr>ds_vch := take at (ds_vch s) @ bytes @ drop at (ds_vch s)\<rparr>)
      else None)"

definition stream_erase :: "nat \<Rightarrow> data_stream \<Rightarrow> (nat \<times> data_stream) option" where
  "stream_erase at s =
     (if at = unat (nReadPos s)
      then let s = s\<lparr>nReadPos := nReadPos s + 1\<rparr>
           in if length (ds_vch s) \<le> unat (nReadPos s) then Some (0, s\<lparr>nReadPos := 0, ds_vch := []\<rparr>)
              else Some (unat (nReadPos s), s)
      else if at < length (ds_vch s) then Some (at, s\<lparr>ds_vch := take at (ds_vch s) @ drop (Suc at) (ds_vch s)\<rparr>)
      else None)"

definition stream_erase_range :: "nat \<Rightarrow> nat \<Rightarrow> data_stream \<Rightarrow> (nat \<times> data_stream) option" where
  "stream_erase_range from till s =
     (if from = unat (nReadPos s)
      then if till = length (ds_vch s) then Some (0, s\<lparr>nReadPos := 0, ds_vch := []\<rparr>)
           else Some (till, s\<lparr>nReadPos := of_nat till\<rparr>)
      else if from \<le> till \<and> till \<le> length (ds_vch s)
           then Some (from, s\<lparr>ds_vch := take from (ds_vch s) @ drop till (ds_vch s)\<rparr>)
      else None)"

definition Compact :: "data_stream \<Rightarrow> data_stream" where
  "Compact s = s\<lparr>ds_vch := drop (unat (nReadPos s)) (ds_vch s), nReadPos := 0\<rparr>"

definition Rewind :: "nat \<Rightarrow> data_stream \<Rightarrow> bool \<times> data_stream" where
  "Rewind n s = (if unat (nReadPos s) < n then (False, s) else (True, s\<lparr>nReadPos := nReadPos s - of_nat n\<rparr>))"

definition setstate :: "u16 \<Rightarrow> string \<Rightarrow> unit reader" where
  "setstate bits psz s =
     (let s = s\<lparr>ds_state := ds_state s OR bits\<rparr>
      in if ds_state s AND exceptmask s \<noteq> 0 then (Inl (Failure psz), s) else (Inr (), s))"

definition stream_eof :: "data_stream \<Rightarrow> bool" where
  "stream_eof s \<longleftrightarrow> stream_size s = 0"

definition stream_fail :: "data_stream \<Rightarrow> bool" where
  "stream_fail s \<longleftrightarrow> ds_state s AND (badbit OR failbit) \<noteq> 0"

definition stream_good :: "data_stream \<Rightarrow> bool" where
  "stream_good s \<longleftrightarrow> \<not> stream_eof s \<and> ds_state s = 0"

definition stream_exceptions :: "u16 \<Rightarrow> u16 reader" where
  "stream_exceptions newmask s =
     and_then (setstate 0 ''CDataStream'') (\<lambda>_. returning (exceptmask s)) (s\<lparr>exceptmask := newmask\<rparr>)"

definition memcpy_from :: "nat \<Rightarrow> nat \<Rightarrow> vch_t reader" where
  "memcpy_from at n s = (if at + n \<le> length (ds_vch s) then (Inr (take n (drop at (ds_vch s))), s) else (Inl Undefined, s))"

definition CDataStream_read :: "int \<Rightarrow> vch_t reader" where
  "CDataStream_read nSize s =
     (if nSize < 0 then (Inl Assertion, s)
      else let nReadPosNext = nReadPos s + of_int nSize
           in if length (ds_vch s) \<le> unat nReadPosNext
              then if length (ds_vch s) < unat nReadPosNext
                   then and_then (setstate failbit ''CDataStream::read() : end of data'')
                          (\<lambda>_. and_then (memcpy_from (unat (nReadPos s)) (length (ds_vch s) - unat (nReadPos s)))
                             (\<lambda>bytes s. (Inr (bytes @ replicate (nat nSize - length bytes) 0), s\<lparr>nReadPos := 0, ds_vch := []\<rparr>))) s
                   else and_then (memcpy_from (unat (nReadPos s)) (nat nSize))
                          (\<lambda>bytes s. (Inr bytes, s\<lparr>nReadPos := 0, ds_vch := []\<rparr>)) s
              else and_then (memcpy_from (unat (nReadPos s)) (nat nSize))
                     (\<lambda>bytes s. (Inr bytes, s\<lparr>nReadPos := nReadPosNext\<rparr>)) s)"

definition CDataStream_ignore :: "int \<Rightarrow> unit reader" where
  "CDataStream_ignore nSize s =
     (if nSize < 0 then (Inl Assertion, s)
      else let nReadPosNext = nReadPos s + of_int nSize;
               clear = (\<lambda>_ s. (Inr (), s\<lparr>nReadPos := 0, ds_vch := []\<rparr>))
           in if length (ds_vch s) \<le> unat nReadPosNext
              then if length (ds_vch s) < unat nReadPosNext
                   then and_then (setstate failbit ''CDataStream::ignore() : end of data'') clear s
                   else clear () s
              else (Inr (), s\<lparr>nReadPos := nReadPosNext\<rparr>))"

definition CDataStream_write :: "vch_t \<Rightarrow> data_stream \<Rightarrow> data_stream" where
  "CDataStream_write bytes s = s\<lparr>ds_vch := ds_vch s @ bytes\<rparr>"

text \<open>Writing a stream to a stream writes its whole buffer.\<close>

definition CDataStream_Serialize :: "data_stream \<Rightarrow> vch_t" where
  "CDataStream_Serialize s = ds_vch s"

definition GetAndClear :: "vch_t \<Rightarrow> data_stream \<Rightarrow> vch_t \<times> data_stream" where
  "GetAndClear data s = (data @ contents s, stream_clear s)"

section \<open>Integers\<close>

text \<open>The memory image of an integer of a whole number of bytes, and \<^verbatim>\<open>READDATA\<close> into one.\<close>

definition sizeof :: "'a::len itself \<Rightarrow> nat" where
  "sizeof T = LENGTH('a) div 8"

definition ser_int :: "'a::len word \<Rightarrow> vch_t" where
  "ser_int a = le_bytes (sizeof TYPE('a)) (unat a)"

definition unser_int :: "'a::len word reader" where
  "unser_int = and_then (CDataStream_read (int (sizeof TYPE('a)))) (\<lambda>bytes. returning (of_nat (bytes_val bytes)))"

definition size_int :: "'a::len word \<Rightarrow> u32" where
  "size_int a = of_nat (sizeof TYPE('a))"

definition ser_bool :: "bool \<Rightarrow> vch_t" where
  "ser_bool a = ser_int (if a then 1 else 0 :: u8)"

definition unser_bool :: "bool reader" where
  "unser_bool = and_then (unser_int :: u8 reader) (\<lambda>f. returning (f \<noteq> 0))"

definition size_bool :: "bool \<Rightarrow> u32" where
  "size_bool a = 1"

section \<open>Compact sizes\<close>

definition GetSizeOfCompactSize :: "u64 \<Rightarrow> u32" where
  "GetSizeOfCompactSize nSize =
     (if nSize < 253 then 1 else if nSize \<le> 0xFFFF then 1 + 2 else if nSize \<le> 0xFFFFFFFF then 1 + 4 else 1 + 8)"

definition WriteCompactSize :: "u64 \<Rightarrow> vch_t" where
  "WriteCompactSize nSize =
     (if nSize < 253 then ser_int (ucast nSize :: u8)
      else if nSize \<le> 0xFFFF then ser_int (253 :: u8) @ ser_int (ucast nSize :: u16)
      else if nSize \<le> 0xFFFFFFFF then ser_int (254 :: u8) @ ser_int (ucast nSize :: u32)
      else ser_int (255 :: u8) @ ser_int nSize)"

text \<open>The end of \<^verbatim>\<open>ReadCompactSize\<close>: the tests on the number that was read.\<close>

definition check_size :: "u64 \<Rightarrow> u64 \<Rightarrow> u64 reader" where
  "check_size least nSizeRet =
     (if nSizeRet < least then throwing (Failure ''non-canonical ReadCompactSize()'')
      else if of_nat MAX_SIZE < nSizeRet then throwing (Failure ''ReadCompactSize() : size too large'')
      else returning nSizeRet)"

definition ReadCompactSize :: "u64 reader" where
  "ReadCompactSize =
     and_then (unser_int :: u8 reader) (\<lambda>chSize.
       if chSize < 253 then check_size 0 (ucast chSize)
       else if chSize = 253 then and_then (unser_int :: u16 reader) (\<lambda>xSize. check_size 253 (ucast xSize))
       else if chSize = 254 then and_then (unser_int :: u32 reader) (\<lambda>xSize. check_size 0x10000 (ucast xSize))
       else and_then (unser_int :: u64 reader) (\<lambda>xSize. check_size 0x100000000 xSize))"

section \<open>Variable-length integers\<close>

text \<open>For an unsigned type; \<open>tmp\<close> is the array filled so far.\<close>

lemma shift_decreases:
  assumes "\<not> n \<le> (0x7F :: 'a::len word)"
  shows "1 \<le> unat n div 128" and "unat (drop_bit 7 n - 1) = unat n div 128 - 1" and "unat (drop_bit 7 n - 1) < unat n"
proof -
  have "unat (0x7F :: 'a word) = take_bit LENGTH('a) (0x7F :: nat)"
    by (simp add: unsigned_numeral)
  also have "(0x7F :: nat) = mask 7" by (simp add: mask_eq_exp_minus_1)
  finally have u: "unat (0x7F :: 'a word) = mask (min LENGTH('a) 7)" by (simp add: take_bit_of_mask)
  then have "mask (min LENGTH('a) 7) < unat n" using assms by (simp add: word_le_nat_alt)
  moreover have "unat n \<le> mask LENGTH('a)" using unat_less_exp [of n] unfolding mask_eq_exp_minus_1 by linarith
  ultimately have "7 < LENGTH('a)" by (cases "7 < LENGTH('a)") (auto simp: min_def)
  then have n: "127 < unat n" using \<open>mask (min LENGTH('a) 7) < unat n\<close> by (simp add: min_def mask_eq_exp_minus_1)
  then show d: "1 \<le> unat n div 128" by (simp add: Suc_le_eq div_greater_zero_iff)
  have u: "unat (drop_bit 7 n) = unat n div 128" by (simp add: drop_bit_eq_div [symmetric] unsigned_drop_bit_eq take_bit_nat_eq_self)
    (simp add: drop_bit_eq_div)
  then have "(1 :: 'a word) \<le> drop_bit 7 n" using d by (simp add: word_le_nat_alt)
  then show e: "unat (drop_bit 7 n - 1) = unat n div 128 - 1" using u by (simp add: unat_sub)
  show "unat (drop_bit 7 n - 1) < unat n" unfolding e using n by simp
qed

function GetSizeOfVarInt :: "'a::len word \<Rightarrow> nat" where
  "GetSizeOfVarInt n = (if n \<le> 0x7F then 1 else 1 + GetSizeOfVarInt (drop_bit 7 n - 1))"
  by pat_completeness auto
termination
  by (relation "measure unat") (auto intro: shift_decreases)

function varint_loop :: "'a::len word \<Rightarrow> vch_t \<Rightarrow> vch_t" where
  "varint_loop n tmp =
     (let tmp = tmp @ [ucast (n AND 0x7F) OR (if tmp \<noteq> [] then 0x80 else 0)]
      in if n \<le> 0x7F then tmp else varint_loop (drop_bit 7 n - 1) tmp)"
  by pat_completeness auto
termination
  by (relation "measure (\<lambda>(n, tmp). unat n)") (auto intro: shift_decreases)

definition WriteVarInt :: "'a::len word \<Rightarrow> vch_t" where
  "WriteVarInt n = rev (varint_loop n [])"

text \<open>The position wraps on a buffer of four gigabytes, so that the loop may then go on forever.\<close>

partial_function (option) read_varint :: "'a::len word \<Rightarrow> data_stream \<Rightarrow> ((ser_error + 'a word) \<times> data_stream) option" where
  "read_varint n s =
     (case CDataStream_read 1 s of
        (Inl e, s') \<Rightarrow> Some (Inl e, s')
      | (Inr bytes, s') \<Rightarrow>
          (let chData = bytes ! 0; n = push_bit 7 n OR ucast (chData AND 0x7F)
           in if chData AND 0x80 \<noteq> 0 then read_varint (n + 1) s' else Some (Inr n, s')))"

definition ReadVarInt :: "'a::len word reader" where
  "ReadVarInt s = (case read_varint 0 s of None \<Rightarrow> (Inl Diverges, s) | Some r \<Rightarrow> r)"

section \<open>Strings and vectors\<close>

definition ser_string :: "vch_t \<Rightarrow> vch_t" where
  "ser_string str = WriteCompactSize (of_nat (length str)) @ (if str \<noteq> [] then str else [])"

definition unser_string :: "vch_t reader" where
  "unser_string =
     and_then ReadCompactSize (\<lambda>nSize. if nSize \<noteq> 0 then CDataStream_read (int (unat nSize)) else returning [])"

definition size_string :: "vch_t \<Rightarrow> u32" where
  "size_string str = GetSizeOfCompactSize (of_nat (length str)) + of_nat (length str)"

text \<open>
  A vector of a fundamental type is copied as memory, and read back in blocks of at most five million bytes.
\<close>

definition ser_vector_pod :: "'a::len word list \<Rightarrow> vch_t" where
  "ser_vector_pod v = WriteCompactSize (of_nat (length v)) @ concat (map ser_int v)"

function read_blocks :: "nat \<Rightarrow> nat \<Rightarrow> nat \<Rightarrow> vch_t \<Rightarrow> vch_t reader" where
  "read_blocks size_of nSize i v =
     (if i < nSize
      then let blk = min (nSize - i) (1 + 4999999 div size_of)
           in and_then (CDataStream_read (int (blk * size_of))) (\<lambda>bytes. read_blocks size_of nSize (i + blk) (v @ bytes))
      else returning v)"
  by pat_completeness auto
termination
  by (relation "measure (\<lambda>(size_of, nSize, i, v). nSize - i)") auto

fun cut_into :: "nat \<Rightarrow> nat \<Rightarrow> 'b list \<Rightarrow> 'b list list" where
  "cut_into size_of 0 xs = []"
| "cut_into size_of (Suc n) xs = take size_of xs # cut_into size_of n (drop size_of xs)"

definition unser_vector_pod :: "'a::len word list reader" where
  "unser_vector_pod =
     and_then ReadCompactSize (\<lambda>nSize.
     and_then (read_blocks (sizeof TYPE('a)) (unat nSize) 0 []) (\<lambda>bytes.
       returning (map (\<lambda>image. of_nat (bytes_val image)) (cut_into (sizeof TYPE('a)) (unat nSize) bytes))))"

definition size_vector_pod :: "'a::len word list \<Rightarrow> u32" where
  "size_vector_pod v = GetSizeOfCompactSize (of_nat (length v)) + of_nat (length v * sizeof TYPE('a))"

text \<open>
  A vector of other elements is read in stretches of as many elements as fit in five million bytes; the size of an
  element in memory is an argument.
\<close>

definition ser_vector :: "('a \<Rightarrow> vch_t) \<Rightarrow> 'a list \<Rightarrow> vch_t" where
  "ser_vector ser v = WriteCompactSize (of_nat (length v)) @ concat (map ser v)"

primrec read_items :: "'a reader \<Rightarrow> nat \<Rightarrow> 'a list \<Rightarrow> 'a list reader" where
  "read_items unser 0 v = returning v"
| "read_items unser (Suc n) v = and_then unser (\<lambda>x. read_items unser n (v @ [x]))"

function read_stretches :: "'a reader \<Rightarrow> nat \<Rightarrow> nat \<Rightarrow> nat \<Rightarrow> 'a list \<Rightarrow> 'a list reader" where
  "read_stretches unser size_of nSize nMid v =
     (if nMid < nSize
      then if 5000000 div size_of = 0 then throwing Diverges
           else let nMid' = nMid + 5000000 div size_of; nMid' = (if nSize < nMid' then nSize else nMid')
                in and_then (read_items unser (nMid' - nMid) v) (read_stretches unser size_of nSize nMid')
      else returning v)"
  by pat_completeness auto
termination
  by (relation "measure (\<lambda>(unser, size_of, nSize, nMid, v). nSize - nMid)") auto

definition unser_vector :: "nat \<Rightarrow> 'a reader \<Rightarrow> 'a list reader" where
  "unser_vector size_of unser = and_then ReadCompactSize (\<lambda>nSize. read_stretches unser size_of (unat nSize) 0 [])"

definition size_vector :: "('a \<Rightarrow> u32) \<Rightarrow> 'a list \<Rightarrow> u32" where
  "size_vector size_of v = fold (\<lambda>x nSize. nSize + size_of x) v (GetSizeOfCompactSize (of_nat (length v)))"

section \<open>Pairs and tuples\<close>

definition ser_pair :: "('k \<Rightarrow> vch_t) \<Rightarrow> ('v \<Rightarrow> vch_t) \<Rightarrow> 'k \<times> 'v \<Rightarrow> vch_t" where
  "ser_pair serk serv item = serk (fst item) @ serv (snd item)"

definition unser_pair :: "'k reader \<Rightarrow> 'v reader \<Rightarrow> ('k \<times> 'v) reader" where
  "unser_pair unserk unserv = and_then unserk (\<lambda>x. and_then unserv (\<lambda>y. returning (x, y)))"

definition size_pair :: "('k \<Rightarrow> u32) \<Rightarrow> ('v \<Rightarrow> u32) \<Rightarrow> 'k \<times> 'v \<Rightarrow> u32" where
  "size_pair sizek sizev item = sizek (fst item) + sizev (snd item)"

definition ser_tuple3 :: "('a \<Rightarrow> vch_t) \<Rightarrow> ('b \<Rightarrow> vch_t) \<Rightarrow> ('c \<Rightarrow> vch_t) \<Rightarrow> 'a \<times> 'b \<times> 'c \<Rightarrow> vch_t" where
  "ser_tuple3 ser0 ser1 ser2 item = (case item of (x, y, z) \<Rightarrow> ser0 x @ ser1 y @ ser2 z)"

definition unser_tuple3 :: "'a reader \<Rightarrow> 'b reader \<Rightarrow> 'c reader \<Rightarrow> ('a \<times> 'b \<times> 'c) reader" where
  "unser_tuple3 unser0 unser1 unser2 =
     and_then unser0 (\<lambda>x. and_then unser1 (\<lambda>y. and_then unser2 (\<lambda>z. returning (x, y, z))))"

definition size_tuple3 :: "('a \<Rightarrow> u32) \<Rightarrow> ('b \<Rightarrow> u32) \<Rightarrow> ('c \<Rightarrow> u32) \<Rightarrow> 'a \<times> 'b \<times> 'c \<Rightarrow> u32" where
  "size_tuple3 size0 size1 size2 item = (case item of (x, y, z) \<Rightarrow> 0 + size0 x + size1 y + size2 z)"

definition ser_tuple4 :: "('a \<Rightarrow> vch_t) \<Rightarrow> ('b \<Rightarrow> vch_t) \<Rightarrow> ('c \<Rightarrow> vch_t) \<Rightarrow> ('d \<Rightarrow> vch_t) \<Rightarrow> 'a \<times> 'b \<times> 'c \<times> 'd \<Rightarrow> vch_t" where
  "ser_tuple4 ser0 ser1 ser2 ser3 item = (case item of (x, y, z, w) \<Rightarrow> ser0 x @ ser1 y @ ser2 z @ ser3 w)"

definition unser_tuple4 :: "'a reader \<Rightarrow> 'b reader \<Rightarrow> 'c reader \<Rightarrow> 'd reader \<Rightarrow> ('a \<times> 'b \<times> 'c \<times> 'd) reader" where
  "unser_tuple4 unser0 unser1 unser2 unser3 =
     and_then unser0 (\<lambda>x. and_then unser1 (\<lambda>y. and_then unser2 (\<lambda>z. and_then unser3 (\<lambda>w. returning (x, y, z, w)))))"

definition size_tuple4 :: "('a \<Rightarrow> u32) \<Rightarrow> ('b \<Rightarrow> u32) \<Rightarrow> ('c \<Rightarrow> u32) \<Rightarrow> ('d \<Rightarrow> u32) \<Rightarrow> 'a \<times> 'b \<times> 'c \<times> 'd \<Rightarrow> u32" where
  "size_tuple4 size0 size1 size2 size3 item = (case item of (x, y, z, w) \<Rightarrow> 0 + size0 x + size1 y + size2 z + size3 w)"

text \<open>A tuple is written, read and counted as nested pairs are.\<close>

lemma tuple3_pairs:
  "ser_tuple3 f g h = ser_pair f (ser_pair g h)" "unser_tuple3 r q p = unser_pair r (unser_pair q p)"
  "size_tuple3 k l m = size_pair k (size_pair l m)"
  by (auto simp: fun_eq_iff ser_tuple3_def ser_pair_def unser_tuple3_def unser_pair_def size_tuple3_def size_pair_def
      and_then_def returning_def add.assoc split: prod.splits sum.splits)

lemma tuple4_pairs:
  "ser_tuple4 f g h i = ser_pair f (ser_tuple3 g h i)" "unser_tuple4 r q p o' = unser_pair r (unser_tuple3 q p o')"
  "size_tuple4 k l m n = size_pair k (size_tuple3 l m n)"
  by (auto simp: fun_eq_iff ser_tuple4_def ser_tuple3_def ser_pair_def unser_tuple4_def unser_tuple3_def unser_pair_def
      size_tuple4_def size_tuple3_def size_pair_def and_then_def returning_def add.assoc split: prod.splits sum.splits)

section \<open>Maps and sets\<close>

definition ser_map :: "('k \<Rightarrow> vch_t) \<Rightarrow> ('v \<Rightarrow> vch_t) \<Rightarrow> ('k, 'v) std_map \<Rightarrow> vch_t" where
  "ser_map serk serv m = WriteCompactSize (of_nat (length m)) @ concat (map (ser_pair serk serv) m)"

text \<open>\<^verbatim>\<open>insert\<close> keeps the entry a map has for the key.\<close>

definition std_insert :: "'k::linorder \<times> 'v \<Rightarrow> ('k, 'v) std_map \<Rightarrow> ('k, 'v) std_map" where
  "std_insert item m = (if std_count (fst item) m then m else std_put (fst item) (snd item) m)"

primrec read_entries :: "('k::linorder \<times> 'v) reader \<Rightarrow> nat \<Rightarrow> ('k, 'v) std_map \<Rightarrow> ('k, 'v) std_map reader" where
  "read_entries unser 0 m = returning m"
| "read_entries unser (Suc n) m = and_then unser (\<lambda>item. read_entries unser n (std_insert item m))"

definition unser_map :: "'k::linorder reader \<Rightarrow> 'v reader \<Rightarrow> ('k, 'v) std_map reader" where
  "unser_map unserk unserv =
     and_then ReadCompactSize (\<lambda>nSize. read_entries (unser_pair unserk unserv) (unat nSize) [])"

definition size_map :: "('k \<Rightarrow> u32) \<Rightarrow> ('v \<Rightarrow> u32) \<Rightarrow> ('k, 'v) std_map \<Rightarrow> u32" where
  "size_map sizek sizev m =
     fold (\<lambda>e nSize. nSize + size_pair sizek sizev e) m (GetSizeOfCompactSize (of_nat (length m)))"

definition ser_set :: "('k::linorder \<Rightarrow> vch_t) \<Rightarrow> 'k set \<Rightarrow> vch_t" where
  "ser_set ser m = WriteCompactSize (of_nat (card m)) @ concat (map ser (sorted_list_of_set m))"

primrec read_keys :: "'k reader \<Rightarrow> nat \<Rightarrow> 'k set \<Rightarrow> 'k set reader" where
  "read_keys unser 0 m = returning m"
| "read_keys unser (Suc n) m = and_then unser (\<lambda>key. read_keys unser n (insert key m))"

definition unser_set :: "'k reader \<Rightarrow> 'k set reader" where
  "unser_set unser = and_then ReadCompactSize (\<lambda>nSize. read_keys unser (unat nSize) {})"

definition size_set :: "('k::linorder \<Rightarrow> u32) \<Rightarrow> 'k set \<Rightarrow> u32" where
  "size_set size_of m = fold (\<lambda>key nSize. nSize + size_of key) (sorted_list_of_set m) (GetSizeOfCompactSize (of_nat (card m)))"

section \<open>What a stream holds\<close>

text \<open>
  A stream whose position is inside the buffer, and a buffer small enough for the position not to wrap.
\<close>

definition ready :: "data_stream \<Rightarrow> bool" where
  "ready s \<longleftrightarrow> unat (nReadPos s) \<le> length (ds_vch s) \<and> length (ds_vch s) < 2 ^ 31"

definition reads :: "'a reader \<Rightarrow> data_stream \<Rightarrow> 'a \<Rightarrow> vch_t \<Rightarrow> bool" where
  "reads r s x rest \<longleftrightarrow> (\<exists>s'. r s = (Inr x, s') \<and> ready s' \<and> contents s' = rest)"

named_theorems reads_intros \<open>reading back what was written\<close>

lemma reads_returning [reads_intros]: "ready s \<Longrightarrow> contents s = rest \<Longrightarrow> reads (returning x) s x rest"
  by (simp add: reads_def returning_def)

lemma reads_and_then:
  assumes "reads r s x rest" and "\<And>s'. ready s' \<Longrightarrow> contents s' = rest \<Longrightarrow> reads (f x) s' y rest'"
  shows "reads (and_then r f) s y rest'"
  using assms unfolding reads_def and_then_def by fastforce

lemma length_contents: "ready s \<Longrightarrow> unat (nReadPos s) + length (contents s) = length (ds_vch s)"
  by (simp add: ready_def contents_def)

lemma position_no_wrap:
  assumes "ready s" and "n \<le> 2 ^ 31"
  shows "unat (nReadPos s + of_nat n) = unat (nReadPos s) + n"
proof -
  have "unat (nReadPos s) + n < 2 ^ 32" using assms by (simp add: ready_def)
  then show ?thesis by (simp add: unat_word_ariths unat_of_nat)
qed

text \<open>Reading within the contents takes a prefix off; reading beyond them sets the failure bit and raises.\<close>

lemma read_within:
  assumes "ready s" and "n \<le> length (contents s)"
  shows "\<exists>s'. CDataStream_read (int n) s = (Inr (take n (contents s)), s') \<and> ready s' \<and> contents s' = drop n (contents s)
    \<and> ds_state s' = ds_state s \<and> exceptmask s' = exceptmask s"
proof -
  have len: "unat (nReadPos s) + n \<le> length (ds_vch s)" using length_contents [OF assms(1)] assms(2) by simp
  then have "n \<le> 2 ^ 31" using assms(1) by (simp add: ready_def)
  then have next_pos: "unat (nReadPos s + word_of_nat n) = unat (nReadPos s) + n" by (rule position_no_wrap [OF assms(1)])
  show ?thesis
  proof (cases "unat (nReadPos s) + n = length (ds_vch s)")
    case True
    then show ?thesis
      using assms(1) next_pos by (auto simp: CDataStream_read_def Let_def and_then_def memcpy_from_def ready_def contents_def)
  next
    case False
    then show ?thesis
      using assms(1) next_pos len by (auto simp: CDataStream_read_def Let_def and_then_def memcpy_from_def ready_def contents_def add.commute)
  qed
qed

lemma read_beyond:
  assumes "ready s" and "length (contents s) < n" and "n < 2 ^ 31" and "exceptmask s AND failbit \<noteq> 0"
  shows "CDataStream_read (int n) s = (Inl (Failure ''CDataStream::read() : end of data''), s\<lparr>ds_state := ds_state s OR failbit\<rparr>)"
proof -
  have "unat (nReadPos s + word_of_nat n) = unat (nReadPos s) + n" using assms by (intro position_no_wrap) auto
  moreover have "(ds_state s OR failbit) AND exceptmask s \<noteq> 0"
    using assms(4) by (simp add: bit_eq_iff bit_simps) blast
  ultimately show ?thesis
    using length_contents [OF assms(1)] assms(2) by (simp add: CDataStream_read_def Let_def and_then_def setstate_def)
qed

lemma reads_bytes [reads_intros]:
  assumes "ready s" and "contents s = bytes @ rest" and "n = int (length bytes)"
  shows "reads (CDataStream_read n) s bytes rest"
  using read_within [OF assms(1), of "length bytes"] assms(2,3) by (auto simp: reads_def)

section \<open>Reading back integers and sizes\<close>

lemma length_ser_int [simp]: "length (ser_int (a :: 'a::len word)) = LENGTH('a) div 8"
  by (simp add: ser_int_def sizeof_def)

lemma reads_int [reads_intros]:
  assumes "ready s" and "contents s = ser_int a @ rest" and "LENGTH('a::len) = 8 * (LENGTH('a) div 8)"
  shows "reads unser_int s (a :: 'a word) rest"
proof -
  have "unat a < 2 ^ (8 * (LENGTH('a) div 8))" using unat_less_exp [of a] assms(3) by metis
  then have "unat a < 256 ^ (LENGTH('a) div 8)" by (simp add: power_mult)
  then have "of_nat (bytes_val (ser_int a)) = a" by (simp add: ser_int_def sizeof_def bytes_val_le_bytes)
  moreover have "int (sizeof TYPE('a)) = int (length (ser_int a))" by (simp add: sizeof_def)
  note reads_bytes [OF assms(1,2) this]
  ultimately show ?thesis unfolding unser_int_def
    by (elim reads_and_then) (simp add: reads_returning)
qed

lemma read_inverse:
  assumes "ready s" and "exceptmask s AND failbit \<noteq> 0" and "n < 2 ^ 31" and "CDataStream_read (int n) s = (Inr bytes, s')"
  shows "contents s = bytes @ contents s' \<and> length bytes = n \<and> ready s' \<and> exceptmask s' = exceptmask s"
proof -
  have "n \<le> length (contents s)"
    using read_beyond [OF assms(1) _ assms(3,2)] assms(4) by (cases "n \<le> length (contents s)") auto
  then show ?thesis using read_within [OF assms(1), of n] assms(4) by auto
qed

lemma int_inverse:
  assumes "ready s" and "exceptmask s AND failbit \<noteq> 0" and "LENGTH('a::len) = 8 * (LENGTH('a) div 8)" and "LENGTH('a) < 2 ^ 31"
    and "unser_int s = (Inr (a :: 'a word), s')"
  shows "contents s = ser_int a @ contents s' \<and> ready s' \<and> exceptmask s' = exceptmask s"
proof -
  obtain bytes where r: "CDataStream_read (int (LENGTH('a) div 8)) s = (Inr bytes, s')" and a: "a = of_nat (bytes_val bytes)"
    using assms(5) by (auto simp: unser_int_def and_then_def returning_def sizeof_def split: prod.splits sum.splits)
  have *: "contents s = bytes @ contents s'" "length bytes = LENGTH('a) div 8" "ready s'" "exceptmask s' = exceptmask s"
    using read_inverse [OF assms(1,2) _ r] assms(4) by auto
  have "bytes_val bytes < 2 ^ (8 * (LENGTH('a) div 8))" using bytes_val_bound [of bytes] *(2) by (simp add: power_mult)
  then have "bytes_val bytes < 2 ^ LENGTH('a)" using assms(3) by simp
  then have "unat a = bytes_val bytes" unfolding a by (simp add: unat_of_nat)
  then have "ser_int a = bytes" using *(2) by (simp add: ser_int_def sizeof_def le_bytes_bytes_val)
  then show ?thesis using * by simp
qed

lemmas int_inverses =
  int_inverse [where 'a = 8, simplified] int_inverse [where 'a = 16, simplified]
  int_inverse [where 'a = 32, simplified] int_inverse [where 'a = 64, simplified]

lemma unat_ucast_less: "unat a < 2 ^ LENGTH('b) \<Longrightarrow> unat (ucast (a :: 'a::len word) :: 'b::len word) = unat a"
  by (simp add: unsigned_ucast_eq take_bit_nat_eq_self)

lemma ucast_back: "unat a < 2 ^ LENGTH('b) \<Longrightarrow> ucast (ucast (a :: 'a::len word) :: 'b::len word) = a"
  by (metis unat_ucast_less unsigned_less word_unat_eq_iff)

lemma reads_check_size [reads_intros]:
  "ready s \<Longrightarrow> contents s = rest \<Longrightarrow> least \<le> n \<Longrightarrow> unat n \<le> MAX_SIZE \<Longrightarrow> reads (check_size least n) s n rest"
  by (simp add: check_size_def not_less [symmetric] reads_returning word_less_nat_alt MAX_SIZE_def)

lemma compact_size_read:
  assumes "ready s" and "contents s = WriteCompactSize n @ rest" and "unat n \<le> MAX_SIZE"
  shows "reads ReadCompactSize s n rest"
proof -
  have n: "n < 0x100000000" using assms(3) by (simp add: MAX_SIZE_def word_less_nat_alt)
  consider "n < 253" | "253 \<le> n" "n \<le> 0xFFFF" | "0x10000 \<le> n"
    by (cases "n < 253"; cases "n \<le> 0xFFFF") (auto simp: word_le_nat_alt word_less_nat_alt)
  then show ?thesis
  proof cases
    case 1
    then have u: "ucast (ucast n :: u8) = n" by (intro ucast_back) (simp add: word_less_nat_alt)
    have "(ucast n :: u8) < 253" using 1 by (simp add: word_less_nat_alt unat_ucast_less)
    moreover have "contents s = ser_int (ucast n :: u8) @ rest" using assms(2) 1 by (simp add: WriteCompactSize_def)
    ultimately show ?thesis unfolding ReadCompactSize_def
      by (intro reads_and_then [OF reads_int [OF assms(1)]]) (auto simp: u intro!: reads_check_size assms(3))
  next
    case 2
    then have u: "ucast (ucast n :: u16) = n" by (intro ucast_back) (simp add: word_le_nat_alt)
    have "contents s = ser_int (253 :: u8) @ ser_int (ucast n :: u16) @ rest"
      using assms(2) 2 by (simp add: WriteCompactSize_def not_less [symmetric])
    then show ?thesis unfolding ReadCompactSize_def using 2
      by (intro reads_and_then [OF reads_int [OF assms(1)]])
        (auto simp: u intro!: reads_and_then [OF reads_int] reads_check_size assms(3))
  next
    case 3
    then have u: "ucast (ucast n :: u32) = n" using n by (intro ucast_back) (simp add: word_less_nat_alt)
    have "\<not> n < 253" "\<not> n \<le> 0xFFFF" "n \<le> 0xFFFFFFFF" using 3 n by (auto simp: word_le_nat_alt word_less_nat_alt)
    then have "contents s = ser_int (254 :: u8) @ ser_int (ucast n :: u32) @ rest"
      using assms(2) by (simp add: WriteCompactSize_def)
    then show ?thesis unfolding ReadCompactSize_def using 3
      by (intro reads_and_then [OF reads_int [OF assms(1)]])
        (auto simp: u intro!: reads_and_then [OF reads_int] reads_check_size assms(3))
  qed
qed

lemma check_size_inverse:
  "check_size least n s = (Inr m, s') \<Longrightarrow> m = n \<and> s' = s \<and> least \<le> n \<and> unat n \<le> MAX_SIZE"
  by (auto simp: check_size_def throwing_def returning_def MAX_SIZE_def word_less_nat_alt word_le_nat_alt split: if_splits)

lemma size_byte_cases: "(ch :: u8) < 253 \<or> ch = 253 \<or> ch = 254 \<or> ch = 255"
proof -
  have "n < 256 \<Longrightarrow> n < 253 \<or> n = 253 \<or> n = 254 \<or> n = 255" for n :: nat by linarith
  from this [of "unat ch"] show ?thesis by (simp add: word_less_nat_alt word_unat_eq_iff)
qed

lemma compact_size_inverse:
  assumes "ready s" and "exceptmask s AND failbit \<noteq> 0" and "ReadCompactSize s = (Inr n, s')"
  shows "contents s = WriteCompactSize n @ contents s' \<and> unat n \<le> MAX_SIZE \<and> ready s' \<and> exceptmask s' = exceptmask s"
proof -
  obtain ch s1 where ch: "unser_int s = (Inr (ch :: u8), s1)"
    using assms(3) by (auto simp: ReadCompactSize_def and_then_def split: prod.splits sum.splits)
  have c: "contents s = ser_int ch @ contents s1" "ready s1" "exceptmask s1 AND failbit \<noteq> 0" "exceptmask s1 = exceptmask s"
    using int_inverses(1) [OF assms(1,2) ch] assms(2) by auto
  from size_byte_cases [of ch] consider "ch < 253" | "ch = 253" | "ch = 254" | "ch = 255" by blast
  then show ?thesis
  proof cases
    case 1
    then have r: "check_size 0 (ucast ch) s1 = (Inr n, s')"
      using assms(3) ch by (simp add: ReadCompactSize_def and_then_def)
    have u: "unat (ucast ch :: u64) = unat ch" by (rule unat_ucast_less) (rule less_trans [OF unat_u8_less], simp)
    have "ucast ch < (253 :: u64)" using 1 u by (simp add: word_less_nat_alt)
    moreover have "ucast (ucast ch :: u64) = ch" by (rule ucast_back) (rule less_trans [OF unat_u8_less], simp)
    ultimately show ?thesis using check_size_inverse [OF r] c by (simp add: WriteCompactSize_def)
  next
    case 2
    obtain x s2 where x: "unser_int s1 = (Inr (x :: u16), s2)" and r: "check_size 253 (ucast x) s2 = (Inr n, s')"
      using assms(3) ch 2 by (auto simp: ReadCompactSize_def and_then_def split: prod.splits sum.splits)
    have u: "unat (ucast x :: u64) = unat x" by (rule unat_ucast_less) (rule less_trans [OF unat_less_exp], simp)
    have "ucast x \<le> (0xFFFF :: u64)" using unat_less_exp [of x] u by (simp add: word_le_nat_alt)
    moreover have "ucast (ucast x :: u64) = x" by (rule ucast_back) (rule less_trans [OF unat_less_exp], simp)
    ultimately show ?thesis
      using check_size_inverse [OF r] c int_inverses(2) [OF c(2,3) x] 2 by (simp add: WriteCompactSize_def not_less [symmetric])
  next
    case 3
    obtain x s2 where x: "unser_int s1 = (Inr (x :: u32), s2)" and r: "check_size 0x10000 (ucast x) s2 = (Inr n, s')"
      using assms(3) ch 3 by (auto simp: ReadCompactSize_def and_then_def split: prod.splits sum.splits)
    have u: "unat (ucast x :: u64) = unat x" by (rule unat_ucast_less) (rule less_trans [OF unat_less_exp], simp)
    have "ucast x \<le> (0xFFFFFFFF :: u64)" using unat_less_exp [of x] u by (simp add: word_le_nat_alt)
    moreover have "ucast (ucast x :: u64) = x" by (rule ucast_back) (rule less_trans [OF unat_less_exp], simp)
    moreover have "\<not> ucast x < (253 :: u64)" "\<not> ucast x \<le> (0xFFFF :: u64)"
      using check_size_inverse [OF r] u by (auto simp: word_le_nat_alt word_less_nat_alt)
    ultimately show ?thesis
      using check_size_inverse [OF r] c int_inverses(3) [OF c(2,3) x] 3 by (simp add: WriteCompactSize_def)
  next
    case 4
    obtain x s2 where r: "check_size 0x100000000 x s2 = (Inr n, s')"
      using assms(3) ch 4 by (auto simp: ReadCompactSize_def and_then_def split: prod.splits sum.splits)
    have False using check_size_inverse [OF r] by (auto simp: word_le_nat_alt MAX_SIZE_def)
    then show ?thesis ..
  qed
qed

lemma compact_size_size: "GetSizeOfCompactSize n = of_nat (length (WriteCompactSize n))"
  by (simp add: GetSizeOfCompactSize_def WriteCompactSize_def)

section \<open>The interface of a serialisable type\<close>

locale serialisable =
  fixes valid :: "'a \<Rightarrow> bool" and ser :: "'a \<Rightarrow> vch_t" and unser :: "'a reader" and size_of :: "'a \<Rightarrow> u32"
  assumes size_ser: "valid x \<Longrightarrow> size_of x = of_nat (length (ser x))"
    and unser_ser: "valid x \<Longrightarrow> ready s \<Longrightarrow> contents s = ser x @ rest \<Longrightarrow> reads unser s x rest"
begin

text \<open>No encoding is the beginning of another one.\<close>

lemma ser_inject:
  assumes "valid x" and "valid y" and "ser x @ xs = ser y @ ys" and "length (ser x @ xs) < 2 ^ 31"
  shows "x = y \<and> xs = ys"
proof -
  define s where "s = stream_Init 0 0 (ser x @ xs)"
  have "ready s" "contents s = ser x @ xs" "contents s = ser y @ ys"
    using assms(3,4) by (simp_all add: s_def ready_def contents_def stream_Init_def)
  then have "reads unser s x xs" "reads unser s y ys" using unser_ser assms(1,2) by blast+
  then show ?thesis by (auto simp: reads_def)
qed

lemma read_items_ser:
  assumes "list_all valid v" and "ready s" and "contents s = concat (map ser v) @ rest"
  shows "reads (read_items unser (length v) w) s (w @ v) rest"
  using assms
proof (induction v arbitrary: s w)
  case Nil
  then show ?case by (simp add: reads_returning)
next
  case (Cons x v)
  then have "reads unser s x (concat (map ser v) @ rest)" by (intro unser_ser) auto
  moreover have "reads (read_items unser (length v) (w @ [x])) s' ((w @ [x]) @ v) rest"
    if "ready s'" and "contents s' = concat (map ser v) @ rest" for s'
    using Cons that by (intro Cons.IH) auto
  ultimately show ?case by (simp add: reads_and_then)
qed

lemma read_stretches_ser:
  assumes "list_all valid v" and "ready s" and "contents s = concat (map ser v) @ rest"
    and "0 < 5000000 div per" and "n + length v = nSize"
  shows "reads (read_stretches unser per nSize n w) s (w @ v) rest"
  using assms
proof (induction "length v" arbitrary: v n s w rule: less_induct)
  case less
  show ?case
  proof (cases "n < nSize")
    case False
    then have "length v = 0" using less.prems(5) by linarith
    then have "v = []" by simp
    then show ?thesis using less.prems False by (simp add: reads_returning)
  next
    case True
    define k where "k = (if nSize < n + 5000000 div per then nSize else n + 5000000 div per) - n"
    have k: "0 < k" "k \<le> length v" using True less.prems(4,5) by (auto simp: k_def)
    let ?a = "take k v" and ?b = "drop k v"
    have all: "list_all valid ?a" "list_all valid ?b"
      using less.prems(1) by (auto simp: list_all_iff dest: in_set_takeD in_set_dropD)
    have v: "concat (map ser v) = concat (map ser ?a) @ concat (map ser ?b)"
      by (metis append_take_drop_id concat_append map_append)
    have 1: "reads (read_items unser k w) s (w @ ?a) (concat (map ser ?b) @ rest)"
      using read_items_ser [OF all(1) less.prems(2), of "concat (map ser ?b) @ rest" w] less.prems(3) v k by (simp add: min_absorb2)
    have 2: "reads (read_stretches unser per nSize (n + k) (w @ ?a)) s' (w @ v) rest"
      if "ready s'" and "contents s' = concat (map ser ?b) @ rest" for s'
      using less.hyps [of ?b s' "n + k" "w @ ?a"] that k less.prems(4,5) all(2) by simp
    have "(if nSize < n + 5000000 div per then nSize else n + 5000000 div per) = n + k" using k by (simp add: k_def)
    then show ?thesis using True less.prems(4)
      by (subst read_stretches.simps)
        (simp add: Let_def reads_and_then [where f = "read_stretches unser per nSize (n + k)", OF 1 2])
  qed
qed

lemma fold_size:
  "list_all valid v \<Longrightarrow> fold (\<lambda>x nSize. nSize + size_of x) v n = n + of_nat (length (concat (map ser v)))"
  by (induction v arbitrary: n) (simp_all add: size_ser)

lemma read_keys_ser:
  assumes "list_all valid v" and "ready s" and "contents s = concat (map ser v) @ rest"
  shows "reads (read_keys unser (length v) m) s (m \<union> set v) rest"
  using assms
proof (induction v arbitrary: s m)
  case Nil
  then show ?case by (simp add: reads_returning)
next
  case (Cons x v)
  then have "reads unser s x (concat (map ser v) @ rest)" by (intro unser_ser) auto
  moreover have "reads (read_keys unser (length v) (insert x m)) s' (insert x m \<union> set v) rest"
    if "ready s'" and "contents s' = concat (map ser v) @ rest" for s'
    using Cons that by (intro Cons.IH) auto
  ultimately show ?case by (simp add: reads_and_then)
qed

end

text \<open>The values a template can write and read back, given those of its arguments.\<close>

definition valid_pair :: "('k \<Rightarrow> bool) \<Rightarrow> ('v \<Rightarrow> bool) \<Rightarrow> 'k \<times> 'v \<Rightarrow> bool" where
  "valid_pair validk validv item \<longleftrightarrow> validk (fst item) \<and> validv (snd item)"

definition valid_vector :: "('a \<Rightarrow> bool) \<Rightarrow> 'a list \<Rightarrow> bool" where
  "valid_vector valid v \<longleftrightarrow> list_all valid v \<and> length v \<le> MAX_SIZE"

definition valid_map :: "('k::linorder \<Rightarrow> bool) \<Rightarrow> ('v \<Rightarrow> bool) \<Rightarrow> ('k, 'v) std_map \<Rightarrow> bool" where
  "valid_map validk validv m \<longleftrightarrow> std_ok m \<and> valid_vector (valid_pair validk validv) m"

definition valid_set :: "('a::linorder \<Rightarrow> bool) \<Rightarrow> 'a set \<Rightarrow> bool" where
  "valid_set valid m \<longleftrightarrow> finite m \<and> (\<forall>x \<in> m. valid x) \<and> card m \<le> MAX_SIZE"

lemma length_as_size: "n \<le> MAX_SIZE \<Longrightarrow> unat (of_nat n :: u64) = n"
  by (simp add: MAX_SIZE_def unat_of_nat)

text \<open>A size followed by what it counts.\<close>

lemma reads_counted:
  assumes "ready s" and "contents s = WriteCompactSize (of_nat n) @ rest" and "n \<le> MAX_SIZE"
    and "\<And>s'. ready s' \<Longrightarrow> contents s' = rest \<Longrightarrow> reads (f n) s' x rest'"
  shows "reads (and_then ReadCompactSize (\<lambda>nSize. f (unat nSize))) s x rest'"
  using compact_size_read [OF assms(1,2)] assms(3,4)
  by (auto simp: length_as_size intro!: reads_and_then [where x = "of_nat n"])

locale serialisable_pair =
  first: serialisable validk serk unserk sizek + second: serialisable validv serv unserv sizev
  for validk :: "'k::linorder \<Rightarrow> bool" and serk unserk sizek and validv :: "'v \<Rightarrow> bool" and serv unserv sizev

sublocale serialisable_pair \<subseteq> item: serialisable "valid_pair validk validv" "ser_pair serk serv" "unser_pair unserk unserv"
    "size_pair sizek sizev"
proof
  fix item :: "'k \<times> 'v" and s rest
  assume v: "valid_pair validk validv item"
  then show "size_pair sizek sizev item = of_nat (length (ser_pair serk serv item))"
    by (simp add: valid_pair_def size_pair_def ser_pair_def first.size_ser second.size_ser)
  assume "ready s" and "contents s = ser_pair serk serv item @ rest"
  then have "reads unserk s (fst item) (serv (snd item) @ rest)"
    using v first.unser_ser by (simp add: valid_pair_def ser_pair_def)
  moreover have "reads unserv s' (snd item) rest" if "ready s'" and "contents s' = serv (snd item) @ rest" for s'
    using v second.unser_ser that by (simp add: valid_pair_def)
  ultimately show "reads (unser_pair unserk unserv) s item rest"
    unfolding unser_pair_def by (auto intro!: reads_and_then reads_returning)
qed

locale serialisable_elements = serialisable +
  fixes per :: nat
  assumes per: "0 < 5000000 div per"

sublocale serialisable_elements \<subseteq> vector: serialisable "valid_vector valid" "ser_vector ser" "unser_vector per unser"
    "size_vector size_of"
proof
  fix v :: "'a list" and s rest
  assume v: "valid_vector valid v"
  then show "size_vector size_of v = of_nat (length (ser_vector ser v))"
    by (simp add: valid_vector_def size_vector_def ser_vector_def fold_size compact_size_size)
  assume "ready s" and "contents s = ser_vector ser v @ rest"
  then show "reads (unser_vector per unser) s v rest"
    unfolding unser_vector_def using v read_stretches_ser [of v _ rest per 0 "length v" "[]"] per
    by (intro reads_counted [where n = "length v" and rest = "concat (map ser v) @ rest"])
      (auto simp: valid_vector_def ser_vector_def)
qed

locale serialisable_keys = serialisable valid ser unser size_of
  for valid :: "'k::linorder \<Rightarrow> bool" and ser unser size_of

sublocale serialisable_keys \<subseteq> keys: serialisable "valid_set valid" "ser_set ser" "unser_set unser" "size_set size_of"
proof
  fix m :: "'k set" and s rest
  assume m: "valid_set valid m"
  then have v: "list_all valid (sorted_list_of_set m)" by (auto simp: valid_set_def list_all_iff)
  then show "size_set size_of m = of_nat (length (ser_set ser m))"
    by (simp add: size_set_def ser_set_def fold_size compact_size_size)
  assume "ready s" and "contents s = ser_set ser m @ rest"
  then show "reads (unser_set unser) s m rest"
    unfolding unser_set_def using m read_keys_ser [OF v, of _ rest "{}"]
    by (intro reads_counted [where n = "card m" and rest = "concat (map ser (sorted_list_of_set m)) @ rest"])
      (auto simp: valid_set_def ser_set_def)
qed

lemma std_put_last: "(\<forall>l \<in> fst ` set m. l < k) \<Longrightarrow> std_put k v m = m @ [(k, v)]"
  by (induction m) (auto simp: neq_iff)

lemma std_ok_append: "std_ok (m @ (k, v) # m') \<Longrightarrow> std_insert (k, v) m = m @ [(k, v)]"
  using std_put_last [of m k v] by (fastforce simp: std_ok_def std_insert_def std_count_def sorted_wrt_append)

context serialisable_pair
begin

lemma read_entries_ser:
  assumes "std_ok (m @ v)" and "list_all (valid_pair validk validv) v" and "ready s"
    and "contents s = concat (map (ser_pair serk serv) v) @ rest"
  shows "reads (read_entries (unser_pair unserk unserv) (length v) m) s (m @ v) rest"
  using assms
proof (induction v arbitrary: s m)
  case Nil
  then show ?case by (simp add: reads_returning)
next
  case (Cons e v)
  then have "reads (unser_pair unserk unserv) s e (concat (map (ser_pair serk serv) v) @ rest)" by (intro item.unser_ser) auto
  moreover have "std_insert e m = m @ [e]" using std_ok_append [of m "fst e" "snd e" v] Cons.prems(1) by simp
  moreover have "reads (read_entries (unser_pair unserk unserv) (length v) (m @ [e])) s' ((m @ [e]) @ v) rest"
    if "ready s'" and "contents s' = concat (map (ser_pair serk serv) v) @ rest" for s'
    using Cons.prems(1,2) that by (intro Cons.IH) auto
  ultimately show ?case by (auto intro!: reads_and_then)
qed

end

sublocale serialisable_pair \<subseteq> entries: serialisable "valid_map validk validv" "ser_map serk serv" "unser_map unserk unserv"
    "size_map sizek sizev"
proof
  fix m :: "('k \<times> 'v) list" and s rest
  assume m: "valid_map validk validv m"
  then show "size_map sizek sizev m = of_nat (length (ser_map serk serv m))"
    by (simp add: valid_map_def valid_vector_def size_map_def ser_map_def item.fold_size compact_size_size)
  assume "ready s" and "contents s = ser_map serk serv m @ rest"
  then show "reads (unser_map unserk unserv) s m rest"
    unfolding unser_map_def using m read_entries_ser [of "[]" m _ rest]
    by (intro reads_counted [where n = "length m" and rest = "concat (map (ser_pair serk serv) m) @ rest"])
      (auto simp: valid_map_def valid_vector_def ser_map_def)
qed

section \<open>Bytes in blocks\<close>

declare read_blocks.simps [simp del]

text \<open>Reading in blocks is reading at once.\<close>

lemma read_blocks_bytes:
  assumes "ready s" and "contents s = bytes @ rest" and "length bytes = (nSize - i) * per" and "i \<le> nSize"
  shows "reads (read_blocks per nSize i v) s (v @ bytes) rest"
  using assms
proof (induction "nSize - i" arbitrary: i bytes s v rule: less_induct)
  case less
  show ?case
  proof (cases "i < nSize")
    case False
    then show ?thesis using less.prems by (simp add: read_blocks.simps reads_returning)
  next
    case True
    define blk where "blk = min (nSize - i) (1 + 4999999 div per)"
    have blk: "0 < blk" "i + blk \<le> nSize" using True by (auto simp: blk_def)
    let ?a = "take (blk * per) bytes" and ?b = "drop (blk * per) bytes"
    have len: "blk * per \<le> length bytes" using blk by (simp add: less.prems(3) blk_def)
    then have 1: "reads (CDataStream_read (int (blk * per))) s ?a (?b @ rest)"
      by (intro reads_bytes less.prems(1)) (simp_all add: less.prems(2) del: of_nat_mult)
    have "(nSize - i) * per - blk * per = (nSize - (i + blk)) * per" by (simp add: algebra_simps diff_mult_distrib)
    then have 2: "reads (read_blocks per nSize (i + blk) (v @ ?a)) s' (v @ bytes) rest"
      if "ready s'" and "contents s' = ?b @ rest" for s'
      using less.hyps [of "i + blk" s' ?b "v @ ?a"] that blk less.prems(3) by simp
    have eq: "read_blocks per nSize i v = and_then (CDataStream_read (int (blk * per))) (\<lambda>bytes. read_blocks per nSize (i + blk) (v @ bytes))"
      using True by (subst read_blocks.simps) (simp only: Let_def blk_def if_True)
    show ?thesis unfolding eq
      by (rule reads_and_then [where f = "\<lambda>bytes. read_blocks per nSize (i + blk) (v @ bytes)", OF 1 2])
  qed
qed

lemma cut_into_images:
  assumes "LENGTH('a::len) = 8 * (LENGTH('a) div 8)"
  shows "map (\<lambda>image. of_nat (bytes_val image)) (cut_into (sizeof TYPE('a)) (length v) (concat (map ser_int v))) = (v :: 'a word list)"
proof (induction v)
  case (Cons a v)
  have "unat a < 2 ^ (8 * (LENGTH('a) div 8))" using unat_less_exp [of a] assms by metis
  then have "of_nat (bytes_val (ser_int a)) = a" by (simp add: ser_int_def sizeof_def bytes_val_le_bytes power_mult)
  then show ?case using Cons by (simp add: sizeof_def)
qed simp

lemma length_images: "length (concat (map ser_int (v :: 'a::len word list))) = length v * sizeof TYPE('a)"
  by (induction v) (simp_all add: sizeof_def)

lemma reads_vector_pod:
  assumes "ready s" and "contents s = ser_vector_pod v @ rest" and "length v \<le> MAX_SIZE"
    and "LENGTH('a::len) = 8 * (LENGTH('a) div 8)"
  shows "reads unser_vector_pod s (v :: 'a word list) rest"
proof -
  let ?bytes = "concat (map ser_int v)" and ?per = "sizeof TYPE('a)"
  have "reads (and_then (read_blocks ?per (length v) 0 []) (\<lambda>bytes.
      returning (map (\<lambda>image. of_nat (bytes_val image)) (cut_into ?per (length v) bytes)))) s' v rest"
    if "ready s'" and "contents s' = ?bytes @ rest" for s'
    using read_blocks_bytes [OF that, of "length v" 0 ?per "[]"] cut_into_images [OF assms(4), of v]
    by (auto simp: length_images intro!: reads_and_then reads_returning)
  then show ?thesis unfolding unser_vector_pod_def
    using assms(2) by (intro reads_counted [OF assms(1) _ assms(3)]) (auto simp: ser_vector_pod_def)
qed

lemma reads_string:
  assumes "ready s" and "contents s = ser_string str @ rest" and "length str \<le> MAX_SIZE"
  shows "reads unser_string s str rest"
proof -
  have "reads (if length str \<noteq> 0 then CDataStream_read (int (length str)) else returning []) s' str rest"
    if "ready s'" and "contents s' = str @ rest" for s'
    using that by (cases "str = []") (auto intro!: reads_intros)
  then have "reads (and_then ReadCompactSize (\<lambda>nSize. (\<lambda>n. if n \<noteq> 0 then CDataStream_read (int n) else returning []) (unat nSize))) s str rest"
    using assms(2) by (intro reads_counted [OF assms(1) _ assms(3)]) (auto simp: ser_string_def)
  then show ?thesis by (simp add: unser_string_def word_unat_eq_iff)
qed

section \<open>Variable-length integers read back\<close>

text \<open>The digits above the last one, each with the continuation bit.\<close>

function high_digits :: "nat \<Rightarrow> vch_t" where
  "high_digits m = (if m \<le> 127 then [of_nat (128 + m)] else high_digits (m div 128 - 1) @ [of_nat (128 + m mod 128)])"
  by pat_completeness auto
termination
  by (relation "measure id") auto

declare high_digits.simps [simp del] varint_loop.simps [simp del] GetSizeOfVarInt.simps [simp del]

definition varint_bytes :: "nat \<Rightarrow> vch_t" where
  "varint_bytes n = (if n \<le> 127 then [] else high_digits (n div 128 - 1)) @ [of_nat (n mod 128)]"

lemma not_word_le_127:
  assumes "8 \<le> LENGTH('a::len)"
  shows "(n :: 'a word) \<le> 0x7F \<longleftrightarrow> unat n \<le> 127"
proof -
  have "(2::nat) ^ 8 \<le> 2 ^ LENGTH('a)" using assms by (rule power_increasing) simp
  then have "unat (0x7F :: 'a word) = 127" by (simp add: unsigned_numeral take_bit_nat_eq_self)
  then show ?thesis by (simp add: word_le_nat_alt)
qed

lemma low_digit: "(ucast (n AND 0x7F) :: u8) = of_nat (unat (n :: 'a::len word) mod 128)"
proof -
  have m: "(0x7F :: 'a word) = mask 7" by (simp add: mask_eq_exp_minus_1)
  have "unat n mod 128 = take_bit 7 (unat n)" by (simp add: take_bit_eq_mod)
  then show ?thesis unfolding m by (simp add: take_bit_eq_mask [symmetric]) (rule bit_word_eqI, auto simp: bit_simps)
qed

lemma or_continuation:
  assumes "d < 128"
  shows "(of_nat d OR 0x80 :: u8) = of_nat (128 + d)"
proof -
  have "128 + d = d OR push_bit 7 1" using nat_add_eq_or [of d 7 1] assms by (simp add: push_bit_eq_mult)
  moreover have "(0x80 :: u8) = of_nat (push_bit 7 1)" by (simp add: push_bit_eq_mult)
  ultimately show ?thesis by (metis of_nat_or_eq)
qed

lemma varint_loop_high:
  assumes "8 \<le> LENGTH('a::len)" and "tmp \<noteq> []"
  shows "varint_loop (n :: 'a word) tmp = tmp @ rev (high_digits (unat n))"
  using assms(2)
proof (induction n tmp rule: varint_loop.induct)
  case (1 n tmp)
  have b: "(ucast (n AND 0x7F) OR 0x80 :: u8) = of_nat (128 + unat n mod 128)"
    unfolding low_digit by (rule or_continuation) simp
  show ?case
  proof (cases "n \<le> 0x7F")
    case True
    then have "unat n \<le> 127" using not_word_le_127 [OF assms(1)] by simp
    then show ?thesis using True b 1(2)
      by (subst varint_loop.simps, subst high_digits.simps) (simp add: Let_def)
  next
    case False
    then have "\<not> unat n \<le> 127" using not_word_le_127 [OF assms(1)] by simp
    then show ?thesis using False b 1(2) 1(1) [OF refl False] shift_decreases(2) [OF False]
      by (subst varint_loop.simps, subst high_digits.simps) (simp add: Let_def)
  qed
qed

lemma WriteVarInt_bytes:
  assumes "8 \<le> LENGTH('a::len)"
  shows "WriteVarInt (n :: 'a word) = varint_bytes (unat n)"
proof (cases "n \<le> 0x7F")
  case True
  then show ?thesis using not_word_le_127 [OF assms, of n] low_digit [of n]
    by (simp add: WriteVarInt_def varint_bytes_def varint_loop.simps [of n] Let_def)
next
  case False
  then show ?thesis using not_word_le_127 [OF assms, of n] low_digit [of n] varint_loop_high [OF assms, of "[_]"] shift_decreases(2) [OF False]
    by (simp add: WriteVarInt_def varint_bytes_def varint_loop.simps [of n] Let_def)
qed

lemma GetSizeOfVarInt_high:
  assumes "8 \<le> LENGTH('a::len)"
  shows "GetSizeOfVarInt (n :: 'a word) = length (high_digits (unat n))"
proof (induction n rule: GetSizeOfVarInt.induct)
  case (1 n)
  then show ?case using not_word_le_127 [OF assms, of n] shift_decreases(2) [of n]
    by (subst GetSizeOfVarInt.simps, subst high_digits.simps) simp
qed

lemma length_varint_bytes: "length (varint_bytes n) = length (high_digits n)"
  by (subst high_digits.simps) (simp add: varint_bytes_def)

lemma length_high_digits:
  assumes "m < 2 ^ (7 * j)" and "0 < j"
  shows "length (high_digits m) \<le> j"
  using assms
proof (induction j arbitrary: m)
  case (Suc j)
  show ?case
  proof (cases "m \<le> 127")
    case False
    have "m div 128 < 2 ^ (7 * j)" using Suc.prems(1) by (simp add: power_add less_mult_imp_div_less mult.commute)
    moreover have "0 < j" using False Suc.prems(1) by (cases j) auto
    ultimately show ?thesis using Suc.IH [of "m div 128 - 1"] False by (simp add: high_digits.simps [of m])
  qed (simp add: high_digits.simps [of m])
qed simp

lemma varint_array:
  assumes "8 \<le> LENGTH('a::len)"
  shows "length (WriteVarInt (n :: 'a word)) \<le> (LENGTH('a) + 6) div 7"
proof -
  have "(2::nat) ^ LENGTH('a) \<le> 2 ^ (7 * ((LENGTH('a) + 6) div 7))" by (rule power_increasing) auto
  with unat_less_exp [of n] have "unat n < 2 ^ (7 * ((LENGTH('a) + 6) div 7))" by (rule less_le_trans)
  then have "length (high_digits (unat n)) \<le> (LENGTH('a) + 6) div 7"
    using assms by (intro length_high_digits) auto
  then show ?thesis by (simp add: WriteVarInt_bytes [OF assms] length_varint_bytes)
qed

lemma shift_in_digit: "push_bit 7 n OR ucast (b AND 0x7F :: u8) = n * 128 + ucast (b AND 0x7F :: u8)" for n :: "'a::len word"
proof -
  have m: "(0x7F :: u8) = mask 7" by (simp add: mask_eq_exp_minus_1)
  have "push_bit 7 n + ucast (b AND 0x7F) = push_bit 7 n OR ucast (b AND 0x7F)"
    unfolding m by (rule disjunctive_add) (auto simp: bit_simps)
  then show ?thesis by (simp add: push_bit_eq_mult)
qed

lemma read_varint_step:
  assumes "ready s" and "contents s = b # rest"
  shows "\<exists>s'. ready s' \<and> contents s' = rest \<and> read_varint n s =
    (let n = n * 128 + ucast (b AND 0x7F) in if b AND 0x80 \<noteq> 0 then read_varint (n + 1) s' else Some (Inr n, s'))"
proof -
  obtain s' where "CDataStream_read 1 s = (Inr [b], s')" and s': "ready s'" "contents s' = rest"
    using read_within [OF assms(1), of 1] assms(2) by auto
  then show ?thesis by (intro exI [of _ s']) (simp add: read_varint.simps [of n s] Let_def shift_in_digit)
qed

lemma digit_bits:
  assumes "d < 128"
  shows "(of_nat (128 + d) :: u8) AND 0x80 \<noteq> 0" and "(of_nat d :: u8) AND 0x80 = 0"
    and "ucast ((of_nat (128 + d) :: u8) AND 0x7F) = (of_nat d :: 'a::len word)" and "ucast ((of_nat d :: u8) AND 0x7F) = (of_nat d :: 'a word)"
proof -
  have m: "(0x7F :: u8) = mask 7" by (simp add: mask_eq_exp_minus_1)
  have c: "bit (0x80 :: nat) i \<longleftrightarrow> i = 7" "bit (0x80 :: int) i \<longleftrightarrow> i = 7" for i
    using bit_exp_iff [of 7 i, where 'a = nat] bit_exp_iff [of 7 i, where 'a = int] by auto
  have d: "bit d i \<Longrightarrow> i < 7" for i using bit_nat_less [of d 7 i] assms by simp
  show "(of_nat (128 + d) :: u8) AND 0x80 \<noteq> 0" "(of_nat d :: u8) AND 0x80 = 0"
    unfolding or_continuation [OF assms, symmetric] by (auto simp: bit_eq_iff [where 'a = u8] bit_simps c dest: d)
  show "ucast ((of_nat (128 + d) :: u8) AND 0x7F) = (of_nat d :: 'a::len word)" "ucast ((of_nat d :: u8) AND 0x7F) = (of_nat d :: 'a word)"
    unfolding or_continuation [OF assms, symmetric] m by (auto simp: bit_eq_iff [where 'a = "'a word"] bit_simps c dest: d)
qed

lemma read_continuation:
  assumes "ready s" and "contents s = of_nat (128 + d) # rest" and "d < 128"
  shows "\<exists>s'. ready s' \<and> contents s' = rest \<and> read_varint n s = read_varint (n * 128 + of_nat d + 1 :: 'a::len word) s'"
  using read_varint_step [OF assms(1,2), of n] digit_bits(1) [OF assms(3)] digit_bits(3) [OF assms(3), where 'a = 'a] by (simp add: Let_def)

lemma read_last_digit:
  assumes "ready s" and "contents s = of_nat d # rest" and "d < 128"
  shows "\<exists>s'. ready s' \<and> contents s' = rest \<and> read_varint n s = Some (Inr (n * 128 + of_nat d :: 'a::len word), s')"
  using read_varint_step [OF assms(1,2), of n] digit_bits(2) [OF assms(3)] digit_bits(4) [OF assms(3), where 'a = 'a] by (simp add: Let_def)

lemma of_nat_digits: "of_nat (m div 128) * 128 + of_nat (m mod 128) = (of_nat m :: 'a::len word)"
  by (metis div_mult_mod_eq of_nat_add of_nat_mult of_nat_numeral)

lemma read_high_digits:
  assumes "ready s" and "contents s = high_digits m @ rest"
  shows "\<exists>s'. ready s' \<and> contents s' = rest \<and> read_varint 0 s = read_varint (of_nat m + 1 :: 'a::len word) s'"
  using assms(2)
proof (induction m arbitrary: rest rule: high_digits.induct)
  case (1 m)
  show ?case
  proof (cases "m \<le> 127")
    case True
    then show ?thesis using read_continuation [OF assms(1), of m rest "0 :: 'a word"] 1(2) by (simp add: high_digits.simps [of m])
  next
    case False
    let ?b = "of_nat (128 + m mod 128) :: u8"
    obtain s1 where s1: "ready s1" "contents s1 = ?b # rest" "read_varint 0 s = read_varint (of_nat (m div 128 - 1) + 1 :: 'a word) s1"
      using 1(1) [OF False, of "?b # rest"] 1(2) False by (auto simp: high_digits.simps [of m])
    have "of_nat (m div 128 - 1) + 1 = (of_nat (m div 128) :: 'a word)" using False by (simp add: of_nat_diff div_greater_zero_iff Suc_le_eq)
    then show ?thesis
      using read_continuation [OF s1(1,2), of "of_nat (m div 128) :: 'a word"] s1(3) of_nat_digits [of m, where 'a = 'a] by simp
  qed
qed

lemma reads_varint:
  assumes "8 \<le> LENGTH('a::len)" and "ready s" and "contents s = WriteVarInt n @ rest"
  shows "reads ReadVarInt s (n :: 'a word) rest"
proof -
  have c: "contents s = varint_bytes (unat n) @ rest" using assms(1,3) by (simp add: WriteVarInt_bytes)
  let ?l = "of_nat (unat n mod 128) :: u8" and ?q = "of_nat (unat n div 128) :: 'a word"
  have "\<exists>s1. ready s1 \<and> contents s1 = ?l # rest \<and> read_varint 0 s = read_varint ?q s1"
  proof (cases "unat n \<le> 127")
    case True
    then show ?thesis using assms(2) c by (auto simp: varint_bytes_def)
  next
    case False
    then have "of_nat (unat n div 128 - 1) + 1 = ?q" by (simp add: of_nat_diff div_greater_zero_iff Suc_le_eq)
    then show ?thesis using False read_high_digits [OF assms(2), of "unat n div 128 - 1" "?l # rest", where 'a = 'a] c
      by (simp add: varint_bytes_def)
  qed
  then obtain s1 where s1: "ready s1" "contents s1 = ?l # rest" "read_varint 0 s = read_varint ?q s1" by blast
  then show ?thesis using read_last_digit [OF s1(1,2), of ?q] of_nat_digits [of "unat n", where 'a = 'a]
    by (auto simp: reads_def ReadVarInt_def)
qed

text \<open>The number a sequence of bytes stands for, as the comment on the encoding gives it.\<close>

definition varint_value :: "vch_t \<Rightarrow> nat" where
  "varint_value a =
     unat (a ! (length a - 1) AND 0x7F) + (\<Sum>i = 1..<length a. 128 ^ i * (unat (a ! (length a - i - 1) AND 0x7F) + 1))"

definition varint_shape :: "vch_t \<Rightarrow> bool" where
  "varint_shape a \<longleftrightarrow> a \<noteq> [] \<and> last a AND 0x80 = 0 \<and> (\<forall>b \<in> set (butlast a). b AND 0x80 \<noteq> 0)"

primrec high_value :: "vch_t \<Rightarrow> nat" where
  "high_value [] = 0"
| "high_value (b # bs) = unat (b AND 0x7F) + 1 + 128 * high_value bs"

lemma high_value_sum: "(\<Sum>i < length bs. 128 ^ i * (unat (bs ! i AND 0x7F) + 1)) = high_value bs"
proof (induction bs)
  case (Cons b bs)
  have "(\<Sum>i < length (b # bs). 128 ^ i * (unat ((b # bs) ! i AND 0x7F) + 1))
      = unat (b AND 0x7F) + 1 + (\<Sum>i < length bs. 128 * (128 ^ i * (unat (bs ! i AND 0x7F) + 1)))"
    by (simp del: sum.lessThan_Suc add: sum.lessThan_Suc_shift mult.assoc)
  also have "\<dots> = high_value (b # bs)" unfolding sum_distrib_left [symmetric] Cons by simp
  finally show ?case .
qed simp

lemma varint_value_append: "varint_value (hs @ [l]) = unat (l AND 0x7F) + 128 * high_value (rev hs)"
proof -
  define a where "a = hs @ [l]"
  have "(\<Sum>i = 1..<length a. 128 ^ i * (unat (a ! (length a - i - 1) AND 0x7F) + 1))
      = (\<Sum>i < length hs. 128 ^ Suc i * (unat (a ! (length a - Suc i - 1) AND 0x7F) + 1))"
    using sum.shift_bounds_Suc_ivl [of "\<lambda>i. 128 ^ i * (unat (a ! (length a - i - 1) AND 0x7F) + 1)" 0 "length hs"]
    by (simp only: a_def length_append_singleton One_nat_def lessThan_atLeast0)
  also have "\<dots> = (\<Sum>i < length hs. 128 * (128 ^ i * (unat (rev hs ! i AND 0x7F) + 1)))"
    by (rule sum.cong) (auto simp: a_def nth_append rev_nth)
  also have "\<dots> = 128 * high_value (rev hs)"
    unfolding sum_distrib_left [symmetric] using high_value_sum [of "rev hs"] by simp
  finally show ?thesis unfolding a_def [symmetric] varint_value_def by (simp add: a_def)
qed

lemma low_bits_less: "unat ((b :: u8) AND 0x7F) < 128"
proof -
  have "(0x7F :: u8) = mask 7" by (simp add: mask_eq_exp_minus_1)
  then have "unat (b AND 0x7F) = take_bit 7 (unat b)" by (simp only: take_bit_eq_mask [symmetric] unsigned_take_bit_eq)
  then show ?thesis using take_bit_nat_less_exp [of 7 "unat b"] by simp
qed

lemma low_bits_of_byte:
  assumes "(b :: u8) AND 0x80 \<noteq> 0"
  shows "b = of_nat (128 + unat (b AND 0x7F))"
proof -
  have m: "(0x7F :: u8) = mask 7" by (simp add: mask_eq_exp_minus_1)
  have c: "bit (0x80 :: nat) i \<longleftrightarrow> i = 7" "bit (0x80 :: int) i \<longleftrightarrow> i = 7" for i
    using bit_exp_iff [of 7 i, where 'a = nat] bit_exp_iff [of 7 i, where 'a = int] by auto
  have "bit b 7" using assms by (auto simp: bit_eq_iff [where 'a = u8] bit_simps c)
  then have "b = b AND 0x7F OR 0x80" unfolding m by (auto simp: bit_eq_iff [where 'a = u8] bit_simps c less_Suc_eq numeral_eq_Suc)
  moreover have "unat (b AND 0x7F) < 128" by (rule low_bits_less)
  ultimately show ?thesis using or_continuation [of "unat (b AND 0x7F)"] by simp
qed

lemma last_byte:
  assumes "(b :: u8) AND 0x80 = 0"
  shows "b AND 0x7F = b"
proof -
  have m: "(0x7F :: u8) = mask 7" by (simp add: mask_eq_exp_minus_1)
  have "\<not> bit b 7"
  proof
    assume "bit b 7"
    then have "bit (b AND 0x80) 7" by (simp add: bit_and_iff)
    then show False using assms by simp
  qed
  then show ?thesis unfolding m by (auto simp: bit_eq_iff [where 'a = u8] bit_simps less_Suc_eq numeral_eq_Suc)
qed

lemma high_digits_unique:
  assumes "\<forall>b \<in> set hs. b AND 0x80 \<noteq> 0" and "hs \<noteq> []"
  shows "hs = high_digits (high_value (rev hs) - 1)"
  using assms
proof (induction hs rule: rev_induct)
  case (snoc b hs)
  define d where "d = unat (b AND 0x7F)"
  have d: "d < 128" "b = of_nat (128 + d)" using low_bits_less low_bits_of_byte [of b] snoc.prems by (simp_all add: d_def)
  show ?case
  proof (cases "hs = []")
    case True
    then have "high_value (rev (hs @ [b])) - 1 = d" by (simp add: d_def)
    then show ?thesis using d True by (simp only:) (simp add: high_digits.simps [of d])
  next
    case False
    define v where "v = high_value (rev hs)"
    have "0 < v" using False by (cases "rev hs") (auto simp: v_def)
    then have "\<not> d + 128 * v \<le> 127" "(d + 128 * v) div 128 = v" "(d + 128 * v) mod 128 = d" using d(1) by auto
    then have "high_digits (d + 128 * v) = high_digits (v - 1) @ [b]" using d(2) by (simp add: high_digits.simps [of "d + 128 * v"])
    moreover have "hs = high_digits (v - 1)" unfolding v_def using snoc False by auto
    moreover have "high_value (rev (hs @ [b])) - 1 = d + 128 * v" by (simp add: d_def v_def)
    ultimately show ?thesis by metis
  qed
qed simp

lemma high_digits_shape: "b \<in> set (high_digits m) \<Longrightarrow> b AND 0x80 \<noteq> 0"
proof (induction m rule: high_digits.induct)
  case (1 m)
  then show ?case using digit_bits(1) [of m] digit_bits(1) [of "m mod 128"]
    by (subst (asm) (2) high_digits.simps) (auto split: if_splits)
qed

lemma varint_unique:
  assumes "varint_shape a"
  shows "a = varint_bytes (varint_value a)"
proof -
  obtain hs l where a: "a = hs @ [l]" using assms by (cases a rule: rev_cases) (auto simp: varint_shape_def)
  have "l AND 0x80 = 0" using assms by (simp add: a varint_shape_def)
  then have l: "unat (l AND 0x7F) < 128" "l = of_nat (unat (l AND 0x7F))" using low_bits_less [of l] last_byte [of l] by simp_all
  have v: "varint_value a mod 128 = unat (l AND 0x7F)" "varint_value a div 128 = high_value (rev hs)"
    using l(1) by (simp_all add: a varint_value_append)
  show ?thesis
  proof (cases "hs = []")
    case True
    then show ?thesis using a v l by (simp add: varint_bytes_def varint_value_append [of "[]", simplified])
  next
    case False
    then have "0 < high_value (rev hs)" by (cases "rev hs") auto
    moreover have "hs = high_digits (high_value (rev hs) - 1)"
      using False assms by (intro high_digits_unique) (auto simp: a varint_shape_def)
    moreover have "128 \<le> varint_value a" using calculation(1) v(2) by (simp add: div_greater_zero_iff [symmetric] del: div_greater_zero_iff)
    ultimately show ?thesis using a v l by (simp add: varint_bytes_def)
  qed
qed

lemma varint_bytes_shape: "varint_shape (varint_bytes n)"
  using digit_bits(2) [of "n mod 128"] high_digits_shape by (auto simp: varint_shape_def varint_bytes_def)

lemma digit_values:
  assumes "d < 128"
  shows "unat ((of_nat (128 + d) :: u8) AND 0x7F) = d" and "unat ((of_nat d :: u8) AND 0x7F) = d"
proof -
  have "(of_nat (128 + d) :: u8) AND 0x7F = of_nat d" "(of_nat d :: u8) AND 0x7F = of_nat d"
    using digit_bits(3,4) [OF assms, where 'a = 8] by simp_all
  moreover have "unat (of_nat d :: u8) = d" using assms by (simp add: unat_of_nat)
  ultimately show "unat ((of_nat (128 + d) :: u8) AND 0x7F) = d" "unat ((of_nat d :: u8) AND 0x7F) = d" by metis+
qed

lemma high_digits_value: "high_value (rev (high_digits m)) = m + 1"
proof (induction m rule: high_digits.induct)
  case (1 m)
  show ?case
  proof (cases "m \<le> 127")
    case True
    then show ?thesis using digit_values(1) [of m] by (simp add: high_digits.simps [of m])
  next
    case False
    then have "1 \<le> m div 128" by (simp add: Suc_le_eq div_greater_zero_iff)
    then have "high_value (rev (high_digits (m div 128 - 1))) = m div 128" using 1 [OF False] by simp
    then show ?thesis using False digit_values(1) [of "m mod 128"] by (simp add: high_digits.simps [of m])
  qed
qed

lemma varint_bytes_value: "varint_value (varint_bytes n) = n"
proof (cases "n \<le> 127")
  case True
  then show ?thesis using varint_value_append [of "[]"] digit_values(2) [of n] by (simp add: varint_bytes_def)
next
  case False
  then have "1 \<le> n div 128" by (simp add: Suc_le_eq div_greater_zero_iff)
  then show ?thesis using False digit_values(2) [of "n mod 128"] high_digits_value [of "n div 128 - 1"]
    by (simp add: varint_bytes_def varint_value_append)
qed

section \<open>Properties\<close>

text \<open>
  Variable-length integers.  What \<^verbatim>\<open>WriteVarInt\<close> writes reads back as the number, and has the length \<^verbatim>\<open>GetSizeOfVarInt\<close>
  announces, which fits in the array the function writes to.  It stands for the number by the formula of the comment,
  and it is the only sequence of its shape that does: every integer has exactly one encoding.
\<close>

theorem varint_encoding:
  assumes "8 \<le> LENGTH('a::len)" and "ready s" and "contents s = WriteVarInt (n :: 'a word) @ rest"
  shows "(\<exists>s'. ReadVarInt s = (Inr n, s') \<and> contents s' = rest) \<and>
    GetSizeOfVarInt n = length (WriteVarInt n) \<and> length (WriteVarInt n) \<le> (LENGTH('a) + 6) div 7 \<and>
    (varint_shape a \<and> varint_value a = unat n \<longleftrightarrow> a = WriteVarInt n)"
proof -
  have "varint_shape a \<and> varint_value a = unat n \<longleftrightarrow> a = varint_bytes (unat n)"
    using varint_unique [of a] varint_bytes_shape varint_bytes_value by metis
  then show ?thesis
    using reads_varint [OF assms] varint_array [OF assms(1), of n] GetSizeOfVarInt_high [OF assms(1), of n]
    by (auto simp: reads_def WriteVarInt_bytes [OF assms(1)] length_varint_bytes)
qed

theorem varint_encoding_witness:
  "(\<exists>s'. ReadVarInt (stream_Init 0 0 [0x82, 0x2C, 7]) = (Inr (428 :: u32), s') \<and> contents s' = [7])"
proof -
  have w: "WriteVarInt (428 :: u32) = [0x82, 0x2C]" by (simp add: WriteVarInt_def varint_loop.simps)
  have "ready (stream_Init 0 0 [0x82, 0x2C, 7])" by (simp add: ready_def stream_Init_def)
  moreover have "contents (stream_Init 0 0 [0x82, 0x2C, 7]) = WriteVarInt (428 :: u32) @ [7]"
    by (simp add: w contents_def stream_Init_def)
  ultimately show ?thesis using varint_encoding [of "stream_Init 0 0 [0x82, 0x2C, 7]" "428 :: u32" "[7]"] by simp
qed

text \<open>
  Compact sizes.  On a stream that raises on failure, \<^verbatim>\<open>ReadCompactSize\<close> returns a number exactly when the stream goes on
  with what \<^verbatim>\<open>WriteCompactSize\<close> writes for it and the number is not too large: the shortest form is the only one accepted.
  The size announced for it is the number of bytes.
\<close>

theorem compact_size_canonical:
  assumes "ready s" and "exceptmask s AND failbit \<noteq> 0"
  shows "((\<exists>s'. ReadCompactSize s = (Inr n, s') \<and> contents s' = rest)
      \<longleftrightarrow> contents s = WriteCompactSize n @ rest \<and> unat n \<le> MAX_SIZE)
    \<and> GetSizeOfCompactSize n = of_nat (length (WriteCompactSize n))"
  using compact_size_inverse [OF assms, of n] compact_size_read [OF assms(1), of n rest] compact_size_size [of n]
  by (auto simp: reads_def)

theorem compact_size_canonical_witness:
  "(\<nexists>n s'. ReadCompactSize (stream_Init 0 0 [253, 252, 0]) = (Inr n, s') \<and> contents s' = [])
    \<and> (\<exists>s'. ReadCompactSize (stream_Init 0 0 [253, 253, 0]) = (Inr 253, s') \<and> contents s' = [])"
proof -
  have r: "ready (stream_Init 0 0 [253, b, 0])" "exceptmask (stream_Init 0 0 [253, b, 0]) AND failbit \<noteq> 0"
    "contents (stream_Init 0 0 [253, b, 0]) = [253, b, 0]" for b
    by (simp_all add: ready_def stream_Init_def badbit_def failbit_def contents_def)
  have two: "le_digits 256 2 x = [x mod 256, x div 256 mod 256]" for x by (simp add: numeral_2_eq_2)
  have three: "WriteCompactSize n = [253, 252, 0] \<longrightarrow> n = 252" for n
  proof
    assume w: "WriteCompactSize n = [253, 252, 0]"
    then have "length (WriteCompactSize n) = 3" by simp
    then have n: "\<not> n < 253" "n \<le> 0xFFFF" by (auto simp: WriteCompactSize_def split: if_splits)
    then have "ser_int (ucast n :: u16) = [252, 0]" using w by (simp add: WriteCompactSize_def ser_int_def sizeof_def le_bytes_def)
    then have "bytes_val (ser_int (ucast n :: u16)) = 252" by (simp add: bytes_val_def)
    moreover have "unat n < 65536" using n(2) by (simp add: word_le_nat_alt)
    ultimately show "n = 252"
      by (simp add: ser_int_def sizeof_def bytes_val_le_bytes unat_ucast_less word_unat_eq_iff)
  qed
  have "WriteCompactSize 252 \<noteq> [253, 252, 0]" by (simp add: WriteCompactSize_def ser_int_def sizeof_def le_bytes_def)
  then have "WriteCompactSize n \<noteq> [253, 252, 0]" for n using three [of n] by auto
  moreover have "WriteCompactSize 253 = [253, 253, 0]"
    by (simp add: WriteCompactSize_def ser_int_def sizeof_def le_bytes_def two)
  moreover have "(\<exists>s'. ReadCompactSize (stream_Init 0 0 [253, b, 0]) = (Inr n, s') \<and> contents s' = [])
      \<longleftrightarrow> [253, b, 0] = WriteCompactSize n \<and> unat n \<le> MAX_SIZE" for b n
    using compact_size_canonical [OF r(1,2) [of b], of n "[]"] r(3) [of b] by simp
  ultimately show ?thesis by (simp add: MAX_SIZE_def) metis
qed

section \<open>Containers of hashes\<close>

lemma serialisable_int:
  "LENGTH('a::len) = 8 * (LENGTH('a) div 8) \<Longrightarrow> serialisable (\<lambda>_ :: 'a word. True) ser_int unser_int size_int"
  by unfold_locales (auto simp: size_int_def sizeof_def intro: reads_int)

interpretation hash160: serialisable_keys "\<lambda>_ :: uint160. True" ser_int unser_int size_int
  unfolding serialisable_keys_def by (rule serialisable_int) simp

interpretation number32: serialisable "\<lambda>_ :: u32. True" ser_int unser_int size_int
  by (rule serialisable_int) simp

interpretation hash_sets: serialisable_pair "\<lambda>_ :: uint160. True" ser_int unser_int size_int
    "valid_set (\<lambda>_ :: uint160. True)" "ser_set ser_int" "unser_set unser_int" "size_set size_int"
  by unfold_locales

interpretation hash_vector: serialisable_elements "\<lambda>_ :: uint160. True" ser_int unser_int size_int 20
  by unfold_locales simp

interpretation byte_vector: serialisable "\<lambda>v :: vch_t. length v \<le> MAX_SIZE" ser_vector_pod unser_vector_pod size_vector_pod
  by unfold_locales (auto simp: size_vector_pod_def ser_vector_pod_def compact_size_size length_images intro!: reads_vector_pod)

interpretation text_string: serialisable "\<lambda>v :: vch_t. length v \<le> MAX_SIZE" ser_string unser_string size_string
  by unfold_locales (auto simp: size_string_def ser_string_def compact_size_size intro!: reads_string)

text \<open>
  A map from hashes to sets of hashes, such as the succession messages of a relay state hold, reads back as it was written,
  its announced size is the number of bytes, and two such maps with the same bytes are the same map.
\<close>

theorem hash_sets_roundtrip:
  assumes "valid_map (\<lambda>_ :: uint160. True) (valid_set (\<lambda>_ :: uint160. True)) m"
    and "ready s" and "contents s = ser_map ser_int (ser_set ser_int) m @ rest"
  shows "(\<exists>s'. unser_map unser_int (unser_set unser_int) s = (Inr m, s') \<and> contents s' = rest)
    \<and> size_map size_int (size_set size_int) m = of_nat (length (ser_map ser_int (ser_set ser_int) m))
    \<and> (valid_map (\<lambda>_. True) (valid_set (\<lambda>_. True)) m' \<and> ser_map ser_int (ser_set ser_int) m' = ser_map ser_int (ser_set ser_int) m
        \<longrightarrow> m' = m)"
proof -
  have "length (contents s) < 2 ^ 31" using assms(2) length_contents [OF assms(2)] unfolding ready_def by linarith
  then have "length (ser_map ser_int (ser_set ser_int) m) < 2 ^ 31" using assms(3) by simp
  then show ?thesis
    using hash_sets.entries.unser_ser [OF assms] hash_sets.entries.size_ser [OF assms(1)]
      hash_sets.entries.ser_inject [OF _ assms(1), of m' "[]" "[]"] by (auto simp: reads_def)
qed

theorem hash_sets_roundtrip_witness:
  "\<exists>s'. unser_map unser_int (unser_set unser_int) (stream_Init 0 0 (ser_map ser_int (ser_set ser_int) [(5 :: uint160, {7 :: uint160})]))
     = (Inr [(5 :: uint160, {7 :: uint160})], s') \<and> contents s' = []"
proof -
  let ?m = "[(5 :: uint160, {7 :: uint160})]"
  have v: "valid_map (\<lambda>_. True) (valid_set (\<lambda>_. True)) ?m"
    by (simp add: valid_map_def valid_vector_def valid_pair_def valid_set_def MAX_SIZE_def)
  have "length (ser_map ser_int (ser_set ser_int) ?m) < 2 ^ 31"
    by (simp add: ser_map_def ser_pair_def ser_set_def WriteCompactSize_def)
  then have "ready (stream_Init 0 0 (ser_map ser_int (ser_set ser_int) ?m))" by (simp add: ready_def stream_Init_def)
  moreover have "contents (stream_Init 0 0 (ser_map ser_int (ser_set ser_int) ?m)) = ser_map ser_int (ser_set ser_int) ?m @ []"
    by (simp add: contents_def stream_Init_def)
  ultimately show ?thesis
    using hash_sets_roundtrip [OF v, of "stream_Init 0 0 (ser_map ser_int (ser_set ser_int) ?m)" "[]" "[]"] by simp
qed

section \<open>The stream as a queue\<close>

lemma contents_write: "ready s \<Longrightarrow> contents (CDataStream_write bytes s) = contents s @ bytes"
  by (simp add: contents_def CDataStream_write_def ready_def)

lemma ignore_within:
  assumes "ready s" and "n \<le> length (contents s)"
  shows "\<exists>s'. CDataStream_ignore (int n) s = (Inr (), s') \<and> contents s' = drop n (contents s)"
proof -
  have len: "unat (nReadPos s) + n \<le> length (ds_vch s)" using length_contents [OF assms(1)] assms(2) by simp
  then have "unat (nReadPos s + word_of_nat n) = unat (nReadPos s) + n"
    using assms(1) by (intro position_no_wrap) (auto simp: ready_def)
  then show ?thesis using len by (auto simp: CDataStream_ignore_def Let_def contents_def add.commute)
qed

lemma ignore_beyond:
  assumes "ready s" and "length (contents s) < n" and "n < 2 ^ 31" and "exceptmask s AND failbit \<noteq> 0"
  shows "CDataStream_ignore (int n) s = (Inl (Failure ''CDataStream::ignore() : end of data''), s\<lparr>ds_state := ds_state s OR failbit\<rparr>)"
proof -
  have "unat (nReadPos s + word_of_nat n) = unat (nReadPos s) + n" using assms by (intro position_no_wrap) auto
  moreover have "(ds_state s OR failbit) AND exceptmask s \<noteq> 0"
    using assms(4) by (simp add: bit_eq_iff bit_simps) blast
  ultimately show ?thesis
    using length_contents [OF assms(1)] assms(2) by (simp add: CDataStream_ignore_def Let_def and_then_def setstate_def)
qed

lemma failed_state: "contents (s\<lparr>ds_state := ds_state s OR failbit\<rparr>) = contents s" "stream_fail (s\<lparr>ds_state := ds_state s OR failbit\<rparr>)"
proof -
  have "bit ((ds_state s OR failbit) AND (badbit OR failbit)) 2" by (simp add: bit_simps failbit_def badbit_def)
  then have "(ds_state s OR failbit) AND (badbit OR failbit) \<noteq> 0" by auto
  then show "stream_fail (s\<lparr>ds_state := ds_state s OR failbit\<rparr>)" by (simp add: stream_fail_def)
qed (simp add: contents_def)

lemma erase_front:
  assumes "ready s" and "contents s \<noteq> []"
  shows "\<exists>k s'. stream_erase (unat (nReadPos s)) s = Some (k, s') \<and> contents s' = tl (contents s)"
proof -
  have "unat (nReadPos s + 1) = unat (nReadPos s) + 1" using position_no_wrap [OF assms(1), of 1] by simp
  then show ?thesis using assms length_contents [OF assms(1)]
    by (cases "unat (nReadPos s) + 1 = length (ds_vch s)") (auto simp: stream_erase_def Let_def contents_def tl_drop drop_Suc)
qed

lemma erase_front_range:
  assumes "ready s" and "n \<le> length (contents s)"
  shows "\<exists>k s'. stream_erase_range (unat (nReadPos s)) (unat (nReadPos s) + n) s = Some (k, s') \<and> contents s' = drop n (contents s)"
proof -
  have "unat (nReadPos s) + n < 2 ^ 32" using assms length_contents [OF assms(1)] by (simp add: ready_def)
  then have "unat (of_nat (unat (nReadPos s) + n) :: u32) = unat (nReadPos s) + n" by (simp only: unat_of_nat) simp
  then show ?thesis by (auto simp: stream_erase_range_def contents_def add.commute)
qed

lemma insert_front:
  assumes "ready s" and "length bytes < 2 ^ 31"
  shows "\<exists>s'. stream_insert (unat (nReadPos s)) bytes s = Some s' \<and> contents s' = bytes @ contents s"
proof (cases "length bytes \<le> unat (nReadPos s)")
  case True
  have b: "unat (of_nat (length bytes) :: u32) = length bytes" using assms(2) by (simp add: unat_of_nat)
  then have le: "of_nat (length bytes) \<le> nReadPos s" using True by (simp add: word_le_nat_alt)
  then have "unat (nReadPos s - of_nat (length bytes)) = unat (nReadPos s) - length bytes" using b by (simp add: unat_sub)
  then show ?thesis using True le assms(1) by (auto simp: stream_insert_def Let_def memcpy_at_def contents_def ready_def)
next
  case False
  have "unat (of_nat (length bytes) :: u32) = length bytes" using assms(2) by (simp add: unat_of_nat)
  then have "\<not> of_nat (length bytes) \<le> nReadPos s" using False by (simp add: word_le_nat_alt)
  then show ?thesis using assms(1) by (auto simp: stream_insert_def contents_def ready_def)
qed

lemma rewind_read:
  assumes "ready s" and "n < length (contents s)"
  shows "\<exists>s'. Rewind n (snd (CDataStream_read (int n) s)) = (True, s') \<and> contents s' = contents s"
proof -
  have len: "unat (nReadPos s) + n < length (ds_vch s)" using length_contents [OF assms(1)] assms(2) by simp
  then have "n \<le> 2 ^ 31" using assms(1) by (simp add: ready_def)
  then have p: "unat (nReadPos s + word_of_nat n) = unat (nReadPos s) + n" by (rule position_no_wrap [OF assms(1)])
  then have "snd (CDataStream_read (int n) s) = s\<lparr>nReadPos := nReadPos s + of_nat n\<rparr>"
    using len by (simp add: CDataStream_read_def Let_def and_then_def memcpy_from_def)
  then show ?thesis using p by (simp add: Rewind_def contents_def)
qed

text \<open>
  C35. The stream is a queue of bytes.  Writing appends, reading and ignoring within the contents take a prefix off, and
  reading or ignoring beyond them raises, sets the failure bit and leaves the contents.  Compacting, clearing, erasing from
  the front, inserting at the front, and rewinding over what was read are what they are on the contents.
\<close>

theorem stream_is_a_queue:
  assumes "ready s" and "exceptmask s AND failbit \<noteq> 0" and "n < 2 ^ 31" and "length bytes < 2 ^ 31"
  shows "contents (CDataStream_write bytes s) = contents s @ bytes
    \<and> (if n \<le> length (contents s)
       then (\<exists>s'. CDataStream_read (int n) s = (Inr (take n (contents s)), s') \<and> contents s' = drop n (contents s))
         \<and> (\<exists>s'. CDataStream_ignore (int n) s = (Inr (), s') \<and> contents s' = drop n (contents s))
         \<and> (\<exists>k s'. stream_erase_range (unat (nReadPos s)) (unat (nReadPos s) + n) s = Some (k, s') \<and> contents s' = drop n (contents s))
       else (\<exists>s'. CDataStream_read (int n) s = (Inl (Failure ''CDataStream::read() : end of data''), s') \<and> contents s' = contents s \<and> stream_fail s')
         \<and> (\<exists>s'. CDataStream_ignore (int n) s = (Inl (Failure ''CDataStream::ignore() : end of data''), s') \<and> contents s' = contents s \<and> stream_fail s'))
    \<and> (n < length (contents s) \<longrightarrow> (\<exists>s'. Rewind n (snd (CDataStream_read (int n) s)) = (True, s') \<and> contents s' = contents s))
    \<and> (contents s \<noteq> [] \<longrightarrow> (\<exists>k s'. stream_erase (unat (nReadPos s)) s = Some (k, s') \<and> contents s' = tl (contents s)))
    \<and> (\<exists>s'. stream_insert (unat (nReadPos s)) bytes s = Some s' \<and> contents s' = bytes @ contents s)
    \<and> contents (Compact s) = contents s \<and> contents (stream_clear s) = [] \<and> stream_size s = length (contents s)"
proof (intro conjI)
  show "if n \<le> length (contents s) then (\<exists>s'. CDataStream_read (int n) s = (Inr (take n (contents s)), s') \<and> contents s' = drop n (contents s))
         \<and> (\<exists>s'. CDataStream_ignore (int n) s = (Inr (), s') \<and> contents s' = drop n (contents s))
         \<and> (\<exists>k s'. stream_erase_range (unat (nReadPos s)) (unat (nReadPos s) + n) s = Some (k, s') \<and> contents s' = drop n (contents s))
       else (\<exists>s'. CDataStream_read (int n) s = (Inl (Failure ''CDataStream::read() : end of data''), s') \<and> contents s' = contents s \<and> stream_fail s')
         \<and> (\<exists>s'. CDataStream_ignore (int n) s = (Inl (Failure ''CDataStream::ignore() : end of data''), s') \<and> contents s' = contents s \<and> stream_fail s')"
    using read_within [OF assms(1), of n] ignore_within [OF assms(1), of n] erase_front_range [OF assms(1), of n]
      read_beyond [OF assms(1) _ assms(3,2)] ignore_beyond [OF assms(1) _ assms(3,2)] failed_state [of s] by auto
qed (use rewind_read [OF assms(1)] erase_front [OF assms(1)] insert_front [OF assms(1,4)] contents_write [OF assms(1)]
      in \<open>auto simp: Compact_def stream_clear_def stream_size_def contents_def\<close>)

theorem stream_is_a_queue_witness:
  "\<exists>s'. CDataStream_read 2 (stream_Init 0 0 [1, 2, 3]) = (Inr [1, 2], s') \<and> contents s' = [3]"
proof -
  define s where "s = stream_Init 0 0 [1, 2, 3]"
  have c: "contents s = [1, 2, 3]" by (simp add: s_def contents_def stream_Init_def)
  have "ready s" "exceptmask s AND failbit \<noteq> 0" by (simp_all add: s_def ready_def stream_Init_def failbit_def badbit_def)
  then show ?thesis using stream_is_a_queue [of s 2 "[]"] by (simp add: c s_def [symmetric])
qed

text \<open>
  Writing a stream that has been read from writes the bytes already read again, where appending it to a stream does not.
\<close>

lemma stream_into_stream:
  assumes "ready s" and "0 < unat (nReadPos s)"
  shows "length (contents s) < length (CDataStream_Serialize s)"
  using length_contents [OF assms(1)] assms(2) unfolding CDataStream_Serialize_def by linarith

end
