(* ===== verification/Double.thy ===== *)
theory Double
  imports Complex_Main
begin

text \<open>
  The type \<^verbatim>\<open>double\<close> as the compilers of the program have it: the binary64 format of IEEE 754 with rounding to nearest, ties to even.
  A number is a real, one of the two infinities, or not a number; the sign of a zero, which no operation of the program looks at, is left out.
  Below the normal numbers the last place stays at \<open>2 ^ - 1074\<close>, so that small results are rounded to a multiple of it; what rounds to
  \<open>2 ^ 1024\<close> or more is an infinity.

  The lemmas bound the error of one rounding, and show that a positive number is never divided down to zero by a divisor below two.
\<close>

section \<open>Rounding\<close>

datatype double =
    Fin real
  | Infinity bool
  | NaN

definition round_even :: "real \<Rightarrow> int" where
  "round_even y = (let n = \<lfloor>y\<rfloor> in if y - of_int n < 1 / 2 \<or> y - of_int n = 1 / 2 \<and> even n then n else n + 1)"

definition last_place :: "real \<Rightarrow> int" where
  "last_place x = max (\<lfloor>log 2 \<bar>x\<bar>\<rfloor> - 52) (- 1074)"

definition round_real :: "real \<Rightarrow> real" where
  "round_real x = (if x = 0 then 0 else of_int (round_even (x / 2 powr of_int (last_place x))) * 2 powr of_int (last_place x))"

definition to_double :: "real \<Rightarrow> double" where
  "to_double x = (if 2 ^ 1024 \<le> \<bar>round_real x\<bar> then Infinity (x < 0) else Fin (round_real x))"

section \<open>Operations\<close>

text \<open>The argument of an infinity is whether it is negative.\<close>

fun d_add :: "double \<Rightarrow> double \<Rightarrow> double" where
  "d_add (Fin x) (Fin y) = to_double (x + y)"
| "d_add (Infinity s) (Infinity t) = (if s = t then Infinity s else NaN)"
| "d_add (Infinity s) (Fin y) = Infinity s"
| "d_add (Fin x) (Infinity t) = Infinity t"
| "d_add NaN _ = NaN"
| "d_add _ NaN = NaN"

fun d_sub :: "double \<Rightarrow> double \<Rightarrow> double" where
  "d_sub a (Fin y) = d_add a (Fin (- y))"
| "d_sub a (Infinity t) = d_add a (Infinity (\<not> t))"
| "d_sub a NaN = NaN"

fun d_mult :: "double \<Rightarrow> double \<Rightarrow> double" where
  "d_mult (Fin x) (Fin y) = to_double (x * y)"
| "d_mult (Infinity s) (Infinity t) = Infinity (s \<noteq> t)"
| "d_mult (Infinity s) (Fin y) = (if y = 0 then NaN else Infinity (s \<noteq> (y < 0)))"
| "d_mult (Fin x) (Infinity t) = (if x = 0 then NaN else Infinity ((x < 0) \<noteq> t))"
| "d_mult NaN _ = NaN"
| "d_mult _ NaN = NaN"

fun d_div :: "double \<Rightarrow> double \<Rightarrow> double" where
  "d_div (Fin x) (Fin y) = (if y = 0 then if x = 0 then NaN else Infinity (x < 0) else to_double (x / y))"
| "d_div (Infinity s) (Infinity t) = NaN"
| "d_div (Infinity s) (Fin y) = Infinity (s \<noteq> (y < 0))"
| "d_div (Fin x) (Infinity t) = Fin 0"
| "d_div NaN _ = NaN"
| "d_div _ NaN = NaN"

fun d_sqrt :: "double \<Rightarrow> double" where
  "d_sqrt (Fin x) = (if x < 0 then NaN else to_double (sqrt x))"
| "d_sqrt (Infinity s) = (if s then NaN else Infinity False)"
| "d_sqrt NaN = NaN"

fun d_less :: "double \<Rightarrow> double \<Rightarrow> bool" where
  "d_less (Fin x) (Fin y) = (x < y)"
| "d_less (Infinity s) (Infinity t) = (s \<and> \<not> t)"
| "d_less (Infinity s) (Fin y) = s"
| "d_less (Fin x) (Infinity t) = (\<not> t)"
| "d_less NaN _ = False"
| "d_less _ NaN = False"

text \<open>A literal and a converted integer are rounded.\<close>

abbreviation d_of_int :: "int \<Rightarrow> double" where
  "d_of_int n \<equiv> to_double (of_int n)"

section \<open>The error of a rounding\<close>

lemma round_even_error: "\<bar>of_int (round_even y) - y\<bar> \<le> 1 / 2"
proof -
  have "of_int \<lfloor>y\<rfloor> \<le> y" "y < of_int \<lfloor>y\<rfloor> + 1" by linarith+
  then show ?thesis unfolding round_even_def Let_def
    by (cases "y - of_int \<lfloor>y\<rfloor> < 1 / 2 \<or> y - of_int \<lfloor>y\<rfloor> = 1 / 2 \<and> even \<lfloor>y\<rfloor>")
       (simp_all only: if_True if_False of_int_add of_int_1, linarith+)
qed

lemma round_even_pos: "1 / 2 < y \<Longrightarrow> 1 \<le> round_even y"
  using round_even_error [of y] by linarith

lemma round_real_0 [simp]: "round_real 0 = 0"
  by (simp add: round_real_def)

lemma to_double_0 [simp]: "to_double 0 = Fin 0"
  by (simp add: to_double_def)

lemma last_place_le: "0 < x \<Longrightarrow> 2 powr of_int (last_place x) \<le> x / 2 ^ 52 + 2 powr - 1074"
proof -
  assume x: "0 < x"
  have "2 powr of_int \<lfloor>log 2 x\<rfloor> \<le> 2 powr log 2 x" by simp
  also have "\<dots> = x" using x by simp
  finally have "2 powr (of_int \<lfloor>log 2 x\<rfloor> - 52) \<le> x / 2 ^ 52" by (simp add: powr_diff)
  moreover have "0 < 2 powr (of_int \<lfloor>log 2 x\<rfloor> - 52 :: real)" "0 < (2 :: real) powr - 1074" by simp_all
  moreover have "2 powr of_int (last_place x) = 2 powr (of_int \<lfloor>log 2 x\<rfloor> - 52 :: real) \<or> 2 powr of_int (last_place x) = (2 :: real) powr - 1074"
    using x by (simp add: last_place_def max_def)
  moreover have "0 < x / 2 ^ 52" using x by simp
  ultimately show ?thesis by linarith
qed

lemma round_real_error:
  assumes "0 < x"
  shows "\<bar>round_real x - x\<bar> \<le> x / 2 ^ 53 + 2 powr - 1075"
proof -
  define u :: real where "u = 2 powr of_int (last_place x)"
  have u: "0 < u" "u \<le> x / 2 ^ 52 + 2 powr - 1074" using last_place_le [OF assms] by (simp_all add: u_def)
  have "round_real x - x = (of_int (round_even (x / u)) - x / u) * u"
    using assms u(1) by (simp add: round_real_def u_def [symmetric] left_diff_distrib)
  then have "\<bar>round_real x - x\<bar> = \<bar>of_int (round_even (x / u)) - x / u\<bar> * u" using u(1) by (simp add: abs_mult)
  also have "\<dots> \<le> 1 / 2 * u" using round_even_error [of "x / u"] u(1) by (intro mult_right_mono) simp_all
  also have "\<dots> \<le> x / 2 ^ 53 + 2 powr - 1075"
  proof -
    have "(2 :: real) powr - 1074 = 2 * 2 powr - 1075" using powr_add [of "2 :: real" 1 "- 1075"] by simp
    then show ?thesis using u(2) by simp
  qed
  finally show ?thesis .
qed

text \<open>The numbers used here are far from the ends of the range.\<close>

lemma tiny: "(2 :: real) powr - 900 \<le> x \<Longrightarrow> 2 powr - 1075 \<le> x / 2 ^ 53"
proof -
  assume "2 powr - 900 \<le> x"
  then have "2 powr - 900 / 2 ^ 53 \<le> x / 2 ^ 53" by (simp add: divide_right_mono)
  moreover have "(2 :: real) powr - 900 / 2 ^ 53 = 2 powr - 953" using powr_diff [of "2 :: real" "- 900" 53] by simp
  moreover have "(2 :: real) powr - 1075 \<le> 2 powr - 953" by simp
  ultimately show ?thesis by linarith
qed

lemma round_real_bounds:
  assumes "2 powr - 900 \<le> x"
  shows "x * (1 - 1 / 2 ^ 52) \<le> round_real x" and "round_real x \<le> x * (1 + 1 / 2 ^ 52)"
proof -
  have "0 < x" using assms less_le_trans [of 0 "2 powr - 900" x] by simp
  then have "\<bar>round_real x - x\<bar> \<le> x / 2 ^ 53 + x / 2 ^ 53" using round_real_error [of x] tiny [OF assms] by linarith
  then have "\<bar>round_real x - x\<bar> \<le> x / 2 ^ 52" by simp
  then show "x * (1 - 1 / 2 ^ 52) \<le> round_real x" "round_real x \<le> x * (1 + 1 / 2 ^ 52)"
    unfolding right_diff_distrib distrib_left by (simp_all only: mult_1_right times_divide_eq_right)
qed

lemma to_double_normal:
  assumes "2 powr - 900 \<le> x" and "x \<le> 2 ^ 900"
  shows "\<exists>y. to_double x = Fin y \<and> x * (1 - 1 / 2 ^ 52) \<le> y \<and> y \<le> x * (1 + 1 / 2 ^ 52)"
proof -
  note b = round_real_bounds [OF assms(1)]
  have pos: "0 < x" using assms(1) less_le_trans [of 0 "2 powr - 900" x] by simp
  have "x * (1 + 1 / 2 ^ 52) \<le> x * 2" using pos by (intro mult_left_mono) simp_all
  also have "\<dots> \<le> 2 ^ 901" using assms(2) by (simp add: power_Suc2 [of _ 900, simplified])
  also have "\<dots> < (2 :: real) ^ 1024" by (rule power_strict_increasing) simp_all
  finally have "round_real x < 2 ^ 1024" using b(2) by linarith
  moreover have "0 \<le> x * (1 - 1 / 2 ^ 52)" using pos by simp
  then have "0 \<le> round_real x" using b(1) by linarith
  ultimately have "to_double x = Fin (round_real x)" by (simp add: to_double_def)
  then show ?thesis using b by blast
qed

lemma to_double_large:
  assumes "1 \<le> x"
  shows "to_double x = Infinity False \<or> (\<exists>y. to_double x = Fin y \<and> x * (1 - 1 / 2 ^ 52) \<le> y)"
proof -
  have "(2 :: real) powr - 900 \<le> 2 powr 0" by (rule powr_mono) simp_all
  then have "2 powr - 900 \<le> x" using assms by simp
  then show ?thesis using round_real_bounds(1) [of x] assms by (auto simp: to_double_def)
qed

lemma to_double_middle:
  assumes "1 / 2 ^ 100 \<le> x" and "x \<le> 2 ^ 100"
  shows "\<exists>y. to_double x = Fin y \<and> x * (1 - 1 / 2 ^ 52) \<le> y \<and> y \<le> x * (1 + 1 / 2 ^ 52)"
proof (rule to_double_normal)
  have "(2 :: real) powr - 900 \<le> 2 powr - 100" by (rule powr_mono) simp_all
  also have "\<dots> = 1 / 2 ^ 100" by (rule powr_neg_numeral) simp
  finally show "2 powr - 900 \<le> x" using assms(1) by (rule order_trans)
  have "(2 :: real) ^ 100 \<le> 2 ^ 900" by (rule power_increasing) simp_all
  then show "x \<le> 2 ^ 900" using assms(2) by linarith
qed

text \<open>More than half of the smallest positive number rounds to at least that number.\<close>

definition least_double :: real where
  "least_double = 2 powr - 1074"

lemma least_double_bounds: "0 < least_double" "least_double \<le> 1 / 2 ^ 100"
proof -
  have "(2 :: real) powr - 1074 \<le> 2 powr - 100" by (rule powr_mono) simp_all
  moreover have "(2 :: real) powr - 100 = 1 / 2 ^ 100" by (rule powr_neg_numeral) simp
  ultimately show "least_double \<le> 1 / 2 ^ 100" unfolding least_double_def by (rule ord_le_eq_trans)
qed (simp add: least_double_def)

lemma least_double_half: "2 powr - 1075 = least_double / 2"
  using powr_add [of "2 :: real" 1 "- 1075"] by (simp only: least_double_def powr_one) simp

lemma round_real_pos:
  assumes "least_double / 2 < x"
  shows "least_double \<le> round_real x"
proof -
  define e where "e = last_place x"
  have pos: "0 < x" using assms least_double_bounds by simp
  have "2 powr of_int e < 2 * x"
  proof (cases "e = - 1074")
    case True
    then have "2 powr of_int e = least_double" by (simp add: least_double_def)
    then show ?thesis using assms by linarith
  next
    case False
    then have e: "e = \<lfloor>log 2 x\<rfloor> - 52" using pos by (auto simp: e_def last_place_def max_def split: if_splits)
    have "2 powr of_int e \<le> 2 powr log 2 x" unfolding e by (rule powr_mono) (simp_all, linarith)
    then show ?thesis using pos by simp
  qed
  then have "1 / 2 < x / 2 powr of_int e" by (simp add: field_simps)
  then have "1 \<le> round_even (x / 2 powr of_int e)" by (rule round_even_pos)
  then have "1 * (2 :: real) powr of_int e \<le> of_int (round_even (x / 2 powr of_int e)) * 2 powr of_int e" by (intro mult_right_mono) simp_all
  then have "2 powr of_int e \<le> round_real x" using pos by (simp add: round_real_def e_def)
  moreover have "least_double \<le> 2 powr of_int e" unfolding least_double_def by (rule powr_mono) (simp_all add: e_def last_place_def)
  ultimately show ?thesis by linarith
qed

lemma to_double_pos:
  assumes "least_double / 2 < x"
  shows "to_double x = Infinity False \<or> (\<exists>y. to_double x = Fin y \<and> least_double \<le> y)"
proof -
  have "0 < x" using assms least_double_bounds by simp
  then show ?thesis using round_real_pos [OF assms] by (auto simp: to_double_def)
qed

text \<open>Positive numbers that are not too large.  They stay so when they are divided by 1.5.\<close>

definition moderate :: "double \<Rightarrow> bool" where
  "moderate d \<longleftrightarrow> (\<exists>y. d = Fin y \<and> least_double \<le> y \<and> y \<le> 2 ^ 20)"

lemma moderate_round:
  assumes "least_double / 2 < x" and "x \<le> 2 ^ 20 * (9 / 10)"
  shows "moderate (to_double x)"
proof -
  have pos: "0 < x" using assms(1) least_double_bounds by simp
  have "least_double / 2 \<le> 1" using least_double_bounds by simp
  then have le: "round_real x \<le> 2 ^ 20" using round_real_error [OF pos] assms(2) unfolding least_double_half by simp
  moreover have "(2 :: real) ^ 20 < 2 ^ 1024" by (rule power_strict_increasing) simp_all
  moreover have "0 \<le> round_real x" using round_real_pos [OF assms(1)] least_double_bounds(1) by linarith
  ultimately have "\<bar>round_real x\<bar> < 2 ^ 1024" by (simp only: abs_of_nonneg)
  then have "to_double x = Fin (round_real x)" unfolding to_double_def by (simp only: not_le [symmetric] if_False)
  then show ?thesis using round_real_pos [OF assms(1)] le by (simp add: moderate_def)
qed

lemma moderate_third: "moderate d \<Longrightarrow> moderate (d_div d (Fin (3 / 2)))"
proof -
  assume "moderate d"
  then obtain y where y: "d = Fin y" "least_double \<le> y" "y \<le> 2 ^ 20" by (auto simp: moderate_def)
  then have "moderate (to_double (y / (3 / 2)))" using least_double_bounds(1) by (intro moderate_round) simp_all
  then show ?thesis by (simp add: y(1))
qed

lemma moderate_positive: "moderate d \<Longrightarrow> \<exists>y. d = Fin y \<and> 0 < y"
  unfolding moderate_def using less_le_trans [OF least_double_bounds(1)] by auto

section \<open>Signs\<close>

text \<open>What is not below zero.\<close>

fun nonneg :: "double \<Rightarrow> bool" where
  "nonneg (Fin y) = (0 \<le> y)"
| "nonneg (Infinity s) = (\<not> s)"
| "nonneg NaN = True"

lemma nonneg_round [simp]: "0 \<le> x \<Longrightarrow> nonneg (to_double x)"
proof -
  assume x: "0 \<le> x"
  have "0 \<le> round_even y" if "0 \<le> y" for y using that by (simp add: round_even_def Let_def)
  then have "0 \<le> round_real x" using x by (simp add: round_real_def)
  then show ?thesis using x by (simp add: to_double_def)
qed

lemma nonneg_add: "nonneg a \<Longrightarrow> nonneg b \<Longrightarrow> nonneg (d_add a b)"
  by (cases "(a, b)" rule: d_add.cases) auto

lemma nonneg_mult: "nonneg a \<Longrightarrow> nonneg b \<Longrightarrow> nonneg (d_mult a b)"
  by (cases "(a, b)" rule: d_mult.cases) auto

lemma nonneg_div: "nonneg a \<Longrightarrow> 0 < y \<Longrightarrow> nonneg (d_div a (Fin y))"
  by (cases a) auto

lemma nonneg_sqrt: "nonneg (d_sqrt a)"
  by (cases a) auto

lemma nonneg_not_less: "nonneg a \<Longrightarrow> \<not> d_less a (Fin 0)"
  by (cases a) auto

section \<open>Integers\<close>

text \<open>Integers up to \<open>2 ^ 52\<close> are exact.\<close>

lemma round_even_int [simp]: "round_even (of_int n) = n"
  by (simp add: round_even_def)

lemma last_place_int:
  assumes "n \<noteq> 0" and "\<bar>n\<bar> \<le> 2 ^ 52"
  shows "last_place (of_int n) \<le> 0"
proof -
  have "\<bar>real_of_int n\<bar> \<le> 2 ^ 52" using assms(2) by (metis of_int_abs of_int_le_iff of_int_numeral of_int_power)
  then have "log 2 \<bar>real_of_int n\<bar> \<le> log 2 (2 ^ 52)" using assms(1) by (intro log_mono) simp_all
  also have "\<dots> = 52" using log_nat_power [of 2 2 52] by simp
  finally have "\<lfloor>log 2 \<bar>real_of_int n\<bar>\<rfloor> \<le> 52" by linarith
  then show ?thesis by (simp add: last_place_def)
qed

lemma round_real_int:
  assumes "\<bar>n\<bar> \<le> 2 ^ 52"
  shows "round_real (of_int n) = of_int n"
proof (cases "n = 0")
  case False
  define k where "k = nat (- last_place (of_int n))"
  have "of_int (last_place (of_int n)) = (- real k)" using last_place_int [OF False assms] by (simp add: k_def)
  then have "2 powr of_int (last_place (of_int n)) = (1 :: real) / 2 ^ k" by (simp add: powr_minus powr_realpow field_simps)
  moreover have "real_of_int n * 2 ^ k = of_int (n * 2 ^ k)" by simp
  then have "round_even (real_of_int n * 2 ^ k) = n * 2 ^ k" by (simp only: round_even_int)
  ultimately show ?thesis using False by (simp add: round_real_def)
qed simp

lemma d_of_int_exact:
  assumes "\<bar>n\<bar> \<le> 2 ^ 52"
  shows "d_of_int n = Fin (of_int n)"
proof -
  have "\<bar>real_of_int n\<bar> \<le> 2 ^ 52" using assms by (metis of_int_abs of_int_le_iff of_int_numeral of_int_power)
  also have "\<dots> < 2 ^ 1024" by (rule power_strict_increasing) simp_all
  finally show ?thesis unfolding to_double_def round_real_int [OF assms] by (simp only: not_le [symmetric] if_False)
qed

end
