(* ===== verification/AddrMan.thy ===== *)
theory AddrMan
  imports Double NetAddr Serialize
begin

text \<open>
  The address manager of \<^verbatim>\<open>src/net/addrman.h\<close> and \<^verbatim>\<open>addrman.cpp\<close>: the entries of known addresses, the random order,
  the buckets of tried and of new addresses, and the operations that move entries between them.

  The manager is one record.  \<open>None\<close> is a failed \<^verbatim>\<open>assert\<close>, an access out of range or an overflow of a signed counter.
  The random numbers of a call are a function \<open>rnd\<close> from the number of the draw; the adjusted time is the argument \<open>now\<close> and
  the hash \<open>Hash\<close> of bytes is an argument too.  Times are integers; a store to the unsigned \<^verbatim>\<open>nTime\<close> keeps 32 bits.
  The \<^verbatim>\<open>double\<close> values of \<^verbatim>\<open>GetChance\<close> and \<^verbatim>\<open>Select_\<close> are those of the theory \<open>Double\<close>, rounded after every operation.
\<close>

section \<open>Addresses with their statistics\<close>

record net_address =
  service :: net_service
  nServices :: u64
  nTime :: u32
  nLastTry :: int

definition NODE_NETWORK :: u64 where
  "NODE_NETWORK = 1"

definition CAddress_new :: "net_service \<Rightarrow> net_address" where
  "CAddress_new ipIn = \<lparr>service = ipIn, nServices = NODE_NETWORK, nTime = 100000000, nLastTry = 0\<rparr>"

record addr_info = net_address +
  source :: net_addr
  nLastSuccess :: int
  nAttempts :: int
  nRefCount :: int
  fInTried :: bool
  nRandomPos :: int

definition CAddrInfo_new :: "net_address \<Rightarrow> net_addr \<Rightarrow> addr_info" where
  "CAddrInfo_new addrIn addrSource =
     net_address.extend (addrIn\<lparr>nLastTry := 0\<rparr>)
       \<lparr>source = addrSource, nLastSuccess = 0, nAttempts = 0, nRefCount = 0, fInTried = False, nRandomPos = - 1\<rparr>"

definition CAddrInfo_default :: addr_info where
  "CAddrInfo_default = CAddrInfo_new (CAddress_new \<lparr>ip = CNetAddr_new, port = 0\<rparr>) CNetAddr_new"

definition GetLow64 :: "uint256 \<Rightarrow> u64" where
  "GetLow64 h = ucast h"

definition GetTriedBucket :: "(vch_t \<Rightarrow> uint256) \<Rightarrow> vch_t \<Rightarrow> addr_info \<Rightarrow> nat" where
  "GetTriedBucket Hash nKey info =
     (let hash1 = GetLow64 (Hash (ser_vector_pod nKey @ ser_vector_pod (GetKey (service info))));
          hash2 = GetLow64 (Hash (ser_vector_pod nKey @ ser_vector_pod (GetGroup (ip (service info))) @ ser_int (hash1 mod 4)))
      in unat (hash2 mod 64))"

definition GetNewBucket :: "(vch_t \<Rightarrow> uint256) \<Rightarrow> vch_t \<Rightarrow> net_addr \<Rightarrow> addr_info \<Rightarrow> nat" where
  "GetNewBucket Hash nKey src info =
     (let hash1 = GetLow64 (Hash (ser_vector_pod nKey @ ser_vector_pod (GetGroup (ip (service info))) @ ser_vector_pod (GetGroup src)));
          hash2 = GetLow64 (Hash (ser_vector_pod nKey @ ser_vector_pod (GetGroup src) @ ser_int (hash1 mod 32)))
      in unat (hash2 mod 256))"

definition IsTerrible :: "int \<Rightarrow> addr_info \<Rightarrow> bool" where
  "IsTerrible nNow info =
     (if nLastTry info \<noteq> 0 \<and> nLastTry info \<ge> nNow - 60 then False
      else if uint (nTime info) > nNow + 10 * 60 then True
      else if nTime info = 0 \<or> nNow - uint (nTime info) > 30 * 86400 then True
      else if nLastSuccess info = 0 \<and> nAttempts info \<ge> 3 then True
      else if nNow - nLastSuccess info > 7 * 86400 \<and> nAttempts info \<ge> 10 then True
      else False)"

definition GetChance :: "int \<Rightarrow> addr_info \<Rightarrow> double" where
  "GetChance nNow info =
     (let nSinceLastSeen = nNow - uint (nTime info);
          nSinceLastTry = nNow - nLastTry info;
          nSinceLastSeen = (if nSinceLastSeen < 0 then 0 else nSinceLastSeen);
          nSinceLastTry = (if nSinceLastTry < 0 then 0 else nSinceLastTry);
          fChance = d_mult (Fin 1) (d_div (Fin 600) (d_add (Fin 600) (d_of_int nSinceLastSeen)));
          fChance = (if nSinceLastTry < 60 * 10 then d_mult fChance (to_double (1 / 100)) else fChance)
      in ((\<lambda>fChance. d_div fChance (Fin (3 / 2))) ^^ nat (nAttempts info)) fChance)"

section \<open>The manager\<close>

type_synonym info_map = "(int, addr_info) std_map"

record addr_man =
  nKey :: vch_t
  nIdCount :: int
  mapInfo :: info_map
  mapAddr :: "net_addr \<rightharpoonup> int"
  vRandom :: "int list"
  nTried :: int
  vvTried :: "int list list"
  nNew :: int
  vvNew :: "int set list"

definition CAddrMan_new :: "vch_t \<Rightarrow> addr_man" where
  "CAddrMan_new key =
     \<lparr>nKey = key, nIdCount = 0, mapInfo = [], mapAddr = Map.empty, vRandom = [], nTried = 0,
      vvTried = replicate 64 [], nNew = 0, vvNew = replicate 256 {}\<rparr>"

definition INT_MAX :: int where
  "INT_MAX = 2 ^ 31 - 1"

text \<open>\<^verbatim>\<open>GetRandInt\<close>: a draw below the bound.\<close>

definition GetRandInt :: "nat \<Rightarrow> nat \<Rightarrow> nat" where
  "GetRandInt nMax r = (if nMax = 0 then 0 else r mod nMax)"

definition put_info :: "int \<Rightarrow> addr_info \<Rightarrow> addr_man \<Rightarrow> addr_man" where
  "put_info nId info m = m\<lparr>mapInfo := std_put nId info (mapInfo m)\<rparr>"

definition Find :: "net_addr \<Rightarrow> addr_man \<Rightarrow> (int \<times> addr_info) option" where
  "Find addr m =
     (case mapAddr m addr of
        None \<Rightarrow> None
      | Some nId \<Rightarrow> map_option (Pair nId) (map_of (mapInfo m) nId))"

definition Create :: "net_address \<Rightarrow> net_addr \<Rightarrow> addr_man \<Rightarrow> (int \<times> addr_man) option" where
  "Create addr addrSource m =
     (if nIdCount m = INT_MAX then None
      else let nId = nIdCount m;
               info = (CAddrInfo_new addr addrSource)\<lparr>nRandomPos := int (length (vRandom m))\<rparr>
           in Some (nId, m\<lparr>nIdCount := nIdCount m + 1, mapInfo := std_put nId info (mapInfo m),
                           mapAddr := (mapAddr m)(ip (service addr) \<mapsto> nId), vRandom := vRandom m @ [nId]\<rparr>))"

definition SwapRandom :: "u32 \<Rightarrow> u32 \<Rightarrow> addr_man \<Rightarrow> addr_man option" where
  "SwapRandom nRndPos1 nRndPos2 m =
     (if nRndPos1 = nRndPos2 then Some m
      else if \<not> (unat nRndPos1 < length (vRandom m) \<and> unat nRndPos2 < length (vRandom m)) then None
      else let nId1 = vRandom m ! unat nRndPos1; nId2 = vRandom m ! unat nRndPos2
           in case (map_of (mapInfo m) nId1, map_of (mapInfo m) nId2) of
                (Some info1, Some info2) \<Rightarrow>
                  (let m = put_info nId1 (info1\<lparr>nRandomPos := sint nRndPos2\<rparr>) m;
                       m = put_info nId2 (info2\<lparr>nRandomPos := sint nRndPos1\<rparr>) m
                   in Some (m\<lparr>vRandom := (vRandom m)[unat nRndPos1 := nId2, unat nRndPos2 := nId1]\<rparr>))
              | _ \<Rightarrow> None)"

text \<open>
  \<^verbatim>\<open>SelectTried\<close>: the position to replace, and the bucket after the shuffle of its first elements.
\<close>

fun select_tried_loop :: "(nat \<Rightarrow> nat) \<Rightarrow> nat list \<Rightarrow> int list \<Rightarrow> int \<Rightarrow> int \<Rightarrow> info_map \<Rightarrow> (int \<times> int list \<times> info_map) option" where
  "select_tried_loop rnd [] vTried nOldest nOldestPos infos = Some (nOldestPos, vTried, infos)"
| "select_tried_loop rnd (i # is) vTried nOldest nOldestPos infos =
     (let nPos = GetRandInt (length vTried - i) (rnd i) + i;
          nTemp = vTried ! nPos;
          vTried = vTried[nPos := vTried ! i];
          vTried = vTried[i := nTemp]
      in if nOldest \<noteq> - 1 \<and> \<not> std_count nTemp infos then None
         else if nOldest = - 1 then select_tried_loop rnd is vTried nTemp (int nPos) infos
         else let (a, infos) = std_get CAddrInfo_default nTemp infos; (b, infos) = std_get CAddrInfo_default nOldest infos
              in if nLastSuccess a < nLastSuccess b then select_tried_loop rnd is vTried nTemp (int nPos) infos
                 else select_tried_loop rnd is vTried nOldest nOldestPos infos)"

definition SelectTried :: "(nat \<Rightarrow> nat) \<Rightarrow> nat \<Rightarrow> addr_man \<Rightarrow> (int \<times> addr_man) option" where
  "SelectTried rnd nKBucket m =
     (let vTried = vvTried m ! nKBucket
      in map_option (\<lambda>(nOldestPos, vTried, infos). (nOldestPos, m\<lparr>mapInfo := infos, vvTried := (vvTried m)[nKBucket := vTried]\<rparr>))
           (select_tried_loop rnd [0..<min 4 (length vTried)] vTried (- 1) (- 1) (mapInfo m)))"

section \<open>New addresses\<close>

text \<open>One reference to an entry less; without any the entry is deleted.\<close>

definition release :: "int \<Rightarrow> addr_man \<Rightarrow> addr_man option" where
  "release nId m =
     (case map_of (mapInfo m) nId of
        None \<Rightarrow> None
      | Some info \<Rightarrow>
          (let info = info\<lparr>nRefCount := nRefCount info - 1\<rparr>; m = put_info nId info m
           in if nRefCount info = 0
              then (case SwapRandom (of_int (nRandomPos info)) (of_nat (length (vRandom m)) - 1) m of
                      None \<Rightarrow> None
                    | Some m \<Rightarrow> Some (m\<lparr>vRandom := butlast (vRandom m), mapAddr := (mapAddr m)(ip (service info) := None),
                                        mapInfo := std_erase nId (mapInfo m), nNew := nNew m - 1\<rparr>))
              else Some m))"

fun find_terrible :: "int \<Rightarrow> info_map \<Rightarrow> int list \<Rightarrow> int option option" where
  "find_terrible now infos [] = Some None"
| "find_terrible now infos (nId # ids) =
     (case map_of infos nId of
        None \<Rightarrow> None
      | Some info \<Rightarrow> if IsTerrible now info then Some (Some nId) else find_terrible now infos ids)"

fun find_oldest :: "nat list \<Rightarrow> int list \<Rightarrow> nat \<Rightarrow> int \<Rightarrow> info_map \<Rightarrow> (int \<times> info_map) option" where
  "find_oldest n [] nI nOldest infos = Some (nOldest, infos)"
| "find_oldest n (nId # ids) nI nOldest infos =
     (if nI \<in> set n
      then if nOldest \<noteq> - 1 \<and> \<not> std_count nId infos then None
           else if nOldest = - 1 then find_oldest n ids (nI + 1) nId infos
           else let (a, infos) = std_get CAddrInfo_default nId infos; (b, infos) = std_get CAddrInfo_default nOldest infos
                in find_oldest n ids (nI + 1) (if nTime a < nTime b then nId else nOldest) infos
      else find_oldest n ids (nI + 1) nOldest infos)"

definition remove_from_bucket :: "nat \<Rightarrow> int \<Rightarrow> addr_man \<Rightarrow> addr_man" where
  "remove_from_bucket nUBucket nId m = m\<lparr>vvNew := (vvNew m)[nUBucket := vvNew m ! nUBucket - {nId}]\<rparr>"

definition ShrinkNew :: "int \<Rightarrow> (nat \<Rightarrow> nat) \<Rightarrow> nat \<Rightarrow> addr_man \<Rightarrow> (int \<times> addr_man) option" where
  "ShrinkNew now rnd nUBucket m =
     (if \<not> nUBucket < length (vvNew m) then None
      else let ids = sorted_list_of_set (vvNew m ! nUBucket)
           in case find_terrible now (mapInfo m) ids of
                None \<Rightarrow> None
              | Some (Some nId) \<Rightarrow> map_option (\<lambda>m. (0, remove_from_bucket nUBucket nId m)) (release nId m)
              | Some None \<Rightarrow>
                  (let n = map (\<lambda>k. GetRandInt (length ids) (rnd k)) [0..<4]
                   in case find_oldest n ids 0 (- 1) (mapInfo m) of
                        None \<Rightarrow> None
                      | Some (nOldest, infos) \<Rightarrow>
                          map_option (\<lambda>m. (1, remove_from_bucket nUBucket nOldest m)) (release nOldest (m\<lparr>mapInfo := infos\<rparr>))))"

section \<open>Moving an address to the tried ones\<close>

definition upd_info :: "int \<Rightarrow> (addr_info \<Rightarrow> addr_info) \<Rightarrow> addr_man \<Rightarrow> addr_man" where
  "upd_info nId f m = (case map_of (mapInfo m) nId of None \<Rightarrow> m | Some info \<Rightarrow> put_info nId (f info) m)"

definition evict_tried :: "(vch_t \<Rightarrow> uint256) \<Rightarrow> (nat \<Rightarrow> nat) \<Rightarrow> int \<Rightarrow> nat \<Rightarrow> nat \<Rightarrow> addr_man \<Rightarrow> addr_man option" where
  "evict_tried Hash rnd nId nOrigin nKBucket m =
     (case SelectTried rnd nKBucket m of
        None \<Rightarrow> None
      | Some (nPos, m) \<Rightarrow>
          (let vTried = vvTried m ! nKBucket
           in if \<not> (0 \<le> nPos \<and> nat nPos < length vTried) then None
              else let nOld = vTried ! nat nPos
                   in case map_of (mapInfo m) nOld of
                        None \<Rightarrow> None
                      | Some infoOld \<Rightarrow>
                          (let nUBucket = GetNewBucket Hash (nKey m) (source infoOld) infoOld;
                               vNew = vvNew m ! nUBucket;
                               m = put_info nOld (infoOld\<lparr>fInTried := False, nRefCount := 1\<rparr>) m;
                               m = (if card vNew < 64 then m\<lparr>vvNew := (vvNew m)[nUBucket := insert nOld vNew]\<rparr>
                                    else m\<lparr>vvNew := (vvNew m)[nOrigin := insert nOld (vvNew m ! nOrigin)]\<rparr>);
                               m = m\<lparr>nNew := nNew m + 1, vvTried := (vvTried m)[nKBucket := vTried[nat nPos := nId]]\<rparr>
                           in Some (upd_info nId (\<lambda>info. info\<lparr>fInTried := True\<rparr>) m))))"

definition MakeTried :: "(vch_t \<Rightarrow> uint256) \<Rightarrow> (nat \<Rightarrow> nat) \<Rightarrow> int \<Rightarrow> nat \<Rightarrow> addr_man \<Rightarrow> addr_man option" where
  "MakeTried Hash rnd nId nOrigin m =
     (case map_of (mapInfo m) nId of
        None \<Rightarrow> None
      | Some info \<Rightarrow>
          (if \<not> (nOrigin < length (vvNew m) \<and> nId \<in> vvNew m ! nOrigin) then None
           else let info = info\<lparr>nRefCount := nRefCount info - int (length (filter (\<lambda>vNew. nId \<in> vNew) (vvNew m)))\<rparr>;
                    m = put_info nId info (m\<lparr>vvNew := map (\<lambda>vNew. vNew - {nId}) (vvNew m), nNew := nNew m - 1\<rparr>)
                in if nRefCount info \<noteq> 0 then None
                   else let nKBucket = GetTriedBucket Hash (nKey m) info; vTried = vvTried m ! nKBucket
                        in if length vTried < 64
                           then Some (upd_info nId (\<lambda>info. info\<lparr>fInTried := True\<rparr>)
                                  (m\<lparr>vvTried := (vvTried m)[nKBucket := vTried @ [nId]], nTried := nTried m + 1\<rparr>))
                           else evict_tried Hash rnd nId nOrigin nKBucket m))"

definition find_bucket :: "nat \<Rightarrow> int \<Rightarrow> int set list \<Rightarrow> nat option" where
  "find_bucket nRnd nId buckets =
     map_option (\<lambda>n. (n + nRnd) mod length buckets)
       (find (\<lambda>n. nId \<in> buckets ! ((n + nRnd) mod length buckets)) [0..<length buckets])"

definition Good :: "(vch_t \<Rightarrow> uint256) \<Rightarrow> (nat \<Rightarrow> nat) \<Rightarrow> net_service \<Rightarrow> int \<Rightarrow> addr_man \<Rightarrow> addr_man option" where
  "Good Hash rnd addr time m =
     (case Find (ip addr) m of
        None \<Rightarrow> Some m
      | Some (nId, info) \<Rightarrow>
          if \<not> CService_equal (service info) addr then Some m
          else let info = info\<lparr>nLastSuccess := time, nLastTry := time, nTime := of_int time, nAttempts := 0\<rparr>;
                   m = put_info nId info m
               in if fInTried info then Some m
                  else case find_bucket (GetRandInt (length (vvNew m)) (rnd 0)) nId (vvNew m) of
                         None \<Rightarrow> Some m
                       | Some nUBucket \<Rightarrow> MakeTried Hash (\<lambda>k. rnd (Suc k)) nId nUBucket m)"

section \<open>Adding an address\<close>

text \<open>The end of \<^verbatim>\<open>Add_\<close>: the entry is put into the bucket of its source, which is shrunk if it is full.\<close>

definition add_to_bucket :: "(vch_t \<Rightarrow> uint256) \<Rightarrow> int \<Rightarrow> (nat \<Rightarrow> nat) \<Rightarrow> int \<Rightarrow> net_addr \<Rightarrow> addr_man \<Rightarrow> addr_man option" where
  "add_to_bucket Hash now rnd nId src m =
     (case map_of (mapInfo m) nId of
        None \<Rightarrow> None
      | Some info \<Rightarrow>
          (let nUBucket = GetNewBucket Hash (nKey m) src info; vNew = vvNew m ! nUBucket
           in if nId \<in> vNew then Some m
              else let m = put_info nId (info\<lparr>nRefCount := nRefCount info + 1\<rparr>) m
                   in map_option (\<lambda>m. m\<lparr>vvNew := (vvNew m)[nUBucket := insert nId (vvNew m ! nUBucket)]\<rparr>)
                        (if card vNew = 64 then map_option snd (ShrinkNew now rnd nUBucket m) else Some m)))"

definition update_known :: "int \<Rightarrow> int \<Rightarrow> net_address \<Rightarrow> addr_info \<Rightarrow> addr_info" where
  "update_known now nTimePenalty addr info =
     (let fCurrentlyOnline = now - uint (nTime addr) < 24 * 60 * 60;
          nUpdateInterval = (if fCurrentlyOnline then 60 * 60 else 24 * 60 * 60);
          info = (if nTime addr \<noteq> 0 \<and> (nTime info = 0 \<or> uint (nTime info) < uint (nTime addr) - nUpdateInterval - nTimePenalty)
                  then info\<lparr>nTime := of_int (max 0 (uint (nTime addr) - nTimePenalty))\<rparr> else info)
      in info\<lparr>nServices := nServices info OR nServices addr\<rparr>)"

definition Add :: "(vch_t \<Rightarrow> uint256) \<Rightarrow> int \<Rightarrow> (nat \<Rightarrow> nat) \<Rightarrow> net_address \<Rightarrow> net_addr \<Rightarrow> int \<Rightarrow> addr_man \<Rightarrow> (bool \<times> addr_man) option" where
  "Add Hash now rnd addr src nTimePenalty m =
     (if \<not> IsRoutable (ip (service addr)) then Some (False, m)
      else case Find (ip (service addr)) m of
             Some (nId, info) \<Rightarrow>
               (let info = update_known now nTimePenalty addr info; m = put_info nId info m
                in if nTime addr = 0 \<or> (nTime info \<noteq> 0 \<and> nTime addr \<le> nTime info) then Some (False, m)
                   else if fInTried info then Some (False, m)
                   else if nRefCount info = 4 then Some (False, m)
                   else let nFactor = 2 ^ nat (nRefCount info)
                        in if nFactor > 1 \<and> GetRandInt nFactor (rnd 0) \<noteq> 0 then Some (False, m)
                           else map_option (Pair False) (add_to_bucket Hash now (\<lambda>k. rnd (Suc k)) nId src m))
           | None \<Rightarrow>
               (case Create addr src m of
                  None \<Rightarrow> None
                | Some (nId, m) \<Rightarrow>
                    (let m = upd_info nId (\<lambda>info. info\<lparr>nTime := of_int (max 0 (uint (nTime info) - nTimePenalty))\<rparr>) m;
                         m = m\<lparr>nNew := nNew m + 1\<rparr>
                     in map_option (Pair True) (add_to_bucket Hash now (\<lambda>k. rnd (Suc k)) nId src m))))"

text \<open>\<^verbatim>\<open>Add\<close> of a vector of addresses.\<close>

fun Add_all :: "(vch_t \<Rightarrow> uint256) \<Rightarrow> int \<Rightarrow> (nat \<Rightarrow> nat \<Rightarrow> nat) \<Rightarrow> net_address list \<Rightarrow> net_addr \<Rightarrow> int \<Rightarrow> nat \<Rightarrow> addr_man
    \<Rightarrow> (bool \<times> addr_man) option" where
  "Add_all Hash now rnd [] src nTimePenalty nAdd m = Some (0 < nAdd, m)"
| "Add_all Hash now rnd (addr # vAddr) src nTimePenalty nAdd m =
     (case Add Hash now (rnd 0) addr src nTimePenalty m of
        None \<Rightarrow> None
      | Some (fRet, m) \<Rightarrow> Add_all Hash now (\<lambda>k. rnd (Suc k)) vAddr src nTimePenalty (if fRet then nAdd + 1 else nAdd) m)"

section \<open>Attempts, connections, selections\<close>

definition Attempt :: "net_service \<Rightarrow> int \<Rightarrow> addr_man \<Rightarrow> addr_man option" where
  "Attempt addr time m =
     (case Find (ip addr) m of
        None \<Rightarrow> Some m
      | Some (nId, info) \<Rightarrow>
          if \<not> CService_equal (service info) addr then Some m
          else if nAttempts info = INT_MAX then None
          else Some (put_info nId (info\<lparr>nLastTry := time, nAttempts := nAttempts info + 1\<rparr>) m))"

definition Connected :: "net_service \<Rightarrow> int \<Rightarrow> addr_man \<Rightarrow> addr_man" where
  "Connected addr time m =
     (case Find (ip addr) m of
        None \<Rightarrow> m
      | Some (nId, info) \<Rightarrow>
          if \<not> CService_equal (service info) addr then m
          else if time - uint (nTime info) > 20 * 60 then put_info nId (info\<lparr>nTime := of_int time\<rparr>) m
          else m)"

text \<open>
  The loops of \<^verbatim>\<open>Select_\<close> take, for each turn, the draws of a bucket and of a position, the adjusted time and the draw that
  is compared with the chance; the inner \<open>None\<close> is that no turn so far has returned.
\<close>

type_synonym turn = "nat \<times> nat \<times> int \<times> nat"

definition accepts :: "double \<Rightarrow> int \<Rightarrow> nat \<Rightarrow> addr_info \<Rightarrow> bool" where
  "accepts fChanceFactor now r info = d_less (d_of_int (int (GetRandInt (2 ^ 30) r))) (d_mult (d_mult fChanceFactor (GetChance now info)) (Fin (2 ^ 30)))"

fun select_tried :: "double \<Rightarrow> turn list \<Rightarrow> addr_man \<Rightarrow> addr_info option option" where
  "select_tried fChanceFactor [] m = Some None"
| "select_tried fChanceFactor ((r1, r2, now, r3) # turns) m =
     (let vTried = vvTried m ! GetRandInt (length (vvTried m)) r1
      in if length vTried = 0 then select_tried fChanceFactor turns m
         else case map_of (mapInfo m) (vTried ! GetRandInt (length vTried) r2) of
                None \<Rightarrow> None
              | Some info \<Rightarrow> if accepts fChanceFactor now r3 info then Some (Some info)
                             else select_tried (d_mult fChanceFactor (to_double (12 / 10))) turns m)"

fun select_new :: "double \<Rightarrow> turn list \<Rightarrow> addr_man \<Rightarrow> addr_info option option" where
  "select_new fChanceFactor [] m = Some None"
| "select_new fChanceFactor ((r1, r2, now, r3) # turns) m =
     (let vNew = vvNew m ! GetRandInt (length (vvNew m)) r1
      in if card vNew = 0 then select_new fChanceFactor turns m
         else case map_of (mapInfo m) (sorted_list_of_set vNew ! GetRandInt (card vNew) r2) of
                None \<Rightarrow> None
              | Some info \<Rightarrow> if accepts fChanceFactor now r3 info then Some (Some info)
                             else select_new (d_mult fChanceFactor (to_double (12 / 10))) turns m)"

definition use_tried :: "int \<Rightarrow> nat \<Rightarrow> addr_man \<Rightarrow> bool" where
  "use_tried nUnkBias r m =
     (let nCorTried = d_mult (d_sqrt (d_of_int (nTried m))) (d_sub (Fin 100) (d_of_int nUnkBias));
          nCorNew = d_mult (d_sqrt (d_of_int (nNew m))) (d_of_int nUnkBias)
      in d_less (d_div (d_mult (d_add nCorTried nCorNew) (d_of_int (int (GetRandInt (2 ^ 30) r)))) (Fin (2 ^ 30))) nCorTried)"

definition Select :: "int \<Rightarrow> nat \<Rightarrow> turn list \<Rightarrow> addr_man \<Rightarrow> net_address option option" where
  "Select nUnkBias r turns m =
     (if length (vRandom m) = 0 then Some (Some (CAddress_new \<lparr>ip = CNetAddr_new, port = 0\<rparr>))
      else map_option (map_option net_address.truncate)
             (if use_tried nUnkBias r m then select_tried (Fin 1) turns m else select_new (Fin 1) turns m))"

fun get_addr_loop :: "(nat \<Rightarrow> nat) \<Rightarrow> nat list \<Rightarrow> net_address list \<Rightarrow> addr_man \<Rightarrow> (net_address list \<times> addr_man) option" where
  "get_addr_loop rnd [] vAddr m = Some (vAddr, m)"
| "get_addr_loop rnd (n # ns) vAddr m =
     (let nRndPos = GetRandInt (length (vRandom m) - n) (rnd n) + n
      in case SwapRandom (of_nat n) (of_nat nRndPos) m of
           None \<Rightarrow> None
         | Some m \<Rightarrow>
             (case map_of (mapInfo m) (vRandom m ! n) of
                None \<Rightarrow> None
              | Some info \<Rightarrow> get_addr_loop rnd ns (vAddr @ [net_address.truncate info]) m))"

definition GetAddr :: "(nat \<Rightarrow> nat) \<Rightarrow> addr_man \<Rightarrow> (net_address list \<times> addr_man) option" where
  "GetAddr rnd m =
     (let nNodes = 23 * length (vRandom m) div 100;
          nNodes = (if nNodes > 2500 then 2500 else nNodes)
      in get_addr_loop rnd [0..<nNodes] [] m)"

section \<open>The consistency check\<close>

text \<open>
  \<^verbatim>\<open>Check_\<close> gives an error code or the sets it collected.  \<^verbatim>\<open>mapAddr[info]\<close> is zero, and is then stored, for an address that
  the map does not have.
\<close>

definition check_info :: "int \<Rightarrow> addr_info \<Rightarrow> int list \<Rightarrow> (net_addr \<rightharpoonup> int) \<Rightarrow> int set \<Rightarrow> (int, int) std_map
    \<Rightarrow> int \<times> (net_addr \<rightharpoonup> int) + (net_addr \<rightharpoonup> int) \<times> int set \<times> (int, int) std_map" where
  "check_info n info rand addrs setTried mapNew =
     (let rest = (\<lambda>setTried mapNew.
        let a = ip (service info); addrs = (if addrs a = None then addrs(a \<mapsto> 0) else addrs)
        in if addrs a \<noteq> Some n then Inl (- 5, addrs)
           else if nRandomPos info < 0 \<or> nRandomPos info \<ge> int (length rand) \<or> rand ! nat (nRandomPos info) \<noteq> n then Inl (- 14, addrs)
           else if nLastTry info < 0 then Inl (- 6, addrs)
           else if nLastSuccess info < 0 then Inl (- 8, addrs)
           else Inr (addrs, setTried, mapNew))
      in if fInTried info
         then if nLastSuccess info = 0 then Inl (- 1, addrs)
              else if nRefCount info \<noteq> 0 then Inl (- 2, addrs)
              else rest (insert n setTried) mapNew
         else if nRefCount info < 0 \<or> nRefCount info > 4 then Inl (- 3, addrs)
              else if nRefCount info = 0 then Inl (- 4, addrs)
              else rest setTried (std_put n (nRefCount info) mapNew))"

fun check_infos :: "info_map \<Rightarrow> int list \<Rightarrow> (net_addr \<rightharpoonup> int) \<Rightarrow> int set \<Rightarrow> (int, int) std_map
    \<Rightarrow> int \<times> (net_addr \<rightharpoonup> int) + (net_addr \<rightharpoonup> int) \<times> int set \<times> (int, int) std_map" where
  "check_infos [] rand addrs setTried mapNew = Inr (addrs, setTried, mapNew)"
| "check_infos ((n, info) # infos) rand addrs setTried mapNew =
     (case check_info n info rand addrs setTried mapNew of
        Inl err \<Rightarrow> Inl err
      | Inr (addrs, setTried, mapNew) \<Rightarrow> check_infos infos rand addrs setTried mapNew)"

fun check_tried :: "int list \<Rightarrow> int set \<Rightarrow> int + int set" where
  "check_tried [] setTried = Inr setTried"
| "check_tried (nId # ids) setTried = (if nId \<notin> setTried then Inl (- 11) else check_tried ids (setTried - {nId}))"

fun check_new :: "int list \<Rightarrow> (int, int) std_map \<Rightarrow> int + (int, int) std_map" where
  "check_new [] mapNew = Inr mapNew"
| "check_new (nId # ids) mapNew =
     (case map_of mapNew nId of
        None \<Rightarrow> Inl (- 12)
      | Some c \<Rightarrow> check_new ids (if c - 1 = 0 then std_erase nId mapNew else std_put nId (c - 1) mapNew))"

definition Check :: "addr_man \<Rightarrow> int \<times> addr_man" where
  "Check m =
     (if int (length (vRandom m)) \<noteq> nTried m + nNew m then (- 7, m)
      else case check_infos (mapInfo m) (vRandom m) (mapAddr m) {} [] of
             Inl (err, addrs) \<Rightarrow> (err, m\<lparr>mapAddr := addrs\<rparr>)
           | Inr (addrs, setTried, mapNew) \<Rightarrow>
               (let m = m\<lparr>mapAddr := addrs\<rparr>
                in if int (card setTried) \<noteq> nTried m then (- 9, m)
                   else if int (length mapNew) \<noteq> nNew m then (- 10, m)
                   else case check_tried (concat (vvTried m)) setTried of
                          Inl err \<Rightarrow> (err, m)
                        | Inr setTried \<Rightarrow>
                            (case check_new (concat (map sorted_list_of_set (vvNew m))) mapNew of
                               Inl err \<Rightarrow> (err, m)
                             | Inr mapNew \<Rightarrow>
                                 if setTried \<noteq> {} then (- 13, m) else if mapNew \<noteq> [] then (- 15, m) else (0, m))))"

section \<open>The invariant\<close>

text \<open>
  It is stated over the parts of the manager: the entries as a partial function \<open>I\<close>, the index by address \<open>A\<close>, the random
  order \<open>R\<close>, the tried buckets \<open>T\<close> and the new buckets \<open>N\<close>.
\<close>

type_synonym entries = "int \<rightharpoonup> addr_info"

definition tried_of :: "entries \<Rightarrow> int set" where
  "tried_of I = {nId. \<exists>info. I nId = Some info \<and> fInTried info}"

definition new_of :: "entries \<Rightarrow> int set" where
  "new_of I = {nId. \<exists>info. I nId = Some info \<and> \<not> fInTried info}"

definition refs :: "int \<Rightarrow> int set list \<Rightarrow> nat" where
  "refs nId N = length (filter (\<lambda>v. nId \<in> v) N)"

definition ids_ok :: "int \<Rightarrow> entries \<Rightarrow> int \<Rightarrow> bool" where
  "ids_ok cap I c \<longleftrightarrow> 0 \<le> c \<and> c \<le> cap \<and> cap \<le> INT_MAX \<and> (\<forall>nId \<in> dom I. 0 \<le> nId \<and> nId < c)"

definition addrs_ok :: "entries \<Rightarrow> (net_addr \<rightharpoonup> int) \<Rightarrow> bool" where
  "addrs_ok I A \<longleftrightarrow> (\<forall>a nId. A a = Some nId \<longleftrightarrow> (\<exists>info. I nId = Some info \<and> ip (service info) = a))"

definition random_ok :: "entries \<Rightarrow> int list \<Rightarrow> bool" where
  "random_ok I R \<longleftrightarrow>
     (\<forall>i < length R. \<exists>info. I (R ! i) = Some info \<and> nRandomPos info = int i) \<and>
     (\<forall>nId info. I nId = Some info \<longrightarrow> (\<exists>i < length R. R ! i = nId))"

definition shape_ok :: "int list list \<Rightarrow> int set list \<Rightarrow> bool" where
  "shape_ok T N \<longleftrightarrow> length T = 64 \<and> (\<forall>v \<in> set T. length v \<le> 64)
     \<and> length N = 256 \<and> (\<forall>v \<in> set N. finite v \<and> card v \<le> 64)"

definition tried_ok :: "entries \<Rightarrow> int list list \<Rightarrow> bool" where
  "tried_ok I T \<longleftrightarrow> distinct (concat T) \<and> set (concat T) = tried_of I"

text \<open>
  An entry and the number of its references.  The argument \<open>pend\<close> is the references of an entry that are counted but not
  yet in a bucket.
\<close>

definition entry_ok :: "nat \<Rightarrow> addr_info \<Rightarrow> bool" where
  "entry_ok r info \<longleftrightarrow>
     (if fInTried info then nRefCount info = 0 else nRefCount info = int r \<and> 1 \<le> nRefCount info \<and> nRefCount info \<le> 4)"

definition new_ok :: "(int \<Rightarrow> nat) \<Rightarrow> entries \<Rightarrow> int set list \<Rightarrow> bool" where
  "new_ok pend I N \<longleftrightarrow> (\<forall>v \<in> set N. v \<subseteq> new_of I) \<and> (\<forall>nId info. I nId = Some info \<longrightarrow> entry_ok (refs nId N + pend nId) info)"

definition counts_ok :: "entries \<Rightarrow> int \<Rightarrow> int \<Rightarrow> bool" where
  "counts_ok I tried new \<longleftrightarrow> tried = int (card (tried_of I)) \<and> new = int (card (new_of I))"

definition stats_ok :: "int \<Rightarrow> entries \<Rightarrow> bool" where
  "stats_ok cap I \<longleftrightarrow> (\<forall>nId info. I nId = Some info \<longrightarrow>
     0 \<le> nLastTry info \<and> 0 \<le> nLastSuccess info \<and> (fInTried info \<longrightarrow> 0 < nLastSuccess info) \<and> nAttempts info \<le> cap)"

definition am_ok :: "int \<Rightarrow> (int \<Rightarrow> nat) \<Rightarrow> addr_man \<Rightarrow> bool" where
  "am_ok cap pend m \<longleftrightarrow> std_ok (mapInfo m) \<and> ids_ok cap (map_of (mapInfo m)) (nIdCount m)
     \<and> addrs_ok (map_of (mapInfo m)) (mapAddr m) \<and> random_ok (map_of (mapInfo m)) (vRandom m)
     \<and> shape_ok (vvTried m) (vvNew m) \<and> tried_ok (map_of (mapInfo m)) (vvTried m)
     \<and> new_ok pend (map_of (mapInfo m)) (vvNew m) \<and> counts_ok (map_of (mapInfo m)) (nTried m) (nNew m)
     \<and> stats_ok cap (map_of (mapInfo m))"

abbreviation addrman_ok :: "int \<Rightarrow> addr_man \<Rightarrow> bool" where
  "addrman_ok cap \<equiv> am_ok cap (\<lambda>_. 0)"

lemma new_manager_ok: "addrman_ok 0 (CAddrMan_new key)"
  by (auto simp: am_ok_def CAddrMan_new_def ids_ok_def addrs_ok_def random_ok_def shape_ok_def tried_ok_def new_ok_def
      counts_ok_def stats_ok_def tried_of_def new_of_def INT_MAX_def)

subsection \<open>Changing an entry\<close>

lemma finite_entries: "finite (tried_of (map_of m))" "finite (new_of (map_of m))"
  by (rule finite_subset [OF _ finite_dom_map_of [of m]], auto simp: tried_of_def new_of_def)+

lemma ids_ok_upd: "ids_ok cap I c \<Longrightarrow> I nId = Some i \<Longrightarrow> ids_ok cap (I(nId \<mapsto> i')) c"
  by (auto simp: ids_ok_def)

lemma addrs_ok_upd: "addrs_ok I A \<Longrightarrow> I nId = Some i \<Longrightarrow> ip (service i') = ip (service i) \<Longrightarrow> addrs_ok (I(nId \<mapsto> i')) A"
  unfolding addrs_ok_def by auto

lemma random_ok_upd: "random_ok I R \<Longrightarrow> I nId = Some i \<Longrightarrow> nRandomPos i' = nRandomPos i \<Longrightarrow> random_ok (I(nId \<mapsto> i')) R"
  unfolding random_ok_def by auto

lemma tried_of_upd: "tried_of (I(nId \<mapsto> i)) = (if fInTried i then insert nId (tried_of I) else tried_of I - {nId})"
  by (auto simp: tried_of_def)

lemma new_of_upd: "new_of (I(nId \<mapsto> i)) = (if fInTried i then new_of I - {nId} else insert nId (new_of I))"
  by (auto simp: new_of_def)

lemma in_tried_of [simp]: "I nId = Some i \<Longrightarrow> nId \<in> tried_of I \<longleftrightarrow> fInTried i"
  by (simp add: tried_of_def)

lemma in_new_of [simp]: "I nId = Some i \<Longrightarrow> nId \<in> new_of I \<longleftrightarrow> \<not> fInTried i"
  by (simp add: new_of_def)

lemma same_sets_upd:
  "I nId = Some i \<Longrightarrow> fInTried i' = fInTried i \<Longrightarrow> tried_of (I(nId \<mapsto> i')) = tried_of I \<and> new_of (I(nId \<mapsto> i')) = new_of I"
  by (auto simp: tried_of_upd new_of_upd)

lemma stats_ok_upd:
  "stats_ok cap I \<Longrightarrow> 0 \<le> nLastTry i \<Longrightarrow> 0 \<le> nLastSuccess i \<Longrightarrow> (fInTried i \<Longrightarrow> 0 < nLastSuccess i) \<Longrightarrow> nAttempts i \<le> cap
    \<Longrightarrow> stats_ok cap (I(nId \<mapsto> i))"
  by (auto simp: stats_ok_def)

lemma entry_ok_cong: "fInTried i' = fInTried i \<Longrightarrow> nRefCount i' = nRefCount i \<Longrightarrow> entry_ok r i' = entry_ok r i"
  by (simp add: entry_ok_def)

lemma new_ok_upd:
  "new_ok pend I N \<Longrightarrow> I nId = Some i \<Longrightarrow> fInTried i' = fInTried i \<Longrightarrow> nRefCount i' = nRefCount i \<Longrightarrow> new_ok pend (I(nId \<mapsto> i')) N"
  using same_sets_upd [of I nId i i'] entry_ok_cong [of i' i] unfolding new_ok_def by auto

text \<open>An update that leaves the place of the entry in the tables alone.\<close>

lemma put_statistics_ok:
  assumes "am_ok cap pend m" and "map_of (mapInfo m) nId = Some i" and "ip (service i') = ip (service i)"
    and "fInTried i' = fInTried i" and "nRefCount i' = nRefCount i" and "nRandomPos i' = nRandomPos i"
    and "0 \<le> nLastTry i'" and "0 \<le> nLastSuccess i'" and "fInTried i' \<Longrightarrow> 0 < nLastSuccess i'" and "nAttempts i' \<le> cap"
  shows "am_ok cap pend (put_info nId i' m)"
proof -
  have "stats_ok cap ((map_of (mapInfo m))(nId \<mapsto> i'))"
    using assms(1) by (intro stats_ok_upd assms(7-10)) (auto simp: am_ok_def)
  then show ?thesis
    using assms(1-6) same_sets_upd [of "map_of (mapInfo m)", OF assms(2,4)]
    by (simp add: am_ok_def put_info_def map_of_std_put ids_ok_upd addrs_ok_upd random_ok_upd new_ok_upd
        tried_ok_def counts_ok_def)
qed

subsection \<open>The random order\<close>

lemma random_distinct: "random_ok I R \<Longrightarrow> distinct R"
  unfolding random_ok_def distinct_conv_nth by (metis of_nat_eq_iff option.inject)

lemma random_set: "random_ok I R \<Longrightarrow> set R = dom I"
  unfolding random_ok_def by (auto simp: in_set_conv_nth dom_def) blast

lemma length_random:
  assumes "random_ok I R" and "ids_ok cap I c"
  shows "int (length R) \<le> c" and "length R < 2 ^ 31"
proof -
  have "set R \<subseteq> {0..<c}" using assms random_set [OF assms(1)] by (auto simp: ids_ok_def)
  then have "card (set R) \<le> card {0..<c}" by (intro card_mono) auto
  then show "int (length R) \<le> c" using distinct_card [OF random_distinct [OF assms(1)]] assms(2) by (simp add: ids_ok_def le_nat_iff)
  then show "length R < 2 ^ 31" using assms(2) by (simp add: ids_ok_def INT_MAX_def)
qed

lemma random_entry: "random_ok I R \<Longrightarrow> i < length R \<Longrightarrow> \<exists>info. I (R ! i) = Some info \<and> nRandomPos info = int i"
  by (simp add: random_ok_def)

lemma random_pos:
  assumes "random_ok I R" and "I nId = Some info"
  shows "0 \<le> nRandomPos info" and "nat (nRandomPos info) < length R" and "R ! nat (nRandomPos info) = nId"
  using assms unfolding random_ok_def by (metis nat_int of_nat_0_le_iff option.inject)+

lemma random_swap:
  assumes "random_ok I R" and "p < length R" and "q < length R" and "p \<noteq> q"
    and "I (R ! p) = Some i" and "I (R ! q) = Some j"
  shows "random_ok (I(R ! p \<mapsto> i\<lparr>nRandomPos := int q\<rparr>, R ! q \<mapsto> j\<lparr>nRandomPos := int p\<rparr>)) (R[p := R ! q, q := R ! p])"
proof -
  have d: "R ! k = R ! l \<longleftrightarrow> k = l" if "k < length R" "l < length R" for k l
    using random_distinct [OF assms(1)] that by (simp add: nth_eq_iff_index_eq)
  let ?I = "I(R ! p \<mapsto> i\<lparr>nRandomPos := int q\<rparr>, R ! q \<mapsto> j\<lparr>nRandomPos := int p\<rparr>)" and ?R = "R[p := R ! q, q := R ! p]"
  have "\<exists>info. ?I (?R ! k) = Some info \<and> nRandomPos info = int k" if "k < length R" for k
    using that assms(2-4) d random_entry [OF assms(1) that] by (auto simp: nth_list_update)
  moreover have "\<exists>k < length R. ?R ! k = nId" if "?I nId = Some info" for nId info
  proof -
    have "nId \<in> set R" using that random_set [OF assms(1)] assms(2,3) by (auto split: if_splits)
    moreover have "set ?R = set R" using assms(2,3) set_swap [of p R q] by (simp add: list_update_swap [OF assms(4)])
    ultimately show ?thesis by (metis in_set_conv_nth length_list_update)
  qed
  ultimately show ?thesis unfolding random_ok_def by simp
qed

lemma sint_position: "p < 2 ^ 31 \<Longrightarrow> sint (of_nat p :: u32) = int p"
  by (simp add: signed_of_nat signed_take_bit_int_eq_self)

text \<open>What does not change when the place of an entry in the random order does.\<close>

definition same_entries :: "entries \<Rightarrow> entries \<Rightarrow> bool" where
  "same_entries I J \<longleftrightarrow> (\<forall>nId. map_option (\<lambda>i. i\<lparr>nRandomPos := 0\<rparr>) (I nId) = map_option (\<lambda>i. i\<lparr>nRandomPos := 0\<rparr>) (J nId))"

lemma same_entries_refl [simp]: "same_entries I I"
  by (simp add: same_entries_def)

lemma same_entries_trans: "same_entries I J \<Longrightarrow> same_entries J K \<Longrightarrow> same_entries I K"
  by (simp add: same_entries_def)

lemma same_entries_upd: "I nId = Some i \<Longrightarrow> same_entries (I(nId \<mapsto> i\<lparr>nRandomPos := p\<rparr>)) I"
  by (simp add: same_entries_def)

lemma same_entriesD:
  assumes "same_entries I J" and "I nId = Some i"
  shows "\<exists>p. J nId = Some (i\<lparr>nRandomPos := p\<rparr>)"
proof -
  obtain j where j: "J nId = Some j" "i\<lparr>nRandomPos := 0\<rparr> = j\<lparr>nRandomPos := 0\<rparr>"
    using assms unfolding same_entries_def by (metis (no_types, lifting) map_option_eq_Some option.simps(9))
  then have "j = i\<lparr>nRandomPos := nRandomPos j\<rparr>" by (cases i; cases j) auto
  then show ?thesis using j by metis
qed

lemma same_entries_sym: "same_entries I J \<Longrightarrow> same_entries J I"
  by (simp add: same_entries_def)

lemma same_entries_sets:
  assumes "same_entries I J"
  shows "dom J = dom I" and "tried_of J = tried_of I" and "new_of J = new_of I"
proof -
  have *: "dom K \<subseteq> dom L \<and> tried_of K \<subseteq> tried_of L \<and> new_of K \<subseteq> new_of L" if "same_entries K L" for K L
    unfolding dom_def tried_of_def new_of_def using same_entriesD [OF that] by force
  show "dom J = dom I" "tried_of J = tried_of I" "new_of J = new_of I"
    using * [OF assms] * [OF same_entries_sym [OF assms]] by auto
qed

lemma same_entries_ok:
  assumes "same_entries I J"
  shows "ids_ok cap I c \<Longrightarrow> ids_ok cap J c" and "addrs_ok I A \<Longrightarrow> addrs_ok J A" and "tried_ok I T \<Longrightarrow> tried_ok J T"
    and "new_ok pend I N \<Longrightarrow> new_ok pend J N" and "counts_ok I t n \<Longrightarrow> counts_ok J t n" and "stats_ok cap I \<Longrightarrow> stats_ok cap J"
proof -
  have rev: "\<exists>p i. I nId = Some i \<and> j = i\<lparr>nRandomPos := p\<rparr>" if j: "J nId = Some j" for nId j
  proof -
    obtain p where "I nId = Some (j\<lparr>nRandomPos := p\<rparr>)" using same_entriesD [OF same_entries_sym [OF assms] j] by blast
    moreover have "j = j\<lparr>nRandomPos := p\<rparr>\<lparr>nRandomPos := nRandomPos j\<rparr>" by simp
    ultimately show ?thesis by metis
  qed
  note sets = same_entries_sets [OF assms]
  show "ids_ok cap I c \<Longrightarrow> ids_ok cap J c" "tried_ok I T \<Longrightarrow> tried_ok J T" "counts_ok I t n \<Longrightarrow> counts_ok J t n"
    by (simp_all add: ids_ok_def tried_ok_def counts_ok_def sets)
  have "(\<exists>info. J nId = Some info \<and> ip (service info) = a) \<longleftrightarrow> (\<exists>info. I nId = Some info \<and> ip (service info) = a)" for nId a
    using rev [of nId] same_entriesD [OF assms, of nId] by force
  then show "addrs_ok I A \<Longrightarrow> addrs_ok J A" by (simp add: addrs_ok_def)
  have "entry_ok r (i\<lparr>nRandomPos := p\<rparr>) = entry_ok r i" for r i p by (simp add: entry_ok_def)
  then show "new_ok pend I N \<Longrightarrow> new_ok pend J N" using rev unfolding new_ok_def sets by metis
  show "stats_ok cap I \<Longrightarrow> stats_ok cap J" using rev unfolding stats_ok_def by force
qed

lemma swap_random:
  assumes "std_ok (mapInfo m)" and "ids_ok cap (map_of (mapInfo m)) c" and "random_ok (map_of (mapInfo m)) (vRandom m)"
    and "p < length (vRandom m)" and "q < length (vRandom m)"
  shows "\<exists>m'. SwapRandom (of_nat p) (of_nat q) m = Some m' \<and> std_ok (mapInfo m') \<and> random_ok (map_of (mapInfo m')) (vRandom m')
    \<and> vRandom m' = (vRandom m)[p := vRandom m ! q, q := vRandom m ! p]
    \<and> same_entries (map_of (mapInfo m)) (map_of (mapInfo m')) \<and> m' = m\<lparr>mapInfo := mapInfo m', vRandom := vRandom m'\<rparr>"
proof (cases "p = q")
  case True
  then show ?thesis using assms by (simp add: SwapRandom_def)
next
  case False
  let ?I = "map_of (mapInfo m)" and ?R = "vRandom m"
  obtain i j where ij: "?I (?R ! p) = Some i" "?I (?R ! q) = Some j" using random_entry [OF assms(3)] assms(4,5) by blast
  have len: "p < 2 ^ 31" "q < 2 ^ 31" using length_random(2) [OF assms(3,2)] assms(4,5) by simp_all
  then have u: "unat (of_nat p :: u32) = p" "unat (of_nat q :: u32) = q" "(of_nat p :: u32) \<noteq> of_nat q"
    using False by (simp_all add: unat_of_nat word_unat_eq_iff)
  have ne: "?R ! p \<noteq> ?R ! q" using random_distinct [OF assms(3)] False assms(4,5) by (simp add: nth_eq_iff_index_eq)
  define K where "K = std_put (?R ! q) (j\<lparr>nRandomPos := int p\<rparr>) (std_put (?R ! p) (i\<lparr>nRandomPos := int q\<rparr>) (mapInfo m))"
  have K: "std_ok K" "map_of K = ?I(?R ! p \<mapsto> i\<lparr>nRandomPos := int q\<rparr>, ?R ! q \<mapsto> j\<lparr>nRandomPos := int p\<rparr>)"
    using assms(1) by (simp_all add: K_def map_of_std_put)
  have same: "same_entries ?I (map_of K)" unfolding K(2) using ij ne by (simp add: same_entries_def)
  define m' where "m' = m\<lparr>mapInfo := K, vRandom := ?R[p := ?R ! q, q := ?R ! p]\<rparr>"
  have "SwapRandom (of_nat p) (of_nat q) m = Some m'"
    using assms(4,5) u ij len by (simp add: SwapRandom_def Let_def put_info_def m'_def K_def sint_position)
  then show ?thesis
    using same K random_swap [OF assms(3-5) False ij] by (intro exI [of _ m']) (simp add: m'_def)
qed

lemma swap_ok:
  assumes "am_ok cap pend m" and "p < length (vRandom m)" and "q < length (vRandom m)"
  shows "\<exists>m'. SwapRandom (of_nat p) (of_nat q) m = Some m' \<and> am_ok cap pend m' \<and> vRandom m' = (vRandom m)[p := vRandom m ! q, q := vRandom m ! p]
    \<and> same_entries (map_of (mapInfo m)) (map_of (mapInfo m')) \<and> m' = m\<lparr>mapInfo := mapInfo m', vRandom := vRandom m'\<rparr>"
proof -
  obtain m' where m': "SwapRandom (of_nat p) (of_nat q) m = Some m'" "std_ok (mapInfo m')" "random_ok (map_of (mapInfo m')) (vRandom m')"
      "vRandom m' = (vRandom m)[p := vRandom m ! q, q := vRandom m ! p]" "same_entries (map_of (mapInfo m)) (map_of (mapInfo m'))"
      "m' = m\<lparr>mapInfo := mapInfo m', vRandom := vRandom m'\<rparr>"
    using swap_random [OF _ _ _ assms(2,3)] assms(1) unfolding am_ok_def by blast
  have "nIdCount m' = nIdCount m" "mapAddr m' = mapAddr m" "vvTried m' = vvTried m" "vvNew m' = vvNew m" "nTried m' = nTried m" "nNew m' = nNew m"
    by (subst m'(6), simp)+
  then have "am_ok cap pend m'" using assms(1) same_entries_ok [OF m'(5)] m'(2,3) by (simp add: am_ok_def)
  then show ?thesis using m' by blast
qed

lemma random_pop:
  assumes "random_ok I R" and "R \<noteq> []"
  shows "random_ok (I(last R := None)) (butlast R)"
proof -
  obtain xs x where R: "R = xs @ [x]" using assms(2) by (cases R rule: rev_cases) auto
  have d: "x \<notin> set xs" using random_distinct [OF assms(1)] by (simp add: R)
  have "\<exists>info. (I(x := None)) (xs ! i) = Some info \<and> nRandomPos info = int i" if "i < length xs" for i
    using random_entry [OF assms(1), of i] that d by (auto simp: R nth_append)
  moreover have "\<exists>i < length xs. xs ! i = nId" if "(I(x := None)) nId = Some info" for nId info
    using that random_set [OF assms(1)] by (auto simp: R in_set_conv_nth [symmetric] split: if_splits)
  ultimately show ?thesis unfolding random_ok_def by (simp add: R)
qed

subsection \<open>References and buckets\<close>

lemma count_update:
  "b < length N \<Longrightarrow> length (filter P (N[b := v])) + (if P (N ! b) then 1 else 0) = length (filter P N) + (if P v then 1 else 0)"
proof (induction N arbitrary: b)
  case (Cons a N)
  then show ?case using Cons.IH [of "b - 1"] by (cases b) simp_all
qed simp

lemma refs_remove:
  assumes "b < length N" and "x \<in> N ! b"
  shows "refs x (N[b := N ! b - {x}]) + 1 = refs x N" and "y \<noteq> x \<Longrightarrow> refs y (N[b := N ! b - {x}]) = refs y N"
  using count_update [OF assms(1), of "\<lambda>v. x \<in> v" "N ! b - {x}"] count_update [OF assms(1), of "\<lambda>v. y \<in> v" "N ! b - {x}"] assms(2)
  by (auto simp: refs_def split: if_splits)

lemma refs_insert:
  assumes "b < length N" and "x \<notin> N ! b"
  shows "refs x (N[b := insert x (N ! b)]) = refs x N + 1" and "y \<noteq> x \<Longrightarrow> refs y (N[b := insert x (N ! b)]) = refs y N"
  using count_update [OF assms(1), of "\<lambda>v. x \<in> v" "insert x (N ! b)"] count_update [OF assms(1), of "\<lambda>v. y \<in> v" "insert x (N ! b)"] assms(2)
  by (auto simp: refs_def split: if_splits)

lemma refs_0: "refs x N = 0 \<longleftrightarrow> (\<forall>v \<in> set N. x \<notin> v)"
  by (auto simp: refs_def filter_empty_conv)

lemma refs_remove_all: "refs x (map (\<lambda>v. v - {x}) N) = 0" "y \<noteq> x \<Longrightarrow> refs y (map (\<lambda>v. v - {x}) N) = refs y N"
  by (auto simp: refs_def filter_map comp_def)

lemma shape_new_upd: "shape_ok T N \<Longrightarrow> finite v \<Longrightarrow> card v \<le> 64 \<Longrightarrow> shape_ok T (N[b := v])"
  unfolding shape_ok_def by (auto dest!: set_update_subset_insert [THEN subsetD])

lemma shape_tried_upd: "shape_ok T N \<Longrightarrow> length v \<le> 64 \<Longrightarrow> shape_ok (T[b := v]) N"
  unfolding shape_ok_def by (auto dest!: set_update_subset_insert [THEN subsetD])

subsection \<open>Releasing a reference\<close>

lemma new_of_remove: "new_of (I(nId := None)) = new_of I - {nId}" "tried_of (I(nId := None)) = tried_of I - {nId}"
  by (auto simp: new_of_def tried_of_def)

lemma same_entries_remove: "same_entries I J \<Longrightarrow> same_entries (I(nId := None)) (J(nId := None))"
  by (simp add: same_entries_def)

text \<open>Deleting an entry with its last reference, on the parts of the manager.\<close>

lemma delete_entry_ok:
  assumes "am_ok cap pend m" and "map_of (mapInfo m) nId = Some i" and "b < length (vvNew m)" and "nId \<in> vvNew m ! b"
    and "nRefCount i = 1" and "pend nId = 0"
  defines "I \<equiv> (map_of (mapInfo m))(nId := None)" and "N \<equiv> (vvNew m)[b := vvNew m ! b - {nId}]"
  shows "ids_ok cap I (nIdCount m)" and "addrs_ok I ((mapAddr m)(ip (service i) := None))" and "shape_ok (vvTried m) N"
    and "tried_ok I (vvTried m)" and "new_ok pend I N" and "counts_ok I (nTried m) (nNew m - 1)" and "stats_ok cap I"
proof -
  let ?I = "map_of (mapInfo m)"
  have ok: "ids_ok cap ?I (nIdCount m)" "addrs_ok ?I (mapAddr m)" "shape_ok (vvTried m) (vvNew m)" "tried_ok ?I (vvTried m)"
    "new_ok pend ?I (vvNew m)" "counts_ok ?I (nTried m) (nNew m)" "stats_ok cap ?I"
    using assms(1) by (auto simp: am_ok_def)
  have "nId \<in> new_of ?I" using ok(5) assms(3,4) unfolding new_ok_def by (meson nth_mem subsetD)
  then have nt: "\<not> fInTried i" using assms(2) by simp
  have "entry_ok (refs nId (vvNew m)) i" using ok(5) assms(2,6) unfolding new_ok_def by fastforce
  then have "refs nId (vvNew m) = 1" using nt assms(5) by (simp add: entry_ok_def)
  then have none: "\<forall>v \<in> set N. nId \<notin> v" using refs_remove(1) [OF assms(3,4)] refs_0 [of nId N] by (simp add: N_def)
  show "ids_ok cap I (nIdCount m)" using ok(1) by (auto simp: ids_ok_def I_def)
  show "addrs_ok I ((mapAddr m)(ip (service i) := None))"
    using ok(2) assms(2) unfolding addrs_ok_def I_def by (auto split: if_splits) (metis option.inject)+
  have "finite (vvNew m ! b)" "card (vvNew m ! b) \<le> 64" using ok(3) assms(3) by (auto simp: shape_ok_def)
  then show "shape_ok (vvTried m) N"
    unfolding N_def by (intro shape_new_upd ok(3)) (auto intro: order_trans [OF card_Diff1_le])
  show "tried_ok I (vvTried m)" using ok(4) nt assms(2) by (simp add: tried_ok_def I_def new_of_remove)
  have "v \<subseteq> new_of ?I" if "v \<in> set N" for v
    using that ok(5) assms(3) unfolding N_def new_ok_def by (auto dest!: set_update_subset_insert [THEN subsetD])
  then show "new_ok pend I N"
    using none ok(5) refs_remove(2) [OF assms(3,4)] unfolding new_ok_def I_def new_of_remove by (auto simp: N_def)
  have "card (new_of ?I - {nId}) = card (new_of ?I) - 1" "0 < card (new_of ?I)"
    using \<open>nId \<in> new_of ?I\<close> finite_entries(2) [of "mapInfo m"] by (auto simp: card_gt_0_iff)
  then show "counts_ok I (nTried m) (nNew m - 1)"
    using ok(6) nt assms(2) by (simp add: counts_ok_def I_def new_of_remove of_nat_diff)
  show "stats_ok cap I" using ok(7) by (auto simp: stats_ok_def I_def)
qed

text \<open>An entry that keeps references in other buckets.\<close>

lemma drop_reference_ok:
  assumes "am_ok cap pend m" and "map_of (mapInfo m) nId = Some i" and "b < length (vvNew m)" and "nId \<in> vvNew m ! b"
    and "nRefCount i \<noteq> 1" and "pend nId = 0"
  shows "am_ok cap pend (remove_from_bucket b nId (put_info nId (i\<lparr>nRefCount := nRefCount i - 1\<rparr>) m))"
proof -
  let ?I = "map_of (mapInfo m)" and ?i = "i\<lparr>nRefCount := nRefCount i - 1\<rparr>" and ?N = "(vvNew m)[b := vvNew m ! b - {nId}]"
  have ok: "std_ok (mapInfo m)" "ids_ok cap ?I (nIdCount m)" "addrs_ok ?I (mapAddr m)" "random_ok ?I (vRandom m)" "shape_ok (vvTried m) (vvNew m)"
    "tried_ok ?I (vvTried m)" "new_ok pend ?I (vvNew m)" "counts_ok ?I (nTried m) (nNew m)" "stats_ok cap ?I"
    using assms(1) by (auto simp: am_ok_def)
  have "nId \<in> new_of ?I" using ok(7) assms(3,4) unfolding new_ok_def by (meson nth_mem subsetD)
  then have nt: "\<not> fInTried i" using assms(2) by simp
  have e: "entry_ok (refs nId (vvNew m)) i" using ok(7) assms(2,6) unfolding new_ok_def by fastforce
  have sets: "tried_of (?I(nId \<mapsto> ?i)) = tried_of ?I" "new_of (?I(nId \<mapsto> ?i)) = new_of ?I"
    using same_sets_upd [of ?I nId i ?i] assms(2) by auto
  have "entry_ok (refs nId ?N + pend nId) ?i"
    using e nt assms(5,6) refs_remove(1) [OF assms(3,4)] by (simp add: entry_ok_def)
  moreover have "v \<subseteq> new_of ?I" if "v \<in> set ?N" for v
    using that ok(7) assms(3) unfolding new_ok_def by (auto dest!: set_update_subset_insert [THEN subsetD])
  ultimately have "new_ok pend (?I(nId \<mapsto> ?i)) ?N"
    using ok(7) refs_remove(2) [OF assms(3,4)] unfolding new_ok_def sets by auto
  moreover have "finite (vvNew m ! b)" "card (vvNew m ! b) \<le> 64" using ok(5) assms(3) by (auto simp: shape_ok_def)
  then have "shape_ok (vvTried m) ?N" by (intro shape_new_upd ok(5)) (auto intro: order_trans [OF card_Diff1_le])
  moreover have "stats_ok cap (?I(nId \<mapsto> ?i))" using ok(9) assms(2) by (auto simp: stats_ok_def)
  ultimately show ?thesis
    using ok sets assms(2)
    by (simp add: am_ok_def remove_from_bucket_def put_info_def map_of_std_put ids_ok_upd addrs_ok_upd random_ok_upd tried_ok_def counts_ok_def)
qed

lemma release_last_reference:
  assumes "am_ok cap pend m" and "b < length (vvNew m)" and "nId \<in> vvNew m ! b" and "pend nId = 0"
    and i: "map_of (mapInfo m) nId = Some i" and True: "nRefCount i = 1"
  shows "\<exists>m'. release nId m = Some m' \<and> am_ok cap pend (remove_from_bucket b nId m') \<and> vvNew m' = vvNew m \<and> nIdCount m' = nIdCount m
    \<and> same_entries ((map_of (mapInfo m))(nId := None)) ((map_of (mapInfo m'))(nId := None))"
proof -
  let ?I = "map_of (mapInfo m)"
  have ok: "std_ok (mapInfo m)" "ids_ok cap ?I (nIdCount m)" "random_ok ?I (vRandom m)"
    using assms(1) by (auto simp: am_ok_def)
  let ?i = "i\<lparr>nRefCount := 0\<rparr>" and ?R = "vRandom m"
  define m1 where "m1 = put_info nId ?i m"
  have m1: "std_ok (mapInfo m1)" "ids_ok cap (map_of (mapInfo m1)) (nIdCount m)" "random_ok (map_of (mapInfo m1)) ?R" "vRandom m1 = ?R"
    using ok i by (simp_all add: m1_def put_info_def map_of_std_put ids_ok_upd random_ok_upd)
  let ?p = "nat (nRandomPos i)" and ?q = "length ?R - 1"
  have p: "0 \<le> nRandomPos i" "?p < length ?R" "?R ! ?p = nId" using random_pos [OF ok(3) i] by auto
  then have q: "?q < length ?R" by simp
  obtain m2 where m2: "SwapRandom (of_nat ?p) (of_nat ?q) m1 = Some m2" "std_ok (mapInfo m2)" "random_ok (map_of (mapInfo m2)) (vRandom m2)"
      "vRandom m2 = ?R[?p := ?R ! ?q, ?q := ?R ! ?p]" "same_entries (map_of (mapInfo m1)) (map_of (mapInfo m2))"
      "m2 = m1\<lparr>mapInfo := mapInfo m2, vRandom := vRandom m2\<rparr>"
    using swap_random [OF m1(1,2) _ _ _, of ?p ?q] m1(3,4) p(2) q by auto
  have "?R \<noteq> []" using p(2) by auto
  then have R2: "vRandom m2 \<noteq> []" "last (vRandom m2) = nId" using p q by (auto simp: m2(4) last_conv_nth)
  have w: "(of_int (nRandomPos i) :: u32) = of_nat ?p" "(of_nat (length ?R) - 1 :: u32) = of_nat ?q"
    using p q by (simp_all add: of_nat_diff)
  define m3 where "m3 = m2\<lparr>vRandom := butlast (vRandom m2), mapAddr := (mapAddr m2)(ip (service i) := None),
      mapInfo := std_erase nId (mapInfo m2), nNew := nNew m2 - 1\<rparr>"
  have rel: "release nId m = Some m3"
    using i True m2(1) w unfolding release_def by (simp add: Let_def m1_def put_info_def m3_def)
  have f: "nIdCount m2 = nIdCount m" "mapAddr m2 = mapAddr m" "vvTried m2 = vvTried m" "vvNew m2 = vvNew m" "nTried m2 = nTried m"
      "nNew m2 = nNew m"
    by (subst m2(6), simp add: m1_def put_info_def)+
  have "(map_of (mapInfo m1))(nId := None) = ?I(nId := None)" using ok(1) by (simp add: m1_def put_info_def map_of_std_put)
  then have same: "same_entries (?I(nId := None)) ((map_of (mapInfo m2))(nId := None))"
    using same_entries_remove [OF m2(5), of nId] by simp
  have "am_ok cap pend (remove_from_bucket b nId m3)"
    using delete_entry_ok [OF assms(1) i assms(2,3) True assms(4)] same_entries_ok [OF same] m2(2) random_pop [OF m2(3) R2(1)] R2(2)
    by (simp add: am_ok_def remove_from_bucket_def m3_def map_of_std_erase f)
  then show ?thesis using rel same by (simp add: m3_def f map_of_std_erase)
qed

lemma release_ok:
  assumes "am_ok cap pend m" and "b < length (vvNew m)" and "nId \<in> vvNew m ! b" and "pend nId = 0"
  shows "\<exists>m'. release nId m = Some m' \<and> am_ok cap pend (remove_from_bucket b nId m') \<and> vvNew m' = vvNew m \<and> nIdCount m' = nIdCount m
    \<and> same_entries ((map_of (mapInfo m))(nId := None)) ((map_of (mapInfo m'))(nId := None))"
proof -
  let ?I = "map_of (mapInfo m)"
  have ok: "std_ok (mapInfo m)" "ids_ok cap ?I (nIdCount m)" "random_ok ?I (vRandom m)" "new_ok pend ?I (vvNew m)"
    using assms(1) by (auto simp: am_ok_def)
  have "nId \<in> new_of ?I" using ok(4) assms(2,3) unfolding new_ok_def by (meson nth_mem subsetD)
  then obtain i where i: "?I nId = Some i" by (auto simp: new_of_def)
  show ?thesis
  proof (cases "nRefCount i = 1")
    case False
    then show ?thesis using drop_reference_ok [OF assms(1) i assms(2,3) False assms(4)] i ok(1)
      by (simp add: release_def Let_def put_info_def map_of_std_put)
  next
    case True
    then show ?thesis by (rule release_last_reference [OF assms i])
  qed
qed

subsection \<open>Shrinking a new bucket\<close>

lemma find_terrible_ok:
  assumes "set ids \<subseteq> dom (map_of infos)"
  shows "\<exists>r. find_terrible now infos ids = Some r \<and> (\<forall>x. r = Some x \<longrightarrow> x \<in> set ids)"
  using assms
proof (induction ids)
  case (Cons nId ids)
  then obtain i where "map_of infos nId = Some i" by auto
  then show ?case using Cons by (auto split: if_splits)
qed simp

lemma std_get_present: "map_of m k = Some v \<Longrightarrow> std_get d k m = (v, m)"
  by (simp add: std_get_def)

lemma find_oldest_ok:
  assumes "set ids \<subseteq> dom (map_of infos)" and "nOldest = - 1 \<or> nOldest \<in> dom (map_of infos)" and "- 1 \<notin> set ids"
  shows "\<exists>r. find_oldest n ids nI nOldest infos = Some (r, infos) \<and> (r = nOldest \<or> r \<in> set ids)
    \<and> (nOldest \<noteq> - 1 \<or> (\<exists>k \<in> set n. nI \<le> k \<and> k < nI + length ids) \<longrightarrow> r \<noteq> - 1)"
  using assms
proof (induction ids arbitrary: nI nOldest)
  case (Cons nId ids)
  obtain i where i: "map_of infos nId = Some i" using Cons.prems(1) by auto
  then have c: "std_count nId infos" by (simp add: std_count_map_of)
  have step: "\<exists>r. find_oldest n ids (nI + 1) x infos = Some (r, infos) \<and> (r = x \<or> r \<in> set ids)
      \<and> (x \<noteq> - 1 \<or> (\<exists>k \<in> set n. nI + 1 \<le> k \<and> k < nI + 1 + length ids) \<longrightarrow> r \<noteq> - 1)"
    if "x = - 1 \<or> x \<in> dom (map_of infos)" for x
    using Cons.IH [of x "nI + 1"] Cons.prems that by auto
  show ?case
  proof (cases "nI \<in> set n")
    case False
    have "(\<exists>k \<in> set n. nI \<le> k \<and> k < nI + length (nId # ids)) \<longleftrightarrow> (\<exists>k \<in> set n. nI + 1 \<le> k \<and> k < nI + 1 + length ids)"
    proof (rule bex_cong [OF refl])
      fix k assume "k \<in> set n"
      then have "k \<noteq> nI" using False by auto
      then show "(nI \<le> k \<and> k < nI + length (nId # ids)) = (nI + 1 \<le> k \<and> k < nI + 1 + length ids)" by auto
    qed
    then show ?thesis using False step [OF Cons.prems(2)] by (simp only: find_oldest.simps if_False) auto
  next
    case True
    show ?thesis
    proof (cases "nOldest = - 1")
      case old: True
      have "nId \<noteq> - 1" using Cons.prems(3) by auto
      then show ?thesis using True old step [of nId] i by (auto simp: dom_def)
    next
      case old: False
      then obtain j where j: "map_of infos nOldest = Some j" using Cons.prems(2) by auto
      define x where "x = (if nTime i < nTime j then nId else nOldest)"
      have "nId \<noteq> - 1" using Cons.prems(3) by auto
      then have "x \<noteq> - 1" "x \<in> dom (map_of infos)" using old i j by (auto simp: x_def)
      moreover have "find_oldest n (nId # ids) nI nOldest infos = find_oldest n ids (nI + 1) x infos"
        using True old c i j by (simp add: std_get_present x_def)
      ultimately show ?thesis using step [of x] old by (auto simp: x_def split: if_splits)
    qed
  qed
qed auto

lemma shrink_new_ok:
  assumes "am_ok cap pend m" and "b < length (vvNew m)" and "vvNew m ! b \<noteq> {}" and "\<forall>nId \<in> vvNew m ! b. pend nId = 0"
  shows "\<exists>r nId m'. ShrinkNew now rnd b m = Some (r, m') \<and> nId \<in> vvNew m ! b \<and> am_ok cap pend m'
    \<and> vvNew m' = (vvNew m)[b := vvNew m ! b - {nId}] \<and> nIdCount m' = nIdCount m
    \<and> same_entries ((map_of (mapInfo m))(nId := None)) ((map_of (mapInfo m'))(nId := None))"
proof -
  let ?I = "map_of (mapInfo m)" and ?ids = "sorted_list_of_set (vvNew m ! b)"
  have ok: "ids_ok cap ?I (nIdCount m)" "shape_ok (vvTried m) (vvNew m)" "new_ok pend ?I (vvNew m)"
    using assms(1) by (auto simp: am_ok_def)
  have fin: "finite (vvNew m ! b)" using ok(2) assms(2) by (auto simp: shape_ok_def)
  then have set: "set ?ids = vvNew m ! b" by simp
  have "vvNew m ! b \<subseteq> new_of ?I" using ok(3) assms(2) by (simp add: new_ok_def)
  then have dom: "set ?ids \<subseteq> dom ?I" unfolding set by (auto simp: new_of_def)
  have "- 1 \<notin> dom ?I"
  proof
    assume "- 1 \<in> dom ?I"
    then have "0 \<le> (- 1 :: int)" using ok(1) unfolding ids_ok_def by blast
    then show False by simp
  qed
  then have minus: "- 1 \<notin> set ?ids" using dom by blast
  have chosen: "\<exists>m'. release nId m = Some m' \<and> am_ok cap pend (remove_from_bucket b nId m') \<and> vvNew m' = vvNew m \<and> nIdCount m' = nIdCount m
      \<and> same_entries (?I(nId := None)) ((map_of (mapInfo m'))(nId := None))" if "nId \<in> set ?ids" for nId
    using release_ok [OF assms(1,2)] that assms(4) unfolding set by blast
  obtain t where t: "find_terrible now (mapInfo m) ?ids = Some t" "\<And>x. t = Some x \<Longrightarrow> x \<in> set ?ids"
    using find_terrible_ok [OF dom] by blast
  show ?thesis
  proof (cases t)
    case (Some nId)
    then show ?thesis using chosen [OF t(2) [OF Some]] t assms(2) set
      by (auto simp: ShrinkNew_def Let_def remove_from_bucket_def)
  next
    case None
    define n where "n = map (\<lambda>k. GetRandInt (length ?ids) (rnd k)) [0..<4]"
    have "0 < length ?ids" using assms(3) fin by (simp add: card_gt_0_iff)
    then have "\<exists>k \<in> set n. 0 \<le> k \<and> k < 0 + length ?ids" by (intro bexI [of _ "GetRandInt (length ?ids) (rnd 0)"]) (auto simp: n_def GetRandInt_def)
    then obtain r where r: "find_oldest n ?ids 0 (- 1) (mapInfo m) = Some (r, mapInfo m)" "r \<in> set ?ids"
      using find_oldest_ok [OF dom _ minus, of "- 1" n 0] by auto
    then show ?thesis using chosen [OF r(2)] t None assms(2) set n_def
      by (auto simp: ShrinkNew_def Let_def remove_from_bucket_def)
  qed
qed

subsection \<open>Adding\<close>

definition pending :: "int \<Rightarrow> int \<Rightarrow> nat" where
  "pending nId = (\<lambda>_. 0)(nId := 1)"

lemma insert_pending_ok:
  assumes "am_ok cap (pending nId) m" and "map_of (mapInfo m) nId = Some i" and "\<not> fInTried i"
    and "b < length (vvNew m)" and "nId \<notin> vvNew m ! b" and "card (vvNew m ! b) < 64"
  shows "addrman_ok cap (m\<lparr>vvNew := (vvNew m)[b := insert nId (vvNew m ! b)]\<rparr>)"
proof -
  let ?I = "map_of (mapInfo m)" and ?N = "(vvNew m)[b := insert nId (vvNew m ! b)]"
  have ok: "shape_ok (vvTried m) (vvNew m)" "new_ok (pending nId) ?I (vvNew m)" using assms(1) by (auto simp: am_ok_def)
  have "finite (vvNew m ! b)" using ok(1) assms(4) by (auto simp: shape_ok_def)
  then have shape: "shape_ok (vvTried m) ?N" using assms(5,6) by (intro shape_new_upd ok(1)) simp_all
  have "refs k ?N + 0 = refs k (vvNew m) + pending nId k" for k
    using refs_insert [OF assms(4,5)] by (cases "k = nId") (simp_all add: pending_def)
  moreover have "v \<subseteq> new_of ?I" if "v \<in> set ?N" for v
    using that ok(2) assms(2-4) unfolding new_ok_def by (auto dest!: set_update_subset_insert [THEN subsetD])
  ultimately have "new_ok (\<lambda>_. 0) ?I ?N" using ok(2) unfolding new_ok_def by simp
  then show ?thesis using assms(1) shape by (simp add: am_ok_def)
qed

lemma reference_pending_ok:
  assumes "addrman_ok cap m" and "map_of (mapInfo m) nId = Some i" and "\<not> fInTried i" and "nRefCount i \<noteq> 4"
  shows "am_ok cap (pending nId) (put_info nId (i\<lparr>nRefCount := nRefCount i + 1\<rparr>) m)"
proof -
  let ?I = "map_of (mapInfo m)" and ?i = "i\<lparr>nRefCount := nRefCount i + 1\<rparr>"
  have ok: "std_ok (mapInfo m)" "ids_ok cap ?I (nIdCount m)" "addrs_ok ?I (mapAddr m)" "random_ok ?I (vRandom m)"
    "tried_ok ?I (vvTried m)" "new_ok (\<lambda>_. 0) ?I (vvNew m)" "counts_ok ?I (nTried m) (nNew m)" "stats_ok cap ?I"
    using assms(1) by (auto simp: am_ok_def)
  have sets: "tried_of (?I(nId \<mapsto> ?i)) = tried_of ?I" "new_of (?I(nId \<mapsto> ?i)) = new_of ?I"
    using same_sets_upd [of ?I nId i ?i] assms(2) by auto
  have "entry_ok (refs nId (vvNew m) + 0) i" using ok(6) assms(2) unfolding new_ok_def by blast
  then have "entry_ok (refs nId (vvNew m) + pending nId nId) ?i" using assms(3,4) by (simp add: entry_ok_def pending_def)
  moreover have "entry_ok (refs k (vvNew m) + pending nId k) j" if "?I k = Some j" "k \<noteq> nId" for k j
    using ok(6) that unfolding new_ok_def by (simp add: pending_def)
  ultimately have "new_ok (pending nId) (?I(nId \<mapsto> ?i)) (vvNew m)" using ok(6) unfolding new_ok_def sets by auto
  moreover have "stats_ok cap (?I(nId \<mapsto> ?i))" using ok(8) assms(2) by (auto simp: stats_ok_def)
  ultimately show ?thesis
    using assms(1) ok sets assms(2)
    by (simp add: am_ok_def put_info_def map_of_std_put ids_ok_upd addrs_ok_upd random_ok_upd tried_ok_def counts_ok_def)
qed

lemma create_pending_ok:
  assumes "addrman_ok cap m" and "cap < INT_MAX" and "mapAddr m a = None" and "ip (service i) = a" and "\<not> fInTried i"
    and "nRefCount i = 1" and "nRandomPos i = int (length (vRandom m))" and "nLastTry i = 0" and "nLastSuccess i = 0" and "nAttempts i = 0"
  defines "nId \<equiv> nIdCount m"
  shows "map_of (mapInfo m) nId = None" and "refs nId (vvNew m) = 0"
    and "am_ok (cap + 1) (pending nId) (m\<lparr>nIdCount := nId + 1, mapInfo := std_put nId i (mapInfo m), mapAddr := (mapAddr m)(a \<mapsto> nId),
      vRandom := vRandom m @ [nId], nNew := nNew m + 1\<rparr>)"
proof -
  let ?I = "map_of (mapInfo m)" and ?J = "(map_of (mapInfo m))(nId \<mapsto> i)"
  have ok: "std_ok (mapInfo m)" "ids_ok cap ?I (nIdCount m)" "addrs_ok ?I (mapAddr m)" "random_ok ?I (vRandom m)"
    "tried_ok ?I (vvTried m)" "new_ok (\<lambda>_. 0) ?I (vvNew m)" "counts_ok ?I (nTried m) (nNew m)" "stats_ok cap ?I"
    using assms(1) by (auto simp: am_ok_def)
  show fresh: "?I nId = None" using ok(2) by (auto simp: ids_ok_def nId_def dom_def)
  then have not_in: "nId \<notin> new_of ?I" "nId \<notin> tried_of ?I" by (auto simp: new_of_def tried_of_def)
  have sets: "tried_of ?J = tried_of ?I" "new_of ?J = insert nId (new_of ?I)"
    using assms(5) not_in by (simp_all add: tried_of_upd new_of_upd)
  show refs0: "refs nId (vvNew m) = 0" using ok(6) not_in unfolding refs_0 new_ok_def by blast
  have "ids_ok (cap + 1) ?J (nId + 1)" using ok(2) assms(2) unfolding ids_ok_def nId_def by (fastforce simp: dom_def)
  moreover have "addrs_ok ?J ((mapAddr m)(a \<mapsto> nId))"
    using ok(3) fresh assms(3,4) unfolding addrs_ok_def by (auto split: if_splits) (metis option.distinct(1))+
  moreover have "random_ok ?J (vRandom m @ [nId])"
    using ok(4) fresh assms(7) unfolding random_ok_def by (auto simp: nth_append less_Suc_eq)
  moreover have "new_ok (pending nId) ?J (vvNew m)"
  proof -
    have "entry_ok (refs nId (vvNew m) + pending nId nId) i" using refs0 assms(5,6) by (simp add: entry_ok_def pending_def)
    moreover have "entry_ok (refs k (vvNew m) + pending nId k) j" if "?I k = Some j" "k \<noteq> nId" for k j
      using ok(6) that unfolding new_ok_def by (simp add: pending_def)
    ultimately show ?thesis using ok(6) unfolding new_ok_def sets by auto
  qed
  moreover have "counts_ok ?J (nTried m) (nNew m + 1)"
    using ok(7) not_in(1) finite_entries(2) [of "mapInfo m"] by (simp add: counts_ok_def sets)
  moreover have "stats_ok (cap + 1) ?J" using ok(2,8) assms(5,8,9,10) by (fastforce simp: stats_ok_def ids_ok_def)
  ultimately show "am_ok (cap + 1) (pending nId) (m\<lparr>nIdCount := nId + 1, mapInfo := std_put nId i (mapInfo m), mapAddr := (mapAddr m)(a \<mapsto> nId),
      vRandom := vRandom m @ [nId], nNew := nNew m + 1\<rparr>)"
    using assms(1) ok(1,5) by (simp add: am_ok_def map_of_std_put tried_ok_def sets)
qed

lemma am_ok_mono: "am_ok cap pend m \<Longrightarrow> cap \<le> cap' \<Longrightarrow> cap' \<le> INT_MAX \<Longrightarrow> am_ok cap' pend m"
  unfolding am_ok_def ids_ok_def stats_ok_def by (elim conjE, intro conjI) (assumption | force)+

lemma fill_bucket_ok:
  assumes "am_ok cap (pending nId) m" and "map_of (mapInfo m) nId = Some i" and "\<not> fInTried i"
    and "b < length (vvNew m)" and "nId \<notin> vvNew m ! b"
  shows "\<exists>m' j. map_option (\<lambda>m. m\<lparr>vvNew := (vvNew m)[b := insert nId (vvNew m ! b)]\<rparr>)
      (if card (vvNew m ! b) = 64 then map_option snd (ShrinkNew now rnd b m) else Some m) = Some m' \<and> addrman_ok cap m'
    \<and> map_of (mapInfo m') nId = Some j \<and> service j = service i"
proof (cases "card (vvNew m ! b) = 64")
  case False
  have "shape_ok (vvTried m) (vvNew m)" using assms(1) by (simp add: am_ok_def)
  then have "card (vvNew m ! b) \<le> 64" using assms(4) by (auto simp: shape_ok_def)
  then show ?thesis using False insert_pending_ok [OF assms] assms(2,4) by simp
next
  case True
  then have "vvNew m ! b \<noteq> {}" by auto
  moreover have "\<forall>k \<in> vvNew m ! b. pending nId k = 0" using assms(5) by (auto simp: pending_def)
  ultimately obtain r k m' where s: "ShrinkNew now rnd b m = Some (r, m')" "k \<in> vvNew m ! b" "am_ok cap (pending nId) m'"
      "vvNew m' = (vvNew m)[b := vvNew m ! b - {k}]" "same_entries ((map_of (mapInfo m))(k := None)) ((map_of (mapInfo m'))(k := None))"
    using shrink_new_ok [OF assms(1,4)] by blast
  have "k \<noteq> nId" using s(2) assms(5) by auto
  then obtain p where "map_of (mapInfo m') nId = Some (i\<lparr>nRandomPos := p\<rparr>)"
    using same_entriesD [OF s(5), of nId i] assms(2) by auto
  moreover have "finite (vvNew m ! b)" using True card.infinite by fastforce
  then have "card (vvNew m' ! b) < 64" using s(2,4) assms(4) True by (simp add: card_Diff_singleton)
  ultimately show ?thesis
    using True s insert_pending_ok [OF s(3), of "i\<lparr>nRandomPos := p\<rparr>" b] assms(3-5) by simp
qed

lemma bucket_bounds: "GetNewBucket Hash key src info < 256" "GetTriedBucket Hash key info < 64"
proof -
  have "unat (h mod 256) < 256" "unat (h mod 64) < 64" for h :: u64 by (simp_all add: unat_mod_distrib)
  then show "GetNewBucket Hash key src info < 256" "GetTriedBucket Hash key info < 64"
    by (simp_all add: GetNewBucket_def GetTriedBucket_def Let_def)
qed

lemma add_to_bucket_eq:
  assumes "map_of (mapInfo m) nId = Some i"
  shows "add_to_bucket Hash now rnd nId src m =
    (let b = GetNewBucket Hash (nKey m) src i; m1 = put_info nId (i\<lparr>nRefCount := nRefCount i + 1\<rparr>) m
     in if nId \<in> vvNew m ! b then Some m
        else map_option (\<lambda>m. m\<lparr>vvNew := (vvNew m)[b := insert nId (vvNew m ! b)]\<rparr>)
               (if card (vvNew m1 ! b) = 64 then map_option snd (ShrinkNew now rnd b m1) else Some m1))"
  using assms by (simp add: add_to_bucket_def Let_def put_info_def)

lemma put_info_simps [simp]:
  "vvNew (put_info nId i m) = vvNew m" "vvTried (put_info nId i m) = vvTried m" "nKey (put_info nId i m) = nKey m"
  "vRandom (put_info nId i m) = vRandom m" "mapAddr (put_info nId i m) = mapAddr m" "nIdCount (put_info nId i m) = nIdCount m"
  "nTried (put_info nId i m) = nTried m" "nNew (put_info nId i m) = nNew m"
  "std_ok (mapInfo m) \<Longrightarrow> map_of (mapInfo (put_info nId i m)) = (map_of (mapInfo m))(nId \<mapsto> i)"
  by (simp_all add: put_info_def map_of_std_put)

lemma am_ok_std: "am_ok cap pend m \<Longrightarrow> std_ok (mapInfo m)"
  by (simp add: am_ok_def)

lemma bucket_in_range: "am_ok cap pend m \<Longrightarrow> GetNewBucket Hash key src info < length (vvNew m)"
  "am_ok cap pend m \<Longrightarrow> GetTriedBucket Hash key info < length (vvTried m)"
  using bucket_bounds by (simp_all add: am_ok_def shape_ok_def)

lemma add_to_bucket_known_ok:
  assumes "addrman_ok cap m" and "map_of (mapInfo m) nId = Some i" and "\<not> fInTried i" and "nRefCount i \<noteq> 4"
  shows "\<exists>m' j. add_to_bucket Hash now rnd nId src m = Some m' \<and> addrman_ok cap m' \<and> map_of (mapInfo m') nId = Some j
    \<and> service j = service i"
proof (cases "nId \<in> vvNew m ! GetNewBucket Hash (nKey m) src i")
  case True
  then show ?thesis using assms by (simp add: add_to_bucket_eq Let_def)
next
  case False
  define m1 where "m1 = put_info nId (i\<lparr>nRefCount := nRefCount i + 1\<rparr>) m"
  define b where "b = GetNewBucket Hash (nKey m) src i"
  have m1: "map_of (mapInfo m1) nId = Some (i\<lparr>nRefCount := nRefCount i + 1\<rparr>)" "vvNew m1 = vvNew m"
    using am_ok_std [OF assms(1)] by (simp_all add: m1_def)
  have b: "b < length (vvNew m1)" "nId \<notin> vvNew m1 ! b" using bucket_in_range(1) [OF assms(1)] False m1(2) by (simp_all add: b_def)
  have "add_to_bucket Hash now rnd nId src m = map_option (\<lambda>m. m\<lparr>vvNew := (vvNew m)[b := insert nId (vvNew m ! b)]\<rparr>)
      (if card (vvNew m1 ! b) = 64 then map_option snd (ShrinkNew now rnd b m1) else Some m1)"
    using False by (simp add: add_to_bucket_eq [OF assms(2)] Let_def m1_def [symmetric] b_def)
  then show ?thesis
    using fill_bucket_ok [OF reference_pending_ok [OF assms, folded m1_def] m1(1) _ b, of now rnd] assms(3) by simp
qed

lemma find_cases:
  assumes "am_ok cap pend m"
  shows "Find a m = None \<longleftrightarrow> mapAddr m a = None"
    and "Find a m = Some (nId, i) \<longleftrightarrow> map_of (mapInfo m) nId = Some i \<and> ip (service i) = a"
proof -
  have A: "mapAddr m a = Some nId \<longleftrightarrow> (\<exists>info. map_of (mapInfo m) nId = Some info \<and> ip (service info) = a)" for nId
    using assms by (simp add: am_ok_def addrs_ok_def)
  show "Find a m = None \<longleftrightarrow> mapAddr m a = None"
    using A by (cases "mapAddr m a") (auto simp: Find_def)
  show "Find a m = Some (nId, i) \<longleftrightarrow> map_of (mapInfo m) nId = Some i \<and> ip (service i) = a"
  proof (cases "mapAddr m a")
    case None
    then show ?thesis using A [of nId] by (auto simp: Find_def)
  next
    case (Some k)
    then obtain info where "map_of (mapInfo m) k = Some info" "ip (service info) = a" using A by blast
    moreover have "k = nId" if "map_of (mapInfo m) nId = Some i" "ip (service i) = a" using A [of nId] Some that by auto
    ultimately show ?thesis using Some by (auto simp: Find_def)
  qed
qed

lemma update_known_simps [simp]:
  "ip (service (update_known now pen addr i)) = ip (service i)" "fInTried (update_known now pen addr i) = fInTried i"
  "nRefCount (update_known now pen addr i) = nRefCount i" "nRandomPos (update_known now pen addr i) = nRandomPos i"
  "nLastTry (update_known now pen addr i) = nLastTry i" "nLastSuccess (update_known now pen addr i) = nLastSuccess i"
  "nAttempts (update_known now pen addr i) = nAttempts i"
  "service (update_known now pen addr i) = service i"
  by (simp_all add: update_known_def Let_def)

lemma entry_stats:
  assumes "am_ok cap pend m" and "map_of (mapInfo m) nId = Some i"
  shows "0 \<le> nLastTry i" and "0 \<le> nLastSuccess i" and "fInTried i \<Longrightarrow> 0 < nLastSuccess i" and "nAttempts i \<le> cap"
  using assms by (auto simp: am_ok_def stats_ok_def)

lemma add_known_ok:
  assumes "addrman_ok cap m" and "Find (ip (service addr)) m = Some (nId, i)"
  shows "\<exists>m' j. Add Hash now rnd addr src pen m = Some (False, m') \<and> addrman_ok cap m' \<and> map_of (mapInfo m') nId = Some j
    \<and> service j = service i"
proof -
  have i: "map_of (mapInfo m) nId = Some i" using find_cases(2) [OF assms(1)] assms(2) by blast
  define i' where "i' = update_known now pen addr i"
  define m1 where "m1 = put_info nId i' m"
  have ok: "addrman_ok cap m1" unfolding m1_def i'_def
    using entry_stats [OF assms(1) i] by (intro put_statistics_ok [OF assms(1) i]) simp_all
  have look: "map_of (mapInfo m1) nId = Some i'" "service i' = service i" using am_ok_std [OF assms(1)] by (simp_all add: m1_def i'_def)
  define stop where "stop \<longleftrightarrow> nTime addr = 0 \<or> (nTime i' \<noteq> 0 \<and> nTime addr \<le> nTime i') \<or> fInTried i' \<or> nRefCount i' = 4
        \<or> ((2::nat) ^ nat (nRefCount i') > 1 \<and> GetRandInt (2 ^ nat (nRefCount i')) (rnd 0) \<noteq> 0)"
  have eq: "Add Hash now rnd addr src pen m = (if \<not> IsRoutable (ip (service addr)) then Some (False, m)
      else if stop then Some (False, m1) else map_option (Pair False) (add_to_bucket Hash now (\<lambda>k. rnd (Suc k)) nId src m1))"
    using assms(2) by (auto simp: Add_def i'_def [symmetric] m1_def [symmetric] Let_def stop_def)
  show ?thesis
  proof (cases stop)
    case True
    then show ?thesis using eq assms(1) ok i look by simp
  next
    case False
    then have "\<not> fInTried i'" "nRefCount i' \<noteq> 4" by (auto simp: stop_def)
    then obtain m' j where "add_to_bucket Hash now (\<lambda>k. rnd (Suc k)) nId src m1 = Some m'" "addrman_ok cap m'"
        "map_of (mapInfo m') nId = Some j" "service j = service i'"
      using add_to_bucket_known_ok [OF ok look(1)] by blast
    then show ?thesis using False eq assms(1) ok i look by simp
  qed
qed

lemma add_unknown_ok:
  assumes "addrman_ok cap m" and "cap < INT_MAX" and "Find (ip (service addr)) m = None"
  shows "\<exists>m'. Add Hash now rnd addr src pen m = Some (IsRoutable (ip (service addr)), m') \<and> addrman_ok (cap + 1) m'
    \<and> (IsRoutable (ip (service addr)) \<longrightarrow> (\<exists>nId j. map_of (mapInfo m') nId = Some j \<and> service j = service addr))"
proof (cases "IsRoutable (ip (service addr))")
  case False
  then show ?thesis using am_ok_mono [OF assms(1), of "cap + 1"] assms(2) by (auto simp: Add_def)
next
  case True
  let ?a = "ip (service addr)" and ?nId = "nIdCount m"
  have a: "mapAddr m ?a = None" using find_cases(1) [OF assms(1)] assms(3) by blast
  have "ids_ok cap (map_of (mapInfo m)) ?nId" and s: "std_ok (mapInfo m)" using assms(1) by (simp_all add: am_ok_def)
  then have "?nId \<noteq> INT_MAX" using assms(2) by (simp add: ids_ok_def)
  define i0 where "i0 = (CAddrInfo_new addr src)\<lparr>nRandomPos := int (length (vRandom m))\<rparr>"
  define i where "i = i0\<lparr>nTime := of_int (max 0 (uint (nTime i0) - pen))\<rparr>"
  define i1 where "i1 = i\<lparr>nRefCount := nRefCount i + 1\<rparr>"
  define m1 where "m1 = m\<lparr>nIdCount := ?nId + 1, mapAddr := (mapAddr m)(?a \<mapsto> ?nId), vRandom := vRandom m @ [?nId],
      mapInfo := std_put ?nId i (mapInfo m), nNew := nNew m + 1\<rparr>"
  define m2 where "m2 = put_info ?nId i1 m1"
  have i1: "ip (service i1) = ?a" "\<not> fInTried i1" "nRefCount i1 = 1" "nRandomPos i1 = int (length (vRandom m))"
      "nLastTry i1 = 0" "nLastSuccess i1 = 0" "nAttempts i1 = 0"
    by (simp_all add: i1_def i_def i0_def CAddrInfo_new_def net_address.defs)
  have eq: "m2 = m\<lparr>nIdCount := ?nId + 1, mapInfo := std_put ?nId i1 (mapInfo m), mapAddr := (mapAddr m)(?a \<mapsto> ?nId),
      vRandom := vRandom m @ [?nId], nNew := nNew m + 1\<rparr>"
    using s by (intro addr_man.equality) (simp_all add: m2_def m1_def put_info_def std_put_put)
  have ok: "am_ok (cap + 1) (pending ?nId) m2" and "refs ?nId (vvNew m) = 0"
    unfolding eq using create_pending_ok [OF assms(1,2) a i1] by auto
  have look: "map_of (mapInfo m1) ?nId = Some i" "map_of (mapInfo m2) ?nId = Some i1" "vvNew m2 = vvNew m" "vvNew m1 = vvNew m"
    using s by (simp_all add: m2_def m1_def put_info_def map_of_std_put)
  define b where "b = GetNewBucket Hash (nKey m1) src i"
  have b: "b < length (vvNew m)" using bucket_in_range(1) [OF assms(1)] by (simp add: b_def)
  then have "?nId \<notin> vvNew m ! b" using \<open>refs ?nId (vvNew m) = 0\<close> by (simp add: refs_0)
  then obtain m' j where "add_to_bucket Hash now (\<lambda>k. rnd (Suc k)) ?nId src m1 = Some m'" "addrman_ok (cap + 1) m'"
      "map_of (mapInfo m') ?nId = Some j" "service j = service i1"
    using fill_bucket_ok [OF ok look(2) i1(2), of b now "\<lambda>k. rnd (Suc k)"] b look
    by (auto simp: add_to_bucket_eq [OF look(1)] b_def [symmetric] i1_def [symmetric] m2_def [symmetric] Let_def)
  moreover have "Add Hash now rnd addr src pen m = map_option (Pair True) (add_to_bucket Hash now (\<lambda>k. rnd (Suc k)) ?nId src m1)"
    using True assms(3) \<open>?nId \<noteq> INT_MAX\<close> s
    by (simp add: Add_def Create_def Let_def i0_def [symmetric] upd_info_def put_info_def map_of_std_put std_put_put m1_def i_def)
  moreover have "service i1 = service addr" by (simp add: i1_def i_def i0_def CAddrInfo_new_def net_address.defs)
  ultimately show ?thesis using True by auto
qed

subsection \<open>Moving an entry to the tried buckets\<close>

lemma concat_update:
  assumes "k < length T"
  shows "concat T = concat (take k T) @ T ! k @ concat (drop (Suc k) T)"
    and "concat (T[k := v]) = concat (take k T) @ v @ concat (drop (Suc k) T)"
  by (subst id_take_nth_drop [OF assms], simp) (simp add: upd_conv_take_nth_drop [OF assms])

lemma new_ok_tried_entry:
  assumes "new_ok (\<lambda>_. 0) I N" and "I nId = Some i" and "\<not> fInTried i"
  shows "new_ok (\<lambda>_. 0) (I(nId \<mapsto> i\<lparr>nRefCount := 0, fInTried := True\<rparr>)) (map (\<lambda>v. v - {nId}) N)"
proof -
  have "entry_ok (refs k (map (\<lambda>v. v - {nId}) N) + 0) j" if "I k = Some j" "k \<noteq> nId" for k j
    using assms(1) that refs_remove_all(2) [of k nId N] unfolding new_ok_def by simp
  moreover have "entry_ok r (i\<lparr>nRefCount := 0, fInTried := True\<rparr>)" for r by (simp add: entry_ok_def)
  ultimately show ?thesis using assms(1) unfolding new_ok_def by (auto simp: new_of_upd)
qed

lemma counts_tried_entry:
  assumes "counts_ok (map_of f) t n" and "map_of f nId = Some i" and "\<not> fInTried i" and "fInTried i'"
  shows "counts_ok ((map_of f)(nId \<mapsto> i')) (t + 1) (n - 1)"
proof -
  have "nId \<notin> tried_of (map_of f)" "nId \<in> new_of (map_of f)" using assms(2,3) by simp_all
  moreover from this have "0 < card (new_of (map_of f))" using finite_entries(2) [of f] by (auto simp: card_gt_0_iff)
  ultimately show ?thesis
    using assms(1,4) finite_entries [of f] by (simp add: counts_ok_def tried_of_upd new_of_upd of_nat_diff)
qed

lemma shape_remove_all:
  assumes "shape_ok T N"
  shows "shape_ok T (map (\<lambda>v. v - {nId}) N)"
  using assms unfolding shape_ok_def by (auto intro: order_trans [OF card_Diff1_le])

lemma move_to_tried_ok:
  assumes "addrman_ok cap m" and "map_of (mapInfo m) nId = Some i" and "\<not> fInTried i" and "0 < nLastSuccess i"
    and "k < length (vvTried m)" and "length (vvTried m ! k) < 64"
    and "std_ok J" and "map_of J = (map_of (mapInfo m))(nId \<mapsto> i\<lparr>nRefCount := 0, fInTried := True\<rparr>)"
  shows "addrman_ok cap (m\<lparr>mapInfo := J, vvNew := map (\<lambda>v. v - {nId}) (vvNew m), nNew := nNew m - 1,
    vvTried := (vvTried m)[k := vvTried m ! k @ [nId]], nTried := nTried m + 1\<rparr>)"
proof -
  let ?I = "map_of (mapInfo m)" and ?i = "i\<lparr>nRefCount := 0, fInTried := True\<rparr>" and ?T = "(vvTried m)[k := vvTried m ! k @ [nId]]"
  have ok: "ids_ok cap ?I (nIdCount m)" "addrs_ok ?I (mapAddr m)" "random_ok ?I (vRandom m)" "shape_ok (vvTried m) (vvNew m)"
    "tried_ok ?I (vvTried m)" "new_ok (\<lambda>_. 0) ?I (vvNew m)" "counts_ok ?I (nTried m) (nNew m)" "stats_ok cap ?I"
    using assms(1) by (auto simp: am_ok_def)
  have "nId \<notin> set (concat (vvTried m))" using ok(5) assms(2,3) by (simp add: tried_ok_def)
  then have "tried_ok (?I(nId \<mapsto> ?i)) ?T"
    using ok(5) concat_update [OF assms(5)] unfolding tried_ok_def tried_of_upd by auto
  moreover have "shape_ok ?T (map (\<lambda>v. v - {nId}) (vvNew m))"
    using assms(6) by (intro shape_tried_upd shape_remove_all ok(4)) simp
  moreover have "stats_ok cap (?I(nId \<mapsto> ?i))"
    using ok(8) assms(2,4) entry_stats [OF assms(1,2)] by (intro stats_ok_upd) simp_all
  moreover have "ids_ok cap (?I(nId \<mapsto> ?i)) (nIdCount m)" "addrs_ok (?I(nId \<mapsto> ?i)) (mapAddr m)" "random_ok (?I(nId \<mapsto> ?i)) (vRandom m)"
    using ids_ok_upd [OF ok(1) assms(2)] addrs_ok_upd [OF ok(2) assms(2)] random_ok_upd [OF ok(3) assms(2)] by simp_all
  ultimately show ?thesis
    using assms(7,8) new_ok_tried_entry [OF ok(6) assms(2,3)] counts_tried_entry [OF ok(7) assms(2,3), of ?i] by (simp add: am_ok_def)
qed

text \<open>The evicted entry goes back to a new bucket with one reference.\<close>

lemma new_ok_evicted:
  assumes "new_ok (\<lambda>_. 0) I N" and "I nOld = Some j" and "fInTried j" and "b < length N"
  shows "new_ok (\<lambda>_. 0) (I(nOld \<mapsto> j\<lparr>fInTried := False, nRefCount := 1\<rparr>)) (N[b := insert nOld (N ! b)])"
proof -
  let ?j = "j\<lparr>fInTried := False, nRefCount := 1\<rparr>" and ?N = "N[b := insert nOld (N ! b)]"
  have "nOld \<notin> v" if "v \<in> set N" for v using assms(1,3) that in_new_of [of I, OF assms(2)] unfolding new_ok_def by blast
  then have r: "refs nOld N = 0" "nOld \<notin> N ! b" using assms(4) by (auto simp: refs_0)
  then have "entry_ok (refs nOld ?N + 0) ?j" using refs_insert(1) [OF assms(4) r(2)] by (simp add: entry_ok_def)
  moreover have "entry_ok (refs k ?N + 0) i" if "I k = Some i" "k \<noteq> nOld" for k i
    using assms(1) that refs_insert(2) [OF assms(4) r(2)] unfolding new_ok_def by simp
  moreover have "v \<subseteq> insert nOld (new_of I)" if "v \<in> set ?N" for v
    using that assms(1,4) unfolding new_ok_def by (auto dest!: set_update_subset_insert [THEN subsetD])
  ultimately show ?thesis unfolding new_ok_def by (auto simp: new_of_upd)
qed

lemma counts_evicted:
  assumes "counts_ok I t n" and "I nOld = Some j" and "fInTried j" and "\<not> fInTried j'" and "finite (tried_of I)" and "finite (new_of I)"
  shows "counts_ok (I(nOld \<mapsto> j')) (t - 1) (n + 1)"
proof -
  have "nOld \<in> tried_of I" "nOld \<notin> new_of I" using assms(2,3) by simp_all
  moreover from this have "0 < card (tried_of I)" using assms(5) by (auto simp: card_gt_0_iff)
  ultimately show ?thesis using assms by (simp add: counts_ok_def tried_of_upd new_of_upd of_nat_diff)
qed

lemma tried_ok_replace:
  assumes "tried_ok I T" and "k < length T" and "mset v = mset (T ! k)" and "p < length v" and "I nId = Some i" and "\<not> fInTried i"
    and "fInTried i'" and "\<not> fInTried j'"
  shows "tried_ok (I(nId \<mapsto> i', v ! p \<mapsto> j')) (T[k := v[p := nId]])" and "\<exists>j. I (v ! p) = Some j \<and> fInTried j" and "v ! p \<noteq> nId"
proof -
  have v: "set v = set (T ! k)" "distinct v"
    using assms(1-3) mset_eq_setD [OF assms(3)] mset_eq_imp_distinct_iff [OF assms(3)] concat_update(1) [OF assms(2)]
    unfolding tried_ok_def by auto
  have "v ! p \<in> tried_of I" using assms(1,2,4) v(1) unfolding tried_ok_def by (metis UN_I nth_mem set_concat)
  then show "\<exists>j. I (v ! p) = Some j \<and> fInTried j" by (simp add: tried_of_def)
  then show ne: "v ! p \<noteq> nId" using assms(5,6) by auto
  have nId: "nId \<notin> set (concat T)" using assms(1,5,6) by (simp add: tried_ok_def)
  then have "nId \<notin> set v" using v(1) assms(2) by auto
  then have w: "distinct (v[p := nId])" "set (v[p := nId]) = insert nId (set v - {v ! p})"
    using v(2) assms(4) by (simp_all add: distinct_list_update set_update_distinct)
  let ?A = "concat (take k T)" and ?B = "concat (drop (Suc k) T)"
  have d: "distinct (?A @ T ! k @ ?B)" "set (?A @ T ! k @ ?B) = tried_of I"
    using assms(1) concat_update(1) [OF assms(2)] by (auto simp: tried_ok_def)
  have "v ! p \<in> set v" using assms(4) by simp
  then have "distinct (?A @ v[p := nId] @ ?B)" "set (?A @ v[p := nId] @ ?B) = insert nId (tried_of I) - {v ! p}"
    using d w v(1) nId ne unfolding concat_update(1) [OF assms(2)] by auto
  then show "tried_ok (I(nId \<mapsto> i', v ! p \<mapsto> j')) (T[k := v[p := nId]])"
    using assms(7,8) unfolding tried_ok_def concat_update(2) [OF assms(2)] by (simp add: tried_of_upd)
qed

lemma evict_ok:
  assumes "addrman_ok cap m" and "map_of (mapInfo m) nId = Some i" and "\<not> fInTried i" and "0 < nLastSuccess i"
    and "k < length (vvTried m)" and "mset v = mset (vvTried m ! k)" and "p < length v" and "map_of (mapInfo m) (v ! p) = Some j"
    and "b < length (vvNew m)" and "card (vvNew m ! b - {nId}) < 64"
    and "std_ok J" and "map_of J = (map_of (mapInfo m))(nId \<mapsto> i\<lparr>nRefCount := 0, fInTried := True\<rparr>, v ! p \<mapsto> j\<lparr>fInTried := False, nRefCount := 1\<rparr>)"
  defines "N \<equiv> map (\<lambda>v. v - {nId}) (vvNew m)"
  shows "addrman_ok cap (m\<lparr>mapInfo := J, vvNew := N[b := insert (v ! p) (N ! b)], vvTried := (vvTried m)[k := v[p := nId]]\<rparr>)"
proof -
  let ?I = "map_of (mapInfo m)" and ?i = "i\<lparr>nRefCount := 0, fInTried := True\<rparr>" and ?j = "j\<lparr>fInTried := False, nRefCount := 1\<rparr>"
  have ok: "ids_ok cap ?I (nIdCount m)" "addrs_ok ?I (mapAddr m)" "random_ok ?I (vRandom m)" "shape_ok (vvTried m) (vvNew m)"
    "tried_ok ?I (vvTried m)" "new_ok (\<lambda>_. 0) ?I (vvNew m)" "counts_ok ?I (nTried m) (nNew m)" "stats_ok cap ?I"
    using assms(1) by (auto simp: am_ok_def)
  note repl = tried_ok_replace [OF ok(5) assms(5-7) assms(2,3), of ?i ?j]
  have j: "fInTried j" "v ! p \<noteq> nId" using repl(2,3) assms(8) by auto
  let ?I1 = "?I(nId \<mapsto> ?i)"
  have I1: "?I1 (v ! p) = Some j" using j assms(8) by simp
  have b: "b < length N" "N ! b = vvNew m ! b - {nId}" using assms(9) by (simp_all add: N_def)
  have new: "new_ok (\<lambda>_. 0) (?I1(v ! p \<mapsto> ?j)) (N[b := insert (v ! p) (N ! b)])"
    using new_ok_evicted [OF new_ok_tried_entry [OF ok(6) assms(2,3)] I1 j(1)] b unfolding N_def by blast
  have fin: "finite (tried_of ?I1)" "finite (new_of ?I1)" using finite_entries [of "mapInfo m"] by (simp_all add: tried_of_upd new_of_upd)
  have counts: "counts_ok (?I1(v ! p \<mapsto> ?j)) (nTried m) (nNew m)"
    using counts_evicted [OF counts_tried_entry [OF ok(7) assms(2,3), of ?i] I1 j(1) _ fin, of ?j] by simp
  have "finite (N ! b)" using ok(4) assms(9) by (auto simp: b shape_ok_def)
  moreover have "length v \<le> 64" using mset_eq_length [OF assms(6)] ok(4) assms(5) by (auto simp: shape_ok_def)
  ultimately have shape: "shape_ok ((vvTried m)[k := v[p := nId]]) (N[b := insert (v ! p) (N ! b)])"
    using assms(10) ok(4) unfolding N_def by (intro shape_tried_upd shape_new_upd shape_remove_all) (auto simp: N_def [symmetric] b card_insert_if)
  have stats: "stats_ok cap (?I1(v ! p \<mapsto> ?j))"
    using ok(8) assms(4) entry_stats [OF assms(1,2)] entry_stats [OF assms(1,8)] by (intro stats_ok_upd) simp_all
  have "ids_ok cap ?I1 (nIdCount m)" "addrs_ok ?I1 (mapAddr m)" "random_ok ?I1 (vRandom m)"
    by (rule ids_ok_upd [OF ok(1) assms(2)], rule addrs_ok_upd [OF ok(2) assms(2)], simp, rule random_ok_upd [OF ok(3) assms(2)], simp)
  then have "ids_ok cap (?I1(v ! p \<mapsto> ?j)) (nIdCount m)" "addrs_ok (?I1(v ! p \<mapsto> ?j)) (mapAddr m)" "random_ok (?I1(v ! p \<mapsto> ?j)) (vRandom m)"
    using I1 by (auto intro: ids_ok_upd addrs_ok_upd random_ok_upd simp del: fun_upd_apply)
  then show ?thesis using assms(11,12) new counts shape stats repl(1) by (simp add: am_ok_def)
qed

lemma GetRandInt_less: "0 < n \<Longrightarrow> GetRandInt n r < n"
  by (simp add: GetRandInt_def)

lemma GetRandInt_id: "r < n \<Longrightarrow> GetRandInt n r = r"
  by (simp add: GetRandInt_def)

lemma shuffle_step: "i < length v \<Longrightarrow> q < length v \<Longrightarrow> mset (v[q := v ! i, i := v ! q]) = mset v"
  by (rule mset_swap)

text \<open>The loop keeps the elements of the bucket and gives a position in it.\<close>

lemma select_tried_loop_ok:
  assumes "set v \<subseteq> dom (map_of infos)" and "- 1 \<notin> set v" and "\<forall>i \<in> set is. i < length v"
    and "nOldest = - 1 \<or> nOldest \<in> dom (map_of infos) \<and> 0 \<le> pos \<and> pos < int (length v)"
  shows "\<exists>r w. select_tried_loop rnd is v nOldest pos infos = Some (r, w, infos) \<and> mset w = mset v
    \<and> (nOldest \<noteq> - 1 \<or> is \<noteq> [] \<longrightarrow> 0 \<le> r \<and> r < int (length v))"
  using assms
proof (induction "is" arbitrary: v nOldest pos)
  case Nil
  then show ?case by auto
next
  case (Cons i "is")
  define q where "q = GetRandInt (length v - i) (rnd i) + i"
  have i: "i < length v" using Cons.prems(3) by simp
  then have "GetRandInt (length v - i) (rnd i) < length v - i" by (intro GetRandInt_less) simp
  then have q: "q < length v" unfolding q_def by linarith
  define w where "w = v[q := v ! i, i := v ! q]"
  have w: "mset w = mset v" unfolding w_def using i q by (rule shuffle_step)
  then have sets: "set w = set v" "length w = length v" by (metis set_mset_mset, metis size_mset)
  have t: "v ! q \<in> set v" using q by simp
  then obtain a where a: "map_of infos (v ! q) = Some a" using Cons.prems(1) by auto
  have tne: "v ! q \<noteq> - 1" using t Cons.prems(2) by metis
  have step: "\<exists>r u. select_tried_loop rnd is w x y infos = Some (r, u, infos) \<and> mset u = mset v \<and> 0 \<le> r \<and> r < int (length v)"
    if "x \<noteq> - 1" "x \<in> dom (map_of infos)" "0 \<le> y" "y < int (length v)" for x y
    using Cons.IH [of w x y] Cons.prems(1-3) that w sets by auto
  show ?case
  proof (cases "nOldest = - 1")
    case True
    then show ?thesis using step [of "v ! q" "int q"] tne a q by (auto simp: Let_def q_def [symmetric] w_def [symmetric])
  next
    case False
    then obtain c where c: "map_of infos nOldest = Some c" and pos: "0 \<le> pos" "pos < int (length v)" using Cons.prems(4) by auto
    have "std_count (v ! q) infos" using a by (simp add: std_count_map_of)
    then show ?thesis using False step [of "v ! q" "int q"] step [of nOldest pos] tne a c pos q
      by (auto simp: Let_def q_def [symmetric] w_def [symmetric] std_get_present)
  qed
qed

lemma select_tried_ok:
  assumes "set (vvTried m ! k) \<subseteq> dom (map_of (mapInfo m))" and "- 1 \<notin> set (vvTried m ! k)" and "vvTried m ! k \<noteq> []"
    and "k < length (vvTried m)"
  shows "\<exists>r v. SelectTried rnd k m = Some (r, m\<lparr>vvTried := (vvTried m)[k := v]\<rparr>) \<and> mset v = mset (vvTried m ! k) \<and> 0 \<le> r \<and> nat r < length v"
proof -
  let ?v = "vvTried m ! k"
  have "0 < min 4 (length ?v)" using assms(3) by simp
  then have "[0..<min 4 (length ?v)] \<noteq> []" by (metis upt_eq_Nil_conv less_numeral_extra(3) not_le)
  then obtain r v where r: "select_tried_loop rnd [0..<min 4 (length ?v)] ?v (- 1) (- 1) (mapInfo m) = Some (r, v, mapInfo m)"
      "mset v = mset ?v" "0 \<le> r" "r < int (length ?v)"
    using select_tried_loop_ok [OF assms(1,2), of "[0..<min 4 (length ?v)]" "- 1" "- 1" rnd] by auto
  then show ?thesis using mset_eq_length [OF r(2)] by (auto simp: SelectTried_def Let_def nat_less_iff)
qed

lemma select_tried_reachable:
  assumes "addrman_ok cap m" and "k < length (vvTried m)" and "vvTried m ! k \<noteq> []"
    and "vvTried m1 = vvTried m" and "map_of (mapInfo m1) = (map_of (mapInfo m))(nId \<mapsto> i')"
  shows "\<exists>r v. SelectTried rnd k m1 = Some (r, m1\<lparr>vvTried := (vvTried m)[k := v]\<rparr>) \<and> mset v = mset (vvTried m ! k)
    \<and> 0 \<le> r \<and> nat r < length v"
proof -
  let ?I = "map_of (mapInfo m)" and ?v = "vvTried m ! k"
  have ok: "ids_ok cap ?I (nIdCount m)" "tried_ok ?I (vvTried m)" using assms(1) by (auto simp: am_ok_def)
  have "set ?v \<subseteq> tried_of ?I" using ok(2) assms(2) by (auto simp: tried_ok_def)
  then have dom: "set (vvTried m1 ! k) \<subseteq> dom (map_of (mapInfo m1))" "set ?v \<subseteq> dom ?I" unfolding assms(4,5) by (auto simp: tried_of_def)
  have "- 1 \<notin> set ?v"
  proof
    assume "- 1 \<in> set ?v"
    then have "0 \<le> (- 1 :: int)" using dom(2) ok(1) unfolding ids_ok_def by blast
    then show False by simp
  qed
  then show ?thesis using select_tried_ok [OF dom(1), of rnd] assms(2,3) unfolding assms(4) by auto
qed

lemma evict_tried_ok:
  assumes "addrman_ok cap m" and "map_of (mapInfo m) nId = Some i" and "\<not> fInTried i" and "0 < nLastSuccess i"
    and "c < length (vvNew m)" and "nId \<in> vvNew m ! c" and "k < length (vvTried m)" and "\<not> length (vvTried m ! k) < 64"
  defines "m1 \<equiv> put_info nId (i\<lparr>nRefCount := 0\<rparr>) (m\<lparr>vvNew := map (\<lambda>v. v - {nId}) (vvNew m), nNew := nNew m - 1\<rparr>)"
  shows "\<exists>m' j. evict_tried Hash rnd nId c k m1 = Some m' \<and> addrman_ok cap m' \<and> map_of (mapInfo m') nId = Some j
    \<and> fInTried j \<and> service j = service i"
proof -
  let ?I = "map_of (mapInfo m)" and ?v = "vvTried m ! k"
  define N where "N = map (\<lambda>v. v - {nId}) (vvNew m)"
  have ok: "std_ok (mapInfo m)" "ids_ok cap ?I (nIdCount m)" "shape_ok (vvTried m) (vvNew m)" "tried_ok ?I (vvTried m)"
    using assms(1) by (auto simp: am_ok_def)
  have m1: "vvTried m1 = vvTried m" "vvNew m1 = N" "map_of (mapInfo m1) = ?I(nId \<mapsto> i\<lparr>nRefCount := 0\<rparr>)" "std_ok (mapInfo m1)"
    using ok(1) by (simp_all add: m1_def N_def put_info_def map_of_std_put)
  have "?v \<noteq> []" using assms(8) by auto
  then obtain r v where r: "SelectTried rnd k m1 = Some (r, m1\<lparr>vvTried := (vvTried m)[k := v]\<rparr>)"
      "mset v = mset ?v" "0 \<le> r" "nat r < length v"
    using select_tried_reachable [OF assms(1,7) _ m1(1,3), of rnd] by blast
  define p where "p = nat r"
  have p: "p < length v" using r(4) by (simp add: p_def)
  obtain j where j: "?I (v ! p) = Some j" "fInTried j" "v ! p \<noteq> nId"
    using tried_ok_replace(2,3) [OF ok(4) assms(7) r(2) p assms(2,3), of "i\<lparr>fInTried := True\<rparr>" "i\<lparr>fInTried := False\<rparr>"] by auto
  let ?j = "j\<lparr>fInTried := False, nRefCount := 1\<rparr>"
  define u where "u = GetNewBucket Hash (nKey m1) (source j) j"
  define b where "b = (if card (N ! u) < 64 then u else c)"
  have u: "u < length (vvNew m)" using bucket_in_range(1) [OF assms(1)] by (simp add: u_def)
  have "card (vvNew m ! c) \<le> 64" "finite (vvNew m ! c)" using ok(3) assms(5) by (auto simp: shape_ok_def)
  then have "card (vvNew m ! c - {nId}) < 64" using assms(6) by (metis card_Diff1_less order_less_le_trans)
  then have b: "b < length (vvNew m)" "card (vvNew m ! b - {nId}) < 64" using u assms(5) by (auto simp: b_def N_def)
  define J where "J = std_put nId (i\<lparr>nRefCount := 0, fInTried := True\<rparr>) (std_put (v ! p) ?j (mapInfo m1))"
  have J: "std_ok J" "map_of J = ?I(nId \<mapsto> i\<lparr>nRefCount := 0, fInTried := True\<rparr>, v ! p \<mapsto> ?j)"
    using m1(3,4) j(3) by (simp_all add: J_def map_of_std_put fun_upd_twist)
  define m' where "m' = m\<lparr>mapInfo := J, vvNew := N[b := insert (v ! p) (N ! b)], vvTried := (vvTried m)[k := v[p := nId]]\<rparr>"
  have look: "map_of (mapInfo m1) (v ! p) = Some j" using m1(3) j by simp
  define M where "M = (put_info (v ! p) ?j (m1\<lparr>vvTried := (vvTried m)[k := v]\<rparr>))
      \<lparr>vvNew := N[b := insert (v ! p) (N ! b)], nNew := nNew m1 + 1, vvTried := (vvTried m)[k := v[p := nId]]\<rparr>"
  have "evict_tried Hash rnd nId c k m1 = Some (upd_info nId (\<lambda>info. info\<lparr>fInTried := True\<rparr>) M)"
    using r p look assms(7) m1(1,2) unfolding evict_tried_def M_def b_def
    by (simp add: Let_def p_def [symmetric] u_def [symmetric] put_info_def)
  also have "upd_info nId (\<lambda>info. info\<lparr>fInTried := True\<rparr>) M = m'"
    using m1(3,4) j(3) by (intro addr_man.equality) (simp_all add: upd_info_def M_def m'_def put_info_def map_of_std_put J_def m1_def)
  finally have "evict_tried Hash rnd nId c k m1 = Some m'" .
  moreover have "addrman_ok cap m'"
    unfolding m'_def N_def by (rule evict_ok [OF assms(1-4,7) r(2) p j(1) b J])
  moreover have "map_of (mapInfo m') nId = Some (i\<lparr>nRefCount := 0, fInTried := True\<rparr>)" using J(2) j(3) by (simp add: m'_def)
  ultimately show ?thesis by simp
qed

lemma make_tried_ok:
  assumes "addrman_ok cap m" and "map_of (mapInfo m) nId = Some i" and "\<not> fInTried i" and "0 < nLastSuccess i"
    and "c < length (vvNew m)" and "nId \<in> vvNew m ! c"
  shows "\<exists>m' j. MakeTried Hash rnd nId c m = Some m' \<and> addrman_ok cap m' \<and> map_of (mapInfo m') nId = Some j
    \<and> fInTried j \<and> service j = service i"
proof -
  let ?I = "map_of (mapInfo m)" and ?N = "map (\<lambda>v. v - {nId}) (vvNew m)"
  have ok: "std_ok (mapInfo m)" "ids_ok cap ?I (nIdCount m)" "shape_ok (vvTried m) (vvNew m)" "tried_ok ?I (vvTried m)"
    "new_ok (\<lambda>_. 0) ?I (vvNew m)"
    using assms(1) by (auto simp: am_ok_def)
  have "entry_ok (refs nId (vvNew m) + 0) i" using ok(5) assms(2) unfolding new_ok_def by blast
  then have r: "nRefCount i - int (length (filter (\<lambda>v. nId \<in> v) (vvNew m))) = 0" using assms(3) by (simp add: entry_ok_def refs_def)
  define i0 where "i0 = i\<lparr>nRefCount := 0\<rparr>"
  have i0: "nRefCount i0 = 0" by (simp add: i0_def)
  define m1 where "m1 = put_info nId i0 (m\<lparr>vvNew := ?N, nNew := nNew m - 1\<rparr>)"
  define k where "k = GetTriedBucket Hash (nKey m) i0"
  have k: "k < length (vvTried m)" using bucket_in_range(2) [OF assms(1)] by (simp add: k_def)
  have m1: "MakeTried Hash rnd nId c m =
      (if length (vvTried m ! k) < 64
       then Some (upd_info nId (\<lambda>info. info\<lparr>fInTried := True\<rparr>) (m1\<lparr>vvTried := (vvTried m)[k := vvTried m ! k @ [nId]], nTried := nTried m + 1\<rparr>))
       else evict_tried Hash rnd nId c k m1)"
    using assms(2,5,6) r i0 by (simp add: MakeTried_def Let_def i0_def [symmetric] m1_def k_def put_info_def)
  show ?thesis
  proof (cases "length (vvTried m ! k) < 64")
    case True
    define J where "J = std_put nId (i0\<lparr>fInTried := True\<rparr>) (mapInfo m)"
    have J: "std_ok J" "map_of J = ?I(nId \<mapsto> i\<lparr>nRefCount := 0, fInTried := True\<rparr>)"
      using ok(1) by (simp_all add: J_def map_of_std_put i0_def)
    have "upd_info nId (\<lambda>info. info\<lparr>fInTried := True\<rparr>) (m1\<lparr>vvTried := (vvTried m)[k := vvTried m ! k @ [nId]], nTried := nTried m + 1\<rparr>)
        = m\<lparr>mapInfo := J, vvNew := ?N, nNew := nNew m - 1, vvTried := (vvTried m)[k := vvTried m ! k @ [nId]], nTried := nTried m + 1\<rparr>"
      using ok(1) by (intro addr_man.equality) (simp_all add: upd_info_def m1_def put_info_def map_of_std_put std_put_put J_def)
    then show ?thesis using m1 True move_to_tried_ok [OF assms(1-4) k True J] J(2) by simp
  next
    case False
    then show ?thesis using m1 evict_tried_ok [OF assms k] by (simp add: m1_def i0_def)
  qed
qed

lemma find_bucket_Some:
  assumes "find_bucket n nId N = Some b"
  shows "b < length N \<and> nId \<in> N ! b"
proof -
  obtain k where "find (\<lambda>k. nId \<in> N ! ((k + n) mod length N)) [0..<length N] = Some k" and b: "b = (k + n) mod length N"
    using assms by (auto simp: find_bucket_def)
  then have "nId \<in> N ! b" "0 < length N" by (auto simp: find_Some_iff)
  then show ?thesis using b by simp
qed

lemma rotation_reaches:
  assumes "q < (len :: nat)"
  shows "\<exists>k < len. (k + n) mod len = q"
proof -
  let ?r = "n mod len"
  have r: "?r < len" using assms by simp
  have "((q + (len - ?r)) mod len + n) mod len = (q + (len - ?r) + n mod len) mod len" by (simp only: mod_add_left_eq mod_add_right_eq)
  also have "\<dots> = (q + len) mod len" using r by (simp add: add.assoc)
  finally show ?thesis using assms by (intro exI [of _ "(q + (len - ?r)) mod len"]) simp
qed

lemma find_bucket_None:
  assumes "find_bucket n nId N = None"
  shows "refs nId N = 0"
proof -
  have none: "nId \<notin> N ! ((k + n) mod length N)" if "k < length N" for k
    using assms that by (auto simp: find_bucket_def find_None_iff)
  have "nId \<notin> N ! q" if q: "q < length N" for q using rotation_reaches [OF q, of n] none by metis
  then show ?thesis unfolding refs_0 by (metis in_set_conv_nth)
qed

lemma good_ok:
  assumes "addrman_ok cap m" and "0 < time"
  shows "\<exists>m'. Good Hash rnd addr time m = Some m' \<and> addrman_ok cap m'
    \<and> (\<forall>nId i. Find (ip addr) m = Some (nId, i) \<and> CService_equal (service i) addr \<longrightarrow>
         (\<exists>j. map_of (mapInfo m') nId = Some j \<and> fInTried j \<and> service j = service i))"
proof (cases "Find (ip addr) m")
  case None
  then show ?thesis using assms by (simp add: Good_def)
next
  case (Some p)
  obtain nId i where p: "p = (nId, i)" by fastforce
  have i: "map_of (mapInfo m) nId = Some i" using find_cases(2) [OF assms(1)] Some p by blast
  have cap: "0 \<le> cap" using assms(1) by (simp add: am_ok_def ids_ok_def)
  define i1 where "i1 = i\<lparr>nLastSuccess := time, nLastTry := time, nTime := of_int time, nAttempts := 0\<rparr>"
  define m1 where "m1 = put_info nId i1 m"
  have ok: "addrman_ok cap m1" unfolding m1_def i1_def using assms(2) cap by (intro put_statistics_ok [OF assms(1) i]) simp_all
  have i1: "map_of (mapInfo m1) nId = Some i1" "0 < nLastSuccess i1" "service i1 = service i"
    using am_ok_std [OF assms(1)] assms(2) by (simp_all add: m1_def i1_def)
  define fb where "fb = find_bucket (GetRandInt (length (vvNew m1)) (rnd 0)) nId (vvNew m1)"
  have eq: "Good Hash rnd addr time m = (if \<not> CService_equal (service i) addr then Some m else if fInTried i1 then Some m1
      else case fb of None \<Rightarrow> Some m1 | Some b \<Rightarrow> MakeTried Hash (\<lambda>k. rnd (Suc k)) nId b m1)"
    using Some p by (simp add: Good_def Let_def i1_def [symmetric] m1_def fb_def split: option.split)
  show ?thesis
  proof (cases "CService_equal (service i) addr \<and> \<not> fInTried i1")
    case False
    then show ?thesis using eq assms(1) ok i1 Some p by auto
  next
    case True
    have "new_ok (\<lambda>_. 0) (map_of (mapInfo m1)) (vvNew m1)" using ok by (simp add: am_ok_def)
    then have "entry_ok (refs nId (vvNew m1) + 0) i1" using i1(1) unfolding new_ok_def by blast
    then have "fb \<noteq> None" unfolding fb_def using True find_bucket_None by (fastforce simp: entry_ok_def)
    then obtain b where b: "fb = Some b" by blast
    then have "b < length (vvNew m1)" "nId \<in> vvNew m1 ! b" unfolding fb_def using find_bucket_Some by blast+
    then obtain m' j where "MakeTried Hash (\<lambda>k. rnd (Suc k)) nId b m1 = Some m'" "addrman_ok cap m'" "map_of (mapInfo m') nId = Some j"
        "fInTried j" "service j = service i1"
      using make_tried_ok [OF ok i1(1) _ i1(2)] True by blast
    then show ?thesis using eq True b Some p i1(3) by simp
  qed
qed

lemma attempt_ok:
  assumes "addrman_ok cap m" and "cap < INT_MAX" and "0 \<le> time"
  shows "\<exists>m'. Attempt addr time m = Some m' \<and> addrman_ok (cap + 1) m'"
proof -
  have mono: "addrman_ok (cap + 1) m" using am_ok_mono [OF assms(1)] assms(2) by simp
  show ?thesis
  proof (cases "Find (ip addr) m")
    case None
    then show ?thesis using mono by (simp add: Attempt_def)
  next
    case (Some p)
    obtain nId i where p: "p = (nId, i)" by fastforce
    have i: "map_of (mapInfo m) nId = Some i" using find_cases(2) [OF assms(1)] Some p by blast
    have n: "nAttempts i \<noteq> INT_MAX" "nAttempts i \<le> cap" using entry_stats(4) [OF assms(1) i] assms(2) by simp_all
    have "addrman_ok (cap + 1) (put_info nId (i\<lparr>nLastTry := time, nAttempts := nAttempts i + 1\<rparr>) m)"
      using entry_stats [OF mono i] n assms(3) by (intro put_statistics_ok [OF mono i]) simp_all
    then show ?thesis using Some p n mono by (simp add: Attempt_def)
  qed
qed

lemma connected_ok:
  assumes "addrman_ok cap m"
  shows "addrman_ok cap (Connected addr time m)"
proof (cases "Find (ip addr) m")
  case None
  then show ?thesis using assms by (simp add: Connected_def)
next
  case (Some p)
  obtain nId i where p: "p = (nId, i)" by fastforce
  have i: "map_of (mapInfo m) nId = Some i" using find_cases(2) [OF assms(1)] Some p by blast
  have "addrman_ok cap (put_info nId (i\<lparr>nTime := of_int time\<rparr>) m)"
    using entry_stats [OF assms i] by (intro put_statistics_ok [OF assms i]) simp_all
  then show ?thesis using Some p assms by (simp add: Connected_def)
qed

lemma add_ok:
  assumes "addrman_ok cap m" and "cap < INT_MAX"
  shows "\<exists>r m'. Add Hash now rnd addr src pen m = Some (r, m') \<and> addrman_ok (cap + 1) m'"
proof (cases "Find (ip (service addr)) m")
  case None
  then show ?thesis using add_unknown_ok [OF assms, of addr] by blast
next
  case (Some p)
  then obtain r m' where "Add Hash now rnd addr src pen m = Some (r, m')" "addrman_ok cap m'"
    using add_known_ok [OF assms(1), of addr] by (metis prod.collapse)
  then show ?thesis using am_ok_mono [of cap _ m' "cap + 1"] assms(2) by auto
qed

subsection \<open>The check finds nothing\<close>

lemma check_info_ok:
  assumes "A (ip (service info)) = Some n" and "0 \<le> nRandomPos info" and "nat (nRandomPos info) < length R" and "R ! nat (nRandomPos info) = n"
    and "0 \<le> nLastTry info" and "0 \<le> nLastSuccess info" and "fInTried info \<Longrightarrow> 0 < nLastSuccess info" and "entry_ok r info"
  shows "check_info n info R A setTried mapNew =
    Inr (A, if fInTried info then insert n setTried else setTried, if fInTried info then mapNew else std_put n (nRefCount info) mapNew)"
  using assms by (cases "fInTried info") (simp_all add: check_info_def entry_ok_def Let_def nat_less_iff)

definition checked :: "(net_addr \<rightharpoonup> int) \<Rightarrow> int list \<Rightarrow> int \<Rightarrow> addr_info \<Rightarrow> bool" where
  "checked A R n info \<longleftrightarrow> A (ip (service info)) = Some n \<and> 0 \<le> nRandomPos info \<and> nat (nRandomPos info) < length R
     \<and> R ! nat (nRandomPos info) = n \<and> 0 \<le> nLastTry info \<and> 0 \<le> nLastSuccess info \<and> (fInTried info \<longrightarrow> 0 < nLastSuccess info)
     \<and> (\<exists>r. entry_ok r info)"

definition new_counts :: "entries \<Rightarrow> int \<rightharpoonup> int" where
  "new_counts I n = (case I n of None \<Rightarrow> None | Some info \<Rightarrow> if fInTried info then None else Some (nRefCount info))"

lemma new_counts_upd:
  "I n = None \<Longrightarrow> new_counts (I(n \<mapsto> info)) = (if fInTried info then new_counts I else (new_counts I)(n \<mapsto> nRefCount info))"
  by (auto simp: new_counts_def fun_eq_iff)

lemma check_infos_ok:
  assumes "\<forall>(n, info) \<in> set infos. checked A R n info" and "std_ok infos" and "std_ok mapNew" and "\<forall>n \<in> fst ` set infos. map_of mapNew n = None"
  shows "\<exists>mapNew'. check_infos infos R A setTried mapNew = Inr (A, setTried \<union> tried_of (map_of infos), mapNew') \<and> std_ok mapNew'
    \<and> map_of mapNew' = map_of mapNew ++ new_counts (map_of infos)"
  using assms
proof (induction infos arbitrary: setTried mapNew)
  case Nil
  then show ?case by (simp add: tried_of_def new_counts_def map_add_def)
next
  case (Cons e infos)
  obtain n info where e: "e = (n, info)" by fastforce
  have c: "checked A R n info" using Cons.prems(1) e by simp
  have fresh: "map_of infos n = None" using Cons.prems(2) by (auto simp: e map_of_eq_None_iff)
  then have sets: "tried_of (map_of (e # infos)) = (if fInTried info then insert n (tried_of (map_of infos)) else tried_of (map_of infos))"
    by (auto simp: e tried_of_upd) (auto simp: tried_of_def)
  define S where "S = (if fInTried info then insert n setTried else setTried)"
  define M where "M = (if fInTried info then mapNew else std_put n (nRefCount info) mapNew)"
  have step: "check_infos (e # infos) R A setTried mapNew = check_infos infos R A S M"
    using c check_info_ok [of A info n R _ setTried mapNew] by (auto simp: e checked_def S_def M_def)
  have M: "std_ok M" "map_of M = (if fInTried info then map_of mapNew else (map_of mapNew)(n \<mapsto> nRefCount info))"
    using Cons.prems(3) by (auto simp: M_def map_of_std_put)
  have "\<forall>k \<in> fst ` set infos. map_of M k = None" using Cons.prems(2,4) by (auto simp: M(2) e)
  then obtain mapNew' where *: "check_infos infos R A S M = Inr (A, S \<union> tried_of (map_of infos), mapNew')" "std_ok mapNew'"
      "map_of mapNew' = map_of M ++ new_counts (map_of infos)"
    using Cons.IH [of M S] Cons.prems(1,2) M(1) by (auto simp: e)
  have "n \<notin> dom (new_counts (map_of infos))" using fresh by (simp add: new_counts_def dom_def)
  then have new: "map_of mapNew' = map_of mapNew ++ new_counts (map_of (e # infos))"
    using *(3) fresh unfolding M(2) by (simp add: e new_counts_upd map_add_upd_left)
  have "S \<union> tried_of (map_of infos) = setTried \<union> tried_of (map_of (e # infos))" unfolding sets S_def by auto
  then have "check_infos (e # infos) R A setTried mapNew = Inr (A, setTried \<union> tried_of (map_of (e # infos)), mapNew')"
    by (simp only: step *(1))
  then show ?case using *(2) new by blast
qed

lemma check_tried_ok: "distinct ids \<Longrightarrow> check_tried ids (set ids) = Inr {}"
  by (induction ids) (simp_all add: insert_Diff_if Diff_insert0)

lemma check_new_ok:
  assumes "std_ok mapNew" and "\<forall>n. (case map_of mapNew n of None \<Rightarrow> 0 | Some c \<Rightarrow> c) = int (count_list ids n)"
    and "\<forall>n c. map_of mapNew n = Some c \<longrightarrow> 0 < c"
  shows "check_new ids mapNew = Inr []"
  using assms
proof (induction ids arbitrary: mapNew)
  case Nil
  then have "map_of mapNew n = None" for n using spec [OF Nil(2), of n] spec [OF Nil(3), of n] by (cases "map_of mapNew n") auto
  then have "set mapNew = {}" by (metis all_not_in_conv weak_map_of_SomeI option.distinct(1) prod.exhaust)
  then show ?case by simp
next
  case (Cons nId ids)
  have "(case map_of mapNew nId of None \<Rightarrow> 0 | Some c \<Rightarrow> c) = int (count_list ids nId) + 1" using Cons.prems(2) by simp
  then obtain c where c: "map_of mapNew nId = Some c" "c = int (count_list ids nId) + 1" by (cases "map_of mapNew nId") auto
  define M where "M = (if c - 1 = 0 then std_erase nId mapNew else std_put nId (c - 1) mapNew)"
  have M: "std_ok M" "map_of M = (map_of mapNew)(nId := if c - 1 = 0 then None else Some (c - 1))"
    using Cons.prems(1) by (auto simp: M_def map_of_std_erase map_of_std_put)
  have "check_new ids M = Inr []"
  proof (rule Cons.IH [OF M(1)])
    show "\<forall>n. (case map_of M n of None \<Rightarrow> 0 | Some c \<Rightarrow> c) = int (count_list ids n)"
      using Cons.prems(2) c by (auto simp: M(2))
    show "\<forall>n d. map_of M n = Some d \<longrightarrow> 0 < d" using Cons.prems(3) c by (auto simp: M(2))
  qed
  moreover have "check_new (nId # ids) mapNew = check_new ids M" using c(1) by (simp add: M_def)
  ultimately show ?case by simp
qed

lemma count_list_distinct: "distinct xs \<Longrightarrow> count_list xs n = (if n \<in> set xs then 1 else 0)"
  by (induction xs) auto

lemma count_bucket_list:
  assumes "\<forall>v \<in> set N. finite v"
  shows "count_list (concat (map sorted_list_of_set N)) n = refs n N"
  using assms
proof (induction N)
  case (Cons v N)
  have "count_list (sorted_list_of_set v) n = (if n \<in> v then 1 else 0)"
    using Cons.prems distinct_sorted_list_of_set [of v] by (simp add: count_list_distinct)
  then show ?case using Cons by (simp add: refs_def count_list_append)
qed (simp add: refs_def)

lemma length_std_map: "std_ok m \<Longrightarrow> length m = card (dom (map_of m))"
  using distinct_card [OF std_ok_distinct, of m] by (simp add: dom_map_of_conv_image_fst)

lemma new_counts_refs:
  assumes "new_ok (\<lambda>_. 0) I N"
  shows "(case new_counts I n of None \<Rightarrow> 0 | Some c \<Rightarrow> c) = int (refs n N) \<and> (\<forall>c. new_counts I n = Some c \<longrightarrow> 0 < c)"
proof (cases "n \<in> new_of I")
  case True
  then obtain i where i: "I n = Some i" "\<not> fInTried i" by (auto simp: new_of_def)
  then have "entry_ok (refs n N + 0) i" using assms unfolding new_ok_def by blast
  then show ?thesis using i by (simp add: new_counts_def entry_ok_def)
next
  case False
  then have "refs n N = 0" using assms unfolding refs_0 new_ok_def by blast
  moreover have "new_counts I n = None" using False by (auto simp: new_counts_def new_of_def split: option.splits)
  ultimately show ?thesis by simp
qed

lemma check_finds_nothing:
  assumes "addrman_ok cap m"
  shows "Check m = (0, m)"
proof -
  let ?I = "map_of (mapInfo m)"
  have ok: "std_ok (mapInfo m)" "addrs_ok ?I (mapAddr m)" "random_ok ?I (vRandom m)" "shape_ok (vvTried m) (vvNew m)"
    "tried_ok ?I (vvTried m)" "new_ok (\<lambda>_. 0) ?I (vvNew m)" "counts_ok ?I (nTried m) (nNew m)" "stats_ok cap ?I"
    using assms by (auto simp: am_ok_def)
  have "checked (mapAddr m) (vRandom m) n info" if "(n, info) \<in> set (mapInfo m)" for n info
  proof -
    have i: "?I n = Some info" using that std_ok_distinct [OF ok(1)] by simp
    then have "mapAddr m (ip (service info)) = Some n" using ok(2) by (auto simp: addrs_ok_def)
    moreover have "\<exists>r. entry_ok r info" using ok(6) i unfolding new_ok_def by blast
    ultimately show ?thesis using random_pos [OF ok(3) i] entry_stats [OF assms i] by (simp add: checked_def)
  qed
  then obtain M where M: "check_infos (mapInfo m) (vRandom m) (mapAddr m) {} [] = Inr (mapAddr m, tried_of ?I, M)" "std_ok M"
      "map_of M = new_counts ?I"
    using check_infos_ok [of "mapInfo m" "mapAddr m" "vRandom m" "[]" "{}"] ok(1) by auto
  have "dom (new_counts ?I) = new_of ?I" by (auto simp: new_counts_def new_of_def dom_def split: option.splits if_splits)
  then have lenM: "int (length M) = nNew m" using length_std_map [OF M(2)] ok(7) by (simp add: M(3) counts_ok_def)
  have "dom ?I = tried_of ?I \<union> new_of ?I" "tried_of ?I \<inter> new_of ?I = {}" by (auto simp: tried_of_def new_of_def)
  then have "card (dom ?I) = card (tried_of ?I) + card (new_of ?I)" by (simp add: card_Un_disjoint finite_entries)
  then have lenR: "int (length (vRandom m)) = nTried m + nNew m"
    using distinct_card [OF random_distinct [OF ok(3)]] random_set [OF ok(3)] ok(7) by (simp add: counts_ok_def)
  have tried: "check_tried (concat (vvTried m)) (tried_of ?I) = Inr {}"
    using check_tried_ok [of "concat (vvTried m)"] ok(5) by (simp add: tried_ok_def)
  have fin: "\<forall>v \<in> set (vvNew m). finite v" using ok(4) by (simp add: shape_ok_def)
  have "(case new_counts ?I n of None \<Rightarrow> 0 | Some c \<Rightarrow> c) = int (refs n (vvNew m)) \<and> (\<forall>c. new_counts ?I n = Some c \<longrightarrow> 0 < c)" for n
    by (rule new_counts_refs [OF ok(6)])
  then have new: "check_new (concat (map sorted_list_of_set (vvNew m))) M = Inr []"
    by (intro check_new_ok M(2)) (simp_all add: M(3) count_bucket_list [OF fin])
  show ?thesis using lenR lenM M(1) ok(7) tried new by (simp add: Check_def counts_ok_def Let_def)
qed

subsection \<open>Selections\<close>

lemma get_addr_loop_ok:
  assumes "addrman_ok cap m" and "K \<le> length (vRandom m)" and "k \<le> K"
  shows "\<exists>xs m'. get_addr_loop rnd [k..<K] vAddr m = Some (vAddr @ xs, m') \<and> addrman_ok cap m' \<and> length (vRandom m') = length (vRandom m)
    \<and> same_entries (map_of (mapInfo m)) (map_of (mapInfo m')) \<and> (\<forall>j < k. vRandom m' ! j = vRandom m ! j)
    \<and> length xs = K - k
    \<and> (\<forall>j < K - k. \<exists>i. map_of (mapInfo m') (vRandom m' ! (k + j)) = Some i \<and> xs ! j = net_address.truncate i)"
  using assms
proof (induction "K - k" arbitrary: k m vAddr)
  case 0
  then show ?case by simp
next
  case (Suc d)
  then have k: "k < K" "d = K - Suc k" by auto
  then have upt: "[k..<K] = k # [Suc k..<K]" by (simp add: upt_conv_Cons)
  define q where "q = GetRandInt (length (vRandom m) - k) (rnd k) + k"
  have "GetRandInt (length (vRandom m) - k) (rnd k) < length (vRandom m) - k" using k Suc.prems(2) by (intro GetRandInt_less) simp
  then have q: "q < length (vRandom m)" "k \<le> q" unfolding q_def by linarith+
  obtain m1 where m1: "SwapRandom (of_nat k) (of_nat q) m = Some m1" "addrman_ok cap m1"
      "vRandom m1 = (vRandom m)[k := vRandom m ! q, q := vRandom m ! k]" "same_entries (map_of (mapInfo m)) (map_of (mapInfo m1))"
    using swap_ok [OF Suc.prems(1), of k q] k q Suc.prems(2) by auto
  have len: "length (vRandom m1) = length (vRandom m)" by (simp add: m1(3))
  have "random_ok (map_of (mapInfo m1)) (vRandom m1)" using m1(2) by (simp add: am_ok_def)
  then obtain i where i: "map_of (mapInfo m1) (vRandom m1 ! k) = Some i"
    using random_entry [of _ "vRandom m1" k] k Suc.prems(2) len by auto
  obtain xs m' where *: "get_addr_loop rnd [Suc k..<K] (vAddr @ [net_address.truncate i]) m1 = Some ((vAddr @ [net_address.truncate i]) @ xs, m')"
      "addrman_ok cap m'" "length (vRandom m') = length (vRandom m1)" "same_entries (map_of (mapInfo m1)) (map_of (mapInfo m'))"
      "\<forall>j < Suc k. vRandom m' ! j = vRandom m1 ! j" "length xs = K - Suc k"
      "\<forall>j < K - Suc k. \<exists>i. map_of (mapInfo m') (vRandom m' ! (Suc k + j)) = Some i \<and> xs ! j = net_address.truncate i"
    using Suc.hyps(1) [OF k(2) m1(2), of "vAddr @ [net_address.truncate i]"] Suc.prems(2) k(1) len by auto
  obtain p where p: "map_of (mapInfo m') (vRandom m1 ! k) = Some (i\<lparr>nRandomPos := p\<rparr>)" using same_entriesD [OF *(4) i] by blast
  have t: "net_address.truncate (i\<lparr>nRandomPos := p\<rparr>) = net_address.truncate i" by (simp add: net_address.defs)
  have "\<exists>i'. map_of (mapInfo m') (vRandom m' ! (k + j)) = Some i' \<and> (net_address.truncate i # xs) ! j = net_address.truncate i'" if "j < K - k" for j
    using that p t *(5,7) k by (cases j) auto
  moreover have "get_addr_loop rnd [k..<K] vAddr m = Some (vAddr @ (net_address.truncate i # xs), m')"
    using m1(1) i *(1) by (simp add: upt q_def Let_def)
  moreover have "\<forall>j < k. vRandom m' ! j = vRandom m ! j" using *(5) q by (simp add: m1(3))
  ultimately show ?case using *(2,3,6) len same_entries_trans [OF m1(4) *(4)] k by (intro exI [of _ "net_address.truncate i # xs"] exI [of _ m']) auto
qed

lemma truncate_service: "service (net_address.truncate (i :: addr_info)) = service i"
  by (simp add: net_address.defs)

lemma get_addr_ok:
  assumes "addrman_ok cap m"
  shows "\<exists>vAddr m'. GetAddr rnd m = Some (vAddr, m') \<and> addrman_ok cap m' \<and> same_entries (map_of (mapInfo m)) (map_of (mapInfo m'))
    \<and> length vAddr = min 2500 (23 * length (vRandom m) div 100) \<and> distinct (map (ip \<circ> service) vAddr)
    \<and> (\<forall>a \<in> set vAddr. \<exists>nId info. map_of (mapInfo m) nId = Some info \<and> a = net_address.truncate info)"
proof -
  define K where "K = min 2500 (23 * length (vRandom m) div 100)"
  have "K \<le> length (vRandom m)" by (simp add: K_def)
  then obtain xs m' where *: "get_addr_loop rnd [0..<K] [] m = Some (xs, m')" "addrman_ok cap m'"
      "length (vRandom m') = length (vRandom m)" "same_entries (map_of (mapInfo m)) (map_of (mapInfo m'))" "length xs = K"
      "\<forall>j < K. \<exists>i. map_of (mapInfo m') (vRandom m' ! j) = Some i \<and> xs ! j = net_address.truncate i"
    using get_addr_loop_ok [OF assms, of K 0 rnd "[]"] by auto
  have ok: "random_ok (map_of (mapInfo m')) (vRandom m')" "addrs_ok (map_of (mapInfo m')) (mapAddr m')" using *(2) by (simp_all add: am_ok_def)
  have K: "K \<le> length (vRandom m')" using \<open>K \<le> length (vRandom m)\<close> *(3) by simp
  have "ip (service (xs ! j)) \<noteq> ip (service (xs ! l))" if jl: "j < K" "l < K" "j \<noteq> l" for j l
  proof
    assume same: "ip (service (xs ! j)) = ip (service (xs ! l))"
    obtain a b where "map_of (mapInfo m') (vRandom m' ! j) = Some a" "ip (service a) = ip (service (xs ! j))"
        "map_of (mapInfo m') (vRandom m' ! l) = Some b" "ip (service b) = ip (service (xs ! l))"
      using *(6) jl(1,2) by (metis truncate_service)
    then have "mapAddr m' (ip (service (xs ! j))) = Some (vRandom m' ! j)" "mapAddr m' (ip (service (xs ! j))) = Some (vRandom m' ! l)"
      using ok(2) same unfolding addrs_ok_def by metis+
    then have "vRandom m' ! j = vRandom m' ! l" by simp
    then show False using random_distinct [OF ok(1)] jl K by (simp add: nth_eq_iff_index_eq)
  qed
  then have dist: "distinct (map (ip \<circ> service) xs)" using *(5) by (auto simp: distinct_conv_nth)
  have "\<exists>nId info. map_of (mapInfo m) nId = Some info \<and> a = net_address.truncate info" if a: "a \<in> set xs" for a
  proof -
    obtain j where "j < K" "a = xs ! j" using a *(5) by (auto simp: in_set_conv_nth)
    then obtain i where i: "map_of (mapInfo m') (vRandom m' ! j) = Some i" "a = net_address.truncate i" using *(6) by auto
    then obtain p where "map_of (mapInfo m) (vRandom m' ! j) = Some (i\<lparr>nRandomPos := p\<rparr>)"
      using same_entriesD [OF same_entries_sym [OF *(4)]] by blast
    then show ?thesis using i(2) by (intro exI [of _ "vRandom m' ! j"] exI [of _ "i\<lparr>nRandomPos := p\<rparr>"]) (simp add: net_address.defs)
  qed
  moreover have "GetAddr rnd m = get_addr_loop rnd [0..<K] [] m"
    by (simp add: GetAddr_def Let_def K_def min_def not_less)
  ultimately show ?thesis using * dist by (simp add: K_def)
qed

text \<open>
  The chance of an entry is positive, however often it was tried: the smallest positive number divided by 1.5 rounds to itself.
\<close>

lemma chance_age:
  assumes "0 \<le> n" and "n \<le> 2 ^ 63"
  shows "\<exists>c. d_mult (Fin 1) (d_div (Fin 600) (d_add (Fin 600) (d_of_int n))) = Fin c \<and> 1 / 2 ^ 60 \<le> c \<and> c \<le> 1000"
proof -
  have n: "real_of_int n \<le> 2 ^ 63" using assms(2) by (metis of_int_le_iff of_int_numeral of_int_power)
  have "\<exists>a. d_of_int n = Fin a \<and> 0 \<le> a \<and> a \<le> 2 ^ 64"
  proof (cases "n = 0")
    case False
    then have n1: "1 \<le> real_of_int n" using assms(1) by simp
    then obtain a where "d_of_int n = Fin a" "real_of_int n * (1 - 1 / 2 ^ 52) \<le> a" "a \<le> real_of_int n * (1 + 1 / 2 ^ 52)"
      using to_double_middle [of "real_of_int n"] n by fastforce
    then show ?thesis using n n1 by simp
  qed simp
  then obtain a where a: "d_of_int n = Fin a" "0 \<le> a" "a \<le> 2 ^ 64" by blast
  then obtain b where b: "to_double (600 + a) = Fin b" "(600 + a) * (1 - 1 / 2 ^ 52) \<le> b" "b \<le> (600 + a) * (1 + 1 / 2 ^ 52)"
    using to_double_middle [of "600 + a"] by fastforce
  have b': "599 \<le> b" "b \<le> 2 ^ 65" using b(2,3) a(2,3) by (simp_all add: algebra_simps)
  define q where "q = 600 / b"
  have q: "1 / 2 ^ 59 \<le> q" "q \<le> 2" using b' by (simp_all add: q_def divide_simps)
  then obtain c where c: "to_double q = Fin c" "q * (1 - 1 / 2 ^ 52) \<le> c" "c \<le> q * (1 + 1 / 2 ^ 52)"
    using to_double_middle [of q] by fastforce
  have c': "1 / 2 ^ 59 * (1 - 1 / 2 ^ 52) \<le> c" "c \<le> 4" using c(2,3) q by (simp_all add: algebra_simps)
  then obtain d where d: "to_double c = Fin d" "c * (1 - 1 / 2 ^ 52) \<le> d" "d \<le> c * (1 + 1 / 2 ^ 52)"
    using to_double_middle [of c] by fastforce
  have "1 / 2 ^ 60 \<le> d" "d \<le> 1000" using d(2,3) c' by (simp_all add: algebra_simps)
  then show ?thesis using a(1) b(1) b' c(1) d(1) by (simp add: q_def)
qed

lemma moderate_hundredth:
  assumes "1 / 2 ^ 60 \<le> c" and "c \<le> 1000"
  shows "moderate (Fin c)" and "moderate (d_mult (Fin c) (to_double (1 / 100)))"
proof -
  show "moderate (Fin c)" using assms least_double_bounds(2) by (simp add: moderate_def)
  obtain h where h: "to_double (1 / 100) = Fin h" "1 / 100 * (1 - 1 / 2 ^ 52) \<le> h" "h \<le> 1 / 100 * (1 + 1 / 2 ^ 52)"
    using to_double_middle [of "1 / 100"] by auto
  then have h': "1 / 1000 \<le> h" "h \<le> 1" by simp_all
  have "1 / 2 ^ 60 * (1 / 1000) \<le> c * h" using assms h' by (intro mult_mono) simp_all
  moreover have "c * h \<le> 1000 * 1" using assms h' by (intro mult_mono) simp_all
  ultimately have "moderate (to_double (c * h))" using least_double_bounds by (intro moderate_round) simp_all
  then show "moderate (d_mult (Fin c) (to_double (1 / 100)))" by (simp add: h(1))
qed

lemma GetChance_moderate:
  assumes "nNow \<le> 2 ^ 63"
  shows "moderate (GetChance nNow info)"
proof -
  define n where "n = (if nNow - uint (nTime info) < 0 then 0 else nNow - uint (nTime info))"
  have "0 \<le> n" by (simp add: n_def)
  moreover have "nNow - uint (nTime info) \<le> 2 ^ 63" using assms uint_ge_0 [of "nTime info"] by linarith
  then have "n \<le> 2 ^ 63" by (simp add: n_def)
  ultimately obtain c where c: "d_mult (Fin 1) (d_div (Fin 600) (d_add (Fin 600) (d_of_int n))) = Fin c" "1 / 2 ^ 60 \<le> c" "c \<le> 1000"
    using chance_age by blast
  have pow: "moderate (((\<lambda>x. d_div x (Fin (3 / 2))) ^^ k) d)" if "moderate d" for k d
    using that by (induction k) (simp_all add: moderate_third del: d_div.simps)
  have "GetChance nNow info = ((\<lambda>x. d_div x (Fin (3 / 2))) ^^ nat (nAttempts info))
      (if (if nNow - nLastTry info < 0 then 0 else nNow - nLastTry info) < 60 * 10 then d_mult (Fin c) (to_double (1 / 100)) else Fin c)"
    unfolding GetChance_def Let_def n_def [symmetric] c(1) ..
  moreover have "moderate (if b then d_mult (Fin c) (to_double (1 / 100)) else Fin c)" for b
    using moderate_hundredth [OF c(2,3)] by (cases b) (simp_all only: if_True if_False)
  ultimately show ?thesis using pow by (simp only:)
qed

lemma draw_less: "GetRandInt (2 ^ 30) r < 2 ^ 30"
  by (rule GetRandInt_less) simp

lemma draw_exact: "d_of_int (int (GetRandInt (2 ^ 30) r)) = Fin (real (GetRandInt (2 ^ 30) r))"
  using d_of_int_exact [of "int (GetRandInt (2 ^ 30) r)"] draw_less [of r] by simp

lemmas draw_exact_simps = draw_exact [simplified]

lemma accepts_zero:
  assumes "now \<le> 2 ^ 63"
  shows "accepts (Fin 1) now 0 info"
proof -
  obtain y where y: "GetChance now info = Fin y" "least_double \<le> y" using GetChance_moderate [OF assms] by (auto simp: moderate_def)
  then consider "to_double y = Infinity False" | z where "to_double y = Fin z" "least_double \<le> z"
    using to_double_pos [of y] least_double_bounds(1) by auto
  then show ?thesis
  proof cases
    case (2 z)
    have "to_double (z * 2 ^ 30) = Infinity False \<or> (\<exists>v. to_double (z * 2 ^ 30) = Fin v \<and> least_double \<le> v)"
      using 2(2) least_double_bounds(1) by (intro to_double_pos) simp
    then show ?thesis using 2(1) y(1) least_double_bounds(1) by (auto simp: accepts_def GetRandInt_def)
  qed (simp add: accepts_def y GetRandInt_def)
qed

lemma select_tried_sound:
  assumes "addrman_ok cap m"
  shows "\<exists>r. select_tried f turns m = Some r \<and> (\<forall>info. r = Some info \<longrightarrow> (\<exists>nId. map_of (mapInfo m) nId = Some info \<and> fInTried info))"
proof (induction turns arbitrary: f)
  case (Cons t turns)
  obtain r1 r2 now r3 where t: "t = (r1, r2, now, r3)" by (cases t) auto
  have T: "tried_ok (map_of (mapInfo m)) (vvTried m)" and len: "length (vvTried m) = 64" using assms by (auto simp: am_ok_def shape_ok_def)
  define v where "v = vvTried m ! GetRandInt (length (vvTried m)) r1"
  have "GetRandInt (length (vvTried m)) r1 < length (vvTried m)" using len by (intro GetRandInt_less) simp
  then have v: "v \<in> set (vvTried m)" by (simp add: v_def)
  show ?case
  proof (cases "v = []")
    case True
    then show ?thesis using Cons by (simp add: t v_def)
  next
    case False
    then have "v ! GetRandInt (length v) r2 \<in> set v" by (intro nth_mem GetRandInt_less) simp
    then have "v ! GetRandInt (length v) r2 \<in> tried_of (map_of (mapInfo m))" using T v unfolding tried_ok_def by auto
    then obtain i where i: "map_of (mapInfo m) (v ! GetRandInt (length v) r2) = Some i" "fInTried i" by (auto simp: tried_of_def)
    then show ?thesis using Cons False by (auto simp: t Let_def v_def [symmetric])
  qed
qed simp

lemma select_new_sound:
  assumes "addrman_ok cap m"
  shows "\<exists>r. select_new f turns m = Some r \<and> (\<forall>info. r = Some info \<longrightarrow> (\<exists>nId. map_of (mapInfo m) nId = Some info \<and> \<not> fInTried info))"
proof (induction turns arbitrary: f)
  case (Cons t turns)
  obtain r1 r2 now r3 where t: "t = (r1, r2, now, r3)" by (cases t) auto
  have N: "new_ok (\<lambda>_. 0) (map_of (mapInfo m)) (vvNew m)" and shape: "shape_ok (vvTried m) (vvNew m)" using assms by (auto simp: am_ok_def)
  define v where "v = vvNew m ! GetRandInt (length (vvNew m)) r1"
  have "GetRandInt (length (vvNew m)) r1 < length (vvNew m)" using shape by (intro GetRandInt_less) (simp add: shape_ok_def)
  then have v: "v \<in> set (vvNew m)" by (simp add: v_def)
  then have fin: "finite v" using shape by (simp add: shape_ok_def)
  show ?case
  proof (cases "card v = 0")
    case True
    then show ?thesis using Cons by (simp add: t v_def)
  next
    case False
    define x where "x = sorted_list_of_set v ! GetRandInt (card v) r2"
    have "GetRandInt (card v) r2 < length (sorted_list_of_set v)" using GetRandInt_less [of "card v" r2] False fin by simp
    then have "x \<in> set (sorted_list_of_set v)" unfolding x_def by (rule nth_mem)
    then have "x \<in> new_of (map_of (mapInfo m))" using fin N v unfolding new_ok_def by auto
    then obtain i where i: "map_of (mapInfo m) x = Some i" "\<not> fInTried i" by (auto simp: new_of_def)
    then show ?thesis using Cons False by (auto simp: t Let_def v_def [symmetric] x_def)
  qed
qed simp

text \<open>Every entry of a table is returned for some draws.\<close>

lemma select_complete:
  assumes "addrman_ok cap m" and "map_of (mapInfo m) nId = Some info" and "now \<le> 2 ^ 63"
  shows "if fInTried info then (\<exists>r1 r2. select_tried (Fin 1) [(r1, r2, now, 0)] m = Some (Some info))
    else (\<exists>r1 r2. select_new (Fin 1) [(r1, r2, now, 0)] m = Some (Some info))"
proof (cases "fInTried info")
  case True
  have T: "tried_ok (map_of (mapInfo m)) (vvTried m)" using assms by (auto simp: am_ok_def)
  have "nId \<in> set (concat (vvTried m))" using T True assms(2) by (simp add: tried_ok_def)
  then obtain k p where k: "k < length (vvTried m)" "p < length (vvTried m ! k)" "vvTried m ! k ! p = nId"
    by (auto simp: in_set_conv_nth)
  then have "vvTried m ! k \<noteq> []" by auto
  then have "select_tried (Fin 1) [(k, p, now, 0)] m = Some (Some info)"
    using k assms(2) by (simp add: GetRandInt_id Let_def accepts_zero [OF assms(3)])
  then show ?thesis using True by auto
next
  case False
  have N: "new_ok (\<lambda>_. 0) (map_of (mapInfo m)) (vvNew m)" and shape: "shape_ok (vvTried m) (vvNew m)" using assms by (auto simp: am_ok_def)
  have "entry_ok (refs nId (vvNew m) + 0) info" using N assms(2) unfolding new_ok_def by blast
  then have "refs nId (vvNew m) \<noteq> 0" using False by (simp add: entry_ok_def)
  then obtain k where k: "k < length (vvNew m)" "nId \<in> vvNew m ! k" by (auto simp: refs_0 in_set_conv_nth)
  have fin: "finite (vvNew m ! k)" using shape k(1) by (simp add: shape_ok_def)
  then have "nId \<in> set (sorted_list_of_set (vvNew m ! k))" using k(2) by simp
  then obtain p where p: "p < card (vvNew m ! k)" "sorted_list_of_set (vvNew m ! k) ! p = nId"
    using fin by (metis in_set_conv_nth length_sorted_list_of_set)
  then have "select_new (Fin 1) [(k, p, now, 0)] m = Some (Some info)" using k assms(2) by (simp add: GetRandInt_id Let_def accepts_zero [OF assms(3)])
  then show ?thesis using False by auto
qed

text \<open>
  The loops end: the factor grows with every turn that finds a bucket with entries by more than a tenth, after 8192 of them it is infinite,
  and an infinite factor accepts every entry, since the chance is positive.
\<close>

fun hits_tried :: "addr_man \<Rightarrow> turn \<Rightarrow> bool" where
  "hits_tried m (r1, r2, now, r3) = (vvTried m ! GetRandInt (length (vvTried m)) r1 \<noteq> [])"

fun hits_new :: "addr_man \<Rightarrow> turn \<Rightarrow> bool" where
  "hits_new m (r1, r2, now, r3) = (card (vvNew m ! GetRandInt (length (vvNew m)) r1) \<noteq> 0)"

fun turn_time :: "turn \<Rightarrow> int" where
  "turn_time (r1, r2, now, r3) = now"

definition grown :: "nat \<Rightarrow> double \<Rightarrow> bool" where
  "grown k f \<longleftrightarrow> f = Infinity False \<or> (\<exists>y. f = Fin y \<and> (11 / 10) ^ k \<le> y \<and> y < 2 ^ 1024)"

lemma grown_1: "grown 0 (Fin 1)"
  using power_strict_increasing [of 0 1024 "2 :: real"] by (simp add: grown_def)

lemma grown_step:
  assumes "grown k f"
  shows "grown (Suc k) (d_mult f (to_double (12 / 10)))"
proof -
  obtain g where g: "to_double (12 / 10) = Fin g" "12 / 10 * (1 - 1 / 2 ^ 52) \<le> g" using to_double_middle [of "12 / 10"] by auto
  then have g': "119 / 100 \<le> g" by simp
  consider "f = Infinity False" | y where "f = Fin y" "(11 / 10) ^ k \<le> y" using assms by (auto simp: grown_def)
  then show ?thesis
  proof cases
    case 1
    then show ?thesis using g(1) g' by (simp add: grown_def)
  next
    case (2 y)
    have one: "1 \<le> (11 / 10 :: real) ^ k" by (rule one_le_power) simp
    have y: "1 \<le> y" using 2(2) one by linarith
    then have yg: "y * (119 / 100) \<le> y * g" using g' by (intro mult_left_mono) simp_all
    then have "1 \<le> y * g" using y by linarith
    then consider "to_double (y * g) = Infinity False" | z where "to_double (y * g) = Fin z" "y * g * (1 - 1 / 2 ^ 52) \<le> z"
      using to_double_large by blast
    then show ?thesis
    proof cases
      case (2 z)
      have "z < 2 ^ 1024" using 2(1) by (auto simp: to_double_def split: if_splits)
      moreover have "y * (119 / 100) * (1 - 1 / 2 ^ 52) \<le> y * g * (1 - 1 / 2 ^ 52)" using yg by (intro mult_right_mono) simp_all
      then have "y * (119 / 100) * (1 - 1 / 2 ^ 52) \<le> z" using 2(2) by (rule order_trans)
      then have "11 / 10 * y \<le> z" using y by simp
      then have "(11 / 10) ^ Suc k \<le> z" using \<open>(11 / 10) ^ k \<le> y\<close> by simp
      ultimately show ?thesis using \<open>f = Fin y\<close> 2(1) g(1) by (auto simp: grown_def simp del: power_Suc power_numeral)
    qed (use \<open>f = Fin y\<close> g(1) in \<open>simp add: grown_def\<close>)
  qed
qed

lemma grown_infinite:
  assumes "grown k f" and "8192 \<le> k"
  shows "f = Infinity False"
proof -
  have "(2 :: real) ^ 1024 \<le> ((11 / 10) ^ 8) ^ 1024" by (rule power_mono) (simp_all add: power_divide)
  also have "\<dots> = (11 / 10) ^ 8192" by (subst power_mult [symmetric]) simp
  also have "\<dots> \<le> (11 / 10) ^ k" using assms(2) by (intro power_increasing) simp_all
  finally show ?thesis using assms(1) by (auto simp: grown_def)
qed

lemma accepts_large:
  assumes "grown k f" and "8192 \<le> k" and "now \<le> 2 ^ 63"
  shows "accepts f now r info"
proof -
  obtain y where "GetChance now info = Fin y" "0 < y" using moderate_positive [OF GetChance_moderate [OF assms(3)]] by blast
  then show ?thesis using grown_infinite [OF assms(1,2)] by (simp add: accepts_def draw_exact_simps)
qed

lemma select_tried_returns:
  assumes "addrman_ok cap m" and "\<forall>t \<in> set turns. turn_time t \<le> 2 ^ 63" and "grown j f" and "8192 - j < length (filter (hits_tried m) turns)"
  shows "\<exists>info. select_tried f turns m = Some (Some info)"
  using assms(2-4)
proof (induction turns arbitrary: f j)
  case (Cons t turns)
  obtain r1 r2 now r3 where t: "t = (r1, r2, now, r3)" by (cases t) auto
  obtain r where r: "select_tried f (t # turns) m = Some r" using select_tried_sound [OF assms(1)] by blast
  show ?case
  proof (cases "hits_tried m t")
    case False
    then show ?thesis using Cons.IH [of j f] Cons.prems by (simp add: t)
  next
    case True
    define x where "x = vvTried m ! GetRandInt (length (vvTried m)) r1 ! GetRandInt (length (vvTried m ! GetRandInt (length (vvTried m)) r1)) r2"
    obtain info where i: "map_of (mapInfo m) x = Some info" using r True by (cases "map_of (mapInfo m) x") (auto simp: t Let_def x_def)
    have step: "select_tried f (t # turns) m = (if accepts f now r3 info then Some (Some info) else select_tried (d_mult f (to_double (12 / 10))) turns m)"
      using True i by (simp add: t Let_def x_def)
    show ?thesis
    proof (cases "8192 \<le> j")
      case True
      then show ?thesis using step accepts_large [OF Cons.prems(2) True] Cons.prems(1) by (simp add: t)
    next
      case False
      then have "8192 - Suc j < 8192 - j" by simp
      then show ?thesis using Cons.IH [OF _ grown_step [OF Cons.prems(2)]] Cons.prems(1,3) True step by auto
    qed
  qed
qed simp

lemma select_new_returns:
  assumes "addrman_ok cap m" and "\<forall>t \<in> set turns. turn_time t \<le> 2 ^ 63" and "grown j f" and "8192 - j < length (filter (hits_new m) turns)"
  shows "\<exists>info. select_new f turns m = Some (Some info)"
  using assms(2-4)
proof (induction turns arbitrary: f j)
  case (Cons t turns)
  obtain r1 r2 now r3 where t: "t = (r1, r2, now, r3)" by (cases t) auto
  obtain r where r: "select_new f (t # turns) m = Some r" using select_new_sound [OF assms(1)] by blast
  show ?case
  proof (cases "hits_new m t")
    case False
    then show ?thesis using Cons.IH [of j f] Cons.prems by (simp add: t)
  next
    case True
    define v where "v = vvNew m ! GetRandInt (length (vvNew m)) r1"
    define x where "x = sorted_list_of_set v ! GetRandInt (card v) r2"
    have v: "card v \<noteq> 0" using True by (simp add: t v_def)
    have "map_of (mapInfo m) x \<noteq> None" using r v by (auto simp: t Let_def x_def v_def split: option.splits)
    then obtain info where i: "map_of (mapInfo m) x = Some info" by blast
    have step: "select_new f (t # turns) m = (if accepts f now r3 info then Some (Some info) else select_new (d_mult f (to_double (12 / 10))) turns m)"
      using v i by (simp add: t Let_def x_def v_def)
    show ?thesis
    proof (cases "8192 \<le> j")
      case True
      then show ?thesis using step accepts_large [OF Cons.prems(2) True] Cons.prems(1) by (simp add: t)
    next
      case False
      then have "8192 - Suc j < 8192 - j" by simp
      then show ?thesis using Cons.IH [OF _ grown_step [OF Cons.prems(2)]] Cons.prems(1,3) True step by auto
    qed
  qed
qed simp

lemma use_tried_not_empty:
  assumes "use_tried nUnkBias r m" and "0 \<le> nTried m" and "0 \<le> nUnkBias" and "nUnkBias < 100"
  shows "0 < nTried m"
proof (rule ccontr)
  assume "\<not> 0 < nTried m"
  then have "nTried m = 0" using assms(2) by simp
  moreover have "d_of_int nUnkBias = Fin nUnkBias" "to_double (100 - of_int nUnkBias) = Fin (of_int (100 - nUnkBias))"
    using d_of_int_exact [of nUnkBias] d_of_int_exact [of "100 - nUnkBias"] assms(3,4) by simp_all
  moreover have "nonneg (d_mult (d_sqrt (d_of_int (nNew m))) (Fin nUnkBias))" using assms(3) by (simp add: nonneg_mult nonneg_sqrt)
  then have "\<not> d_less (d_div (d_mult (d_add (Fin 0) (d_mult (d_sqrt (d_of_int (nNew m))) (Fin nUnkBias))) (Fin (real (GetRandInt (2 ^ 30) r)))) (Fin (2 ^ 30))) (Fin 0)"
    by (intro nonneg_not_less nonneg_div nonneg_mult [of "d_add _ _"] nonneg_add) simp_all
  ultimately show False using assms(1) by (simp add: use_tried_def Let_def draw_exact_simps)
qed

text \<open>Three roundings do not make up for a draw below \<open>2 ^ 30\<close>.\<close>

lemma share_less:
  assumes "1 / 2 \<le> x" and "x \<le> 2 ^ 20" and "k < (2 :: nat) ^ 30"
  shows "d_less (d_div (d_mult (to_double x) (Fin (real k))) (Fin (2 ^ 30))) (Fin x)"
proof -
  obtain z where z: "to_double x = Fin z" "x * (1 - 1 / 2 ^ 52) \<le> z" "z \<le> x * (1 + 1 / 2 ^ 52)"
    using to_double_middle [of x] assms(1,2) by fastforce
  show ?thesis
  proof (cases "k = 0")
    case False
    have k: "1 \<le> real k" "real k \<le> 2 ^ 30 - 1" using False assms(3) by simp_all
    have z': "1 / 4 \<le> z" "z \<le> 2 ^ 21" using z(2,3) assms(1,2) by (simp_all add: algebra_simps)
    have lo: "1 / 4 * 1 \<le> z * real k" using z' k by (intro mult_mono) simp_all
    have "z * real k \<le> x * (1 + 1 / 2 ^ 52) * (2 ^ 30 - 1)" using z z' k assms(1) by (intro mult_mono) simp_all
    then have hi: "z * real k \<le> x * (2 ^ 30 - 1 / 2)" using assms(1) by (simp add: algebra_simps)
    obtain w where w: "to_double (z * real k) = Fin w" "z * real k * (1 - 1 / 2 ^ 52) \<le> w" "w \<le> z * real k * (1 + 1 / 2 ^ 52)"
      using to_double_middle [of "z * real k"] lo hi assms(2) by fastforce
    have w': "1 / 8 \<le> w" "w \<le> x * (2 ^ 30 - 1 / 4)" using w(2,3) lo hi assms(1) by (simp_all add: algebra_simps)
    obtain v where v: "to_double (w / 2 ^ 30) = Fin v" "v \<le> w / 2 ^ 30 * (1 + 1 / 2 ^ 52)"
      using to_double_middle [of "w / 2 ^ 30"] w' assms(2) by fastforce
    have "v < x" using v(2) w' assms(1) by (simp add: algebra_simps)
    then show ?thesis using z(1) w(1) v(1) by simp
  qed (use z(1) assms(1) in simp)
qed

lemma use_new_not_empty:
  assumes "\<not> use_tried nUnkBias r m" and "0 \<le> nTried m" and "nTried m \<le> 4096" and "0 \<le> nNew m"
    and "0 \<le> nUnkBias" and "nUnkBias < 100" and "0 < nTried m + nNew m"
  shows "0 < nNew m"
proof (rule ccontr)
  assume "\<not> 0 < nNew m"
  then have n: "nNew m = 0" and t: "0 < nTried m" using assms by simp_all
  have exact: "d_of_int (nTried m) = Fin (nTried m)" "d_of_int nUnkBias = Fin nUnkBias" "to_double (100 - of_int nUnkBias) = Fin (of_int (100 - nUnkBias))"
    using d_of_int_exact [of "nTried m"] d_of_int_exact [of nUnkBias] d_of_int_exact [of "100 - nUnkBias"] assms(3,5,6) t by simp_all
  define q where "q = sqrt (real_of_int (nTried m))"
  have "1 \<le> q" "q \<le> 64" using t assms(3) real_sqrt_le_mono [of "nTried m" 4096] by (simp_all add: q_def)
  then obtain s where s: "to_double (sqrt (nTried m)) = Fin s" "9 / 10 \<le> s" "s \<le> 65"
    unfolding q_def [symmetric] using to_double_middle [of q] by fastforce
  define p where "p = s * (100 - real_of_int nUnkBias)"
  have "9 / 10 * 1 \<le> p" "p \<le> 65 * 100" unfolding p_def using s assms(5,6) by (intro mult_mono; simp)+
  then obtain x where x: "to_double p = Fin x" "1 / 2 \<le> x" "x \<le> 2 ^ 20" using to_double_middle [of p] by fastforce
  have "use_tried nUnkBias r m" using share_less [OF x(2,3) draw_less [of r]] t exact s(1) x(1)
    by (simp add: use_tried_def n Let_def draw_exact_simps p_def)
  then show False using assms(1) by simp
qed

section \<open>Sequences of calls\<close>

datatype am_call =
    CallAdd int "nat \<Rightarrow> nat \<Rightarrow> nat" "net_address list" net_addr int
  | CallGood "nat \<Rightarrow> nat" net_service int
  | CallAttempt net_service int
  | CallConnected net_service int
  | CallGetAddr "nat \<Rightarrow> nat"

fun run_call :: "(vch_t \<Rightarrow> uint256) \<Rightarrow> am_call \<Rightarrow> addr_man \<Rightarrow> addr_man option" where
  "run_call Hash (CallAdd now rnd vAddr src pen) m = map_option snd (Add_all Hash now rnd vAddr src pen 0 m)"
| "run_call Hash (CallGood rnd addr time) m = Good Hash rnd addr time m"
| "run_call Hash (CallAttempt addr time) m = Attempt addr time m"
| "run_call Hash (CallConnected addr time) m = Some (Connected addr time m)"
| "run_call Hash (CallGetAddr rnd) m = map_option snd (GetAddr rnd m)"

fun run_calls :: "(vch_t \<Rightarrow> uint256) \<Rightarrow> am_call list \<Rightarrow> addr_man \<Rightarrow> addr_man option" where
  "run_calls Hash [] m = Some m"
| "run_calls Hash (c # cs) m = (case run_call Hash c m of None \<Rightarrow> None | Some m \<Rightarrow> run_calls Hash cs m)"

text \<open>Calls with times of the epoch, and by how much a call may advance the counters.\<close>

fun timely :: "am_call \<Rightarrow> bool" where
  "timely (CallGood rnd addr time) = (0 < time)"
| "timely (CallAttempt addr time) = (0 \<le> time)"
| "timely c = True"

fun cost :: "am_call \<Rightarrow> nat" where
  "cost (CallAdd now rnd vAddr src pen) = length vAddr"
| "cost (CallAttempt addr time) = 1"
| "cost c = 0"

lemma add_all_ok:
  assumes "addrman_ok cap m" and "cap + int (length vAddr) \<le> INT_MAX"
  shows "\<exists>r m'. Add_all Hash now rnd vAddr src pen n m = Some (r, m') \<and> addrman_ok (cap + int (length vAddr)) m'"
  using assms
proof (induction vAddr arbitrary: rnd n m cap)
  case Nil
  then show ?case by simp
next
  case (Cons a vAddr)
  then have "cap < INT_MAX" by simp
  then obtain r m1 where 1: "Add Hash now (rnd 0) a src pen m = Some (r, m1)" "addrman_ok (cap + 1) m1" using add_ok [OF Cons.prems(1)] by blast
  then show ?case using Cons.IH [OF 1(2), of "\<lambda>k. rnd (Suc k)" "if r then n + 1 else n"] Cons.prems(2) by (simp add: add.assoc)
qed

lemma run_call_ok:
  assumes "addrman_ok cap m" and "timely c" and "cap + int (cost c) \<le> INT_MAX"
  shows "\<exists>m'. run_call Hash c m = Some m' \<and> addrman_ok (cap + int (cost c)) m'"
proof (cases c)
  case (CallAdd now rnd vAddr src pen)
  then show ?thesis using add_all_ok [OF assms(1), of vAddr Hash now rnd src pen 0] assms(3) by auto
next
  case (CallGood rnd addr time)
  then show ?thesis using good_ok [OF assms(1), of time Hash rnd addr] assms(2) by auto
next
  case (CallAttempt addr time)
  then show ?thesis using attempt_ok [OF assms(1), of time addr] assms(2,3) by simp
next
  case (CallConnected addr time)
  then show ?thesis using connected_ok [OF assms(1)] by simp
next
  case (CallGetAddr rnd)
  then show ?thesis using get_addr_ok [OF assms(1), of rnd] by auto
qed

lemma run_calls_ok:
  assumes "addrman_ok cap m" and "\<forall>c \<in> set cs. timely c" and "cap + int (sum_list (map cost cs)) \<le> INT_MAX"
  shows "\<exists>m'. run_calls Hash cs m = Some m' \<and> addrman_ok (cap + int (sum_list (map cost cs))) m'"
  using assms
proof (induction cs arbitrary: m cap)
  case Nil
  then show ?case by simp
next
  case (Cons c cs)
  then obtain m1 where "run_call Hash c m = Some m1" "addrman_ok (cap + int (cost c)) m1"
    using run_call_ok [OF Cons.prems(1), of c Hash] by auto
  then show ?case using Cons.IH [of "cap + int (cost c)" m1] Cons.prems(2,3) by (simp add: add.assoc)
qed

lemma length_concat_le: "\<forall>v \<in> set T. length v \<le> k \<Longrightarrow> length (concat T) \<le> length T * k"
  by (induction T) auto

lemma table_sizes:
  assumes "addrman_ok cap m"
  shows "nTried m \<le> 4096" and "nNew m \<le> 16384" and "int (length (vRandom m)) = nTried m + nNew m"
proof -
  let ?I = "map_of (mapInfo m)"
  have ok: "shape_ok (vvTried m) (vvNew m)" "tried_ok ?I (vvTried m)" "new_ok (\<lambda>_. 0) ?I (vvNew m)" "counts_ok ?I (nTried m) (nNew m)"
    using assms by (auto simp: am_ok_def)
  have "card (tried_of ?I) = length (concat (vvTried m))"
    using ok(2) distinct_card [of "concat (vvTried m)"] by (simp add: tried_ok_def)
  also have "\<dots> \<le> 64 * 64" using ok(1) length_concat_le [of "vvTried m" 64] by (simp add: shape_ok_def)
  finally show "nTried m \<le> 4096" using ok(4) by (simp add: counts_ok_def)
  have fin: "\<forall>v \<in> set (vvNew m). finite v \<and> card v \<le> 64" using ok(1) by (simp add: shape_ok_def)
  have "new_of ?I \<subseteq> set (concat (map sorted_list_of_set (vvNew m)))"
  proof
    fix n assume "n \<in> new_of ?I"
    then obtain i where i: "?I n = Some i" "\<not> fInTried i" by (auto simp: new_of_def)
    then have "entry_ok (refs n (vvNew m) + 0) i" using ok(3) unfolding new_ok_def by blast
    then have "refs n (vvNew m) \<noteq> 0" using i(2) by (simp add: entry_ok_def)
    then show "n \<in> set (concat (map sorted_list_of_set (vvNew m)))" using fin by (auto simp: refs_0)
  qed
  then have "card (new_of ?I) \<le> card (set (concat (map sorted_list_of_set (vvNew m))))" by (rule card_mono [rotated]) simp
  also have "\<dots> \<le> length (concat (map sorted_list_of_set (vvNew m)))" by (rule card_length)
  also have "\<dots> \<le> 256 * 64" using ok(1) fin length_concat_le [of "map sorted_list_of_set (vvNew m)" 64] by (simp add: shape_ok_def)
  finally show "nNew m \<le> 16384" using ok(4) by (simp add: counts_ok_def)
  show "int (length (vRandom m)) = nTried m + nNew m"
  proof (rule ccontr)
    assume "int (length (vRandom m)) \<noteq> nTried m + nNew m"
    then have "fst (Check m) = - 7" by (simp add: Check_def)
    then show False using check_finds_nothing [OF assms] by simp
  qed
qed

section \<open>Properties\<close>

text \<open>
  C14. The address manager stays consistent.  From an empty manager, any sequence of calls with times after the epoch, and with
  fewer than two billion added addresses and attempts, runs without a failed assertion, an access out of range or a signed
  overflow.  After it the consistency check reports no error and changes nothing, and the number of addresses is bounded
  by the sizes of the tables.
\<close>

theorem addrman_consistent:
  assumes "\<forall>c \<in> set cs. timely c" and "sum_list (map cost cs) < 2 ^ 31"
  shows "\<exists>m. run_calls Hash cs (CAddrMan_new key) = Some m \<and> Check m = (0, m)
    \<and> nTried m \<le> 4096 \<and> nNew m \<le> 16384 \<and> int (length (vRandom m)) = nTried m + nNew m"
proof -
  have "0 + int (sum_list (map cost cs)) \<le> INT_MAX" using assms(2) by (simp add: INT_MAX_def)
  then obtain m where "run_calls Hash cs (CAddrMan_new key) = Some m" "addrman_ok (0 + int (sum_list (map cost cs))) m"
    using run_calls_ok [OF new_manager_ok assms(1)] by blast
  then show ?thesis using check_finds_nothing table_sizes by blast
qed

definition example_address :: net_address where
  "example_address = (CAddress_new \<lparr>ip = CNetAddr_of_in_addr [8, 8, 8, 8], port = 80\<rparr>)\<lparr>nTime := 1000\<rparr>"

theorem addrman_consistent_witness:
  "\<exists>m. run_calls (\<lambda>_. 0) [CallAdd 1500 (\<lambda>_ _. 0) [example_address] CNetAddr_new 0, CallGood (\<lambda>_. 0) (service example_address) 1600,
      CallAttempt (service example_address) 1700] (CAddrMan_new []) = Some m \<and> Check m = (0, m)"
  using addrman_consistent [of "[CallAdd 1500 (\<lambda>_ _. 0) [example_address] CNetAddr_new 0, CallGood (\<lambda>_. 0) (service example_address) 1600,
      CallAttempt (service example_address) 1700]" "\<lambda>_. 0" "[]"] by auto

lemma find_entry:
  assumes "addrman_ok cap m" and "map_of (mapInfo m) nId = Some j"
  shows "Find (ip (service j)) m = Some (nId, j)"
proof -
  have "mapAddr m (ip (service j)) = Some nId" using assms unfolding am_ok_def addrs_ok_def by blast
  then show ?thesis using assms(2) by (simp add: Find_def)
qed

text \<open>
  After a routable address is added the manager finds an entry for it; the call reports whether the address was unknown, and
  then the entry has the service of the added address.
\<close>

theorem added_address_found:
  assumes "addrman_ok cap m" and "cap < INT_MAX" and "IsRoutable (ip (service addr))"
  shows "\<exists>m' nId j. Add Hash now rnd addr src pen m = Some (Find (ip (service addr)) m = None, m') \<and> addrman_ok (cap + 1) m'
    \<and> Find (ip (service addr)) m' = Some (nId, j) \<and> (Find (ip (service addr)) m = None \<longrightarrow> service j = service addr)"
proof (cases "Find (ip (service addr)) m")
  case None
  then obtain m' nId j where *: "Add Hash now rnd addr src pen m = Some (True, m')" "addrman_ok (cap + 1) m'"
      "map_of (mapInfo m') nId = Some j" "service j = service addr"
    using add_unknown_ok [OF assms(1,2) None] assms(3) by metis
  then have "Find (ip (service addr)) m' = Some (nId, j)" using find_entry [OF *(2,3)] by simp
  then show ?thesis using * None by auto
next
  case (Some p)
  obtain nId i where p: "Find (ip (service addr)) m = Some (nId, i)" using Some by (cases p) auto
  then obtain m' j where *: "Add Hash now rnd addr src pen m = Some (False, m')" "addrman_ok cap m'" "map_of (mapInfo m') nId = Some j" "service j = service i"
    using add_known_ok [OF assms(1) p] by metis
  have "ip (service i) = ip (service addr)" using find_cases(2) [OF assms(1)] p by simp
  then have "Find (ip (service addr)) m' = Some (nId, j)" using find_entry [OF *(2,3)] *(4) by simp
  then show ?thesis using * p am_ok_mono [OF *(2), of "cap + 1"] assms(2) by auto
qed

theorem added_address_found_witness:
  "\<exists>m' nId j. Add (\<lambda>_. 0) 1500 (\<lambda>_. 0) example_address CNetAddr_new 0 (CAddrMan_new []) = Some (True, m')
    \<and> Find (ip (service example_address)) m' = Some (nId, j) \<and> service j = service example_address"
proof -
  have "IsRoutable (ip (service example_address))" by code_simp
  moreover have "Find (ip (service example_address)) (CAddrMan_new []) = None" by (simp add: Find_def CAddrMan_new_def)
  ultimately show ?thesis
    using added_address_found [OF new_manager_ok, of example_address "\<lambda>_. 0" 1500 "\<lambda>_. 0" CNetAddr_new 0 "[]"] by (auto simp: INT_MAX_def)
qed

text \<open>
  A good connection to a known service moves its entry to the tried addresses: it is in exactly one tried bucket position and
  in no bucket of new addresses, whichever bucket had to make room for it.
\<close>

theorem good_address_tried:
  assumes "addrman_ok cap m" and "0 < time" and "Find (ip addr) m = Some (nId, i)" and "CService_equal (service i) addr"
  shows "\<exists>m' j. Good Hash rnd addr time m = Some m' \<and> addrman_ok cap m' \<and> Find (ip addr) m' = Some (nId, j) \<and> fInTried j
    \<and> count_list (concat (vvTried m')) nId = 1 \<and> (\<forall>v \<in> set (vvNew m'). nId \<notin> v)"
proof -
  obtain m' j where *: "Good Hash rnd addr time m = Some m'" "addrman_ok cap m'" "map_of (mapInfo m') nId = Some j" "fInTried j" "service j = service i"
    using good_ok [OF assms(1,2), of Hash rnd addr] assms(3,4) by blast
  have "ip (service i) = ip addr" using find_cases(2) [OF assms(1)] assms(3) by simp
  then have f: "Find (ip addr) m' = Some (nId, j)" using find_entry [OF *(2,3)] *(5) by simp
  have ok: "tried_ok (map_of (mapInfo m')) (vvTried m')" "new_ok (\<lambda>_. 0) (map_of (mapInfo m')) (vvNew m')" using *(2) by (simp_all add: am_ok_def)
  have "nId \<in> set (concat (vvTried m'))" using ok(1) *(3,4) by (auto simp: tried_ok_def tried_of_def)
  then have "count_list (concat (vvTried m')) nId = 1"
    using ok(1) *(3,4) count_list_distinct [of "concat (vvTried m')" nId] by (auto simp: tried_ok_def tried_of_def)
  moreover have "nId \<notin> new_of (map_of (mapInfo m'))" using *(3,4) by (simp add: new_of_def)
  then have "\<forall>v \<in> set (vvNew m'). nId \<notin> v" using ok(2) unfolding new_ok_def by blast
  ultimately show ?thesis using * f by blast
qed


lemma example_added:
  "\<exists>m nId j. Add (\<lambda>_. 0) 1500 (\<lambda>_. 0) example_address CNetAddr_new 0 (CAddrMan_new []) = Some (True, m) \<and> addrman_ok 1 m
    \<and> map_of (mapInfo m) nId = Some j \<and> service j = service example_address"
proof -
  have "IsRoutable (ip (service example_address))" by code_simp
  moreover have "Find (ip (service example_address)) (CAddrMan_new []) = None" by (simp add: Find_def CAddrMan_new_def)
  ultimately show ?thesis
    using add_unknown_ok [OF new_manager_ok, of example_address "[]" "\<lambda>_. 0" 1500 "\<lambda>_. 0" CNetAddr_new 0] by (auto simp: INT_MAX_def)
qed

theorem good_address_tried_witness:
  "\<exists>m nId m' j. Add (\<lambda>_. 0) 1500 (\<lambda>_. 0) example_address CNetAddr_new 0 (CAddrMan_new []) = Some (True, m)
    \<and> Good (\<lambda>_. 0) (\<lambda>_. 0) (service example_address) 1600 m = Some m' \<and> Find (ip (service example_address)) m' = Some (nId, j) \<and> fInTried j"
proof -
  obtain m nId i where m: "Add (\<lambda>_. 0) 1500 (\<lambda>_. 0) example_address CNetAddr_new 0 (CAddrMan_new []) = Some (True, m)" "addrman_ok 1 m"
      "map_of (mapInfo m) nId = Some i" "service i = service example_address"
    using example_added by blast
  then have "Find (ip (service example_address)) m = Some (nId, i)" using find_entry [OF m(2,3)] by simp
  moreover have "CService_equal (service i) (service example_address)" unfolding m(4) by code_simp
  ultimately show ?thesis using good_address_tried [OF m(2), of 1600 "service example_address" nId i "\<lambda>_. 0" "\<lambda>_. 0"] m(1) by auto
qed

text \<open>
  \<^verbatim>\<open>GetAddr_\<close> gives 23 percent of the known addresses, at most 2500 of them, all of them known and no two with the same network
  address, and changes nothing but the random order.
\<close>

theorem get_addr_selection:
  assumes "addrman_ok cap m"
  shows "\<exists>vAddr m'. GetAddr rnd m = Some (vAddr, m') \<and> addrman_ok cap m' \<and> same_entries (map_of (mapInfo m)) (map_of (mapInfo m'))
    \<and> length vAddr = min 2500 (23 * length (vRandom m) div 100) \<and> distinct (map (ip \<circ> service) vAddr)
    \<and> (\<forall>a \<in> set vAddr. \<exists>nId info. Find (ip (service a)) m = Some (nId, info) \<and> a = net_address.truncate info)"
proof -
  obtain vAddr m' where *: "GetAddr rnd m = Some (vAddr, m')" "addrman_ok cap m'" "same_entries (map_of (mapInfo m)) (map_of (mapInfo m'))"
      "length vAddr = min 2500 (23 * length (vRandom m) div 100)" "distinct (map (ip \<circ> service) vAddr)"
      "\<forall>a \<in> set vAddr. \<exists>nId info. map_of (mapInfo m) nId = Some info \<and> a = net_address.truncate info"
    using get_addr_ok [OF assms, of rnd] by blast
  have "\<exists>nId info. Find (ip (service a)) m = Some (nId, info) \<and> a = net_address.truncate info" if "a \<in> set vAddr" for a
    using *(6) that find_entry [OF assms] by (metis truncate_service)
  then show ?thesis using * by blast
qed

theorem get_addr_selection_witness:
  "\<exists>m vAddr m'. Add (\<lambda>_. 0) 1500 (\<lambda>_. 0) example_address CNetAddr_new 0 (CAddrMan_new []) = Some (True, m)
    \<and> GetAddr (\<lambda>_. 0) m = Some (vAddr, m') \<and> length vAddr = min 2500 (23 * length (vRandom m) div 100)"
proof -
  obtain m where m: "Add (\<lambda>_. 0) 1500 (\<lambda>_. 0) example_address CNetAddr_new 0 (CAddrMan_new []) = Some (True, m)" "addrman_ok 1 m"
    using example_added by blast
  then show ?thesis using get_addr_selection [OF m(2), of "\<lambda>_. 0"] by blast
qed

lemma hit_exists:
  assumes "addrman_ok cap m" and "0 \<le> nUnkBias" and "nUnkBias < 100" and "vRandom m \<noteq> []"
  shows "\<exists>r1. (if use_tried nUnkBias r m then hits_tried m else hits_new m) (r1, r2, now, r3)"
proof -
  let ?I = "map_of (mapInfo m)"
  have c: "nTried m = int (card (tried_of ?I))" "nNew m = int (card (new_of ?I))" using assms(1) by (auto simp: am_ok_def counts_ok_def)
  have some: "0 < nTried m + nNew m" using table_sizes(3) [OF assms(1)] assms(4) by (cases "vRandom m") auto
  show ?thesis
  proof (cases "use_tried nUnkBias r m")
    case True
    then have "tried_of ?I \<noteq> {}" using use_tried_not_empty [OF True _ assms(2,3)] c by auto
    then have "set (concat (vvTried m)) \<noteq> {}" using assms(1) by (simp add: am_ok_def tried_ok_def)
    then obtain k where "k < length (vvTried m)" "vvTried m ! k \<noteq> []" by (auto simp: in_set_conv_nth)
    then show ?thesis using True by (intro exI [of _ k]) (simp add: GetRandInt_id)
  next
    case False
    then have "new_of ?I \<noteq> {}" using use_new_not_empty [OF False _ table_sizes(1) [OF assms(1)] _ assms(2,3) some] c by auto
    then obtain nId info where i: "?I nId = Some info" "\<not> fInTried info" by (auto simp: new_of_def)
    have "new_ok (\<lambda>_. 0) ?I (vvNew m)" and shape: "shape_ok (vvTried m) (vvNew m)" using assms(1) by (auto simp: am_ok_def)
    then have "entry_ok (refs nId (vvNew m) + 0) info" using i(1) unfolding new_ok_def by blast
    then have "refs nId (vvNew m) \<noteq> 0" using i(2) by (simp add: entry_ok_def)
    then obtain k where k: "k < length (vvNew m)" "nId \<in> vvNew m ! k" by (auto simp: refs_0 in_set_conv_nth)
    then have "card (vvNew m ! k) \<noteq> 0" using shape by (auto simp: shape_ok_def)
    then show ?thesis using False k(1) by (intro exI [of _ k]) (simp add: GetRandInt_id)
  qed
qed

text \<open>
  C34. A selection with a bias from 0 to 99 ends.  The loop it enters is over a table with entries, so that some draw of a bucket hits
  one, unless the manager is empty; and after 8193 such hits, at times of 64 bits, the selection has
  returned the address of an entry, or the null address if there is none.  The factor and the chance are rounded as \<^verbatim>\<open>double\<close> is:
  the chance of an entry never becomes zero, however often it failed, and the factor becomes infinite.
\<close>

theorem select_returns:
  assumes "addrman_ok cap m" and "0 \<le> nUnkBias" and "nUnkBias < 100"
  shows "(vRandom m = [] \<or> (\<exists>r1. (if use_tried nUnkBias r m then hits_tried m else hits_new m) (r1, r2, now, r3)))
    \<and> (\<forall>turns. (\<forall>t \<in> set turns. turn_time t < 2 ^ 63)
      \<and> 8192 < length (filter (if use_tried nUnkBias r m then hits_tried m else hits_new m) turns) \<longrightarrow>
    (\<exists>a. Select nUnkBias r turns m = Some (Some a)
       \<and> (if vRandom m = [] then a = CAddress_new \<lparr>ip = CNetAddr_new, port = 0\<rparr>
          else \<exists>nId info. Find (ip (service a)) m = Some (nId, info) \<and> a = net_address.truncate info)))"
proof -
  have "\<exists>a. Select nUnkBias r turns m = Some (Some a) \<and> (if vRandom m = [] then a = CAddress_new \<lparr>ip = CNetAddr_new, port = 0\<rparr>
      else \<exists>nId info. Find (ip (service a)) m = Some (nId, info) \<and> a = net_address.truncate info)"
    if turns: "\<forall>t \<in> set turns. turn_time t < 2 ^ 63" "8192 < length (filter (if use_tried nUnkBias r m then hits_tried m else hits_new m) turns)" for turns
  proof -
    define s where "s = (if use_tried nUnkBias r m then select_tried (Fin 1) turns m else select_new (Fin 1) turns m)"
    have all: "\<forall>t \<in> set turns. turn_time t \<le> 2 ^ 63" using turns(1) by auto
    obtain info where info: "s = Some (Some info)"
      using select_tried_returns [OF assms(1) all grown_1] select_new_returns [OF assms(1) all grown_1] turns(2)
      by (cases "use_tried nUnkBias r m") (auto simp: s_def)
    obtain nId where "map_of (mapInfo m) nId = Some info"
      using info select_tried_sound [OF assms(1), of "Fin 1" turns] select_new_sound [OF assms(1), of "Fin 1" turns] by (auto simp: s_def split: if_splits)
    then have "Find (ip (service info)) m = Some (nId, info)" by (rule find_entry [OF assms(1)])
    then show ?thesis using info by (auto simp: Select_def s_def [symmetric] truncate_service)
  qed
  then show ?thesis using hit_exists [OF assms] by blast
qed

theorem select_returns_witness:
  "\<exists>m turns a. Add (\<lambda>_. 0) 1500 (\<lambda>_. 0) example_address CNetAddr_new 0 (CAddrMan_new []) = Some (True, m)
    \<and> Select 50 0 turns m = Some (Some a) \<and> vRandom m \<noteq> []"
proof -
  obtain m nId j where m: "Add (\<lambda>_. 0) 1500 (\<lambda>_. 0) example_address CNetAddr_new 0 (CAddrMan_new []) = Some (True, m)" "addrman_ok 1 m"
      "map_of (mapInfo m) nId = Some j"
    using example_added by blast
  have R: "vRandom m \<noteq> []" using m(2,3) by (auto simp: am_ok_def random_ok_def)
  define h where "h = (if use_tried 50 0 m then hits_tried m else hits_new m)"
  note returns = select_returns [OF m(2), of 50 0 0 2000 0, folded h_def, simplified]
  obtain r1 where r1: "h (r1, 0, 2000, 0)" using returns R by blast
  have "\<exists>a. Select 50 0 (replicate n (r1, 0, 2000, 0)) m = Some (Some a)" if "8192 < n" for n
    using conjunct2 [OF returns, THEN spec, of "replicate n (r1, 0, 2000, 0)"] r1 that by (auto simp: filter_replicate)
  then show ?thesis using m(1) R by blast
qed


section \<open>Two observations\<close>

text \<open>
  \<^verbatim>\<open>SelectTried\<close> remembers the position from which the oldest entry was taken, not the one to which it was moved, so that the
  position it returns may hold an entry more recent than the oldest one that was inspected.
\<close>

lemma select_tried_returns_newer:
  "select_tried_loop (\<lambda>i. if i = 0 then 1 else 0) [0, 1] [10, 20] (- 1) (- 1)
     [(10, CAddrInfo_default\<lparr>nLastSuccess := 900\<rparr>), (20, CAddrInfo_default\<lparr>nLastSuccess := 100\<rparr>)] =
   Some (1, [20, 10], [(10, CAddrInfo_default\<lparr>nLastSuccess := 900\<rparr>), (20, CAddrInfo_default\<lparr>nLastSuccess := 100\<rparr>)])"
  by (simp add: GetRandInt_def Let_def std_count_def std_get_def)

text \<open>With a bias of 100 and tried addresses only, no number of turns is enough.\<close>

lemma select_bias_100_stuck:
  assumes "addrman_ok cap m" and "nNew m = 0" and "vRandom m \<noteq> []"
  shows "Select 100 r turns m = Some None"
proof -
  have "card (new_of (map_of (mapInfo m))) = 0" using assms(1,2) by (simp add: am_ok_def counts_ok_def)
  then have "new_of (map_of (mapInfo m)) = {}" using finite_entries(2) by simp
  then have "\<forall>v \<in> set (vvNew m). v = {}" using assms(1) unfolding am_ok_def new_ok_def by auto
  moreover have "length (vvNew m) = 256" using assms(1) by (auto simp: am_ok_def shape_ok_def)
  ultimately have "vvNew m ! GetRandInt (length (vvNew m)) q = {}" for q using GetRandInt_less [of 256 q] by simp
  then have "select_new f turns m = Some None" for f by (induction turns arbitrary: f) auto
  moreover have "d_of_int 100 = Fin 100" using d_of_int_exact [of 100] by simp
  then have "\<not> use_tried 100 r m" using assms(2) by (cases "d_sqrt (d_of_int (nTried m))") (simp_all add: use_tried_def draw_exact_simps)
  ultimately show ?thesis using assms(3) by (simp add: Select_def)
qed

end
