(* ===== verification/Calendar.thy ===== *)
theory Calendar
  imports Complex_Main Credits BitChain ShortHash "HOL-Library.Monad_Syntax"
begin

text \<open>
  The calendar of \<^verbatim>\<open>src/teleportnode/calendar.cpp\<close>: the difficulties of diurns, the diurns themselves, the calends that close
  them, and the calendar that strings them together, with its top-up work and its checks.

  Mined credits and their messages are classes of the node that are not part of the sources; the records here have the fields that
  the calendar reads, of the types the node gives them.  \<^verbatim>\<open>creditdata\<close>, the proofs of work and the hash of a mined credit are the environment
  \<open>cal_env\<close>, where a property that is not stored reads as the default object; \<open>node_spent_chain h\<close> is the spent chain of the node when
  the credit \<open>h\<close> is handled, and \<open>record_relay_state\<close> is the call \<^verbatim>\<open>RecordRelayState(GetRelayState(h), h)\<close> on the relay data, for which
  the theory \<^verbatim>\<open>CalendarRelays\<close> has the functions of \<^verbatim>\<open>relaystate.cpp\<close>; \<open>Inl\<close> is an exception there.  What the calendar writes to \<^verbatim>\<open>calendardata\<close> is
  part of its state.  A \<^verbatim>\<open>uint160\<close> is a machine word, by the refinement of the theory \<^verbatim>\<open>Uint\<close>.  \<open>None\<close> is an exception, an
  access out of range or a loop that does not end; logging is left out.
\<close>

section \<open>Difficulties\<close>

definition INITIAL_DIURNAL_DIFFICULTY :: uint160 where
  "INITIAL_DIURNAL_DIFFICULTY = 500000000"

definition DIURN_DURATION :: u64 where
  "DIURN_DURATION = 24 * 60 * 60 * 1000000"

definition easier :: "uint160 \<Rightarrow> uint160" where
  "easier difficulty = difficulty * 999 div 1000"

definition harder :: "uint160 \<Rightarrow> uint160" where
  "harder difficulty = difficulty * 1000 div 999"

definition GetDifficulty :: "int \<Rightarrow> uint160" where
  "GetDifficulty cumulative_adjustments =
     (if 0 < cumulative_adjustments then (easier ^^ nat cumulative_adjustments) INITIAL_DIURNAL_DIFFICULTY
      else (harder ^^ nat (- cumulative_adjustments)) INITIAL_DIURNAL_DIFFICULTY)"

text \<open>
  The counter is unsigned and returned as a signed number of the same width, so that counting down from zero gives the
  negative numbers.
\<close>

partial_function (option) infer_harder :: "uint160 \<Rightarrow> uint160 \<Rightarrow> int \<Rightarrow> int option" where
  "infer_harder difficulty diff num_adjustments =
     (if difficulty > diff then infer_harder difficulty (harder diff) (num_adjustments - 1) else Some num_adjustments)"

partial_function (option) infer_easier :: "uint160 \<Rightarrow> uint160 \<Rightarrow> int \<Rightarrow> int option" where
  "infer_easier difficulty diff num_adjustments =
     (if difficulty < diff then infer_easier difficulty (easier diff) (num_adjustments + 1) else Some num_adjustments)"

definition InferNumAdjustmentsFromDifficulty :: "uint160 \<Rightarrow> int option" where
  "InferNumAdjustmentsFromDifficulty difficulty =
     (if difficulty = INITIAL_DIURNAL_DIFFICULTY then Some 0
      else if difficulty > INITIAL_DIURNAL_DIFFICULTY then infer_harder difficulty INITIAL_DIURNAL_DIFFICULTY 0
      else infer_easier difficulty INITIAL_DIURNAL_DIFFICULTY 0)"

definition ApplyAdjustments :: "uint160 \<Rightarrow> int \<Rightarrow> uint160 option" where
  "ApplyAdjustments diurnal_difficulty num =
     do { previous_adjustments \<leftarrow> InferNumAdjustmentsFromDifficulty diurnal_difficulty;
          Some (GetDifficulty (previous_adjustments + num)) }"

section \<open>Mined credits and the environment\<close>

record mined_credit =
  previous_mined_credit_hash :: uint160
  previous_diurn_root :: uint160
  diurnal_block_root :: uint160
  diurnal_difficulty :: uint160
  difficulty :: uint160
  total_work :: uint160
  batch_number :: u32
  mc_timestamp :: u64
  mc_credit :: "vch_t credit"
  mc_offset :: u64
  mc_batch_root :: uint160
  mc_spent_chain_hash :: uint160
  mc_relay_state_hash :: uint160
  mc_other_fields :: vch_t

record 'w credit_message =
  the_mined_credit :: mined_credit
  work_proof :: 'w
  msg_hash_list :: short_hash_list
  msg_other_fields :: vch_t

record ('w, 'r) cal_env =
  hash_fun :: "vch_t \<Rightarrow> uint160"
  GetHash160 :: "mined_credit \<Rightarrow> uint160"
  DifficultyAchieved :: "'w \<Rightarrow> uint160"
  WorkDone :: "'w \<Rightarrow> uint160"
  SpotCheck_Valid :: "'w \<Rightarrow> bool"
  creditdata_msg :: "uint160 \<Rightarrow> 'w credit_message"
  has_msg :: "uint160 \<Rightarrow> bool"
  creditdata_mined_credit :: "uint160 \<Rightarrow> mined_credit"
  has_mined_credit :: "uint160 \<Rightarrow> bool"
  node_spent_chain :: "uint160 \<Rightarrow> bit_chain"
  record_relay_state :: "uint160 \<Rightarrow> 'r \<Rightarrow> (unit + 'r) option"

abbreviation combine_roots :: "('w, 'r) cal_env \<Rightarrow> uint160 \<Rightarrow> uint160 \<Rightarrow> uint160" where
  "combine_roots env \<equiv> SymmetricCombine (hash_fun env)"

text \<open>The numbers of batches are subtracted as unsigned 32-bit numbers before they become signed.\<close>

definition GetNextDiurnInitialDifficulty :: "mined_credit \<Rightarrow> mined_credit \<Rightarrow> uint160 option" where
  "GetNextDiurnInitialDifficulty last_calend_credit calend_credit =
     (let num_block_adjustments = uint (batch_number calend_credit - batch_number last_calend_credit - 1);
          diurn_final_difficulty = diurnal_difficulty calend_credit;
          previous_diurn_duration = mc_timestamp calend_credit - mc_timestamp last_calend_credit;
          diurn_adjustments = (if previous_diurn_duration > DIURN_DURATION then 60 else - 60)
      in ApplyAdjustments diurn_final_difficulty (diurn_adjustments - num_block_adjustments))"

section \<open>Diurns\<close>

record 'w diurn =
  dn_previous_diurn_root :: uint160
  dn_block :: diurnal_block
  credits_in_diurn :: "'w credit_message list"
  initial_difficulty :: uint160
  current_difficulty :: uint160

definition Diurn_default :: "'w diurn" where
  "Diurn_default =
     \<lparr>dn_previous_diurn_root = 0, dn_block = DiurnalBlock_new, credits_in_diurn = [],
      initial_difficulty = INITIAL_DIURNAL_DIFFICULTY, current_difficulty = INITIAL_DIURNAL_DIFFICULTY\<rparr>"

text \<open>The constructor from a root leaves the difficulties to the default constructor of \<^verbatim>\<open>uint160\<close>, which is zero.\<close>

definition Diurn_new :: "uint160 \<Rightarrow> 'w diurn" where
  "Diurn_new diurn_root =
     \<lparr>dn_previous_diurn_root = diurn_root, dn_block = DiurnalBlock_new, credits_in_diurn = [], initial_difficulty = 0, current_difficulty = 0\<rparr>"

definition Diurn_assign :: "'w diurn \<Rightarrow> 'w diurn \<Rightarrow> 'w diurn option" where
  "Diurn_assign d other =
     do { block \<leftarrow> Diurnal_setvch (Diurnal_getvch (dn_block other)) (dn_block d);
          Some (d\<lparr>dn_previous_diurn_root := dn_previous_diurn_root other, initial_difficulty := initial_difficulty other,
                  current_difficulty := current_difficulty other, dn_block := block, credits_in_diurn := credits_in_diurn other\<rparr>) }"

definition Diurn_copy :: "'w diurn \<Rightarrow> 'w diurn option" where
  "Diurn_copy other = Diurn_assign (Diurn_new 0) other"

definition SetInitialDifficulty :: "uint160 \<Rightarrow> 'w diurn \<Rightarrow> 'w diurn" where
  "SetInitialDifficulty diff d = d\<lparr>initial_difficulty := diff, current_difficulty := diff\<rparr>"

definition Diurn_Hashes :: "'w diurn \<Rightarrow> uint160 list" where
  "Diurn_Hashes d = Diurnal_Hashes (dn_block d)"

definition Diurn_Size :: "'w diurn \<Rightarrow> nat" where
  "Diurn_Size d = Diurnal_Size (dn_block d)"

definition Diurn_Add :: "('w, 'r) cal_env \<Rightarrow> uint160 \<Rightarrow> 'w diurn \<Rightarrow> 'w diurn option" where
  "Diurn_Add env credit_hash d =
     do { diff \<leftarrow> ApplyAdjustments (current_difficulty d) 1;
          Some (d\<lparr>dn_block := Diurnal_Add credit_hash (dn_block d),
                  credits_in_diurn := credits_in_diurn d @ [creditdata_msg env credit_hash], current_difficulty := diff\<rparr>) }"

definition Diurn_RemoveLast :: "'w diurn \<Rightarrow> 'w diurn option" where
  "Diurn_RemoveLast d =
     do { block \<leftarrow> Diurnal_RemoveLast (dn_block d);
          msgs \<leftarrow> (if credits_in_diurn d = [] then None else Some (butlast (credits_in_diurn d)));
          diff \<leftarrow> ApplyAdjustments (current_difficulty d) (- 1);
          Some (d\<lparr>dn_block := block, credits_in_diurn := msgs, current_difficulty := diff\<rparr>) }"

definition Diurn_Last :: "'w diurn \<Rightarrow> uint160 option" where
  "Diurn_Last d = (if Diurnal_Size (dn_block d) = 0 then Some 0 else Diurnal_Last (dn_block d))"

definition Diurn_First :: "'w diurn \<Rightarrow> uint160 option" where
  "Diurn_First d = (if Diurnal_Size (dn_block d) = 0 then Some 0 else Diurnal_First (dn_block d))"

definition Diurn_Contains :: "uint160 \<Rightarrow> 'w diurn \<Rightarrow> bool" where
  "Diurn_Contains h d = Diurnal_Contains h (dn_block d)"

definition BlockRoot :: "('w, 'r) cal_env \<Rightarrow> 'w diurn \<Rightarrow> uint160 option" where
  "BlockRoot env d =
     do { block \<leftarrow> Diurnal_setvch (Diurnal_getvch (dn_block d)) DiurnalBlock_new;
          (root, block) \<leftarrow> Diurnal_Root (hash_fun env) block;
          Some root }"

definition Diurn_Root :: "('w, 'r) cal_env \<Rightarrow> 'w diurn \<Rightarrow> uint160 option" where
  "Diurn_Root env d = do { root \<leftarrow> BlockRoot env d; Some (combine_roots env (dn_previous_diurn_root d) root) }"

definition Diurn_Work :: "('w, 'r) cal_env \<Rightarrow> 'w diurn \<Rightarrow> uint160" where
  "Diurn_Work env d =
     fold (\<lambda>(msg, h) work. if GetHash160 env (the_mined_credit msg) = h then work + difficulty (the_mined_credit msg) else work)
       (zip (credits_in_diurn d) (Diurn_Hashes d)) 0"

definition Diurn_Branch :: "('w, 'r) cal_env \<Rightarrow> uint160 \<Rightarrow> 'w diurn \<Rightarrow> (uint160 list \<times> 'w diurn) option" where
  "Diurn_Branch env credit_hash d =
     do { (branch, block) \<leftarrow> Diurnal_Branch (hash_fun env) credit_hash (dn_block d);
          let d = d\<lparr>dn_block := block\<rparr>;
          root \<leftarrow> Diurn_Root env d;
          Some (branch @ [dn_previous_diurn_root d] @ [root], d) }"


section \<open>Calends\<close>

text \<open>A calend is the message of the mined credit that closes a diurn; its constructor copies the fields of the message.\<close>

type_synonym 'w calend = "'w credit_message"

definition Calend_new :: "'w credit_message \<Rightarrow> 'w calend" where
  "Calend_new msg = msg"

definition MinedCreditHash :: "('w, 'r) cal_env \<Rightarrow> 'w calend \<Rightarrow> uint160" where
  "MinedCreditHash env c = GetHash160 env (the_mined_credit c)"

definition TotalCreditWork :: "'w calend \<Rightarrow> uint160" where
  "TotalCreditWork c = total_work (the_mined_credit c) + difficulty (the_mined_credit c)"

definition Calend_Root :: "('w, 'r) cal_env \<Rightarrow> 'w calend \<Rightarrow> uint160" where
  "Calend_Root env c = combine_roots env (previous_diurn_root (the_mined_credit c)) (diurnal_block_root (the_mined_credit c))"

definition Calend_differs :: "('w, 'r) cal_env \<Rightarrow> 'w calend \<Rightarrow> 'w calend \<Rightarrow> bool" where
  "Calend_differs env c other = (GetHash160 env (the_mined_credit c) \<noteq> GetHash160 env (the_mined_credit other))"

section \<open>The calendar\<close>

type_synonym 'w credit_and_proof = "mined_credit \<times> 'w"

text \<open>The details of a failed check, without the check itself, which is an object of the missing class \<^verbatim>\<open>TwistWorkCheck\<close>.\<close>

record failure_details =
  fd_diurn_root :: uint160
  fd_credit_hash :: uint160

record ('w, 'r) calendar_data =
  cd_is_calend :: "uint160 set"
  cd_calend :: "uint160 \<rightharpoonup> 'w calend"
  cd_credit_hash :: "uint160 \<rightharpoonup> uint160"
  cd_diurn :: "uint160 \<rightharpoonup> 'w diurn"
  cd_failure_details :: "uint160 \<rightharpoonup> failure_details"
  cd_chain :: "uint160 \<rightharpoonup> bit_chain"
  cd_relaydata :: 'r

record ('w, 'r) calendar =
  calends :: "'w calend list"
  extra_work :: "'w credit_and_proof list list"
  current_diurn :: "'w diurn"
  current_extra_work :: "'w credit_and_proof list"
  calendardata :: "('w, 'r) calendar_data"

definition Calendar_default :: "('w, 'r) calendar_data \<Rightarrow> ('w, 'r) calendar" where
  "Calendar_default data =
     \<lparr>calends = [], extra_work = [], current_diurn = Diurn_default, current_extra_work = [], calendardata = data\<rparr>"

definition Calendar_Size :: "('w, 'r) calendar \<Rightarrow> nat" where
  "Calendar_Size c = length (calends c)"

definition ContainsDiurn :: "('w, 'r) cal_env \<Rightarrow> uint160 \<Rightarrow> ('w, 'r) calendar \<Rightarrow> bool" where
  "ContainsDiurn env diurn_root c = list_ex (\<lambda>calend. Calend_Root env calend = diurn_root) (calends c)"

definition GetCalendCreditHashes :: "('w, 'r) cal_env \<Rightarrow> ('w, 'r) calendar \<Rightarrow> uint160 list" where
  "GetCalendCreditHashes env c = fold (\<lambda>calend hs. hs @ [GetHash160 env (the_mined_credit calend)]) (calends c) []"

definition GetLastCalendCreditHash :: "('w, 'r) cal_env \<Rightarrow> ('w, 'r) calendar \<Rightarrow> uint160" where
  "GetLastCalendCreditHash env c =
     (if length (calends c) = 0 then 0 else GetHash160 env (the_mined_credit (last (calends c))))"

definition LastMinedCreditHash :: "('w, 'r) cal_env \<Rightarrow> ('w, 'r) calendar \<Rightarrow> uint160 option" where
  "LastMinedCreditHash env c =
     (if Diurn_Size (current_diurn c) > 0 then Diurn_Last (current_diurn c)
      else if length (calends c) = 0 then Some 0
      else Some (GetHash160 env (the_mined_credit (last (calends c)))))"

definition LastMinedCredit :: "('w, 'r) cal_env \<Rightarrow> ('w, 'r) calendar \<Rightarrow> mined_credit option" where
  "LastMinedCredit env c = do { credit_hash \<leftarrow> LastMinedCreditHash env c; Some (creditdata_mined_credit env credit_hash) }"

definition PreviousDiurnRoot :: "('w, 'r) cal_env \<Rightarrow> ('w, 'r) calendar \<Rightarrow> uint160 option" where
  "PreviousDiurnRoot env c =
     (if Diurn_Size (current_diurn c) > 1
      then do { h \<leftarrow> Diurn_Last (current_diurn c); Some (previous_diurn_root (creditdata_mined_credit env h)) }
      else if Diurn_Size (current_diurn c) = 1 \<and> length (calends c) > 0
      then do { h \<leftarrow> Diurn_First (current_diurn c);
                let credit = creditdata_mined_credit env h;
                Some (combine_roots env (previous_diurn_root credit) (diurnal_block_root credit)) }
      else Some 0)"

section \<open>Work\<close>

definition CalendWork :: "('w, 'r) calendar \<Rightarrow> uint160" where
  "CalendWork c = fold (\<lambda>calend work. work + diurnal_difficulty (the_mined_credit calend)) (calends c) 0"

fun top_up_work_of :: "'w calend list \<Rightarrow> 'w credit_and_proof list list \<Rightarrow> uint160 \<Rightarrow> uint160" where
  "top_up_work_of (calend # cs) (credits_and_proofs # rest) work =
     (let work = fold (\<lambda>(credit, proof) work. work + difficulty credit) credits_and_proofs work;
          work = (if length credits_and_proofs > 0 then work + difficulty (the_mined_credit calend) else work)
      in top_up_work_of cs rest work)"
| "top_up_work_of cs rest work = work"

definition TopUpWork :: "('w, 'r) calendar \<Rightarrow> uint160 option" where
  "TopUpWork c =
     (if length (calends c) \<noteq> length (extra_work c) then None else Some (top_up_work_of (calends c) (extra_work c) 0))"

definition TotalWork :: "('w, 'r) cal_env \<Rightarrow> ('w, 'r) calendar \<Rightarrow> uint160 option" where
  "TotalWork env c =
     do { top_up \<leftarrow> TopUpWork c;
          let work = CalendWork c + top_up + Diurn_Work env (current_diurn c);
          Some (if Calendar_Size c > 0 then work - difficulty (the_mined_credit (last (calends c))) else work) }"

text \<open>
  \<^verbatim>\<open>DropTopUpWorkCredits\<close>: the number to drop of a list is computed in unsigned 32 bits and read as a signed number.
\<close>

fun drop_credits :: "u32 \<Rightarrow> u32 \<Rightarrow> 'a list list \<Rightarrow> 'a list list" where
  "drop_credits num_credits_to_drop num_credits_dropped [] = []"
| "drop_credits num_credits_to_drop num_credits_dropped (xs # xss) =
     (if uint num_credits_dropped + int (length xs) \<le> uint num_credits_to_drop
      then [] # drop_credits num_credits_to_drop (num_credits_dropped + of_nat (length xs)) xss
      else let to_drop = num_credits_to_drop - num_credits_dropped - of_nat (length xs)
           in if sint to_drop \<le> 0 then xs # xss
              else take (length xs - nat (sint to_drop)) xs
                     # drop_credits num_credits_to_drop (num_credits_dropped + to_drop) xss)"

definition DropTopUpWorkCredits :: "u32 \<Rightarrow> ('w, 'r) calendar \<Rightarrow> ('w, 'r) calendar" where
  "DropTopUpWorkCredits num_credits_to_drop c = c\<lparr>extra_work := drop_credits num_credits_to_drop 0 (extra_work c)\<rparr>"

text \<open>The number of credits that fit in the surplus; \<open>None\<close> if all of them do, when nothing is dropped.\<close>

fun credits_to_drop :: "uint160 \<Rightarrow> uint160 \<Rightarrow> u32 \<Rightarrow> 'w credit_and_proof list \<Rightarrow> u32 option" where
  "credits_to_drop surplus work_trimmed n [] = None"
| "credits_to_drop surplus work_trimmed n ((credit, proof) # rest) =
     (if work_trimmed + difficulty credit > surplus then Some n
      else credits_to_drop surplus (work_trimmed + difficulty credit) (n + 1) rest)"

definition TrimTopUpWork :: "('w, 'r) cal_env \<Rightarrow> ('w, 'r) calendar \<Rightarrow> ('w, 'r) calendar option" where
  "TrimTopUpWork env c =
     do { calendar_work \<leftarrow> TotalWork env c;
          credit \<leftarrow> LastMinedCredit env c;
          let credit_work = total_work credit + difficulty credit;
          if calendar_work \<le> credit_work then Some c
          else (case credits_to_drop (calendar_work - credit_work) 0 0 (concat (extra_work c)) of
                  None \<Rightarrow> Some c
                | Some num_credits_to_drop \<Rightarrow> Some (DropTopUpWorkCredits num_credits_to_drop c)) }"

definition StoreTopUpWorkIfNecessary :: "('w, 'r) cal_env \<Rightarrow> 'w credit_message \<Rightarrow> ('w, 'r) calendar \<Rightarrow> ('w, 'r) calendar option" where
  "StoreTopUpWorkIfNecessary env msg c =
     do { top_up \<leftarrow> TopUpWork c;
          let credit = the_mined_credit msg;
          let c = (if CalendWork c + diurnal_difficulty credit + top_up \<le> total_work credit + difficulty credit
                   then c\<lparr>current_extra_work := current_extra_work c @ [(credit, work_proof msg)]\<rparr> else c);
          TrimTopUpWork env c }"


section \<open>Populating a calendar from a mined credit\<close>

definition stored_credit_hash :: "('w, 'r) calendar_data \<Rightarrow> uint160 \<Rightarrow> uint160" where
  "stored_credit_hash data diurn_root = (case cd_credit_hash data diurn_root of None \<Rightarrow> 0 | Some h \<Rightarrow> h)"

partial_function (option) collect_calends :: "('w, 'r) cal_env \<Rightarrow> ('w, 'r) calendar_data \<Rightarrow> uint160 \<Rightarrow> 'w calend list \<Rightarrow> 'w calend list option" where
  "collect_calends env data diurn_root cs =
     (if diurn_root \<noteq> 0
      then let calend = Calend_new (creditdata_msg env (stored_credit_hash data diurn_root))
           in collect_calends env data (previous_diurn_root (the_mined_credit calend)) (cs @ [calend])
      else Some cs)"

definition PopulateCalends :: "('w, 'r) cal_env \<Rightarrow> uint160 \<Rightarrow> ('w, 'r) calendar \<Rightarrow> ('w, 'r) calendar option" where
  "PopulateCalends env credit_hash c =
     (let msg = creditdata_msg env credit_hash;
          credit = creditdata_mined_credit env credit_hash;
          diurn_root = (if DifficultyAchieved env (work_proof msg) > diurnal_difficulty credit
                        then combine_roots env (diurnal_block_root credit) (previous_diurn_root credit)
                        else previous_diurn_root credit)
      in do { cs \<leftarrow> collect_calends env (calendardata c) diurn_root (calends c); Some (c\<lparr>calends := rev cs\<rparr>) })"

definition PreviousCreditHash :: "('w, 'r) cal_env \<Rightarrow> uint160 \<Rightarrow> uint160" where
  "PreviousCreditHash env credit_hash = previous_mined_credit_hash (creditdata_mined_credit env credit_hash)"

partial_function (option) earlier_hashes :: "('w, 'r) cal_env \<Rightarrow> uint160 \<Rightarrow> uint160 \<Rightarrow> uint160 list \<Rightarrow> uint160 list option" where
  "earlier_hashes env wanted_root credit_hash credit_hashes =
     (let credit_hash = PreviousCreditHash env credit_hash
      in if \<not> has_mined_credit env credit_hash then Some credit_hashes
         else let credit = creditdata_mined_credit env credit_hash;
                  diurn_root = combine_roots env (previous_diurn_root credit) (diurnal_block_root credit);
                  credit_hashes = credit_hashes @ [credit_hash]
              in if diurn_root \<noteq> wanted_root \<and> previous_mined_credit_hash credit \<noteq> 0
                 then earlier_hashes env wanted_root credit_hash credit_hashes
                 else Some credit_hashes)"

fun add_hashes :: "('w, 'r) cal_env \<Rightarrow> uint160 list \<Rightarrow> 'w diurn \<Rightarrow> 'w diurn option" where
  "add_hashes env [] d = Some d"
| "add_hashes env (h # hs) d = do { d \<leftarrow> Diurn_Add env h d; add_hashes env hs d }"

definition PopulateDiurn :: "('w, 'r) cal_env \<Rightarrow> uint160 \<Rightarrow> ('w, 'r) calendar \<Rightarrow> ('w, 'r) calendar option" where
  "PopulateDiurn env credit_hash c =
     (let msg = creditdata_msg env credit_hash;
          credit = creditdata_mined_credit env credit_hash;
          d = (current_diurn c)\<lparr>current_difficulty := diurnal_difficulty credit\<rparr>
      in if DifficultyAchieved env (work_proof msg) > diurnal_difficulty credit
         then do { d \<leftarrow> Diurn_Add env credit_hash d;
                   Some (c\<lparr>current_diurn := d\<lparr>dn_previous_diurn_root :=
                             combine_roots env (previous_diurn_root credit) (diurnal_block_root credit)\<rparr>\<rparr>) }
         else let d = d\<lparr>dn_previous_diurn_root := previous_diurn_root credit\<rparr>
              in do { credit_hashes \<leftarrow> earlier_hashes env (dn_previous_diurn_root d) credit_hash [credit_hash];
                      d \<leftarrow> add_hashes env (rev credit_hashes) d;
                      Some (c\<lparr>current_diurn := d\<rparr>) })"

partial_function (option) collect_top_up :: "('w, 'r) cal_env \<Rightarrow> uint160 \<Rightarrow> uint160 \<Rightarrow> uint160 \<Rightarrow> uint160 \<Rightarrow> mined_credit \<Rightarrow> 'w credit_and_proof list
    \<Rightarrow> ('w credit_and_proof list \<times> uint160) option" where
  "collect_top_up env calend_work total_credit_work credit_work total_calendar_work credit xs =
     (if credit_work > calend_work \<and> total_credit_work > total_calendar_work \<and> previous_mined_credit_hash credit \<noteq> 0
      then let msg = creditdata_msg env (previous_mined_credit_hash credit);
               credit = the_mined_credit msg
           in collect_top_up env calend_work total_credit_work (credit_work - difficulty credit)
                (total_calendar_work + difficulty credit) credit (xs @ [(credit, work_proof msg)])
      else Some (xs, total_calendar_work))"

text \<open>The loop over the calends, from the last one to the first one.\<close>

fun top_up_lists :: "('w, 'r) cal_env \<Rightarrow> uint160 \<Rightarrow> 'w calend list \<Rightarrow> uint160 \<Rightarrow> 'w credit_and_proof list list option" where
  "top_up_lists env total_credit_work [] total_calendar_work = Some []"
| "top_up_lists env total_credit_work (calend # cs) total_calendar_work =
     (let credit_work = (case cs of [] \<Rightarrow> TotalCreditWork calend | before # _ \<Rightarrow> TotalCreditWork calend - TotalCreditWork before)
      in do { (xs, total_calendar_work) \<leftarrow> collect_top_up env (diurnal_difficulty (the_mined_credit calend)) total_credit_work credit_work
                 total_calendar_work (the_mined_credit calend) [];
              rest \<leftarrow> top_up_lists env total_credit_work cs total_calendar_work;
              Some (xs # rest) })"

fun store_top_up_work :: "('w, 'r) cal_env \<Rightarrow> 'w credit_message list \<Rightarrow> ('w, 'r) calendar \<Rightarrow> ('w, 'r) calendar option" where
  "store_top_up_work env [] c = Some c"
| "store_top_up_work env (msg # msgs) c = do { c \<leftarrow> StoreTopUpWorkIfNecessary env msg c; store_top_up_work env msgs c }"

definition PopulateTopUpWork :: "('w, 'r) cal_env \<Rightarrow> uint160 \<Rightarrow> ('w, 'r) calendar \<Rightarrow> ('w, 'r) calendar option" where
  "PopulateTopUpWork env credit_hash c =
     do { let c = c\<lparr>extra_work := []\<rparr>;
          last_credit \<leftarrow> LastMinedCredit env c;
          let total_credit_work = total_work last_credit + difficulty last_credit;
          let total_calendar_work = CalendWork c + Diurn_Work env (current_diurn c);
          let total_calendar_work = (if Calendar_Size c > 0 then total_calendar_work - difficulty (the_mined_credit (last (calends c)))
                                     else total_calendar_work);
          xss \<leftarrow> top_up_lists env total_credit_work (rev (calends c)) total_calendar_work;
          store_top_up_work env (credits_in_diurn (current_diurn c)) (c\<lparr>extra_work := rev xss\<rparr>) }"

definition Calendar_new :: "('w, 'r) cal_env \<Rightarrow> ('w, 'r) calendar_data \<Rightarrow> uint160 \<Rightarrow> ('w, 'r) calendar option" where
  "Calendar_new env data credit_hash =
     (if credit_hash = 0 then Some (Calendar_default data)
      else do { c \<leftarrow> PopulateCalends env credit_hash (Calendar_default data);
                c \<leftarrow> PopulateDiurn env credit_hash c;
                PopulateTopUpWork env credit_hash c })"

section \<open>Handling messages\<close>

definition FinishCurrentCalendAndStartNext :: "('w, 'r) cal_env \<Rightarrow> 'w credit_message \<Rightarrow> ('w, 'r) calendar \<Rightarrow> ('w, 'r) calendar option" where
  "FinishCurrentCalendAndStartNext env msg c =
     do { let calend_credit = creditdata_mined_credit env (GetLastCalendCreditHash env c);
          next_difficulty \<leftarrow> GetNextDiurnInitialDifficulty calend_credit (the_mined_credit msg);
          let c = c\<lparr>calends := calends c @ [Calend_new msg]\<rparr>;
          root \<leftarrow> Diurn_Root env (current_diurn c);
          let data = calendardata c;
          let data = data\<lparr>cd_diurn := (cd_diurn data)(root \<mapsto> current_diurn c)\<rparr>;
          let credit_hash = GetHash160 env (the_mined_credit msg);
          recorded \<leftarrow> record_relay_state env credit_hash (cd_relaydata data);
          data \<leftarrow> (case recorded of Inl e \<Rightarrow> None | Inr relaydata \<Rightarrow> Some (data\<lparr>cd_relaydata := relaydata\<rparr>));
          d \<leftarrow> Diurn_assign (current_diurn c) (Diurn_new root);
          d \<leftarrow> Diurn_Add env credit_hash d;
          Some (c\<lparr>current_diurn := SetInitialDifficulty next_difficulty d, calendardata := data\<rparr>) }"

definition HandleCalend :: "('w, 'r) cal_env \<Rightarrow> 'w credit_message \<Rightarrow> ('w, 'r) calendar \<Rightarrow> ('w, 'r) calendar option" where
  "HandleCalend env msg c =
     do { let credit = the_mined_credit msg;
          let credit_hash = GetHash160 env credit;
          let data = calendardata c;
          let data = data\<lparr>cd_is_calend := insert credit_hash (cd_is_calend data)\<rparr>;
          let data = data\<lparr>cd_calend := (cd_calend data)(credit_hash \<mapsto> Calend_new msg)\<rparr>;
          let spent_chain = node_spent_chain env credit_hash;
          chain_hash \<leftarrow> BitChain_GetHash160 (hash_fun env) spent_chain;
          let data = data\<lparr>cd_chain := (cd_chain data)(chain_hash \<mapsto> spent_chain)\<rparr>;
          let diurn_root = combine_roots env (diurnal_block_root credit) (previous_diurn_root credit);
          let data = data\<lparr>cd_credit_hash := (cd_credit_hash data)(diurn_root \<mapsto> credit_hash)\<rparr>;
          let c = c\<lparr>calendardata := data\<rparr>;
          if previous_diurn_root credit = dn_previous_diurn_root (current_diurn c)
             \<and> DifficultyAchieved env (work_proof msg) \<ge> current_difficulty (current_diurn c)
          then do { c \<leftarrow> FinishCurrentCalendAndStartNext env msg c;
                    TrimTopUpWork env (c\<lparr>extra_work := extra_work c @ [current_extra_work c], current_extra_work := []\<rparr>) }
          else Some c }"

definition Calendar_HandleBatch :: "('w, 'r) cal_env \<Rightarrow> 'w credit_message \<Rightarrow> ('w, 'r) calendar \<Rightarrow> ('w, 'r) calendar option" where
  "Calendar_HandleBatch env msg c =
     do { let credit = the_mined_credit msg;
          last_hash \<leftarrow> Diurn_Last (current_diurn c);
          if previous_diurn_root credit = dn_previous_diurn_root (current_diurn c) \<and> previous_mined_credit_hash credit = last_hash
          then do { d \<leftarrow> Diurn_Add env (GetHash160 env credit) (current_diurn c); Some (c\<lparr>current_diurn := d\<rparr>) }
          else Some c }"

definition HandleMinedCreditMessage :: "('w, 'r) cal_env \<Rightarrow> 'w credit_message \<Rightarrow> ('w, 'r) calendar \<Rightarrow> ('w, 'r) calendar option" where
  "HandleMinedCreditMessage env msg c =
     (if DifficultyAchieved env (work_proof msg) \<ge> diurnal_difficulty (the_mined_credit msg)
      then HandleCalend env msg c
      else do { c \<leftarrow> Calendar_HandleBatch env msg c; StoreTopUpWorkIfNecessary env msg c })"

definition AddMinedCreditToTip :: "('w, 'r) cal_env \<Rightarrow> 'w credit_message \<Rightarrow> ('w, 'r) calendar \<Rightarrow> ('w, 'r) calendar option" where
  "AddMinedCreditToTip env msg c =
     do { last_hash \<leftarrow> LastMinedCreditHash env c;
          if previous_mined_credit_hash (the_mined_credit msg) \<noteq> last_hash then None
          else HandleMinedCreditMessage env msg c }"

definition Calendar_RemoveLast :: "('w, 'r) cal_env \<Rightarrow> ('w, 'r) calendar \<Rightarrow> ('w, 'r) calendar option" where
  "Calendar_RemoveLast env c =
     (if Diurn_Size (current_diurn c) = 0 then Some c
      else do { last_credit \<leftarrow> LastMinedCredit env c;
                Calendar_new env (calendardata c) (previous_mined_credit_hash last_credit) })"


section \<open>Checks\<close>

text \<open>The loop over the calends; \<open>before\<close> are those already checked, the latest first.\<close>

fun check_calends :: "('w, 'r) cal_env \<Rightarrow> 'w calend list \<Rightarrow> 'w calend list \<Rightarrow> bool option" where
  "check_calends env before [] = Some True"
| "check_calends env before (calend # cs) =
     (let credit = the_mined_credit calend
      in if (case before of [] \<Rightarrow> False | p # _ \<Rightarrow> previous_diurn_root credit \<noteq> Calend_Root env p) then Some False
         else do { difficulty_ok \<leftarrow>
                     (case before of
                        p # q # _ \<Rightarrow>
                          do { initial \<leftarrow> GetNextDiurnInitialDifficulty (the_mined_credit q) (the_mined_credit p);
                               let diurn_size = uint (batch_number credit - batch_number (the_mined_credit p) - 1);
                               final \<leftarrow> ApplyAdjustments initial diurn_size;
                               Some (diurnal_difficulty credit = final) }
                      | _ \<Rightarrow> Some True);
                   if \<not> difficulty_ok then Some False
                   else if DifficultyAchieved env (work_proof calend) < diurnal_difficulty credit then Some False
                   else check_calends env (calend # before) cs })"

definition check_first_calend :: "'w calend list \<Rightarrow> bool option" where
  "check_first_calend cs =
     (case cs of
        [] \<Rightarrow> Some True
      | calend # _ \<Rightarrow>
          do { d \<leftarrow> ApplyAdjustments INITIAL_DIURNAL_DIFFICULTY (uint (batch_number (the_mined_credit calend) - 1));
               Some (diurnal_difficulty (the_mined_credit calend) = d) })"

definition CheckRootsAndDifficulty :: "('w, 'r) cal_env \<Rightarrow> ('w, 'r) calendar \<Rightarrow> bool option" where
  "CheckRootsAndDifficulty env c =
     do { first_ok \<leftarrow> check_first_calend (calends c);
          if \<not> first_ok then Some False
          else do { calends_ok \<leftarrow> check_calends env [] (calends c);
                    if \<not> calends_ok then Some False
                    else if Diurn_Size (current_diurn c) > 0
                    then do { last_credit_hash \<leftarrow> Diurn_Last (current_diurn c);
                              if has_msg env last_credit_hash
                              then do { root \<leftarrow> PreviousDiurnRoot env c;
                                        Some (dn_previous_diurn_root (current_diurn c) = root) }
                              else Some True }
                    else Some (length (calends c) = 0) } }"

definition Calendar_Validate :: "('w, 'r) cal_env \<Rightarrow> ('w, 'r) calendar \<Rightarrow> bool option" where
  "Calendar_Validate env c =
     (if list_ex (\<lambda>calend. cd_failure_details (calendardata c) (Calend_Root env calend) \<noteq> None) (calends c) then Some False
      else CheckRootsAndDifficulty env c)"

text \<open>\<^verbatim>\<open>SpotCheckWork\<close> gives the details of the first calend whose proof fails, and stores them.\<close>

definition SpotCheckWork :: "('w, 'r) cal_env \<Rightarrow> ('w, 'r) calendar \<Rightarrow> failure_details option \<times> ('w, 'r) calendar" where
  "SpotCheckWork env c =
     (case find (\<lambda>calend. \<not> SpotCheck_Valid env (work_proof calend)) (calends c) of
        None \<Rightarrow> (None, c)
      | Some calend \<Rightarrow>
          (let root = Calend_Root env calend;
               details = \<lparr>fd_diurn_root = root, fd_credit_hash = GetHash160 env (the_mined_credit calend)\<rparr>;
               data = calendardata c
           in (Some details, c\<lparr>calendardata := data\<lparr>cd_failure_details := (cd_failure_details data)(root \<mapsto> details)\<rparr>\<rparr>)))"

definition CheckTopUpWorkProofs :: "('w, 'r) cal_env \<Rightarrow> ('w, 'r) calendar \<Rightarrow> bool" where
  "CheckTopUpWorkProofs env c =
     list_all (list_all (\<lambda>(credit, proof). \<not> (WorkDone env proof \<noteq> difficulty credit \<or> \<not> SpotCheck_Valid env proof))) (extra_work c)"

fun check_quantities :: "('w, 'r) cal_env \<Rightarrow> 'w calend list \<Rightarrow> 'w credit_and_proof list list \<Rightarrow> bool" where
  "check_quantities env (calend # cs) (xs # xss) =
     (let last_credit_work = 0;
          top_up_work = fold (\<lambda>(credit, proof) work. work + WorkDone env proof) xs 0;
          calend_work = diurnal_difficulty (the_mined_credit calend);
          credit_work = TotalCreditWork calend - last_credit_work
      in if calend_work > credit_work \<and> top_up_work > 0 then False
         else if calend_work + top_up_work < credit_work then False
         else check_quantities env cs xss)"
| "check_quantities env cs xss = True"

definition CheckTopUpWorkQuantities :: "('w, 'r) cal_env \<Rightarrow> ('w, 'r) calendar \<Rightarrow> bool" where
  "CheckTopUpWorkQuantities env c =
     (if length (extra_work c) \<noteq> length (calends c) then False else check_quantities env (calends c) (extra_work c))"

text \<open>
  \<^verbatim>\<open>CheckTopUpWorkCredits\<close>: the credits of a list follow one another, and the calend follows the last one.  The variable
  \<^verbatim>\<open>credit\<close> keeps its value from one list to the next, but for its number, which is set to zero.
\<close>

fun follow_credits :: "('w, 'r) cal_env \<Rightarrow> mined_credit \<Rightarrow> 'w credit_and_proof list \<Rightarrow> mined_credit option" where
  "follow_credits env credit [] = Some credit"
| "follow_credits env credit ((next_credit, proof) # xs) =
     (if difficulty next_credit = WorkDone env proof
         \<and> (batch_number credit = 0
            \<or> previous_mined_credit_hash next_credit = GetHash160 env credit \<and> batch_number next_credit = batch_number credit + 1)
      then follow_credits env next_credit xs else None)"

fun check_credits :: "('w, 'r) cal_env \<Rightarrow> mined_credit \<Rightarrow> 'w calend list \<Rightarrow> 'w credit_and_proof list list \<Rightarrow> bool option" where
  "check_credits env credit cs [] = Some True"
| "check_credits env credit cs (xs # xss) =
     (case follow_credits env (credit\<lparr>batch_number := 0\<rparr>) xs of
        None \<Rightarrow> Some False
      | Some credit \<Rightarrow>
          (case cs of
             [] \<Rightarrow> None
           | calend # cs \<Rightarrow>
               if previous_mined_credit_hash (the_mined_credit calend) \<noteq> GetHash160 env credit then Some False
               else check_credits env credit cs xss))"

definition CheckTopUpWorkCredits :: "('w, 'r) cal_env \<Rightarrow> mined_credit \<Rightarrow> ('w, 'r) calendar \<Rightarrow> bool option" where
  "CheckTopUpWorkCredits env default_credit c = check_credits env default_credit (calends c) (extra_work c)"

definition CheckTopUpWork :: "('w, 'r) cal_env \<Rightarrow> mined_credit \<Rightarrow> ('w, 'r) calendar \<Rightarrow> bool option" where
  "CheckTopUpWork env default_credit c =
     (if \<not> CheckTopUpWorkQuantities env c then Some False
      else do { credits_ok \<leftarrow> CheckTopUpWorkCredits env default_credit c;
                Some (credits_ok \<and> CheckTopUpWorkProofs env c) })"

section \<open>The connection of a credit to the calendar\<close>

definition CheckBranches :: "('w, 'r) cal_env \<Rightarrow> ('p \<Rightarrow> vch_t) \<Rightarrow> 'p credit_in_batch \<Rightarrow> bool option" where
  "CheckBranches env kget credit =
     (if cb_branch credit = [] then None
      else let batch_root = last (cb_branch credit)
           in if \<not> VerifyBranchFromOrderedHashTree (hash_fun env) (ucast (cb_position credit)) (Credit_getvch kget credit) (cb_branch credit) batch_root
              then Some False
              else if length (cb_diurn_branch credit) \<noteq> 1
              then if cb_diurn_branch credit = [] then None
                   else Some (EvaluateBranchWithHash (hash_fun env) (cb_diurn_branch credit) batch_root 0 = last (cb_diurn_branch credit))
              else Some True)"

text \<open>The diurn is looked up in the calendar of the node, and the main chain is the predicate \<open>InMainChain\<close>.\<close>

definition CreditInBatchHasValidConnection :: "('w, 'r) cal_env \<Rightarrow> ('p \<Rightarrow> vch_t) \<Rightarrow> (uint160 \<Rightarrow> bool) \<Rightarrow> 'p credit_in_batch \<Rightarrow> ('w, 'r) calendar \<Rightarrow> bool option" where
  "CreditInBatchHasValidConnection env kget InMainChain credit node_calendar =
     (if length (cb_diurn_branch credit) = 0 \<or> length (cb_branch credit) = 0 then Some False
      else if length (cb_diurn_branch credit) \<noteq> 1
      then if \<not> ContainsDiurn env (last (cb_diurn_branch credit)) node_calendar then Some False else CheckBranches env kget credit
      else if \<not> InMainChain (combine_roots env (cb_diurn_branch credit ! 0) (last (cb_branch credit))) then Some False
      else CheckBranches env kget credit)"


section \<open>Preparing a mined credit\<close>

text \<open>
  The part of \<^verbatim>\<open>CreditPit::PrepareMinedCredit\<close> (\<^verbatim>\<open>src/mining/pit.cpp\<close>) that takes the fields of a new mined credit from the calendar.
  The hash of the previous credit, which the node keeps beside its calendar, is an argument.
\<close>

definition PrepareMinedCredit :: "('w, 'r) cal_env \<Rightarrow> uint160 \<Rightarrow> ('w, 'r) calendar \<Rightarrow> mined_credit \<Rightarrow> mined_credit option" where
  "PrepareMinedCredit env prev_hash c credit =
     do { root \<leftarrow> PreviousDiurnRoot env c;
          (block_root, block) \<leftarrow> Diurnal_Root (hash_fun env) (dn_block (current_diurn c));
          let previous_mined_credit = creditdata_mined_credit env prev_hash;
          Some (credit\<lparr>previous_diurn_root := root, diurnal_block_root := block_root,
                       diurnal_difficulty := current_difficulty (current_diurn c),
                       previous_mined_credit_hash := prev_hash,
                       batch_number := batch_number previous_mined_credit + 1,
                       total_work := total_work previous_mined_credit + difficulty previous_mined_credit\<rparr>) }"

fun add_messages :: "('w, 'r) cal_env \<Rightarrow> 'w credit_message list \<Rightarrow> ('w, 'r) calendar \<Rightarrow> ('w, 'r) calendar option" where
  "add_messages env [] c = Some c"
| "add_messages env (msg # msgs) c = do { c \<leftarrow> AddMinedCreditToTip env msg c; add_messages env msgs c }"

section \<open>The scale of difficulties\<close>

lemma unat_easier: "unat d * 999 < 2 ^ 160 \<Longrightarrow> unat (easier d) = unat d * 999 div 1000"
  using unat_mult_lem [of d "999 :: uint160"] by (simp add: easier_def unat_div)

lemma unat_harder: "unat d * 1000 < 2 ^ 160 \<Longrightarrow> unat (harder d) = unat d * 1000 div 999"
  using unat_mult_lem [of d "1000 :: uint160"] by (simp add: harder_def unat_div)

lemma unat_initial: "unat INITIAL_DIURNAL_DIFFICULTY = 500000000"
  by (simp add: INITIAL_DIURNAL_DIFFICULTY_def)

text \<open>Downwards: the numbers decrease, and slowly enough to stay positive for more than twelve thousand steps.\<close>

abbreviation easier_steps :: "nat \<Rightarrow> uint160" where
  "easier_steps n \<equiv> (easier ^^ n) INITIAL_DIURNAL_DIFFICULTY"

abbreviation harder_steps :: "nat \<Rightarrow> uint160" where
  "harder_steps n \<equiv> (harder ^^ n) INITIAL_DIURNAL_DIFFICULTY"

lemma easier_steps_le: "unat (easier_steps n) \<le> 500000000"
proof (induction n)
  case 0
  then show ?case by (simp add: unat_initial)
next
  case (Suc n)
  then show ?case using unat_easier [of "easier_steps n"] by simp
qed

lemma easier_steps_Suc: "unat (easier_steps (Suc n)) = unat (easier_steps n) * 999 div 1000"
  using unat_easier [of "easier_steps n"] easier_steps_le [of n] by simp

lemma half_life: "(1 / 2 :: real) \<le> (999 / 1000) ^ 600"
proof -
  have "(9 / 10 :: real) = 1 + real 100 * (- 1 / 1000)" by simp
  also have "\<dots> \<le> (1 + (- 1 / 1000)) ^ 100" by (rule Bernoulli_inequality) simp
  also have "1 + (- 1 / 1000) = (999 / 1000 :: real)" by simp
  finally have *: "(9 / 10 :: real) \<le> (999 / 1000) ^ 100" .
  have "(1 / 2 :: real) \<le> (9 / 10) ^ 6" by (simp add: power_divide)
  also have "\<dots> \<le> ((999 / 1000) ^ 100) ^ 6" by (rule power_mono [OF *]) simp
  also have "\<dots> = (999 / 1000) ^ (100 * 6)" by (rule power_mult [symmetric])
  also have "100 * 6 = (600 :: nat)" by simp
  finally show ?thesis .
qed

lemma easier_steps_ge: "(500000999 :: real) * (999 / 1000) ^ n \<le> real (unat (easier_steps n)) + 999"
proof (induction n)
  case 0
  then show ?case by (simp add: unat_initial)
next
  case (Suc n)
  let ?d = "unat (easier_steps n)"
  have "?d * 999 \<le> 1000 * (?d * 999 div 1000) + 999"
    using div_mult_mod_eq [of "?d * 999" 1000] mod_less_divisor [of 1000 "?d * 999"] by linarith
  then have "real (?d * 999) \<le> real (1000 * (?d * 999 div 1000) + 999)" by (rule of_nat_mono)
  then have "(real ?d + 999) * (999 / 1000) \<le> real (unat (easier_steps (Suc n))) + 999"
    unfolding easier_steps_Suc by simp
  moreover have "(500000999 :: real) * (999 / 1000) ^ Suc n \<le> (real ?d + 999) * (999 / 1000)" using Suc by simp
  ultimately show ?case by linarith
qed

lemma easier_steps_pos:
  assumes "n \<le> 10800"
  shows "0 < easier_steps n"
proof -
  have "(1 / 2 :: real) ^ 18 \<le> ((999 / 1000) ^ 600) ^ 18" by (rule power_mono [OF half_life]) simp
  also have "\<dots> = (999 / 1000) ^ (600 * 18)" by (rule power_mult [symmetric])
  also have "\<dots> \<le> (999 / 1000) ^ n" using assms by (intro power_decreasing) simp_all
  finally have "(500000999 :: real) * (1 / 2) ^ 18 \<le> real (unat (easier_steps n)) + 999"
    using easier_steps_ge [of n] by linarith
  then have "0 < real (unat (easier_steps n))" by (simp add: power_divide del: of_nat_unat)
  then show ?thesis by (simp add: word_less_nat_alt del: of_nat_unat)
qed

lemma easier_steps_less:
  assumes "j < n" and "n \<le> 10800"
  shows "easier_steps n < easier_steps j"
  using assms
proof (induction n)
  case (Suc n)
  have "0 < unat (easier_steps n)" using easier_steps_pos [of n] Suc.prems by (simp add: word_less_nat_alt)
  then have "easier_steps (Suc n) < easier_steps n" using easier_steps_Suc [of n] by (simp add: word_less_nat_alt)
  then show ?case using Suc by (cases "j = n") (auto simp del: funpow.simps)
qed simp

lemma infer_easier_steps: "j \<le> n \<Longrightarrow> n \<le> 10800 \<Longrightarrow> infer_easier (easier_steps n) (easier_steps j) (int j) = Some (int n)"
proof (induction "n - j" arbitrary: j)
  case 0
  then show ?case by (subst infer_easier.simps) simp
next
  case (Suc k)
  then have "j < n" by simp
  then have "infer_easier (easier_steps n) (easier_steps (Suc j)) (int (Suc j)) = Some (int n)" using Suc.prems Suc.hyps(2)
    by (intro Suc.hyps(1)) simp_all
  then show ?case using easier_steps_less [OF \<open>j < n\<close> Suc.prems(2)] by (subst infer_easier.simps) (simp add: add.commute)
qed

text \<open>Upwards: the numbers grow, and slowly enough not to overflow for sixty thousand steps.\<close>

lemma doubling_time: "(1000 / 999 :: real) ^ 600 \<le> 2"
proof -
  have "(1000 / 999 :: real) ^ 600 = 1 / (999 / 1000) ^ 600" unfolding power_one_over [symmetric] by simp
  also have "\<dots> \<le> 1 / (1 / 2)" by (rule divide_left_mono [OF half_life]) simp_all
  finally show ?thesis by simp
qed

lemma growth_bound: "n \<le> 60000 \<Longrightarrow> 500000000 * (1000 / 999 :: real) ^ n \<le> 2 ^ 130"
proof -
  assume "n \<le> 60000"
  then have "(1000 / 999 :: real) ^ n \<le> (1000 / 999) ^ (600 * 100)" by (intro power_increasing) simp_all
  also have "\<dots> = ((1000 / 999) ^ 600) ^ 100" by (rule power_mult)
  also have "\<dots> \<le> 2 ^ 100" by (rule power_mono [OF doubling_time]) simp
  finally show ?thesis by simp
qed

lemma harder_steps_le: "n \<le> 60000 \<Longrightarrow> real (unat (harder_steps n)) \<le> 500000000 * (1000 / 999) ^ n"
proof (induction n)
  case 0
  then show ?case by (simp add: unat_initial del: of_nat_unat)
next
  case (Suc n)
  let ?d = "unat (harder_steps n)"
  have d: "real ?d \<le> 500000000 * (1000 / 999) ^ n" using Suc by (simp del: of_nat_unat)
  then have "real ?d \<le> real (2 ^ 130 :: nat)" using growth_bound [of n] Suc.prems by (simp del: of_nat_unat)
  then have "?d \<le> 2 ^ 130" by (simp only: of_nat_le_iff)
  then have "unat (harder_steps (Suc n)) = ?d * 1000 div 999" using unat_harder [of "harder_steps n"] by simp
  moreover have "real (?d * 1000 div 999 * 999) \<le> real (?d * 1000)" by (rule of_nat_mono) (rule div_times_less_eq_dividend)
  ultimately have "real (unat (harder_steps (Suc n))) \<le> real ?d * (1000 / 999)" by (simp del: of_nat_unat)
  also have "\<dots> \<le> 500000000 * (1000 / 999) ^ n * (1000 / 999)" by (rule mult_right_mono [OF d]) simp
  finally show ?case by (simp add: mult.assoc mult.commute del: of_nat_unat)
qed

lemma harder_steps_bound:
  assumes "n \<le> 60000"
  shows "unat (harder_steps n) \<le> 2 ^ 130"
proof -
  have "real (unat (harder_steps n)) \<le> real (2 ^ 130 :: nat)"
    using harder_steps_le [OF assms] growth_bound [OF assms] by (simp del: of_nat_unat)
  then show ?thesis by (simp only: of_nat_le_iff)
qed

lemma harder_steps_Suc: "n \<le> 60000 \<Longrightarrow> unat (harder_steps (Suc n)) = unat (harder_steps n) * 1000 div 999"
  using unat_harder [of "harder_steps n"] harder_steps_bound [of n] by simp

lemma harder_steps_ge: "n \<le> 60000 \<Longrightarrow> 500000000 \<le> unat (harder_steps n)"
proof (induction n)
  case 0
  then show ?case by (simp add: unat_initial)
next
  case (Suc n)
  then have "500000000 \<le> unat (harder_steps n)" by simp
  also have "\<dots> \<le> unat (harder_steps n) * 1000 div 999" by (simp add: less_eq_div_iff_mult_less_eq)
  finally show ?case using harder_steps_Suc [of n] Suc.prems by simp
qed

lemma harder_steps_less:
  assumes "j < n" and "n \<le> 60000"
  shows "harder_steps j < harder_steps n"
  using assms
proof (induction n)
  case (Suc n)
  have "unat (harder_steps n) + 1 \<le> unat (harder_steps n) * 1000 div 999"
    using harder_steps_ge [of n] Suc.prems by (simp add: less_eq_div_iff_mult_less_eq)
  then have "harder_steps n < harder_steps (Suc n)" using harder_steps_Suc [of n] Suc.prems by (simp add: word_less_nat_alt)
  then show ?case using Suc by (cases "j = n") (auto simp del: funpow.simps)
qed simp

lemma infer_harder_steps: "j \<le> n \<Longrightarrow> n \<le> 60000 \<Longrightarrow> infer_harder (harder_steps n) (harder_steps j) (- int j) = Some (- int n)"
proof (induction "n - j" arbitrary: j)
  case 0
  then show ?case by (subst infer_harder.simps) simp
next
  case (Suc k)
  then have "j < n" by simp
  then have "infer_harder (harder_steps n) (harder_steps (Suc j)) (- int (Suc j)) = Some (- int n)" using Suc.prems Suc.hyps(2)
    by (intro Suc.hyps(1)) simp_all
  then show ?case using harder_steps_less [OF \<open>j < n\<close> Suc.prems(2)] by (subst infer_harder.simps) (simp add: minus_diff_commute)
qed

text \<open>The number of adjustments is recovered from a difficulty of the scale.\<close>

lemma infer_GetDifficulty:
  assumes "- 60000 \<le> k" and "k \<le> 10800"
  shows "InferNumAdjustmentsFromDifficulty (GetDifficulty k) = Some k"
proof (cases "0 < k")
  case True
  define n where "n = nat k"
  have n: "k = int n" "0 < n" "n \<le> 10800" using True assms by (simp_all add: n_def)
  then have "easier_steps n < INITIAL_DIURNAL_DIFFICULTY" using easier_steps_less [of 0 n] by simp
  then show ?thesis using infer_easier_steps [of 0 n] n by (auto simp: GetDifficulty_def InferNumAdjustmentsFromDifficulty_def)
next
  case False
  define n where "n = nat (- k)"
  have n: "k = - int n" "n \<le> 60000" using False assms by (simp_all add: n_def)
  show ?thesis
  proof (cases "n = 0")
    case True
    then show ?thesis using n by (simp add: GetDifficulty_def InferNumAdjustmentsFromDifficulty_def)
  next
    case False
    then have "INITIAL_DIURNAL_DIFFICULTY < harder_steps n" using harder_steps_less [of 0 n] n by simp
    then show ?thesis using infer_harder_steps [of 0 n] n by (auto simp: GetDifficulty_def InferNumAdjustmentsFromDifficulty_def)
  qed
qed

lemma apply_GetDifficulty:
  "- 60000 \<le> k \<Longrightarrow> k \<le> 10800 \<Longrightarrow> ApplyAdjustments (GetDifficulty k) n = Some (GetDifficulty (k + n))"
  by (simp add: ApplyAdjustments_def infer_GetDifficulty)

lemma initial_difficulty_scale: "INITIAL_DIURNAL_DIFFICULTY = GetDifficulty 0"
  by (simp add: GetDifficulty_def)


section \<open>Diurns and their roots\<close>

lemma block_root:
  assumes "diurnal_inv (hash_fun env) (dn_block d)"
  shows "BlockRoot env d = Some (hashes_root (hash_fun env) (hashes (dn_block d)))"
proof -
  let ?H = "hash_fun env"
  have "length (hashes (dn_block d)) < 2 ^ 31" using assms by (simp add: diurnal_inv_def)
  then obtain b where b: "Diurnal_setvch (Diurnal_getvch (dn_block d)) DiurnalBlock_new = Some b" "hashes b = hashes (dn_block d)" "diurnal_inv ?H b"
    using Diurnal_read_hashes [of DiurnalBlock_new "hashes (dn_block d)" ?H] RemoveAll_empties [OF diurnal_inv_new]
      diurnal_inv_new [of ?H]
    by (auto simp: Diurnal_setvch_def Diurnal_getvch_eq DiurnalBlock_new_def Diurnal_RemoveAll.simps Diurnal_RemoveLast_def)
  then show ?thesis using Diurnal_Root_inv [OF b(3)] by (auto simp: BlockRoot_def)
qed

lemma diurn_root:
  assumes "diurnal_inv (hash_fun env) (dn_block d)"
  shows "Diurn_Root env d = Some (combine_roots env (dn_previous_diurn_root d) (hashes_root (hash_fun env) (hashes (dn_block d))))"
  by (simp add: Diurn_Root_def block_root [OF assms])

lemma diurn_branch:
  assumes "diurnal_inv (hash_fun env) (dn_block d)" and "h \<in> set (hashes (dn_block d))"
  shows "\<exists>siblings d'. Diurn_Branch env h d = Some (siblings @ [dn_previous_diurn_root d, the (Diurn_Root env d)], d')
    \<and> EvaluateBranchWithHash (hash_fun env) (siblings @ [dn_previous_diurn_root d, the (Diurn_Root env d)]) h 0 = the (Diurn_Root env d)
    \<and> diurnal_inv (hash_fun env) (dn_block d') \<and> hashes (dn_block d') = hashes (dn_block d)"
proof -
  let ?H = "hash_fun env" and ?hs = "hashes (dn_block d)"
  obtain p where p: "Diurnal_Position h (dn_block d) = int p" "p < length ?hs" "?hs ! p = h"
    using Diurnal_Position_nth [OF assms(2)] by blast
  have ne: "?hs \<noteq> []" using assms(2) by auto
  have "int p < 2 ^ 64" using p(2) assms(1) by (simp add: diurnal_inv_def)
  then have pos: "nat (Diurnal_Position h (dn_block d) mod 2 ^ 64) = p" using p(1) by simp
  let ?b = "merkle_branch (SymmetricCombine ?H) ?hs 0 (length ?hs) p"
  obtain block where b: "Diurnal_Branch ?H h (dn_block d) = Some (?b, block)" "hashes block = ?hs" "diurnal_inv ?H block"
    using Diurnal_Branch_inv [OF assms(1) ne, of h] pos by auto
  define d' where "d' = d\<lparr>dn_block := block\<rparr>"
  have root: "Diurn_Root env d' = Diurn_Root env d" using diurn_root [of env d'] diurn_root [OF assms(1)] b by (simp add: d'_def)
  have branch: "Diurn_Branch env h d = Some (?b @ [dn_previous_diurn_root d, the (Diurn_Root env d)], d')"
    using b(1) root diurn_root [OF assms(1)] by (simp add: Diurn_Branch_def d'_def [symmetric] Let_def)
  have "foldl (SymmetricCombine ?H) h ?b = hashes_root ?H ?hs"
    using symmetric.branch_root [of 0 "length ?hs" p ?H ?hs] p ne by (simp add: hashes_root_def)
  then have "EvaluateBranchWithHash ?H ((?b @ [dn_previous_diurn_root d]) @ [the (Diurn_Root env d)]) h 0 = the (Diurn_Root env d)"
    unfolding EvaluateBranch_snoc by (simp add: diurn_root [OF assms(1)] SymmetricCombine_commute)
  then show ?thesis using branch b by (intro exI [of _ ?b] exI [of _ d']) (simp add: d'_def)
qed


section \<open>Calendars of honest miners\<close>

text \<open>
  A message is honest for a calendar if its credit was prepared from it and is stored, and if the current difficulty is on the
  scale, away from its ends.
\<close>

definition on_scale :: "uint160 \<Rightarrow> bool" where
  "on_scale d \<longleftrightarrow> (\<exists>k. - 50000 \<le> k \<and> k \<le> 10000 \<and> d = GetDifficulty k)"

definition stored :: "('w, 'r) cal_env \<Rightarrow> 'w credit_message \<Rightarrow> bool" where
  "stored env msg \<longleftrightarrow> creditdata_msg env (GetHash160 env (the_mined_credit msg)) = msg
     \<and> creditdata_mined_credit env (GetHash160 env (the_mined_credit msg)) = the_mined_credit msg"

text \<open>When a calend is handled, the spent chain has a hash, and no relay message of the batches before it raises an exception.\<close>

definition node_ready :: "('w, 'r) cal_env \<Rightarrow> ('w, 'r) calendar \<Rightarrow> 'w credit_message \<Rightarrow> bool" where
  "node_ready env c msg \<longleftrightarrow> (let h = GetHash160 env (the_mined_credit msg)
     in BitChain_GetHash160 (hash_fun env) (node_spent_chain env h) \<noteq> None
        \<and> (\<forall>e. record_relay_state env h (cd_relaydata (calendardata c)) \<noteq> Some (Inl e)))"

definition honest :: "('w, 'r) cal_env \<Rightarrow> ('w, 'r) calendar \<Rightarrow> 'w credit_message \<Rightarrow> bool" where
  "honest env c msg \<longleftrightarrow> stored env msg \<and> on_scale (diurnal_difficulty (the_mined_credit msg))
     \<and> (\<exists>h credit. LastMinedCreditHash env c = Some h \<and> PrepareMinedCredit env h c credit = Some (the_mined_credit msg))
     \<and> (diurnal_difficulty (the_mined_credit msg) \<le> DifficultyAchieved env (work_proof msg) \<longrightarrow> node_ready env c msg)"

fun honest_run :: "('w, 'r) cal_env \<Rightarrow> 'w credit_message list \<Rightarrow> ('w, 'r) calendar \<Rightarrow> bool" where
  "honest_run env [] c = True"
| "honest_run env (msg # msgs) c =
     (honest env c msg \<and> (case AddMinedCreditToTip env msg c of None \<Rightarrow> True | Some c' \<Rightarrow> honest_run env msgs c'))"

text \<open>The state of the current diurn: \<open>s\<close> batches after its initial difficulty.\<close>

definition adjusted :: "uint160 \<Rightarrow> nat \<Rightarrow> uint160 \<Rightarrow> bool" where
  "adjusted initial s current \<longleftrightarrow>
     (if s = 0 then current = initial
      else \<exists>k. - 50000 \<le> k \<and> k + int s \<le> 10001 \<and> initial = GetDifficulty k \<and> current = GetDifficulty (k + int s))"

lemma adjusted_on_scale:
  assumes "adjusted initial s current" and "on_scale current"
  obtains k where "- 50000 \<le> k" "k + int s \<le> 10000" "initial = GetDifficulty k" "current = GetDifficulty (k + int s)"
proof -
  obtain l where l: "- 50000 \<le> l" "l \<le> 10000" "current = GetDifficulty l" using assms(2) unfolding on_scale_def by blast
  show thesis
  proof (cases "s = 0")
    case True
    then show ?thesis using that [of l] l assms(1) by (simp add: adjusted_def)
  next
    case False
    then obtain k where k: "- 50000 \<le> k" "k + int s \<le> 10001" "initial = GetDifficulty k" "current = GetDifficulty (k + int s)"
      using assms(1) by (auto simp: adjusted_def)
    have "Some l = Some (k + int s)" using infer_GetDifficulty [of l] infer_GetDifficulty [of "k + int s"] l k by simp
    then show ?thesis using that [of k] k l by simp
  qed
qed

lemma adjusted_next:
  assumes "adjusted initial s current" and "on_scale current"
  shows "\<exists>d. ApplyAdjustments current 1 = Some d \<and> adjusted initial (Suc s) d"
proof -
  obtain k where k: "- 50000 \<le> k" "k + int s \<le> 10000" "initial = GetDifficulty k" "current = GetDifficulty (k + int s)"
    using adjusted_on_scale [OF assms] .
  then have "ApplyAdjustments current 1 = Some (GetDifficulty (k + int s + 1))" using apply_GetDifficulty [of "k + int s" 1] by simp
  then show ?thesis using k by (auto simp: adjusted_def algebra_simps intro!: exI [of _ k])
qed

lemma adjusted_total:
  assumes "adjusted initial s current" and "on_scale current"
  shows "ApplyAdjustments initial (int s) = Some current"
proof -
  obtain k where k: "- 50000 \<le> k" "k + int s \<le> 10000" "initial = GetDifficulty k" "current = GetDifficulty (k + int s)"
    using adjusted_on_scale [OF assms] .
  then show ?thesis using apply_GetDifficulty [of k "int s"] by simp
qed

lemma on_scale_apply: "on_scale d \<Longrightarrow> \<exists>d'. ApplyAdjustments d n = Some d'"
  using apply_GetDifficulty by (fastforce simp: on_scale_def)


lemma infer_easier_returns: "unat diff \<le> 500000000 \<Longrightarrow> \<exists>k. infer_easier d diff n = Some k"
proof (induction "unat diff" arbitrary: diff n rule: less_induct)
  case less
  show ?case
  proof (cases "d < diff")
    case True
    then have "unat d < unat diff" by (simp add: word_less_nat_alt)
    then have "0 < unat diff" by simp
    moreover have e: "unat (easier diff) = unat diff * 999 div 1000" using less.prems by (intro unat_easier) simp
    ultimately have "unat (easier diff) < unat diff" by simp
    then obtain k where "infer_easier d (easier diff) (n + 1) = Some k" using less.hyps [of "easier diff" "n + 1"] less.prems by auto
    then show ?thesis using True by (subst infer_easier.simps) simp
  qed (subst infer_easier.simps, simp)
qed

lemma apply_to_zero: "\<exists>d. ApplyAdjustments 0 n = Some d"
proof -
  have "\<not> INITIAL_DIURNAL_DIFFICULTY < 0" "0 \<noteq> INITIAL_DIURNAL_DIFFICULTY" by (simp_all add: INITIAL_DIURNAL_DIFFICULTY_def)
  then show ?thesis using infer_easier_returns [of INITIAL_DIURNAL_DIFFICULTY 0 0]
    by (auto simp: ApplyAdjustments_def InferNumAdjustmentsFromDifficulty_def unat_initial)
qed

lemma check_calends_snoc:
  "check_calends env before cs = Some True \<Longrightarrow> check_calends env (rev cs @ before) [x] = Some True \<Longrightarrow> check_calends env before (cs @ [x]) = Some True"
proof (induction cs arbitrary: before)
  case (Cons c cs)
  have "check_calends env (c # before) cs = Some True"
    using Cons.prems(1) by (auto simp: Let_def bind_eq_Some_conv split: if_splits)
  then have "check_calends env (c # before) (cs @ [x]) = Some True" using Cons.IH [of "c # before"] Cons.prems(2) by simp
  then show ?case using Cons.prems(1) by (auto simp: Let_def bind_eq_Some_conv split: if_splits)
qed simp

lemma drop_credits_length [simp]: "length (drop_credits n k xss) = length xss"
  by (induction n k xss rule: drop_credits.induct) (simp_all add: Let_def)

text \<open>Trimming and storing top-up work changes nothing but the top-up work, and never fails while every calend has its list.\<close>

definition same_but_work :: "('w, 'r) calendar \<Rightarrow> ('w, 'r) calendar \<Rightarrow> bool" where
  "same_but_work c c' \<longleftrightarrow> calends c' = calends c \<and> current_diurn c' = current_diurn c \<and> calendardata c' = calendardata c
     \<and> length (extra_work c') = length (extra_work c)"

lemma trim_same:
  assumes "length (extra_work c) = length (calends c)" and "LastMinedCreditHash env c = Some h"
  shows "\<exists>c'. TrimTopUpWork env c = Some c' \<and> same_but_work c c'"
  using assms by (auto simp: TrimTopUpWork_def TotalWork_def TopUpWork_def LastMinedCredit_def Let_def same_but_work_def
      DropTopUpWorkCredits_def split: option.split)

lemma last_hash_same: "calends c' = calends c \<Longrightarrow> current_diurn c' = current_diurn c \<Longrightarrow> LastMinedCreditHash env c' = LastMinedCreditHash env c"
  by (simp add: LastMinedCreditHash_def)

lemma store_same:
  assumes "length (extra_work c) = length (calends c)" and "LastMinedCreditHash env c = Some h"
  shows "\<exists>c'. StoreTopUpWorkIfNecessary env msg c = Some c' \<and> same_but_work c c'"
proof -
  define c1 where "c1 = (if CalendWork c + diurnal_difficulty (the_mined_credit msg) + top_up_work_of (calends c) (extra_work c) 0
      \<le> total_work (the_mined_credit msg) + difficulty (the_mined_credit msg)
    then c\<lparr>current_extra_work := current_extra_work c @ [(the_mined_credit msg, work_proof msg)]\<rparr> else c)"
  have c1: "same_but_work c c1" by (simp add: c1_def same_but_work_def)
  then have "length (extra_work c1) = length (calends c1)" "LastMinedCreditHash env c1 = Some h"
    using assms last_hash_same [of c1 c env] by (simp_all add: same_but_work_def)
  then obtain c' where "TrimTopUpWork env c1 = Some c'" "same_but_work c1 c'" using trim_same by blast
  moreover have "StoreTopUpWorkIfNecessary env msg c = TrimTopUpWork env c1"
    using assms(1) by (simp add: StoreTopUpWorkIfNecessary_def TopUpWork_def c1_def Let_def)
  ultimately show ?thesis using c1 by (auto simp: same_but_work_def)
qed


abbreviation diurn_hashes :: "('w, 'r) calendar \<Rightarrow> uint160 list" where
  "diurn_hashes c \<equiv> hashes (dn_block (current_diurn c))"

definition last_hash :: "uint160 list \<Rightarrow> uint160" where
  "last_hash hs = (if hs = [] then 0 else last hs)"

definition batches_after :: "('w, 'r) calendar \<Rightarrow> nat" where
  "batches_after c = length (diurn_hashes c) - (if calends c = [] then 0 else 1)"

definition first_difficulty_ok :: "'w calend list \<Rightarrow> uint160 \<Rightarrow> bool" where
  "first_difficulty_ok cs d \<longleftrightarrow>
     (case rev cs of
        [] \<Rightarrow> d = INITIAL_DIURNAL_DIFFICULTY
      | [p] \<Rightarrow> True
      | p # q # _ \<Rightarrow> GetNextDiurnInitialDifficulty (the_mined_credit q) (the_mined_credit p) = Some d)"

definition diurn_links :: "('w, 'r) cal_env \<Rightarrow> 'w calend list \<Rightarrow> 'w diurn \<Rightarrow> bool" where
  "diurn_links env cs d \<longleftrightarrow>
     (if cs = [] then dn_previous_diurn_root d = 0 \<and> (\<forall>h \<in> set (hashes (dn_block d)). previous_diurn_root (creditdata_mined_credit env h) = 0)
      else hashes (dn_block d) \<noteq> [] \<and> stored env (last cs) \<and> dn_previous_diurn_root d = Calend_Root env (last cs)
        \<and> hd (hashes (dn_block d)) = GetHash160 env (the_mined_credit (last cs))
        \<and> (\<forall>h \<in> set (tl (hashes (dn_block d))). previous_diurn_root (creditdata_mined_credit env h) = dn_previous_diurn_root d))"

definition cal_inv :: "('w, 'r) cal_env \<Rightarrow> ('w, 'r) calendar \<Rightarrow> bool" where
  "cal_inv env c \<longleftrightarrow> diurnal_inv (hash_fun env) (dn_block (current_diurn c)) \<and> length (extra_work c) = length (calends c)
     \<and> check_first_calend (calends c) = Some True \<and> check_calends env [] (calends c) = Some True
     \<and> diurn_links env (calends c) (current_diurn c)
     \<and> first_difficulty_ok (calends c) (initial_difficulty (current_diurn c))
     \<and> adjusted (initial_difficulty (current_diurn c)) (batches_after c) (current_difficulty (current_diurn c))
     \<and> batch_number (creditdata_mined_credit env (last_hash (diurn_hashes c)))
         = (if calends c = [] then 0 else batch_number (the_mined_credit (last (calends c)))) + of_nat (batches_after c)"

lemma cal_inv_start:
  "batch_number (creditdata_mined_credit env 0) = 0 \<Longrightarrow> cal_inv env (Calendar_default data)"
  by (simp add: cal_inv_def Calendar_default_def Diurn_default_def diurnal_inv_new check_first_calend_def diurn_links_def
      first_difficulty_ok_def adjusted_def batches_after_def last_hash_def) (simp add: DiurnalBlock_new_def)

lemma diurn_last: "Diurn_Last d = Some (last_hash (hashes (dn_block d)))"
  by (auto simp: Diurn_Last_def Diurnal_Size_def Diurnal_Last_def last_hash_def last_conv_nth)

lemma inv_last_hash: "cal_inv env c \<Longrightarrow> LastMinedCreditHash env c = Some (last_hash (diurn_hashes c))"
  by (auto simp: LastMinedCreditHash_def diurn_last Diurn_Size_def Diurnal_Size_def cal_inv_def diurn_links_def last_hash_def split: if_splits)

lemma last_in_tl: "1 < length hs \<Longrightarrow> last hs \<in> set (tl hs)"
  by (cases hs) auto

lemma inv_previous_root:
  assumes "cal_inv env c"
  shows "PreviousDiurnRoot env c = Some (dn_previous_diurn_root (current_diurn c))"
proof -
  have L: "diurn_links env (calends c) (current_diurn c)" using assms by (simp add: cal_inv_def)
  have size: "Diurn_Size (current_diurn c) = length (diurn_hashes c)" by (simp add: Diurn_Size_def Diurnal_Size_def)
  show ?thesis
  proof (cases "1 < length (diurn_hashes c)")
    case True
    then have "previous_diurn_root (creditdata_mined_credit env (last (diurn_hashes c))) = dn_previous_diurn_root (current_diurn c)"
      using L last_in_tl [OF True] list.set_sel(2) [of "diurn_hashes c"] True by (fastforce simp: diurn_links_def split: if_splits)
    then show ?thesis using True by (auto simp: PreviousDiurnRoot_def size diurn_last last_hash_def)
  next
    case False
    show ?thesis
    proof (cases "calends c = []")
      case True
      then show ?thesis using L False by (simp add: PreviousDiurnRoot_def size diurn_links_def)
    next
      case calends: False
      then have one: "length (diurn_hashes c) = 1" using L False by (cases "diurn_hashes c") (auto simp: diurn_links_def)
      then have "Diurn_First (current_diurn c) = Some (hd (diurn_hashes c))"
        by (cases "diurn_hashes c") (auto simp: Diurn_First_def Diurnal_Size_def Diurnal_First_def nth_opt_def)
      then show ?thesis using one calends L by (simp add: PreviousDiurnRoot_def size diurn_links_def stored_def Calend_Root_def Let_def)
    qed
  qed
qed

lemma inv_check:
  assumes "cal_inv env c"
  shows "CheckRootsAndDifficulty env c = Some True"
proof -
  have "check_first_calend (calends c) = Some True" "check_calends env [] (calends c) = Some True" "diurn_links env (calends c) (current_diurn c)"
    using assms by (simp_all add: cal_inv_def)
  then show ?thesis using inv_previous_root [OF assms]
    by (auto simp: CheckRootsAndDifficulty_def diurn_last Diurn_Size_def Diurnal_Size_def diurn_links_def split: if_splits)
qed


lemma honest_fields:
  assumes "cal_inv env c" and "honest env c msg"
  defines "credit \<equiv> the_mined_credit msg"
  shows "stored env msg" and "on_scale (current_difficulty (current_diurn c))"
    and "previous_diurn_root credit = dn_previous_diurn_root (current_diurn c)"
    and "diurnal_block_root credit = hashes_root (hash_fun env) (diurn_hashes c)"
    and "diurnal_difficulty credit = current_difficulty (current_diurn c)"
    and "previous_mined_credit_hash credit = last_hash (diurn_hashes c)"
    and "batch_number credit = (if calends c = [] then 0 else batch_number (the_mined_credit (last (calends c)))) + of_nat (batches_after c) + 1"
proof -
  have block: "diurnal_inv (hash_fun env) (dn_block (current_diurn c))"
    and numbers: "batch_number (creditdata_mined_credit env (last_hash (diurn_hashes c)))
         = (if calends c = [] then 0 else batch_number (the_mined_credit (last (calends c)))) + of_nat (batches_after c)"
    using assms(1) by (simp_all add: cal_inv_def)
  obtain b where b: "Diurnal_Root (hash_fun env) (dn_block (current_diurn c)) = Some (hashes_root (hash_fun env) (diurn_hashes c), b)"
    using Diurnal_Root_inv [OF block] by auto
  obtain c0 where "PrepareMinedCredit env (last_hash (diurn_hashes c)) c c0 = Some credit"
    using assms(2) inv_last_hash [OF assms(1)] by (auto simp: honest_def credit_def)
  then have c0: "credit = c0\<lparr>previous_diurn_root := dn_previous_diurn_root (current_diurn c), diurnal_block_root := hashes_root (hash_fun env) (diurn_hashes c),
      diurnal_difficulty := current_difficulty (current_diurn c), previous_mined_credit_hash := last_hash (diurn_hashes c),
      batch_number := batch_number (creditdata_mined_credit env (last_hash (diurn_hashes c))) + 1,
      total_work := total_work (creditdata_mined_credit env (last_hash (diurn_hashes c))) + difficulty (creditdata_mined_credit env (last_hash (diurn_hashes c)))\<rparr>"
    using inv_previous_root [OF assms(1)] b by (simp add: PrepareMinedCredit_def Let_def)
  show "stored env msg" using assms(2) by (simp add: honest_def)
  show "on_scale (current_difficulty (current_diurn c))" using assms(2) c0 unfolding credit_def by (simp add: honest_def)
  show "batch_number credit = (if calends c = [] then 0 else batch_number (the_mined_credit (last (calends c)))) + of_nat (batches_after c) + 1"
    using c0 numbers by simp
  show "previous_diurn_root credit = dn_previous_diurn_root (current_diurn c)"
      "diurnal_block_root credit = hashes_root (hash_fun env) (diurn_hashes c)"
      "diurnal_difficulty credit = current_difficulty (current_diurn c)"
      "previous_mined_credit_hash credit = last_hash (diurn_hashes c)"
    using c0 by simp_all
qed

lemma inv_same_but_work: "cal_inv env c \<Longrightarrow> same_but_work c c' \<Longrightarrow> cal_inv env c'"
  by (simp add: cal_inv_def same_but_work_def batches_after_def)

lemma batch_step:
  assumes "cal_inv env c" and "honest env c msg" and "length (diurn_hashes c) + 1 < 2 ^ 31"
    and "DifficultyAchieved env (work_proof msg) < diurnal_difficulty (the_mined_credit msg)"
  shows "\<exists>c'. AddMinedCreditToTip env msg c = Some c' \<and> cal_inv env c' \<and> diurn_hashes c' = diurn_hashes c @ [GetHash160 env (the_mined_credit msg)] \<and> calends c' = calends c"
proof -
  let ?d = "current_diurn c" and ?h = "GetHash160 env (the_mined_credit msg)"
  note f = honest_fields [OF assms(1,2)]
  have adj: "adjusted (initial_difficulty ?d) (batches_after c) (current_difficulty ?d)" and L: "diurn_links env (calends c) ?d"
    and len: "length (extra_work c) = length (calends c)"
    using assms(1) by (simp_all add: cal_inv_def)
  obtain diff where diff: "ApplyAdjustments (current_difficulty ?d) 1 = Some diff" "adjusted (initial_difficulty ?d) (Suc (batches_after c)) diff"
    using adjusted_next [OF adj f(2)] by blast
  define d' where "d' = ?d\<lparr>dn_block := Diurnal_Add ?h (dn_block ?d), credits_in_diurn := credits_in_diurn ?d @ [creditdata_msg env ?h], current_difficulty := diff\<rparr>"
  define c1 where "c1 = c\<lparr>current_diurn := d'\<rparr>"
  have c1: "calends c1 = calends c" "extra_work c1 = extra_work c" "current_diurn c1 = d'" "initial_difficulty d' = initial_difficulty ?d"
      "current_difficulty d' = diff"
    by (simp_all add: c1_def d'_def)
  have hs: "diurn_hashes c1 = diurn_hashes c @ [?h]" by (simp add: c1_def d'_def diurnal_simps)
  have after: "batches_after c1 = Suc (batches_after c)"
    using L hs by (cases "diurn_hashes c") (auto simp: batches_after_def c1_def diurn_links_def split: if_splits)
  have "Calendar_HandleBatch env msg c = Some c1"
    using f(3,6) diff(1) by (simp add: Calendar_HandleBatch_def diurn_last Diurn_Add_def c1_def d'_def Let_def)
  moreover have inv: "cal_inv env c1"
  proof -
    have "diurnal_inv (hash_fun env) (dn_block d')" using assms(3) by (simp add: d'_def diurnal_inv_Add)
    moreover have "diurn_links env (calends c) d'"
      using L f(1,3) by (auto simp: diurn_links_def d'_def diurnal_simps stored_def)
    moreover have "batch_number (creditdata_mined_credit env ?h)
        = (if calends c = [] then 0 else batch_number (the_mined_credit (last (calends c)))) + of_nat (Suc (batches_after c))"
      using f(1,7) by (simp add: stored_def)
    ultimately show ?thesis using assms(1) diff(2) hs unfolding cal_inv_def after c1 by (simp add: last_hash_def)
  qed
  moreover obtain c' where c': "StoreTopUpWorkIfNecessary env msg c1 = Some c'" "same_but_work c1 c'"
    using store_same [OF _ inv_last_hash [OF inv]] len by (auto simp: c1_def)
  ultimately have "AddMinedCreditToTip env msg c = Some c'"
    using assms(4) f(6) inv_last_hash [OF assms(1)] by (simp add: AddMinedCreditToTip_def HandleMinedCreditMessage_def not_le [symmetric])
  then show ?thesis using inv_same_but_work [OF inv c'(2)] c'(2) hs c1(1) by (simp add: same_but_work_def)
qed


lemma calend_checks:
  assumes "cal_inv env c" and "honest env c msg" and "length (diurn_hashes c) < 2 ^ 31"
    and "diurnal_difficulty (the_mined_credit msg) \<le> DifficultyAchieved env (work_proof msg)"
  shows "check_first_calend (calends c @ [msg]) = Some True" and "check_calends env [] (calends c @ [msg]) = Some True"
proof -
  let ?d = "current_diurn c"
  note f = honest_fields [OF assms(1,2)]
  have inv: "check_first_calend (calends c) = Some True" "check_calends env [] (calends c) = Some True" "diurn_links env (calends c) ?d"
      "first_difficulty_ok (calends c) (initial_difficulty ?d)" "adjusted (initial_difficulty ?d) (batches_after c) (current_difficulty ?d)"
    using assms(1) by (simp_all add: cal_inv_def)
  have "batches_after c < 2 ^ 31" using assms(3) by (simp add: batches_after_def)
  then have u: "uint (of_nat (batches_after c) :: u32) = int (batches_after c)" by (simp add: uint_nat unat_of_nat take_bit_nat_eq_self)
  have total: "ApplyAdjustments (initial_difficulty ?d) (int (batches_after c)) = Some (current_difficulty ?d)"
    by (rule adjusted_total [OF inv(5) f(2)])
  show "check_first_calend (calends c @ [msg]) = Some True"
  proof (cases "calends c = []")
    case True
    then show ?thesis using f(5,7) u total inv(4) by (simp add: check_first_calend_def first_difficulty_ok_def)
  next
    case False
    then show ?thesis using inv(1) by (cases "calends c") (simp_all add: check_first_calend_def)
  qed
  have "check_calends env (rev (calends c)) [msg] = Some True"
  proof (cases "rev (calends c)")
    case Nil
    then show ?thesis using assms(4) by (simp add: not_less)
  next
    case (Cons p before)
    then have ne: "calends c \<noteq> []" and p: "last (calends c) = p" by (auto simp: rev_eq_Cons_iff)
    then have root: "previous_diurn_root (the_mined_credit msg) = Calend_Root env p" using inv(3) f(3) by (simp add: diurn_links_def)
    have size: "batch_number (the_mined_credit msg) - batch_number (the_mined_credit p) - 1 = of_nat (batches_after c)"
      using f(7) ne p by simp
    show ?thesis
    proof (cases before)
      case Nil
      then show ?thesis using Cons root assms(4) by (simp add: not_less Let_def)
    next
      case (Cons q rest)
      then have "GetNextDiurnInitialDifficulty (the_mined_credit q) (the_mined_credit p) = Some (initial_difficulty ?d)"
        using inv(4) \<open>rev (calends c) = p # before\<close> by (simp add: first_difficulty_ok_def)
      then show ?thesis using Cons \<open>rev (calends c) = p # before\<close> root assms(4) size u total f(5) by (simp add: not_less Let_def)
    qed
  qed
  then show "check_calends env [] (calends c @ [msg]) = Some True" using check_calends_snoc [OF inv(2), of msg] by simp
qed

lemma assign_new_diurn:
  assumes "diurnal_inv H (dn_block d)"
  shows "\<exists>b. Diurn_assign d (Diurn_new r) = Some (d\<lparr>dn_previous_diurn_root := r, initial_difficulty := 0, current_difficulty := 0,
      dn_block := b, credits_in_diurn := []\<rparr>) \<and> hashes b = [] \<and> diurnal_inv H b"
proof -
  have "Diurnal_read [] b = Some b" for b by (subst Diurnal_read.simps) simp
  then show ?thesis using RemoveAll_empties [OF assms]
    by (auto simp: Diurn_assign_def Diurn_new_def Diurnal_setvch_def Diurnal_getvch_eq DiurnalBlock_new_def)
qed

lemma finish_step:
  assumes "cal_inv env c" and "honest env c msg"
    and "record_relay_state env (GetHash160 env (the_mined_credit msg)) (cd_relaydata (calendardata c)) = Some (Inr r)"
  shows "\<exists>c' D. FinishCurrentCalendAndStartNext env msg c = Some c' \<and> calends c' = calends c @ [msg] \<and> extra_work c' = extra_work c
    \<and> current_diurn c' = D \<and> hashes (dn_block D) = [GetHash160 env (the_mined_credit msg)] \<and> diurnal_inv (hash_fun env) (dn_block D)
    \<and> dn_previous_diurn_root D = Calend_Root env msg \<and> current_difficulty D = initial_difficulty D
    \<and> first_difficulty_ok (calends c @ [msg]) (initial_difficulty D)"
proof -
  let ?d = "current_diurn c" and ?h = "GetHash160 env (the_mined_credit msg)"
  note f = honest_fields [OF assms(1,2)]
  have block: "diurnal_inv (hash_fun env) (dn_block ?d)" and L: "diurn_links env (calends c) ?d" using assms(1) by (simp_all add: cal_inv_def)
  define q where "q = creditdata_mined_credit env (GetLastCalendCreditHash env c)"
  obtain next_d where n: "GetNextDiurnInitialDifficulty q (the_mined_credit msg) = Some next_d"
    using on_scale_apply [OF f(2)] f(5) by (fastforce simp: GetNextDiurnInitialDifficulty_def Let_def)
  have first: "first_difficulty_ok (calends c @ [msg]) next_d"
    using n L by (cases "rev (calends c)")
      (auto simp: first_difficulty_ok_def q_def GetLastCalendCreditHash_def diurn_links_def stored_def rev_eq_Cons_iff)
  have root: "Diurn_Root env ?d = Some (Calend_Root env msg)" using diurn_root [OF block] f(3,4) by (simp add: Calend_Root_def)
  obtain b where b: "Diurn_assign ?d (Diurn_new (Calend_Root env msg)) = Some (?d\<lparr>dn_previous_diurn_root := Calend_Root env msg,
      initial_difficulty := 0, current_difficulty := 0, dn_block := b, credits_in_diurn := []\<rparr>)" "hashes b = []" "diurnal_inv (hash_fun env) b"
    using assign_new_diurn [OF block] by blast
  obtain z where z: "ApplyAdjustments 0 1 = Some z" using apply_to_zero by blast
  have "diurnal_inv (hash_fun env) (Diurnal_Add ?h b)" using b(2) by (simp add: diurnal_inv_Add)
  then show ?thesis using n root b z first assms(3)
    by (simp add: FinishCurrentCalendAndStartNext_def Let_def q_def [symmetric] Calend_new_def Diurn_Add_def SetInitialDifficulty_def diurnal_simps)
qed


lemma honest_cong:
  assumes "calends c' = calends c" and "current_diurn c' = current_diurn c" and "cd_relaydata (calendardata c') = cd_relaydata (calendardata c)"
  shows "honest env c' msg = honest env c msg"
proof -
  have "PrepareMinedCredit env h c' = PrepareMinedCredit env h c" for h
    using assms by (simp add: fun_eq_iff PrepareMinedCredit_def PreviousDiurnRoot_def)
  then show ?thesis using last_hash_same [OF assms(1,2)] assms(3) by (simp add: honest_def node_ready_def)
qed

lemma calend_step:
  assumes "cal_inv env c" and "honest env c msg" and "length (diurn_hashes c) < 2 ^ 31"
    and "diurnal_difficulty (the_mined_credit msg) \<le> DifficultyAchieved env (work_proof msg)"
    and "record_relay_state env (GetHash160 env (the_mined_credit msg)) (cd_relaydata (calendardata c)) \<noteq> None"
  shows "\<exists>c'. AddMinedCreditToTip env msg c = Some c' \<and> cal_inv env c' \<and> diurn_hashes c' = [GetHash160 env (the_mined_credit msg)] \<and> calends c' = calends c @ [msg]"
proof -
  let ?h = "GetHash160 env (the_mined_credit msg)"
  note f = honest_fields [OF assms(1,2)] and ok = calend_checks [OF assms(1-4)]
  have ready: "node_ready env c msg" using assms(2,4) by (simp add: honest_def)
  obtain s where s: "BitChain_GetHash160 (hash_fun env) (node_spent_chain env ?h) = Some s" using ready by (auto simp: node_ready_def Let_def)
  obtain r where r: "record_relay_state env ?h (cd_relaydata (calendardata c)) = Some (Inr r)"
    using ready assms(5) unfolding node_ready_def Let_def by (metis not_Some_eq obj_sumE)
  define c0 where "c0 = c\<lparr>calendardata := calendardata c
      \<lparr>cd_is_calend := insert ?h (cd_is_calend (calendardata c)), cd_calend := (cd_calend (calendardata c))(?h \<mapsto> msg),
       cd_chain := (cd_chain (calendardata c))(s \<mapsto> node_spent_chain env ?h),
       cd_credit_hash := (cd_credit_hash (calendardata c))(combine_roots env (diurnal_block_root (the_mined_credit msg)) (dn_previous_diurn_root (current_diurn c)) \<mapsto> ?h)\<rparr>\<rparr>"
  have c0: "calends c0 = calends c" "current_diurn c0 = current_diurn c" "extra_work c0 = extra_work c"
    "cd_relaydata (calendardata c0) = cd_relaydata (calendardata c)" by (simp_all add: c0_def)
  have inv0: "cal_inv env c0" and honest0: "honest env c0 msg"
    using assms(1,2) c0 honest_cong [OF c0(1,2,4)]
    by (simp_all add: cal_inv_def batches_after_def)
  obtain c1 where c1: "FinishCurrentCalendAndStartNext env msg c0 = Some c1" "calends c1 = calends c @ [msg]" "extra_work c1 = extra_work c"
      "diurn_hashes c1 = [?h]" "diurnal_inv (hash_fun env) (dn_block (current_diurn c1))" "dn_previous_diurn_root (current_diurn c1) = Calend_Root env msg"
      "current_difficulty (current_diurn c1) = initial_difficulty (current_diurn c1)" "first_difficulty_ok (calends c @ [msg]) (initial_difficulty (current_diurn c1))"
    using finish_step [OF inv0 honest0, of r] r unfolding c0 by blast
  define c2 where "c2 = c1\<lparr>extra_work := extra_work c1 @ [current_extra_work c1], current_extra_work := []\<rparr>"
  have c2: "calends c2 = calends c @ [msg]" "current_diurn c2 = current_diurn c1" "length (extra_work c2) = length (calends c2)"
    using c1(2,3) assms(1) by (simp_all add: c2_def cal_inv_def)
  have inv2: "cal_inv env c2"
    using c1 c2 ok f(1) by (simp add: cal_inv_def diurn_links_def adjusted_def batches_after_def last_hash_def stored_def)
  obtain c' where c': "TrimTopUpWork env c2 = Some c'" "same_but_work c2 c'"
    using trim_same [OF c2(3) inv_last_hash [OF inv2]] by blast
  have "HandleCalend env msg c = Some c'"
    using f(3,5) assms(4) c1(1) c'(1) s by (simp add: HandleCalend_def Let_def Calend_new_def c0_def [symmetric] c0(2) c2_def)
  then have "AddMinedCreditToTip env msg c = Some c'"
    using assms(4) f(6) inv_last_hash [OF assms(1)] by (simp add: AddMinedCreditToTip_def HandleMinedCreditMessage_def)
  then show ?thesis using inv_same_but_work [OF inv2 c'(2)] c'(2) c1(4) c2(1,2) by (simp add: same_but_work_def)
qed

definition closes_diurn :: "('w, 'r) cal_env \<Rightarrow> 'w credit_message \<Rightarrow> bool" where
  "closes_diurn env msg \<longleftrightarrow> diurnal_difficulty (the_mined_credit msg) \<le> DifficultyAchieved env (work_proof msg)"

text \<open>
  What the calendar relies on of the relay states: for a credit whose history is traced, the computation of its relay state ends.  \<open>traced\<close> goes
  from a credit to the next one that is stored.
\<close>

locale relay_recording =
  fixes env :: "('w, 'r) cal_env" and traced :: "uint160 \<Rightarrow> bool"
  assumes traced_next: "stored env msg \<Longrightarrow> traced (previous_mined_credit_hash (the_mined_credit msg)) \<Longrightarrow> traced (GetHash160 env (the_mined_credit msg))"
    and traced_records: "traced h \<Longrightarrow> record_relay_state env h r \<noteq> None"
begin

lemma honest_step:
  assumes "cal_inv env c" and "honest env c msg" and "length (diurn_hashes c) \<le> n" and "n + 1 < 2 ^ 31" and "traced (last_hash (diurn_hashes c))"
  shows "\<exists>c'. AddMinedCreditToTip env msg c = Some c' \<and> cal_inv env c' \<and> length (diurn_hashes c') \<le> n + 1 \<and> traced (last_hash (diurn_hashes c'))
    \<and> calends c' = calends c @ (if closes_diurn env msg then [msg] else [])"
proof -
  have t: "traced (GetHash160 env (the_mined_credit msg))"
    using honest_fields(1,6) [OF assms(1,2)] traced_next [of msg] assms(5) by simp
  show ?thesis
  proof (cases "diurnal_difficulty (the_mined_credit msg) \<le> DifficultyAchieved env (work_proof msg)")
    case True
    then show ?thesis using calend_step [OF assms(1,2) _ True traced_records [OF t]] assms(3,4) t by (fastforce simp: last_hash_def closes_diurn_def)
  next
    case False
    then show ?thesis using batch_step [OF assms(1,2)] assms(3,4) t by (fastforce simp: last_hash_def closes_diurn_def)
  qed
qed

lemma honest_run_inv:
  "cal_inv env c \<Longrightarrow> honest_run env msgs c \<Longrightarrow> length (diurn_hashes c) \<le> n \<Longrightarrow> n + length msgs < 2 ^ 31 \<Longrightarrow> traced (last_hash (diurn_hashes c)) \<Longrightarrow>
   \<exists>c'. add_messages env msgs c = Some c' \<and> cal_inv env c' \<and> calends c' = calends c @ filter (closes_diurn env) msgs"
proof (induction msgs arbitrary: c n)
  case (Cons msg msgs)
  then obtain c1 where c1: "AddMinedCreditToTip env msg c = Some c1" "cal_inv env c1" "length (diurn_hashes c1) \<le> n + 1" "traced (last_hash (diurn_hashes c1))"
      "calends c1 = calends c @ (if closes_diurn env msg then [msg] else [])"
    using honest_step [of c msg n] by auto
  then show ?case using Cons.IH [OF c1(2) _ c1(3)] Cons.prems by auto
qed simp

lemma honest_valid:
  assumes "batch_number (creditdata_mined_credit env 0) = 0" and "honest_run env msgs (Calendar_default data)" and "length msgs < 2 ^ 31" and "traced 0"
  shows "\<exists>c. add_messages env msgs (Calendar_default data) = Some c \<and> CheckRootsAndDifficulty env c = Some True
    \<and> calends c = filter (closes_diurn env) msgs \<and> length (extra_work c) = length (calends c)
    \<and> Calendar_Validate env c = Some (\<not> list_ex (\<lambda>calend. cd_failure_details (calendardata c) (Calend_Root env calend) \<noteq> None) (calends c))"
proof -
  have "diurn_hashes (Calendar_default data) = []" by (simp add: Calendar_default_def Diurn_default_def DiurnalBlock_new_def)
  then obtain c where c: "add_messages env msgs (Calendar_default data) = Some c" "cal_inv env c" "calends c = filter (closes_diurn env) msgs"
    using honest_run_inv [OF cal_inv_start [OF assms(1)] assms(2), of 0] assms(3,4) by (auto simp: last_hash_def Calendar_default_def)
  then show ?thesis using inv_check [OF c(2)] c(3) by (auto simp: Calendar_Validate_def cal_inv_def)
qed

end

lemma credit_connects:
  assumes "diurnal_inv (hash_fun env) (dn_block d)" and "combine_roots env batch_root bridge \<in> set (hashes (dn_block d))"
    and "VerifyBranchFromOrderedHashTree (hash_fun env) (ucast (cb_position credit)) (Credit_getvch kget credit) (cb_branch credit) batch_root"
    and "Diurn_Root env d = Some r" and "ContainsDiurn env r calendar"
  shows "\<exists>branch d'. Diurn_Branch env (combine_roots env batch_root bridge) d = Some (branch, d')
    \<and> CreditInBatchHasValidConnection env kget InMainChain (credit\<lparr>cb_diurn_branch := bridge # branch\<rparr>) calendar = Some True"
proof -
  let ?H = "hash_fun env" and ?h = "combine_roots env batch_root bridge"
  obtain siblings d' where b: "Diurn_Branch env ?h d = Some (siblings @ [dn_previous_diurn_root d, r], d')"
      "EvaluateBranchWithHash ?H (siblings @ [dn_previous_diurn_root d, r]) ?h 0 = r"
    using diurn_branch [OF assms(1,2)] assms(4) by auto
  define branch where "branch = siblings @ [dn_previous_diurn_root d]"
  have "EvaluateBranchWithHash ?H (bridge # (branch @ [r])) batch_root 0 = foldl (SymmetricCombine ?H) batch_root (bridge # branch)"
    using EvaluateBranch_snoc [of ?H "bridge # branch" r batch_root] by simp
  also have "\<dots> = r" using b(2) EvaluateBranch_snoc [of ?H branch r ?h] by (simp add: branch_def)
  finally have eval: "EvaluateBranchWithHash ?H (bridge # (branch @ [r])) batch_root 0 = r" .
  have same: "Credit_getvch kget (credit\<lparr>cb_diurn_branch := x\<rparr>) = Credit_getvch kget credit" for x by (simp add: Credit_getvch_def)
  have V: "cb_branch credit \<noteq> []" "last (cb_branch credit) = batch_root"
    using assms(3) by (auto simp: VerifyBranchFromOrderedHashTree_def split: if_splits)
  have "CreditInBatchHasValidConnection env kget InMainChain (credit\<lparr>cb_diurn_branch := bridge # (branch @ [r])\<rparr>) calendar = Some True"
    using V eval assms(3,5) same by (simp add: CreditInBatchHasValidConnection_def CheckBranches_def)
  then show ?thesis using b(1) by (intro exI [of _ "branch @ [r]"] exI [of _ d']) (simp add: branch_def)
qed


section \<open>Properties\<close>

definition example_credit :: mined_credit where
  "example_credit = \<lparr>previous_mined_credit_hash = 0, previous_diurn_root = 0, diurnal_block_root = 0, diurnal_difficulty = INITIAL_DIURNAL_DIFFICULTY,
     difficulty = 7, total_work = 0, batch_number = 1, mc_timestamp = 5,
     mc_credit = \<lparr>amount = 50, public_key = []\<rparr>, mc_offset = 0, mc_batch_root = 0, mc_spent_chain_hash = 0, mc_relay_state_hash = 0, mc_other_fields = []\<rparr>"

definition example_hash_list :: short_hash_list where
  "example_hash_list = \<lparr>full_hashes = [], short_hashes = [], disambiguator = 0\<rparr>"

definition example_env :: "(uint160, unit) cal_env" where
  "example_env = \<lparr>hash_fun = (\<lambda>bytes. of_nat (length bytes)), GetHash160 = (\<lambda>credit. 1), DifficultyAchieved = (\<lambda>proof. proof), WorkDone = (\<lambda>proof. proof),
     SpotCheck_Valid = (\<lambda>proof. True), creditdata_msg = (\<lambda>h. \<lparr>the_mined_credit = example_credit, work_proof = 9, msg_hash_list = example_hash_list, msg_other_fields = []\<rparr>),
     has_msg = (\<lambda>h. h = 1),
     creditdata_mined_credit = (\<lambda>h. if h = 1 then example_credit else example_credit\<lparr>difficulty := 0, batch_number := 0\<rparr>),
     has_mined_credit = (\<lambda>h. h = 1), node_spent_chain = (\<lambda>h. BitChain_new), record_relay_state = (\<lambda>h r. Some (Inr r))\<rparr>"

definition empty_data :: "(uint160, unit) calendar_data" where
  "empty_data = \<lparr>cd_is_calend = {}, cd_calend = Map.empty, cd_credit_hash = Map.empty, cd_diurn = Map.empty,
     cd_failure_details = Map.empty, cd_chain = Map.empty, cd_relaydata = ()\<rparr>"

text \<open>
  The number of adjustments that the code infers from a difficulty of its scale is the number from which the difficulty was
  computed, so that adjustments add up, for sixty thousand steps upwards and more than ten thousand downwards.
\<close>

theorem adjustments_add_up:
  assumes "- 60000 \<le> k" and "k \<le> 10800"
  shows "InferNumAdjustmentsFromDifficulty (GetDifficulty k) = Some k \<and> ApplyAdjustments (GetDifficulty k) n = Some (GetDifficulty (k + n))"
  using infer_GetDifficulty [OF assms] apply_GetDifficulty [OF assms] by simp

theorem adjustments_add_up_witness:
  "InferNumAdjustmentsFromDifficulty (GetDifficulty (- 300)) = Some (- 300) \<and> ApplyAdjustments (GetDifficulty (- 300)) 60 = Some (GetDifficulty (- 240))"
  using adjustments_add_up [of "- 300" 60] by simp


text \<open>
  Taking back the last batch of a diurn restores its hashes, its messages and its difficulties.
\<close>

theorem diurn_add_remove:
  assumes "current_difficulty d = GetDifficulty k" and "- 60000 \<le> k" and "k < 10800"
  shows "\<exists>d1 d2. Diurn_Add env h d = Some d1 \<and> Diurn_Hashes d1 = Diurn_Hashes d @ [h] \<and> Diurn_RemoveLast d1 = Some d2
    \<and> Diurn_Hashes d2 = Diurn_Hashes d \<and> credits_in_diurn d2 = credits_in_diurn d
    \<and> current_difficulty d2 = current_difficulty d \<and> initial_difficulty d2 = initial_difficulty d
    \<and> dn_previous_diurn_root d2 = dn_previous_diurn_root d"
proof -
  have hashes_eq: "Diurnal_Hashes b = hashes b" for b
  proof -
    have "fold (\<lambda>h hs. hs @ [h]) xs ys = ys @ xs" for xs ys :: "uint160 list" by (induction xs arbitrary: ys) auto
    then show ?thesis by (simp add: Diurnal_Hashes_def)
  qed
  have up: "ApplyAdjustments (current_difficulty d) 1 = Some (GetDifficulty (k + 1))"
    and down: "ApplyAdjustments (GetDifficulty (k + 1)) (- 1) = Some (GetDifficulty k)"
    using apply_GetDifficulty [of k 1] apply_GetDifficulty [of "k + 1" "- 1"] assms by simp_all
  have "hashes (Diurnal_Add h (dn_block d)) \<noteq> []" by (simp add: diurnal_simps)
  then obtain b where b: "Diurnal_RemoveLast (Diurnal_Add h (dn_block d)) = Some b" unfolding Diurnal_RemoveLast_def Let_def by simp
  then have "hashes b = hashes (dn_block d)" using hashes_RemoveLast [OF b] by (simp add: hashes_Add)
  then show ?thesis using up down b assms(1) by (simp add: Diurn_Add_def Diurn_RemoveLast_def Diurn_Hashes_def hashes_eq diurnal_simps)
qed

theorem diurn_add_remove_witness:
  "\<exists>d1 d2. Diurn_Add example_env 5 Diurn_default = Some d1 \<and> Diurn_RemoveLast d1 = Some d2 \<and> Diurn_Hashes d2 = Diurn_Hashes (Diurn_default :: uint160 diurn)"
  using diurn_add_remove [of "Diurn_default :: uint160 diurn" 0 example_env 5] by (auto simp: Diurn_default_def initial_difficulty_scale)

text \<open>
  C28. A credit of a batch of a finished diurn connects to the calendar.  If the branch of the credit leads to the root of its batch, the mined
  credit of the batch is one of the diurn, and the calendar contains the diurn, then the check accepts the credit with the branch that the
  diurn gives for the mined credit, behind the hash that bridges from the root of the batch to the hash of the mined credit.
\<close>

theorem credit_connects_to_calendar:
  assumes "diurnal_inv (hash_fun env) (dn_block d)" and "combine_roots env batch_root bridge \<in> set (hashes (dn_block d))"
    and "VerifyBranchFromOrderedHashTree (hash_fun env) (ucast (cb_position credit)) (Credit_getvch kget credit) (cb_branch credit) batch_root"
    and "Diurn_Root env d = Some r" and "ContainsDiurn env r calendar"
  shows "\<exists>branch d'. Diurn_Branch env (combine_roots env batch_root bridge) d = Some (branch, d')
    \<and> CreditInBatchHasValidConnection env kget InMainChain (credit\<lparr>cb_diurn_branch := bridge # branch\<rparr>) calendar = Some True"
  using assms by (rule credit_connects)

definition example_diurn :: "uint160 diurn" where
  "example_diurn = Diurn_default\<lparr>dn_block := Diurnal_Add (combine_roots example_env (OrderedDataElement_Hash (hash_fun example_env) (OrderedDataElement_new 0 (u64_bytes 9))) 4) DiurnalBlock_new\<rparr>"

theorem credit_connects_to_calendar_witness:
  "\<exists>r branch d'. Diurn_Root example_env example_diurn = Some r
    \<and> Diurn_Branch example_env (combine_roots example_env (OrderedDataElement_Hash (hash_fun example_env) (OrderedDataElement_new 0 (u64_bytes 9))) 4) example_diurn = Some (branch, d')
    \<and> CreditInBatchHasValidConnection example_env (\<lambda>key. key) (\<lambda>h. False)
        \<lparr>amount = 9, public_key = [], cb_position = 0, cb_branch = [OrderedDataElement_Hash (hash_fun example_env) (OrderedDataElement_new 0 (u64_bytes 9))],
         cb_diurn_branch = 4 # branch\<rparr>
        (Calendar_default empty_data\<lparr>calends := [\<lparr>the_mined_credit = example_credit\<lparr>diurnal_block_root := hashes_root (hash_fun example_env) (hashes (dn_block example_diurn))\<rparr>,
           work_proof = 9, msg_hash_list = example_hash_list, msg_other_fields = []\<rparr>]\<rparr>) = Some True"
proof -
  let ?root = "OrderedDataElement_Hash (hash_fun example_env) (OrderedDataElement_new 0 (u64_bytes 9))"
  let ?credit = "\<lparr>amount = 9, public_key = [] :: vch_t, cb_position = 0, cb_branch = [?root], cb_diurn_branch = []\<rparr>"
  let ?cal = "Calendar_default empty_data\<lparr>calends := [\<lparr>the_mined_credit = example_credit\<lparr>diurnal_block_root := hashes_root (hash_fun example_env) (hashes (dn_block example_diurn))\<rparr>,
           work_proof = 9, msg_hash_list = example_hash_list, msg_other_fields = []\<rparr>]\<rparr>"
  have inv: "diurnal_inv (hash_fun example_env) (dn_block example_diurn)" unfolding example_diurn_def
    using diurnal_inv_Add [of DiurnalBlock_new] by (simp add: DiurnalBlock_new_def)
  have root: "Diurn_Root example_env example_diurn = Some (combine_roots example_env 0 (hashes_root (hash_fun example_env) (hashes (dn_block example_diurn))))"
    using diurn_root [OF inv] by (simp add: example_diurn_def Diurn_default_def)
  have "VerifyBranchFromOrderedHashTree (hash_fun example_env) (ucast (cb_position ?credit)) (Credit_getvch (\<lambda>key. key) ?credit) (cb_branch ?credit) ?root"
    by (simp add: VerifyBranchFromOrderedHashTree_def Credit_getvch_def EvaluateBranchWithHash_def)
  moreover have "combine_roots example_env ?root 4 \<in> set (hashes (dn_block example_diurn))" by (simp add: example_diurn_def hashes_Add)
  moreover have "ContainsDiurn example_env (combine_roots example_env 0 (hashes_root (hash_fun example_env) (hashes (dn_block example_diurn)))) ?cal"
    by (simp add: ContainsDiurn_def Calend_Root_def example_credit_def)
  ultimately show ?thesis using credit_connects_to_calendar [OF inv _ _ root, of ?root 4 ?credit "\<lambda>key. key" ?cal "\<lambda>h. False"] root by auto
qed


section \<open>Observations\<close>

text \<open>
  \<^verbatim>\<open>DropTopUpWorkCredits\<close> drops whole lists only: the number to drop of a list is computed with the wrong sign, so that the loop ends
  at the first list that does not go away completely.
\<close>

lemma drop_whole_lists:
  assumes "num_dropped \<le> num_to_drop" and "\<forall>xs \<in> set xss. length xs < 2 ^ 31" and "unat num_to_drop < 2 ^ 31"
  shows "\<exists>n. drop_credits num_to_drop num_dropped xss = replicate n [] @ drop n xss \<and> n \<le> length xss"
  using assms
proof (induction num_to_drop num_dropped xss rule: drop_credits.induct)
  case (2 num_to_drop num_dropped xs xss)
  have U: "uint num_dropped = int (unat num_dropped)" "uint num_to_drop = int (unat num_to_drop)" by simp_all
  show ?case
  proof (cases "uint num_dropped + int (length xs) \<le> uint num_to_drop")
    case True
    then have le: "unat num_dropped + length xs \<le> unat num_to_drop" using U by linarith
    have "unat (of_nat (length xs) :: u32) = length xs" using 2(4) by (simp add: unat_of_nat take_bit_nat_eq_self)
    then have "num_dropped + of_nat (length xs) \<le> num_to_drop"
      using le 2(5) by (simp add: word_le_nat_alt unat_word_ariths(1))
    then obtain n where "drop_credits num_to_drop (num_dropped + of_nat (length xs)) xss = replicate n [] @ drop n xss" "n \<le> length xss"
      using 2(1) [OF True] 2(4,5) by auto
    then show ?thesis using True by (intro exI [of _ "Suc n"]) simp
  next
    case False
    have le: "unat num_dropped \<le> unat num_to_drop" using 2(3) by (simp add: word_le_nat_alt)
    define x where "x = int (unat num_to_drop) - int (unat num_dropped) - int (length xs)"
    have "num_to_drop - num_dropped - of_nat (length xs) = of_int x" by (simp add: x_def)
    then have "sint (num_to_drop - num_dropped - of_nat (length xs)) = signed_take_bit 31 x" by (simp add: signed_of_int)
    moreover have small: "length xs < 2147483648" "unat num_to_drop < 2147483648" using 2(4,5) by simp_all
    have "- 2147483648 \<le> x" using le small unfolding x_def by linarith
    moreover have "x < 2147483648" using le small unfolding x_def by linarith
    ultimately have "sint (num_to_drop - num_dropped - of_nat (length xs)) = x" by (simp add: signed_take_bit_int_eq_self)
    then have "sint (num_to_drop - num_dropped - of_nat (length xs)) \<le> 0" using False U unfolding x_def by linarith
    then show ?thesis using False by (intro exI [of _ 0]) (simp add: Let_def)
  qed
qed simp

text \<open>
  A diurn that is populated from the database starts from the difficulty of its last batch and is then adjusted once for every batch,
  while the diurn that grew with the batches is adjusted once after its last batch.
\<close>

lemma populated_difficulty:
  assumes "current_difficulty d = GetDifficulty k" and "- 60000 \<le> k" and "k + int (length hs) \<le> 10801"
  shows "\<exists>d'. add_hashes env hs d = Some d' \<and> current_difficulty d' = GetDifficulty (k + int (length hs))"
  using assms
proof (induction hs arbitrary: d k)
  case (Cons h hs)
  have up: "ApplyAdjustments (current_difficulty d) 1 = Some (GetDifficulty (k + 1))" using apply_GetDifficulty [of k 1] Cons.prems by simp
  define d1 where "d1 = d\<lparr>dn_block := Diurnal_Add h (dn_block d), credits_in_diurn := credits_in_diurn d @ [creditdata_msg env h], current_difficulty := GetDifficulty (k + 1)\<rparr>"
  have "Diurn_Add env h d = Some d1" using up by (simp add: Diurn_Add_def d1_def)
  moreover have "current_difficulty d1 = GetDifficulty (k + 1)" by (simp add: d1_def)
  ultimately show ?case using Cons.IH [of d1 "k + 1"] Cons.prems(2,3) by (simp add: add.assoc)
qed simp

end
