(* ===== verification/CalendarRelays.thy ===== *)
theory CalendarRelays
  imports RelayChain Calendar
begin

text \<open>
  The calendar and the relay states together.  When a calend is handled (\<^verbatim>\<open>FinishCurrentCalendAndStartNext\<close> of
  \<^verbatim>\<open>src/teleportnode/calendar.cpp\<close>), the state of the relays after it is computed with \<^verbatim>\<open>GetRelayState\<close> of \<^verbatim>\<open>src/relays/relaystate.cpp\<close>, from
  the mined credits that lead back to a recorded state, and recorded with \<^verbatim>\<open>RecordRelayState\<close>.  The theory \<^verbatim>\<open>Calendar\<close> has this call as a
  parameter; here it is the function of the theory \<^verbatim>\<open>RelayChain\<close>.
\<close>

section \<open>The call\<close>

text \<open>What is stored in \<^verbatim>\<open>relaydata\<close>: the states of batches, and the succession messages of a relay\<close>
record 'p relaydata =
  rd_states :: "uint160 \<Rightarrow> 'p relay_state option"
  rd_succession :: "'p \<Rightarrow> uint160 set"

text \<open>The databases as \<^verbatim>\<open>GetRelayState\<close> reads them; it does not ask which credits are calends\<close>
definition credit_view :: "('w, 'r) cal_env \<Rightarrow> 'p relaydata \<Rightarrow> 'p credit_db" where
  "credit_view env r =
     credit_db.make (\<lambda>h. PreviousCreditHash env h) (\<lambda>h. mc_relay_state_hash (creditdata_mined_credit env h)) (\<lambda>h. False) (rd_states r)"

definition record_relays :: "'p::linorder relay_env \<Rightarrow> ('p relay_state \<Rightarrow> vch_t) \<Rightarrow> ('w, 'r) cal_env \<Rightarrow> uint160 \<Rightarrow> 'p relaydata
    \<Rightarrow> (unit + 'p relaydata) option" where
  "record_relays renv serialise env h r =
     do { relay_state \<leftarrow> GetRelayState renv (credit_view env r) (hash_fun env) serialise (rd_succession r) h;
          Some (case relay_state of
                  Inl e \<Rightarrow> Inl ()
                | Inr (s, msgs) \<Rightarrow> Inr \<lparr>rd_states = recorded_state (RecordRelayState s h (credit_view env r)), rd_succession = msgs\<rparr>) }"

definition with_relays :: "'p::linorder relay_env \<Rightarrow> ('p relay_state \<Rightarrow> vch_t) \<Rightarrow> ('w, 'p relaydata) cal_env \<Rightarrow> ('w, 'p relaydata) cal_env" where
  "with_relays renv serialise env = env\<lparr>record_relay_state := record_relays renv serialise env\<rparr>"

section \<open>The computation of a relay state ends\<close>

text \<open>The history of a credit leads back to zero, the hash of no credit, which has no relay state\<close>
definition leads_to_start :: "('w, 'r) cal_env \<Rightarrow> uint160 \<Rightarrow> bool" where
  "leads_to_start env h \<longleftrightarrow> mc_relay_state_hash (creditdata_mined_credit env 0) = 0 \<and> (\<exists>n. (PreviousCreditHash env ^^ n) h = 0)"

lemma view_fields: "credit_db.previous_mined_credit_hash (credit_view env r) h = PreviousCreditHash env h"
  "relay_state_hash (credit_view env r) h = mc_relay_state_hash (creditdata_mined_credit env h)" "recorded_state (credit_view env r) h = rd_states r h"
  by (simp_all add: credit_view_def credit_db.make_def)

lemma batches_back_ends:
  assumes "mc_relay_state_hash (creditdata_mined_credit env 0) = 0" and "(PreviousCreditHash env ^^ n) h = 0"
  shows "\<exists>first bs. batches_back (credit_view env r) h passed = Some (first, bs) \<and> (rd_states r first \<noteq> None \<or> mc_relay_state_hash (creditdata_mined_credit env first) = 0)"
  using assms(2)
proof (induction n arbitrary: h passed)
  case 0
  then show ?case using assms(1) by (subst batches_back.simps) (simp add: view_fields)
next
  case (Suc n)
  then have "(PreviousCreditHash env ^^ n) (PreviousCreditHash env h) = 0" by (simp add: funpow_swap1)
  then show ?case using Suc.IH [of "PreviousCreditHash env h" "h # passed"] by (subst batches_back.simps) (auto simp: view_fields)
qed

lemma walk_back_ends: "(PreviousCreditHash env ^^ n) h = 0 \<Longrightarrow> walk_back (credit_view env r) h = Some ()"
proof (induction n arbitrary: h)
  case 0
  then show ?case by (subst walk_back.simps) simp
next
  case (Suc n)
  then show ?case by (subst walk_back.simps) (simp add: view_fields funpow_swap1)
qed

lemma record_relays_returns:
  assumes "leads_to_start env h"
  shows "record_relays renv serialise env h r \<noteq> None"
proof -
  obtain n where n: "mc_relay_state_hash (creditdata_mined_credit env 0) = 0" "(PreviousCreditHash env ^^ n) h = 0"
    using assms by (auto simp: leads_to_start_def)
  have "replay renv (credit_view env r) (rd_succession r) h \<noteq> None" using batches_back_ends [OF n, of r "[]"] by (auto simp: replay_def)
  then show ?thesis using walk_back_ends [OF n(2), of r] by (auto simp: record_relays_def GetRelayState_def split: option.splits sum.splits)
qed

interpretation relays: relay_recording "with_relays renv serialise env" "leads_to_start env"
  for renv :: "'p::linorder relay_env" and serialise and env :: "('w, 'p relaydata) cal_env"
proof
  show "leads_to_start env (GetHash160 (with_relays renv serialise env) (the_mined_credit msg))"
    if s: "stored (with_relays renv serialise env) msg" and l: "leads_to_start env (mined_credit.previous_mined_credit_hash (the_mined_credit msg))" for msg
  proof -
    have "PreviousCreditHash env (GetHash160 env (the_mined_credit msg)) = mined_credit.previous_mined_credit_hash (the_mined_credit msg)"
      using s by (simp add: stored_def PreviousCreditHash_def with_relays_def)
    moreover obtain n where "(PreviousCreditHash env ^^ n) (mined_credit.previous_mined_credit_hash (the_mined_credit msg)) = 0" using l by (auto simp: leads_to_start_def)
    ultimately have "(PreviousCreditHash env ^^ Suc n) (GetHash160 env (the_mined_credit msg)) = 0" by (simp add: funpow_swap1)
    then have "\<exists>n. (PreviousCreditHash env ^^ n) (GetHash160 env (the_mined_credit msg)) = 0" by (rule exI)
    then show ?thesis using l by (simp add: leads_to_start_def with_relays_def)
  qed
  show "record_relay_state (with_relays renv serialise env) h r \<noteq> None" if "leads_to_start env h" for h r
    using record_relays_returns [OF that] by (simp add: with_relays_def)
qed

section \<open>Properties\<close>

text \<open>
  C5. The calendars of honest miners are valid.  If every message is stored, its mined credit was prepared from the calendar as it
  stood, and the difficulties stay on the scale, then adding the messages one after the other fails at no step, the computation of
  the relay state of every calend included, and the calends are the messages whose
  proof of work closes a diurn, and the result passes the check of its roots and difficulties; it is valid if no failure of
  one of its calends was recorded.  For a calend, the messages of the relays since the last recorded state are assumed to raise no exception and
  the chain of spent credits to have a hash; that the walk to the last recorded state ends is shown.  What is not stored has the number
  zero and no relay state, as the default constructors make it.
\<close>

theorem honest_calendar_valid:
  fixes env :: "('w, 'p::linorder relaydata) cal_env"
  assumes "batch_number (creditdata_mined_credit env 0) = 0" and "mc_relay_state_hash (creditdata_mined_credit env 0) = 0"
    and "honest_run (with_relays renv serialise env) msgs (Calendar_default data)" and "length msgs < 2 ^ 31"
  defines "node \<equiv> with_relays renv serialise env"
  shows "\<exists>c. add_messages node msgs (Calendar_default data) = Some c \<and> CheckRootsAndDifficulty node c = Some True
    \<and> calends c = filter (closes_diurn node) msgs \<and> length (extra_work c) = length (calends c)
    \<and> Calendar_Validate node c = Some (\<not> list_ex (\<lambda>calend. cd_failure_details (calendardata c) (Calend_Root node calend) \<noteq> None) (calends c))"
proof -
  have "leads_to_start env 0" using assms(2) by (auto simp: leads_to_start_def intro: exI [of _ 0])
  then show ?thesis unfolding node_def using relays.honest_valid [OF _ assms(3,4)] assms(1) by (simp add: with_relays_def)
qed

text \<open>A node that has handled nothing and gets one message, whose proof of work makes it a calend\<close>
definition calend_credit :: mined_credit where
  "calend_credit = example_credit\<lparr>mc_relay_state_hash := 5\<rparr>"

definition calend_message :: "uint160 credit_message" where
  "calend_message = \<lparr>the_mined_credit = calend_credit, work_proof = 600000000, msg_hash_list = example_hash_list, msg_other_fields = []\<rparr>"

definition calend_env :: "(uint160, int relaydata) cal_env" where
  "calend_env = \<lparr>hash_fun = (\<lambda>bytes. of_nat (length bytes)), GetHash160 = (\<lambda>credit. 1), DifficultyAchieved = (\<lambda>proof. proof), WorkDone = (\<lambda>proof. proof),
     SpotCheck_Valid = (\<lambda>proof. True), creditdata_msg = (\<lambda>h. calend_message), has_msg = (\<lambda>h. h = 1),
     creditdata_mined_credit = (\<lambda>h. if h = 1 then calend_credit else example_credit\<lparr>difficulty := 0, batch_number := 0\<rparr>),
     has_mined_credit = (\<lambda>h. h = 1), node_spent_chain = (\<lambda>h. BitChain_new), record_relay_state = (\<lambda>h r. None)\<rparr>"

definition calend_node :: "(uint160, int relaydata) cal_env" where
  "calend_node = with_relays (RelayChain.example_env\<lparr>relay_env.full_hashes := \<lambda>h. Some []\<rparr>) (\<lambda>s. []) calend_env"

definition calend_data :: "(uint160, int relaydata) calendar_data" where
  "calend_data = \<lparr>cd_is_calend = {}, cd_calend = Map.empty, cd_credit_hash = Map.empty, cd_diurn = Map.empty,
     cd_failure_details = Map.empty, cd_chain = Map.empty, cd_relaydata = \<lparr>rd_states = \<lambda>h. None, rd_succession = \<lambda>p. {}\<rparr>\<rparr>"

lemma calend_fields: "PreviousCreditHash calend_env h = 0" "mc_relay_state_hash (creditdata_mined_credit calend_env h) = (if h = 1 then 5 else 0)"
  "rd_states (cd_relaydata calend_data) h = None" "hash_fun calend_env = (\<lambda>bytes. of_nat (length bytes))" "GetHash160 calend_env credit = 1"
  by (simp_all add: PreviousCreditHash_def calend_env_def calend_credit_def example_credit_def calend_data_def)

lemma calend_recorded: "\<exists>r. record_relay_state calend_node 1 (cd_relaydata calend_data) = Some (Inr r)"
proof -
  let ?db = "credit_view calend_env (cd_relaydata calend_data)" and ?renv = "RelayChain.example_env\<lparr>relay_env.full_hashes := \<lambda>h. Some []\<rparr>"
  have "batches_back ?db 1 [] = batches_back ?db 0 [1]" by (subst batches_back.simps) (simp add: view_fields calend_fields)
  also have "\<dots> = Some (0, [1])" by (subst batches_back.simps) (simp add: view_fields calend_fields)
  finally have bs: "batches_back ?db 1 [] = Some (0, [1])" .
  have "\<exists>c. replay ?renv ?db msgs 1 = Some (Inr c)" for msgs
    by (simp add: replay_def bs start_state_def view_fields calend_fields HandleBatch_def)
  then obtain c where c: "replay ?renv ?db (rd_succession (cd_relaydata calend_data)) 1 = Some (Inr c)" by blast
  have walk: "walk_back ?db 1 = Some ()" by (rule walk_back_ends [where n = 1]) (simp add: calend_fields)
  show ?thesis by (simp add: calend_node_def with_relays_def record_relays_def GetRelayState_def c walk)
qed

lemma calend_ready: "node_ready calend_node (Calendar_default calend_data) calend_message"
proof -
  have "BitChain_GetHash160 (hash_fun calend_node) (node_spent_chain calend_node 1) = Some 0"
    by (simp add: calend_node_def with_relays_def calend_env_def BitChain_GetHash160_def BitChain_new_def)
  moreover have "GetHash160 calend_node credit = 1" for credit by (simp add: calend_node_def with_relays_def calend_fields)
  ultimately show ?thesis using calend_recorded by (auto simp: node_ready_def Calendar_default_def)
qed

lemma calend_honest: "honest_run calend_node [calend_message] (Calendar_default calend_data)"
proof -
  have "on_scale INITIAL_DIURNAL_DIFFICULTY" unfolding on_scale_def initial_difficulty_scale by (rule exI [of _ 0]) simp
  moreover have "PrepareMinedCredit calend_node 0 (Calendar_default calend_data) calend_credit = Some calend_credit"
    by (simp add: PrepareMinedCredit_def PreviousDiurnRoot_def Calendar_default_def Diurn_default_def Diurn_Size_def Diurnal_Size_def
        DiurnalBlock_new_def Diurnal_Root_def calend_node_def with_relays_def calend_env_def calend_credit_def example_credit_def)
  moreover have "LastMinedCreditHash calend_node (Calendar_default calend_data) = Some 0"
    by (simp add: LastMinedCreditHash_def Calendar_default_def Diurn_default_def Diurn_Size_def Diurnal_Size_def DiurnalBlock_new_def)
  moreover have "stored calend_node calend_message" "diurnal_difficulty (the_mined_credit calend_message) = INITIAL_DIURNAL_DIFFICULTY" "the_mined_credit calend_message = calend_credit"
    by (simp_all add: stored_def calend_node_def with_relays_def calend_env_def calend_message_def calend_credit_def example_credit_def)
  ultimately have "honest calend_node (Calendar_default calend_data) calend_message" using calend_ready by (auto simp: honest_def)
  then show ?thesis by (simp split: option.split)
qed

theorem honest_calendar_valid_witness:
  "\<exists>c. add_messages calend_node [calend_message] (Calendar_default calend_data) = Some c \<and> CheckRootsAndDifficulty calend_node c = Some True
     \<and> calends c = [calend_message]"
proof -
  have "closes_diurn calend_node calend_message"
    by (simp add: closes_diurn_def calend_node_def with_relays_def calend_env_def calend_message_def calend_credit_def example_credit_def INITIAL_DIURNAL_DIFFICULTY_def)
  moreover have "batch_number (creditdata_mined_credit calend_env 0) = 0" by (simp add: calend_env_def)
  ultimately show ?thesis
    using honest_calendar_valid [OF _ _ calend_honest [unfolded calend_node_def]] calend_fields(2) [of 0] by (auto simp: calend_node_def)
qed

end
