(* ===== verification/Wallet.thy ===== *)
theory Wallet
  imports Calendar Transactions
begin

text \<open>
  The wallet of \<^verbatim>\<open>src/teleportnode/wallet.cpp\<close>: its keys, the credits it holds, the transactions it builds from them, and the branches
  that connect its credits to the calendar.

  A credit here has its key as bytes, a public key or the hash of one, as \<^verbatim>\<open>keydata\<close> is.  The databases of keys and of the wallet
  are part of the state.  What comes from elsewhere is the environment \<open>wallet_env\<close>: the hash functions, the curve, the mined credit of a
  batch, and \<^verbatim>\<open>std::sort\<close>, of which only is known that it gives a permutation in order.  The calendar of the node is an argument.
  \<open>None\<close> is undefined behaviour; logging and the notifications of the user interface are left out.
\<close>

section \<open>Vectors of credits\<close>

text \<open>\<^verbatim>\<open>VectorContainsEntry\<close> and \<^verbatim>\<open>EraseEntryFromVector\<close> with the equality of credits in batches.\<close>

type_synonym key_credit = "vch_t credit_in_batch"

definition contains_credit :: "key_credit list \<Rightarrow> key_credit \<Rightarrow> bool" where
  "contains_credit cs c = list_ex (\<lambda>x. CreditInBatch_equal x c) cs"

fun erase_credit :: "key_credit \<Rightarrow> key_credit list \<Rightarrow> key_credit list" where
  "erase_credit c [] = []"
| "erase_credit c (x # xs) = (if CreditInBatch_equal x c then xs else x # erase_credit c xs)"

section \<open>The environment and the state\<close>

record ('w, 'k, 'r) wallet_env =
  we_cal :: "('w, 'r) cal_env"
  Hash256 :: "vch_t \<Rightarrow> uint256"
  Modulus :: int
  PointOf :: "int \<Rightarrow> 'k"
  point_getvch :: "'k \<Rightarrow> vch_t"
  point_setvch :: "vch_t \<Rightarrow> 'k"
  BranchBridge :: "mined_credit \<Rightarrow> uint160"
  batch_credit_hash :: "uint160 \<Rightarrow> uint160"
  InMainChain :: "uint160 \<Rightarrow> bool"
  sort_credits :: "key_credit list \<Rightarrow> key_credit list"

record 'k wallet =
  seed :: uint256
  derived_seed :: uint256
  w_credits :: "key_credit list"
  spent :: "key_credit list"
  privkey_of_point :: "'k \<rightharpoonup> int"
  privkey_of_hash :: "uint160 \<rightharpoonup> int"
  pubkey_of_hash :: "uint160 \<rightharpoonup> 'k"
  generated :: "uint160 list"
  wd_privkey :: "uint160 set"
  watched :: "uint160 set"
  watched_credits :: "uint160 \<Rightarrow> key_credit list"
  stored_credits :: "uint256 \<Rightarrow> key_credit list"

definition Wallet_new :: "uint256 \<Rightarrow> 'k wallet \<Rightarrow> 'k wallet" where
  "Wallet_new sd w = w\<lparr>seed := sd, derived_seed := sd, w_credits := stored_credits w sd, spent := []\<rparr>"

text \<open>The number of a vector of bytes: zero unless there are exactly twenty of them.\<close>

definition uint160_of_vch :: "vch_t \<Rightarrow> uint160" where
  "uint160_of_vch vch = (if length vch = 20 then uint160_of_bytes vch else 0)"

text \<open>The seed is hashed twice, over its bytes; the key hash of a point is that of \<^verbatim>\<open>Credit.cpp\<close>.\<close>

definition NewKey :: "('w, 'k, 'r) wallet_env \<Rightarrow> 'k wallet \<Rightarrow> 'k \<times> 'k wallet" where
  "NewKey env w =
     (let derived = Hash256 env (uint256_bytes (derived_seed w));
          privkey = (uint (Hash256 env (uint256_bytes derived)) + uint derived) mod Modulus env;
          pubkey = PointOf env privkey;
          keyhash = KeyHash (hash_fun (we_cal env)) (point_getvch env) pubkey
      in (pubkey, w\<lparr>derived_seed := derived, privkey_of_point := (privkey_of_point w)(pubkey \<mapsto> privkey),
                    privkey_of_hash := (privkey_of_hash w)(keyhash \<mapsto> privkey), pubkey_of_hash := (pubkey_of_hash w)(keyhash \<mapsto> pubkey),
                    generated := generated w @ [keyhash]\<rparr>))"

definition GetKeyHashes :: "'k wallet \<Rightarrow> uint160 list" where
  "GetKeyHashes w = generated w"

definition KeyHashFromKeyData :: "('w, 'k, 'r) wallet_env \<Rightarrow> vch_t \<Rightarrow> uint160" where
  "KeyHashFromKeyData env key =
     (if length key = 20 then uint160_of_vch key else KeyHash (hash_fun (we_cal env)) (point_getvch env) (point_setvch env key))"

definition HaveKeyForCredit :: "('w, 'k, 'r) wallet_env \<Rightarrow> vch_t credit \<Rightarrow> 'k wallet \<Rightarrow> bool" where
  "HaveKeyForCredit env c w =
     (if length (public_key c) > 20 then privkey_of_point w (point_setvch env (public_key c)) \<noteq> None
      else privkey_of_hash w (uint160_of_vch (public_key c)) \<noteq> None)"

section \<open>Balances\<close>

definition Tradeable :: "'k wallet \<Rightarrow> u64" where
  "Tradeable w = fold (\<lambda>c max_credit. if amount c > max_credit then amount c else max_credit) (w_credits w) 0"

definition Balance :: "'k wallet \<Rightarrow> u64" where
  "Balance w = fold (\<lambda>c total. total + amount c) (w_credits w) 0"

definition SameKey :: "('w, 'k, 'r) wallet_env \<Rightarrow> vch_t \<Rightarrow> vch_t \<Rightarrow> bool" where
  "SameKey env key1 key2 =
     (let key_hash = (\<lambda>key. KeyHash (hash_fun (we_cal env)) (point_getvch env) (point_setvch env key))
      in if length key1 = length key2 then key1 = key2
         else if length key1 = 20 \<and> length key2 = 34 then uint160_of_vch key1 = key_hash key2
         else if length key1 = 34 \<and> length key2 = 20 then key_hash key1 = uint160_of_vch key2
         else False)"

definition Balance_of_key :: "('w, 'k, 'r) wallet_env \<Rightarrow> vch_t \<Rightarrow> 'k wallet \<Rightarrow> u64" where
  "Balance_of_key env key w = fold (\<lambda>c total. if SameKey env (public_key c) key then total + amount c else total) (w_credits w) 0"

section \<open>Branches\<close>

definition GetNextCalendCreditHash :: "('w, 'k, 'r) wallet_env \<Rightarrow> ('w, 'r) calendar \<Rightarrow> uint160 \<Rightarrow> uint160 option" where
  "GetNextCalendCreditHash env cal credit_hash =
     (let calend_hashes = GetCalendCreditHashes (we_cal env) cal
      in if \<not> VectorContainsEntry calend_hashes credit_hash \<or> credit_hash = last calend_hashes then Some 0
         else nth_opt calend_hashes (PositionOfEntryInVector credit_hash calend_hashes + 1))"

definition AddDiurnBranch :: "('w, 'k, 'r) wallet_env \<Rightarrow> ('w, 'r) calendar \<Rightarrow> key_credit \<Rightarrow> (bool \<times> key_credit) option" where
  "AddDiurnBranch env cal c =
     (if cb_branch c = [] then None
      else let batch_root = last (cb_branch c);
               credit_hash = batch_credit_hash env batch_root;
               credit = creditdata_mined_credit (we_cal env) credit_hash;
               root_bridge = BranchBridge env credit;
               c = c\<lparr>cb_diurn_branch := [root_bridge]\<rparr>
           in do { calend_credit_hash \<leftarrow> GetNextCalendCreditHash env cal credit_hash;
                   if calend_credit_hash = 0 \<or> calend_credit_hash = credit_hash then Some (False, c)
                   else do { let calend_credit = creditdata_mined_credit (we_cal env) calend_credit_hash;
                             let diurn_root = combine_roots (we_cal env) (previous_diurn_root calend_credit) (diurnal_block_root calend_credit);
                             let d = (case cd_diurn (calendardata cal) diurn_root of None \<Rightarrow> Diurn_default | Some d \<Rightarrow> d);
                             (branch, d) \<leftarrow> Diurn_Branch (we_cal env) credit_hash d;
                             Some (True, c\<lparr>cb_diurn_branch := cb_diurn_branch c @ branch\<rparr>) } })"


section \<open>Spending\<close>

text \<open>The loop that gathers inputs updates the credits of the wallet in place.\<close>

fun gather_inputs :: "('w, 'k, 'r) wallet_env \<Rightarrow> ('w, 'r) calendar \<Rightarrow> u64 \<Rightarrow> u64 \<Rightarrow> vch_t unsigned_transaction \<Rightarrow> key_credit list
    \<Rightarrow> (key_credit list \<times> u64 \<times> vch_t unsigned_transaction) option" where
  "gather_inputs env cal amt amount_in tx [] = Some ([], amount_in, tx)"
| "gather_inputs env cal amt amount_in tx (c # cs) =
     do { (added, c) \<leftarrow> AddDiurnBranch env cal c;
          let amount_in = amount_in + amount c;
          let tx = AddInput c tx;
          if amount_in \<ge> amt then Some (c # cs, amount_in, tx)
          else do { (cs, amount_in, tx) \<leftarrow> gather_inputs env cal amt amount_in tx cs;
                    Some (c # cs, amount_in, tx) } }"

definition GetUnsignedTxGivenKeyData :: "('w, 'k, 'r) wallet_env \<Rightarrow> ('w, 'r) calendar \<Rightarrow> vch_t \<Rightarrow> u64 \<Rightarrow> 'k wallet
    \<Rightarrow> (vch_t unsigned_transaction \<times> 'k wallet) option" where
  "GetUnsignedTxGivenKeyData env cal key amt w =
     do { (cs, amount_in, tx) \<leftarrow> gather_inputs env cal amt 0 UnsignedTransaction_new (w_credits w);
          let w = w\<lparr>w_credits := cs\<rparr>;
          if amount_in < amt then Some (tx, w)
          else do { let change = amount_in - amt;
                    let tx = fst (AddOutput \<lparr>amount = amt, public_key = key\<rparr> tx);
                    let (tx, w) = (if 0 <s change
                       then let (change_pubkey, w) = NewKey env w
                            in (tx\<lparr>outputs := outputs tx @ [\<lparr>amount = change, public_key = point_getvch env change_pubkey\<rparr>]\<rparr>, w)
                       else (tx, w));
                    Some (tx, fold (\<lambda>c w. w\<lparr>spent := spent w @ [c], w_credits := erase_credit c (w_credits w)\<rparr>) (inputs tx) w) } }"

definition GetUnsignedTxGivenPubKey :: "('w, 'k, 'r) wallet_env \<Rightarrow> ('w, 'r) calendar \<Rightarrow> 'k \<Rightarrow> u64 \<Rightarrow> 'k wallet
    \<Rightarrow> (vch_t unsigned_transaction \<times> 'k wallet) option" where
  "GetUnsignedTxGivenPubKey env cal pubkey amt w = GetUnsignedTxGivenKeyData env cal (point_getvch env pubkey) amt w"

text \<open>\<^verbatim>\<open>MakeTradeable\<close>: the transaction is signed and then dropped.\<close>

definition MakeTradeable :: "('w, 'k, 'r) wallet_env \<Rightarrow> ('w, 'r) calendar \<Rightarrow> u64 \<Rightarrow> 'k wallet \<Rightarrow> (bool \<times> 'k wallet) option" where
  "MakeTradeable env cal amt w =
     (if Balance w < amt then Some (False, w)
      else do { let (new_key, w) = NewKey env w;
                (tx, w) \<leftarrow> GetUnsignedTxGivenPubKey env cal new_key amt w;
                Some (True, w) })"

fun find_credit_with_amount :: "('w, 'k, 'r) wallet_env \<Rightarrow> ('w, 'r) calendar \<Rightarrow> u64 \<Rightarrow> key_credit list \<Rightarrow> (key_credit option \<times> key_credit list) option" where
  "find_credit_with_amount env cal amt [] = Some (None, [])"
| "find_credit_with_amount env cal amt (c # cs) =
     (if amount c \<ge> amt then do { (added, c) \<leftarrow> AddDiurnBranch env cal c; Some (Some c, c # cs) }
      else do { (found, cs) \<leftarrow> find_credit_with_amount env cal amt cs; Some (found, c # cs) })"

text \<open>The default credit, with which \<^verbatim>\<open>GetCreditWithAmount\<close> answers if there is none, is \<open>None\<close>.\<close>

definition GetCreditWithAmount :: "('w, 'k, 'r) wallet_env \<Rightarrow> ('w, 'r) calendar \<Rightarrow> u64 \<Rightarrow> 'k wallet \<Rightarrow> (key_credit option \<times> 'k wallet) option" where
  "GetCreditWithAmount env cal amt w =
     do { (found, cs) \<leftarrow> find_credit_with_amount env cal amt (w_credits w); Some (found, w\<lparr>w_credits := cs\<rparr>) }"

section \<open>Transactions and batches of others\<close>

definition Wallet_HandleTransaction :: "vch_t unsigned_transaction \<Rightarrow> 'k wallet \<Rightarrow> 'k wallet" where
  "Wallet_HandleTransaction tx w =
     fold (\<lambda>c w. if contains_credit (spent w) c then w\<lparr>spent := erase_credit c (spent w)\<rparr> else w) (inputs tx) w"

definition Wallet_UnhandleTransaction :: "('w, 'k, 'r) wallet_env \<Rightarrow> vch_t unsigned_transaction \<Rightarrow> 'k wallet \<Rightarrow> 'k wallet" where
  "Wallet_UnhandleTransaction env tx w =
     fold (\<lambda>c w. if KeyHashFromKeyData env (public_key c) \<in> wd_privkey w \<and> \<not> contains_credit (w_credits w) c
                 then w\<lparr>w_credits := w_credits w @ [c]\<rparr> else w) (inputs tx) w"

fun receive_credits :: "('w, 'k, 'r) wallet_env \<Rightarrow> ('w, 'r) calendar \<Rightarrow> key_credit list \<Rightarrow> 'k wallet \<Rightarrow> 'k wallet option" where
  "receive_credits env cal [] w = Some w"
| "receive_credits env cal (c # cs) w =
     (if \<not> HaveKeyForCredit env (credit.truncate c) w then receive_credits env cal cs w
      else do { connected \<leftarrow> CreditInBatchHasValidConnection (we_cal env) (\<lambda>key. key) (InMainChain env) c cal;
                receive_credits env cal cs
                  (if connected
                   then w\<lparr>w_credits := (if contains_credit (w_credits w) c then erase_credit c (w_credits w) else w_credits w) @ [c]\<rparr>
                   else w) })"

definition sort_and_store :: "('w, 'k, 'r) wallet_env \<Rightarrow> 'k wallet \<Rightarrow> 'k wallet" where
  "sort_and_store env w =
     (let cs = sort_credits env (w_credits w) in w\<lparr>w_credits := cs, stored_credits := (stored_credits w)(seed w := cs)\<rparr>)"

definition HandleReceivedCredits :: "('w, 'k, 'r) wallet_env \<Rightarrow> ('w, 'r) calendar \<Rightarrow> key_credit list \<Rightarrow> 'k wallet \<Rightarrow> 'k wallet option" where
  "HandleReceivedCredits env cal incoming_credits w = do { w \<leftarrow> receive_credits env cal incoming_credits w; Some (sort_and_store env w) }"

fun new_batch_credits :: "('w, 'k, 'r) wallet_env \<Rightarrow> vch_t credit list \<Rightarrow> vch_t credit_batch \<Rightarrow> 'k wallet \<Rightarrow> 'k wallet option" where
  "new_batch_credits env [] b w = Some w"
| "new_batch_credits env (raw # raws) b w =
     (let keyhash = KeyHashFromKeyData env (public_key raw)
      in if HaveKeyForCredit env raw w
         then do { (c, b) \<leftarrow> CreditBatch_GetCreditInBatch (hash_fun (we_cal env)) (\<lambda>key. key) raw b;
                   new_batch_credits env raws b (if \<not> contains_credit (w_credits w) c then w\<lparr>w_credits := w_credits w @ [c]\<rparr> else w) }
         else if keyhash \<in> watched w
         then do { (c, b) \<leftarrow> CreditBatch_GetCreditInBatch (hash_fun (we_cal env)) (\<lambda>key. key) raw b;
                   new_batch_credits env raws b
                     (w\<lparr>watched_credits := (watched_credits w)(keyhash := watched_credits w keyhash @ [c])\<rparr>) }
         else new_batch_credits env raws b w)"

definition HandleNewBatch :: "('w, 'k, 'r) wallet_env \<Rightarrow> vch_t credit_batch \<Rightarrow> 'k wallet \<Rightarrow> 'k wallet option" where
  "HandleNewBatch env b w = do { w \<leftarrow> new_batch_credits env (credits b) b w; Some (sort_and_store env w) }"

fun unhandle_credits :: "('w, 'k, 'r) wallet_env \<Rightarrow> vch_t credit list \<Rightarrow> vch_t credit_batch \<Rightarrow> 'k wallet \<Rightarrow> 'k wallet option" where
  "unhandle_credits env [] b w = Some w"
| "unhandle_credits env (raw # raws) b w =
     do { (c, b) \<leftarrow> CreditBatch_GetCreditInBatch (hash_fun (we_cal env)) (\<lambda>key. key) raw b;
          let w = (if contains_credit (w_credits w) c then w\<lparr>w_credits := erase_credit c (w_credits w)\<rparr> else w);
          let keyhash = KeyHashFromKeyData env (public_key c);
          let cs = watched_credits w keyhash;
          let cs = (if contains_credit cs c then erase_credit c cs else cs);
          unhandle_credits env raws b
            (w\<lparr>watched_credits := (watched_credits w)(keyhash := cs), stored_credits := (stored_credits w)(seed w := w_credits w)\<rparr>) }"

definition UnhandleBatch :: "('w, 'k, 'r) wallet_env \<Rightarrow> vch_t credit_batch \<Rightarrow> 'k wallet \<Rightarrow> 'k wallet option" where
  "UnhandleBatch env b w =
     do { w \<leftarrow> unhandle_credits env (credits b) b w; Some (w\<lparr>w_credits := sort_credits env (w_credits w)\<rparr>) }"

text \<open>
  \<^verbatim>\<open>ImportWatchedCredits\<close>: the second loop runs over the watched credits again, which are empty by then, and not over the
  credits that \<^verbatim>\<open>GetCreditsPayingToRecipient\<close> returned.
\<close>

definition ImportWatchedCredits :: "('w, 'k, 'r) wallet_env \<Rightarrow> uint160 \<Rightarrow> 'k wallet \<Rightarrow> 'k wallet" where
  "ImportWatchedCredits env keyhash w =
     (let cs = watched_credits w keyhash;
          w = fold (\<lambda>c w. w\<lparr>w_credits := w_credits w @ [c]\<rparr>) cs w;
          cs = [];
          w = w\<lparr>watched_credits := (watched_credits w)(keyhash := cs)\<rparr>;
          w = fold (\<lambda>c w. if contains_credit (w_credits w) c then w else w\<lparr>w_credits := w_credits w @ [c]\<rparr>) cs w
      in w\<lparr>w_credits := sort_credits env (w_credits w)\<rparr>)"

definition ImportPrivateKey :: "('w, 'k, 'r) wallet_env \<Rightarrow> int \<Rightarrow> 'k wallet \<Rightarrow> 'k wallet" where
  "ImportPrivateKey env privkey w =
     (let pubkey = PointOf env privkey;
          keyhash = KeyHash (hash_fun (we_cal env)) (point_getvch env) pubkey;
          w = w\<lparr>privkey_of_point := (privkey_of_point w)(pubkey \<mapsto> privkey), privkey_of_hash := (privkey_of_hash w)(keyhash \<mapsto> privkey),
                pubkey_of_hash := (pubkey_of_hash w)(keyhash \<mapsto> pubkey)\<rparr>
      in ImportWatchedCredits env keyhash w)"


section \<open>What a payment does to the wallet\<close>

abbreviation same_credit :: "key_credit \<Rightarrow> key_credit \<Rightarrow> bool" where
  "same_credit x y \<equiv> cb_branch x = cb_branch y \<and> cb_position x = cb_position y \<and> amount x = amount y \<and> public_key x = public_key y"

text \<open>
  What the wallet relies on to add a branch: the credit has a branch, and if its batch belongs to a calend that is not the last one, the diurn
  after it is stored and contains the batch.
\<close>

definition branch_available :: "('w, 'k, 'r) wallet_env \<Rightarrow> ('w, 'r) calendar \<Rightarrow> key_credit \<Rightarrow> bool" where
  "branch_available env cal c \<longleftrightarrow> cb_branch c \<noteq> [] \<and>
     (let h = batch_credit_hash env (last (cb_branch c))
      in \<forall>n. GetNextCalendCreditHash env cal h = Some n \<and> n \<noteq> 0 \<and> n \<noteq> h \<longrightarrow>
           (\<exists>d. cd_diurn (calendardata cal) (combine_roots (we_cal env) (previous_diurn_root (creditdata_mined_credit (we_cal env) n))
                   (diurnal_block_root (creditdata_mined_credit (we_cal env) n))) = Some d
              \<and> diurnal_inv (hash_fun (we_cal env)) (dn_block d) \<and> h \<in> set (hashes (dn_block d))))"

lemma next_calend_returns: "\<exists>n. GetNextCalendCreditHash env cal h = Some n"
proof -
  define hs where "hs = GetCalendCreditHashes (we_cal env) cal"
  show ?thesis
  proof (cases "h \<in> set hs \<and> h \<noteq> last hs")
    case True
    then have p: "find_index h hs < length hs" "hs ! find_index h hs = h" by (simp_all add: find_index_less nth_find_index)
    have "find_index h hs \<noteq> length hs - 1" using p True by (metis last_conv_nth list.size(3) not_less_zero)
    then show ?thesis using p(1) True
      by (simp add: GetNextCalendCreditHash_def hs_def [symmetric] PositionOfEntryInVector_def nth_opt_def Let_def)
  next
    case False
    then show ?thesis by (auto simp: GetNextCalendCreditHash_def hs_def [symmetric] Let_def)
  qed
qed

lemma add_branch_ok:
  assumes "branch_available env cal c"
  shows "\<exists>added c'. AddDiurnBranch env cal c = Some (added, c') \<and> same_credit c' c"
proof -
  let ?h = "batch_credit_hash env (last (cb_branch c))"
  have ne: "cb_branch c \<noteq> []" using assms by (simp add: branch_available_def)
  obtain n where n: "GetNextCalendCreditHash env cal ?h = Some n" using next_calend_returns by blast
  show ?thesis
  proof (cases "n = 0 \<or> n = ?h")
    case True
    then show ?thesis using ne n by (auto simp: AddDiurnBranch_def Let_def)
  next
    case False
    then obtain d where d: "cd_diurn (calendardata cal) (combine_roots (we_cal env) (previous_diurn_root (creditdata_mined_credit (we_cal env) n))
          (diurnal_block_root (creditdata_mined_credit (we_cal env) n))) = Some d"
        "diurnal_inv (hash_fun (we_cal env)) (dn_block d)" "?h \<in> set (hashes (dn_block d))"
      using assms n by (auto simp: branch_available_def Let_def)
    then obtain b d' where "Diurn_Branch (we_cal env) ?h d = Some (b, d')" using diurn_branch [OF d(2,3)] by blast
    then show ?thesis using ne n d(1) False by (auto simp: AddDiurnBranch_def Let_def)
  qed
qed


lemma amounts_append [simp]: "amounts (xs @ ys) = amounts xs + amounts ys"
  by (simp add: amounts_def)

lemma unat_plus_small: "unat (a :: u64) + unat b < 2 ^ 64 \<Longrightarrow> unat (a + b) = unat a + unat b"
  by (simp add: unat_word_ariths)

lemma balance_amounts: "amounts (w_credits w) < 2 ^ 64 \<Longrightarrow> unat (Balance w) = amounts (w_credits w)"
  using unat_fold_amounts [of "w_credits w"] by (simp add: Balance_def)

text \<open>The inputs are the first credits of the wallet, with their branches; what is not needed stays as it is.\<close>

lemma gather_ok:
  assumes "\<forall>c \<in> set cs. branch_available env cal c" and "unat a + amounts cs < 2 ^ 64"
  shows "\<exists>used rest a' tx'. gather_inputs env cal amt a tx cs = Some (used @ rest, a', tx')
    \<and> inputs tx' = inputs tx @ used \<and> outputs tx' = outputs tx \<and> unat a' = unat a + amounts used \<and> amounts (used @ rest) = amounts cs
    \<and> rest = drop (length used) cs \<and> list_all2 same_credit used (take (length used) cs)
    \<and> (cs \<noteq> [] \<longrightarrow> amt \<le> a' \<or> rest = []) \<and> (cs = [] \<longrightarrow> used = [] \<and> rest = [])"
  using assms
proof (induction cs arbitrary: a tx)
  case (Cons c cs)
  obtain added c' where c': "AddDiurnBranch env cal c = Some (added, c')" "same_credit c' c" using add_branch_ok [of env cal c] Cons.prems(1) by auto
  have sum: "unat (a + amount c) = unat a + unat (amount c)" using Cons.prems(2) by (intro unat_plus_small) simp
  show ?case
  proof (cases "amt \<le> a + amount c")
    case True
    then have "gather_inputs env cal amt a tx (c # cs) = Some ([c'] @ cs, a + amount c, AddInput c' tx)" using c' by (simp add: Let_def)
    then show ?thesis using True sum c'(2)
      by (intro exI [of _ "[c']"] exI [of _ cs] exI [of _ "a + amount c"] exI [of _ "AddInput c' tx"]) (simp add: AddInput_def)
  next
    case False
    obtain used rest a' tx' where g: "gather_inputs env cal amt (a + amount c) (AddInput c' tx) cs = Some (used @ rest, a', tx')"
        "inputs tx' = inputs (AddInput c' tx) @ used" "outputs tx' = outputs (AddInput c' tx)" "unat a' = unat (a + amount c) + amounts used"
        "amounts (used @ rest) = amounts cs" "rest = drop (length used) cs" "list_all2 same_credit used (take (length used) cs)"
        "cs \<noteq> [] \<longrightarrow> amt \<le> a' \<or> rest = []" "cs = [] \<longrightarrow> used = [] \<and> rest = []"
      using Cons.IH [of "a + amount c" "AddInput c' tx"] Cons.prems sum by auto
    have "gather_inputs env cal amt a tx (c # cs) = Some ((c' # used) @ rest, a', tx')" using c' False g(1) by (simp add: Let_def)
    then show ?thesis using g sum c'(2)
      by (intro exI [of _ "c' # used"] exI [of _ rest] exI [of _ a'] exI [of _ tx']) (auto simp: AddInput_def)
  qed
qed simp

lemma erase_used:
  "fold (\<lambda>c w. w\<lparr>spent := spent w @ [c], w_credits := erase_credit c (w_credits w)\<rparr>) used (w\<lparr>w_credits := used @ rest\<rparr>)
   = w\<lparr>spent := spent w @ used, w_credits := rest\<rparr>"
proof (induction used arbitrary: w)
  case (Cons c used)
  have "(w\<lparr>w_credits := (c # used) @ rest\<rparr>)\<lparr>spent := spent w @ [c], w_credits := erase_credit c ((c # used) @ rest)\<rparr>
      = (w\<lparr>spent := spent w @ [c]\<rparr>)\<lparr>w_credits := used @ rest\<rparr>" by (simp add: CreditInBatch_equal_def)
  then show ?case using Cons [of "w\<lparr>spent := spent w @ [c]\<rparr>"] by simp
qed simp

lemma new_key_simps [simp]:
  "w_credits (snd (NewKey env w)) = w_credits w" "spent (snd (NewKey env w)) = spent w"
  by (simp_all add: NewKey_def Let_def)


lemma signed_positive:
  assumes "unat (x :: u64) < 2 ^ 63"
  shows "0 <s x \<longleftrightarrow> unat x \<noteq> 0"
proof -
  have u: "uint x = int (unat x)" by simp
  have "int (unat x) < int (2 ^ 63)" using assms by (simp only: of_nat_less_iff)
  then have "uint x < 2 ^ 63" by simp
  moreover have "- (2 ^ 63) \<le> uint x" by (rule order_trans [OF _ uint_ge_0]) simp
  ultimately have "sint x = uint x" by (simp add: sint_uint signed_take_bit_int_eq_self)
  then show ?thesis unfolding word_sless_alt using u by (simp only: sint_0) linarith
qed

lemma payment_made:
  assumes "gather_inputs env cal amt 0 UnsignedTransaction_new (w_credits w) = Some (used @ rest, a, tx)"
    and "inputs tx = used" and "outputs tx = []" and "unat a = amounts used" and "amounts (used @ rest) < 2 ^ 63" and "\<not> a < amt"
  shows "\<exists>tx w'. GetUnsignedTxGivenKeyData env cal key amt w = Some (tx, w') \<and> amounts (outputs tx) = amounts (inputs tx)
    \<and> hd (outputs tx) = \<lparr>amount = amt, public_key = key\<rparr> \<and> inputs tx = used \<and> spent w' = spent w @ used \<and> w_credits w' = rest"
proof -
  define tx1 where "tx1 = fst (AddOutput \<lparr>amount = amt, public_key = key\<rparr> tx)"
  define w1 where "w1 = (if 0 <s a - amt then snd (NewKey env (w\<lparr>w_credits := used @ rest\<rparr>)) else w\<lparr>w_credits := used @ rest\<rparr>)"
  define tx2 where "tx2 = (if 0 <s a - amt then tx1\<lparr>outputs := outputs tx1 @ [\<lparr>amount = a - amt,
      public_key = point_getvch env (fst (NewKey env (w\<lparr>w_credits := used @ rest\<rparr>)))\<rparr>]\<rparr> else tx1)"
  have tx1: "outputs tx1 = [\<lparr>amount = amt, public_key = key\<rparr>]" "inputs tx1 = used" using assms(2,3) by (simp_all add: tx1_def AddOutput_def)
  have w1: "w1 = w1\<lparr>w_credits := used @ rest\<rparr>" "spent w1 = spent w" by (simp_all add: w1_def)
  have change: "unat (a - amt) = unat a - unat amt" using assms(6) by (simp add: unat_sub not_less)
  have "unat (a - amt) < 2 ^ 63" using change assms(4,5) by simp
  then have pos: "0 <s a - amt \<longleftrightarrow> unat (a - amt) \<noteq> 0" by (rule signed_positive)
  have "GetUnsignedTxGivenKeyData env cal key amt w
      = Some (tx2, fold (\<lambda>c w. w\<lparr>spent := spent w @ [c], w_credits := erase_credit c (w_credits w)\<rparr>) (inputs tx2) w1)"
    using assms(1,6) by (cases "0 <s a - amt") (simp_all add: GetUnsignedTxGivenKeyData_def Let_def case_prod_beta tx1_def tx2_def w1_def)
  moreover have "inputs tx2 = used" using tx1(2) by (simp add: tx2_def)
  ultimately have "GetUnsignedTxGivenKeyData env cal key amt w = Some (tx2, w1\<lparr>spent := spent w @ used, w_credits := rest\<rparr>)"
    using erase_used [where used = used and w = w1 and rest = rest] w1 by simp
  moreover have "amounts (outputs tx2) = amounts (inputs tx2) \<and> hd (outputs tx2) = \<lparr>amount = amt, public_key = key\<rparr> \<and> inputs tx2 = used"
    using tx1 change pos assms(4,6) by (auto simp: tx2_def not_less word_le_nat_alt)
  ultimately show ?thesis by auto
qed

section \<open>Properties\<close>

text \<open>
  C6. A payment conserves value.  If the branches of the wallet's credits are available and their total is below \<open>2 ^ 63\<close>, building a
  transaction never fails.  Its inputs are the first credits of the wallet, the same but for their branches up to a calend.  Without enough credit
  they are all of the credits, there are no outputs, and nothing of the wallet changes but those branches.  Otherwise the outputs, the first of which is the
  payment, have the total of the inputs, and exactly the inputs move from the credits, of which the others stay as they are, to the spent ones.
\<close>

theorem payment_conserves_value:
  assumes "\<forall>c \<in> set (w_credits w). branch_available env cal c" and "amounts (w_credits w) < 2 ^ 63"
  shows "\<exists>tx w'. GetUnsignedTxGivenKeyData env cal key amt w = Some (tx, w')
    \<and> list_all2 same_credit (inputs tx) (take (length (inputs tx)) (w_credits w))
    \<and> (if amounts (w_credits w) < unat amt
       then outputs tx = [] \<and> length (inputs tx) = length (w_credits w) \<and> w' = w\<lparr>w_credits := inputs tx\<rparr> \<and> Balance w' = Balance w
       else amounts (outputs tx) = amounts (inputs tx) \<and> hd (outputs tx) = \<lparr>amount = amt, public_key = key\<rparr>
         \<and> w_credits w' = drop (length (inputs tx)) (w_credits w) \<and> spent w' = spent w @ inputs tx
         \<and> unat (Balance w') + amounts (inputs tx) = unat (Balance w))"
proof -
  obtain used rest a tx where g: "gather_inputs env cal amt 0 UnsignedTransaction_new (w_credits w) = Some (used @ rest, a, tx)"
      "inputs tx = used" "outputs tx = []" "unat a = amounts used" "amounts (used @ rest) = amounts (w_credits w)"
      "w_credits w \<noteq> [] \<longrightarrow> amt \<le> a \<or> rest = []" "w_credits w = [] \<longrightarrow> used = [] \<and> rest = []"
      "rest = drop (length used) (w_credits w)" "list_all2 same_credit used (take (length used) (w_credits w))"
    using gather_ok [OF assms(1), of 0 amt UnsignedTransaction_new] assms(2) by (auto simp: UnsignedTransaction_new_def)
  have bal: "unat (Balance w) = amounts used + amounts rest" using balance_amounts [of w] assms(2) g(5) by simp
  have less: "a < amt \<longleftrightarrow> amounts (w_credits w) < unat amt"
    using g(4-7) by (cases "w_credits w = []") (auto simp: word_less_nat_alt word_le_nat_alt)
  show ?thesis
  proof (cases "a < amt")
    case True
    then have rest: "rest = []" using g(6,7) by (cases "w_credits w = []") auto
    then have "length used = length (w_credits w)" using g(8) list_all2_lengthD [OF g(9)] by simp
    moreover have "GetUnsignedTxGivenKeyData env cal key amt w = Some (tx, w\<lparr>w_credits := used\<rparr>)"
      using g(1) True rest by (simp add: GetUnsignedTxGivenKeyData_def)
    moreover have "Balance (w\<lparr>w_credits := used\<rparr>) = Balance w"
      using bal balance_amounts [of "w\<lparr>w_credits := used\<rparr>"] g(5) assms(2) rest by (simp add: word_unat_eq_iff)
    ultimately show ?thesis using True less g(2,3,9) by simp
  next
    case False
    have "amounts (used @ rest) < 2 ^ 63" using g(5) assms(2) by simp
    then obtain tx w' where w': "GetUnsignedTxGivenKeyData env cal key amt w = Some (tx, w')" "amounts (outputs tx) = amounts (inputs tx)"
        "hd (outputs tx) = \<lparr>amount = amt, public_key = key\<rparr>" "inputs tx = used" "spent w' = spent w @ used" "w_credits w' = rest"
      using payment_made [OF g(1-4) _ False, of key] by blast
    moreover have "unat (Balance w') = amounts rest" using balance_amounts [of w'] w'(6) g(5) assms(2) by simp
    ultimately show ?thesis using False less bal g(8,9) by (intro exI [of _ tx] exI [of _ w']) simp
  qed
qed


definition example_wallet_env :: "(uint160, vch_t, unit) wallet_env" where
  "example_wallet_env = \<lparr>we_cal = example_env, Hash256 = (\<lambda>bytes. of_nat (length bytes)), Modulus = 101, PointOf = (\<lambda>n. [2, of_int n]),
     point_getvch = (\<lambda>key. key), point_setvch = (\<lambda>key. key), BranchBridge = (\<lambda>credit. 4),
     batch_credit_hash = (\<lambda>root. 1), InMainChain = (\<lambda>h. True), sort_credits = sort_key amount\<rparr>"

definition example_wallet :: "key_credit list \<Rightarrow> vch_t wallet" where
  "example_wallet cs = \<lparr>seed = 5, derived_seed = 5, w_credits = cs, spent = [], privkey_of_point = Map.empty, privkey_of_hash = (\<lambda>h. Some 3),
     pubkey_of_hash = Map.empty, generated = [], wd_privkey = {}, watched = {}, watched_credits = (\<lambda>h. []), stored_credits = (\<lambda>sd. [])\<rparr>"

definition example_key_credit :: "u64 \<Rightarrow> u64 \<Rightarrow> key_credit" where
  "example_key_credit amt pos = \<lparr>amount = amt, public_key = [], cb_position = pos, cb_branch = [8], cb_diurn_branch = []\<rparr>"

lemma example_branch_available: "branch_available example_wallet_env (Calendar_default empty_data) (example_key_credit amt pos)"
  by (simp add: branch_available_def example_key_credit_def GetNextCalendCreditHash_def GetCalendCreditHashes_def Calendar_default_def Let_def)

theorem payment_conserves_value_witness:
  "\<exists>tx w'. GetUnsignedTxGivenKeyData example_wallet_env (Calendar_default empty_data) [7] 12
      (example_wallet [example_key_credit 5 1, example_key_credit 10 2, example_key_credit 20 3]) = Some (tx, w')
    \<and> amounts (outputs tx) = amounts (inputs tx) \<and> spent w' = inputs tx"
proof -
  let ?w = "example_wallet [example_key_credit 5 1, example_key_credit 10 2, example_key_credit 20 3]"
  have w: "w_credits ?w = [example_key_credit 5 1, example_key_credit 10 2, example_key_credit 20 3]" "spent ?w = []"
    by (simp_all add: example_wallet_def)
  have "amounts (w_credits ?w) = 35" unfolding w by (simp add: example_key_credit_def)
  moreover have "\<forall>c \<in> set (w_credits ?w). branch_available example_wallet_env (Calendar_default empty_data) c"
    unfolding w using example_branch_available by simp
  ultimately show ?thesis using payment_conserves_value [of ?w example_wallet_env "Calendar_default empty_data" "[7]" 12] w(2) by auto
qed

section \<open>Receiving credits\<close>

definition credit_id :: "key_credit \<Rightarrow> uint160 list \<times> u64" where
  "credit_id c = (cb_branch c, cb_position c)"

lemma equal_iff_id: "CreditInBatch_equal x c \<longleftrightarrow> credit_id c = credit_id x"
  by (auto simp: CreditInBatch_equal_def credit_id_def)

definition sorting :: "(key_credit list \<Rightarrow> key_credit list) \<Rightarrow> bool" where
  "sorting f \<longleftrightarrow> (\<forall>cs. mset (f cs) = mset cs \<and> sorted (map amount (f cs)))"

lemma contains_credit_iff: "contains_credit cs c \<longleftrightarrow> credit_id c \<in> credit_id ` set cs"
  by (auto simp: contains_credit_def list_ex_iff equal_iff_id)

lemma erase_credit_ids:
  "distinct (map credit_id cs) \<Longrightarrow> distinct (map credit_id (erase_credit c cs)) \<and> credit_id ` set (erase_credit c cs) = credit_id ` set cs - {credit_id c}"
  by (induction cs) (auto simp: equal_iff_id)

lemma erase_credit_subset: "set (erase_credit c cs) \<subseteq> set cs"
  by (induction cs) auto

lemma connection_returns: "\<exists>ok. CreditInBatchHasValidConnection env kget main c cal = Some ok"
  by (auto simp: CreditInBatchHasValidConnection_def CheckBranches_def Let_def)

definition acceptable :: "('w, 'k, 'r) wallet_env \<Rightarrow> ('w, 'r) calendar \<Rightarrow> 'k wallet \<Rightarrow> key_credit \<Rightarrow> bool" where
  "acceptable env cal w c \<longleftrightarrow> HaveKeyForCredit env (credit.truncate c) w
     \<and> CreditInBatchHasValidConnection (we_cal env) (\<lambda>key. key) (InMainChain env) c cal = Some True"

lemma acceptable_cong: "acceptable env cal (w\<lparr>w_credits := cs\<rparr>) c = acceptable env cal w c"
  by (simp add: acceptable_def HaveKeyForCredit_def)

lemma receive_credits_ok:
  "distinct (map credit_id (w_credits w)) \<Longrightarrow>
   \<exists>cs'. receive_credits env cal cs w = Some (w\<lparr>w_credits := cs'\<rparr>) \<and> distinct (map credit_id cs')
     \<and> set cs' \<subseteq> set (w_credits w) \<union> {c \<in> set cs. acceptable env cal w c}
     \<and> credit_id ` set cs' = credit_id ` set (w_credits w) \<union> credit_id ` {c \<in> set cs. acceptable env cal w c}"
proof (induction cs arbitrary: w)
  case Nil
  then show ?case by (intro exI [of _ "w_credits w"]) simp
next
  case (Cons c cs)
  show ?case
  proof (cases "acceptable env cal w c")
    case False
    then have "receive_credits env cal (c # cs) w = receive_credits env cal cs w"
      using connection_returns [of "we_cal env" "\<lambda>key. key" "InMainChain env" c cal] by (auto simp: acceptable_def)
    moreover have "{x \<in> set (c # cs). acceptable env cal w x} = {x \<in> set cs. acceptable env cal w x}" using False by auto
    ultimately show ?thesis using Cons.IH [OF Cons.prems] by simp
  next
    case True
    define ds where "ds = (if contains_credit (w_credits w) c then erase_credit c (w_credits w) else w_credits w) @ [c]"
    have step: "receive_credits env cal (c # cs) w = receive_credits env cal cs (w\<lparr>w_credits := ds\<rparr>)"
      using True by (simp add: acceptable_def ds_def)
    have ds: "distinct (map credit_id ds)" "set ds \<subseteq> insert c (set (w_credits w))" "credit_id ` set ds = insert (credit_id c) (credit_id ` set (w_credits w))"
      using Cons.prems erase_credit_ids [OF Cons.prems, of c] erase_credit_subset [of c "w_credits w"]
      by (auto simp: ds_def contains_credit_iff)
    have eq: "{x \<in> set (c # cs). acceptable env cal w x} = insert c {x \<in> set cs. acceptable env cal w x}" using True by auto
    show ?thesis unfolding step eq using Cons.IH [of "w\<lparr>w_credits := ds\<rparr>"] ds by (auto simp: acceptable_cong)
  qed
qed


text \<open>
  C27. Received credits are checked.  The wallet keeps what it had and takes exactly those of the received credits that it has the key for and that
  connect to the calendar; it never holds two credits with the same branch and position, is sorted by amount, and stores what it holds.
\<close>

theorem received_credits_checked:
  assumes "sorting (sort_credits env)" and "distinct (map credit_id (w_credits w))"
  shows "\<exists>w'. HandleReceivedCredits env cal cs w = Some w' \<and> sorted (map amount (w_credits w')) \<and> stored_credits w' (seed w) = w_credits w'
    \<and> distinct (map credit_id (w_credits w'))
    \<and> set (w_credits w') \<subseteq> set (w_credits w) \<union> {c \<in> set cs. acceptable env cal w c}
    \<and> credit_id ` set (w_credits w') = credit_id ` set (w_credits w) \<union> credit_id ` {c \<in> set cs. acceptable env cal w c}"
proof -
  obtain ds where ds: "receive_credits env cal cs w = Some (w\<lparr>w_credits := ds\<rparr>)" "distinct (map credit_id ds)"
      "set ds \<subseteq> set (w_credits w) \<union> {c \<in> set cs. acceptable env cal w c}"
      "credit_id ` set ds = credit_id ` set (w_credits w) \<union> credit_id ` {c \<in> set cs. acceptable env cal w c}"
    using receive_credits_ok [OF assms(2)] by blast
  have m: "mset (sort_credits env ds) = mset ds" "sorted (map amount (sort_credits env ds))" using assms(1) by (simp_all add: sorting_def)
  have "set (sort_credits env ds) = set ds" using m(1) by (metis set_mset_mset)
  moreover have "distinct (map credit_id (sort_credits env ds))" using ds(2) m(1) by (metis mset_map mset_eq_imp_distinct_iff)
  ultimately show ?thesis using ds m(2) by (simp add: HandleReceivedCredits_def sort_and_store_def Let_def)
qed

theorem received_credits_checked_witness:
  "\<exists>w'. HandleReceivedCredits example_wallet_env (Calendar_default empty_data) [example_key_credit 5 1, example_key_credit 3 1] (example_wallet [example_key_credit 9 2]) = Some w'
    \<and> sorted (map amount (w_credits w')) \<and> distinct (map credit_id (w_credits w'))"
proof -
  have "sorting (sort_credits example_wallet_env)" by (simp add: sorting_def example_wallet_env_def)
  moreover have "distinct (map credit_id (w_credits (example_wallet [example_key_credit 9 2])))" by (simp add: example_wallet_def)
  ultimately show ?thesis
    using received_credits_checked [of example_wallet_env "example_wallet [example_key_credit 9 2]" "Calendar_default empty_data" "[example_key_credit 5 1, example_key_credit 3 1]"]
    by blast
qed

section \<open>Branches that connect\<close>

text \<open>What the calendar stores of its calends and of the diurns that they close.\<close>

definition diurns_ok :: "('w, 'r) cal_env \<Rightarrow> ('w, 'r) calendar \<Rightarrow> bool" where
  "diurns_ok env cal \<longleftrightarrow> (\<forall>calend \<in> set (calends cal). stored env calend) \<and>
     (\<forall>r d. cd_diurn (calendardata cal) r = Some d \<longrightarrow> Diurn_Root env d = Some r)"

lemma calend_hashes_eq:
  fixes cal :: "('w, 'r) calendar"
  shows "GetCalendCreditHashes env cal = map (\<lambda>calend. GetHash160 env (the_mined_credit calend)) (calends cal)"
proof -
  have "fold (\<lambda>calend hs. hs @ [GetHash160 env (the_mined_credit calend)]) cs acc = acc @ map (\<lambda>calend. GetHash160 env (the_mined_credit calend)) cs"
    for cs :: "'w calend list" and acc
    by (induction cs arbitrary: acc) auto
  then show ?thesis by (simp add: GetCalendCreditHashes_def)
qed

lemma next_calend_contained:
  assumes "diurns_ok (we_cal env) cal" and "GetNextCalendCreditHash env cal h = Some n" and "n \<noteq> 0"
  shows "ContainsDiurn (we_cal env) (combine_roots (we_cal env) (previous_diurn_root (creditdata_mined_credit (we_cal env) n))
     (diurnal_block_root (creditdata_mined_credit (we_cal env) n))) cal"
proof -
  have "n \<in> set (GetCalendCreditHashes (we_cal env) cal)"
    using assms(2,3) by (auto simp: GetNextCalendCreditHash_def nth_opt_def Let_def split: if_splits)
  then obtain calend where c: "calend \<in> set (calends cal)" "n = GetHash160 (we_cal env) (the_mined_credit calend)" by (auto simp: calend_hashes_eq)
  then have "creditdata_mined_credit (we_cal env) n = the_mined_credit calend" using assms(1) by (simp add: diurns_ok_def stored_def)
  then show ?thesis using c(1) by (auto simp: ContainsDiurn_def list_ex_iff Calend_Root_def)
qed


text \<open>
  The hash of the mined credit of a batch is the root of the batch combined with the bridge, and the calendar or the main chain has it.
\<close>

definition in_main_chain :: "('w, 'k, 'r) wallet_env \<Rightarrow> uint160 \<Rightarrow> bool" where
  "in_main_chain env batch_root \<longleftrightarrow>
     (let h = batch_credit_hash env batch_root
      in h = combine_roots (we_cal env) batch_root (BranchBridge env (creditdata_mined_credit (we_cal env) h)) \<and> InMainChain env h)"

lemma added_branch_connects:
  assumes "branch_available env cal c" and "diurns_ok (we_cal env) cal" and "in_main_chain env (last (cb_branch c))"
    and "VerifyBranchFromOrderedHashTree (hash_fun (we_cal env)) (ucast (cb_position c)) (Credit_getvch (\<lambda>key. key) c) (cb_branch c) (last (cb_branch c))"
  shows "\<exists>added c'. AddDiurnBranch env cal c = Some (added, c')
    \<and> CreditInBatchHasValidConnection (we_cal env) (\<lambda>key. key) (InMainChain env) c' cal = Some True"
proof -
  let ?root = "last (cb_branch c)"
  let ?h = "batch_credit_hash env ?root"
  define bridge where "bridge = BranchBridge env (creditdata_mined_credit (we_cal env) ?h)"
  have ne: "cb_branch c \<noteq> []" using assms(1) by (simp add: branch_available_def)
  have h: "?h = combine_roots (we_cal env) ?root bridge" and main: "InMainChain env ?h"
    using assms(3) by (simp_all add: in_main_chain_def bridge_def Let_def)
  obtain n where n: "GetNextCalendCreditHash env cal ?h = Some n" using next_calend_returns by blast
  show ?thesis
  proof (cases "n = 0 \<or> n = ?h")
    case True
    have "Credit_getvch (\<lambda>key. key) (c\<lparr>cb_diurn_branch := [bridge]\<rparr>) = Credit_getvch (\<lambda>key. key) c" by (simp add: Credit_getvch_def)
    then have "CreditInBatchHasValidConnection (we_cal env) (\<lambda>key. key) (InMainChain env) (c\<lparr>cb_diurn_branch := [bridge]\<rparr>) cal = Some True"
      using ne main h assms(4) SymmetricCombine_commute [of "hash_fun (we_cal env)" ?root bridge]
      by (simp add: CreditInBatchHasValidConnection_def CheckBranches_def)
    then show ?thesis using True ne n by (auto simp: AddDiurnBranch_def Let_def bridge_def)
  next
    case False
    define r where "r = combine_roots (we_cal env) (previous_diurn_root (creditdata_mined_credit (we_cal env) n)) (diurnal_block_root (creditdata_mined_credit (we_cal env) n))"
    obtain d where d: "cd_diurn (calendardata cal) r = Some d" "diurnal_inv (hash_fun (we_cal env)) (dn_block d)" "?h \<in> set (hashes (dn_block d))"
      using assms(1) n False by (auto simp: branch_available_def Let_def r_def)
    have root: "Diurn_Root (we_cal env) d = Some r" using assms(2) d(1) by (simp add: diurns_ok_def)
    have "ContainsDiurn (we_cal env) r cal" using next_calend_contained [OF assms(2) n] False by (simp add: r_def)
    then obtain branch d' where "Diurn_Branch (we_cal env) ?h d = Some (branch, d')"
        "CreditInBatchHasValidConnection (we_cal env) (\<lambda>key. key) (InMainChain env) (c\<lparr>cb_diurn_branch := bridge # branch\<rparr>) cal = Some True"
      using credit_connects [OF d(2) d(3) [unfolded h] assms(4) root] h by metis
    then show ?thesis using ne n d(1) False by (auto simp: AddDiurnBranch_def Let_def r_def bridge_def)
  qed
qed

text \<open>
  A spender's branch convinces the receiver.  For a credit of the wallet whose branch verifies and whose batch is in the main chain, adding the
  diurn branch returns, and the credit that results passes the check of the connection to the calendar, whether the batch is the
  last before the tip or lies in a diurn that a later calend has closed.
\<close>

theorem added_branch_accepted:
  assumes "branch_available env cal c" and "diurns_ok (we_cal env) cal" and "in_main_chain env (last (cb_branch c))"
    and "VerifyBranchFromOrderedHashTree (hash_fun (we_cal env)) (ucast (cb_position c)) (Credit_getvch (\<lambda>key. key) c) (cb_branch c) (last (cb_branch c))"
    and "HaveKeyForCredit env (credit.truncate c) w"
  shows "\<exists>added c'. AddDiurnBranch env cal c = Some (added, c') \<and> same_credit c' c \<and> acceptable env cal w c'"
proof -
  obtain added c' where c': "AddDiurnBranch env cal c = Some (added, c')"
      "CreditInBatchHasValidConnection (we_cal env) (\<lambda>key. key) (InMainChain env) c' cal = Some True"
    using added_branch_connects [OF assms(1-4)] by blast
  then have s: "same_credit c' c" using add_branch_ok [OF assms(1)] by auto
  then have "credit.truncate c' = credit.truncate c" by (simp add: credit.truncate_def)
  then show ?thesis using c' s assms(5) by (auto simp: acceptable_def)
qed


text \<open>Two calends, the second of which closes a diurn that holds the first.\<close>

definition example_two_calends :: "uint160 calend list" where
  "example_two_calends = [\<lparr>the_mined_credit = example_credit\<lparr>batch_number := 0\<rparr>, work_proof = 9, msg_hash_list = example_hash_list, msg_other_fields = []\<rparr>,
     \<lparr>the_mined_credit = example_credit, work_proof = 9, msg_hash_list = example_hash_list, msg_other_fields = []\<rparr>]"

definition example_closed_env :: "(uint160, vch_t, unit) wallet_env" where
  "example_closed_env = example_wallet_env\<lparr>we_cal := example_env\<lparr>GetHash160 := (\<lambda>credit. if batch_number credit = 0 then 40 else 2),
       creditdata_mined_credit := (\<lambda>h. if h = 40 then example_credit\<lparr>batch_number := 0\<rparr> else example_credit),
       creditdata_msg := (\<lambda>h. if h = 40 then example_two_calends ! 0 else example_two_calends ! 1)\<rparr>,
     batch_credit_hash := (\<lambda>root. 40)\<rparr>"

definition example_closed_calendar :: "(uint160, unit) calendar" where
  "example_closed_calendar = Calendar_default (empty_data\<lparr>cd_diurn := [40 \<mapsto> Diurn_default\<lparr>dn_block := Diurnal_Add 40 DiurnalBlock_new\<rparr>]\<rparr>)
     \<lparr>calends := example_two_calends\<rparr>"

definition example_batch_root :: uint160 where
  "example_batch_root = OrderedDataElement_Hash (hash_fun example_env) (OrderedDataElement_new 0 (u64_bytes 9))"

definition example_old_credit :: key_credit where
  "example_old_credit = \<lparr>amount = 9, public_key = [], cb_position = 0, cb_branch = [example_batch_root], cb_diurn_branch = []\<rparr>"

lemma example_closed_hash [simp]: "hash_fun (we_cal example_closed_env) = hash_fun example_env"
  by (simp add: example_closed_env_def)

lemma example_combine: "combine_roots example_env x y = 40"
  by (simp add: example_env_def SymmetricCombine_def TreeHash_def)

lemma example_closed_inv: "diurnal_inv (hash_fun example_env) (Diurnal_Add 40 DiurnalBlock_new)"
  using diurnal_inv_Add [of DiurnalBlock_new] by (simp add: DiurnalBlock_new_def)

lemma example_closed_next: "GetNextCalendCreditHash example_closed_env example_closed_calendar 40 = Some 2"
  by (simp add: GetNextCalendCreditHash_def calend_hashes_eq example_closed_calendar_def example_two_calends_def example_closed_env_def
      example_credit_def nth_opt_def Calendar_default_def PositionOfEntryInVector_def VectorContainsEntry_def Let_def find_index_def)

lemma example_closed_data: "cd_diurn (calendardata example_closed_calendar) = [40 \<mapsto> Diurn_default\<lparr>dn_block := Diurnal_Add 40 DiurnalBlock_new\<rparr>]"
  by (simp add: example_closed_calendar_def Calendar_default_def)

lemma example_closed_stored: "calend \<in> set (calends example_closed_calendar) \<Longrightarrow> stored (we_cal example_closed_env) calend"
  by (auto simp: example_closed_calendar_def example_two_calends_def stored_def example_closed_env_def example_credit_def)

lemma example_closed_root: "batch_credit_hash example_closed_env r = 40"
  by (simp add: example_closed_env_def)

theorem added_branch_accepted_witness:
  "\<exists>added c'. AddDiurnBranch example_closed_env example_closed_calendar example_old_credit = Some (added, c')
    \<and> acceptable example_closed_env example_closed_calendar (example_wallet []) c'"
proof -
  have "branch_available example_closed_env example_closed_calendar example_old_credit"
    using example_closed_next example_closed_inv
    by (auto simp: branch_available_def example_old_credit_def example_combine example_closed_data example_closed_root hashes_Add Let_def)
  moreover have "diurns_ok (we_cal example_closed_env) example_closed_calendar"
    using diurn_root [of "we_cal example_closed_env" "Diurn_default\<lparr>dn_block := Diurnal_Add 40 DiurnalBlock_new\<rparr>"] example_closed_inv
    by (auto simp: diurns_ok_def example_closed_data example_closed_stored example_combine split: if_splits)
  moreover have "in_main_chain example_closed_env (last (cb_branch example_old_credit))"
    by (simp add: in_main_chain_def example_combine) (simp add: example_closed_env_def example_wallet_env_def)
  moreover have "VerifyBranchFromOrderedHashTree (hash_fun (we_cal example_closed_env)) (ucast (cb_position example_old_credit)) (Credit_getvch (\<lambda>key. key) example_old_credit)
      (cb_branch example_old_credit) (last (cb_branch example_old_credit))"
    by (simp add: VerifyBranchFromOrderedHashTree_def Credit_getvch_def EvaluateBranchWithHash_def example_old_credit_def example_batch_root_def)
  moreover have "HaveKeyForCredit example_closed_env (credit.truncate example_old_credit) (example_wallet [])"
    by (simp add: HaveKeyForCredit_def example_old_credit_def example_wallet_def credit.truncate_def)
  ultimately show ?thesis using added_branch_accepted by blast
qed

end
