(* ===== verification/History.thy ===== *)
theory History
  imports RelayChain BitChain Wallet
begin

text \<open>
  The history of mined credits: \<^verbatim>\<open>src/credits/creditutil.cpp\<close>.  The functions walk back along the mined credits, find where two
  branches of the history part, and tell which positions of the chain of spent credits, and which transactions, change when the
  node goes from one branch to another.

  The databases are the record \<open>ledger\<close>.  A message, a mined credit or a transaction that is not in the database reads as its
  default.  A loop that may not end gives \<open>None\<close>, and so does undefined behaviour; an exception is \<open>Inl\<close>.  The state of the relays
  after a batch is a field of the ledger, \<open>relay_state_of\<close>, for which \<^verbatim>\<open>RelayChain\<close> has the function \<^verbatim>\<open>GetRelayState\<close>.
\<close>

section \<open>The databases\<close>

record ('w, 'p, 's, 'r) ledger =
  led_env :: "('w, 'r) cal_env"
  led_calendar :: "('w, 'r) calendar_data"
  led_tx :: "uint160 \<rightharpoonup> (vch_t, 's) signed_transaction"
  led_branch :: "uint160 \<rightharpoonup> uint160 list"
  batchhashes :: "uint160 \<Rightarrow> uint160 list"
  stored_chain :: "uint160 \<rightharpoonup> bit_chain"
  root_credit_hash :: "uint160 \<Rightarrow> uint160"
  tx_credit_hash :: "uint160 \<Rightarrow> uint160"
  hash_matches :: "u32 \<Rightarrow> uint160 list"
  known_solutions :: "uint160 \<Rightarrow> uint160 list option"
  hash_list_hash :: "short_hash_list \<Rightarrow> uint160"
  relay_state_of :: "uint160 \<Rightarrow> relay_error + 'p relay_state"
  join_message :: "uint160 \<Rightarrow> 'p relay_join"
  has_join :: "uint160 \<Rightarrow> bool"
  join_credit_hash :: "'p relay_join \<Rightarrow> uint160"
  relay_getvch :: "'p \<Rightarrow> vch_t"
  sort_fees :: "vch_t credit list \<Rightarrow> vch_t credit list"
  RELAY_FEE :: u64
  msg_types :: "uint160 \<Rightarrow> string"
  received_hashes :: "uint160 set"
  received_hashes256 :: "uint256 set"
  children_of :: "uint160 \<Rightarrow> uint160 list"
  stored_proofs :: "uint256 \<rightharpoonup> 'w"
  mc_GetHash :: "mined_credit \<Rightarrow> uint256"
  msg_GetHash :: "'w credit_message \<Rightarrow> uint256"
  msg_GetHash160 :: "'w credit_message \<Rightarrow> uint160"
  tx_GetHash160 :: "(vch_t, 's) signed_transaction \<Rightarrow> uint160"
  proof_GetHash :: "'w \<Rightarrow> uint256"

abbreviation mined_credit_at :: "('w, 'p, 's, 'r) ledger \<Rightarrow> uint160 \<Rightarrow> mined_credit" where
  "mined_credit_at l h \<equiv> creditdata_mined_credit (led_env l) h"

abbreviation previous_hash :: "('w, 'p, 's, 'r) ledger \<Rightarrow> uint160 \<Rightarrow> uint160" where
  "previous_hash l h \<equiv> PreviousCreditHash (led_env l) h"

section \<open>Walks\<close>

text \<open>The constructors of \<^verbatim>\<open>uint160\<close> make the hash of a missing credit zero.\<close>

partial_function (option) find_calend :: "('w, 'p, 's, 'r) ledger \<Rightarrow> uint160 \<Rightarrow> mined_credit \<Rightarrow> uint160 option" where
  "find_calend l calend_hash credit =
     (if batch_number credit \<noteq> 0 \<and> calend_hash \<notin> cd_is_calend (led_calendar l)
      then find_calend l (previous_mined_credit_hash credit) (mined_credit_at l (previous_mined_credit_hash credit))
      else Some calend_hash)"

definition GetCalendCreditHash :: "('w, 'p, 's, 'r) ledger \<Rightarrow> uint160 \<Rightarrow> uint160 option" where
  "GetCalendCreditHash l h =
     (case cd_credit_hash (led_calendar l) (previous_diurn_root (the_mined_credit (creditdata_msg (led_env l) h))) of
        Some calend_hash \<Rightarrow> Some calend_hash
      | None \<Rightarrow> find_calend l (previous_hash l h) (mined_credit_at l (previous_hash l h)))"

partial_function (option) hashes_since :: "('w, 'p, 's, 'r) ledger \<Rightarrow> uint160 \<Rightarrow> mined_credit \<Rightarrow> uint160 list \<Rightarrow> uint160 list option" where
  "hashes_since l calend_hash credit credit_hashes =
     (if batch_number credit \<noteq> 0 \<and> previous_mined_credit_hash credit \<noteq> calend_hash \<and> previous_mined_credit_hash credit \<noteq> 0
      then hashes_since l calend_hash (mined_credit_at l (previous_mined_credit_hash credit)) (credit_hashes @ [previous_mined_credit_hash credit])
      else Some credit_hashes)"

definition GetCreditHashesSinceCalend :: "('w, 'p, 's, 'r) ledger \<Rightarrow> uint160 \<Rightarrow> uint160 \<Rightarrow> uint160 list option" where
  "GetCreditHashesSinceCalend l calend_hash final_hash =
     (if final_hash = calend_hash then Some []
      else do { hs \<leftarrow> hashes_since l calend_hash (mined_credit_at l final_hash) [GetHash160 (led_env l) (mined_credit_at l final_hash)];
                Some (rev hs) })"

partial_function (option) fork_loop :: "('w, 'p, 's, 'r) ledger \<Rightarrow> uint160 \<Rightarrow> uint160 \<Rightarrow> uint160 set \<Rightarrow> u32 \<Rightarrow> (uint160 \<times> u32) option" where
  "fork_loop l hash1 hash2 seen stepsback =
     (let previous1 = previous_hash l hash1; previous2 = previous_hash l hash2;
          seen = (if hash1 > 0 then insert hash1 seen else seen);
          seen = (if hash2 > 0 then insert hash2 seen else seen)
      in if previous1 = 0 \<and> previous2 = 0 then Some (0, stepsback)
         else let stepsback = (if previous1 \<noteq> 0 then stepsback + 1 else stepsback)
              in if previous1 \<noteq> 0 \<and> previous1 \<in> seen then Some (previous1, stepsback)
                 else if previous2 \<noteq> 0 \<and> previous2 \<in> seen then Some (previous2, stepsback)
                 else fork_loop l previous1 previous2 seen stepsback)"

definition GetFork :: "('w, 'p, 's, 'r) ledger \<Rightarrow> uint160 \<Rightarrow> uint160 \<Rightarrow> (uint160 \<times> u32) option" where
  "GetFork l hash1 hash2 = (if hash1 = hash2 then Some (hash1, 0) else fork_loop l hash1 hash2 {} 0)"

definition HaveSameCalend :: "('w, 'p, 's, 'r) ledger \<Rightarrow> uint160 \<Rightarrow> uint160 \<Rightarrow> bool" where
  "HaveSameCalend l h1 h2 \<longleftrightarrow> previous_diurn_root (mined_credit_at l h1) = previous_diurn_root (mined_credit_at l h2)"

section \<open>The contents of a batch\<close>

definition GetCreditsFromHashes :: "('w, 'p, 's, 'r) ledger \<Rightarrow> uint160 list \<Rightarrow> vch_t credit list" where
  "GetCreditsFromHashes l hs =
     fold (\<lambda>h cs. case led_tx l h of
             Some tx \<Rightarrow> cs @ outputs (rawtx tx)
           | None \<Rightarrow> if has_mined_credit (led_env l) h then cs @ [mc_credit (mined_credit_at l h)] else cs) hs []"

definition GetCreditsFromMsg :: "('w, 'p, 's, 'r) ledger \<Rightarrow> 'w credit_message \<Rightarrow> vch_t credit list \<times> 'w credit_message" where
  "GetCreditsFromMsg l msg =
     (let (found, hash_list) = RecoverFullHashes (hash_matches l) (known_solutions l) (hash_list_hash l) (msg_hash_list msg)
      in (GetCreditsFromHashes l (short_hash_list.full_hashes hash_list), msg\<lparr>msg_hash_list := hash_list\<rparr>))"

definition GetBitsSetByTxs :: "('w, 'p, 's, 'r) ledger \<Rightarrow> uint160 list \<Rightarrow> u64 list" where
  "GetBitsSetByTxs l txs =
     fold (\<lambda>h positions. case led_tx l h of None \<Rightarrow> positions | Some tx \<Rightarrow> positions @ map cb_position (inputs (rawtx tx))) txs []"

definition GetBitsSetInBatch :: "('w, 'p, 's, 'r) ledger \<Rightarrow> uint160 \<Rightarrow> u64 list" where
  "GetBitsSetInBatch l h = GetBitsSetByTxs l (batchhashes l h)"

text \<open>\<^verbatim>\<open>IsCalend\<close> records in the calendar what it finds out.\<close>

definition IsCalend :: "('w, 'p, 's, 'r) ledger \<Rightarrow> uint160 \<Rightarrow> bool \<times> ('w, 'p, 's, 'r) ledger" where
  "IsCalend l h =
     (if \<not> has_msg (led_env l) h then (False, l)
      else if h \<in> cd_is_calend (led_calendar l) then (True, l)
      else let msg = creditdata_msg (led_env l) h
           in if DifficultyAchieved (led_env l) (work_proof msg) > diurnal_difficulty (the_mined_credit msg)
              then (True, l\<lparr>led_calendar := (led_calendar l)\<lparr>cd_is_calend := insert h (cd_is_calend (led_calendar l))\<rparr>\<rparr>)
              else (False, l))"

definition PreviousBatchWasCalend :: "('w, 'p, 's, 'r) ledger \<Rightarrow> 'w credit_message \<Rightarrow> bool" where
  "PreviousBatchWasCalend l msg \<longleftrightarrow> previous_mined_credit_hash (the_mined_credit msg) \<in> cd_is_calend (led_calendar l)"

text \<open>The fees of the relays that are neither disqualified nor succeeded.\<close>

fun fees_owed_loop :: "('w, 'p, 's, 'r) ledger \<Rightarrow> 'p relay_state \<Rightarrow> 'p list \<Rightarrow> vch_t credit list \<Rightarrow> relay_error + vch_t credit list" where
  "fees_owed_loop l s [] fees = Inr fees"
| "fees_owed_loop l s (relay # rs) fees =
     (if std_count relay (disqualifications s) \<or> std_count relay (actual_successions s) then fees_owed_loop l s rs fees
      else let join = join_message l (GetJoinHash relay s)
           in if \<not> has_mined_credit (led_env l) (join_credit_hash l join) then Inl MissingDataException
              else fees_owed_loop l s rs (fees @ [\<lparr>amount = RELAY_FEE l, public_key = relay_getvch l (join_VerificationKey join)\<rparr>]))"

definition GetFeesOwed :: "('w, 'p, 's, 'r) ledger \<Rightarrow> 'p relay_state \<Rightarrow> relay_error + vch_t credit list" where
  "GetFeesOwed l s = map_sum id (sort_fees l) (fees_owed_loop l s (map fst (relays s)) [])"


definition MissingDataNeededToCalculateFees :: "('w, 'p, 's, 'r) ledger \<Rightarrow> 'p relay_state \<Rightarrow> uint160 list" where
  "MissingDataNeededToCalculateFees l s =
     fold (\<lambda>(join_msg_hash, relay) needed.
             if \<not> has_join l join_msg_hash then needed @ [join_msg_hash]
             else if \<not> has_mined_credit (led_env l) (join_credit_hash l (join_message l join_msg_hash)) then needed @ [join_msg_hash]
             else needed) (join_hash_to_relay s) []"

text \<open>The batch that a message stands for: its credits, and after a calend the fees of the relays.\<close>

definition ReconstructBatch :: "('w, 'p, 's, 'r) ledger \<Rightarrow> 'w credit_message
    \<Rightarrow> relay_error + (vch_t credit_batch \<times> 'w credit_message \<times> ('w, 'p, 's, 'r) ledger)" where
  "ReconstructBatch l msg =
     (let prev_hash = previous_mined_credit_hash (the_mined_credit msg);
          batch = CreditBatch_new prev_hash (mc_offset (the_mined_credit msg));
          (cs, msg) = GetCreditsFromMsg l msg;
          (calend, l) = IsCalend l prev_hash;
          fees = (if calend then (case relay_state_of l prev_hash of Inl e \<Rightarrow> Inl e | Inr s \<Rightarrow> GetFeesOwed l s) else Inr [])
      in map_sum id (\<lambda>fees. (fold (\<lambda>c b. fst (CreditBatch_Add (\<lambda>key. key) c b)) (cs @ fees) batch, msg, l)) fees)"

definition GetFeeSize :: "(vch_t, 's) signed_transaction \<Rightarrow> 64 word" where
  "GetFeeSize tx =
     fold (\<lambda>c total. total + amount c) (inputs (rawtx tx)) 0 - fold (\<lambda>c total. total + amount c) (outputs (rawtx tx)) 0"

section \<open>The chain of spent credits\<close>

definition TxContainsSpentInputs :: "bit_chain \<Rightarrow> (vch_t, 's) signed_transaction \<Rightarrow> bool" where
  "TxContainsSpentInputs spent_chain tx = list_ex (\<lambda>c. BitChain_Get (unat (cb_position c)) spent_chain) (inputs (rawtx tx))"

definition UpdateSpentChain :: "vch_t unsigned_transaction \<Rightarrow> bit_chain \<Rightarrow> bit_chain" where
  "UpdateSpentChain tx spent_chain =
     fold (\<lambda>c chain. BitChain_Add chain) (outputs tx) (fold (\<lambda>c chain. BitChain_Set (unat (cb_position c)) chain) (inputs tx) spent_chain)"

definition SpentChainLength :: "('w, 'p, 's, 'r) ledger \<Rightarrow> uint160 \<Rightarrow> relay_error + (u64 \<times> ('w, 'p, 's, 'r) ledger)" where
  "SpentChainLength l h =
     (let msg = creditdata_msg (led_env l) h;
          len = mc_offset (the_mined_credit msg) + of_nat (length (fst (GetCreditsFromMsg l msg)));
          prev_hash = previous_mined_credit_hash (the_mined_credit msg);
          (calend, l) = IsCalend l prev_hash
      in if calend
         then (case relay_state_of l prev_hash of
                 Inl e \<Rightarrow> Inl e
               | Inr s \<Rightarrow> map_sum id (\<lambda>fees. (len + of_nat (length fees), l)) (GetFeesOwed l s))
         else Inr (len, l))"

text \<open>
  The two walks of \<^verbatim>\<open>GetSpentChainDifferences\<close>, which share the counter \<^verbatim>\<open>look_back\<close>: \<open>None\<close> is the early return after more than
  three hundred steps.
\<close>

function collect_bits :: "('w, 'p, 's, 'r) ledger \<Rightarrow> uint160 \<Rightarrow> uint160 \<Rightarrow> nat \<Rightarrow> u64 list \<Rightarrow> (nat \<times> u64 list) option" where
  "collect_bits l fork h look_back bits =
     (if h = fork then Some (look_back, bits)
      else if look_back + 1 > 300 then None
      else collect_bits l fork (previous_hash l h) (look_back + 1) (bits @ GetBitsSetInBatch l h))"
  by pat_completeness auto
termination by (relation "measure (\<lambda>(l, fork, h, look_back, bits). 300 - look_back)") auto

text \<open>The double loop that removes from both vectors what they have in common.\<close>

abbreviation erase_at :: "nat \<Rightarrow> 'a list \<Rightarrow> 'a list" where
  "erase_at i xs \<equiv> take i xs @ drop (Suc i) xs"

function cancel_common :: "nat \<Rightarrow> 'a list \<Rightarrow> 'a list \<Rightarrow> 'a list \<times> 'a list" where
  "cancel_common i to_set to_clear =
     (if i < length to_set
      then if to_set ! i \<in> set to_clear
           then cancel_common i (erase_at i to_set) (erase_at (find_index (to_set ! i) to_clear) to_clear)
           else cancel_common (Suc i) to_set to_clear
      else (to_set, to_clear))"
  by pat_completeness auto
termination by (relation "measure (\<lambda>(i, to_set, to_clear). length to_set - i)") auto

declare collect_bits.simps [simp del] cancel_common.simps [simp del]

definition GetSpentChainDifferences :: "('w, 'p, 's, 'r) ledger \<Rightarrow> uint160 \<Rightarrow> uint160 \<Rightarrow> (bool \<times> u64 list \<times> u64 list) option" where
  "GetSpentChainDifferences l starting_hash target_hash =
     do { (fork, n) \<leftarrow> GetFork l starting_hash target_hash;
          Some (case collect_bits l fork target_hash 0 [] of
                  None \<Rightarrow> (False, [], [])
                | Some (look_back, to_set) \<Rightarrow>
                    (case collect_bits l fork starting_hash look_back [] of
                       None \<Rightarrow> (False, to_set, [])
                     | Some (look_back, to_clear) \<Rightarrow> (True, cancel_common 0 to_set to_clear))) }"

definition ChangeSpentChain :: "('w, 'p, 's, 'r) ledger \<Rightarrow> bit_chain \<Rightarrow> uint160 \<Rightarrow> uint160
    \<Rightarrow> (relay_error + (bool \<times> bit_chain \<times> ('w, 'p, 's, 'r) ledger)) option" where
  "ChangeSpentChain l spent_chain starting_hash target_hash =
     do { (found, to_set, to_clear) \<leftarrow> GetSpentChainDifferences l starting_hash target_hash;
          if \<not> found then Some (Inr (False, spent_chain, l))
          else case SpentChainLength l target_hash of
                 Inl e \<Rightarrow> Some (Inl e)
               | Inr (len, l) \<Rightarrow>
                   if len = 0 then Some (Inr (False, spent_chain, l))
                   else do { chain \<leftarrow> BitChain_SetLength (unat len) spent_chain;
                             let chain = fold (\<lambda>p. BitChain_Set (unat p)) to_set chain;
                             let chain = fold (\<lambda>p. BitChain_Clear (unat p)) to_clear chain;
                             Some (Inr (True, chain, l)) } }"

partial_function (option) find_stored_chain :: "('w, 'p, 's, 'r) ledger \<Rightarrow> mined_credit \<Rightarrow> mined_credit option" where
  "find_stored_chain l credit =
     (if stored_chain l (mc_spent_chain_hash credit) = None
      then let credit = mined_credit_at l (previous_mined_credit_hash credit)
           in if mc_spent_chain_hash credit = 0 then Some credit else find_stored_chain l credit
      else Some credit)"

definition GetSpentChain :: "('w, 'p, 's, 'r) ledger \<Rightarrow> uint160 \<Rightarrow> (relay_error + (bit_chain \<times> ('w, 'p, 's, 'r) ledger)) option" where
  "GetSpentChain l h =
     do { credit \<leftarrow> find_stored_chain l (mined_credit_at l h);
          let chain = (case stored_chain l (mc_spent_chain_hash credit) of None \<Rightarrow> BitChain_new | Some chain \<Rightarrow> chain);
          changed \<leftarrow> ChangeSpentChain l chain (GetHash160 (led_env l) credit) h;
          Some (map_sum id (\<lambda>(done, chain, l). (chain, l)) changed) }"


section \<open>Transactions\<close>

text \<open>
  \<^verbatim>\<open>TransactionsConflict\<close> uses the index of the outer loop for the second transaction and that of the inner loop for the first, so that
  it reads beyond the end of a vector unless both transactions have as many inputs.
\<close>

fun conflict_loop :: "key_credit list \<Rightarrow> key_credit list \<Rightarrow> (nat \<times> nat) list \<Rightarrow> bool option" where
  "conflict_loop inputs1 inputs2 [] = Some False"
| "conflict_loop inputs1 inputs2 ((j, k) # jks) =
     (if k < length inputs1 \<and> j < length inputs2
      then if CreditInBatch_equal (inputs1 ! k) (inputs2 ! j) then Some True else conflict_loop inputs1 inputs2 jks
      else None)"

definition TransactionsConflict :: "(vch_t, 's) signed_transaction \<Rightarrow> (vch_t, 's) signed_transaction \<Rightarrow> bool option" where
  "TransactionsConflict tx1 tx2 =
     (let inputs1 = inputs (rawtx tx1); inputs2 = inputs (rawtx tx2)
      in conflict_loop inputs1 inputs2 (List.product [0..<length inputs1] [0..<length inputs2]))"

partial_function (option) contents_back :: "('w, 'p, 's, 'r) ledger \<Rightarrow> (uint160 \<Rightarrow> bool) \<Rightarrow> uint160 \<Rightarrow> uint160 list \<Rightarrow> (uint160 \<times> uint160 list) option" where
  "contents_back l stop h contents =
     (if \<not> stop h \<and> h \<noteq> 0 then contents_back l stop (previous_hash l h) (contents @ batchhashes l h) else Some (h, contents))"

text \<open>The walk back from the target ends in the main chain, that from the current tip where the first one ended.\<close>

definition GetTxDifferences :: "('w, 'p, 's, 'r) ledger \<Rightarrow> (uint160 \<Rightarrow> bool) \<Rightarrow> uint160 \<Rightarrow> uint160 \<Rightarrow> (uint160 list \<times> uint160 list) option" where
  "GetTxDifferences l main starting_hash target_hash =
     do { (fork, to_add) \<leftarrow> contents_back l main target_hash [];
          (end, to_delete) \<leftarrow> contents_back l (\<lambda>h. h = fork) starting_hash [];
          Some (cancel_common 0 to_add to_delete) }"

definition TransactionDepth :: "('w, 'p, 's, 'r) ledger \<Rightarrow> uint160 \<Rightarrow> uint160 \<Rightarrow> u64" where
  "TransactionDepth l txhash current_hash =
     ucast (batch_number (mined_credit_at l current_hash) - batch_number (mined_credit_at l (tx_credit_hash l txhash)))"

section \<open>Difficulties and work\<close>

definition INITIAL_DIFFICULTY :: uint160 where
  "INITIAL_DIFFICULTY = 100000000"

definition GetNextDifficulty :: "('w, 'p, 's, 'r) ledger \<Rightarrow> mined_credit \<Rightarrow> uint160" where
  "GetNextDifficulty l credit =
     (if difficulty credit = 0 then INITIAL_DIFFICULTY
      else let preceding_credit = mined_credit_at l (previous_mined_credit_hash credit)
           in if mc_timestamp credit - mc_timestamp preceding_credit > 60000000 then difficulty credit * 95 div 100
              else difficulty credit * 100 div 95)"

definition GetReportedWork :: "('w, 'p, 's, 'r) ledger \<Rightarrow> uint160 \<Rightarrow> uint160" where
  "GetReportedWork l h = total_work (mined_credit_at l h) + difficulty (mined_credit_at l h)"

section \<open>Branches\<close>

definition GetDiurnBranch :: "('w, 'p, 's, 'r) ledger \<Rightarrow> ('w, 'k, 'r) wallet_env \<Rightarrow> ('w, 'r) calendar \<Rightarrow> uint160 \<Rightarrow> uint160 list option" where
  "GetDiurnBranch l env cal h =
     (case led_branch l h of
        Some branch \<Rightarrow> Some branch
      | None \<Rightarrow>
          if \<not> InMainChain env h then Some []
          else do { calend_credit_hash \<leftarrow> GetNextCalendCreditHash env cal h;
                    if calend_credit_hash = 0 then Some []
                    else do { let calend_credit = mined_credit_at l calend_credit_hash;
                              let diurn_root = combine_roots (led_env l) (previous_diurn_root calend_credit) (diurnal_block_root calend_credit);
                              let d = (case cd_diurn (led_calendar l) diurn_root of None \<Rightarrow> Diurn_default | Some d \<Rightarrow> d);
                              (branch, d) \<leftarrow> Diurn_Branch (led_env l) h d;
                              Some branch } })"

section \<open>Recording\<close>

definition StoreHash :: "uint160 \<Rightarrow> ('w, 'p, 's, 'r) ledger \<Rightarrow> ('w, 'p, 's, 'r) ledger" where
  "StoreHash h l =
     (let short_hash = short_hash_of h; matches = hash_matches l short_hash;
          matches = (if VectorContainsEntry matches h then matches else matches @ [h])
      in l\<lparr>hash_matches := (hash_matches l)(short_hash := matches)\<rparr>)"

definition put_mined_credit :: "uint160 \<Rightarrow> mined_credit \<Rightarrow> ('w, 'p, 's, 'r) ledger \<Rightarrow> ('w, 'p, 's, 'r) ledger" where
  "put_mined_credit h credit l =
     l\<lparr>led_env := (led_env l)\<lparr>creditdata_mined_credit := (creditdata_mined_credit (led_env l))(h := credit),
                              has_mined_credit := (has_mined_credit (led_env l))(h := True)\<rparr>\<rparr>"

definition put_msg :: "uint160 \<Rightarrow> 'w credit_message \<Rightarrow> ('w, 'p, 's, 'r) ledger \<Rightarrow> ('w, 'p, 's, 'r) ledger" where
  "put_msg h msg l =
     l\<lparr>led_env := (led_env l)\<lparr>creditdata_msg := (creditdata_msg (led_env l))(h := msg), has_msg := (has_msg (led_env l))(h := True)\<rparr>\<rparr>"

definition StoreMinedCredit :: "mined_credit \<Rightarrow> ('w, 'p, 's, 'r) ledger \<Rightarrow> ('w, 'p, 's, 'r) ledger" where
  "StoreMinedCredit credit l =
     (let h = GetHash160 (led_env l) credit; l = StoreHash h l; l = l\<lparr>msg_types := (msg_types l)(h := ''mined_credit'')\<rparr>
      in put_mined_credit h credit l)"

definition StoreMinedCreditMessage :: "'w credit_message \<Rightarrow> ('w, 'p, 's, 'r) ledger \<Rightarrow> ('w, 'p, 's, 'r) ledger" where
  "StoreMinedCreditMessage msg l =
     (let h = msg_GetHash160 l msg; l = StoreHash h l; l = put_msg h msg l;
          l = put_msg (GetHash160 (led_env l) (the_mined_credit msg)) msg l
      in StoreMinedCredit (the_mined_credit msg) l)"

definition StoreTransaction :: "(vch_t, 's) signed_transaction \<Rightarrow> ('w, 'p, 's, 'r) ledger \<Rightarrow> ('w, 'p, 's, 'r) ledger" where
  "StoreTransaction tx l =
     (let h = tx_GetHash160 l tx; l = StoreHash h l
      in l\<lparr>msg_types := (msg_types l)(h := ''tx''), led_tx := (led_tx l)(h \<mapsto> tx)\<rparr>)"

definition SetChildBlock :: "uint160 \<Rightarrow> uint160 \<Rightarrow> ('w, 'p, 's, 'r) ledger \<Rightarrow> ('w, 'p, 's, 'r) ledger" where
  "SetChildBlock parent_hash child_hash l =
     (let children = children_of l parent_hash;
          children = (if VectorContainsEntry children child_hash then children else children @ [child_hash])
      in l\<lparr>children_of := (children_of l)(parent_hash := children)\<rparr>)"

text \<open>The message is recorded with the full hashes as far as they could be recovered.\<close>

definition RecordBatch :: "'w credit_message \<Rightarrow> ('w, 'p, 's, 'r) ledger \<Rightarrow> ('w, 'p, 's, 'r) ledger" where
  "RecordBatch msg l =
     (let h = GetHash160 (led_env l) (the_mined_credit msg);
          l = l\<lparr>received_hashes := insert h (received_hashes l),
                received_hashes256 := insert (msg_GetHash l msg) (insert (mc_GetHash l (the_mined_credit msg)) (received_hashes256 l))\<rparr>;
          (found, hash_list) = RecoverFullHashes (hash_matches l) (known_solutions l) (hash_list_hash l) (msg_hash_list msg);
          msg = msg\<lparr>msg_hash_list := hash_list\<rparr>;
          l = l\<lparr>batchhashes := (batchhashes l)(h := short_hash_list.full_hashes hash_list)\<rparr>;
          l = put_mined_credit h (the_mined_credit msg) (put_msg h msg l);
          l = SetChildBlock (previous_mined_credit_hash (the_mined_credit msg)) h l
      in l\<lparr>stored_proofs := (stored_proofs l)(proof_GetHash l (work_proof msg) \<mapsto> work_proof msg)\<rparr>)"

section \<open>Recipients\<close>

text \<open>
  \<^verbatim>\<open>TimeAndRecipient\<close> packs a time and a key hash in one number, the location under which a credit is recorded: the time is
  shifted up, and the bytes of the hash are copied over the lowest twenty.
\<close>

definition TimeAndRecipient :: "u64 \<Rightarrow> uint160 \<Rightarrow> uint256" where
  "TimeAndRecipient time recipient =
     (let data = push_bit 160 (ucast time) in of_nat (bytes_val (uint160_bytes recipient @ drop 20 (uint256_bytes data))))"

definition Time :: "uint256 \<Rightarrow> u64" where
  "Time data = ucast (drop_bit 160 data)"

definition Recipient :: "uint256 \<Rightarrow> uint160" where
  "Recipient data = uint160_of_bytes (take 20 (uint256_bytes data))"

definition GetStub :: "uint160 \<Rightarrow> u32" where
  "GetStub h = ucast ((ucast h :: u64) mod (256 * 256 * 256))"

section \<open>Paths\<close>

text \<open>A path goes back from a credit to another: the list has the first and not the last.\<close>

fun path :: "('w, 'p, 's, 'r) ledger \<Rightarrow> uint160 \<Rightarrow> uint160 list \<Rightarrow> uint160 \<Rightarrow> bool" where
  "path l h [] f \<longleftrightarrow> h = f"
| "path l h (x # xs) f \<longleftrightarrow> x = h \<and> h \<noteq> 0 \<and> path l (previous_hash l h) xs f"

definition step_at :: "uint160 list \<Rightarrow> nat \<Rightarrow> uint160" where
  "step_at hs i = (if i < length hs then hs ! i else 0)"

lemma path_append: "path l h (xs @ ys) f \<longleftrightarrow> (\<exists>m. path l h xs m \<and> path l m ys f)"
  by (induction xs arbitrary: h) auto

lemma path_nonzero: "path l h hs f \<Longrightarrow> 0 \<notin> set hs"
  by (induction hs arbitrary: h) auto

lemma path_unique: "path l h xs 0 \<Longrightarrow> path l h ys 0 \<Longrightarrow> xs = ys"
proof (induction xs arbitrary: h ys)
  case Nil
  then show ?case by (cases ys) auto
next
  case (Cons x xs)
  then show ?case by (cases ys) auto
qed

lemma path_distinct: "path l h hs 0 \<Longrightarrow> distinct hs"
proof (induction hs arbitrary: h)
  case (Cons x xs)
  have "x \<notin> set xs"
  proof
    assume "x \<in> set xs"
    then obtain ys zs where xs: "xs = ys @ x # zs" by (meson split_list)
    then have "path l x (x # zs) 0" using Cons.prems by (auto simp: path_append)
    moreover have "path l x (x # xs) 0" using Cons.prems by simp
    ultimately have "x # zs = x # xs" by (rule path_unique)
    then show False using xs by (metis add_Suc_right append_Nil2 length_Cons length_append less_add_Suc2 not_less_iff_gr_or_eq list.inject)
  qed
  then show ?case using Cons by auto
qed simp

lemma path_at: "path l h hs 0 \<Longrightarrow> step_at hs 0 = h"
  by (cases hs) (auto simp: step_at_def)

lemma step_at_simps [simp]: "step_at (x # xs) 0 = x" "step_at (x # xs) (Suc i) = step_at xs i" "step_at [] i = 0"
  by (simp_all add: step_at_def)

lemma path_previous: "path l h hs 0 \<Longrightarrow> previous_hash l 0 = 0 \<Longrightarrow> previous_hash l (step_at hs i) = step_at hs (Suc i)"
proof (induction hs arbitrary: h i)
  case (Cons x xs)
  then show ?case using path_at [of l "previous_hash l h" xs] by (cases i) auto
qed simp

section \<open>The fork of two branches\<close>

text \<open>Two branches that share the history \<open>common\<close>.\<close>

definition branches :: "('w, 'p, 's, 'r) ledger \<Rightarrow> uint160 \<Rightarrow> uint160 \<Rightarrow> uint160 list \<Rightarrow> uint160 list \<Rightarrow> uint160 list \<Rightarrow> bool" where
  "branches l h1 h2 own1 own2 common \<longleftrightarrow> path l h1 (own1 @ common) 0 \<and> path l h2 (own2 @ common) 0 \<and> set own1 \<inter> set own2 = {} \<and> previous_hash l 0 = 0"

definition hit :: "uint160 list \<Rightarrow> uint160 list \<Rightarrow> nat \<Rightarrow> bool" where
  "hit xs ys k \<longleftrightarrow> k < length xs \<and> xs ! k \<in> set (take k ys)"

lemma hit_branches:
  assumes "distinct (own1 @ common)" and "distinct (own2 @ common)" and "set own1 \<inter> set own2 = {}"
  shows "hit (own1 @ common) (own2 @ common) k \<longleftrightarrow> length own2 < length own1 \<and> length own1 \<le> k \<and> k < length own1 + length common"
proof (cases "length own1 \<le> k \<and> k < length own1 + length common")
  case True
  then obtain i where i: "k = length own1 + i" "i < length common" by (metis add_diff_inverse_nat nat_add_left_cancel_less not_less)
  have "common ! i \<in> set (take k own2 @ take (k - length own2) common) \<longleftrightarrow> common ! i \<in> set (take (k - length own2) common)"
    using assms(2) i(2) by (auto dest: in_set_takeD)
  also have "\<dots> \<longleftrightarrow> i < k - length own2"
    using assms(1) i by (auto simp: in_set_conv_nth nth_eq_iff_index_eq)
  finally show ?thesis using True i by (auto simp: hit_def nth_append)
next
  case False
  then have "k < length own1 \<Longrightarrow> own1 ! k \<notin> set (take k own2 @ take (k - length own2) common)"
    using assms(1,3) by (auto dest!: in_set_takeD nth_mem)
  then show ?thesis using False by (auto simp: hit_def nth_append)
qed

definition seen_by :: "uint160 list \<Rightarrow> uint160 list \<Rightarrow> nat \<Rightarrow> uint160 set" where
  "seen_by xs ys i = set (take i xs) \<union> set (take i ys)"

lemma fork_step:
  assumes "path l h1 xs 0" and "path l h2 ys 0" and "previous_hash l 0 = 0"
  shows "fork_loop l (step_at xs i) (step_at ys i) (seen_by xs ys i) n =
    (if length xs \<le> Suc i \<and> length ys \<le> Suc i then Some (0, n)
     else let n' = (if Suc i < length xs then n + 1 else n)
          in if hit xs ys (Suc i) then Some (xs ! Suc i, n')
             else if hit ys xs (Suc i) then Some (ys ! Suc i, n')
             else fork_loop l (step_at xs (Suc i)) (step_at ys (Suc i)) (seen_by xs ys (Suc i)) n')"
proof -
  have z: "step_at zs j = 0 \<longleftrightarrow> length zs \<le> j" if "path l h zs 0" for h zs j
    using path_nonzero [OF that] by (auto simp: step_at_def in_set_conv_nth)
  have s: "set (take (Suc i) zs) = (if 0 < step_at zs i then insert (step_at zs i) (set (take i zs)) else set (take i zs))" if "path l h zs 0" for h zs
    using z [OF that, of i] by (auto simp: take_Suc_conv_app_nth step_at_def word_neq_0_conv)
  have seen: "seen_by xs ys (Suc i) = (let seen = (if 0 < step_at xs i then insert (step_at xs i) (seen_by xs ys i) else seen_by xs ys i)
      in if 0 < step_at ys i then insert (step_at ys i) seen else seen)"
    unfolding seen_by_def s [OF assms(1)] s [OF assms(2)] by (auto simp: Let_def)
  have d: "Suc i < length zs \<Longrightarrow> zs ! Suc i \<notin> set (take (Suc i) zs)" if "path l h zs 0" for h zs
    using path_distinct [OF that] by (auto simp: in_set_conv_nth nth_eq_iff_index_eq)
  let ?S = "seen_by xs ys (Suc i)"
  have hit1: "(step_at xs (Suc i) \<noteq> 0 \<and> step_at xs (Suc i) \<in> ?S) = hit xs ys (Suc i)"
    using z [OF assms(1), of "Suc i"] d [OF assms(1)] by (auto simp: hit_def seen_by_def step_at_def)
  have hit2: "(step_at ys (Suc i) \<noteq> 0 \<and> step_at ys (Suc i) \<in> ?S) = hit ys xs (Suc i)"
    using z [OF assms(2), of "Suc i"] d [OF assms(2)] by (auto simp: hit_def seen_by_def step_at_def)
  have val: "hit xs ys (Suc i) \<Longrightarrow> step_at xs (Suc i) = xs ! Suc i" "hit ys xs (Suc i) \<Longrightarrow> step_at ys (Suc i) = ys ! Suc i"
    by (simp_all add: hit_def step_at_def)
  have "fork_loop l (step_at xs i) (step_at ys i) (seen_by xs ys i) n =
    (if step_at xs (Suc i) = 0 \<and> step_at ys (Suc i) = 0 then Some (0, n)
     else let n' = (if step_at xs (Suc i) \<noteq> 0 then n + 1 else n)
          in if step_at xs (Suc i) \<noteq> 0 \<and> step_at xs (Suc i) \<in> ?S then Some (step_at xs (Suc i), n')
             else if step_at ys (Suc i) \<noteq> 0 \<and> step_at ys (Suc i) \<in> ?S then Some (step_at ys (Suc i), n')
             else fork_loop l (step_at xs (Suc i)) (step_at ys (Suc i)) ?S n')"
    unfolding seen by (subst fork_loop.simps) (simp only: Let_def path_previous [OF assms(1,3)] path_previous [OF assms(2,3)])
  then show ?thesis unfolding hit1 hit2 by (simp add: z [OF assms(1)] z [OF assms(2)] val not_le Let_def cong: if_cong)
qed


lemma branches_hit:
  assumes "branches l h1 h2 own1 own2 common"
  shows "hit (own1 @ common) (own2 @ common) k \<longleftrightarrow> length own2 < length own1 \<and> length own1 \<le> k \<and> k < length own1 + length common"
    and "hit (own2 @ common) (own1 @ common) k \<longleftrightarrow> length own1 < length own2 \<and> length own2 \<le> k \<and> k < length own2 + length common"
proof -
  have d: "distinct (own1 @ common)" "distinct (own2 @ common)" "set own1 \<inter> set own2 = {}"
    using assms path_distinct unfolding branches_def by blast+
  show "hit (own1 @ common) (own2 @ common) k \<longleftrightarrow> length own2 < length own1 \<and> length own1 \<le> k \<and> k < length own1 + length common"
    by (rule hit_branches [OF d])
  show "hit (own2 @ common) (own1 @ common) k \<longleftrightarrow> length own1 < length own2 \<and> length own2 \<le> k \<and> k < length own2 + length common"
    using hit_branches [OF d(2,1)] d(3) by (simp add: Int_commute)
qed

lemma fork_found:
  assumes "branches l h1 h2 own1 own2 common" and "length own1 \<noteq> length own2" and "common \<noteq> []"
    and "i < max (length own1) (length own2)"
  shows "\<exists>n'. fork_loop l (step_at (own1 @ common) i) (step_at (own2 @ common) i) (seen_by (own1 @ common) (own2 @ common) i) n = Some (hd common, n')"
  using assms(4)
proof (induction "max (length own1) (length own2) - i" arbitrary: i n)
  case (Suc d)
  have p: "path l h1 (own1 @ common) 0" "path l h2 (own2 @ common) 0" "previous_hash l 0 = 0" using assms(1) by (auto simp: branches_def)
  have long: "\<not> (length (own1 @ common) \<le> Suc i \<and> length (own2 @ common) \<le> Suc i)"
    using Suc.prems assms(2,3) by (cases common) auto
  show ?case
  proof (cases "Suc i = max (length own1) (length own2)")
    case True
    then show ?thesis
      by (subst fork_step [OF p], unfold if_not_P [OF long] Let_def branches_hit [OF assms(1)])
        (insert assms(2,3), cases common, auto simp: nth_append max_def split: if_splits)
  next
    case False
    then have "d = max (length own1) (length own2) - Suc i" "Suc i < max (length own1) (length own2)" using Suc by auto
    then show ?thesis
      by (subst fork_step [OF p], unfold if_not_P [OF long] Let_def branches_hit [OF assms(1)])
        (insert Suc.hyps(1), auto simp: max_def split: if_splits)
  qed
qed auto

lemma fork_missed:
  assumes "branches l h1 h2 own1 own2 common" and "length own1 = length own2 \<or> common = []"
  shows "\<exists>n'. fork_loop l (step_at (own1 @ common) i) (step_at (own2 @ common) i) (seen_by (own1 @ common) (own2 @ common) i) n = Some (0, n')"
proof (induction "max (length (own1 @ common)) (length (own2 @ common)) - i" arbitrary: i n)
  case 0
  have p: "path l h1 (own1 @ common) 0" "path l h2 (own2 @ common) 0" "previous_hash l 0 = 0" using assms(1) by (auto simp: branches_def)
  show ?case by (subst fork_step [OF p]) (use 0 in simp)
next
  case (Suc d)
  have p: "path l h1 (own1 @ common) 0" "path l h2 (own2 @ common) 0" "previous_hash l 0 = 0" using assms(1) by (auto simp: branches_def)
  have "d = max (length (own1 @ common)) (length (own2 @ common)) - Suc i" using Suc by auto
  then show ?case
    by (subst fork_step [OF p], unfold Let_def branches_hit [OF assms(1)]) (insert Suc.hyps(1) assms(2), auto)
qed

lemma get_fork:
  assumes "branches l h1 h2 own1 own2 common"
  shows "\<exists>n. GetFork l h1 h2 = Some (if h1 = h2 then h1 else if length own1 = length own2 \<or> common = [] then 0 else hd common, n)"
proof (cases "h1 = h2")
  case False
  have "step_at (own1 @ common) 0 = h1" "step_at (own2 @ common) 0 = h2" using assms path_at unfolding branches_def by blast+
  moreover have "0 < max (length own1) (length own2)" if "length own1 \<noteq> length own2" using that by auto
  ultimately show ?thesis
    using False fork_found [OF assms, of 0 0] fork_missed [OF assms, of 0 0] by (auto simp: GetFork_def seen_by_def)
qed (simp add: GetFork_def)


text \<open>The number of steps back to the fork, or to the beginning where the fork is missed.\<close>

definition fork_distance :: "uint160 list \<Rightarrow> uint160 list \<Rightarrow> uint160 list \<Rightarrow> nat" where
  "fork_distance own1 own2 common =
     length own1 + length own2 + (if length own1 = length own2 \<and> own1 \<noteq> [] then 2 * length common else 0)"

lemma fork_paths:
  assumes "branches l h1 h2 own1 own2 common"
  obtains fork n r1 r2 shared where "GetFork l h1 h2 = Some (fork, n)" "path l h1 r1 fork" "path l h2 r2 fork"
    "fork \<notin> set r1" "fork \<notin> set r2" "own1 @ common = r1 @ shared" "own2 @ common = r2 @ shared"
    "length r1 + length r2 = fork_distance own1 own2 common"
proof -
  obtain n where n: "GetFork l h1 h2 = Some (if h1 = h2 then h1 else if length own1 = length own2 \<or> common = [] then 0 else hd common, n)"
    using get_fork [OF assms] by blast
  have p: "path l h1 (own1 @ common) 0" "path l h2 (own2 @ common) 0" "set own1 \<inter> set own2 = {}" using assms by (auto simp: branches_def)
  have same: "own1 = [] \<and> own2 = []" if "h1 = h2"
  proof -
    have "own1 @ common = own2 @ common" using path_unique [OF p(1), of "own2 @ common"] p(2) that by simp
    then show ?thesis using p(3) by auto
  qed
  have diff: "own1 \<noteq> [] \<or> own2 \<noteq> []" if "h1 \<noteq> h2" using p that by (cases common) auto
  show thesis
  proof (cases "h1 = h2 \<or> common \<noteq> [] \<and> length own1 \<noteq> length own2")
    case True
    then show thesis
    proof
      assume h: "h1 = h2"
      show thesis by (rule that [of h1 n "[]" "[]" common]) (use n h same in \<open>auto simp: fork_distance_def\<close>)
    next
      assume c: "common \<noteq> [] \<and> length own1 \<noteq> length own2"
      have q: "path l h1 own1 (hd common)" "path l h2 own2 (hd common)" using p(1,2) c by (cases common; auto simp: path_append)+
      have "hd common \<notin> set own1" "hd common \<notin> set own2"
        using path_distinct [OF p(1)] path_distinct [OF p(2)] c by (cases common; auto)+
      moreover have "h1 \<noteq> h2" using same c by auto
      ultimately show thesis using that [of "hd common" n own1 own2 common] n c q by (simp add: fork_distance_def)
    qed
  next
    case False
    then show thesis
      using that [of 0 n "own1 @ common" "own2 @ common" "[]"] n p path_nonzero [OF p(1)] path_nonzero [OF p(2)] diff by (cases own1) (auto simp: fork_distance_def)
  qed
qed

section \<open>What changes between two branches\<close>

abbreviation spent_along :: "('w, 'p, 's, 'r) ledger \<Rightarrow> uint160 list \<Rightarrow> u64 list" where
  "spent_along l hs \<equiv> concat (map (GetBitsSetInBatch l) hs)"

lemma collect_bits_path:
  "path l h hs fork \<Longrightarrow> fork \<notin> set hs \<Longrightarrow>
   collect_bits l fork h look_back bits =
     (if hs = [] \<or> look_back + length hs \<le> 300 then Some (look_back + length hs, bits @ spent_along l hs) else None)"
proof (induction hs arbitrary: h look_back bits)
  case (Cons x xs)
  then show ?case by (subst collect_bits.simps) auto
qed (simp add: collect_bits.simps)

lemma diff_common: "x \<in># A \<Longrightarrow> x \<in># B \<Longrightarrow> (A - {#x#}) - (B - {#x#}) = A - B"
  by (rule multiset_eqI) auto

lemma diff_disjoint: "set xs \<inter> set ys = {} \<Longrightarrow> mset xs - mset ys = mset xs"
  by (rule multiset_eqI) (metis count_diff diff_zero disjoint_iff count_mset_0_iff diff_0_eq_0)

lemma mset_erase_at: "i < length xs \<Longrightarrow> mset (erase_at i xs) = mset xs - {#xs ! i#}"
  using arg_cong [OF id_take_nth_drop, of i xs mset] by simp

lemma cancel_common_mset:
  "set (take i xs) \<inter> set ys = {} \<Longrightarrow> cancel_common i xs ys = (xs', ys') \<Longrightarrow> mset xs' = mset xs - mset ys \<and> mset ys' = mset ys - mset xs"
proof (induction i xs ys rule: cancel_common.induct)
  case (1 i xs ys)
  show ?case
  proof (cases "i < length xs")
    case False
    then show ?thesis using 1(3,4) diff_disjoint [of xs ys] diff_disjoint [of ys xs] by (auto simp: cancel_common.simps Int_commute)
  next
    case i: True
    show ?thesis
    proof (cases "xs ! i \<in> set ys")
      case True
      let ?j = "find_index (xs ! i) ys"
      have j: "?j < length ys" "ys ! ?j = xs ! i"
        using True find_index_less [of "xs ! i" ys] nth_length_takeWhile [of "\<lambda>y. y \<noteq> xs ! i" ys] by (auto simp: find_index_def)
      have "set (take i (erase_at i xs)) \<inter> set (erase_at ?j ys) = {}"
        using 1(3) i by (auto dest: in_set_takeD in_set_dropD)
      then have "mset xs' = mset (erase_at i xs) - mset (erase_at ?j ys) \<and> mset ys' = mset (erase_at ?j ys) - mset (erase_at i xs)"
        using 1(1) [OF i True] 1(4) i True by (simp add: cancel_common.simps [of i xs ys])
      then show ?thesis
        unfolding mset_erase_at [OF i] mset_erase_at [OF j(1)] j(2) using True i diff_common by (metis nth_mem set_mset_mset)
    next
      case False
      then show ?thesis using 1(2) [OF i False] 1(3,4) i by (simp add: cancel_common.simps [of i xs ys] take_Suc_conv_app_nth)
    qed
  qed
qed


text \<open>A chain of bits that stands for what is spent along a history; no position is spent twice.\<close>

definition spent_chain_of :: "('w, 'p, 's, 'r) ledger \<Rightarrow> bit_chain \<Rightarrow> uint160 list \<Rightarrow> nat \<Rightarrow> bool" where
  "spent_chain_of l chain hs len \<longleftrightarrow> chain_inv chain \<and> chain_length chain = len \<and> (\<forall>p < len. chain_bits chain ! p \<longleftrightarrow> p \<in> unat ` set (spent_along l hs))"

definition history_ok :: "('w, 'p, 's, 'r) ledger \<Rightarrow> uint160 list \<Rightarrow> nat \<Rightarrow> bool" where
  "history_ok l hs len \<longleftrightarrow> distinct (spent_along l hs) \<and> (\<forall>p \<in> set (spent_along l hs). unat p < len)"

lemma set_of_difference:
  assumes "distinct xs" and "distinct ys" and "mset zs = mset xs - mset ys"
  shows "set zs = set xs - set ys"
proof -
  have "x \<in># mset zs \<longleftrightarrow> x \<in> set xs \<and> x \<notin> set ys" for x
    unfolding assms(3) in_diff_count by (simp add: distinct_count_atmost_1 [THEN iffD1, OF assms(1), rule_format] distinct_count_atmost_1 [THEN iffD1, OF assms(2), rule_format])
  then show ?thesis by auto
qed

lemma image_unat_iff: "unat p \<in> unat ` A \<longleftrightarrow> p \<in> A"
  by (auto simp: inj_image_mem_iff)

lemma change_bits:
  fixes cs ss :: "u64 list"
  assumes "chain_inv chain" and "n \<le> 8 * (2 ^ 31 - 1)" and "BitChain_SetLength n chain = Some c1"
  shows "p < n \<Longrightarrow> chain_bits (fold (\<lambda>p. BitChain_Clear (unat p)) cs (fold (\<lambda>p. BitChain_Set (unat p)) ss c1)) ! p \<longleftrightarrow>
    p \<notin> unat ` set cs \<and> (p \<in> unat ` set ss \<or> p < chain_length chain \<and> chain_bits chain ! p)"
    and "chain_inv (fold (\<lambda>p. BitChain_Clear (unat p)) cs (fold (\<lambda>p. BitChain_Set (unat p)) ss c1))"
    and "chain_length (fold (\<lambda>p. BitChain_Clear (unat p)) cs (fold (\<lambda>p. BitChain_Set (unat p)) ss c1)) = n"
proof -
  have m: "fold (\<lambda>p. BitChain_Set (unat p)) xs c = fold BitChain_Set (map unat xs) c"
      "fold (\<lambda>p. BitChain_Clear (unat p)) xs c = fold BitChain_Clear (map unat xs) c" for xs :: "u64 list" and c
    by (simp_all add: fold_map comp_def)
  have c1: "chain_inv c1" "chain_bits c1 = resize n False (chain_bits chain)" using chain_SetLength [OF assms(1,2)] assms(3) by auto
  note c2 = chain.fold_set1 [OF c1(1), of "map unat ss"]
  note c3 = chain.fold_clear1 [OF conjunct1 [OF c2], of "map unat cs"]
  show "chain_inv (fold (\<lambda>p. BitChain_Clear (unat p)) cs (fold (\<lambda>p. BitChain_Set (unat p)) ss c1))" unfolding m using c3 by blast
  have len: "length (chain_bits (fold BitChain_Clear (map unat cs) (fold BitChain_Set (map unat ss) c1))) = n"
    using c2 c3 c1(2) by simp
  then show "chain_length (fold (\<lambda>p. BitChain_Clear (unat p)) cs (fold (\<lambda>p. BitChain_Set (unat p)) ss c1)) = n" unfolding m by simp
  have "chain_bits (fold BitChain_Clear (map unat cs) (fold BitChain_Set (map unat ss) c1)) ! p \<longleftrightarrow>
      p \<notin> set (map unat cs) \<and> (p \<in> set (map unat ss) \<or> chain_bits c1 ! p)" if "p < n"
    using c2 c3 c1(2) that by (simp del: length_chain_bits set_map)
  then show "chain_bits (fold (\<lambda>p. BitChain_Clear (unat p)) cs (fold (\<lambda>p. BitChain_Set (unat p)) ss c1)) ! p \<longleftrightarrow>
      p \<notin> unat ` set cs \<and> (p \<in> unat ` set ss \<or> p < chain_length chain \<and> chain_bits chain ! p)" if "p < n"
    unfolding m c1(2) using that by (auto simp: nth_resize)
qed

lemma spent_differences:
  assumes "branches l h1 h2 own1 own2 common" and "distinct (spent_along l (own1 @ common))" and "distinct (spent_along l (own2 @ common))"
  obtains to_set to_clear r1 r2 shared where
    "GetSpentChainDifferences l h1 h2 = Some (if fork_distance own1 own2 common \<le> 300 then (True, to_set, to_clear) else (False, (if length r2 \<le> 300 then spent_along l r2 else []), []))"
    "own1 @ common = r1 @ shared" "own2 @ common = r2 @ shared"
    "set to_set = set (spent_along l r2) - set (spent_along l r1)" "set to_clear = set (spent_along l r1) - set (spent_along l r2)"
proof -
  obtain fork n r1 r2 shared where f: "GetFork l h1 h2 = Some (fork, n)" "path l h1 r1 fork" "path l h2 r2 fork"
      "fork \<notin> set r1" "fork \<notin> set r2" "own1 @ common = r1 @ shared" "own2 @ common = r2 @ shared"
      "length r1 + length r2 = fork_distance own1 own2 common"
    using fork_paths [OF assms(1)] .
  obtain to_set to_clear where c: "cancel_common 0 (spent_along l r2) (spent_along l r1) = (to_set, to_clear)" by fastforce
  have d: "distinct (spent_along l r1)" "distinct (spent_along l r2)" using assms(2,3) unfolding f(6,7) by auto
  have m: "mset to_set = mset (spent_along l r2) - mset (spent_along l r1)" "mset to_clear = mset (spent_along l r1) - mset (spent_along l r2)"
    using cancel_common_mset [OF _ c] by auto
  have g: "GetSpentChainDifferences l h1 h2 = Some (if fork_distance own1 own2 common \<le> 300 then (True, to_set, to_clear) else (False, (if length r2 \<le> 300 then spent_along l r2 else []), []))"
    using f(1) collect_bits_path [OF f(2,4)] collect_bits_path [OF f(3,5)] f(8) c by (auto simp: GetSpentChainDifferences_def)
  show thesis by (rule that [OF g f(6,7) set_of_difference [OF d(2,1) m(1)] set_of_difference [OF d m(2)]])
qed


section \<open>Properties\<close>

text \<open>
  C25. Where two branches of the history part.  The fork that is found is the latest common credit, except where both credits are equally far from it:
  then the walk passes it on both sides in the same step and goes on to the beginning of the history, with the fork zero.
\<close>

theorem fork_is_latest_common:
  assumes "path l h1 (own1 @ common) 0" and "path l h2 (own2 @ common) 0" and "set own1 \<inter> set own2 = {}" and "previous_hash l 0 = 0"
  shows "\<exists>n. GetFork l h1 h2 = Some (if h1 = h2 then h1 else if length own1 = length own2 \<or> common = [] then 0 else hd common, n)"
  using assms by (intro get_fork) (simp add: branches_def)

text \<open>
  C7. Changing the chain of spent credits to another branch.  If the chain has the bits of the positions that are spent along the first history, it has
  those of the second history afterwards, with its length, whatever the two histories have in common, as long as the walks to the
  fork take no more than three hundred steps together; otherwise nothing is changed and the answer is false.  The length of the second
  history is bounded by \<open>8 * (2 ^ 31 - 1)\<close> bits, the largest number whose bytes \<^verbatim>\<open>SetLength\<close> can count.
\<close>

theorem spent_chain_follows_branch:
  assumes "branches l h1 h2 own1 own2 common"
    and "history_ok l (own1 @ common) len1" and "history_ok l (own2 @ common) (unat len2)"
    and "spent_chain_of l chain (own1 @ common) len1"
    and "SpentChainLength l h2 = Inr (len2, l')" and "len2 \<noteq> 0" and "unat len2 \<le> 8 * (2 ^ 31 - 1)"
  shows "\<exists>chain' changed. ChangeSpentChain l chain h1 h2 = Some (Inr (changed, chain', if changed then l' else l))
    \<and> (changed \<longleftrightarrow> fork_distance own1 own2 common \<le> 300)
    \<and> (if changed then spent_chain_of l chain' (own2 @ common) (unat len2) else chain' = chain)"
proof -
  have d: "distinct (spent_along l (own1 @ common))" "distinct (spent_along l (own2 @ common))" using assms(2,3) by (auto simp: history_ok_def)
  obtain to_set to_clear r1 r2 shared where g:
    "GetSpentChainDifferences l h1 h2 = Some (if fork_distance own1 own2 common \<le> 300 then (True, to_set, to_clear) else (False, (if length r2 \<le> 300 then spent_along l r2 else []), []))"
    and r: "own1 @ common = r1 @ shared" "own2 @ common = r2 @ shared"
    and s: "set to_set = set (spent_along l r2) - set (spent_along l r1)" "set to_clear = set (spent_along l r1) - set (spent_along l r2)"
    using spent_differences [OF assms(1) d] .
  show ?thesis
  proof (cases "fork_distance own1 own2 common \<le> 300")
    case False
    then show ?thesis using g by (intro exI [of _ chain] exI [of _ False]) (simp add: ChangeSpentChain_def)
  next
    case True
    have inv: "chain_inv chain" using assms(4) by (simp add: spent_chain_of_def)
    obtain c1 where c1: "BitChain_SetLength (unat len2) chain = Some c1" using chain_SetLength [OF inv assms(7)] by blast
    note change = change_bits [OF inv assms(7) c1]
    let ?chain = "fold (\<lambda>p. BitChain_Clear (unat p)) to_clear (fold (\<lambda>p. BitChain_Set (unat p)) to_set c1)"
    have len: "chain_length ?chain = unat len2" by (rule change(3))
    have bit: "chain_bits ?chain ! p \<longleftrightarrow> p \<in> unat ` set (spent_along l (own2 @ common))" if p: "p < unat len2" for p
    proof -
      have old: "p < len1 \<and> p \<in> unat ` set (spent_along l (own1 @ common)) \<longleftrightarrow> p \<in> unat ` set (spent_along l (own1 @ common))"
        using assms(2) by (auto simp: history_ok_def)
      have "p < 2 ^ LENGTH(64)" by (rule order.strict_trans [OF p unsigned_less])
      then have "p = unat (of_nat p :: u64)" by (simp add: unat_of_nat)
      then obtain q :: u64 where q: "p = unat q" by blast
      have "chain_bits ?chain ! p \<longleftrightarrow> p \<notin> unat ` set to_clear \<and> (p \<in> unat ` set to_set \<or> p \<in> unat ` set (spent_along l (own1 @ common)))"
        unfolding change(1) [OF p] using assms(4) old by (auto simp: spent_chain_of_def)
      moreover have "set (spent_along l r1) \<inter> set (spent_along l shared) = {}" using d(1) unfolding r by simp
      ultimately show ?thesis unfolding r s map_append concat_append set_append q image_unat_iff by blast
    qed
    have "chain_inv ?chain" by (rule change(2))
    then show ?thesis using True g assms(5,6) len bit c1 by (auto simp: ChangeSpentChain_def spent_chain_of_def)
  qed
qed


text \<open>
  C26. Transactions of two branches.  If the walk back from the target meets the main chain, or the beginning, at a credit that lies on the history of the tip,
  the function returns, and exactly the transactions of the target's own batches that the tip's own batches do not have are added,
  and the other way round deleted, each as often as it occurs.
\<close>

theorem tx_differences_exact:
  assumes "path l target_hash added fork" and "\<forall>h \<in> set added. \<not> main h" and "main fork \<or> fork = 0"
    and "path l starting_hash removed fork" and "fork \<notin> set removed"
  shows "\<exists>to_add to_delete. GetTxDifferences l main starting_hash target_hash = Some (to_add, to_delete)
    \<and> mset to_add = mset (concat (map (batchhashes l) added)) - mset (concat (map (batchhashes l) removed))
    \<and> mset to_delete = mset (concat (map (batchhashes l) removed)) - mset (concat (map (batchhashes l) added))"
proof -
  have walk: "contents_back l stop h acc = Some (f, acc @ concat (map (batchhashes l) hs))"
    if "path l h hs f" "\<forall>x \<in> set hs. \<not> stop x" "stop f \<or> f = 0" for stop h hs f acc
    using that
  proof (induction hs arbitrary: h acc)
    case Nil
    then show ?case by (subst contents_back.simps) auto
  next
    case (Cons x xs)
    then show ?case by (subst contents_back.simps) auto
  qed
  obtain to_add to_delete where c: "cancel_common 0 (concat (map (batchhashes l) added)) (concat (map (batchhashes l) removed)) = (to_add, to_delete)"
    by fastforce
  have "\<forall>h \<in> set removed. \<not> h = fork" using assms(5) by auto
  then have "GetTxDifferences l main starting_hash target_hash = Some (to_add, to_delete)"
    using walk [OF assms(1,2,3)] walk [OF assms(4), of "\<lambda>h. h = fork"] c by (simp add: GetTxDifferences_def)
  then show ?thesis using cancel_common_mset [OF _ c] by auto
qed

text \<open>A small history: the credits 2 and 3 follow 1, and 4 follows 3.\<close>

definition example_tx :: "u64 \<Rightarrow> (vch_t, unit) signed_transaction" where
  "example_tx pos = \<lparr>rawtx = UnsignedTransaction_new\<lparr>inputs := [\<lparr>amount = 1, public_key = [], cb_position = pos, cb_branch = [], cb_diurn_branch = []\<rparr>]\<rparr>, signature = ()\<rparr>"

definition example_ledger :: "(uint160, uint160, unit, unit) ledger" where
  "example_ledger = \<lparr>led_env = example_env\<lparr>creditdata_mined_credit := (\<lambda>h. example_credit\<lparr>previous_mined_credit_hash := (if h = 4 then 3 else if h = 2 \<or> h = 3 then 1 else 0)\<rparr>),
       creditdata_msg := (\<lambda>h. \<lparr>the_mined_credit = example_credit\<lparr>mc_offset := 10\<rparr>, work_proof = 0, msg_hash_list = example_hash_list, msg_other_fields = []\<rparr>), has_msg := (\<lambda>h. False)\<rparr>,
     led_calendar = empty_data, led_tx = [11 \<mapsto> example_tx 1, 12 \<mapsto> example_tx 3, 14 \<mapsto> example_tx 5], led_branch = Map.empty,
     batchhashes = (\<lambda>h. if h = 1 then [11] else if h = 2 then [12] else if h = 3 then [12] else if h = 4 then [14] else []),
     stored_chain = Map.empty, root_credit_hash = (\<lambda>h. 0), tx_credit_hash = (\<lambda>h. 0), hash_matches = (\<lambda>h. []), known_solutions = (\<lambda>h. None),
     hash_list_hash = (\<lambda>hs. 0), relay_state_of = (\<lambda>h. Inr RelayState_new), join_message = (\<lambda>h. \<lparr>relay_number = 0, relay_pubkey = 0, preceding_relay_join_hash = 0, join_VerificationKey = 0\<rparr>), has_join = (\<lambda>h. False),
     join_credit_hash = (\<lambda>join. 0), relay_getvch = (\<lambda>p. []), sort_fees = (\<lambda>cs. cs), RELAY_FEE = 5,
     msg_types = (\<lambda>h. []), received_hashes = {}, received_hashes256 = {}, children_of = (\<lambda>h. []), stored_proofs = Map.empty, mc_GetHash = (\<lambda>credit. 0),
     msg_GetHash = (\<lambda>msg. 0), msg_GetHash160 = (\<lambda>msg. 0), tx_GetHash160 = (\<lambda>tx. 0), proof_GetHash = (\<lambda>proof. 0)\<rparr>"

lemma example_previous: "previous_hash example_ledger h = (if h = 4 then 3 else if h = 2 \<or> h = 3 then 1 else 0)"
  by (simp add: PreviousCreditHash_def example_ledger_def)

lemma example_branches: "branches example_ledger 2 4 [2] [4, 3] [1]"
  by (simp add: branches_def example_previous)

lemma example_bits: "GetBitsSetInBatch example_ledger h = (if h = 1 then [1] else if h = 2 \<or> h = 3 then [3] else if h = 4 then [5] else [])"
  by (simp add: GetBitsSetInBatch_def GetBitsSetByTxs_def example_ledger_def example_tx_def)

theorem fork_is_latest_common_witness:
  "(\<exists>n. GetFork example_ledger 2 4 = Some (1, n)) \<and> (\<exists>n. GetFork example_ledger 2 3 = Some (0, n))"
  using fork_is_latest_common [of example_ledger 2 "[2]" "[1]" 4 "[4, 3]"] fork_is_latest_common [of example_ledger 2 "[2]" "[1]" 3 "[3]"]
  by (auto simp: example_previous)

lemma example_length: "SpentChainLength example_ledger 4 = Inr (10, example_ledger)"
  by (simp add: SpentChainLength_def GetCreditsFromMsg_def RecoverFullHashes_def example_ledger_def example_hash_list_def PossibleMatches_def
      NumberOfCombinations_def ThereIsACorrectMatch_def correct_match.simps IsCalend_def MAX_HASH_ENTRIES_def MAX_HASH_COMBINATIONS_def
      UseMatch_def GetCreditsFromHashes_def MultiXor_def)

lemma example_chain: "spent_chain_of example_ledger \<lparr>chain_length = 10, chain_data = [10, 0]\<rparr> ([2] @ [1]) 10"
proof -
  have "list_all (\<lambda>i. chain_bit [10, 0] i \<longleftrightarrow> i = 1 \<or> i = 3) [0..<16]" by code_simp
  then have "p < 16 \<Longrightarrow> chain_bit [10, 0] p \<longleftrightarrow> p = 1 \<or> p = 3" for p by (simp add: list_all_iff)
  then show ?thesis by (auto simp: spent_chain_of_def chain_inv_def chain_bits_def example_bits)
qed

theorem spent_chain_follows_branch_witness:
  "\<exists>chain' changed. ChangeSpentChain example_ledger \<lparr>chain_length = 10, chain_data = [10, 0]\<rparr> 2 4 = Some (Inr (changed, chain', example_ledger))
    \<and> changed \<and> spent_chain_of example_ledger chain' [4, 3, 1] 10"
proof -
  have "history_ok example_ledger ([2] @ [1]) 10" "history_ok example_ledger ([4, 3] @ [1]) (unat (10 :: u64))"
    by (simp_all add: history_ok_def example_bits)
  then show ?thesis
    using spent_chain_follows_branch [OF example_branches _ _ example_chain example_length] by (auto simp: fork_distance_def)
qed

theorem tx_differences_exact_witness:
  "\<exists>to_add to_delete. GetTxDifferences example_ledger (\<lambda>h. h = 1 \<or> h = 2) 2 4 = Some (to_add, to_delete) \<and> mset to_add = {#14#} \<and> mset to_delete = {#}"
proof -
  have "path example_ledger 4 [4, 3] 1" "path example_ledger 2 [2] 1" by (simp_all add: example_previous)
  moreover have "concat (map (batchhashes example_ledger) [4, 3]) = [14, 12]" "concat (map (batchhashes example_ledger) [2]) = [12]"
    by (simp_all add: example_ledger_def)
  ultimately show ?thesis using tx_differences_exact [of example_ledger 4 "[4, 3]" 1 "\<lambda>h. h = 1 \<or> h = 2" 2 "[2]"] by auto
qed


section \<open>Recipients in order\<close>

lemma bytes_val_drop: "m \<le> length bs \<Longrightarrow> bytes_val (drop m bs) = bytes_val bs div 256 ^ m"
proof -
  assume m: "m \<le> length bs"
  have "bytes_val bs = bytes_val (take m bs) + 256 ^ m * bytes_val (drop m bs)"
    using bytes_val_append [of "take m bs" "drop m bs"] m by (simp add: min_absorb2)
  moreover have "bytes_val (take m bs) < 256 ^ m" using bytes_val_bound [of "take m bs"] m by (simp add: min_absorb2)
  ultimately show ?thesis by simp
qed

lemma unat_TimeAndRecipient: "unat (TimeAndRecipient time recipient) = unat recipient + 2 ^ 160 * unat time"
proof -
  have r: "unat recipient < 2 ^ 160" and t: "unat time < 2 ^ 64" using unat_less_exp [of recipient] unat_less_exp [of time] by auto
  have small: "unat (of_nat n :: uint256) = n" if "n < 2 ^ 256" for n using that by (simp add: unat_of_nat)
  have "unat time \<le> 2 ^ 64 - 1" using t by (metis One_nat_def Suc_pred less_Suc_eq_le zero_less_numeral zero_less_power)
  then have "2 ^ 160 * unat time \<le> 2 ^ 160 * (2 ^ 64 - 1)" by (rule mult_le_mono2)
  with r have "unat recipient + 2 ^ 160 * unat time < 2 ^ 160 + 2 ^ 160 * (2 ^ 64 - 1)" by (rule add_less_le_mono)
  also have "\<dots> \<le> (2 ^ 256 :: nat)" by simp
  finally have big: "unat recipient + 2 ^ 160 * unat time < 2 ^ 256" .
  have "unat (ucast time :: uint256) = unat time"
    using small [of "unat time"] big by simp
  then have "unat (push_bit 160 (ucast time :: uint256)) = 2 ^ 160 * unat time"
    unfolding unsigned_push_bit_eq using big by (simp add: push_bit_nat_def take_bit_nat_def mult.commute)
  then have "bytes_val (drop 20 (uint256_bytes (push_bit 160 (ucast time)))) = unat time"
    using big by (simp add: bytes_val_drop uint256_bytes_def mem_simps)
  then have "bytes_val (uint160_bytes recipient @ drop 20 (uint256_bytes (push_bit 160 (ucast time)))) = unat recipient + 2 ^ 160 * unat time"
    using r by (simp add: bytes_val_append uint160_bytes_def mem_simps)
  then show ?thesis unfolding TimeAndRecipient_def Let_def using small [OF big] by simp
qed

text \<open>
  A time and a recipient read back from the packed number, and packed numbers are ordered by the time first: the locations of the
  credits of a recipient are visited in the order in which they were recorded.
\<close>

theorem time_and_recipient_order:
  "Time (TimeAndRecipient time recipient) = time \<and> Recipient (TimeAndRecipient time recipient) = recipient
   \<and> (TimeAndRecipient time recipient < TimeAndRecipient time' recipient' \<longleftrightarrow> time < time' \<or> time = time' \<and> recipient < recipient')"
proof (intro conjI)
  have r: "unat h < 2 ^ 160" for h :: uint160 using unat_less_exp [of h] by simp
  have "unat (drop_bit 160 (TimeAndRecipient time recipient)) = unat time"
    using r [of recipient] by (simp add: drop_bit_eq_div unat_div unat_TimeAndRecipient)
  then have "drop_bit 160 (TimeAndRecipient time recipient) = of_nat (unat time)" by (metis of_nat_unat ucast_id)
  moreover have "ucast (of_nat (unat time) :: uint256) = time" by (simp, rule bit_word_eqI) (simp add: bit_simps)
  ultimately show "Time (TimeAndRecipient time recipient) = time" by (simp add: Time_def)
  show "Recipient (TimeAndRecipient time recipient) = recipient"
    using r [of recipient] by (simp add: Recipient_def uint256_bytes_def take_le_bytes unat_TimeAndRecipient uint160_of_bytes_def mem_simps)
  have "a + B * s < b + B * t \<longleftrightarrow> s < t \<or> s = t \<and> a < b" if "a < B" "b < B" for a b s t B :: nat
  proof -
    have "x < y \<Longrightarrow> B * x + B \<le> B * y" for x y by (metis Suc_leI mult_Suc_right add.commute mult_le_mono2)
    from this [of s t] this [of t s] show ?thesis using that by (cases s t rule: linorder_cases) auto
  qed
  then show "TimeAndRecipient time recipient < TimeAndRecipient time' recipient' \<longleftrightarrow> time < time' \<or> time = time' \<and> recipient < recipient'"
    using r unfolding word_less_nat_alt unat_TimeAndRecipient by (metis word_unat_eq_iff)
qed


section \<open>Observations\<close>

text \<open>Two transactions with as many inputs conflict if they share one; with a different number of inputs the test may read beyond the end.\<close>

lemma conflict_of_equal_length:
  assumes "length (inputs (rawtx tx1)) = length (inputs (rawtx tx2))"
  shows "TransactionsConflict tx1 tx2 = Some (\<exists>a \<in> set (inputs (rawtx tx1)). \<exists>b \<in> set (inputs (rawtx tx2)). CreditInBatch_equal a b)"
proof -
  have "conflict_loop as bs jks = Some (\<exists>(j, k) \<in> set jks. CreditInBatch_equal (as ! k) (bs ! j))"
    if "\<forall>(j, k) \<in> set jks. k < length as \<and> j < length bs" for as bs jks
    using that by (induction as bs jks rule: conflict_loop.induct) auto
  then have "TransactionsConflict tx1 tx2 = Some (\<exists>(j, k) \<in> set (List.product [0..<length (inputs (rawtx tx1))] [0..<length (inputs (rawtx tx2))]).
      CreditInBatch_equal (inputs (rawtx tx1) ! k) (inputs (rawtx tx2) ! j))"
    using assms by (simp add: TransactionsConflict_def Let_def)
  then show ?thesis using assms by (fastforce simp: in_set_conv_nth)
qed

lemma conflict_out_of_range: "TransactionsConflict (example_tx 1) ((example_tx 2)\<lparr>rawtx := (rawtx (example_tx 2))\<lparr>inputs := inputs (rawtx (example_tx 2)) @ inputs (rawtx (example_tx 3))\<rparr>\<rparr>) = None"
  by (simp add: TransactionsConflict_def example_tx_def CreditInBatch_equal_def Let_def upt_rec)

end
