(* ===== verification/LevelCoding.thy ===== *)
theory LevelCoding
  imports Prelude "HOL-Library.Monad_Syntax"
begin

text \<open>
  The encodings of LevelDB, \<^verbatim>\<open>src/leveldb/util/coding.cc\<close>: integers of fixed width, integers of variable width in groups of seven bits,
  and slices with their length in front.  A pair of pointers \<^verbatim>\<open>p\<close> and \<^verbatim>\<open>limit\<close> is the list of the bytes between them, and \<^verbatim>\<open>NULL\<close> is
  \<open>None\<close>.  The machine is little endian, as \<^verbatim>\<open>memcpy\<close> needs it.
\<close>

unbundle bit_operations_syntax

section \<open>Encodings\<close>

definition EncodeFixed32 :: "u32 \<Rightarrow> vch_t" where
  "EncodeFixed32 v = le_bytes 4 (unat v)"

definition EncodeFixed64 :: "u64 \<Rightarrow> vch_t" where
  "EncodeFixed64 v = le_bytes 8 (unat v)"

definition PutFixed32 :: "vch_t \<Rightarrow> u32 \<Rightarrow> vch_t" where
  "PutFixed32 dst v = dst @ EncodeFixed32 v"

definition PutFixed64 :: "vch_t \<Rightarrow> u64 \<Rightarrow> vch_t" where
  "PutFixed64 dst v = dst @ EncodeFixed64 v"

definition DecodeFixed32 :: "vch_t \<Rightarrow> u32" where
  "DecodeFixed32 ptr = of_nat (bytes_val (take 4 ptr))"

definition DecodeFixed64 :: "vch_t \<Rightarrow> u64" where
  "DecodeFixed64 ptr = of_nat (bytes_val (take 8 ptr))"

definition EncodeVarint32 :: "u32 \<Rightarrow> vch_t" where
  "EncodeVarint32 v =
     (let B = 128
      in if v < push_bit 7 1 then [ucast v]
         else if v < push_bit 14 1 then [ucast (v OR B), ucast (drop_bit 7 v)]
         else if v < push_bit 21 1 then [ucast (v OR B), ucast (drop_bit 7 v OR B), ucast (drop_bit 14 v)]
         else if v < push_bit 28 1 then [ucast (v OR B), ucast (drop_bit 7 v OR B), ucast (drop_bit 14 v OR B), ucast (drop_bit 21 v)]
         else [ucast (v OR B), ucast (drop_bit 7 v OR B), ucast (drop_bit 14 v OR B), ucast (drop_bit 21 v OR B), ucast (drop_bit 28 v)])"

definition PutVarint32 :: "vch_t \<Rightarrow> u32 \<Rightarrow> vch_t" where
  "PutVarint32 dst v = dst @ EncodeVarint32 v"

lemma drop_bit_less: "128 \<le> (v :: u64) \<Longrightarrow> unat (drop_bit 7 v) < unat v"
proof -
  assume "128 \<le> v"
  then have "128 \<le> unat v" by (simp add: word_le_nat_alt)
  then show ?thesis by (simp add: drop_bit_eq_div unat_div)
qed

function EncodeVarint64 :: "u64 \<Rightarrow> vch_t" where
  "EncodeVarint64 v = (if v \<ge> 128 then ucast ((v AND 127) OR 128) # EncodeVarint64 (drop_bit 7 v) else [ucast v])"
  by pat_completeness auto
termination by (relation "measure unat") (auto simp: drop_bit_less)

definition PutVarint64 :: "vch_t \<Rightarrow> u64 \<Rightarrow> vch_t" where
  "PutVarint64 dst v = dst @ EncodeVarint64 v"

definition PutLengthPrefixedSlice :: "vch_t \<Rightarrow> vch_t \<Rightarrow> vch_t" where
  "PutLengthPrefixedSlice dst value = PutVarint32 dst (of_nat (length value)) @ value"

function VarintLength :: "u64 \<Rightarrow> nat" where
  "VarintLength v = (if v \<ge> 128 then Suc (VarintLength (drop_bit 7 v)) else 1)"
  by pat_completeness auto
termination by (relation "measure unat") (auto simp: drop_bit_less)

declare EncodeVarint64.simps [simp del] VarintLength.simps [simp del]

section \<open>Decodings\<close>

text \<open>The loop of both decoders; \<open>last_shift\<close> is its bound, 28 or 63.\<close>

fun varint_ptr_loop :: "nat \<Rightarrow> nat \<Rightarrow> 'a::len word \<Rightarrow> vch_t \<Rightarrow> ('a word \<times> vch_t) option" where
  "varint_ptr_loop last_shift shift result [] = None"
| "varint_ptr_loop last_shift shift result (byte # p) =
     (if last_shift < shift then None
      else if byte AND 128 \<noteq> 0 then varint_ptr_loop last_shift (shift + 7) (result OR push_bit shift (ucast (byte AND 127))) p
      else Some (result OR push_bit shift (ucast byte), p))"

definition GetVarint32PtrFallback :: "vch_t \<Rightarrow> (u32 \<times> vch_t) option" where
  "GetVarint32PtrFallback p = varint_ptr_loop 28 0 0 p"

definition GetVarint32Ptr :: "vch_t \<Rightarrow> (u32 \<times> vch_t) option" where
  "GetVarint32Ptr p =
     (case p of byte # q \<Rightarrow> if byte AND 128 = 0 then Some (ucast byte, q) else GetVarint32PtrFallback p | [] \<Rightarrow> GetVarint32PtrFallback p)"

definition GetVarint32 :: "vch_t \<Rightarrow> (u32 \<times> vch_t) option" where
  "GetVarint32 input = GetVarint32Ptr input"

definition GetVarint64Ptr :: "vch_t \<Rightarrow> (u64 \<times> vch_t) option" where
  "GetVarint64Ptr p = varint_ptr_loop 63 0 0 p"

definition GetVarint64 :: "vch_t \<Rightarrow> (u64 \<times> vch_t) option" where
  "GetVarint64 input = GetVarint64Ptr input"

definition GetLengthPrefixedSlice :: "vch_t \<Rightarrow> (vch_t \<times> vch_t) option" where
  "GetLengthPrefixedSlice input =
     do { (len, input) \<leftarrow> GetVarint32 input;
          if length input \<ge> unat len then Some (take (unat len) input, drop (unat len) input) else None }"

section \<open>Groups of seven bits\<close>

text \<open>The reference: the digits of a number to the base 128, each but the last with its top bit set.\<close>

function groups :: "nat \<Rightarrow> vch_t" where
  "groups n = (if n < 128 then [of_nat n] else of_nat (n mod 128 + 128) # groups (n div 128))"
  by pat_completeness auto
termination by (relation "measure id") auto

declare groups.simps [simp del]

lemma bit_128: "bit (128 :: 'a::semiring_bit_operations) n \<longleftrightarrow> possible_bit TYPE('a) n \<and> n = 7"
  using bit_exp_iff [of 7 n, where ?'a = 'a] by simp

lemma bit_127: "bit (127 :: 'a::ring_bit_operations) n \<longleftrightarrow> possible_bit TYPE('a) n \<and> n < 7"
  using bit_mask_iff [of 7 n, where ?'a = 'a] by (simp add: mask_eq_exp_minus_1)

lemma bit_255: "bit (255 :: 'a::ring_bit_operations) n \<longleftrightarrow> possible_bit TYPE('a) n \<and> n < 8"
  using bit_mask_iff [of 8 n, where ?'a = 'a] by (simp add: mask_eq_exp_minus_1)

lemma or_disjoint:
  fixes w :: "'a::len word"
  assumes "unat w < 2 ^ k"
  shows "w OR push_bit k x = w + push_bit k x"
proof (rule disjunctive_add [symmetric])
  fix n
  have "take_bit k (unat w) = unat w" using assms by (rule take_bit_nat_eq_self)
  then have "take_bit k w = w" by (metis unsigned_take_bit_eq unsigned_word_eqI)
  then have "bit w n \<Longrightarrow> n < k" by (metis bit_take_bit_iff)
  then show "\<not> bit w n \<or> \<not> bit (push_bit k x) n" by (auto simp: bit_push_bit_iff)
qed

lemma group_byte: "of_nat (n mod 128 + 128) = (take_bit 7 (of_nat n) OR 128 :: u8)"
proof -
  have "take_bit 7 (of_nat n :: u8) + push_bit 7 1 = take_bit 7 (of_nat n) OR push_bit 7 1"
    by (rule or_disjoint [symmetric]) (use take_bit_nat_less_exp [of 7 "unat (of_nat n :: u8)"] in \<open>simp add: unsigned_take_bit_eq\<close>)
  moreover have "of_nat (n mod 128) = (take_bit 7 (of_nat n) :: u8)" by (simp add: take_bit_of_nat take_bit_nat_def)
  ultimately show ?thesis by simp
qed

lemma ucast_or_128: "ucast (w OR 128) = (of_nat (unat w mod 128 + 128) :: u8)" if "7 < LENGTH('a)" for w :: "'a::len word"
  unfolding group_byte by (rule bit_word_eqI) (use that in \<open>auto simp: bit_or_iff bit_ucast_iff bit_take_bit_iff bit_128\<close>)

lemma ucast_and_or: "ucast ((w AND 127) OR 128) = (of_nat (unat w mod 128 + 128) :: u8)" if "7 < LENGTH('a)" for w :: "'a::len word"
  unfolding group_byte by (rule bit_word_eqI) (use that in \<open>auto simp: bit_or_iff bit_and_iff bit_ucast_iff bit_take_bit_iff bit_128 bit_127\<close>)

lemma unat_drop_bit: "unat (drop_bit k w) = unat w div 2 ^ k" for w :: "'a::len word"
  by (simp add: unsigned_drop_bit_eq drop_bit_nat_def take_bit_nat_eq_self unsigned_less)

lemma encode64_groups: "EncodeVarint64 v = groups (unat v)"
proof (induction v rule: EncodeVarint64.induct)
  case (1 v)
  then show ?case
    by (subst EncodeVarint64.simps, subst groups.simps) (auto simp: ucast_and_or unat_drop_bit word_le_nat_alt)
qed

lemma varint_length_groups: "VarintLength v = length (groups (unat v))"
proof (induction v rule: VarintLength.induct)
  case (1 v)
  then show ?case by (subst VarintLength.simps, subst groups.simps) (auto simp: unat_drop_bit word_le_nat_alt)
qed

lemma groups_last: "n < 128 \<Longrightarrow> groups n = [of_nat n]"
  by (subst groups.simps) simp

lemma groups_step: "128 * m \<le> n \<Longrightarrow> 0 < m \<Longrightarrow> groups n = of_nat (n mod 128 + 128) # groups (n div 128)"
  by (subst groups.simps) simp

lemma encode32_groups: "EncodeVarint32 v = groups (unat v)"
proof -
  let ?n = "unat v"
  have n: "?n div 268435456 < 128" by (rule less_mult_imp_div_less, rule order.strict_trans2 [OF unsigned_less]) simp
  have b: "ucast (drop_bit k v OR 128) = (of_nat ((?n div 2 ^ k) mod 128 + 128) :: u8)" for k
    using ucast_or_128 [of "drop_bit k v"] by (simp add: unat_drop_bit)
  have l: "ucast (drop_bit k v) = (of_nat (?n div 2 ^ k) :: u8)" for k
    using unat_drop_bit [of k v] by (metis of_nat_unat)
  have d: "?n div 128 div 128 = ?n div 16384" "?n div 16384 div 128 = ?n div 2097152" "?n div 2097152 div 128 = ?n div 268435456"
    by (simp_all flip: div_mult2_eq)
  consider "?n < 2 ^ 7" | "2 ^ 7 \<le> ?n" "?n < 2 ^ 14" | "2 ^ 14 \<le> ?n" "?n < 2 ^ 21" | "2 ^ 21 \<le> ?n" "?n < 2 ^ 28" | "2 ^ 28 \<le> ?n" by linarith
  then show ?thesis
  proof cases
    case 1
    then show ?thesis using l [of 0] by (simp add: EncodeVarint32_def word_less_nat_alt groups_last)
  next
    case 2
    then show ?thesis using l [of 7] b [of 0] by (simp add: EncodeVarint32_def word_less_nat_alt groups_last groups_step [of 1])
  next
    case 3
    then show ?thesis using l [of 14] b [of 0] b [of 7]
      by (simp add: EncodeVarint32_def word_less_nat_alt groups_last groups_step [of 1] d)
  next
    case 4
    then show ?thesis using l [of 21] b [of 0] b [of 7] b [of 14]
      by (simp add: EncodeVarint32_def word_less_nat_alt groups_last groups_step [of 1] d)
  next
    case 5
    then show ?thesis using n l [of 28] b [of 0] b [of 7] b [of 14] b [of 21]
      by (simp add: EncodeVarint32_def word_less_nat_alt groups_last groups_step [of 1] d)
  qed
qed

lemma group_more: "(of_nat (n mod 128 + 128) :: u8) AND 128 \<noteq> 0" "(of_nat (n mod 128 + 128) :: u8) AND 127 = of_nat (n mod 128)"
proof -
  have "bit ((of_nat (n mod 128 + 128) :: u8) AND 128) 7" unfolding group_byte by (simp add: bit_or_iff bit_and_iff bit_128)
  then show "(of_nat (n mod 128 + 128) :: u8) AND 128 \<noteq> 0" by auto
  have "(of_nat (n mod 128 + 128) :: u8) AND 127 = take_bit 7 (of_nat n)"
    unfolding group_byte by (rule bit_word_eqI) (auto simp: bit_or_iff bit_and_iff bit_128 bit_127 bit_take_bit_iff)
  then show "(of_nat (n mod 128 + 128) :: u8) AND 127 = of_nat (n mod 128)" by (simp add: take_bit_of_nat take_bit_nat_def)
qed

lemma group_end: "n < 128 \<Longrightarrow> (of_nat n :: u8) AND 128 = 0"
proof -
  assume "n < 128"
  then have "of_nat n = (take_bit 7 (of_nat n) :: u8)" by (simp add: take_bit_of_nat take_bit_nat_def)
  moreover have "(take_bit 7 x :: u8) AND 128 = 0" for x by (rule bit_word_eqI) (auto simp: bit_and_iff bit_128 bit_take_bit_iff)
  ultimately show ?thesis by metis
qed

lemma ucast_small: "n < 256 \<Longrightarrow> ucast (of_nat n :: u8) = (of_nat n :: 'a::len word)"
proof -
  assume "n < 256"
  then have "unat (of_nat n :: u8) = n" by (simp add: unat_of_nat)
  then show ?thesis by (metis of_nat_unat)
qed

lemma or_group:
  fixes result :: "'a::len word"
  assumes "unat result < 2 ^ shift" and "n < 256"
  shows "result OR push_bit shift (ucast (of_nat n :: u8)) = result + of_nat (n * 2 ^ shift)"
  unfolding or_disjoint [OF assms(1)] ucast_small [OF assms(2)] by (simp add: push_bit_eq_mult)

lemma unat_plus_le: "unat (a + of_nat m) \<le> unat a + m" for a :: "'a::len word"
proof -
  have "unat (a + of_nat m) = (unat a + m) mod 2 ^ LENGTH('a)" by (simp add: unat_word_ariths unat_of_nat mod_add_right_eq)
  then show ?thesis by simp
qed

definition last_group :: "nat \<Rightarrow> 'a::len itself \<Rightarrow> bool" where
  "last_group last_shift t \<longleftrightarrow> (\<forall>s. 7 dvd s \<longrightarrow> s < LENGTH('a) \<longrightarrow> s \<le> last_shift)"

lemma varint_loop_groups:
  fixes result :: "'a::len word"
  assumes "unat result < 2 ^ shift" and "n * 2 ^ shift < 2 ^ LENGTH('a)" and "last_group last_shift TYPE('a)" and "7 dvd shift" and "shift \<le> last_shift"
  shows "varint_ptr_loop last_shift shift result (groups n @ rest) = Some (result + of_nat (n * 2 ^ shift), rest)"
  using assms
proof (induction n arbitrary: shift result rule: groups.induct)
  case (1 n)
  show ?case
  proof (cases "n < 128")
    case True
    then show ?thesis using "1.prems"(1,5) by (simp add: groups_last group_end or_group)
  next
    case False
    let ?r = "result + of_nat (n mod 128 * 2 ^ shift)"
    have p: "2 ^ (shift + 7) = 128 * (2 ^ shift :: nat)" by (simp add: power_add)
    have "(n mod 128 + 1) * 2 ^ shift \<le> 128 * (2 ^ shift :: nat)" by (rule mult_le_mono1) (simp add: Suc_leI)
    then have r: "unat ?r < 2 ^ (shift + 7)"
      unfolding p using unat_plus_le [of result "n mod 128 * 2 ^ shift"] "1.prems"(1) by (simp only: distrib_right mult_1)
    have sum: "n mod 128 * 2 ^ shift + n div 128 * 2 ^ (shift + 7) = n * 2 ^ shift"
      unfolding p by (metis add.commute distrib_right div_mult_mod_eq mult.assoc)
    then have m: "n div 128 * 2 ^ (shift + 7) < 2 ^ LENGTH('a)" using "1.prems"(2) by linarith
    have "1 * 2 ^ (shift + 7) \<le> n div 128 * 2 ^ (shift + 7)" by (rule mult_le_mono1) (use False in simp)
    then have "2 ^ (shift + 7) < (2 ^ LENGTH('a) :: nat)" using m by linarith
    then have "shift + 7 < LENGTH('a)" by (simp only: power_strict_increasing_iff)
    then have s: "7 dvd shift + 7" "shift + 7 \<le> last_shift" using "1.prems"(3,4) by (auto simp: last_group_def)
    have "?r + of_nat (n div 128 * 2 ^ (shift + 7)) = result + of_nat (n * 2 ^ shift)"
      unfolding sum [symmetric] by (simp only: of_nat_add add.assoc)
    then show ?thesis
      using "1.IH" [OF False r m "1.prems"(3) s] "1.prems"(1,5) False
      by (simp add: groups_step [of 1] group_more or_group del: of_nat_mult of_nat_add)
  qed
qed

lemma get_varint32 [simp]: "GetVarint32 (EncodeVarint32 v @ rest) = Some (v, rest)"
proof -
  have "last_group 28 TYPE(32)" unfolding last_group_def by (auto elim!: dvdE)
  then have loop: "varint_ptr_loop 28 0 0 (groups (unat v) @ rest) = Some (v, rest)"
    using varint_loop_groups [of "0 :: u32" 0 "unat v" 28 rest] by simp
  show ?thesis
  proof (cases "unat v < 128")
    case True
    then show ?thesis using group_end [OF True] ucast_small [of "unat v", where ?'a = 32]
      by (simp add: GetVarint32_def GetVarint32Ptr_def encode32_groups groups_last)
  next
    case False
    then show ?thesis using loop
      by (simp add: GetVarint32_def GetVarint32Ptr_def GetVarint32PtrFallback_def encode32_groups groups_step [of 1] group_more split: list.split del: of_nat_add)
  qed
qed

lemma get_varint64 [simp]: "GetVarint64 (EncodeVarint64 v @ rest) = Some (v, rest)"
proof -
  have "last_group 63 TYPE(64)" unfolding last_group_def by simp
  then show ?thesis using varint_loop_groups [of "0 :: u64" 0 "unat v" 63 rest]
    by (simp add: GetVarint64_def GetVarint64Ptr_def encode64_groups)
qed

lemma length_groups: "n < 128 ^ Suc k \<Longrightarrow> length (groups n) \<le> Suc k"
proof (induction k arbitrary: n)
  case 0
  then show ?case by (simp add: groups_last)
next
  case (Suc k)
  show ?case
  proof (cases "n < 128")
    case False
    have "n div 128 < 128 ^ Suc k" by (rule less_mult_imp_div_less) (use Suc.prems in \<open>simp add: mult.commute\<close>)
    then show ?thesis using Suc.IH False by (simp add: groups_step [of 1])
  qed (simp add: groups_last)
qed

lemma length_EncodeVarint32: "length (EncodeVarint32 v) \<le> 5"
proof -
  have "unat v < 128 ^ Suc 4" by (rule order.strict_trans2 [OF unsigned_less]) simp
  then show ?thesis unfolding encode32_groups using length_groups [of "unat v" 4] by simp
qed

lemma get_slice [simp]: "length value < 2 ^ 32 \<Longrightarrow> GetLengthPrefixedSlice (EncodeVarint32 (of_nat (length value)) @ value @ rest) = Some (value, rest)"
  by (simp add: GetLengthPrefixedSlice_def unat_of_nat)

lemma decode_fixed32 [simp]: "DecodeFixed32 (EncodeFixed32 v @ rest) = v" "length (EncodeFixed32 v) = 4"
  by (simp_all add: DecodeFixed32_def EncodeFixed32_def mem_simps)

lemma decode_fixed64 [simp]: "DecodeFixed64 (EncodeFixed64 v @ rest) = v" "length (EncodeFixed64 v) = 8"
  by (simp_all add: DecodeFixed64_def EncodeFixed64_def mem_simps)

section \<open>Properties\<close>

text \<open>
  C31. The variable-width integers of LevelDB: what is encoded reads back and leaves the rest, the unrolled encoder of 32-bit numbers gives the bytes
  of the loop for 64-bit numbers, an encoding has the announced length, and it fits the buffers of five and ten bytes.
\<close>

theorem leveldb_varint:
  "GetVarint32 (EncodeVarint32 v @ rest) = Some (v, rest) \<and> GetVarint64 (EncodeVarint64 w @ rest) = Some (w, rest)
   \<and> EncodeVarint32 v = EncodeVarint64 (ucast v) \<and> length (EncodeVarint64 w) = VarintLength w
   \<and> length (EncodeVarint32 v) \<le> 5 \<and> length (EncodeVarint64 w) \<le> 10"
proof (intro conjI)
  have "unat v < 2 ^ LENGTH(64)" by (rule order.strict_trans2 [OF unsigned_less]) simp
  then have "unat (ucast v :: u64) = unat v" unfolding unsigned_ucast_eq by (rule take_bit_nat_eq_self)
  then show "EncodeVarint32 v = EncodeVarint64 (ucast v)" by (simp add: encode32_groups encode64_groups)
  show "length (EncodeVarint64 w) = VarintLength w" by (simp add: encode64_groups varint_length_groups)
  have "unat w < 128 ^ Suc 9" by (rule order.strict_trans2 [OF unsigned_less]) simp
  then show "length (EncodeVarint64 w) \<le> 10" unfolding encode64_groups using length_groups [of "unat w" 9] by simp
qed (simp_all add: length_EncodeVarint32)

end
