(* ===== verification/LevelFormat.thy ===== *)
theory LevelFormat
  imports LevelCoding "HOL-Library.List_Lexorder"
begin

text \<open>
  The keys of LevelDB: slices and their order (\<^verbatim>\<open>include/leveldb/slice.h\<close>), the bytewise comparator (\<^verbatim>\<open>util/comparator.cc\<close>), and
  internal keys, a user key followed by a sequence number and a type (\<^verbatim>\<open>db/dbformat.h\<close> and \<^verbatim>\<open>db/dbformat.cc\<close>).  What
  \<^verbatim>\<open>include/leveldb/comparator.h\<close> promises of a comparator is the locale \<open>comparator\<close>; a comparator of user keys gives one of internal
  keys.  The functions on internal keys are total, and their \<^verbatim>\<open>assert\<close> that a key has eight bytes or more is a hypothesis of the lemmas.
\<close>

section \<open>Slices\<close>

text \<open>\<^verbatim>\<open>memcmp\<close> on the bytes that both lists have\<close>
fun memcmp :: "vch_t \<Rightarrow> vch_t \<Rightarrow> int" where
  "memcmp (x # xs) (y # ys) = (if x < y then - 1 else if y < x then 1 else memcmp xs ys)"
| "memcmp _ _ = 0"

definition Slice_compare :: "vch_t \<Rightarrow> vch_t \<Rightarrow> int" where
  "Slice_compare a b =
     (let min_len = (if length a < length b then length a else length b);
          r = memcmp (take min_len a) (take min_len b)
      in if r = 0 then (if length a < length b then - 1 else if length a > length b then 1 else r) else r)"

definition Slice_starts_with :: "vch_t \<Rightarrow> vch_t \<Rightarrow> bool" where
  "Slice_starts_with a x \<longleftrightarrow> length a \<ge> length x \<and> memcmp (take (length x) a) x = 0"

definition Slice_eq :: "vch_t \<Rightarrow> vch_t \<Rightarrow> bool" where
  "Slice_eq x y \<longleftrightarrow> length x = length y \<and> memcmp x y = 0"

section \<open>The bytewise comparator\<close>

definition Bytewise_Compare :: "vch_t \<Rightarrow> vch_t \<Rightarrow> int" where
  "Bytewise_Compare a b = Slice_compare a b"

text \<open>The loop to the first difference\<close>
fun diff_index_loop :: "vch_t \<Rightarrow> vch_t \<Rightarrow> nat" where
  "diff_index_loop (x # xs) (y # ys) = (if x = y then Suc (diff_index_loop xs ys) else 0)"
| "diff_index_loop _ _ = 0"

definition Bytewise_FindShortestSeparator :: "vch_t \<Rightarrow> vch_t \<Rightarrow> vch_t" where
  "Bytewise_FindShortestSeparator start limit =
     (let min_length = min (length start) (length limit);
          diff_index = diff_index_loop start limit
      in if diff_index \<ge> min_length then start
         else let diff_byte = start ! diff_index
              in if diff_byte < 255 \<and> unat diff_byte + 1 < unat (limit ! diff_index)
                 then take (diff_index + 1) (start[diff_index := diff_byte + 1])
                 else start)"

fun Bytewise_FindShortSuccessor :: "vch_t \<Rightarrow> vch_t" where
  "Bytewise_FindShortSuccessor [] = []"
| "Bytewise_FindShortSuccessor (byte # key) = (if byte \<noteq> 255 then [byte + 1] else byte # Bytewise_FindShortSuccessor key)"

section \<open>Internal keys\<close>

datatype ValueType = kTypeDeletion | kTypeValue

fun type_code :: "ValueType \<Rightarrow> u64" where
  "type_code kTypeDeletion = 0"
| "type_code kTypeValue = 1"

definition kValueTypeForSeek :: ValueType where
  "kValueTypeForSeek = kTypeValue"

definition kMaxSequenceNumber :: u64 where
  "kMaxSequenceNumber = push_bit 56 1 - 1"

record ParsedInternalKey =
  pik_user_key :: vch_t
  pik_sequence :: u64
  pik_type :: ValueType

definition PackSequenceAndType :: "u64 \<Rightarrow> ValueType \<Rightarrow> u64" where
  "PackSequenceAndType seq t = push_bit 8 seq OR type_code t"

definition InternalKeyEncodingLength :: "ParsedInternalKey \<Rightarrow> nat" where
  "InternalKeyEncodingLength key = length (pik_user_key key) + 8"

definition AppendInternalKey :: "vch_t \<Rightarrow> ParsedInternalKey \<Rightarrow> vch_t" where
  "AppendInternalKey result key = PutFixed64 (result @ pik_user_key key) (PackSequenceAndType (pik_sequence key) (pik_type key))"

text \<open>The last eight bytes of a key, as \<^verbatim>\<open>DecodeFixed64(internal_key.data() + n - 8)\<close> reads them\<close>
definition key_tag :: "vch_t \<Rightarrow> u64" where
  "key_tag internal_key = DecodeFixed64 (drop (length internal_key - 8) internal_key)"

definition ExtractUserKey :: "vch_t \<Rightarrow> vch_t" where
  "ExtractUserKey internal_key = take (length internal_key - 8) internal_key"

text \<open>The cast to \<^verbatim>\<open>ValueType\<close> of a byte that is the code of no type is \<open>None\<close>\<close>
definition type_of_byte :: "u8 \<Rightarrow> ValueType option" where
  "type_of_byte c = (if c = 0 then Some kTypeDeletion else if c = 1 then Some kTypeValue else None)"

definition ExtractValueType :: "vch_t \<Rightarrow> ValueType option" where
  "ExtractValueType internal_key = (let num = key_tag internal_key; c = ucast (num AND 255) in type_of_byte c)"

definition ParseInternalKey :: "vch_t \<Rightarrow> ParsedInternalKey option" where
  "ParseInternalKey internal_key =
     (let n = length internal_key
      in if n < 8 then None
         else let num = key_tag internal_key; c = ucast (num AND 255)
              in if c \<le> 1 then map_option (\<lambda>t. \<lparr>pik_user_key = take (n - 8) internal_key, pik_sequence = drop_bit 8 num, pik_type = t\<rparr>) (type_of_byte c)
                 else None)"

definition InternalKeyComparator_Compare :: "(vch_t \<Rightarrow> vch_t \<Rightarrow> int) \<Rightarrow> vch_t \<Rightarrow> vch_t \<Rightarrow> int" where
  "InternalKeyComparator_Compare user_compare akey bkey =
     (let r = user_compare (ExtractUserKey akey) (ExtractUserKey bkey)
      in if r = 0 then (let anum = key_tag akey; bnum = key_tag bkey in if anum > bnum then - 1 else if anum < bnum then 1 else r) else r)"

definition Internal_FindShortestSeparator ::
  "(vch_t \<Rightarrow> vch_t \<Rightarrow> int) \<Rightarrow> (vch_t \<Rightarrow> vch_t \<Rightarrow> vch_t) \<Rightarrow> vch_t \<Rightarrow> vch_t \<Rightarrow> vch_t" where
  "Internal_FindShortestSeparator user_compare user_separator start limit =
     (let user_start = ExtractUserKey start;
          user_limit = ExtractUserKey limit;
          tmp = user_separator user_start user_limit
      in if length tmp < length user_start \<and> user_compare user_start tmp < 0
         then PutFixed64 tmp (PackSequenceAndType kMaxSequenceNumber kValueTypeForSeek) else start)"

definition Internal_FindShortSuccessor :: "(vch_t \<Rightarrow> vch_t \<Rightarrow> int) \<Rightarrow> (vch_t \<Rightarrow> vch_t) \<Rightarrow> vch_t \<Rightarrow> vch_t" where
  "Internal_FindShortSuccessor user_compare user_successor key =
     (let user_key = ExtractUserKey key; tmp = user_successor user_key
      in if length tmp < length user_key \<and> user_compare user_key tmp < 0
         then PutFixed64 tmp (PackSequenceAndType kMaxSequenceNumber kValueTypeForSeek) else key)"

section \<open>Lookup keys\<close>

record LookupKey =
  lk_start :: vch_t
  lk_kstart :: nat

definition LookupKey_new :: "vch_t \<Rightarrow> u64 \<Rightarrow> LookupKey" where
  "LookupKey_new user_key s =
     (let usize = length user_key;
          dst = EncodeVarint32 (of_nat (usize + 8))
      in \<lparr>lk_start = dst @ user_key @ EncodeFixed64 (PackSequenceAndType s kValueTypeForSeek), lk_kstart = length dst\<rparr>)"

definition memtable_key :: "LookupKey \<Rightarrow> vch_t" where
  "memtable_key k = lk_start k"

definition internal_key :: "LookupKey \<Rightarrow> vch_t" where
  "internal_key k = drop (lk_kstart k) (lk_start k)"

definition lookup_user_key :: "LookupKey \<Rightarrow> vch_t" where
  "lookup_user_key k = (let d = drop (lk_kstart k) (lk_start k) in take (length d - 8) d)"

section \<open>The order of slices\<close>

lemma memcmp_take: "memcmp (take (if length a < length b then length a else length b) a) (take (if length a < length b then length a else length b) b) = memcmp a b"
  by (induction a b rule: memcmp.induct) (auto split: if_splits)

lemma slice_compare_cons:
  "Slice_compare (x # xs) (y # ys) = (if x < y then - 1 else if y < x then 1 else Slice_compare xs ys)"
  unfolding Slice_compare_def Let_def memcmp_take by simp

lemma slice_compare_nil: "Slice_compare [] b = (if b = [] then 0 else - 1)" "Slice_compare a [] = (if a = [] then 0 else 1)"
  by (simp_all add: Slice_compare_def)

lemma slice_compare_order:
  "Slice_compare a b < 0 \<longleftrightarrow> a < b" "Slice_compare a b = 0 \<longleftrightarrow> a = b" "0 < Slice_compare a b \<longleftrightarrow> b < a"
  by (induction a b rule: memcmp.induct) (auto simp: slice_compare_cons slice_compare_nil neq_Nil_conv)

lemma slice_compare_le: "Slice_compare a b \<le> 0 \<longleftrightarrow> a \<le> b"
  using slice_compare_order [of a b] by (auto simp: le_less)

lemma memcmp_zero: "length a = length b \<Longrightarrow> memcmp a b = 0 \<longleftrightarrow> a = b"
  by (induction a b rule: memcmp.induct) auto

lemma slice_eq: "Slice_eq x y \<longleftrightarrow> x = y"
  by (auto simp: Slice_eq_def memcmp_zero)

lemma starts_with_prefix: "Slice_starts_with a x \<longleftrightarrow> (\<exists>rest. a = x @ rest)"
  by (auto simp: Slice_starts_with_def memcmp_zero) (metis append_take_drop_id)

section \<open>What a comparator promises\<close>

locale key_order =
  fixes cmp :: "'k \<Rightarrow> 'k \<Rightarrow> int" and valid_key :: "'k \<Rightarrow> bool"
  assumes flip: "valid_key a \<Longrightarrow> valid_key b \<Longrightarrow> 0 < cmp a b \<longleftrightarrow> cmp b a < 0"
    and le_trans: "valid_key a \<Longrightarrow> valid_key b \<Longrightarrow> valid_key c \<Longrightarrow> cmp a b \<le> 0 \<Longrightarrow> cmp b c \<le> 0 \<Longrightarrow> cmp a c \<le> 0"
begin

lemma refl: "valid_key a \<Longrightarrow> cmp a a = 0"
  using flip [of a a] by linarith

lemma equal_sym: "valid_key a \<Longrightarrow> valid_key b \<Longrightarrow> cmp a b = 0 \<Longrightarrow> cmp b a = 0"
  using flip [of a b] flip [of b a] by linarith

lemma less_le_trans: "valid_key a \<Longrightarrow> valid_key b \<Longrightarrow> valid_key c \<Longrightarrow> cmp a b < 0 \<Longrightarrow> cmp b c \<le> 0 \<Longrightarrow> cmp a c < 0"
  using flip [of a c] flip [of c a] flip [of b a] flip [of a b] flip [of b c] le_trans [of b c a] by linarith

lemma le_less_trans: "valid_key a \<Longrightarrow> valid_key b \<Longrightarrow> valid_key c \<Longrightarrow> cmp a b \<le> 0 \<Longrightarrow> cmp b c < 0 \<Longrightarrow> cmp a c < 0"
  using flip [of a c] flip [of c a] flip [of b c] flip [of c b] flip [of a b] le_trans [of c a b] by linarith

lemma less_trans: "valid_key a \<Longrightarrow> valid_key b \<Longrightarrow> valid_key c \<Longrightarrow> cmp a b < 0 \<Longrightarrow> cmp b c < 0 \<Longrightarrow> cmp a c < 0"
  using less_le_trans [of a b c] by linarith

lemma not_less: "valid_key a \<Longrightarrow> valid_key b \<Longrightarrow> \<not> cmp a b < 0 \<longleftrightarrow> cmp b a \<le> 0"
  using flip [of a b] flip [of b a] by linarith

end

locale comparator = key_order cmp valid_key for cmp :: "vch_t \<Rightarrow> vch_t \<Rightarrow> int" and valid_key :: "vch_t \<Rightarrow> bool" +
  fixes separator :: "vch_t \<Rightarrow> vch_t \<Rightarrow> vch_t" and successor :: "vch_t \<Rightarrow> vch_t"
  assumes separator_bounds: "valid_key start \<Longrightarrow> valid_key limit \<Longrightarrow> cmp start limit < 0 \<Longrightarrow>
      valid_key (separator start limit) \<and> cmp start (separator start limit) \<le> 0 \<and> cmp (separator start limit) limit < 0"
    and separator_equal: "valid_key start \<Longrightarrow> valid_key limit \<Longrightarrow> cmp start limit = 0 \<Longrightarrow> separator start limit = start"
    and successor_bounds: "valid_key key \<Longrightarrow> valid_key (successor key) \<and> cmp key (successor key) \<le> 0"


section \<open>The bytewise comparator keeps the promise\<close>

lemma diff_index_bound: "diff_index_loop a b \<le> min (length a) (length b)"
  by (induction a b rule: diff_index_loop.induct) auto

lemma separator_cons:
  "Bytewise_FindShortestSeparator (x # xs) (y # ys) =
     (if x = y then x # Bytewise_FindShortestSeparator xs ys
      else if x < 255 \<and> unat x + 1 < unat y then [x + 1] else x # xs)"
  by (auto simp: Bytewise_FindShortestSeparator_def Let_def)

lemma separator_nil: "Bytewise_FindShortestSeparator [] b = []" "Bytewise_FindShortestSeparator a [] = a"
  by (simp_all add: Bytewise_FindShortestSeparator_def)

lemma byte_succ: "x \<noteq> 255 \<Longrightarrow> x < x + (1 :: u8) \<and> unat (x + 1) = unat x + 1"
proof -
  assume "x \<noteq> 255"
  then have "unat x \<noteq> 255" using word_unat_eq_iff [of x 255] by simp
  then have "unat x + 1 < 256" using unat_u8_less [of x] by linarith
  then have "unat (x + 1) = unat x + 1" by (simp add: unat_word_ariths)
  then show ?thesis by (simp add: word_less_nat_alt)
qed

lemma separator_order: "start < limit \<Longrightarrow> start \<le> Bytewise_FindShortestSeparator start limit \<and> Bytewise_FindShortestSeparator start limit < limit"
proof (induction start limit rule: diff_index_loop.induct)
  case (1 x xs y ys)
  then show ?case using byte_succ [of x] by (cases "x = 255") (auto simp: separator_cons word_less_nat_alt)
qed (auto simp: separator_nil)

lemma successor_order: "key \<le> Bytewise_FindShortSuccessor key"
  by (induction key) (auto simp: byte_succ)

interpretation bytewise: comparator Bytewise_Compare "\<lambda>k. True" Bytewise_FindShortestSeparator Bytewise_FindShortSuccessor
proof unfold_locales
  fix start limit assume "Bytewise_Compare start limit = 0"
  then have "start = limit" by (simp add: Bytewise_Compare_def slice_compare_order)
  moreover have "Bytewise_FindShortestSeparator limit limit = limit" by (induction limit) (simp_all add: separator_cons separator_nil)
  ultimately show "Bytewise_FindShortestSeparator start limit = start" by simp
qed (auto simp: Bytewise_Compare_def slice_compare_order slice_compare_le separator_order successor_order)

section \<open>Internal keys\<close>

lemma key_tag_append [simp]: "key_tag (u @ EncodeFixed64 n) = n"
  using decode_fixed64(1) [of n "[]"] by (simp add: key_tag_def)

lemma extract_append [simp]: "ExtractUserKey (u @ EncodeFixed64 n) = u"
  by (simp add: ExtractUserKey_def)

lemma encode_decode64: "length b = 8 \<Longrightarrow> EncodeFixed64 (DecodeFixed64 b) = b"
  using bytes_val_bound [of b] by (simp add: EncodeFixed64_def DecodeFixed64_def unat_of_nat take_bit_nat_eq_self mem_simps)

lemma key_parts: "8 \<le> length k \<Longrightarrow> k = ExtractUserKey k @ EncodeFixed64 (key_tag k)"
  by (simp add: ExtractUserKey_def key_tag_def encode_decode64)

lemma pack_nat: "seq \<le> kMaxSequenceNumber \<Longrightarrow> unat (PackSequenceAndType seq t) = 256 * unat seq + unat (type_code t)"
proof -
  assume seq: "seq \<le> kMaxSequenceNumber"
  have "unat kMaxSequenceNumber = 72057594037927935" by (simp add: kMaxSequenceNumber_def)
  with seq have b: "unat seq \<le> 72057594037927935" by (simp add: word_le_nat_alt)
  have "PackSequenceAndType seq t = type_code t OR push_bit 8 seq" by (simp add: PackSequenceAndType_def or.commute)
  also have "\<dots> = type_code t + push_bit 8 seq" by (rule or_disjoint) (cases t; simp)
  finally show ?thesis using b by (cases t) (simp_all add: push_bit_eq_mult unat_word_ariths)
qed

lemma pack_order: "seq \<le> kMaxSequenceNumber \<Longrightarrow> s \<le> kMaxSequenceNumber \<Longrightarrow> PackSequenceAndType seq t \<le> PackSequenceAndType s kValueTypeForSeek \<longleftrightarrow> seq \<le> s"
  by (cases t) (auto simp: word_le_nat_alt pack_nat kValueTypeForSeek_def)

lemma pack_inject: "seq \<le> kMaxSequenceNumber \<Longrightarrow> s \<le> kMaxSequenceNumber \<Longrightarrow> PackSequenceAndType seq t = PackSequenceAndType s t' \<longleftrightarrow> seq = s \<and> t = t'"
proof -
  assume b: "seq \<le> kMaxSequenceNumber" "s \<le> kMaxSequenceNumber"
  have "unat (PackSequenceAndType seq t) = unat (PackSequenceAndType s t') \<longleftrightarrow> unat seq = unat s \<and> t = t'"
    unfolding pack_nat [OF b(1)] pack_nat [OF b(2)] by (cases t; cases t') (auto; presburger)+
  then show ?thesis by (simp add: word_unat_eq_iff)
qed

lemma pack_unpack:
  assumes "seq \<le> kMaxSequenceNumber"
  shows "drop_bit 8 (PackSequenceAndType seq t) = seq" and "type_of_byte (ucast (PackSequenceAndType seq t AND 255)) = Some t"
proof -
  have "unat (drop_bit 8 (PackSequenceAndType seq t)) = unat seq"
    unfolding unat_drop_bit pack_nat [OF assms] by (cases t) simp_all
  then show "drop_bit 8 (PackSequenceAndType seq t) = seq" by (simp add: word_unat_eq_iff)
  have "ucast (PackSequenceAndType seq t AND 255) = (ucast (type_code t) :: u8)"
    by (rule bit_word_eqI) (cases t; auto simp: PackSequenceAndType_def bit_or_iff bit_and_iff bit_ucast_iff bit_push_bit_iff bit_255 bit_1_iff)
  then show "type_of_byte (ucast (PackSequenceAndType seq t AND 255)) = Some t" by (cases t) (simp_all add: type_of_byte_def)
qed

locale user_comparator = comparator
begin

abbreviation internal_cmp :: "vch_t \<Rightarrow> vch_t \<Rightarrow> int" where
  "internal_cmp \<equiv> InternalKeyComparator_Compare cmp"

abbreviation valid_internal :: "vch_t \<Rightarrow> bool" where
  "valid_internal k \<equiv> 8 \<le> length k \<and> valid_key (ExtractUserKey k)"

lemma internal_sign:
  "internal_cmp a b < 0 \<longleftrightarrow> cmp (ExtractUserKey a) (ExtractUserKey b) < 0 \<or> cmp (ExtractUserKey a) (ExtractUserKey b) = 0 \<and> key_tag b < key_tag a"
  "internal_cmp a b \<le> 0 \<longleftrightarrow> cmp (ExtractUserKey a) (ExtractUserKey b) < 0 \<or> cmp (ExtractUserKey a) (ExtractUserKey b) = 0 \<and> key_tag b \<le> key_tag a"
  "0 < internal_cmp a b \<longleftrightarrow> 0 < cmp (ExtractUserKey a) (ExtractUserKey b) \<or> cmp (ExtractUserKey a) (ExtractUserKey b) = 0 \<and> key_tag a < key_tag b"
  "internal_cmp a b = 0 \<longleftrightarrow> cmp (ExtractUserKey a) (ExtractUserKey b) = 0 \<and> key_tag a = key_tag b"
  by (auto simp: InternalKeyComparator_Compare_def Let_def not_less_iff_gr_or_eq split: if_splits)

lemma internal_flip: "valid_internal a \<Longrightarrow> valid_internal b \<Longrightarrow> 0 < internal_cmp a b \<longleftrightarrow> internal_cmp b a < 0"
  unfolding internal_sign using flip equal_sym by blast

lemma internal_le_trans:
  assumes "valid_internal a" "valid_internal b" "valid_internal c" and ab: "internal_cmp a b \<le> 0" and bc: "internal_cmp b c \<le> 0"
  shows "internal_cmp a c \<le> 0"
proof -
  let ?a = "ExtractUserKey a" and ?b = "ExtractUserKey b" and ?c = "ExtractUserKey c"
  have v: "valid_key ?a" "valid_key ?b" "valid_key ?c" using assms by auto
  have le: "cmp ?a ?b \<le> 0" "cmp ?b ?c \<le> 0" using ab bc by (auto simp: internal_sign)
  show ?thesis
  proof (cases "cmp ?a ?c < 0")
    case False
    then have "cmp ?a ?b = 0" "cmp ?b ?c = 0" "cmp ?a ?c = 0"
      using less_le_trans [OF v] le_less_trans [OF v] le_trans [OF v] le by force+
    then show ?thesis using ab bc by (auto simp: internal_sign)
  qed (simp add: internal_sign)
qed

lemma internal_separator:
  assumes "valid_internal start" and "valid_internal limit" and "internal_cmp start limit < 0"
  defines "sep \<equiv> Internal_FindShortestSeparator cmp separator start limit"
  shows "valid_internal sep \<and> internal_cmp start sep \<le> 0 \<and> internal_cmp sep limit < 0"
proof (cases "sep = start")
  case False
  let ?s = "ExtractUserKey start" and ?l = "ExtractUserKey limit"
  let ?tmp = "separator ?s ?l"
  from False have tmp: "length ?tmp < length ?s" "cmp ?s ?tmp < 0" "sep = PutFixed64 ?tmp (PackSequenceAndType kMaxSequenceNumber kValueTypeForSeek)"
    unfolding sep_def Internal_FindShortestSeparator_def by (auto simp: Let_def split: if_splits)
  have "cmp ?s ?l \<noteq> 0" using separator_equal [of ?s ?l] tmp assms(1,2) by auto
  then have "cmp ?s ?l < 0" using assms(3) by (auto simp: internal_sign)
  then have "valid_key ?tmp" "cmp ?tmp ?l < 0" using separator_bounds [of ?s ?l] assms(1,2) by auto
  then show ?thesis using tmp by (simp add: PutFixed64_def internal_sign)
qed (use assms(1-3) refl in \<open>auto simp: internal_sign\<close>)

lemma internal_successor:
  assumes "valid_internal key"
  defines "s \<equiv> Internal_FindShortSuccessor cmp successor key"
  shows "valid_internal s \<and> internal_cmp key s \<le> 0"
  using assms(1) successor_bounds [of "ExtractUserKey key"] refl
  unfolding s_def Internal_FindShortSuccessor_def by (auto simp: Let_def internal_sign PutFixed64_def)

end

sublocale user_comparator \<subseteq> internal: comparator internal_cmp valid_internal "Internal_FindShortestSeparator cmp separator" "Internal_FindShortSuccessor cmp successor"
proof unfold_locales
  fix start limit
  assume v: "valid_internal start" "valid_internal limit" and eq: "internal_cmp start limit = 0"
  then have "separator (ExtractUserKey start) (ExtractUserKey limit) = ExtractUserKey start" by (auto simp: internal_sign intro: separator_equal)
  then show "Internal_FindShortestSeparator cmp separator start limit = start" by (simp add: Internal_FindShortestSeparator_def)
qed (use internal_flip internal_le_trans internal_separator internal_successor in blast)+

interpretation user_bytes: user_comparator Bytewise_Compare "\<lambda>k. True" Bytewise_FindShortestSeparator Bytewise_FindShortSuccessor
  by unfold_locales

lemma separator_length: "length (Internal_FindShortestSeparator user_compare user_separator start limit) \<le> length start" if "8 \<le> length start"
  using that by (auto simp: Internal_FindShortestSeparator_def Let_def ExtractUserKey_def PutFixed64_def)

lemma successor_length: "length (Internal_FindShortSuccessor user_compare user_successor key) \<le> length key" if "8 \<le> length key"
  using that by (auto simp: Internal_FindShortSuccessor_def Let_def ExtractUserKey_def PutFixed64_def)

lemma append_internal_key: "AppendInternalKey result key = result @ pik_user_key key @ EncodeFixed64 (PackSequenceAndType (pik_sequence key) (pik_type key))"
  by (simp add: AppendInternalKey_def PutFixed64_def)

lemma parse_append: "pik_sequence key \<le> kMaxSequenceNumber \<Longrightarrow> ParseInternalKey (AppendInternalKey [] key) = Some key"
  using pack_unpack [of "pik_sequence key" "pik_type key"]
  by (auto simp: ParseInternalKey_def append_internal_key Let_def type_of_byte_def split: if_splits)

text \<open>
  C30. The index key that separates two neighbouring blocks of a table lies where it has to: for internal keys in order, the shortest
  separator is at or after the first, before the second, and no longer than the first; the short successor of a key is at or after it and
  no longer than it.
\<close>
theorem index_keys_within_bounds:
  assumes "8 \<le> length start" and "8 \<le> length limit" and "InternalKeyComparator_Compare Bytewise_Compare start limit < 0"
  defines "sep \<equiv> Internal_FindShortestSeparator Bytewise_Compare Bytewise_FindShortestSeparator start limit"
    and "s \<equiv> Internal_FindShortSuccessor Bytewise_Compare Bytewise_FindShortSuccessor start"
  shows "8 \<le> length sep \<and> length sep \<le> length start
    \<and> InternalKeyComparator_Compare Bytewise_Compare start sep \<le> 0 \<and> InternalKeyComparator_Compare Bytewise_Compare sep limit < 0
    \<and> 8 \<le> length s \<and> length s \<le> length start \<and> InternalKeyComparator_Compare Bytewise_Compare start s \<le> 0"
  using assms user_bytes.internal_separator [of start limit] user_bytes.internal_successor [of start]
    separator_length [OF assms(1)] successor_length [OF assms(1)] by simp

theorem index_keys_within_bounds_witness:
  "let start = [1, 2, 3, 1, 5, 0, 0, 0, 0, 0, 0]; limit = [1, 9, 1, 7, 0, 0, 0, 0, 0, 0];
       sep = Internal_FindShortestSeparator Bytewise_Compare Bytewise_FindShortestSeparator start limit
   in ExtractUserKey sep = [1, 3] \<and> InternalKeyComparator_Compare Bytewise_Compare sep limit < 0"
proof -
  let ?start = "[1, 2, 3, 1, 5, 0, 0, 0, 0, 0, 0] :: vch_t" and ?limit = "[1, 9, 1, 7, 0, 0, 0, 0, 0, 0] :: vch_t"
  have "InternalKeyComparator_Compare Bytewise_Compare ?start ?limit < 0"
    by (simp add: user_bytes.internal_sign ExtractUserKey_def Bytewise_Compare_def slice_compare_order)
  moreover have "ExtractUserKey (Internal_FindShortestSeparator Bytewise_Compare Bytewise_FindShortestSeparator ?start ?limit) = [1, 3]"
    by (simp add: Internal_FindShortestSeparator_def ExtractUserKey_def separator_cons Bytewise_Compare_def slice_compare_order PutFixed64_def)
  ultimately show ?thesis using index_keys_within_bounds [of ?start ?limit] by (simp add: Let_def)
qed

text \<open>
  An internal key keeps its parts, and the bytes of internal keys are ordered as the database needs them: by user key, and for one user
  key the entry with the larger sequence number first.  A seek for a sequence number stands before every entry of that number or a
  smaller one and after all of the larger ones.
\<close>
theorem internal_key_order:
  fixes u u' :: vch_t and t :: ValueType
  assumes "seq \<le> kMaxSequenceNumber" and "seq' \<le> kMaxSequenceNumber"
  defines "k \<equiv> AppendInternalKey [] \<lparr>pik_user_key = u, pik_sequence = seq, pik_type = t\<rparr>"
    and "k' \<equiv> AppendInternalKey [] \<lparr>pik_user_key = u', pik_sequence = seq', pik_type = kValueTypeForSeek\<rparr>"
  shows "ParseInternalKey k = Some \<lparr>pik_user_key = u, pik_sequence = seq, pik_type = t\<rparr>
    \<and> (InternalKeyComparator_Compare Bytewise_Compare k k' < 0 \<longleftrightarrow> u < u' \<or> u = u' \<and> seq' < seq)
    \<and> (InternalKeyComparator_Compare Bytewise_Compare k k' \<ge> 0 \<longleftrightarrow> u' < u \<or> u' = u \<and> seq \<le> seq')"
  using assms parse_append [of "\<lparr>pik_user_key = u, pik_sequence = seq, pik_type = t\<rparr>"] pack_order [of seq seq' t]
  by (auto simp: append_internal_key user_bytes.internal_sign Bytewise_Compare_def slice_compare_order not_less [symmetric] simp del: not_less)

theorem internal_key_order_witness:
  "ParseInternalKey (AppendInternalKey [] \<lparr>pik_user_key = [97], pik_sequence = 5, pik_type = kTypeDeletion\<rparr>) =
     Some \<lparr>pik_user_key = [97], pik_sequence = 5, pik_type = kTypeDeletion\<rparr>"
  using internal_key_order [of 5 7 "[97]" kTypeDeletion "[97]"] by (simp add: kMaxSequenceNumber_def)


end
