(* ===== verification/SkipList.thy ===== *)
theory SkipList
  imports LevelFormat
begin

text \<open>
  The skip list of LevelDB's memory table (\<^verbatim>\<open>src/leveldb/db/skiplist.h\<close>) with its pointers, and the random numbers that choose the height
  of a node (\<^verbatim>\<open>util/random.h\<close>).  The nodes live in an arena: a pointer is the index of a node, \<^verbatim>\<open>NULL\<close> is \<open>None\<close>, and \<^verbatim>\<open>head_\<close> is
  the node \<open>0\<close>.  Reading a link or a key outside of the arena, and a failed \<^verbatim>\<open>assert\<close>, are \<open>None\<close>.  The searches are loops that end only
  where the links do, so they are partial functions; the invariant \<open>skip_ok\<close> makes them end.  One thread is modelled: the barriers of the
  source order its writes for concurrent readers.
\<close>

section \<open>Random numbers\<close>

definition Random_new :: "u32 \<Rightarrow> u32" where
  "Random_new s = (let seed = s AND 0x7fffffff in if seed = 0 \<or> seed = 2147483647 then 1 else seed)"

text \<open>The new seed is also the number returned\<close>
definition Random_Next :: "u32 \<Rightarrow> u32" where
  "Random_Next seed =
     (let M = 2147483647 :: u32;
          product = (ucast seed :: u64) * 16807;
          seed = ucast (drop_bit 31 product + (product AND ucast M))
      in if seed > M then seed - M else seed)"

section \<open>Nodes and links\<close>

definition kMaxHeight :: nat where
  "kMaxHeight = 12"

record 'k sl_node =
  node_key :: 'k
  node_next :: "nat option list"

record 'k skiplist =
  sl_nodes :: "'k sl_node list"
  sl_max_height :: nat
  sl_rnd :: u32

definition Node_key :: "'k skiplist \<Rightarrow> nat \<Rightarrow> 'k option" where
  "Node_key s x = (if x < length (sl_nodes s) then Some (node_key (sl_nodes s ! x)) else None)"

definition Node_Next :: "'k skiplist \<Rightarrow> nat \<Rightarrow> nat \<Rightarrow> nat option option" where
  "Node_Next s x n =
     (if x < length (sl_nodes s) \<and> n < length (node_next (sl_nodes s ! x)) then Some (node_next (sl_nodes s ! x) ! n) else None)"

definition Node_SetNext :: "'k skiplist \<Rightarrow> nat \<Rightarrow> nat \<Rightarrow> nat option \<Rightarrow> 'k skiplist option" where
  "Node_SetNext s x n y =
     (if x < length (sl_nodes s) \<and> n < length (node_next (sl_nodes s ! x))
      then Some (s\<lparr>sl_nodes := (sl_nodes s)[x := (sl_nodes s ! x)\<lparr>node_next := (node_next (sl_nodes s ! x))[n := y]\<rparr>]\<rparr>) else None)"

text \<open>The node and its address; its links are \<^verbatim>\<open>NULL\<close> until they are set\<close>
definition NewNode :: "'k \<Rightarrow> nat \<Rightarrow> 'k skiplist \<Rightarrow> nat \<times> 'k skiplist" where
  "NewNode key height s = (length (sl_nodes s), s\<lparr>sl_nodes := sl_nodes s @ [\<lparr>node_key = key, node_next = replicate height None\<rparr>]\<rparr>)"

definition SkipList_new :: "'k \<Rightarrow> 'k skiplist" where
  "SkipList_new any_key =
     snd (NewNode any_key kMaxHeight \<lparr>sl_nodes = [], sl_max_height = 1, sl_rnd = Random_new 0xdeadbeef\<rparr>)"

function RandomHeight_loop :: "u32 \<Rightarrow> nat \<Rightarrow> nat \<times> u32" where
  "RandomHeight_loop rnd height =
     (if height < kMaxHeight
      then let rnd = Random_Next rnd in if rnd mod 4 = 0 then RandomHeight_loop rnd (height + 1) else (height, rnd)
      else (height, rnd))"
  by pat_completeness auto
termination
  by (relation "measure (\<lambda>(rnd, height). kMaxHeight - height)") auto

definition RandomHeight :: "u32 \<Rightarrow> nat \<times> u32" where
  "RandomHeight rnd = RandomHeight_loop rnd 1"

section \<open>Searching\<close>

definition KeyIsAfterNode :: "('k \<Rightarrow> 'k \<Rightarrow> int) \<Rightarrow> 'k skiplist \<Rightarrow> 'k \<Rightarrow> nat option \<Rightarrow> bool option" where
  "KeyIsAfterNode cmp s key n = (case n of None \<Rightarrow> Some False | Some n \<Rightarrow> do { k \<leftarrow> Node_key s n; Some (cmp k key < 0) })"

text \<open>The node found, and the array \<^verbatim>\<open>prev\<close>, whose elements are \<open>None\<close> until they are written\<close>
partial_function (option) FindGreaterOrEqual_loop ::
  "('k \<Rightarrow> 'k \<Rightarrow> int) \<Rightarrow> 'k skiplist \<Rightarrow> 'k \<Rightarrow> nat \<Rightarrow> nat \<Rightarrow> nat option list \<Rightarrow> (nat option \<times> nat option list) option" where
  "FindGreaterOrEqual_loop cmp s key x level prev =
     do { nxt \<leftarrow> Node_Next s x level;
          after \<leftarrow> KeyIsAfterNode cmp s key nxt;
          if after then FindGreaterOrEqual_loop cmp s key (the nxt) level prev
          else (let prev = prev[level := Some x]
                in if level = 0 then Some (nxt, prev) else FindGreaterOrEqual_loop cmp s key x (level - 1) prev) }"

definition FindGreaterOrEqual :: "('k \<Rightarrow> 'k \<Rightarrow> int) \<Rightarrow> 'k skiplist \<Rightarrow> 'k \<Rightarrow> (nat option \<times> nat option list) option" where
  "FindGreaterOrEqual cmp s key = FindGreaterOrEqual_loop cmp s key 0 (sl_max_height s - 1) (replicate kMaxHeight None)"

partial_function (option) FindLessThan_loop :: "('k \<Rightarrow> 'k \<Rightarrow> int) \<Rightarrow> 'k skiplist \<Rightarrow> 'k \<Rightarrow> nat \<Rightarrow> nat \<Rightarrow> nat option" where
  "FindLessThan_loop cmp s key x level =
     do { ok \<leftarrow> (if x = 0 then Some True else KeyIsAfterNode cmp s key (Some x));
          nxt \<leftarrow> (if ok then Node_Next s x level else None);
          before \<leftarrow> KeyIsAfterNode cmp s key nxt;
          if \<not> before then (if level = 0 then Some x else FindLessThan_loop cmp s key x (level - 1))
          else FindLessThan_loop cmp s key (the nxt) level }"

definition FindLessThan :: "('k \<Rightarrow> 'k \<Rightarrow> int) \<Rightarrow> 'k skiplist \<Rightarrow> 'k \<Rightarrow> nat option" where
  "FindLessThan cmp s key = FindLessThan_loop cmp s key 0 (sl_max_height s - 1)"

partial_function (option) FindLast_loop :: "'k skiplist \<Rightarrow> nat \<Rightarrow> nat \<Rightarrow> nat option" where
  "FindLast_loop s x level =
     do { nxt \<leftarrow> Node_Next s x level;
          case nxt of None \<Rightarrow> (if level = 0 then Some x else FindLast_loop s x (level - 1))
          | Some y \<Rightarrow> FindLast_loop s y level }"

definition FindLast :: "'k skiplist \<Rightarrow> nat option" where
  "FindLast s = FindLast_loop s 0 (sl_max_height s - 1)"

section \<open>Inserting\<close>

text \<open>\<^verbatim>\<open>assert(x == NULL || !Equal(key, x->key))\<close>\<close>
definition not_equal :: "('k \<Rightarrow> 'k \<Rightarrow> int) \<Rightarrow> 'k skiplist \<Rightarrow> 'k \<Rightarrow> nat option \<Rightarrow> bool option" where
  "not_equal cmp s key x = (case x of None \<Rightarrow> Some True | Some x \<Rightarrow> do { k \<leftarrow> Node_key s x; Some (cmp key k \<noteq> 0) })"

fun link_levels :: "nat \<Rightarrow> nat option list \<Rightarrow> nat list \<Rightarrow> 'k skiplist \<Rightarrow> 'k skiplist option" where
  "link_levels x prev [] s = Some s"
| "link_levels x prev (i # is) s =
     do { p \<leftarrow> prev ! i;
          y \<leftarrow> Node_Next s p i;
          s \<leftarrow> Node_SetNext s x i y;
          s \<leftarrow> Node_SetNext s p i (Some x);
          link_levels x prev is s }"

definition SkipList_Insert :: "('k \<Rightarrow> 'k \<Rightarrow> int) \<Rightarrow> 'k \<Rightarrow> 'k skiplist \<Rightarrow> 'k skiplist option" where
  "SkipList_Insert cmp key s =
     do { (x, prev) \<leftarrow> FindGreaterOrEqual cmp s key;
          new \<leftarrow> not_equal cmp s key x;
          if \<not> new then None
          else (let (height, rnd) = RandomHeight (sl_rnd s);
                    s = s\<lparr>sl_rnd := rnd\<rparr>;
                    prev' = (if height > sl_max_height s
                             then fold (\<lambda>i prev. prev[i := Some 0]) [sl_max_height s..<height] prev else prev);
                    s = (if height > sl_max_height s then s\<lparr>sl_max_height := height\<rparr> else s);
                    (x, s) = NewNode key height s
                in link_levels x prev' [0..<height] s) }"

definition SkipList_Contains :: "('k \<Rightarrow> 'k \<Rightarrow> int) \<Rightarrow> 'k skiplist \<Rightarrow> 'k \<Rightarrow> bool option" where
  "SkipList_Contains cmp s key =
     do { (x, prev) \<leftarrow> FindGreaterOrEqual cmp s key;
          new \<leftarrow> not_equal cmp s key x;
          Some (\<not> new) }"

section \<open>Iterators\<close>

text \<open>The position of an iterator is \<^verbatim>\<open>node_\<close>; the iterator is valid when it is not \<^verbatim>\<open>NULL\<close>\<close>
type_synonym sl_iter = "nat option"

definition Iter_Valid :: "sl_iter \<Rightarrow> bool" where
  "Iter_Valid it \<longleftrightarrow> it \<noteq> None"

definition Iter_key :: "'k skiplist \<Rightarrow> sl_iter \<Rightarrow> 'k option" where
  "Iter_key s it = do { x \<leftarrow> it; Node_key s x }"

definition Iter_Next :: "'k skiplist \<Rightarrow> sl_iter \<Rightarrow> sl_iter option" where
  "Iter_Next s it = do { x \<leftarrow> it; Node_Next s x 0 }"

text \<open>The head is no position\<close>
definition unless_head :: "nat \<Rightarrow> sl_iter" where
  "unless_head x = (if x = 0 then None else Some x)"

definition Iter_Prev :: "('k \<Rightarrow> 'k \<Rightarrow> int) \<Rightarrow> 'k skiplist \<Rightarrow> sl_iter \<Rightarrow> sl_iter option" where
  "Iter_Prev cmp s it = do { x \<leftarrow> it; k \<leftarrow> Node_key s x; y \<leftarrow> FindLessThan cmp s k; Some (unless_head y) }"

definition Iter_Seek :: "('k \<Rightarrow> 'k \<Rightarrow> int) \<Rightarrow> 'k skiplist \<Rightarrow> 'k \<Rightarrow> sl_iter option" where
  "Iter_Seek cmp s target = map_option fst (FindGreaterOrEqual cmp s target)"

definition Iter_SeekToFirst :: "'k skiplist \<Rightarrow> sl_iter option" where
  "Iter_SeekToFirst s = Node_Next s 0 0"

definition Iter_SeekToLast :: "'k skiplist \<Rightarrow> sl_iter option" where
  "Iter_SeekToLast s = do { x \<leftarrow> FindLast s; Some (unless_head x) }"

section \<open>The invariant\<close>

abbreviation sl_key :: "'k skiplist \<Rightarrow> nat \<Rightarrow> 'k" where
  "sl_key s x \<equiv> node_key (sl_nodes s ! x)"

abbreviation sl_height :: "'k skiplist \<Rightarrow> nat \<Rightarrow> nat" where
  "sl_height s x \<equiv> length (node_next (sl_nodes s ! x))"

text \<open>The nodes of a list that have a link of a level\<close>
abbreviation at_level :: "'k skiplist \<Rightarrow> nat \<Rightarrow> nat list \<Rightarrow> nat list" where
  "at_level s l xs \<equiv> filter (\<lambda>x. l < sl_height s x) xs"

text \<open>From a node, the links of a level lead through a list of nodes to \<^verbatim>\<open>NULL\<close>\<close>
fun links :: "'k skiplist \<Rightarrow> nat \<Rightarrow> nat \<Rightarrow> nat list \<Rightarrow> bool" where
  "links s l x [] \<longleftrightarrow> Node_Next s x l = Some None"
| "links s l x (y # ys) \<longleftrightarrow> Node_Next s x l = Some (Some y) \<and> links s l y ys"

text \<open>The nodes \<open>xs\<close> are in order, and the links of each level lead through those of them that are high enough\<close>
definition skip_ok :: "('k \<Rightarrow> 'k \<Rightarrow> int) \<Rightarrow> ('k \<Rightarrow> bool) \<Rightarrow> 'k skiplist \<Rightarrow> nat list \<Rightarrow> bool" where
  "skip_ok cmp valid s xs \<longleftrightarrow>
     0 < length (sl_nodes s) \<and> sl_height s 0 = kMaxHeight \<and> 1 \<le> sl_max_height s \<and> sl_max_height s \<le> kMaxHeight
   \<and> distinct xs \<and> set xs = {1..<length (sl_nodes s)}
   \<and> (\<forall>x\<in>set xs. 1 \<le> sl_height s x \<and> sl_height s x \<le> sl_max_height s \<and> valid (sl_key s x))
   \<and> sorted_wrt (\<lambda>x y. cmp (sl_key s x) (sl_key s y) < 0) xs
   \<and> (\<forall>l<kMaxHeight. links s l 0 (at_level s l xs))"

lemma links_after: "links s l x (us @ y # vs) \<Longrightarrow> links s l y vs"
  by (induction us arbitrary: x) auto

lemma links_next: "links s l x ys \<Longrightarrow> Node_Next s x l = Some (case ys of [] \<Rightarrow> None | y # _ \<Rightarrow> Some y)"
  by (cases ys) auto

lemma filter_cons_split:
  assumes "filter P xs = y # ys"
  obtains us vs where "xs = us @ y # vs" and "\<forall>u\<in>set us. \<not> P u" and "P y" and "ys = filter P vs"
  using assms unfolding filter_eq_Cons_iff by auto

text \<open>A search goes on while a predicate \<open>Q\<close> holds of the next node, and down a level where it does not.  \<open>Q\<close> holds of a beginning of the list.\<close>
lemma walk_induct [consumes 3, case_names forth down found]:
  assumes start: "\<forall>l\<le>level. links s l x (at_level s l post)"
    and closed: "sorted_wrt (\<lambda>a b. Q b \<longrightarrow> Q a) post"
    and x: "x = 0 \<or> Q x"
    and forth: "\<And>level x us y vs. Node_Next s x level = Some (Some y) \<Longrightarrow> x = 0 \<or> Q x \<Longrightarrow> Q y \<Longrightarrow> \<forall>u\<in>set us. Q u \<and> \<not> level < sl_height s u
        \<Longrightarrow> level < sl_height s y \<Longrightarrow> y \<in> set post \<Longrightarrow> G level y vs \<Longrightarrow> G level x (us @ y # vs)"
    and down: "\<And>level x vs. Node_Next s x (Suc level) = Some (case at_level s (Suc level) vs of [] \<Rightarrow> None | y # _ \<Rightarrow> Some y) \<Longrightarrow> x = 0 \<or> Q x
        \<Longrightarrow> (case at_level s (Suc level) vs of [] \<Rightarrow> True | y # _ \<Rightarrow> \<not> Q y) \<Longrightarrow> set vs \<subseteq> set post \<Longrightarrow> G level x vs \<Longrightarrow> G (Suc level) x vs"
    and found: "\<And>x vs. Node_Next s x 0 = Some (case at_level s 0 vs of [] \<Rightarrow> None | y # _ \<Rightarrow> Some y) \<Longrightarrow> x = 0 \<or> Q x
        \<Longrightarrow> (case at_level s 0 vs of [] \<Rightarrow> True | y # _ \<Rightarrow> \<not> Q y) \<Longrightarrow> set vs \<subseteq> set post \<Longrightarrow> G 0 x vs"
  shows "G level x post"
proof -
  have "\<forall>l\<le>level. links s l x (at_level s l vs) \<Longrightarrow> sorted_wrt (\<lambda>a b. Q b \<longrightarrow> Q a) vs \<Longrightarrow> x = 0 \<or> Q x \<Longrightarrow> set vs \<subseteq> set post \<Longrightarrow> G level x vs" for vs
  proof (induction "level + length vs" arbitrary: level x vs rule: less_induct)
    case less
    have nx: "Node_Next s x level = Some (case at_level s level vs of [] \<Rightarrow> None | y # _ \<Rightarrow> Some y)" using less.prems(1) by (simp add: links_next)
    show ?case
    proof (cases "case at_level s level vs of [] \<Rightarrow> True | y # _ \<Rightarrow> \<not> Q y")
      case True
      with nx less show ?thesis by (cases level) (auto intro!: found down)
    next
      case False
      then obtain y ys where lev: "at_level s level vs = y # ys" and Q: "Q y" by (auto split: list.splits)
      from lev obtain us ws where vs: "vs = us @ y # ws" "\<forall>u\<in>set us. \<not> level < sl_height s u" "level < sl_height s y" by (rule filter_cons_split)
      have "\<forall>l\<le>level. links s l y (at_level s l ws)" using less.prems(1) vs by (auto intro: links_after)
      then have "G level y ws" using less vs Q by (intro less.hyps) (auto simp: sorted_wrt_append)
      then show ?thesis using nx lev vs Q less.prems by (auto simp: sorted_wrt_append intro!: forth)
    qed
  qed
  then show ?thesis using start closed x by blast
qed


section \<open>The searches\<close>

text \<open>The first element of a list, where it has one\<close>
abbreviation first :: "'a list \<Rightarrow> 'a option" where
  "first xs \<equiv> (case xs of [] \<Rightarrow> None | y # _ \<Rightarrow> Some y)"

abbreviation before :: "('k \<Rightarrow> 'k \<Rightarrow> int) \<Rightarrow> 'k skiplist \<Rightarrow> 'k \<Rightarrow> nat \<Rightarrow> bool" where
  "before cmp s key x \<equiv> cmp (sl_key s x) key < 0"

lemma key_is_after: "y < length (sl_nodes s) \<Longrightarrow> KeyIsAfterNode cmp s key (Some y) = Some (before cmp s key y)"
  "KeyIsAfterNode cmp s key None = Some False"
  by (simp_all add: KeyIsAfterNode_def Node_key_def)

lemma key_is_after_first: "set ys \<subseteq> {..<length (sl_nodes s)} \<Longrightarrow> case ys of [] \<Rightarrow> True | y # _ \<Rightarrow> \<not> before cmp s key y \<Longrightarrow>
    KeyIsAfterNode cmp s key (first ys) = Some False"
  by (cases ys) (auto simp: key_is_after)

lemma take_while_stop: "case ys of [] \<Rightarrow> True | y # _ \<Rightarrow> \<not> Q y \<Longrightarrow> takeWhile Q ys = [] \<and> dropWhile Q ys = ys"
  by (cases ys) auto

lemma take_while_level: "\<forall>u\<in>set us. Q u \<Longrightarrow> Q y \<Longrightarrow> l < sl_height s y \<Longrightarrow>
    takeWhile Q (at_level s l (us @ y # vs)) = at_level s l us @ y # takeWhile Q (at_level s l vs)"
  by (subst filter_append, subst takeWhile_append2) auto

lemma drop_while_all: "\<forall>u\<in>set us. Q u \<Longrightarrow> dropWhile Q (us @ vs) = dropWhile Q vs"
  by (induction us) auto

lemma all_at_level_0: "\<forall>x\<in>set xs. 1 \<le> sl_height s x \<Longrightarrow> at_level s 0 xs = xs"
  by (simp add: filter_id_conv Suc_le_eq)

lemma find_greater_or_equal:
  assumes "\<forall>l\<le>level. links s l x (at_level s l post)" and "sorted_wrt (\<lambda>a b. before cmp s key b \<longrightarrow> before cmp s key a) post"
    and "x = 0 \<or> before cmp s key x" and post: "\<forall>y\<in>set post. y < length (sl_nodes s) \<and> 1 \<le> sl_height s y" and "level < length prev"
  shows "\<exists>prev'. FindGreaterOrEqual_loop cmp s key x level prev = Some (first (dropWhile (before cmp s key) post), prev') \<and> length prev' = length prev
     \<and> (\<forall>l<length prev. prev' ! l = (if l \<le> level then Some (last (x # takeWhile (before cmp s key) (at_level s l post))) else prev ! l))"
  using assms(5)
proof (induction arbitrary: prev rule: walk_induct [OF assms(1,2,3)])
  case (1 level x us y vs)
  then have "y < length (sl_nodes s)" using post by auto
  then have loop: "FindGreaterOrEqual_loop cmp s key x level prev = FindGreaterOrEqual_loop cmp s key y level prev"
    using 1 by (subst FindGreaterOrEqual_loop.simps) (simp add: key_is_after)
  have drop: "dropWhile (before cmp s key) (us @ y # vs) = dropWhile (before cmp s key) vs" using 1 by (simp add: drop_while_all)
  have "l \<le> level \<Longrightarrow> last (x # takeWhile (before cmp s key) (at_level s l (us @ y # vs))) = last (y # takeWhile (before cmp s key) (at_level s l vs))" for l
    using 1 by (subst take_while_level) auto
  then show ?case unfolding loop drop using 1(7) [OF 1(8)] by auto
next
  case (2 level x vs)
  then have sub: "set (at_level s (Suc level) vs) \<subseteq> {..<length (sl_nodes s)}" using post by auto
  have loop: "FindGreaterOrEqual_loop cmp s key x (Suc level) prev = FindGreaterOrEqual_loop cmp s key x level (prev[Suc level := Some x])"
    using 2 by (subst FindGreaterOrEqual_loop.simps) (simp add: key_is_after_first [OF sub])
  show ?case unfolding loop using 2(5) [of "prev[Suc level := Some x]"] 2(6) take_while_stop [OF 2(3)] by (auto simp: nth_list_update le_Suc_eq)
next
  case (3 x vs)
  have vs: "at_level s 0 vs = vs" using 3 post by (intro all_at_level_0) auto
  have sub: "set vs \<subseteq> {..<length (sl_nodes s)}" using 3 post by auto
  show ?case using 3 vs take_while_stop [OF 3(3)]
    by (subst FindGreaterOrEqual_loop.simps) (simp add: key_is_after_first [OF sub] nth_list_update)
qed

lemma find_less_than:
  assumes "\<forall>l\<le>level. links s l x (at_level s l post)" and "sorted_wrt (\<lambda>a b. before cmp s key b \<longrightarrow> before cmp s key a) post"
    and "x = 0 \<or> before cmp s key x" and post: "\<forall>y\<in>set post. y < length (sl_nodes s) \<and> 1 \<le> sl_height s y"
  shows "x < length (sl_nodes s) \<Longrightarrow> FindLessThan_loop cmp s key x level = Some (last (x # takeWhile (before cmp s key) post))"
proof (induction rule: walk_induct [OF assms(1,2,3)])
  case (1 level x us y vs)
  then have y: "y < length (sl_nodes s)" using post by auto
  have "FindLessThan_loop cmp s key x level = FindLessThan_loop cmp s key y level"
    using 1 y by (subst FindLessThan_loop.simps) (auto simp: key_is_after)
  then show ?case using 1 y by (simp add: takeWhile_append2)
next
  case (2 level x vs)
  then have sub: "set (at_level s (Suc level) vs) \<subseteq> {..<length (sl_nodes s)}" using post by auto
  show ?case using 2 by (subst FindLessThan_loop.simps) (auto simp: key_is_after key_is_after_first [OF sub])
next
  case (3 x vs)
  have vs: "at_level s 0 vs = vs" using 3 post by (intro all_at_level_0) auto
  have sub: "set vs \<subseteq> {..<length (sl_nodes s)}" using 3 post by auto
  show ?case using 3 vs take_while_stop [OF 3(3)]
    by (subst FindLessThan_loop.simps) (auto simp: key_is_after key_is_after_first [OF sub])
qed

lemma find_last:
  assumes "\<forall>l\<le>level. links s l 0 (at_level s l post)" and post: "\<forall>y\<in>set post. 1 \<le> sl_height s y"
  shows "FindLast_loop s 0 level = Some (last (0 # post))"
proof -
  have closed: "sorted_wrt (\<lambda>a b. True \<longrightarrow> True) post" by (simp add: sorted_wrt_true)
  show ?thesis
  proof (induction rule: walk_induct [OF assms(1) closed])
    case 1
    then show ?case by simp
  next
    case (2 level x us y vs)
    then show ?case by (subst FindLast_loop.simps) simp
  next
    case (3 level x vs)
    then show ?case by (subst FindLast_loop.simps) (simp split: list.splits)
  next
    case (4 x vs)
    have "at_level s 0 vs = vs" using 4 post by (intro all_at_level_0) auto
    then show ?case using 4 by (subst FindLast_loop.simps) (simp split: list.splits)
  qed
qed


section \<open>Linking a node\<close>

text \<open>The keys and heights of the nodes, which setting links does not change\<close>
definition shape :: "'k skiplist \<Rightarrow> ('k \<times> nat) list \<times> nat" where
  "shape s = (map (\<lambda>n. (node_key n, length (node_next n))) (sl_nodes s), sl_max_height s)"

lemma shape_length: "shape s = shape t \<Longrightarrow> length (sl_nodes s) = length (sl_nodes t)"
  by (auto simp: shape_def dest: map_eq_imp_length_eq)

lemma shape_eq:
  assumes "shape s = shape t"
  shows "sl_max_height s = sl_max_height t" and "x < length (sl_nodes s) \<Longrightarrow> sl_key s x = sl_key t x \<and> sl_height s x = sl_height t x"
proof -
  show "sl_max_height s = sl_max_height t" using assms by (simp add: shape_def)
  assume x: "x < length (sl_nodes s)"
  have "fst (shape s) ! x = fst (shape t) ! x" using assms by simp
  then show "sl_key s x = sl_key t x \<and> sl_height s x = sl_height t x" using x shape_length [OF assms] by (simp add: shape_def)
qed

lemma set_next:
  assumes "x < length (sl_nodes s)" and "n < sl_height s x"
  obtains t where "Node_SetNext s x n y = Some t" and "shape t = shape s" and "\<And>a m. Node_Next t a m = (if a = x \<and> m = n then Some y else Node_Next s a m)"
proof -
  let ?t = "s\<lparr>sl_nodes := (sl_nodes s)[x := (sl_nodes s ! x)\<lparr>node_next := (node_next (sl_nodes s ! x))[n := y]\<rparr>]\<rparr>"
  have "Node_SetNext s x n y = Some ?t" using assms by (simp add: Node_SetNext_def)
  moreover have "shape ?t = shape s" using assms by (auto simp: shape_def nth_list_update intro!: nth_equalityI)
  moreover have "Node_Next ?t a m = (if a = x \<and> m = n then Some y else Node_Next s a m)" for a m
    using assms by (auto simp: Node_Next_def nth_list_update)
  ultimately show ?thesis by (rule that)
qed

lemma next_defined: "x < length (sl_nodes s) \<Longrightarrow> n < sl_height s x \<Longrightarrow> \<exists>y. Node_Next s x n = Some y"
  by (simp add: Node_Next_def)

lemma link_levels:
  assumes "distinct is" and "x < length (sl_nodes s)"
    and "\<forall>i\<in>set is. prev ! i = Some (p i) \<and> p i \<noteq> x \<and> p i < length (sl_nodes s) \<and> i < sl_height s (p i) \<and> i < sl_height s x"
  shows "\<exists>t. link_levels x prev is s = Some t \<and> shape t = shape s \<and>
    (\<forall>a j. Node_Next t a j = (if j \<in> set is then if a = x then Node_Next s (p j) j else if a = p j then Some (Some x) else Node_Next s a j else Node_Next s a j))"
  using assms
proof (induction "is" arbitrary: s)
  case (Cons i "is")
  then have i: "prev ! i = Some (p i)" "p i \<noteq> x" "p i < length (sl_nodes s)" "i < sl_height s (p i)" "i < sl_height s x" by auto
  obtain y where y: "Node_Next s (p i) i = Some y" using next_defined [OF i(3,4)] by blast
  obtain s1 where s1: "Node_SetNext s x i y = Some s1" "shape s1 = shape s"
    "\<And>a m. Node_Next s1 a m = (if a = x \<and> m = i then Some y else Node_Next s a m)" using set_next [OF Cons.prems(2) i(5)] by blast
  have "p i < length (sl_nodes s1)" "i < sl_height s1 (p i)" using shape_eq(2) [OF s1(2)] shape_length [OF s1(2)] i(3,4) by auto
  then obtain s2 where s2: "Node_SetNext s1 (p i) i (Some x) = Some s2" "shape s2 = shape s1"
    "\<And>a m. Node_Next s2 a m = (if a = p i \<and> m = i then Some (Some x) else Node_Next s1 a m)" using set_next by blast
  have sh: "shape s2 = shape s" using s1 s2 by simp
  obtain t where t: "link_levels x prev is s2 = Some t" "shape t = shape s2"
    "\<forall>a j. Node_Next t a j = (if j \<in> set is then if a = x then Node_Next s2 (p j) j else if a = p j then Some (Some x) else Node_Next s2 a j else Node_Next s2 a j)"
    using Cons.IH [of s2] Cons.prems shape_eq(2) [OF sh] shape_length [OF sh] by auto
  have "link_levels x prev (i # is) s = Some t" using i y s1(1) s2(1) t(1) by simp
  moreover have "Node_Next t a j = (if j \<in> set (i # is) then if a = x then Node_Next s (p j) j else if a = p j then Some (Some x) else Node_Next s a j else Node_Next s a j)" for a j
    using t(3) s2(3) s1(3) y i(2) Cons.prems(1) by auto
  ultimately show ?case using t(2) sh by auto
qed simp

lemma links_cong: "\<forall>a\<in>set (x # ys). Node_Next t a l = Node_Next s a l \<Longrightarrow> links t l x ys \<longleftrightarrow> links s l x ys"
  by (induction ys arbitrary: x) auto

text \<open>A node put behind the last node of a beginning of a level\<close>
lemma links_put:
  assumes "links s l x (us @ vs)" and "distinct (x # us @ vs)" and "n \<notin> set (x # us @ vs)"
    and "Node_Next t n l = Node_Next s (last (x # us)) l" and "Node_Next t (last (x # us)) l = Some (Some n)"
    and "\<forall>a\<in>set (x # us @ vs). a \<noteq> last (x # us) \<longrightarrow> Node_Next t a l = Node_Next s a l"
  shows "links t l x (us @ n # vs)"
  using assms
proof (induction us arbitrary: x)
  case Nil
  have "links t l n vs"
  proof (cases vs)
    case (Cons v ws)
    have "links t l v ws \<longleftrightarrow> links s l v ws" by (rule links_cong) (use Nil Cons in auto)
    then show ?thesis using Nil Cons by simp
  qed (use Nil in simp)
  then show ?case using Nil by simp
next
  case (Cons u us)
  have ne: "x \<noteq> last (u # us)" using Cons.prems(2) by (metis append_is_Nil_conv distinct.simps(2) last_in_set list.distinct(1) set_append UnI1 append_Cons)
  then have "links t l u (us @ n # vs)" using Cons.prems by (intro Cons.IH) auto
  moreover have "Node_Next t x l = Some (Some u)" using Cons.prems ne by auto
  ultimately show ?case by simp
qed


section \<open>Inserting keeps the invariant\<close>

lemma random_height_loop: "1 \<le> h \<Longrightarrow> h \<le> kMaxHeight \<Longrightarrow> RandomHeight_loop rnd h = (h', rnd') \<Longrightarrow> 1 \<le> h' \<and> h' \<le> kMaxHeight"
proof (induction rnd h rule: RandomHeight_loop.induct)
  case (1 rnd h)
  from 1(4) have "(if h < kMaxHeight then let rnd = Random_Next rnd in if rnd mod 4 = 0 then RandomHeight_loop rnd (h + 1) else (h, rnd) else (h, rnd)) = (h', rnd')"
    by (subst (asm) RandomHeight_loop.simps)
  then show ?case using 1(1) [OF _ HOL.refl] 1(2,3) by (auto simp: Let_def split: if_splits)
qed

lemma random_height: "RandomHeight rnd = (h, rnd') \<Longrightarrow> 1 \<le> h \<and> h \<le> kMaxHeight"
  using random_height_loop [of 1 rnd h rnd'] by (simp add: RandomHeight_def kMaxHeight_def)

lemma fold_update: "length (fold (\<lambda>i xs. xs[i := v]) is xs) = length xs"
  "j < length xs \<Longrightarrow> fold (\<lambda>i xs. xs[i := v]) is xs ! j = (if j \<in> set is then v else xs ! j)"
  by (induction "is" arbitrary: xs) (auto simp: nth_list_update)

lemma closed_filter: "sorted_wrt (\<lambda>a b. Q b \<longrightarrow> Q a) xs \<Longrightarrow> takeWhile Q (filter P xs) = filter P (takeWhile Q xs) \<and> dropWhile Q (filter P xs) = filter P (dropWhile Q xs)"
proof (induction xs)
  case (Cons x xs)
  show ?case
  proof (cases "Q x")
    case False
    then have "\<forall>y\<in>set (filter P xs). \<not> Q y" using Cons.prems by auto
    then have "takeWhile Q (filter P xs) = []" "dropWhile Q (filter P xs) = filter P xs" by (cases "filter P xs"; auto)+
    then show ?thesis using False by simp
  qed (use Cons in auto)
qed simp

lemma closed_drop: "sorted_wrt (\<lambda>a b. Q b \<longrightarrow> Q a) xs \<Longrightarrow> \<forall>y\<in>set (dropWhile Q xs). \<not> Q y"
proof (induction xs)
  case (Cons x xs)
  from Cons.prems have "sorted_wrt (\<lambda>a b. Q b \<longrightarrow> Q a) xs" and x: "\<And>y. y \<in> set xs \<Longrightarrow> Q y \<Longrightarrow> Q x" unfolding sorted_wrt.simps by blast+
  with Cons.IH have IH: "\<forall>y\<in>set (dropWhile Q xs). \<not> Q y" by blast
  show ?case
  proof (cases "Q x")
    case False
    then have "dropWhile Q (x # xs) = x # xs" by simp
    then show ?thesis using x False by (metis set_ConsD)
  qed (use IH in simp)
qed simp

context key_order
begin

abbreviation ok :: "'k skiplist \<Rightarrow> nat list \<Rightarrow> bool" where
  "ok \<equiv> skip_ok cmp valid_key"

lemma before_closed:
  assumes "ok s xs" and "valid_key key"
  shows "sorted_wrt (\<lambda>a b. before cmp s key b \<longrightarrow> before cmp s key a) xs"
proof -
  have sorted: "sorted_wrt (\<lambda>x y. cmp (sl_key s x) (sl_key s y) < 0) xs" and valid: "\<And>x. x \<in> set xs \<Longrightarrow> valid_key (sl_key s x)" using assms by (auto simp: skip_ok_def)
  from sorted show ?thesis by (rule sorted_wrt_mono_rel [rotated]) (blast intro: less_trans valid assms(2))
qed

lemma find_ok:
  assumes "ok s xs" and "valid_key key"
  shows "\<exists>prev. FindGreaterOrEqual cmp s key = Some (first (dropWhile (before cmp s key) xs), prev) \<and> length prev = kMaxHeight
     \<and> (\<forall>l < sl_max_height s. prev ! l = Some (last (0 # at_level s l (takeWhile (before cmp s key) xs))))"
proof -
  have closed: "sorted_wrt (\<lambda>a b. before cmp s key b \<longrightarrow> before cmp s key a) xs" by (rule before_closed [OF assms])
  have "\<forall>l\<le> sl_max_height s - 1. links s l 0 (at_level s l xs)" and "\<forall>y\<in>set xs. y < length (sl_nodes s) \<and> 1 \<le> sl_height s y"
    and "sl_max_height s - 1 < length (replicate kMaxHeight None)"
    using assms(1) by (auto simp: skip_ok_def)
  from find_greater_or_equal [where cmp = cmp and key = key and x = 0 and post = xs, OF this(1) closed disjI1 [OF HOL.refl] this(2,3)] assms(1) show ?thesis
    unfolding FindGreaterOrEqual_def by (auto simp: closed_filter [OF closed] skip_ok_def)
qed

lemma less_ok: "ok s xs \<Longrightarrow> valid_key key \<Longrightarrow> FindLessThan cmp s key = Some (last (0 # takeWhile (before cmp s key) xs))"
  unfolding FindLessThan_def by (rule find_less_than) (auto simp: before_closed skip_ok_def)

lemma last_ok: "ok s xs \<Longrightarrow> FindLast s = Some (last (0 # xs))"
  unfolding FindLast_def by (rule find_last) (auto simp: skip_ok_def)

end


text \<open>The state in which \<^verbatim>\<open>Insert\<close> begins to set the links\<close>
definition with_node :: "'k \<Rightarrow> nat \<Rightarrow> u32 \<Rightarrow> 'k skiplist \<Rightarrow> 'k skiplist" where
  "with_node key h rnd s = snd (NewNode key h (s\<lparr>sl_rnd := rnd, sl_max_height := max h (sl_max_height s)\<rparr>))"

lemma with_node:
  "length (sl_nodes (with_node key h rnd s)) = Suc (length (sl_nodes s))" "sl_max_height (with_node key h rnd s) = max h (sl_max_height s)"
  "sl_key (with_node key h rnd s) (length (sl_nodes s)) = key" "sl_height (with_node key h rnd s) (length (sl_nodes s)) = h"
  "x < length (sl_nodes s) \<Longrightarrow> sl_key (with_node key h rnd s) x = sl_key s x \<and> sl_height (with_node key h rnd s) x = sl_height s x"
  "x < length (sl_nodes s) \<Longrightarrow> Node_Next (with_node key h rnd s) x l = Node_Next s x l"
  by (simp_all add: with_node_def NewNode_def Node_Next_def nth_append)

lemma levels_above: "\<forall>x\<in>set xs. sl_height s x \<le> sl_max_height s \<Longrightarrow> sl_max_height s \<le> l \<Longrightarrow> at_level s l xs = []"
  by (auto simp: filter_empty_conv)

context key_order
begin

lemma insert_runs:
  assumes "ok s xs" and "valid_key key" and "\<forall>x\<in>set xs. cmp key (sl_key s x) \<noteq> 0" and h: "RandomHeight (sl_rnd s) = (h, rnd)"
  shows "\<exists>prev. SkipList_Insert cmp key s = link_levels (length (sl_nodes s)) prev [0..<h] (with_node key h rnd s)
     \<and> (\<forall>l<h. prev ! l = Some (last (0 # at_level s l (takeWhile (before cmp s key) xs))))"
proof -
  obtain prev where f: "FindGreaterOrEqual cmp s key = Some (first (dropWhile (before cmp s key) xs), prev)" and len: "length prev = kMaxHeight"
    and prev: "\<forall>l < sl_max_height s. prev ! l = Some (last (0 # at_level s l (takeWhile (before cmp s key) xs)))"
    using find_ok [OF assms(1,2)] by blast
  have xs: "\<forall>x\<in>set xs. x < length (sl_nodes s) \<and> sl_height s x \<le> sl_max_height s" using assms(1) by (auto simp: skip_ok_def)
  have "not_equal cmp s key (first (dropWhile (before cmp s key) xs)) = Some True"
  proof (cases "dropWhile (before cmp s key) xs")
    case (Cons y ys)
    then have "y \<in> set xs" by (metis list.set_intros(1) set_dropWhileD)
    then show ?thesis unfolding Cons using xs assms(3) by (simp add: not_equal_def Node_key_def)
  next
    case Nil
    show ?thesis unfolding Nil by (simp add: not_equal_def)
  qed
  moreover define prev' where "prev' = (if h > sl_max_height s then fold (\<lambda>i prev. prev[i := Some 0]) [sl_max_height s..<h] prev else prev)"
  ultimately have "SkipList_Insert cmp key s = link_levels (length (sl_nodes s)) prev' [0..<h] (with_node key h rnd s)"
    by (auto simp: SkipList_Insert_def f h Let_def NewNode_def with_node_def max_def)
  moreover have "prev' ! l = Some (last (0 # at_level s l (takeWhile (before cmp s key) xs)))" if "l < h" for l
  proof (cases "l < sl_max_height s")
    case False
    then have "at_level s l (takeWhile (before cmp s key) xs) = []" using xs by (intro levels_above) (auto dest: set_takeWhileD)
    then show ?thesis using that False len random_height [OF h] by (simp add: prev'_def fold_update)
  qed (use prev that len random_height [OF h] in \<open>simp add: prev'_def fold_update\<close>)
  ultimately show ?thesis by blast
qed

lemma insert_sorted:
  assumes "ok s xs" and "valid_key key" and "\<forall>x\<in>set xs. cmp key (sl_key s x) \<noteq> 0"
  shows "sorted_wrt (\<lambda>k l. cmp k l < 0) (map (sl_key s) (takeWhile (before cmp s key) xs) @ key # map (sl_key s) (dropWhile (before cmp s key) xs))"
proof -
  let ?us = "takeWhile (before cmp s key) xs" and ?vs = "dropWhile (before cmp s key) xs"
  have "sorted_wrt (\<lambda>x y. cmp (sl_key s x) (sl_key s y) < 0) (?us @ ?vs)" using assms(1) by (simp add: skip_ok_def)
  note this [unfolded sorted_wrt_append]
  moreover have "cmp key (sl_key s y) < 0" if "y \<in> set ?vs" for y
  proof -
    have "y \<in> set xs" "valid_key (sl_key s y)" using that assms(1) by (auto simp: skip_ok_def dest: set_dropWhileD)
    then show ?thesis using closed_drop [OF before_closed [OF assms(1,2)]] that assms(2,3) not_less [of "sl_key s y" key] by (fastforce simp: le_less)
  qed
  ultimately show ?thesis by (auto simp: sorted_wrt_append sorted_wrt_map dest: set_takeWhileD)
qed

end


context key_order
begin

lemma linked_links:
  assumes s: "ok s xs" and "us @ vs = xs" and "l < kMaxHeight" and w: "w = with_node key h rnd s" and n: "n = length (sl_nodes s)"
    and t: "shape t = shape w"
      "\<forall>a j. Node_Next t a j = (if j < h then if a = n then Node_Next w (p j) j else if a = p j then Some (Some n) else Node_Next w a j else Node_Next w a j)"
    and p: "p l = last (0 # at_level s l us)" "l < h \<Longrightarrow> p l < n"
  shows "links t l 0 (at_level t l (us @ n # vs))"
proof -
  let ?us = "at_level s l us" and ?vs = "at_level s l vs"
  have xs: "set xs \<subseteq> {1..<n}" "distinct xs" "0 < n" using s n by (auto simp: skip_ok_def)
  have len: "length (sl_nodes t) = Suc n" using shape_length [OF t(1)] with_node(1) n w by metis
  have old: "sl_height t x = sl_height s x" if "x < n" for x
    using shape_eq(2) [OF t(1), of x] with_node(5) [of x s key h rnd] that len n w by simp
  have new: "sl_height t n = h" using shape_eq(2) [OF t(1), of n] with_node(4) [of key h rnd s] len n w by simp
  have sub: "set us \<subseteq> set xs" "set vs \<subseteq> set xs" using assms(2) by auto
  then have small: "x \<in> set us \<or> x \<in> set vs \<Longrightarrow> 0 < x \<and> x < n" for x using xs(1) by fastforce
  have lev: "at_level t l us = ?us" "at_level t l vs = ?vs" using small by (auto intro!: filter_cong simp: old)
  have dis: "distinct (0 # ?us @ ?vs)" "n \<notin> set (0 # ?us @ ?vs)" using small xs(2,3) assms(2) by auto
  have links: "links s l 0 (?us @ ?vs)" using s assms(2,3) by (auto simp: skip_ok_def)
  have same: "Node_Next w a l = Node_Next s a l" if "a \<in> set (0 # ?us @ ?vs)" for a
    unfolding w using that xs(3) small n by (intro with_node(6)) auto
  show ?thesis
  proof (cases "l < h")
    case True
    have "Node_Next t n l = Node_Next s (p l) l" "Node_Next t (p l) l = Some (Some n)" using t(2) True p(2) w with_node(6) n by auto
    moreover have "Node_Next t a l = Node_Next s a l" if "a \<in> set (0 # ?us @ ?vs)" "a \<noteq> p l" for a
      using t(2) same [OF that(1)] that dis(2) by metis
    ultimately have "links t l 0 (?us @ n # ?vs)" unfolding p(1) by (intro links_put [OF links dis]) auto
    then show ?thesis using True new lev by simp
  next
    case False
    have "links t l 0 (?us @ ?vs) \<longleftrightarrow> links s l 0 (?us @ ?vs)" by (rule links_cong) (use t(2) False same in auto)
    then show ?thesis using False new lev links by simp
  qed
qed

lemma insert_state:
  assumes s: "ok s xs" and key: "valid_key key" and new: "\<forall>x\<in>set xs. cmp key (sl_key s x) \<noteq> 0" and h: "RandomHeight (sl_rnd s) = (h, rnd)"
  defines "us \<equiv> takeWhile (before cmp s key) xs" and "vs \<equiv> dropWhile (before cmp s key) xs" and "n \<equiv> length (sl_nodes s)"
  shows "\<exists>t. SkipList_Insert cmp key s = Some t \<and> shape t = shape (with_node key h rnd s) \<and> (\<forall>l<kMaxHeight. links t l 0 (at_level t l (us @ n # vs)))"
proof -
  define w where w: "w = with_node key h rnd s"
  define p where p: "p l = last (0 # at_level s l us)" for l
  obtain prev where run: "SkipList_Insert cmp key s = link_levels n prev [0..<h] w" and prev: "\<forall>l<h. prev ! l = Some (p l)"
    using insert_runs [OF s key new h] unfolding us_def n_def p w by blast
  have xs: "us @ vs = xs" by (simp add: us_def vs_def)
  have st: "set xs = {1..<n}" "sl_height s 0 = kMaxHeight" "0 < n" "h \<le> kMaxHeight" using s random_height [OF h] by (auto simp: skip_ok_def n_def)
  have small: "p l < n \<and> l < sl_height s (p l)" if "l < h" for l
  proof (cases "at_level s l us = []")
    case False
    then have "last (at_level s l us) \<in> set (at_level s l us)" by (rule last_in_set)
    then show ?thesis using False st(1) xs by (auto simp: p)
  qed (use that st in \<open>auto simp: p\<close>)
  have "\<exists>t. link_levels n prev [0..<h] w = Some t \<and> shape t = shape w \<and> (\<forall>a j. Node_Next t a j =
      (if j \<in> set [0..<h] then if a = n then Node_Next w (p j) j else if a = p j then Some (Some n) else Node_Next w a j else Node_Next w a j))"
    by (rule link_levels) (use prev small in \<open>fastforce simp: with_node n_def w less_Suc_eq\<close>)+
  then obtain t where t: "SkipList_Insert cmp key s = Some t" "shape t = shape w"
      "\<forall>a j. Node_Next t a j = (if j < h then if a = n then Node_Next w (p j) j else if a = p j then Some (Some n) else Node_Next w a j else Node_Next w a j)"
    using run by auto
  have "links t l 0 (at_level t l (us @ n # vs))" if "l < kMaxHeight" for l
    by (rule linked_links [OF s xs that w _ t(2,3) p]) (use small n_def in auto)
  then show ?thesis using t(1,2) w by blast
qed

lemma insert_ok:
  assumes s: "ok s xs" and key: "valid_key key" and new: "\<forall>x\<in>set xs. cmp key (sl_key s x) \<noteq> 0"
  defines "us \<equiv> takeWhile (before cmp s key) xs" and "vs \<equiv> dropWhile (before cmp s key) xs" and "n \<equiv> length (sl_nodes s)"
  shows "\<exists>t. SkipList_Insert cmp key s = Some t \<and> ok t (us @ n # vs) \<and> map (sl_key t) (us @ n # vs) = map (sl_key s) us @ key # map (sl_key s) vs"
proof -
  obtain h rnd where h: "RandomHeight (sl_rnd s) = (h, rnd)" by fastforce
  let ?w = "with_node key h rnd s"
  obtain t where t: "SkipList_Insert cmp key s = Some t" "shape t = shape ?w" and links: "\<forall>l<kMaxHeight. links t l 0 (at_level t l (us @ n # vs))"
    using insert_state [OF s key new h] unfolding us_def vs_def n_def by blast
  have st: "set xs = {1..<n}" "sl_height s 0 = kMaxHeight" "0 < n" "distinct xs" "1 \<le> h" "h \<le> kMaxHeight" "sl_max_height s \<le> kMaxHeight"
    using s random_height [OF h] by (auto simp: skip_ok_def n_def)
  have xs: "us @ vs = xs" by (simp add: us_def vs_def)
  have len: "length (sl_nodes t) = Suc n" using shape_length [OF t(2)] with_node(1) n_def by metis
  have old: "sl_key t x = sl_key s x \<and> sl_height t x = sl_height s x" if "x < n" for x
    using shape_eq(2) [OF t(2), of x] with_node(5) [of x s key h rnd] that len by (simp add: n_def)
  have top: "sl_key t n = key" "sl_height t n = h" using shape_eq(2) [OF t(2), of n] with_node(3,4) [of key h rnd s] len by (simp_all add: n_def)
  have max: "sl_max_height t = max h (sl_max_height s)" using shape_eq(1) [OF t(2)] by (simp add: with_node)
  have small: "x \<in> set us \<or> x \<in> set vs \<Longrightarrow> x \<in> set xs \<and> x < n" for x using st(1) xs by fastforce
  have keys: "map (sl_key t) (us @ n # vs) = map (sl_key s) us @ key # map (sl_key s) vs" using old small top by auto
  have "sorted_wrt (\<lambda>k l. cmp k l < 0) (map (sl_key s) us @ key # map (sl_key s) vs)" using insert_sorted [OF s key new] by (simp only: us_def vs_def)
  then have "sorted_wrt (\<lambda>k l. cmp k l < 0) (map (sl_key t) (us @ n # vs))" by (simp only: keys)
  then have "sorted_wrt (\<lambda>x y. cmp (sl_key t x) (sl_key t y) < 0) (us @ n # vs)" by (simp only: sorted_wrt_map)
  moreover have "distinct (us @ n # vs)"
  proof -
    have "n \<notin> set us" "n \<notin> set vs" using small by blast+
    moreover have "distinct (us @ vs)" using st(4) xs by simp
    ultimately show ?thesis by simp
  qed
  moreover have "set (us @ n # vs) = {1..<Suc n}"
  proof -
    have "set (us @ n # vs) = insert n (set (us @ vs))" by simp
    then show ?thesis unfolding xs st(1) using st(3) by (simp add: atLeastLessThanSuc Suc_le_eq)
  qed
  moreover have "1 \<le> sl_height t x \<and> sl_height t x \<le> sl_max_height t \<and> valid_key (sl_key t x)" if "x \<in> set (us @ n # vs)" for x
  proof (cases "x = n")
    case False
    then have "x \<in> set xs" "x < n" using that small by auto
    moreover have "1 \<le> sl_height s x \<and> sl_height s x \<le> sl_max_height s \<and> valid_key (sl_key s x)" using s \<open>x \<in> set xs\<close> by (simp add: skip_ok_def)
    ultimately show ?thesis using old [of x] max by (simp add: le_max_iff_disj)
  qed (use top key st max in auto)
  ultimately have "ok t (us @ n # vs)" unfolding skip_ok_def using len old [OF st(3)] st max links by auto
  then show ?thesis using t(1) keys by blast
qed

end

section \<open>A skip list is a sorted list\<close>

text \<open>The keys that a skip list holds, in order\<close>
definition sl_holds :: "('k \<Rightarrow> 'k \<Rightarrow> int) \<Rightarrow> ('k \<Rightarrow> bool) \<Rightarrow> 'k skiplist \<Rightarrow> 'k list \<Rightarrow> bool" where
  "sl_holds cmp valid s ks \<longleftrightarrow> (\<exists>xs. skip_ok cmp valid s xs \<and> ks = map (sl_key s) xs)"

text \<open>An iterator stands at a key of a skip list, or at no key and is not valid\<close>
definition sl_at :: "'k skiplist \<Rightarrow> sl_iter \<Rightarrow> 'k option \<Rightarrow> bool" where
  "sl_at s it ko \<longleftrightarrow> Iter_key s it = ko \<and> (Iter_Valid it \<longleftrightarrow> ko \<noteq> None) \<and> it \<noteq> Some 0"

lemma at_node: "x < length (sl_nodes s) \<Longrightarrow> 0 < x \<Longrightarrow> sl_at s (Some x) (Some (sl_key s x))" "sl_at s None None"
  by (auto simp: sl_at_def Iter_key_def Iter_Valid_def Node_key_def)

lemma at_first: "set ys \<subseteq> {1..<length (sl_nodes s)} \<Longrightarrow> sl_at s (first ys) (first (map (sl_key s) ys))"
  by (cases ys) (auto simp: at_node)

lemma not_equal_first: "set ys \<subseteq> {..<length (sl_nodes s)} \<Longrightarrow>
    not_equal cmp s key (first ys) = Some (case ys of [] \<Rightarrow> True | y # _ \<Rightarrow> cmp key (sl_key s y) \<noteq> 0)"
  by (cases ys) (auto simp: not_equal_def Node_key_def)

lemma empty_ok: "skip_ok cmp valid (SkipList_new any_key) []"
  by (auto simp: skip_ok_def SkipList_new_def NewNode_def kMaxHeight_def Node_Next_def)

lemma take_while_map: "takeWhile P (map f xs) = map f (takeWhile (\<lambda>x. P (f x)) xs)" "dropWhile P (map f xs) = map f (dropWhile (\<lambda>x. P (f x)) xs)"
  by (induction xs) auto

context key_order
begin

abbreviation holds :: "'k skiplist \<Rightarrow> 'k list \<Rightarrow> bool" where
  "holds \<equiv> sl_holds cmp valid_key"

lemma holds_new: "holds (SkipList_new any_key) []"
  unfolding sl_holds_def using empty_ok by fastforce

lemma holds_sorted: "holds s ks \<Longrightarrow> sorted_wrt (\<lambda>k l. cmp k l < 0) ks \<and> (\<forall>k\<in>set ks. valid_key k)"
  by (auto simp: sl_holds_def skip_ok_def sorted_wrt_map)

lemma holds_nodes:
  assumes "holds s ks"
  obtains xs where "ok s xs" and "ks = map (sl_key s) xs" and "set xs = {1..<length (sl_nodes s)}" and "links s 0 0 xs"
proof -
  obtain xs where xs: "ok s xs" "ks = map (sl_key s) xs" using assms by (auto simp: sl_holds_def)
  have "at_level s 0 xs = xs" using xs(1) by (intro all_at_level_0) (simp add: skip_ok_def)
  moreover have "\<forall>l<kMaxHeight. links s l 0 (at_level s l xs)" using xs(1) unfolding skip_ok_def by blast
  moreover have "set xs = {1..<length (sl_nodes s)}" using xs(1) unfolding skip_ok_def by blast
  ultimately show ?thesis using xs that by (metis kMaxHeight_def zero_less_numeral)
qed

lemma sorted_distinct: "sorted_wrt (\<lambda>k l. cmp k l < 0) ks \<Longrightarrow> \<forall>k\<in>set ks. valid_key k \<Longrightarrow> distinct ks"
proof (induction ks)
  case (Cons k ks)
  then have "cmp k k = 0" "\<forall>l\<in>set ks. cmp k l < 0" by (simp_all add: refl)
  then show ?case using Cons by auto
qed simp

lemma take_while_before:
  assumes "ok s (us @ x # vs)"
  shows "takeWhile (before cmp s (sl_key s x)) (us @ x # vs) = us" and "valid_key (sl_key s x)"
proof -
  show "valid_key (sl_key s x)" using assms by (simp add: skip_ok_def)
  moreover have "\<forall>u\<in>set us. before cmp s (sl_key s x) u" using assms by (simp add: skip_ok_def sorted_wrt_append)
  ultimately show "takeWhile (before cmp s (sl_key s x)) (us @ x # vs) = us" using refl [of "sl_key s x"] by (simp add: takeWhile_append2)
qed

lemma at_last: "set ys \<subseteq> {1..<length (sl_nodes s)} \<Longrightarrow> sl_at s (unless_head (last (0 # ys))) (first (rev (map (sl_key s) ys)))"
  by (cases ys rule: rev_cases) (auto simp: at_node unless_head_def)

text \<open>The node at which an iterator stands is the one of its key\<close>
lemma at_position:
  assumes "holds s (pre @ k # ks)" and "sl_at s it (Some k)"
  obtains us x vs where "it = Some x" and "ok s (us @ x # vs)" and "links s 0 x vs" and "set (us @ x # vs) = {1..<length (sl_nodes s)}"
    and "map (sl_key s) us = pre" and "map (sl_key s) vs = ks" and "sl_key s x = k"
proof -
  obtain xs where xs: "ok s xs" "pre @ k # ks = map (sl_key s) xs" "set xs = {1..<length (sl_nodes s)}" "links s 0 0 xs" using holds_nodes [OF assms(1)] by blast
  obtain x where x: "it = Some x" "x \<in> set xs" "sl_key s x = k"
    using assms(2) xs(3) by (auto simp: sl_at_def Iter_key_def Node_key_def split: if_splits bind_splits)
  obtain us y vs where y: "xs = us @ y # vs" "map (sl_key s) us = pre" "map (sl_key s) vs = ks" "sl_key s y = k"
    using xs(2) by (auto simp: append_eq_map_conv Cons_eq_map_conv)
  have "inj_on (sl_key s) (set xs)"
  proof -
    have "distinct (map (sl_key s) xs)" using holds_sorted [OF assms(1)] sorted_distinct unfolding xs(2) by blast
    then show ?thesis by (simp add: distinct_map)
  qed
  then have "y = x" using x y by (auto dest: inj_onD)
  then show ?thesis using that [of x us vs] x xs y links_after by metis
qed

lemma holds_insert:
  assumes "holds s ks" and "valid_key key" and "\<forall>k\<in>set ks. cmp key k \<noteq> 0"
  shows "\<exists>t. SkipList_Insert cmp key s = Some t \<and> holds t (takeWhile (\<lambda>k. cmp k key < 0) ks @ key # dropWhile (\<lambda>k. cmp k key < 0) ks)"
proof -
  obtain xs where xs: "ok s xs" "ks = map (sl_key s) xs" using assms(1) by (auto simp: sl_holds_def)
  have "\<forall>x\<in>set xs. cmp key (sl_key s x) \<noteq> 0" using assms(3) xs(2) by simp
  from insert_ok [OF xs(1) assms(2) this] show ?thesis unfolding sl_holds_def xs(2) take_while_map by metis
qed

lemma holds_seek:
  assumes "holds s ks" and "valid_key key"
  shows "\<exists>it. Iter_Seek cmp s key = Some it \<and> sl_at s it (first (dropWhile (\<lambda>k. cmp k key < 0) ks))"
proof -
  obtain xs where xs: "ok s xs" "ks = map (sl_key s) xs" "set xs = {1..<length (sl_nodes s)}" using holds_nodes [OF assms(1)] by blast
  have "set (dropWhile (before cmp s key) xs) \<subseteq> {1..<length (sl_nodes s)}" using xs(3) set_dropWhileD by fastforce
  from at_first [OF this] find_ok [OF xs(1) assms(2)] show ?thesis unfolding xs(2) take_while_map Iter_Seek_def by auto
qed

lemma found_first:
  assumes "sorted_wrt (\<lambda>k l. cmp k l < 0) ks" and "\<forall>k\<in>set ks. valid_key k" and "valid_key key" and "k \<in> set ks" and "cmp key k = 0"
  shows "first (dropWhile (\<lambda>k. cmp k key < 0) ks) = Some k"
  using assms(1,2,4)
proof (induction ks)
  case (Cons l ks)
  have k: "cmp k key = 0" using Cons.prems assms equal_sym [of key k] by auto
  show ?case
  proof (cases "k = l")
    case False
    then have "cmp l k < 0" using Cons.prems by auto
    then have "cmp l key < 0" using less_le_trans [of l k key] k Cons.prems assms(3) by auto
    then show ?thesis using Cons False by auto
  qed (use k in simp)
qed simp

lemma holds_contains:
  assumes "holds s ks" and "valid_key key"
  shows "SkipList_Contains cmp s key = Some (\<exists>k\<in>set ks. cmp key k = 0)"
proof -
  obtain xs where xs: "ok s xs" "ks = map (sl_key s) xs" "set xs = {1..<length (sl_nodes s)}" using holds_nodes [OF assms(1)] by blast
  define ys where "ys = dropWhile (before cmp s key) xs"
  have sub: "set ys \<subseteq> set xs" unfolding ys_def using set_dropWhileD by fast
  then have "not_equal cmp s key (first ys) = Some (case ys of [] \<Rightarrow> True | y # _ \<Rightarrow> cmp key (sl_key s y) \<noteq> 0)" using xs(3) by (intro not_equal_first) auto
  moreover have "(case ys of [] \<Rightarrow> True | y # _ \<Rightarrow> cmp key (sl_key s y) \<noteq> 0) \<longleftrightarrow> \<not> (\<exists>k\<in>set ks. cmp key k = 0)"
  proof (cases "\<exists>k\<in>set ks. cmp key k = 0")
    case True
    then obtain k where k: "k \<in> set ks" "cmp key k = 0" by blast
    have "dropWhile (\<lambda>k. cmp k key < 0) ks = map (sl_key s) ys" unfolding xs(2) ys_def take_while_map ..
    then have "first (map (sl_key s) ys) = Some k" using found_first [OF _ _ assms(2) k] holds_sorted [OF assms(1)] by simp
    then show ?thesis using True k by (cases ys) auto
  next
    case False
    then show ?thesis using sub xs(2) by (cases ys) auto
  qed
  ultimately show ?thesis using find_ok [OF xs(1) assms(2)] by (auto simp: SkipList_Contains_def ys_def)
qed

lemma holds_first: "holds s ks \<Longrightarrow> \<exists>it. Iter_SeekToFirst s = Some it \<and> sl_at s it (first ks)"
  by (erule holds_nodes) (auto simp: Iter_SeekToFirst_def links_next at_first)

lemma holds_last: "holds s ks \<Longrightarrow> \<exists>it. Iter_SeekToLast s = Some it \<and> sl_at s it (first (rev ks))"
  by (erule holds_nodes) (auto simp: Iter_SeekToLast_def last_ok at_last simp del: last.simps)

lemma holds_next: "holds s (pre @ k # ks) \<Longrightarrow> sl_at s it (Some k) \<Longrightarrow> \<exists>it'. Iter_Next s it = Some it' \<and> sl_at s it' (first ks)"
  by (erule (1) at_position) (auto simp: Iter_Next_def links_next intro!: at_first)

lemma holds_prev: "holds s (pre @ k # ks) \<Longrightarrow> sl_at s it (Some k) \<Longrightarrow> \<exists>it'. Iter_Prev cmp s it = Some it' \<and> sl_at s it' (first (rev pre))"
proof (erule (1) at_position)
  fix us x vs
  assume *: "it = Some x" "ok s (us @ x # vs)" "set (us @ x # vs) = {1..<length (sl_nodes s)}" "map (sl_key s) us = pre" "sl_key s x = k"
  have "FindLessThan cmp s k = Some (last (0 # us))" using less_ok [OF *(2)] take_while_before [OF *(2)] *(5) by metis
  moreover have "Node_key s x = Some k" using *(3,5) by (auto simp: Node_key_def)
  ultimately show ?thesis using *(1,3,4) at_last [of us s] by (auto simp: Iter_Prev_def simp del: last.simps)
qed

end

section \<open>Reading a skip list from end to end\<close>

text \<open>\<^verbatim>\<open>for (; iter->Valid(); iter->Next())\<close>, with the keys that the iterator stands at\<close>
partial_function (option) scan :: "'k skiplist \<Rightarrow> sl_iter \<Rightarrow> 'k list option" where
  "scan s it = (if Iter_Valid it then do { k \<leftarrow> Iter_key s it; it \<leftarrow> Iter_Next s it; ks \<leftarrow> scan s it; Some (k # ks) } else Some [])"

text \<open>The keys of a list inserted one after the other\<close>
fun insert_all :: "('k \<Rightarrow> 'k \<Rightarrow> int) \<Rightarrow> 'k list \<Rightarrow> 'k skiplist \<Rightarrow> 'k skiplist option" where
  "insert_all cmp [] s = Some s"
| "insert_all cmp (k # ks) s = do { s \<leftarrow> SkipList_Insert cmp k s; insert_all cmp ks s }"

context key_order
begin

lemma scan_holds: "holds s (pre @ ks) \<Longrightarrow> sl_at s it (first ks) \<Longrightarrow> scan s it = Some ks"
proof (induction ks arbitrary: pre it)
  case Nil
  then show ?case by (subst scan.simps) (simp add: sl_at_def)
next
  case (Cons k ks)
  then obtain it' where it': "Iter_Next s it = Some it'" "sl_at s it' (first ks)" using holds_next [of s pre k ks it] by auto
  have "scan s it' = Some ks" using Cons.IH [of "pre @ [k]" it'] Cons.prems it' by simp
  then show ?case using Cons.prems it' by (subst scan.simps) (simp add: sl_at_def)
qed

end

lemma sorted_insert:
  fixes ks :: "'a::linorder list"
  assumes "sorted ks" and "distinct ks" and "key \<notin> set ks"
  shows "takeWhile (\<lambda>k. k < key) ks @ key # dropWhile (\<lambda>k. k < key) ks = insort key ks"
  using assms by (induction ks) (auto simp: not_less)

lemma sorted_bytes: "sorted_wrt (\<lambda>k l. Bytewise_Compare k l < 0) ks \<longleftrightarrow> sorted ks \<and> distinct ks"
  unfolding Bytewise_Compare_def slice_compare_order by (rule strict_sorted_iff)

lemma bytes_insert: "bytewise.holds s ks \<Longrightarrow> key \<notin> set ks \<Longrightarrow> \<exists>t. SkipList_Insert Bytewise_Compare key s = Some t \<and> bytewise.holds t (insort key ks)"
  using bytewise.holds_insert [of s ks key] sorted_insert [of ks key] bytewise.holds_sorted [of s ks]
  by (auto simp: sorted_bytes) (auto simp: Bytewise_Compare_def slice_compare_order)

lemma bytes_insert_all: "bytewise.holds s ks \<Longrightarrow> sorted ks \<Longrightarrow> distinct (new @ ks) \<Longrightarrow>
    \<exists>t. insert_all Bytewise_Compare new s = Some t \<and> bytewise.holds t (sort (new @ ks))"
proof (induction new arbitrary: s ks)
  case (Cons k new)
  then obtain t where t: "SkipList_Insert Bytewise_Compare k s = Some t" "bytewise.holds t (insort k ks)" using bytes_insert [of s ks k] by auto
  have "\<exists>u. insert_all Bytewise_Compare new t = Some u \<and> bytewise.holds u (sort (new @ insort k ks))"
    using Cons t by (intro Cons.IH) (auto simp: sorted_insort distinct_insort set_insort_key)
  moreover have "sort (new @ insort k ks) = sort ((k # new) @ ks)" by (rule properties_for_sort) (simp_all add: sorted_insort)
  ultimately show ?case using t by auto
qed (simp add: sorted_sort_id)

text \<open>
  C19. A skip list is a sorted set: from an empty list, inserting different keys in any order succeeds, whatever heights the random numbers
  choose; reading the list from its first node gives the keys in order, each search ends, and the list contains exactly those keys.
\<close>
theorem skiplist_sorts:
  assumes "distinct ks"
  shows "\<exists>s it. insert_all Bytewise_Compare ks (SkipList_new any_key) = Some s \<and> Iter_SeekToFirst s = Some it \<and> scan s it = Some (sort ks)
    \<and> (\<forall>key. SkipList_Contains Bytewise_Compare s key = Some (key \<in> set ks))"
proof -
  obtain s where s: "insert_all Bytewise_Compare ks (SkipList_new any_key) = Some s" "bytewise.holds s (sort ks)"
    using bytes_insert_all [OF bytewise.holds_new] assms by fastforce
  obtain it where "Iter_SeekToFirst s = Some it" "sl_at s it (first (sort ks))" using bytewise.holds_first [OF s(2)] by blast
  moreover have "scan s it = Some (sort ks)" using bytewise.scan_holds [of s "[]"] s(2) calculation by simp
  moreover have "SkipList_Contains Bytewise_Compare s key = Some (key \<in> set ks)" for key
    using bytewise.holds_contains [OF s(2), of key] by (auto simp: Bytewise_Compare_def slice_compare_order)
  ultimately show ?thesis using s(1) by blast
qed

theorem skiplist_sorts_witness:
  "\<exists>s it. insert_all Bytewise_Compare [[3], [1, 2], [1]] (SkipList_new []) = Some s \<and> Iter_SeekToFirst s = Some it \<and> scan s it = Some [[1], [1, 2], [3]]"
  using skiplist_sorts [of "[[3], [1, 2], [1]]" "[]"] by (auto simp: sort_key_def)


section \<open>The random numbers\<close>

lemma mersenne_mod: "n mod (2147483647 :: nat) = (n div 2147483648 + n mod 2147483648) mod 2147483647"
proof -
  have "n = n div 2147483648 * 2147483648 + n mod 2147483648" by (rule div_mult_mod_eq [symmetric])
  also have "\<dots> = n div 2147483648 * 2147483647 + (n div 2147483648 + n mod 2147483648)" by linarith
  finally have "n mod 2147483647 = (n div 2147483648 * 2147483647 + (n div 2147483648 + n mod 2147483648)) mod 2147483647" by (rule arg_cong)
  also have "\<dots> = (n div 2147483648 + n mod 2147483648) mod 2147483647" by (rule mod_mult_self3)
  finally show ?thesis .
qed

lemma and_modulus: "unat (w AND 2147483647) = unat w mod 2147483648" for w :: "'a::len word"
  using take_bit_eq_mask [of 31 w] unsigned_take_bit_eq [of 31 w, where ?'a = nat] by (simp add: mask_eq_exp_minus_1 take_bit_eq_mod)

lemma reduce_once: "unat t < 2147483647 + 2147483647 \<Longrightarrow> unat t mod 2147483647 \<noteq> 0 \<Longrightarrow>
    unat (if t > 2147483647 then t - 2147483647 else t) = unat t mod 2147483647" for t :: u32
proof (cases "t > 2147483647")
  case False
  assume "unat t mod 2147483647 \<noteq> 0"
  then have "unat t \<noteq> 2147483647" by auto
  then have "unat t < 2147483647" using False by (simp add: word_less_nat_alt)
  then show ?thesis using False by simp
qed (auto simp: word_less_nat_alt unat_sub_if_size le_mod_geq)

lemma random_new_range: "0 < Random_new s \<and> Random_new s < 2147483647"
proof -
  have "unat (s AND 2147483647) < 2147483648" unfolding and_modulus by simp
  then show ?thesis by (auto simp: Random_new_def Let_def word_less_nat_alt word_unat_eq_iff)
qed

lemma coprime_modulus: "coprime (2147483647 :: nat) 16807"
proof -
  have "coprime (2147483647 mod 7 :: nat) 7" by simp
  then have "coprime (2147483647 :: nat) (7 ^ 5)" by (simp only: coprime_mod_left_iff coprime_power_right_iff) simp
  then show ?thesis by simp
qed

lemma not_multiple: "0 < n \<Longrightarrow> n < 2147483647 \<Longrightarrow> (n * 16807) mod 2147483647 \<noteq> (0 :: nat)"
proof
  assume n: "0 < n" "n < 2147483647" and "(n * 16807) mod 2147483647 = 0"
  then have "2147483647 dvd n * 16807" by (metis dvd_eq_mod_eq_0)
  then have "2147483647 dvd n" using coprime_modulus by (rule coprime_dvd_mult_left_iff [THEN iffD1, rotated])
  then show False using n by (metis dvd_imp_le leD)
qed

text \<open>
  The random numbers never leave their range: from a seed between 1 and 2147483646 the next one is the seed times 16807 modulo
  2147483647, computed without a division and without overflow, and again between 1 and 2147483646.  The constructor makes every seed such a
  one.
\<close>
theorem random_in_range:
  assumes "0 < seed" and "seed < 2147483647"
  shows "unat (Random_Next seed) = (unat seed * 16807) mod 2147483647 \<and> 0 < Random_Next seed \<and> Random_Next seed < 2147483647
    \<and> 0 < Random_new s \<and> Random_new s < 2147483647"
proof -
  have seed: "0 < unat seed" "unat seed < 2147483647" using assms by (simp_all add: word_less_nat_alt)
  define n where "n = unat seed * 16807"
  have n: "n < 36092757655329" using seed by (simp add: n_def)
  define product where "product = (ucast seed :: u64) * 16807"
  have product: "unat product = n" using seed n by (simp add: product_def n_def unat_word_ariths unsigned_ucast_eq take_bit_nat_eq_self)
  define t where "t = (ucast (drop_bit 31 product + (product AND ucast (2147483647 :: u32))) :: u32)"
  have q: "n div 2147483648 < 16808" "n mod 2147483648 < 2147483648" using n by (simp_all add: div_less_iff_less_mult)
  have "unat (drop_bit 31 product) = n div 2147483648" by (simp add: unat_drop_bit product)
  moreover have "unat (product AND ucast (2147483647 :: u32)) = n mod 2147483648" by (simp add: and_modulus product)
  ultimately have t: "unat t = n div 2147483648 + n mod 2147483648" using q by (simp add: t_def unsigned_ucast_eq unat_word_ariths take_bit_nat_eq_self)
  then have small: "unat t < 2147483647 + 2147483647" and "unat t mod 2147483647 = n mod 2147483647" using q mersenne_mod [of n] by simp_all
  moreover have "n mod 2147483647 \<noteq> 0" using not_multiple [OF seed] by (simp add: n_def)
  moreover have "Random_Next seed = (if t > 2147483647 then t - 2147483647 else t)" by (simp add: Random_Next_def product_def t_def Let_def)
  ultimately have "unat (Random_Next seed) = n mod 2147483647" by (simp add: reduce_once)
  then show ?thesis using not_multiple [OF seed] random_new_range [of s] by (simp add: n_def word_less_nat_alt)
qed

theorem random_in_range_witness:
  "unat (Random_Next 1) = 16807 \<and> 0 < Random_new 0xdeadbeef \<and> Random_new 0xdeadbeef < 2147483647"
  using random_in_range [of 1 "0xdeadbeef"] by simp

end
