(* ===== verification/MemTable.thy ===== *)
theory MemTable
  imports SkipList
begin

text \<open>
  The memory table of LevelDB (\<^verbatim>\<open>src/leveldb/db/memtable.cc\<close>) over the skip list, and the batches of writes that go into it
  (\<^verbatim>\<open>db/write_batch.cc\<close>).  A pointer into the arena is the list of the bytes that follow it there.  Reading more bytes than the arena has
  for an entry is \<open>None\<close>.  The user comparator is the bytewise one, which is the default of the database.
\<close>

section \<open>Entries\<close>

text \<open>\<^verbatim>\<open>GetVarint32Ptr(p, p + 5, &len)\<close>: the number, and what follows it\<close>
definition entry_varint :: "vch_t \<Rightarrow> (u32 \<times> vch_t) option" where
  "entry_varint data = do { (len, p) \<leftarrow> GetVarint32Ptr (take 5 data); Some (len, drop (length (take 5 data) - length p) data) }"

definition entry_slice :: "vch_t \<Rightarrow> vch_t option" where
  "entry_slice data = do { (len, p) \<leftarrow> entry_varint data; if unat len \<le> length p then Some (take (unat len) p) else None }"

abbreviation internal_compare :: "vch_t \<Rightarrow> vch_t \<Rightarrow> int" where
  "internal_compare \<equiv> InternalKeyComparator_Compare Bytewise_Compare"

text \<open>Of an entry that is corrupted, which the source rules out, nothing is known; the model compares it as equal\<close>
definition KeyComparator :: "vch_t \<Rightarrow> vch_t \<Rightarrow> int" where
  "KeyComparator aptr bptr = (case (entry_slice aptr, entry_slice bptr) of (Some a, Some b) \<Rightarrow> internal_compare a b | _ \<Rightarrow> 0)"

definition EncodeKey :: "vch_t \<Rightarrow> vch_t" where
  "EncodeKey target = PutVarint32 [] (of_nat (length target)) @ target"

section \<open>The table\<close>

type_synonym memtable = "vch_t skiplist"

definition MemTable_new :: memtable where
  "MemTable_new = SkipList_new []"

definition MemTable_Add :: "u64 \<Rightarrow> ValueType \<Rightarrow> vch_t \<Rightarrow> vch_t \<Rightarrow> memtable \<Rightarrow> memtable option" where
  "MemTable_Add s type key value table =
     (let key_size = length key;
          val_size = length value;
          internal_key_size = key_size + 8;
          encoded_len = VarintLength (of_nat internal_key_size) + internal_key_size + VarintLength (of_nat val_size) + val_size;
          buf = EncodeVarint32 (of_nat internal_key_size) @ key @ EncodeFixed64 (push_bit 8 s OR type_code type) @ EncodeVarint32 (of_nat val_size) @ value
      in if length buf = encoded_len then SkipList_Insert KeyComparator buf table else None)"

text \<open>What \<^verbatim>\<open>Get\<close> reports: that the table says nothing of the key, the value, or \<^verbatim>\<open>Status::NotFound\<close>\<close>
datatype get_result = Unknown | Value vch_t | Deleted

definition MemTable_Get :: "LookupKey \<Rightarrow> memtable \<Rightarrow> get_result option" where
  "MemTable_Get key table =
     (let memkey = memtable_key key
      in do { iter \<leftarrow> Iter_Seek KeyComparator table memkey;
              if Iter_Valid iter
              then do { entry \<leftarrow> Iter_key table iter;
                        (key_length, key_ptr) \<leftarrow> entry_varint entry;
                        let key_length = unat key_length;
                        if Bytewise_Compare (take (key_length - 8) key_ptr) (lookup_user_key key) = 0
                        then (let tag = DecodeFixed64 (drop (key_length - 8) key_ptr)
                              in case type_of_byte (ucast (tag AND 255)) of
                                   Some kTypeValue \<Rightarrow> do { v \<leftarrow> entry_slice (drop key_length key_ptr); Some (Value v) }
                                 | Some kTypeDeletion \<Rightarrow> Some Deleted
                                 | None \<Rightarrow> Some Unknown)
                        else Some Unknown }
              else Some Unknown })"

section \<open>Iterators of a table\<close>

definition MemIter_Seek :: "memtable \<Rightarrow> vch_t \<Rightarrow> sl_iter option" where
  "MemIter_Seek table k = Iter_Seek KeyComparator table (EncodeKey k)"

definition MemIter_Prev :: "memtable \<Rightarrow> sl_iter \<Rightarrow> sl_iter option" where
  "MemIter_Prev table iter = Iter_Prev KeyComparator table iter"

definition MemIter_key :: "memtable \<Rightarrow> sl_iter \<Rightarrow> vch_t option" where
  "MemIter_key table iter = do { entry \<leftarrow> Iter_key table iter; entry_slice entry }"

definition MemIter_value :: "memtable \<Rightarrow> sl_iter \<Rightarrow> vch_t option" where
  "MemIter_value table iter =
     do { entry \<leftarrow> Iter_key table iter;
          (len, p) \<leftarrow> entry_varint entry;
          key_slice \<leftarrow> entry_slice entry;
          entry_slice (drop (length key_slice) p) }"

section \<open>Batches\<close>

datatype batch_status = OK | Corruption string | IOError

definition kHeader :: nat where
  "kHeader = 12"

type_synonym write_batch = vch_t

definition WriteBatch_Clear :: write_batch where
  "WriteBatch_Clear = replicate kHeader 0"

definition Batch_Count :: "write_batch \<Rightarrow> u32" where
  "Batch_Count b = DecodeFixed32 (drop 8 b)"

definition Batch_SetCount :: "u32 \<Rightarrow> write_batch \<Rightarrow> write_batch" where
  "Batch_SetCount n b = take 8 b @ EncodeFixed32 n @ drop 12 b"

definition Batch_Sequence :: "write_batch \<Rightarrow> u64" where
  "Batch_Sequence b = DecodeFixed64 b"

definition Batch_SetSequence :: "u64 \<Rightarrow> write_batch \<Rightarrow> write_batch" where
  "Batch_SetSequence seq b = EncodeFixed64 seq @ drop 8 b"

definition WriteBatch_Put :: "vch_t \<Rightarrow> vch_t \<Rightarrow> write_batch \<Rightarrow> write_batch" where
  "WriteBatch_Put key value b =
     (let b = Batch_SetCount (Batch_Count b + 1) b;
          b = b @ [ucast (type_code kTypeValue)];
          b = PutLengthPrefixedSlice b key
      in PutLengthPrefixedSlice b value)"

definition WriteBatch_Delete :: "vch_t \<Rightarrow> write_batch \<Rightarrow> write_batch" where
  "WriteBatch_Delete key b =
     (let b = Batch_SetCount (Batch_Count b + 1) b;
          b = b @ [ucast (type_code kTypeDeletion)]
      in PutLengthPrefixedSlice b key)"

definition Batch_SetContents :: "vch_t \<Rightarrow> write_batch option" where
  "Batch_SetContents contents = (if length contents \<ge> kHeader then Some contents else None)"

definition Batch_Append :: "write_batch \<Rightarrow> write_batch \<Rightarrow> write_batch option" where
  "Batch_Append dst src =
     (let dst = Batch_SetCount (Batch_Count dst + Batch_Count src) dst
      in if length src \<ge> kHeader then Some (dst @ drop kHeader src) else None)"

lemma varint_loop_shorter: "varint_ptr_loop last_shift shift result p = Some (v, q) \<Longrightarrow> length q < length p"
  by (induction last_shift shift result p rule: varint_ptr_loop.induct) (fastforce simp: Let_def split: if_splits)+

lemma slice_shorter: "GetLengthPrefixedSlice input = Some (s, rest) \<Longrightarrow> length rest < length input"
  by (auto simp: GetLengthPrefixedSlice_def GetVarint32_def GetVarint32Ptr_def GetVarint32PtrFallback_def
      split: if_splits list.splits bind_splits dest!: varint_loop_shorter)

text \<open>A handler is its two operations on its state; they may fail\<close>
function Iterate_loop ::
  "(vch_t \<Rightarrow> vch_t \<Rightarrow> 'h \<Rightarrow> 'h option) \<Rightarrow> (vch_t \<Rightarrow> 'h \<Rightarrow> 'h option) \<Rightarrow> nat \<Rightarrow> vch_t \<Rightarrow> 'h \<Rightarrow> ((string + nat) \<times> 'h) option" where
  "Iterate_loop put del found [] h = Some (Inr found, h)"
| "Iterate_loop put del found (tag # input) h =
     (if tag = 1
      then (case GetLengthPrefixedSlice input of
              None \<Rightarrow> Some (Inl ''bad WriteBatch Put'', h)
            | Some (key, input) \<Rightarrow>
                (case GetLengthPrefixedSlice input of
                   None \<Rightarrow> Some (Inl ''bad WriteBatch Put'', h)
                 | Some (value, input) \<Rightarrow>
                     (case put key value h of None \<Rightarrow> None | Some h \<Rightarrow> Iterate_loop put del (found + 1) input h)))
      else if tag = 0
      then (case GetLengthPrefixedSlice input of
              None \<Rightarrow> Some (Inl ''bad WriteBatch Delete'', h)
            | Some (key, input) \<Rightarrow> (case del key h of None \<Rightarrow> None | Some h \<Rightarrow> Iterate_loop put del (found + 1) input h))
      else Some (Inl ''unknown WriteBatch tag'', h))"
  by pat_completeness auto
termination
  by (relation "measure (\<lambda>(put, del, found, input, h). length input)") (auto dest!: slice_shorter)

definition WriteBatch_Iterate ::
  "(vch_t \<Rightarrow> vch_t \<Rightarrow> 'h \<Rightarrow> 'h option) \<Rightarrow> (vch_t \<Rightarrow> 'h \<Rightarrow> 'h option) \<Rightarrow> write_batch \<Rightarrow> 'h \<Rightarrow> (batch_status \<times> 'h) option" where
  "WriteBatch_Iterate put del rep h =
     (if length rep < kHeader then Some (Corruption ''malformed WriteBatch (too small)'', h)
      else case Iterate_loop put del 0 (drop kHeader rep) h of
             None \<Rightarrow> None
           | Some (Inl e, h) \<Rightarrow> Some (Corruption e, h)
           | Some (Inr found, h) \<Rightarrow> Some (if of_nat found \<noteq> Batch_Count rep then Corruption ''WriteBatch has wrong count'' else OK, h))"

text \<open>The state of a \<^verbatim>\<open>MemTableInserter\<close> is its sequence number and its table\<close>
definition Inserter_Put :: "vch_t \<Rightarrow> vch_t \<Rightarrow> u64 \<times> memtable \<Rightarrow> (u64 \<times> memtable) option" where
  "Inserter_Put key value h = (case h of (sequence, mem) \<Rightarrow> do { mem \<leftarrow> MemTable_Add sequence kTypeValue key value mem; Some (sequence + 1, mem) })"

definition Inserter_Delete :: "vch_t \<Rightarrow> u64 \<times> memtable \<Rightarrow> (u64 \<times> memtable) option" where
  "Inserter_Delete key h = (case h of (sequence, mem) \<Rightarrow> do { mem \<leftarrow> MemTable_Add sequence kTypeDeletion key [] mem; Some (sequence + 1, mem) })"

definition InsertInto :: "write_batch \<Rightarrow> memtable \<Rightarrow> (batch_status \<times> memtable) option" where
  "InsertInto b memtable =
     do { (status, (sequence, mem)) \<leftarrow> WriteBatch_Iterate Inserter_Put Inserter_Delete b (Batch_Sequence b, memtable); Some (status, mem) }"

section \<open>The order of entries\<close>

text \<open>A write with its sequence number\<close>
record write_entry =
  we_seq :: u64
  we_type :: ValueType
  we_key :: vch_t
  we_value :: vch_t

definition entry_key :: "vch_t \<Rightarrow> u64 \<Rightarrow> ValueType \<Rightarrow> vch_t" where
  "entry_key key seq t = key @ EncodeFixed64 (PackSequenceAndType seq t)"

definition entry_bytes :: "write_entry \<Rightarrow> vch_t" where
  "entry_bytes e = EncodeVarint32 (of_nat (length (we_key e) + 8)) @ entry_key (we_key e) (we_seq e) (we_type e)
     @ EncodeVarint32 (of_nat (length (we_value e))) @ we_value e"

definition write_ok :: "write_entry \<Rightarrow> bool" where
  "write_ok e \<longleftrightarrow> we_seq e \<le> kMaxSequenceNumber \<and> length (we_key e) + 8 < 2 ^ 32 \<and> length (we_value e) < 2 ^ 32"

definition valid_entry :: "vch_t \<Rightarrow> bool" where
  "valid_entry a \<longleftrightarrow> (\<exists>k. entry_slice a = Some k \<and> 8 \<le> length k)"

lemma entry_varint [simp]: "entry_varint (EncodeVarint32 v @ rest) = Some (v, rest)"
proof -
  have "GetVarint32Ptr (EncodeVarint32 v @ take (5 - length (EncodeVarint32 v)) rest) = Some (v, take (5 - length (EncodeVarint32 v)) rest)"
    using get_varint32 [unfolded GetVarint32_def] by blast
  then show ?thesis using length_EncodeVarint32 [of v] by (simp add: entry_varint_def min_def)
qed

lemma entry_slice: "n < 2 ^ 32 \<Longrightarrow> length k = n \<Longrightarrow> entry_slice (EncodeVarint32 (of_nat n) @ k @ rest) = Some k"
  by (auto simp: entry_slice_def unat_of_nat take_bit_nat_eq_self)

lemma length_entry_key [simp]: "length (entry_key key seq t) = length key + 8"
  by (simp add: entry_key_def)

lemma slice_entry [simp]: "write_ok e \<Longrightarrow> entry_slice (entry_bytes e) = Some (entry_key (we_key e) (we_seq e) (we_type e))"
  unfolding entry_bytes_def write_ok_def by (rule entry_slice) simp_all

lemma valid_entry_bytes: "write_ok e \<Longrightarrow> valid_entry (entry_bytes e)"
  by (simp add: valid_entry_def)

interpretation entries: key_order KeyComparator valid_entry
proof unfold_locales
  fix a b
  assume "valid_entry a" "valid_entry b"
  then show "0 < KeyComparator a b \<longleftrightarrow> KeyComparator b a < 0"
    using user_bytes.internal_flip by (auto simp: valid_entry_def KeyComparator_def)
next
  fix a b c
  assume v: "valid_entry a" "valid_entry b" "valid_entry c" and le: "KeyComparator a b \<le> 0" "KeyComparator b c \<le> 0"
  obtain k l m where "entry_slice a = Some k" "entry_slice b = Some l" "entry_slice c = Some m" "8 \<le> length k" "8 \<le> length l" "8 \<le> length m"
    using v unfolding valid_entry_def by blast
  then show "KeyComparator a c \<le> 0" using user_bytes.internal_le_trans [of k l m] le by (simp add: KeyComparator_def)
qed

lemma compare_entry_keys: "internal_compare (entry_key u s t) (entry_key u' s' t') < 0 \<longleftrightarrow>
    u < u' \<or> u = u' \<and> PackSequenceAndType s' t' < PackSequenceAndType s t"
  "internal_compare (entry_key u s t) (entry_key u' s' t') = 0 \<longleftrightarrow> u = u' \<and> PackSequenceAndType s' t' = PackSequenceAndType s t"
  unfolding user_bytes.internal_sign entry_key_def Bytewise_Compare_def slice_compare_order by auto

section \<open>What a table holds\<close>

text \<open>The table holds the writes \<open>es\<close>, the latest last\<close>
definition mem_holds :: "memtable \<Rightarrow> write_entry list \<Rightarrow> bool" where
  "mem_holds table es \<longleftrightarrow> (\<forall>e\<in>set es. write_ok e) \<and> sorted_wrt (\<lambda>e f. we_seq e < we_seq f) es
     \<and> (\<exists>ks. entries.holds table ks \<and> set ks = entry_bytes ` set es)"

lemma mem_holds_new: "mem_holds MemTable_new []"
  unfolding mem_holds_def MemTable_new_def using entries.holds_new by fastforce

lemma varint_length: "n < 2 ^ 32 \<Longrightarrow> length (EncodeVarint32 (of_nat n)) = VarintLength (of_nat n)"
  by (simp add: varint_length_groups encode32_groups unat_of_nat take_bit_nat_eq_self)

lemma add_runs: "write_ok e \<Longrightarrow> MemTable_Add (we_seq e) (we_type e) (we_key e) (we_value e) table = SkipList_Insert KeyComparator (entry_bytes e) table"
  using varint_length [of "length (we_key e) + 8"] varint_length [of "length (we_value e)"]
  by (simp add: write_ok_def MemTable_Add_def entry_bytes_def entry_key_def PackSequenceAndType_def)

lemma different_entries: "write_ok e \<Longrightarrow> write_ok f \<Longrightarrow> we_seq e \<noteq> we_seq f \<Longrightarrow> KeyComparator (entry_bytes e) (entry_bytes f) \<noteq> 0"
  by (auto simp: KeyComparator_def compare_entry_keys pack_inject write_ok_def)

lemma mem_holds_add:
  assumes "mem_holds table es" and e: "write_ok e" and "\<forall>f\<in>set es. we_seq f < we_seq e"
  shows "\<exists>t. MemTable_Add (we_seq e) (we_type e) (we_key e) (we_value e) table = Some t \<and> mem_holds t (es @ [e])"
proof -
  obtain ks where ks: "entries.holds table ks" "set ks = entry_bytes ` set es" and es: "\<forall>f\<in>set es. write_ok f" "sorted_wrt (\<lambda>e f. we_seq e < we_seq f) es"
    using assms(1) by (auto simp: mem_holds_def)
  have "\<forall>k\<in>set ks. KeyComparator (entry_bytes e) k \<noteq> 0" using ks(2) es(1) e assms(3) different_entries by fastforce
  from entries.holds_insert [OF ks(1) valid_entry_bytes [OF e] this] obtain t where
    t: "SkipList_Insert KeyComparator (entry_bytes e) table = Some t"
      "entries.holds t (takeWhile (\<lambda>k. KeyComparator k (entry_bytes e) < 0) ks @ entry_bytes e # dropWhile (\<lambda>k. KeyComparator k (entry_bytes e) < 0) ks)" by blast
  have "set (takeWhile P ks @ k # dropWhile P ks) = insert k (set ks)" for P k
    by (metis Un_insert_right list.simps(15) set_append takeWhile_dropWhile_id)
  then have "\<exists>ks. entries.holds t ks \<and> set ks = entry_bytes ` set (es @ [e])" using t(2) ks(2) by (intro exI conjI) auto
  then have "mem_holds t (es @ [e])" unfolding mem_holds_def using es e assms(3) by (auto simp: sorted_wrt_append)
  then show ?thesis using t(1) add_runs [OF e] by simp
qed

section \<open>Reading a table\<close>

text \<open>The latest of the writes of a key that a snapshot sees\<close>
definition visible :: "vch_t \<Rightarrow> u64 \<Rightarrow> write_entry list \<Rightarrow> write_entry list" where
  "visible key s es = filter (\<lambda>e. we_key e = key \<and> we_seq e \<le> s) es"

definition read_result :: "write_entry list \<Rightarrow> get_result" where
  "read_result es = (if es = [] then Unknown else case we_type (last es) of kTypeValue \<Rightarrow> Value (we_value (last es)) | kTypeDeletion \<Rightarrow> Deleted)"

lemma lookup_key: "memtable_key (LookupKey_new key s) = EncodeVarint32 (of_nat (length key + 8)) @ entry_key key s kValueTypeForSeek"
  "lookup_user_key (LookupKey_new key s) = key"
  by (simp_all add: memtable_key_def lookup_user_key_def LookupKey_new_def entry_key_def Let_def)

lemma slice_lookup: "length key + 8 < 2 ^ 32 \<Longrightarrow> entry_slice (memtable_key (LookupKey_new key s)) = Some (entry_key key s kValueTypeForSeek)"
  using entry_slice [of "length key + 8" "entry_key key s kValueTypeForSeek" "[]"] by (simp only: lookup_key length_entry_key append_Nil2)

lemma before_lookup: "write_ok e \<Longrightarrow> s \<le> kMaxSequenceNumber \<Longrightarrow> length key + 8 < 2 ^ 32 \<Longrightarrow>
    KeyComparator (entry_bytes e) (memtable_key (LookupKey_new key s)) < 0 \<longleftrightarrow> we_key e < key \<or> we_key e = key \<and> s < we_seq e"
  using pack_order [of "we_seq e" s "we_type e"] by (auto simp: KeyComparator_def slice_lookup compare_entry_keys write_ok_def)

lemma dropWhile_first:
  assumes "sorted_wrt R ks" and "k \<in> set ks" and "\<not> P k" and "\<And>l. l \<in> set ks \<Longrightarrow> R l k \<Longrightarrow> P l"
  shows "first (dropWhile P ks) = Some k"
  using assms
proof (induction ks)
  case (Cons l ks)
  show ?case
  proof (cases "l = k")
    case False
    then show ?thesis using Cons by auto
  qed (use Cons.prems in auto)
qed simp

lemma dropWhile_first_in: "first (dropWhile P ks) = Some k \<Longrightarrow> k \<in> set ks \<and> \<not> P k"
  by (induction ks) (auto split: if_splits)

text \<open>What \<^verbatim>\<open>Get\<close> makes of the entry that the search found\<close>
lemma get_entry:
  assumes "write_ok e" and "Iter_Seek KeyComparator table (memtable_key (LookupKey_new key s)) = Some it" and "sl_at table it (Some (entry_bytes e))"
  shows "MemTable_Get (LookupKey_new key s) table = Some (if we_key e = key then read_result [e] else Unknown)"
proof -
  define kl where "kl = (of_nat (length (we_key e) + 8) :: u32)"
  define kp where "kp = entry_key (we_key e) (we_seq e) (we_type e) @ EncodeVarint32 (of_nat (length (we_value e))) @ we_value e"
  have "unat kl = length (we_key e) + 8" unfolding kl_def using assms(1) by (simp only: write_ok_def unat_of_nat take_bit_nat_eq_self) simp
  then have parts: "take (unat kl - 8) kp = we_key e" "DecodeFixed64 (drop (unat kl - 8) kp) = PackSequenceAndType (we_seq e) (we_type e)"
    "drop (unat kl) kp = EncodeVarint32 (of_nat (length (we_value e))) @ we_value e"
    by (simp_all add: kp_def entry_key_def)
  have v: "entry_varint (entry_bytes e) = Some (kl, kp)" unfolding entry_bytes_def kl_def kp_def by (rule entry_varint)
  have "entry_slice (EncodeVarint32 (of_nat (length (we_value e))) @ we_value e) = Some (we_value e)"
    using entry_slice [of "length (we_value e)" "we_value e" "[]"] assms(1) by (simp add: write_ok_def)
  moreover have "Iter_Valid it" "Iter_key table it = Some (entry_bytes e)" using assms(3) by (auto simp: sl_at_def)
  moreover have "type_of_byte (ucast (PackSequenceAndType (we_seq e) (we_type e) AND 255)) = Some (we_type e)" using assms(1) by (simp add: write_ok_def pack_unpack)
  ultimately show ?thesis unfolding MemTable_Get_def Let_def
    by (simp add: assms(2) v parts lookup_key(2) Bytewise_Compare_def slice_compare_order read_result_def split: ValueType.splits)
qed

lemma visible_last:
  assumes "sorted_wrt (\<lambda>e f. we_seq e < we_seq f) es" and "visible key s es \<noteq> []"
  defines "e \<equiv> last (visible key s es)"
  shows "e \<in> set es" and "we_key e = key" and "we_seq e \<le> s" and "\<And>f. f \<in> set es \<Longrightarrow> we_key f = key \<Longrightarrow> we_seq f \<le> s \<Longrightarrow> we_seq f \<le> we_seq e"
proof -
  have "e \<in> set (visible key s es)" using assms(2) by (simp add: e_def)
  then show "e \<in> set es" "we_key e = key" "we_seq e \<le> s" by (auto simp: visible_def)
  fix f assume "f \<in> set es" "we_key f = key" "we_seq f \<le> s"
  then have f: "f \<in> set (visible key s es)" by (simp add: visible_def)
  obtain fs where fs: "visible key s es = fs @ [e]" using assms(2) by (metis append_butlast_last_id e_def)
  have "sorted_wrt (\<lambda>e f. we_seq e < we_seq f) (fs @ [e])" unfolding fs [symmetric] visible_def by (rule sorted_wrt_filter [OF assms(1)])
  then show "we_seq f \<le> we_seq e" using f fs by (auto simp: sorted_wrt_append)
qed

lemma seq_inject: "sorted_wrt (\<lambda>e f. we_seq e < we_seq f) es \<Longrightarrow> e \<in> set es \<Longrightarrow> f \<in> set es \<Longrightarrow> we_seq e = we_seq f \<Longrightarrow> e = f"
  by (induction es) auto

lemma entries_less:
  assumes "sorted_wrt (\<lambda>e f. we_seq e < we_seq f) es" and e: "e \<in> set es" and f: "f \<in> set es" and ok: "write_ok e" "write_ok f"
    and less: "KeyComparator (entry_bytes e) (entry_bytes f) < 0"
  shows "we_key e < we_key f \<or> we_key e = we_key f \<and> we_seq f < we_seq e"
proof -
  have "we_key e < we_key f \<or> we_key e = we_key f \<and> PackSequenceAndType (we_seq f) (we_type f) < PackSequenceAndType (we_seq e) (we_type e)"
    using less ok by (simp add: KeyComparator_def compare_entry_keys)
  moreover have "we_seq e \<noteq> we_seq f" using seq_inject [OF assms(1) e f] entries.refl [OF valid_entry_bytes [OF ok(1)]] less by auto
  ultimately show ?thesis using ok by (cases "we_type e"; cases "we_type f") (auto simp: word_less_nat_alt word_unat_eq_iff pack_nat write_ok_def)
qed

lemma mem_get:
  assumes "mem_holds table es" and s: "s \<le> kMaxSequenceNumber" and key: "length key + 8 < 2 ^ 32"
  shows "MemTable_Get (LookupKey_new key s) table = Some (read_result (visible key s es))"
proof -
  let ?m = "memtable_key (LookupKey_new key s)"
  obtain ks where ks: "entries.holds table ks" "set ks = entry_bytes ` set es" and es: "\<And>f. f \<in> set es \<Longrightarrow> write_ok f" "sorted_wrt (\<lambda>e f. we_seq e < we_seq f) es"
    using assms(1) by (auto simp: mem_holds_def)
  have "valid_entry ?m" using slice_lookup [OF key] by (simp add: valid_entry_def)
  then obtain it where it: "Iter_Seek KeyComparator table ?m = Some it" "sl_at table it (first (dropWhile (\<lambda>k. KeyComparator k ?m < 0) ks))"
    using entries.holds_seek [OF ks(1)] by blast
  show ?thesis
  proof (cases "visible key s es = []")
    case True
    show ?thesis
    proof (cases "first (dropWhile (\<lambda>k. KeyComparator k ?m < 0) ks)")
      case None
      then show ?thesis using it True by (simp add: MemTable_Get_def sl_at_def read_result_def)
    next
      case (Some k)
      from dropWhile_first_in [OF Some] ks(2) obtain e where e: "e \<in> set es" "k = entry_bytes e" "\<not> KeyComparator (entry_bytes e) ?m < 0" by auto
      then have "we_key e \<noteq> key" using True before_lookup [OF es(1) s key] by (auto simp: visible_def filter_empty_conv)
      then show ?thesis using get_entry [OF es(1) [OF e(1)] it(1)] it(2) Some e(2) True by (simp add: read_result_def)
    qed
  next
    case False
    let ?e = "last (visible key s es)"
    note e = visible_last [OF es(2) False]
    have "first (dropWhile (\<lambda>k. KeyComparator k ?m < 0) ks) = Some (entry_bytes ?e)"
    proof (rule dropWhile_first [where R = "\<lambda>k l. KeyComparator k l < 0"])
      show "sorted_wrt (\<lambda>k l. KeyComparator k l < 0) ks" using entries.holds_sorted [OF ks(1)] by blast
      show "entry_bytes ?e \<in> set ks" using ks(2) e(1) by blast
      show "\<not> KeyComparator (entry_bytes ?e) ?m < 0" using before_lookup [OF es(1) [OF e(1)] s key] e by auto
    next
      fix l assume "l \<in> set ks" and less: "KeyComparator l (entry_bytes ?e) < 0"
      then obtain f where f: "f \<in> set es" "l = entry_bytes f" using ks(2) by auto
      then have "we_key f < key \<or> we_key f = key \<and> we_seq ?e < we_seq f" using entries_less [OF es(2) f(1) e(1)] es(1) e less by auto
      then show "KeyComparator l ?m < 0" using before_lookup [OF es(1) [OF f(1)] s key] f e(4) [OF f(1)] by (auto simp: not_le [symmetric])
    qed
    then show ?thesis using get_entry [OF es(1) [OF e(1)] it(1)] it(2) e(2) False by (simp add: read_result_def split: ValueType.splits)
  qed
qed


section \<open>Batches\<close>

text \<open>What a batch is for: a sequence of writes\<close>
datatype batch_op = BPut vch_t vch_t | BDelete vch_t

fun op_bytes :: "batch_op \<Rightarrow> vch_t" where
  "op_bytes (BPut key value) = 1 # EncodeVarint32 (of_nat (length key)) @ key @ EncodeVarint32 (of_nat (length value)) @ value"
| "op_bytes (BDelete key) = 0 # EncodeVarint32 (of_nat (length key)) @ key"

fun op_ok :: "batch_op \<Rightarrow> bool" where
  "op_ok (BPut key value) \<longleftrightarrow> length key + 8 < 2 ^ 32 \<and> length value < 2 ^ 32"
| "op_ok (BDelete key) \<longleftrightarrow> length key + 8 < 2 ^ 32"

text \<open>The calls that put the writes into a batch\<close>
fun add_op :: "batch_op \<Rightarrow> write_batch \<Rightarrow> write_batch" where
  "add_op (BPut key value) b = WriteBatch_Put key value b"
| "add_op (BDelete key) b = WriteBatch_Delete key b"

definition ops_batch :: "u64 \<Rightarrow> batch_op list \<Rightarrow> write_batch" where
  "ops_batch seq ops = EncodeFixed64 seq @ EncodeFixed32 (of_nat (length ops)) @ concat (map op_bytes ops)"

lemma clear_batch: "WriteBatch_Clear = ops_batch 0 []"
proof -
  have "le_bytes n 0 = replicate n 0" for n using le_bytes_bytes_val [of "replicate n 0" n] by (simp add: bytes_val_def)
  then show ?thesis by (simp add: WriteBatch_Clear_def ops_batch_def kHeader_def EncodeFixed64_def EncodeFixed32_def flip: replicate_add)
qed

lemma batch_fields [simp]: "Batch_Sequence (ops_batch seq ops) = seq" "Batch_Count (ops_batch seq ops) = of_nat (length ops)"
  "drop kHeader (ops_batch seq ops) = concat (map op_bytes ops)" "kHeader \<le> length (ops_batch seq ops)"
  by (simp_all add: Batch_Sequence_def Batch_Count_def ops_batch_def kHeader_def)

lemma set_count: "Batch_SetCount n (ops_batch seq ops) = EncodeFixed64 seq @ EncodeFixed32 n @ concat (map op_bytes ops)"
  by (simp add: Batch_SetCount_def ops_batch_def)

lemma add_op_batch: "add_op op (ops_batch seq ops) = ops_batch seq (ops @ [op])"
  by (cases op) (simp_all add: WriteBatch_Put_def WriteBatch_Delete_def set_count PutLengthPrefixedSlice_def PutVarint32_def Let_def, simp_all add: ops_batch_def add.commute)

lemma built_batch: "fold add_op ops WriteBatch_Clear = ops_batch 0 ops"
proof -
  have "fold add_op ops (ops_batch 0 ops') = ops_batch 0 (ops' @ ops)" for ops' by (induction ops arbitrary: ops') (simp_all add: add_op_batch)
  then show ?thesis by (simp add: clear_batch)
qed

lemma set_sequence: "Batch_SetSequence seq (ops_batch s ops) = ops_batch seq ops"
  by (simp add: Batch_SetSequence_def ops_batch_def)

lemma append_batch: "Batch_Append (ops_batch s ops) (ops_batch s' ops') = Some (ops_batch s (ops @ ops'))"
  by (simp add: Batch_Append_def set_count Let_def) (simp add: ops_batch_def)

text \<open>The calls that a batch makes of its handler\<close>
fun run_ops :: "(vch_t \<Rightarrow> vch_t \<Rightarrow> 'h \<Rightarrow> 'h option) \<Rightarrow> (vch_t \<Rightarrow> 'h \<Rightarrow> 'h option) \<Rightarrow> batch_op list \<Rightarrow> 'h \<Rightarrow> 'h option" where
  "run_ops put del [] h = Some h"
| "run_ops put del (BPut key value # ops) h = do { h \<leftarrow> put key value h; run_ops put del ops h }"
| "run_ops put del (BDelete key # ops) h = do { h \<leftarrow> del key h; run_ops put del ops h }"

lemma iterate_loop: "list_all op_ok ops \<Longrightarrow> Iterate_loop put del found (concat (map op_bytes ops)) h = map_option (\<lambda>h. (Inr (found + length ops), h)) (run_ops put del ops h)"
proof (induction ops arbitrary: found h)
  case (Cons op ops)
  then show ?case by (cases op) (auto split: option.splits)
qed simp

lemma iterate_batch: "list_all op_ok ops \<Longrightarrow> WriteBatch_Iterate put del (ops_batch seq ops) h = map_option (\<lambda>h. (OK, h)) (run_ops put del ops h)"
  using batch_fields(4) [of seq ops] by (simp add: WriteBatch_Iterate_def iterate_loop not_less split: option.splits)

fun op_entry :: "u64 \<Rightarrow> batch_op \<Rightarrow> write_entry" where
  "op_entry seq (BPut key value) = \<lparr>we_seq = seq, we_type = kTypeValue, we_key = key, we_value = value\<rparr>"
| "op_entry seq (BDelete key) = \<lparr>we_seq = seq, we_type = kTypeDeletion, we_key = key, we_value = []\<rparr>"

text \<open>The writes of a batch get consecutive sequence numbers\<close>
fun numbered :: "u64 \<Rightarrow> batch_op list \<Rightarrow> write_entry list" where
  "numbered seq [] = []"
| "numbered seq (op # ops) = op_entry seq op # numbered (seq + 1) ops"

lemma unat_max_sequence: "unat kMaxSequenceNumber = 72057594037927935"
  by (simp add: kMaxSequenceNumber_def)

lemma inserter_calls: "Inserter_Put key value (seq, mem) = map_option (Pair (seq + 1)) (MemTable_Add seq kTypeValue key value mem)"
  "Inserter_Delete key (seq, mem) = map_option (Pair (seq + 1)) (MemTable_Add seq kTypeDeletion key [] mem)"
  by (simp_all add: Inserter_Put_def Inserter_Delete_def map_conv_bind_option comp_def)

lemma run_inserter:
  assumes "mem_holds mem es" and "\<forall>e\<in>set es. we_seq e < seq" and "list_all op_ok ops" and "unat seq + length ops \<le> 2 ^ 56"
  shows "\<exists>mem'. run_ops Inserter_Put Inserter_Delete ops (seq, mem) = Some (seq + of_nat (length ops), mem') \<and> mem_holds mem' (es @ numbered seq ops)"
  using assms
proof (induction ops arbitrary: seq mem es)
  case (Cons op ops)
  let ?e = "op_entry seq op"
  have s: "unat (seq + 1) = unat seq + 1" using Cons.prems(4) by (simp add: unat_word_ariths)
  have e: "write_ok ?e" "we_seq ?e = seq" using Cons.prems by (cases op; simp add: write_ok_def word_le_nat_alt unat_max_sequence)+
  obtain mem' where mem': "MemTable_Add (we_seq ?e) (we_type ?e) (we_key ?e) (we_value ?e) mem = Some mem'" "mem_holds mem' (es @ [?e])"
    using mem_holds_add [OF Cons.prems(1) e(1)] Cons.prems(2) e(2) by auto
  have "\<forall>f\<in>set (es @ [?e]). we_seq f < seq + 1" using Cons.prems(2) e(2) s by (auto simp: word_less_nat_alt)
  then have "\<exists>m. run_ops Inserter_Put Inserter_Delete ops (seq + 1, mem') = Some (seq + 1 + of_nat (length ops), m) \<and> mem_holds m ((es @ [?e]) @ numbered (seq + 1) ops)"
    using Cons.prems s mem'(2) by (intro Cons.IH) simp_all
  then show ?case using mem'(1) by (cases op) (auto simp: inserter_calls algebra_simps)
qed simp


section \<open>Writing and reading\<close>

text \<open>What the last of some writes says of a key\<close>
fun op_result :: "vch_t \<Rightarrow> batch_op \<Rightarrow> get_result \<Rightarrow> get_result" where
  "op_result key (BPut k v) r = (if k = key then Value v else r)"
| "op_result key (BDelete k) r = (if k = key then Deleted else r)"

definition read_ops :: "vch_t \<Rightarrow> batch_op list \<Rightarrow> get_result" where
  "read_ops key ops = fold (op_result key) ops Unknown"

lemma numbered_append: "numbered seq (ops @ [op]) = numbered seq ops @ [op_entry (seq + of_nat (length ops)) op]"
  by (induction ops arbitrary: seq) (simp_all add: algebra_simps)

lemma read_result_append: "read_result (es @ [e]) = (case we_type e of kTypeValue \<Rightarrow> Value (we_value e) | kTypeDeletion \<Rightarrow> Deleted)"
  by (simp add: read_result_def split: ValueType.splits)

lemma read_numbered:
  assumes "unat seq + length ops \<le> 2 ^ 56"
  shows "read_result (visible key s (numbered seq ops)) = read_ops key (take (unat s + 1 - unat seq) ops)"
  using assms
proof (induction ops rule: rev_induct)
  case Nil
  then show ?case by (simp add: visible_def read_result_def read_ops_def)
next
  case (snoc op ops)
  have n: "unat (seq + of_nat (length ops)) = unat seq + length ops" using snoc.prems by (simp add: unat_word_ariths unat_of_nat take_bit_nat_eq_self)
  have IH: "read_result (visible key s (numbered seq ops)) = read_ops key (take (unat s + 1 - unat seq) ops)" using snoc by simp
  show ?case
  proof (cases "unat seq + length ops \<le> unat s")
    case True
    then have t: "take (unat s + 1 - unat seq) (ops @ [op]) = ops @ [op]" "take (unat s + 1 - unat seq) ops = ops" by simp_all
    have "seq + of_nat (length ops) \<le> s" using True n by (simp add: word_le_nat_alt)
    then show ?thesis unfolding t using IH t(2) by (cases op) (auto simp: numbered_append visible_def read_result_append read_ops_def)
  next
    case False
    then have "take (unat s + 1 - unat seq) (ops @ [op]) = take (unat s + 1 - unat seq) ops" by simp
    moreover have "\<not> seq + of_nat (length ops) \<le> s" using False n by (simp add: word_le_nat_alt)
    ultimately show ?thesis using IH by (cases op) (auto simp: numbered_append visible_def)
  qed
qed

lemma insert_into: "mem_holds mem es \<Longrightarrow> \<forall>e\<in>set es. we_seq e < seq \<Longrightarrow> list_all op_ok ops \<Longrightarrow> unat seq + length ops \<le> 2 ^ 56 \<Longrightarrow>
    \<exists>mem'. InsertInto (ops_batch seq ops) mem = Some (OK, mem') \<and> mem_holds mem' (es @ numbered seq ops)"
  using run_inserter [of mem es seq ops] by (auto simp: InsertInto_def iterate_batch)

text \<open>
  C18. A memory table keeps every version of a key: when a batch of writes is inserted into an empty table, a lookup of any key at any snapshot
  sees what the last write of the key up to that snapshot says, and no later write.  The bytes of the batch decode to the writes that were
  put into it, its count agrees with them, and no search in the skip list fails.
\<close>
theorem memtable_snapshots:
  assumes "list_all op_ok ops" and "unat seq + length ops \<le> 2 ^ 56"
  shows "\<exists>mem. InsertInto (Batch_SetSequence seq (fold add_op ops WriteBatch_Clear)) MemTable_new = Some (OK, mem)
    \<and> (\<forall>key s. length key + 8 < 2 ^ 32 \<longrightarrow> s \<le> kMaxSequenceNumber \<longrightarrow>
         MemTable_Get (LookupKey_new key s) mem = Some (read_ops key (take (unat s + 1 - unat seq) ops)))"
proof -
  obtain mem where mem: "InsertInto (ops_batch seq ops) MemTable_new = Some (OK, mem)" "mem_holds mem (numbered seq ops)"
    using insert_into [OF mem_holds_new _ assms] by auto
  then show ?thesis using mem_get [OF mem(2)] read_numbered [OF assms(2)] by (auto simp: built_batch set_sequence)
qed

theorem memtable_snapshots_witness:
  "\<exists>mem. InsertInto (Batch_SetSequence 7 (WriteBatch_Delete [97] (WriteBatch_Put [97] [1] WriteBatch_Clear))) MemTable_new = Some (OK, mem)
    \<and> MemTable_Get (LookupKey_new [97] 6) mem = Some Unknown \<and> MemTable_Get (LookupKey_new [97] 7) mem = Some (Value [1])
    \<and> MemTable_Get (LookupKey_new [97] 8) mem = Some Deleted"
proof -
  obtain mem where "InsertInto (Batch_SetSequence 7 (WriteBatch_Delete [97] (WriteBatch_Put [97] [1] WriteBatch_Clear))) MemTable_new = Some (OK, mem)"
    and get: "\<And>key s. length key + 8 < 2 ^ 32 \<Longrightarrow> s \<le> kMaxSequenceNumber \<Longrightarrow>
      MemTable_Get (LookupKey_new key s) mem = Some (read_ops key (take (unat s + 1 - unat (7 :: u64)) [BPut [97] [1], BDelete [97]]))"
    using memtable_snapshots [of "[BPut [97] [1], BDelete [97]]" 7] by auto
  then show ?thesis using get [of "[97]" 6] get [of "[97]" 7] get [of "[97]" 8] by (auto simp: read_ops_def kMaxSequenceNumber_def)
qed


end
