(* ===== verification/MemEnv.thy ===== *)
theory MemEnv
  imports LevelFormat
begin

text \<open>
  The files of LevelDB in memory (\<^verbatim>\<open>src/leveldb/helpers/memenv/memenv.cc\<close>), which \<^verbatim>\<open>leveldbwrapper.cpp\<close> uses for a database that is not
  to be stored: files as lists of blocks, sequential and random reading, and the map from names to files.  A pointer to a \<^verbatim>\<open>FileState\<close> is
  an index of a heap that holds the state with its reference count; \<^verbatim>\<open>NULL\<close> is \<open>None\<close>, and following it or a freed pointer is \<open>None\<close> as
  the result.  What the log relies on is the locale \<open>file_interface\<close>.
\<close>

section \<open>Files\<close>

definition kFileBlockSize :: nat where
  "kFileBlockSize = 8 * 1024"

record FileState =
  fs_blocks :: "vch_t list"
  fs_size :: nat

definition FileState_new :: FileState where
  "FileState_new = \<lparr>fs_blocks = [], fs_size = 0\<rparr>"

text \<open>The copying loop of \<^verbatim>\<open>Read\<close>: from a place of a block on, into the scratch area\<close>
function copy_loop :: "vch_t list \<Rightarrow> nat \<Rightarrow> nat \<Rightarrow> nat \<Rightarrow> vch_t" where
  "copy_loop blocks block block_offset bytes_to_copy =
     (if bytes_to_copy > 0 \<and> block_offset < kFileBlockSize
      then let avail = min (kFileBlockSize - block_offset) bytes_to_copy
           in take avail (drop block_offset (blocks ! block)) @ copy_loop blocks (block + 1) 0 (bytes_to_copy - avail)
      else [])"
  by pat_completeness auto
termination
  by (relation "measure (\<lambda>(blocks, block, block_offset, bytes_to_copy). bytes_to_copy)") (auto simp: kFileBlockSize_def)

text \<open>The bytes read, or \<open>None\<close> for \<^verbatim>\<open>Status::IOError\<close>\<close>
definition FileState_Read :: "FileState \<Rightarrow> nat \<Rightarrow> nat \<Rightarrow> vch_t option" where
  "FileState_Read f offset n =
     (if offset > fs_size f then None
      else let available = fs_size f - offset;
               n = (if n > available then available else n)
           in if n = 0 then Some []
              else let block = offset div kFileBlockSize;
                       block_offset = offset mod kFileBlockSize
                   in if n \<le> kFileBlockSize - block_offset then Some (take n (drop block_offset (fs_blocks f ! block)))
                      else Some (copy_loop (fs_blocks f) block block_offset n))"

text \<open>\<^verbatim>\<open>memcpy\<close> into a block\<close>
definition overwrite :: "vch_t \<Rightarrow> nat \<Rightarrow> vch_t \<Rightarrow> vch_t" where
  "overwrite b offset src = take offset b @ src @ drop (offset + length src) b"

text \<open>A new block is zero here; its bytes beyond the size of the file are never read\<close>
function FileState_Append :: "FileState \<Rightarrow> vch_t \<Rightarrow> FileState" where
  "FileState_Append f src =
     (if src = [] then f
      else let offset = fs_size f mod kFileBlockSize;
               blocks = (if offset \<noteq> 0 then fs_blocks f else fs_blocks f @ [replicate kFileBlockSize 0]);
               avail = (if offset \<noteq> 0 then kFileBlockSize - offset else kFileBlockSize);
               avail = (if avail > length src then length src else avail);
               blocks = blocks[length blocks - 1 := overwrite (last blocks) offset (take avail src)]
           in FileState_Append (f\<lparr>fs_blocks := blocks, fs_size := fs_size f + avail\<rparr>) (drop avail src))"
  by pat_completeness auto
termination
  by (relation "measure (\<lambda>(f, src). length src)") (auto simp: kFileBlockSize_def Let_def)

declare copy_loop.simps [simp del] FileState_Append.simps [simp del]

record SequentialFileImpl =
  sf_file :: FileState
  sf_pos :: nat

definition Sequential_new :: "FileState \<Rightarrow> SequentialFileImpl" where
  "Sequential_new f = \<lparr>sf_file = f, sf_pos = 0\<rparr>"

text \<open>Whether the status is ok, the bytes and the file\<close>
definition Sequential_Read :: "SequentialFileImpl \<Rightarrow> nat \<Rightarrow> bool \<times> vch_t \<times> SequentialFileImpl" where
  "Sequential_Read s n =
     (case FileState_Read (sf_file s) (sf_pos s) n of None \<Rightarrow> (False, [], s)
      | Some result \<Rightarrow> (True, result, s\<lparr>sf_pos := sf_pos s + length result\<rparr>))"

definition Sequential_Skip :: "SequentialFileImpl \<Rightarrow> nat \<Rightarrow> bool \<times> SequentialFileImpl" where
  "Sequential_Skip s n =
     (if sf_pos s > fs_size (sf_file s) then (False, s)
      else let available = fs_size (sf_file s) - sf_pos s;
               n = (if n > available then available else n)
           in (True, s\<lparr>sf_pos := sf_pos s + n\<rparr>))"

definition RandomAccess_Read :: "FileState \<Rightarrow> nat \<Rightarrow> nat \<Rightarrow> vch_t option" where
  "RandomAccess_Read f offset n = FileState_Read f offset n"

definition Writable_Append :: "FileState \<Rightarrow> vch_t \<Rightarrow> bool \<times> FileState" where
  "Writable_Append f data = (True, FileState_Append f data)"

definition Writable_Flush :: "FileState \<Rightarrow> bool \<times> FileState" where
  "Writable_Flush f = (True, f)"

definition Writable_Sync :: "FileState \<Rightarrow> bool \<times> FileState" where
  "Writable_Sync f = (True, f)"

section \<open>The file system\<close>

text \<open>The heap of file states with their reference counts, and the map from names to pointers\<close>
record InMemoryEnv =
  me_heap :: "nat \<Rightarrow> (nat \<times> FileState) option"
  me_fresh :: nat
  file_map :: "string \<Rightarrow> nat option option"

definition InMemoryEnv_new :: InMemoryEnv where
  "InMemoryEnv_new = \<lparr>me_heap = Map.empty, me_fresh = 0, file_map = Map.empty\<rparr>"

text \<open>\<^verbatim>\<open>new FileState()\<close>\<close>
definition alloc_file :: "InMemoryEnv \<Rightarrow> nat \<times> InMemoryEnv" where
  "alloc_file e = (me_fresh e, e\<lparr>me_heap := (me_heap e)(me_fresh e \<mapsto> (0, FileState_new)), me_fresh := me_fresh e + 1\<rparr>)"

definition FileState_Ref :: "nat option \<Rightarrow> InMemoryEnv \<Rightarrow> InMemoryEnv option" where
  "FileState_Ref p e = do { p \<leftarrow> p; (refs, f) \<leftarrow> me_heap e p; Some (e\<lparr>me_heap := (me_heap e)(p \<mapsto> (refs + 1, f))\<rparr>) }"

definition FileState_Unref :: "nat option \<Rightarrow> InMemoryEnv \<Rightarrow> InMemoryEnv option" where
  "FileState_Unref p e =
     do { p \<leftarrow> p; (refs, f) \<leftarrow> me_heap e p;
          if refs = 0 then None
          else Some (e\<lparr>me_heap := (me_heap e)(p := if refs - 1 = 0 then None else Some (refs - 1, f))\<rparr>) }"

definition DeleteFileInternal :: "string \<Rightarrow> InMemoryEnv \<Rightarrow> InMemoryEnv option" where
  "DeleteFileInternal fname e =
     (case file_map e fname of None \<Rightarrow> Some e
      | Some p \<Rightarrow> do { e \<leftarrow> FileState_Unref p e; Some (e\<lparr>file_map := (file_map e)(fname := None)\<rparr>) })"

text \<open>A file opened for reading or writing is a pointer; the constructor of the handle takes a reference.  \<open>Some None\<close> as the handle is
  \<^verbatim>\<open>IOError\<close>.\<close>
definition NewSequentialFile :: "string \<Rightarrow> InMemoryEnv \<Rightarrow> (nat option \<times> InMemoryEnv) option" where
  "NewSequentialFile fname e =
     (case file_map e fname of None \<Rightarrow> Some (None, e) | Some p \<Rightarrow> do { e \<leftarrow> FileState_Ref p e; Some (p, e) })"

definition NewRandomAccessFile :: "string \<Rightarrow> InMemoryEnv \<Rightarrow> (nat option \<times> InMemoryEnv) option" where
  "NewRandomAccessFile fname e =
     (case file_map e fname of None \<Rightarrow> Some (None, e) | Some p \<Rightarrow> do { e \<leftarrow> FileState_Ref p e; Some (p, e) })"

definition NewWritableFile :: "string \<Rightarrow> InMemoryEnv \<Rightarrow> (nat option \<times> InMemoryEnv) option" where
  "NewWritableFile fname e =
     do { e \<leftarrow> (if file_map e fname \<noteq> None then DeleteFileInternal fname e else Some e);
          let (p, e) = alloc_file e;
          e \<leftarrow> FileState_Ref (Some p) e;
          let e = e\<lparr>file_map := (file_map e)(fname \<mapsto> Some p)\<rparr>;
          e \<leftarrow> FileState_Ref (Some p) e;
          Some (Some p, e) }"

text \<open>\<^verbatim>\<open>&file_map_[fname]\<close> makes an entry with a null pointer where there is none\<close>
definition NewAppendableFile :: "string \<Rightarrow> InMemoryEnv \<Rightarrow> (nat option \<times> InMemoryEnv) option" where
  "NewAppendableFile fname e =
     (let e = (if file_map e fname = None then e\<lparr>file_map := (file_map e)(fname \<mapsto> None)\<rparr> else e);
          p = the (file_map e fname)
      in do { (p, e) \<leftarrow> (case p of
                           None \<Rightarrow> (let (q, e) = alloc_file e in do { e \<leftarrow> FileState_Ref (Some q) e; Some (q, e) })
                         | Some q \<Rightarrow> Some (q, e));
              e \<leftarrow> FileState_Ref (Some p) e;
              Some (Some p, e) })"

definition FileExists :: "string \<Rightarrow> InMemoryEnv \<Rightarrow> bool" where
  "FileExists fname e \<longleftrightarrow> file_map e fname \<noteq> None"

text \<open>The status of the operations that have no other result\<close>
definition DeleteFile :: "string \<Rightarrow> InMemoryEnv \<Rightarrow> (bool \<times> InMemoryEnv) option" where
  "DeleteFile fname e =
     (if file_map e fname = None then Some (False, e) else do { e \<leftarrow> DeleteFileInternal fname e; Some (True, e) })"

definition GetFileSize :: "string \<Rightarrow> InMemoryEnv \<Rightarrow> nat option option" where
  "GetFileSize fname e =
     (case file_map e fname of None \<Rightarrow> Some None
      | Some p \<Rightarrow> do { p \<leftarrow> p; (refs, f) \<leftarrow> me_heap e p; Some (Some (fs_size f)) })"

definition RenameFile :: "string \<Rightarrow> string \<Rightarrow> InMemoryEnv \<Rightarrow> (bool \<times> InMemoryEnv) option" where
  "RenameFile src target e =
     (if file_map e src = None then Some (False, e)
      else do { e \<leftarrow> DeleteFileInternal target e;
                let p = (case file_map e src of None \<Rightarrow> None | Some p \<Rightarrow> p);
                let e = e\<lparr>file_map := (file_map e)(target \<mapsto> p)\<rparr>;
                Some (True, e\<lparr>file_map := (file_map e)(src := None)\<rparr>) })"

text \<open>Writing and reading through a handle\<close>
definition handle_Append :: "nat \<Rightarrow> vch_t \<Rightarrow> InMemoryEnv \<Rightarrow> InMemoryEnv option" where
  "handle_Append p data e =
     do { (refs, f) \<leftarrow> me_heap e p; Some (e\<lparr>me_heap := (me_heap e)(p \<mapsto> (refs, FileState_Append f data))\<rparr>) }"

definition handle_Read :: "nat \<Rightarrow> nat \<Rightarrow> nat \<Rightarrow> InMemoryEnv \<Rightarrow> vch_t option option" where
  "handle_Read p offset n e = do { (refs, f) \<leftarrow> me_heap e p; Some (FileState_Read f offset n) }"

section \<open>What a file holds\<close>

definition file_ok :: "FileState \<Rightarrow> bool" where
  "file_ok f \<longleftrightarrow> (\<forall>b\<in>set (fs_blocks f). length b = kFileBlockSize) \<and> length (fs_blocks f) = fs_size f div kFileBlockSize + (if fs_size f mod kFileBlockSize = 0 then 0 else 1)"

definition file_content :: "FileState \<Rightarrow> vch_t" where
  "file_content f = take (fs_size f) (concat (fs_blocks f))"

lemma length_blocks: "\<forall>b\<in>set bs. length b = k \<Longrightarrow> length (concat bs) = length bs * k"
  by (induction bs) auto

lemma kFileBlockSize_pos [simp]: "0 < kFileBlockSize"
  by (simp add: kFileBlockSize_def)

lemma blocks_cover: "0 < k \<Longrightarrow> n \<le> (n div k + (if n mod k = 0 then 0 else 1)) * k" for n k :: nat
  using dividend_less_times_div [of k n] by (auto simp: algebra_simps)

lemma length_content: "file_ok f \<Longrightarrow> length (file_content f) = fs_size f"
proof -
  assume f: "file_ok f"
  have "length (concat (fs_blocks f)) = length (fs_blocks f) * kFileBlockSize" using f by (intro length_blocks) (simp add: file_ok_def)
  moreover have "fs_size f \<le> length (fs_blocks f) * kFileBlockSize" using f blocks_cover [OF kFileBlockSize_pos] unfolding file_ok_def by metis
  ultimately show ?thesis by (simp add: file_content_def)
qed

text \<open>The block into which \<^verbatim>\<open>Append\<close> writes is the last one, and the rest are full\<close>
lemma append_blocks:
  assumes "file_ok f"
  obtains bs b where "(if fs_size f mod kFileBlockSize \<noteq> 0 then fs_blocks f else fs_blocks f @ [replicate kFileBlockSize 0]) = bs @ [b]"
    and "length bs = fs_size f div kFileBlockSize" and "\<forall>b\<in>set (bs @ [b]). length b = kFileBlockSize"
    and "file_content f = concat bs @ take (fs_size f mod kFileBlockSize) b"
proof (cases "fs_size f mod kFileBlockSize = 0")
  case True
  then have "length (fs_blocks f) = fs_size f div kFileBlockSize" using assms by (simp add: file_ok_def)
  moreover have "file_content f = concat (fs_blocks f)"
  proof -
    have "length (concat (fs_blocks f)) = fs_size f div kFileBlockSize * kFileBlockSize" using calculation length_blocks [of "fs_blocks f" kFileBlockSize] assms by (simp add: file_ok_def)
    also have "\<dots> = fs_size f" using True by (simp add: dvd_div_mult_self mod_eq_0_iff_dvd)
    finally show ?thesis by (simp add: file_content_def)
  qed
  ultimately show ?thesis using that [of "fs_blocks f" "replicate kFileBlockSize 0"] True assms by (auto simp: file_ok_def)
next
  case False
  then have n: "length (fs_blocks f) = Suc (fs_size f div kFileBlockSize)" using assms by (simp add: file_ok_def)
  obtain bs b where b: "fs_blocks f = bs @ [b]" using n by (metis length_Suc_conv_rev)
  then have bs: "length bs = fs_size f div kFileBlockSize" using n by simp
  have all: "\<forall>b\<in>set (bs @ [b]). length b = kFileBlockSize" using assms b by (simp add: file_ok_def)
  have "length (concat bs) = length bs * kFileBlockSize" using all by (intro length_blocks) simp
  then have "file_content f = concat bs @ take (fs_size f - fs_size f div kFileBlockSize * kFileBlockSize) b"
    unfolding bs using bs by (simp add: file_content_def b)
  then have "file_content f = concat bs @ take (fs_size f mod kFileBlockSize) b" by (simp only: minus_div_mult_eq_mod)
  then show ?thesis using that [of bs b] bs b all False by simp
qed

lemma append_step:
  assumes "file_ok f" and "src \<noteq> []"
  defines "offset \<equiv> fs_size f mod kFileBlockSize"
  defines "blocks \<equiv> (if offset \<noteq> 0 then fs_blocks f else fs_blocks f @ [replicate kFileBlockSize 0])"
    and "avail \<equiv> min (kFileBlockSize - offset) (length src)"
  defines "g \<equiv> f\<lparr>fs_blocks := blocks[length blocks - 1 := overwrite (last blocks) offset (take avail src)], fs_size := fs_size f + avail\<rparr>"
  shows "file_ok g \<and> file_content g = file_content f @ take avail src \<and> 0 < avail"
proof -
  obtain bs b where bs: "blocks = bs @ [b]" "length bs = fs_size f div kFileBlockSize" "\<forall>b\<in>set (bs @ [b]). length b = kFileBlockSize"
    "file_content f = concat bs @ take offset b" using append_blocks [OF assms(1)] unfolding offset_def blocks_def by metis
  have off: "offset < kFileBlockSize" by (simp add: offset_def)
  have av: "0 < avail" "offset + avail \<le> kFileBlockSize" "length (take avail src) = avail" using off assms(2) by (auto simp: avail_def)
  have g: "fs_blocks g = bs @ [overwrite b offset (take avail src)]" by (simp add: g_def bs(1))
  have len: "length (overwrite b offset (take avail src)) = kFileBlockSize" using bs(3) av off by (simp add: overwrite_def)
  have size: "fs_size g = length bs * kFileBlockSize + (offset + avail)" using bs(2) by (simp add: g_def offset_def)
  have "length (fs_blocks g) = fs_size g div kFileBlockSize + (if fs_size g mod kFileBlockSize = 0 then 0 else 1)"
    unfolding g size using av by (cases "offset + avail = kFileBlockSize") auto
  then have ok: "file_ok g" unfolding file_ok_def using bs(3) len by (auto simp: g)
  have "length (concat bs) = length bs * kFileBlockSize" using bs(3) by (intro length_blocks) simp
  then have "file_content g = file_content f @ take avail src" using av bs(3,4) unfolding file_content_def g size by (simp add: overwrite_def)
  then show ?thesis using ok av by blast
qed

lemma append_content: "file_ok f \<Longrightarrow> file_ok (FileState_Append f src) \<and> file_content (FileState_Append f src) = file_content f @ src"
proof (induction f src rule: FileState_Append.induct)
  case (1 f src)
  show ?case
  proof (cases "src = []")
    case False
    define offset where "offset = fs_size f mod kFileBlockSize"
    define blocks where "blocks = (if offset \<noteq> 0 then fs_blocks f else fs_blocks f @ [replicate kFileBlockSize 0])"
    define avail where "avail = min (kFileBlockSize - offset) (length src)"
    define g where "g = f\<lparr>fs_blocks := blocks[length blocks - 1 := overwrite (last blocks) offset (take avail src)], fs_size := fs_size f + avail\<rparr>"
    have g: "file_ok g" "file_content g = file_content f @ take avail src"
      using append_step [OF 1(2) False] unfolding g_def blocks_def avail_def offset_def by auto
    have av: "(if (if offset \<noteq> 0 then kFileBlockSize - offset else kFileBlockSize) > length src then length src else if offset \<noteq> 0 then kFileBlockSize - offset else kFileBlockSize) = avail"
      by (auto simp: avail_def min_def)
    have "FileState_Append f src = FileState_Append g (drop avail src)"
      using False by (subst FileState_Append.simps) (simp only: Let_def offset_def [symmetric] blocks_def [symmetric] av g_def if_False)
    moreover have "file_ok (FileState_Append g (drop avail src)) \<and> file_content (FileState_Append g (drop avail src)) = file_content g @ drop avail src"
      using 1(1) [OF False offset_def blocks_def HOL.refl HOL.refl HOL.refl] g(1) unfolding av g_def by blast
    ultimately show ?thesis using g(2) by simp
  qed (use 1 in \<open>simp add: FileState_Append.simps [of f "[]"]\<close>)
qed

lemma copy_loop_content:
  "\<forall>b\<in>set blocks. length b = kFileBlockSize \<Longrightarrow> i < kFileBlockSize \<Longrightarrow> i + n \<le> length (concat (drop block blocks)) \<Longrightarrow>
     copy_loop blocks block i n = take n (drop i (concat (drop block blocks)))"
proof (induction blocks block i n rule: copy_loop.induct)
  case (1 blocks block i n)
  show ?case
  proof (cases "n = 0")
    case False
    then have "block < length blocks" using 1(4) by (cases "block < length blocks") auto
    then have d: "drop block blocks = blocks ! block # drop (block + 1) blocks" "length (blocks ! block) = kFileBlockSize" using 1(2) by (simp_all add: Cons_nth_drop_Suc)
    let ?a = "min (kFileBlockSize - i) n"
    have "copy_loop blocks (block + 1) 0 (n - ?a) = take (n - ?a) (drop 0 (concat (drop (block + 1) blocks)))"
      using 1(1) [OF _ HOL.refl] False 1(2,3,4) d by auto
    then have "copy_loop blocks block i n = take ?a (drop i (blocks ! block)) @ take (n - ?a) (concat (drop (block + 1) blocks))"
      using False 1(3) by (subst copy_loop.simps) (simp add: Let_def)
    also have "\<dots> = take n (drop i (blocks ! block @ concat (drop (block + 1) blocks)))" using d(2) 1(3) by (auto simp: min_def)
    finally show ?thesis using d(1) by simp
  qed (subst copy_loop.simps, simp)
qed

lemma drop_blocks: "\<forall>b\<in>set blocks. length b = k \<Longrightarrow> 0 < k \<Longrightarrow> drop (offset mod k) (concat (drop (offset div k) blocks)) = drop offset (concat blocks)"
proof (induction blocks arbitrary: offset)
  case (Cons b blocks)
  show ?case
  proof (cases "offset < k")
    case False
    then have "offset div k = Suc ((offset - k) div k)" "offset mod k = (offset - k) mod k" using Cons.prems(2) by (simp_all add: le_div_geq le_mod_geq)
    then show ?thesis using Cons.IH [of "offset - k"] Cons.prems False by simp
  qed simp
qed simp

lemma read_content:
  assumes "file_ok f"
  shows "FileState_Read f offset n = (if offset > length (file_content f) then None else Some (take n (drop offset (file_content f))))"
proof (cases "offset > fs_size f")
  case False
  let ?k = "kFileBlockSize"
  define m where "m = (if n > fs_size f - offset then fs_size f - offset else n)"
  have blocks: "\<forall>b\<in>set (fs_blocks f). length b = ?k" using assms by (simp add: file_ok_def)
  have len: "length (concat (fs_blocks f)) \<ge> fs_size f" using length_content [OF assms] by (simp add: file_content_def)
  have cut: "take n (drop offset (file_content f)) = take m (drop offset (concat (fs_blocks f)))" using False len by (auto simp: file_content_def m_def take_drop min_def)
  have rest: "drop (offset mod ?k) (concat (drop (offset div ?k) (fs_blocks f))) = drop offset (concat (fs_blocks f))" by (rule drop_blocks [OF blocks]) simp
  define X where "X = concat (drop (offset div ?k) (fs_blocks f))"
  have X: "offset mod ?k + m \<le> length X" if "0 < m"
  proof -
    have "length X - offset mod ?k = length (concat (fs_blocks f)) - offset" using arg_cong [OF rest, of length] by (simp add: X_def)
    moreover have "m \<le> fs_size f - offset" by (simp add: m_def)
    ultimately show ?thesis using that len by linarith
  qed
  have "copy_loop (fs_blocks f) (offset div ?k) (offset mod ?k) m = take m (drop offset (concat (fs_blocks f)))" if "0 < m"
    using copy_loop_content [OF blocks, of "offset mod ?k" m "offset div ?k"] X [OF that] unfolding rest X_def by simp
  moreover have "take m (drop (offset mod ?k) (fs_blocks f ! (offset div ?k))) = take m (drop offset (concat (fs_blocks f)))" if "0 < m" "m \<le> ?k - offset mod ?k"
  proof -
    have "offset div ?k < length (fs_blocks f)" using X [OF that(1)] that(1) by (cases "offset div ?k < length (fs_blocks f)") (simp_all add: X_def)
    then have "drop (offset div ?k) (fs_blocks f) = fs_blocks f ! (offset div ?k) # drop (Suc (offset div ?k)) (fs_blocks f)" "length (fs_blocks f ! (offset div ?k)) = ?k"
      using blocks by (simp_all add: Cons_nth_drop_Suc)
    then show ?thesis unfolding rest [symmetric] using that(2) by simp
  qed
  ultimately have "FileState_Read f offset n = Some (take m (drop offset (concat (fs_blocks f))))"
    unfolding FileState_Read_def Let_def m_def [symmetric] using False by (cases "m = 0") auto
  then show ?thesis using False length_content [OF assms] cut by simp
qed (simp add: FileState_Read_def length_content [OF assms])

section \<open>The interface of a file\<close>

text \<open>What a log needs of a file that it writes and of one that it reads\<close>
locale file_interface =
  fixes append :: "'f \<Rightarrow> vch_t \<Rightarrow> bool \<times> 'f" and flush :: "'f \<Rightarrow> bool \<times> 'f" and read :: "'s \<Rightarrow> nat \<Rightarrow> bool \<times> vch_t \<times> 's"
    and content :: "'f \<Rightarrow> vch_t" and unread :: "'s \<Rightarrow> vch_t" and good :: "'f \<Rightarrow> bool" and readable :: "'s \<Rightarrow> bool"
  assumes append: "good f \<Longrightarrow> \<exists>g. append f d = (True, g) \<and> good g \<and> content g = content f @ d"
    and flush: "good f \<Longrightarrow> \<exists>g. flush f = (True, g) \<and> good g \<and> content g = content f"
    and read: "readable s \<Longrightarrow> \<exists>t. read s n = (True, take n (unread s), t) \<and> readable t \<and> unread t = drop n (unread s)"

definition sequential_unread :: "SequentialFileImpl \<Rightarrow> vch_t" where
  "sequential_unread s = drop (sf_pos s) (file_content (sf_file s))"

definition sequential_ok :: "SequentialFileImpl \<Rightarrow> bool" where
  "sequential_ok s \<longleftrightarrow> file_ok (sf_file s) \<and> sf_pos s \<le> fs_size (sf_file s)"

interpretation memfile: file_interface Writable_Append Writable_Flush Sequential_Read file_content sequential_unread file_ok sequential_ok
proof unfold_locales
  fix s n
  assume s: "sequential_ok s"
  then have pos: "sf_pos s \<le> length (file_content (sf_file s))" by (simp add: sequential_ok_def length_content)
  then have "Sequential_Read s n = (True, take n (sequential_unread s), s\<lparr>sf_pos := sf_pos s + length (take n (sequential_unread s))\<rparr>)"
    using s by (simp add: Sequential_Read_def read_content sequential_ok_def sequential_unread_def)
  moreover have "drop (sf_pos s + min (length (sequential_unread s)) n) (file_content (sf_file s)) = drop n (sequential_unread s)"
    using pos by (auto simp: sequential_unread_def min_def add.commute)
  ultimately show "\<exists>t. Sequential_Read s n = (True, take n (sequential_unread s), t) \<and> sequential_ok t \<and> sequential_unread t = drop n (sequential_unread s)"
    using s pos length_content by (auto simp: sequential_ok_def sequential_unread_def min_def)
qed (auto simp: Writable_Append_def Writable_Flush_def append_content)

section \<open>The file system\<close>

text \<open>No two names share a file, every file that has a name is alive and well, and no pointer from the future is in use\<close>
definition env_ok :: "InMemoryEnv \<Rightarrow> bool" where
  "env_ok e \<longleftrightarrow> (\<forall>n p. file_map e n = Some p \<longrightarrow> (\<exists>q refs f. p = Some q \<and> me_heap e q = Some (refs, f) \<and> 0 < refs \<and> file_ok f \<and> q < me_fresh e))
     \<and> (\<forall>n m q. file_map e n = Some (Some q) \<longrightarrow> file_map e m = Some (Some q) \<longrightarrow> n = m)"

definition content_of :: "string \<Rightarrow> InMemoryEnv \<Rightarrow> vch_t option" where
  "content_of fname e = do { p \<leftarrow> file_map e fname; q \<leftarrow> p; (refs, f) \<leftarrow> me_heap e q; Some (file_content f) }"

lemma env_file: "env_ok e \<Longrightarrow> file_map e n = Some p \<Longrightarrow> \<exists>q refs f. p = Some q \<and> me_heap e q = Some (refs, f) \<and> 0 < refs \<and> file_ok f \<and> q < me_fresh e"
  by (simp add: env_ok_def)

lemma env_inject: "env_ok e \<Longrightarrow> file_map e n = Some (Some q) \<Longrightarrow> file_map e m = Some (Some q) \<Longrightarrow> n = m"
  unfolding env_ok_def by blast

lemma delete_file:
  assumes "env_ok e"
  shows "\<exists>e'. DeleteFileInternal fname e = Some e' \<and> env_ok e' \<and> me_fresh e' = me_fresh e \<and> file_map e' = (file_map e)(fname := None)
    \<and> (\<forall>g. g \<noteq> fname \<longrightarrow> content_of g e' = content_of g e)"
proof (cases "file_map e fname")
  case None
  then show ?thesis using assms by (auto simp: DeleteFileInternal_def fun_upd_idem)
next
  case (Some p)
  then obtain q refs f where q: "p = Some q" "me_heap e q = Some (refs, f)" "0 < refs" using env_file [OF assms] by blast
  define e' where "e' = e\<lparr>me_heap := (me_heap e)(q := if refs - 1 = 0 then None else Some (refs - 1, f)), file_map := (file_map e)(fname := None)\<rparr>"
  have run: "DeleteFileInternal fname e = Some e'" using Some q by (simp add: DeleteFileInternal_def FileState_Unref_def e'_def)
  have other: "file_map e g \<noteq> Some (Some q)" if "g \<noteq> fname" for g using env_inject [OF assms] Some q that by blast
  have "env_ok e'" unfolding env_ok_def
  proof (intro conjI allI impI)
    fix n p' assume "file_map e' n = Some p'"
    then have "n \<noteq> fname" "file_map e n = Some p'" by (auto simp: e'_def split: if_splits)
    then show "\<exists>q refs f. p' = Some q \<and> me_heap e' q = Some (refs, f) \<and> 0 < refs \<and> file_ok f \<and> q < me_fresh e'"
      using env_file [OF assms] other by (fastforce simp: e'_def)
  qed (use env_inject [OF assms] in \<open>auto simp: e'_def split: if_splits\<close>)
  moreover have "content_of g e' = content_of g e" if "g \<noteq> fname" for g
    using other [OF that] that by (auto simp: content_of_def e'_def split: bind_splits)
  ultimately show ?thesis using run by (auto simp: e'_def)
qed


lemma content_new: "file_ok FileState_new" "file_content FileState_new = []"
  by (simp_all add: FileState_new_def file_ok_def file_content_def)

lemma new_file:
  assumes "env_ok e"
  shows "\<exists>p e'. NewWritableFile fname e = Some (Some p, e') \<and> env_ok e' \<and> file_map e' fname = Some (Some p) \<and> content_of fname e' = Some []
    \<and> (\<forall>g. g \<noteq> fname \<longrightarrow> content_of g e' = content_of g e)"
proof -
  obtain d where d: "DeleteFileInternal fname e = Some d" "env_ok d" "file_map d = (file_map e)(fname := None)" "\<And>g. g \<noteq> fname \<Longrightarrow> content_of g d = content_of g e"
    using delete_file [OF assms] by blast
  define p where "p = me_fresh d"
  define e' where "e' = d\<lparr>me_heap := (me_heap d)(p \<mapsto> (2, FileState_new)), me_fresh := p + 1, file_map := (file_map d)(fname \<mapsto> Some p)\<rparr>"
  have run: "NewWritableFile fname e = Some (Some p, e')"
  proof -
    have "file_map e fname = None \<Longrightarrow> e = d" using d(1) by (simp add: DeleteFileInternal_def)
    then show ?thesis using d(1) by (auto simp: NewWritableFile_def alloc_file_def FileState_Ref_def p_def e'_def numeral_2_eq_2)
  qed
  have used: "q < p" if "file_map d g = Some (Some q)" for g q using env_file [OF d(2) that] by (auto simp: p_def)
  have "env_ok e'" unfolding env_ok_def
  proof (intro conjI allI impI)
    fix n q assume "file_map e' n = Some q"
    then show "\<exists>r refs f. q = Some r \<and> me_heap e' r = Some (refs, f) \<and> 0 < refs \<and> file_ok f \<and> r < me_fresh e'"
      using env_file [OF d(2), of n q] content_new(1) by (auto simp: e'_def p_def split: if_splits)
  next
    fix n m q assume "file_map e' n = Some (Some q)" "file_map e' m = Some (Some q)"
    then show "n = m" using env_inject [OF d(2), of n q m] used by (auto simp: e'_def split: if_splits)
  qed
  moreover have "content_of g e' = content_of g d" if "g \<noteq> fname" for g
    using that used by (auto simp: content_of_def e'_def split: bind_splits)
  ultimately show ?thesis using run d(4) content_new(2) by (auto simp: content_of_def e'_def)
qed

lemma append_file:
  assumes "env_ok e" and "file_map e fname = Some (Some p)"
  shows "\<exists>e'. handle_Append p data e = Some e' \<and> env_ok e' \<and> file_map e' = file_map e \<and> content_of fname e' = map_option (\<lambda>c. c @ data) (content_of fname e)
    \<and> (\<forall>g. g \<noteq> fname \<longrightarrow> content_of g e' = content_of g e)"
proof -
  obtain refs f where f: "me_heap e p = Some (refs, f)" "0 < refs" "file_ok f" using env_file [OF assms] by auto
  define e' where "e' = e\<lparr>me_heap := (me_heap e)(p \<mapsto> (refs, FileState_Append f data))\<rparr>"
  have "env_ok e'" unfolding env_ok_def
  proof (intro conjI allI impI)
    fix n q assume "file_map e' n = Some q"
    then show "\<exists>r refs f. q = Some r \<and> me_heap e' r = Some (refs, f) \<and> 0 < refs \<and> file_ok f \<and> r < me_fresh e'"
      using env_file [OF assms(1), of n q] f append_content [OF f(3)] by (auto simp: e'_def)
  qed (use env_inject [OF assms(1)] in \<open>auto simp: e'_def\<close>)
  moreover have "content_of g e' = content_of g e" if "g \<noteq> fname" for g
    using that env_inject [OF assms(1,2)] by (auto simp: content_of_def e'_def split: bind_splits)
  ultimately show ?thesis using f append_content [OF f(3)] assms(2) by (auto simp: handle_Append_def content_of_def e'_def)
qed

text \<open>
  C29. The file system in memory keeps what is written to it: a new file is empty, data appended through its handle in two pieces is the content
  of the file, a read at any offset gives those bytes as far as they go, and no other file changes.  The bytes cross the borders of the
  blocks unharmed.
\<close>
theorem memenv_keeps_files:
  assumes "env_ok e"
  shows "\<exists>p e1 e2 e3. NewWritableFile fname e = Some (Some p, e1) \<and> handle_Append p a e1 = Some e2 \<and> handle_Append p b e2 = Some e3
    \<and> env_ok e3 \<and> content_of fname e3 = Some (a @ b) \<and> GetFileSize fname e3 = Some (Some (length (a @ b)))
    \<and> (\<forall>offset n. offset \<le> length (a @ b) \<longrightarrow> handle_Read p offset n e3 = Some (Some (take n (drop offset (a @ b)))))
    \<and> (\<forall>g. g \<noteq> fname \<longrightarrow> content_of g e3 = content_of g e)"
proof -
  obtain p e1 where 1: "NewWritableFile fname e = Some (Some p, e1)" "env_ok e1" "file_map e1 fname = Some (Some p)" "content_of fname e1 = Some []"
    "\<And>g. g \<noteq> fname \<Longrightarrow> content_of g e1 = content_of g e" using new_file [OF assms] by blast
  obtain e2 where 2: "handle_Append p a e1 = Some e2" "env_ok e2" "file_map e2 fname = Some (Some p)" "content_of fname e2 = Some a"
    "\<And>g. g \<noteq> fname \<Longrightarrow> content_of g e2 = content_of g e1" using append_file [OF 1(2,3), of a] 1(3,4) by auto
  obtain e3 where 3: "handle_Append p b e2 = Some e3" "env_ok e3" "file_map e3 fname = Some (Some p)" "content_of fname e3 = Some (a @ b)"
    "\<And>g. g \<noteq> fname \<Longrightarrow> content_of g e3 = content_of g e2" using append_file [OF 2(2,3), of b] 2(3,4) by auto
  obtain refs f where f: "me_heap e3 p = Some (refs, f)" "file_ok f" using env_file [OF 3(2,3)] by auto
  then have c: "file_content f = a @ b" using 3(3,4) by (simp add: content_of_def)
  then have "fs_size f = length (a @ b)" using length_content [OF f(2)] by simp
  then show ?thesis using 1 2 3 f c read_content [OF f(2)] by (auto simp: GetFileSize_def handle_Read_def)
qed

lemma env_ok_new: "env_ok InMemoryEnv_new"
  by (simp add: env_ok_def InMemoryEnv_new_def)

theorem memenv_keeps_files_witness:
  "\<exists>p e1 e2 e3. NewWritableFile ''log'' InMemoryEnv_new = Some (Some p, e1) \<and> handle_Append p [1, 2] e1 = Some e2 \<and> handle_Append p [3] e2 = Some e3
     \<and> content_of ''log'' e3 = Some [1, 2, 3]"
  using memenv_keeps_files [OF env_ok_new, of "''log''" "[1, 2]" "[3]"] by auto

text \<open>A file renamed to its own name is gone\<close>
lemma rename_to_itself:
  assumes "env_ok e" and "FileExists fname e"
  shows "\<exists>e'. RenameFile fname fname e = Some (True, e') \<and> \<not> FileExists fname e'"
proof -
  obtain d where "DeleteFileInternal fname e = Some d" using delete_file [OF assms(1)] by blast
  then show ?thesis using assms(2) by (auto simp: RenameFile_def FileExists_def)
qed

text \<open>Opening a file that does not exist for appending leaves a name without a file: the name exists, its size cannot be read, and what is
  appended through the handle is not found under the name\<close>
lemma appendable_file_lost:
  assumes "\<not> FileExists fname e"
  shows "\<exists>p e'. NewAppendableFile fname e = Some (Some p, e') \<and> FileExists fname e' \<and> GetFileSize fname e' = None \<and> content_of fname e' = None"
  using assms by (auto simp: NewAppendableFile_def FileExists_def alloc_file_def FileState_Ref_def GetFileSize_def content_of_def Let_def)


end
