(* ===== verification/LevelLog.thy ===== *)
theory LevelLog
  imports Crc32c MemEnv MemTable
begin

text \<open>
  The log of LevelDB (\<^verbatim>\<open>src/leveldb/db/log_format.h\<close>, \<^verbatim>\<open>log_writer.cc\<close> and \<^verbatim>\<open>log_reader.cc\<close>): records are cut into fragments that fill
  blocks of 32768 bytes, each with a checksum, a length and a type, and a reader puts them together again, skips what is damaged and
  reports it.  The file that is written and the file that is read are parameters with the operations of \<open>file_interface\<close>; a failed
  \<^verbatim>\<open>assert\<close> is \<open>None\<close>.  The reader's loops go on as long as there is input, so they are partial functions, and the theorems show that
  they end.
\<close>

section \<open>The format\<close>

definition kFullType :: u8 where "kFullType = 1"
definition kFirstType :: u8 where "kFirstType = 2"
definition kMiddleType :: u8 where "kMiddleType = 3"
definition kLastType :: u8 where "kLastType = 4"

definition kLogBlockSize :: nat where
  "kLogBlockSize = 32768"

definition kLogHeaderSize :: nat where
  "kLogHeaderSize = 4 + 2 + 1"

section \<open>Writing\<close>

record 'f log_writer =
  lw_dest :: 'f
  lw_block_offset :: nat

definition type_crc :: "u8 \<Rightarrow> u32" where
  "type_crc t = crc_Value [t]"

definition Writer_new :: "'f \<Rightarrow> 'f log_writer" where
  "Writer_new dest = \<lparr>lw_dest = dest, lw_block_offset = 0\<rparr>"

definition Writer_new_at :: "'f \<Rightarrow> nat \<Rightarrow> 'f log_writer" where
  "Writer_new_at dest dest_length = \<lparr>lw_dest = dest, lw_block_offset = dest_length mod kLogBlockSize\<rparr>"

definition EmitPhysicalRecord ::
  "('f \<Rightarrow> vch_t \<Rightarrow> bool \<times> 'f) \<Rightarrow> ('f \<Rightarrow> bool \<times> 'f) \<Rightarrow> u8 \<Rightarrow> vch_t \<Rightarrow> 'f log_writer \<Rightarrow> (bool \<times> 'f log_writer) option" where
  "EmitPhysicalRecord fappend fflush t ptr w =
     (let n = length ptr
      in if \<not> (n \<le> 0xffff) \<or> \<not> (lw_block_offset w + kLogHeaderSize + n \<le> kLogBlockSize) then None
         else let crc = crc_Mask (Extend (type_crc t) ptr);
                  buf = EncodeFixed32 crc @ [of_nat n AND 0xff, of_nat (n div 256), t];
                  (ok, dest) = fappend (lw_dest w) buf;
                  (ok, dest) = (if ok then fappend dest ptr else (ok, dest));
                  (ok, dest) = (if ok then fflush dest else (ok, dest))
              in Some (ok, \<lparr>lw_dest = dest, lw_block_offset = lw_block_offset w + kLogHeaderSize + n\<rparr>))"

text \<open>The first part of the loop: the trailer of a block that is too small for a header\<close>
definition switch_block :: "('f \<Rightarrow> vch_t \<Rightarrow> bool \<times> 'f) \<Rightarrow> 'f log_writer \<Rightarrow> 'f log_writer" where
  "switch_block fappend w =
     (let leftover = kLogBlockSize - lw_block_offset w
      in if leftover < kLogHeaderSize
         then \<lparr>lw_dest = (if leftover > 0 then snd (fappend (lw_dest w) (replicate leftover 0)) else lw_dest w), lw_block_offset = 0\<rparr>
         else w)"

definition fragment_type :: "bool \<Rightarrow> bool \<Rightarrow> u8" where
  "fragment_type begin fin = (if begin \<and> fin then kFullType else if begin then kFirstType else if fin then kLastType else kMiddleType)"

partial_function (option) AddRecord_loop ::
  "('f \<Rightarrow> vch_t \<Rightarrow> bool \<times> 'f) \<Rightarrow> ('f \<Rightarrow> bool \<times> 'f) \<Rightarrow> bool \<Rightarrow> vch_t \<Rightarrow> 'f log_writer \<Rightarrow> (bool \<times> 'f log_writer) option" where
  "AddRecord_loop fappend fflush begin ptr w =
     (if lw_block_offset w > kLogBlockSize then None
      else let w = switch_block fappend w;
               avail = kLogBlockSize - lw_block_offset w - kLogHeaderSize;
               fragment_length = (if length ptr < avail then length ptr else avail);
               fin = (length ptr = fragment_length)
           in do { (ok, w) \<leftarrow> EmitPhysicalRecord fappend fflush (fragment_type begin fin) (take fragment_length ptr) w;
                   let ptr = drop fragment_length ptr;
                   if ok \<and> length ptr > 0 then AddRecord_loop fappend fflush False ptr w else Some (ok, w) })"

definition AddRecord :: "('f \<Rightarrow> vch_t \<Rightarrow> bool \<times> 'f) \<Rightarrow> ('f \<Rightarrow> bool \<times> 'f) \<Rightarrow> vch_t \<Rightarrow> 'f log_writer \<Rightarrow> (bool \<times> 'f log_writer) option" where
  "AddRecord fappend fflush data w = AddRecord_loop fappend fflush True data w"

section \<open>Reading\<close>

definition kEof :: u32 where "kEof = 5"
definition kBadRecord :: u32 where "kBadRecord = 6"

text \<open>The reports are the calls of \<^verbatim>\<open>reporter_->Corruption\<close>, the latest last\<close>
record 's log_reader =
  lr_file :: 's
  lr_checksum :: bool
  lr_buffer :: vch_t
  lr_eof :: bool
  lr_last_record_offset :: u64
  lr_end_of_buffer_offset :: u64
  lr_initial_offset :: u64
  lr_resyncing :: bool
  lr_reports :: "(nat \<times> string) list"

definition Reader_new :: "'s \<Rightarrow> bool \<Rightarrow> u64 \<Rightarrow> 's log_reader" where
  "Reader_new file checksum initial_offset =
     \<lparr>lr_file = file, lr_checksum = checksum, lr_buffer = [], lr_eof = False, lr_last_record_offset = 0, lr_end_of_buffer_offset = 0,
      lr_initial_offset = initial_offset, lr_resyncing = (initial_offset > 0), lr_reports = []\<rparr>"

definition ReportDrop :: "nat \<Rightarrow> string \<Rightarrow> 's log_reader \<Rightarrow> 's log_reader" where
  "ReportDrop bytes reason r =
     (if lr_end_of_buffer_offset r - of_nat (length (lr_buffer r)) - of_nat bytes \<ge> lr_initial_offset r
      then r\<lparr>lr_reports := lr_reports r @ [(bytes, reason)]\<rparr> else r)"

definition ReportCorruption :: "nat \<Rightarrow> string \<Rightarrow> 's log_reader \<Rightarrow> 's log_reader" where
  "ReportCorruption bytes reason r = ReportDrop bytes reason r"

definition SkipToInitialBlock :: "('s \<Rightarrow> nat \<Rightarrow> bool \<times> 's) \<Rightarrow> 's log_reader \<Rightarrow> bool \<times> 's log_reader" where
  "SkipToInitialBlock skip r =
     (let offset_in_block = lr_initial_offset r mod of_nat kLogBlockSize;
          block_start_location = lr_initial_offset r - offset_in_block;
          block_start_location = (if offset_in_block > of_nat (kLogBlockSize - 6) then block_start_location + of_nat kLogBlockSize else block_start_location);
          r = r\<lparr>lr_end_of_buffer_offset := block_start_location\<rparr>
      in if block_start_location > 0
         then let (ok, file) = skip (lr_file r) (unat block_start_location); r = r\<lparr>lr_file := file\<rparr>
              in if \<not> ok then (False, ReportDrop (unat block_start_location) ''skip'' r) else (True, r)
         else (True, r))"

text \<open>The type and the fragment; the fragment is the caller's where the source does not set it\<close>
partial_function (option) ReadPhysicalRecord ::
  "('s \<Rightarrow> nat \<Rightarrow> bool \<times> vch_t \<times> 's) \<Rightarrow> vch_t \<Rightarrow> 's log_reader \<Rightarrow> (u32 \<times> vch_t \<times> 's log_reader) option" where
  "ReadPhysicalRecord read result r =
     (if length (lr_buffer r) < kLogHeaderSize
      then if \<not> lr_eof r
           then let (ok, data, file) = read (lr_file r) kLogBlockSize;
                    r = r\<lparr>lr_file := file, lr_buffer := data, lr_end_of_buffer_offset := lr_end_of_buffer_offset r + of_nat (length data)\<rparr>
                in if \<not> ok then Some (kEof, result, (ReportDrop kLogBlockSize ''read'' (r\<lparr>lr_buffer := []\<rparr>))\<lparr>lr_eof := True\<rparr>)
                   else ReadPhysicalRecord read result (if length data < kLogBlockSize then r\<lparr>lr_eof := True\<rparr> else r)
           else Some (kEof, result, r\<lparr>lr_buffer := []\<rparr>)
      else let header = lr_buffer r;
               a = ucast (header ! 4) AND 0xff :: u32;
               b = ucast (header ! 5) AND 0xff :: u32;
               type = scast (header ! 6) :: u32;
               len = unat (a OR push_bit 8 b)
           in if kLogHeaderSize + len > length (lr_buffer r)
              then let drop_size = length (lr_buffer r); r = r\<lparr>lr_buffer := []\<rparr>
                   in if \<not> lr_eof r then Some (kBadRecord, result, ReportCorruption drop_size ''bad record length'' r) else Some (kEof, result, r)
              else if type = 0 \<and> len = 0 then Some (kBadRecord, result, r\<lparr>lr_buffer := []\<rparr>)
              else if lr_checksum r \<and> crc_Value (take (1 + len) (drop 6 header)) \<noteq> crc_Unmask (DecodeFixed32 header)
              then let drop_size = length (lr_buffer r); r = r\<lparr>lr_buffer := []\<rparr>
                   in Some (kBadRecord, result, ReportCorruption drop_size ''checksum mismatch'' r)
              else let r = r\<lparr>lr_buffer := drop (kLogHeaderSize + len) (lr_buffer r)\<rparr>
                   in if lr_end_of_buffer_offset r - of_nat (length (lr_buffer r)) - of_nat kLogHeaderSize - of_nat len < lr_initial_offset r
                      then Some (kBadRecord, [], r)
                      else Some (type, take len (drop kLogHeaderSize header), r))"

text \<open>The local variables of \<^verbatim>\<open>ReadRecord\<close>\<close>
record read_state =
  in_fragmented_record :: bool
  prospective_record_offset :: u64
  rs_scratch :: vch_t
  rs_fragment :: vch_t

text \<open>The loop of \<^verbatim>\<open>ReadRecord\<close>: whether there is a record, the record and the reader\<close>
partial_function (option) ReadRecord_loop ::
  "('s \<Rightarrow> nat \<Rightarrow> bool \<times> vch_t \<times> 's) \<Rightarrow> read_state \<Rightarrow> 's log_reader \<Rightarrow> (bool \<times> vch_t \<times> 's log_reader) option" where
  "ReadRecord_loop read st r =
     do { (record_type, fragment, r) \<leftarrow> ReadPhysicalRecord read (rs_fragment st) r;
          let st = st\<lparr>rs_fragment := fragment\<rparr>;
          let physical_record_offset = lr_end_of_buffer_offset r - of_nat (length (lr_buffer r)) - of_nat kLogHeaderSize - of_nat (length fragment);
          if lr_resyncing r \<and> record_type = ucast kMiddleType then ReadRecord_loop read st r
          else if lr_resyncing r \<and> record_type = ucast kLastType then ReadRecord_loop read st (r\<lparr>lr_resyncing := False\<rparr>)
          else let r = r\<lparr>lr_resyncing := False\<rparr>
               in if record_type = ucast kFullType
                  then let r = (if in_fragmented_record st \<and> rs_scratch st \<noteq> []
                                then ReportCorruption (length (rs_scratch st)) ''partial record without end(1)'' r else r)
                       in Some (True, fragment, r\<lparr>lr_last_record_offset := physical_record_offset\<rparr>)
                  else if record_type = ucast kFirstType
                  then let r = (if in_fragmented_record st \<and> rs_scratch st \<noteq> []
                                then ReportCorruption (length (rs_scratch st)) ''partial record without end(2)'' r else r)
                       in ReadRecord_loop read
                            (st\<lparr>in_fragmented_record := True, prospective_record_offset := physical_record_offset, rs_scratch := fragment\<rparr>) r
                  else if record_type = ucast kMiddleType
                  then if \<not> in_fragmented_record st
                       then ReadRecord_loop read st (ReportCorruption (length fragment) ''missing start of fragmented record(1)'' r)
                       else ReadRecord_loop read (st\<lparr>rs_scratch := rs_scratch st @ fragment\<rparr>) r
                  else if record_type = ucast kLastType
                  then if \<not> in_fragmented_record st
                       then ReadRecord_loop read st (ReportCorruption (length fragment) ''missing start of fragmented record(2)'' r)
                       else Some (True, rs_scratch st @ fragment, r\<lparr>lr_last_record_offset := prospective_record_offset st\<rparr>)
                  else if record_type = kEof then Some (False, [], r)
                  else if record_type = kBadRecord
                  then if in_fragmented_record st
                       then ReadRecord_loop read (st\<lparr>in_fragmented_record := False, rs_scratch := []\<rparr>)
                              (ReportCorruption (length (rs_scratch st)) ''error in middle of record'' r)
                       else ReadRecord_loop read st r
                  else ReadRecord_loop read (st\<lparr>in_fragmented_record := False, rs_scratch := []\<rparr>)
                         (ReportCorruption (length fragment + (if in_fragmented_record st then length (rs_scratch st) else 0)) ''unknown record type'' r) }"

definition ReadRecord ::
  "('s \<Rightarrow> nat \<Rightarrow> bool \<times> vch_t \<times> 's) \<Rightarrow> ('s \<Rightarrow> nat \<Rightarrow> bool \<times> 's) \<Rightarrow> 's log_reader \<Rightarrow> (bool \<times> vch_t \<times> 's log_reader) option" where
  "ReadRecord read skip r =
     (let (ok, r) = (if lr_last_record_offset r < lr_initial_offset r then SkipToInitialBlock skip r else (True, r))
      in if \<not> ok then Some (False, [], r) else ReadRecord_loop read \<lparr>in_fragmented_record = False, prospective_record_offset = 0, rs_scratch = [], rs_fragment = []\<rparr> r)"

section \<open>Fragments\<close>

text \<open>The bytes of a fragment\<close>
definition phys :: "u8 \<Rightarrow> vch_t \<Rightarrow> vch_t" where
  "phys t d = EncodeFixed32 (crc_Mask (Extend (type_crc t) d)) @ [of_nat (length d) AND 0xff, of_nat (length d div 256), t] @ d"

text \<open>The trailer that is written at an offset of a block, and the offset at which the next fragment begins\<close>
definition pad :: "nat \<Rightarrow> vch_t" where
  "pad off = (if 32768 - off < 7 then replicate (32768 - off) 0 else [])"

definition aligned :: "nat \<Rightarrow> nat" where
  "aligned off = (if 32768 - off < 7 then 0 else off)"

fun layout :: "nat \<Rightarrow> (u8 \<times> vch_t) list \<Rightarrow> vch_t" where
  "layout off [] = []"
| "layout off ((t, d) # fs) = pad off @ phys t d @ layout (aligned off + 7 + length d) fs"

fun end_off :: "nat \<Rightarrow> (u8 \<times> vch_t) list \<Rightarrow> nat" where
  "end_off off [] = off"
| "end_off off ((t, d) # fs) = end_off (aligned off + 7 + length d) fs"

fun fits :: "nat \<Rightarrow> (u8 \<times> vch_t) list \<Rightarrow> bool" where
  "fits off [] \<longleftrightarrow> off \<le> 32768"
| "fits off ((t, d) # fs) \<longleftrightarrow> off \<le> 32768 \<and> aligned off + 7 + length d \<le> 32768 \<and> fits (aligned off + 7 + length d) fs"

text \<open>The fragments of a record, or of its rest\<close>
fun fragments :: "bool \<Rightarrow> vch_t \<Rightarrow> (u8 \<times> vch_t) list \<Rightarrow> bool" where
  "fragments begin ptr [] \<longleftrightarrow> False"
| "fragments begin ptr [(t, d)] \<longleftrightarrow> d = ptr \<and> t = fragment_type begin True"
| "fragments begin ptr ((t, d) # fs) \<longleftrightarrow> (\<exists>rest. ptr = d @ rest \<and> t = fragment_type begin False \<and> fragments False rest fs)"

lemma length_phys [simp]: "length (phys t d) = 7 + length d"
  by (simp add: phys_def)

lemma fits_off: "fits off fs \<Longrightarrow> off \<le> 32768"
  by (cases fs) auto

lemma fits_end: "fits off fs \<Longrightarrow> end_off off fs \<le> 32768"
  by (induction off fs rule: fits.induct) auto

lemma layout_append: "layout off (fs @ gs) = layout off fs @ layout (end_off off fs) gs" "end_off off (fs @ gs) = end_off (end_off off fs) gs"
  by (induction off fs rule: layout.induct) auto

lemma fits_append: "fits off (fs @ gs) \<longleftrightarrow> fits off fs \<and> fits (end_off off fs) gs"
  by (induction off fs rule: fits.induct) (auto dest: fits_off)

lemma header_length:
  assumes "n < 65536"
  shows "unat ((ucast (of_nat n AND 0xff :: u8) AND 0xff :: u32) OR push_bit 8 (ucast (of_nat (n div 256) :: u8) AND 0xff)) = n"
proof -
  have m: "(b :: u8) AND 0xff = b" "(ucast b :: u32) AND 0xff = ucast b" for b :: u8
    by (rule bit_word_eqI; auto simp: bit_and_iff bit_255 ucast_byte_bits dest: bit_imp_le_length)+
  have u: "unat (ucast (b :: u8) :: u32) = unat b" for b by (simp add: unsigned_ucast_eq take_bit_nat_eq_self order.strict_trans [OF unat_u8_less])
  have "(ucast (of_nat n :: u8) :: u32) OR push_bit 8 (ucast (of_nat (n div 256) :: u8)) = ucast (of_nat n :: u8) + push_bit 8 (ucast (of_nat (n div 256) :: u8))"
    by (rule or_disjoint) (simp add: u)
  moreover have "n div 256 < 256" using assms by (simp add: div_less_iff_less_mult)
  ultimately show ?thesis using assms unfolding m
    by (simp add: push_bit_eq_mult unat_word_ariths u unat_of_nat take_bit_nat_def)
qed

context file_interface
begin

lemma emit:
  assumes "good (lw_dest w)" and "lw_block_offset w + 7 + length d \<le> 32768"
  shows "\<exists>w'. EmitPhysicalRecord append flush t d w = Some (True, w') \<and> good (lw_dest w') \<and> content (lw_dest w') = content (lw_dest w) @ phys t d
    \<and> lw_block_offset w' = lw_block_offset w + 7 + length d"
proof -
  let ?buf = "EncodeFixed32 (crc_Mask (Extend (type_crc t) d)) @ [of_nat (length d) AND 0xff, of_nat (length d div 256), t]"
  obtain f where f: "append (lw_dest w) ?buf = (True, f)" "good f" "content f = content (lw_dest w) @ ?buf" using append [OF assms(1)] by blast
  obtain g where g: "append f d = (True, g)" "good g" "content g = content f @ d" using append [OF f(2)] by blast
  obtain h where h: "flush g = (True, h)" "good h" "content h = content g" using flush [OF g(2)] by blast
  show ?thesis using assms(2) f g h by (simp add: EmitPhysicalRecord_def kLogHeaderSize_def kLogBlockSize_def Let_def phys_def)
qed

lemma switch:
  assumes "good (lw_dest w)" and "lw_block_offset w \<le> 32768"
  shows "good (lw_dest (switch_block append w)) \<and> content (lw_dest (switch_block append w)) = content (lw_dest w) @ pad (lw_block_offset w)
    \<and> lw_block_offset (switch_block append w) = aligned (lw_block_offset w)"
  using assms append [OF assms(1), of "replicate (32768 - lw_block_offset w) 0"]
  by (auto simp: switch_block_def pad_def aligned_def kLogHeaderSize_def kLogBlockSize_def Let_def)

end


section \<open>Writing a record\<close>

lemma aligned_room: "off \<le> 32768 \<Longrightarrow> aligned off + 7 \<le> 32768"
  by (auto simp: aligned_def)

context file_interface
begin

lemma add_record_loop:
  assumes "good (lw_dest w)" and "lw_block_offset w \<le> 32768"
  shows "\<exists>fs w'. AddRecord_loop append flush begin ptr w = Some (True, w') \<and> good (lw_dest w') \<and> fragments begin ptr fs \<and> fits (lw_block_offset w) fs
    \<and> content (lw_dest w') = content (lw_dest w) @ layout (lw_block_offset w) fs \<and> lw_block_offset w' = end_off (lw_block_offset w) fs"
  using assms
proof (induction "2 * length ptr + (if lw_block_offset w = 32761 then 1 else 0)" arbitrary: "begin" ptr w rule: less_induct)
  case less
  define off where "off = lw_block_offset w"
  define v where "v = switch_block append w"
  define avail where "avail = 32768 - aligned off - 7"
  define n where "n = (if length ptr < avail then length ptr else avail)"
  define t where "t = fragment_type begin (length ptr = n)"
  have room: "aligned off + 7 \<le> 32768" using less.prems(2) unfolding off_def by (rule aligned_room)
  have v: "good (lw_dest v)" "content (lw_dest v) = content (lw_dest w) @ pad off" "lw_block_offset v = aligned off"
    using switch [OF less.prems] unfolding v_def off_def by blast+
  have n: "n \<le> length ptr" "aligned off + 7 + n \<le> 32768" using room by (auto simp: n_def avail_def)
  then have take: "length (take n ptr) = n" by simp
  obtain u where u: "EmitPhysicalRecord append flush t (take n ptr) v = Some (True, u)" "good (lw_dest u)"
      "content (lw_dest u) = content (lw_dest w) @ pad off @ phys t (take n ptr)" "lw_block_offset u = aligned off + 7 + n"
    using emit [of v "take n ptr" t] v n take by auto
  have run: "AddRecord_loop append flush begin ptr w =
      (if n < length ptr then AddRecord_loop append flush False (drop n ptr) u else Some (True, u))"
  proof -
    have a: "kLogBlockSize - lw_block_offset v - kLogHeaderSize = avail" by (simp add: kLogBlockSize_def kLogHeaderSize_def avail_def v(3))
    have o: "\<not> lw_block_offset w > kLogBlockSize" using less.prems(2) by (simp add: kLogBlockSize_def)
    show ?thesis by (subst AddRecord_loop.simps, unfold Let_def v_def [symmetric] a n_def [symmetric] t_def [symmetric]) (use o n in \<open>simp add: u(1)\<close>)
  qed
  show ?case
  proof (cases "n < length ptr")
    case False
    then have "n = length ptr" using n by simp
    then have "fragments begin ptr [(t, ptr)]" "fits off [(t, ptr)]" using n less.prems(2) by (auto simp: t_def off_def)
    then show ?thesis using run False u v(2) \<open>n = length ptr\<close> unfolding off_def [symmetric] by (intro exI [of _ "[(t, ptr)]"] exI [of _ u]) auto
  next
    case True
    have "2 * length (drop n ptr) + (if lw_block_offset u = 32761 then 1 else 0) < 2 * length ptr + (if lw_block_offset w = 32761 then 1 else (0 :: nat))"
    proof (cases "avail = 0")
      case True
      then have "aligned off = 32761" using room by (simp add: avail_def)
      then have "lw_block_offset w = 32761" by (auto simp: aligned_def off_def split: if_splits)
      then show ?thesis using True u(4) \<open>aligned off = 32761\<close> \<open>n < length ptr\<close> by (simp add: n_def)
    qed (use \<open>n < length ptr\<close> in \<open>auto simp: n_def split: if_splits\<close>)
    moreover have "lw_block_offset u \<le> 32768" using u(4) n by simp
    ultimately obtain fs w' where w': "AddRecord_loop append flush False (drop n ptr) u = Some (True, w')" "good (lw_dest w')" "fragments False (drop n ptr) fs"
        "fits (aligned off + 7 + n) fs" "content (lw_dest w') = content (lw_dest u) @ layout (aligned off + 7 + n) fs" "lw_block_offset w' = end_off (aligned off + 7 + n) fs"
      using less.hyps [of "drop n ptr" u False] u by auto
    have "fs \<noteq> []" using w'(3) by auto
    moreover have "t = fragment_type begin False" using True by (simp add: t_def)
    ultimately have "fragments begin ptr ((t, take n ptr) # fs)" using w'(3) by (cases fs) (auto intro!: exI [of _ "drop n ptr"])
    moreover have "fits off ((t, take n ptr) # fs)" using w'(4) n less.prems(2) take by (simp add: off_def)
    ultimately show ?thesis using run True w' u v(2) take unfolding off_def [symmetric] by (intro exI [of _ "(t, take n ptr) # fs"] exI [of _ w']) auto
  qed
qed

end


section \<open>Reading a fragment\<close>

lemma fragment_types: "fragment_type begin fin \<in> {1, 2, 3, 4}"
  by (simp add: fragment_type_def kFullType_def kFirstType_def kMiddleType_def kLastType_def)

lemma header_phys:
  fixes rest :: vch_t
  assumes "length d < 65536" and "t \<in> {1, 2, 3, 4}"
  defines "h \<equiv> phys t d @ rest"
  shows "unat ((ucast (h ! 4) AND 0xff :: u32) OR push_bit 8 (ucast (h ! 5) AND 0xff)) = length d"
    and "(scast (h ! 6) :: u32) = ucast t" and "(ucast t :: u32) \<noteq> 0"
    and "crc_Value (take (1 + length d) (drop 6 h)) = crc_Unmask (DecodeFixed32 h)" and "take (length d) (drop 7 h) = d" and "drop (7 + length d) h = rest"
proof -
  have h: "h = EncodeFixed32 (crc_Mask (Extend (type_crc t) d)) @ (of_nat (length d) AND 0xff) # of_nat (length d div 256) # t # d @ rest" by (simp add: h_def phys_def)
  have "h ! 4 = of_nat (length d) AND 0xff" "h ! 5 = of_nat (length d div 256)" "h ! 6 = t" unfolding h by (simp_all add: nth_append)
  then show "unat ((ucast (h ! 4) AND 0xff :: u32) OR push_bit 8 (ucast (h ! 5) AND 0xff)) = length d" "(scast (h ! 6) :: u32) = ucast t" "(ucast t :: u32) \<noteq> 0"
    using header_length [OF assms(1)] assms(2) by auto
  have "DecodeFixed32 h = crc_Mask (Extend (type_crc t) d)" unfolding h by simp
  moreover have "take (1 + length d) (drop 6 h) = t # d" unfolding h by simp
  moreover have "crc_Value (t # d) = Extend (type_crc t) d" using extend_append [of 0 "[t]" d] by (simp add: crc_Value_def type_crc_def)
  ultimately show "crc_Value (take (1 + length d) (drop 6 h)) = crc_Unmask (DecodeFixed32 h)" by (simp add: mask_unmask)
  show "take (length d) (drop 7 h) = d" unfolding h by simp
  show "drop (7 + length d) h = rest" unfolding h_def by simp
qed

context file_interface
begin

text \<open>A reader that has read whole blocks, stands at an offset of the block and has the bytes \<open>R\<close> before it\<close>
definition reader_at :: "'s log_reader \<Rightarrow> nat \<Rightarrow> vch_t \<Rightarrow> bool" where
  "reader_at r off R \<longleftrightarrow> off \<le> 32768 \<and> readable (lr_file r) \<and> lr_buffer r @ unread (lr_file r) = R \<and> lr_initial_offset r = 0 \<and> \<not> lr_resyncing r \<and> lr_reports r = []
     \<and> (if lr_eof r then unread (lr_file r) = [] \<and> length (lr_buffer r) \<le> 32768 - off
        else length (lr_buffer r) = 32768 - off \<or> lr_buffer r = [] \<and> off = 0)"

lemma reader_new: "readable s \<Longrightarrow> reader_at (Reader_new s checksum 0) 0 (unread s)"
  by (simp add: reader_at_def Reader_new_def)

text \<open>What happens where the buffer has no header left: the next block is read, or the end of the file is seen\<close>
lemma refill:
  assumes "reader_at r off R" and "length (lr_buffer r) < 7" and "\<not> lr_eof r"
  shows "\<exists>r'. ReadPhysicalRecord read res r = ReadPhysicalRecord read res r' \<and> reader_at r' 0 (drop (length (lr_buffer r)) R)
    \<and> lr_buffer r' = take 32768 (drop (length (lr_buffer r)) R) \<and> (lr_eof r' \<longleftrightarrow> length (drop (length (lr_buffer r)) R) < 32768)
    \<and> lr_last_record_offset r' = lr_last_record_offset r"
proof -
  obtain t where t: "read (lr_file r) 32768 = (True, take 32768 (unread (lr_file r)), t)" "readable t" "unread t = drop 32768 (unread (lr_file r))"
    using read assms(1) unfolding reader_at_def by blast
  define U where "U = unread (lr_file r)"
  let ?r = "r\<lparr>lr_file := t, lr_buffer := take 32768 U, lr_end_of_buffer_offset := lr_end_of_buffer_offset r + of_nat (length (take 32768 U))\<rparr>"
  let ?r' = "if length (take 32768 U) < 32768 then ?r\<lparr>lr_eof := True\<rparr> else ?r"
  have R: "U = drop (length (lr_buffer r)) R" using assms(1) by (auto simp: reader_at_def U_def)
  have "ReadPhysicalRecord read res r = ReadPhysicalRecord read res ?r'"
    using assms(2,3) t(1) unfolding U_def [symmetric] by (subst ReadPhysicalRecord.simps) (simp add: kLogHeaderSize_def kLogBlockSize_def Let_def)
  moreover have "reader_at ?r' 0 U" using assms(1,3) t unfolding reader_at_def U_def [symmetric] by auto
  ultimately show ?thesis using assms(3) unfolding R [symmetric] by (intro exI [of _ ?r']) auto
qed

lemma read_end:
  assumes "reader_at r off R" and "length R < 7" and "lr_eof r"
  shows "ReadPhysicalRecord read res r = Some (kEof, res, r\<lparr>lr_buffer := []\<rparr>)"
  using assms by (subst ReadPhysicalRecord.simps) (auto simp: reader_at_def kLogHeaderSize_def)

lemma read_here:
  assumes "reader_at r off (phys t d @ R)" and "length (phys t d) \<le> length (lr_buffer r)" and "t \<in> {1, 2, 3, 4}" and "off + 7 + length d \<le> 32768"
  shows "\<exists>r'. ReadPhysicalRecord read res r = Some (ucast t, d, r') \<and> reader_at r' (off + 7 + length d) R"
proof -
  have "lr_buffer r @ unread (lr_file r) = phys t d @ R" using assms(1) by (simp add: reader_at_def)
  then have "take (length (phys t d)) (lr_buffer r @ unread (lr_file r)) = phys t d" by simp
  then have "take (length (phys t d)) (lr_buffer r) = phys t d" using assms(2) by simp
  then obtain B where B: "lr_buffer r = phys t d @ B" by (metis append_take_drop_id)
  have d: "length d < 65536" using assms(4) by simp
  note h = header_phys(1,2,4-6) [OF d assms(3), where rest = B] header_phys(3) [OF d assms(3)]
  have k: "kLogHeaderSize = 7" by (simp add: kLogHeaderSize_def)
  have "ReadPhysicalRecord read res r = Some (ucast t, d, r\<lparr>lr_buffer := B\<rparr>)"
    by (subst ReadPhysicalRecord.simps, unfold B Let_def k h) (use assms(1) h(6) in \<open>simp add: reader_at_def\<close>)
  moreover have "reader_at (r\<lparr>lr_buffer := B\<rparr>) (off + 7 + length d) R"
  proof -
    have "length (lr_buffer r) = 7 + length d + length B" by (simp add: B)
    then have "length B = length (lr_buffer r) - 7 - length d" "lr_buffer r \<noteq> []" by auto
    then show ?thesis using assms(1,4) unfolding reader_at_def by (auto simp: B simp del: length_append)
  qed
  ultimately show ?thesis by blast
qed

end


context file_interface
begin

lemma reader_at_append: "reader_at r off R \<Longrightarrow> lr_eof r \<Longrightarrow> lr_buffer r = R"
  by (auto simp: reader_at_def)

lemma read_fragment:
  assumes at: "reader_at r off (pad off @ phys t d @ R)" and t: "t \<in> {1, 2, 3, 4}" and fit: "aligned off + 7 + length d \<le> 32768"
  shows "\<exists>r'. ReadPhysicalRecord read res r = Some (ucast t, d, r') \<and> reader_at r' (aligned off + 7 + length d) R"
proof (cases "length (lr_buffer r) < 7")
  case False
  then have "7 \<le> 32768 - off" using at by (auto simp: reader_at_def split: if_splits)
  then have off: "pad off = []" "aligned off = off" by (simp_all add: pad_def aligned_def)
  have "length (phys t d) \<le> length (lr_buffer r)"
  proof (cases "lr_eof r")
    case True
    then show ?thesis using reader_at_append [OF at] off by simp
  qed (use at fit off False in \<open>auto simp: reader_at_def\<close>)
  then show ?thesis using read_here [of r off t d R res] at off t fit by simp
next
  case True
  have eof: "\<not> lr_eof r" using reader_at_append [OF at] True by auto
  have "length (lr_buffer r) = length (pad off) \<and> aligned off = 0" using at True eof by (auto simp: reader_at_def pad_def aligned_def split: if_splits)
  then have "drop (length (lr_buffer r)) (pad off @ phys t d @ R) = phys t d @ R" "aligned off = 0" by simp_all
  then obtain r' where r': "ReadPhysicalRecord read res r = ReadPhysicalRecord read res r'" "reader_at r' 0 (phys t d @ R)" "lr_buffer r' = take 32768 (phys t d @ R)"
    using refill [OF at True eof, of res] by metis
  moreover have "length (phys t d) \<le> length (lr_buffer r')" using fit r'(3) by simp
  ultimately show ?thesis using read_here [OF r'(2) _ t, of res] fit \<open>aligned off = 0\<close> by simp
qed

lemma read_cut_here:
  assumes "lr_eof r" and "lr_buffer r = R" and "phys t d = R @ S" and "S \<noteq> []" and "length d < 65536" and "t \<in> {1, 2, 3, 4}"
  shows "ReadPhysicalRecord read res r = Some (kEof, res, r\<lparr>lr_buffer := []\<rparr>)"
proof (cases "length R < 7")
  case True
  then show ?thesis using assms by (subst ReadPhysicalRecord.simps) (simp add: kLogHeaderSize_def)
next
  case False
  have "R ! i = (phys t d @ []) ! i" if "i < 7" for i using False that assms(3) by (simp add: nth_append)
  then have n: "unat ((ucast (R ! 4) AND 0xff :: u32) OR push_bit 8 (ucast (R ! 5) AND 0xff)) = length d" using header_phys(1) [OF assms(5,6), of "[]"] by simp
  have k: "kLogHeaderSize = 7" by (simp add: kLogHeaderSize_def)
  have "length R < 7 + length d" using arg_cong [OF assms(3), of length] assms(4) by simp
  then show ?thesis using assms(1) False by (subst ReadPhysicalRecord.simps, unfold assms(2) Let_def n k) simp
qed

lemma read_cut:
  assumes at: "reader_at r off R" and cut: "pad off @ phys t d = R @ S" "S \<noteq> []" and t: "t \<in> {1, 2, 3, 4}" and fit: "aligned off + 7 + length d \<le> 32768"
  shows "\<exists>r'. ReadPhysicalRecord read res r = Some (kEof, res, r') \<and> lr_reports r' = [] \<and> \<not> lr_resyncing r'"
proof -
  have rep: "lr_reports r = []" "\<not> lr_resyncing r" using at by (simp_all add: reader_at_def)
  have d: "length d < 65536" using fit by simp
  have len: "length R < length (pad off) + 7 + length d" using arg_cong [OF cut(1), of length] cut(2) by (cases S) auto
  show ?thesis
  proof (cases "lr_eof r")
    case True
    note R = reader_at_append [OF at True]
    show ?thesis
    proof (cases "length R < 7")
      case True
      then show ?thesis using read_end [OF at True \<open>lr_eof r\<close>] rep by auto
    next
      case False
      then have "pad off = []" using R at \<open>lr_eof r\<close> by (auto simp: reader_at_def pad_def)
      then show ?thesis using read_cut_here [OF \<open>lr_eof r\<close> R _ cut(2) d t] cut(1) rep by auto
    qed
  next
    case False
    have small: "length (lr_buffer r) < 7"
    proof (rule ccontr)
      assume "\<not> length (lr_buffer r) < 7"
      then have "length (lr_buffer r) = 32768 - off" "pad off = []" "aligned off = off" using at False by (auto simp: reader_at_def pad_def aligned_def)
      then show False using len fit at by (auto simp: reader_at_def)
    qed
    have pad: "length (lr_buffer r) = length (pad off) \<and> aligned off = 0" using at small False by (auto simp: reader_at_def pad_def aligned_def split: if_splits)
    obtain r' where r': "ReadPhysicalRecord read res r = ReadPhysicalRecord read res r'" "reader_at r' 0 (drop (length (lr_buffer r)) R)"
        "lr_buffer r' = take 32768 (drop (length (lr_buffer r)) R)" "lr_eof r' \<longleftrightarrow> length (drop (length (lr_buffer r)) R) < 32768"
      using refill [OF at small False] by blast
    have "length (lr_buffer r) \<le> length R" using at by (auto simp: reader_at_def)
    then have "phys t d = drop (length (lr_buffer r)) R @ S" using arg_cong [OF cut(1), of "drop (length (pad off))"] pad by simp
    moreover have "length (drop (length (lr_buffer r)) R) < 32768" using len fit pad by simp
    moreover have "lr_reports r' = []" "\<not> lr_resyncing r'" using r'(2) by (simp_all add: reader_at_def)
    ultimately show ?thesis using r' read_cut_here [of r' "drop (length (lr_buffer r)) R" t d S res] cut(2) d t by auto
  qed
qed

end


section \<open>Reading a record\<close>

lemmas record_types = kFullType_def kFirstType_def kMiddleType_def kLastType_def kEof_def kBadRecord_def fragment_type_def

text \<open>Every fragment has a type that is one of the four, and fits\<close>
lemma fragments_cons:
  "fragments begin ptr ((t, d) # fs) \<Longrightarrow> t = fragment_type begin (fs = []) \<and> (fs \<noteq> [] \<longrightarrow> (\<exists>rest. ptr = d @ rest \<and> fragments False rest fs)) \<and> (fs = [] \<longrightarrow> d = ptr)"
  by (cases fs) auto

context file_interface
begin

text \<open>The state of the loop before the first fragment of a record, and before a later one\<close>
definition between :: "bool \<Rightarrow> vch_t \<Rightarrow> read_state \<Rightarrow> bool" where
  "between begin scratch st \<longleftrightarrow> in_fragmented_record st = (\<not> begin) \<and> (\<not> begin \<longrightarrow> rs_scratch st = scratch)"

lemma reader_at_offset: "reader_at (r\<lparr>lr_last_record_offset := x\<rparr>) off R = reader_at r off R"
  by (simp add: reader_at_def)

lemma reader_at_resync: "reader_at r off R \<Longrightarrow> reader_at (r\<lparr>lr_resyncing := False\<rparr>) off R"
  by (simp add: reader_at_def)

lemma read_step:
  assumes "reader_at r off (pad off @ phys t d @ R)" and "fragments begin ptr ((t, d) # fs)" and "fits off ((t, d) # fs)" and "between begin scratch st"
  defines "got \<equiv> (if begin then d else scratch @ d)"
  shows "\<exists>r' st'. reader_at r' (aligned off + 7 + length d) R
    \<and> ReadRecord_loop read st r = (if fs = [] then Some (True, got, r') else ReadRecord_loop read st' r') \<and> between False got st'"
proof -
  have t: "t = fragment_type begin (fs = [])" using fragments_cons [OF assms(2)] by blast
  then have four: "t \<in> {1, 2, 3, 4}" using fragment_types by simp
  obtain r' where r': "ReadPhysicalRecord read (rs_fragment st) r = Some (ucast t, d, r')" "reader_at r' (aligned off + 7 + length d) R"
    using read_fragment [OF _ four, of r off d R "rs_fragment st"] assms(1,3) by auto
  have res: "\<not> lr_resyncing r'" using r'(2) by (simp add: reader_at_def)
  define r1 where "r1 = r'\<lparr>lr_resyncing := False\<rparr>"
  have r1: "reader_at r1 (aligned off + 7 + length d) R" unfolding r1_def by (rule reader_at_resync [OF r'(2)])
  define x where "x = lr_end_of_buffer_offset r' - of_nat (length (lr_buffer r')) - of_nat kLogHeaderSize - (of_nat (length d) :: u64)"
  define st1 where "st1 = (if begin then st\<lparr>rs_fragment := d, in_fragmented_record := True, prospective_record_offset := x, rs_scratch := d\<rparr>
    else st\<lparr>rs_fragment := d, rs_scratch := rs_scratch st @ d\<rparr>)"
  have "ReadRecord_loop read st r = (if fs = [] then Some (True, got, r1\<lparr>lr_last_record_offset := if begin then x else prospective_record_offset st\<rparr>) else ReadRecord_loop read st1 r1)"
    using assms(4) by (subst ReadRecord_loop.simps, unfold r'(1) Let_def, cases "begin"; cases "fs = []")
      (simp_all add: between_def got_def record_types t res r1_def st1_def x_def)
  moreover have "between False got st1" using assms(4) by (simp add: between_def st1_def got_def)
  ultimately show ?thesis using r1 reader_at_offset by (cases "fs = []") auto
qed

end


context file_interface
begin

lemma read_record:
  assumes "reader_at r off (layout off fs @ R)" and "fragments begin ptr fs" and "fits off fs" and "between begin scratch st"
  shows "\<exists>r'. ReadRecord_loop read st r = Some (True, (if begin then [] else scratch) @ ptr, r') \<and> reader_at r' (end_off off fs) R"
  using assms
proof (induction fs arbitrary: "begin" ptr scratch st r off)
  case (Cons f fs)
  obtain t d where f: "f = (t, d)" by fastforce
  let ?got = "if begin then d else scratch @ d"
  obtain r' st' where step: "reader_at r' (aligned off + 7 + length d) (layout (aligned off + 7 + length d) fs @ R)"
      "ReadRecord_loop read st r = (if fs = [] then Some (True, ?got, r') else ReadRecord_loop read st' r')" "between False ?got st'"
    using read_step [of r off t d "layout (aligned off + 7 + length d) fs @ R" "begin" ptr fs scratch st] Cons.prems unfolding f by auto
  show ?case
  proof (cases "fs = []")
    case True
    then show ?thesis using step fragments_cons [of "begin" ptr t d fs] Cons.prems f by auto
  next
    case False
    then obtain rest where rest: "ptr = d @ rest" "fragments False rest fs" using fragments_cons [of "begin" ptr t d fs] Cons.prems f by blast
    have "fits (aligned off + 7 + length d) fs" using Cons.prems f by simp
    then obtain r2 where "ReadRecord_loop read st' r' = Some (True, ?got @ rest, r2)" "reader_at r2 (end_off (aligned off + 7 + length d) fs) R"
      using Cons.IH [OF step(1) rest(2) _ step(3)] by auto
    then show ?thesis using step(2) False rest(1) f by auto
  qed
qed simp

lemma cut_cases:
  assumes "A @ B = R @ S"
  obtains S' where "A = R @ S'" and "S' \<noteq> []" | R' where "R = A @ R'" and "B = R' @ S"
  using assms by (auto simp: append_eq_append_conv2) blast+

lemma read_record_cut:
  assumes "reader_at r off R" and "layout off fs = R @ S" and "S \<noteq> []" and "fragments begin ptr fs" and "fits off fs" and "between begin scratch st"
  shows "\<exists>r'. ReadRecord_loop read st r = Some (False, [], r') \<and> lr_reports r' = []"
  using assms
proof (induction fs arbitrary: "begin" ptr scratch st r off R)
  case (Cons f fs)
  obtain t d where f: "f = (t, d)" by fastforce
  have four: "t \<in> {1, 2, 3, 4}" using fragments_cons [of "begin" ptr t d fs] Cons.prems(4) fragment_types f by auto
  have fit: "aligned off + 7 + length d \<le> 32768" "fits (aligned off + 7 + length d) fs" using Cons.prems(5) f by simp_all
  have lay: "(pad off @ phys t d) @ layout (aligned off + 7 + length d) fs = R @ S" using Cons.prems(2) f by simp
  from lay show ?case
  proof (cases rule: cut_cases)
    case (1 S')
    obtain r' where r': "ReadPhysicalRecord read (rs_fragment st) r = Some (kEof, rs_fragment st, r')" "lr_reports r' = []" "\<not> lr_resyncing r'"
      using read_cut [OF Cons.prems(1) 1 four fit(1)] by blast
    then have "ReadRecord_loop read st r = Some (False, [], r'\<lparr>lr_resyncing := False\<rparr>)" by (subst ReadRecord_loop.simps) (simp add: record_types Let_def)
    then show ?thesis using r'(2) by simp
  next
    case (2 R')
    have ne: "fs \<noteq> []" using 2(2) Cons.prems(3) by auto
    then obtain rest where rest: "fragments False rest fs" using fragments_cons [of "begin" ptr t d fs] Cons.prems(4) f by blast
    let ?got = "if begin then d else scratch @ d"
    obtain r' st' where step: "reader_at r' (aligned off + 7 + length d) R'"
        "ReadRecord_loop read st r = (if fs = [] then Some (True, ?got, r') else ReadRecord_loop read st' r')" "between False ?got st'"
      using read_step [of r off t d R' "begin" ptr fs scratch st] Cons.prems 2(1) unfolding f by auto
    then show ?thesis using Cons.IH [OF step(1) 2(2) Cons.prems(3) rest fit(2) step(3)] ne by simp
  qed
qed simp

end


section \<open>A log from beginning to end\<close>

text \<open>Records written one after the other, as long as that succeeds\<close>
fun add_all :: "('f \<Rightarrow> vch_t \<Rightarrow> bool \<times> 'f) \<Rightarrow> ('f \<Rightarrow> bool \<times> 'f) \<Rightarrow> vch_t list \<Rightarrow> 'f log_writer \<Rightarrow> (bool \<times> 'f log_writer) option" where
  "add_all fappend fflush [] w = Some (True, w)"
| "add_all fappend fflush (x # xs) w =
     do { (ok, w) \<leftarrow> AddRecord fappend fflush x w; if ok then add_all fappend fflush xs w else Some (False, w) }"

text \<open>\<^verbatim>\<open>while (reader.ReadRecord(&record, &scratch))\<close>\<close>
partial_function (option) read_all ::
  "('s \<Rightarrow> nat \<Rightarrow> bool \<times> vch_t \<times> 's) \<Rightarrow> ('s \<Rightarrow> nat \<Rightarrow> bool \<times> 's) \<Rightarrow> 's log_reader \<Rightarrow> (vch_t list \<times> 's log_reader) option" where
  "read_all read skip r =
     do { (ok, x, r) \<leftarrow> ReadRecord read skip r;
          if ok then do { (xs, r) \<leftarrow> read_all read skip r; Some (x # xs, r) } else Some ([], r) }"

context file_interface
begin

lemma add_all_layout:
  assumes "good (lw_dest w)" and "lw_block_offset w \<le> 32768"
  shows "\<exists>w' fss. add_all append flush xs w = Some (True, w') \<and> good (lw_dest w') \<and> list_all2 (fragments True) xs fss \<and> fits (lw_block_offset w) (concat fss)
    \<and> content (lw_dest w') = content (lw_dest w) @ layout (lw_block_offset w) (concat fss) \<and> lw_block_offset w' = end_off (lw_block_offset w) (concat fss)"
  using assms
proof (induction xs arbitrary: w)
  case Nil
  then show ?case by (intro exI [of _ w] exI [of _ "[]"]) simp
next
  case (Cons x xs)
  obtain fs v where v: "AddRecord_loop append flush True x w = Some (True, v)" "good (lw_dest v)" "fragments True x fs" "fits (lw_block_offset w) fs"
      "content (lw_dest v) = content (lw_dest w) @ layout (lw_block_offset w) fs" "lw_block_offset v = end_off (lw_block_offset w) fs"
    using add_record_loop [OF Cons.prems] by blast
  obtain w' fss where w': "add_all append flush xs v = Some (True, w')" "good (lw_dest w')" "list_all2 (fragments True) xs fss" "fits (lw_block_offset v) (concat fss)"
      "content (lw_dest w') = content (lw_dest v) @ layout (lw_block_offset v) (concat fss)" "lw_block_offset w' = end_off (lw_block_offset v) (concat fss)"
    using Cons.IH [OF v(2)] fits_end [OF v(4)] v(6) by auto
  have "fits (lw_block_offset w) (fs @ concat fss)" using v(4) w'(4) by (simp add: v(6) fits_append)
  then show ?case using v w' by (intro exI [of _ w'] exI [of _ "fs # fss"]) (simp add: AddRecord_def layout_append)
qed

lemma read_all_layout:
  assumes "reader_at r off (layout off (concat fss) @ R)" and "list_all2 (fragments True) xs fss" and "fits off (concat fss @ fs)"
    and "layout (end_off off (concat fss)) fs = R @ S" and "S \<noteq> []" and "fragments True y fs"
  shows "\<exists>r'. read_all read skip r = Some (xs, r') \<and> lr_reports r' = []"
  using assms(1-4)
proof (induction xs arbitrary: r off fss)
  case Nil
  let ?st = "\<lparr>in_fragmented_record = False, prospective_record_offset = 0, rs_scratch = [], rs_fragment = []\<rparr>"
  obtain r' where "ReadRecord_loop read ?st r = Some (False, [], r')" "lr_reports r' = []"
    using read_record_cut [of r off R fs S True y "[]" ?st] Nil assms(5,6) by (auto simp: between_def)
  then show ?case using Nil(1) by (subst read_all.simps) (simp add: ReadRecord_def reader_at_def)
next
  case (Cons x xs)
  then obtain gs gss where fss: "fss = gs # gss" "fragments True x gs" "list_all2 (fragments True) xs gss" by (auto simp: list_all2_Cons1)
  let ?st = "\<lparr>in_fragmented_record = False, prospective_record_offset = 0, rs_scratch = [], rs_fragment = []\<rparr>"
  have at: "reader_at r off (layout off gs @ layout (end_off off gs) (concat gss) @ R)" using Cons.prems(1) fss(1) by (simp add: layout_append)
  have fits: "fits off gs" "fits (end_off off gs) (concat gss @ fs)" using Cons.prems(3) fss(1) by (simp_all add: fits_append layout_append)
  obtain r1 where r1: "ReadRecord_loop read ?st r = Some (True, x, r1)" "reader_at r1 (end_off off gs) (layout (end_off off gs) (concat gss) @ R)"
    using read_record [OF at fss(2) fits(1), of "[]" ?st] by (auto simp: between_def)
  have "\<exists>r'. read_all read skip r1 = Some (xs, r') \<and> lr_reports r' = []"
    using Cons.IH [OF r1(2) fss(3) fits(2)] Cons.prems(4) fss(1) by (simp add: layout_append)
  then show ?case using r1(1) Cons.prems(1) by (subst read_all.simps) (auto simp: ReadRecord_def reader_at_def)
qed

end


context file_interface
begin

lemma log_cut:
  assumes "good f" and "content f = []"
  shows "\<exists>w1 w2. add_all append flush xs (Writer_new f) = Some (True, w1) \<and> AddRecord append flush y w1 = Some (True, w2)
    \<and> good (lw_dest w1) \<and> good (lw_dest w2) \<and> (\<exists>more. more \<noteq> [] \<and> content (lw_dest w2) = content (lw_dest w1) @ more)
    \<and> (\<forall>n s. length (content (lw_dest w1)) \<le> n \<longrightarrow> n < length (content (lw_dest w2)) \<longrightarrow> readable s \<longrightarrow> unread s = take n (content (lw_dest w2)) \<longrightarrow>
         (\<exists>r. read_all read skip (Reader_new s True 0) = Some (xs, r) \<and> lr_reports r = []))"
proof -
  obtain w1 fss where w1: "add_all append flush xs (Writer_new f) = Some (True, w1)" "good (lw_dest w1)" "list_all2 (fragments True) xs fss" "fits 0 (concat fss)"
      "content (lw_dest w1) = layout 0 (concat fss)" "lw_block_offset w1 = end_off 0 (concat fss)"
    using add_all_layout [of "Writer_new f" xs] assms by (auto simp: Writer_new_def)
  obtain fs w2 where w2: "AddRecord append flush y w1 = Some (True, w2)" "good (lw_dest w2)" "fragments True y fs" "fits (lw_block_offset w1) fs"
      "content (lw_dest w2) = content (lw_dest w1) @ layout (lw_block_offset w1) fs"
    using add_record_loop [OF w1(2), of True y] fits_end [OF w1(4)] w1(6) unfolding AddRecord_def by metis
  have more: "layout (lw_block_offset w1) fs \<noteq> []" using w2(3) by (cases fs) (auto simp: phys_def)
  have "\<exists>r. read_all read skip (Reader_new s True 0) = Some (xs, r) \<and> lr_reports r = []"
    if n: "length (content (lw_dest w1)) \<le> n" "n < length (content (lw_dest w2))" and s: "readable s" "unread s = take n (content (lw_dest w2))" for n s
  proof -
    define m where "m = n - length (content (lw_dest w1))"
    have "unread s = layout 0 (concat fss) @ take m (layout (lw_block_offset w1) fs)" using n(1) s(2) w1(5) w2(5) by (simp add: m_def)
    then have at: "reader_at (Reader_new s True 0) 0 (layout 0 (concat fss) @ take m (layout (lw_block_offset w1) fs))" using reader_new [OF s(1), of True] by simp
    have "drop m (layout (lw_block_offset w1) fs) \<noteq> []" using n w2(5) by (simp add: m_def)
    moreover have "layout (end_off 0 (concat fss)) fs = take m (layout (lw_block_offset w1) fs) @ drop m (layout (lw_block_offset w1) fs)" by (simp add: w1(6))
    moreover have "fits 0 (concat fss @ fs)" using w1(4,6) w2(4) by (simp add: fits_append)
    ultimately show ?thesis using read_all_layout [OF at w1(3) _ _ _ w2(3)] by blast
  qed
  then show ?thesis using w1 w2 more by blast
qed

end

text \<open>
  C17. A log survives a crash at any moment.  Records are written to a new file, and then one more whose writing is cut off anywhere, within a
  fragment, a header or the trailer of a block: reading the file gives exactly the records that were complete, each as it was written
  whatever its length, and reports no corruption.  In particular a log that ends with a complete record is read back as it was written.
\<close>
theorem log_survives_crash:
  "\<exists>w1 w2. add_all Writable_Append Writable_Flush xs (Writer_new FileState_new) = Some (True, w1) \<and> AddRecord Writable_Append Writable_Flush y w1 = Some (True, w2)
    \<and> file_ok (lw_dest w1) \<and> (\<exists>more. more \<noteq> [] \<and> file_content (lw_dest w2) = file_content (lw_dest w1) @ more)
    \<and> (\<forall>n s. length (file_content (lw_dest w1)) \<le> n \<longrightarrow> n < length (file_content (lw_dest w2)) \<longrightarrow> sequential_ok s \<longrightarrow>
         sequential_unread s = take n (file_content (lw_dest w2)) \<longrightarrow>
         (\<exists>r. read_all Sequential_Read Sequential_Skip (Reader_new s True 0) = Some (xs, r) \<and> lr_reports r = []))"
  using memfile.log_cut [OF content_new, of xs y Sequential_Skip] by blast

theorem log_survives_crash_witness:
  "\<exists>w1 r. add_all Writable_Append Writable_Flush [[1, 2], [], [3]] (Writer_new FileState_new) = Some (True, w1)
    \<and> read_all Sequential_Read Sequential_Skip (Reader_new (Sequential_new (lw_dest w1)) True 0) = Some ([[1, 2], [], [3]], r) \<and> lr_reports r = []"
  using log_survives_crash [of "[[1, 2], [], [3]]" "[4]"]
proof (elim exE conjE)
  fix w1 w2 more
  assume w: "add_all Writable_Append Writable_Flush [[1, 2], [], [3]] (Writer_new FileState_new) = Some (True, w1)" "file_ok (lw_dest w1)"
      "more \<noteq> []" "file_content (lw_dest w2) = file_content (lw_dest w1) @ more"
    and cut: "\<forall>n s. length (file_content (lw_dest w1)) \<le> n \<longrightarrow> n < length (file_content (lw_dest w2)) \<longrightarrow> sequential_ok s \<longrightarrow>
      sequential_unread s = take n (file_content (lw_dest w2)) \<longrightarrow> (\<exists>r. read_all Sequential_Read Sequential_Skip (Reader_new s True 0) = Some ([[1, 2], [], [3]], r) \<and> lr_reports r = [])"
  have "sequential_ok (Sequential_new (lw_dest w1))" "sequential_unread (Sequential_new (lw_dest w1)) = file_content (lw_dest w1)"
    using w(2) by (simp_all add: sequential_ok_def sequential_unread_def Sequential_new_def)
  then show ?thesis using cut [rule_format, of "length (file_content (lw_dest w1))" "Sequential_new (lw_dest w1)"] w by simp
qed

end
