(* ===== verification/DbImpl.thy ===== *)
theory DbImpl
  imports LevelLog
begin

text \<open>
  Writing to the database, reading from it, and recovering it from its logs (\<^verbatim>\<open>src/leveldb/db/db_impl.cc\<close>): writers wait in a queue, the
  first of them makes room, takes the batches of those behind it into one group, gives the group its sequence numbers, adds it to the log and
  inserts it into the memory table.  To make room is to switch to a new log and a new memory table, when the table is full or when a writer
  without a batch asks for it, and to wait for the background thread, which compacts the old memory table.

  A call runs with the mutex held or by the writer at the front of the queue; wherever it releases the mutex, the runs of the background thread
  are arguments, so that every interleaving is a value of them.  The tables on disk are not modelled, only which memory tables were handed to
  \<^verbatim>\<open>WriteLevel0Table\<close>; the lookup in the tables, the number of files of level 0, the results of file operations and whether a memory table has
  outgrown the write buffer are arguments, of which nothing is assumed.  The database is not being closed, and manual compactions are left out.
\<close>

section \<open>Writing\<close>

record db_writer =
  wr_batch :: "write_batch option"
  wr_sync :: bool

text \<open>
  \<open>db_old_logs\<close> are the files of the logs before the current one that the descriptor still needs, \<open>db_compacted\<close> the memory tables that
  were written out, and \<open>db_manifest_sequence\<close> is the last sequence number that the descriptor has.
\<close>
record db_impl =
  db_log :: "FileState log_writer"
  db_old_logs :: "FileState list"
  db_mem :: memtable
  db_imm :: "memtable option"
  db_compacted :: "memtable list"
  db_level0 :: nat
  db_last_sequence :: u64
  db_manifest_sequence :: u64
  db_bg_error :: batch_status

text \<open>The loop over the writers behind the first: the group, and how many of them it takes.  \<open>tmp\<close> tells whether the group is already
  \<^verbatim>\<open>tmp_batch_\<close>.\<close>
fun group_loop :: "bool \<Rightarrow> nat \<Rightarrow> nat \<Rightarrow> bool \<Rightarrow> write_batch \<Rightarrow> nat \<Rightarrow> db_writer list \<Rightarrow> (write_batch \<times> nat) option" where
  "group_loop first_sync max_size bytes tmp result taken [] = Some (result, taken)"
| "group_loop first_sync max_size bytes tmp result taken (w # ws) =
     (if wr_sync w \<and> \<not> first_sync then Some (result, taken)
      else case wr_batch w of
             None \<Rightarrow> group_loop first_sync max_size bytes tmp result (taken + 1) ws
           | Some b \<Rightarrow>
               (let bytes = bytes + length b
                in if bytes > max_size then Some (result, taken)
                   else do { result \<leftarrow> (if tmp then Some result else Batch_Append WriteBatch_Clear result);
                             result \<leftarrow> Batch_Append result b;
                             group_loop first_sync max_size bytes True result (taken + 1) ws }))"

definition BuildBatchGroup :: "db_writer list \<Rightarrow> (write_batch \<times> nat) option" where
  "BuildBatchGroup writers =
     (case writers of [] \<Rightarrow> None
      | fw # ws \<Rightarrow>
          do { result \<leftarrow> wr_batch fw;
               let bytes = length result;
               let max_size = (if bytes \<le> 128 * 1024 then bytes + 128 * 1024 else 1024 * 1024);
               group_loop (wr_sync fw) max_size bytes False result 1 ws })"

subsection \<open>The background thread\<close>

text \<open>
  A run of the background thread that had nothing to do, or one with the status of writing its tables, the status of the new descriptor and the
  number of files of level 0 after it.
\<close>
datatype bg_run = BgIdle | BgWork batch_status batch_status nat

definition RecordBackgroundError :: "batch_status \<Rightarrow> db_impl \<Rightarrow> db_impl" where
  "RecordBackgroundError s db = (if db_bg_error db = OK then db\<lparr>db_bg_error := s\<rparr> else db)"

text \<open>The descriptor gets the number of the current log, so that the earlier ones are not needed any more, and the last sequence number\<close>
definition CompactMemTable :: "batch_status \<Rightarrow> batch_status \<Rightarrow> nat \<Rightarrow> memtable \<Rightarrow> db_impl \<Rightarrow> db_impl" where
  "CompactMemTable table manifest level0 imm db =
     (let s = table;
          s = (if s = OK then manifest else s)
      in if s = OK
         then db\<lparr>db_imm := None, db_compacted := db_compacted db @ [imm], db_level0 := level0,
                 db_old_logs := [], db_manifest_sequence := db_last_sequence db\<rparr>
         else RecordBackgroundError s db)"

text \<open>Without an old memory table, tables are compacted into other tables\<close>
fun BackgroundCompaction :: "bg_run \<Rightarrow> db_impl \<Rightarrow> db_impl" where
  "BackgroundCompaction BgIdle db = db"
| "BackgroundCompaction (BgWork table manifest level0) db =
     (case db_imm db of
        Some imm \<Rightarrow> CompactMemTable table manifest level0 imm db
      | None \<Rightarrow> (let status = (if table = OK then manifest else table)
                 in if status = OK then db\<lparr>db_level0 := level0, db_manifest_sequence := db_last_sequence db\<rparr>
                    else RecordBackgroundError status db))"

definition BackgroundCall :: "bg_run \<Rightarrow> db_impl \<Rightarrow> db_impl" where
  "BackgroundCall run db = (if db_bg_error db \<noteq> OK then db else BackgroundCompaction run db)"

subsection \<open>Room for a write\<close>

definition kL0_SlowdownWritesTrigger :: nat where
  "kL0_SlowdownWritesTrigger = 8"

definition kL0_StopWritesTrigger :: nat where
  "kL0_StopWritesTrigger = 12"

definition switch_memtable :: "db_impl \<Rightarrow> db_impl" where
  "switch_memtable db = db\<lparr>db_old_logs := db_old_logs db @ [lw_dest (db_log db)], db_log := Writer_new FileState_new,
     db_imm := Some (db_mem db), db_mem := MemTable_new\<rparr>"

text \<open>
  Each turn of the loop that does not return uses one of the events: the background thread's runs while the mutex is released, or the
  status of creating the new log file.  \<open>None\<close> is that the writer still waits after all of them.
\<close>
fun MakeRoomForWrite ::
  "(memtable \<Rightarrow> bool) \<Rightarrow> bool \<Rightarrow> bool \<Rightarrow> (bg_run list \<times> batch_status) list \<Rightarrow> db_impl \<Rightarrow> (batch_status \<times> db_impl) option" where
  "MakeRoomForWrite too_large force allow_delay events db =
     (if db_bg_error db \<noteq> OK then Some (db_bg_error db, db)
      else if allow_delay \<and> db_level0 db \<ge> kL0_SlowdownWritesTrigger
      then (case events of [] \<Rightarrow> None
            | (runs, _) # events \<Rightarrow> MakeRoomForWrite too_large force False events (fold BackgroundCall runs db))
      else if \<not> force \<and> \<not> too_large (db_mem db) then Some (OK, db)
      else if db_imm db \<noteq> None
      then (case events of [] \<Rightarrow> None
            | (runs, _) # events \<Rightarrow> MakeRoomForWrite too_large force allow_delay events (fold BackgroundCall runs db))
      else if db_level0 db \<ge> kL0_StopWritesTrigger
      then (case events of [] \<Rightarrow> None
            | (runs, _) # events \<Rightarrow> MakeRoomForWrite too_large force allow_delay events (fold BackgroundCall runs db))
      else (case events of [] \<Rightarrow> None
            | (_, new_file) # events \<Rightarrow>
                if new_file \<noteq> OK then Some (new_file, db)
                else MakeRoomForWrite too_large False allow_delay events (switch_memtable db)))"

declare MakeRoomForWrite.simps [simp del]

subsection \<open>One turn of the writer at the front\<close>

text \<open>
  What the background thread does in a turn: before it, in the loop that makes room, and while the group is written to the log.
\<close>
record write_turn =
  wt_before :: "bg_run list"
  wt_room :: "(bg_run list \<times> batch_status) list"
  wt_logging :: "bg_run list"

text \<open>The status, how many writers are done with it, and the database; \<open>sync\<close> is the file's \<^verbatim>\<open>Sync\<close>\<close>
definition DBImpl_Write ::
  "(FileState \<Rightarrow> bool \<times> FileState) \<Rightarrow> (memtable \<Rightarrow> bool) \<Rightarrow> write_turn \<Rightarrow> db_writer list \<Rightarrow> db_impl \<Rightarrow> (batch_status \<times> nat \<times> db_impl) option" where
  "DBImpl_Write sync too_large turn writers db =
     (case writers of [] \<Rightarrow> None
      | w # _ \<Rightarrow>
          do { (status, db) \<leftarrow> MakeRoomForWrite too_large (wr_batch w = None) (wr_batch w \<noteq> None) (wt_room turn) (fold BackgroundCall (wt_before turn) db);
               if status = OK \<and> wr_batch w \<noteq> None
               then do { (updates, taken) \<leftarrow> BuildBatchGroup writers;
                         let updates = Batch_SetSequence (db_last_sequence db + 1) updates;
                         let last_sequence = db_last_sequence db + scast (Batch_Count updates);
                         let db = fold BackgroundCall (wt_logging turn) db;
                         (ok, log) \<leftarrow> AddRecord Writable_Append Writable_Flush updates (db_log db);
                         let (synced, file) = (if ok \<and> wr_sync w then sync (lw_dest log) else (True, lw_dest log));
                         let log = log\<lparr>lw_dest := file\<rparr>;
                         (status, mem) \<leftarrow> (if ok \<and> synced then InsertInto updates (db_mem db) else Some (IOError, db_mem db));
                         let db = db\<lparr>db_log := log, db_mem := mem\<rparr>;
                         let db = (if synced then db else RecordBackgroundError status db);
                         Some (status, taken, db\<lparr>db_last_sequence := last_sequence\<rparr>) }
               else Some (status, 1, db) })"

text \<open>\<^verbatim>\<open>DB::Put\<close> and \<^verbatim>\<open>DB::Delete\<close> write a batch of one\<close>
definition DB_Put :: "vch_t \<Rightarrow> vch_t \<Rightarrow> write_batch" where
  "DB_Put key value = WriteBatch_Put key value WriteBatch_Clear"

definition DB_Delete :: "vch_t \<Rightarrow> write_batch" where
  "DB_Delete key = WriteBatch_Delete key WriteBatch_Clear"

section \<open>Reading\<close>

text \<open>\<open>current_get\<close> is the lookup in the tables on disk\<close>
definition DBImpl_Get :: "(LookupKey \<Rightarrow> get_result option) \<Rightarrow> u64 option \<Rightarrow> vch_t \<Rightarrow> db_impl \<Rightarrow> get_result option" where
  "DBImpl_Get current_get snapshot key db =
     (let snapshot = (case snapshot of None \<Rightarrow> db_last_sequence db | Some s \<Rightarrow> s);
          lkey = LookupKey_new key snapshot
      in do { r \<leftarrow> MemTable_Get lkey (db_mem db);
              if r \<noteq> Unknown then Some r
              else do { r \<leftarrow> (case db_imm db of None \<Rightarrow> Some Unknown | Some imm \<Rightarrow> MemTable_Get lkey imm);
                        if r \<noteq> Unknown then Some r else current_get lkey } })"

section \<open>Recovery\<close>

text \<open>
  What recovery depends on: the options \<^verbatim>\<open>paranoid_checks\<close> and, for the last log, \<^verbatim>\<open>reuse_logs\<close>; when a memory table has outgrown the write
  buffer; the status of \<^verbatim>\<open>WriteLevel0Table\<close>; and what \<^verbatim>\<open>GetFileSize\<close> and \<^verbatim>\<open>NewAppendableFile\<close> return for the log when both succeed.
\<close>
record recover_options =
  ro_paranoid_checks :: bool
  ro_too_large :: "memtable \<Rightarrow> bool"
  ro_write_table :: "memtable \<Rightarrow> batch_status"
  ro_reuse_logs :: bool
  ro_reopen :: "(nat \<times> FileState) option"

text \<open>The variables of the function; \<open>rec_written\<close> are the memory tables that were handed to \<^verbatim>\<open>WriteLevel0Table\<close> with success, \<open>rec_reused\<close> the log and the
  memory table to go on with\<close>
record recovery =
  rec_reader :: "SequentialFileImpl log_reader"
  rec_status :: batch_status
  rec_mem :: "memtable option"
  rec_max_sequence :: u64
  rec_compactions :: nat
  rec_save_manifest :: bool
  rec_written :: "memtable list"
  rec_reused :: "(FileState log_writer \<times> memtable) option"

definition MaybeIgnoreError :: "bool \<Rightarrow> batch_status \<Rightarrow> batch_status" where
  "MaybeIgnoreError paranoid_checks s = (if s = OK \<or> paranoid_checks then s else OK)"

text \<open>The reporter sets the status to the first corruption, unless errors are ignored\<close>
definition reporter_status :: "bool \<Rightarrow> (nat \<times> string) list \<Rightarrow> batch_status \<Rightarrow> batch_status" where
  "reporter_status paranoid_checks reports s =
     (if paranoid_checks \<and> s = OK then (case reports of [] \<Rightarrow> OK | (bytes, reason) # _ \<Rightarrow> Corruption reason) else s)"

definition write_level0 :: "recover_options \<Rightarrow> memtable \<Rightarrow> recovery \<Rightarrow> recovery" where
  "write_level0 options mem s = s\<lparr>rec_save_manifest := True, rec_status := ro_write_table options mem,
     rec_written := rec_written s @ (if ro_write_table options mem = OK then [mem] else [])\<rparr>"

partial_function (option) RecoverLogFile_loop :: "recover_options \<Rightarrow> recovery \<Rightarrow> recovery option" where
  "RecoverLogFile_loop options s =
     do { (ok, rec, reader) \<leftarrow> ReadRecord Sequential_Read Sequential_Skip (rec_reader s);
          let reports = drop (length (lr_reports (rec_reader s))) (lr_reports reader);
          let s = s\<lparr>rec_reader := reader, rec_status := reporter_status (ro_paranoid_checks options) reports (rec_status s)\<rparr>;
          if \<not> ok \<or> rec_status s \<noteq> OK then Some s
          else if length rec < 12
          then RecoverLogFile_loop options
                 (s\<lparr>rec_status := reporter_status (ro_paranoid_checks options) [(length rec, ''log record too small'')] (rec_status s)\<rparr>)
          else do { batch \<leftarrow> Batch_SetContents rec;
                    let mem = (case rec_mem s of None \<Rightarrow> MemTable_new | Some m \<Rightarrow> m);
                    (status, mem) \<leftarrow> InsertInto batch mem;
                    let status = MaybeIgnoreError (ro_paranoid_checks options) status;
                    let s = s\<lparr>rec_mem := Some mem, rec_status := status\<rparr>;
                    if status \<noteq> OK then Some s
                    else (let last_seq = Batch_Sequence batch + scast (Batch_Count batch) - 1;
                              s = s\<lparr>rec_max_sequence := (if last_seq > rec_max_sequence s then last_seq else rec_max_sequence s)\<rparr>
                          in if ro_too_large options mem
                             then (let s = write_level0 options mem (s\<lparr>rec_compactions := rec_compactions s + 1, rec_mem := None\<rparr>)
                                   in if rec_status s \<noteq> OK then Some s else RecoverLogFile_loop options s)
                             else RecoverLogFile_loop options s) } }"

text \<open>After the loop the last log is kept for new writes, or what is left in memory is written out\<close>
definition reuse_log :: "recover_options \<Rightarrow> bool \<Rightarrow> recovery \<Rightarrow> recovery" where
  "reuse_log options last_log s =
     (if rec_status s = OK \<and> ro_reuse_logs options \<and> last_log \<and> rec_compactions s = 0
      then (case ro_reopen options of
              None \<Rightarrow> s
            | Some (lfile_size, logfile) \<Rightarrow>
                s\<lparr>rec_reused := Some (Writer_new_at logfile lfile_size, case rec_mem s of None \<Rightarrow> MemTable_new | Some m \<Rightarrow> m), rec_mem := None\<rparr>)
      else s)"

definition write_rest :: "recover_options \<Rightarrow> recovery \<Rightarrow> recovery" where
  "write_rest options s =
     (case rec_mem s of None \<Rightarrow> s | Some m \<Rightarrow> (if rec_status s = OK then write_level0 options m s else s)\<lparr>rec_mem := None\<rparr>)"

definition recover_start :: "FileState \<Rightarrow> u64 \<Rightarrow> recovery" where
  "recover_start file max_sequence =
     \<lparr>rec_reader = Reader_new (Sequential_new file) True 0, rec_status = OK, rec_mem = None, rec_max_sequence = max_sequence,
      rec_compactions = 0, rec_save_manifest = False, rec_written = [], rec_reused = None\<rparr>"

text \<open>The file is what opening it gives, or the status of the failure; the early return is an \<open>Inl\<close>\<close>
definition RecoverLogFile :: "recover_options \<Rightarrow> bool \<Rightarrow> batch_status + FileState \<Rightarrow> u64 \<Rightarrow> (batch_status + recovery) option" where
  "RecoverLogFile options last_log opened max_sequence =
     (case opened of
        Inl status \<Rightarrow> Some (Inl (MaybeIgnoreError (ro_paranoid_checks options) status))
      | Inr file \<Rightarrow> map_option (\<lambda>s. Inr (write_rest options (reuse_log options last_log s)))
                      (RecoverLogFile_loop options (recover_start file max_sequence)))"

text \<open>
  \<^verbatim>\<open>Recover\<close> after the descriptor has been read, which gives \<open>versions_sequence\<close>: over the logs that the directory has and the descriptor
  still needs, in the order of their numbers.
\<close>
record db_recovery =
  dr_max_sequence :: u64
  dr_save_manifest :: bool
  dr_written :: "memtable list"
  dr_reused :: "(FileState log_writer \<times> memtable) option"

fun Recover_logs :: "recover_options \<Rightarrow> (batch_status + FileState) list \<Rightarrow> db_recovery \<Rightarrow> (batch_status \<times> db_recovery) option" where
  "Recover_logs options [] r = Some (OK, r)"
| "Recover_logs options (log # logs) r =
     do { result \<leftarrow> RecoverLogFile options (logs = []) log (dr_max_sequence r);
          case result of
            Inl s \<Rightarrow> if s \<noteq> OK then Some (s, r) else Recover_logs options logs r
          | Inr s \<Rightarrow>
              (let r = \<lparr>dr_max_sequence = rec_max_sequence s, dr_save_manifest = dr_save_manifest r \<or> rec_save_manifest s,
                        dr_written = dr_written r @ rec_written s, dr_reused = rec_reused s\<rparr>
               in if rec_status s \<noteq> OK then Some (rec_status s, r) else Recover_logs options logs r) }"

definition DBImpl_Recover :: "recover_options \<Rightarrow> (batch_status + FileState) list \<Rightarrow> u64 \<Rightarrow> (batch_status \<times> u64 \<times> db_recovery) option" where
  "DBImpl_Recover options logs versions_sequence =
     do { (s, r) \<leftarrow> Recover_logs options logs \<lparr>dr_max_sequence = 0, dr_save_manifest = False, dr_written = [], dr_reused = None\<rparr>;
          Some (s, if s = OK \<and> versions_sequence < dr_max_sequence r then dr_max_sequence r else versions_sequence, r) }"

section \<open>Groups of writers\<close>

text \<open>The writers of a queue take their turns until all are done; \<open>None\<close> is that some still wait after all turns\<close>
fun serve :: "(FileState \<Rightarrow> bool \<times> FileState) \<Rightarrow> (memtable \<Rightarrow> bool) \<Rightarrow> write_turn list \<Rightarrow> db_writer list \<Rightarrow> db_impl \<Rightarrow> (batch_status list \<times> db_impl) option" where
  "serve sync too_large turns [] db = Some ([], db)"
| "serve sync too_large [] (w # ws) db = None"
| "serve sync too_large (turn # turns) (w # ws) db =
     do { (status, taken, db) \<leftarrow> DBImpl_Write sync too_large turn (w # ws) db;
          (rest, db) \<leftarrow> serve sync too_large turns (drop taken (w # ws)) db;
          Some (replicate taken status @ rest, db) }"

definition db_new :: db_impl where
  "db_new = \<lparr>db_log = Writer_new FileState_new, db_old_logs = [], db_mem = MemTable_new, db_imm = None, db_compacted = [], db_level0 = 0,
     db_last_sequence = 0, db_manifest_sequence = 0, db_bg_error = OK\<rparr>"

text \<open>A writer that has collected some writes, and one that only asks for a compaction\<close>
definition writer_of :: "batch_op list option \<times> bool \<Rightarrow> db_writer" where
  "writer_of w = \<lparr>wr_batch = map_option (\<lambda>ops. fold add_op ops WriteBatch_Clear) (fst w), wr_sync = snd w\<rparr>"

definition writer_ops :: "batch_op list option \<times> bool \<Rightarrow> batch_op list" where
  "writer_ops w = (case fst w of None \<Rightarrow> [] | Some ops \<Rightarrow> ops)"

text \<open>The writes of the writers that were told of success\<close>
definition acked :: "batch_status list \<Rightarrow> (batch_op list option \<times> bool) list \<Rightarrow> batch_op list" where
  "acked sts ws = concat (map (\<lambda>(st, w). if st = OK then writer_ops w else []) (zip sts ws))"

lemma group_loop_ops:
  "\<exists>s' k. group_loop fs m n tmp (ops_batch s ops) taken (map writer_of ws) = Some (ops_batch s' (ops @ concat (map writer_ops (take k ws))), taken + k)"
proof (induction ws arbitrary: n tmp s ops taken)
  case Nil
  show ?case by (intro exI [of _ s] exI [of _ 0]) simp
next
  case (Cons w ws)
  show ?case
  proof (cases "group_loop fs m n tmp (ops_batch s ops) taken (map writer_of (w # ws)) = Some (ops_batch s ops, taken)")
    case True
    then show ?thesis by (intro exI [of _ s] exI [of _ 0]) simp
  next
    case False
    then obtain n' tmp' s' where "group_loop fs m n tmp (ops_batch s ops) taken (map writer_of (w # ws)) =
        group_loop fs m n' tmp' (ops_batch s' (ops @ writer_ops w)) (taken + 1) (map writer_of ws)"
    proof (cases "fst w")
      case None
      then show ?thesis using False that [of n tmp s] by (auto simp: writer_of_def writer_ops_def split: if_splits)
    next
      case (Some b)
      let ?r = "if tmp then s else 0"
      have "(if tmp then Some (ops_batch s ops) else Batch_Append WriteBatch_Clear (ops_batch s ops)) = Some (ops_batch ?r ops)" by (simp add: clear_batch append_batch)
      then show ?thesis using False Some that [of "n + length (ops_batch 0 b)" True ?r]
        by (simp add: writer_of_def writer_ops_def built_batch append_batch Let_def split: if_splits)
    qed
    moreover obtain s2 k where "group_loop fs m n' tmp' (ops_batch s' (ops @ writer_ops w)) (taken + 1) (map writer_of ws) =
        Some (ops_batch s2 ((ops @ writer_ops w) @ concat (map writer_ops (take k ws))), taken + 1 + k)" using Cons.IH by blast
    ultimately show ?thesis by (intro exI [of _ s2] exI [of _ "Suc k"]) simp
  qed
qed

lemma build_group: "fst w = Some ops \<Longrightarrow> \<exists>s k. BuildBatchGroup (map writer_of (w # ws)) = Some (ops_batch s (ops @ concat (map writer_ops (take k ws))), 1 + k)"
  using group_loop_ops [of "snd w" _ _ False 0 ops 1 ws] by (simp add: BuildBatchGroup_def writer_of_def built_batch Let_def)


section \<open>What the database holds\<close>

text \<open>The records of a log are the batches of consecutive writes\<close>
fun log_records :: "u64 \<Rightarrow> vch_t list \<Rightarrow> batch_op list \<Rightarrow> bool" where
  "log_records seq [] ops \<longleftrightarrow> ops = []"
| "log_records seq (x # xs) ops \<longleftrightarrow> (\<exists>o1 o2. x = ops_batch seq o1 \<and> ops = o1 @ o2 \<and> log_records (seq + of_nat (length o1)) xs o2)"

lemma log_records_append: "log_records seq xs ops \<Longrightarrow> log_records seq (xs @ [ops_batch (seq + of_nat (length ops)) o2]) (ops @ o2)"
proof (induction xs arbitrary: seq ops)
  case (Cons x xs)
  then obtain o1 o3 where x: "x = ops_batch seq o1" "ops = o1 @ o3" "log_records (seq + of_nat (length o1)) xs o3" by auto
  then have "log_records (seq + of_nat (length o1)) (xs @ [ops_batch (seq + of_nat (length o1) + of_nat (length o3)) o2]) (o3 @ o2)" by (intro Cons.IH)
  then have "\<exists>a b. x = ops_batch seq a \<and> ops @ o2 = a @ b \<and> log_records (seq + of_nat (length a)) (xs @ [ops_batch (seq + of_nat (length ops)) o2]) b"
    using x by (intro exI [of _ o1] exI [of _ "o3 @ o2"]) (simp add: add.assoc)
  then show ?case by simp
qed simp

lemma add_all_append: "add_all a f xs w = Some (True, v) \<Longrightarrow> add_all a f (xs @ ys) w = add_all a f ys v"
  by (induction xs arbitrary: w) (auto split: bind_splits if_splits)


lemma numbered_app: "numbered seq (a @ b) = numbered seq a @ numbered (seq + of_nat (length a)) b"
  by (induction a arbitrary: seq) (simp_all add: algebra_simps)

lemma numbered_seq: "e \<in> set (numbered seq ops) \<Longrightarrow> \<exists>i<length ops. we_seq e = seq + of_nat i"
proof (induction ops arbitrary: seq)
  case (Cons op ops)
  show ?case
  proof (cases "e = op_entry seq op")
    case True
    then show ?thesis by (cases op) (auto intro!: exI [of _ 0])
  next
    case False
    then obtain i where "i < length ops" "we_seq e = seq + 1 + of_nat i" using Cons by auto
    then show ?thesis by (intro exI [of _ "Suc i"]) simp
  qed
qed simp

lemma numbered_bound: "length ops < 2 ^ 63 \<Longrightarrow> e \<in> set (numbered 1 ops) \<Longrightarrow> we_seq e < of_nat (length ops) + 1"
proof -
  assume n: "length ops < 2 ^ 63" and "e \<in> set (numbered 1 ops)"
  then obtain i where i: "i < length ops" "we_seq e = 1 + of_nat i" using numbered_seq by blast
  then have "unat (we_seq e) = 1 + i" "unat (of_nat (length ops) + 1 :: u64) = length ops + 1" using n by (simp_all add: unat_word_ariths unat_of_nat take_bit_nat_eq_self)
  then show ?thesis using i(1) by (simp add: word_less_nat_alt)
qed

lemma count_scast: "n < 2 ^ 31 \<Longrightarrow> (scast (of_nat n :: u32) :: u64) = of_nat n"
  by (simp add: signed_of_nat signed_take_bit_int_eq_self)

lemma unat_plus_nat: "unat seq + n < 2 ^ 64 \<Longrightarrow> unat (seq + of_nat n) = unat seq + n" for seq :: u64
  by (simp add: unat_word_ariths unat_of_nat take_bit_nat_eq_self)

lemma numbered_before:
  assumes "e \<in> set (numbered seq ops)" and "unat seq + length ops < 2 ^ 64"
  shows "we_seq e < seq + of_nat (length ops)"
proof -
  obtain i where i: "i < length ops" "we_seq e = seq + of_nat i" using numbered_seq [OF assms(1)] by blast
  then show ?thesis using unat_plus_nat [of seq i] unat_plus_nat [of seq "length ops"] assms(2) by (simp add: word_less_nat_alt)
qed

definition log_of :: "u64 \<Rightarrow> batch_op list \<Rightarrow> FileState log_writer \<Rightarrow> bool" where
  "log_of seq ops log \<longleftrightarrow> (\<exists>xs. log_records seq xs ops \<and> add_all Writable_Append Writable_Flush xs (Writer_new FileState_new) = Some (True, log))"

lemma log_of_new: "log_of seq [] (Writer_new FileState_new)"
  by (auto simp: log_of_def intro!: exI [of _ "[]"])

lemma log_of_append:
  assumes "log_of seq ops log"
  shows "\<exists>log'. AddRecord Writable_Append Writable_Flush (ops_batch (seq + of_nat (length ops)) new) log = Some (True, log') \<and> log_of seq (ops @ new) log'"
proof -
  let ?x = "ops_batch (seq + of_nat (length ops)) new"
  obtain xs where xs: "log_records seq xs ops" "add_all Writable_Append Writable_Flush xs (Writer_new FileState_new) = Some (True, log)"
    using assms by (auto simp: log_of_def)
  then obtain log' where log': "AddRecord Writable_Append Writable_Flush ?x log = Some (True, log')"
    using memfile.log_cut [OF content_new, of xs ?x Sequential_Skip] by auto
  then have "add_all Writable_Append Writable_Flush (xs @ [?x]) (Writer_new FileState_new) = Some (True, log')" using add_all_append [OF xs(2)] by simp
  then show ?thesis using log' log_records_append [OF xs(1), of new] by (auto simp: log_of_def)
qed

text \<open>The number of the next write after \<open>n\<close> of them\<close>
abbreviation seq_after :: "nat \<Rightarrow> u64" where
  "seq_after n \<equiv> of_nat n + 1"

lemma unat_seq_after: "n < 2 ^ 31 \<Longrightarrow> unat (seq_after n) = n + 1"
  by (simp add: unat_word_ariths unat_of_nat take_bit_nat_eq_self)

lemma unat_nat: "n < 2 ^ 31 \<Longrightarrow> unat (of_nat n :: u64) = n"
  by (simp add: unat_of_nat take_bit_nat_eq_self)

text \<open>
  The writes of the database: those in memory tables that were compacted, those of the old memory table, with its log, and those of the
  current one, with its log.
\<close>
definition imm_holds :: "nat \<Rightarrow> batch_op list \<Rightarrow> db_impl \<Rightarrow> bool" where
  "imm_holds n os db \<longleftrightarrow> (case db_imm db of
     None \<Rightarrow> os = [] \<and> db_old_logs db = []
   | Some imm \<Rightarrow> mem_holds imm (numbered (seq_after n) os) \<and> (\<exists>log. db_old_logs db = [lw_dest log] \<and> log_of (seq_after n) os log))"

definition compacted_holds :: "batch_op list \<Rightarrow> db_impl \<Rightarrow> bool" where
  "compacted_holds os db \<longleftrightarrow> (\<exists>ess. list_all2 mem_holds (db_compacted db) ess \<and> concat ess = numbered 1 os)"

definition db_holds :: "batch_op list \<Rightarrow> batch_op list \<Rightarrow> batch_op list \<Rightarrow> db_impl \<Rightarrow> bool" where
  "db_holds a b c db \<longleftrightarrow> compacted_holds a db \<and> imm_holds (length a) b db
     \<and> mem_holds (db_mem db) (numbered (seq_after (length (a @ b))) c) \<and> log_of (seq_after (length (a @ b))) c (db_log db)
     \<and> db_last_sequence db = of_nat (length (a @ b @ c))
     \<and> length a \<le> unat (db_manifest_sequence db) \<and> unat (db_manifest_sequence db) \<le> length (a @ b @ c)"

definition db_with :: "batch_op list \<Rightarrow> db_impl \<Rightarrow> bool" where
  "db_with ops db \<longleftrightarrow> (\<exists>a b c. ops = a @ b @ c \<and> db_holds a b c db)"

lemma db_new_with: "db_with [] db_new"
  by (simp add: db_with_def db_holds_def compacted_holds_def imm_holds_def db_new_def mem_holds_new log_of_new)

subsection \<open>Background runs\<close>

lemma compact_holds:
  assumes "db_holds a b c db" and "db_imm db = Some imm" and "length (a @ b @ c) < 2 ^ 31"
  shows "db_holds (a @ b) [] c (db\<lparr>db_imm := None, db_compacted := db_compacted db @ [imm], db_level0 := n, db_old_logs := [], db_manifest_sequence := db_last_sequence db\<rparr>)"
proof -
  obtain ess where "list_all2 mem_holds (db_compacted db) ess" "concat ess = numbered 1 a" using assms(1) by (auto simp: db_holds_def compacted_holds_def)
  moreover have "mem_holds imm (numbered (seq_after (length a)) b)" using assms(1,2) by (auto simp: db_holds_def imm_holds_def)
  ultimately have "\<exists>ess. list_all2 mem_holds (db_compacted db @ [imm]) ess \<and> concat ess = numbered 1 (a @ b)"
    by (intro exI [of _ "ess @ [numbered (seq_after (length a)) b]"]) (simp add: list_all2_appendI numbered_app add.commute)
  moreover have "unat (db_last_sequence db) = length (a @ b @ c)" using assms(1,3) by (simp add: db_holds_def unat_nat del: of_nat_add)
  ultimately show ?thesis using assms(1) by (simp add: db_holds_def compacted_holds_def imm_holds_def)
qed

lemma db_holds_cong:
  assumes "db_holds a b c db" and "db_compacted db' = db_compacted db" and "db_imm db' = db_imm db" and "db_old_logs db' = db_old_logs db"
    and "db_mem db' = db_mem db" and "db_log db' = db_log db" and "db_last_sequence db' = db_last_sequence db"
    and "db_manifest_sequence db' \<in> {db_manifest_sequence db, db_last_sequence db}" and "length (a @ b @ c) < 2 ^ 31"
  shows "db_holds a b c db'"
proof -
  have "unat (db_last_sequence db) = length (a @ b @ c)" using assms(1,9) by (simp add: db_holds_def unat_nat del: of_nat_add)
  moreover have "compacted_holds a db'" "imm_holds (length a) b db'" using assms(1-4) by (simp_all add: db_holds_def compacted_holds_def imm_holds_def cong: option.case_cong)
  ultimately show ?thesis using assms(1,5-8) unfolding db_holds_def by auto
qed

lemma background_holds:
  assumes "db_holds a b c db" and "length (a @ b @ c) < 2 ^ 31"
  shows "\<exists>a' b'. a' @ b' = a @ b \<and> db_holds a' b' c (BackgroundCall run db)"
proof -
  consider (keep) "db_holds a b c (BackgroundCall run db)"
    | (compact) imm n where "db_imm db = Some imm" "BackgroundCall run db
        = db\<lparr>db_imm := None, db_compacted := db_compacted db @ [imm], db_level0 := n, db_old_logs := [], db_manifest_sequence := db_last_sequence db\<rparr>"
  proof (cases "\<exists>t m n imm. run = BgWork t m n \<and> db_imm db = Some imm \<and> db_bg_error db = OK \<and> t = OK \<and> m = OK")
    case True
    then show thesis using compact by (auto simp: BackgroundCall_def CompactMemTable_def)
  next
    case False
    have "db_holds a b c (BackgroundCall run db)"
      using False by (intro db_holds_cong [OF assms(1) _ _ _ _ _ _ _ assms(2)]; cases run)
        (auto simp: BackgroundCall_def CompactMemTable_def RecordBackgroundError_def Let_def split: option.split)
    then show thesis by (rule keep)
  qed
  then show ?thesis
  proof cases
    case keep
    then show ?thesis by blast
  next
    case compact
    show ?thesis using compact_holds [OF assms(1) compact(1) assms(2), of n] unfolding compact(2) by (intro exI [of _ "a @ b"] exI [of _ "[]"]) simp
  qed
qed

lemma background_same: "db_mem (BackgroundCall run db) = db_mem db" "db_log (BackgroundCall run db) = db_log db"
    "db_last_sequence (BackgroundCall run db) = db_last_sequence db"
  by (cases run; simp add: BackgroundCall_def CompactMemTable_def RecordBackgroundError_def Let_def split: option.split)+

lemma backgrounds_holds:
  assumes "db_holds a b c db" and "length (a @ b @ c) < 2 ^ 31"
  shows "\<exists>a' b'. a' @ b' = a @ b \<and> db_holds a' b' c (fold BackgroundCall runs db)"
  using assms
proof (induction runs arbitrary: a b db)
  case (Cons run runs)
  obtain a1 b1 where 1: "a1 @ b1 = a @ b" "db_holds a1 b1 c (BackgroundCall run db)" using background_holds [OF Cons.prems] by blast
  then have "length (a1 @ b1 @ c) < 2 ^ 31" using Cons.prems(2) by (metis append_assoc)
  then show ?case using Cons.IH [OF 1(2)] 1(1) by auto
qed auto

lemma backgrounds_same: "db_mem (fold BackgroundCall runs db) = db_mem db" "db_log (fold BackgroundCall runs db) = db_log db"
    "db_last_sequence (fold BackgroundCall runs db) = db_last_sequence db"
  by (induction runs arbitrary: db) (simp_all add: background_same)

lemma backgrounds_with: "db_with ops db \<Longrightarrow> length ops < 2 ^ 31 \<Longrightarrow> db_with ops (fold BackgroundCall runs db)"
  unfolding db_with_def using backgrounds_holds by (metis append_assoc)

lemma switch_with:
  assumes "db_with ops db" and "db_imm db = None"
  shows "db_with ops (switch_memtable db)"
proof -
  obtain a b c where h: "ops = a @ b @ c" "db_holds a b c db" using assms(1) by (auto simp: db_with_def)
  then have "b = []" "db_old_logs db = []" using assms(2) by (auto simp: db_holds_def imm_holds_def)
  then have "db_holds a c [] (switch_memtable db)"
    using h(2) by (auto simp: db_holds_def compacted_holds_def imm_holds_def switch_memtable_def mem_holds_new log_of_new)
  then show ?thesis unfolding db_with_def h(1) by (intro exI [of _ a] exI [of _ c] exI [of _ "[]"]) (simp add: \<open>b = []\<close>)
qed

lemma room_with:
  assumes "MakeRoomForWrite too_large force allow_delay events db = Some (status, db')" and "db_with ops db" and "length ops < 2 ^ 31"
  shows "db_with ops db'"
  using assms(1,2)
proof (induction too_large force allow_delay events db rule: MakeRoomForWrite.induct)
  case (1 too_large force allow_delay events db)
  note run = 1(5) [unfolded MakeRoomForWrite.simps [of too_large force allow_delay events db]]
  have bg: "db_with ops (fold BackgroundCall runs db)" for runs using backgrounds_with [OF 1(6) assms(3)] .
  show ?case
  proof (cases events)
    case Nil
    then show ?thesis using run 1(6) by (auto split: if_splits)
  next
    case (Cons e es)
    then show ?thesis using run 1(6) 1(1-4) bg switch_with [OF 1(6)] by (cases e) (auto split: if_splits)
  qed
qed

subsection \<open>The writers\<close>

lemma db_logged:
  assumes "db_with ops db" and "list_all op_ok new" and "length (ops @ new) < 2 ^ 31"
  shows "\<exists>log mem. AddRecord Writable_Append Writable_Flush (ops_batch (db_last_sequence db + 1) new) (db_log db) = Some (True, log)
    \<and> InsertInto (ops_batch (db_last_sequence db + 1) new) (db_mem db) = Some (OK, mem)
    \<and> db_with (ops @ new) (db\<lparr>db_log := log, db_mem := mem, db_last_sequence := db_last_sequence db + of_nat (length new)\<rparr>)"
proof -
  obtain a b c where ops: "ops = a @ b @ c" and h: "db_holds a b c db" using assms(1) by (auto simp: db_with_def)
  let ?n = "length (a @ b)"
  have seq: "db_last_sequence db + 1 = seq_after ?n + of_nat (length c)" using h by (simp add: db_holds_def)
  obtain log where log: "AddRecord Writable_Append Writable_Flush (ops_batch (db_last_sequence db + 1) new) (db_log db) = Some (True, log)" "log_of (seq_after ?n) (c @ new) log"
    unfolding seq using log_of_append [of "seq_after ?n" c "db_log db" new] h by (auto simp: db_holds_def)
  have u: "unat (seq_after ?n) = ?n + 1" "unat (seq_after ?n + of_nat (length c)) = ?n + 1 + length c"
    using unat_seq_after [of ?n] unat_plus_nat [of "seq_after ?n" "length c"] assms(3) ops by simp_all
  have "\<forall>e\<in>set (numbered (seq_after ?n) c). we_seq e < seq_after ?n + of_nat (length c)"
    using numbered_before [of _ "seq_after ?n" c] u(1) assms(3) ops by simp
  then obtain mem where mem: "InsertInto (ops_batch (db_last_sequence db + 1) new) (db_mem db) = Some (OK, mem)" "mem_holds mem (numbered (seq_after ?n) (c @ new))"
    unfolding seq using insert_into [of "db_mem db" "numbered (seq_after ?n) c" "seq_after ?n + of_nat (length c)" new] h assms(2,3) u(2) ops
    by (auto simp: db_holds_def numbered_app)
  let ?db = "db\<lparr>db_log := log, db_mem := mem, db_last_sequence := db_last_sequence db + of_nat (length new)\<rparr>"
  have "compacted_holds a ?db" "imm_holds (length a) b ?db" using h by (simp_all add: db_holds_def compacted_holds_def imm_holds_def cong: option.case_cong)
  then have "db_holds a b (c @ new) ?db" using h log(2) mem(2) by (simp add: db_holds_def)
  then show ?thesis using log(1) mem(1) ops by (auto simp: db_with_def)
qed

lemma group_taken:
  assumes "fst w = Some o1"
  shows "\<exists>s k. BuildBatchGroup (map writer_of (w # ws)) = Some (ops_batch s (concat (map writer_ops (take (1 + k) (w # ws)))), 1 + k)"
  using build_group [OF assms, of ws] assms by (simp add: writer_ops_def)

lemma room_status:
  assumes "MakeRoomForWrite too_large (wr_batch (writer_of w) = None) (wr_batch (writer_of w) \<noteq> None) (wt_room turn) (fold BackgroundCall (wt_before turn) db) = Some (status, db1)"
    and "status \<noteq> OK \<or> fst w = None"
  shows "DBImpl_Write sync too_large turn (map writer_of (w # ws)) db = Some (status, 1, db1)"
  using assms by (auto simp: DBImpl_Write_def writer_of_def)

lemma take_ops_less: "length (concat (map f (take k xs))) \<le> length (concat (map f xs))"
proof -
  have "concat (map f xs) = concat (map f (take k xs)) @ concat (map f (drop k xs))" by (metis append_take_drop_id concat_append map_append)
  then show ?thesis by simp
qed

lemma room_written:
  assumes room: "MakeRoomForWrite too_large False True (wt_room turn) (fold BackgroundCall (wt_before turn) db) = Some (OK, db1)"
    and w: "fst w = Some o1" and db: "db_with ops db1" and ok: "\<forall>v\<in>set (w # ws). list_all op_ok (writer_ops v)"
    and len: "length ops + length (concat (map writer_ops (w # ws))) < 2 ^ 31" and sync: "\<And>f. sync f = (True, f)"
  shows "\<exists>k db'. DBImpl_Write sync too_large turn (map writer_of (w # ws)) db = Some (OK, 1 + k, db')
    \<and> db_with (ops @ concat (map writer_ops (take (1 + k) (w # ws)))) db' \<and> db_bg_error db' = db_bg_error (fold BackgroundCall (wt_logging turn) db1)"
proof -
  obtain s k where g: "BuildBatchGroup (map writer_of (w # ws)) = Some (ops_batch s (concat (map writer_ops (take (1 + k) (w # ws)))), 1 + k)"
    using group_taken [OF w] by blast
  define new where "new = concat (map writer_ops (take (1 + k) (w # ws)))"
  have len': "length (ops @ new) < 2 ^ 31" using len take_ops_less [of writer_ops "1 + k" "w # ws"] by (simp add: new_def)
  have opk: "list_all op_ok new" using ok unfolding new_def list_all_iff by (auto dest: in_set_takeD)
  let ?db2 = "fold BackgroundCall (wt_logging turn) db1"
  have "db_with ops ?db2" using backgrounds_with [OF db] len' by simp
  then obtain log mem where l: "AddRecord Writable_Append Writable_Flush (ops_batch (db_last_sequence db1 + 1) new) (db_log ?db2) = Some (True, log)"
      "InsertInto (ops_batch (db_last_sequence db1 + 1) new) (db_mem ?db2) = Some (OK, mem)"
      "db_with (ops @ new) (?db2\<lparr>db_log := log, db_mem := mem, db_last_sequence := db_last_sequence db1 + of_nat (length new)\<rparr>)"
    using db_logged [of ops ?db2 new] opk len' by (auto simp: backgrounds_same)
  have "DBImpl_Write sync too_large turn (map writer_of (w # ws)) db
      = Some (OK, 1 + k, ?db2\<lparr>db_log := log, db_mem := mem, db_last_sequence := db_last_sequence db1 + of_nat (length new)\<rparr>)"
    using room g l(1,2) w len' unfolding new_def [symmetric]
    by (simp add: DBImpl_Write_def set_sequence count_scast sync writer_of_def Let_def)
  then show ?thesis using l(3) unfolding new_def by force
qed

text \<open>One turn: it is the background thread's, or the group of the writer at the front is added as a whole.\<close>

lemma write_with:
  assumes run: "DBImpl_Write sync too_large turn (map writer_of (w # ws)) db = Some (status, taken, db')" and db: "db_with ops db"
    and ok: "\<forall>v\<in>set (w # ws). list_all op_ok (writer_ops v)"
    and len: "length ops + length (concat (map writer_ops (w # ws))) < 2 ^ 31" and sync: "\<And>f. sync f = (True, f)"
  shows "0 < taken \<and> db_with (ops @ (if status = OK then concat (map writer_ops (take taken (w # ws))) else [])) db'"
proof -
  let ?db = "fold BackgroundCall (wt_before turn) db"
  have before: "db_with ops ?db" using backgrounds_with [OF db] len by simp
  obtain s1 db1 where room: "MakeRoomForWrite too_large (wr_batch (writer_of w) = None) (wr_batch (writer_of w) \<noteq> None) (wt_room turn) ?db = Some (s1, db1)"
    using run by (auto simp: DBImpl_Write_def split: bind_splits)
  have db1: "db_with ops db1" using room_with [OF room before] len by simp
  show ?thesis
  proof (cases "s1 \<noteq> OK \<or> fst w = None")
    case True
    have "fst w = None \<Longrightarrow> writer_ops w = []" by (simp add: writer_ops_def)
    then show ?thesis using room_status [OF room True, of sync ws] run db1 True by auto
  next
    case False
    then obtain o1 where w: "fst w = Some o1" and s1: "s1 = OK" by auto
    have "MakeRoomForWrite too_large False True (wt_room turn) ?db = Some (OK, db1)" using room w s1 by (simp add: writer_of_def)
    from room_written [OF this w db1 ok len sync] show ?thesis using run by auto
  qed
qed

lemma acked_append: "length ss = length vs \<Longrightarrow> acked (ss @ ts) (vs @ ws) = acked ss vs @ acked ts ws"
  by (simp add: acked_def)

lemma acked_replicate: "acked (replicate n st) (take n ws) = (if st = OK then concat (map writer_ops (take n ws)) else [])" if "n \<le> length ws"
  using that
proof (induction n arbitrary: ws)
  case (Suc n)
  then show ?case by (cases ws) (auto simp: acked_def)
qed (simp add: acked_def)

lemma acked_less: "length (acked sts ws) \<le> length (concat (map writer_ops ws))"
proof (induction sts arbitrary: ws)
  case (Cons st sts)
  then show ?case by (cases ws) (auto simp: acked_def add_mono intro: le_SucI trans_le_add2)
qed (simp add: acked_def)

lemma group_loop_taken: "group_loop fs m n tmp r taken ws = Some (r', t) \<Longrightarrow> t \<le> taken + length ws"
  by (induction fs m n tmp r taken ws rule: group_loop.induct) (auto simp: Let_def split: if_splits option.splits bind_splits)

lemma write_taken: "DBImpl_Write sync too_large turn (w # ws) db = Some (status, taken, db') \<Longrightarrow> taken \<le> length (w # ws)"
  by (auto simp: DBImpl_Write_def BuildBatchGroup_def Let_def split: if_splits option.splits bind_splits prod.splits dest!: group_loop_taken)

lemma serve_with:
  assumes "serve sync too_large turns (map writer_of ws) db = Some (sts, db')" and "db_with ops db" and "\<forall>v\<in>set ws. list_all op_ok (writer_ops v)"
    and "length ops + length (concat (map writer_ops ws)) < 2 ^ 31" and sync: "\<And>f. sync f = (True, f)"
  shows "length sts = length ws \<and> db_with (ops @ acked sts ws) db'"
  using assms(1-4)
proof (induction turns arbitrary: ws db ops sts)
  case Nil
  then show ?case by (cases ws) (auto simp: acked_def)
next
  case (Cons turn turns)
  show ?case
  proof (cases ws)
    case Nil
    then show ?thesis using Cons.prems by (auto simp: acked_def)
  next
    case w: (Cons w vs)
    obtain status taken db1 rest where run: "DBImpl_Write sync too_large turn (map writer_of ws) db = Some (status, taken, db1)"
        "serve sync too_large turns (map writer_of (drop taken ws)) db1 = Some (rest, db')" "sts = replicate taken status @ rest"
      using Cons.prems(1) w by (auto simp: drop_map [symmetric] split: bind_splits)
    have taken: "taken \<le> length ws" using write_taken run(1) w by fastforce
    let ?new = "if status = OK then concat (map writer_ops (take taken ws)) else []"
    have db1: "db_with (ops @ ?new) db1" using write_with [where sync = sync, OF run(1) [unfolded w] Cons.prems(2) _ _ sync] Cons.prems(3,4) w by auto
    have "concat (map writer_ops ws) = concat (map writer_ops (take taken ws)) @ concat (map writer_ops (drop taken ws))"
      by (metis append_take_drop_id concat_append map_append)
    then have "length (ops @ ?new) + length (concat (map writer_ops (drop taken ws))) < 2 ^ 31" using Cons.prems(4) by auto
    then have "length rest = length (drop taken ws) \<and> db_with ((ops @ ?new) @ acked rest (drop taken ws)) db'"
      by (intro Cons.IH [OF run(2) db1]) (use Cons.prems(3) in \<open>auto dest: in_set_dropD\<close>)
    moreover have "acked sts ws = ?new @ acked rest (drop taken ws)"
      using acked_append [of "replicate taken status" "take taken ws" rest "drop taken ws"] acked_replicate [OF taken, of status] taken run(3) by simp
    ultimately show ?thesis using run(3) taken by simp
  qed
qed

subsection \<open>Every writer is served\<close>

text \<open>
  A turn in which nothing fails: the background thread's runs succeed, each wait ends with a run that leaves few files at level 0, and the new log
  can be created.
\<close>
fun run_ok :: "bg_run \<Rightarrow> bool" where
  "run_ok BgIdle = True"
| "run_ok (BgWork table manifest level0) = (table = OK \<and> manifest = OK)"

fun wait_ok :: "bg_run list \<times> batch_status \<Rightarrow> bool" where
  "wait_ok (runs, new_file) = (list_all run_ok runs \<and> new_file = OK
     \<and> runs \<noteq> [] \<and> (\<exists>level0 < kL0_SlowdownWritesTrigger. last runs = BgWork OK OK level0))"

definition turn_ok :: "write_turn \<Rightarrow> bool" where
  "turn_ok turn \<longleftrightarrow> list_all run_ok (wt_before turn) \<and> list_all run_ok (wt_logging turn) \<and> list_all wait_ok (wt_room turn) \<and> 2 \<le> length (wt_room turn)"

lemma background_fine: "run_ok run \<Longrightarrow> db_bg_error db = OK \<Longrightarrow> db_bg_error (BackgroundCall run db) = OK"
  by (cases run) (auto simp: BackgroundCall_def CompactMemTable_def split: option.split)

lemma backgrounds_fine: "list_all run_ok runs \<Longrightarrow> db_bg_error db = OK \<Longrightarrow> db_bg_error (fold BackgroundCall runs db) = OK"
  by (induction runs arbitrary: db) (auto simp: background_fine)

lemma waited:
  assumes "wait_ok (runs, st)" and "db_bg_error db = OK"
  shows "db_bg_error (fold BackgroundCall runs db) = OK \<and> db_imm (fold BackgroundCall runs db) = None
    \<and> db_level0 (fold BackgroundCall runs db) < kL0_SlowdownWritesTrigger"
proof -
  obtain rs n where runs: "runs = rs @ [BgWork OK OK n]" "n < kL0_SlowdownWritesTrigger" "list_all run_ok rs"
    using assms(1) by (cases runs rule: rev_cases) auto
  then have "db_bg_error (fold BackgroundCall rs db) = OK" using backgrounds_fine assms(2) by blast
  then show ?thesis using runs(1,2) by (auto simp: BackgroundCall_def CompactMemTable_def split: option.split)
qed

lemma room_switched:
  assumes "db_bg_error db = OK" and "db_imm db = None" and "db_level0 db < kL0_SlowdownWritesTrigger" and "list_all wait_ok events" and "events \<noteq> []"
    and "\<not> too_large MemTable_new"
  shows "\<exists>db'. MakeRoomForWrite too_large force allow_delay events db = Some (OK, db') \<and> db_bg_error db' = OK"
proof (cases "\<not> force \<and> \<not> too_large (db_mem db)")
  case True
  then show ?thesis using assms by (subst MakeRoomForWrite.simps) simp
next
  case False
  obtain runs st es where e: "events = (runs, st) # es" "st = OK" using assms(4,5) by (cases events) auto
  have "MakeRoomForWrite too_large False allow_delay es (switch_memtable db) = Some (OK, switch_memtable db)"
    using assms by (subst MakeRoomForWrite.simps) (simp add: switch_memtable_def)
  then show ?thesis using assms False e
    by (subst MakeRoomForWrite.simps) (auto simp: kL0_StopWritesTrigger_def kL0_SlowdownWritesTrigger_def switch_memtable_def)
qed

lemma room_made:
  assumes "db_bg_error db = OK" and "list_all wait_ok events" and "2 \<le> length events" and "\<not> too_large MemTable_new"
  shows "\<exists>db'. MakeRoomForWrite too_large force allow_delay events db = Some (OK, db') \<and> db_bg_error db' = OK"
proof -
  obtain runs st es where e: "events = (runs, st) # es" "wait_ok (runs, st)" "es \<noteq> []" "list_all wait_ok es" "st = OK"
    using assms(2,3) by (cases events; cases "tl events") auto
  let ?db = "fold BackgroundCall runs db"
  have wait: "\<exists>db'. MakeRoomForWrite too_large force delay es ?db = Some (OK, db') \<and> db_bg_error db' = OK" for delay
    using waited [OF e(2) assms(1)] e(3,4) assms(4) by (intro room_switched) auto
  show ?thesis
  proof (cases "db_imm db = None \<and> db_level0 db < kL0_StopWritesTrigger \<and> \<not> (allow_delay \<and> db_level0 db \<ge> kL0_SlowdownWritesTrigger)")
    case True
    have "MakeRoomForWrite too_large False allow_delay es (switch_memtable db) = Some (OK, switch_memtable db)"
      using assms(1,4) True by (subst MakeRoomForWrite.simps) (auto simp: switch_memtable_def)
    then show ?thesis using True assms(1) e(1,5) by (subst MakeRoomForWrite.simps) (auto simp: switch_memtable_def)
  next
    case False
    then show ?thesis using wait assms(1) e(1) by (subst MakeRoomForWrite.simps) auto
  qed
qed

lemma serve_returns:
  assumes "length ws \<le> length turns" and "list_all turn_ok turns" and "\<not> too_large MemTable_new" and "db_bg_error db = OK" and "db_with ops db"
    and "\<forall>v\<in>set ws. list_all op_ok (writer_ops v)" and "length ops + length (concat (map writer_ops ws)) < 2 ^ 31" and sync: "\<And>f. sync f = (True, f)"
  shows "\<exists>sts db'. serve sync too_large turns (map writer_of ws) db = Some (sts, db') \<and> list_all ((=) OK) sts"
  using assms(1,2,4-7)
proof (induction turns arbitrary: ws db ops)
  case (Cons turn turns)
  show ?case
  proof (cases ws)
    case w: (Cons w vs)
    let ?db = "fold BackgroundCall (wt_before turn) db"
    have t: "list_all run_ok (wt_before turn)" "list_all run_ok (wt_logging turn)" "list_all wait_ok (wt_room turn)" "2 \<le> length (wt_room turn)"
      using Cons.prems(2) by (simp_all add: turn_ok_def)
    have "db_bg_error ?db = OK" using backgrounds_fine t(1) Cons.prems(3) by blast
    then obtain db1 where db1: "MakeRoomForWrite too_large (wr_batch (writer_of w) = None) (wr_batch (writer_of w) \<noteq> None) (wt_room turn) ?db = Some (OK, db1)"
        "db_bg_error db1 = OK" using room_made [where too_large = too_large, OF _ t(3,4) assms(3)] by blast
    have with1: "db_with ops db1" using room_with [OF db1(1) backgrounds_with [OF Cons.prems(4)]] Cons.prems(6) by simp
    have "\<exists>k db2. DBImpl_Write sync too_large turn (map writer_of ws) db = Some (OK, 1 + k, db2) \<and> db_bg_error db2 = OK"
    proof (cases "fst w")
      case None
      then show ?thesis using room_status [OF db1(1), of sync vs] db1(2) w by (intro exI [of _ 0]) auto
    next
      case (Some o1)
      then have room: "MakeRoomForWrite too_large False True (wt_room turn) ?db = Some (OK, db1)" using db1(1) by (simp add: writer_of_def)
      from room_written [where sync = sync, OF room Some with1 _ _ sync, of vs] Cons.prems(5,6) w backgrounds_fine [OF t(2) db1(2)]
      show ?thesis by auto
    qed
    then obtain k db2 where run: "DBImpl_Write sync too_large turn (map writer_of ws) db = Some (OK, 1 + k, db2)" "db_bg_error db2 = OK" by blast
    have len: "concat (map writer_ops ws) = concat (map writer_ops (take (1 + k) ws)) @ concat (map writer_ops (drop (1 + k) ws))"
      by (metis append_take_drop_id concat_append map_append)
    have with2: "db_with (ops @ concat (map writer_ops (take (1 + k) ws))) db2"
      using write_with [where sync = sync, OF run(1) [unfolded w] Cons.prems(4) _ _ sync] Cons.prems(5,6) w by simp
    have "\<exists>sts db'. serve sync too_large turns (map writer_of (drop (1 + k) ws)) db2 = Some (sts, db') \<and> list_all ((=) OK) sts"
      by (rule Cons.IH [OF _ _ run(2) with2]) (use Cons.prems len in \<open>auto dest: in_set_dropD\<close>)
    then show ?thesis using run(1) w by (auto simp: drop_map list_all_iff)
  qed simp
qed simp

section \<open>Lookups\<close>

text \<open>A lookup in memory tables, the latest first\<close>
fun get_tables :: "LookupKey \<Rightarrow> memtable list \<Rightarrow> get_result option" where
  "get_tables key [] = Some Unknown"
| "get_tables key (m # ms) = do { r \<leftarrow> MemTable_Get key m; if r \<noteq> Unknown then Some r else get_tables key ms }"

lemma read_known: "read_result (visible key q (es @ fs)) = (let r = read_result (visible key q fs) in if r \<noteq> Unknown then r else read_result (visible key q es))"
  by (auto simp: read_result_def visible_def Let_def split: ValueType.splits)

lemma get_tables_holds: "list_all2 mem_holds ms ess \<Longrightarrow> q \<le> kMaxSequenceNumber \<Longrightarrow> length key + 8 < 2 ^ 32 \<Longrightarrow>
    get_tables (LookupKey_new key q) (rev ms) = Some (read_result (visible key q (concat ess)))"
proof (induction ms arbitrary: ess rule: rev_induct)
  case Nil
  then show ?case by (simp add: read_result_def visible_def)
next
  case (snoc m ms)
  then obtain ess' es where "ess = ess' @ [es]" "list_all2 mem_holds ms ess'" "mem_holds m es" by (auto simp: list_all2_append1 list_all2_Cons1)
  then show ?case using snoc mem_get [of m es q key] by (simp add: read_known [of _ _ "concat ess'"] Let_def)
qed

lemma take_numbered:
  assumes "length (a @ b) < 2 ^ 31"
  shows "read_result (visible key q (numbered (seq_after (length a)) b)) = read_ops key (drop (length a) (take (unat q) (a @ b)))"
proof -
  have "unat (seq_after (length a)) = length a + 1" using unat_seq_after assms by simp
  moreover have "drop (length a) (take (unat q) (a @ b)) = take (unat q - length a) b" by (simp only: drop_take) simp
  ultimately show ?thesis using read_numbered [of "seq_after (length a)" b key q] assms by simp
qed

lemma get_in_memory:
  assumes "db_holds a b c db" and "length (a @ b @ c) < 2 ^ 31" and "length key + 8 < 2 ^ 32" and "q \<le> kMaxSequenceNumber"
  shows "DBImpl_Get current_get (Some q) key db =
    (let r = read_result (visible key q (numbered (seq_after (length a)) (b @ c))) in if r \<noteq> Unknown then Some r else current_get (LookupKey_new key q))"
proof -
  let ?b = "numbered (seq_after (length a)) b" and ?c = "numbered (seq_after (length (a @ b))) c"
  have split: "numbered (seq_after (length a)) (b @ c) = ?b @ ?c" by (simp add: numbered_app algebra_simps)
  have mem: "MemTable_Get (LookupKey_new key q) (db_mem db) = Some (read_result (visible key q ?c))"
    using mem_get [OF _ assms(4,3)] assms(1) by (simp add: db_holds_def)
  have "imm_holds (length a) b db" using assms(1) by (simp add: db_holds_def)
  then have imm: "(case db_imm db of None \<Rightarrow> Some Unknown | Some imm \<Rightarrow> MemTable_Get (LookupKey_new key q) imm) = Some (read_result (visible key q ?b))"
    using mem_get [OF _ assms(4,3)] by (cases "db_imm db") (auto simp: imm_holds_def visible_def read_result_def)
  show ?thesis unfolding split read_known using mem imm by (simp add: DBImpl_Get_def Let_def)
qed

text \<open>
  C3. The database is a map that every writer changes in turn, with all of its history.  The writers of a queue take their turns, in groups of
  whatever size, while the background thread runs at whatever times, memory tables and logs are switched when the buffer is full or when a writer
  asks for it, and room cannot always be made.  When all have been served, the sequence number counts the writes of those that were told of
  success.  Some number \<open>k\<close> of these writes, the first ones, are in the memory tables that were handed to compaction, none before the first
  compaction.  A lookup at a snapshot gives what the last of the other writes of the key up to it says, in the order of the queue, and asks the
  tables on disk only if there is none.  When nothing fails, every writer is served with success.
\<close>
theorem database_refines_map:
  assumes "\<forall>w\<in>set ws. list_all op_ok (writer_ops w)" and "length (concat (map writer_ops ws)) < 2 ^ 31"
  shows "(\<forall>sts db. serve Writable_Sync too_large turns (map writer_of ws) db_new = Some (sts, db) \<longrightarrow>
      length sts = length ws \<and> unat (db_last_sequence db) = length (acked sts ws)
      \<and> (\<exists>k \<le> length (acked sts ws). (db_compacted db = [] \<longrightarrow> k = 0)
        \<and> (\<forall>key q. length key + 8 < 2 ^ 32 \<longrightarrow> q \<le> kMaxSequenceNumber \<longrightarrow>
             get_tables (LookupKey_new key q) (rev (db_compacted db)) = Some (read_ops key (take (unat q) (take k (acked sts ws))))
           \<and> (\<forall>current_get. DBImpl_Get current_get (Some q) key db =
                (let r = read_ops key (drop k (take (unat q) (acked sts ws))) in if r \<noteq> Unknown then Some r else current_get (LookupKey_new key q))))))
    \<and> (\<forall>current_get key db. DBImpl_Get current_get None key db = DBImpl_Get current_get (Some (db_last_sequence db)) key db)
    \<and> (length ws \<le> length turns \<and> list_all turn_ok turns \<and> \<not> too_large MemTable_new \<longrightarrow>
        (\<exists>sts db. serve Writable_Sync too_large turns (map writer_of ws) db_new = Some (sts, db) \<and> list_all ((=) OK) sts))"
proof -
  have sync: "Writable_Sync f = (True, f)" for f by (simp add: Writable_Sync_def)
  have new: "db_bg_error db_new = OK" by (simp add: db_new_def)
  have total: "length ([] :: batch_op list) + length (concat (map writer_ops ws)) < 2 ^ 31" using assms(2) by simp
  have held: "length sts = length ws \<and> unat (db_last_sequence db) = length (acked sts ws)
      \<and> (\<exists>k \<le> length (acked sts ws). (db_compacted db = [] \<longrightarrow> k = 0)
        \<and> (\<forall>key q. length key + 8 < 2 ^ 32 \<longrightarrow> q \<le> kMaxSequenceNumber \<longrightarrow>
             get_tables (LookupKey_new key q) (rev (db_compacted db)) = Some (read_ops key (take (unat q) (take k (acked sts ws))))
           \<and> (\<forall>current_get. DBImpl_Get current_get (Some q) key db =
                (let r = read_ops key (drop k (take (unat q) (acked sts ws))) in if r \<noteq> Unknown then Some r else current_get (LookupKey_new key q)))))"
    if run: "serve Writable_Sync too_large turns (map writer_of ws) db_new = Some (sts, db)" for sts db
  proof -
    have w: "length sts = length ws" "db_with (acked sts ws) db" using serve_with [where sync = Writable_Sync, OF run db_new_with assms(1) total sync] by simp_all
    then obtain a b c where abc: "acked sts ws = a @ b @ c" and db: "db_holds a b c db" by (auto simp: db_with_def)
    have len: "length (a @ b @ c) < 2 ^ 31" using acked_less [of sts ws] assms(2) abc by simp
    obtain ess where ess: "list_all2 mem_holds (db_compacted db) ess" "concat ess = numbered 1 a" using db by (auto simp: db_holds_def compacted_holds_def)
    have "db_compacted db = [] \<longrightarrow> length a = 0" using ess by (cases a) auto
    moreover have "get_tables (LookupKey_new key q) (rev (db_compacted db)) = Some (read_ops key (take (unat q) (take (length a) (acked sts ws))))"
      if "length key + 8 < 2 ^ 32" "q \<le> kMaxSequenceNumber" for key q
      using get_tables_holds [OF ess(1) that(2,1)] take_numbered [of "[]" a key q] len ess(2) abc by simp
    moreover have "DBImpl_Get current_get (Some q) key db =
        (let r = read_ops key (drop (length a) (take (unat q) (acked sts ws))) in if r \<noteq> Unknown then Some r else current_get (LookupKey_new key q))"
      if "length key + 8 < 2 ^ 32" "q \<le> kMaxSequenceNumber" for key q current_get
      using get_in_memory [OF db len that] take_numbered [of a "b @ c" key q] len abc by simp
    moreover have "unat (db_last_sequence db) = length (acked sts ws)" using db len abc by (simp add: db_holds_def unat_nat del: of_nat_add)
    ultimately show ?thesis using w(1) abc by (intro conjI exI [of _ "length a"]) simp_all
  qed
  have "\<exists>sts db. serve Writable_Sync too_large turns (map writer_of ws) db_new = Some (sts, db) \<and> list_all ((=) OK) sts"
    if "length ws \<le> length turns" "list_all turn_ok turns" "\<not> too_large MemTable_new"
    using that serve_returns [of ws turns too_large db_new "[]" Writable_Sync] assms(1) total sync db_new_with new by blast
  then show ?thesis using held by (auto simp: DBImpl_Get_def)
qed

text \<open>Turns without a run of the background thread, and waits that end well\<close>
definition quiet_turn :: write_turn where
  "quiet_turn = \<lparr>wt_before = [], wt_room = replicate 2 ([BgWork OK OK 1], OK), wt_logging = []\<rparr>"

lemma quiet_turn_ok: "turn_ok quiet_turn"
  by (simp add: turn_ok_def quiet_turn_def kL0_SlowdownWritesTrigger_def numeral_2_eq_2)

lemma quiet_run:
  assumes "\<forall>w\<in>set ws. list_all op_ok (writer_ops w)" and "length (concat (map writer_ops ws)) < 2 ^ 31" and "length ws \<le> n"
  shows "\<exists>db. serve Writable_Sync (\<lambda>_. False) (replicate n quiet_turn) (map writer_of ws) db_new = Some (replicate (length ws) OK, db)"
proof -
  have sync: "Writable_Sync f = (True, f)" for f by (simp add: Writable_Sync_def)
  have total: "length ([] :: batch_op list) + length (concat (map writer_ops ws)) < 2 ^ 31" using assms(2) by simp
  have "list_all turn_ok (replicate n quiet_turn)" "db_bg_error db_new = OK" using quiet_turn_ok by (simp_all add: list_all_iff db_new_def)
  then obtain sts db where run: "serve Writable_Sync (\<lambda>_. False) (replicate n quiet_turn) (map writer_of ws) db_new = Some (sts, db)" "list_all ((=) OK) sts"
    using serve_returns [of ws "replicate n quiet_turn" "\<lambda>_. False" db_new "[]" Writable_Sync] assms(1,3) total sync db_new_with by auto
  have "length sts = length ws" using serve_with [where sync = Writable_Sync, OF run(1) db_new_with assms(1) total sync] by simp
  then have "sts = replicate (length ws) OK" using run(2) by (intro replicate_eqI) (auto simp: list_all_iff)
  then show ?thesis using run(1) by blast
qed

theorem database_refines_map_witness:
  "\<exists>db. serve Writable_Sync (\<lambda>_. False) (replicate 3 quiet_turn)
      (map writer_of [(Some [BPut [1] [7], BPut [2] [8]], False), (None, False), (Some [BDelete [1]], True)]) db_new = Some ([OK, OK, OK], db)
     \<and> unat (db_last_sequence db) = 3
     \<and> (\<exists>k \<le> 3 :: nat. DBImpl_Get (\<lambda>_. Some (Value [9])) (Some 3) [1] db = Some (if k = 3 then Value [9] else Deleted))"
proof -
  let ?ws = "[(Some [BPut [1] [7], BPut [2] [8]], False), (None, False), (Some [BDelete [1]], True)]"
  have ws: "\<forall>w\<in>set ?ws. list_all op_ok (writer_ops w)" "length (concat (map writer_ops ?ws)) < 2 ^ 31" by (simp_all add: writer_ops_def)
  note refines = database_refines_map [OF this, of "\<lambda>_. False" "replicate 3 quiet_turn"]
  define sts where "sts = [OK, OK, OK]"
  obtain db where run: "serve Writable_Sync (\<lambda>_. False) (replicate 3 quiet_turn) (map writer_of ?ws) db_new = Some (sts, db)"
    using quiet_run [OF ws, of 3] by (auto simp: sts_def numeral_3_eq_3)
  have ops: "acked sts ?ws = [BPut [1] [7], BPut [2] [8], BDelete [1]]" by (simp add: acked_def writer_ops_def sts_def)
  note holds = conjunct1 [OF refines, rule_format, OF run]
  then have "length (acked sts ?ws) = 3 \<Longrightarrow> \<exists>k \<le> 3. \<forall>key q current_get. length key + 8 < 2 ^ 32 \<longrightarrow> q \<le> kMaxSequenceNumber \<longrightarrow> DBImpl_Get current_get (Some q) key db =
        (let r = read_ops key (drop k (take (unat q) (acked sts ?ws))) in if r \<noteq> Unknown then Some r else current_get (LookupKey_new key q))"
    by metis
  then obtain k where k: "k \<le> 3"
    and get: "\<And>key q current_get. length key + 8 < 2 ^ 32 \<Longrightarrow> q \<le> kMaxSequenceNumber \<Longrightarrow> DBImpl_Get current_get (Some q) key db =
        (let r = read_ops key (drop k (take (unat q) (acked sts ?ws))) in if r \<noteq> Unknown then Some r else current_get (LookupKey_new key q))"
    using ops by (metis length_Cons list.size(3) numeral_3_eq_3)
  have last: "unat (db_last_sequence db) = 3" using holds ops by simp
  have "read_ops [1] (drop k [BPut [1] [7], BPut [2] [8], BDelete [1]]) = (if k = 3 then Unknown else Deleted)"
    using k by (auto simp: read_ops_def le_Suc_eq numeral_3_eq_3)
  then have "DBImpl_Get (\<lambda>_. Some (Value [9])) (Some 3) [1] db = Some (if k = 3 then Value [9] else Deleted)"
    using get [of "[1]" 3 "\<lambda>_. Some (Value [9])"] ops by (simp add: kMaxSequenceNumber_def)
  then show ?thesis using run last k unfolding sts_def by blast
qed


section \<open>Recovery restores the writes\<close>

text \<open>What a recovery has so far: the tables written out and the memory table hold the writes \<open>es\<close>, the earlier ones in the earlier tables\<close>
definition recovered :: "recovery \<Rightarrow> write_entry list \<Rightarrow> bool" where
  "recovered s es \<longleftrightarrow> rec_status s = OK \<and> rec_reused s = None \<and> (rec_compactions s = 0 \<longrightarrow> rec_written s = [])
     \<and> (\<exists>ess es'. list_all2 mem_holds (rec_written s) ess \<and> es = concat ess @ es'
          \<and> (case rec_mem s of None \<Rightarrow> es' = [] | Some m \<Rightarrow> mem_holds m es'))"

lemma read_no_report:
  assumes "memfile.reader_at r off (layout off fs @ R)" and "fragments True x fs" and "fits off fs"
  shows "\<exists>r'. ReadRecord Sequential_Read Sequential_Skip r = Some (True, x, r') \<and> memfile.reader_at r' (end_off off fs) R \<and> lr_reports r' = [] \<and> lr_reports r = []"
proof -
  let ?st = "\<lparr>in_fragmented_record = False, prospective_record_offset = 0, rs_scratch = [], rs_fragment = []\<rparr>"
  obtain r' where "ReadRecord_loop Sequential_Read ?st r = Some (True, x, r')" "memfile.reader_at r' (end_off off fs) R"
    using memfile.read_record [OF assms, of "[]" ?st] by (auto simp: memfile.between_def)
  then show ?thesis using assms(1) by (auto simp: ReadRecord_def memfile.reader_at_def)
qed

lemma read_cut_no_report:
  assumes "memfile.reader_at r off R" and "layout off fs = R @ S" and "S \<noteq> []" and "fragments True y fs" and "fits off fs"
  shows "\<exists>r'. ReadRecord Sequential_Read Sequential_Skip r = Some (False, [], r') \<and> lr_reports r' = [] \<and> lr_reports r = []"
proof -
  let ?st = "\<lparr>in_fragmented_record = False, prospective_record_offset = 0, rs_scratch = [], rs_fragment = []\<rparr>"
  obtain r' where "ReadRecord_loop Sequential_Read ?st r = Some (False, [], r')" "lr_reports r' = []"
    using memfile.read_record_cut [OF assms, of "[]" ?st] by (auto simp: memfile.between_def)
  then show ?thesis using assms(1) by (auto simp: ReadRecord_def memfile.reader_at_def)
qed

text \<open>One record: its batch goes into the memory table, which may then be written out\<close>
lemma recover_step:
  assumes r: "ReadRecord Sequential_Read Sequential_Skip (rec_reader s) = Some (True, ops_batch seq ops, r)" "lr_reports r = []" "lr_reports (rec_reader s) = []"
    and s: "recovered s es" "\<forall>e\<in>set es. we_seq e < seq" and ops: "list_all op_ok ops" "0 < unat seq" "unat seq + length ops < 2 ^ 31"
    and max: "rec_max_sequence s \<le> seq - 1" and written: "\<And>m. ro_write_table options m = OK"
  shows "\<exists>t. RecoverLogFile_loop options s = RecoverLogFile_loop options t \<and> recovered t (es @ numbered seq ops) \<and> rec_reader t = r
    \<and> rec_max_sequence t = seq + of_nat (length ops) - 1"
proof -
  let ?x = "ops_batch seq ops" and ?mem = "case rec_mem s of None \<Rightarrow> MemTable_new | Some m \<Rightarrow> m" and ?seq = "seq + of_nat (length ops)"
  obtain ess es' where es: "list_all2 mem_holds (rec_written s) ess" "es = concat ess @ es'" "case rec_mem s of None \<Rightarrow> es' = [] | Some m \<Rightarrow> mem_holds m es'"
    using s(1) by (auto simp: recovered_def)
  have mem: "mem_holds ?mem es'" using es(3) mem_holds_new by (auto split: option.splits)
  obtain m where m: "InsertInto ?x ?mem = Some (OK, m)" "mem_holds m (es' @ numbered seq ops)"
    using insert_into [OF mem _ ops(1), of seq] s(2) es(2) ops(3) by auto
  let ?t = "s\<lparr>rec_reader := r, rec_mem := Some m, rec_status := OK, rec_max_sequence := ?seq - 1\<rparr>"
  let ?u = "write_level0 options m (?t\<lparr>rec_compactions := rec_compactions s + 1, rec_mem := None\<rparr>)"
  have u: "unat (?seq - 1) = unat seq + length ops - 1" "unat (seq - 1) = unat seq - 1"
    using unat_plus_nat [of seq "length ops"] ops(2,3) by (subst unat_minus_one; force)+
  have x: "\<not> length ?x < 12" "Batch_SetContents ?x = Some ?x" "Batch_Sequence ?x = seq" "Batch_Count ?x = of_nat (length ops)"
    using batch_fields(4) [of seq ops] by (simp_all add: Batch_SetContents_def kHeader_def)
  have c: "(scast (of_nat (length ops) :: u32) :: u64) = of_nat (length ops)" using ops(3) by (simp add: count_scast)
  have "rec_max_sequence s \<le> ?seq - 1" using max u by (auto simp: word_le_nat_alt)
  then have mx: "(if ?seq - 1 > rec_max_sequence s then ?seq - 1 else rec_max_sequence s) = ?seq - 1" by auto
  have st: "rec_status s = OK" using s(1) by (simp add: recovered_def)
  have rs: "reporter_status p [] OK = OK" "MaybeIgnoreError p OK = OK" for p by (simp_all add: reporter_status_def MaybeIgnoreError_def)
  have run: "RecoverLogFile_loop options s = RecoverLogFile_loop options (if ro_too_large options m then ?u else ?t)"
    using r m(1) by (subst RecoverLogFile_loop.simps)
      (cases "ro_too_large options m"; simp add: x c mx st rs written Let_def write_level0_def split del: if_split cong: if_cong)
  have "recovered ?t (es @ numbered seq ops)" using s(1) es(1,2) m(2) by (auto simp: recovered_def)
  moreover have "recovered ?u (es @ numbered seq ops)" using s(1) written es m(2)
    by (auto simp: recovered_def write_level0_def intro!: exI [of _ "ess @ [es' @ numbered seq ops]"] list_all2_appendI)
  ultimately show ?thesis using run by (intro exI [of _ "if ro_too_large options m then ?u else ?t"]) (simp add: write_level0_def)
qed

lemma recover_loop:
  assumes "memfile.reader_at (rec_reader s) off (layout off (concat fss) @ R)" and "list_all2 (fragments True) xs fss" and "fits off (concat fss @ fs)"
    and "layout (end_off off (concat fss)) fs = R @ S" and "S \<noteq> []" and "fragments True y fs" and "log_records seq xs ops"
    and "recovered s es" and "\<forall>e\<in>set es. we_seq e < seq" and "list_all op_ok ops" and "0 < unat seq" and "unat seq + length ops < 2 ^ 31" and "rec_max_sequence s \<le> seq - 1"
    and written: "\<And>m. ro_write_table options m = OK"
  shows "\<exists>t. RecoverLogFile_loop options s = Some t \<and> recovered t (es @ numbered seq ops)
    \<and> (rec_max_sequence t = seq - 1 + of_nat (length ops) \<or> ops = [] \<and> rec_max_sequence t = rec_max_sequence s)"
  using assms(1-4,7-13)
proof (induction xs arbitrary: s off fss seq ops es)
  case Nil
  obtain r' where "ReadRecord Sequential_Read Sequential_Skip (rec_reader s) = Some (False, [], r')" "lr_reports r' = []" "lr_reports (rec_reader s) = []"
    using read_cut_no_report [of "rec_reader s" off R fs S y] Nil assms(5,6) by auto
  then have "RecoverLogFile_loop options s = Some (s\<lparr>rec_reader := r'\<rparr>)"
    using Nil by (subst RecoverLogFile_loop.simps) (simp add: reporter_status_def recovered_def)
  then show ?case using Nil by (simp add: recovered_def)
next
  case (Cons x xs)
  obtain gs gss where fss: "fss = gs # gss" "fragments True x gs" "list_all2 (fragments True) xs gss" using Cons.prems(2) by (auto simp: list_all2_Cons1)
  obtain o1 o2 where x: "x = ops_batch seq o1" "ops = o1 @ o2" "log_records (seq + of_nat (length o1)) xs o2" using Cons.prems(5) by auto
  have at: "memfile.reader_at (rec_reader s) off (layout off gs @ layout (end_off off gs) (concat gss) @ R)" using Cons.prems(1) fss(1) by (simp add: layout_append)
  have fits: "fits off gs" "fits (end_off off gs) (concat gss @ fs)" using Cons.prems(3) fss(1) by (simp_all add: fits_append layout_append)
  obtain r' where r': "ReadRecord Sequential_Read Sequential_Skip (rec_reader s) = Some (True, x, r')" "memfile.reader_at r' (end_off off gs) (layout (end_off off gs) (concat gss) @ R)"
      "lr_reports r' = []" "lr_reports (rec_reader s) = []" using read_no_report [OF at fss(2) fits(1)] by blast
  let ?seq = "seq + of_nat (length o1)"
  obtain t where t: "RecoverLogFile_loop options s = RecoverLogFile_loop options t" "recovered t (es @ numbered seq o1)" "rec_reader t = r'" "rec_max_sequence t = ?seq - 1"
    using recover_step [of s seq o1 r' es options] r' Cons.prems(6-) written x by auto
  have u: "unat ?seq = unat seq + length o1" using unat_plus_nat [of seq "length o1"] Cons.prems(10) x(2) by simp
  have "\<exists>v. RecoverLogFile_loop options t = Some v \<and> recovered v ((es @ numbered seq o1) @ numbered ?seq o2)
      \<and> (rec_max_sequence v = ?seq - 1 + of_nat (length o2) \<or> o2 = [] \<and> rec_max_sequence v = rec_max_sequence t)"
  proof (rule Cons.IH)
    have "we_seq e < ?seq" if "e \<in> set es" for e using Cons.prems(7) that u by (fastforce simp: word_less_nat_alt)
    then show "\<forall>e\<in>set (es @ numbered seq o1). we_seq e < ?seq" using numbered_before [of _ seq o1] Cons.prems(10) x(2) by auto
  qed (use r'(2) fss(3) fits(2) Cons.prems x(2,3) fss(1) t u in \<open>simp_all add: layout_append\<close>)
  then show ?case using t(1,4) x(2) by (auto simp: numbered_app algebra_simps)
qed


text \<open>A whole log, and a log whose next record was cut\<close>

lemma recover_file:
  assumes log_of: "log_of seq ops log" and ops: "list_all op_ok ops" "0 < unat seq" "unat seq + length ops < 2 ^ 31" and written: "\<And>m. ro_write_table options m = OK"
  shows "\<exists>w2 more. AddRecord Writable_Append Writable_Flush y log = Some (True, w2) \<and> more \<noteq> []
    \<and> file_content (lw_dest w2) = file_content (lw_dest log) @ more \<and> file_ok (lw_dest log)
    \<and> (\<forall>n f M. length (file_content (lw_dest log)) \<le> n \<longrightarrow> n < length (file_content (lw_dest w2)) \<longrightarrow> file_ok f \<longrightarrow>
         file_content f = take n (file_content (lw_dest w2)) \<longrightarrow> M \<le> seq - 1 \<longrightarrow>
         (\<exists>s. RecoverLogFile_loop options (recover_start f M) = Some s \<and> recovered s (numbered seq ops)
            \<and> (rec_max_sequence s = seq - 1 + of_nat (length ops) \<or> ops = [] \<and> rec_max_sequence s = M)))"
proof -
  obtain xs where xs: "log_records seq xs ops" "add_all Writable_Append Writable_Flush xs (Writer_new FileState_new) = Some (True, log)" using log_of by (auto simp: log_of_def)
  obtain fss where log: "list_all2 (fragments True) xs fss" "fits 0 (concat fss)" "file_content (lw_dest log) = layout 0 (concat fss)"
      "lw_block_offset log = end_off 0 (concat fss)" "file_ok (lw_dest log)"
    using memfile.add_all_layout [of "Writer_new FileState_new" xs] xs(2) content_new by (auto simp: Writer_new_def)
  obtain fs w2 where w2: "AddRecord Writable_Append Writable_Flush y log = Some (True, w2)" "fragments True y fs" "fits (end_off 0 (concat fss)) fs"
      "file_content (lw_dest w2) = layout 0 (concat fss) @ layout (end_off 0 (concat fss)) fs"
    using memfile.add_record_loop [OF log(5), of True y] fits_end [OF log(2)] log(3,4) unfolding AddRecord_def by metis
  have more: "layout (end_off 0 (concat fss)) fs \<noteq> []" using w2(2) by (cases fs) (auto simp: phys_def)
  have "\<exists>s. RecoverLogFile_loop options (recover_start f M) = Some s \<and> recovered s (numbered seq ops)
      \<and> (rec_max_sequence s = seq - 1 + of_nat (length ops) \<or> ops = [] \<and> rec_max_sequence s = M)"
    if n: "length (file_content (lw_dest log)) \<le> n" "n < length (file_content (lw_dest w2))" and f: "file_ok f" "file_content f = take n (file_content (lw_dest w2))"
      and M: "M \<le> seq - 1" for n f M
  proof -
    let ?s = "recover_start f M"
    define L where "L = layout (end_off 0 (concat fss)) fs"
    define m where "m = n - length (layout 0 (concat fss))"
    have unread: "sequential_unread (Sequential_new f) = layout 0 (concat fss) @ take m L" and cut: "drop m L \<noteq> []"
      using n f(2) unfolding log(3) w2(4) by (simp_all add: m_def L_def sequential_unread_def Sequential_new_def)
    have "sequential_ok (Sequential_new f)" using f(1) by (simp add: sequential_ok_def Sequential_new_def)
    then have at: "memfile.reader_at (rec_reader ?s) 0 (layout 0 (concat fss) @ take m L)" using memfile.reader_new [of "Sequential_new f" True] unread by (simp add: recover_start_def)
    have "\<exists>t. RecoverLogFile_loop options ?s = Some t \<and> recovered t ([] @ numbered seq ops)
        \<and> (rec_max_sequence t = seq - 1 + of_nat (length ops) \<or> ops = [] \<and> rec_max_sequence t = rec_max_sequence ?s)"
      by (rule recover_loop [OF at log(1) _ _ cut w2(2) xs(1)])
        (use log(2) w2(3) ops M written in \<open>simp_all add: fits_append L_def recovered_def recover_start_def\<close>)
    then show ?thesis by (simp add: recover_start_def)
  qed
  then show ?thesis using w2(1,4) more log(3,5) by auto
qed

text \<open>The memory tables that the recovery of a log has filled: those that it wrote out, and the one that it keeps\<close>
definition rec_filled :: "recovery \<Rightarrow> memtable list" where
  "rec_filled s = rec_written s @ (case rec_reused s of None \<Rightarrow> [] | Some (_, m) \<Rightarrow> [m])"

lemma recovered_filled:
  assumes run: "RecoverLogFile_loop options (recover_start f M) = Some s" and s: "recovered s es" and written: "\<And>m. ro_write_table options m = OK"
  shows "\<exists>t. RecoverLogFile options last_log (Inr f) M = Some (Inr t) \<and> rec_status t = OK \<and> rec_max_sequence t = rec_max_sequence s
    \<and> (\<not> last_log \<longrightarrow> rec_reused t = None) \<and> (\<exists>gss. list_all2 mem_holds (rec_filled t) gss \<and> es = concat gss)"
proof -
  obtain ess es' where es: "list_all2 mem_holds (rec_written s) ess" "es = concat ess @ es'" "case rec_mem s of None \<Rightarrow> es' = [] | Some m \<Rightarrow> mem_holds m es'"
      "rec_status s = OK" "rec_reused s = None" "rec_compactions s = 0 \<longrightarrow> rec_written s = []" using s by (auto simp: recovered_def)
  let ?t = "write_rest options (reuse_log options last_log s)"
  have t: "rec_status ?t = OK" "rec_max_sequence ?t = rec_max_sequence s" "\<not> last_log \<longrightarrow> rec_reused ?t = None"
    using es(4,5) written by (simp_all add: write_rest_def reuse_log_def write_level0_def split: option.splits prod.splits)
  have "\<exists>gss. list_all2 mem_holds (rec_filled ?t) gss \<and> es = concat gss"
  proof (cases "rec_reused ?t")
    case None
    then have "rec_written ?t = rec_written s @ (case rec_mem s of None \<Rightarrow> [] | Some m \<Rightarrow> [m])"
      using es(4) written by (auto simp: write_rest_def reuse_log_def write_level0_def split: option.splits if_splits)
    then show ?thesis using None es(1-3)
      by (intro exI [of _ "ess @ (case rec_mem s of None \<Rightarrow> [] | Some m \<Rightarrow> [es'])"]) (auto simp: rec_filled_def split: option.splits intro!: list_all2_appendI)
  next
    case (Some p)
    then have "rec_written s = []" "rec_written ?t = []" "snd p = (case rec_mem s of None \<Rightarrow> MemTable_new | Some m \<Rightarrow> m)"
      using es(4-6) by (auto simp: write_rest_def reuse_log_def write_level0_def split: option.splits if_splits)
    then show ?thesis using Some es(1-3) mem_holds_new by (intro exI [of _ "[es']"]) (auto simp: rec_filled_def split: option.splits prod.splits)
  qed
  then show ?thesis using run t by (simp add: RecoverLogFile_def)
qed

subsection \<open>All of the logs\<close>

definition dr_filled :: "db_recovery \<Rightarrow> memtable list" where
  "dr_filled r = dr_written r @ (case dr_reused r of None \<Rightarrow> [] | Some (_, m) \<Rightarrow> [m])"

text \<open>The old log, if there is one, is complete.\<close>

lemma recover_old_log:
  assumes db: "imm_holds (length a) b db" and ops: "list_all op_ok b" "length a + length b + 1 < 2 ^ 31" and written: "\<And>m. ro_write_table options m = OK" and logs: "logs \<noteq> []"
  shows "\<exists>M sm ms gss. Recover_logs options (map Inr (db_old_logs db) @ logs) \<lparr>dr_max_sequence = 0, dr_save_manifest = False, dr_written = [], dr_reused = None\<rparr>
      = Recover_logs options logs \<lparr>dr_max_sequence = M, dr_save_manifest = sm, dr_written = ms, dr_reused = None\<rparr>
    \<and> list_all2 mem_holds ms gss \<and> concat gss = numbered (seq_after (length a)) b
    \<and> unat M \<le> length (a @ b) \<and> (b \<noteq> [] \<longrightarrow> unat M = length (a @ b))"
proof (cases "db_imm db")
  case None
  then have "b = []" "db_old_logs db = []" using db by (simp_all add: imm_holds_def)
  then show ?thesis by (intro exI [of _ 0] exI [of _ False] exI [of _ "[]"]) simp
next
  case (Some imm)
  then obtain log where old: "db_old_logs db = [lw_dest log]" and log: "log_of (seq_after (length a)) b log" using db by (auto simp: imm_holds_def)
  have u: "unat (seq_after (length a)) = length a + 1" using ops(2) by (intro unat_seq_after) simp
  have pos: "0 < unat (seq_after (length a))" "unat (seq_after (length a)) + length b < 2 ^ 31" using u ops(2) by simp_all
  have "\<exists>s. RecoverLogFile_loop options (recover_start (lw_dest log) 0) = Some s \<and> recovered s (numbered (seq_after (length a)) b)
      \<and> (rec_max_sequence s = seq_after (length a) - 1 + of_nat (length b) \<or> b = [] \<and> rec_max_sequence s = 0)"
  proof -
    obtain w2 more where w2: "AddRecord Writable_Append Writable_Flush [] log = Some (True, w2)" "more \<noteq> []" "file_content (lw_dest w2) = file_content (lw_dest log) @ more" "file_ok (lw_dest log)"
      and whole: "\<And>n f M. length (file_content (lw_dest log)) \<le> n \<Longrightarrow> n < length (file_content (lw_dest w2)) \<Longrightarrow> file_ok f \<Longrightarrow>
         file_content f = take n (file_content (lw_dest w2)) \<Longrightarrow> M \<le> seq_after (length a) - 1 \<Longrightarrow>
         \<exists>s. RecoverLogFile_loop options (recover_start f M) = Some s \<and> recovered s (numbered (seq_after (length a)) b)
            \<and> (rec_max_sequence s = seq_after (length a) - 1 + of_nat (length b) \<or> b = [] \<and> rec_max_sequence s = M)"
      using recover_file [OF log ops(1) pos, of options "[]"] written by blast
    show ?thesis by (rule whole [of "length (file_content (lw_dest log))"]) (use w2 in simp_all)
  qed
  then obtain s where s: "RecoverLogFile_loop options (recover_start (lw_dest log) 0) = Some s" "recovered s (numbered (seq_after (length a)) b)"
      "rec_max_sequence s = seq_after (length a) - 1 + of_nat (length b) \<or> b = [] \<and> rec_max_sequence s = 0" by blast
  obtain t gss where t: "RecoverLogFile options False (Inr (lw_dest log)) 0 = Some (Inr t)" "rec_status t = OK" "rec_max_sequence t = rec_max_sequence s"
      "rec_reused t = None" "list_all2 mem_holds (rec_filled t) gss" "numbered (seq_after (length a)) b = concat gss"
    using recovered_filled [OF s(1,2) written, of False] by auto
  have "unat (of_nat (length a) + of_nat (length b) :: u64) = length (a @ b)" using unat_nat [of "length (a @ b)"] ops(2) by simp
  then have "unat (rec_max_sequence t) \<le> length (a @ b) \<and> (b \<noteq> [] \<longrightarrow> unat (rec_max_sequence t) = length (a @ b))" using s(3) t(3) by auto
  then show ?thesis using t(1,2,4-6) logs old
    by (intro exI [of _ "rec_max_sequence t"] exI [of _ "rec_save_manifest t"] exI [of _ "rec_written t"] exI [of _ gss]) (simp add: rec_filled_def)
qed

lemma recover_all:
  assumes db: "db_holds a b c db" and ops: "list_all op_ok (a @ b @ c)" "length (a @ b @ c) + 1 < 2 ^ 31" and written: "\<And>m. ro_write_table options m = OK"
  shows "\<exists>w2 more. AddRecord Writable_Append Writable_Flush y (db_log db) = Some (True, w2) \<and> more \<noteq> []
    \<and> file_content (lw_dest w2) = file_content (lw_dest (db_log db)) @ more \<and> file_ok (lw_dest (db_log db))
    \<and> (\<forall>n f. length (file_content (lw_dest (db_log db))) \<le> n \<longrightarrow> n < length (file_content (lw_dest w2)) \<longrightarrow> file_ok f \<longrightarrow>
         file_content f = take n (file_content (lw_dest w2)) \<longrightarrow>
         (\<exists>r gss. DBImpl_Recover options (map Inr (db_old_logs db) @ [Inr f]) (db_manifest_sequence db) = Some (OK, db_last_sequence db, r)
            \<and> list_all2 mem_holds (dr_filled r) gss \<and> concat gss = numbered (seq_after (length a)) (b @ c)))"
proof -
  have log: "log_of (seq_after (length (a @ b))) c (db_log db)" "imm_holds (length a) b db" and last: "db_last_sequence db = of_nat (length (a @ b @ c))"
      and man: "length a \<le> unat (db_manifest_sequence db)" "unat (db_manifest_sequence db) \<le> length (a @ b @ c)" using db by (simp_all add: db_holds_def)
  have u: "unat (seq_after (length (a @ b))) = length (a @ b) + 1" "unat (db_last_sequence db) = length (a @ b @ c)"
    unfolding last using ops(2) unat_seq_after [of "length (a @ b)"] unat_nat [of "length (a @ b @ c)"] by simp_all
  have c: "list_all op_ok c" "0 < unat (seq_after (length (a @ b)))" "unat (seq_after (length (a @ b))) + length c < 2 ^ 31"
    using ops u(1) by simp_all
  obtain w2 more where w2: "AddRecord Writable_Append Writable_Flush y (db_log db) = Some (True, w2)" "more \<noteq> []"
      "file_content (lw_dest w2) = file_content (lw_dest (db_log db)) @ more" "file_ok (lw_dest (db_log db))"
    and cut: "\<And>n f M. length (file_content (lw_dest (db_log db))) \<le> n \<Longrightarrow> n < length (file_content (lw_dest w2)) \<Longrightarrow> file_ok f \<Longrightarrow>
         file_content f = take n (file_content (lw_dest w2)) \<Longrightarrow> M \<le> seq_after (length (a @ b)) - 1 \<Longrightarrow>
         \<exists>s. RecoverLogFile_loop options (recover_start f M) = Some s \<and> recovered s (numbered (seq_after (length (a @ b))) c)
            \<and> (rec_max_sequence s = seq_after (length (a @ b)) - 1 + of_nat (length c) \<or> c = [] \<and> rec_max_sequence s = M)"
    using recover_file [OF log(1) c, of options y] written by blast
  have "\<exists>r gss. DBImpl_Recover options (map Inr (db_old_logs db) @ [Inr f]) (db_manifest_sequence db) = Some (OK, db_last_sequence db, r)
      \<and> list_all2 mem_holds (dr_filled r) gss \<and> concat gss = numbered (seq_after (length a)) (b @ c)"
    if f: "length (file_content (lw_dest (db_log db))) \<le> n" "n < length (file_content (lw_dest w2))" "file_ok f" "file_content f = take n (file_content (lw_dest w2))" for n f
  proof -
    obtain M sm ms gss where old: "Recover_logs options (map Inr (db_old_logs db) @ [Inr f]) \<lparr>dr_max_sequence = 0, dr_save_manifest = False, dr_written = [], dr_reused = None\<rparr>
        = Recover_logs options [Inr f] \<lparr>dr_max_sequence = M, dr_save_manifest = sm, dr_written = ms, dr_reused = None\<rparr>"
        "list_all2 mem_holds ms gss" "concat gss = numbered (seq_after (length a)) b" "unat M \<le> length (a @ b)" "b \<noteq> [] \<longrightarrow> unat M = length (a @ b)"
      using recover_old_log [OF log(2), of options "[Inr f]"] ops written by auto
    have "M \<le> seq_after (length (a @ b)) - 1" using old(4) unat_nat [of "length (a @ b)"] ops(2) by (simp add: word_le_nat_alt)
    from cut [OF f this] obtain s where s: "RecoverLogFile_loop options (recover_start f M) = Some s" "recovered s (numbered (seq_after (length (a @ b))) c)"
        "rec_max_sequence s = seq_after (length (a @ b)) - 1 + of_nat (length c) \<or> c = [] \<and> rec_max_sequence s = M" by blast
    obtain t hss where t: "RecoverLogFile options True (Inr f) M = Some (Inr t)" "rec_status t = OK" "rec_max_sequence t = rec_max_sequence s"
        "list_all2 mem_holds (rec_filled t) hss" "numbered (seq_after (length (a @ b))) c = concat hss"
      using recovered_filled [OF s(1,2) written, of True] by auto
    let ?r = "\<lparr>dr_max_sequence = rec_max_sequence t, dr_save_manifest = sm \<or> rec_save_manifest t, dr_written = ms @ rec_written t, dr_reused = rec_reused t\<rparr>"
    have "rec_max_sequence t = db_last_sequence db \<or> c = [] \<and> rec_max_sequence t = M" using s(3) t(3) last by (auto simp: algebra_simps)
    then have "(if db_manifest_sequence db < rec_max_sequence t then rec_max_sequence t else db_manifest_sequence db) = db_last_sequence db"
      using man old(4,5) u(2) by (intro word_unat_eq_iff [THEN iffD2]) (cases "b = []"; auto simp: word_less_nat_alt)
    then have "DBImpl_Recover options (map Inr (db_old_logs db) @ [Inr f]) (db_manifest_sequence db) = Some (OK, db_last_sequence db, ?r)"
      using old(1) t(1,2) by (simp add: DBImpl_Recover_def split del: if_split cong: if_cong)
    moreover have "list_all2 mem_holds (dr_filled ?r) (gss @ hss)" using old(2) t(4) by (simp add: dr_filled_def rec_filled_def list_all2_appendI)
    moreover have "concat (gss @ hss) = numbered (seq_after (length a)) (b @ c)" using old(3) t(5) by (simp add: numbered_app algebra_simps)
    ultimately show ?thesis by blast
  qed
  then show ?thesis using w2 by blast
qed

text \<open>
  C2. No acknowledged write is lost, and no half of a write appears.  The writers of a queue have been served, while the background thread ran at
  whatever times and memory tables and logs were switched; then the machine stops while one more record is being added to the current log, after
  any number of its bytes.  If tables can be written, recovery succeeds from the old log, where the old memory table was not compacted, and what
  is in the current one, also when it is told to be strict about errors.  It finds the sequence number of the last acknowledged write, which is
  the number of acknowledged writes; and at every snapshot every key has, in the memory tables that recovery fills from the logs, the later ones
  first and then in the tables on disk, what a lookup in the database gave before the stop.  This holds whenever recovery hands memory tables to
  \<^verbatim>\<open>WriteLevel0Table\<close>, and whether or not the last log is reused.
\<close>
theorem recovery_restores_writes:
  assumes "\<forall>w\<in>set ws. list_all op_ok (writer_ops w)" and "length (concat (map writer_ops ws)) < 2 ^ 31 - 1" and written: "\<forall>m. ro_write_table options m = OK"
    and run: "serve Writable_Sync too_large turns (map writer_of ws) db_new = Some (sts, db0)" and db: "db = fold BackgroundCall runs db0"
  shows "\<exists>w2 more. AddRecord Writable_Append Writable_Flush y (db_log db) = Some (True, w2)
    \<and> more \<noteq> [] \<and> file_content (lw_dest w2) = file_content (lw_dest (db_log db)) @ more \<and> file_ok (lw_dest (db_log db))
    \<and> (\<forall>n f. length (file_content (lw_dest (db_log db))) \<le> n \<longrightarrow> n < length (file_content (lw_dest w2)) \<longrightarrow> file_ok f \<longrightarrow>
         file_content f = take n (file_content (lw_dest w2)) \<longrightarrow>
         (\<exists>r. DBImpl_Recover options (map Inr (db_old_logs db) @ [Inr f]) (db_manifest_sequence db) = Some (OK, of_nat (length (acked sts ws)), r)
            \<and> (\<forall>current_get key q. length key + 8 < 2 ^ 32 \<longrightarrow> q \<le> kMaxSequenceNumber \<longrightarrow>
                 do { v \<leftarrow> get_tables (LookupKey_new key q) (rev (dr_filled r)); if v \<noteq> Unknown then Some v else current_get (LookupKey_new key q) }
                   = DBImpl_Get current_get (Some q) key db)))"
proof -
  have len: "length (acked sts ws) + 1 < 2 ^ 31" using acked_less [of sts ws] assms(2) by simp
  have "db_with (acked sts ws) db0" using serve_with [where sync = Writable_Sync, OF run db_new_with assms(1)] assms(2) by (simp add: Writable_Sync_def)
  then obtain a b c where abc: "acked sts ws = a @ b @ c" and h: "db_holds a b c db"
    using backgrounds_with [of "acked sts ws" db0 runs] len by (auto simp: db db_with_def)
  have "list_all op_ok (acked sts ws)" using assms(1) by (fastforce simp: acked_def list_all_iff dest: set_zip_rightD split: if_splits)
  then have ops: "list_all op_ok (a @ b @ c)" "length (a @ b @ c) + 1 < 2 ^ 31" using len abc by simp_all
  have last: "db_last_sequence db = of_nat (length (acked sts ws))" using h abc by (simp add: db_holds_def)
  have look: "do { v \<leftarrow> get_tables (LookupKey_new key q) (rev ms); if v \<noteq> Unknown then Some v else current_get (LookupKey_new key q) } = DBImpl_Get current_get (Some q) key db"
    if "list_all2 mem_holds ms gss" "concat gss = numbered (seq_after (length a)) (b @ c)" "length key + 8 < 2 ^ 32" "q \<le> kMaxSequenceNumber" for ms gss key q current_get
    using get_tables_holds [OF that(1,4,3)] get_in_memory [OF h _ that(3,4)] ops(2) that(2) by simp
  obtain w2 more where w2: "AddRecord Writable_Append Writable_Flush y (db_log db) = Some (True, w2)" "more \<noteq> []"
      "file_content (lw_dest w2) = file_content (lw_dest (db_log db)) @ more" "file_ok (lw_dest (db_log db))"
    and cut: "\<And>n f. length (file_content (lw_dest (db_log db))) \<le> n \<Longrightarrow> n < length (file_content (lw_dest w2)) \<Longrightarrow> file_ok f \<Longrightarrow> file_content f = take n (file_content (lw_dest w2)) \<Longrightarrow>
         \<exists>r gss. DBImpl_Recover options (map Inr (db_old_logs db) @ [Inr f]) (db_manifest_sequence db) = Some (OK, db_last_sequence db, r)
            \<and> list_all2 mem_holds (dr_filled r) gss \<and> concat gss = numbered (seq_after (length a)) (b @ c)"
    using recover_all [OF h ops, of options y] written by blast
  have "\<exists>r. DBImpl_Recover options (map Inr (db_old_logs db) @ [Inr f]) (db_manifest_sequence db) = Some (OK, of_nat (length (acked sts ws)), r)
      \<and> (\<forall>current_get key q. length key + 8 < 2 ^ 32 \<longrightarrow> q \<le> kMaxSequenceNumber \<longrightarrow>
           do { v \<leftarrow> get_tables (LookupKey_new key q) (rev (dr_filled r)); if v \<noteq> Unknown then Some v else current_get (LookupKey_new key q) }
             = DBImpl_Get current_get (Some q) key db)"
    if f: "length (file_content (lw_dest (db_log db))) \<le> n" "n < length (file_content (lw_dest w2))" "file_ok f" "file_content f = take n (file_content (lw_dest w2))" for n f
  proof -
    obtain r gss where r: "DBImpl_Recover options (map Inr (db_old_logs db) @ [Inr f]) (db_manifest_sequence db) = Some (OK, db_last_sequence db, r)"
        "list_all2 mem_holds (dr_filled r) gss" "concat gss = numbered (seq_after (length a)) (b @ c)" using cut [OF f] by blast
    show ?thesis using r(1) last look [OF r(2,3)] by (intro exI [of _ r]) simp
  qed
  then show ?thesis using w2 by blast
qed

theorem recovery_restores_writes_witness:
  "\<exists>db r. serve Writable_Sync (\<lambda>_. False) (replicate 3 quiet_turn)
      (map writer_of [(Some [BPut [1] [7]], True), (None, False), (Some [BPut [2] [8]], False)]) db_new = Some ([OK, OK, OK], db)
     \<and> DBImpl_Recover \<lparr>ro_paranoid_checks = True, ro_too_large = (\<lambda>_. True), ro_write_table = (\<lambda>_. OK), ro_reuse_logs = True, ro_reopen = None\<rparr>
         (map Inr (db_old_logs db) @ [Inr (lw_dest (db_log db))]) (db_manifest_sequence db) = Some (OK, 2, r)"
proof -
  let ?ws = "[(Some [BPut [1] [7]], True), (None, False), (Some [BPut [2] [8]], False)]"
  let ?o = "\<lparr>ro_paranoid_checks = True, ro_too_large = (\<lambda>_. True), ro_write_table = (\<lambda>_. OK), ro_reuse_logs = True, ro_reopen = None\<rparr>"
  have ws: "\<forall>w\<in>set ?ws. list_all op_ok (writer_ops w)" "length (concat (map writer_ops ?ws)) < 2 ^ 31 - 1" "\<forall>m. ro_write_table ?o m = OK"
    by (simp_all add: writer_ops_def)
  obtain db where db: "serve Writable_Sync (\<lambda>_. False) (replicate 3 quiet_turn) (map writer_of ?ws) db_new = Some ([OK, OK, OK], db)"
    using quiet_run [OF ws(1), of 3] by (auto simp: writer_ops_def numeral_3_eq_3)
  have acked: "of_nat (length (acked [OK, OK, OK] ?ws)) = (2 :: u64)" by (simp add: acked_def writer_ops_def)
  have "db = fold BackgroundCall [] db" by simp
  from recovery_restores_writes [OF ws db this, of "[]", unfolded acked]
  have "\<exists>r. DBImpl_Recover ?o (map Inr (db_old_logs db) @ [Inr (lw_dest (db_log db))]) (db_manifest_sequence db) = Some (OK, 2, r)"
  proof (elim exE conjE)
    fix w2 more
    assume w: "more \<noteq> []" "file_content (lw_dest w2) = file_content (lw_dest (db_log db)) @ more" "file_ok (lw_dest (db_log db))"
    assume "\<forall>n f. length (file_content (lw_dest (db_log db))) \<le> n \<longrightarrow> n < length (file_content (lw_dest w2)) \<longrightarrow> file_ok f \<longrightarrow>
        file_content f = take n (file_content (lw_dest w2)) \<longrightarrow>
        (\<exists>r. DBImpl_Recover ?o (map Inr (db_old_logs db) @ [Inr f]) (db_manifest_sequence db) = Some (OK, 2, r) \<and>
           (\<forall>current_get key q. length key + 8 < 2 ^ 32 \<longrightarrow> q \<le> kMaxSequenceNumber \<longrightarrow>
              do { v \<leftarrow> get_tables (LookupKey_new key q) (rev (dr_filled r)); if v \<noteq> Unknown then Some v else current_get (LookupKey_new key q) }
                = DBImpl_Get current_get (Some q) key db))"
    from this [rule_format, of "length (file_content (lw_dest (db_log db)))" "lw_dest (db_log db)"] show ?thesis using w by auto
  qed
  then show ?thesis using db by blast
qed

end
