(* ===== verification/Spec2Isabelle.thy ===== *)
theory Spec2Isabelle
  imports Prelude Uint HashTrees BitChain OrderedTree Credits Transactions ShortHash Work Polynomial SecretSharing Base58 TextCodecs Containers StdMap RelayState RelayChain NetAddr Serialize Double AddrMan Calendar CalendarRelays Wallet History LevelCoding LevelFormat SkipList MemTable Crc32c MemEnv LevelLog DbImpl
begin

text \<open>
  A verification of Teleport: its numbers, encodings and serialisation, its hash trees, credits and transactions, its proof
  of work and secret sharing, its calendar and wallet, its registry of relays, its management of network addresses, and the write path of its database.

  \<^bold>\<open>The program.\<close>  Credits are mined in batches.  A batch commits to its credits by the root of a tree over their sorted
  serialised bytes (\<^verbatim>\<open>src/crypto/hashtrees.h\<close>, \<^verbatim>\<open>src/credits\<close>); a transaction spends credits of batches, which it proves
  with branches, and a chain of bits records what is spent.  Batches of a day form a diurnal block, a tree again, which
  the calendar closes with a calend (\<^verbatim>\<open>src/teleportnode/calendar.cpp\<close>); the wallet holds credits, spends them and proves them
  with branches up to a calend (\<^verbatim>\<open>src/teleportnode/wallet.cpp\<close>).  Mining is a
  search for a nonce below a target (\<^verbatim>\<open>src/mining/work.cpp\<close>), with numbers of the templates of \<^verbatim>\<open>src/crypto/uint256.h\<close>.
  Lists of hashes travel as short hashes (\<^verbatim>\<open>src/crypto/shorthash.h\<close>).  Relays are nodes that keep shares of keys for others;
  who they are and who takes over from a dead relay is decided by messages that every node replays
  (\<^verbatim>\<open>src/relays/relaystate.cpp\<close>), and the shares come from \<^verbatim>\<open>src/crypto/teleportcrypto.cpp\<close>.  Nodes find one another through
  the address manager (\<^verbatim>\<open>src/net/addrman.cpp\<close>) and talk in the format of \<^verbatim>\<open>src/base/serialize.h\<close>.  The databases are kept by
  LevelDB (\<^verbatim>\<open>src/leveldb\<close>): a write goes in a batch to a log file and to a sorted table in memory, from which reads are served, and
  after a stop the log gives the table back.

  \<^bold>\<open>How the model is built.\<close>  A class is a \<^theory_text>\<open>record\<close>, an enumeration a \<^theory_text>\<open>datatype\<close>, an integer a machine word where
  its width can matter and otherwise an integer or a natural number, a \<^verbatim>\<open>std::map\<close> the list of its entries in order
  (\<^verbatim>\<open>StdMap\<close>), a function that changes an object a function that returns the changed object.  A thrown exception, a failed
  assertion and undefined behaviour are values (\<open>None\<close>, or a constructor of an error type), so that a theorem that says what
  is returned also says that they do not happen.  Code that is not in the sources (hash functions, the curve, the random
  source, the message database) is an argument of the definitions, and a theorem names what it relies on as a hypothesis.

  \<^bold>\<open>Theories\<close>, each with the source it models, its state and what is shown.

  \<^item> \<^verbatim>\<open>Prelude\<close>: machine types, memory images of integers, the locale \<open>machine_digit\<close>, lemmas on lists.
  \<^item> \<^verbatim>\<open>StdMap\<close>: ordered maps; what a lookup gives after an insertion or a removal.
  \<^item> \<^verbatim>\<open>Uint\<close> (\<^verbatim>\<open>src/crypto/uint256.h\<close>): every operator of \<^verbatim>\<open>base_uint\<close> on its list of limbs, with text and bytes.  The operators
    implement machine words of 160 and 256 bits (locale \<open>wide_uint\<close>); the division returns the quotient, except for the
    divisors for which it reports an error or never returns.
  \<^item> \<^verbatim>\<open>HashTrees\<close>, \<^verbatim>\<open>BitChain\<close>, \<^verbatim>\<open>OrderedTree\<close> (\<^verbatim>\<open>src/crypto/hashtrees.h\<close>): nodes with caches, diurnal blocks, packed bits, the
    sorted tree over a heap of elements.  Caches are transparent, branches lead to the root, members verify, bits are a list up to the
    lengths that the conversions of the code can count.
  \<^item> \<^verbatim>\<open>Credits\<close>, \<^verbatim>\<open>Transactions\<close> (\<^verbatim>\<open>src/credits\<close>, \<^verbatim>\<open>src/crypto/signature.h\<close>): batches and their branches, validation, fees, hashes, signatures.
    A validated transaction creates no value and its fees are known up to the overflow of the signed subtraction, validation is characterised exactly, signing gives what the check accepts.
  \<^item> \<^verbatim>\<open>ShortHash\<close> (\<^verbatim>\<open>src/crypto/shorthash.h\<close>): the search over candidates is sound and complete within its limits, beyond which
    only a known solution is taken, and the bound of the search is exact.
  \<^item> \<^verbatim>\<open>Work\<close> (\<^verbatim>\<open>src/mining/work.cpp\<close>): targets, difficulties and the outcome of the search for a nonce.
  \<^item> \<^verbatim>\<open>Polynomial\<close>, \<^verbatim>\<open>SecretSharing\<close> (\<^verbatim>\<open>src/crypto/polynomial.cpp\<close>, \<^verbatim>\<open>teleportcrypto.cpp\<close>): interpolation, recovery of a
    key from enough shares, also among forged ones, the public check, encrypted pieces.
  \<^item> \<^verbatim>\<open>Base58\<close>, \<^verbatim>\<open>TextCodecs\<close> (\<^verbatim>\<open>src/base/base58.cpp\<close>, \<^verbatim>\<open>util_hex.cpp\<close>, \<^verbatim>\<open>base64.h\<close>): texts read back and are canonical.
  \<^item> \<^verbatim>\<open>Containers\<close> (\<^verbatim>\<open>src/base/mruset.h\<close>, \<^verbatim>\<open>limitedmap.h\<close>): the two halves of each container agree after every operation.
  \<^item> \<^verbatim>\<open>RelayState\<close>, \<^verbatim>\<open>RelayChain\<close> (\<^verbatim>\<open>src/relays/relaystate.cpp\<close>): the registry, the choice of relays, the validation, the
    handler and the inverse handler of every message, batches.  Any list of messages keeps the registry well formed; a relay
    is dead after exactly five succession messages; taking back a message restores what it changed.
  \<^item> \<^verbatim>\<open>Serialize\<close> (\<^verbatim>\<open>src/base/serialize.h\<close>): the stream is a queue of bytes; sizes, integers, strings, vectors, maps and sets read
    back, by the locale \<open>serialisable\<close> and its sublocales; encodings are canonical.
  \<^item> \<^verbatim>\<open>Double\<close>: the numbers of type \<^verbatim>\<open>double\<close> with their rounding, infinities and the missing number; the error of a rounding.
  \<^item> \<^verbatim>\<open>NetAddr\<close>, \<^verbatim>\<open>AddrMan\<close> (\<^verbatim>\<open>src/net/netbase.cpp\<close>, \<^verbatim>\<open>addrman.cpp\<close>): addresses and their groups; the tables of new and tried
    addresses.  Any sequence of calls keeps the manager consistent, and its selections end, with the roundings of their chances.
  \<^item> \<^verbatim>\<open>Calendar\<close>, \<^verbatim>\<open>CalendarRelays\<close> (\<^verbatim>\<open>src/teleportnode/calendar.cpp\<close>): difficulties, diurns, calends, top-up work, the calendar with its
    database and its checks; what it needs of the recording of relay states (locale \<open>relay_recording\<close>), and the relay chain as its provider.  Credits that are prepared from the calendar extend it to one that passes its own check; adjustments of the
    difficulty add up; a credit of a closed diurn connects to the calendar.
  \<^item> \<^verbatim>\<open>Wallet\<close> (\<^verbatim>\<open>src/teleportnode/wallet.cpp\<close>): keys, credits held and spent, batches, payments, imports.  A payment conserves
    value, the wallet takes exactly the credits that it can spend and that connect, and the branch it adds convinces others.

  \<^item> \<^verbatim>\<open>History\<close> (\<^verbatim>\<open>src/credits/creditutil.cpp\<close>): walks along the history of credits, the fork of two branches, what changes between
    them, the chain of spent credits, fees.  The chain follows the branch, and exactly what only one branch has is added or deleted.
  \<^item> \<^verbatim>\<open>LevelCoding\<close>, \<^verbatim>\<open>Crc32c\<close> (\<^verbatim>\<open>src/leveldb/util/coding.cc\<close>, \<^verbatim>\<open>crc32c.cc\<close>): integers of fixed and variable length and checksums.  They read
    back; the tables, four bytes at a time, compute the division by the polynomial.
  \<^item> \<^verbatim>\<open>LevelFormat\<close>, \<^verbatim>\<open>SkipList\<close>, \<^verbatim>\<open>MemTable\<close> (\<^verbatim>\<open>src/leveldb/db/dbformat.cc\<close>, \<^verbatim>\<open>skiplist.h\<close>, \<^verbatim>\<open>memtable.cc\<close>, \<^verbatim>\<open>write_batch.cc\<close>): keys and
    comparators (locales \<open>key_order\<close>, \<open>comparator\<close>, \<open>user_comparator\<close>), the skip list as a heap of nodes with their links, the memory
    table and batches.  The skip list is a sorted list, and a lookup sees the last write up to its snapshot.
  \<^item> \<^verbatim>\<open>MemEnv\<close>, \<^verbatim>\<open>LevelLog\<close>, \<^verbatim>\<open>DbImpl\<close> (\<^verbatim>\<open>src/leveldb/helpers/memenv/memenv.cc\<close>, \<^verbatim>\<open>db/log_writer.cc\<close>, \<^verbatim>\<open>log_reader.cc\<close>, \<^verbatim>\<open>db_impl.cc\<close>): files in
    memory, what a log needs of a file (locale \<open>file_interface\<close>), the writer and the reader of a log, groups of writers, the room that is made
    for them by switching memory tables and logs, the background thread that compacts memory tables, reads and
    recovery.  A log that is cut anywhere gives the complete records; the database is a map of the writes that are not in tables yet, and asks the
    tables for the others; recovery restores every write that only the logs have.

  \<^bold>\<open>Bounds and loops.\<close>  Loops are structural recursions or have a termination proof.  The loops that may run forever are partial
  functions into \<open>option\<close> (the division of \<^verbatim>\<open>Uint\<close> and what uses it, the search of \<^verbatim>\<open>Work\<close>, the walks of
  \<^verbatim>\<open>Calendar\<close> and \<^verbatim>\<open>History\<close> along the chain, the searches of \<^verbatim>\<open>SkipList\<close>, the loops of \<^verbatim>\<open>LevelLog\<close> and \<^verbatim>\<open>DbImpl\<close>) or take the sequence of their
  draws or of what other threads do (the selection of \<^verbatim>\<open>AddrMan\<close>, the choice of relays, the waits of \<^verbatim>\<open>DbImpl\<close>), and theorems say when they return.  Signed counters that
  overflow are undefined, so \<open>addrman_consistent\<close> bounds the number of calls by the largest \<^verbatim>\<open>int\<close>; a stream has less than
  two gigabytes, the range of the \<^verbatim>\<open>int\<close> arguments of its functions, and a chain of bits that is resized no more bytes than an \<^verbatim>\<open>int\<close>
  can count; a database has less than \<open>2\<^sup>3\<^sup>1\<close> writes in its log, so that a
  group of them has a count.

  \<^bold>\<open>Not modelled.\<close>  Sockets, threads, files, process start, the RPC server and text formatting are input and output.  The
  trading and deposit protocols run on node databases whose header (\<^verbatim>\<open>database/data.h\<close>) is not part of the sources; where the
  calendar and the wallet read or write such a database, its entries are fields of their state or of their environment.
  Cryptographic primitives and JSON are bundled libraries.  Of LevelDB, the tables on disk with their compactions, caches and iterators,
  the choice of files at start, file numbers and the files of the operating system are not modelled: the model says which memory tables were handed to
  \<^verbatim>\<open>WriteLevel0Table\<close>, and the answer of the tables to a lookup is an argument of which nothing is assumed.
  Serialisation macros of single messages only list their fields.  Locks are left out, as every operation runs under its lock; where the database
  releases its lock, the runs of its background thread are arguments.
\<close>

end
